(* ===== verification/Prelude.thy ===== *)
theory Prelude
  imports Complex_Main
begin

text \<open>
  The vocabulary the components share: C++ machine integers as \<open>nat\<close> and \<open>int\<close> with the
  wrap-around written out (\<open>size_t\<close> is 64 bits wide, \<open>int\<close> 32), exceptions as the left side of
  a sum, decimal printing (\<open>std::to_string\<close> and \<open>operator<<\<close> on integers), generic list
  facts about counting and summing along an index, and the interface of a system with an
  invariant, which the stateful components instantiate with their own step relations.
\<close>

section \<open>Hint collections\<close>

named_theorems machine_int
  \<open>wrap-around arithmetic that does not wrap\<close>

named_theorems result_simps
  \<open>unfolding of the exception monad\<close>

section \<open>Machine integers\<close>

text \<open>
  \<open>size_t\<close> values are natural numbers below \<open>2 ^ 64\<close>; the operations below are the C++
  operators on them. \<open>i32\<close> is \<open>static_cast<int>\<close> of a wider integer and \<open>u64_of_int\<close> is
  \<open>static_cast<size_t>\<close> of a signed one.
\<close>

type_synonym size_t = nat

definition size_max :: nat where
  "size_max = 2 ^ 64 - 1"

definition wadd :: "nat \<Rightarrow> nat \<Rightarrow> nat" where
  "wadd a b = (a + b) mod 2 ^ 64"

definition wmul :: "nat \<Rightarrow> nat \<Rightarrow> nat" where
  "wmul a b = (a * b) mod 2 ^ 64"

definition wsub :: "nat \<Rightarrow> nat \<Rightarrow> nat" where
  "wsub a b = nat ((int a - int b) mod 2 ^ 64)"

definition i32 :: "int \<Rightarrow> int" where
  "i32 x = (x + 2 ^ 31) mod 2 ^ 32 - 2 ^ 31"

definition u64_of_int :: "int \<Rightarrow> nat" where
  "u64_of_int x = nat (x mod 2 ^ 64)"

definition i64_of_nat :: "nat \<Rightarrow> int" where
  "i64_of_nat n = (int n + 2 ^ 63) mod 2 ^ 64 - 2 ^ 63"

text \<open>C++ division and remainder on signed integers round towards zero.\<close>

definition c_div :: "int \<Rightarrow> int \<Rightarrow> int" where
  "c_div a b = sgn a * sgn b * (\<bar>a\<bar> div \<bar>b\<bar>)"

definition c_mod :: "int \<Rightarrow> int \<Rightarrow> int" where
  "c_mod a b = a - b * c_div a b"

lemma wadd_exact [machine_int]: "a + b < 2 ^ 64 \<Longrightarrow> wadd a b = a + b"
  by (simp add: wadd_def)

lemma wmul_exact [machine_int]: "a * b < 2 ^ 64 \<Longrightarrow> wmul a b = a * b"
  by (simp add: wmul_def)

lemma wsub_exact [machine_int]: "b \<le> a \<Longrightarrow> a < 2 ^ 64 \<Longrightarrow> wsub a b = a - b"
  by (simp add: wsub_def flip: of_nat_diff)

lemma i32_exact [machine_int]: "- (2 ^ 31) \<le> x \<Longrightarrow> x < 2 ^ 31 \<Longrightarrow> i32 x = x"
  by (simp add: i32_def)

lemma i32_nat_exact [machine_int]: "n < 2 ^ 31 \<Longrightarrow> i32 (int n) = int n"
  by (rule i32_exact) simp_all

lemma u64_of_int_exact [machine_int]: "0 \<le> x \<Longrightarrow> x < 2 ^ 64 \<Longrightarrow> u64_of_int x = nat x"
  by (simp add: u64_of_int_def)

lemma u64_of_int_less [simp]: "u64_of_int x < 18446744073709551616"
  by (simp add: u64_of_int_def nat_less_iff)

lemma i64_of_nat_exact [machine_int]: "n < 2 ^ 63 \<Longrightarrow> i64_of_nat n = int n"
  by (simp add: i64_of_nat_def)

lemma c_div_nonneg: "0 \<le> a \<Longrightarrow> 0 < b \<Longrightarrow> c_div a b = a div b"
  by (cases "a = 0") (simp_all add: c_div_def)

lemma c_mod_nonneg: "0 \<le> a \<Longrightarrow> 0 < b \<Longrightarrow> c_mod a b = a mod b"
  by (simp add: c_mod_def c_div_nonneg minus_mult_div_eq_mod)

section \<open>Exceptions\<close>

text \<open>
  The exceptions the sources throw, and undefined behaviour for the operations the language
  leaves undefined (an unchecked index out of range, a division by zero).
\<close>

datatype cpp_error =
    InvalidArgument string
  | OutOfRange string
  | LengthError string
  | BadAlloc
  | RuntimeError string
  | UndefinedBehavior

type_synonym 'a result = "cpp_error + 'a"

fun bind_result :: "'a result \<Rightarrow> ('a \<Rightarrow> 'b result) \<Rightarrow> 'b result" where
  "bind_result (Inl e) f = Inl e"
| "bind_result (Inr x) f = f x"

lemma bind_result_Inr_iff [result_simps]:
  "bind_result m f = Inr y \<longleftrightarrow> (\<exists>x. m = Inr x \<and> f x = Inr y)"
  by (cases m) auto

lemma bind_result_Inl_iff [result_simps]:
  "bind_result m f = Inl e \<longleftrightarrow> m = Inl e \<or> (\<exists>x. m = Inr x \<and> f x = Inl e)"
  by (cases m) auto

text \<open>A loop whose body may throw: the first exception ends it.\<close>

fun fold_result :: "('a \<Rightarrow> 's \<Rightarrow> 's result) \<Rightarrow> 'a list \<Rightarrow> 's \<Rightarrow> 's result" where
  "fold_result f [] s = Inr s"
| "fold_result f (x # xs) s = bind_result (f x s) (fold_result f xs)"

lemma fold_result_append:
  "fold_result f (xs @ ys) s = bind_result (fold_result f xs s) (fold_result f ys)"
proof (induction xs arbitrary: s)
  case Nil
  then show ?case by simp
next
  case (Cons x xs)
  then show ?case by (cases "f x s") simp_all
qed

lemma fold_result_total:
  assumes "\<And>x s. x \<in> set xs \<Longrightarrow> f x s = Inr (g x s)"
  shows "fold_result f xs s = Inr (fold g xs s)"
  using assms by (induction xs arbitrary: s) simp_all

text \<open>Signed arithmetic that leaves the range of \<open>int\<close> is undefined.\<close>

definition check32 :: "int \<Rightarrow> int result" where
  "check32 x = (if - (2 ^ 31) \<le> x \<and> x < 2 ^ 31 then Inr x else Inl UndefinedBehavior)"

lemma check32_exact [machine_int]: "0 \<le> x \<Longrightarrow> x < 2 ^ 31 \<Longrightarrow> check32 x = Inr x"
  by (simp add: check32_def)

section \<open>Decimal printing\<close>

definition digit_char :: "nat \<Rightarrow> char" where
  "digit_char d = char_of (48 + d)"

fun nat_to_string :: "nat \<Rightarrow> string" where
  "nat_to_string n =
     (if n < 10 then [digit_char n] else nat_to_string (n div 10) @ [digit_char (n mod 10)])"

declare nat_to_string.simps [simp del]

definition int_to_string :: "int \<Rightarrow> string" where
  "int_to_string i =
     (if i < 0 then CHR ''-'' # nat_to_string (nat (- i)) else nat_to_string (nat i))"

definition bool_to_string :: "bool \<Rightarrow> string" where
  "bool_to_string b = (if b then ''true'' else ''false'')"

lemma digit_char_inj: "c < 10 \<Longrightarrow> d < 10 \<Longrightarrow> digit_char c = digit_char d \<Longrightarrow> c = d"
  by (auto simp: digit_char_def dest!: arg_cong [where f = "of_char :: char \<Rightarrow> nat"])

lemma nat_to_string_nonempty [simp]: "nat_to_string n \<noteq> []"
  by (subst nat_to_string.simps) simp

lemma nat_to_string_small: "n < 10 \<Longrightarrow> nat_to_string n = [digit_char n]"
  by (subst nat_to_string.simps) simp

lemma nat_to_string_big:
  "\<not> n < 10 \<Longrightarrow> nat_to_string n = nat_to_string (n div 10) @ [digit_char (n mod 10)]"
  by (subst nat_to_string.simps) simp

lemma nat_to_string_nonempty' [simp]: "[] \<noteq> nat_to_string n"
  by (rule nat_to_string_nonempty [THEN not_sym])

lemma nat_to_string_inj: "nat_to_string m = nat_to_string n \<Longrightarrow> m = n"
proof (induction m arbitrary: n rule: nat_to_string.induct)
  case (1 m)
  consider "m < 10" "n < 10" | "m < 10" "\<not> n < 10" | "\<not> m < 10" "n < 10" | "\<not> m < 10" "\<not> n < 10"
    by blast
  then show ?case
  proof cases
    case 1
    with "1.prems" show ?thesis by (auto simp: nat_to_string_small dest: digit_char_inj)
  next
    case 2
    with "1.prems" show ?thesis by (simp add: nat_to_string_small nat_to_string_big)
  next
    case 3
    with "1.prems" show ?thesis by (simp add: nat_to_string_small nat_to_string_big)
  next
    case 4
    with "1.prems" have eq: "nat_to_string (m div 10) = nat_to_string (n div 10)"
      and d: "digit_char (m mod 10) = digit_char (n mod 10)"
      by (simp_all add: nat_to_string_big)
    from "1.IH" [OF 4(1) eq] have "m div 10 = n div 10" .
    moreover from digit_char_inj [OF _ _ d] have "m mod 10 = n mod 10" by simp
    ultimately show ?thesis by (metis div_mult_mod_eq)
  qed
qed

section \<open>Lists\<close>

lemma filter_length_less: "x \<in> set xs \<Longrightarrow> \<not> P x \<Longrightarrow> length (filter P xs) < length xs"
  by (induction xs) (auto simp: le_imp_less_Suc)

lemma find_index_SomeD:
  "find P [0..<n] = Some i \<Longrightarrow> i < n \<and> P i \<and> (\<forall>j < i. \<not> P j)"
  by (auto simp: find_Some_iff)

lemma find_index_NoneD: "find P [0..<n] = None \<Longrightarrow> i < n \<Longrightarrow> \<not> P i"
  by (auto simp: find_None_iff)

lemma sum_list_map_list_update:
  fixes f :: "'a \<Rightarrow> nat"
  assumes "i < length xs"
  shows "sum_list (map f (xs[i := x])) + f (xs ! i) = sum_list (map f xs) + f x"
  using assms
proof (induction xs arbitrary: i)
  case (Cons y ys)
  then show ?case by (cases i) (simp_all add: add.assoc)
qed simp

lemma length_filter_list_update:
  assumes "i < length xs"
  shows "length (filter P (xs[i := x])) + of_bool (P (xs ! i))
    = length (filter P xs) + of_bool (P x)"
  using assms
proof (induction xs arbitrary: i)
  case (Cons y ys)
  show ?case
  proof (cases i)
    case (Suc j)
    with Cons have "length (filter P (ys[j := x])) + of_bool (P (ys ! j))
      = length (filter P ys) + of_bool (P x)" by simp
    with Suc show ?thesis by simp
  qed simp
qed simp

lemma row_major_less:
  fixes r c rows cols :: nat
  assumes "r < rows" "c < cols"
  shows "r * cols + c < rows * cols"
proof -
  from assms have "r * cols + c < r * cols + cols" by simp
  also have "\<dots> = Suc r * cols" by simp
  also have "\<dots> \<le> rows * cols" using assms by (intro mult_le_mono1) simp
  finally show ?thesis .
qed

lemma row_major_inj:
  fixes r c r' c' cols :: nat
  assumes "c < cols" "c' < cols" "r * cols + c = r' * cols + c'"
  shows "r = r' \<and> c = c'"
proof -
  from assms have "(r * cols + c) div cols = (r' * cols + c') div cols" by simp
  with assms(1,2) have "r = r'" by simp
  with assms(3) show ?thesis by simp
qed

section \<open>Lists linked through memory\<close>

text \<open>
  \<open>linked link a xs\<close>: the cells \<open>xs\<close>, each holding the address of the next, start at \<open>a\<close> and end
  in a null pointer.
\<close>

fun linked :: "(nat \<Rightarrow> nat) \<Rightarrow> nat \<Rightarrow> nat list \<Rightarrow> bool" where
  "linked link a [] = (a = 0)"
| "linked link a (x # xs) = (a = x \<and> x \<noteq> 0 \<and> linked link (link x) xs)"

lemma linked_update [simp]: "p \<notin> set xs \<Longrightarrow> linked (link(p := v)) a xs \<longleftrightarrow> linked link a xs"
  by (induction xs arbitrary: a) auto

lemma linked_nonzero: "linked link a xs \<Longrightarrow> 0 \<notin> set xs"
  by (induction xs arbitrary: a) auto

lemma linked_unique: "linked link a xs \<Longrightarrow> linked link a ys \<Longrightarrow> xs = ys"
proof (induction xs arbitrary: a ys)
  case Nil
  then show ?case by (cases ys) auto
next
  case (Cons x xs)
  then show ?case by (cases ys) auto
qed

lemma linked_head: "linked link a xs \<Longrightarrow> a \<noteq> 0 \<Longrightarrow> \<exists>ys. xs = a # ys \<and> linked link (link a) ys"
  by (cases xs) auto

lemma linked_mem: "linked link a xs \<Longrightarrow> a \<noteq> 0 \<Longrightarrow> a \<in> set xs"
  by (cases xs) auto

lemma linked_cong: "(\<And>q. q \<in> set xs \<Longrightarrow> link' q = link q) \<Longrightarrow> linked link' a xs = linked link a xs"
  by (induction xs arbitrary: a) auto

lemma linked_tail: "linked link a (ys @ x # zs) \<Longrightarrow> linked link x (x # zs)"
  by (induction ys arbitrary: a) auto

lemma linked_distinct: "linked link a xs \<Longrightarrow> distinct xs"
proof (induction xs arbitrary: a)
  case (Cons x xs)
  have "x \<notin> set xs"
  proof
    assume "x \<in> set xs"
    then obtain ys zs where xs: "xs = ys @ x # zs" by (meson split_list)
    from Cons.prems have all: "linked link x (x # xs)" by simp
    then have "linked link x (x # zs)" using linked_tail [of link "link x" ys x zs] xs by simp
    from linked_unique [OF all this] xs show False by simp
  qed
  with Cons show ?case by auto
qed simp

section \<open>Systems with an invariant\<close>

text \<open>
  A component whose methods run one at a time (each takes the component's mutex for its whole
  body) is a set of start states and a step relation, one step per call. What every start
  state has and every step keeps holds in every reachable state.
\<close>

locale invariant_system =
  fixes start :: "'s \<Rightarrow> bool"
    and step :: "'s \<Rightarrow> 's \<Rightarrow> bool"
    and invar :: "'s \<Rightarrow> bool"
  assumes start_invar: "start s \<Longrightarrow> invar s"
    and step_invar: "invar s \<Longrightarrow> step s t \<Longrightarrow> invar t"
begin

lemma steps_invar: "step\<^sup>*\<^sup>* s t \<Longrightarrow> invar s \<Longrightarrow> invar t"
  by (induction rule: rtranclp_induct) (auto intro: step_invar)

lemma reachable_invar: "start s \<Longrightarrow> step\<^sup>*\<^sup>* s t \<Longrightarrow> invar t"
  by (blast intro: steps_invar start_invar)

end

end
