(* ===== verification/Paged_KV.thy ===== *)
theory Paged_KV
  imports Prelude "HOL-Library.Word"
begin

text \<open>
  The paged KV cache (\<open>PagedKV\<close> of include/gpuforge/memory.hpp and src/memory.cpp): a pool of
  fixed-size pages, and per sequence the list of the pages that hold its bytes. The abstract
  view of a state is one byte string per sequence (\<open>seq_content\<close>); \<open>append\<close> extends one of
  them or fails without changing any, \<open>read\<close> returns a slice, \<open>release_sequence\<close> empties one.

  Every method takes the object's mutex for its whole body, so a call is one step. Vectors are
  lists; an index the source does not check (\<open>pages_[id]\<close>) is \<open>!\<close>, whose value out of range is
  as unknown as the source's. The write loop of \<open>append\<close> is a \<open>partial_function\<close>: that it ends
  is part of what is proved.
\<close>

section \<open>State\<close>

type_synonym byte = "8 word"

record page =
  page_data :: "byte list"
  allocated :: bool
  write_offset :: nat

record paged_kv =
  page_tokens :: nat
  page_bytes :: nat
  pages :: "page list"
  sequences :: "int list list"
  sequence_bytes :: "nat list"

record location =
  loc_page :: int
  loc_offset :: nat
  loc_valid :: bool

definition no_location :: location where
  "no_location = \<lparr>loc_page = -1, loc_offset = 0, loc_valid = False\<rparr>"

section \<open>Operations\<close>

definition paged_kv_new :: "nat \<Rightarrow> nat \<Rightarrow> nat \<Rightarrow> nat \<Rightarrow> paged_kv result" where
  "paged_kv_new layers t b p =
     (if t = 0 \<or> b = 0 \<or> p = 0
      then Inl (InvalidArgument ''PagedKV requires non-zero page dimensions'')
      else Inr \<lparr>page_tokens = t, page_bytes = b,
                pages = replicate p \<lparr>page_data = replicate b 0, allocated = False, write_offset = 0\<rparr>,
                sequences = [], sequence_bytes = []\<rparr>)"

text \<open>The scan for the first page that is not allocated, and the marking of that page.\<close>

definition first_free :: "page list \<Rightarrow> nat option" where
  "first_free ps = find (\<lambda>i. \<not> allocated (ps ! i)) [0..<length ps]"

definition take_page :: "page list \<Rightarrow> nat \<Rightarrow> page list" where
  "take_page ps i = ps[i := (ps ! i)\<lparr>allocated := True, write_offset := 0\<rparr>]"

definition free_page :: "page list \<Rightarrow> nat \<Rightarrow> page list" where
  "free_page ps i = ps[i := (ps ! i)\<lparr>allocated := False, write_offset := 0\<rparr>]"

definition acquire :: "paged_kv \<Rightarrow> int \<times> paged_kv" where
  "acquire st =
     (case first_free (pages st) of
        None \<Rightarrow> (-1, st)
      | Some i \<Rightarrow> (i32 (int i), st\<lparr>pages := take_page (pages st) i\<rparr>))"

definition release :: "paged_kv \<Rightarrow> int \<Rightarrow> paged_kv" where
  "release st i =
     (if 0 \<le> i \<and> nat i < length (pages st)
      then st\<lparr>pages := free_page (pages st) (nat i)\<rparr> else st)"

definition release_sequence :: "paged_kv \<Rightarrow> nat \<Rightarrow> paged_kv" where
  "release_sequence st s =
     (if s \<ge> length (sequences st) then st
      else
        let st1 = fold (\<lambda>i st. release st i) (sequences st ! s) st;
            st2 = st1\<lparr>sequences := (sequences st1)[s := []]\<rparr>
        in if s < length (sequence_bytes st2)
           then st2\<lparr>sequence_bytes := (sequence_bytes st2)[s := 0]\<rparr> else st2)"

definition resize :: "nat \<Rightarrow> 'a \<Rightarrow> 'a list \<Rightarrow> 'a list" where
  "resize n x xs = take n xs @ replicate (n - length xs) x"

text \<open>
  The \<open>resize\<close> before an append: \<open>s + 1\<close> is a \<open>size_t\<close>, so the largest \<open>s\<close> asks for no elements.
  That the containers find their memory is assumed.
\<close>

definition ensure_sequence :: "paged_kv \<Rightarrow> nat \<Rightarrow> paged_kv" where
  "ensure_sequence st s =
     (if s \<ge> length (sequences st)
      then st\<lparr>sequences := resize (wadd s 1) [] (sequences st),
              sequence_bytes := resize (wadd s 1) 0 (sequence_bytes st)\<rparr>
      else st)"

definition tail_free :: "paged_kv \<Rightarrow> nat \<Rightarrow> nat" where
  "tail_free st s =
     (if sequences st ! s \<noteq> [] then
        let tail = last (sequences st ! s) in
        if write_offset (pages st ! nat tail) < page_bytes st
        then page_bytes st - write_offset (pages st ! nat tail) else 0
      else 0)"

definition free_pages :: "paged_kv \<Rightarrow> nat" where
  "free_pages st = length (filter (\<lambda>pg. \<not> allocated pg) (pages st))"

definition needed_pages :: "paged_kv \<Rightarrow> nat \<Rightarrow> nat \<Rightarrow> nat" where
  "needed_pages st s left =
     (if left \<le> tail_free st s then 0
      else wsub (wadd (wsub left (tail_free st s)) (page_bytes st)) 1 div page_bytes st)"

text \<open>The first half of the write loop's body: the page to write to, taken from the pool if
  the sequence has none or its last one is full.\<close>

definition tail_page :: "paged_kv \<Rightarrow> nat \<Rightarrow> int \<times> paged_kv" where
  "tail_page st s =
     (let tail = (if sequences st ! s = [] then -1 else last (sequences st ! s)) in
      if tail < 0 \<or> write_offset (pages st ! nat tail) \<ge> page_bytes st
      then (case first_free (pages st) of
              None \<Rightarrow> (-1, st)
            | Some i \<Rightarrow>
                (i32 (int i),
                 st\<lparr>pages := take_page (pages st) i,
                    sequences := (sequences st)[s := sequences st ! s @ [i32 (int i)]]\<rparr>))
      else (tail, st))"

text \<open>The second half: the \<open>memcpy\<close> of one chunk and the counters.\<close>

definition chunk_size :: "paged_kv \<Rightarrow> nat \<Rightarrow> nat \<Rightarrow> nat" where
  "chunk_size st k left = min left (page_bytes st - write_offset (pages st ! k))"

definition overwrite :: "'a list \<Rightarrow> nat \<Rightarrow> 'a list \<Rightarrow> 'a list" where
  "overwrite xs off ys = take off xs @ ys @ drop (off + length ys) xs"

definition write_chunk :: "paged_kv \<Rightarrow> nat \<Rightarrow> nat \<Rightarrow> byte list \<Rightarrow> nat \<Rightarrow> paged_kv" where
  "write_chunk st s k p c =
     st\<lparr>pages := (pages st)[k := (pages st ! k)
            \<lparr>page_data := overwrite (page_data (pages st ! k)) (write_offset (pages st ! k)) (take c p),
             write_offset := write_offset (pages st ! k) + c\<rparr>],
        sequence_bytes := (sequence_bytes st)[s := sequence_bytes st ! s + c]\<rparr>"

partial_function (option) append_loop ::
    "paged_kv \<Rightarrow> nat \<Rightarrow> byte list \<Rightarrow> nat \<Rightarrow> (cpp_error option \<times> paged_kv) option" where
  "append_loop st s p left =
     (if left = 0 then Some (None, st)
      else if fst (tail_page st s) < 0 then Some (Some BadAlloc, snd (tail_page st s))
      else append_loop
             (write_chunk (snd (tail_page st s)) s (nat (fst (tail_page st s))) p
                (chunk_size (snd (tail_page st s)) (nat (fst (tail_page st s))) left))
             s
             (drop (chunk_size (snd (tail_page st s)) (nat (fst (tail_page st s))) left) p)
             (left - chunk_size (snd (tail_page st s)) (nat (fst (tail_page st s))) left))"

text \<open>
  \<open>data\<close> is the caller's buffer, \<open>None\<close> for the null pointer. An exception leaves the state
  it was thrown in. An index past the sequences, which only a wrapped \<open>resize\<close> leaves, is undefined.
\<close>

definition append_kv ::
    "paged_kv \<Rightarrow> nat \<Rightarrow> byte list option \<Rightarrow> nat \<Rightarrow> (cpp_error option \<times> paged_kv) option" where
  "append_kv st s d n =
     (if n \<noteq> 0 \<and> d = None
      then Some (Some (InvalidArgument ''PagedKV append data is null''), st)
      else
        let st1 = ensure_sequence st s in
        if s \<ge> length (sequences st1) then Some (Some UndefinedBehavior, st1)
        else if needed_pages st1 s n > free_pages st1 then Some (Some BadAlloc, st1)
        else append_loop st1 s (case d of None \<Rightarrow> [] | Some bs \<Rightarrow> bs) n)"

definition locate :: "paged_kv \<Rightarrow> nat \<Rightarrow> nat \<Rightarrow> location" where
  "locate st s off =
     (if s \<ge> length (sequence_bytes st) \<or> off \<ge> sequence_bytes st ! s then no_location
      else if off div page_bytes st \<ge> length (sequences st ! s) then no_location
      else let i = sequences st ! s ! (off div page_bytes st) in
           \<lparr>loc_page = i, loc_offset = off mod page_bytes st,
            loc_valid = allocated (pages st ! nat i)\<rparr>)"

text \<open>
  The copy loop of \<open>read\<close>: \<open>copied\<close> counts the bytes, \<open>out\<close> is the caller's buffer up to
  there. A division by a zero page size, which no constructed cache has, ends the loop.
\<close>

function read_loop ::
    "paged_kv \<Rightarrow> nat \<Rightarrow> nat \<Rightarrow> nat \<Rightarrow> nat \<Rightarrow> byte list \<Rightarrow> nat \<times> byte list" where
  "read_loop st s off n copied out =
     (if copied < n \<and> page_bytes st \<noteq> 0 then
        let page_index = (off + copied) div page_bytes st;
            page_offset = (off + copied) mod page_bytes st in
        if page_index \<ge> length (sequences st ! s) then (copied, out)
        else
          let src = page_data (pages st ! nat (sequences st ! s ! page_index));
              chunk = min (n - copied) (page_bytes st - page_offset)
          in read_loop st s off n (copied + chunk) (out @ take chunk (drop page_offset src))
      else (copied, out))"
  by pat_completeness auto
termination
  by (relation "measure (\<lambda>(st, s, off, n, copied, out). n - copied)")
    (auto intro!: diff_less_mono2)

declare read_loop.simps [simp del]

definition read_kv :: "paged_kv \<Rightarrow> nat \<Rightarrow> nat \<Rightarrow> bool \<Rightarrow> nat \<Rightarrow> nat \<times> byte list" where
  "read_kv st s off out_null n =
     (if out_null \<or> n = 0 then (0, [])
      else if s \<ge> length (sequence_bytes st) \<or> off \<ge> sequence_bytes st ! s then (0, [])
      else read_loop st s off (min n (sequence_bytes st ! s - off)) 0 [])"

definition bytes_of :: "paged_kv \<Rightarrow> nat \<Rightarrow> nat" where
  "bytes_of st s = (if s < length (sequence_bytes st) then sequence_bytes st ! s else 0)"

definition resident :: "paged_kv \<Rightarrow> nat \<Rightarrow> nat" where
  "resident st s = (if s < length (sequences st) then length (sequences st ! s) else 0)"

definition page_count :: "paged_kv \<Rightarrow> nat" where
  "page_count st = length (pages st)"

section \<open>Invariant and abstract contents\<close>

definition page_ok :: "paged_kv \<Rightarrow> int \<Rightarrow> bool" where
  "page_ok st i \<longleftrightarrow> 0 \<le> i \<and> nat i < length (pages st) \<and> allocated (pages st ! nat i)
     \<and> 0 < write_offset (pages st ! nat i)"

definition fill_of :: "page list \<Rightarrow> int \<Rightarrow> nat" where
  "fill_of ps i = write_offset (ps ! nat i)"

definition pages_sized :: "nat \<Rightarrow> page list \<Rightarrow> bool" where
  "pages_sized b ps \<longleftrightarrow>
     (\<forall>k < length ps. length (page_data (ps ! k)) = b \<and> write_offset (ps ! k) \<le> b)"

definition seq_ok :: "paged_kv \<Rightarrow> nat \<Rightarrow> bool" where
  "seq_ok st s \<longleftrightarrow>
     distinct (sequences st ! s) \<and> (\<forall>i \<in> set (sequences st ! s). page_ok st i)
     \<and> (\<forall>i \<in> set (butlast (sequences st ! s)). fill_of (pages st) i = page_bytes st)
     \<and> sequence_bytes st ! s = sum_list (map (fill_of (pages st)) (sequences st ! s))"

definition seqs_disjoint :: "int list list \<Rightarrow> bool" where
  "seqs_disjoint ss \<longleftrightarrow>
     (\<forall>s t. s < length ss \<longrightarrow> t < length ss \<longrightarrow> s \<noteq> t \<longrightarrow> set (ss ! s) \<inter> set (ss ! t) = {})"

definition paged_invar :: "paged_kv \<Rightarrow> bool" where
  "paged_invar st \<longleftrightarrow>
     0 < page_bytes st \<and> length (pages st) < 2 ^ 31
     \<and> pages_sized (page_bytes st) (pages st)
     \<and> length (sequence_bytes st) = length (sequences st)
     \<and> seqs_disjoint (sequences st)
     \<and> (\<forall>s < length (sequences st). seq_ok st s)"

definition page_content :: "page list \<Rightarrow> int \<Rightarrow> byte list" where
  "page_content ps i = take (write_offset (ps ! nat i)) (page_data (ps ! nat i))"

definition seq_content :: "paged_kv \<Rightarrow> nat \<Rightarrow> byte list" where
  "seq_content st s =
     (if s < length (sequences st)
      then concat (map (page_content (pages st)) (sequences st ! s)) else [])"

text \<open>The bytes an append to a sequence can still place.\<close>

definition room :: "paged_kv \<Rightarrow> nat \<Rightarrow> nat" where
  "room st s =
     (if s < length (sequences st) then tail_free st s else 0) + free_pages st * page_bytes st"

section \<open>Blocks of equal size\<close>

lemma concat_blocks_at:
  assumes "\<forall>x \<in> set (butlast xs). length x = b" and "0 < b"
    and "\<forall>x \<in> set xs. length x \<le> b" and "i < length (concat xs)"
  shows "i div b < length xs
    \<and> (\<forall>c. i + c \<le> length (concat xs) \<longrightarrow> i mod b + c \<le> b \<longrightarrow>
          i mod b + c \<le> length (xs ! (i div b))
          \<and> take c (drop i (concat xs)) = take c (drop (i mod b) (xs ! (i div b))))"
  using assms
proof (induction xs arbitrary: i)
  case Nil
  then show ?case by simp
next
  case (Cons x xs)
  show ?case
  proof (cases "i < length x")
    case True
    with Cons.prems have "i < b" by fastforce
    with True Cons.prems show ?thesis by (cases xs) simp_all
  next
    case False
    with Cons.prems have ne: "xs \<noteq> []" by auto
    with Cons.prems have x: "length x = b" by simp
    from False x have i: "b \<le> i" by simp
    have "(i - b) div b < length xs
      \<and> (\<forall>c. (i - b) + c \<le> length (concat xs) \<longrightarrow> (i - b) mod b + c \<le> b \<longrightarrow>
          (i - b) mod b + c \<le> length (xs ! ((i - b) div b))
          \<and> take c (drop (i - b) (concat xs)) = take c (drop ((i - b) mod b) (xs ! ((i - b) div b))))"
      using Cons.prems ne x i by (intro Cons.IH) auto
    moreover have "i div b = Suc ((i - b) div b)" "i mod b = (i - b) mod b"
      using i \<open>0 < b\<close> by (simp_all add: le_div_geq le_mod_geq)
    ultimately show ?thesis using x i by auto
  qed
qed

lemma ceil_div_le_iff:
  fixes a b f :: nat
  assumes "0 < b"
  shows "(a + b - 1) div b \<le> f \<longleftrightarrow> a \<le> f * b"
proof -
  have "(a + b - 1) div b \<le> f \<longleftrightarrow> (a + b - 1) div b < Suc f" by auto
  also have "\<dots> \<longleftrightarrow> a + b - 1 < Suc f * b"
    using assms by (rule div_less_iff_less_mult)
  also have "\<dots> \<longleftrightarrow> a \<le> f * b" using assms by auto
  finally show ?thesis .
qed

lemma length_overwrite: "off + length ys \<le> length xs \<Longrightarrow> length (overwrite xs off ys) = length xs"
  by (simp add: overwrite_def)

lemma take_overwrite:
  "off \<le> length xs \<Longrightarrow> take (off + length ys) (overwrite xs off ys) = take off xs @ ys"
  by (simp add: overwrite_def)

section \<open>Pages of one sequence\<close>

lemma seq_contentI [simp]:
  "s < length (sequences st) \<Longrightarrow>
   seq_content st s = concat (map (page_content (pages st)) (sequences st ! s))"
  by (simp add: seq_content_def)

lemma page_content_length:
  assumes "pages_sized b ps" "nat i < length ps"
  shows "length (page_content ps i) = fill_of ps i"
  using assms by (auto simp: page_content_def fill_of_def pages_sized_def)

lemma seq_content_length:
  assumes "paged_invar st"
  shows "length (seq_content st s) = bytes_of st s"
proof (cases "s < length (sequences st)")
  case True
  with assms have ok: "seq_ok st s" and sz: "pages_sized (page_bytes st) (pages st)"
    and len: "length (sequence_bytes st) = length (sequences st)"
    by (auto simp: paged_invar_def)
  have "map (\<lambda>i. length (page_content (pages st) i)) (sequences st ! s)
      = map (fill_of (pages st)) (sequences st ! s)"
    using ok by (auto simp: seq_ok_def page_ok_def page_content_length [OF sz])
  from arg_cong [OF this, of sum_list] True ok len show ?thesis
    by (simp add: length_concat comp_def seq_ok_def bytes_of_def)
next
  case False
  with assms show ?thesis by (simp add: seq_content_def bytes_of_def paged_invar_def)
qed

section \<open>Frame facts\<close>

lemma first_free_SomeD: "first_free ps = Some i \<Longrightarrow> i < length ps \<and> \<not> allocated (ps ! i)"
  by (auto simp: first_free_def dest: find_index_SomeD)

lemma first_free_NoneD: "first_free ps = None \<Longrightarrow> filter (\<lambda>pg. \<not> allocated pg) ps = []"
  by (auto simp: first_free_def find_None_iff filter_empty_conv in_set_conv_nth)

lemma seq_ok_frame:
  assumes "seq_ok st s"
    and "sequences st' ! s = sequences st ! s" "sequence_bytes st' ! s = sequence_bytes st ! s"
    and "length (pages st') = length (pages st)" "page_bytes st' = page_bytes st"
    and same: "\<And>i. i \<in> set (sequences st ! s) \<Longrightarrow> pages st' ! nat i = pages st ! nat i"
  shows "seq_ok st' s"
proof -
  have fill: "fill_of (pages st') i = fill_of (pages st) i" if "i \<in> set (sequences st ! s)" for i
    using same [OF that] by (simp add: fill_of_def)
  have full: "fill_of (pages st') i = page_bytes st" if "i \<in> set (butlast (sequences st ! s))" for i
    using fill [OF in_set_butlastD [OF that]] assms(1) that by (simp add: seq_ok_def)
  have "map (fill_of (pages st')) (sequences st ! s) = map (fill_of (pages st)) (sequences st ! s)"
    using fill by simp
  from arg_cong [OF this, of sum_list] show ?thesis
    using assms full by (auto simp: seq_ok_def page_ok_def)
qed

lemma content_frame:
  assumes "sequences st' ! s = sequences st ! s"
    and "length (sequences st') = length (sequences st)"
    and "\<And>i. s < length (sequences st) \<Longrightarrow> i \<in> set (sequences st ! s) \<Longrightarrow>
           pages st' ! nat i = pages st ! nat i"
  shows "seq_content st' s = seq_content st s"
  using assms by (auto simp: seq_content_def page_content_def intro!: arg_cong [where f = concat])

lemma pages_sized_update:
  assumes "pages_sized b ps" "length (page_data pg) = b" "write_offset pg \<le> b"
  shows "pages_sized b (ps[k := pg])"
proof (cases "k < length ps")
  case True
  with assms show ?thesis by (auto simp: pages_sized_def nth_list_update)
qed (use assms in \<open>simp add: pages_sized_def\<close>)

lemma seqs_disjointD:
  "seqs_disjoint ss \<Longrightarrow> s < length ss \<Longrightarrow> t < length ss \<Longrightarrow> s \<noteq> t \<Longrightarrow>
   i \<in> set (ss ! s) \<Longrightarrow> j \<in> set (ss ! t) \<Longrightarrow> i \<noteq> j"
  unfolding seqs_disjoint_def by blast

lemma seqs_disjoint_add:
  assumes "seqs_disjoint ss" and "s < length ss"
    and "\<And>t. t < length ss \<Longrightarrow> i \<notin> set (ss ! t)"
  shows "seqs_disjoint (ss[s := ss ! s @ [i]])"
  using assms unfolding seqs_disjoint_def by (auto simp: nth_list_update)

lemma seqs_disjoint_clear: "seqs_disjoint ss \<Longrightarrow> seqs_disjoint (ss[s := []])"
proof (cases "s < length ss")
  case True
  assume "seqs_disjoint ss"
  with True show ?thesis unfolding seqs_disjoint_def by (auto simp: nth_list_update)
qed (simp add: list_update_beyond)

lemma seqs_disjoint_replicate:
  assumes "seqs_disjoint ss"
  shows "seqs_disjoint (ss @ replicate n [])"
  unfolding seqs_disjoint_def
proof (intro allI impI)
  fix s t
  assume "s < length (ss @ replicate n [])" "t < length (ss @ replicate n [])" "s \<noteq> t"
  with assms show "set ((ss @ replicate n []) ! s) \<inter> set ((ss @ replicate n []) ! t) = {}"
    by (cases "s < length ss"; cases "t < length ss") (auto simp: nth_append seqs_disjoint_def)
qed

lemma not_owned_if_free:
  assumes "paged_invar st" "k < length (pages st)" "\<not> allocated (pages st ! k)"
    and "t < length (sequences st)"
  shows "int k \<notin> set (sequences st ! t)"
proof
  assume "int k \<in> set (sequences st ! t)"
  moreover from assms have "seq_ok st t" by (simp add: paged_invar_def)
  ultimately have "page_ok st (int k)" by (simp add: seq_ok_def)
  with assms show False by (simp add: page_ok_def)
qed

section \<open>The write loop\<close>

text \<open>
  The state between the two halves of the loop's body: the sequence has a last page with
  space left; that page may still be empty.
\<close>

definition writable :: "paged_kv \<Rightarrow> nat \<Rightarrow> bool" where
  "writable st s \<longleftrightarrow>
     0 < page_bytes st \<and> length (pages st) < 2 ^ 31
     \<and> pages_sized (page_bytes st) (pages st)
     \<and> length (sequence_bytes st) = length (sequences st)
     \<and> seqs_disjoint (sequences st)
     \<and> (\<forall>t < length (sequences st). t \<noteq> s \<longrightarrow> seq_ok st t)
     \<and> s < length (sequences st) \<and> sequences st ! s \<noteq> []
     \<and> distinct (sequences st ! s)
     \<and> (\<forall>i \<in> set (sequences st ! s).
          0 \<le> i \<and> nat i < length (pages st) \<and> allocated (pages st ! nat i))
     \<and> (\<forall>i \<in> set (butlast (sequences st ! s)). fill_of (pages st) i = page_bytes st)
     \<and> fill_of (pages st) (last (sequences st ! s)) < page_bytes st
     \<and> sequence_bytes st ! s = sum_list (map (fill_of (pages st)) (sequences st ! s))"

lemma writable_if_room:
  assumes "paged_invar st" "s < length (sequences st)" "sequences st ! s \<noteq> []"
    and "fill_of (pages st) (last (sequences st ! s)) < page_bytes st"
  shows "writable st s"
  using assms by (auto simp: writable_def paged_invar_def seq_ok_def page_ok_def)

lemma writable_new_page:
  assumes inv: "paged_invar st" and s: "s < length (sequences st)"
    and k: "k < length (pages st)" "\<not> allocated (pages st ! k)"
    and full: "\<forall>i \<in> set (sequences st ! s). fill_of (pages st) i = page_bytes st"
  defines "st1 \<equiv> st\<lparr>pages := take_page (pages st) k,
                    sequences := (sequences st)[s := sequences st ! s @ [int k]]\<rparr>"
  shows "writable st1 s \<and> (\<forall>t. seq_content st1 t = seq_content st t)"
proof
  note fresh = not_owned_if_free [OF inv k]
  have same: "pages st1 ! nat i = pages st ! nat i"
    if "t < length (sequences st)" "i \<in> set (sequences st ! t)" for t i
  proof -
    from inv that have "0 \<le> i" by (auto simp: paged_invar_def seq_ok_def page_ok_def)
    with fresh [OF that(1)] that(2) have "nat i \<noteq> k" by auto
    then show ?thesis by (simp add: st1_def take_page_def)
  qed
  have fill: "fill_of (pages st1) i = fill_of (pages st) i" if "i \<in> set (sequences st ! s)" for i
    using same [OF s that] by (simp add: fill_of_def)
  have fillk: "fill_of (pages st1) (int k) = 0"
    using k by (simp add: st1_def take_page_def fill_of_def)
  have others: "seq_ok st1 t" if "t < length (sequences st)" "t \<noteq> s" for t
  proof (rule seq_ok_frame [of st])
    show "seq_ok st t" using inv that by (simp add: paged_invar_def)
  qed (use that same [OF that(1)] in \<open>auto simp: st1_def take_page_def\<close>)
  have disj: "seqs_disjoint (sequences st1)"
    using inv s fresh by (auto simp: st1_def paged_invar_def intro!: seqs_disjoint_add)
  have sized: "pages_sized (page_bytes st1) (pages st1)"
    using inv k unfolding st1_def take_page_def
    by (auto simp: paged_invar_def pages_sized_def nth_list_update)
  have seq: "sequences st1 ! s = sequences st ! s @ [int k]" using s by (simp add: st1_def)
  have ok: "seq_ok st s" using inv s by (simp add: paged_invar_def)
  have alloc: "0 \<le> i \<and> nat i < length (pages st1) \<and> allocated (pages st1 ! nat i)"
    if "i \<in> set (sequences st1 ! s)" for i
  proof (cases "i = int k")
    case True
    with k show ?thesis by (simp add: st1_def take_page_def)
  next
    case False
    with that seq have i: "i \<in> set (sequences st ! s)" by simp
    with ok same [OF s i] show ?thesis
      by (auto simp: seq_ok_def page_ok_def) (simp add: st1_def take_page_def)
  qed
  have sum: "sequence_bytes st1 ! s = sum_list (map (fill_of (pages st1)) (sequences st1 ! s))"
  proof -
    have "map (fill_of (pages st1)) (sequences st ! s) = map (fill_of (pages st)) (sequences st ! s)"
      using fill by simp
    from arg_cong [OF this, of sum_list] ok seq fillk show ?thesis
      by (simp add: seq_ok_def) (simp add: st1_def)
  qed
  show "writable st1 s"
    unfolding writable_def
    using inv s others disj sized seq alloc sum fillk fill full fresh [OF s] ok
    by (auto simp: paged_invar_def seq_ok_def st1_def take_page_def)
  show "\<forall>t. seq_content st1 t = seq_content st t"
  proof
    fix t
    show "seq_content st1 t = seq_content st t"
    proof (cases "t = s")
      case True
      have "map (page_content (pages st1)) (sequences st ! s)
          = map (page_content (pages st)) (sequences st ! s)"
        using same [OF s] by (simp add: page_content_def)
      from arg_cong [OF this, of concat] have
        "concat (map (page_content (pages st1)) (sequences st ! s))
          = concat (map (page_content (pages st)) (sequences st ! s))" .
      moreover have "page_content (pages st1) (int k) = []"
        using k by (simp add: st1_def take_page_def page_content_def)
      moreover have "s < length (sequences st1)" using s by (simp add: st1_def)
      ultimately show ?thesis using True s seq by simp
    next
      case False
      then show ?thesis
        using same by (intro content_frame) (auto simp: st1_def)
    qed
  qed
qed

lemma write_chunk_spec:
  assumes wr: "writable st s" and left: "0 < left" "left \<le> length p"
  defines "k \<equiv> nat (last (sequences st ! s))"
  defines "c \<equiv> chunk_size st k left"
  defines "st2 \<equiv> write_chunk st s k p c"
  shows "paged_invar st2 \<and> seq_content st2 s = seq_content st s @ take c p
    \<and> (\<forall>t. t \<noteq> s \<longrightarrow> seq_content st2 t = seq_content st t)"
proof -
  let ?ids = "sequences st ! s"
  let ?pg = "pages st ! k"
  have s: "s < length (sequences st)" and ne: "?ids \<noteq> []" and d: "distinct ?ids"
    and rng: "\<And>i. i \<in> set ?ids \<Longrightarrow> 0 \<le> i \<and> nat i < length (pages st) \<and> allocated (pages st ! nat i)"
    and full: "\<And>i. i \<in> set (butlast ?ids) \<Longrightarrow> fill_of (pages st) i = page_bytes st"
    and space: "write_offset ?pg < page_bytes st"
    and disj: "seqs_disjoint (sequences st)" and sized: "pages_sized (page_bytes st) (pages st)"
    and len: "length (sequence_bytes st) = length (sequences st)"
    and bytes: "sequence_bytes st ! s = sum_list (map (fill_of (pages st)) ?ids)"
    and others: "\<And>t. t < length (sequences st) \<Longrightarrow> t \<noteq> s \<Longrightarrow> seq_ok st t"
    using wr by (auto simp: writable_def k_def fill_of_def)
  have last_in: "last ?ids \<in> set ?ids" using ne by simp
  have k: "k < length (pages st)" "allocated ?pg" "int k = last ?ids"
    using rng [OF last_in] by (simp_all add: k_def)
  have c: "0 < c" "c \<le> left" "write_offset ?pg + c \<le> page_bytes st"
    using left space by (auto simp: c_def chunk_size_def)
  have dk: "length (page_data ?pg) = page_bytes st" using sized k by (simp add: pages_sized_def)
  define pg2 where "pg2 = ?pg\<lparr>page_data := overwrite (page_data ?pg) (write_offset ?pg) (take c p),
      write_offset := write_offset ?pg + c\<rparr>"
  have st2: "pages st2 = (pages st)[k := pg2]" "sequences st2 = sequences st"
    "sequence_bytes st2 = (sequence_bytes st)[s := sequence_bytes st ! s + c]"
    "page_bytes st2 = page_bytes st"
    by (simp_all add: st2_def write_chunk_def pg2_def)
  have pg2: "length (page_data pg2) = page_bytes st" "write_offset pg2 = write_offset ?pg + c"
      "allocated pg2"
    using c dk left k by (simp_all add: pg2_def length_overwrite)
  have app: "?ids = butlast ?ids @ [int k]" using ne k by simp
  have nk: "nat i \<noteq> k" if "i \<in> set (butlast ?ids)" for i
  proof
    assume "nat i = k"
    with that rng [OF in_set_butlastD [OF that]] have "int k \<in> set (butlast ?ids)" by auto
    moreover have "distinct (butlast ?ids @ [int k])" using d app by simp
    ultimately show False by simp
  qed
  have samebl: "pages st2 ! nat i = pages st ! nat i" if "i \<in> set (butlast ?ids)" for i
    using nk [OF that] st2 by simp
  have sameot: "pages st2 ! nat i = pages st ! nat i"
    if "t < length (sequences st)" "t \<noteq> s" "i \<in> set (sequences st ! t)" for t i
  proof -
    have "page_ok st i" using others that by (simp add: seq_ok_def)
    moreover have "i \<noteq> int k"
      using seqs_disjointD [OF disj that(1) s that(2,3)] last_in k by auto
    ultimately have "nat i \<noteq> k" by (auto simp: page_ok_def)
    with st2 show ?thesis by simp
  qed
  have fillk: "fill_of (pages st2) (int k) = fill_of (pages st) (int k) + c"
    using k(1) pg2 st2 by (simp add: fill_of_def)
  have fillbl: "map (fill_of (pages st2)) (butlast ?ids) = map (fill_of (pages st)) (butlast ?ids)"
    using samebl by (simp add: fill_of_def)
  have sum2: "sum_list (map (fill_of (pages st2)) ?ids) = sum_list (map (fill_of (pages st)) ?ids) + c"
    using fillk by (subst (1 2) app) (simp add: fillbl)
  have okp: "page_ok st2 i" if i: "i \<in> set ?ids" for i
  proof (cases "nat i = k")
    case True
    with rng [OF i] k pg2 c st2 show ?thesis by (simp add: page_ok_def)
  next
    case False
    with rng [OF i] k have "i \<noteq> last ?ids" by auto
    moreover have "set ?ids = set (butlast ?ids @ [int k])" by (rule arg_cong [OF app])
    with i have "i \<in> set (butlast ?ids) \<or> i = int k" by auto
    ultimately have bl: "i \<in> set (butlast ?ids)" using k by simp
    with full [OF bl] False rng [OF i] st2 space show ?thesis
      by (auto simp: page_ok_def fill_of_def)
  qed
  have oks: "seq_ok st2 s"
    unfolding seq_ok_def
    using d okp full samebl bytes sum2 len s st2 by (auto simp: fill_of_def)
  have okt: "seq_ok st2 t" if "t < length (sequences st)" "t \<noteq> s" for t
  proof (rule seq_ok_frame [OF others [OF that]])
    show "pages st2 ! nat i = pages st ! nat i" if "i \<in> set (sequences st ! t)" for i
      using \<open>t < length (sequences st)\<close> \<open>t \<noteq> s\<close> that by (rule sameot)
  qed (use st2 that in simp_all)
  have "\<forall>t < length (sequences st2). seq_ok st2 t" using oks okt st2 by metis
  moreover have "pages_sized (page_bytes st2) (pages st2)"
    using sized pg2 c st2 by (simp add: pages_sized_update)
  ultimately have "paged_invar st2"
    using wr disj len st2 by (simp add: paged_invar_def writable_def)
  moreover have "seq_content st2 s = seq_content st s @ take c p"
  proof -
    have "map (page_content (pages st2)) (butlast ?ids) = map (page_content (pages st)) (butlast ?ids)"
      using samebl by (simp add: page_content_def)
    note bl = arg_cong [OF this, of concat]
    have lenc: "length (take c p) = c" using c left by simp
    have "page_content (pages st2) (int k) = page_content (pages st) (int k) @ take c p"
      using k(1) st2 c dk take_overwrite [of "write_offset ?pg" "page_data ?pg" "take c p"] lenc
      by (simp add: page_content_def pg2_def)
    with s st2(2) show ?thesis by simp (subst (1 2) app, simp add: bl)
  qed
  moreover have "\<forall>t. t \<noteq> s \<longrightarrow> seq_content st2 t = seq_content st t"
    using sameot st2 by (auto intro!: content_frame)
  ultimately show ?thesis by blast
qed

text \<open>The first half: the page found has space, and the contents do not change.\<close>

lemma tail_page_spec:
  assumes inv: "paged_invar st" and s: "s < length (sequences st)" and room: "0 < room st s"
  obtains i st1 where "tail_page st s = (i, st1)" "0 \<le> i" "i = last (sequences st1 ! s)"
    "writable st1 s" "\<And>t. seq_content st1 t = seq_content st t" "room st1 s = room st s"
    "length (sequences st1) = length (sequences st)" "length (pages st1) = length (pages st)"
    "page_bytes st1 = page_bytes st"
proof -
  let ?ids = "sequences st ! s"
  have ok: "seq_ok st s" and b0: "0 < page_bytes st" and n: "length (pages st) < 2 ^ 31"
    and sized: "pages_sized (page_bytes st) (pages st)"
    using inv s by (auto simp: paged_invar_def)
  show thesis
  proof (cases "?ids \<noteq> [] \<and> fill_of (pages st) (last ?ids) < page_bytes st")
    case True
    then have "last ?ids \<in> set ?ids" by simp
    with ok have "0 \<le> last ?ids" by (auto simp: seq_ok_def page_ok_def)
    with True have "tail_page st s = (last ?ids, st)"
      by (simp add: tail_page_def fill_of_def)
    moreover have "writable st s" using inv s True by (simp add: writable_if_room)
    ultimately show thesis using \<open>0 \<le> last ?ids\<close> by (intro that [of "last ?ids" st]) simp_all
  next
    case False
    have full: "\<forall>i \<in> set ?ids. fill_of (pages st) i = page_bytes st"
    proof
      fix i assume i: "i \<in> set ?ids"
      then have ne: "?ids \<noteq> []" by auto
      with False have nl: "\<not> fill_of (pages st) (last ?ids) < page_bytes st" by simp
      have "page_ok st (last ?ids)" using ok ne by (simp add: seq_ok_def)
      with sized have "fill_of (pages st) (last ?ids) \<le> page_bytes st"
        by (simp add: pages_sized_def page_ok_def fill_of_def)
      with nl have l: "fill_of (pages st) (last ?ids) = page_bytes st" by simp
      have "set ?ids = set (butlast ?ids @ [last ?ids])" using ne by simp
      with i have "i \<in> set (butlast ?ids) \<or> i = last ?ids" by auto
      with l ok show "fill_of (pages st) i = page_bytes st" by (auto simp: seq_ok_def)
    qed
    have tf: "tail_free st s = 0"
      using full by (auto simp: tail_free_def Let_def fill_of_def)
    with room have "0 < free_pages st" by (simp add: room_def split: if_splits)
    then obtain k where k: "first_free (pages st) = Some k"
      by (cases "first_free (pages st)") (auto dest: first_free_NoneD simp: free_pages_def)
    from first_free_SomeD [OF k] have kf: "k < length (pages st)" "\<not> allocated (pages st ! k)"
      by simp_all
    have ik: "i32 (int k) = int k" using kf n by (intro i32_nat_exact) simp
    define st1 where "st1 = st\<lparr>pages := take_page (pages st) k,
                    sequences := (sequences st)[s := ?ids @ [int k]]\<rparr>"
    have tp: "tail_page st s = (int k, st1)"
      using False k ik by (auto simp: tail_page_def st1_def fill_of_def Let_def not_less)
    have wr: "writable st1 s" and cont: "seq_content st1 t = seq_content st t" for t
      using writable_new_page [OF inv s kf full] by (simp_all add: st1_def)
    have "tail_free st1 s = page_bytes st" using s kf b0
      by (simp add: tail_free_def st1_def take_page_def)
    moreover have "free_pages st1 + 1 = free_pages st"
      using kf length_filter_list_update [of k "pages st" "\<lambda>pg. \<not> allocated pg"
          "(pages st ! k)\<lparr>allocated := True, write_offset := 0\<rparr>"]
      by (simp add: free_pages_def st1_def take_page_def)
    then have "free_pages st = Suc (free_pages st1)" by simp
    ultimately have "room st1 s = room st s" using tf s
      by (simp add: room_def) (simp add: st1_def)
    with tp wr cont s show thesis
      by (intro that [of "int k" st1]) (simp_all add: st1_def take_page_def)
  qed
qed

lemma tail_free_writable:
  assumes "writable st s"
  shows "tail_free st s = page_bytes st - write_offset (pages st ! nat (last (sequences st ! s)))"
  using assms by (simp add: writable_def tail_free_def fill_of_def Let_def)

lemma room_write_chunk:
  assumes wr: "writable st s" and left: "0 < left"
  defines "k \<equiv> nat (last (sequences st ! s))"
  defines "c \<equiv> chunk_size st k left"
  shows "room (write_chunk st s k p c) s + c = room st s"
proof -
  let ?st2 = "write_chunk st s k p c"
  have "last (sequences st ! s) \<in> set (sequences st ! s)" using wr by (simp add: writable_def)
  with wr have k: "k < length (pages st)" and a: "allocated (pages st ! k)"
    by (auto simp: writable_def k_def)
  have sp: "write_offset (pages st ! k) < page_bytes st"
    using wr by (simp add: writable_def fill_of_def k_def)
  have c: "c \<le> page_bytes st - write_offset (pages st ! k)" by (simp add: c_def chunk_size_def)
  have "free_pages ?st2 = free_pages st"
    using length_filter_list_update [OF k, of "\<lambda>pg. \<not> allocated pg"] a
    by (simp add: free_pages_def write_chunk_def)
  moreover have "tail_free ?st2 s + c = tail_free st s"
    unfolding tail_free_writable [OF wr] using wr k sp c
    by (auto simp: tail_free_def write_chunk_def writable_def Let_def simp flip: k_def)
  moreover have "page_bytes ?st2 = page_bytes st" by (simp add: write_chunk_def)
  moreover have "length (sequences ?st2) = length (sequences st)" by (simp add: write_chunk_def)
  ultimately show ?thesis using wr by (simp add: room_def writable_def)
qed

text \<open>With room for all of it, the loop ends, writes all of it and touches nothing else.\<close>

lemma append_loop_ok:
  assumes "paged_invar st" "s < length (sequences st)" "left \<le> length p" "left \<le> room st s"
  shows "\<exists>st'. append_loop st s p left = Some (None, st') \<and> paged_invar st'
     \<and> seq_content st' s = seq_content st s @ take left p
     \<and> (\<forall>t. t \<noteq> s \<longrightarrow> seq_content st' t = seq_content st t)
     \<and> length (pages st') = length (pages st) \<and> page_bytes st' = page_bytes st
     \<and> length (sequences st') = length (sequences st) \<and> room st' s + left = room st s"
  using assms
proof (induction left arbitrary: st p rule: less_induct)
  case (less left)
  show ?case
  proof (cases "left = 0")
    case True
    with less.prems show ?thesis by (simp add: append_loop.simps)
  next
    case False
    with less.prems have r: "0 < room st s" by simp
    from tail_page_spec [OF less.prems(1,2) r] obtain i st1 where
      tp: "tail_page st s = (i, st1)" "0 \<le> i" "i = last (sequences st1 ! s)"
      and wr: "writable st1 s" and cont: "\<And>t. seq_content st1 t = seq_content st t"
      and rm: "room st1 s = room st s"
      and lens: "length (sequences st1) = length (sequences st)"
        "length (pages st1) = length (pages st)" "page_bytes st1 = page_bytes st"
      by metis
    define c where "c = chunk_size st1 (nat i) left"
    define st2 where "st2 = write_chunk st1 s (nat i) p c"
    have sp: "write_offset (pages st1 ! nat i) < page_bytes st1"
      using wr tp by (simp add: writable_def fill_of_def)
    then have c: "0 < c" "c \<le> left" using False by (auto simp: c_def chunk_size_def)
    have step: "append_loop st s p left = append_loop st2 s (drop c p) (left - c)"
      using False tp by (subst append_loop.simps) (simp add: c_def st2_def)
    have w: "paged_invar st2" "seq_content st2 s = seq_content st s @ take c p"
      "\<forall>t. t \<noteq> s \<longrightarrow> seq_content st2 t = seq_content st t"
      using write_chunk_spec [OF wr _ less.prems(3)] False tp(3) cont
      by (simp_all add: c_def st2_def)
    have rm2: "room st2 s + c = room st s"
      using room_write_chunk [OF wr, of left p] False tp(3) rm by (simp add: c_def st2_def)
    have lens2: "length (sequences st2) = length (sequences st)"
      "length (pages st2) = length (pages st)" "page_bytes st2 = page_bytes st"
      using lens by (simp_all add: st2_def write_chunk_def)
    have "\<exists>st'. append_loop st2 s (drop c p) (left - c) = Some (None, st') \<and> paged_invar st'
     \<and> seq_content st' s = seq_content st2 s @ take (left - c) (drop c p)
     \<and> (\<forall>t. t \<noteq> s \<longrightarrow> seq_content st' t = seq_content st2 t)
     \<and> length (pages st') = length (pages st2) \<and> page_bytes st' = page_bytes st2
     \<and> length (sequences st') = length (sequences st2) \<and> room st' s + (left - c) = room st2 s"
      using c w(1) less.prems lens2 rm2 by (intro less.IH) auto
    moreover have "take c p @ take (left - c) (drop c p) = take left p"
      using c by (metis le_add_diff_inverse take_add)
    ultimately show ?thesis using step w lens2 rm2 c by auto
  qed
qed

text \<open>The preflight test is exactly the room test.\<close>

lemma preflight_iff:
  assumes inv: "paged_invar st" and s: "s < length (sequences st)" and n: "n + page_bytes st \<le> 2 ^ 64"
  shows "needed_pages st s n \<le> free_pages st \<longleftrightarrow> n \<le> room st s"
proof (cases "n \<le> tail_free st s")
  case True
  with s show ?thesis by (simp add: needed_pages_def room_def)
next
  case False
  let ?a = "n - tail_free st s"
  have b: "0 < page_bytes st" using inv by (simp add: paged_invar_def)
  have a: "?a + page_bytes st < 2 ^ 64 \<or> tail_free st s = 0" using False n by auto
  have "wsub (wadd (wsub n (tail_free st s)) (page_bytes st)) 1 = ?a + page_bytes st - 1"
  proof (cases "?a + page_bytes st < 2 ^ 64")
    case True
    moreover have "wsub n (tail_free st s) = ?a" using False n b by (intro wsub_exact) auto
    ultimately show ?thesis using b by (simp add: wadd_exact wsub_exact)
  next
    case w: False
    with n False b have "tail_free st s = 0" "n + page_bytes st = 2 ^ 64" by auto
    then show ?thesis using b by (simp add: wsub_def wadd_def)
  qed
  then have "needed_pages st s n = (?a + page_bytes st - 1) div page_bytes st"
    using False by (simp add: needed_pages_def)
  also have "\<dots> \<le> free_pages st \<longleftrightarrow> ?a \<le> free_pages st * page_bytes st"
    using b by (rule ceil_div_le_iff)
  finally show ?thesis using False s by (auto simp: room_def)
qed

lemma ensure_sequence_spec:
  assumes "paged_invar st" and s: "s + 1 < 2 ^ 64"
  shows "paged_invar (ensure_sequence st s) \<and> s < length (sequences (ensure_sequence st s))
    \<and> (\<forall>t. seq_content (ensure_sequence st s) t = seq_content st t)
    \<and> pages (ensure_sequence st s) = pages st \<and> page_bytes (ensure_sequence st s) = page_bytes st
    \<and> room (ensure_sequence st s) s = room st s"
proof (cases "s \<ge> length (sequences st)")
  case True
  let ?st1 = "ensure_sequence st s"
  have st1: "sequences ?st1 = sequences st @ replicate (s + 1 - length (sequences st)) []"
    "sequence_bytes ?st1 = sequence_bytes st @ replicate (s + 1 - length (sequences st)) 0"
    "pages ?st1 = pages st" "page_bytes ?st1 = page_bytes st"
    using True assms by (simp_all add: ensure_sequence_def resize_def paged_invar_def wadd_exact)
  have "seq_ok ?st1 t" if "t < s + 1" for t
  proof (cases "t < length (sequences st)")
    case True
    with assms have ok: "seq_ok st t" and len: "length (sequence_bytes st) = length (sequences st)"
      by (simp_all add: paged_invar_def)
    show ?thesis
      by (rule seq_ok_frame [OF ok]) (use True st1 len in \<open>simp_all add: nth_append\<close>)
  next
    case False
    with that assms st1 show ?thesis by (simp add: seq_ok_def nth_append paged_invar_def)
  qed
  moreover have "seqs_disjoint (sequences ?st1)"
    using assms st1 by (simp add: paged_invar_def seqs_disjoint_replicate)
  moreover have "seq_content ?st1 t = seq_content st t" for t
    using st1 True by (auto simp: seq_content_def nth_append page_content_def)
  moreover have "tail_free ?st1 s = 0" using st1 True by (simp add: tail_free_def nth_append)
  then have "room ?st1 s = room st s" using True st1 by (simp add: room_def free_pages_def)
  ultimately show ?thesis using assms st1 True by (simp add: paged_invar_def)
next
  case False
  with assms show ?thesis by (simp add: ensure_sequence_def)
qed

section \<open>Reading\<close>

lemma seq_blocks:
  assumes inv: "paged_invar st" and s: "s < length (sequences st)"
  defines "xs \<equiv> map (page_content (pages st)) (sequences st ! s)"
  shows "\<forall>x \<in> set (butlast xs). length x = page_bytes st"
    and "\<forall>x \<in> set xs. length x \<le> page_bytes st" and "0 < page_bytes st"
proof -
  have ok: "seq_ok st s" and sized: "pages_sized (page_bytes st) (pages st)"
    using inv s by (auto simp: paged_invar_def)
  have l: "length (page_content (pages st) i) = fill_of (pages st) i \<and>
      fill_of (pages st) i \<le> page_bytes st"
    if "i \<in> set (sequences st ! s)" for i
  proof -
    have "nat i < length (pages st)" using ok that by (auto simp: seq_ok_def page_ok_def)
    with sized page_content_length [OF sized this] show ?thesis
      by (simp add: pages_sized_def fill_of_def)
  qed
  show "\<forall>x \<in> set (butlast xs). length x = page_bytes st"
  proof
    fix x assume "x \<in> set (butlast xs)"
    then obtain i where i: "i \<in> set (butlast (sequences st ! s))" "x = page_content (pages st) i"
      by (auto simp: xs_def simp flip: map_butlast)
    with ok l [OF in_set_butlastD [OF i(1)]] show "length x = page_bytes st"
      by (simp add: seq_ok_def)
  qed
  show "\<forall>x \<in> set xs. length x \<le> page_bytes st" using l by (auto simp: xs_def)
  show "0 < page_bytes st" using inv by (simp add: paged_invar_def)
qed

lemma read_chunk:
  assumes inv: "paged_invar st" and s: "s < length (sequences st)"
    and i: "i < length (seq_content st s)" "i + c \<le> length (seq_content st s)"
    and c: "i mod page_bytes st + c \<le> page_bytes st"
  defines "k \<equiv> i div page_bytes st"
  shows "k < length (sequences st ! s)
    \<and> take c (drop (i mod page_bytes st) (page_data (pages st ! nat (sequences st ! s ! k))))
      = take c (drop i (seq_content st s))"
proof -
  let ?xs = "map (page_content (pages st)) (sequences st ! s)"
  let ?b = "page_bytes st"
  have "k < length ?xs \<and> i mod ?b + c \<le> length (?xs ! k)
      \<and> take c (drop i (concat ?xs)) = take c (drop (i mod ?b) (?xs ! k))"
    using concat_blocks_at [OF seq_blocks(1,3,2) [OF inv s], of i] i c s by (auto simp: k_def)
  moreover from this have k: "k < length (sequences st ! s)" by simp
  ultimately have le: "i mod ?b + c \<le> length (page_content (pages st) (sequences st ! s ! k))"
    and eq: "take c (drop i (concat ?xs))
      = take c (drop (i mod ?b) (page_content (pages st) (sequences st ! s ! k)))"
    by simp_all
  from le have "i mod ?b + c \<le> write_offset (pages st ! nat (sequences st ! s ! k))"
    by (simp add: page_content_def)
  with eq s k show ?thesis
    by (simp add: page_content_def drop_take min_absorb1)
qed

lemma read_loop_spec:
  assumes "paged_invar st" "s < length (sequences st)"
    and "off + n \<le> length (seq_content st s)" "copied \<le> n"
    and "out = take copied (drop off (seq_content st s))"
  shows "read_loop st s off n copied out = (n, take n (drop off (seq_content st s)))"
  using assms
proof (induction st s off n copied out rule: read_loop.induct)
  case (1 st s off n copied out)
  let ?b = "page_bytes st"
  let ?i = "off + copied"
  define c where "c = min (n - copied) (?b - ?i mod ?b)"
  have b: "0 < ?b" using "1.prems" by (simp add: paged_invar_def)
  show ?case
  proof (cases "copied < n")
    case True
    have m: "?i mod ?b < ?b" using b by simp
    then have c: "?i + c \<le> length (seq_content st s)" "?i mod ?b + c \<le> ?b" "copied + c \<le> n" "0 < c"
      using "1.prems" True by (auto simp: c_def)
    with "1.prems" True have i: "?i < length (seq_content st s)" by simp
    note ch = read_chunk [OF "1.prems"(1,2) i c(1,2)]
    have out': "out @ take c (drop (?i mod ?b)
          (page_data (pages st ! nat (sequences st ! s ! (?i div ?b)))))
        = take (copied + c) (drop off (seq_content st s))"
      unfolding take_add drop_drop using ch "1.prems"(5) by (simp add: add.commute)
    have "read_loop st s off n (copied + c) (out @ take c (drop (?i mod ?b)
          (page_data (pages st ! nat (sequences st ! s ! (?i div ?b))))))
        = (n, take n (drop off (seq_content st s)))"
      using "1.IH" [of "?i div ?b" "?i mod ?b" _ c] ch True b "1.prems" c out'
      by (simp add: c_def del: seq_contentI)
    with True b ch show ?thesis
      by (subst read_loop.simps) (simp add: c_def Let_def del: seq_contentI)
  next
    case False
    with "1.prems" show ?thesis by (subst read_loop.simps) simp
  qed
qed

section \<open>Releasing\<close>

lemma release_fields [simp]:
  "page_bytes (release st i) = page_bytes st" "sequences (release st i) = sequences st"
  "sequence_bytes (release st i) = sequence_bytes st"
  "length (pages (release st i)) = length (pages st)"
  by (simp_all add: release_def free_page_def)

lemma release_other: "nat i \<noteq> k \<Longrightarrow> pages (release st i) ! k = pages st ! k"
  by (simp add: release_def free_page_def)

lemma release_sized:
  "pages_sized b (pages st) \<Longrightarrow> pages_sized b (pages (release st i))"
  unfolding release_def free_page_def
  by (auto simp: pages_sized_def nth_list_update)

text \<open>A page no sequence holds can be released.\<close>

lemma release_invar:
  assumes inv: "paged_invar st" and free: "\<And>t. t < length (sequences st) \<Longrightarrow> i \<notin> set (sequences st ! t)"
  shows "paged_invar (release st i) \<and> seq_content (release st i) t = seq_content st t"
proof (cases "0 \<le> i")
  case True
  have same: "pages (release st i) ! nat j = pages st ! nat j"
    if "t < length (sequences st)" "j \<in> set (sequences st ! t)" for t j
  proof -
    have "0 \<le> j" using inv that by (auto simp: paged_invar_def seq_ok_def page_ok_def)
    with free that True have "nat i \<noteq> nat j" by (metis nat_eq_iff)
    then show ?thesis by (rule release_other)
  qed
  have "seq_ok (release st i) t" if "t < length (sequences st)" for t
  proof (rule seq_ok_frame [of st])
    show "seq_ok st t" using inv that by (simp add: paged_invar_def)
  qed (use same [OF that] in simp_all)
  then show ?thesis
    using inv same by (auto simp: paged_invar_def release_sized intro!: content_frame)
next
  case False
  with inv show ?thesis by (simp add: release_def)
qed

lemma fold_release_fields [simp]:
  "page_bytes (fold (\<lambda>i st. release st i) is st) = page_bytes st"
  "sequences (fold (\<lambda>i st. release st i) is st) = sequences st"
  "sequence_bytes (fold (\<lambda>i st. release st i) is st) = sequence_bytes st"
  "length (pages (fold (\<lambda>i st. release st i) is st)) = length (pages st)"
  by (induction "is" arbitrary: st) simp_all

lemma fold_release_other:
  "(\<And>i. i \<in> set is \<Longrightarrow> nat i \<noteq> k) \<Longrightarrow> pages (fold (\<lambda>i st. release st i) is st) ! k = pages st ! k"
  by (induction "is" arbitrary: st) (simp_all add: release_other)

lemma fold_release_sized:
  "pages_sized b (pages st) \<Longrightarrow> pages_sized b (pages (fold (\<lambda>i st. release st i) is st))"
  by (induction "is" arbitrary: st) (simp_all add: release_sized)

lemma release_free_pages:
  assumes "0 \<le> i" "nat i < length (pages st)" "allocated (pages st ! nat i)"
  shows "free_pages (release st i) = Suc (free_pages st)"
  using assms length_filter_list_update [of "nat i" "pages st" "\<lambda>pg. \<not> allocated pg"]
  by (simp add: free_pages_def release_def free_page_def)

lemma fold_release_free_pages:
  assumes "distinct is" "\<And>i. i \<in> set is \<Longrightarrow> page_ok st i"
  shows "free_pages (fold (\<lambda>i st. release st i) is st) = length is + free_pages st"
  using assms
proof (induction "is" arbitrary: st)
  case (Cons i is')
  have "page_ok (release st i) j" if "j \<in> set is'" for j
  proof -
    have "page_ok st j" "page_ok st i" using Cons.prems that by auto
    moreover have "i \<noteq> j" using Cons.prems that by auto
    ultimately show ?thesis by (auto simp: page_ok_def release_other nat_eq_iff2)
  qed
  moreover have "page_ok st i" using Cons.prems by simp
  ultimately show ?case using Cons by (simp add: release_free_pages page_ok_def)
qed simp

lemma release_sequence_spec:
  assumes inv: "paged_invar st"
  shows "paged_invar (release_sequence st s) \<and> seq_content (release_sequence st s) s = []
     \<and> (\<forall>t. t \<noteq> s \<longrightarrow> seq_content (release_sequence st s) t = seq_content st t)
     \<and> free_pages (release_sequence st s) = free_pages st + resident st s"
proof (cases "s < length (sequences st)")
  case True
  let ?f = "fold (\<lambda>i st. release st i) (sequences st ! s) st"
  let ?r = "release_sequence st s"
  have len: "length (sequence_bytes st) = length (sequences st)"
    and disj: "seqs_disjoint (sequences st)" and ok: "seq_ok st s"
    using inv True by (auto simp: paged_invar_def)
  have r: "pages ?r = pages ?f" "sequences ?r = (sequences st)[s := []]"
    "sequence_bytes ?r = (sequence_bytes st)[s := 0]" "page_bytes ?r = page_bytes st"
    using True len by (simp_all add: release_sequence_def Let_def)
  have same: "pages ?r ! nat j = pages st ! nat j"
    if t: "t < length (sequences st)" "t \<noteq> s" "j \<in> set (sequences st ! t)" for t j
    unfolding r
  proof (rule fold_release_other)
    fix i assume i: "i \<in> set (sequences st ! s)"
    have "seq_ok st t" using inv t by (simp add: paged_invar_def)
    with ok i t have "page_ok st i" "page_ok st j" by (simp_all add: seq_ok_def)
    moreover have "i \<noteq> j" using seqs_disjointD [OF disj True t(1) _ i t(3)] t by blast
    ultimately show "nat i \<noteq> nat j" by (auto simp: page_ok_def nat_eq_iff2)
  qed
  have "seq_ok ?r t" if t: "t < length (sequences st)" for t
  proof (cases "t = s")
    case True
    with t len r show ?thesis by (simp add: seq_ok_def)
  next
    case False
    have "seq_ok st t" using inv t by (simp add: paged_invar_def)
    then show ?thesis
      by (rule seq_ok_frame) (use t False r same len in simp_all)
  qed
  then have "paged_invar ?r"
    using inv r disj by (simp add: paged_invar_def fold_release_sized seqs_disjoint_clear)
  moreover have "seq_content ?r t = seq_content st t" if "t \<noteq> s" for t
    using that r same by (intro content_frame) simp_all
  moreover have "free_pages ?r = free_pages st + resident st s"
    using fold_release_free_pages [of "sequences st ! s" st] ok r True
    by (simp add: free_pages_def seq_ok_def resident_def)
  ultimately show ?thesis using True r by simp
next
  case False
  with inv show ?thesis by (simp add: release_sequence_def resident_def seq_content_def)
qed

section \<open>The append\<close>

lemma append_kv_spec:
  assumes inv: "paged_invar st" and n: "n \<le> length bs" "n + page_bytes st \<le> 2 ^ 64" and s: "s + 1 < 2 ^ 64"
  shows "\<exists>r st'. append_kv st s (Some bs) n = Some (r, st') \<and> paged_invar st'
    \<and> page_bytes st' = page_bytes st \<and> length (pages st') = length (pages st)
    \<and> (\<forall>t. t \<noteq> s \<longrightarrow> seq_content st' t = seq_content st t)
    \<and> (if n \<le> room st s
       then r = None \<and> seq_content st' s = seq_content st s @ take n bs
         \<and> room st' s + n = room st s
       else r = Some BadAlloc \<and> seq_content st' s = seq_content st s \<and> pages st' = pages st)"
proof -
  let ?st1 = "ensure_sequence st s"
  note e = ensure_sequence_spec [OF inv s]
  have pre: "needed_pages ?st1 s n \<le> free_pages ?st1 \<longleftrightarrow> n \<le> room st s"
    using preflight_iff [of ?st1 s n] e n by simp
  show ?thesis
  proof (cases "n \<le> room st s")
    case True
    have "append_kv st s (Some bs) n = append_loop ?st1 s bs n"
      using True pre e by (simp add: append_kv_def Let_def)
    moreover obtain st' where "append_loop ?st1 s bs n = Some (None, st')" "paged_invar st'"
      "seq_content st' s = seq_content ?st1 s @ take n bs"
      "\<forall>t. t \<noteq> s \<longrightarrow> seq_content st' t = seq_content ?st1 t"
      "length (pages st') = length (pages ?st1)" "page_bytes st' = page_bytes ?st1"
      "room st' s + n = room ?st1 s"
      using append_loop_ok [of ?st1 s n bs] e n True by auto
    ultimately show ?thesis using True e by (simp del: seq_contentI)
  next
    case False
    then have "append_kv st s (Some bs) n = Some (Some BadAlloc, ?st1)"
      using pre e by (simp add: append_kv_def Let_def)
    with False e show ?thesis by (simp del: seq_contentI)
  qed
qed

lemma append_null:
  "s < length (sequences (ensure_sequence st s)) \<Longrightarrow> append_kv st s None n =
     (if n \<noteq> 0 then Some (Some (InvalidArgument ''PagedKV append data is null''), st)
      else Some (None, ensure_sequence st s))"
  by (simp add: append_kv_def Let_def needed_pages_def append_loop.simps)

lemma read_kv_spec:
  assumes inv: "paged_invar st"
  shows "read_kv st s off False n =
    (let xs = take n (drop off (seq_content st s)) in (length xs, xs))"
proof -
  have len: "length (seq_content st s) = bytes_of st s" by (rule seq_content_length [OF inv])
  have lens: "length (sequence_bytes st) = length (sequences st)"
    using inv by (simp add: paged_invar_def)
  show ?thesis
  proof (cases "n \<noteq> 0 \<and> s < length (sequence_bytes st) \<and> off < sequence_bytes st ! s")
    case True
    then have b: "bytes_of st s = sequence_bytes st ! s" by (simp add: bytes_of_def)
    let ?n = "min n (sequence_bytes st ! s - off)"
    have "read_loop st s off ?n 0 [] = (?n, take ?n (drop off (seq_content st s)))"
      using True inv len lens b by (intro read_loop_spec) auto
    moreover have "take ?n (drop off (seq_content st s)) = take n (drop off (seq_content st s))"
      using len b by (cases "n \<le> sequence_bytes st ! s - off") (simp_all add: min_def)
    moreover have "length (take n (drop off (seq_content st s))) = ?n"
      using len b by simp
    ultimately show ?thesis using True by (simp add: read_kv_def Let_def del: seq_contentI)
  next
    case False
    with len have "take n (drop off (seq_content st s)) = []"
      by (auto simp: bytes_of_def split: if_splits)
    with False show ?thesis by (auto simp: read_kv_def Let_def)
  qed
qed

section \<open>The cache as a store of byte strings\<close>

text \<open>
  What a client of the cache relies on: appends that fit extend one string by what was
  written, appends that do not fit change nothing, reads return slices.
\<close>

locale byte_store =
  fixes inv :: "'s \<Rightarrow> bool"
    and limit names :: nat
    and content :: "'s \<Rightarrow> nat \<Rightarrow> 'b list"
    and space :: "'s \<Rightarrow> nat \<Rightarrow> nat"
    and put :: "'s \<Rightarrow> nat \<Rightarrow> 'b list \<Rightarrow> bool \<times> 's"
    and fetch :: "'s \<Rightarrow> nat \<Rightarrow> nat \<Rightarrow> nat \<Rightarrow> 'b list"
  assumes put_inv: "inv s \<Longrightarrow> q < names \<Longrightarrow> length xs \<le> limit \<Longrightarrow> inv (snd (put s q xs))"
    and put_done: "inv s \<Longrightarrow> q < names \<Longrightarrow> length xs \<le> limit \<Longrightarrow> fst (put s q xs) \<longleftrightarrow> length xs \<le> space s q"
    and put_content: "inv s \<Longrightarrow> q < names \<Longrightarrow> length xs \<le> limit \<Longrightarrow> content (snd (put s q xs)) t =
          content s t @ (if t = q \<and> fst (put s q xs) then xs else [])"
    and fetch_content: "inv s \<Longrightarrow> fetch s q off n = take n (drop off (content s q))"
begin

fun run :: "'s \<Rightarrow> (nat \<times> 'b list) list \<Rightarrow> 's" where
  "run s [] = s"
| "run s ((q, xs) # ws) = run (snd (put s q xs)) ws"

fun accepted :: "'s \<Rightarrow> nat \<Rightarrow> (nat \<times> 'b list) list \<Rightarrow> 'b list" where
  "accepted s t [] = []"
| "accepted s t ((q, xs) # ws) =
     (if t = q \<and> length xs \<le> space s q then xs else []) @ accepted (snd (put s q xs)) t ws"

lemma run_inv: "inv s \<Longrightarrow> \<forall>(q, xs) \<in> set ws. q < names \<and> length xs \<le> limit \<Longrightarrow> inv (run s ws)"
  by (induction s ws rule: run.induct) (simp_all add: put_inv)

lemma run_content:
  "inv s \<Longrightarrow> \<forall>(q, xs) \<in> set ws. q < names \<and> length xs \<le> limit \<Longrightarrow>
   content (run s ws) t = content s t @ accepted s t ws"
  by (induction s ws rule: run.induct) (auto simp: put_inv put_content put_done)

lemma fetch_all:
  "inv s \<Longrightarrow> \<forall>(q, xs) \<in> set ws. q < names \<and> length xs \<le> limit \<Longrightarrow> content s t = [] \<Longrightarrow>
   fetch (run s ws) t 0 (length (accepted s t ws)) = accepted s t ws"
  by (simp add: fetch_content run_inv run_content)

end

definition kv_addressable :: "paged_kv \<Rightarrow> bool" where
  "kv_addressable st \<longleftrightarrow> paged_invar st \<and> page_bytes st \<le> 2 ^ 63"

text \<open>\<open>append\<close> of a whole buffer: whether it threw, and the state after it.\<close>

definition kv_put :: "paged_kv \<Rightarrow> nat \<Rightarrow> byte list \<Rightarrow> bool \<times> paged_kv" where
  "kv_put st s xs =
     (case append_kv st s (Some xs) (length xs) of
        None \<Rightarrow> (False, st)
      | Some (r, st') \<Rightarrow> (r = None, st'))"

definition kv_fetch :: "paged_kv \<Rightarrow> nat \<Rightarrow> nat \<Rightarrow> nat \<Rightarrow> byte list" where
  "kv_fetch st s off n = snd (read_kv st s off False n)"

lemma kv_put_cases:
  assumes "kv_addressable st" "s < 2 ^ 64 - 1" "length xs \<le> 2 ^ 63"
  obtains st' where "kv_put st s xs = (length xs \<le> room st s, st')" "kv_addressable st'"
    "\<And>t. seq_content st' t =
       seq_content st t @ (if t = s \<and> length xs \<le> room st s then xs else [])"
proof -
  have inv: "paged_invar st" and n: "length xs + page_bytes st \<le> 2 ^ 64"
    using assms by (auto simp: kv_addressable_def)
  have s: "s + 1 < 2 ^ 64" using assms(2) by simp
  from append_kv_spec [OF inv order_refl n s] obtain r st' where
    a: "append_kv st s (Some xs) (length xs) = Some (r, st')" "paged_invar st'"
      "page_bytes st' = page_bytes st" "\<forall>t. t \<noteq> s \<longrightarrow> seq_content st' t = seq_content st t"
    and c: "if length xs \<le> room st s
       then r = None \<and> seq_content st' s = seq_content st s @ take (length xs) xs
         \<and> room st' s + length xs = room st s
       else r = Some BadAlloc \<and> seq_content st' s = seq_content st s \<and> pages st' = pages st"
    by (elim exE conjE) blast
  show thesis
  proof (rule that)
    show "kv_put st s xs = (length xs \<le> room st s, st')"
      using a c by (auto simp: kv_put_def split: if_splits)
    show "kv_addressable st'" using a assms by (simp add: kv_addressable_def)
    show "seq_content st' t =
       seq_content st t @ (if t = s \<and> length xs \<le> room st s then xs else [])" for t
      using a c by (cases "t = s") (auto simp del: seq_contentI split: if_splits)
  qed
qed

interpretation kv: byte_store kv_addressable "2 ^ 63" "2 ^ 64 - 1" seq_content room kv_put kv_fetch
proof
  fix st q t off n and xs :: "byte list"
  assume i: "kv_addressable st"
  show "kv_fetch st q off n = take n (drop off (seq_content st q))"
    using i by (simp add: kv_fetch_def read_kv_spec kv_addressable_def Let_def del: seq_contentI)
  assume q: "q < 2 ^ 64 - 1" and n: "length xs \<le> 2 ^ 63"
  obtain st' where p: "kv_put st q xs = (length xs \<le> room st q, st')" "kv_addressable st'"
    "\<And>t. seq_content st' t =
       seq_content st t @ (if t = q \<and> length xs \<le> room st q then xs else [])"
    by (rule kv_put_cases [OF i q n]) (rule that)
  show "kv_addressable (snd (kv_put st q xs))" using p by simp
  show "fst (kv_put st q xs) = (length xs \<le> room st q)" using p by simp
  show "seq_content (snd (kv_put st q xs)) t =
      seq_content st t @ (if t = q \<and> fst (kv_put st q xs) then xs else [])"
    using p by (simp del: seq_contentI)
qed

section \<open>Reachable states\<close>

text \<open>
  A client of the cache that releases by number only pages it has got from \<open>acquire\<close>: one step per
  call, on the cache and the set of pages the client holds. The code does not ask this of its
  clients; what happens otherwise is the lemma \<open>release_held_page_aliases\<close>. Sequence numbers and
  sizes stay where \<open>size_t\<close> does not wrap.
\<close>

inductive kv_step :: "paged_kv \<times> int set \<Rightarrow> paged_kv \<times> int set \<Rightarrow> bool" where
  step_acquire: "acquire st = (i, st') \<Longrightarrow> kv_step (st, A) (st', if i < 0 then A else insert i A)"
| step_release: "i \<in> A \<Longrightarrow> kv_step (st, A) (release st i, A - {i})"
| step_release_none: "i < 0 \<or> length (pages st) \<le> nat i \<Longrightarrow> kv_step (st, A) (release st i, A)"
| step_release_sequence: "kv_step (st, A) (release_sequence st s, A)"
| step_append: "append_kv st s (Some bs) n = Some (r, st') \<Longrightarrow> n \<le> length bs \<Longrightarrow> s + 1 < 2 ^ 64 \<Longrightarrow>
     n + page_bytes st \<le> 2 ^ 64 \<Longrightarrow> kv_step (st, A) (st', A)"
| step_append_null: "append_kv st s None n = Some (r, st') \<Longrightarrow> s + 1 < 2 ^ 64 \<Longrightarrow> kv_step (st, A) (st', A)"

text \<open>A page is allocated exactly when the client or one sequence holds it.\<close>

definition seq_pages :: "paged_kv \<Rightarrow> int set" where
  "seq_pages st = (\<Union>t < length (sequences st). set (sequences st ! t))"

definition pages_owned :: "paged_kv \<Rightarrow> int set \<Rightarrow> bool" where
  "pages_owned st A \<longleftrightarrow>
     length (pages st) < 2 ^ 31 \<and> A \<inter> seq_pages st = {}
     \<and> (\<forall>i \<in> A. 0 \<le> i \<and> nat i < length (pages st))
     \<and> (\<forall>k < length (pages st). allocated (pages st ! k) \<longleftrightarrow> int k \<in> A \<union> seq_pages st)"

lemma pages_owned_same:
  assumes "pages_owned st A" "seq_pages st' = seq_pages st" "length (pages st') = length (pages st)"
    and "\<And>k. k < length (pages st) \<Longrightarrow> allocated (pages st' ! k) = allocated (pages st ! k)"
  shows "pages_owned st' A"
  using assms unfolding pages_owned_def by simp

lemma pages_owned_take:
  assumes own: "pages_owned st A" and k: "k < length (pages st)" "\<not> allocated (pages st ! k)"
    and "pages st' = take_page (pages st) k"
    and "A' \<union> seq_pages st' = insert (int k) (A \<union> seq_pages st)" "A' \<inter> seq_pages st' = {}" "A' \<subseteq> insert (int k) A"
  shows "pages_owned st' A'"
  using assms unfolding pages_owned_def take_page_def by (auto simp: nth_list_update)

lemma i32_page: "pages_owned st A \<Longrightarrow> k < length (pages st) \<Longrightarrow> i32 (int k) = int k"
  by (simp add: pages_owned_def i32_def)

lemma seq_pages_append:
  assumes "s < length (sequences st)"
  shows "seq_pages (st\<lparr>pages := ps, sequences := (sequences st)[s := sequences st ! s @ [i]]\<rparr>) = insert i (seq_pages st)"
  using assms unfolding seq_pages_def by (auto simp: nth_list_update split: if_splits)

lemma tail_page_owned:
  assumes own: "pages_owned st A" and s: "s < length (sequences st)"
  shows "pages_owned (snd (tail_page st s)) A \<and> s < length (sequences (snd (tail_page st s)))"
proof (cases "first_free (pages st)")
  case None
  with assms show ?thesis by (simp add: tail_page_def Let_def)
next
  case (Some k)
  note k = first_free_SomeD [OF Some]
  then have i: "i32 (int k) = int k" using i32_page [OF own] by blast
  let ?st = "st\<lparr>pages := take_page (pages st) k, sequences := (sequences st)[s := sequences st ! s @ [int k]]\<rparr>"
  have q: "seq_pages ?st = insert (int k) (seq_pages st)" by (rule seq_pages_append [OF s])
  have "int k \<notin> A" using own k by (auto simp: pages_owned_def)
  then have "pages_owned ?st A"
    using own k q by (intro pages_owned_take [OF own, of k]) (auto simp: pages_owned_def)
  with own s Some i show ?thesis by (simp add: tail_page_def Let_def)
qed

lemma nth_list_update_if: "xs[k := x] ! j = (if j = k \<and> k < length xs then x else xs ! j)"
  by (cases "k < length xs") (simp_all add: list_update_beyond)

lemma write_chunk_owned:
  assumes "pages_owned st A"
  shows "pages_owned (write_chunk st s k p c) A"
  by (rule pages_owned_same [OF assms])
    (simp_all add: write_chunk_def seq_pages_def nth_list_update_if)

lemma append_loop_owned:
  assumes "append_loop st s p left = Some y" and "pages_owned st A" "s < length (sequences st)"
  shows "pages_owned (snd y) A"
proof -
  have "pages_owned st A \<longrightarrow> s < length (sequences st) \<longrightarrow> pages_owned (snd y) A"
  proof (rule append_loop.raw_induct [where P = "\<lambda>st s p left y.
      pages_owned st A \<longrightarrow> s < length (sequences st) \<longrightarrow> pages_owned (snd y) A", OF _ assms(1)], intro impI)
    fix f and st :: paged_kv and s p left y
    let ?t = "tail_page st s"
    let ?c = "chunk_size (snd ?t) (nat (fst ?t)) left"
    let ?st = "write_chunk (snd ?t) s (nat (fst ?t)) p ?c"
    assume ih: "\<And>st s p left y. f st s p left = Some y
        \<Longrightarrow> pages_owned st A \<longrightarrow> s < length (sequences st) \<longrightarrow> pages_owned (snd y) A"
      and eq: "(if left = 0 then Some (None, st) else if fst ?t < 0 then Some (Some BadAlloc, snd ?t)
        else f ?st s (drop ?c p) (left - ?c)) = Some y"
      and own: "pages_owned st A" "s < length (sequences st)"
    note t = tail_page_owned [OF own]
    have "pages_owned ?st A" by (rule write_chunk_owned [OF conjunct1 [OF t]])
    moreover have "s < length (sequences ?st)" using t by (simp add: write_chunk_def)
    ultimately show "pages_owned (snd y) A"
      using eq ih [of ?st s "drop ?c p" "left - ?c" y] own t by (auto split: if_splits)
  qed
  with assms show ?thesis by blast
qed

lemma ensure_sequence_owned:
  assumes "pages_owned st A" "s + 1 < 2 ^ 64"
  shows "pages_owned (ensure_sequence st s) A"
proof (rule pages_owned_same [OF assms(1)])
  show "seq_pages (ensure_sequence st s) = seq_pages st"
  proof (cases "s \<ge> length (sequences st)")
    case True
    define xs where "xs = sequences st @ replicate (Suc s - length (sequences st)) []"
    have xs: "sequences (ensure_sequence st s) = xs"
      using True assms(2) by (simp add: ensure_sequence_def resize_def wadd_exact xs_def)
    have all: "(\<Union>t < length ys. set (ys ! t)) = \<Union> (set ` set ys)" for ys :: "int list list"
      by (simp add: set_conv_nth [of ys] image_Collect) blast
    show ?thesis unfolding seq_pages_def xs all by (auto simp: xs_def)
  qed (simp add: ensure_sequence_def)
qed (simp_all add: ensure_sequence_def)

lemma append_kv_owned:
  assumes own: "pages_owned st A" and s: "s + 1 < 2 ^ 64" and eq: "append_kv st s d n = Some (r, st')"
  shows "pages_owned st' A"
proof -
  let ?st1 = "ensure_sequence st s"
  note e = ensure_sequence_owned [OF own s]
  consider "st' = st" | "st' = ?st1"
    | "append_loop ?st1 s (case d of None \<Rightarrow> [] | Some bs \<Rightarrow> bs) n = Some (r, st')" "s < length (sequences ?st1)"
    using eq unfolding append_kv_def Let_def by (auto split: if_splits)
  then show ?thesis
    by cases (use own e append_loop_owned [OF _ e] in auto)
qed

lemma fold_release_allocated:
  assumes "\<forall>i \<in> set is. 0 \<le> i" "k < length (pages st)"
  shows "allocated (pages (fold (\<lambda>i st. release st i) is st) ! k) \<longleftrightarrow> allocated (pages st ! k) \<and> int k \<notin> set is"
  using assms by (induction "is" arbitrary: st) (auto simp: release_def free_page_def nth_list_update)

lemma release_sequence_owned:
  assumes inv: "paged_invar st" and own: "pages_owned st A"
  shows "pages_owned (release_sequence st s) A"
proof (cases "s < length (sequences st)")
  case True
  let ?l = "sequences st ! s" and ?r = "release_sequence st s"
  have disj: "seqs_disjoint (sequences st)" and nn: "\<forall>i \<in> set ?l. 0 \<le> i"
    using inv True by (auto simp: paged_invar_def seq_ok_def page_ok_def)
  have r: "pages ?r = pages (fold (\<lambda>i st. release st i) ?l st)" "sequences ?r = (sequences st)[s := []]"
    using True by (simp_all add: release_sequence_def Let_def)
  have q: "seq_pages ?r = seq_pages st - set ?l"
  proof -
    have "set (sequences st ! t) \<inter> set ?l = {}" if "t < length (sequences st)" "t \<noteq> s" for t
      using disj that True unfolding seqs_disjoint_def by blast
    then show ?thesis using True unfolding seq_pages_def r by (fastforce simp: nth_list_update split: if_splits)
  qed
  have "set ?l \<subseteq> seq_pages st" using True by (auto simp: seq_pages_def)
  with own show ?thesis
    unfolding pages_owned_def q r by (auto simp: fold_release_allocated [OF nn])
next
  case False
  with own show ?thesis by (simp add: release_sequence_def)
qed

lemma release_owned:
  assumes "pages_owned st A" "i \<in> A"
  shows "pages_owned (release st i) (A - {i})"
proof -
  have "seq_pages (release st i) = seq_pages st" by (simp add: seq_pages_def)
  moreover have "0 \<le> i" using assms by (auto simp: pages_owned_def)
  ultimately show ?thesis using assms
    unfolding pages_owned_def by (auto simp: release_def free_page_def nth_list_update)
qed

lemma acquire_owned:
  assumes own: "pages_owned st A" and eq: "acquire st = (i, st')"
  shows "pages_owned st' (if i < 0 then A else insert i A)"
proof (cases "first_free (pages st)")
  case None
  with own eq show ?thesis by (auto simp: acquire_def)
next
  case (Some k)
  note k = first_free_SomeD [OF Some]
  then have e: "i = int k" "st' = st\<lparr>pages := take_page (pages st) k\<rparr>"
    using eq Some i32_page [OF own] by (auto simp: acquire_def)
  have "int k \<notin> A \<union> seq_pages st" using own k by (auto simp: pages_owned_def)
  moreover have "seq_pages st' = seq_pages st" by (simp add: seq_pages_def e)
  ultimately have "pages_owned st' (insert (int k) A)"
    using own k by (intro pages_owned_take [OF own, of k]) (auto simp: pages_owned_def e)
  then show ?thesis by (simp add: e)
qed

definition kv_ok :: "paged_kv \<times> int set \<Rightarrow> bool" where
  "kv_ok x \<longleftrightarrow> paged_invar (fst x) \<and> pages_owned (fst x) (snd x)"

definition kv_start :: "paged_kv \<times> int set \<Rightarrow> bool" where
  "kv_start x \<longleftrightarrow> snd x = {} \<and> (\<exists>l t b p. p < 2 ^ 31 \<and> paged_kv_new l t b p = Inr (fst x))"

lemma kv_start_invar: "kv_start x \<Longrightarrow> kv_ok x"
proof -
  assume "kv_start x"
  then obtain t b p where x: "x = (\<lparr>page_tokens = t, page_bytes = b,
      pages = replicate p \<lparr>page_data = replicate b 0, allocated = False, write_offset = 0\<rparr>,
      sequences = [], sequence_bytes = []\<rparr>, {})" "0 < b" "p < 2 ^ 31"
    by (cases x) (auto simp: kv_start_def paged_kv_new_def split: if_splits)
  then show ?thesis
    by (simp add: kv_ok_def paged_invar_def pages_sized_def seqs_disjoint_def pages_owned_def seq_pages_def)
qed

lemma acquire_invar:
  assumes inv: "paged_invar st"
  shows "paged_invar (snd (acquire st)) \<and> seq_content (snd (acquire st)) t = seq_content st t"
proof (cases "first_free (pages st)")
  case None
  with inv show ?thesis by (simp add: acquire_def)
next
  case (Some k)
  note k = first_free_SomeD [OF Some]
  let ?st1 = "st\<lparr>pages := take_page (pages st) k\<rparr>"
  have same: "pages ?st1 ! nat j = pages st ! nat j"
    if t: "t < length (sequences st)" "j \<in> set (sequences st ! t)" for t j
  proof -
    have "0 \<le> j" using inv t by (auto simp: paged_invar_def seq_ok_def page_ok_def)
    with not_owned_if_free [OF inv, of k t] k t have "nat j \<noteq> k" by auto
    then show ?thesis by (simp add: take_page_def)
  qed
  have "seq_ok ?st1 t" if "t < length (sequences st)" for t
  proof (rule seq_ok_frame [of st])
    show "seq_ok st t" using inv that by (simp add: paged_invar_def)
  qed (use same [OF that] in \<open>simp_all add: take_page_def\<close>)
  moreover have "pages_sized (page_bytes st) (take_page (pages st) k)"
    using inv k by (auto simp: paged_invar_def take_page_def pages_sized_def nth_list_update)
  moreover have "seq_content ?st1 t = seq_content st t"
    using same by (intro content_frame) simp_all
  ultimately show ?thesis
    using inv Some by (simp add: acquire_def paged_invar_def take_page_def)
qed

lemma kv_step_invar: "kv_step x y \<Longrightarrow> kv_ok x \<Longrightarrow> kv_ok y"
proof (induction rule: kv_step.induct)
  case (step_acquire st i st' A)
  then show ?case using acquire_owned [of st A i st'] acquire_invar [of st] by (auto simp: kv_ok_def)
next
  case (step_release i A st)
  then have "i \<notin> set (sequences st ! t)" if "t < length (sequences st)" for t
    using that by (auto simp: kv_ok_def pages_owned_def seq_pages_def)
  with step_release show ?case using release_invar [of st i] release_owned [of st A i] by (auto simp: kv_ok_def)
next
  case (step_release_none i st A)
  then have "release st i = st" by (auto simp: release_def)
  with step_release_none show ?case by simp
next
  case (step_release_sequence st A s)
  then show ?case using release_sequence_spec [of st s] release_sequence_owned [of st A s] by (simp add: kv_ok_def)
next
  case (step_append st s bs n r st' A)
  then show ?case using append_kv_spec [of st n bs s] append_kv_owned [of st A s "Some bs" n r st']
    by (auto simp: kv_ok_def)
next
  case (step_append_null st s n r st' A)
  then show ?case
    using ensure_sequence_spec [of st s] append_kv_owned [of st A s None n r st']
    by (auto simp: append_null kv_ok_def split: if_splits)
qed

interpretation kv_machine: invariant_system kv_start kv_step kv_ok
  by unfold_locales (auto intro: kv_start_invar kv_step_invar)

lemma resident_ceil:
  assumes inv: "paged_invar st"
  shows "resident st s = (bytes_of st s + page_bytes st - 1) div page_bytes st"
proof (cases "s < length (sequences st) \<and> sequences st ! s \<noteq> []")
  case True
  let ?ids = "sequences st ! s" and ?b = "page_bytes st"
  have ok: "seq_ok st s" and sized: "pages_sized ?b (pages st)" and b: "0 < ?b"
    and len: "length (sequence_bytes st) = length (sequences st)"
    using inv True by (auto simp: paged_invar_def)
  have "page_ok st (last ?ids)" using ok True by (simp add: seq_ok_def)
  then have l: "0 < fill_of (pages st) (last ?ids)" "fill_of (pages st) (last ?ids) \<le> ?b"
    using sized by (auto simp: page_ok_def fill_of_def pages_sized_def)
  have "map (fill_of (pages st)) (butlast ?ids) = replicate (length (butlast ?ids)) ?b"
    using ok by (intro replicate_eqI) (auto simp: seq_ok_def)
  then have "sum_list (map (fill_of (pages st)) (butlast ?ids @ [last ?ids]))
      = (length ?ids - 1) * ?b + fill_of (pages st) (last ?ids)"
    by (simp add: sum_list_replicate)
  then have bytes: "bytes_of st s = (length ?ids - 1) * ?b + fill_of (pages st) (last ?ids)"
    using True ok len by (simp add: bytes_of_def seq_ok_def)
  obtain m where m: "length ?ids = Suc m" using True by (cases ?ids) auto
  obtain r where r: "fill_of (pages st) (last ?ids) = Suc r" "r < ?b"
    using l by (cases "fill_of (pages st) (last ?ids)") auto
  have "bytes_of st s + ?b - 1 = r + length ?ids * ?b"
    using r m by (simp add: bytes)
  also have "\<dots> div ?b = length ?ids" using r(2) by simp
  finally show ?thesis using True by (simp add: resident_def)
next
  case False
  then have "resident st s = 0" "seq_content st s = []"
    by (auto simp: resident_def seq_content_def)
  with seq_content_length [OF inv, of s] inv show ?thesis by (simp add: paged_invar_def)
qed

lemma locate_spec:
  assumes inv: "paged_invar st" and off: "off < bytes_of st s"
  shows "loc_valid (locate st s off) \<and> loc_offset (locate st s off) < page_bytes st
    \<and> loc_page (locate st s off) \<in> set (sequences st ! s)
    \<and> page_data (pages st ! nat (loc_page (locate st s off))) ! loc_offset (locate st s off)
      = seq_content st s ! off"
proof -
  have s: "s < length (sequences st)" and sb: "s < length (sequence_bytes st)" "off < sequence_bytes st ! s"
    using off inv by (auto simp: bytes_of_def paged_invar_def split: if_splits)
  let ?b = "page_bytes st" and ?k = "off div page_bytes st"
  have len: "length (seq_content st s) = bytes_of st s" by (rule seq_content_length [OF inv])
  have b: "0 < ?b" using inv by (simp add: paged_invar_def)
  have "off + 1 \<le> length (seq_content st s)" "off mod ?b + 1 \<le> ?b"
    using off len b by (simp_all add: Suc_le_eq)
  from read_chunk [OF inv s _ this] off len have k: "?k < length (sequences st ! s)"
    and eq: "take 1 (drop (off mod ?b) (page_data (pages st ! nat (sequences st ! s ! ?k))))
      = take 1 (drop off (seq_content st s))" by simp_all
  have m: "sequences st ! s ! ?k \<in> set (sequences st ! s)" using k by simp
  have "page_ok st (sequences st ! s ! ?k)"
    using inv s m by (auto simp: paged_invar_def seq_ok_def)
  moreover from this inv have
    "off mod ?b < length (page_data (pages st ! nat (sequences st ! s ! ?k)))"
    using b by (simp add: page_ok_def paged_invar_def pages_sized_def)
  with eq off len have "page_data (pages st ! nat (sequences st ! s ! ?k)) ! (off mod ?b)
      = seq_content st s ! off"
    by (simp add: take_Suc_conv_app_nth hd_drop_conv_nth take_Suc del: seq_contentI)
  ultimately show ?thesis
    using sb k m b by (simp add: locate_def Let_def page_ok_def del: seq_contentI)
qed

section \<open>Properties\<close>

text \<open>
  C2: an append of \<open>n\<close> bytes to a sequence below the largest number always returns. When the sequence's last page and the free pages
  have room for all of them it succeeds and the sequence's string is extended by exactly these
  bytes; otherwise it throws \<open>bad_alloc\<close> with every string, and every page, as it was. No other
  sequence changes in either case, and the invariant is kept.
\<close>

theorem append_refines:
  assumes "paged_invar st" and "n \<le> length bs" and "n + page_bytes st \<le> 2 ^ 64" and "s + 1 < 2 ^ 64"
  shows "\<exists>r st'. append_kv st s (Some bs) n = Some (r, st') \<and> paged_invar st'
    \<and> (\<forall>t. t \<noteq> s \<longrightarrow> seq_content st' t = seq_content st t)
    \<and> (if n \<le> room st s
       then r = None \<and> seq_content st' s = seq_content st s @ take n bs
       else r = Some BadAlloc \<and> seq_content st' s = seq_content st s \<and> pages st' = pages st)"
  using append_kv_spec [OF assms] by (elim exE conjE) (rule exI, rule exI, auto split: if_splits)

definition kv_example :: paged_kv where
  "kv_example =
     \<lparr>page_tokens = 1, page_bytes = 4,
      pages = replicate 2 \<lparr>page_data = replicate 4 0, allocated = False, write_offset = 0\<rparr>,
      sequences = [], sequence_bytes = []\<rparr>"

lemma kv_example_start: "kv_start (kv_example, {})"
  unfolding kv_start_def fst_conv snd_conv
  by (rule conjI [OF refl], rule exI [of _ 0], rule exI [of _ 1], rule exI [of _ 4], rule exI [of _ 2])
    (simp add: paged_kv_new_def kv_example_def)

lemma kv_example_invar: "paged_invar kv_example"
  using kv_start_invar [OF kv_example_start] by (simp add: kv_ok_def)

theorem append_refines_witness:
  "\<exists>st'. append_kv kv_example 0 (Some [1, 2, 3, 4, 5]) 5 = Some (None, st')
     \<and> seq_content st' 0 = [1, 2, 3, 4, 5]"
proof -
  have n: "5 \<le> length [1, 2, 3, 4, 5 :: byte]" "5 + page_bytes kv_example \<le> 2 ^ 64"
    by (simp_all add: kv_example_def)
  have "room kv_example 0 = 8"
    by (simp add: room_def kv_example_def free_pages_def numeral_2_eq_2)
  moreover have "seq_content kv_example 0 = []"
    by (simp add: seq_content_def kv_example_def)
  ultimately show ?thesis
    using append_refines [OF kv_example_invar n, of 0] by auto
qed

text \<open>
  a read returns the slice of the sequence's string that starts at the offset and is as
  long as was asked for, or as is left.
\<close>

theorem read_returns_slice:
  assumes "paged_invar st"
  shows "read_kv st s off False n =
    (length (take n (drop off (seq_content st s))), take n (drop off (seq_content st s)))"
  using read_kv_spec [OF assms, of s off n] by (simp add: Let_def del: seq_contentI)

theorem read_returns_slice_witness: "read_kv kv_example 0 0 False 3 = (0, [])"
  using read_returns_slice [OF kv_example_invar, of 0 0 3]
  by (simp add: seq_content_def kv_example_def)

text \<open>
  C1: any interleaving of appends to any sequences below the largest number leaves each sequence
  readable as the concatenation of the buffers accepted for it, in order, whatever happened to the
  others.
\<close>

theorem interleaved_appends_read_back:
  assumes "paged_invar st" and "page_bytes st \<le> 2 ^ 63"
    and "\<forall>(q, xs) \<in> set ws. q < 2 ^ 64 - 1 \<and> length xs \<le> 2 ^ 63" and "seq_content st t = []"
  shows "kv_fetch (kv.run st ws) t 0 (length (kv.accepted st t ws)) = kv.accepted st t ws"
  using assms by (intro kv.fetch_all) (simp_all add: kv_addressable_def del: seq_contentI)

theorem interleaved_appends_read_back_witness:
  "kv_fetch (kv.run kv_example [(0, [7]), (1, [8]), (0, [9])]) 0 0
      (length (kv.accepted kv_example 0 [(0, [7]), (1, [8]), (0, [9])]))
    = kv.accepted kv_example 0 [(0, [7]), (1, [8]), (0, [9])]"
  by (rule interleaved_appends_read_back [OF kv_example_invar])
    (simp_all add: kv_example_def seq_content_def)

text \<open>
  \<open>release_sequence\<close> empties the one sequence and gives back exactly the pages it held;
  every other sequence keeps its string, and the invariant is kept.
\<close>

theorem release_sequence_frees:
  assumes "paged_invar st"
  shows "paged_invar (release_sequence st s) \<and> seq_content (release_sequence st s) s = []
     \<and> (\<forall>t. t \<noteq> s \<longrightarrow> seq_content (release_sequence st s) t = seq_content st t)
     \<and> free_pages (release_sequence st s) = free_pages st + resident st s"
  by (rule release_sequence_spec [OF assms])

theorem release_sequence_frees_witness:
  "free_pages (release_sequence kv_example 0) = 2"
  using release_sequence_frees [OF kv_example_invar, of 0]
  by (simp add: kv_example_def free_pages_def resident_def numeral_2_eq_2)

text \<open>
  C24: as long as the clients release by number only pages they have acquired, and no number wraps,
  no call leaks a page: a page is allocated exactly when a client or a sequence holds it, a
  sequence holds its byte count divided by the page size, rounded up, and the byte count is the
  length of its string.
\<close>

theorem reachable_pages_are_needed:
  assumes "kv_start x" and "kv_step\<^sup>*\<^sup>* x (st, A)"
  shows "bytes_of st s = length (seq_content st s)
    \<and> resident st s = (bytes_of st s + page_bytes st - 1) div page_bytes st
    \<and> (\<forall>k < length (pages st). allocated (pages st ! k)
          \<longleftrightarrow> int k \<in> A \<or> (\<exists>t < length (sequences st). int k \<in> set (sequences st ! t)))
    \<and> (\<forall>t < length (sequences st). A \<inter> set (sequences st ! t) = {})"
proof -
  have "paged_invar st" "pages_owned st A"
    using kv_machine.reachable_invar [OF assms] by (simp_all add: kv_ok_def)
  then show ?thesis
    by (auto simp: resident_ceil seq_content_length pages_owned_def seq_pages_def simp del: seq_contentI)
qed

theorem reachable_pages_are_needed_witness:
  "\<exists>st. kv_step\<^sup>*\<^sup>* (kv_example, {}) (st, {0}) \<and> seq_content st 0 = [7, 8, 9] \<and> resident st 0 = 1"
proof -
  let ?a = "snd (acquire kv_example)"
  have a: "acquire kv_example = (0, ?a)" "page_bytes ?a = 4" "room ?a 0 = 4" "seq_content ?a 0 = []"
    by (simp_all add: acquire_def kv_example_def first_free_def i32_def take_page_def room_def free_pages_def
        seq_content_def numeral_2_eq_2)
  have inv: "paged_invar ?a" using acquire_invar [OF kv_example_invar] by blast
  obtain st where st: "append_kv ?a 0 (Some [7, 8, 9]) 3 = Some (None, st)" "seq_content st 0 = [7, 8, 9]" "page_bytes st = 4"
    using append_kv_spec [OF inv, of 3 "[7, 8, 9]" 0] a by (auto simp del: seq_contentI)
  have "kv_step (kv_example, {}) (?a, {0})" using step_acquire [OF a(1), of "{}"] by simp
  moreover have "kv_step (?a, {0}) (st, {0})" using a(2) by (intro step_append [OF st(1)]) simp_all
  ultimately have run: "kv_step\<^sup>*\<^sup>* (kv_example, {}) (st, {0})" by (simp add: rtranclp.rtrancl_into_rtrancl)
  have "resident st 0 = 1"
    using reachable_pages_are_needed [OF kv_example_start run, of 0] st by (simp del: seq_contentI)
  with st run show ?thesis by blast
qed

text \<open>
  for every offset below a sequence's byte count \<open>locate\<close> is valid: it names a page the
  sequence holds and a place in it where the byte of the string at that offset is stored.
\<close>

theorem locate_points_at_byte:
  assumes "paged_invar st" and "off < bytes_of st s"
  shows "loc_valid (locate st s off) \<and> loc_offset (locate st s off) < page_bytes st
    \<and> loc_page (locate st s off) \<in> set (sequences st ! s)
    \<and> page_data (pages st ! nat (loc_page (locate st s off))) ! loc_offset (locate st s off)
      = seq_content st s ! off"
  by (rule locate_spec [OF assms])

definition kv_example_full :: paged_kv where
  "kv_example_full =
     \<lparr>page_tokens = 1, page_bytes = 2,
      pages = [\<lparr>page_data = [5, 6], allocated = True, write_offset = 2\<rparr>,
               \<lparr>page_data = [7, 0], allocated = True, write_offset = 1\<rparr>],
      sequences = [[0, 1]], sequence_bytes = [3]\<rparr>"

lemma kv_example_full_invar: "paged_invar kv_example_full"
  by (auto simp: paged_invar_def kv_example_full_def pages_sized_def seqs_disjoint_def seq_ok_def
      page_ok_def fill_of_def less_Suc_eq)

theorem locate_points_at_byte_witness:
  "loc_valid (locate kv_example_full 0 2)"
proof -
  have "2 < bytes_of kv_example_full 0" by (simp add: bytes_of_def kv_example_full_def)
  with locate_points_at_byte [OF kv_example_full_invar] show ?thesis by blast
qed

text \<open>
  The unguarded \<open>release\<close>: releasing a page that a sequence holds hands it to the next
  sequence that appends, and the first one then reads the other's bytes.
\<close>

text \<open>
  The largest sequence number: \<open>s + 1\<close> wraps to 0, the \<open>resize\<close> drops every sequence, their pages
  stay allocated for ever, and the index that follows is past the end.
\<close>

lemma append_drops_sequences:
  assumes "length (sequences st) < 2 ^ 64"
  shows "append_kv st (2 ^ 64 - 1) (Some bs) n
    = Some (Some UndefinedBehavior, st\<lparr>sequences := [], sequence_bytes := []\<rparr>)"
  using assms by (simp add: append_kv_def ensure_sequence_def resize_def wadd_def)

lemma release_held_page_aliases:
  "\<exists>st'. append_kv (release kv_example_full 0) 1 (Some [9, 9]) 2 = Some (None, st')
     \<and> read_kv kv_example_full 0 0 False 3 = (3, [5, 6, 7])
     \<and> read_kv st' 0 0 False 3 = (3, [9, 9, 7])"
  by (simp add: append_kv_def kv_example_full_def release_def free_page_def ensure_sequence_def
      resize_def needed_pages_def tail_free_def free_pages_def wsub_def wadd_def append_loop.simps
      tail_page_def first_free_def take_page_def write_chunk_def chunk_size_def overwrite_def
      i32_def read_kv_def read_loop.simps upt_rec)

end
