(* ===== verification/Scheduler.thy ===== *)
theory Scheduler
  imports Prelude
begin

text \<open>
  The request scheduler (\<open>Scheduler\<close> of include/gpuforge/scheduler.hpp and src/scheduler.cpp):
  a FIFO queue of submitted requests and the vector of active ones. \<open>next\<close> fills the active
  vector up to \<open>max_batch\<close> and forms a batch of the active requests in the phase of the first
  one; \<open>complete\<close> credits generated tokens and drops what is finished. Every method holds the
  mutex for its whole body, so a call is one step.
\<close>

section \<open>State\<close>

datatype phase = Prefill | Decode | Finished

record request =
  req_id :: nat
  prompt :: nat
  total :: nat
  generated :: nat
  req_phase :: phase

record batch =
  batch_ids :: "nat list"
  batch_phase :: phase
  batch_tokens :: nat

record scheduler =
  max_batch :: nat
  queue :: "request list"
  active :: "request list"

definition scheduler_new :: "nat \<Rightarrow> scheduler" where
  "scheduler_new n = \<lparr>max_batch = max 1 n, queue = [], active = []\<rparr>"

section \<open>Operations\<close>

definition submit :: "scheduler \<Rightarrow> request \<Rightarrow> scheduler" where
  "submit st r = st\<lparr>queue := queue st @ [r\<lparr>req_phase := Prefill\<rparr>]\<rparr>"

definition cancel :: "scheduler \<Rightarrow> nat \<Rightarrow> scheduler" where
  "cancel st i =
     st\<lparr>queue := filter (\<lambda>r. req_id r \<noteq> i) (queue st),
        active := filter (\<lambda>r. req_id r \<noteq> i) (active st)\<rparr>"

text \<open>The admission loop: move requests from the front of the queue to the active vector.\<close>

fun admit :: "nat \<Rightarrow> request list \<Rightarrow> request list \<Rightarrow> request list \<times> request list" where
  "admit m act [] = (act, [])"
| "admit m act (r # q) = (if length act < m then admit m (act @ [r]) q else (act, r # q))"

fun add_to_batch :: "request \<Rightarrow> batch \<Rightarrow> batch" where
  "add_to_batch r b =
     (if req_phase r \<noteq> batch_phase b then b
      else b\<lparr>batch_ids := batch_ids b @ [req_id r],
             batch_tokens := wadd (batch_tokens b) (if req_phase r = Prefill then prompt r else 1)\<rparr>)"

definition next_batch :: "scheduler \<Rightarrow> batch \<times> scheduler" where
  "next_batch st =
     (let b0 = \<lparr>batch_ids = [], batch_phase = Decode, batch_tokens = 0\<rparr>;
          (act, q) = admit (max_batch st) (active st) (queue st);
          st1 = st\<lparr>active := act, queue := q\<rparr> in
      if act = [] then (b0, st1)
      else (fold add_to_batch act (b0\<lparr>batch_phase := req_phase (hd act)\<rparr>), st1))"

definition credit :: "nat \<Rightarrow> nat \<Rightarrow> request \<Rightarrow> request" where
  "credit i tokens r =
     (if req_id r \<noteq> i then r
      else r\<lparr>generated := wadd (generated r) tokens,
             req_phase := (if wadd (wadd (generated r) tokens) (prompt r) \<ge> total r
                           then Finished else Decode)\<rparr>)"

definition complete :: "scheduler \<Rightarrow> nat \<Rightarrow> nat \<Rightarrow> scheduler" where
  "complete st i tokens =
     st\<lparr>active := filter (\<lambda>r. req_phase r \<noteq> Finished) (map (credit i tokens) (active st))\<rparr>"

definition pending_count :: "scheduler \<Rightarrow> nat" where
  "pending_count st = length (queue st)"

definition active_count :: "scheduler \<Rightarrow> nat" where
  "active_count st = length (active st)"

section \<open>Invariant and reachable states\<close>

definition sched_invar :: "scheduler \<Rightarrow> bool" where
  "sched_invar st \<longleftrightarrow>
     1 \<le> max_batch st \<and> length (active st) \<le> max_batch st
     \<and> (\<forall>r \<in> set (queue st). req_phase r = Prefill)
     \<and> (\<forall>r \<in> set (active st). req_phase r \<noteq> Finished)"

lemma admit_append: "admit m act q = (act', q') \<Longrightarrow> act' @ q' = act @ q"
  by (induction m act q rule: admit.induct) (auto split: if_splits)

lemma admit_bound: "admit m act q = (act', q') \<Longrightarrow> length act \<le> m \<Longrightarrow> length act' \<le> m"
  by (induction m act q rule: admit.induct) (auto split: if_splits)

lemma admit_full: "admit m act q = (act', q') \<Longrightarrow> q' = [] \<or> m \<le> length act'"
  by (induction m act q rule: admit.induct) (auto split: if_splits)

lemma admit_prefix: "admit m act q = (act', q') \<Longrightarrow> \<exists>r. act' = act @ r"
  by (induction m act q rule: admit.induct) (force split: if_splits)+

lemma admit_sets: "admit m act q = (act', q') \<Longrightarrow> set act' \<union> set q' = set act \<union> set q"
  by (drule admit_append) (metis set_append)

lemma next_batch_state:
  "snd (next_batch st) =
     st\<lparr>active := fst (admit (max_batch st) (active st) (queue st)),
        queue := snd (admit (max_batch st) (active st) (queue st))\<rparr>"
  by (simp add: next_batch_def split_beta Let_def)

lemma submit_invar: "sched_invar st \<Longrightarrow> sched_invar (submit st r)"
  by (auto simp: sched_invar_def submit_def)

lemma cancel_invar: "sched_invar st \<Longrightarrow> sched_invar (cancel st i)"
  by (auto simp: sched_invar_def cancel_def intro: order_trans [OF length_filter_le])

lemma next_batch_invar:
  assumes "sched_invar st"
  shows "sched_invar (snd (next_batch st))"
proof -
  obtain act q where a: "admit (max_batch st) (active st) (queue st) = (act, q)" by fastforce
  obtain r where r: "act = active st @ r" using admit_prefix [OF a] by blast
  with admit_append [OF a] have q: "queue st = r @ q" by simp
  show ?thesis
    using assms a r q admit_bound [OF a] by (auto simp: sched_invar_def next_batch_state)
qed

lemma complete_invar: "sched_invar st \<Longrightarrow> sched_invar (complete st i n)"
  by (auto simp: sched_invar_def complete_def intro: order_trans [OF length_filter_le])

inductive sched_step :: "scheduler \<Rightarrow> scheduler \<Rightarrow> bool" where
  step_submit: "sched_step st (submit st r)"
| step_cancel: "sched_step st (cancel st i)"
| step_next: "sched_step st (snd (next_batch st))"
| step_complete: "sched_step st (complete st i n)"

definition sched_start :: "scheduler \<Rightarrow> bool" where
  "sched_start st \<longleftrightarrow> (\<exists>n. st = scheduler_new n)"

lemma sched_step_invar: "sched_step st st' \<Longrightarrow> sched_invar st \<Longrightarrow> sched_invar st'"
  by (induction rule: sched_step.induct)
    (simp_all add: submit_invar cancel_invar next_batch_invar complete_invar)

lemma sched_start_invar: "sched_start st \<Longrightarrow> sched_invar st"
  by (auto simp: sched_start_def scheduler_new_def sched_invar_def)

interpretation sched: invariant_system sched_start sched_step sched_invar
  by unfold_locales (auto intro: sched_start_invar sched_step_invar)

section \<open>Batches\<close>

definition batch_share :: "request \<Rightarrow> nat" where
  "batch_share r = (if req_phase r = Prefill then prompt r else 1)"

lemma fold_batch_phase: "batch_phase (fold add_to_batch rs b) = batch_phase b"
  by (induction rs arbitrary: b) simp_all

lemma fold_batch_ids:
  "batch_ids (fold add_to_batch rs b)
    = batch_ids b @ map req_id (filter (\<lambda>r. req_phase r = batch_phase b) rs)"
  by (induction rs arbitrary: b) simp_all

lemma fold_batch_tokens:
  "batch_tokens b + sum_list (map batch_share (filter (\<lambda>r. req_phase r = batch_phase b) rs)) < 2 ^ 64
   \<Longrightarrow> batch_tokens (fold add_to_batch rs b)
     = batch_tokens b + sum_list (map batch_share (filter (\<lambda>r. req_phase r = batch_phase b) rs))"
proof (induction rs arbitrary: b)
  case (Cons r rs)
  show ?case
  proof (cases "req_phase r = batch_phase b")
    case True
    then have tok: "batch_tokens (add_to_batch r b) = batch_tokens b + batch_share r"
      using Cons.prems by (simp add: batch_share_def wadd_def)
    have ph: "batch_phase (add_to_batch r b) = batch_phase b" by simp
    show ?thesis
      using Cons.IH [of "add_to_batch r b"] Cons.prems tok ph True
      by (simp del: add_to_batch.simps)
  next
    case False
    with Cons show ?thesis by simp
  qed
qed simp

section \<open>Serving every request\<close>

text \<open>
  The loop a caller runs: take a batch, complete each of its requests by one token. Each round
  brings every request of the batch nearer to its end; \<open>work_left\<close> bounds the rounds.
\<close>

definition serve :: "scheduler \<Rightarrow> scheduler" where
  "serve st = (let (b, st1) = next_batch st in fold (\<lambda>i s. complete s i 1) (batch_ids b) st1)"

definition req_small :: "request \<Rightarrow> bool" where
  "req_small r \<longleftrightarrow> prompt r < 2 ^ 62 \<and> total r < 2 ^ 62 \<and> generated r < 2 ^ 62"

definition req_left :: "request \<Rightarrow> nat" where
  "req_left r = 1 + (total r - (prompt r + generated r))"

definition work_left :: "scheduler \<Rightarrow> nat" where
  "work_left st = sum_list (map req_left (active st)) + sum_list (map req_left (queue st))"

definition all_small :: "scheduler \<Rightarrow> bool" where
  "all_small st \<longleftrightarrow> (\<forall>r \<in> set (active st) \<union> set (queue st). req_small r)"

lemma credit_left:
  assumes "req_small r" "req_id r = i" "req_phase (credit i 1 r) \<noteq> Finished"
  shows "req_left (credit i 1 r) < req_left r \<and> req_small (credit i 1 r)"
  using assms by (auto simp: credit_def req_small_def req_left_def wadd_def split: if_splits)

lemma credit_other: "req_id r \<noteq> i \<Longrightarrow> credit i n r = r"
  by (simp add: credit_def)

lemma active_left_le:
  assumes "\<forall>r \<in> set rs. req_small r"
  shows "sum_list (map req_left (filter (\<lambda>r. req_phase r \<noteq> Finished) (map (credit i 1) rs)))
      \<le> sum_list (map req_left rs)"
  using assms
proof (induction rs)
  case (Cons r rs)
  then show ?case
    using credit_left [of r i] credit_other [of r i 1] by (cases "req_id r = i") auto
qed simp

lemma active_left_less:
  assumes "\<forall>r \<in> set rs. req_small r" "r \<in> set rs" "req_id r = i"
  shows "sum_list (map req_left (filter (\<lambda>r. req_phase r \<noteq> Finished) (map (credit i 1) rs)))
      < sum_list (map req_left rs)"
  using assms
proof (induction rs)
  case (Cons x rs)
  have le: "sum_list (map req_left (filter (\<lambda>r. req_phase r \<noteq> Finished) (map (credit i 1) rs)))
      \<le> sum_list (map req_left rs)"
    using Cons.prems by (intro active_left_le) simp
  show ?case
  proof (cases "req_id x = i")
    case True
    moreover have "0 < req_left x" by (simp add: req_left_def)
    ultimately show ?thesis using credit_left [of x i] Cons.prems le by auto
  next
    case False
    with Cons.prems Cons.IH show ?thesis by (auto simp: credit_other)
  qed
qed simp

lemma complete_small: "all_small st \<Longrightarrow> all_small (complete st i 1)"
proof -
  assume sm: "all_small st"
  have "req_small (credit i 1 r)"
    if "r \<in> set (active st)" "req_phase (credit i 1 r) \<noteq> Finished" for r
    using sm that credit_left [of r i] by (cases "req_id r = i") (auto simp: all_small_def credit_other)
  with sm show ?thesis by (auto simp: all_small_def complete_def)
qed

lemma complete_work: "all_small st \<Longrightarrow> work_left (complete st i 1) \<le> work_left st"
  using active_left_le [of "active st" i] by (simp add: work_left_def complete_def all_small_def)

lemma complete_work_less:
  "all_small st \<Longrightarrow> r \<in> set (active st) \<Longrightarrow> req_id r = i \<Longrightarrow>
   work_left (complete st i 1) < work_left st"
  using active_left_less [of "active st" r i] by (simp add: work_left_def complete_def all_small_def)

lemma fold_complete_work:
  "all_small st \<Longrightarrow> all_small (fold (\<lambda>i s. complete s i 1) is st)
     \<and> work_left (fold (\<lambda>i s. complete s i 1) is st) \<le> work_left st"
proof (induction "is" arbitrary: st)
  case (Cons i is')
  from Cons.IH [OF complete_small [OF Cons.prems, of i]] complete_work [OF Cons.prems, of i]
  show ?case by simp
qed simp

lemma next_work:
  assumes "all_small st"
  shows "all_small (snd (next_batch st)) \<and> work_left (snd (next_batch st)) = work_left st"
proof -
  obtain act q where a: "admit (max_batch st) (active st) (queue st) = (act, q)" by fastforce
  have "sum_list (map req_left (act @ q)) = sum_list (map req_left (active st @ queue st))"
    by (simp only: admit_append [OF a])
  with a admit_sets [OF a] assms show ?thesis
    by (simp add: work_left_def all_small_def next_batch_state)
qed

definition idle :: "scheduler \<Rightarrow> bool" where
  "idle st \<longleftrightarrow> active st = [] \<and> queue st = []"

lemma serve_progress:
  assumes inv: "sched_invar st" and small: "all_small st"
  shows "all_small (serve st) \<and> sched_invar (serve st)
    \<and> (if idle st then serve st = st else work_left (serve st) < work_left st)"
proof -
  obtain act q where a: "admit (max_batch st) (active st) (queue st) = (act, q)" by fastforce
  obtain b st1 where nb: "next_batch st = (b, st1)" by fastforce
  have st1: "st1 = st\<lparr>active := act, queue := q\<rparr>" using next_batch_state [of st] nb a by simp
  have sm1: "all_small st1" "work_left st1 = work_left st" using next_work [OF small] nb by simp_all
  have inv1: "sched_invar st1" using next_batch_invar [OF inv] nb by simp
  have sv: "serve st = fold (\<lambda>i s. complete s i 1) (batch_ids b) st1"
    by (simp add: serve_def nb)
  have invf: "sched_invar (fold (\<lambda>i s. complete s i 1) is s)" if "sched_invar s" for "is" s
    using that by (induction "is" arbitrary: s) (simp_all add: complete_invar)
  show ?thesis
  proof (cases "act = []")
    case True
    then have "batch_ids b = []" using nb a by (auto simp: next_batch_def)
    moreover from True admit_full [OF a] inv have "q = []" by (auto simp: sched_invar_def)
    with True admit_append [OF a] have "idle st" by (simp add: idle_def)
    ultimately show ?thesis
      using sv st1 True \<open>q = []\<close> sm1 inv1 by (simp add: idle_def)
  next
    case False
    then obtain r act' where act: "act = r # act'" by (cases act) auto
    have "b = fold add_to_batch act
        \<lparr>batch_ids = [], batch_phase = req_phase (hd act), batch_tokens = 0\<rparr>"
      using nb a False by (simp add: next_batch_def)
    then obtain ids where ids: "batch_ids b = req_id r # ids"
      by (simp add: fold_batch_ids act)
    have "work_left (complete st1 (req_id r) 1) < work_left st1"
      by (rule complete_work_less [OF sm1(1)]) (simp_all add: st1 act)
    with fold_complete_work [OF complete_small [OF sm1(1)], of ids "req_id r"] sm1
    have "work_left (serve st) < work_left st" by (simp add: sv ids)
    moreover have "\<not> idle st" using False admit_append [OF a] by (auto simp: idle_def)
    moreover have "all_small (serve st)"
      using fold_complete_work [OF sm1(1)] by (simp add: sv)
    ultimately show ?thesis using invf [OF inv1] by (simp add: sv)
  qed
qed

lemma serve_until_idle:
  assumes "sched_invar st" "all_small st" "work_left st \<le> n"
  shows "idle ((serve ^^ n) st)"
  using assms
proof (induction n arbitrary: st)
  case 0
  then show ?case
    by (cases "active st"; cases "queue st") (auto simp: work_left_def req_left_def idle_def)
next
  case (Suc n)
  show ?case
  proof (cases "idle st")
    case True
    with serve_progress [OF Suc.prems(1,2)] have "serve st = st" by simp
    then have "(serve ^^ Suc n) st = st" by (induction n) simp_all
    with True show ?thesis by simp
  next
    case False
    with serve_progress [OF Suc.prems(1,2)] Suc.prems
    have "idle ((serve ^^ n) (serve st))" by (intro Suc.IH) auto
    then show ?thesis by (simp add: funpow_swap1)
  qed
qed

section \<open>Properties\<close>

text \<open>
  in every reachable state at most \<open>max_batch\<close> requests are active, none of them is
  finished, and every queued request is still in its prefill phase.
\<close>

theorem reachable_within_batch:
  assumes "sched_start st0" and "sched_step\<^sup>*\<^sup>* st0 st"
  shows "active_count st \<le> max_batch st \<and> (\<forall>r \<in> set (active st). req_phase r \<noteq> Finished)
    \<and> (\<forall>r \<in> set (queue st). req_phase r = Prefill)"
  using sched.reachable_invar [OF assms] by (simp add: sched_invar_def active_count_def)

definition req_example :: "nat \<Rightarrow> request" where
  "req_example i = \<lparr>req_id = i, prompt = 2, total = 4, generated = 0, req_phase = Decode\<rparr>"

theorem reachable_within_batch_witness:
  "active_count (snd (next_batch (submit (submit (scheduler_new 1) (req_example 1)) (req_example 2)))) \<le> 1"
proof -
  have "sched_start (scheduler_new 1)" by (auto simp: sched_start_def)
  moreover have "sched_step\<^sup>*\<^sup>* (scheduler_new 1)
      (snd (next_batch (submit (submit (scheduler_new 1) (req_example 1)) (req_example 2))))"
    by (rule rtranclp.rtrancl_into_rtrancl, rule rtranclp.rtrancl_into_rtrancl,
        rule rtranclp.rtrancl_into_rtrancl, rule rtranclp.rtrancl_refl)
      (rule step_submit step_next)+
  ultimately have "active_count (snd (next_batch (submit (submit (scheduler_new 1) (req_example 1)) (req_example 2))))
    \<le> max_batch (snd (next_batch (submit (submit (scheduler_new 1) (req_example 1)) (req_example 2))))"
    using reachable_within_batch by blast
  then show ?thesis by (simp add: next_batch_state submit_def scheduler_new_def)
qed

text \<open>
  \<open>next\<close> admits from the front of the queue: active requests followed by queued ones are the
  same list before and after, requests stay queued only when the batch is full, and the batch
  is made of exactly the active requests in the phase of the first one, in order.
\<close>

theorem next_batch_fifo:
  "let (b, st') = next_batch st in
     active st' @ queue st' = active st @ queue st
     \<and> (queue st' = [] \<or> max_batch st \<le> length (active st'))
     \<and> batch_ids b = map req_id (filter (\<lambda>r. req_phase r = req_phase (hd (active st'))) (active st'))
     \<and> (active st' = [] \<or> batch_phase b = req_phase (hd (active st')))"
proof -
  obtain act q where a: "admit (max_batch st) (active st) (queue st) = (act, q)" by fastforce
  show ?thesis
    using admit_append [OF a] admit_full [OF a] a
    by (auto simp: next_batch_def Let_def fold_batch_ids fold_batch_phase)
qed

text \<open>
  C23: serving every batch by one token per request ends: after at most \<open>work_left\<close> rounds no
  request is active or queued, for any requests whose counters are below \<open>2 ^ 62\<close>.
\<close>

theorem every_request_finishes:
  assumes "sched_invar st" and "all_small st"
  shows "\<exists>n \<le> work_left st. idle ((serve ^^ n) st)"
  using serve_until_idle [OF assms order_refl] by blast

theorem every_request_finishes_witness:
  "\<exists>n \<le> 6. idle ((serve ^^ n) (submit (submit (scheduler_new 1) (req_example 1)) (req_example 2)))"
proof -
  let ?st = "submit (submit (scheduler_new 1) (req_example 1)) (req_example 2)"
  have "sched_invar ?st" by (simp add: sched_invar_def submit_def scheduler_new_def)
  moreover have "all_small ?st"
    by (simp add: all_small_def submit_def scheduler_new_def req_small_def req_example_def)
  ultimately have "\<exists>n \<le> work_left ?st. idle ((serve ^^ n) ?st)" by (rule every_request_finishes)
  moreover have "work_left ?st = 6"
    by (simp add: work_left_def submit_def scheduler_new_def req_left_def req_example_def)
  ultimately show ?thesis by simp
qed

text \<open>
  the tokens of a batch: for prefill the sum of the prompts, for decode one per request,
  as long as the sum fits a \<open>size_t\<close>.
\<close>

theorem next_batch_tokens:
  assumes "sum_list (map batch_share (filter (\<lambda>r. req_phase r = req_phase (hd (active (snd (next_batch st)))))
      (active (snd (next_batch st))))) < 2 ^ 64"
  shows "batch_tokens (fst (next_batch st)) =
    sum_list (map batch_share (filter (\<lambda>r. req_phase r = req_phase (hd (active (snd (next_batch st)))))
      (active (snd (next_batch st)))))"
  using assms by (auto simp: next_batch_def Let_def split_beta fold_batch_tokens)

theorem next_batch_tokens_witness:
  "batch_tokens (fst (next_batch (submit (submit (scheduler_new 2) (req_example 1)) (req_example 2)))) = 4"
  by (subst next_batch_tokens)
    (simp_all add: next_batch_def submit_def scheduler_new_def req_example_def batch_share_def)

text \<open>
  \<open>complete\<close> changes only the active requests with the given id: they leave when their
  tokens reach the total, and otherwise stay, in the decode phase with the tokens added; every
  other active request and the queue are as before, in the same order.
\<close>

theorem complete_exact:
  assumes "\<forall>r \<in> set (active st). req_phase r \<noteq> Finished \<and> generated r + tokens + prompt r < 2 ^ 64"
  shows "complete st i tokens =
    st\<lparr>active := map (\<lambda>r. if req_id r = i
                         then r\<lparr>generated := generated r + tokens, req_phase := Decode\<rparr> else r)
                  (filter (\<lambda>r. req_id r = i \<longrightarrow> generated r + tokens + prompt r < total r) (active st))\<rparr>"
proof -
  have "filter (\<lambda>r. req_phase r \<noteq> Finished) (map (credit i tokens) rs) =
      map (\<lambda>r. if req_id r = i
               then r\<lparr>generated := generated r + tokens, req_phase := Decode\<rparr> else r)
        (filter (\<lambda>r. req_id r = i \<longrightarrow> generated r + tokens + prompt r < total r) rs)"
    if "\<forall>r \<in> set rs. req_phase r \<noteq> Finished \<and> generated r + tokens + prompt r < 2 ^ 64" for rs
    using that by (induction rs) (auto simp: credit_def wadd_def)
  with assms show ?thesis by (simp add: complete_def)
qed

theorem complete_exact_witness:
  "active (complete (snd (next_batch (submit (scheduler_new 1) (req_example 1)))) 1 1)
    = [(req_example 1)\<lparr>generated := 1\<rparr>]"
  by (subst complete_exact)
    (simp_all add: next_batch_state submit_def scheduler_new_def req_example_def)

end
