(* ===== verification/Collective.thy ===== *)
theory Collective
  imports Prelude
begin

text \<open>
  Planning of collective communication (include/gpuforge/collective.hpp, src/collective.cpp):
  \<open>Communicator\<close> chooses an algorithm and a chunk count, \<open>OverlapPlanner\<close> cuts a plan into
  stages. Byte counts are \<open>size_t\<close>, ranks are \<open>int\<close>.
\<close>

datatype collective = AllReduce | AllGather | ReduceScatter | Broadcast

record comm_plan =
  plan_op :: collective
  plan_world :: int
  plan_rank :: int
  plan_bytes :: nat
  plan_chunks :: nat
  plan_overlap :: bool
  plan_algorithm :: string

record communicator =
  world :: int
  rank :: int

definition comm_valid :: "communicator \<Rightarrow> bool" where
  "comm_valid c \<longleftrightarrow> 0 < world c \<and> 0 \<le> rank c \<and> rank c < world c"

definition make_plan :: "communicator \<Rightarrow> collective \<Rightarrow> nat \<Rightarrow> bool \<Rightarrow> comm_plan" where
  "make_plan c operation bytes overlap =
     (let p = \<lparr>plan_op = operation, plan_world = world c, plan_rank = rank c, plan_bytes = bytes,
               plan_chunks = u64_of_int (max 1 (i32 (world c * 2))), plan_overlap = overlap,
               plan_algorithm = ''ring''\<rparr>;
          p1 = (if world c \<le> 2 then p\<lparr>plan_algorithm := ''direct''\<rparr>
                else if bytes > 2 ^ 20 then p\<lparr>plan_algorithm := ''ring-chunked''\<rparr> else p)
      in if operation = AllGather then p1\<lparr>plan_chunks := u64_of_int (world c)\<rparr> else p1)"

definition describe :: "comm_plan \<Rightarrow> string" where
  "describe p =
     ''rank '' @ int_to_string (plan_rank p) @ ''/'' @ int_to_string (plan_world p)
     @ '' bytes='' @ nat_to_string (plan_bytes p) @ '' chunks='' @ nat_to_string (plan_chunks p)
     @ '' algo='' @ plan_algorithm p @ '' overlap='' @ bool_to_string (plan_overlap p)"

text \<open>
  The stage loop counts an \<open>int\<close> from zero; \<open>stage_count - 1\<close> is converted to \<open>size_t\<close> by the
  addition to the byte count.
\<close>

definition stage_of :: "comm_plan \<Rightarrow> nat \<Rightarrow> nat \<Rightarrow> comm_plan" where
  "stage_of p chunk_bytes stage =
     p\<lparr>plan_bytes := chunk_bytes, plan_chunks := 1, plan_overlap := True,
       plan_algorithm := plan_algorithm p @ ''/stage'' @ nat_to_string stage\<rparr>"

definition overlap_pipeline :: "comm_plan \<Rightarrow> nat \<Rightarrow> int \<Rightarrow> comm_plan list" where
  "overlap_pipeline p compute_bytes stages =
     (let stage_count = nat (max 1 stages);
          chunk_bytes = wsub (wadd (plan_bytes p) stage_count) 1 div stage_count;
          ps = map (stage_of p chunk_bytes) [0..<stage_count]
      in if compute_bytes > plan_bytes p div 2
         then map (\<lambda>q. q\<lparr>plan_overlap := False\<rparr>) ps else ps)"

section \<open>Chunk arithmetic\<close>

lemma pipeline_length: "length (overlap_pipeline p c n) = nat (max 1 n)"
  by (simp add: overlap_pipeline_def Let_def)

lemma pipeline_bytes:
  "q \<in> set (overlap_pipeline p c n) \<Longrightarrow>
   plan_bytes q = wsub (wadd (plan_bytes p) (nat (max 1 n))) 1 div nat (max 1 n)"
  by (auto simp: overlap_pipeline_def Let_def stage_of_def split: if_splits)

lemma ceil_chunks_cover:
  fixes b n :: nat
  assumes "0 < n"
  shows "b \<le> n * ((b + n - 1) div n) \<and> n * ((b + n - 1) div n) < b + n"
proof
  have "b + n - 1 = n * ((b + n - 1) div n) + (b + n - 1) mod n" by simp
  moreover have "(b + n - 1) mod n < n" using assms by simp
  ultimately show "b \<le> n * ((b + n - 1) div n)" using assms by linarith
  have "n * ((b + n - 1) div n) \<le> b + n - 1" by (rule times_div_less_eq_dividend)
  then show "n * ((b + n - 1) div n) < b + n" using assms by linarith
qed

section \<open>Properties\<close>

text \<open>
  the stages of a pipelined plan carry at least the plan's bytes together, exceed them by
  less than one byte per stage, and there is one per requested stage, never none.
\<close>

theorem pipeline_covers:
  assumes "plan_bytes p + nat (max 1 n) < 2 ^ 64"
  shows "length (overlap_pipeline p c n) = nat (max 1 n)
    \<and> plan_bytes p \<le> sum_list (map plan_bytes (overlap_pipeline p c n))
    \<and> sum_list (map plan_bytes (overlap_pipeline p c n)) < plan_bytes p + nat (max 1 n)"
proof -
  let ?n = "nat (max 1 n)"
  have "wsub (wadd (plan_bytes p) ?n) 1 = plan_bytes p + ?n - 1"
    using assms by (simp add: wadd_exact wsub_exact)
  then have "map plan_bytes (overlap_pipeline p c n)
      = replicate ?n ((plan_bytes p + ?n - 1) div ?n)"
    using pipeline_bytes [of _ p c n]
    by (intro replicate_eqI) (auto simp: pipeline_length)
  then have "sum_list (map plan_bytes (overlap_pipeline p c n))
      = ?n * ((plan_bytes p + ?n - 1) div ?n)"
    by (simp add: sum_list_replicate)
  with ceil_chunks_cover [of ?n "plan_bytes p"] show ?thesis by (simp add: pipeline_length)
qed

theorem pipeline_covers_witness:
  "sum_list (map plan_bytes (overlap_pipeline (make_plan \<lparr>world = 4, rank = 0\<rparr> AllReduce 10 True) 0 4)) < 14"
proof -
  have "plan_bytes (make_plan \<lparr>world = 4, rank = 0\<rparr> AllReduce 10 True) + nat (max 1 4) < 2 ^ 64"
    by (simp add: make_plan_def Let_def)
  from pipeline_covers [OF this, of 0] show ?thesis by (simp add: make_plan_def Let_def)
qed

text \<open>
  for a valid communicator the plan carries its rank, world and bytes, has at least one
  chunk, and uses the chunked ring only for more than two ranks and more than one megabyte.
\<close>

theorem comm_plan_well_formed:
  assumes "comm_valid c" and "world c < 2 ^ 30"
  shows "let p = make_plan c op b ov in
    plan_rank p = rank c \<and> plan_world p = world c \<and> plan_bytes p = b \<and> plan_overlap p = ov
    \<and> plan_chunks p = (if op = AllGather then nat (world c) else nat (world c * 2))
    \<and> 1 \<le> plan_chunks p
    \<and> (plan_algorithm p = ''ring-chunked'' \<longleftrightarrow> 2 < world c \<and> 2 ^ 20 < b)"
  using assms by (auto simp: make_plan_def Let_def comm_valid_def i32_exact u64_of_int_exact)

theorem comm_plan_well_formed_witness:
  "plan_chunks (make_plan \<lparr>world = 4, rank = 1\<rparr> AllGather 10 True) = 4"
proof -
  have "comm_valid \<lparr>world = 4, rank = 1\<rparr>" "world \<lparr>world = 4, rank = 1\<rparr> < 2 ^ 30"
    by (simp_all add: comm_valid_def)
  from comm_plan_well_formed [OF this, of AllGather 10 True] show ?thesis by (simp add: Let_def)
qed

end
