(* ===== verification/Graph_IR.thy ===== *)
theory Graph_IR
  imports Prelude
begin

text \<open>
  The operator graph (\<open>Graph\<close> of include/gpuforge/graph.hpp, src/graph.cpp): nodes in creation
  order, each naming earlier nodes as inputs; validation, the bias fusion pass and the dump.
\<close>

datatype op_kind = Input | Gemm | LayerNormOp | SoftmaxOp | AttentionOp | FusedGemmBias

record graph_node =
  gn_id :: int
  gn_op :: op_kind
  gn_inputs :: "int list"
  gn_name :: string

type_synonym graph = "graph_node list"

definition graph_add :: "graph \<Rightarrow> op_kind \<Rightarrow> int list \<Rightarrow> string \<Rightarrow> int \<times> graph" where
  "graph_add g operation inputs name =
     (let i = i32 (int (length g)) in
      (i, g @ [\<lparr>gn_id = i, gn_op = operation, gn_inputs = inputs, gn_name = name\<rparr>]))"

definition graph_input :: "graph \<Rightarrow> string \<Rightarrow> int \<times> graph" where
  "graph_input g name = graph_add g Input [] name"

text \<open>
  \<open>validate\<close>: the first bad input ends it, with the message for the caller's error string.
\<close>

definition bad_input :: "graph_node \<Rightarrow> int \<Rightarrow> bool" where
  "bad_input n i \<longleftrightarrow> i < 0 \<or> i \<ge> gn_id n"

fun graph_validate :: "graph \<Rightarrow> string option" where
  "graph_validate [] = None"
| "graph_validate (n # g) =
     (case find (bad_input n) (gn_inputs n) of
        Some i \<Rightarrow> Some (''node '' @ int_to_string (gn_id n) @ '' has invalid input '' @ int_to_string i)
      | None \<Rightarrow> graph_validate g)"

text \<open>\<open>name.find("bias") != npos\<close>: the substring occurs somewhere.\<close>

fun contains :: "string \<Rightarrow> string \<Rightarrow> bool" where
  "contains sub [] = (sub = [])"
| "contains sub (c # cs) = (take (length sub) (c # cs) = sub \<or> contains sub cs)"

definition bias_candidate :: "graph_node \<Rightarrow> graph_node \<Rightarrow> bool" where
  "bias_candidate n c \<longleftrightarrow>
     gn_op c = Input \<and> contains ''bias'' (gn_name c) \<and> gn_id c \<notin> set (gn_inputs n)"

text \<open>
  The pass rewrites \<open>Gemm\<close> nodes in place while it scans the same vector for candidates; a
  candidate is an input node, which the pass never changes, so the scan sees the graph the
  pass started with.
\<close>

definition fuse_node :: "graph \<Rightarrow> graph_node \<Rightarrow> graph_node" where
  "fuse_node g n =
     (if gn_op n \<noteq> Gemm then n
      else case find (bias_candidate n) g of
        None \<Rightarrow> n
      | Some c \<Rightarrow> n\<lparr>gn_op := FusedGemmBias, gn_inputs := gn_inputs n @ [gn_id c],
                    gn_name := gn_name n @ ''_fused_bias''\<rparr>)"

definition fuse_linear_bias :: "graph \<Rightarrow> graph" where
  "fuse_linear_bias g = (if graph_validate g \<noteq> None then g else map (fuse_node g) g)"

definition dump :: "graph \<Rightarrow> string" where
  "dump g = concat (map (\<lambda>n.
     int_to_string (gn_id n) @ '':'' @ gn_name n @ '' <- ''
     @ concat (map (\<lambda>i. int_to_string i @ '' '') (gn_inputs n)) @ [CHR 0x0A]) g)"

section \<open>Validation\<close>

definition node_valid :: "graph_node \<Rightarrow> bool" where
  "node_valid n \<longleftrightarrow> (\<forall>i \<in> set (gn_inputs n). 0 \<le> i \<and> i < gn_id n)"

lemma find_bad_input: "find (bad_input n) (gn_inputs n) = None \<longleftrightarrow> node_valid n"
  by (auto simp: find_None_iff bad_input_def node_valid_def not_le)

lemma graph_validate_None: "graph_validate g = None \<longleftrightarrow> (\<forall>n \<in> set g. node_valid n)"
proof (induction g)
  case (Cons n g)
  then show ?case using find_bad_input [of n] by (cases "find (bad_input n) (gn_inputs n)") auto
qed simp

definition ids_in_order :: "graph \<Rightarrow> bool" where
  "ids_in_order g \<longleftrightarrow> map gn_id g = map int [0..<length g]"

lemma graph_add_ids:
  "ids_in_order g \<Longrightarrow> length g < 2 ^ 31 \<Longrightarrow> ids_in_order (snd (graph_add g op inputs name))"
  by (simp add: ids_in_order_def graph_add_def Let_def i32_nat_exact)

lemma fuse_ids: "map gn_id (fuse_linear_bias g) = map gn_id g"
  by (simp add: fuse_linear_bias_def fuse_node_def split: option.splits)

definition graph_example :: graph where
  "graph_example =
     [\<lparr>gn_id = 0, gn_op = Input, gn_inputs = [], gn_name = ''x''\<rparr>,
      \<lparr>gn_id = 1, gn_op = Input, gn_inputs = [], gn_name = ''bias''\<rparr>,
      \<lparr>gn_id = 2, gn_op = Gemm, gn_inputs = [0], gn_name = ''g''\<rparr>]"

section \<open>Properties\<close>

text \<open>
  validation accepts exactly the graphs in which every node's inputs are ids from zero up
  to below its own, so a validated graph has no cycle.
\<close>

theorem graph_validate_iff:
  "graph_validate g = None \<longleftrightarrow> (\<forall>n \<in> set g. \<forall>i \<in> set (gn_inputs n). 0 \<le> i \<and> i < gn_id n)"
  using graph_validate_None [of g] by (simp add: node_valid_def)

theorem graph_validate_iff_witness:
  "graph_validate graph_example = None
   \<and> graph_validate (graph_example @ [\<lparr>gn_id = 1, gn_op = Gemm, gn_inputs = [5], gn_name = ''g''\<rparr>]) \<noteq> None"
  unfolding graph_validate_iff by (auto simp: graph_example_def)

text \<open>
  on a validated graph whose bias inputs come before every \<open>Gemm\<close>, the fusion pass keeps
  the graph valid, keeps every id, only ever turns a \<open>Gemm\<close> into a \<open>FusedGemmBias\<close> with one more
  input, and leaves no \<open>Gemm\<close> that has an unused bias input.
\<close>

theorem fuse_keeps_valid:
  assumes "graph_validate g = None"
    and "\<forall>n \<in> set g. \<forall>c \<in> set g. gn_op n = Gemm \<and> gn_op c = Input \<and> contains ''bias'' (gn_name c)
           \<longrightarrow> 0 \<le> gn_id c \<and> gn_id c < gn_id n"
  shows "graph_validate (fuse_linear_bias g) = None
    \<and> map gn_id (fuse_linear_bias g) = map gn_id g
    \<and> (\<forall>n \<in> set (fuse_linear_bias g). gn_op n = Gemm \<longrightarrow> (\<forall>c \<in> set g. \<not> bias_candidate n c))"
proof -
  have f: "fuse_linear_bias g = map (fuse_node g) g" using assms(1) by (simp add: fuse_linear_bias_def)
  have valid: "node_valid (fuse_node g n)" if n: "n \<in> set g" for n
  proof (cases "gn_op n = Gemm \<and> find (bias_candidate n) g \<noteq> None")
    case True
    then obtain c where c: "find (bias_candidate n) g = Some c" by auto
    then have "c \<in> set g" "bias_candidate n c" by (auto simp: find_Some_iff)
    with assms(2) n True have "0 \<le> gn_id c \<and> gn_id c < gn_id n" by (auto simp: bias_candidate_def)
    moreover have "node_valid n" using assms(1) n by (simp add: graph_validate_None)
    ultimately show ?thesis using True c by (auto simp: fuse_node_def node_valid_def)
  next
    case False
    moreover have "node_valid n" using assms(1) n by (simp add: graph_validate_None)
    ultimately show ?thesis by (auto simp: fuse_node_def split: option.splits)
  qed
  have unused: "\<not> bias_candidate (fuse_node g n) c"
    if "n \<in> set g" "gn_op (fuse_node g n) = Gemm" "c \<in> set g" for n c
  proof (cases "find (bias_candidate n) g")
    case None
    then have "\<not> bias_candidate n c" using that by (auto simp: find_None_iff)
    with None show ?thesis by (simp add: fuse_node_def)
  next
    case (Some x)
    with that show ?thesis by (simp add: fuse_node_def split: if_splits)
  qed
  show ?thesis
  proof (intro conjI)
    show "graph_validate (fuse_linear_bias g) = None" by (simp add: f graph_validate_None valid)
    show "map gn_id (fuse_linear_bias g) = map gn_id g" by (rule fuse_ids)
    show "\<forall>n \<in> set (fuse_linear_bias g). gn_op n = Gemm \<longrightarrow> (\<forall>c \<in> set g. \<not> bias_candidate n c)"
      using unused by (auto simp: f)
  qed
qed

theorem fuse_keeps_valid_witness:
  "graph_validate (fuse_linear_bias graph_example) = None
    \<and> gn_op (fuse_linear_bias graph_example ! 2) = FusedGemmBias"
proof -
  have "graph_validate graph_example = None" by (simp add: graph_example_def bad_input_def)
  moreover have "\<forall>n \<in> set graph_example. \<forall>c \<in> set graph_example.
      gn_op n = Gemm \<and> gn_op c = Input \<and> contains ''bias'' (gn_name c)
        \<longrightarrow> 0 \<le> gn_id c \<and> gn_id c < gn_id n"
    by (simp add: graph_example_def)
  ultimately have "graph_validate (fuse_linear_bias graph_example) = None"
    using fuse_keeps_valid by blast
  moreover have "gn_op (fuse_linear_bias graph_example ! 2) = FusedGemmBias"
    by (simp add: fuse_linear_bias_def graph_example_def bad_input_def fuse_node_def bias_candidate_def)
  ultimately show ?thesis by blast
qed

text \<open>
  Without the order of the ids the pass breaks the graph: a bias input created after the \<open>Gemm\<close>
  becomes its input, and the graph that was valid no longer is.
\<close>

lemma fuse_breaks_validity:
  "\<exists>g. ids_in_order g \<and> graph_validate g = None \<and> graph_validate (fuse_linear_bias g) \<noteq> None"
  by (rule exI [of _ "[\<lparr>gn_id = 0, gn_op = Input, gn_inputs = [], gn_name = ''x''\<rparr>,
      \<lparr>gn_id = 1, gn_op = Gemm, gn_inputs = [0], gn_name = ''g''\<rparr>,
      \<lparr>gn_id = 2, gn_op = Input, gn_inputs = [], gn_name = ''bias''\<rparr>]"])
    (simp add: ids_in_order_def bad_input_def fuse_linear_bias_def fuse_node_def bias_candidate_def upt_rec)

end
