(* ===== verification/Tensor_Store.thy ===== *)
theory Tensor_Store
  imports Prelude
begin

text \<open>
  Floating point and tensors (include/gpuforge/tensor.hpp, src/tensor.cpp).

  Arithmetic on \<open>float\<close> and \<open>double\<close> is a record of operations, so that what is proved of the
  kernels holds bit for bit for whatever rounding the machine has; \<open>real_ops\<close> is the instance
  over the real numbers, used where a statement is about the mathematical value.

  A \<open>Tensor\<close> object holds a shared pointer to its elements: copying the object shares them,
  \<open>clone\<close> does not. The store of buffers is explicit (a list, indexed by address). Code that
  only reads its arguments and returns fresh tensors is modelled on values (\<open>tval\<close>), and \<open>view\<close>
  takes a stored tensor to its value.
\<close>

section \<open>Floating point operations\<close>

record 'f fops =
  f_add :: "'f \<Rightarrow> 'f \<Rightarrow> 'f"
  f_sub :: "'f \<Rightarrow> 'f \<Rightarrow> 'f"
  f_mul :: "'f \<Rightarrow> 'f \<Rightarrow> 'f"
  f_div :: "'f \<Rightarrow> 'f \<Rightarrow> 'f"
  f_less :: "'f \<Rightarrow> 'f \<Rightarrow> bool"
  f_eq :: "'f \<Rightarrow> 'f \<Rightarrow> bool"
  f_abs :: "'f \<Rightarrow> 'f"
  f_sqrt :: "'f \<Rightarrow> 'f"
  f_exp :: "'f \<Rightarrow> 'f"
  f_erf :: "'f \<Rightarrow> 'f"
  f_finite :: "'f \<Rightarrow> bool"
  f_neg_inf :: 'f
  f_of_nat :: "nat \<Rightarrow> 'f"
  f_dec :: "int \<Rightarrow> int \<Rightarrow> 'f"

text \<open>
  \<open>f_dec m e\<close> is the literal \<open>m * 10 ^ e\<close> and \<open>f_of_nat\<close> the conversion from an integer type.
  \<open>std::max\<close> and \<open>std::min\<close> return their first argument unless the comparison says otherwise.
\<close>

abbreviation f_zero :: "'f fops \<Rightarrow> 'f" where
  "f_zero ops \<equiv> f_dec ops 0 0"

definition std_max :: "'f fops \<Rightarrow> 'f \<Rightarrow> 'f \<Rightarrow> 'f" where
  "std_max ops a b = (if f_less ops a b then b else a)"

definition std_min :: "'f fops \<Rightarrow> 'f \<Rightarrow> 'f \<Rightarrow> 'f" where
  "std_min ops a b = (if f_less ops b a then b else a)"

text \<open>
  The real instance. The error function is a parameter: it is not in the HOL library, and no
  fact below is about its values.
\<close>

definition real_ops :: "(real \<Rightarrow> real) \<Rightarrow> real fops" where
  "real_ops er =
     \<lparr>f_add = (+), f_sub = (-), f_mul = (*), f_div = (/), f_less = (<), f_eq = (=),
      f_abs = abs, f_sqrt = sqrt, f_exp = exp, f_erf = er, f_finite = (\<lambda>_. True),
      f_neg_inf = - (10 ^ 39), f_of_nat = of_nat,
      f_dec = (\<lambda>m e. if 0 \<le> e then of_int m * 10 ^ nat e else of_int m / 10 ^ nat (- e))\<rparr>"

lemma real_ops_simps [simp]:
  "f_add (real_ops er) = (+)" "f_sub (real_ops er) = (-)" "f_mul (real_ops er) = (*)"
  "f_div (real_ops er) = (/)" "f_less (real_ops er) = (<)" "f_eq (real_ops er) = (=)"
  "f_abs (real_ops er) = abs" "f_sqrt (real_ops er) = sqrt" "f_exp (real_ops er) = exp"
  "f_of_nat (real_ops er) = of_nat" "f_dec (real_ops er) m 0 = of_int m" "f_finite (real_ops er) x"
  by (simp_all add: real_ops_def)

text \<open>
  What comparisons of numbers that are not NaN give the code that minimises, maximises or
  sorts: a strict weak order.
\<close>

locale float_order =
  fixes ops :: "'f fops"
  assumes less_irrefl: "\<not> f_less ops a a"
    and less_trans: "f_less ops a b \<Longrightarrow> f_less ops b c \<Longrightarrow> f_less ops a c"
    and less_total: "f_less ops a b \<Longrightarrow> f_less ops a c \<or> f_less ops c b"
begin

lemma less_asym: "f_less ops a b \<Longrightarrow> \<not> f_less ops b a"
  using less_irrefl less_trans by blast

lemma not_less_trans: "\<not> f_less ops b a \<Longrightarrow> \<not> f_less ops c b \<Longrightarrow> \<not> f_less ops c a"
  using less_total by blast

lemma fold_min_le:
  "\<not> f_less ops x (fold (\<lambda>v m. std_min ops m v) vs x)
   \<and> (\<forall>v \<in> set vs. \<not> f_less ops v (fold (\<lambda>v m. std_min ops m v) vs x))"
proof (induction vs arbitrary: x)
  case Nil
  then show ?case by (simp add: less_irrefl)
next
  case (Cons v vs)
  let ?m = "std_min ops x v"
  have "\<not> f_less ops v ?m" "\<not> f_less ops x ?m"
    by (auto simp: std_min_def less_irrefl less_asym)
  with Cons.IH [of ?m] not_less_trans [of ?m "fold (\<lambda>v m. std_min ops m v) vs ?m"]
  show ?case by auto
qed

lemma fold_max_ge:
  "\<not> f_less ops (fold (\<lambda>v m. std_max ops m v) vs x) x
   \<and> (\<forall>v \<in> set vs. \<not> f_less ops (fold (\<lambda>v m. std_max ops m v) vs x) v)"
proof (induction vs arbitrary: x)
  case Nil
  then show ?case by (simp add: less_irrefl)
next
  case (Cons v vs)
  let ?m = "std_max ops x v"
  have "\<not> f_less ops ?m v" "\<not> f_less ops ?m x"
    by (auto simp: std_max_def less_irrefl less_asym)
  with Cons.IH [of ?m] not_less_trans [of _ _ "fold (\<lambda>v m. std_max ops m v) vs ?m"]
  show ?case by auto
qed

lemma fold_min_in: "fold (\<lambda>v m. std_min ops m v) vs x \<in> insert x (set vs)"
proof (induction vs arbitrary: x)
  case (Cons v vs)
  from Cons.IH [of "std_min ops x v"] show ?case by (auto simp: std_min_def split: if_splits)
qed simp

lemma fold_max_in: "fold (\<lambda>v m. std_max ops m v) vs x \<in> insert x (set vs)"
proof (induction vs arbitrary: x)
  case (Cons v vs)
  from Cons.IH [of "std_max ops x v"] show ?case by (auto simp: std_max_def split: if_splits)
qed simp

end

interpretation real_order: float_order "real_ops er"
  by unfold_locales auto

section \<open>Element counts\<close>

datatype dtype = DType_F32 | DType_F16 | DType_BF16 | DType_I8

fun numel_loop :: "nat list \<Rightarrow> nat \<Rightarrow> nat result" where
  "numel_loop [] r = Inr r"
| "numel_loop (d # ds) r =
     (if d \<noteq> 0 \<and> r > size_max div d
      then Inl (LengthError ''tensor shape element count overflow'')
      else numel_loop ds (wmul r d))"

definition numel :: "nat list \<Rightarrow> nat result" where
  "numel shape = (if shape = [] then Inr 0 else numel_loop shape 1)"

lemma checked_mul_fits: "r \<le> size_max div d \<or> d = 0 \<Longrightarrow> wmul r d = r * d \<and> r * d < 2 ^ 64"
proof (cases "d = 0")
  case False
  assume "r \<le> size_max div d \<or> d = 0"
  with False have "r * d \<le> size_max" by (simp add: less_eq_div_iff_mult_less_eq)
  then have "r * d < 2 ^ 64" by (simp add: size_max_def)
  then show ?thesis by (simp add: wmul_exact)
qed (simp add: wmul_def)

lemma numel_loop_Inr: "numel_loop ds r = Inr n \<Longrightarrow> r < 2 ^ 64 \<Longrightarrow> n = r * prod_list ds \<and> n < 2 ^ 64"
proof (induction ds arbitrary: r)
  case (Cons d ds)
  then have g: "r \<le> size_max div d \<or> d = 0" by (auto split: if_splits)
  with Cons.prems have "numel_loop ds (wmul r d) = Inr n" by (auto split: if_splits)
  from Cons.IH [OF this] checked_mul_fits [OF g] show ?case by (simp add: mult.assoc)
qed simp

lemma numel_loop_total:
  "0 \<notin> set ds \<Longrightarrow> 0 < r \<Longrightarrow> r * prod_list ds < 2 ^ 64 \<Longrightarrow> numel_loop ds r = Inr (r * prod_list ds)"
proof (induction ds arbitrary: r)
  case (Cons d ds)
  then have d: "0 < d" "0 < prod_list ds" by (auto simp: prod_list_zero_iff intro: Nat.gr0I)
  have "r * d \<le> r * d * prod_list ds" using d by simp
  also have "\<dots> < 2 ^ 64" using Cons.prems(3) by (simp add: mult.assoc)
  finally have "r * d \<le> size_max" by (simp add: size_max_def)
  then have "r \<le> size_max div d" using d by (simp add: less_eq_div_iff_mult_less_eq)
  with checked_mul_fits [of r d] Cons d show ?case by (simp add: mult.assoc)
qed simp

section \<open>Values\<close>

record 'f tval =
  vshape :: "nat list"
  vdtype :: dtype
  vdata :: "'f list"

definition tval_new :: "'f fops \<Rightarrow> nat list \<Rightarrow> dtype \<Rightarrow> 'f tval result" where
  "tval_new ops shape d =
     bind_result (numel shape)
       (\<lambda>n. Inr \<lparr>vshape = shape, vdtype = d, vdata = replicate n (f_zero ops)\<rparr>)"

definition tget :: "'f list \<Rightarrow> nat \<Rightarrow> 'f result" where
  "tget xs i = (if i \<ge> length xs then Inl (OutOfRange ''tensor index'') else Inr (xs ! i))"

definition tset :: "'f list \<Rightarrow> nat \<Rightarrow> 'f \<Rightarrow> 'f list result" where
  "tset xs i v = (if i \<ge> length xs then Inl (OutOfRange ''tensor index'') else Inr (xs[i := v]))"

definition tval_ok :: "'f tval \<Rightarrow> bool" where
  "tval_ok t \<longleftrightarrow> numel (vshape t) = Inr (length (vdata t))"

lemma tval_new_ok: "tval_new ops shape d = Inr t \<Longrightarrow> tval_ok t \<and> vshape t = shape \<and> vdtype t = d"
  by (auto simp: tval_new_def tval_ok_def result_simps)

lemma tget_Inr [simp]: "i < length xs \<Longrightarrow> tget xs i = Inr (xs ! i)"
  by (simp add: tget_def)

lemma tset_Inr [simp]: "i < length xs \<Longrightarrow> tset xs i v = Inr (xs[i := v])"
  by (simp add: tset_def)

lemma tval_ok_matrix:
  assumes "tval_ok t" "vshape t = [r, c]"
  shows "length (vdata t) = r * c"
proof -
  have "numel_loop [r, c] 1 = Inr (length (vdata t))"
    using assms by (simp add: tval_ok_def numel_def del: numel_loop.simps)
  from numel_loop_Inr [OF this] show ?thesis by simp
qed

section \<open>Stored tensors\<close>

type_synonym 'f heap = "'f list list"

record tensor =
  tshape :: "nat list"
  tdtype :: dtype
  storage :: "nat option"

definition tensor_numel :: "tensor \<Rightarrow> nat result" where
  "tensor_numel t = numel (tshape t)"

definition tensor_data :: "'f heap \<Rightarrow> tensor \<Rightarrow> 'f list" where
  "tensor_data h t = (case storage t of None \<Rightarrow> [] | Some a \<Rightarrow> h ! a)"

definition tensor_new :: "'f fops \<Rightarrow> 'f heap \<Rightarrow> nat list \<Rightarrow> dtype \<Rightarrow> (tensor \<times> 'f heap) result" where
  "tensor_new ops h shape d =
     bind_result (numel shape)
       (\<lambda>n. if n \<noteq> 0
             then Inr (\<lparr>tshape = shape, tdtype = d, storage = Some (length h)\<rparr>,
                       h @ [replicate n (f_zero ops)])
             else Inr (\<lparr>tshape = shape, tdtype = d, storage = None\<rparr>, h))"

definition tensor_at :: "'f heap \<Rightarrow> tensor \<Rightarrow> nat \<Rightarrow> 'f result" where
  "tensor_at h t i =
     bind_result (tensor_numel t)
       (\<lambda>n. if i \<ge> n then Inl (OutOfRange ''tensor index'') else Inr (tensor_data h t ! i))"

text \<open>A write through the reference \<open>at\<close> returns.\<close>

definition tensor_set :: "'f heap \<Rightarrow> tensor \<Rightarrow> nat \<Rightarrow> 'f \<Rightarrow> 'f heap result" where
  "tensor_set h t i v =
     bind_result (tensor_numel t)
       (\<lambda>n. if i \<ge> n then Inl (OutOfRange ''tensor index'')
             else case storage t of
               None \<Rightarrow> Inl UndefinedBehavior
             | Some a \<Rightarrow> Inr (h[a := (h ! a)[i := v]]))"

definition tensor_fill :: "'f heap \<Rightarrow> tensor \<Rightarrow> 'f \<Rightarrow> 'f heap result" where
  "tensor_fill h t v =
     bind_result (tensor_numel t)
       (\<lambda>n. case storage t of
               None \<Rightarrow> Inr h
             | Some a \<Rightarrow> Inr (h[a := replicate n v @ drop n (h ! a)]))"

definition tensor_zeros :: "'f fops \<Rightarrow> 'f heap \<Rightarrow> tensor \<Rightarrow> 'f heap result" where
  "tensor_zeros ops h t = tensor_fill h t (f_zero ops)"

definition tensor_clone :: "'f fops \<Rightarrow> 'f heap \<Rightarrow> tensor \<Rightarrow> (tensor \<times> 'f heap) result" where
  "tensor_clone ops h t =
     bind_result (tensor_new ops h (tshape t) (tdtype t))
       (\<lambda>(copy, h1). bind_result (tensor_numel t)
          (\<lambda>n. case storage copy of
                  None \<Rightarrow> Inr (copy, h1)
                | Some a \<Rightarrow> Inr (copy, h1[a := take n (tensor_data h1 t) @ drop n (h1 ! a)])))"

definition tensor_ok :: "'f heap \<Rightarrow> tensor \<Rightarrow> bool" where
  "tensor_ok h t \<longleftrightarrow>
     (case storage t of
        None \<Rightarrow> tensor_numel t = Inr 0
      | Some a \<Rightarrow> a < length h \<and> tensor_numel t = Inr (length (h ! a)) \<and> h ! a \<noteq> [])"

definition view :: "'f heap \<Rightarrow> tensor \<Rightarrow> 'f tval" where
  "view h t = \<lparr>vshape = tshape t, vdtype = tdtype t, vdata = tensor_data h t\<rparr>"

section \<open>Facts about stored tensors\<close>

lemma tensor_ok_numel: "tensor_ok h t \<Longrightarrow> tensor_numel t = Inr (length (tensor_data h t))"
  by (auto simp: tensor_ok_def tensor_data_def split: option.splits)

lemma view_ok: "tensor_ok h t \<Longrightarrow> tval_ok (view h t)"
  using tensor_ok_numel [of h t] by (simp add: tval_ok_def view_def tensor_numel_def)

lemma tensor_new_spec:
  assumes "tensor_new ops h shape d = Inr (t, h')"
  shows "tensor_ok h' t \<and> tval_new ops shape d = Inr (view h' t)
    \<and> take (length h) h' = h \<and> (\<forall>a. storage t = Some a \<longrightarrow> a = length h \<and> length h < length h')"
  using assms
  by (auto simp: tensor_new_def result_simps tensor_ok_def tensor_numel_def tval_new_def view_def
      tensor_data_def split: if_splits)

lemma tensor_at_view: "tensor_ok h t \<Longrightarrow> tensor_at h t i = tget (vdata (view h t)) i"
  by (simp add: tensor_at_def tensor_ok_numel tget_def view_def)

lemma tensor_set_view:
  assumes "tensor_ok h t" "tensor_set h t i v = Inr h'"
  shows "tensor_ok h' t \<and> vdata (view h' t) = (vdata (view h t))[i := v]
    \<and> (\<forall>u. storage u \<noteq> storage t \<longrightarrow> view h' u = view h u)"
  using assms
  by (auto simp: tensor_set_def result_simps tensor_ok_def tensor_data_def view_def
      split: if_splits option.splits)

lemma tensor_set_other:
  assumes "tensor_ok h t" "tensor_set h t i v = Inr h'" "storage t \<noteq> None \<longrightarrow> storage u \<noteq> storage t"
  shows "view h' u = view h u"
proof -
  from assms(2) have "storage t \<noteq> None"
    by (auto simp: tensor_set_def result_simps split: if_splits option.splits)
  with assms(3) tensor_set_view [OF assms(1,2), THEN conjunct2, THEN conjunct2, rule_format, of u]
  show ?thesis by blast
qed

lemma tensor_clone_spec:
  assumes ok: "tensor_ok h t"
  obtains c h' where "tensor_clone ops h t = Inr (c, h')" "tensor_ok h' c" "view h' c = view h t"
    "storage c \<noteq> None \<longrightarrow> storage c \<noteq> storage t"
    "\<And>u. tensor_ok h u \<Longrightarrow> tensor_ok h' u \<and> view h' u = view h u"
proof (cases "storage t")
  case None
  with ok have n: "numel (tshape t) = Inr 0" by (simp add: tensor_ok_def tensor_numel_def)
  show thesis
    by (rule that [of "\<lparr>tshape = tshape t, tdtype = tdtype t, storage = None\<rparr>" h])
      (use n None in \<open>simp_all add: tensor_clone_def tensor_new_def tensor_numel_def tensor_ok_def
        view_def tensor_data_def\<close>)
next
  case (Some a)
  with ok have a: "a < length h" "h ! a \<noteq> []" and n: "numel (tshape t) = Inr (length (h ! a))"
    by (simp_all add: tensor_ok_def tensor_numel_def)
  let ?c = "\<lparr>tshape = tshape t, tdtype = tdtype t, storage = Some (length h)\<rparr>"
  have c: "tensor_clone ops h t = Inr (?c, h @ [h ! a])"
    using Some a n
    by (simp add: tensor_clone_def tensor_new_def tensor_numel_def tensor_data_def nth_append)
  show thesis
  proof (rule that [OF c])
    show "tensor_ok (h @ [h ! a]) u \<and> view (h @ [h ! a]) u = view h u" if "tensor_ok h u" for u
      using that by (auto simp: tensor_ok_def view_def tensor_data_def nth_append split: option.splits)
  qed (use Some a n in \<open>simp_all add: tensor_ok_def view_def tensor_data_def tensor_numel_def\<close>)
qed

section \<open>Properties\<close>

text \<open>
  the element count is exact: whenever the constructor accepts a shape its count is the
  product of the dimensions and fits a \<open>size_t\<close>; a shape without a zero dimension is accepted
  exactly when that product fits, and rejected with \<open>length_error\<close> otherwise.
\<close>

theorem numel_exact:
  "(\<forall>n. numel shape = Inr n \<longrightarrow> shape \<noteq> [] \<longrightarrow> n = prod_list shape \<and> n < 2 ^ 64)
   \<and> (0 \<notin> set shape \<longrightarrow> shape \<noteq> [] \<longrightarrow>
        numel shape = (if prod_list shape < 2 ^ 64 then Inr (prod_list shape)
                       else Inl (LengthError ''tensor shape element count overflow'')))"
proof -
  have sound: "n = prod_list shape \<and> n < 2 ^ 64" if "numel shape = Inr n" "shape \<noteq> []" for n
    using numel_loop_Inr [of shape 1 n] that by (simp add: numel_def)
  have error: "e = LengthError ''tensor shape element count overflow''"
    if "numel_loop ds r = Inl e" for e ds r
    using that by (induction ds r rule: numel_loop.induct) (auto split: if_splits)
  have complete: "numel shape = Inr (prod_list shape)"
    if "0 \<notin> set shape" "shape \<noteq> []" "prod_list shape < 2 ^ 64"
    using numel_loop_total [of shape 1] that by (simp add: numel_def)
  have overflow: "numel shape = Inl (LengthError ''tensor shape element count overflow'')"
    if "shape \<noteq> []" "\<not> prod_list shape < 2 ^ 64"
  proof (cases "numel shape")
    case (Inl e)
    with that(1) have "numel_loop shape 1 = Inl e" by (simp add: numel_def)
    from error [OF this] Inl show ?thesis by (simp only:)
  next
    case (Inr n)
    from sound [OF Inr that(1)] that(2) show ?thesis by blast
  qed
  show ?thesis
  proof (intro conjI allI impI)
    show "n = prod_list shape" "n < 2 ^ 64" if "numel shape = Inr n" "shape \<noteq> []" for n
      using sound [OF that] by blast+
    show "numel shape = (if prod_list shape < 2 ^ 64 then Inr (prod_list shape)
        else Inl (LengthError ''tensor shape element count overflow''))"
      if "0 \<notin> set shape" "shape \<noteq> []"
    proof (cases "prod_list shape < 2 ^ 64")
      case True
      with complete [OF that True] show ?thesis by presburger
    next
      case False
      with overflow [OF that(2) False] show ?thesis by presburger
    qed
  qed
qed

theorem numel_exact_witness: "numel [3, 4] = Inr 12"
proof -
  have "numel [3, 4] = (if prod_list [3, 4 :: nat] < 2 ^ 64 then Inr (prod_list [3, 4])
      else Inl (LengthError ''tensor shape element count overflow''))"
    by (rule numel_exact [THEN conjunct2, rule_format]) simp_all
  then show ?thesis by simp
qed

text \<open>
  \<open>clone\<close> gives a tensor with the same shape, type and elements that shares nothing:
  writing an element of either one afterwards leaves the other as it was.
\<close>

theorem clone_is_independent:
  assumes "tensor_ok h t"
  shows "\<exists>c h'. tensor_clone ops h t = Inr (c, h') \<and> view h' c = view h t
    \<and> (\<forall>i v h2. tensor_set h' c i v = Inr h2 \<longrightarrow> view h2 t = view h t)
    \<and> (\<forall>i v h2. tensor_set h' t i v = Inr h2 \<longrightarrow> view h2 c = view h t)"
proof -
  obtain c h' where c: "tensor_clone ops h t = Inr (c, h')" "tensor_ok h' c" "view h' c = view h t"
    "storage c \<noteq> None \<longrightarrow> storage c \<noteq> storage t"
    "\<And>u. tensor_ok h u \<Longrightarrow> tensor_ok h' u \<and> view h' u = view h u"
    using tensor_clone_spec [OF assms] by blast
  have t: "tensor_ok h' t" "view h' t = view h t" using c(5) [OF assms] by simp_all
  have other: "storage t \<noteq> None \<longrightarrow> storage c \<noteq> storage t" "storage c \<noteq> None \<longrightarrow> storage t \<noteq> storage c"
    using c(4) by auto
  then have "view h2 t = view h' t" if "tensor_set h' c i v = Inr h2" for i v h2
    using tensor_set_other [OF c(2) that] by blast
  moreover have "view h2 c = view h' c" if "tensor_set h' t i v = Inr h2" for i v h2
    using tensor_set_other [OF t(1) that] other by blast
  ultimately show ?thesis using c(1,3) t(2) by metis
qed

theorem clone_is_independent_witness:
  "\<exists>c h'. tensor_clone (real_ops id) [[1, 2]] \<lparr>tshape = [2], tdtype = DType_F32, storage = Some 0\<rparr>
     = Inr (c, h') \<and> vdata (view h' c) = [1, 2]"
proof -
  have "tensor_ok [[1, 2 :: real]] \<lparr>tshape = [2], tdtype = DType_F32, storage = Some 0\<rparr>"
    by (simp add: tensor_ok_def tensor_numel_def numel_def size_max_def wmul_def)
  from clone_is_independent [OF this, of "real_ops id"]
  show ?thesis by (auto simp: view_def tensor_data_def)
qed

end
