(* ===== verification/Kernels.thy ===== *)
theory Kernels
  imports Tensor_Store
begin

text \<open>
  The CPU kernels (include/gpuforge/kernels.hpp, src/kernels.cpp): tiled matrix multiplication,
  softmax, attention and layer normalisation, with every loop of the source and every checked
  element access. The reference definitions (names ending in \<open>_ref\<close>) are what the
  properties compare the loops with; they hold for every floating-point arithmetic, so they are
  statements about the bits. Block starts are modelled for dimensions below \<open>2 ^ 64\<close> minus
  the tile, where \<open>row_block += tile\<close> does not wrap around.
\<close>

section \<open>Configurations\<close>

record gemm_config =
  gtile :: int
  gwarps :: int
  use_tensor_core :: bool

definition default_gemm_config :: gemm_config where
  "default_gemm_config = \<lparr>gtile = 16, gwarps = 4, use_tensor_core = False\<rparr>"

record 'f attention_config =
  atile :: int
  ascale :: 'f
  causal :: bool

definition kernel_config :: "gemm_config \<Rightarrow> string" where
  "kernel_config c =
     ''tile='' @ int_to_string (gtile c) @ '',warps='' @ int_to_string (gwarps c)
       @ (if use_tensor_core c then '',tc'' else [])"

section \<open>Matrix multiplication\<close>

definition ndim :: "'f tval \<Rightarrow> nat" where
  "ndim t = length (vshape t)"

definition check_matrix_multiply :: "'f tval \<Rightarrow> 'f tval \<Rightarrow> unit result" where
  "check_matrix_multiply lhs rhs =
     (if ndim lhs \<noteq> 2 \<or> ndim rhs \<noteq> 2 \<or> vshape lhs ! 1 \<noteq> vshape rhs ! 0
      then Inl (InvalidArgument ''gemm requires compatible rank-2 tensors'')
      else Inr ())"

text \<open>
  The values a block loop \<open>for (b = 0; b < n; b += tile)\<close> goes through. The start does not wrap here. In
  the code it does when a side is less than a tile below \<open>2 ^ 64\<close>, as only a matrix without elements
  can have it, and the loop then starts over for ever.
\<close>

function blocks :: "nat \<Rightarrow> nat \<Rightarrow> nat \<Rightarrow> nat list" where
  "blocks tile n b = (if tile = 0 \<or> n \<le> b then [] else b # blocks tile n (b + tile))"
  by pat_completeness auto
termination by (relation "measure (\<lambda>(tile, n, b). n - b)") auto

declare blocks.simps [simp del]

definition accumulate ::
  "'f fops \<Rightarrow> 'f list \<Rightarrow> 'f list \<Rightarrow> nat \<Rightarrow> nat \<Rightarrow> nat \<Rightarrow> nat \<Rightarrow> nat \<Rightarrow> 'f \<Rightarrow> 'f result" where
  "accumulate ops xs ys inner columns row column index acc =
     bind_result (tget xs (row * inner + index))
       (\<lambda>x. bind_result (tget ys (index * columns + column))
          (\<lambda>y. Inr (f_add ops acc (f_mul ops x y))))"

definition gemm_cell ::
  "'f fops \<Rightarrow> 'f list \<Rightarrow> 'f list \<Rightarrow> nat \<Rightarrow> nat \<Rightarrow> nat \<Rightarrow> nat \<Rightarrow> nat \<Rightarrow> nat \<Rightarrow> 'f list \<Rightarrow> 'f list result"
where
  "gemm_cell ops xs ys inner columns inner_block inner_end row column out =
     bind_result (tget out (row * columns + column))
       (\<lambda>acc. bind_result
          (fold_result (accumulate ops xs ys inner columns row column) [inner_block..<inner_end] acc)
          (tset out (row * columns + column)))"

definition gemm_block ::
  "'f fops \<Rightarrow> 'f list \<Rightarrow> 'f list \<Rightarrow> nat \<Rightarrow> nat \<Rightarrow> nat \<Rightarrow> nat \<Rightarrow> nat \<Rightarrow> nat \<Rightarrow> nat \<Rightarrow> 'f list \<Rightarrow> 'f list result"
where
  "gemm_block ops xs ys rows inner columns tile row_block column_block inner_block =
     (let row_end = min (row_block + tile) rows;
          column_end = min (column_block + tile) columns;
          inner_end = min (inner_block + tile) inner
      in fold_result
           (\<lambda>row. fold_result
              (\<lambda>column. gemm_cell ops xs ys inner columns inner_block inner_end row column)
              [column_block..<column_end])
           [row_block..<row_end])"

definition gemm_loops ::
  "'f fops \<Rightarrow> 'f list \<Rightarrow> 'f list \<Rightarrow> nat \<Rightarrow> nat \<Rightarrow> nat \<Rightarrow> nat \<Rightarrow> 'f list \<Rightarrow> 'f list result" where
  "gemm_loops ops xs ys rows inner columns tile =
     fold_result
       (\<lambda>row_block. fold_result
          (\<lambda>column_block. fold_result
             (\<lambda>inner_block.
                gemm_block ops xs ys rows inner columns tile row_block column_block inner_block)
             (blocks tile inner 0))
          (blocks tile columns 0))
       (blocks tile rows 0)"

definition gemm :: "'f fops \<Rightarrow> 'f tval \<Rightarrow> 'f tval \<Rightarrow> gemm_config \<Rightarrow> 'f tval result" where
  "gemm ops lhs rhs config =
     bind_result (check_matrix_multiply lhs rhs)
       (\<lambda>_. let rows = vshape lhs ! 0; inner = vshape lhs ! 1; columns = vshape rhs ! 1;
                tile = u64_of_int (max 1 (gtile config))
            in bind_result (tval_new ops [rows, columns] DType_F32)
                 (\<lambda>output. bind_result
                    (gemm_loops ops (vdata lhs) (vdata rhs) rows inner columns tile (vdata output))
                    (\<lambda>d. Inr (output\<lparr>vdata := d\<rparr>))))"

section \<open>Softmax\<close>

definition row_max :: "'f fops \<Rightarrow> 'f list \<Rightarrow> nat \<Rightarrow> nat \<Rightarrow> 'f result" where
  "row_max ops xs columns row =
     fold_result
       (\<lambda>column m. bind_result (tget xs (row * columns + column)) (\<lambda>x. Inr (std_max ops m x)))
       [0..<columns] (f_neg_inf ops)"

definition exp_cell ::
  "'f fops \<Rightarrow> 'f list \<Rightarrow> nat \<Rightarrow> nat \<Rightarrow> 'f \<Rightarrow> nat \<Rightarrow> 'f list \<times> 'f \<Rightarrow> ('f list \<times> 'f) result" where
  "exp_cell ops xs columns row maximum column s =
     (case s of (out, denominator) \<Rightarrow>
        bind_result (tget xs (row * columns + column))
          (\<lambda>x. let value = f_exp ops (f_sub ops x maximum)
               in bind_result (tset out (row * columns + column) value)
                    (\<lambda>out. Inr (out, f_add ops denominator value))))"

definition divide_cell ::
  "'f fops \<Rightarrow> nat \<Rightarrow> nat \<Rightarrow> 'f \<Rightarrow> nat \<Rightarrow> 'f list \<Rightarrow> 'f list result" where
  "divide_cell ops columns row denominator column out =
     bind_result (tget out (row * columns + column))
       (\<lambda>x. tset out (row * columns + column) (f_div ops x denominator))"

definition softmax_row :: "'f fops \<Rightarrow> 'f list \<Rightarrow> nat \<Rightarrow> nat \<Rightarrow> 'f list \<Rightarrow> 'f list result" where
  "softmax_row ops xs columns row out =
     bind_result (row_max ops xs columns row)
       (\<lambda>maximum. bind_result
          (fold_result (exp_cell ops xs columns row maximum) [0..<columns] (out, f_zero ops))
          (\<lambda>(out, denominator).
             fold_result (divide_cell ops columns row denominator) [0..<columns] out))"

definition softmax :: "'f fops \<Rightarrow> 'f tval \<Rightarrow> 'f tval result" where
  "softmax ops input =
     (if ndim input \<noteq> 2 then Inl (InvalidArgument ''softmax expects a matrix'')
      else let rows = vshape input ! 0; columns = vshape input ! 1
           in if columns = 0 then Inl (InvalidArgument ''softmax requires non-empty rows'')
              else bind_result (tval_new ops (vshape input) DType_F32)
                     (\<lambda>output. bind_result
                        (fold_result (softmax_row ops (vdata input) columns) [0..<rows] (vdata output))
                        (\<lambda>d. Inr (output\<lparr>vdata := d\<rparr>))))"

section \<open>Attention\<close>

definition transpose_loops :: "'f list \<Rightarrow> nat \<Rightarrow> nat \<Rightarrow> 'f list \<Rightarrow> 'f list result" where
  "transpose_loops xs rows columns =
     fold_result
       (\<lambda>row. fold_result
          (\<lambda>column out. bind_result (tget xs (row * columns + column))
             (tset out (column * rows + row)))
          [0..<columns])
       [0..<rows]"

definition scale_scores :: "'f fops \<Rightarrow> 'f \<Rightarrow> 'f list \<Rightarrow> 'f list result" where
  "scale_scores ops scale out =
     fold_result
       (\<lambda>i out. bind_result (tget out i) (\<lambda>x. tset out i (f_mul ops x scale)))
       [0..<length out] out"

definition mask_scores :: "'f fops \<Rightarrow> nat \<Rightarrow> nat \<Rightarrow> 'f list \<Rightarrow> 'f list result" where
  "mask_scores ops rows columns =
     fold_result
       (\<lambda>row. fold_result
          (\<lambda>column out. tset out (row * columns + column) (f_dec ops (- 1) 9))
          [row + 1..<columns])
       [0..<rows]"

definition attention ::
  "'f fops \<Rightarrow> 'f tval \<Rightarrow> 'f tval \<Rightarrow> 'f tval \<Rightarrow> 'f attention_config \<Rightarrow> 'f tval result" where
  "attention ops query key value config =
     (if ndim query \<noteq> 2 \<or> ndim key \<noteq> 2 \<or> ndim value \<noteq> 2
         \<or> vshape query ! 1 \<noteq> vshape key ! 1 \<or> vshape key ! 0 \<noteq> vshape value ! 0
      then Inl (InvalidArgument ''attention value shape is incompatible'')
      else bind_result (tval_new ops [vshape key ! 1, vshape key ! 0] DType_F32)
        (\<lambda>t. bind_result
           (transpose_loops (vdata key) (vshape key ! 0) (vshape key ! 1) (vdata t))
        (\<lambda>kt. bind_result (gemm ops query (t\<lparr>vdata := kt\<rparr>) default_gemm_config)
        (\<lambda>scores.
           let scale = (if f_eq ops (ascale config) (f_zero ops)
                        then f_div ops (f_dec ops 1 0)
                               (f_sqrt ops (f_of_nat ops (vshape query ! 1)))
                        else ascale config)
           in bind_result (scale_scores ops scale (vdata scores))
        (\<lambda>d. bind_result
           (if causal config then mask_scores ops (vshape scores ! 0) (vshape scores ! 1) d
            else Inr d)
        (\<lambda>d. bind_result (softmax ops (scores\<lparr>vdata := d\<rparr>))
        (\<lambda>weights. gemm ops weights value default_gemm_config)))))))"

section \<open>Layer normalisation\<close>

definition row_sum :: "'f fops \<Rightarrow> ('f \<Rightarrow> 'f) \<Rightarrow> 'f list \<Rightarrow> nat \<Rightarrow> nat \<Rightarrow> 'f result" where
  "row_sum ops g xs columns row =
     fold_result
       (\<lambda>column s. bind_result (tget xs (row * columns + column)) (\<lambda>x. Inr (f_add ops s (g x))))
       [0..<columns] (f_zero ops)"

definition norm_cell ::
  "'f fops \<Rightarrow> 'f list \<Rightarrow> 'f list \<Rightarrow> 'f list \<Rightarrow> 'f \<Rightarrow> nat \<Rightarrow> nat \<Rightarrow> 'f \<Rightarrow> 'f \<Rightarrow> nat
    \<Rightarrow> 'f list \<Rightarrow> 'f list result" where
  "norm_cell ops xs gamma beta epsilon columns row mean variance column out =
     bind_result (tget xs (row * columns + column))
       (\<lambda>x. let normalized = f_div ops (f_sub ops x mean) (f_sqrt ops (f_add ops variance epsilon))
            in bind_result (tget gamma column)
                 (\<lambda>g. bind_result (tget beta column)
                    (\<lambda>b. tset out (row * columns + column)
                            (f_add ops (f_mul ops normalized g) b))))"

definition norm_row ::
  "'f fops \<Rightarrow> 'f list \<Rightarrow> 'f list \<Rightarrow> 'f list \<Rightarrow> 'f \<Rightarrow> nat \<Rightarrow> nat \<Rightarrow> 'f list \<Rightarrow> 'f list result" where
  "norm_row ops xs gamma beta epsilon columns row out =
     bind_result (row_sum ops (\<lambda>x. x) xs columns row)
       (\<lambda>total. let mean = f_div ops total (f_of_nat ops columns)
            in bind_result
                 (row_sum ops (\<lambda>x. let delta = f_sub ops x mean in f_mul ops delta delta) xs columns row)
                 (\<lambda>squares. let variance = f_div ops squares (f_of_nat ops columns)
                    in fold_result (norm_cell ops xs gamma beta epsilon columns row mean variance)
                         [0..<columns] out))"

definition layer_norm ::
  "'f fops \<Rightarrow> 'f tval \<Rightarrow> 'f tval \<Rightarrow> 'f tval \<Rightarrow> 'f \<Rightarrow> 'f tval result" where
  "layer_norm ops input gamma beta epsilon =
     (if ndim input \<noteq> 2 then Inl (InvalidArgument ''layer_norm shape mismatch'')
      else bind_result (numel (vshape gamma)) (\<lambda>ng. bind_result (numel (vshape beta)) (\<lambda>nb.
        if ng \<noteq> vshape input ! 1 \<or> nb \<noteq> ng
        then Inl (InvalidArgument ''layer_norm shape mismatch'')
        else if \<not> f_less ops (f_zero ops) epsilon \<or> \<not> f_finite ops epsilon
        then Inl (InvalidArgument ''layer_norm epsilon must be finite and positive'')
        else let rows = vshape input ! 0; columns = vshape input ! 1
             in bind_result (tval_new ops (vshape input) DType_F32)
                  (\<lambda>output. bind_result
                     (fold_result
                        (norm_row ops (vdata input) (vdata gamma) (vdata beta) epsilon columns)
                        [0..<rows] (vdata output))
                     (\<lambda>d. Inr (output\<lparr>vdata := d\<rparr>))))))"

section \<open>The build without CUDA\<close>

definition cuda_available :: bool where
  "cuda_available = False"

definition gemm_cuda :: "'f fops \<Rightarrow> 'f tval \<Rightarrow> 'f tval \<Rightarrow> gemm_config \<Rightarrow> 'f tval result" where
  "gemm_cuda ops lhs rhs c = gemm ops lhs rhs c"

definition attention_cuda ::
  "'f fops \<Rightarrow> 'f tval \<Rightarrow> 'f tval \<Rightarrow> 'f tval \<Rightarrow> 'f attention_config \<Rightarrow> 'f tval result" where
  "attention_cuda ops q k v c = attention ops q k v c"

definition gemm_tensorcore :: "'f fops \<Rightarrow> 'f tval \<Rightarrow> 'f tval \<Rightarrow> 'f tval result" where
  "gemm_tensorcore ops lhs rhs =
     gemm ops lhs rhs \<lparr>gtile = 16, gwarps = 4, use_tensor_core = True\<rparr>"

section \<open>Loops that update one cell at a time\<close>

lemma fold_result_map: "fold_result f (map g xs) = fold_result (\<lambda>x. f (g x)) xs"
proof (rule ext)
  fix s show "fold_result f (map g xs) s = fold_result (\<lambda>x. f (g x)) xs s"
  proof (induction xs arbitrary: s)
    case (Cons x xs)
    then show ?case by (cases "f (g x) s") simp_all
  qed simp
qed

lemma fold_result_concat: "fold_result f (concat xss) = fold_result (fold_result f) xss"
proof (rule ext)
  fix s show "fold_result f (concat xss) s = fold_result (fold_result f) xss s"
  proof (induction xss arbitrary: s)
    case (Cons xs xss)
    then show ?case by (cases "fold_result f xs s") (simp_all add: fold_result_append)
  qed simp
qed

lemma fold_result_cong:
  "(\<And>x s. x \<in> set xs \<Longrightarrow> f x s = g x s) \<Longrightarrow> fold_result f xs s = fold_result g xs s"
proof (induction xs arbitrary: s)
  case (Cons x xs)
  then show ?case by (cases "g x s") simp_all
qed simp

definition cell_update :: "('t \<Rightarrow> nat) \<Rightarrow> ('t \<Rightarrow> 'f \<Rightarrow> 'f) \<Rightarrow> 't \<Rightarrow> 'f list \<Rightarrow> 'f list" where
  "cell_update idx F t out = out[idx t := F t (out ! idx t)]"

lemma fold_cell_update:
  assumes "\<And>t. t \<in> set ts \<Longrightarrow> idx t < length out"
  shows "length (fold (cell_update idx F) ts out) = length out
    \<and> (\<forall>k < length out. fold (cell_update idx F) ts out ! k
         = fold F (filter (\<lambda>t. idx t = k) ts) (out ! k))"
  using assms
proof (induction ts arbitrary: out)
  case (Cons t ts)
  let ?o = "cell_update idx F t out"
  have l: "length ?o = length out" by (simp add: cell_update_def)
  have "?o ! k = (if idx t = k then F t (out ! k) else out ! k)" if "k < length out" for k
    using that Cons.prems [of t] by (auto simp: cell_update_def)
  with Cons.IH [of ?o] Cons.prems l show ?case by simp
qed simp

lemma fold_cells:
  assumes "\<And>t. t \<in> set ts \<Longrightarrow> idx t < length out"
    and "\<And>t out'. t \<in> set ts \<Longrightarrow> length out' = length out \<Longrightarrow> f t out' = Inr (cell_update idx F t out')"
  shows "fold_result f ts out = Inr (map (\<lambda>k. fold F (filter (\<lambda>t. idx t = k) ts) (out ! k)) [0..<length out])"
proof -
  have "fold_result f ts out = Inr (fold (cell_update idx F) ts out)"
    using assms
  proof (induction ts arbitrary: out)
    case (Cons t ts)
    have "length (cell_update idx F t out) = length out" by (simp add: cell_update_def)
    with Cons show ?case by simp
  qed simp
  also have "fold (cell_update idx F) ts out
      = map (\<lambda>k. fold F (filter (\<lambda>t. idx t = k) ts) (out ! k)) [0..<length out]"
    using fold_cell_update [where ts = ts and idx = idx and F = F and out = out, OF assms(1)] by (intro nth_equalityI) auto
  finally show ?thesis .
qed

section \<open>Tiling\<close>

definition is_matrix :: "'f tval \<Rightarrow> nat \<Rightarrow> nat \<Rightarrow> bool" where
  "is_matrix t rows columns \<longleftrightarrow>
     vshape t = [rows, columns] \<and> rows < 2 ^ 64 \<and> columns < 2 ^ 64 \<and>
     length (vdata t) = rows * columns \<and> rows * columns < 2 ^ 64"

lemma numel_matrix:
  assumes "r < 2 ^ 64" "c < 2 ^ 64"
  shows "numel [r, c] = (if r * c < 2 ^ 64 then Inr (r * c)
    else Inl (LengthError ''tensor shape element count overflow''))"
proof -
  have r: "r \<noteq> 0 \<Longrightarrow> 1 \<le> size_max div r" "wmul 1 r = r"
    using assms(1) div_greater_zero_iff [of size_max r] by (auto simp: size_max_def wmul_def)
  have c: "(c \<noteq> 0 \<and> r > size_max div c) \<longleftrightarrow> \<not> r * c < 2 ^ 64"
    using less_eq_div_iff_mult_less_eq [of c r size_max] by (cases "c = 0") (auto simp: size_max_def)
  have "numel [r, c] = numel_loop [c] r"
    using r by (cases "r = 0") (simp_all add: numel_def)
  also have "\<dots> = (if r * c < 2 ^ 64 then Inr (r * c)
    else Inl (LengthError ''tensor shape element count overflow''))"
    using c by (simp add: wmul_exact)
  finally show ?thesis .
qed

lemma tval_new_matrix:
  assumes "r < 2 ^ 64" "c < 2 ^ 64"
  shows "tval_new ops [r, c] d = (if r * c < 2 ^ 64
    then Inr \<lparr>vshape = [r, c], vdtype = d, vdata = replicate (r * c) (f_zero ops)\<rparr>
    else Inl (LengthError ''tensor shape element count overflow''))"
  by (simp add: tval_new_def numel_matrix [OF assms])

lemma blocks_set: "b \<in> set (blocks t n a) \<Longrightarrow> a \<le> b \<and> b < n"
proof (induction t n a rule: blocks.induct)
  case (1 t n a)
  then show ?case by (subst (asm) (2) blocks.simps) (auto split: if_splits)
qed

lemma blocks_cover: "0 < t \<Longrightarrow> concat (map (\<lambda>b. [b..<min (b + t) n]) (blocks t n a)) = [a..<n]"
proof (induction t n a rule: blocks.induct)
  case (1 t n a)
  show ?case
  proof (cases "n \<le> a")
    case False
    with 1 have "concat (map (\<lambda>b. [b..<min (b + t) n]) (blocks t n a))
        = [a..<min (a + t) n] @ [a + t..<n]"
      by (subst blocks.simps) simp
    also have "\<dots> = [a..<n]" using False upt_add_eq_append [of a "a + t" "n - (a + t)"]
      by (cases "a + t \<le> n") auto
    finally show ?thesis .
  qed (subst blocks.simps, simp)
qed

lemma blocks_pick:
  assumes "0 < t" "r < n"
  shows "concat (map (\<lambda>b. if b \<le> r \<and> r < b + t then xs else []) (blocks t n a))
    = (if a \<le> r then xs else [])"
  using assms
proof (induction t n a rule: blocks.induct)
  case (1 t n a)
  show ?case
  proof (cases "n \<le> a")
    case True
    with 1(3) show ?thesis by (subst blocks.simps) simp
  next
    case False
    with 1 have "concat (map (\<lambda>b. if b \<le> r \<and> r < b + t then xs else []) (blocks t n (a + t)))
        = (if a + t \<le> r then xs else [])" by simp
    with False 1(2) show ?thesis by (subst blocks.simps) simp
  qed
qed

lemma concat_select:
  "concat (map (\<lambda>x. if x = a \<and> Q then ys else []) [m..<n]) = (if m \<le> a \<and> a < n \<and> Q then ys else [])"
  by (induction n) auto

lemma fold_concat: "fold f (concat xss) s = fold (fold f) xss s"
  by (induction xss arbitrary: s) simp_all

definition gemm_items :: "nat \<Rightarrow> nat \<Rightarrow> nat \<Rightarrow> nat \<Rightarrow> (nat \<times> nat \<times> nat) list" where
  "gemm_items tile rows inner columns =
     concat (map (\<lambda>rb. concat (map (\<lambda>cb. concat (map (\<lambda>ib. concat (map
       (\<lambda>r. map (\<lambda>c. (r, c, ib)) [cb..<min (cb + tile) columns]) [rb..<min (rb + tile) rows]))
       (blocks tile inner 0))) (blocks tile columns 0))) (blocks tile rows 0))"

lemma gemm_loops_items:
  "gemm_loops ops xs ys rows inner columns tile
   = fold_result
       (\<lambda>(r, c, ib). gemm_cell ops xs ys inner columns ib (min (ib + tile) inner) r c)
       (gemm_items tile rows inner columns)"
  by (simp add: gemm_loops_def gemm_block_def gemm_items_def Let_def fold_result_concat
      fold_result_map)

lemma gemm_items_set:
  "(r, c, ib) \<in> set (gemm_items tile rows inner columns) \<Longrightarrow> r < rows \<and> c < columns"
  by (auto simp: gemm_items_def)

lemma filter_columns:
  "filter (\<lambda>x. fst x = r \<and> fst (snd x) = c) (map (\<lambda>c'. (r', c', ib)) [m..<n])
   = (if r' = r \<and> (m \<le> c \<and> c < n) then [(r, c, ib)] else [])"
  by (induction n) auto

lemma filter_gemm_items:
  assumes "0 < tile" "r < rows" "c < columns"
  shows "filter (\<lambda>x. fst x = r \<and> fst (snd x) = c) (gemm_items tile rows inner columns)
    = map (\<lambda>ib. (r, c, ib)) (blocks tile inner 0)"
proof -
  let ?bs = "map (\<lambda>ib. (r, c, ib)) (blocks tile inner 0)"
  have one: "concat (map (\<lambda>ib. if A then [(r, c, ib)] else []) ibs)
      = (if A then map (\<lambda>ib. (r, c, ib)) ibs else [])"
    for A and ibs :: "nat list" by (induction ibs) auto
  have "filter (\<lambda>x. fst x = r \<and> fst (snd x) = c) (gemm_items tile rows inner columns)
      = concat (map (\<lambda>rb. concat (map (\<lambda>cb.
          if rb \<le> r \<and> r < min (rb + tile) rows \<and> cb \<le> c \<and> c < min (cb + tile) columns then ?bs else [])
          (blocks tile columns 0))) (blocks tile rows 0))"
    by (simp add: gemm_items_def filter_concat comp_def filter_columns concat_select one
        del: filter_map)
  also have "\<dots> = concat (map (\<lambda>rb. if rb \<le> r \<and> r < rb + tile then
      concat (map (\<lambda>cb. if cb \<le> c \<and> c < cb + tile then ?bs else []) (blocks tile columns 0)) else [])
      (blocks tile rows 0))"
    using assms by (intro arg_cong [where f = concat] map_cong) auto
  also have "\<dots> = ?bs"
    by (simp only: blocks_pick [OF assms(1,3)] blocks_pick [OF assms(1,2)] le0 if_True)
  finally show ?thesis .
qed

section \<open>The product\<close>

definition dot_ref :: "'f fops \<Rightarrow> 'f list \<Rightarrow> 'f list \<Rightarrow> nat \<Rightarrow> nat \<Rightarrow> nat \<Rightarrow> nat \<Rightarrow> 'f" where
  "dot_ref ops xs ys inner columns row column =
     fold (\<lambda>i acc. f_add ops acc (f_mul ops (xs ! (row * inner + i)) (ys ! (i * columns + column))))
       [0..<inner] (f_zero ops)"

definition gemm_ref :: "'f fops \<Rightarrow> 'f list \<Rightarrow> 'f list \<Rightarrow> nat \<Rightarrow> nat \<Rightarrow> nat \<Rightarrow> 'f list" where
  "gemm_ref ops xs ys rows inner columns =
     map (\<lambda>k. dot_ref ops xs ys inner columns (k div columns) (k mod columns)) [0..<rows * columns]"

lemma gemm_ref_length [simp]: "length (gemm_ref ops xs ys rows inner columns) = rows * columns"
  by (simp add: gemm_ref_def)

lemma accumulate_Inr:
  assumes "length xs = rows * inner" "length ys = inner * columns"
    "row < rows" "column < columns" "index < inner"
  shows "accumulate ops xs ys inner columns row column index acc
    = Inr (f_add ops acc (f_mul ops (xs ! (row * inner + index)) (ys ! (index * columns + column))))"
  using row_major_less [OF assms(3,5)] row_major_less [OF assms(5,4)] assms(1,2)
  by (simp add: accumulate_def)

lemma gemm_loops_exact:
  assumes xs: "length xs = rows * inner" and ys: "length ys = inner * columns" and t: "0 < tile"
  shows "gemm_loops ops xs ys rows inner columns tile (replicate (rows * columns) (f_zero ops))
    = Inr (gemm_ref ops xs ys rows inner columns)"
proof -
  let ?items = "gemm_items tile rows inner columns"
  let ?step = "\<lambda>r c i acc. f_add ops acc (f_mul ops (xs ! (r * inner + i)) (ys ! (i * columns + c)))"
  let ?idx = "\<lambda>x. fst x * columns + fst (snd x)"
  let ?F = "\<lambda>x acc. fold (?step (fst x) (fst (snd x))) [snd (snd x)..<min (snd (snd x) + tile) inner] acc"
  let ?out = "replicate (rows * columns) (f_zero ops)"
  let ?f = "\<lambda>(r, c, ib). gemm_cell ops xs ys inner columns ib (min (ib + tile) inner) r c"
  have idx: "?idx x < rows * columns" if "x \<in> set ?items" for x
    using gemm_items_set [of "fst x" "fst (snd x)" "snd (snd x)"] that row_major_less by simp
  have cell: "?f x out = Inr (cell_update ?idx ?F x out)"
    if "x \<in> set ?items" "length out = length ?out" for x out
  proof -
    obtain r c ib where x: "x = (r, c, ib)" by (cases x)
    with that have rc: "r < rows" "c < columns" using gemm_items_set by blast+
    have i: "?idx x < length out" using idx that by simp
    have "fold_result (accumulate ops xs ys inner columns r c) [ib..<min (ib + tile) inner] (out ! ?idx x)
        = Inr (?F x (out ! ?idx x))"
      unfolding x fst_conv snd_conv
      by (rule fold_result_total) (simp add: accumulate_Inr [OF xs ys rc])
    with i x show ?thesis by (simp add: gemm_cell_def cell_update_def)
  qed
  have "fold ?F (filter (\<lambda>x. ?idx x = k) ?items) (?out ! k)
      = dot_ref ops xs ys inner columns (k div columns) (k mod columns)" if k: "k < rows * columns" for k
  proof -
    let ?r = "k div columns" and ?c = "k mod columns"
    have c0: "0 < columns" using k by (cases columns) simp_all
    then have rc: "?r < rows" "?c < columns" using k by (simp_all add: less_mult_imp_div_less)
    have "filter (\<lambda>x. ?idx x = k) ?items = filter (\<lambda>x. fst x = ?r \<and> fst (snd x) = ?c) ?items"
      using gemm_items_set c0 by (intro filter_cong) auto
    also have "\<dots> = map (\<lambda>ib. (?r, ?c, ib)) (blocks tile inner 0)"
      by (rule filter_gemm_items [OF t rc])
    finally have "fold ?F (filter (\<lambda>x. ?idx x = k) ?items) (?out ! k)
        = fold (fold (?step ?r ?c)) (map (\<lambda>ib. [ib..<min (ib + tile) inner]) (blocks tile inner 0)) (f_zero ops)"
      using k by (simp add: fold_map comp_def)
    also have "\<dots> = fold (?step ?r ?c) [0..<inner] (f_zero ops)"
      by (simp only: blocks_cover [OF t] flip: fold_concat)
    finally show ?thesis by (simp add: dot_ref_def)
  qed
  with fold_cells [of ?items ?idx ?out ?f ?F, OF _ cell] idx
  show ?thesis by (simp add: gemm_loops_items gemm_ref_def)
qed

lemma gemm_matrix:
  assumes int32: "gtile config < 2 ^ 31"
    and m: "is_matrix lhs rows inner" "is_matrix rhs inner columns"
  shows "gemm ops lhs rhs config =
    (if rows * columns < 2 ^ 64
     then Inr \<lparr>vshape = [rows, columns], vdtype = DType_F32,
               vdata = gemm_ref ops (vdata lhs) (vdata rhs) rows inner columns\<rparr>
     else Inl (LengthError ''tensor shape element count overflow''))"
proof -
  have t: "0 < u64_of_int (max 1 (gtile config))"
    using int32 by (simp add: u64_of_int_def)
  from m have "gemm ops lhs rhs config = bind_result (tval_new ops [rows, columns] DType_F32)
      (\<lambda>output. bind_result (gemm_loops ops (vdata lhs) (vdata rhs) rows inner columns
          (u64_of_int (max 1 (gtile config))) (vdata output))
        (\<lambda>d. Inr (output\<lparr>vdata := d\<rparr>)))"
    by (simp add: gemm_def check_matrix_multiply_def ndim_def is_matrix_def)
  with m gemm_loops_exact [OF _ _ t, of "vdata lhs" rows inner "vdata rhs" columns ops]
  show ?thesis by (simp add: is_matrix_def tval_new_matrix)
qed

text \<open>
  C3: the tiled matrix product is the textbook one, bit for bit. For operands of matching
  shapes, every tile size (0 and negative ones included) gives the matrix whose cell at row
  \<open>r\<close> and column \<open>c\<close> accumulates the products along the inner dimension in increasing order,
  unless the result has too many elements to count; operands of other shapes are rejected.
\<close>

theorem gemm_exact:
  assumes int32: "gtile config < 2 ^ 31"
  shows "(\<forall>rows inner columns. is_matrix lhs rows inner \<longrightarrow> is_matrix rhs inner columns \<longrightarrow>
      gemm ops lhs rhs config =
        (if rows * columns < 2 ^ 64
         then Inr \<lparr>vshape = [rows, columns], vdtype = DType_F32,
                   vdata = gemm_ref ops (vdata lhs) (vdata rhs) rows inner columns\<rparr>
         else Inl (LengthError ''tensor shape element count overflow'')))
   \<and> (\<not> (\<exists>rows inner columns. vshape lhs = [rows, inner] \<and> vshape rhs = [inner, columns]) \<longrightarrow>
        gemm ops lhs rhs config = Inl (InvalidArgument ''gemm requires compatible rank-2 tensors''))"
proof (intro conjI allI impI)
  fix rows inner columns
  assume "is_matrix lhs rows inner" "is_matrix rhs inner columns"
  with int32 show "gemm ops lhs rhs config = (if rows * columns < 2 ^ 64
      then Inr \<lparr>vshape = [rows, columns], vdtype = DType_F32,
                vdata = gemm_ref ops (vdata lhs) (vdata rhs) rows inner columns\<rparr>
      else Inl (LengthError ''tensor shape element count overflow''))"
    by (rule gemm_matrix)
next
  assume "\<not> (\<exists>rows inner columns. vshape lhs = [rows, inner] \<and> vshape rhs = [inner, columns])"
  then have "ndim lhs \<noteq> 2 \<or> ndim rhs \<noteq> 2 \<or> vshape lhs ! 1 \<noteq> vshape rhs ! 0"
    by (auto simp: ndim_def length_Suc_conv numeral_2_eq_2)
  then show "gemm ops lhs rhs config = Inl (InvalidArgument ''gemm requires compatible rank-2 tensors'')"
    by (auto simp: gemm_def check_matrix_multiply_def)
qed

theorem gemm_exact_witness:
  "gemm (real_ops id) \<lparr>vshape = [1, 2], vdtype = DType_F32, vdata = [1, 2]\<rparr>
     \<lparr>vshape = [2, 1], vdtype = DType_F32, vdata = [3, 4]\<rparr> default_gemm_config
   = Inr \<lparr>vshape = [1, 1], vdtype = DType_F32, vdata = [11]\<rparr>"
proof -
  let ?x = "\<lparr>vshape = [1, 2], vdtype = DType_F32, vdata = [1, 2 :: real]\<rparr>"
  let ?y = "\<lparr>vshape = [2, 1], vdtype = DType_F32, vdata = [3, 4 :: real]\<rparr>"
  have "gemm (real_ops id) ?x ?y default_gemm_config =
      (if 1 * 1 < (2 :: nat) ^ 64
       then Inr \<lparr>vshape = [1, 1], vdtype = DType_F32,
                 vdata = gemm_ref (real_ops id) (vdata ?x) (vdata ?y) 1 2 1\<rparr>
       else Inl (LengthError ''tensor shape element count overflow''))"
    by (rule gemm_exact [THEN conjunct1, rule_format])
      (simp_all add: is_matrix_def default_gemm_config_def)
  then show ?thesis by (simp add: gemm_ref_def dot_ref_def upt_rec)
qed

section \<open>Loops over rows\<close>

definition row_write :: "nat \<Rightarrow> 'f list \<Rightarrow> 'f list \<Rightarrow> 'f list" where
  "row_write base vs out = take base out @ vs @ drop (base + length vs) out"

definition row_of :: "'f list \<Rightarrow> nat \<Rightarrow> nat \<Rightarrow> 'f list" where
  "row_of xs columns row = map (\<lambda>c. xs ! (row * columns + c)) [0..<columns]"

lemma row_write_length [simp]:
  "base + length vs \<le> length out \<Longrightarrow> length (row_write base vs out) = length out"
  by (simp add: row_write_def)

lemma row_write_Nil [simp]: "row_write base [] out = out"
  by (simp add: row_write_def)

lemma row_write_nth:
  assumes "base + length vs \<le> length out" "k < length out"
  shows "row_write base vs out ! k
    = (if base \<le> k \<and> k < base + length vs then vs ! (k - base) else out ! k)"
  using assms by (auto simp: row_write_def nth_append)

lemma row_write_snoc:
  assumes "base + length vs < length out"
  shows "(row_write base vs out)[base + length vs := v] = row_write base (vs @ [v]) out"
  using assms by (intro nth_equalityI) (auto simp: row_write_nth nth_list_update nth_append)

lemma fold_row_cells:
  assumes "\<And>c out'. c < n \<Longrightarrow> length out' = length out \<Longrightarrow>
      f c out' = Inr (out'[base + c := h c (out' ! (base + c))])"
    and "base + n \<le> length out"
  shows "fold_result f [0..<n] out = Inr (row_write base (map (\<lambda>c. h c (out ! (base + c))) [0..<n]) out)"
  using assms
proof (induction n)
  case (Suc n)
  let ?vs = "map (\<lambda>c. h c (out ! (base + c))) [0..<n]"
  have "fold_result f [0..<n] out = Inr (row_write base ?vs out)"
    by (rule Suc.IH) (use Suc.prems in auto)
  moreover have "f n (row_write base ?vs out)
      = Inr ((row_write base ?vs out)[base + n := h n (row_write base ?vs out ! (base + n))])"
    by (rule Suc.prems(1)) (use Suc.prems(2) in simp_all)
  ultimately show ?case
    using Suc.prems(2) row_write_snoc [of base ?vs out] by (simp add: fold_result_append row_write_nth)
qed simp

lemma fold_rows:
  assumes step: "\<And>r out'. r < rows \<Longrightarrow> length out' = rows * columns \<Longrightarrow>
      drop (r * columns) out' = drop (r * columns) out \<Longrightarrow> f r out' = Inr (row_write (r * columns) (g r) out')"
    and len: "\<And>r. r < rows \<Longrightarrow> length (g r) = columns" and out: "length out = rows * columns"
  shows "fold_result f [0..<rows] out = Inr (concat (map g [0..<rows]))"
proof -
  have glen: "length (concat (map g [0..<n])) = n * columns" if "n \<le> rows" for n
    using that by (induction n) (simp_all add: len)
  have "fold_result f [0..<n] out = Inr (concat (map g [0..<n]) @ drop (n * columns) out)"
    if "n \<le> rows" for n
    using that
  proof (induction n)
    case (Suc n)
    let ?o = "concat (map g [0..<n]) @ drop (n * columns) out"
    have "n * columns + columns \<le> rows * columns"
      using Suc.prems mult_le_mono1 [of "Suc n" rows columns] by simp
    then have "f n ?o = Inr (row_write (n * columns) (g n) ?o)"
      using step [of n ?o] Suc.prems by (simp add: glen out)
    with Suc show ?case
      by (simp add: fold_result_append row_write_def glen len add.commute)
  qed simp
  from this [of rows] show ?thesis by (simp add: out)
qed

section \<open>Softmax is the row-wise reference\<close>

definition softmax_vec :: "'f fops \<Rightarrow> 'f list \<Rightarrow> 'f list" where
  "softmax_vec ops v =
     (let maximum = fold (\<lambda>x m. std_max ops m x) v (f_neg_inf ops);
          es = map (\<lambda>x. f_exp ops (f_sub ops x maximum)) v
      in map (\<lambda>e. f_div ops e (fold (\<lambda>e s. f_add ops s e) es (f_zero ops))) es)"

definition softmax_ref :: "'f fops \<Rightarrow> 'f list \<Rightarrow> nat \<Rightarrow> nat \<Rightarrow> 'f list" where
  "softmax_ref ops xs rows columns = concat (map (\<lambda>r. softmax_vec ops (row_of xs columns r)) [0..<rows])"

lemma softmax_vec_length [simp]: "length (softmax_vec ops v) = length v"
  by (simp add: softmax_vec_def Let_def)

lemma row_of_length [simp]: "length (row_of xs columns row) = columns"
  by (simp add: row_of_def)

lemma fold_row_of:
  "fold g (row_of xs columns row) s = fold (\<lambda>c. g (xs ! (row * columns + c))) [0..<columns] s"
  by (simp add: row_of_def fold_map comp_def)

lemma fold_exp_cells:
  assumes xs: "length xs = rows * columns" and r: "row < rows" and out: "length out = rows * columns"
    and n: "n \<le> columns"
  shows "fold_result (exp_cell ops xs columns row m) [0..<n] (out, d)
    = Inr (row_write (row * columns) (map (\<lambda>c. f_exp ops (f_sub ops (xs ! (row * columns + c)) m)) [0..<n]) out,
           fold (\<lambda>c s. f_add ops s (f_exp ops (f_sub ops (xs ! (row * columns + c)) m))) [0..<n] d)"
  using n
proof (induction n)
  case (Suc n)
  let ?vs = "map (\<lambda>c. f_exp ops (f_sub ops (xs ! (row * columns + c)) m)) [0..<n]"
  have i: "row * columns + n < rows * columns" using row_major_less [OF r] Suc.prems by simp
  with Suc row_write_snoc [of "row * columns" ?vs out] show ?case
    by (simp add: fold_result_append exp_cell_def xs out Let_def)
qed simp

lemma softmax_row_exact:
  assumes xs: "length xs = rows * columns" and r: "row < rows" and out: "length out = rows * columns"
  shows "softmax_row ops xs columns row out
    = Inr (row_write (row * columns) (softmax_vec ops (row_of xs columns row)) out)"
proof -
  have i: "row * columns + c < rows * columns" if "c < columns" for c
    using row_major_less [OF r that] .
  have e: "row * columns + columns \<le> rows * columns"
    using r mult_le_mono1 [of "Suc row" rows columns] by simp
  let ?m = "fold (\<lambda>x m. std_max ops m x) (row_of xs columns row) (f_neg_inf ops)"
  let ?es = "map (\<lambda>x. f_exp ops (f_sub ops x ?m)) (row_of xs columns row)"
  let ?d = "fold (\<lambda>e s. f_add ops s e) ?es (f_zero ops)"
  let ?o = "row_write (row * columns) ?es out"
  have 1: "row_max ops xs columns row = Inr ?m"
    unfolding row_max_def fold_row_of by (rule fold_result_total) (simp add: i xs)
  have 2: "fold_result (exp_cell ops xs columns row ?m) [0..<columns] (out, f_zero ops) = Inr (?o, ?d)"
    using fold_exp_cells [OF xs r out order_refl, of ops ?m "f_zero ops"]
    by (simp add: row_of_def fold_map comp_def)
  have "fold_result (divide_cell ops columns row ?d) [0..<columns] ?o
      = Inr (row_write (row * columns) (map (\<lambda>c. f_div ops (?o ! (row * columns + c)) ?d) [0..<columns]) ?o)"
    by (rule fold_row_cells) (use i e in \<open>simp_all add: divide_cell_def out\<close>)
  also have "map (\<lambda>c. f_div ops (?o ! (row * columns + c)) ?d) [0..<columns] = map (\<lambda>x. f_div ops x ?d) ?es"
    using i e by (intro nth_equalityI) (simp_all add: row_write_nth out)
  also have "\<dots> = softmax_vec ops (row_of xs columns row)" by (simp add: softmax_vec_def Let_def)
  also have "row_write (row * columns) (softmax_vec ops (row_of xs columns row)) ?o
      = row_write (row * columns) (softmax_vec ops (row_of xs columns row)) out"
    using e by (intro nth_equalityI) (simp_all add: row_write_nth out)
  finally show ?thesis by (simp add: softmax_row_def 1 2)
qed

lemma softmax_exact:
  assumes "is_matrix t rows columns" "0 < columns"
  shows "softmax ops t = Inr \<lparr>vshape = [rows, columns], vdtype = DType_F32,
    vdata = softmax_ref ops (vdata t) rows columns\<rparr>"
proof -
  have "fold_result (softmax_row ops (vdata t) columns) [0..<rows] (replicate (rows * columns) (f_zero ops))
      = Inr (softmax_ref ops (vdata t) rows columns)"
    unfolding softmax_ref_def
    by (rule fold_rows [where columns = columns]) (use assms in \<open>simp_all add: softmax_row_exact is_matrix_def\<close>)
  with assms show ?thesis
    by (simp add: softmax_def ndim_def is_matrix_def tval_new_matrix)
qed

lemma concat_rows_nth:
  assumes "\<And>r. r < rows \<Longrightarrow> length (g r) = columns" "row < rows" "c < columns"
  shows "concat (map g [0..<rows]) ! (row * columns + c) = g row ! c"
proof -
  have len: "length (concat (map g [0..<n])) = n * columns" if "n \<le> rows" for n
    using that by (induction n) (simp_all add: assms(1))
  have "concat (map g [0..<n]) ! (row * columns + c) = g row ! c" if "row < n" "n \<le> rows" for n
    using that
  proof (induction n)
    case (Suc n)
    show ?case
    proof (cases "row < n")
      case True
      with row_major_less [OF True assms(3)] Suc len [of n] show ?thesis by (simp add: nth_append)
    next
      case False
      with Suc.prems have "row = n" by simp
      with len [of n] Suc.prems assms(3) show ?thesis by (simp add: nth_append)
    qed
  qed simp
  with assms(2) show ?thesis by simp
qed

lemma concat_rows_length:
  assumes "\<And>r. r < rows \<Longrightarrow> length (g r) = columns"
  shows "length (concat (map g [0..<rows])) = rows * columns"
  using assms by (induction rows) simp_all

lemma softmax_ref_length [simp]: "length (softmax_ref ops xs rows columns) = rows * columns"
  unfolding softmax_ref_def by (rule concat_rows_length) simp

lemma fold_add_real: "fold (\<lambda>e s. s + e) es (a :: real) = a + sum_list es"
  by (induction es arbitrary: a) simp_all

lemma softmax_vec_real:
  "softmax_vec (real_ops er) v = map (\<lambda>x. exp x / sum_list (map exp v)) v"
proof -
  have shift: "sum_list (map (\<lambda>x. exp x / exp m) v) = sum_list (map exp v) / exp m" for m :: real
    by (induction v) (simp_all add: add_divide_distrib)
  show ?thesis by (simp add: softmax_vec_def Let_def fold_add_real shift exp_diff comp_def)
qed

lemma sum_exp_pos: "v \<noteq> [] \<Longrightarrow> 0 < sum_list (map exp (v :: real list))"
proof (induction v)
  case (Cons a v)
  have "0 \<le> sum_list (map exp v)" by (rule sum_list_nonneg) auto
  then show ?case by (simp add: add_pos_nonneg)
qed simp

lemma softmax_ref_nth:
  "row < rows \<Longrightarrow> c < columns \<Longrightarrow>
   softmax_ref ops xs rows columns ! (row * columns + c) = softmax_vec ops (row_of xs columns row) ! c"
  unfolding softmax_ref_def by (rule concat_rows_nth) simp_all

text \<open>
  C26: softmax turns every row into a probability distribution: over exact arithmetic the cell
  at column \<open>c\<close> of a row is \<open>exp x\<close> over the sum of the row's exponentials (subtracting the row's
  maximum, which keeps the exponentials from overflowing, cancels), every cell is positive and
  each row sums to 1. The only matrices rejected are those without columns.
\<close>

theorem softmax_distribution:
  assumes t: "is_matrix t rows columns"
  shows "(columns = 0 \<longrightarrow> softmax (real_ops er) t
            = Inl (InvalidArgument ''softmax requires non-empty rows''))
    \<and> (0 < columns \<longrightarrow> (\<exists>w. softmax (real_ops er) t = Inr w \<and> is_matrix w rows columns \<and>
        (\<forall>row < rows.
           (\<forall>c < columns.
              vdata w ! (row * columns + c)
                = exp (vdata t ! (row * columns + c))
                    / (\<Sum>j \<leftarrow> [0..<columns]. exp (vdata t ! (row * columns + j)))
              \<and> 0 < vdata w ! (row * columns + c)) \<and>
           (\<Sum>c \<leftarrow> [0..<columns]. vdata w ! (row * columns + c)) = 1)))"
proof (intro conjI impI)
  assume "columns = 0"
  with t show "softmax (real_ops er) t = Inl (InvalidArgument ''softmax requires non-empty rows'')"
    by (simp add: softmax_def ndim_def is_matrix_def)
next
  assume c0: "0 < columns"
  let ?d = "softmax_ref (real_ops er) (vdata t) rows columns"
  let ?w = "\<lparr>vshape = [rows, columns], vdtype = DType_F32, vdata = ?d\<rparr>"
  let ?x = "\<lambda>row c. vdata t ! (row * columns + c)"
  have cell: "?d ! (row * columns + c) = exp (?x row c) / (\<Sum>j \<leftarrow> [0..<columns]. exp (?x row j))"
    if "row < rows" "c < columns" for row c
    using that by (simp add: softmax_ref_nth softmax_vec_real row_of_def comp_def)
  have pos: "0 < (\<Sum>j \<leftarrow> [0..<columns]. exp (?x row j))" for row
    using sum_exp_pos [of "row_of (vdata t) columns row"] c0
    by (simp add: row_of_def comp_def)
  have "(\<Sum>c \<leftarrow> [0..<columns]. ?d ! (row * columns + c)) = 1" if "row < rows" for row
  proof -
    have "(\<Sum>c \<leftarrow> [0..<columns]. ?d ! (row * columns + c))
        = (\<Sum>c \<leftarrow> [0..<columns]. exp (?x row c) / (\<Sum>j \<leftarrow> [0..<columns]. exp (?x row j)))"
      by (intro arg_cong [where f = sum_list] map_cong refl cell that) simp
    also have "\<dots> = (\<Sum>c \<leftarrow> [0..<columns]. exp (?x row c)) / (\<Sum>j \<leftarrow> [0..<columns]. exp (?x row j))"
      by (simp add: divide_inverse sum_list_mult_const)
    finally show ?thesis using pos [of row] by simp
  qed
  moreover have "is_matrix ?w rows columns" using t by (simp add: is_matrix_def)
  ultimately show "\<exists>w. softmax (real_ops er) t = Inr w \<and> is_matrix w rows columns \<and>
        (\<forall>row < rows.
           (\<forall>c < columns. vdata w ! (row * columns + c)
                = exp (?x row c) / (\<Sum>j \<leftarrow> [0..<columns]. exp (?x row j))
              \<and> 0 < vdata w ! (row * columns + c)) \<and>
           (\<Sum>c \<leftarrow> [0..<columns]. vdata w ! (row * columns + c)) = 1)"
    using softmax_exact [OF t c0, of "real_ops er"] cell pos
    by (intro exI [of _ ?w]) auto
qed

theorem softmax_distribution_witness:
  "\<exists>w. softmax (real_ops id) \<lparr>vshape = [1, 2], vdtype = DType_F32, vdata = [0, 0]\<rparr> = Inr w
     \<and> vdata w ! 1 = 1 / 2"
proof -
  let ?t = "\<lparr>vshape = [1, 2], vdtype = DType_F32, vdata = [0, 0 :: real]\<rparr>"
  have t: "is_matrix ?t 1 2" by (simp add: is_matrix_def)
  obtain w where w: "softmax (real_ops id) ?t = Inr w"
    "\<forall>row < 1. (\<forall>c < 2. vdata w ! (row * 2 + c)
        = exp (vdata ?t ! (row * 2 + c)) / (\<Sum>j \<leftarrow> [0..<2]. exp (vdata ?t ! (row * 2 + j)))
        \<and> 0 < vdata w ! (row * 2 + c)) \<and> (\<Sum>c \<leftarrow> [0..<2]. vdata w ! (row * 2 + c)) = 1"
    using softmax_distribution [OF t, of id, THEN conjunct2] by fastforce
  from w(2) [rule_format, of 0, THEN conjunct1, rule_format, of 1]
  have "vdata w ! 1 = 1 / 2" by (simp add: upt_rec)
  with w(1) show ?thesis by blast
qed

section \<open>Attention is the reference\<close>

definition scores_ref ::
  "'f fops \<Rightarrow> 'f list \<Rightarrow> 'f list \<Rightarrow> nat \<Rightarrow> nat \<Rightarrow> nat \<Rightarrow> bool \<Rightarrow> 'f \<Rightarrow> 'f list" where
  "scores_ref ops q k depth queries keys masked scale =
     map (\<lambda>i. let row = i div keys; column = i mod keys
              in if masked \<and> row < column then f_dec ops (- 1) 9
                 else f_mul ops
                   (fold (\<lambda>j acc. f_add ops acc
                      (f_mul ops (q ! (row * depth + j)) (k ! (column * depth + j)))) [0..<depth] (f_zero ops))
                   scale)
       [0..<queries * keys]"

lemma div_mod_row_major:
  fixes columns :: nat
  assumes "k < rows * columns"
  shows "k div columns < rows" "k mod columns < columns" "k div columns * columns + k mod columns = k"
proof -
  from assms have "columns \<noteq> 0" by (cases columns) simp_all
  with assms show "k div columns < rows" "k mod columns < columns" "k div columns * columns + k mod columns = k"
    by (simp_all add: less_mult_imp_div_less)
qed

lemma filter_pairs:
  assumes "row < rows" "column < columns"
  shows "filter (\<lambda>x. x = (row, column)) (concat (map (\<lambda>r. map (Pair r) [m r..<columns]) [0..<rows]))
    = (if m row \<le> column then [(row, column)] else [])"
proof -
  have inner: "filter (\<lambda>x. x = (row, column)) (map (Pair r) [a..<n])
      = (if r = row \<and> a \<le> column \<and> column < n then [(row, column)] else [])" for r a n
    by (induction n) auto
  have "filter (\<lambda>x. x = (row, column)) (concat (map (\<lambda>r. map (Pair r) [m r..<columns]) [0..<rows]))
      = concat (map (\<lambda>r. if r = row \<and> m row \<le> column then [(row, column)] else []) [0..<rows])"
    using assms(2) by (auto simp: filter_concat comp_def inner simp del: filter_map
        intro!: arg_cong [where f = concat])
  also have "\<dots> = (if m row \<le> column then [(row, column)] else [])"
    using assms(1) by (simp only: concat_select le0 simp_thms)
  finally show ?thesis .
qed

lemma filter_pairs_at:
  assumes "k < rows * columns"
    "\<And>r c. r < rows \<Longrightarrow> c < columns \<Longrightarrow> idx (r, c) = k \<longleftrightarrow> r = row \<and> c = column"
    "row < rows" "column < columns"
  shows "filter (\<lambda>x. idx x = k) (concat (map (\<lambda>r. map (Pair r) [m r..<columns]) [0..<rows]))
    = (if m row \<le> column then [(row, column)] else [])"
proof -
  have "filter (\<lambda>x. idx x = k) (concat (map (\<lambda>r. map (Pair r) [m r..<columns]) [0..<rows]))
      = filter (\<lambda>x. x = (row, column)) (concat (map (\<lambda>r. map (Pair r) [m r..<columns]) [0..<rows]))"
  proof (rule filter_cong [OF refl])
    fix x assume "x \<in> set (concat (map (\<lambda>r. map (Pair r) [m r..<columns]) [0..<rows]))"
    then obtain r c where x: "x = (r, c)" "r < rows" "c < columns" by auto
    with assms(2) [of r c] show "idx x = k \<longleftrightarrow> x = (row, column)" by simp
  qed
  with filter_pairs [OF assms(3,4)] show ?thesis by simp
qed

lemma transpose_exact:
  assumes xs: "length xs = rows * columns" and out: "length out = columns * rows"
  shows "transpose_loops xs rows columns out
    = Inr (map (\<lambda>k. xs ! (k mod rows * columns + k div rows)) [0..<columns * rows])"
proof -
  let ?ts = "concat (map (\<lambda>r. map (Pair r) [0..<columns]) [0..<rows])"
  let ?idx = "\<lambda>x. snd x * rows + fst x" and ?F = "\<lambda>x (_ :: 'a). xs ! (fst x * columns + snd x)"
  let ?f = "\<lambda>x out. bind_result (tget xs (fst x * columns + snd x)) (tset out (snd x * rows + fst x))"
  have eq: "transpose_loops xs rows columns = fold_result ?f ?ts"
    by (simp add: transpose_loops_def fold_result_concat fold_result_map)
  have idx: "?idx x < length out" if "x \<in> set ?ts" for x
    using that row_major_less out by auto
  have step: "?f x o' = Inr (cell_update ?idx ?F x o')" if "x \<in> set ?ts" "length o' = length out" for x o'
    using idx [OF that(1)] that row_major_less [of "fst x" rows "snd x" columns]
    by (auto simp: xs cell_update_def)
  have pick: "fold ?F (filter (\<lambda>x. ?idx x = k) ?ts) v = xs ! (k mod rows * columns + k div rows)"
    if k: "k < columns * rows" for k v
  proof -
    have rc: "k mod rows < rows" "k div rows < columns"
      using div_mod_row_major [OF k] by simp_all
    have "filter (\<lambda>x. ?idx x = k) ?ts = [(k mod rows, k div rows)]"
    proof (rule filter_pairs_at [where m = "\<lambda>_. 0", THEN trans])
      show "k < rows * columns" using k by (simp add: mult.commute)
      show "?idx (r, c) = k \<longleftrightarrow> r = k mod rows \<and> c = k div rows" if "r < rows" "c < columns" for r c
        using that div_mod_row_major [OF k] by auto
    qed (use rc in simp_all)
    then show ?thesis by simp
  qed
  have "fold_result ?f ?ts out
      = Inr (map (\<lambda>k. fold ?F (filter (\<lambda>x. ?idx x = k) ?ts) (out ! k)) [0..<length out])"
    by (rule fold_cells) (use idx step in blast)+
  also have "map (\<lambda>k. fold ?F (filter (\<lambda>x. ?idx x = k) ?ts) (out ! k)) [0..<length out]
      = map (\<lambda>k. xs ! (k mod rows * columns + k div rows)) [0..<columns * rows]"
    unfolding out by (rule map_cong [OF refl]) (simp only: pick set_upt atLeastLessThan_iff)
  finally show ?thesis by (simp only: eq)
qed

lemma scale_exact: "scale_scores ops s out = Inr (map (\<lambda>x. f_mul ops x s) out)"
proof -
  have "scale_scores ops s out
      = Inr (row_write 0 (map (\<lambda>c. f_mul ops (out ! (0 + c)) s) [0..<length out]) out)"
    unfolding scale_scores_def
    by (rule fold_row_cells) simp_all
  also have "row_write 0 (map (\<lambda>c. f_mul ops (out ! (0 + c)) s) [0..<length out]) out
      = map (\<lambda>x. f_mul ops x s) out"
    by (intro nth_equalityI) (simp_all add: row_write_nth)
  finally show ?thesis .
qed

lemma mask_exact:
  assumes out: "length out = rows * columns"
  shows "mask_scores ops rows columns out
    = Inr (map (\<lambda>k. if k div columns < k mod columns then f_dec ops (- 1) 9 else out ! k) [0..<rows * columns])"
proof -
  let ?ts = "concat (map (\<lambda>r. map (Pair r) [r + 1..<columns]) [0..<rows])"
  let ?idx = "\<lambda>x. fst x * columns + snd x" and ?F = "\<lambda>x _. f_dec ops (- 1) 9"
  let ?f = "\<lambda>x out. tset out (fst x * columns + snd x) (f_dec ops (- 1) 9)"
  have eq: "mask_scores ops rows columns = fold_result ?f ?ts"
    by (simp add: mask_scores_def fold_result_concat fold_result_map)
  have idx: "?idx x < length out" if "x \<in> set ?ts" for x
    using that row_major_less out by auto
  have step: "?f x o' = Inr (cell_update ?idx ?F x o')" if "x \<in> set ?ts" "length o' = length out" for x o'
    using idx [OF that(1)] that by (simp add: cell_update_def)
  have pick: "fold ?F (filter (\<lambda>x. ?idx x = k) ?ts) v
      = (if k div columns < k mod columns then f_dec ops (- 1) 9 else v)"
    if k: "k < rows * columns" for k v
  proof -
    note d = div_mod_row_major [OF k]
    have "filter (\<lambda>x. ?idx x = k) ?ts
        = (if k div columns + 1 \<le> k mod columns then [(k div columns, k mod columns)] else [])"
      by (rule filter_pairs_at [OF k _ d(1,2)]) auto
    then show ?thesis by simp
  qed
  have "fold_result ?f ?ts out
      = Inr (map (\<lambda>k. fold ?F (filter (\<lambda>x. ?idx x = k) ?ts) (out ! k)) [0..<length out])"
    by (rule fold_cells) (use idx step in blast)+
  also have "map (\<lambda>k. fold ?F (filter (\<lambda>x. ?idx x = k) ?ts) (out ! k)) [0..<length out]
      = map (\<lambda>k. if k div columns < k mod columns then f_dec ops (- 1) 9 else out ! k) [0..<rows * columns]"
    unfolding out by (rule map_cong [OF refl]) (simp only: pick set_upt atLeastLessThan_iff)
  finally show ?thesis by (simp only: eq)
qed

lemma attention_matrix:
  assumes q: "is_matrix query queries depth" and k: "is_matrix key keys depth"
    and v: "is_matrix value keys columns" and keys: "0 < keys"
    and fits: "queries * keys < 2 ^ 64" "queries * columns < 2 ^ 64"
  shows "attention ops query key value config
    = Inr \<lparr>vshape = [queries, columns], vdtype = DType_F32,
        vdata = gemm_ref ops
          (softmax_ref ops
             (scores_ref ops (vdata query) (vdata key) depth queries keys (causal config)
                (if f_eq ops (ascale config) (f_zero ops)
                 then f_div ops (f_dec ops 1 0) (f_sqrt ops (f_of_nat ops depth))
                 else ascale config))
             queries keys)
          (vdata value) queries keys columns\<rparr>"
proof -
  let ?scale = "if f_eq ops (ascale config) (f_zero ops)
      then f_div ops (f_dec ops 1 0) (f_sqrt ops (f_of_nat ops depth)) else ascale config"
  let ?kt = "map (\<lambda>i. vdata key ! (i mod keys * depth + i div keys)) [0..<depth * keys]"
  let ?kT = "\<lparr>vshape = [depth, keys], vdtype = DType_F32, vdata = ?kt\<rparr>"
  let ?raw = "gemm_ref ops (vdata query) ?kt queries depth keys"
  let ?scaled = "map (\<lambda>x. f_mul ops x ?scale) ?raw"
  let ?masked = "map (\<lambda>i. if i div keys < i mod keys then f_dec ops (- 1) 9 else ?scaled ! i) [0..<queries * keys]"
  let ?scores = "scores_ref ops (vdata query) (vdata key) depth queries keys (causal config) ?scale"
  let ?M = "\<lambda>d. \<lparr>vshape = [queries, keys], vdtype = DType_F32, vdata = d\<rparr>"
  have tile: "gtile default_gemm_config < 2 ^ 31" by (simp add: default_gemm_config_def)
  have kT: "is_matrix ?kT depth keys" using k by (simp add: is_matrix_def mult.commute)
  have bounds: "queries < 2 ^ 64" "keys < 2 ^ 64" using q k by (simp_all add: is_matrix_def)
  have scores: "is_matrix (?M ?scores) queries keys"
    using bounds fits by (simp add: is_matrix_def scores_ref_def)
  have raw: "?raw ! i = fold (\<lambda>j acc. f_add ops acc (f_mul ops (vdata query ! (i div keys * depth + j))
      (vdata key ! (i mod keys * depth + j)))) [0..<depth] (f_zero ops)" if i: "i < queries * keys" for i
  proof -
    have kt: "?kt ! (j * keys + i mod keys) = vdata key ! (i mod keys * depth + j)" if "j < depth" for j
    proof -
      have "i mod keys < keys" using keys by simp
      moreover from row_major_less [OF that this] have "j * keys + i mod keys < depth * keys" .
      ultimately show ?thesis by (simp add: add.commute)
    qed
    from i show ?thesis unfolding gemm_ref_def dot_ref_def by (auto simp: kt intro!: fold_cong)
  qed
  have masked: "(if causal config then ?masked else ?scaled) = ?scores"
    by (intro nth_equalityI) (auto simp: scores_ref_def Let_def raw)
  have "attention ops query key value config
      = bind_result (gemm ops query ?kT default_gemm_config) (\<lambda>scores.
          bind_result (scale_scores ops ?scale (vdata scores)) (\<lambda>d.
          bind_result (if causal config then mask_scores ops (vshape scores ! 0) (vshape scores ! 1) d
            else Inr d) (\<lambda>d.
          bind_result (softmax ops (scores\<lparr>vdata := d\<rparr>))
            (\<lambda>weights. gemm ops weights value default_gemm_config))))"
    using q k v transpose_exact [of "vdata key" keys depth "replicate (depth * keys) (f_zero ops)"]
    by (simp add: attention_def ndim_def is_matrix_def tval_new_matrix mult.commute [of depth])
  also have "\<dots> = bind_result (softmax ops (?M (if causal config then ?masked else ?scaled)))
      (\<lambda>weights. gemm ops weights value default_gemm_config)"
    using fits mask_exact [of ?scaled queries keys ops]
    by (simp add: gemm_matrix [OF tile q kT] scale_exact)
  also have "\<dots> = gemm ops (?M (softmax_ref ops ?scores queries keys)) value default_gemm_config"
    by (simp only: masked softmax_exact [OF scores keys] bind_result.simps tval.simps)
  also have "\<dots> = Inr \<lparr>vshape = [queries, columns], vdtype = DType_F32,
      vdata = gemm_ref ops (softmax_ref ops ?scores queries keys) (vdata value) queries keys columns\<rparr>"
    using bounds fits gemm_matrix [OF tile _ v, of "?M (softmax_ref ops ?scores queries keys)" queries ops]
    by (simp add: is_matrix_def)
  finally show ?thesis .
qed

text \<open>
  C20: attention, loop for loop, is the product of softmax (Q times the transpose of K, scaled and masked) and V: the score of query \<open>i\<close>
  for key \<open>j\<close> is their accumulated dot product times the scale (1 over the square root of the
  depth when the configuration has 0), or \<open>-1e9\<close> when causal and the key comes later. The
  equation holds for every arithmetic, so bit for bit.
\<close>

theorem attention_exact:
  assumes q: "is_matrix query queries depth" and k: "is_matrix key keys depth"
    and v: "is_matrix value keys columns" and keys: "0 < keys"
    and fits: "queries * keys < 2 ^ 64" "queries * columns < 2 ^ 64"
  shows "attention ops query key value config
    = Inr \<lparr>vshape = [queries, columns], vdtype = DType_F32,
        vdata = gemm_ref ops
          (softmax_ref ops
             (scores_ref ops (vdata query) (vdata key) depth queries keys (causal config)
                (if f_eq ops (ascale config) (f_zero ops)
                 then f_div ops (f_dec ops 1 0) (f_sqrt ops (f_of_nat ops depth))
                 else ascale config))
             queries keys)
          (vdata value) queries keys columns\<rparr>"
  by (rule attention_matrix [OF q k v keys fits])

theorem attention_exact_witness:
  "\<exists>w. attention (real_ops id) \<lparr>vshape = [1, 1], vdtype = DType_F32, vdata = [2]\<rparr>
       \<lparr>vshape = [1, 1], vdtype = DType_F32, vdata = [3]\<rparr>
       \<lparr>vshape = [1, 1], vdtype = DType_F32, vdata = [7]\<rparr>
       \<lparr>atile = 64, ascale = 0, causal = True\<rparr> = Inr w \<and> vshape w = [1, 1]"
proof -
  let ?m = "\<lambda>x. \<lparr>vshape = [1, 1], vdtype = DType_F32, vdata = [x :: real]\<rparr>"
  have m: "is_matrix (?m x) 1 1" for x by (simp add: is_matrix_def)
  have b: "0 < (1 :: nat)" "1 * 1 < (2 :: nat) ^ 64" by simp_all
  show ?thesis
    unfolding attention_exact [OF m m m b b(2)] by simp
qed

section \<open>Layer normalisation is the reference\<close>

definition norm_vec :: "'f fops \<Rightarrow> 'f list \<Rightarrow> 'f list \<Rightarrow> 'f \<Rightarrow> 'f list \<Rightarrow> 'f list" where
  "norm_vec ops gamma beta epsilon v =
     (let n = f_of_nat ops (length v);
          mean = f_div ops (fold (\<lambda>x s. f_add ops s x) v (f_zero ops)) n;
          variance = f_div ops
            (fold (\<lambda>x s. f_add ops s (f_mul ops (f_sub ops x mean) (f_sub ops x mean))) v (f_zero ops)) n
      in map (\<lambda>c. f_add ops (f_mul ops
             (f_div ops (f_sub ops (v ! c) mean) (f_sqrt ops (f_add ops variance epsilon))) (gamma ! c))
             (beta ! c)) [0..<length v])"

lemma norm_vec_length [simp]: "length (norm_vec ops gamma beta epsilon v) = length v"
  by (simp add: norm_vec_def Let_def)

lemma row_sum_exact:
  assumes "length xs = rows * columns" "row < rows"
  shows "row_sum ops g xs columns row
    = Inr (fold (\<lambda>x s. f_add ops s (g x)) (row_of xs columns row) (f_zero ops))"
  unfolding row_sum_def fold_row_of
  by (rule fold_result_total) (use assms row_major_less in \<open>simp_all\<close>)

lemma norm_row_exact:
  assumes xs: "length xs = rows * columns" and r: "row < rows" and out: "length out = rows * columns"
    and gb: "length gamma = columns" "length beta = columns"
  shows "norm_row ops xs gamma beta epsilon columns row out
    = Inr (row_write (row * columns) (norm_vec ops gamma beta epsilon (row_of xs columns row)) out)"
proof -
  have i: "row * columns + c < rows * columns" if "c < columns" for c
    using row_major_less [OF r that] .
  have e: "row * columns + columns \<le> rows * columns"
    using r mult_le_mono1 [of "Suc row" rows columns] by simp
  let ?v = "row_of xs columns row"
  let ?mean = "f_div ops (fold (\<lambda>x s. f_add ops s x) ?v (f_zero ops)) (f_of_nat ops columns)"
  let ?var = "f_div ops (fold (\<lambda>x s. f_add ops s (f_mul ops (f_sub ops x ?mean) (f_sub ops x ?mean))) ?v
      (f_zero ops)) (f_of_nat ops columns)"
  let ?h = "\<lambda>c. f_add ops (f_mul ops (f_div ops (f_sub ops (xs ! (row * columns + c)) ?mean)
      (f_sqrt ops (f_add ops ?var epsilon))) (gamma ! c)) (beta ! c)"
  have "fold_result (norm_cell ops xs gamma beta epsilon columns row ?mean ?var) [0..<columns] out
      = Inr (row_write (row * columns) (map (\<lambda>c. ?h c) [0..<columns]) out)"
    by (rule fold_row_cells [where h = "\<lambda>c _. ?h c"])
      (use i e gb in \<open>simp_all add: norm_cell_def xs out Let_def\<close>)
  moreover have "map (\<lambda>c. ?h c) [0..<columns] = norm_vec ops gamma beta epsilon ?v"
    by (intro nth_equalityI) (simp_all add: norm_vec_def Let_def row_of_def)
  ultimately show ?thesis
    by (simp add: norm_row_def row_sum_exact [OF xs r] Let_def)
qed

text \<open>
  layer normalisation, loop for loop, replaces each row by its normalised form: every cell
  has the row's mean subtracted, is divided by the root of the row's variance plus epsilon,
  and is scaled and shifted by its column's gamma and beta. It holds for every arithmetic, so
  bit for bit; an epsilon that is not positive and finite is rejected.
\<close>

theorem layer_norm_exact:
  assumes x: "is_matrix input rows columns"
    and g: "numel (vshape gamma) = Inr columns" "length (vdata gamma) = columns"
    and b: "numel (vshape beta) = Inr columns" "length (vdata beta) = columns"
  shows "layer_norm ops input gamma beta epsilon
    = (if f_less ops (f_zero ops) epsilon \<and> f_finite ops epsilon
       then Inr \<lparr>vshape = [rows, columns], vdtype = DType_F32,
              vdata = concat (map (\<lambda>r. norm_vec ops (vdata gamma) (vdata beta) epsilon
                                       (row_of (vdata input) columns r)) [0..<rows])\<rparr>
       else Inl (InvalidArgument ''layer_norm epsilon must be finite and positive''))"
proof -
  have "fold_result (norm_row ops (vdata input) (vdata gamma) (vdata beta) epsilon columns) [0..<rows]
        (replicate (rows * columns) (f_zero ops))
      = Inr (concat (map (\<lambda>r. norm_vec ops (vdata gamma) (vdata beta) epsilon
          (row_of (vdata input) columns r)) [0..<rows]))"
    by (rule fold_rows [where columns = columns])
      (use x g b in \<open>simp_all add: norm_row_exact [where rows = rows] is_matrix_def\<close>)
  with x g b show ?thesis
    by (simp add: layer_norm_def ndim_def is_matrix_def tval_new_matrix)
qed

theorem layer_norm_exact_witness:
  "layer_norm (real_ops id) \<lparr>vshape = [1, 2], vdtype = DType_F32, vdata = [1, 3]\<rparr>
     \<lparr>vshape = [2], vdtype = DType_F32, vdata = [1, 1]\<rparr>
     \<lparr>vshape = [2], vdtype = DType_F32, vdata = [0, 5]\<rparr> 3
   = Inr \<lparr>vshape = [1, 2], vdtype = DType_F32, vdata = [- 1 / 2, 11 / 2]\<rparr>"
proof -
  have n: "numel [2] = Inr 2" by (simp add: numel_def size_max_def wmul_def)
  have s: "sqrt 4 = 2" using real_sqrt_abs [of 2] by simp
  show ?thesis
    by (subst layer_norm_exact [where rows = 1 and columns = 2])
      (simp_all add: is_matrix_def n norm_vec_def row_of_def upt_rec Let_def s)
qed

end
