(* ===== verification/Precision.thy ===== *)
theory Precision
  imports Kernels
begin

text \<open>
  Comparing two tensors (include/gpuforge/precision.hpp, src/precision.cpp): the error
  statistics, the acceptance test, the tensor-core shape test and the printed report. Printing
  a \<open>float\<close> is a parameter.
\<close>

record 'f error_stats =
  max_abs :: 'f
  mean_abs :: 'f
  max_rel :: 'f
  err_count :: nat

definition no_errors :: "'f fops \<Rightarrow> 'f error_stats" where
  "no_errors ops = \<lparr>max_abs = f_dec ops 0 0, mean_abs = f_dec ops 0 0, max_rel = f_dec ops 0 0, err_count = 0\<rparr>"

definition pass :: "'f fops \<Rightarrow> 'f error_stats \<Rightarrow> 'f \<Rightarrow> bool" where
  "pass ops s tol \<longleftrightarrow> f_less ops (max_abs s) tol \<or> f_eq ops (max_abs s) tol"

definition compare_step ::
  "'f fops \<Rightarrow> 'f list \<Rightarrow> 'f list \<Rightarrow> 'f \<Rightarrow> nat \<Rightarrow> 'f error_stats \<Rightarrow> 'f error_stats result" where
  "compare_step ops xs ys epsilon index stats =
     bind_result (tget xs index) (\<lambda>x. bind_result (tget ys index) (\<lambda>y.
       let absolute = f_abs ops (f_sub ops x y);
           relative = f_div ops absolute (f_add ops (f_abs ops y) epsilon)
       in Inr (stats\<lparr>max_abs := std_max ops (max_abs stats) absolute,
                     mean_abs := f_add ops (mean_abs stats) absolute,
                     max_rel := std_max ops (max_rel stats) relative\<rparr>)))"

definition compare :: "'f fops \<Rightarrow> 'f tval \<Rightarrow> 'f tval \<Rightarrow> 'f \<Rightarrow> 'f error_stats result" where
  "compare ops expected actual epsilon =
     (if vshape expected \<noteq> vshape actual
      then Inl (InvalidArgument ''compare requires equal tensor shapes'')
      else bind_result (numel (vshape expected)) (\<lambda>n.
        bind_result
          (fold_result (compare_step ops (vdata expected) (vdata actual) epsilon) [0..<n]
             ((no_errors ops)\<lparr>err_count := n\<rparr>))
          (\<lambda>stats. Inr (if err_count stats \<noteq> 0
             then stats\<lparr>mean_abs := f_div ops (mean_abs stats) (f_of_nat ops (err_count stats))\<rparr>
             else stats))))"

definition tensor_core_compatible :: "'f tval \<Rightarrow> 'f tval \<Rightarrow> int \<Rightarrow> bool" where
  "tensor_core_compatible lhs rhs tile =
     (if tile \<le> 0 \<or> ndim lhs \<noteq> 2 \<or> ndim rhs \<noteq> 2 then False
      else vshape lhs ! 1 = vshape rhs ! 0
        \<and> vshape lhs ! 0 mod u64_of_int tile = 0
        \<and> vshape lhs ! 1 mod u64_of_int tile = 0
        \<and> vshape rhs ! 1 mod u64_of_int tile = 0)"

definition precision_report :: "('f \<Rightarrow> string) \<Rightarrow> 'f error_stats \<Rightarrow> string" where
  "precision_report print s =
     ''count='' @ nat_to_string (err_count s) @ '' max_abs='' @ print (max_abs s)
       @ '' mean_abs='' @ print (mean_abs s) @ '' max_rel='' @ print (max_rel s)"

section \<open>What the statistics are\<close>

definition abs_errors :: "real tval \<Rightarrow> real tval \<Rightarrow> real list" where
  "abs_errors a b = map (\<lambda>i. \<bar>vdata a ! i - vdata b ! i\<bar>) [0..<length (vdata a)]"

lemma fold_stats:
  assumes "length xs = n" "length ys = n" "m \<le> n"
  shows "fold_result (compare_step (real_ops er) xs ys eps) [0..<m] s
    = Inr (s\<lparr>max_abs := fold (\<lambda>v a. std_max (real_ops er) a v) (map (\<lambda>i. \<bar>xs ! i - ys ! i\<bar>) [0..<m]) (max_abs s),
             mean_abs := mean_abs s + sum_list (map (\<lambda>i. \<bar>xs ! i - ys ! i\<bar>) [0..<m]),
             max_rel := fold (\<lambda>v a. std_max (real_ops er) a v)
                (map (\<lambda>i. \<bar>xs ! i - ys ! i\<bar> / (\<bar>ys ! i\<bar> + eps)) [0..<m]) (max_rel s)\<rparr>)"
  using assms
proof (induction m)
  case (Suc m)
  then show ?case by (simp add: fold_result_append compare_step_def Let_def)
qed simp

text \<open>
  over exact arithmetic the comparison accepts exactly the tensors that agree within the
  tolerance: \<open>pass tol\<close> holds if and only if every element differs by at most \<open>tol\<close>
  (\<open>tol\<close> not negative); the maximum is one of the differences (or 0) and the mean is their
  average. Shapes that differ are rejected.
\<close>

theorem compare_pass_iff:
  assumes shapes: "vshape a = vshape b" and ok: "tval_ok a" "tval_ok b" and tol: "0 \<le> tol"
  shows "\<exists>s. compare (real_ops er) a b eps = Inr s
    \<and> (pass (real_ops er) s tol \<longleftrightarrow> (\<forall>i < length (vdata a). \<bar>vdata a ! i - vdata b ! i\<bar> \<le> tol))
    \<and> max_abs s \<in> insert 0 (set (abs_errors a b))
    \<and> err_count s = length (vdata a)
    \<and> (err_count s \<noteq> 0 \<longrightarrow> mean_abs s = sum_list (abs_errors a b) / err_count s)"
proof -
  let ?n = "length (vdata a)"
  have n: "numel (vshape a) = Inr ?n" and m: "length (vdata b) = ?n"
    using ok shapes by (simp_all add: tval_ok_def)
  let ?max = "fold (\<lambda>v m. std_max (real_ops er) m v) (abs_errors a b) 0"
  have le: "?max \<le> tol \<longleftrightarrow> (\<forall>v \<in> set (abs_errors a b). v \<le> tol)"
    using real_order.fold_max_ge [where er = er and x = 0 and vs = "abs_errors a b"] tol
      real_order.fold_max_in [where er = er and x = 0 and vs = "abs_errors a b"]
    by (auto simp: not_less intro: order_trans)
  have all: "(\<forall>v \<in> set (abs_errors a b). v \<le> tol) \<longleftrightarrow> (\<forall>i < ?n. \<bar>vdata a ! i - vdata b ! i\<bar> \<le> tol)"
    by (auto simp: abs_errors_def)
  obtain s where s: "compare (real_ops er) a b eps = Inr s" "max_abs s = ?max" "err_count s = ?n"
    "?n \<noteq> 0 \<longrightarrow> mean_abs s = sum_list (abs_errors a b) / ?n"
    using n fold_stats [OF refl m order_refl, of er eps "(no_errors (real_ops er))\<lparr>err_count := ?n\<rparr>"]
    by (auto simp: compare_def shapes [symmetric] no_errors_def abs_errors_def)
  show ?thesis
    using s le all real_order.fold_max_in [where er = er and x = 0 and vs = "abs_errors a b"]
    by (intro exI [of _ s]) (auto simp: pass_def)
qed

theorem compare_pass_iff_witness:
  "\<exists>s. compare (real_ops id) \<lparr>vshape = [2], vdtype = DType_F32, vdata = [1, 2]\<rparr>
     \<lparr>vshape = [2], vdtype = DType_F32, vdata = [1, 5]\<rparr> 1 = Inr s \<and> \<not> pass (real_ops id) s 2"
proof -
  let ?a = "\<lparr>vshape = [2], vdtype = DType_F32, vdata = [1, 2 :: real]\<rparr>"
  let ?b = "\<lparr>vshape = [2], vdtype = DType_F32, vdata = [1, 5 :: real]\<rparr>"
  have ok: "tval_ok ?a" "tval_ok ?b" by (simp_all add: tval_ok_def numel_def size_max_def wmul_def)
  have shape: "vshape ?a = vshape ?b" "0 \<le> (2 :: real)" by simp_all
  from compare_pass_iff [OF shape(1) ok shape(2), of id 1]
  obtain s where s: "compare (real_ops id) ?a ?b 1 = Inr s"
    "pass (real_ops id) s 2 \<longleftrightarrow> (\<forall>i < length (vdata ?a). \<bar>vdata ?a ! i - vdata ?b ! i\<bar> \<le> 2)" by blast
  from s(2) have "\<not> pass (real_ops id) s 2" by (simp add: All_less_Suc)
  with s(1) show ?thesis by blast
qed

end
