(* ===== verification/KV_Cache.thy ===== *)
theory KV_Cache
  imports Kernels
begin

text \<open>
  The per-layer key/value cache (include/gpuforge/kv_cache.hpp, src/kv_cache.cpp): one slot per
  layer and token, with a validity bit. \<open>append\<close> clones its arguments, so the tensors in the
  slots are owned by the cache and are modelled as values. The abstraction of the cache is the
  partial function from layer and token to the stored key and value (\<open>kc_lookup\<close>).
\<close>

section \<open>State and operations\<close>

record 'f kv_cache =
  kc_layers :: nat
  kc_heads :: nat
  kc_dim :: nat
  kc_capacity :: nat
  kc_keys :: "'f tval list"
  kc_values :: "'f tval list"
  kc_valid :: "bool list"

definition kv_cache_new :: "'f fops \<Rightarrow> nat \<Rightarrow> nat \<Rightarrow> nat \<Rightarrow> nat \<Rightarrow> 'f kv_cache result" where
  "kv_cache_new ops layers heads head_dim capacity =
     (let slots = wmul layers capacity
      in bind_result
           (fold_result
              (\<lambda>_ s. bind_result (tval_new ops [heads, head_dim] DType_F32)
                       (\<lambda>t. Inr (fst s @ [t], snd s @ [t])))
              [0..<slots] ([], []))
           (\<lambda>(ks, vs). Inr \<lparr>kc_layers = layers, kc_heads = heads, kc_dim = head_dim,
              kc_capacity = capacity, kc_keys = ks, kc_values = vs, kc_valid = replicate slots False\<rparr>))"

definition kc_index :: "'f kv_cache \<Rightarrow> nat \<Rightarrow> nat \<Rightarrow> nat" where
  "kc_index c layer token = wadd (wmul layer (kc_capacity c)) token"

definition kc_append :: "'f kv_cache \<Rightarrow> nat \<Rightarrow> nat \<Rightarrow> 'f tval \<Rightarrow> 'f tval \<Rightarrow> 'f kv_cache result" where
  "kc_append c layer token key value =
     (if layer \<ge> kc_layers c \<or> token \<ge> kc_capacity c
      then Inl (OutOfRange ''KVCache append: invalid layer, token or shape'')
      else bind_result (numel (vshape key)) (\<lambda>nk. bind_result (numel (vshape value)) (\<lambda>nv.
        if nk \<noteq> wmul (kc_heads c) (kc_dim c) \<or> nv \<noteq> nk
        then Inl (OutOfRange ''KVCache append: invalid layer, token or shape'')
        else let index = kc_index c layer token
             in if index \<ge> length (kc_keys c) then Inl UndefinedBehavior
                else Inr (c\<lparr>kc_keys := (kc_keys c)[index := key],
                            kc_values := (kc_values c)[index := value],
                            kc_valid := (kc_valid c)[index := True]\<rparr>))))"

definition copy_element ::
  "'f list \<Rightarrow> 'f list \<Rightarrow> nat \<Rightarrow> nat \<Rightarrow> 'f list \<times> 'f list \<Rightarrow> ('f list \<times> 'f list) result" where
  "copy_element source_key source_value base element s =
     bind_result (bind_result (tget source_key element) (tset (fst s) (base + element))) (\<lambda>ks.
     bind_result (bind_result (tget source_value element) (tset (snd s) (base + element))) (\<lambda>vs.
       Inr (ks, vs)))"

definition copy_token ::
  "'f kv_cache \<Rightarrow> nat \<Rightarrow> nat \<Rightarrow> nat \<Rightarrow> 'f list \<times> 'f list \<Rightarrow> ('f list \<times> 'f list) result" where
  "copy_token c layer begin token s =
     (let index = kc_index c layer token
      in if index \<ge> length (kc_valid c) then Inl UndefinedBehavior
         else if \<not> kc_valid c ! index then Inr s
         else bind_result (numel (vshape (kc_keys c ! index)))
                (\<lambda>n. fold_result
                   (copy_element (vdata (kc_keys c ! index)) (vdata (kc_values c ! index))
                      (wmul (token - begin) n))
                   [0..<n] s))"

definition kc_get :: "'f fops \<Rightarrow> 'f kv_cache \<Rightarrow> nat \<Rightarrow> nat \<Rightarrow> nat \<Rightarrow> ('f tval \<times> 'f tval) result" where
  "kc_get ops c layer begin end' =
     (if layer \<ge> kc_layers c \<or> begin > end' \<or> end' > kc_capacity c
      then Inl (OutOfRange ''KVCache get: invalid range'')
      else bind_result (tval_new ops [end' - begin, wmul (kc_heads c) (kc_dim c)] DType_F32) (\<lambda>keys.
        bind_result (tval_new ops (vshape keys) DType_F32) (\<lambda>values.
        bind_result
          (fold_result (copy_token c layer begin) [begin..<end'] (vdata keys, vdata values))
          (\<lambda>(ks, vs). Inr (keys\<lparr>vdata := ks\<rparr>, values\<lparr>vdata := vs\<rparr>)))))"

definition kc_used :: "'f kv_cache \<Rightarrow> nat" where
  "kc_used c = length (filter (\<lambda>v. v) (kc_valid c))"

definition kc_reset :: "'f kv_cache \<Rightarrow> 'f kv_cache" where
  "kc_reset c = c\<lparr>kc_valid := replicate (length (kc_valid c)) False\<rparr>"

section \<open>Invariant and abstraction\<close>

definition kc_ok :: "'f kv_cache \<Rightarrow> bool" where
  "kc_ok c \<longleftrightarrow>
     kc_layers c * kc_capacity c < 2 ^ 64
     \<and> length (kc_keys c) = kc_layers c * kc_capacity c
     \<and> length (kc_values c) = kc_layers c * kc_capacity c
     \<and> length (kc_valid c) = kc_layers c * kc_capacity c
     \<and> (\<forall>t \<in> set (kc_keys c) \<union> set (kc_values c).
          tval_ok t \<and> length (vdata t) = wmul (kc_heads c) (kc_dim c))"

definition kc_lookup :: "'f kv_cache \<Rightarrow> nat \<Rightarrow> nat \<Rightarrow> ('f list \<times> 'f list) option" where
  "kc_lookup c layer token =
     (let index = layer * kc_capacity c + token
      in if kc_valid c ! index
         then Some (vdata (kc_keys c ! index), vdata (kc_values c ! index)) else None)"

lemma kc_index_exact:
  assumes "kc_ok c" "layer < kc_layers c" "token < kc_capacity c"
  shows "kc_index c layer token = layer * kc_capacity c + token"
    and "layer * kc_capacity c + token < kc_layers c * kc_capacity c"
proof -
  show less: "layer * kc_capacity c + token < kc_layers c * kc_capacity c"
    by (rule row_major_less [OF assms(2,3)])
  with assms(1) have "layer * kc_capacity c + token < 2 ^ 64" by (simp add: kc_ok_def)
  then show "kc_index c layer token = layer * kc_capacity c + token"
    by (simp add: kc_index_def machine_int)
qed

lemma fold_result_pair:
  assumes "\<And>x a b a' b'. x \<in> set xs \<Longrightarrow> g x a = Inr a' \<Longrightarrow> h x b = Inr b' \<Longrightarrow> f x (a, b) = Inr (a', b')"
    and "fold_result g xs a = Inr a'" "fold_result h xs b = Inr b'"
  shows "fold_result f xs (a, b) = Inr (a', b')"
  using assms
proof (induction xs arbitrary: a b)
  case (Cons x xs)
  from Cons.prems(2,3) obtain a1 b1 where 1: "g x a = Inr a1" "fold_result g xs a1 = Inr a'"
    "h x b = Inr b1" "fold_result h xs b1 = Inr b'"
    by (auto simp: result_simps)
  have "fold_result f xs (a1, b1) = Inr (a', b')"
    by (rule Cons.IH [OF _ 1(2,4)]) (use Cons.prems(1) in auto)
  moreover have "f x (a, b) = Inr (a1, b1)" by (rule Cons.prems(1) [OF _ 1(1,3)]) simp
  ultimately show ?case by simp
qed simp

definition copy_row :: "'f list \<Rightarrow> nat \<Rightarrow> nat \<Rightarrow> 'f list \<Rightarrow> 'f list result" where
  "copy_row xs n base = fold_result (\<lambda>e s. bind_result (tget xs e) (tset s (base + e))) [0..<n]"

lemma copy_row_exact:
  assumes "length xs = n" "base + n \<le> length out"
  shows "copy_row xs n base out = Inr (row_write base xs out)"
proof -
  have "copy_row xs n base out = Inr (row_write base (map (\<lambda>c. xs ! c) [0..<n]) out)"
    unfolding copy_row_def
    by (rule fold_row_cells [where h = "\<lambda>c _. xs ! c"]) (use assms in simp_all)
  also have "map (\<lambda>c. xs ! c) [0..<n] = xs" using assms(1) map_nth by blast
  finally show ?thesis .
qed

lemma copy_elements:
  assumes "copy_row xs n base ks = Inr ks'" "copy_row ys n base vs = Inr vs'"
  shows "fold_result (copy_element xs ys base) [0..<n] (ks, vs) = Inr (ks', vs')"
  using assms unfolding copy_row_def
  by (intro fold_result_pair [where g = "\<lambda>e s. bind_result (tget xs e) (tset s (base + e))"
        and h = "\<lambda>e s. bind_result (tget ys e) (tset s (base + e))"])
    (simp_all add: copy_element_def)

section \<open>Facts about the operations\<close>

definition kc_keys_of :: "'f fops \<Rightarrow> 'f kv_cache \<Rightarrow> nat \<Rightarrow> nat \<Rightarrow> 'f list" where
  "kc_keys_of ops c layer token =
     (case kc_lookup c layer token of
        Some (k, v) \<Rightarrow> k | None \<Rightarrow> replicate (wmul (kc_heads c) (kc_dim c)) (f_zero ops))"

definition kc_values_of :: "'f fops \<Rightarrow> 'f kv_cache \<Rightarrow> nat \<Rightarrow> nat \<Rightarrow> 'f list" where
  "kc_values_of ops c layer token =
     (case kc_lookup c layer token of
        Some (k, v) \<Rightarrow> v | None \<Rightarrow> replicate (wmul (kc_heads c) (kc_dim c)) (f_zero ops))"

lemma kc_slot:
  assumes ok: "kc_ok c" and l: "layer < kc_layers c" and t: "token < kc_capacity c"
  shows "tval_ok (kc_keys c ! kc_index c layer token)"
    "length (vdata (kc_keys c ! kc_index c layer token)) = wmul (kc_heads c) (kc_dim c)"
    "length (vdata (kc_values c ! kc_index c layer token)) = wmul (kc_heads c) (kc_dim c)"
    "kc_index c layer token < length (kc_valid c)"
  using ok kc_index_exact [OF ok l t] by (auto simp: kc_ok_def)

lemma kv_cache_new_ok:
  assumes fits: "layers * capacity < 2 ^ 64" and new: "kv_cache_new ops layers heads head_dim capacity = Inr c"
    and dims: "heads < 2 ^ 64" "head_dim < 2 ^ 64"
  shows "kc_ok c \<and> kc_used c = 0 \<and> kc_layers c = layers \<and> kc_capacity c = capacity
    \<and> (\<forall>l < layers. \<forall>t < capacity. kc_lookup c l t = None)"
proof -
  let ?t = "\<lparr>vshape = [heads, head_dim], vdtype = DType_F32,
      vdata = replicate (heads * head_dim) (f_zero ops)\<rparr>"
  let ?f = "\<lambda>(_ :: nat) s. bind_result (tval_new ops [heads, head_dim] DType_F32)
      (\<lambda>t. Inr (fst s @ [t], snd s @ [t]))"
  have loop: "fold_result ?f [0..<n] ([], []) = Inr (ks, vs) \<Longrightarrow>
      length ks = n \<and> length vs = n \<and> (\<forall>t \<in> set ks \<union> set vs. t = ?t) \<and>
      (0 < n \<longrightarrow> heads * head_dim < 2 ^ 64)" for n ks vs
  proof (induction n arbitrary: ks vs)
    case (Suc n)
    then show ?case
      by (auto simp: fold_result_append result_simps tval_new_matrix [OF dims] split: if_splits)
  qed simp
  from new fits obtain ks vs where c: "fold_result ?f [0..<layers * capacity] ([], []) = Inr (ks, vs)"
    "c = \<lparr>kc_layers = layers, kc_heads = heads, kc_dim = head_dim, kc_capacity = capacity,
      kc_keys = ks, kc_values = vs, kc_valid = replicate (layers * capacity) False\<rparr>"
    by (auto simp: kv_cache_new_def Let_def result_simps machine_int)
  have t: "tval_ok ?t \<and> heads * head_dim = wmul heads head_dim" if "heads * head_dim < 2 ^ 64"
    using that by (simp add: tval_ok_def numel_matrix [OF dims] wmul_exact)
  have "tval_ok x \<and> length (vdata x) = wmul heads head_dim" if "x \<in> set ks \<union> set vs" for x
  proof -
    have "x = ?t" using loop [OF c(1)] that by blast
    moreover have "0 < layers * capacity" using loop [OF c(1)] that by (cases "layers * capacity") auto
    ultimately have "heads * head_dim < 2 ^ 64" using loop [OF c(1)] by blast
    with t \<open>x = ?t\<close> show ?thesis by (metis length_replicate tval.select_convs(3))
  qed
  then show ?thesis
    using loop [OF c(1)] fits row_major_less [of _ layers _ capacity]
    by (auto simp: c(2) kc_ok_def kc_used_def kc_lookup_def)
qed

section \<open>Properties\<close>

text \<open>
  \<open>append\<close> refines the update of a finite map: on a well-formed cache it accepts exactly
  the positions inside the cache with a key and a value of \<open>heads * head_dim\<close> elements, keeps
  the cache well-formed, and changes the stored pair of that layer and token and of no other.
\<close>

theorem kc_append_refines:
  assumes ok: "kc_ok c" and key: "tval_ok key" and val: "tval_ok val"
  shows "(if layer < kc_layers c \<and> token < kc_capacity c
            \<and> length (vdata key) = wmul (kc_heads c) (kc_dim c) \<and> length (vdata val) = length (vdata key)
          then \<exists>c'. kc_append c layer token key val = Inr c' \<and> kc_ok c'
            \<and> (\<forall>l < kc_layers c. \<forall>t < kc_capacity c. kc_lookup c' l t
                 = (if l = layer \<and> t = token then Some (vdata key, vdata val) else kc_lookup c l t))
          else kc_append c layer token key val
                 = Inl (OutOfRange ''KVCache append: invalid layer, token or shape''))"
proof (cases "layer < kc_layers c \<and> token < kc_capacity c
    \<and> length (vdata key) = wmul (kc_heads c) (kc_dim c) \<and> length (vdata val) = length (vdata key)")
  case True
  then have l: "layer < kc_layers c" and t: "token < kc_capacity c" by simp_all
  note i = kc_index_exact [OF ok l t]
  let ?i = "layer * kc_capacity c + token"
  let ?c = "c\<lparr>kc_keys := (kc_keys c)[?i := key], kc_values := (kc_values c)[?i := val],
      kc_valid := (kc_valid c)[?i := True]\<rparr>"
  have app: "kc_append c layer token key val = Inr ?c"
    using True i ok key val by (simp add: kc_append_def tval_ok_def kc_ok_def Let_def)
  have "kc_ok ?c"
    using ok True key val i(2) set_update_subset_insert by (fastforce simp: kc_ok_def)
  moreover have "kc_lookup ?c l' t' = (if l' = layer \<and> t' = token then Some (vdata key, vdata val)
      else kc_lookup c l' t')" if "l' < kc_layers c" "t' < kc_capacity c" for l' t'
  proof -
    have "l' * kc_capacity c + t' = ?i \<longleftrightarrow> l' = layer \<and> t' = token"
      using row_major_inj that t by blast
    then show ?thesis using ok i(2) by (auto simp: kc_lookup_def kc_ok_def Let_def)
  qed
  ultimately show ?thesis using True app by (simp only: if_True simp_thms) blast
next
  case False
  then show ?thesis using key val by (auto simp: kc_append_def tval_ok_def)
qed

text \<open>One token of one of the two matrices: its row is copied when the slot is valid.\<close>

definition kc_row :: "'a kv_cache \<Rightarrow> nat \<Rightarrow> nat \<Rightarrow> nat \<Rightarrow> 'a tval list \<Rightarrow> nat \<Rightarrow> 'a list \<Rightarrow> 'a list result" where
  "kc_row c layer begin n src j =
     (if kc_valid c ! kc_index c layer (begin + j)
      then copy_row (vdata (src ! kc_index c layer (begin + j))) n (j * n) else Inr)"

lemma row_fits:
  fixes n :: nat
  assumes "m * n < 2 ^ 64" and "j < m"
  shows "j * n + n \<le> m * n" "j * n < 2 ^ 64"
proof -
  show "j * n + n \<le> m * n" using mult_le_mono1 [of "Suc j" m n] assms(2) by simp
  with assms(1) show "j * n < 2 ^ 64" by linarith
qed

lemma copy_token_rows:
  assumes ok: "kc_ok c" and l: "layer < kc_layers c" and j: "begin + j < kc_capacity c"
    and fits: "j * wmul (kc_heads c) (kc_dim c) < 2 ^ 64"
    and rows: "kc_row c layer begin (wmul (kc_heads c) (kc_dim c)) (kc_keys c) j ks = Inr ks'"
      "kc_row c layer begin (wmul (kc_heads c) (kc_dim c)) (kc_values c) j vs = Inr vs'"
  shows "copy_token c layer begin (begin + j) (ks, vs) = Inr (ks', vs')"
proof -
  let ?n = "wmul (kc_heads c) (kc_dim c)" and ?i = "kc_index c layer (begin + j)"
  note slot = kc_slot [OF ok l j]
  have "numel (vshape (kc_keys c ! ?i)) = Inr ?n" using slot(1,2) by (simp add: tval_ok_def)
  moreover have "wmul j ?n = j * ?n" using fits by (rule wmul_exact)
  ultimately show ?thesis
    using rows slot(4) by (auto simp: copy_token_def kc_row_def Let_def copy_elements split: if_splits)
qed

lemma copy_rows:
  assumes fits: "m * n < 2 ^ 64"
    and src: "\<And>j. j < m \<Longrightarrow> length (vdata (src ! kc_index c layer (begin + j))) = n"
  shows "fold_result (kc_row c layer begin n src) [0..<m] (replicate (m * n) z)
      = Inr (concat (map (\<lambda>j. if kc_valid c ! kc_index c layer (begin + j)
          then vdata (src ! kc_index c layer (begin + j)) else replicate n z) [0..<m]))"
proof (rule fold_rows [where columns = n])
  let ?i = "\<lambda>j. kc_index c layer (begin + j)" and ?zero = "replicate (m * n) z"
  fix j out' assume j: "j < m" "length out' = m * n" "drop (j * n) out' = drop (j * n) ?zero"
  note in_row = row_fits [OF fits j(1)]
  have "take n (drop (j * n) out') = replicate n z" using j(3) in_row(1) by simp
  then have "row_write (j * n) (replicate n z) out' = out'"
    by (metis (no_types) append_take_drop_id drop_drop row_write_def add.commute length_replicate)
  with j src in_row(1)
  show "kc_row c layer begin n src j out'
      = Inr (row_write (j * n) (if kc_valid c ! ?i j then vdata (src ! ?i j) else replicate n z) out')"
    by (simp add: kc_row_def copy_row_exact)
qed (use src in simp_all)

text \<open>
  C39: \<open>get\<close> reads back what was stored: for a range of tokens of a layer it returns two
  matrices with one row per token, the stored key (value) where the slot is valid and zeros
  where it is not.
\<close>

theorem kc_get_exact:
  assumes ok: "kc_ok c" and l: "layer < kc_layers c" and range: "begin \<le> end'" "end' \<le> kc_capacity c"
    and small: "end' < 2 ^ 64" and fits: "(end' - begin) * wmul (kc_heads c) (kc_dim c) < 2 ^ 64"
  shows "kc_get ops c layer begin end' =
    (let shape = [end' - begin, wmul (kc_heads c) (kc_dim c)]
     in Inr (\<lparr>vshape = shape, vdtype = DType_F32,
              vdata = concat (map (kc_keys_of ops c layer) [begin..<end'])\<rparr>,
             \<lparr>vshape = shape, vdtype = DType_F32,
              vdata = concat (map (kc_values_of ops c layer) [begin..<end'])\<rparr>))"
proof -
  let ?n = "wmul (kc_heads c) (kc_dim c)" and ?m = "end' - begin"
  let ?zero = "replicate (?m * ?n) (f_zero ops)"
  let ?K = "concat (map (kc_keys_of ops c layer) [begin..<end'])"
  let ?V = "concat (map (kc_values_of ops c layer) [begin..<end'])"
  have tok: "begin + j < kc_capacity c" if "j < ?m" for j using that range by simp
  note slot = kc_slot [OF ok l tok]
  have upt: "[begin..<end'] = map (\<lambda>j. begin + j) [0..<?m]"
    using range(1) by (intro nth_equalityI) simp_all
  have "fold_result (\<lambda>j. copy_token c layer begin (begin + j)) [0..<?m] (?zero, ?zero) = Inr (?K, ?V)"
  proof (rule fold_result_pair [where g = "kc_row c layer begin ?n (kc_keys c)"
        and h = "kc_row c layer begin ?n (kc_values c)"])
    show "fold_result (kc_row c layer begin ?n (kc_keys c)) [0..<?m] ?zero = Inr ?K"
      using copy_rows [OF fits, of "kc_keys c", OF slot(2)] kc_index_exact [OF ok l tok]
      by (auto simp: upt comp_def kc_keys_of_def kc_lookup_def Let_def intro!: arg_cong [where f = concat])
    show "fold_result (kc_row c layer begin ?n (kc_values c)) [0..<?m] ?zero = Inr ?V"
      using copy_rows [OF fits, of "kc_values c", OF slot(3)] kc_index_exact [OF ok l tok]
      by (auto simp: upt comp_def kc_values_of_def kc_lookup_def Let_def intro!: arg_cong [where f = concat])
  qed (use copy_token_rows [OF ok l tok row_fits(2) [OF fits]] in auto)
  then have loop: "fold_result (copy_token c layer begin) [begin..<end'] (?zero, ?zero) = Inr (?K, ?V)"
    by (simp only: upt fold_result_map)
  have bounds: "?m < 2 ^ 64" "?n < 2 ^ 64" using small by (simp_all add: wmul_def)
  show ?thesis
    using l range fits loop by (simp add: kc_get_def tval_new_matrix [OF bounds] Let_def)
qed


definition sample_cache :: "real kv_cache" where
  "sample_cache =
     \<lparr>kc_layers = 1, kc_heads = 1, kc_dim = 1, kc_capacity = 2,
      kc_keys = [\<lparr>vshape = [1, 1], vdtype = DType_F32, vdata = [7]\<rparr>,
                 \<lparr>vshape = [1, 1], vdtype = DType_F32, vdata = [0]\<rparr>],
      kc_values = [\<lparr>vshape = [1, 1], vdtype = DType_F32, vdata = [8]\<rparr>,
                   \<lparr>vshape = [1, 1], vdtype = DType_F32, vdata = [0]\<rparr>],
      kc_valid = [True, False]\<rparr>"

lemma sample_cache_ok: "kc_ok sample_cache"
  by (simp add: kc_ok_def sample_cache_def tval_ok_def numel_def size_max_def wmul_def)

theorem kc_append_refines_witness:
  "\<exists>c'. kc_append sample_cache 0 1 \<lparr>vshape = [1], vdtype = DType_F32, vdata = [3]\<rparr>
      \<lparr>vshape = [1], vdtype = DType_F32, vdata = [4]\<rparr> = Inr c' \<and> kc_lookup c' 0 1 = Some ([3], [4])"
proof -
  let ?t = "\<lambda>x. \<lparr>vshape = [1], vdtype = DType_F32, vdata = [x :: real]\<rparr>"
  have t: "tval_ok (?t x)" for x by (simp add: tval_ok_def numel_def size_max_def wmul_def)
  from kc_append_refines [OF sample_cache_ok t t, of 0 1 3 4]
  show ?thesis by (auto simp: sample_cache_def wmul_def)
qed

theorem kc_get_exact_witness:
  "kc_get (real_ops id) sample_cache 0 0 2 =
     Inr (\<lparr>vshape = [2, 1], vdtype = DType_F32, vdata = [7, 0]\<rparr>,
          \<lparr>vshape = [2, 1], vdtype = DType_F32, vdata = [8, 0]\<rparr>)"
  by (subst kc_get_exact [OF sample_cache_ok])
    (simp_all add: sample_cache_def wmul_def kc_keys_of_def kc_values_of_def kc_lookup_def
      upt_rec Let_def)

end
