(* ===== verification/Compiler_IR.thy ===== *)
theory Compiler_IR
  imports Tensor_Store
begin

text \<open>
  The compiler's intermediate representation (include/gpuforge/compiler.hpp, the first half of
  src/compiler.cpp): shapes, nodes and modules, as the class \<open>Module\<close> builds and prints them.
  Ids, dimensions and attributes are C++ integers as \<open>int\<close>; \<open>nodes_.at\<close> is the checked access
  \<open>node_at\<close>, and \<open>vec_at\<close> is the unchecked \<open>operator[]\<close>. The literal function \<open>f_dec\<close> with
  exponent 0 is also the conversion of a signed integer to floating point.
\<close>

section \<open>Data\<close>

datatype scalar_type = F32 | F16 | BF16 | I8

datatype layout = RowMajor | ColMajor | Tiled16 | Tiled32

datatype op =
    Op_Parameter
  | Op_Constant
  | Op_MatMul
  | Op_Add
  | Op_Mul
  | Op_Relu
  | Op_Gelu
  | Op_LayerNorm
  | Op_Softmax
  | Op_ReduceSum
  | Op_Cast
  | Op_Reshape

record shape =
  dims :: "int list"
  stype :: scalar_type
  slayout :: layout

record ir_value =
  value_id :: int
  vshape_of :: shape
  value_name :: string

record 'f node =
  node_id :: int
  node_op :: op
  inputs :: "int list"
  node_output :: ir_value
  attrs :: "(string \<times> int) list"
  constant_data :: "'f list"

record 'f ir_module =
  nodes :: "'f node list"
  outputs :: "int list"

definition empty_module :: "'f ir_module" where
  "empty_module = \<lparr>nodes = [], outputs = []\<rparr>"

definition newline :: char where
  "newline = CHR 0x0A"

fun scalar_name :: "scalar_type \<Rightarrow> string" where
  "scalar_name F32 = ''f32''"
| "scalar_name F16 = ''f16''"
| "scalar_name BF16 = ''bf16''"
| "scalar_name I8 = ''i8''"

fun op_name :: "op \<Rightarrow> string" where
  "op_name Op_Parameter = ''parameter''"
| "op_name Op_Constant = ''constant''"
| "op_name Op_MatMul = ''matmul''"
| "op_name Op_Add = ''add''"
| "op_name Op_Mul = ''mul''"
| "op_name Op_Relu = ''relu''"
| "op_name Op_Gelu = ''gelu''"
| "op_name Op_LayerNorm = ''layer_norm''"
| "op_name Op_Softmax = ''softmax''"
| "op_name Op_ReduceSum = ''reduce_sum''"
| "op_name Op_Cast = ''cast''"
| "op_name Op_Reshape = ''reshape''"

definition is_elementwise :: "op \<Rightarrow> bool" where
  "is_elementwise op \<longleftrightarrow> op = Op_Add \<or> op = Op_Mul \<or> op = Op_Relu \<or> op = Op_Gelu \<or> op = Op_Cast"

section \<open>Shapes\<close>

fun elements_loop :: "int list \<Rightarrow> nat \<Rightarrow> nat" where
  "elements_loop [] r = r"
| "elements_loop (d # ds) r =
     (if d < 0 then 0
      else let value = u64_of_int d
           in if value \<noteq> 0 \<and> r > size_max div value then 0 else elements_loop ds (wmul r value))"

definition elements :: "shape \<Rightarrow> nat" where
  "elements s = (if dims s = [] then 0 else elements_loop (dims s) 1)"

fun join_dims :: "int list \<Rightarrow> string" where
  "join_dims [] = []"
| "join_dims [d] = int_to_string d"
| "join_dims (d # ds) = int_to_string d @ '','' @ join_dims ds"

definition shape_str :: "shape \<Rightarrow> string" where
  "shape_str s = ''['' @ join_dims (dims s) @ '']:'' @ scalar_name (stype s)"

definition shape_eq :: "shape \<Rightarrow> shape \<Rightarrow> bool" where
  "shape_eq a b \<longleftrightarrow> dims a = dims b \<and> stype a = stype b \<and> slayout a = slayout b"

section \<open>Modules\<close>

definition vec_at :: "'a list \<Rightarrow> int \<Rightarrow> 'a result" where
  "vec_at xs i = (if 0 \<le> i \<and> i < int (length xs) then Inr (xs ! nat i) else Inl UndefinedBehavior)"

definition node_at :: "'f node list \<Rightarrow> int \<Rightarrow> 'f node result" where
  "node_at ns vid =
     (if u64_of_int vid < length ns then Inr (ns ! u64_of_int vid) else Inl (OutOfRange ''vector::at''))"

definition emit ::
  "'f ir_module \<Rightarrow> op \<Rightarrow> int list \<Rightarrow> shape \<Rightarrow> (string \<times> int) list \<Rightarrow> string \<Rightarrow> int \<times> 'f ir_module" where
  "emit m op ins shape ats name =
     (let vid = i32 (int (length (nodes m)));
          name = (if name = [] then ''v'' @ int_to_string vid else name)
      in (vid, m\<lparr>nodes := nodes m @
             [\<lparr>node_id = vid, node_op = op, inputs = ins,
               node_output = \<lparr>value_id = vid, vshape_of = shape, value_name = name\<rparr>,
               attrs = ats, constant_data = []\<rparr>]\<rparr>))"

definition parameter :: "'f ir_module \<Rightarrow> string \<Rightarrow> shape \<Rightarrow> int \<times> 'f ir_module" where
  "parameter m name shape = emit m Op_Parameter [] shape [] name"

definition constant_empty :: "'f ir_module \<Rightarrow> string \<Rightarrow> shape \<Rightarrow> int \<times> 'f ir_module" where
  "constant_empty m name shape = emit m Op_Constant [] shape [] name"

text \<open>
  The constant with a payload is appended before the payload's size is checked, so the module
  keeps it when the check throws: the result carries the module in both cases.
\<close>

definition constant_with ::
  "'f ir_module \<Rightarrow> string \<Rightarrow> shape \<Rightarrow> 'f list \<Rightarrow> int result \<times> 'f ir_module" where
  "constant_with m name shape data =
     (let (vid, m1) = constant_empty m name shape
      in case node_at (nodes m1) vid of
           Inl e \<Rightarrow> (Inl e, m1)
         | Inr n \<Rightarrow>
             let m2 = m1\<lparr>nodes := (nodes m1)[u64_of_int vid := n\<lparr>constant_data := data\<rparr>]\<rparr>
             in if data \<noteq> [] \<and> length data \<noteq> elements (vshape_of (node_output n))
                then (Inl (InvalidArgument ''constant payload size mismatch''), m2)
                else (Inr vid, m2))"

definition users :: "'f node list \<Rightarrow> int \<Rightarrow> int list" where
  "users ns vid = map node_id (filter (\<lambda>n. vid \<in> set (inputs n)) ns)"

definition set_outputs :: "'f ir_module \<Rightarrow> int list \<Rightarrow> 'f ir_module" where
  "set_outputs m outs = m\<lparr>outputs := outs\<rparr>"

definition print_node :: "'f node \<Rightarrow> string" where
  "print_node n =
     int_to_string (node_id n) @ '' '' @ value_name (node_output n) @ '' = '' @ op_name (node_op n) @ '' <- ''
       @ concat (map (\<lambda>i. ''%'' @ int_to_string i @ '' '') (inputs n))
       @ shape_str (vshape_of (node_output n)) @ [newline]"

definition print_module :: "'f ir_module \<Rightarrow> string" where
  "print_module m = concat (map print_node (nodes m))"

section \<open>Well-formed modules\<close>

text \<open>
  What \<open>emit\<close> establishes when its inputs are ids it returned before: ids count the nodes and
  every input is an earlier node.
\<close>

definition nodes_ok :: "'f node list \<Rightarrow> bool" where
  "nodes_ok ns \<longleftrightarrow>
     length ns < 2 ^ 31
     \<and> (\<forall>i < length ns. node_id (ns ! i) = int i \<and> value_id (node_output (ns ! i)) = int i
          \<and> (\<forall>x \<in> set (inputs (ns ! i)). 0 \<le> x \<and> x < int i))"

definition module_ok :: "'f ir_module \<Rightarrow> bool" where
  "module_ok m \<longleftrightarrow> nodes_ok (nodes m) \<and> (\<forall>o' \<in> set (outputs m). 0 \<le> o' \<and> o' < int (length (nodes m)))"

lemma vec_at_Inr [simp]: "0 \<le> i \<Longrightarrow> i < int (length xs) \<Longrightarrow> vec_at xs i = Inr (xs ! nat i)"
  by (simp add: vec_at_def)

lemma node_at_Inr:
  assumes "0 \<le> i" "i < int (length ns)" "length ns < 2 ^ 31"
  shows "node_at ns i = Inr (ns ! nat i)"
proof -
  have "u64_of_int i = nat i" using assms by (simp add: u64_of_int_exact)
  with assms show ?thesis by (simp add: node_at_def)
qed

lemma emit_ok:
  assumes "module_ok m" "length (nodes m) + 1 < 2 ^ 31"
    and "\<forall>x \<in> set ins. 0 \<le> x \<and> x < int (length (nodes m))"
  shows "fst (emit m op ins shape ats name) = int (length (nodes m))
    \<and> module_ok (snd (emit m op ins shape ats name))"
proof -
  have "i32 (int (length (nodes m))) = int (length (nodes m))"
    using assms(2) by (intro i32_nat_exact) simp
  with assms show ?thesis
    by (auto simp: emit_def Let_def module_ok_def nodes_ok_def nth_append less_Suc_eq
        intro: order.strict_trans)
qed

lemma users_iff: "y \<in> set (users ns x) \<longleftrightarrow> (\<exists>n \<in> set ns. node_id n = y \<and> x \<in> set (inputs n))"
  by (auto simp: users_def)

lemma elements_loop_exact:
  assumes "\<forall>d \<in> set ds. 0 < d \<and> d < 2 ^ 63" "0 < r" "r * prod_list (map nat ds) < 2 ^ 64"
  shows "elements_loop ds r = r * prod_list (map nat ds)"
  using assms
proof (induction ds arbitrary: r)
  case (Cons d ds)
  have d: "u64_of_int d = nat d" "0 < nat d" using Cons.prems(1) by (simp_all add: u64_of_int_exact)
  have "0 \<notin> set (map nat ds)" using Cons.prems(1) by auto
  then have "0 < prod_list (map nat ds)" by (auto intro: Nat.gr0I simp: prod_list_zero_iff)
  then have "r * nat d \<le> r * nat d * prod_list (map nat ds)" by simp
  also have lt: "\<dots> < 2 ^ 64" using Cons.prems(3) by (simp add: mult.assoc)
  finally have "r * nat d \<le> size_max" by (simp add: size_max_def)
  then have le: "r \<le> size_max div nat d" using d(2) by (simp add: less_eq_div_iff_mult_less_eq)
  then have w: "wmul r (nat d) = r * nat d" using checked_mul_fits by blast
  have "elements_loop ds (r * nat d) = r * nat d * prod_list (map nat ds)"
    by (rule Cons.IH) (use Cons.prems d lt in auto)
  with le d w Cons.prems(1) show ?case by (simp add: Let_def mult.assoc)
qed simp

end
