(* ===== verification/Shape_Inference.thy ===== *)
theory Shape_Inference
  imports Compiler_IR
begin

text \<open>
  Shape inference and the module validator (include/gpuforge/shape.hpp, src/shape.cpp). A
  failed inference is a value of \<open>shape_result\<close> with its message, as in the source; the
  validator returns its verdict and the messages it would append.
\<close>

section \<open>Inference\<close>

record shape_result =
  sr_ok :: bool
  sr_shape :: shape
  sr_error :: string

definition default_shape :: shape where
  "default_shape = \<lparr>dims = [], stype = F32, slayout = RowMajor\<rparr>"

definition shape_fail :: "string \<Rightarrow> shape_result" where
  "shape_fail e = \<lparr>sr_ok = False, sr_shape = default_shape, sr_error = e\<rparr>"

definition shape_done :: "shape \<Rightarrow> shape_result" where
  "shape_done s = \<lparr>sr_ok = True, sr_shape = s, sr_error = []\<rparr>"

definition valid_dims :: "int list \<Rightarrow> bool" where
  "valid_dims ds \<longleftrightarrow> list_all (\<lambda>d. d \<ge> 0) ds"

definition infer_matmul :: "shape \<Rightarrow> shape \<Rightarrow> shape_result" where
  "infer_matmul lhs rhs =
     (if length (dims lhs) \<noteq> 2 \<or> length (dims rhs) \<noteq> 2 \<or> \<not> valid_dims (dims lhs) \<or> \<not> valid_dims (dims rhs)
      then shape_fail ''matmul expects rank-2 shapes''
      else if dims lhs ! 1 \<noteq> dims rhs ! 0
      then shape_fail ''matmul inner dimensions mismatch''
      else shape_done \<lparr>dims = [dims lhs ! 0, dims rhs ! 1], stype = stype lhs, slayout = Tiled16\<rparr>)"

definition dim_from_right :: "int list \<Rightarrow> nat \<Rightarrow> int" where
  "dim_from_right ds reverse = (if reverse < length ds then ds ! (length ds - reverse - 1) else 1)"

fun broadcast_loop :: "int list \<Rightarrow> int list \<Rightarrow> nat \<Rightarrow> nat list \<Rightarrow> int list \<Rightarrow> int list option" where
  "broadcast_loop l r rank [] dimensions = Some dimensions"
| "broadcast_loop l r rank (reverse # rest) dimensions =
     (let left = dim_from_right l reverse; right = dim_from_right r reverse
      in if left \<noteq> right \<and> left \<noteq> 1 \<and> right \<noteq> 1 then None
         else broadcast_loop l r rank rest (dimensions[rank - reverse - 1 := max left right]))"

definition infer_broadcast :: "shape \<Rightarrow> shape \<Rightarrow> shape_result" where
  "infer_broadcast lhs rhs =
     (if \<not> valid_dims (dims lhs) \<or> \<not> valid_dims (dims rhs)
      then shape_fail ''broadcast dimensions must be non-negative''
      else let rank = max (length (dims lhs)) (length (dims rhs))
           in case broadcast_loop (dims lhs) (dims rhs) rank [0..<rank] (replicate rank 1) of
                None \<Rightarrow> shape_fail ''broadcast dimensions mismatch''
              | Some ds \<Rightarrow> shape_done \<lparr>dims = ds, stype = stype lhs, slayout = slayout lhs\<rparr>)"

fun reshape_loop :: "int list \<Rightarrow> nat \<Rightarrow> nat \<Rightarrow> nat option \<Rightarrow> string + nat \<times> nat option" where
  "reshape_loop [] axis known inferred = Inr (known, inferred)"
| "reshape_loop (d # ds) axis known inferred =
     (if d = - 1
      then (case inferred of
              Some _ \<Rightarrow> Inl ''multiple inferred dimensions''
            | None \<Rightarrow> reshape_loop ds (axis + 1) known (Some axis))
      else if d < 0 then Inl ''reshape dimensions must be non-negative or -1''
      else reshape_loop ds (axis + 1) (wmul known (u64_of_int d)) inferred)"

definition infer_reshape :: "shape \<Rightarrow> int list \<Rightarrow> shape_result" where
  "infer_reshape input ds =
     (if \<not> valid_dims (dims input) then shape_fail ''input dimensions must be non-negative''
      else case reshape_loop ds 0 1 None of
        Inl e \<Rightarrow> shape_fail e
      | Inr (known, inferred) \<Rightarrow>
          if known = 0 \<or> elements input mod known \<noteq> 0
          then shape_fail ''reshape element count mismatch''
          else let result = (case inferred of
                       Some axis \<Rightarrow> ds[axis := i64_of_nat (elements input div known)]
                     | None \<Rightarrow> ds)
               in if elements input \<noteq> known \<and> inferred = None
                  then shape_fail ''reshape element count mismatch''
                  else shape_done \<lparr>dims = result, stype = stype input, slayout = slayout input\<rparr>)"

definition infer_reduce :: "shape \<Rightarrow> int \<Rightarrow> bool \<Rightarrow> shape_result" where
  "infer_reduce input axis keep =
     (let size = i32 (int (length (dims input)));
          axis = (if axis < 0 then axis + size else axis)
      in if axis < 0 \<or> axis \<ge> size then shape_fail ''reduce axis out of range''
         else shape_done
           \<lparr>dims = (if keep then (dims input)[nat axis := 1]
                    else take (nat axis) (dims input) @ drop (nat axis + 1) (dims input)),
            stype = stype input, slayout = slayout input\<rparr>)"

section \<open>The validator\<close>

fun expected_inputs :: "op \<Rightarrow> nat" where
  "expected_inputs Op_Parameter = 0"
| "expected_inputs Op_Constant = 0"
| "expected_inputs Op_Relu = 1"
| "expected_inputs Op_Gelu = 1"
| "expected_inputs Op_Softmax = 1"
| "expected_inputs Op_ReduceSum = 1"
| "expected_inputs Op_Cast = 1"
| "expected_inputs Op_Reshape = 1"
| "expected_inputs Op_MatMul = 2"
| "expected_inputs Op_Add = 2"
| "expected_inputs Op_Mul = 2"
| "expected_inputs Op_LayerNorm = 3"

definition arity_errors :: "'f node \<Rightarrow> string list" where
  "arity_errors n =
     (if length (inputs n) \<noteq> expected_inputs (node_op n)
      then [''node '' @ int_to_string (node_id n) @ '' has '' @ nat_to_string (length (inputs n))
              @ '' inputs; expected '' @ nat_to_string (expected_inputs (node_op n))]
      else [])"

definition input_errors :: "'f node \<Rightarrow> string list" where
  "input_errors n =
     concat (map (\<lambda>i. if i < 0 \<or> i \<ge> node_id n
                      then [''node '' @ int_to_string (node_id n) @ '' has invalid input '' @ int_to_string i]
                      else []) (inputs n))"

definition shape_errors ::
  "'f node list \<Rightarrow> (shape \<Rightarrow> shape \<Rightarrow> shape_result) \<Rightarrow> string \<Rightarrow> 'f node \<Rightarrow> string list result" where
  "shape_errors ns infer what n =
     (if length (inputs n) = 2
         \<and> inputs n ! 0 \<ge> 0 \<and> inputs n ! 0 < node_id n \<and> inputs n ! 1 \<ge> 0 \<and> inputs n ! 1 < node_id n
      then bind_result (node_at ns (inputs n ! 0)) (\<lambda>a. bind_result (node_at ns (inputs n ! 1)) (\<lambda>b.
             let inferred = infer (vshape_of (node_output a)) (vshape_of (node_output b));
                 prefix = what @ '' node '' @ int_to_string (node_id n)
             in Inr (if \<not> sr_ok inferred then [prefix @ '': '' @ sr_error inferred]
                     else if dims (vshape_of (node_output n)) \<noteq> dims (sr_shape inferred)
                     then [prefix @ '': output shape mismatch'']
                     else [])))
      else Inr [])"

definition validate_node :: "'f node list \<Rightarrow> 'f node \<Rightarrow> string list result" where
  "validate_node ns n =
     bind_result (if node_op n = Op_MatMul then shape_errors ns infer_matmul ''matmul'' n else Inr [])
       (\<lambda>mm. bind_result
          (if node_op n = Op_Add \<or> node_op n = Op_Mul
           then shape_errors ns infer_broadcast ''elementwise'' n else Inr [])
          (\<lambda>ew. Inr (arity_errors n @ input_errors n @ mm @ ew)))"

definition validate :: "'f ir_module \<Rightarrow> (bool \<times> string list) result" where
  "validate m =
     bind_result
       (fold_result (\<lambda>n errors. bind_result (validate_node (nodes m) n) (\<lambda>e. Inr (errors @ e)))
          (nodes m) [])
       (\<lambda>errors. Inr (errors = [], errors))"

section \<open>What inference computes\<close>

definition compatible :: "int \<Rightarrow> int \<Rightarrow> bool" where
  "compatible l r \<longleftrightarrow> l = r \<or> l = 1 \<or> r = 1"

definition broadcast_dim :: "int \<Rightarrow> int \<Rightarrow> int" where
  "broadcast_dim l r = (if l = 1 then r else l)"

lemma broadcast_loop_spec:
  assumes "length ds = rank" "m \<le> rank"
  shows "broadcast_loop l r rank [m..<rank] ds =
    (if \<forall>k. m \<le> k \<longrightarrow> k < rank \<longrightarrow> compatible (dim_from_right l k) (dim_from_right r k)
     then Some (map (\<lambda>j. if m \<le> rank - j - 1
         then max (dim_from_right l (rank - j - 1)) (dim_from_right r (rank - j - 1)) else ds ! j) [0..<rank])
     else None)"
  using assms
proof (induction "rank - m" arbitrary: m ds)
  case 0
  then have "m = rank" by simp
  moreover from this 0 have "ds = map (\<lambda>j. if m \<le> rank - j - 1
      then max (dim_from_right l (rank - j - 1)) (dim_from_right r (rank - j - 1)) else ds ! j) [0..<rank]"
    by (intro nth_equalityI) auto
  ultimately show ?case by simp
next
  case (Suc k)
  then have m: "m < rank" by simp
  let ?ok = "compatible (dim_from_right l m) (dim_from_right r m)"
  let ?v = "max (dim_from_right l m) (dim_from_right r m)"
  have upt: "[m..<rank] = m # [m + 1..<rank]" using m by (simp add: upt_rec)
  have all: "(\<forall>k. m \<le> k \<longrightarrow> k < rank \<longrightarrow> Q k) \<longleftrightarrow> Q m \<and> (\<forall>k. m + 1 \<le> k \<longrightarrow> k < rank \<longrightarrow> Q k)" for Q
    using m by (metis Suc_eq_plus1 Suc_leI Suc_leD le_eq_less_or_eq)
  have IH: "broadcast_loop l r rank [m + 1..<rank] (ds[rank - m - 1 := ?v]) =
    (if \<forall>k. m + 1 \<le> k \<longrightarrow> k < rank \<longrightarrow> compatible (dim_from_right l k) (dim_from_right r k)
     then Some (map (\<lambda>j. if m + 1 \<le> rank - j - 1
         then max (dim_from_right l (rank - j - 1)) (dim_from_right r (rank - j - 1))
         else ds[rank - m - 1 := ?v] ! j) [0..<rank])
     else None)"
    by (rule Suc.hyps(1)) (use Suc.hyps(2) Suc.prems m in auto)
  have "map (\<lambda>j. if m + 1 \<le> rank - j - 1
         then max (dim_from_right l (rank - j - 1)) (dim_from_right r (rank - j - 1))
         else ds[rank - m - 1 := ?v] ! j) [0..<rank]
      = map (\<lambda>j. if m \<le> rank - j - 1
         then max (dim_from_right l (rank - j - 1)) (dim_from_right r (rank - j - 1)) else ds ! j) [0..<rank]"
    using Suc.prems m by (intro map_cong) (auto simp: nth_list_update le_Suc_eq not_less_eq_eq)
  with IH show ?case
    by (subst all) (auto simp: upt Let_def compatible_def)
qed

text \<open>
  broadcasting follows the NumPy rule: for shapes of positive dimensions, aligned at their
  last dimensions and padded with 1 on the left, it succeeds exactly when every pair of
  dimensions is equal or contains a 1, and then each result dimension is the one that is not 1.
\<close>

theorem infer_broadcast_numpy:
  assumes "\<forall>d \<in> set (dims lhs) \<union> set (dims rhs). 0 < d"
  shows "infer_broadcast lhs rhs =
    (let rank = max (length (dims lhs)) (length (dims rhs));
         l = dim_from_right (dims lhs); r = dim_from_right (dims rhs)
     in if \<forall>k < rank. compatible (l k) (r k)
        then shape_done \<lparr>dims = rev (map (\<lambda>k. broadcast_dim (l k) (r k)) [0..<rank]),
                         stype = stype lhs, slayout = slayout lhs\<rparr>
        else shape_fail ''broadcast dimensions mismatch'')"
proof -
  let ?rank = "max (length (dims lhs)) (length (dims rhs))"
  let ?l = "dim_from_right (dims lhs)" and ?r = "dim_from_right (dims rhs)"
  have pos: "0 < ?l k" "0 < ?r k" for k
    using assms by (simp_all add: dim_from_right_def)
  have max: "max (?l k) (?r k) = broadcast_dim (?l k) (?r k)" if "compatible (?l k) (?r k)" for k
    using that pos [of k] by (auto simp: compatible_def broadcast_dim_def)
  have rev: "map (\<lambda>j. max (?l (?rank - j - 1)) (?r (?rank - j - 1))) [0..<?rank]
      = rev (map (\<lambda>k. broadcast_dim (?l k) (?r k)) [0..<?rank])" if "\<forall>k < ?rank. compatible (?l k) (?r k)"
    using that max by (intro nth_equalityI) (auto simp: rev_nth)
  have "valid_dims (dims lhs)" "valid_dims (dims rhs)"
    using assms by (auto simp: valid_dims_def list_all_iff intro: less_imp_le)
  moreover have "broadcast_loop (dims lhs) (dims rhs) ?rank [0..<?rank] (replicate ?rank 1) =
    (if \<forall>k < ?rank. compatible (?l k) (?r k)
     then Some (map (\<lambda>j. max (?l (?rank - j - 1)) (?r (?rank - j - 1))) [0..<?rank]) else None)"
    by (subst broadcast_loop_spec) simp_all
  ultimately show ?thesis
    using rev by (auto simp: infer_broadcast_def Let_def)
qed

theorem infer_broadcast_numpy_witness:
  "infer_broadcast \<lparr>dims = [4, 1], stype = F32, slayout = RowMajor\<rparr>
     \<lparr>dims = [3], stype = F32, slayout = RowMajor\<rparr>
   = shape_done \<lparr>dims = [4, 3], stype = F32, slayout = RowMajor\<rparr>"
  by (subst infer_broadcast_numpy)
    (auto simp: Let_def dim_from_right_def compatible_def broadcast_dim_def upt_rec less_2_cases_iff)

text \<open>A dimension of 0 against 1 gives 1, where the NumPy rule gives 0.\<close>

lemma broadcast_zero_dim:
  "dims (sr_shape (infer_broadcast \<lparr>dims = [0], stype = F32, slayout = RowMajor\<rparr>
     \<lparr>dims = [1], stype = F32, slayout = RowMajor\<rparr>)) = [1]
   \<and> broadcast_dim 0 1 = 0"
  by (simp add: infer_broadcast_def valid_dims_def dim_from_right_def Let_def shape_done_def
      broadcast_dim_def)

subsection \<open>Reshape\<close>

lemma reshape_loop_axis:
  assumes "reshape_loop ds axis known inferred = Inr (k, ax)"
  shows "(ax = inferred \<and> (- 1) \<notin> set ds)
    \<or> (\<exists>xs ys. inferred = None \<and> ds = xs @ (- 1) # ys \<and> ax = Some (axis + length xs)
         \<and> (- 1) \<notin> set xs \<and> (- 1) \<notin> set ys)"
  using assms
proof (induction ds arbitrary: axis known inferred)
  case (Cons d ds)
  show ?case
  proof (cases "d = - 1")
    case True
    with Cons.prems have n: "inferred = None" and r: "reshape_loop ds (axis + 1) known (Some axis) = Inr (k, ax)"
      by (auto split: option.splits)
    from Cons.IH [OF r] True n show ?thesis by (intro disjI2 exI [of _ "[]"] exI [of _ ds]) auto
  next
    case False
    with Cons.prems have r: "reshape_loop ds (axis + 1) (wmul known (u64_of_int d)) inferred = Inr (k, ax)"
      by (auto split: if_splits)
    from Cons.IH [OF r] show ?thesis
    proof (elim disjE exE conjE)
      fix xs ys
      assume "inferred = None" "ds = xs @ (- 1) # ys" "ax = Some (axis + 1 + length xs)"
        "(- 1) \<notin> set xs" "(- 1) \<notin> set ys"
      with False show ?thesis by (intro disjI2 exI [of _ "d # xs"] exI [of _ ys]) auto
    qed (use False in auto)
  qed
qed simp

lemma reshape_loop_nonneg:
  assumes "reshape_loop ds axis known inferred = Inr r"
  shows "\<forall>d \<in> set ds. d = - 1 \<or> 0 \<le> d"
  using assms
  by (induction ds axis known inferred rule: reshape_loop.induct) (auto split: if_splits option.splits)

lemma reshape_loop_zero:
  assumes "reshape_loop ds axis known inferred = Inr (k, ax)" "0 \<in> set ds \<or> known = 0"
  shows "k = 0"
  using assms
proof (induction ds axis known inferred rule: reshape_loop.induct)
  case (2 d ds axis known inferred)
  then show ?case by (auto simp: wmul_def u64_of_int_def split: if_splits option.splits)
qed simp

lemma reshape_loop_known:
  assumes "reshape_loop ds axis known inferred = Inr (k, ax)" "\<forall>d \<in> set ds. d < 2 ^ 63"
    "known * prod_list (map nat (filter (\<lambda>d. d \<noteq> - 1) ds)) < 2 ^ 64"
    "0 \<notin> set ds" "0 < known"
  shows "k = known * prod_list (map nat (filter (\<lambda>d. d \<noteq> - 1) ds))
    \<and> (\<forall>d \<in> set ds. d = - 1 \<or> 0 \<le> d)"
  using assms
proof (induction ds arbitrary: axis known inferred)
  case (Cons d ds)
  show ?case
  proof (cases "d = - 1")
    case True
    with Cons.prems have r: "reshape_loop ds (axis + 1) known (Some axis) = Inr (k, ax)"
      by (auto split: option.splits)
    from Cons.IH [OF r] Cons.prems(2-5) True show ?thesis by simp
  next
    case False
    with Cons.prems have d: "0 < d" by (auto split: if_splits)
    with False Cons.prems have r: "reshape_loop ds (axis + 1) (wmul known (nat d)) inferred = Inr (k, ax)"
      by (simp add: u64_of_int_exact)
    let ?p = "prod_list (map nat (filter (\<lambda>d. d \<noteq> - 1) ds))"
    have p: "known * nat d * ?p < 2 ^ 64" using Cons.prems(3) False by (simp add: mult.assoc)
    have "0 < ?p"
    proof (rule Nat.gr0I)
      assume "?p = 0"
      then have "\<exists>x \<in> set ds. x \<noteq> - 1 \<and> nat x = 0" by (auto simp: prod_list_zero_iff)
      moreover have "\<forall>x \<in> set ds. x = - 1 \<or> 0 < x"
        using r Cons.prems(4) reshape_loop_nonneg [OF r] by (auto simp: order.order_iff_strict)
      ultimately show False by auto
    qed
    then have "known * nat d \<le> known * nat d * ?p" by simp
    with p have w: "wmul known (nat d) = known * nat d" by (intro wmul_exact) linarith
    from Cons.IH [OF r] Cons.prems(2,4,5) p d False show ?thesis by (simp add: w mult.assoc)
  qed
qed simp

text \<open>
  a reshape that is accepted keeps the number of elements: the result has the requested
  dimensions, the inferred one (-1) replaced, and their product is the element count of the
  input. It is stated for requests whose known dimensions have a product that fits a
  \<open>size_t\<close>, which the source does not check.
\<close>

theorem infer_reshape_preserves:
  assumes ok: "sr_ok (infer_reshape input ds)"
    and range: "\<forall>d \<in> set ds. d < 2 ^ 63" "elements input < 2 ^ 63"
    and fits: "prod_list (map nat (filter (\<lambda>d. d \<noteq> - 1) ds)) < 2 ^ 64"
  shows "\<exists>q \<ge> 0. dims (sr_shape (infer_reshape input ds)) = map (\<lambda>d. if d = - 1 then q else d) ds
    \<and> prod_list (map nat (dims (sr_shape (infer_reshape input ds)))) = elements input
    \<and> stype (sr_shape (infer_reshape input ds)) = stype input"
proof -
  obtain k ax where r: "reshape_loop ds 0 1 None = Inr (k, ax)" and k: "0 < k" "elements input mod k = 0"
    and none: "ax = None \<Longrightarrow> elements input = k"
    and res: "infer_reshape input ds = shape_done
      \<lparr>dims = (case ax of Some axis \<Rightarrow> ds[axis := i64_of_nat (elements input div k)] | None \<Rightarrow> ds),
       stype = stype input, slayout = slayout input\<rparr>"
    using ok
    by (auto simp: infer_reshape_def shape_fail_def Let_def split: if_splits sum.splits prod.splits)
  have zero: "0 \<notin> set ds"
    using reshape_loop_zero [OF r] k(1) by blast
  let ?p = "prod_list (map nat (filter (\<lambda>d. d \<noteq> - 1) ds))"
  have kp: "k = ?p" and nonneg: "\<forall>d \<in> set ds. d = - 1 \<or> 0 \<le> d"
    using reshape_loop_known [OF r range(1) _ zero] fits by simp_all
  have "elements input div k < 2 ^ 63" using range(2) div_le_dividend order.strict_trans1 by blast
  then have q: "i64_of_nat (elements input div k) = int (elements input div k)"
    by (simp add: i64_of_nat_exact)
  from reshape_loop_axis [OF r] show ?thesis
  proof (elim disjE exE conjE)
    assume "ax = None" "- 1 \<notin> set ds"
    moreover from this have "filter (\<lambda>d. d \<noteq> - 1) ds = ds" by (auto simp: filter_id_conv)
    ultimately show ?thesis
      using kp none res by (intro exI [of _ 0]) (auto simp: shape_done_def intro!: map_idI [symmetric])
  next
    fix xs ys
    assume ds: "ds = xs @ (- 1) # ys" "ax = Some (0 + length xs)" "- 1 \<notin> set xs" "- 1 \<notin> set ys"
    let ?q = "int (elements input div k)"
    have f: "filter (\<lambda>d. d \<noteq> - 1) xs = xs" "filter (\<lambda>d. d \<noteq> - 1) ys = ys"
      using ds by (auto simp: filter_id_conv)
    have "dims (sr_shape (infer_reshape input ds)) = xs @ ?q # ys"
      using ds q res by (simp add: shape_done_def)
    moreover have "xs @ ?q # ys = map (\<lambda>d. if d = - 1 then ?q else d) ds"
      using ds(3,4) by (auto simp: ds(1) intro!: map_idI [symmetric])
    moreover have "prod_list (map nat (xs @ ?q # ys)) = ?p * (elements input div k)"
      by (simp add: ds(1) f)
    moreover have "?p * (elements input div k) = elements input"
      using k(2) kp by (metis add.right_neutral mult_div_mod_eq)
    ultimately show ?thesis using res by (intro exI [of _ ?q]) (simp add: shape_done_def)
  qed
qed

theorem infer_reshape_preserves_witness:
  "\<exists>q. dims (sr_shape (infer_reshape \<lparr>dims = [4, 6], stype = F32, slayout = RowMajor\<rparr> [3, - 1])) = [3, q]
     \<and> 3 * nat q = 24"
proof -
  let ?s = "\<lparr>dims = [4, 6], stype = F32, slayout = RowMajor\<rparr>"
  have e: "elements ?s = 24" by (simp add: elements_def u64_of_int_def size_max_def wmul_def Let_def)
  have "sr_ok (infer_reshape ?s [3, - 1])"
    by (simp add: infer_reshape_def e valid_dims_def u64_of_int_def wmul_def shape_done_def)
  from infer_reshape_preserves [OF this] show ?thesis by (auto simp: e)
qed

text \<open>Without that bound the product of the known dimensions wraps around and any shape passes.\<close>

lemma reshape_wraps:
  "sr_ok (infer_reshape \<lparr>dims = [4], stype = F32, slayout = RowMajor\<rparr> [4, 2 ^ 62 + 1])"
  by (simp add: infer_reshape_def elements_def valid_dims_def u64_of_int_def wmul_def size_max_def
      shape_done_def Let_def)

section \<open>What the validator accepts\<close>

definition node_typed :: "'f node list \<Rightarrow> 'f node \<Rightarrow> bool" where
  "node_typed ns n \<longleftrightarrow>
     length (inputs n) = expected_inputs (node_op n)
     \<and> (\<forall>x \<in> set (inputs n). 0 \<le> x \<and> x < node_id n)
     \<and> (let ds = (\<lambda>j. dims (vshape_of (node_output (ns ! nat (inputs n ! j)))));
            out = dims (vshape_of (node_output n))
        in (node_op n = Op_MatMul \<longrightarrow>
              (\<exists>a b c. 0 \<le> a \<and> 0 \<le> b \<and> 0 \<le> c \<and> ds 0 = [a, b] \<and> ds 1 = [b, c] \<and> out = [a, c]))
         \<and> (node_op n \<in> {Op_Add, Op_Mul} \<longrightarrow>
              (\<exists>s. infer_broadcast (vshape_of (node_output (ns ! nat (inputs n ! 0))))
                     (vshape_of (node_output (ns ! nat (inputs n ! 1)))) = shape_done s \<and> out = dims s)))"

lemma arity_errors_Nil [simp]: "arity_errors n = [] \<longleftrightarrow> length (inputs n) = expected_inputs (node_op n)"
  by (simp add: arity_errors_def)

lemma input_errors_Nil [simp]: "input_errors n = [] \<longleftrightarrow> (\<forall>x \<in> set (inputs n). 0 \<le> x \<and> x < node_id n)"
proof -
  have "concat (map (\<lambda>i. if P i then [f i] else []) xs) = [] \<longleftrightarrow> (\<forall>x \<in> set xs. \<not> P x)"
    for P and f :: "int \<Rightarrow> string" and xs
    by (induction xs) simp_all
  note this [where P = "\<lambda>i. i < 0 \<or> i \<ge> node_id n"]
  then show ?thesis unfolding input_errors_def by (simp only: not_le not_less de_Morgan_disj)
qed

lemma infer_matmul_ok_iff:
  "sr_ok (infer_matmul a b) \<and> out = dims (sr_shape (infer_matmul a b)) \<longleftrightarrow>
   (\<exists>x y z. 0 \<le> x \<and> 0 \<le> y \<and> 0 \<le> z \<and> dims a = [x, y] \<and> dims b = [y, z] \<and> out = [x, z])"
  by (auto simp: infer_matmul_def shape_fail_def shape_done_def valid_dims_def length_Suc_conv
      numeral_2_eq_2)

lemma infer_broadcast_ok_iff:
  "sr_ok (infer_broadcast a b) \<and> out = dims (sr_shape (infer_broadcast a b)) \<longleftrightarrow>
   (\<exists>s. infer_broadcast a b = shape_done s \<and> out = dims s)"
  by (auto simp: infer_broadcast_def shape_fail_def shape_done_def Let_def split: option.splits)

lemma shape_errors_eq:
  assumes "length ns < 2 ^ 31" "node_id n \<le> int (length ns)" "length (inputs n) = 2"
    "\<forall>x \<in> set (inputs n). 0 \<le> x \<and> x < node_id n"
  shows "\<exists>e. shape_errors ns infer what n = Inr e \<and>
    (e = [] \<longleftrightarrow> sr_ok (infer (vshape_of (node_output (ns ! nat (inputs n ! 0))))
                     (vshape_of (node_output (ns ! nat (inputs n ! 1)))))
      \<and> dims (vshape_of (node_output n)) = dims (sr_shape
          (infer (vshape_of (node_output (ns ! nat (inputs n ! 0))))
             (vshape_of (node_output (ns ! nat (inputs n ! 1)))))))"
proof -
  have i: "0 \<le> inputs n ! j \<and> inputs n ! j < node_id n" if "j < 2" for j
    using assms(3,4) that by simp
  from i [of 0] i [of 1] assms(1,2)
  have "node_at ns (inputs n ! 0) = Inr (ns ! nat (inputs n ! 0))"
    "node_at ns (inputs n ! 1) = Inr (ns ! nat (inputs n ! 1))"
    by (simp_all add: node_at_Inr)
  with i [of 0] i [of 1] assms(3) show ?thesis by (simp add: shape_errors_def Let_def)
qed

lemma shape_errors_total:
  assumes "length ns < 2 ^ 31" "node_id n \<le> int (length ns)"
  shows "\<exists>e. shape_errors ns infer what n = Inr e"
  using assms by (auto simp: shape_errors_def node_at_Inr Let_def)

lemma validate_node_iff:
  assumes ns: "length ns < 2 ^ 31" "node_id n \<le> int (length ns)"
  shows "\<exists>e. validate_node ns n = Inr e \<and> (e = [] \<longleftrightarrow> node_typed ns n)"
proof -
  obtain mm ew where e: "shape_errors ns infer_matmul ''matmul'' n = Inr mm"
    "shape_errors ns infer_broadcast ''elementwise'' n = Inr ew"
    using shape_errors_total [OF ns] by metis
  let ?A = "length (inputs n) = expected_inputs (node_op n)"
  let ?B = "\<forall>x \<in> set (inputs n). 0 \<le> x \<and> x < node_id n"
  have mm: "mm = [] \<longleftrightarrow> (\<exists>a b c. 0 \<le> a \<and> 0 \<le> b \<and> 0 \<le> c
      \<and> dims (vshape_of (node_output (ns ! nat (inputs n ! 0)))) = [a, b]
      \<and> dims (vshape_of (node_output (ns ! nat (inputs n ! 1)))) = [b, c]
      \<and> dims (vshape_of (node_output n)) = [a, c])" if "?A" "?B" "node_op n = Op_MatMul"
    using shape_errors_eq [OF ns _ that(2), of infer_matmul "''matmul''"] that(1,3) e(1)
    by (simp add: infer_matmul_ok_iff)
  have ew: "ew = [] \<longleftrightarrow> (\<exists>s. infer_broadcast (vshape_of (node_output (ns ! nat (inputs n ! 0))))
                     (vshape_of (node_output (ns ! nat (inputs n ! 1)))) = shape_done s
      \<and> dims (vshape_of (node_output n)) = dims s)" if "?A" "?B" "node_op n \<in> {Op_Add, Op_Mul}"
    using shape_errors_eq [OF ns _ that(2), of infer_broadcast "''elementwise''"] that(1,3) e(2)
    by (auto simp: infer_broadcast_ok_iff)
  show ?thesis
    using mm ew by (auto simp: validate_node_def e node_typed_def Let_def)
qed

lemma validate_decides:
  assumes len: "length (nodes m) < 2 ^ 31"
    and ids: "\<forall>i < length (nodes m). node_id (nodes m ! i) = int i"
  shows "\<exists>errors. validate m = Inr (errors = [], errors)
    \<and> (errors = [] \<longleftrightarrow> (\<forall>n \<in> set (nodes m). node_typed (nodes m) n))"
proof -
  let ?ns = "nodes m"
  have each: "\<exists>e. validate_node ?ns n = Inr e \<and> (e = [] \<longleftrightarrow> node_typed ?ns n)" if "n \<in> set ?ns" for n
    using that ids by (intro validate_node_iff [OF len]) (auto simp: in_set_conv_nth)
  have "\<exists>e. fold_result (\<lambda>n errors. bind_result (validate_node ?ns n) (\<lambda>e. Inr (errors @ e))) xs es = Inr e
      \<and> (e = [] \<longleftrightarrow> es = [] \<and> (\<forall>n \<in> set xs. node_typed ?ns n))" if "set xs \<subseteq> set ?ns" for xs es
    using that
  proof (induction xs arbitrary: es)
    case (Cons n xs)
    obtain e where e: "validate_node ?ns n = Inr e" "e = [] \<longleftrightarrow> node_typed ?ns n"
      using each [of n] Cons.prems by auto
    with Cons.IH [of "es @ e"] Cons.prems show ?case by auto
  qed simp
  from this [of ?ns "[]"] show ?thesis by (auto simp: validate_def)
qed

lemma validate_total:
  assumes "length (nodes m) < 2 ^ 31" "\<forall>i < length (nodes m). node_id (nodes m ! i) = int i"
  shows "\<exists>errors. validate m = Inr (errors = [], errors)"
  using validate_decides [OF assms] by blast

text \<open>
  C19: the validator accepts exactly the well-typed modules: on a module whose ids count its
  nodes it never throws, it reports no message if and only if its verdict is true, and the
  verdict is true if and only if every node has the inputs its operator takes, all of them
  earlier nodes, and every product, sum and elementwise product has the inferred shape.
\<close>

theorem validate_iff:
  assumes len: "length (nodes m) < 2 ^ 31"
    and ids: "\<forall>i < length (nodes m). node_id (nodes m ! i) = int i"
  shows "\<exists>errors. validate m = Inr (errors = [], errors)
    \<and> (errors = [] \<longleftrightarrow> (\<forall>n \<in> set (nodes m). node_typed (nodes m) n))"
  using len ids by (rule validate_decides)

theorem validate_iff_witness:
  "\<exists>errors. validate \<lparr>nodes = [\<lparr>node_id = 0, node_op = Op_Relu, inputs = [0 :: int],
      node_output = \<lparr>value_id = 0, vshape_of = default_shape, value_name = ''x''\<rparr>,
      attrs = [], constant_data = [] :: real list\<rparr>], outputs = []\<rparr> = Inr (False, errors) \<and> errors \<noteq> []"
proof -
  let ?n = "\<lparr>node_id = 0, node_op = Op_Relu, inputs = [0 :: int],
      node_output = \<lparr>value_id = 0, vshape_of = default_shape, value_name = ''x''\<rparr>,
      attrs = [], constant_data = [] :: real list\<rparr>"
  have "length (nodes \<lparr>nodes = [?n], outputs = []\<rparr>) < 2 ^ 31"
    "\<forall>i < length (nodes \<lparr>nodes = [?n], outputs = []\<rparr>). node_id (nodes \<lparr>nodes = [?n], outputs = []\<rparr> ! i) = int i"
    by simp_all
  from validate_iff [OF this] show ?thesis by (auto simp: node_typed_def)
qed

end
