(* ===== verification/Compiler_Passes.thy ===== *)
theory Compiler_Passes
  imports Shape_Inference
begin

text \<open>
  The compiler's passes and its cost model (\<open>PassManager\<close>, \<open>Schedule\<close> and \<open>CostModel\<close> in
  include/gpuforge/compiler.hpp, the second half of src/compiler.cpp). Passes that mutate the
  module return the new one. The worklist of the dead-code pass is a stack with its top at the
  head of the list. The meaning of a module (\<open>eval_nodes\<close>) is defined apart from the passes: it gives
  every node a shape and elements from those of its inputs. Sums and products broadcast their operands
  by the rule of the validator (src/shape.cpp); a cast and the operators the passes never touch are
  an arbitrary function of their label, type and arguments.
\<close>

section \<open>Constant folding\<close>

definition gelu_exact :: "'f fops \<Rightarrow> 'f \<Rightarrow> 'f" where
  "gelu_exact ops v =
     f_mul ops (f_mul ops (f_dec ops 5 (- 1)) v)
       (f_add ops (f_dec ops 1 0) (f_erf ops (f_div ops v (f_sqrt ops (f_dec ops 2 0)))))"

definition binary_data :: "'f fops \<Rightarrow> op \<Rightarrow> 'f list \<Rightarrow> 'f list \<Rightarrow> 'f list" where
  "binary_data ops op xs ys =
     map (\<lambda>(x, y). if op = Op_Add then f_add ops x y else f_mul ops x y) (zip xs ys)"

definition unary_data :: "'f fops \<Rightarrow> op \<Rightarrow> 'f list \<Rightarrow> 'f list" where
  "unary_data ops op xs =
     (if op = Op_Relu then map (std_max ops (f_zero ops)) xs
      else if op = Op_Gelu then map (gelu_exact ops) xs
      else xs)"

definition to_constant :: "'f list \<Rightarrow> 'f node \<Rightarrow> 'f node" where
  "to_constant d n = n\<lparr>node_op := Op_Constant, inputs := [], constant_data := d\<rparr>"

definition fold_node :: "'f fops \<Rightarrow> nat \<Rightarrow> 'f node list \<Rightarrow> 'f node list result" where
  "fold_node ops i ns =
     (let n = ns ! i
      in if node_op n = Op_Add \<or> node_op n = Op_Mul
         then if length (inputs n) \<noteq> 2 then Inr ns
              else bind_result (node_at ns (inputs n ! 0)) (\<lambda>lhs.
                   bind_result (node_at ns (inputs n ! 1)) (\<lambda>rhs.
                     if node_op lhs \<noteq> Op_Constant \<or> node_op rhs \<noteq> Op_Constant
                        \<or> constant_data lhs = []
                        \<or> length (constant_data lhs) \<noteq> length (constant_data rhs)
                     then Inr ns
                     else Inr (ns[i := to_constant
                       (binary_data ops (node_op n) (constant_data lhs) (constant_data rhs)) n])))
         else if node_op n = Op_Relu \<or> node_op n = Op_Gelu \<or> node_op n = Op_Cast \<or> node_op n = Op_Reshape
         then if length (inputs n) \<noteq> 1 then Inr ns
              else bind_result (node_at ns (inputs n ! 0)) (\<lambda>input.
                     if node_op input \<noteq> Op_Constant \<or> constant_data input = [] then Inr ns
                     else Inr (ns[i := to_constant (unary_data ops (node_op n) (constant_data input)) n]))
         else Inr ns)"

definition constant_fold :: "'f fops \<Rightarrow> 'f ir_module \<Rightarrow> 'f ir_module result" where
  "constant_fold ops m =
     bind_result (fold_result (fold_node ops) [0..<length (nodes m)] (nodes m))
       (\<lambda>ns. Inr (m\<lparr>nodes := ns\<rparr>))"

section \<open>Layout and canonical form\<close>

definition set_layout :: "layout \<Rightarrow> 'f node \<Rightarrow> 'f node" where
  "set_layout l n =
     n\<lparr>node_output := (node_output n)\<lparr>vshape_of := (vshape_of (node_output n))\<lparr>slayout := l\<rparr>\<rparr>\<rparr>"

definition infer_layout :: "'f ir_module \<Rightarrow> 'f ir_module" where
  "infer_layout m =
     m\<lparr>nodes := map (\<lambda>n. if node_op n = Op_MatMul \<and> length (dims (vshape_of (node_output n))) = 2
                         then set_layout Tiled16 n else n) (nodes m)\<rparr>"

definition canonicalize :: "'f ir_module \<Rightarrow> 'f ir_module" where
  "canonicalize m = m"

section \<open>Dead code elimination\<close>

function dce_live :: "'f node list \<Rightarrow> int list \<Rightarrow> bool list \<Rightarrow> bool list" where
  "dce_live ns [] live = live"
| "dce_live ns (vid # rest) live =
     (if vid < 0 \<or> nat vid \<ge> length live \<or> live ! nat vid then dce_live ns rest live
      else dce_live ns (rev (inputs (ns ! nat vid)) @ rest) (live[nat vid := True]))"
  by pat_completeness auto
termination
proof (relation "measures [\<lambda>(ns, wl, live). length (filter Not live), \<lambda>(ns, wl, live). length wl]")
  fix vid :: int and live :: "bool list" and ns :: "'f node list" and rest
  assume "\<not> (vid < 0 \<or> length live \<le> nat vid \<or> live ! nat vid)"
  then have "length (filter Not (live[nat vid := True])) < length (filter Not live)"
    using length_filter_list_update [of "nat vid" live Not True] by simp
  then show "((ns, rev (inputs (ns ! nat vid)) @ rest, live[nat vid := True]), ns, vid # rest, live)
      \<in> measures [\<lambda>(ns, wl, live). length (filter Not live), \<lambda>(ns, wl, live). length wl]"
    by simp
qed simp_all

definition keep_node ::
  "bool list \<Rightarrow> 'f node \<Rightarrow> 'f node list \<times> int list \<times> nat \<Rightarrow> ('f node list \<times> int list \<times> nat) result" where
  "keep_node live n s =
     (case s of (kept, remap, removed) \<Rightarrow>
        bind_result (vec_at live (node_id n)) (\<lambda>l.
          if l then bind_result (vec_at remap (node_id n)) (\<lambda>_.
                 Inr (kept @ [n], remap[nat (node_id n) := i32 (int (length kept))], removed))
          else Inr (kept, remap, removed + 1)))"

definition map_at :: "int list \<Rightarrow> int list \<Rightarrow> int list result" where
  "map_at remap xs = fold_result (\<lambda>x acc. bind_result (vec_at remap x) (\<lambda>y. Inr (acc @ [y]))) xs []"

definition renumber_node :: "int list \<Rightarrow> 'f node \<Rightarrow> 'f node result" where
  "renumber_node remap n =
     bind_result (vec_at remap (node_id n)) (\<lambda>new_id.
     bind_result (map_at remap (inputs n)) (\<lambda>ins.
       Inr (n\<lparr>node_id := new_id, node_output := (node_output n)\<lparr>value_id := new_id\<rparr>, inputs := ins\<rparr>)))"

definition dead_code_eliminate :: "'f ir_module \<Rightarrow> (nat \<times> 'f ir_module) result" where
  "dead_code_eliminate m =
     (if outputs m = [] then Inr (0, m)
      else let n = length (nodes m);
               live = dce_live (nodes m) (rev (outputs m)) (replicate n False)
           in bind_result (fold_result (keep_node live) (nodes m) ([], replicate n (- 1), 0))
                (\<lambda>(kept, remap, removed).
                   bind_result
                     (fold_result (\<lambda>k acc. bind_result (renumber_node remap k) (\<lambda>k. Inr (acc @ [k]))) kept [])
                     (\<lambda>ns. bind_result (map_at remap (outputs m))
                        (\<lambda>outs. Inr (removed, m\<lparr>nodes := ns, outputs := outs\<rparr>)))))"

section \<open>Fusion\<close>

record fusion_group =
  fg_nodes :: "int list"
  fg_kernel :: string
  fg_flops :: nat

function fuse_chain :: "'f node list \<Rightarrow> int \<Rightarrow> bool list \<Rightarrow> int list \<Rightarrow> (int list \<times> bool list) result" where
  "fuse_chain ns current visited grp =
     (if length (users ns current) \<noteq> 1 then Inr (grp, visited)
      else let user = hd (users ns current)
           in (case node_at ns user of
                Inl e \<Rightarrow> Inl e
              | Inr n \<Rightarrow>
                  (if \<not> is_elementwise (node_op n) then Inr (grp, visited)
                   else (case vec_at visited user of
                     Inl e \<Rightarrow> Inl e
                   | Inr v \<Rightarrow>
                       (if v then Inr (grp, visited)
                        else fuse_chain ns user (visited[nat user := True]) (grp @ [user]))))))"
  by pat_completeness auto
termination
proof (relation "measure (\<lambda>(ns, current, visited, grp). length (filter Not visited))")
  fix ns :: "'f node list" and current :: int and visited grp user and n :: "'f node" and v
  assume "vec_at visited user = Inr v" "\<not> v"
  then have "0 \<le> user" "nat user < length visited" "\<not> visited ! nat user"
    by (auto simp: vec_at_def split: if_splits)
  then have "length (filter Not (visited[nat user := True])) < length (filter Not visited)"
    using length_filter_list_update [of "nat user" visited Not True] by simp
  then show "((ns, user, visited[nat user := True], grp @ [user]), ns, current, visited, grp)
      \<in> measure (\<lambda>(ns, current, visited, grp). length (filter Not visited))"
    by simp
qed simp

declare fuse_chain.simps [simp del]

definition fuse_root ::
  "'f node list \<Rightarrow> 'f node \<Rightarrow> fusion_group list \<times> bool list \<Rightarrow> (fusion_group list \<times> bool list) result" where
  "fuse_root ns start s =
     (case s of (groups, visited) \<Rightarrow>
        bind_result (vec_at visited (node_id start)) (\<lambda>v.
          if v then Inr (groups, visited)
          else bind_result
                 (fuse_chain ns (node_id start) (visited[nat (node_id start) := True]) [node_id start])
                 (\<lambda>(g, visited). Inr (groups @
                    [\<lparr>fg_nodes = g, fg_kernel = ''fused_'' @ int_to_string (node_id start),
                      fg_flops = wmul (length g) 1024\<rparr>], visited))))"

definition fuse :: "'f ir_module \<Rightarrow> fusion_group list result" where
  "fuse m =
     bind_result
       (fold_result (fuse_root (nodes m)) (nodes m) ([], replicate (length (nodes m)) False))
       (\<lambda>(groups, _). Inr groups)"

section \<open>Schedules and code generation\<close>

record schedule =
  block_m :: int
  block_n :: int
  block_k :: int
  warps :: int
  tensor_core :: bool
  async_copy :: bool

definition default_schedule :: schedule where
  "default_schedule = \<lparr>block_m = 128, block_n = 128, block_k = 32, warps = 8, tensor_core = True, async_copy = True\<rparr>"

definition schedule_str :: "schedule \<Rightarrow> string" where
  "schedule_str s =
     ''bm='' @ int_to_string (block_m s) @ '',bn='' @ int_to_string (block_n s)
       @ '',bk='' @ int_to_string (block_k s) @ '',warps='' @ int_to_string (warps s)
       @ (if tensor_core s then '',tc'' else []) @ (if async_copy s then '',async'' else [])"

definition schedule_node :: "'f node \<Rightarrow> schedule" where
  "schedule_node n =
     (let ds = dims (vshape_of (node_output n));
          s = (if length ds = 2 \<and> ds ! 1 \<ge> 1024
               then default_schedule\<lparr>block_m := 128, block_n := 256, warps := 8\<rparr>
               else default_schedule)
      in if stype (vshape_of (node_output n)) = F32 then s\<lparr>tensor_core := False\<rparr> else s)"

definition quote :: char where
  "quote = CHR 0x22"

definition body_line :: "op \<Rightarrow> string" where
  "body_line op =
     (if op = Op_Relu then ''  output[i] = input[i] > 0.0f ? input[i] : 0.0f;'' @ [newline]
      else if op = Op_Add then ''  output[i] = input[i] + rhs[i];'' @ [newline]
      else if op = Op_Mul then ''  output[i] = input[i] * rhs[i];'' @ [newline]
      else ''  output[i] = 0.5f * input[i] * (1.0f + tanhf(0.79788456f * (input[i] + 0.044715f * input[i] * input[i] * input[i])));''
           @ [newline])"

definition emit_cuda :: "'f ir_module \<Rightarrow> fusion_group \<Rightarrow> schedule \<Rightarrow> string result" where
  "emit_cuda m grp sched =
     (let header = ''// generated by GPUForge'' @ [newline] @ ''// nodes: ''
            @ concat (map (\<lambda>i. int_to_string i @ '' '') (fg_nodes grp))
            @ [newline] @ ''// schedule '' @ schedule_str sched @ [newline]
      in if fg_nodes grp = [] then Inl UndefinedBehavior
         else bind_result (node_at (nodes m) (hd (fg_nodes grp))) (\<lambda>n.
           if node_op n \<noteq> Op_Relu \<and> node_op n \<noteq> Op_Gelu \<and> node_op n \<noteq> Op_Add \<and> node_op n \<noteq> Op_Mul
           then Inl (InvalidArgument ''CUDA codegen unsupported operator'')
           else Inr (header @ ''extern '' @ [quote] @ ''C'' @ [quote] @ '' __global__ void '' @ fg_kernel grp
             @ ''(const float* input, const float* rhs, float* output, int n) {'' @ [newline]
             @ ''  const int i = blockIdx.x * blockDim.x + threadIdx.x;'' @ [newline]
             @ ''  if (i >= n) return;'' @ [newline]
             @ body_line (node_op n)
             @ ''}'' @ [newline])))"

section \<open>Cost model\<close>

definition arithmetic_intensity :: "'f fops \<Rightarrow> shape \<Rightarrow> shape \<Rightarrow> shape \<Rightarrow> 'f" where
  "arithmetic_intensity ops a b c =
     (if length (dims a) \<noteq> 2 \<or> length (dims b) \<noteq> 2 \<or> length (dims c) \<noteq> 2 then f_dec ops 0 0
      else let flops = f_mul ops (f_mul ops (f_mul ops (f_dec ops 2 0) (f_dec ops (dims a ! 0) 0))
                         (f_dec ops (dims b ! 1) 0)) (f_dec ops (dims a ! 1) 0);
               element_bytes = (if stype a = F32 then f_dec ops 4 0 else f_dec ops 2 0);
               bytes = f_mul ops (f_of_nat ops (wadd (wadd (elements a) (elements b)) (elements c)))
                         element_bytes
           in if f_eq ops bytes (f_dec ops 0 0) then f_dec ops 0 0 else f_div ops flops bytes)"

definition estimate_ms :: "'f fops \<Rightarrow> 'f node \<Rightarrow> schedule \<Rightarrow> 'f \<Rightarrow> 'f \<Rightarrow> 'f" where
  "estimate_ms ops n s tflops bandwidth =
     (let ds = dims (vshape_of (node_output n))
      in if ds = [] then f_dec ops 0 0
         else let work = f_mul ops (f_of_nat ops (elements (vshape_of (node_output n))))
                    (if node_op n = Op_MatMul \<and> length ds > 1 then f_dec ops (2 * last ds) 0 else f_dec ops 10 0);
                  compute_rate = f_mul ops tflops (f_dec ops 1 12);
                  memory_rate = f_mul ops (f_mul ops bandwidth (f_dec ops 1 9))
                    (f_dec ops (max 1 (block_k s)) 0)
              in f_mul ops (f_div ops work (std_min ops compute_rate memory_rate)) (f_dec ops 1 3))"

definition profitable :: "fusion_group \<Rightarrow> bool" where
  "profitable g \<longleftrightarrow> length (fg_nodes g) > 1 \<or> fg_flops g > 4096"

section \<open>The meaning of a module\<close>

type_synonym 'f tensor_value = "int list \<times> 'f list"
type_synonym 'f op_env =
  "op \<Rightarrow> scalar_type \<Rightarrow> (string \<times> int) list \<Rightarrow> string \<Rightarrow> 'f tensor_value list \<Rightarrow> 'f list"

definition shape_size :: "int list \<Rightarrow> nat" where
  "shape_size ds = prod_list (map nat ds)"

text \<open>
  The place in an operand that element \<open>k\<close> of a broadcast result reads, with the dimensions from the
  last to the first: an axis of length 1 is read at 0 everywhere, an axis the operand lacks counts
  for nothing.
\<close>

fun broadcast_index :: "int list \<Rightarrow> int list \<Rightarrow> nat \<Rightarrow> nat" where
  "broadcast_index (d # ds) (e # es) k =
     (if e = 1 then 0 else k mod nat d) + nat e * broadcast_index ds es (k div nat d)"
| "broadcast_index _ _ k = 0"

definition broadcast_at :: "int list \<Rightarrow> 'f tensor_value \<Rightarrow> nat \<Rightarrow> 'f" where
  "broadcast_at ds v k = snd v ! broadcast_index (rev ds) (rev (fst v)) k"

definition broadcast_value ::
  "('f \<Rightarrow> 'f \<Rightarrow> 'f) \<Rightarrow> int list \<Rightarrow> 'f tensor_value \<Rightarrow> 'f tensor_value \<Rightarrow> 'f list"
where
  "broadcast_value f ds a b = map (\<lambda>k. f (broadcast_at ds a k) (broadcast_at ds b k)) [0..<shape_size ds]"

definition relu_value :: "'f fops \<Rightarrow> 'f \<Rightarrow> 'f" where
  "relu_value ops x = (if f_less ops (f_zero ops) x then x else f_zero ops)"

text \<open>The exact GELU, \<open>x / 2 * (1 + erf (x / sqrt 2))\<close>.\<close>

definition gelu_value :: "'f fops \<Rightarrow> 'f \<Rightarrow> 'f" where
  "gelu_value ops x =
     (let half = f_mul ops (f_dec ops 5 (- 1)) x; z = f_div ops x (f_sqrt ops (f_dec ops 2 0))
      in f_mul ops half (f_add ops (f_dec ops 1 0) (f_erf ops z)))"

definition node_data :: "'f fops \<Rightarrow> 'f op_env \<Rightarrow> 'f node \<Rightarrow> 'f tensor_value list \<Rightarrow> 'f list" where
  "node_data ops env n args =
     (let ds = dims (vshape_of (node_output n));
          other = env (node_op n) (stype (vshape_of (node_output n))) (attrs n) (value_name (node_output n)) args
      in case (node_op n, args) of
           (Op_Constant, _) \<Rightarrow> (if constant_data n = [] then other else constant_data n)
         | (Op_Add, [a, b]) \<Rightarrow> broadcast_value (f_add ops) ds a b
         | (Op_Mul, [a, b]) \<Rightarrow> broadcast_value (f_mul ops) ds a b
         | (Op_Relu, [a]) \<Rightarrow> map (relu_value ops) (snd a)
         | (Op_Gelu, [a]) \<Rightarrow> map (gelu_value ops) (snd a)
         | (Op_Reshape, [a]) \<Rightarrow> snd a
         | _ \<Rightarrow> other)"

definition node_value :: "'f fops \<Rightarrow> 'f op_env \<Rightarrow> 'f node \<Rightarrow> 'f tensor_value list \<Rightarrow> 'f tensor_value" where
  "node_value ops env n args = (dims (vshape_of (node_output n)), node_data ops env n args)"

definition eval_nodes :: "'f fops \<Rightarrow> 'f op_env \<Rightarrow> 'f node list \<Rightarrow> 'f tensor_value list" where
  "eval_nodes ops env ns =
     fold (\<lambda>n vals. vals @ [node_value ops env n (map (\<lambda>x. vals ! nat x) (inputs n))]) ns []"

definition eval_outputs :: "'f fops \<Rightarrow> 'f op_env \<Rightarrow> 'f ir_module \<Rightarrow> 'f tensor_value list" where
  "eval_outputs ops env m = map (\<lambda>x. eval_nodes ops env (nodes m) ! nat x) (outputs m)"

definition values_of :: "'f fops \<Rightarrow> 'f op_env \<Rightarrow> 'f node list \<Rightarrow> 'f tensor_value list \<Rightarrow> bool" where
  "values_of ops env ns vals \<longleftrightarrow>
     length vals = length ns
     \<and> (\<forall>i < length ns. vals ! i = node_value ops env (ns ! i) (map (\<lambda>x. vals ! nat x) (inputs (ns ! i))))"

lemma node_value_cong:
  assumes "node_op n' = node_op n" "dims (vshape_of (node_output n')) = dims (vshape_of (node_output n))"
    and "stype (vshape_of (node_output n')) = stype (vshape_of (node_output n))" "attrs n' = attrs n"
    and "value_name (node_output n') = value_name (node_output n)" "constant_data n' = constant_data n"
  shows "node_value ops env n' args = node_value ops env n args"
  unfolding node_value_def node_data_def by (simp only: assms)

lemma nodes_okD:
  assumes "nodes_ok ns" "i < length ns"
  shows "node_id (ns ! i) = int i" "x \<in> set (inputs (ns ! i)) \<Longrightarrow> 0 \<le> x \<and> nat x < i"
    "x \<in> set (inputs (ns ! i)) \<Longrightarrow> nat x < length ns"
  using assms by (fastforce simp: nodes_ok_def nat_less_iff)+

lemma values_ofD:
  assumes "values_of ops env ns vals"
  shows "length vals = length ns"
    and "i < length ns \<Longrightarrow> vals ! i = node_value ops env (ns ! i) (map (\<lambda>x. vals ! nat x) (inputs (ns ! i)))"
  using assms unfolding values_of_def by blast+

lemma inputs_at:
  assumes "nodes_ok ns" "i < length ns" "x \<in> set (inputs (ns ! i))"
  shows "node_at ns x = Inr (ns ! nat x)"
proof -
  have "0 \<le> x \<and> x < int i" "length ns < 2 ^ 31" using assms by (auto simp: nodes_ok_def)
  with assms(2) show ?thesis by (intro node_at_Inr) auto
qed

lemma eval_snoc:
  "eval_nodes ops env (ns @ [n]) = eval_nodes ops env ns
     @ [node_value ops env n (map (\<lambda>x. eval_nodes ops env ns ! nat x) (inputs n))]"
  by (simp add: eval_nodes_def)

lemma nodes_ok_take:
  assumes "nodes_ok (ns @ [n])"
  shows "nodes_ok ns"
  unfolding nodes_ok_def
proof (intro conjI allI impI)
  fix i assume i: "i < length ns"
  then have "i < length (ns @ [n])" by simp
  with assms have "node_id ((ns @ [n]) ! i) = int i \<and> value_id (node_output ((ns @ [n]) ! i)) = int i
      \<and> (\<forall>x \<in> set (inputs ((ns @ [n]) ! i)). 0 \<le> x \<and> x < int i)"
    unfolding nodes_ok_def by blast
  with i show "node_id (ns ! i) = int i" "value_id (node_output (ns ! i)) = int i"
    "\<forall>x \<in> set (inputs (ns ! i)). 0 \<le> x \<and> x < int i"
    by (simp_all add: nth_append)
qed (use assms in \<open>simp add: nodes_ok_def\<close>)

lemma eval_values: "nodes_ok ns \<Longrightarrow> values_of ops env ns (eval_nodes ops env ns)"
proof (induction ns rule: rev_induct)
  case Nil
  then show ?case by (simp add: values_of_def eval_nodes_def)
next
  case (snoc n ns)
  then have v: "values_of ops env ns (eval_nodes ops env ns)" using nodes_ok_take by blast
  have in_range: "nat x < length ns" if "i < length (ns @ [n])" "x \<in> set (inputs ((ns @ [n]) ! i))" for i x
    using nodes_okD(2) [OF snoc.prems that] that(1) by simp
  show ?case
    unfolding values_of_def eval_snoc
  proof (intro conjI allI impI)
    fix i assume i: "i < length (ns @ [n])"
    let ?vals = "eval_nodes ops env ns @ [node_value ops env n (map (\<lambda>x. eval_nodes ops env ns ! nat x) (inputs n))]"
    have args: "map (\<lambda>x. ?vals ! nat x) (inputs ((ns @ [n]) ! i))
        = map (\<lambda>x. eval_nodes ops env ns ! nat x) (inputs ((ns @ [n]) ! i))"
      using in_range [OF i] values_ofD(1) [OF v] by (intro map_cong) (auto simp: nth_append)
    show "?vals ! i = node_value ops env ((ns @ [n]) ! i) (map (\<lambda>x. ?vals ! nat x) (inputs ((ns @ [n]) ! i)))"
      unfolding args
      using i values_ofD(1) [OF v] values_ofD(2) [OF v, of i]
      by (cases "i < length ns") (simp_all add: nth_append less_Suc_eq)
  qed (use values_ofD(1) [OF v] in simp)
qed

lemma values_unique:
  assumes ok: "nodes_ok ns" and v: "values_of ops env ns v" and w: "values_of ops env ns w"
  shows "v = w"
proof (rule nth_equalityI)
  show "v ! i = w ! i" if "i < length v" for i
    using that
  proof (induction i rule: less_induct)
    case (less i)
    then have i: "i < length ns" using v by (simp add: values_of_def)
    have args: "map (\<lambda>x. v ! nat x) (inputs (ns ! i)) = map (\<lambda>x. w ! nat x) (inputs (ns ! i))"
      using nodes_okD(2) [OF ok i] less by (intro map_cong) auto
    have "v ! i = node_value ops env (ns ! i) (map (\<lambda>x. w ! nat x) (inputs (ns ! i)))"
      unfolding args [symmetric] by (rule values_ofD(2) [OF v i])
    with values_ofD(2) [OF w i] show ?case by (simp only:)
  qed
qed (use v w in \<open>simp add: values_of_def\<close>)

section \<open>Constant folding keeps the meaning\<close>

text \<open>
  When folding computes what the node means: a sum or a product whose operands have the shape of
  the result (up to leading axes of length 1) and as many elements as that shape says, and a cast
  that changes none of the constants. Folding checks neither; see the lemma
  \<open>constant_fold_ignores_broadcast\<close>.
\<close>

definition same_shape :: "int list \<Rightarrow> int list \<Rightarrow> bool" where
  "same_shape ds es \<longleftrightarrow> length es \<le> length ds \<and> ds = replicate (length ds - length es) 1 @ es"

definition exact_fold :: "'f op_env \<Rightarrow> 'f node list \<Rightarrow> nat \<Rightarrow> 'f list \<Rightarrow> bool" where
  "exact_fold env ns i d \<longleftrightarrow>
     (let n = ns ! i; ds = dims (vshape_of (node_output n));
          es = (\<lambda>x. dims (vshape_of (node_output (ns ! nat x))))
      in (node_op n = Op_Add \<or> node_op n = Op_Mul \<longrightarrow>
            length d = shape_size ds \<and> (\<forall>x \<in> set (inputs n). same_shape ds (es x)))
         \<and> (node_op n = Op_Cast \<longrightarrow>
            env Op_Cast (stype (vshape_of (node_output n))) (attrs n) (value_name (node_output n))
              (map (\<lambda>x. (es x, d)) (inputs n)) = d))"

lemma broadcast_index_same:
  "k < prod_list (map nat fs) \<Longrightarrow> broadcast_index (fs @ replicate m 1) fs k = k"
proof (induction fs arbitrary: k)
  case Nil
  then show ?case by simp
next
  case (Cons f fs)
  show ?case
  proof (cases "f = 1")
    case True
    with Cons show ?thesis by simp
  next
    case False
    have "0 < nat f" using Cons.prems by (cases "nat f") simp_all
    then have "k div nat f < prod_list (map nat fs)"
      using Cons.prems by (simp add: div_less_iff_less_mult mult.commute)
    from Cons.IH [OF this] False show ?thesis by simp
  qed
qed

lemma same_shape_at:
  assumes "same_shape ds es" "k < shape_size ds"
  shows "broadcast_at ds (es, xs) k = xs ! k"
proof -
  define m where "m = length ds - length es"
  have ds: "ds = replicate m 1 @ es" using assms(1) by (simp add: same_shape_def m_def)
  then have "rev ds = rev es @ replicate m 1" by simp
  moreover have "prod_list (map nat (rev es)) = shape_size ds"
    by (simp add: shape_size_def ds prod_list.rev flip: rev_map)
  ultimately show ?thesis
    using broadcast_index_same [of k "rev es" m] assms(2) by (simp add: broadcast_at_def)
qed

lemma same_shape_value:
  assumes "same_shape ds es" "same_shape ds fs" "length xs = shape_size ds" "length ys = shape_size ds"
  shows "broadcast_value f ds (es, xs) (fs, ys) = map (\<lambda>(x, y). f x y) (zip xs ys)"
  by (rule nth_equalityI) (simp_all add: broadcast_value_def same_shape_at assms)

lemma binary_data_value:
  assumes "op = Op_Add \<or> op = Op_Mul" "same_shape ds es" "same_shape ds fs"
    and "length xs = length ys" "length (binary_data ops op xs ys) = shape_size ds"
  shows "binary_data ops op xs ys = broadcast_value (if op = Op_Add then f_add ops else f_mul ops) ds (es, xs) (fs, ys)"
proof -
  have "length xs = shape_size ds" using assms(4,5) by (simp add: binary_data_def)
  with assms show ?thesis by (subst same_shape_value) (auto simp: binary_data_def)
qed

lemma unary_data_value:
  "unary_data ops Op_Relu xs = map (relu_value ops) xs" "unary_data ops Op_Gelu xs = map (gelu_value ops) xs"
  "unary_data ops Op_Cast xs = xs" "unary_data ops Op_Reshape xs = xs"
  by (simp_all add: unary_data_def relu_value_def std_max_def gelu_value_def gelu_exact_def)

lemma fold_node_cases:
  assumes ok: "nodes_ok ns" and i: "i < length ns"
  obtains (same) "fold_node ops i ns = Inr ns"
  | (const) d where "fold_node ops i ns = Inr (ns[i := to_constant d (ns ! i)])" "d \<noteq> []"
      "node_op (ns ! i) \<noteq> Op_Constant"
      "\<And>env vals. values_of ops env ns vals \<Longrightarrow> exact_fold env ns i d \<Longrightarrow>
         vals ! i = (dims (vshape_of (node_output (ns ! i))), d)"
proof -
  let ?n = "ns ! i"
  let ?ds = "\<lambda>x. dims (vshape_of (node_output (ns ! nat x)))"
  have at: "node_at ns (inputs ?n ! j) = Inr (ns ! nat (inputs ?n ! j))"
    and lt: "nat (inputs ?n ! j) < length ns" if "j < length (inputs ?n)" for j
    using inputs_at [OF ok i nth_mem [OF that]] nodes_okD(3) [OF ok i nth_mem [OF that]] by simp_all
  have const_value: "vals ! nat (inputs ?n ! j) = (?ds (inputs ?n ! j), constant_data (ns ! nat (inputs ?n ! j)))"
    if "values_of ops env ns vals" "j < length (inputs ?n)" "node_op (ns ! nat (inputs ?n ! j)) = Op_Constant"
      "constant_data (ns ! nat (inputs ?n ! j)) \<noteq> []" for env vals j
    using values_ofD(2) [OF that(1) lt [OF that(2)]] that(3,4) by (simp add: node_value_def node_data_def)
  consider (bin) "node_op ?n = Op_Add \<or> node_op ?n = Op_Mul" "length (inputs ?n) = 2"
    | (un) "node_op ?n \<in> {Op_Relu, Op_Gelu, Op_Cast, Op_Reshape}" "length (inputs ?n) = 1"
    | (other) "\<not> ((node_op ?n = Op_Add \<or> node_op ?n = Op_Mul) \<and> length (inputs ?n) = 2)"
        "\<not> (node_op ?n \<in> {Op_Relu, Op_Gelu, Op_Cast, Op_Reshape} \<and> length (inputs ?n) = 1)"
    by blast
  then show thesis
  proof cases
    case bin
    obtain x y where xy: "inputs ?n = [x, y]" using bin(2) by (auto simp: numeral_2_eq_2 length_Suc_conv)
    let ?l = "ns ! nat x" and ?r = "ns ! nat y"
    let ?d = "binary_data ops (node_op ?n) (constant_data ?l) (constant_data ?r)"
    show thesis
    proof (cases "node_op ?l = Op_Constant \<and> node_op ?r = Op_Constant \<and> constant_data ?l \<noteq> []
        \<and> length (constant_data ?l) = length (constant_data ?r)")
      case True
      show thesis
      proof (rule const [of ?d])
        show "fold_node ops i ns = Inr (ns[i := to_constant ?d ?n])"
          using bin True at [of 0] at [of 1] by (auto simp: fold_node_def Let_def xy)
        show "?d \<noteq> []" using True by (auto simp: binary_data_def)
        show "node_op ?n \<noteq> Op_Constant" using bin by auto
        fix env vals assume v: "values_of ops env ns vals" and e: "exact_fold env ns i ?d"
        have "vals ! nat x = (?ds x, constant_data ?l)" "vals ! nat y = (?ds y, constant_data ?r)"
          using const_value [OF v, of 0] const_value [OF v, of 1] True by (force simp: xy)+
        moreover have "?d = broadcast_value (if node_op ?n = Op_Add then f_add ops else f_mul ops)
            (dims (vshape_of (node_output ?n))) (?ds x, constant_data ?l) (?ds y, constant_data ?r)"
          using e True bin(1) by (intro binary_data_value) (auto simp: exact_fold_def Let_def xy)
        ultimately show "vals ! i = (dims (vshape_of (node_output ?n)), ?d)"
          using values_ofD(2) [OF v i] bin(1) by (auto simp: node_value_def node_data_def xy)
      qed
    next
      case False
      show thesis
        by (rule same) (use False bin at [of 0] at [of 1] in \<open>auto simp: fold_node_def Let_def xy\<close>)
    qed
  next
    case un
    obtain x where x: "inputs ?n = [x]" using un(2) by (auto simp: length_Suc_conv)
    let ?l = "ns ! nat x"
    let ?d = "unary_data ops (node_op ?n) (constant_data ?l)"
    show thesis
    proof (cases "node_op ?l = Op_Constant \<and> constant_data ?l \<noteq> []")
      case True
      show thesis
      proof (rule const [of ?d])
        show "fold_node ops i ns = Inr (ns[i := to_constant ?d ?n])"
          using un True at [of 0] by (auto simp: fold_node_def Let_def x)
        show "?d \<noteq> []" using True by (auto simp: unary_data_def)
        show "node_op ?n \<noteq> Op_Constant" using un by auto
        fix env vals assume v: "values_of ops env ns vals" and e: "exact_fold env ns i ?d"
        have "vals ! nat x = (?ds x, constant_data ?l)"
          using const_value [OF v, of 0] True by (auto simp: x)
        with values_ofD(2) [OF v i] un(1) e show "vals ! i = (dims (vshape_of (node_output ?n)), ?d)"
          by (auto simp: node_value_def node_data_def unary_data_value exact_fold_def Let_def x)
      qed
    next
      case False
      show thesis
        by (rule same) (use False un at [of 0] in \<open>auto simp: fold_node_def Let_def x\<close>)
    qed
  next
    case other
    show thesis by (rule same) (use other in \<open>auto simp: fold_node_def Let_def\<close>)
  qed
qed

lemma nodes_ok_update:
  assumes "nodes_ok ns" "i < length ns"
  shows "nodes_ok (ns[i := to_constant d (ns ! i)])"
  using assms by (auto simp: nodes_ok_def to_constant_def nth_list_update)

lemma to_constant_fields [simp]:
  "node_output (to_constant d n) = node_output n" "node_op (to_constant d n) = Op_Constant"
  "inputs (to_constant d n) = []" "constant_data (to_constant d n) = d"
  by (simp_all add: to_constant_def)

lemma values_update:
  assumes v: "values_of ops env ns vals" and i: "i < length ns" "d \<noteq> []"
    and d: "vals ! i = (dims (vshape_of (node_output (ns ! i))), d)"
  shows "values_of ops env (ns[i := to_constant d (ns ! i)]) vals"
proof -
  have "vals ! j = node_value ops env (ns[i := to_constant d (ns ! i)] ! j)
      (map (\<lambda>x. vals ! nat x) (inputs (ns[i := to_constant d (ns ! i)] ! j)))" if j: "j < length ns" for j
  proof (cases "j = i")
    case True
    with i d show ?thesis by (simp add: node_value_def node_data_def)
  next
    case False
    with values_ofD(2) [OF v j] show ?thesis by simp
  qed
  with values_ofD(1) [OF v] show ?thesis by (simp add: values_of_def)
qed

lemma fold_node_local:
  assumes ok: "nodes_ok ns" and k: "k < length ns" and i: "i < k" and n: "fold_node ops i ns = Inr ns"
  shows "fold_node ops i (ns[k := n']) = Inr (ns[k := n'])"
proof -
  have i': "i < length ns" using i k by simp
  let ?n = "ns ! i"
  have eq: "ns[k := n'] ! i = ?n" using i by simp
  have at: "node_at (ns[k := n']) (inputs ?n ! j) = Inr (ns ! nat (inputs ?n ! j))"
    "node_at ns (inputs ?n ! j) = Inr (ns ! nat (inputs ?n ! j))" if "j < length (inputs ?n)" for j
  proof -
    note x = nodes_okD(2) [OF ok i' nth_mem [OF that]] nodes_okD(3) [OF ok i' nth_mem [OF that]]
    have "length ns < 2 ^ 31" using ok by (simp add: nodes_ok_def)
    with x i show "node_at (ns[k := n']) (inputs ?n ! j) = Inr (ns ! nat (inputs ?n ! j))"
      "node_at ns (inputs ?n ! j) = Inr (ns ! nat (inputs ?n ! j))"
      by (simp_all add: node_at_Inr nth_list_update)
  qed
  have const: "ns[i := to_constant d ?n] \<noteq> ns" if "node_op ?n \<noteq> Op_Constant" for d
  proof
    assume "ns[i := to_constant d ?n] = ns"
    then have "to_constant d ?n = ?n" using nth_list_update_eq [OF i', of "to_constant d ?n"] by simp
    then have "node_op (to_constant d ?n) = node_op ?n" by simp
    with that show False by (simp add: to_constant_def)
  qed
  consider (bin) "node_op ?n = Op_Add \<or> node_op ?n = Op_Mul" "length (inputs ?n) = 2"
    | (un) "node_op ?n \<in> {Op_Relu, Op_Gelu, Op_Cast, Op_Reshape}" "length (inputs ?n) = 1"
    | (other) "\<not> ((node_op ?n = Op_Add \<or> node_op ?n = Op_Mul) \<and> length (inputs ?n) = 2)"
        "\<not> (node_op ?n \<in> {Op_Relu, Op_Gelu, Op_Cast, Op_Reshape} \<and> length (inputs ?n) = 1)"
    by blast
  then show ?thesis
  proof cases
    case bin
    then have c: "ns[i := to_constant d ?n] \<noteq> ns" for d by (intro const) auto
    from bin show ?thesis
      using n at [of 0] at [of 1] by (auto simp: fold_node_def Let_def eq c split: if_splits)
  next
    case un
    then have c: "ns[i := to_constant d ?n] \<noteq> ns" for d by (intro const) auto
    from un show ?thesis
      using n at [of 0] by (auto simp: fold_node_def Let_def eq c split: if_splits)
  next
    case other
    then show ?thesis by (auto simp: fold_node_def Let_def eq)
  qed
qed

lemma fold_node_constant: "node_op (ns ! i) = Op_Constant \<Longrightarrow> fold_node ops i ns = Inr ns"
  by (simp add: fold_node_def Let_def)

text \<open>
  A node that can be folded: an operator of the pass with as many inputs as it takes, all of them constants
  with data, of one length. Folding leaves none.
\<close>

definition foldable :: "'f node list \<Rightarrow> nat \<Rightarrow> bool" where
  "foldable ns i \<longleftrightarrow>
     (let n = ns ! i; args = map (\<lambda>x. ns ! nat x) (inputs n)
      in length args = (if node_op n = Op_Add \<or> node_op n = Op_Mul then 2 else 1)
         \<and> node_op n \<in> {Op_Add, Op_Mul, Op_Relu, Op_Gelu, Op_Cast, Op_Reshape}
         \<and> (\<forall>a \<in> set args. node_op a = Op_Constant \<and> constant_data a \<noteq> []
               \<and> length (constant_data a) = length (constant_data (hd args))))"

lemma fold_node_done:
  assumes ok: "nodes_ok ns" and i: "i < length ns" and n: "fold_node ops i ns = Inr ns"
  shows "\<not> foldable ns i"
proof
  let ?n = "ns ! i"
  assume f: "foldable ns i"
  have at: "node_at ns x = Inr (ns ! nat x)" if "x \<in> set (inputs ?n)" for x
    using inputs_at [OF ok i that] .
  have no: "ns[i := to_constant d ?n] \<noteq> ns" for d
  proof
    assume "ns[i := to_constant d ?n] = ns"
    then have "to_constant d ?n = ?n" using nth_list_update_eq [OF i, of "to_constant d ?n"] by simp
    then have "node_op ?n = Op_Constant" by (metis to_constant_fields(2))
    with f show False by (simp add: foldable_def Let_def)
  qed
  show False
  proof (cases "node_op ?n = Op_Add \<or> node_op ?n = Op_Mul")
    case True
    with f obtain x y where xy: "inputs ?n = [x, y]"
      by (auto simp: foldable_def Let_def numeral_2_eq_2 length_Suc_conv)
    with f n True at [of x] at [of y] no show False by (auto simp: foldable_def fold_node_def Let_def)
  next
    case False
    with f obtain x where x: "inputs ?n = [x]" by (auto simp: foldable_def Let_def length_Suc_conv)
    with f n False at [of x] no show False by (auto simp: foldable_def fold_node_def Let_def)
  qed
qed

text \<open>The nodes a pass has folded, and that folding them was exact.\<close>

definition folds_exact :: "'f op_env \<Rightarrow> 'f node list \<Rightarrow> 'f node list \<Rightarrow> bool" where
  "folds_exact env ns ns' \<longleftrightarrow>
     (\<forall>i < length ns. node_op (ns ! i) \<noteq> Op_Constant \<longrightarrow> node_op (ns' ! i) = Op_Constant
        \<longrightarrow> exact_fold env ns i (constant_data (ns' ! i)))"

lemma exact_fold_cong:
  assumes "nodes_ok ns" "i < length ns" "ns' ! i = ns ! i"
    and "\<And>j. j < length ns \<Longrightarrow> node_output (ns' ! j) = node_output (ns ! j)"
  shows "exact_fold env ns' i d = exact_fold env ns i d"
proof -
  have same: "node_output (ns' ! nat x) = node_output (ns ! nat x)" if "x \<in> set (inputs (ns ! i))" for x
    using assms(4) nodes_okD(3) [OF assms(1,2) that] by blast
  then have "map (\<lambda>x. (dims (vshape_of (node_output (ns' ! nat x))), d)) (inputs (ns ! i))
      = map (\<lambda>x. (dims (vshape_of (node_output (ns ! nat x))), d)) (inputs (ns ! i))"
    (is "?l = ?r") by simp
  moreover have "(\<forall>x \<in> set (inputs (ns ! i)). same_shape ds (dims (vshape_of (node_output (ns' ! nat x)))))
      = (\<forall>x \<in> set (inputs (ns ! i)). same_shape ds (dims (vshape_of (node_output (ns ! nat x)))))" for ds
    using same by simp
  ultimately show ?thesis unfolding exact_fold_def Let_def assms(3) by (simp only:)
qed

lemma constant_fold_loop:
  assumes ok: "nodes_ok ns" and "k \<le> length ns"
  shows "\<exists>ns'. fold_result (fold_node ops) [0..<k] ns = Inr ns' \<and> nodes_ok ns' \<and> length ns' = length ns
    \<and> (\<forall>i < k. fold_node ops i ns' = Inr ns')
    \<and> (\<forall>j < length ns. node_output (ns' ! j) = node_output (ns ! j) \<and> (k \<le> j \<longrightarrow> ns' ! j = ns ! j)
         \<and> (\<exists>d. ns' ! j \<in> {ns ! j, to_constant d (ns ! j)}))
    \<and> (\<forall>env vals. values_of ops env ns vals \<longrightarrow> folds_exact env ns ns' \<longrightarrow> values_of ops env ns' vals)"
  using assms(2)
proof (induction k)
  case 0
  with ok show ?case by simp
next
  case (Suc k)
  then obtain ns' where ns': "fold_result (fold_node ops) [0..<k] ns = Inr ns'" "nodes_ok ns'"
    "length ns' = length ns" "\<forall>i < k. fold_node ops i ns' = Inr ns'"
    "\<forall>j < length ns. node_output (ns' ! j) = node_output (ns ! j) \<and> (k \<le> j \<longrightarrow> ns' ! j = ns ! j)
       \<and> (\<exists>d. ns' ! j \<in> {ns ! j, to_constant d (ns ! j)})"
    "\<forall>env vals. values_of ops env ns vals \<longrightarrow> folds_exact env ns ns' \<longrightarrow> values_of ops env ns' vals" by auto
  have k: "k < length ns'" "k < length ns" using Suc.prems ns'(3) by simp_all
  show ?case
  proof (cases rule: fold_node_cases [OF ns'(2) k(1), of ops])
    case 1
    with ns' show ?thesis by (intro exI [of _ ns']) (auto simp: fold_result_append less_Suc_eq)
  next
    case (2 d)
    let ?ns = "ns'[k := to_constant d (ns' ! k)]"
    have kk: "ns' ! k = ns ! k" using ns'(5) k by simp
    have "fold_node ops i ?ns = Inr ?ns" if "i < Suc k" for i
    proof (cases "i = k")
      case True
      then show ?thesis using k by (intro fold_node_constant) simp
    next
      case False
      with that ns'(4) show ?thesis by (intro fold_node_local [OF ns'(2) k(1)]) auto
    qed
    moreover have "node_output (?ns ! j) = node_output (ns ! j) \<and> (Suc k \<le> j \<longrightarrow> ?ns ! j = ns ! j)
        \<and> (\<exists>d. ?ns ! j \<in> {ns ! j, to_constant d (ns ! j)})" if "j < length ns" for j
      using ns'(5) that k by (cases "j = k") auto
    moreover have "values_of ops env ?ns vals" if v: "values_of ops env ns vals" and e: "folds_exact env ns ?ns" for env vals
    proof -
      have "folds_exact env ns ns'"
        unfolding folds_exact_def
      proof (intro allI impI)
        fix i assume i: "i < length ns" "node_op (ns ! i) \<noteq> Op_Constant" "node_op (ns' ! i) = Op_Constant"
        then have "i \<noteq> k" using kk by auto
        with e i show "exact_fold env ns i (constant_data (ns' ! i))" unfolding folds_exact_def by auto
      qed
      with ns'(6) v have v': "values_of ops env ns' vals" by blast
      have "node_op (?ns ! k) = Op_Constant" "constant_data (?ns ! k) = d" using k by simp_all
      with e k(2) 2(3) kk have "exact_fold env ns k d" unfolding folds_exact_def by metis
      then have "exact_fold env ns' k d"
        using exact_fold_cong [OF ok k(2) kk, of env d] ns'(5) by blast
      from values_update [OF v' k(1) 2(2) 2(4) [OF v' this]] show ?thesis .
    qed
    ultimately show ?thesis
      using ns'(1,3) nodes_ok_update [OF ns'(2) k(1)] 2(1)
      by (intro exI [of _ ?ns]) (auto simp: fold_result_append)
  qed
qed

lemma constant_fold_keeps:
  assumes ok: "module_ok m"
  shows "\<exists>m'. constant_fold ops m = Inr m' \<and> module_ok m' \<and> outputs m' = outputs m
    \<and> (folds_exact env (nodes m) (nodes m') \<longrightarrow> eval_nodes ops env (nodes m') = eval_nodes ops env (nodes m))
    \<and> length (nodes m') = length (nodes m) \<and> constant_fold ops m' = Inr m'
    \<and> (\<forall>i < length (nodes m). \<not> foldable (nodes m') i
         \<and> (\<exists>d. nodes m' ! i \<in> {nodes m ! i, to_constant d (nodes m ! i)}))"
proof -
  have ns: "nodes_ok (nodes m)" using ok by (simp add: module_ok_def)
  obtain ns' where ns': "fold_result (fold_node ops) [0..<length (nodes m)] (nodes m) = Inr ns'" "nodes_ok ns'"
    "length ns' = length (nodes m)" "\<forall>i < length (nodes m). fold_node ops i ns' = Inr ns'"
    "\<forall>i < length (nodes m). \<exists>d. ns' ! i \<in> {nodes m ! i, to_constant d (nodes m ! i)}"
    "\<forall>env vals. values_of ops env (nodes m) vals \<longrightarrow> folds_exact env (nodes m) ns' \<longrightarrow> values_of ops env ns' vals"
    using constant_fold_loop [OF ns order_refl, of ops] by blast
  let ?m = "m\<lparr>nodes := ns'\<rparr>"
  have e: "eval_nodes ops env ns' = eval_nodes ops env (nodes m)" if "folds_exact env (nodes m) ns'"
  proof -
    have "values_of ops env ns' (eval_nodes ops env (nodes m))"
      using ns'(6) eval_values [OF ns] that by blast
    then show ?thesis using values_unique [OF ns'(2)] eval_values [OF ns'(2)] by blast
  qed
  have "fold_result (fold_node ops) xs ns' = Inr ns'" if "set xs \<subseteq> {0..<length (nodes m)}" for xs
    using that ns'(4) by (induction xs) auto
  then have "constant_fold ops ?m = Inr ?m"
    using ns'(3) by (simp add: constant_fold_def)
  moreover have "module_ok ?m" using ok ns'(2,3) by (simp add: module_ok_def)
  moreover have "\<not> foldable ns' i" if "i < length (nodes m)" for i
    using fold_node_done [OF ns'(2), of i ops] ns'(3,4) that by simp
  ultimately show ?thesis using ns'(1,3,5) e by (intro exI [of _ ?m]) (simp add: constant_fold_def)
qed

section \<open>Properties of constant folding\<close>

text \<open>
  C7: constant folding never throws on a well-formed module, keeps it well-formed, its outputs and its
  length, turns nodes into constants and changes nothing else, and leaves no node that could be folded:
  a second pass changes nothing. When every sum or product it folds has operands of the shape of its
  result, and every cast it folds changes no element (the pass checks neither), every node keeps its
  value: a meaning of the module stated apart from the pass, for every arithmetic and every meaning of
  the operators it does not fold.
\<close>

theorem constant_fold_sound:
  assumes ok: "module_ok m"
  shows "\<exists>m'. constant_fold ops m = Inr m' \<and> module_ok m' \<and> outputs m' = outputs m
    \<and> (folds_exact env (nodes m) (nodes m') \<longrightarrow> eval_nodes ops env (nodes m') = eval_nodes ops env (nodes m))
    \<and> length (nodes m') = length (nodes m) \<and> constant_fold ops m' = Inr m'
    \<and> (\<forall>i < length (nodes m). \<not> foldable (nodes m') i
         \<and> (\<exists>d. nodes m' ! i \<in> {nodes m ! i, to_constant d (nodes m ! i)}))"
  by (rule constant_fold_keeps [OF ok])

definition sample_node :: "int \<Rightarrow> op \<Rightarrow> int list \<Rightarrow> int list \<Rightarrow> real list \<Rightarrow> real node" where
  "sample_node i op ins ds d =
     \<lparr>node_id = i, node_op = op, inputs = ins,
      node_output = \<lparr>value_id = i, vshape_of = \<lparr>dims = ds, stype = F32, slayout = RowMajor\<rparr>, value_name = ''v''\<rparr>,
      attrs = [], constant_data = d\<rparr>"

lemma sample_node_simps [simp]:
  "node_id (sample_node i op ins ds d) = i" "node_op (sample_node i op ins ds d) = op"
  "inputs (sample_node i op ins ds d) = ins" "constant_data (sample_node i op ins ds d) = d"
  "value_id (node_output (sample_node i op ins ds d)) = i"
  "dims (vshape_of (node_output (sample_node i op ins ds d))) = ds"
  "stype (vshape_of (node_output (sample_node i op ins ds d))) = F32"
  by (simp_all add: sample_node_def)

definition sample_module :: "real ir_module" where
  "sample_module =
     \<lparr>nodes = [sample_node 0 Op_Constant [] [1] [2], sample_node 1 Op_Relu [0] [1] [],
               sample_node 2 Op_Parameter [] [1] []],
      outputs = [1]\<rparr>"

lemma sample_module_ok: "module_ok sample_module"
  by (simp add: module_ok_def nodes_ok_def sample_module_def less_Suc_eq)

lemma sample_folds_exact: "folds_exact env (nodes sample_module) ns'"
  by (auto simp: folds_exact_def exact_fold_def sample_module_def less_Suc_eq Let_def)

lemma sample_value: "eval_nodes (real_ops id) (\<lambda>_ _ _ _ _. []) (nodes sample_module) = [([1], [2]), ([1], [2]), ([1], [])]"
  by (simp add: eval_nodes_def sample_module_def node_value_def node_data_def relu_value_def real_ops_def)

theorem constant_fold_sound_witness:
  "\<exists>m'. constant_fold (real_ops id) sample_module = Inr m' \<and> outputs m' = [1]
    \<and> eval_nodes (real_ops id) (\<lambda>_ _ _ _ _. []) (nodes m') = [([1], [2]), ([1], [2]), ([1], [])]"
  using constant_fold_sound [OF sample_module_ok, of "real_ops id" "\<lambda>_ _ _ _ _. []"] sample_folds_exact sample_value
  by (auto simp: sample_module_def)

text \<open>
  Folding does not look at shapes: two constants of shapes [2, 1] and [1, 2] make a sum of shape
  [2, 2] that the validator accepts, and the pass turns it into a constant of 2 elements.
\<close>

lemma elements_2_2: "dims s = [2, 2] \<Longrightarrow> elements s = 4"
  by (simp add: elements_def u64_of_int_def wmul_def size_max_def Let_def)

lemma constant_fold_ignores_broadcast:
  "let m = \<lparr>nodes = [sample_node 0 Op_Constant [] [2, 1] [1, 2], sample_node 1 Op_Constant [] [1, 2] [3, 4],
                     sample_node 2 Op_Add [0, 1] [2, 2] []], outputs = [2]\<rparr>
   in validate m = Inr (True, []) \<and>
      (\<exists>m'. constant_fold (real_ops id) m = Inr m'
         \<and> length (constant_data (nodes m' ! 2)) = 2
         \<and> elements (vshape_of (node_output (nodes m' ! 2))) = 4)"
  by (simp add: Let_def validate_def validate_node_def shape_errors_def node_at_def u64_of_int_def
      infer_broadcast_def valid_dims_def dim_from_right_def shape_done_def constant_fold_def
      fold_node_def upt_rec binary_data_def to_constant_def elements_2_2 numeral_2_eq_2
      arity_errors_def input_errors_def)

end
