(* ===== verification/Fusion.thy ===== *)
theory Fusion
  imports Compiler_Passes
begin

text \<open>
  Correctness of \<open>PassManager::fuse\<close>: the groups partition the nodes, and each is a chain in
  which every node is the only user of the one before it.
\<close>

section \<open>Chains\<close>

fun chain :: "'f node list \<Rightarrow> int list \<Rightarrow> bool" where
  "chain ns (x # y # xs) \<longleftrightarrow>
     users ns x = [y] \<and> is_elementwise (node_op (ns ! nat y)) \<and> chain ns (y # xs)"
| "chain ns xs \<longleftrightarrow> True"

definition marks :: "nat \<Rightarrow> int list \<Rightarrow> bool list \<Rightarrow> bool" where
  "marks n xs visited \<longleftrightarrow>
     length visited = n \<and> (\<forall>x \<in> set xs. 0 \<le> x \<and> x < int n) \<and> (\<forall>i < n. visited ! i \<longleftrightarrow> int i \<in> set xs)"

lemma marks_add:
  assumes "marks n xs visited" "0 \<le> y" "y < int n"
  shows "marks n (xs @ [y]) (visited[nat y := True])"
  using assms by (auto simp: marks_def nth_list_update nat_less_iff)

lemma single_user:
  assumes ok: "nodes_ok ns" and one: "length (users ns x) = 1"
  shows "users ns x = [hd (users ns x)]" "0 \<le> hd (users ns x)" "hd (users ns x) < int (length ns)"
proof -
  obtain y where y: "users ns x = [y]" using one by (auto simp: length_Suc_conv)
  then have "y \<in> set (users ns x)" by simp
  then obtain n where "n \<in> set ns" "node_id n = y" by (auto simp: users_iff)
  then obtain i where "i < length ns" "node_id (ns ! i) = y" by (auto simp: in_set_conv_nth)
  with nodes_okD(1) [OF ok] have "0 \<le> y \<and> y < int (length ns)" by auto
  with y show "users ns x = [hd (users ns x)]" "0 \<le> hd (users ns x)" "hd (users ns x) < int (length ns)"
    by simp_all
qed

lemma chain_snoc:
  "chain ns xs \<Longrightarrow> xs \<noteq> [] \<Longrightarrow> users ns (last xs) = [y] \<Longrightarrow> is_elementwise (node_op (ns ! nat y))
   \<Longrightarrow> chain ns (xs @ [y])"
proof (induction xs rule: chain.induct)
  case (1 ns x z xs)
  then show ?case by simp
qed simp_all

lemma fuse_chain_spec:
  assumes "nodes_ok ns" "marks (length ns) (prev @ grp) visited" "distinct (prev @ grp)"
    "grp \<noteq> []" "last grp = current" "chain ns grp"
  shows "\<exists>grp' visited'. fuse_chain ns current visited grp = Inr (grp', visited')
    \<and> marks (length ns) (prev @ grp') visited' \<and> distinct (prev @ grp') \<and> chain ns grp'
    \<and> grp' \<noteq> [] \<and> hd grp' = hd grp \<and> set grp \<subseteq> set grp'"
  using assms
proof (induction ns current visited grp rule: fuse_chain.induct)
  case (1 ns current visited grp)
  let ?us = "users ns current" and ?u = "hd (users ns current)"
  have stop: ?case if "fuse_chain ns current visited grp = Inr (grp, visited)"
    using that "1.prems" by blast
  show ?case
  proof (cases "length ?us = 1")
    case False
    then have "fuse_chain ns current visited grp = Inr (grp, visited)" by (subst fuse_chain.simps) simp
    then show ?thesis by (rule stop)
  next
    case one: True
    note u = single_user [OF "1.prems"(1) one]
    have len: "length ns < 2 ^ 31" using "1.prems"(1) by (simp add: nodes_ok_def)
    have node: "node_at ns ?u = Inr (ns ! nat ?u)" by (rule node_at_Inr [OF u(2,3) len])
    have vis: "vec_at visited ?u = Inr (visited ! nat ?u)"
      using "1.prems"(2) u(2,3) by (simp add: marks_def)
    show ?thesis
    proof (cases "is_elementwise (node_op (ns ! nat ?u)) \<and> \<not> visited ! nat ?u")
      case False
      then have "fuse_chain ns current visited grp = Inr (grp, visited)"
        using one by (subst fuse_chain.simps) (auto simp: node vis Let_def)
      then show ?thesis by (rule stop)
    next
      case True
      let ?v = "visited[nat ?u := True]" and ?g = "grp @ [?u]"
      have step: "fuse_chain ns current visited grp = fuse_chain ns ?u ?v ?g"
        using one True by (subst fuse_chain.simps) (simp add: node vis Let_def)
      have m: "marks (length ns) (prev @ ?g) ?v"
        using marks_add [OF "1.prems"(2) u(2,3)] by simp
      have fresh: "?u \<notin> set (prev @ grp)"
        using "1.prems"(2) True u(2,3) by (auto simp: marks_def nat_less_iff)
      have c: "chain ns ?g"
      proof (rule chain_snoc [OF "1.prems"(6,4)])
        show "users ns (last grp) = [?u]" unfolding "1.prems"(5) by (rule u(1))
      qed (use True in blast)
      have "\<exists>grp' visited'. fuse_chain ns ?u ?v ?g = Inr (grp', visited')
        \<and> marks (length ns) (prev @ grp') visited' \<and> distinct (prev @ grp') \<and> chain ns grp'
        \<and> grp' \<noteq> [] \<and> hd grp' = hd ?g \<and> set ?g \<subseteq> set grp'"
        by (rule "1.IH") (use one True node vis m fresh c "1.prems" in auto)
      then show ?thesis unfolding step using "1.prems"(4) by auto
    qed
  qed
qed

section \<open>Groups\<close>

definition groups_ok :: "'f node list \<Rightarrow> fusion_group list \<Rightarrow> bool" where
  "groups_ok ns groups \<longleftrightarrow>
     distinct (concat (map fg_nodes groups))
     \<and> (\<forall>g \<in> set groups. fg_nodes g \<noteq> [] \<and> chain ns (fg_nodes g)
          \<and> fg_kernel g = ''fused_'' @ int_to_string (hd (fg_nodes g)))"

lemma fuse_loop:
  assumes ok: "nodes_ok ns" and j: "j \<le> length ns"
  shows "\<exists>groups visited. fold_result (fuse_root ns) (take j ns) ([], replicate (length ns) False)
      = Inr (groups, visited)
    \<and> marks (length ns) (concat (map fg_nodes groups)) visited \<and> groups_ok ns groups
    \<and> (\<forall>i < j. visited ! i)"
  using j
proof (induction j)
  case 0
  then show ?case by (simp add: marks_def groups_ok_def)
next
  case (Suc j)
  then obtain groups visited where IH:
    "fold_result (fuse_root ns) (take j ns) ([], replicate (length ns) False) = Inr (groups, visited)"
    "marks (length ns) (concat (map fg_nodes groups)) visited" "groups_ok ns groups" "\<forall>i < j. visited ! i"
    by auto
  have j: "j < length ns" using Suc.prems by simp
  have len: "length visited = length ns" using IH(2) by (simp add: marks_def)
  note jid = nodes_okD(1) [OF ok j]
  have take: "fold_result (fuse_root ns) (take (Suc j) ns) ([], replicate (length ns) False)
      = fuse_root ns (ns ! j) (groups, visited)"
    using j IH(1) by (cases "fuse_root ns (ns ! j) (groups, visited)")
      (simp_all add: take_Suc_conv_app_nth fold_result_append)
  show ?case
  proof (cases "visited ! j")
    case True
    then have "fuse_root ns (ns ! j) (groups, visited) = Inr (groups, visited)"
      using j len jid by (simp add: fuse_root_def)
    with take IH True show ?thesis by (auto simp: less_Suc_eq)
  next
    case False
    let ?p = "concat (map fg_nodes groups)"
    have fresh: "int j \<notin> set ?p" using IH(2) j False by (auto simp: marks_def)
    have "marks (length ns) (?p @ [int j]) (visited[nat (int j) := True])"
      by (rule marks_add [OF IH(2)]) (use j in simp_all)
    moreover have "distinct (?p @ [int j])" using fresh IH(3) by (simp add: groups_ok_def)
    ultimately have "\<exists>grp' visited'. fuse_chain ns (int j) (visited[nat (int j) := True]) [int j] = Inr (grp', visited')
      \<and> marks (length ns) (?p @ grp') visited' \<and> distinct (?p @ grp') \<and> chain ns grp'
      \<and> grp' \<noteq> [] \<and> hd grp' = hd [int j] \<and> set [int j] \<subseteq> set grp'"
      by (intro fuse_chain_spec [OF ok]) simp_all
    then obtain g v where g:
      "fuse_chain ns (int j) (visited[j := True]) [int j] = Inr (g, v)"
      "marks (length ns) (?p @ g) v" "distinct (?p @ g)" "chain ns g" "g \<noteq> []" "hd g = int j"
      unfolding nat_int list.sel by blast
    let ?g = "\<lparr>fg_nodes = g, fg_kernel = ''fused_'' @ int_to_string (int j), fg_flops = wmul (length g) 1024\<rparr>"
    have step: "fuse_root ns (ns ! j) (groups, visited) = Inr (groups @ [?g], v)"
      using j len jid False g(1) by (simp add: fuse_root_def)
    have "v ! i" if "i < Suc j" for i
    proof (cases "i = j")
      case True
      have "int j \<in> set g" using g(5,6) by (metis list.set_sel(1))
      with True g(2) j show ?thesis by (auto simp: marks_def)
    next
      case False
      with that IH(2,4) j have "int i \<in> set ?p" by (auto simp: marks_def)
      with g(2) that j show ?thesis by (auto simp: marks_def)
    qed
    then show ?thesis
      using take step g IH(3) by (intro exI [of _ "groups @ [?g]"] exI [of _ v]) (auto simp: groups_ok_def)
  qed
qed

lemma fuse_spec:
  assumes ok: "module_ok m"
  shows "\<exists>groups. fuse m = Inr groups
    \<and> distinct (concat (map fg_nodes groups))
    \<and> set (concat (map fg_nodes groups)) = {x. 0 \<le> x \<and> x < int (length (nodes m))}
    \<and> (\<forall>g \<in> set groups. fg_nodes g \<noteq> [] \<and> chain (nodes m) (fg_nodes g)
         \<and> fg_kernel g = ''fused_'' @ int_to_string (hd (fg_nodes g)))"
proof -
  have ns: "nodes_ok (nodes m)" using ok by (simp add: module_ok_def)
  obtain groups visited where g:
    "fold_result (fuse_root (nodes m)) (nodes m) ([], replicate (length (nodes m)) False) = Inr (groups, visited)"
    "marks (length (nodes m)) (concat (map fg_nodes groups)) visited" "groups_ok (nodes m) groups"
    "\<forall>i < length (nodes m). visited ! i"
    using fuse_loop [OF ns order_refl] by auto
  have "set (concat (map fg_nodes groups)) = {x. 0 \<le> x \<and> x < int (length (nodes m))}"
  proof (intro equalityI subsetI)
    fix x assume "x \<in> set (concat (map fg_nodes groups))"
    with g(2) show "x \<in> {x. 0 \<le> x \<and> x < int (length (nodes m))}" unfolding marks_def by blast
  next
    fix x assume "x \<in> {x. 0 \<le> x \<and> x < int (length (nodes m))}"
    then obtain i where "x = int i" "i < length (nodes m)" by (auto simp: zero_le_imp_eq_int dest!: zero_le_imp_eq_int)
    with g(2,4) show "x \<in> set (concat (map fg_nodes groups))" unfolding marks_def by blast
  qed
  with g show ?thesis by (intro exI [of _ groups]) (auto simp: fuse_def groups_ok_def)
qed

text \<open>
  C9: fusion partitions a well-formed module: it never fails, every node is in exactly one
  group, and each group is a chain of nodes named after its first one in which every later node
  is elementwise and is the only user of the node before it, so no value inside a group is
  needed by another node.
\<close>

theorem fuse_partitions:
  assumes ok: "module_ok m"
  shows "\<exists>groups. fuse m = Inr groups
    \<and> distinct (concat (map fg_nodes groups))
    \<and> set (concat (map fg_nodes groups)) = {x. 0 \<le> x \<and> x < int (length (nodes m))}
    \<and> (\<forall>g \<in> set groups. fg_nodes g \<noteq> [] \<and> chain (nodes m) (fg_nodes g)
         \<and> fg_kernel g = ''fused_'' @ int_to_string (hd (fg_nodes g)))"
  using ok by (rule fuse_spec)

theorem fuse_partitions_witness:
  "\<exists>groups. fuse sample_module = Inr groups \<and> distinct (concat (map fg_nodes groups))"
  using fuse_partitions [OF sample_module_ok] by blast

text \<open>
  Groups are listed by their first node, and a chain may end in a node whose other operand is
  computed by a later group: here the first group contains the sum that reads node 2, which the
  second group computes.
\<close>

definition crossing_module :: "real ir_module" where
  "crossing_module =
     \<lparr>nodes = [sample_node 0 Op_Parameter [] [1] [], sample_node 1 Op_Parameter [] [1] [],
               sample_node 2 Op_Relu [1] [1] [], sample_node 3 Op_Add [0, 2] [1] []],
      outputs = [3]\<rparr>"

lemma fuse_order_breaks_dependency:
  "module_ok crossing_module"
  "(case fuse crossing_module of Inr groups \<Rightarrow> map fg_nodes groups | Inl _ \<Rightarrow> []) = [[0, 3], [1, 2]]"
proof -
  show "module_ok crossing_module"
    by (simp add: module_ok_def nodes_ok_def crossing_module_def less_Suc_eq)
  let ?ns = "nodes crossing_module"
  have users: "users ?ns 0 = [3]" "users ?ns 1 = [2]" "users ?ns 2 = [3]" "users ?ns 3 = []"
    by (simp_all add: users_def crossing_module_def)
  have node: "node_at ?ns 2 = Inr (sample_node 2 Op_Relu [1] [1] [])"
    "node_at ?ns 3 = Inr (sample_node 3 Op_Add [0, 2] [1] [])"
    by (simp_all add: node_at_def u64_of_int_def crossing_module_def)
  have c3: "fuse_chain ?ns 3 v g = Inr (g, v)" for v g by (subst fuse_chain.simps) (simp add: users)
  have c0: "fuse_chain ?ns 0 [True, False, False, False] [0] = Inr ([0, 3], [True, False, False, True])"
    by (subst fuse_chain.simps) (simp add: users node is_elementwise_def vec_at_def c3)
  have c2: "fuse_chain ?ns 2 [True, True, True, True] [1, 2] = Inr ([1, 2], [True, True, True, True])"
    by (subst fuse_chain.simps) (simp add: users node is_elementwise_def vec_at_def)
  have c1: "fuse_chain ?ns 1 [True, True, False, True] [1] = Inr ([1, 2], [True, True, True, True])"
    by (subst fuse_chain.simps) (simp add: users node is_elementwise_def vec_at_def c2)
  have "fold_result (fuse_root ?ns)
      [sample_node 0 Op_Parameter [] [1] [], sample_node 1 Op_Parameter [] [1] [],
       sample_node 2 Op_Relu [1] [1] [], sample_node 3 Op_Add [0, 2] [1] []] ([], [False, False, False, False])
    = Inr ([\<lparr>fg_nodes = [0, 3], fg_kernel = ''fused_'' @ int_to_string 0, fg_flops = wmul 2 1024\<rparr>,
            \<lparr>fg_nodes = [1, 2], fg_kernel = ''fused_'' @ int_to_string 1, fg_flops = wmul 2 1024\<rparr>],
           [True, True, True, True])"
    by (simp add: fuse_root_def vec_at_def c0 c1 numeral_2_eq_2 [symmetric])
  then show "(case fuse crossing_module of Inr groups \<Rightarrow> map fg_nodes groups | Inl _ \<Rightarrow> []) = [[0, 3], [1, 2]]"
    by (simp add: fuse_def crossing_module_def)
qed

end
