(* ===== verification/Dead_Code.thy ===== *)
theory Dead_Code
  imports Compiler_Passes
begin

text \<open>
  Correctness of \<open>PassManager::dead_code_eliminate\<close>: the worklist marks exactly the nodes the
  outputs need, and renumbering what is kept preserves the values of the outputs.
\<close>

section \<open>The worklist\<close>

inductive needed :: "'f node list \<Rightarrow> int list \<Rightarrow> nat \<Rightarrow> bool" for ns outs where
  needed_output: "x \<in> set outs \<Longrightarrow> needed ns outs (nat x)"
| needed_input: "needed ns outs i \<Longrightarrow> x \<in> set (inputs (ns ! i)) \<Longrightarrow> needed ns outs (nat x)"

definition ids_in :: "nat \<Rightarrow> int list \<Rightarrow> bool" where
  "ids_in n xs \<longleftrightarrow> (\<forall>x \<in> set xs. 0 \<le> x \<and> x < int n)"

lemma dce_live_spec:
  assumes "ids_in (length live) wl" "\<forall>i < length live. ids_in (length live) (inputs (ns ! i))"
    and "\<forall>i < length live. live ! i \<longrightarrow>
           (\<forall>x \<in> set (inputs (ns ! i)). x \<in> set wl \<or> live ! nat x)"
    and "\<forall>i < length live. live ! i \<longrightarrow> needed ns outs i"
    and "\<forall>x \<in> set wl. needed ns outs (nat x)"
    and "\<forall>x \<in> set outs. x \<in> set wl \<or> live ! nat x"
  shows "length (dce_live ns wl live) = length live
    \<and> (\<forall>i < length live. dce_live ns wl live ! i \<longrightarrow> needed ns outs i \<and>
           (\<forall>x \<in> set (inputs (ns ! i)). dce_live ns wl live ! nat x))
    \<and> (\<forall>x \<in> set outs. dce_live ns wl live ! nat x)"
  using assms
proof (induction ns wl live rule: dce_live.induct)
  case (1 ns live)
  then show ?case by simp
next
  case (2 ns vid rest live)
  let ?skip = "vid < 0 \<or> nat vid \<ge> length live \<or> live ! nat vid"
  have v: "0 \<le> vid" "nat vid < length live" using "2.prems"(1) by (auto simp: ids_in_def nat_less_iff)
  show ?case
  proof (cases ?skip)
    case True
    then have live: "live ! nat vid" using v by auto
    have step: "dce_live ns (vid # rest) live = dce_live ns rest live" using True by simp
    show ?thesis
      unfolding step
    proof (rule "2.IH"(1) [OF True])
      show "ids_in (length live) rest" using "2.prems"(1) by (simp add: ids_in_def)
      show "\<forall>i < length live. live ! i \<longrightarrow>
           (\<forall>x \<in> set (inputs (ns ! i)). x \<in> set rest \<or> live ! nat x)"
        using "2.prems"(3) live by auto
      show "\<forall>x \<in> set rest. needed ns outs (nat x)" using "2.prems"(5) by simp
      show "\<forall>x \<in> set outs. x \<in> set rest \<or> live ! nat x" using "2.prems"(6) live by auto
    qed (use "2.prems" in blast)+
  next
    case False
    let ?live = "live[nat vid := True]" and ?wl = "rev (inputs (ns ! nat vid)) @ rest"
    have step: "dce_live ns (vid # rest) live = dce_live ns ?wl ?live" using False by simp
    have nd: "needed ns outs (nat vid)" using "2.prems"(5) by simp
    have "ids_in (length ?live) ?wl"
      using "2.prems"(1,2) v by (auto simp: ids_in_def)
    moreover have "\<forall>i < length ?live. ids_in (length ?live) (inputs (ns ! i))" using "2.prems"(2) by simp
    moreover have "\<forall>i < length ?live. ?live ! i \<longrightarrow>
           (\<forall>x \<in> set (inputs (ns ! i)). x \<in> set ?wl \<or> ?live ! nat x)"
    proof (intro allI impI ballI)
      fix i x assume i: "i < length ?live" "?live ! i" "x \<in> set (inputs (ns ! i))"
      show "x \<in> set ?wl \<or> ?live ! nat x"
      proof (cases "i = nat vid")
        case True
        with i(3) show ?thesis by simp
      next
        case False
        with i have "x \<in> set (vid # rest) \<or> live ! nat x" using "2.prems"(3) by simp
        then show ?thesis using v by (cases "nat x = nat vid") auto
      qed
    qed
    moreover have "\<forall>i < length ?live. ?live ! i \<longrightarrow> needed ns outs i"
      using "2.prems"(4) nd by (auto simp: nth_list_update [OF v(2)] split: if_splits)
    moreover have "\<forall>x \<in> set ?wl. needed ns outs (nat x)"
      using "2.prems"(5) needed_input [OF nd] by auto
    moreover have "\<forall>x \<in> set outs. x \<in> set ?wl \<or> ?live ! nat x"
    proof
      fix x assume "x \<in> set outs"
      then have "x \<in> set (vid # rest) \<or> live ! nat x" using "2.prems"(6) by simp
      then show "x \<in> set ?wl \<or> ?live ! nat x" using v by (cases "nat x = nat vid") auto
    qed
    ultimately have "length (dce_live ns ?wl ?live) = length ?live
      \<and> (\<forall>i < length ?live. dce_live ns ?wl ?live ! i \<longrightarrow> needed ns outs i \<and>
             (\<forall>x \<in> set (inputs (ns ! i)). dce_live ns ?wl ?live ! nat x))
      \<and> (\<forall>x \<in> set outs. dce_live ns ?wl ?live ! nat x)"
      by (rule "2.IH"(2) [OF False])
    then show ?thesis unfolding step length_list_update .
  qed
qed

lemma dce_live_iff:
  assumes ok: "module_ok m"
  defines "live \<equiv> dce_live (nodes m) (rev (outputs m)) (replicate (length (nodes m)) False)"
  shows "length live = length (nodes m)"
    and "i < length (nodes m) \<Longrightarrow> live ! i \<longleftrightarrow> needed (nodes m) (outputs m) i"
    and "i < length (nodes m) \<Longrightarrow> live ! i \<Longrightarrow> x \<in> set (inputs (nodes m ! i)) \<Longrightarrow> live ! nat x"
    and "x \<in> set (outputs m) \<Longrightarrow> live ! nat x"
proof -
  let ?n = "length (nodes m)"
  have in_range: "ids_in ?n (inputs (nodes m ! i))" if "i < ?n" for i
    using ok that unfolding module_ok_def nodes_ok_def ids_in_def by fastforce
  have outs: "ids_in ?n (outputs m)" using ok by (simp add: module_ok_def ids_in_def)
  have spec: "length live = ?n
    \<and> (\<forall>i < ?n. live ! i \<longrightarrow> needed (nodes m) (outputs m) i \<and>
           (\<forall>x \<in> set (inputs (nodes m ! i)). live ! nat x))
    \<and> (\<forall>x \<in> set (outputs m). live ! nat x)"
    unfolding live_def
    using dce_live_spec [of "replicate ?n False" "rev (outputs m)" "nodes m" "outputs m"]
      in_range outs by (simp add: ids_in_def needed_output)
  then show "length live = ?n" "x \<in> set (outputs m) \<Longrightarrow> live ! nat x"
    and closed: "i < ?n \<Longrightarrow> live ! i \<Longrightarrow> x \<in> set (inputs (nodes m ! i)) \<Longrightarrow> live ! nat x" for i x
    by blast+
  have complete: "i < ?n \<and> live ! i" if "needed (nodes m) (outputs m) i" for i
    using that
  proof induction
    case (needed_output x)
    with outs spec show ?case by (auto simp: ids_in_def nat_less_iff)
  next
    case (needed_input i x)
    with in_range [of i] closed show ?case by (auto simp: ids_in_def nat_less_iff)
  qed
  then show "i < ?n \<Longrightarrow> live ! i \<longleftrightarrow> needed (nodes m) (outputs m) i" using spec by blast
qed

section \<open>Renumbering\<close>

definition rank :: "bool list \<Rightarrow> nat \<Rightarrow> nat" where
  "rank live i = length (filter ((!) live) [0..<i])"

definition kept_ids :: "bool list \<Rightarrow> nat list" where
  "kept_ids live = filter ((!) live) [0..<length live]"

lemma rank_mono: "i < j \<Longrightarrow> live ! i \<Longrightarrow> rank live i < rank live j"
proof -
  assume "i < j" "live ! i"
  then have "[0..<j] = [0..<i] @ i # [Suc i..<j]"
    by (metis less_imp_add_positive upt_add_eq_append upt_conv_Cons zero_le le_add1)
  with \<open>live ! i\<close> show ?thesis by (simp add: rank_def)
qed

lemma kept_rank:
  assumes "i < length live" "live ! i"
  shows "rank live i < length (kept_ids live)" "kept_ids live ! rank live i = i"
proof -
  have "[0..<length live] = [0..<i] @ i # [Suc i..<length live]"
    using assms(1) by (metis less_imp_add_positive upt_add_eq_append upt_conv_Cons zero_le le_add1)
  then have "kept_ids live = filter ((!) live) [0..<i] @ i # filter ((!) live) [Suc i..<length live]"
    using assms(2) by (simp add: kept_ids_def)
  then show "rank live i < length (kept_ids live)" "kept_ids live ! rank live i = i"
    by (simp_all add: rank_def)
qed

lemma rank_kept:
  assumes "k < length (kept_ids live)"
  shows "kept_ids live ! k < length live" "live ! (kept_ids live ! k)" "rank live (kept_ids live ! k) = k"
proof -
  have "kept_ids live ! k \<in> set (kept_ids live)" using assms by simp
  then show i: "kept_ids live ! k < length live" "live ! (kept_ids live ! k)"
    by (auto simp: kept_ids_def)
  have "distinct (kept_ids live)" by (simp add: kept_ids_def)
  with kept_rank [OF i] assms show "rank live (kept_ids live ! k) = k"
    by (simp add: nth_eq_iff_index_eq)
qed

lemma keep_loop:
  assumes ok: "nodes_ok ns" and live: "length live = length ns" and j: "j \<le> length ns"
  shows "fold_result (keep_node live) (take j ns) ([], replicate (length ns) (- 1), 0)
    = Inr (map ((!) ns) (filter ((!) live) [0..<j]),
           map (\<lambda>i. if i < j \<and> live ! i then int (rank live i) else - 1) [0..<length ns],
           j - rank live j)"
  using j
proof (induction j)
  case 0
  then show ?case by (simp add: rank_def map_replicate_const)
next
  case (Suc j)
  then have j: "j < length ns" by simp
  have rk: "rank live j \<le> j" using length_filter_le [of "(!) live" "[0..<j]"] by (simp add: rank_def)
  have "length ns < 2 ^ 31" using ok by (simp add: nodes_ok_def)
  with rk j have i32: "i32 (int (rank live j)) = int (rank live j)"
    by (intro i32_nat_exact) simp
  have upd: "(map (\<lambda>i. if i < j \<and> live ! i then int (rank live i) else - 1) [0..<length ns])[j := int (rank live j)]
      = map (\<lambda>i. if i < Suc j \<and> live ! i then int (rank live i) else - 1) [0..<length ns]" if "live ! j"
    using that j by (intro nth_equalityI) (auto simp: nth_list_update less_Suc_eq)
  have skip: "map (\<lambda>i. if i < j \<and> live ! i then int (rank live i) else - 1) [0..<length ns]
      = map (\<lambda>i. if i < Suc j \<and> live ! i then int (rank live i) else - 1) [0..<length ns]" if "\<not> live ! j"
    using that by (intro map_cong) (auto simp: less_Suc_eq)
  have len: "length (filter ((!) live) [0..<j]) = rank live j" by (simp add: rank_def)
  have "rank live (Suc j) = rank live j + of_bool (live ! j)" by (simp add: rank_def)
  with Suc j live nodes_okD(1) [OF ok j] i32 upd skip rk len show ?case
    by (simp add: take_Suc_conv_app_nth fold_result_append keep_node_def Suc_diff_le)
qed

lemma collect_loop:
  assumes "\<And>x. x \<in> set xs \<Longrightarrow> f x = Inr (g x)"
  shows "fold_result (\<lambda>x acc. bind_result (f x) (\<lambda>y. Inr (acc @ [y]))) xs acc = Inr (acc @ map g xs)"
  using assms by (induction xs arbitrary: acc) simp_all

definition renumbered :: "bool list \<Rightarrow> 'f node \<Rightarrow> 'f node" where
  "renumbered live n =
     n\<lparr>node_id := int (rank live (nat (node_id n))),
       node_output := (node_output n)\<lparr>value_id := int (rank live (nat (node_id n)))\<rparr>,
       inputs := map (\<lambda>x. int (rank live (nat x))) (inputs n)\<rparr>"

lemma node_value_renumbered [simp]:
  "node_value ops env (renumbered live n) args = node_value ops env n args"
  by (rule node_value_cong) (simp_all add: renumbered_def)

lemma dead_code_eliminate_eq:
  assumes ok: "module_ok m" and outs: "outputs m \<noteq> []"
  defines "live \<equiv> dce_live (nodes m) (rev (outputs m)) (replicate (length (nodes m)) False)"
  shows "dead_code_eliminate m = Inr (length (nodes m) - length (kept_ids live),
    m\<lparr>nodes := map (\<lambda>i. renumbered live (nodes m ! i)) (kept_ids live),
      outputs := map (\<lambda>x. int (rank live (nat x))) (outputs m)\<rparr>)"
proof -
  let ?ns = "nodes m" and ?n = "length (nodes m)"
  let ?remap = "map (\<lambda>i. if i < ?n \<and> live ! i then int (rank live i) else - 1) [0..<?n]"
  have ns: "nodes_ok ?ns" using ok by (simp add: module_ok_def)
  note live = dce_live_iff [OF ok, folded live_def]
  have at: "vec_at ?remap x = Inr (int (rank live (nat x)))" if "0 \<le> x" "nat x < ?n" "live ! nat x" for x
    using that by (simp add: nat_less_iff)
  have map_ok: "map_at ?remap xs = Inr (map (\<lambda>x. int (rank live (nat x))) xs)"
    if "\<forall>x \<in> set xs. 0 \<le> x \<and> nat x < ?n \<and> live ! nat x" for xs
    unfolding map_at_def by (subst collect_loop [where g = "\<lambda>x. int (rank live (nat x))"]) (use that at in auto)
  have renum: "renumber_node ?remap k = Inr (renumbered live k)"
    if k: "k \<in> set (map ((!) ?ns) (kept_ids live))" for k
  proof -
    obtain i where i: "i < ?n" "live ! i" "k = ?ns ! i" using k live(1) by (auto simp: kept_ids_def)
    have "\<forall>x \<in> set (inputs k). 0 \<le> x \<and> nat x < ?n \<and> live ! nat x"
      using nodes_okD(2,3) [OF ns i(1)] live(3) [OF i(1,2)] i(3) by blast
    with map_ok at [of "int i"] i nodes_okD(1) [OF ns i(1)] show ?thesis
      by (simp add: renumber_node_def renumbered_def)
  qed
  have kept: "filter ((!) live) [0..<?n] = kept_ids live" "rank live ?n = length (kept_ids live)"
    using live(1) by (simp_all add: kept_ids_def rank_def)
  have "fold_result (keep_node live) ?ns ([], replicate ?n (- 1), 0)
      = Inr (map ((!) ?ns) (kept_ids live), ?remap, ?n - length (kept_ids live))"
    using keep_loop [OF ns live(1) order_refl] by (simp add: kept)
  moreover have "fold_result (\<lambda>k acc. bind_result (renumber_node ?remap k) (\<lambda>k. Inr (acc @ [k])))
        (map ((!) ?ns) (kept_ids live)) []
      = Inr ([] @ map (renumbered live) (map ((!) ?ns) (kept_ids live)))"
    by (rule collect_loop [OF renum])
  moreover have "map_at ?remap (outputs m) = Inr (map (\<lambda>x. int (rank live (nat x))) (outputs m))"
    by (rule map_ok) (use ok live(4) in \<open>auto simp: module_ok_def nat_less_iff\<close>)
  ultimately show ?thesis
    using outs by (simp add: dead_code_eliminate_def Let_def comp_def flip: live_def)
qed

lemma renumbered_ok:
  assumes ok: "nodes_ok ns" and len: "length live = length ns"
    and closed: "\<And>i x. i < length ns \<Longrightarrow> live ! i \<Longrightarrow> x \<in> set (inputs (ns ! i)) \<Longrightarrow> live ! nat x"
  shows "nodes_ok (map (\<lambda>i. renumbered live (ns ! i)) (kept_ids live))"
  unfolding nodes_ok_def
proof (intro conjI allI impI)
  have "length (kept_ids live) \<le> length live"
    using length_filter_le [of "(!) live" "[0..<length live]"] by (simp add: kept_ids_def)
  with ok len show "length (map (\<lambda>i. renumbered live (ns ! i)) (kept_ids live)) < 2 ^ 31"
    by (simp add: nodes_ok_def)
  fix k assume k: "k < length (map (\<lambda>i. renumbered live (ns ! i)) (kept_ids live))"
  let ?i = "kept_ids live ! k"
  have i: "?i < length ns" "live ! ?i" "rank live ?i = k" using rank_kept [of k live] k len by simp_all
  show "node_id (map (\<lambda>i. renumbered live (ns ! i)) (kept_ids live) ! k) = int k"
    "value_id (node_output (map (\<lambda>i. renumbered live (ns ! i)) (kept_ids live) ! k)) = int k"
    using k i nodes_okD(1) [OF ok i(1)] by (simp_all add: renumbered_def)
  show "\<forall>x \<in> set (inputs (map (\<lambda>i. renumbered live (ns ! i)) (kept_ids live) ! k)). 0 \<le> x \<and> x < int k"
  proof -
    have "rank live (nat x) < k" if "x \<in> set (inputs (ns ! ?i))" for x
      using rank_mono [of "nat x" ?i live] nodes_okD(2) [OF ok i(1) that] closed [OF i(1,2) that] i(3)
      by simp
    with k show ?thesis by (auto simp: renumbered_def)
  qed
qed

lemma renumbered_values:
  assumes ok: "nodes_ok ns" and len: "length live = length ns"
    and closed: "\<And>i x. i < length ns \<Longrightarrow> live ! i \<Longrightarrow> x \<in> set (inputs (ns ! i)) \<Longrightarrow> live ! nat x"
    and v: "values_of ops env ns vals"
  shows "values_of ops env (map (\<lambda>i. renumbered live (ns ! i)) (kept_ids live)) (map ((!) vals) (kept_ids live))"
  unfolding values_of_def
proof (intro conjI allI impI)
  fix k assume "k < length (map (\<lambda>i. renumbered live (ns ! i)) (kept_ids live))"
  then have k: "k < length (kept_ids live)" by simp
  let ?i = "kept_ids live ! k" and ?vals = "map ((!) vals) (kept_ids live)"
  have i: "?i < length ns" "live ! ?i" using rank_kept [OF k] len by simp_all
  have arg: "?vals ! rank live (nat x) = vals ! nat x" if "x \<in> set (inputs (ns ! ?i))" for x
    using kept_rank [of "nat x" live] closed [OF i that] nodes_okD(3) [OF ok i(1) that] len by simp
  have args: "map (\<lambda>x. ?vals ! nat x) (inputs (renumbered live (ns ! ?i))) = map (\<lambda>x. vals ! nat x) (inputs (ns ! ?i))"
    by (simp add: renumbered_def comp_def arg del: nth_map)
  show "?vals ! k = node_value ops env (map (\<lambda>i. renumbered live (ns ! i)) (kept_ids live) ! k)
      (map (\<lambda>x. ?vals ! nat x) (inputs (map (\<lambda>i. renumbered live (ns ! i)) (kept_ids live) ! k)))"
    unfolding nth_map [OF k] args node_value_renumbered using values_ofD(2) [OF v i(1)] .
qed simp

section \<open>Property\<close>

text \<open>
  C8: dead code elimination keeps exactly what the outputs need: on a well-formed module with
  outputs it returns the number of nodes removed and a well-formed module whose nodes are the
  needed ones in their order, and every output has the value it had before, for every
  arithmetic and every meaning of the operators.
\<close>

theorem dead_code_eliminate_correct:
  assumes ok: "module_ok m" and outs: "outputs m \<noteq> []"
  shows "\<exists>m'. dead_code_eliminate m = Inr (length (nodes m) - length (nodes m'), m') \<and> module_ok m'
    \<and> eval_outputs ops env m' = eval_outputs ops env m
    \<and> map (\<lambda>n. value_name (node_output n)) (nodes m')
        = map (\<lambda>i. value_name (node_output (nodes m ! i)))
            (filter (\<lambda>i. needed (nodes m) (outputs m) i) [0..<length (nodes m)])"
proof -
  define live where "live = dce_live (nodes m) (rev (outputs m)) (replicate (length (nodes m)) False)"
  let ?ns = "map (\<lambda>i. renumbered live (nodes m ! i)) (kept_ids live)"
  let ?m = "m\<lparr>nodes := ?ns, outputs := map (\<lambda>x. int (rank live (nat x))) (outputs m)\<rparr>"
  have ns: "nodes_ok (nodes m)" using ok by (simp add: module_ok_def)
  note live = dce_live_iff [OF ok, folded live_def]
  have out: "nat x < length live" "live ! nat x" if "x \<in> set (outputs m)" for x
    using ok that live(1,4) by (auto simp: module_ok_def nat_less_iff)
  have ns': "nodes_ok ?ns" by (rule renumbered_ok [OF ns live(1,3)])
  have "values_of ops env ?ns (map ((!) (eval_nodes ops env (nodes m))) (kept_ids live))"
    by (rule renumbered_values [OF ns live(1,3) eval_values [OF ns]])
  then have ev: "eval_nodes ops env ?ns = map ((!) (eval_nodes ops env (nodes m))) (kept_ids live)"
    using values_unique [OF ns' eval_values [OF ns']] by blast
  have "eval_outputs ops env ?m = eval_outputs ops env m"
    using kept_rank [OF out] by (simp add: eval_outputs_def ev)
  moreover have "module_ok ?m"
    using ns' kept_rank(1) [OF out] by (auto simp: module_ok_def)
  moreover have "filter (\<lambda>i. needed (nodes m) (outputs m) i) [0..<length (nodes m)] = kept_ids live"
    unfolding kept_ids_def live(1) by (rule filter_cong [OF refl]) (simp add: live(2))
  ultimately show ?thesis
    using dead_code_eliminate_eq [OF ok outs, folded live_def]
    by (intro exI [of _ ?m]) (simp add: renumbered_def comp_def)
qed

theorem dead_code_eliminate_correct_witness:
  "\<exists>m'. dead_code_eliminate sample_module = Inr (3 - length (nodes m'), m') \<and> module_ok m'"
proof -
  have "outputs sample_module \<noteq> []" by (simp add: sample_module_def)
  from dead_code_eliminate_correct [OF sample_module_ok this]
  have "\<exists>m'. dead_code_eliminate sample_module = Inr (length (nodes sample_module) - length (nodes m'), m')
      \<and> module_ok m'" by blast
  moreover have "length (nodes sample_module) = 3" by (simp add: sample_module_def)
  ultimately show ?thesis by (simp only:)
qed

text \<open>An output id that names no node is skipped by the worklist and then indexes the table.\<close>

lemma dead_code_invalid_output:
  "dead_code_eliminate (sample_module\<lparr>outputs := [7]\<rparr>) = Inl UndefinedBehavior"
  by (simp add: dead_code_eliminate_def sample_module_def keep_node_def vec_at_def map_at_def Let_def
      numeral_3_eq_3)

end
