(* ===== verification/Tile_Planner.thy ===== *)
theory Tile_Planner
  imports Compiler_Passes
begin

text \<open>
  Tile plans for a matrix product (include/gpuforge/planner.hpp, src/planner.cpp): grid sizes,
  padding and shared memory for a schedule's tiles. Arithmetic on \<open>int\<close> that leaves the 32-bit
  range and divisions by zero are undefined behaviour, a branch of the result.
\<close>

section \<open>Plans\<close>

datatype kernel_kind = CudaTiled | WmmaTensorCore | Fallback

record tile_plan =
  tp_kind :: kernel_kind
  tile_m :: int
  tile_n :: int
  tile_k :: int
  grid_m :: int
  grid_n :: int
  shared_bytes :: nat
  padded :: bool
  reason :: string

definition default_plan :: tile_plan where
  "default_plan =
     \<lparr>tp_kind = Fallback, tile_m = 16, tile_n = 16, tile_k = 16, grid_m = 0, grid_n = 0,
      shared_bytes = 0, padded = False, reason = []\<rparr>"

definition div_int :: "int \<Rightarrow> int \<Rightarrow> int result" where
  "div_int a b = (if b = 0 then Inl UndefinedBehavior else Inr (c_div a b))"

definition mod_int :: "int \<Rightarrow> int \<Rightarrow> int result" where
  "mod_int a b = (if b = 0 then Inl UndefinedBehavior else Inr (c_mod a b))"

definition matrix_shape :: "shape \<Rightarrow> bool" where
  "matrix_shape s \<longleftrightarrow> length (dims s) = 2"

definition aligned :: "shape \<Rightarrow> int \<Rightarrow> bool" where
  "aligned s tile \<longleftrightarrow> matrix_shape s \<and> c_mod (dims s ! 0) tile = 0 \<and> c_mod (dims s ! 1) tile = 0"

definition grid_size :: "int \<Rightarrow> int \<Rightarrow> int result" where
  "grid_size extent tile =
     bind_result (check32 (i32 extent + tile)) (\<lambda>a. bind_result (check32 (a - 1)) (\<lambda>b. div_int b tile))"

definition needs_padding :: "int \<Rightarrow> int \<Rightarrow> int \<Rightarrow> schedule \<Rightarrow> bool result" where
  "needs_padding m n k s =
     bind_result (mod_int m (block_m s)) (\<lambda>rm. if rm \<noteq> 0 then Inr True else
     bind_result (mod_int n (block_n s)) (\<lambda>rn. if rn \<noteq> 0 then Inr True else
     bind_result (mod_int k (block_k s)) (\<lambda>rk. Inr (rk \<noteq> 0))))"

definition plan :: "shape \<Rightarrow> shape \<Rightarrow> schedule \<Rightarrow> tile_plan result" where
  "plan lhs rhs sched =
     (let p = default_plan\<lparr>tile_m := block_m sched, tile_n := block_n sched, tile_k := block_k sched\<rparr>
      in if \<not> matrix_shape lhs \<or> \<not> matrix_shape rhs
         then Inr (p\<lparr>reason := ''matmul requires rank-2 tensors''\<rparr>)
         else if dims lhs ! 1 \<noteq> dims rhs ! 0
         then Inr (p\<lparr>reason := ''matmul inner dimensions mismatch''\<rparr>)
         else bind_result (grid_size (dims lhs ! 0) (tile_m p)) (\<lambda>gm.
              bind_result (grid_size (dims rhs ! 1) (tile_n p)) (\<lambda>gn.
              bind_result (needs_padding (dims lhs ! 0) (dims rhs ! 1) (dims lhs ! 1) sched) (\<lambda>pad.
              bind_result (check32 (tile_m p + tile_n p)) (\<lambda>mn.
                let element_bytes = (if stype lhs = F32 then 4 else 2);
                    p = p\<lparr>grid_m := gm, grid_n := gn, padded := pad,
                          shared_bytes := wmul (wmul (u64_of_int (tile_k p)) (u64_of_int mn)) element_bytes\<rparr>;
                    wmma_shape = aligned lhs 16 \<and> aligned rhs 16 \<and> c_mod (dims lhs ! 1) 16 = 0
                in Inr (if tensor_core sched \<and> stype lhs \<noteq> F32 \<and> wmma_shape
                        then p\<lparr>tp_kind := WmmaTensorCore, tile_m := 16, tile_n := 16, tile_k := 16,
                               reason := ''aligned WMMA Tensor Core path''\<rparr>
                        else p\<lparr>tp_kind := CudaTiled,
                               reason := (if padded p then ''boundary guarded tiled path''
                                          else ''shared-memory tiled path'')\<rparr>))))))"

definition plan_candidates :: "shape \<Rightarrow> shape \<Rightarrow> tile_plan list result" where
  "plan_candidates lhs rhs =
     fold_result
       (\<lambda>tile result. bind_result
          (plan lhs rhs (default_schedule\<lparr>block_m := tile, block_n := tile, block_k := min tile 32,
                                         tensor_core := True\<rparr>))
          (\<lambda>p. Inr (result @ [p])))
       [16, 32, 64, 128] []"

definition workspace :: "tile_plan \<Rightarrow> shape \<Rightarrow> nat" where
  "workspace p out =
     (if \<not> padded p then 0 else wmul (elements out) (if stype out = F32 then 4 else 2))"

definition explain :: "tile_plan \<Rightarrow> string" where
  "explain p =
     reason p @ '' tile='' @ int_to_string (tile_m p) @ ''x'' @ int_to_string (tile_n p)
       @ ''x'' @ int_to_string (tile_k p) @ '' grid='' @ int_to_string (grid_m p) @ ''x''
       @ int_to_string (grid_n p) @ '' shared='' @ nat_to_string (shared_bytes p)
       @ '' padded='' @ bool_to_string (padded p)"

section \<open>Coverage\<close>

definition covers :: "int \<Rightarrow> int \<Rightarrow> int \<Rightarrow> bool" where
  "covers grid tile extent \<longleftrightarrow> extent \<le> grid * tile \<and> (grid - 1) * tile < extent + (if extent = 0 then 1 else 0)"

lemma ceil_div:
  fixes d t :: int
  assumes "0 \<le> d" "0 < t"
  shows "covers ((d + t - 1) div t) t d"
proof -
  let ?q = "(d + t - 1) div t"
  have "t * ?q + (d + t - 1) mod t = d + t - 1" by simp
  moreover have "0 \<le> (d + t - 1) mod t" "(d + t - 1) mod t < t" using assms by simp_all
  ultimately have "d \<le> t * ?q" "t * ?q < d + t" using assms by linarith+
  then show ?thesis by (auto simp: covers_def algebra_simps)
qed

lemma grid_size_exact:
  assumes "0 \<le> d" "0 < t" "d + t < 2 ^ 31"
  shows "grid_size d t = Inr ((d + t - 1) div t)"
  using assms by (simp add: grid_size_def check32_def div_int_def i32_exact c_div_nonneg)

text \<open>
  a tiled plan covers the output: for a schedule with positive tiles and dimensions that fit
  an \<open>int\<close> with a tile to spare, planning succeeds; unless it takes the tensor-core path, the
  grid times the tile covers both output dimensions with less than one tile to spare, and the
  plan is marked padded exactly when some dimension is not a multiple of its tile, so an
  unpadded grid covers the output exactly.
\<close>

theorem plan_covers:
  assumes l: "dims lhs = [m, k]" and r: "dims rhs = [k, n]" and pos: "0 \<le> m" "0 \<le> k" "0 \<le> n"
    and tiles: "0 < block_m s" "0 < block_n s" "0 < block_k s"
    and small: "m + block_m s < 2 ^ 31" "n + block_n s < 2 ^ 31" "block_m s + block_n s < 2 ^ 31"
  shows "\<exists>p. plan lhs rhs s = Inr p
    \<and> (tp_kind p = WmmaTensorCore \<longleftrightarrow> tensor_core s \<and> stype lhs \<noteq> F32 \<and> 16 dvd m \<and> 16 dvd k \<and> 16 dvd n)
    \<and> (tp_kind p \<noteq> WmmaTensorCore \<longrightarrow>
         covers (grid_m p) (tile_m p) m \<and> covers (grid_n p) (tile_n p) n
         \<and> (padded p \<longleftrightarrow> \<not> (block_m s dvd m \<and> block_n s dvd n \<and> block_k s dvd k))
         \<and> (\<not> padded p \<longrightarrow> grid_m p * tile_m p = m \<and> grid_n p * tile_n p = n))"
proof -
  let ?gm = "(m + block_m s - 1) div block_m s" and ?gn = "(n + block_n s - 1) div block_n s"
  have g: "grid_size m (block_m s) = Inr ?gm" "grid_size n (block_n s) = Inr ?gn"
    using pos tiles small by (simp_all add: grid_size_exact)
  have c: "check32 (block_m s + block_n s) = Inr (block_m s + block_n s)"
    using tiles small by (simp add: check32_def)
  have md: "needs_padding m n k s = Inr (\<not> (block_m s dvd m \<and> block_n s dvd n \<and> block_k s dvd k))"
    using pos tiles by (auto simp: needs_padding_def mod_int_def c_mod_nonneg dvd_eq_mod_eq_0)
  have al: "c_mod m 16 = 0 \<longleftrightarrow> 16 dvd m" "c_mod k 16 = 0 \<longleftrightarrow> 16 dvd k" "c_mod n 16 = 0 \<longleftrightarrow> 16 dvd n"
    using pos by (simp_all add: c_mod_nonneg dvd_eq_mod_eq_0)
  have exact: "(d + t - 1) div t * t = d" if "t dvd d" "0 < t" for d t :: int
  proof -
    from that obtain q where "d = t * q" by blast
    moreover have "(t * q + (t - 1)) div t = q" using that(2) by simp
    ultimately show ?thesis by (simp add: add_diff_eq)
  qed
  have cov: "covers ?gm (block_m s) m" "covers ?gn (block_n s) n"
    using ceil_div pos tiles by blast+
  obtain p where p: "plan lhs rhs s = Inr p"
    "tp_kind p = (if tensor_core s \<and> stype lhs \<noteq> F32 \<and> 16 dvd m \<and> 16 dvd k \<and> 16 dvd n
       then WmmaTensorCore else CudaTiled)"
    "tp_kind p \<noteq> WmmaTensorCore \<longrightarrow> tile_m p = block_m s \<and> tile_n p = block_n s"
    "grid_m p = ?gm" "grid_n p = ?gn"
    "padded p \<longleftrightarrow> \<not> (block_m s dvd m \<and> block_n s dvd n \<and> block_k s dvd k)"
    by (simp add: plan_def Let_def matrix_shape_def l r g c md al aligned_def default_plan_def)
  have "grid_m p * block_m s = m \<and> grid_n p * block_n s = n" if "\<not> padded p"
    unfolding p(4,5) using exact tiles(1,2) that p(6) by blast
  with p cov show ?thesis by (intro exI [of _ p]) simp
qed

theorem plan_covers_witness:
  "\<exists>p. plan \<lparr>dims = [100, 64], stype = F32, slayout = RowMajor\<rparr>
     \<lparr>dims = [64, 30], stype = F32, slayout = RowMajor\<rparr> default_schedule = Inr p
     \<and> covers (grid_m p) (tile_m p) 100 \<and> padded p"
proof -
  let ?l = "\<lparr>dims = [100, 64], stype = F32, slayout = RowMajor\<rparr>"
  let ?r = "\<lparr>dims = [64, 30], stype = F32, slayout = RowMajor\<rparr>"
  have "\<exists>p. plan ?l ?r default_schedule = Inr p
    \<and> (tp_kind p = WmmaTensorCore \<longleftrightarrow> tensor_core default_schedule \<and> stype ?l \<noteq> F32
         \<and> 16 dvd (100 :: int) \<and> 16 dvd (64 :: int) \<and> 16 dvd (30 :: int))
    \<and> (tp_kind p \<noteq> WmmaTensorCore \<longrightarrow>
         covers (grid_m p) (tile_m p) 100 \<and> covers (grid_n p) (tile_n p) 30
         \<and> (padded p \<longleftrightarrow> \<not> (block_m default_schedule dvd 100 \<and> block_n default_schedule dvd 30
               \<and> block_k default_schedule dvd 64))
         \<and> (\<not> padded p \<longrightarrow> grid_m p * tile_m p = 100 \<and> grid_n p * tile_n p = 30))"
    by (rule plan_covers) (simp_all add: default_schedule_def)
  then show ?thesis by (auto simp: default_schedule_def)
qed

text \<open>
  On the tensor-core path the tiles become 16 after the grid was computed from the schedule's
  blocks: the grid no longer covers the output.
\<close>

lemma wmma_grid_mismatch:
  "\<exists>p. plan \<lparr>dims = [128, 128], stype = F16, slayout = RowMajor\<rparr>
     \<lparr>dims = [128, 128], stype = F16, slayout = RowMajor\<rparr> default_schedule = Inr p
     \<and> tp_kind p = WmmaTensorCore \<and> grid_m p * tile_m p = 16 \<and> \<not> covers (grid_m p) (tile_m p) 128"
  by (simp add: plan_def Let_def matrix_shape_def grid_size_exact default_schedule_def default_plan_def
      needs_padding_def mod_int_def c_mod_nonneg check32_def aligned_def covers_def)

end
