(* ===== verification/Ordered_Map.thy ===== *)
theory Ordered_Map
  imports Prelude "HOL-Library.List_Lexorder" "HOL-Library.Char_ord" "HOL-Library.Product_Lexorder"
begin

text \<open>
  \<open>std::map\<close>: an association list in strictly ascending order of the keys, so that iteration
  is the list's order. Tuples are ordered lexicographically and strings by their characters,
  as \<open>operator<\<close> orders them. The components use maps through the laws of \<open>map_interface\<close>.
\<close>

type_synonym ('k, 'v) omap = "('k \<times> 'v) list"

abbreviation omap_get :: "('k, 'v) omap \<Rightarrow> 'k \<Rightarrow> 'v option" where
  "omap_get \<equiv> map_of"

fun omap_put :: "'k :: linorder \<Rightarrow> 'v \<Rightarrow> ('k, 'v) omap \<Rightarrow> ('k, 'v) omap" where
  "omap_put k v [] = [(k, v)]"
| "omap_put k v ((k', v') # m) =
     (if k < k' then (k, v) # (k', v') # m
      else if k = k' then (k, v) # m
      else (k', v') # omap_put k v m)"

fun omap_erase :: "'k \<Rightarrow> ('k, 'v) omap \<Rightarrow> ('k, 'v) omap" where
  "omap_erase k [] = []"
| "omap_erase k ((k', v') # m) = (if k = k' then m else (k', v') # omap_erase k m)"

text \<open>\<open>lower_bound\<close>: the first entry whose key is not below the argument.\<close>

fun omap_lower_bound :: "'k :: linorder \<Rightarrow> ('k, 'v) omap \<Rightarrow> ('k \<times> 'v) option" where
  "omap_lower_bound k [] = None"
| "omap_lower_bound k ((k', v') # m) = (if k \<le> k' then Some (k', v') else omap_lower_bound k m)"

definition omap_ok :: "('k :: linorder, 'v) omap \<Rightarrow> bool" where
  "omap_ok m \<longleftrightarrow> sorted_wrt (<) (map fst m)"

lemma omap_ok_Nil [simp]: "omap_ok []"
  by (simp add: omap_ok_def)

lemma omap_ok_Cons [simp]:
  "omap_ok ((k, v) # m) \<longleftrightarrow> (\<forall>k' \<in> fst ` set m. k < k') \<and> omap_ok m"
  by (simp add: omap_ok_def)

lemma omap_put_keys: "fst ` set (omap_put k v m) = insert k (fst ` set m)"
  by (induction k v m rule: omap_put.induct) auto

lemma omap_erase_keys: "fst ` set (omap_erase k m) \<subseteq> fst ` set m"
  by (induction k m rule: omap_erase.induct) auto

lemma omap_get_put: "omap_get (omap_put k v m) = (omap_get m)(k \<mapsto> v)"
  by (induction k v m rule: omap_put.induct) auto

lemma omap_put_ok: "omap_ok m \<Longrightarrow> omap_ok (omap_put k v m)"
  by (induction k v m rule: omap_put.induct) (auto simp: omap_put_keys)

lemma omap_get_erase: "omap_ok m \<Longrightarrow> omap_get (omap_erase k m) = (omap_get m)(k := None)"
proof (induction k m rule: omap_erase.induct)
  case (2 k k' v' m)
  show ?case
  proof (cases "k = k'")
    case True
    with "2.prems" have "k \<notin> fst ` set m" by auto
    then have "omap_get m k = None" by (simp add: map_of_eq_None_iff)
    with True show ?thesis by (auto simp: fun_eq_iff)
  next
    case False
    with 2 show ?thesis by (auto simp: fun_eq_iff)
  qed
qed simp

lemma omap_erase_ok: "omap_ok m \<Longrightarrow> omap_ok (omap_erase k m)"
proof (induction k m rule: omap_erase.induct)
  case (2 k k' v' m)
  from "2.prems" have "\<forall>j \<in> fst ` set m. k' < j" by simp
  with omap_erase_keys [of k m] have "\<forall>j \<in> fst ` set (omap_erase k m). k' < j" by blast
  with 2 show ?case by simp
qed simp

lemma omap_lower_bound_Some:
  assumes "omap_ok m" "omap_lower_bound k m = Some (k', v)"
  shows "k \<le> k' \<and> omap_get m k' = Some v \<and> (\<forall>j \<in> fst ` set m. k \<le> j \<longrightarrow> k' \<le> j)"
  using assms
proof (induction k m rule: omap_lower_bound.induct)
  case (2 k k1 v1 m)
  then show ?case by (cases "k \<le> k1") (auto split: if_splits)
qed simp

lemma omap_lower_bound_None: "omap_lower_bound k m = None \<Longrightarrow> j \<in> fst ` set m \<Longrightarrow> j < k"
  by (induction k m rule: omap_lower_bound.induct) (auto split: if_splits)

lemma omap_get_in_set: "omap_get m k = Some v \<Longrightarrow> (k, v) \<in> set m"
  by (rule map_of_SomeD)

section \<open>The interface\<close>

locale map_interface =
  fixes empty :: 'm
    and lookup :: "'m \<Rightarrow> 'k \<Rightarrow> 'v option"
    and update :: "'k \<Rightarrow> 'v \<Rightarrow> 'm \<Rightarrow> 'm"
    and delete :: "'k \<Rightarrow> 'm \<Rightarrow> 'm"
    and ok :: "'m \<Rightarrow> bool"
  assumes empty_ok: "ok empty"
    and lookup_empty: "lookup empty k = None"
    and update_ok: "ok m \<Longrightarrow> ok (update k v m)"
    and lookup_update: "ok m \<Longrightarrow> lookup (update k v m) j = (if j = k then Some v else lookup m j)"
    and delete_ok: "ok m \<Longrightarrow> ok (delete k m)"
    and lookup_delete: "ok m \<Longrightarrow> lookup (delete k m) j = (if j = k then None else lookup m j)"
begin

text \<open>
  A table of computed values: looked up first, computed and stored when absent. It never
  changes what the function returns.
\<close>

definition memo :: "('k \<Rightarrow> 'v) \<Rightarrow> 'm \<Rightarrow> 'k \<Rightarrow> 'v \<times> 'm" where
  "memo f m k = (case lookup m k of Some v \<Rightarrow> (v, m) | None \<Rightarrow> (f k, update k (f k) m))"

definition caches :: "('k \<Rightarrow> 'v) \<Rightarrow> 'm \<Rightarrow> bool" where
  "caches f m \<longleftrightarrow> ok m \<and> (\<forall>k v. lookup m k = Some v \<longrightarrow> v = f k)"

lemma caches_empty: "caches f empty"
  by (simp add: caches_def empty_ok lookup_empty)

lemma memo_correct: "caches f m \<Longrightarrow> fst (memo f m k) = f k \<and> caches f (snd (memo f m k))"
  by (auto simp: caches_def memo_def lookup_update update_ok split: option.splits)

text \<open>An accumulator per key: the entry for a key is what was folded into it.\<close>

definition bump :: "'v \<Rightarrow> ('v \<Rightarrow> 'v) \<Rightarrow> 'k \<Rightarrow> 'm \<Rightarrow> 'm" where
  "bump z f k m = update k (f (case lookup m k of None \<Rightarrow> z | Some v \<Rightarrow> v)) m"

lemma bump_ok: "ok m \<Longrightarrow> ok (bump z f k m)"
  by (simp add: bump_def update_ok)

lemma lookup_bump:
  "ok m \<Longrightarrow> lookup (bump z f k m) j =
     (if j = k then Some (f (case lookup m k of None \<Rightarrow> z | Some v \<Rightarrow> v)) else lookup m j)"
  by (simp add: bump_def lookup_update)

end

interpretation om: map_interface "[]" "omap_get :: ('k :: linorder, 'v) omap \<Rightarrow> 'k \<Rightarrow> 'v option"
    omap_put omap_erase omap_ok
  by unfold_locales (simp_all add: omap_get_put omap_get_erase omap_put_ok omap_erase_ok)

end
