(* ===== verification/Tuning.thy ===== *)
theory Tuning
  imports Kernels Ordered_Map "HOL-Library.Multiset"
begin

text \<open>
  The tuning database and the search space (include/gpuforge/tuning.hpp, src/tuning.cpp).
  \<open>std::sort\<close> is not stable, so what it does to equal latencies is unspecified: it is a
  parameter with the contract \<open>latency_sort\<close>, which insertion sort meets. Printing a \<open>double\<close>
  and the extraction of a line's fields by \<open>operator>>\<close> are parameters too.
\<close>

section \<open>Results\<close>

record 'f tune_result =
  config :: gemm_config
  latency_ms :: 'f
  throughput :: 'f
  valid :: bool

definition no_result :: "'f fops \<Rightarrow> 'f tune_result" where
  "no_result ops =
     \<lparr>config = default_gemm_config, latency_ms = f_dec ops 0 0, throughput = f_dec ops 0 0, valid = False\<rparr>"

type_synonym 'f tune_db = "(nat \<times> nat \<times> nat, 'f tune_result list) omap"

section \<open>The database\<close>

definition record_result ::
  "('f tune_result list \<Rightarrow> 'f tune_result list) \<Rightarrow> nat \<times> nat \<times> nat \<Rightarrow> 'f tune_result
    \<Rightarrow> 'f tune_db \<Rightarrow> 'f tune_db" where
  "record_result sort_entries key r db =
     (let entries = (case omap_get db key of None \<Rightarrow> [] | Some es \<Rightarrow> es) @ [r\<lparr>valid := True\<rparr>];
          entries = sort_entries entries
      in omap_put key (if length entries > 32 then take 32 entries else entries) db)"

definition best :: "'f fops \<Rightarrow> 'f tune_db \<Rightarrow> nat \<times> nat \<times> nat \<Rightarrow> 'f tune_result" where
  "best ops db key =
     (case omap_get db key of
        None \<Rightarrow> no_result ops
      | Some es \<Rightarrow> if es = [] then no_result ops else hd es)"

definition candidates :: "'f tune_db \<Rightarrow> nat \<times> nat \<times> nat \<Rightarrow> 'f tune_result list" where
  "candidates db key = (case omap_get db key of None \<Rightarrow> [] | Some es \<Rightarrow> es)"

definition serialize_result ::
  "('f \<Rightarrow> string) \<Rightarrow> nat \<times> nat \<times> nat \<Rightarrow> 'f tune_result \<Rightarrow> string" where
  "serialize_result print key r =
     (case key of (m, n, k) \<Rightarrow>
        nat_to_string m @ '','' @ nat_to_string n @ '','' @ nat_to_string k @ '',''
          @ int_to_string (gtile (config r)) @ '','' @ int_to_string (gwarps (config r)) @ '',''
          @ (if use_tensor_core (config r) then ''1'' else ''0'') @ '','' @ print (latency_ms r) @ '',''
          @ print (throughput r) @ [CHR 0x0A])"

definition serialize :: "('f \<Rightarrow> string) \<Rightarrow> 'f tune_db \<Rightarrow> string" where
  "serialize print db =
     concat (map (\<lambda>(key, results). concat (map (serialize_result print key) results)) db)"

text \<open>
  \<open>std::getline\<close> over the whole file: the lines without their newlines; an unterminated last
  line counts unless it is empty.
\<close>

fun getlines :: "string \<Rightarrow> string \<Rightarrow> string list" where
  "getlines acc [] = (if acc = [] then [] else [acc])"
| "getlines acc (c # cs) = (if c = CHR 0x0A then acc # getlines [] cs else getlines (acc @ [c]) cs)"

definition load_text ::
  "('f tune_result list \<Rightarrow> 'f tune_result list)
    \<Rightarrow> (string \<Rightarrow> ((nat \<times> nat \<times> nat) \<times> int \<times> int \<times> int \<times> 'f \<times> 'f) option)
    \<Rightarrow> string \<Rightarrow> 'f tune_db \<Rightarrow> 'f tune_db" where
  "load_text sort_entries extract content db =
     fold (\<lambda>line db. case extract line of
             None \<Rightarrow> db
           | Some (key, tile, warps, tc, lat, thr) \<Rightarrow>
               record_result sort_entries key
                 \<lparr>config = \<lparr>gtile = tile, gwarps = warps, use_tensor_core = tc \<noteq> 0\<rparr>,
                  latency_ms = lat, throughput = thr, valid = False\<rparr> db)
       (getlines [] content) db"

section \<open>Search\<close>

definition gemm_space :: "nat \<Rightarrow> nat \<Rightarrow> nat \<Rightarrow> gemm_config list" where
  "gemm_space m n k =
     concat (map (\<lambda>tile. concat (map (\<lambda>warps. concat (map (\<lambda>tc.
       if tc \<and> k mod 16 \<noteq> 0 then []
       else if m mod nat tile \<noteq> 0 \<and> n mod nat tile \<noteq> 0 then []
       else [\<lparr>gtile = tile, gwarps = warps, use_tensor_core = tc\<rparr>])
       [False, True])) [2, 4, 8])) [8, 16, 32])"

definition result_less :: "'f fops \<Rightarrow> 'f tune_result \<Rightarrow> 'f tune_result \<Rightarrow> bool" where
  "result_less ops a b =
     (if \<not> valid a then False else if \<not> valid b then True else f_less ops (latency_ms a) (latency_ms b))"

text \<open>\<open>std::min_element\<close>: the first element no other is below.\<close>

fun min_element :: "('a \<Rightarrow> 'a \<Rightarrow> bool) \<Rightarrow> 'a \<Rightarrow> 'a list \<Rightarrow> 'a" where
  "min_element lt m [] = m"
| "min_element lt m (x # xs) = min_element lt (if lt x m then x else m) xs"

definition select :: "'f fops \<Rightarrow> 'f tune_result list \<Rightarrow> 'f tune_result" where
  "select ops results =
     (case results of [] \<Rightarrow> no_result ops | r # rs \<Rightarrow> min_element (result_less ops) r rs)"

section \<open>The sorting contract\<close>

locale latency_sort = float_order ops for ops :: "'f fops" +
  fixes sort_entries :: "'f tune_result list \<Rightarrow> 'f tune_result list"
  assumes sort_mset: "mset (sort_entries es) = mset es"
    and sort_sorted: "sorted_wrt (\<lambda>a b. \<not> f_less ops (latency_ms b) (latency_ms a)) (sort_entries es)"
begin

lemma sort_length [simp]: "length (sort_entries es) = length es"
  using sort_mset [of es] by (metis size_mset)

lemma sort_set [simp]: "set (sort_entries es) = set es"
  using sort_mset [of es] by (metis set_mset_mset)

lemma sort_hd: "es \<noteq> [] \<Longrightarrow> r \<in> set es \<Longrightarrow> \<not> f_less ops (latency_ms r) (latency_ms (hd (sort_entries es)))"
proof -
  assume es: "es \<noteq> []" "r \<in> set es"
  then obtain x xs where s: "sort_entries es = x # xs" by (cases "sort_entries es") (metis sort_length length_0_conv, blast)
  have "r = x \<or> r \<in> set xs" using sort_set [of es] s es(2) by auto
  moreover have "\<forall>y \<in> set xs. \<not> f_less ops (latency_ms y) (latency_ms x)"
    using sort_sorted [of es] s by simp
  ultimately show ?thesis using s less_irrefl by auto
qed

text \<open>
  The entries of a key after any history of records: valid, at most 32, recorded ones, and the
  first one is as fast as anything ever recorded for the key.
\<close>

definition history_ok :: "'f tune_result list \<Rightarrow> 'f tune_result list \<Rightarrow> bool" where
  "history_ok hist es \<longleftrightarrow>
     length es \<le> 32 \<and> (es = [] \<longleftrightarrow> hist = [])
     \<and> set es \<subseteq> (\<lambda>r. r\<lparr>valid := True\<rparr>) ` set hist
     \<and> (\<forall>r \<in> set hist. es \<noteq> [] \<longrightarrow> \<not> f_less ops (latency_ms r) (latency_ms (hd es)))"

lemma history_record:
  assumes "history_ok hist es"
  shows "history_ok (hist @ [r]) (take 32 (sort_entries (es @ [r\<lparr>valid := True\<rparr>])))"
proof -
  let ?es = "es @ [r\<lparr>valid := True\<rparr>]" and ?s = "sort_entries (es @ [r\<lparr>valid := True\<rparr>])"
  have ne: "?s \<noteq> []" using sort_length [of ?es] by fastforce
  have hd: "hd (take 32 ?s) = hd ?s" using ne by (cases ?s) simp_all
  have "\<not> f_less ops (latency_ms x) (latency_ms (hd ?s))" if x: "x \<in> set (hist @ [r])" for x
  proof (cases "x = r")
    case True
    with sort_hd [of ?es "r\<lparr>valid := True\<rparr>"] show ?thesis by simp
  next
    case False
    with x have xh: "x \<in> set hist" by simp
    with assms have es: "es \<noteq> []" by (auto simp: history_ok_def)
    with assms xh have "\<not> f_less ops (latency_ms x) (latency_ms (hd es))" by (simp add: history_ok_def)
    moreover have "\<not> f_less ops (latency_ms (hd es)) (latency_ms (hd ?s))"
      by (rule sort_hd) (use es in simp_all)
    ultimately show ?thesis using not_less_trans by blast
  qed
  moreover have "set (take 32 ?s) \<subseteq> (\<lambda>r. r\<lparr>valid := True\<rparr>) ` set (hist @ [r])"
    using set_take_subset [of 32 ?s] assms by (auto simp: history_ok_def)
  ultimately show ?thesis using ne hd by (auto simp: history_ok_def)
qed

end

fun insert_result :: "'f fops \<Rightarrow> 'f tune_result \<Rightarrow> 'f tune_result list \<Rightarrow> 'f tune_result list" where
  "insert_result ops x [] = [x]"
| "insert_result ops x (y # ys) =
     (if f_less ops (latency_ms x) (latency_ms y) then x # y # ys else y # insert_result ops x ys)"

definition insertion_sort :: "'f fops \<Rightarrow> 'f tune_result list \<Rightarrow> 'f tune_result list" where
  "insertion_sort ops es = foldr (insert_result ops) es []"

lemma insert_result_mset: "mset (insert_result ops x es) = add_mset x (mset es)"
  by (induction es) simp_all

lemma insert_result_set [simp]: "set (insert_result ops x es) = insert x (set es)"
  by (induction es) auto

context float_order
begin

lemma insert_result_sorted:
  "sorted_wrt (\<lambda>a b. \<not> f_less ops (latency_ms b) (latency_ms a)) es \<Longrightarrow>
   sorted_wrt (\<lambda>a b. \<not> f_less ops (latency_ms b) (latency_ms a)) (insert_result ops x es)"
proof (induction es)
  case (Cons y es)
  show ?case
  proof (cases "f_less ops (latency_ms x) (latency_ms y)")
    case True
    then have "\<not> f_less ops (latency_ms y) (latency_ms x)" by (rule less_asym)
    with Cons.prems True not_less_trans show ?thesis by auto
  qed (use Cons in auto)
qed simp

lemma insertion_sort_contract:
  "mset (insertion_sort ops es) = mset es"
  "sorted_wrt (\<lambda>a b. \<not> f_less ops (latency_ms b) (latency_ms a)) (insertion_sort ops es)"
  unfolding insertion_sort_def
  by (induction es) (simp_all add: insert_result_mset insert_result_sorted)

lemma min_element_least:
  assumes "\<forall>r \<in> set (m # rs). valid r"
  shows "min_element (result_less ops) m rs \<in> set (m # rs)
    \<and> (\<forall>r \<in> set (m # rs). \<not> f_less ops (latency_ms r) (latency_ms (min_element (result_less ops) m rs)))"
  using assms
proof (induction rs arbitrary: m)
  case Nil
  then show ?case by (simp add: less_irrefl)
next
  case (Cons x rs)
  let ?m = "if result_less ops x m then x else m"
  have m: "\<not> f_less ops (latency_ms x) (latency_ms ?m)" "\<not> f_less ops (latency_ms m) (latency_ms ?m)"
    using Cons.prems less_irrefl less_asym by (auto simp: result_less_def)
  have IH: "min_element (result_less ops) ?m rs \<in> set (?m # rs)
    \<and> (\<forall>r \<in> set (?m # rs). \<not> f_less ops (latency_ms r) (latency_ms (min_element (result_less ops) ?m rs)))"
    by (rule Cons.IH) (use Cons.prems in auto)
  then have "\<not> f_less ops (latency_ms ?m) (latency_ms (min_element (result_less ops) ?m rs))" by simp
  with m not_less_trans have "\<not> f_less ops (latency_ms x) (latency_ms (min_element (result_less ops) ?m rs))"
    "\<not> f_less ops (latency_ms m) (latency_ms (min_element (result_less ops) ?m rs))" by blast+
  with IH show ?case by (auto split: if_splits)
qed

lemma min_element_filter:
  "min_element (result_less ops) m rs =
     (case filter valid (m # rs) of [] \<Rightarrow> m | v # vs \<Rightarrow> min_element (result_less ops) v vs)"
proof (induction rs arbitrary: m)
  case (Cons x rs)
  show ?case
  proof (cases "valid m")
    case True
    then show ?thesis using Cons.IH [of m] Cons.IH [of x] by (auto simp: result_less_def)
  next
    case False
    then show ?thesis using Cons.IH [of m] Cons.IH [of x] by (auto simp: result_less_def split: list.splits)
  qed
qed simp

end

interpretation real_sort: latency_sort "real_ops er" "insertion_sort (real_ops er)"
  by unfold_locales (rule real_order.insertion_sort_contract)+

section \<open>Properties\<close>

definition record_all ::
  "('f tune_result list \<Rightarrow> 'f tune_result list) \<Rightarrow> ((nat \<times> nat \<times> nat) \<times> 'f tune_result) list \<Rightarrow> 'f tune_db"
where
  "record_all sort_entries hist = fold (\<lambda>(key, r). record_result sort_entries key r) hist []"

lemma record_result_entries:
  assumes "omap_ok db"
  shows "omap_ok (record_result srt key r db)"
    and "omap_get (record_result srt key r db) key' =
      (if key' = key
       then Some (take 32 (srt ((case omap_get db key of None \<Rightarrow> [] | Some es \<Rightarrow> es) @ [r\<lparr>valid := True\<rparr>])))
       else omap_get db key')"
  using assms by (auto simp: record_result_def Let_def omap_put_ok omap_get_put)

lemma record_all_history:
  assumes srt: "latency_sort ops srt"
  shows "omap_ok (record_all srt hist)
    \<and> latency_sort.history_ok ops (map snd (filter (\<lambda>x. fst x = key) hist)) (candidates (record_all srt hist) key)"
proof (induction hist rule: rev_induct)
  case Nil
  then show ?case by (simp add: record_all_def candidates_def latency_sort.history_ok_def [OF srt])
next
  case (snoc x hist)
  obtain k r where x: "x = (k, r)" by (cases x)
  let ?db = "record_all srt hist"
  have db: "record_all srt (hist @ [x]) = record_result srt k r ?db"
    by (simp add: record_all_def x)
  from snoc have ok: "omap_ok ?db" by simp
  note h = latency_sort.history_record [OF srt conjunct2 [OF snoc], of r]
  note e = record_result_entries [OF ok, of srt k r]
  show ?case
  proof (cases "k = key")
    case True
    with h e(1) show ?thesis
      by (simp add: db candidates_def record_result_entries(2) [OF ok]) (simp add: x)
  next
    case False
    with snoc e(1) show ?thesis by (simp add: db candidates_def e(2)) (simp add: x)
  qed
qed

lemma best_spec:
  assumes srt: "latency_sort ops srt"
  shows "(let recorded = map snd (filter (\<lambda>x. fst x = key) hist); db = record_all srt hist
          in length (candidates db key) \<le> 32
           \<and> (if recorded = [] then best ops db key = no_result ops
              else valid (best ops db key)
                \<and> best ops db key \<in> (\<lambda>r. r\<lparr>valid := True\<rparr>) ` set recorded
                \<and> (\<forall>r \<in> set recorded. \<not> f_less ops (latency_ms r) (latency_ms (best ops db key)))))"
proof -
  let ?rec = "map snd (filter (\<lambda>x. fst x = key) hist)"
  let ?es = "candidates (record_all srt hist) key"
  have h: "latency_sort.history_ok ops ?rec ?es" using record_all_history [OF srt] by blast
  note h' = h [unfolded latency_sort.history_ok_def [OF srt]]
  have b: "best ops (record_all srt hist) key = (if ?es = [] then no_result ops else hd ?es)"
    by (auto simp: best_def candidates_def split: option.splits)
  show ?thesis
  proof (cases "?rec = []")
    case True
    with h' b show ?thesis by (simp add: Let_def)
  next
    case False
    with h' have es: "?es \<noteq> []" by blast
    then have "hd ?es \<in> set ?es" by simp
    with h' have "hd ?es \<in> (\<lambda>r. r\<lparr>valid := True\<rparr>) ` set ?rec" by blast
    moreover from this have "valid (hd ?es)" by auto
    ultimately show ?thesis using h' b es False by (simp add: Let_def del: set_map)
  qed
qed

text \<open>
  the database remembers the best result: whatever was recorded, in whatever order, \<open>best\<close>
  of a shape is a recorded result marked valid that no recorded result for that shape beats,
  also after the entries were cut to 32; without records for the shape it is the invalid
  default. It holds for every sort that meets the contract of \<open>std::sort\<close>.
\<close>

theorem best_of_history:
  assumes srt: "latency_sort ops srt"
  shows "(let recorded = map snd (filter (\<lambda>x. fst x = key) hist); db = record_all srt hist
          in length (candidates db key) \<le> 32
           \<and> (if recorded = [] then best ops db key = no_result ops
              else valid (best ops db key)
                \<and> best ops db key \<in> (\<lambda>r. r\<lparr>valid := True\<rparr>) ` set recorded
                \<and> (\<forall>r \<in> set recorded. \<not> f_less ops (latency_ms r) (latency_ms (best ops db key)))))"
  using srt by (rule best_spec)

theorem best_of_history_witness:
  "latency_ms (best (real_ops id)
     (record_all (insertion_sort (real_ops id))
        [((1, 2, 3), (no_result (real_ops id))\<lparr>latency_ms := 5\<rparr>),
         ((1, 2, 3), (no_result (real_ops id))\<lparr>latency_ms := 4\<rparr>)]) (1, 2, 3)) \<le> 4"
proof -
  let ?h = "[((1, 2, 3), (no_result (real_ops id))\<lparr>latency_ms := 5\<rparr>),
         ((1 :: nat, 2 :: nat, 3 :: nat), (no_result (real_ops id))\<lparr>latency_ms := 4\<rparr>)]"
  have "latency_sort (real_ops id) (insertion_sort (real_ops id))" by (rule real_sort.latency_sort_axioms)
  from best_of_history [OF this, of "(1, 2, 3)" ?h] show ?thesis by (simp add: Let_def)
qed

text \<open>
  \<open>select\<close> returns the fastest valid result: when the list has a valid result, the one
  returned is valid, from the list, and no valid result is faster.
\<close>

theorem select_fastest_valid:
  assumes ord: "float_order ops" and ex: "\<exists>r \<in> set rs. valid r"
  shows "select ops rs \<in> set rs \<and> valid (select ops rs)
    \<and> (\<forall>r \<in> set rs. valid r \<longrightarrow> \<not> f_less ops (latency_ms r) (latency_ms (select ops rs)))"
proof -
  obtain r0 rs0 where rs: "rs = r0 # rs0" using ex by (cases rs) auto
  obtain v vs where f: "filter valid rs = v # vs" using ex by (cases "filter valid rs") (auto simp: filter_empty_conv)
  have s: "select ops rs = min_element (result_less ops) v vs"
    using float_order.min_element_filter [OF ord, of r0 rs0] f by (simp add: select_def rs)
  have v: "set (v # vs) = {r \<in> set rs. valid r}" by (metis f set_filter)
  then have "\<forall>r \<in> set (v # vs). valid r" by blast
  from float_order.min_element_least [OF ord this] show ?thesis unfolding s v by blast
qed

theorem select_fastest_valid_witness:
  "latency_ms (select (real_ops id)
     [no_result (real_ops id), (no_result (real_ops id))\<lparr>latency_ms := 7, valid := True\<rparr>]) = 7"
proof -
  let ?rs = "[no_result (real_ops id), (no_result (real_ops id))\<lparr>latency_ms := 7, valid := True\<rparr>]"
  have "float_order (real_ops id)" by (rule real_order.float_order_axioms)
  from select_fastest_valid [OF this, of ?rs] show ?thesis by (auto simp: no_result_def)
qed

lemma search_grid:
  "c \<in> set (concat (map (\<lambda>x. concat (map (\<lambda>y. concat (map (\<lambda>z.
      if P z then [] else if Q x then [] else [f x y z]) zs)) ys)) xs))
   \<longleftrightarrow> (\<exists>x \<in> set xs. \<exists>y \<in> set ys. \<exists>z \<in> set zs. \<not> P z \<and> \<not> Q x \<and> c = f x y z)"
  by (auto split: if_splits)

lemma config_pick:
  "(\<exists>x \<in> A. \<exists>y \<in> B. \<exists>z \<in> C. \<not> (z \<and> P) \<and> \<not> (Q x \<and> R x) \<and> c = \<lparr>gtile = x, gwarps = y, use_tensor_core = z\<rparr>)
   \<longleftrightarrow> gtile c \<in> A \<and> gwarps c \<in> B \<and> use_tensor_core c \<in> C \<and> \<not> (use_tensor_core c \<and> P)
     \<and> \<not> (Q (gtile c) \<and> R (gtile c))"
  by (cases c) (simp, blast)

lemma gemm_space_spec:
  "c \<in> set (gemm_space m n k) \<longleftrightarrow>
     gtile c \<in> {8, 16, 32} \<and> gwarps c \<in> {2, 4, 8}
     \<and> (use_tensor_core c \<longrightarrow> 16 dvd k) \<and> (nat (gtile c) dvd m \<or> nat (gtile c) dvd n)"
proof -
  have "c \<in> set (gemm_space m n k) \<longleftrightarrow>
     (\<exists>tile \<in> set [8, 16, 32]. \<exists>warps \<in> set [2, 4, 8]. \<exists>tc \<in> set [False, True].
        \<not> (tc \<and> k mod 16 \<noteq> 0) \<and> \<not> (m mod nat tile \<noteq> 0 \<and> n mod nat tile \<noteq> 0)
        \<and> c = \<lparr>gtile = tile, gwarps = warps, use_tensor_core = tc\<rparr>)"
    unfolding gemm_space_def by (rule search_grid)
  also have "\<dots> \<longleftrightarrow> gtile c \<in> set [8, 16, 32] \<and> gwarps c \<in> set [2, 4, 8]
     \<and> use_tensor_core c \<in> set [False, True]
     \<and> \<not> (use_tensor_core c \<and> k mod 16 \<noteq> 0) \<and> \<not> (m mod nat (gtile c) \<noteq> 0 \<and> n mod nat (gtile c) \<noteq> 0)"
    by (rule config_pick)
  finally show ?thesis by (auto simp: dvd_eq_mod_eq_0)
qed

end
