(* ===== verification/Pipeline.thy ===== *)
theory Pipeline
  imports Fusion Dead_Code Tile_Planner Tuning
begin

text \<open>
  The compile pipeline (include/gpuforge/pipeline.hpp, src/pipeline.cpp): validate, fold, lay
  out, fuse, and plan one launch per group, with schedules from the tuning database when one is
  set. The pipeline object's settings are a record; \<open>run\<close> returns the report and the module it
  mutated.
\<close>

section \<open>Reports\<close>

record 'f launch_plan =
  lp_node :: int
  lp_kernel :: string
  lp_schedule :: schedule
  lp_shared_bytes :: nat
  lp_threads :: nat
  lp_estimated_ms :: 'f

record 'f compile_report =
  launches :: "'f launch_plan list"
  diagnostics :: "string list"

definition report_text :: "('f \<Rightarrow> string) \<Rightarrow> 'f compile_report \<Rightarrow> string" where
  "report_text print r =
     concat (map (\<lambda>d. ''diagnostic: '' @ d @ [newline]) (diagnostics r))
       @ concat (map (\<lambda>l. ''node='' @ int_to_string (lp_node l) @ '' kernel='' @ lp_kernel l @ '' ''
           @ schedule_str (lp_schedule l) @ '' shared='' @ nat_to_string (lp_shared_bytes l)
           @ '' threads='' @ nat_to_string (lp_threads l) @ '' est_ms='' @ print (lp_estimated_ms l)
           @ [newline]) (launches r))"

section \<open>The pipeline\<close>

record 'f pipeline =
  tuning :: "'f tune_db option"
  fusion :: bool
  layout_on :: bool

definition pipeline_new :: "'f pipeline" where
  "pipeline_new = \<lparr>tuning = None, fusion = True, layout_on = True\<rparr>"

definition enable_fusion :: "bool \<Rightarrow> 'f pipeline \<Rightarrow> 'f pipeline" where
  "enable_fusion b p = p\<lparr>fusion := b\<rparr>"

definition enable_layout :: "bool \<Rightarrow> 'f pipeline \<Rightarrow> 'f pipeline" where
  "enable_layout b p = p\<lparr>layout_on := b\<rparr>"

definition set_tuning :: "'f tune_db option \<Rightarrow> 'f pipeline \<Rightarrow> 'f pipeline" where
  "set_tuning db p = p\<lparr>tuning := db\<rparr>"

definition tuned_schedule ::
  "'f fops \<Rightarrow> 'f tune_db option \<Rightarrow> 'f node \<Rightarrow> schedule \<Rightarrow> schedule result" where
  "tuned_schedule ops db n s =
     (let ds = dims (vshape_of (node_output n))
      in case db of
           None \<Rightarrow> Inr s
         | Some db \<Rightarrow>
             if length ds \<noteq> 2 then Inr s
             else let b = best ops db (u64_of_int (ds ! 0), u64_of_int (ds ! 1), u64_of_int (last ds))
                  in if \<not> valid b then Inr s
                     else bind_result (check32 (gtile (config b) * 8))
                            (\<lambda>t. Inr (s\<lparr>block_m := t, block_n := t, warps := gwarps (config b),
                                        tensor_core := use_tensor_core (config b)\<rparr>)))"

definition launch_step ::
  "'f fops \<Rightarrow> 'f tune_db option \<Rightarrow> 'f node list \<Rightarrow> fusion_group \<Rightarrow> 'f compile_report
    \<Rightarrow> 'f compile_report result" where
  "launch_step ops db ns grp report =
     (if fg_nodes grp = [] then Inr report
      else bind_result (node_at ns (hd (fg_nodes grp))) (\<lambda>n.
           bind_result (tuned_schedule ops db n (schedule_node n)) (\<lambda>s.
           bind_result (check32 (block_m s + block_n s)) (\<lambda>mn.
             Inr \<lparr>launches = launches report @
                    [\<lparr>lp_node = node_id n, lp_kernel = fg_kernel grp, lp_schedule = s,
                      lp_shared_bytes = wmul (wmul (u64_of_int (block_k s)) (u64_of_int mn)) 2,
                      lp_threads = wmul (u64_of_int (warps s)) 32,
                      lp_estimated_ms = estimate_ms ops n s (f_dec ops 20 0) (f_dec ops 500 0)\<rparr>],
                  diagnostics = diagnostics report @
                    (if \<not> profitable grp then [''small fusion group at node '' @ int_to_string (node_id n)]
                     else [])\<rparr>))))"

definition single_groups :: "'f ir_module \<Rightarrow> fusion_group list" where
  "single_groups m =
     map (\<lambda>n. \<lparr>fg_nodes = [node_id n], fg_kernel = ''node_'' @ int_to_string (node_id n), fg_flops = 1024\<rparr>)
       (nodes m)"

definition run_pipeline :: "'f fops \<Rightarrow> 'f pipeline \<Rightarrow> 'f ir_module \<Rightarrow> ('f compile_report \<times> 'f ir_module) result"
where
  "run_pipeline ops p m =
     bind_result (validate m) (\<lambda>(ok, errors).
       if \<not> ok then Inr (\<lparr>launches = [], diagnostics = errors\<rparr>, m)
       else bind_result (constant_fold ops m) (\<lambda>m.
         let m = (if layout_on p then infer_layout m else m);
             m = canonicalize m
         in bind_result (if fusion p then fuse m else Inr (single_groups m)) (\<lambda>groups.
              bind_result
                (fold_result (launch_step ops (tuning p) (nodes m)) groups \<lparr>launches = [], diagnostics = []\<rparr>)
                (\<lambda>report. Inr (report, m)))))"

section \<open>Layout keeps the meaning\<close>

lemma node_value_layout [simp]: "node_value ops env (set_layout l n) args = node_value ops env n args"
  by (rule node_value_cong) (simp_all add: set_layout_def)

lemma set_layout_simps [simp]:
  "node_id (set_layout l n) = node_id n" "inputs (set_layout l n) = inputs n"
  "value_id (node_output (set_layout l n)) = value_id (node_output n)"
  by (simp_all add: set_layout_def)

lemma infer_layout_ok: "module_ok m \<Longrightarrow> module_ok (infer_layout m)"
  by (auto simp: module_ok_def nodes_ok_def infer_layout_def)

lemma eval_infer_layout: "eval_nodes ops env (nodes (infer_layout m)) = eval_nodes ops env (nodes m)"
proof -
  have "eval_nodes ops env (map (\<lambda>n. if P n then set_layout Tiled16 n else n) ns) = eval_nodes ops env ns" for P ns
    by (induction ns rule: rev_induct) (simp_all add: eval_snoc)
  then show ?thesis by (simp add: infer_layout_def)
qed

lemma folds_exact_infer_layout:
  assumes "length (nodes m') = length ns"
  shows "folds_exact env ns (nodes (infer_layout m')) = folds_exact env ns (nodes m')"
proof -
  have "node_op (nodes (infer_layout m') ! i) = node_op (nodes m' ! i)"
    "constant_data (nodes (infer_layout m') ! i) = constant_data (nodes m' ! i)" if "i < length ns" for i
    using that assms by (simp_all add: infer_layout_def set_layout_def)
  then show ?thesis by (simp add: folds_exact_def)
qed

section \<open>Launches\<close>

definition groups_valid :: "nat \<Rightarrow> fusion_group list \<Rightarrow> bool" where
  "groups_valid n groups \<longleftrightarrow>
     (\<forall>g \<in> set groups. fg_nodes g \<noteq> [] \<and> 0 \<le> hd (fg_nodes g) \<and> hd (fg_nodes g) < int n)"

lemma fuse_groups_valid:
  assumes "module_ok m"
  shows "\<exists>groups. fuse m = Inr groups \<and> groups_valid (length (nodes m)) groups"
proof -
  obtain groups where g: "fuse m = Inr groups"
    "set (concat (map fg_nodes groups)) = {x. 0 \<le> x \<and> x < int (length (nodes m))}"
    "\<forall>g \<in> set groups. fg_nodes g \<noteq> []"
    using fuse_spec [OF assms] by blast
  have "0 \<le> hd (fg_nodes g) \<and> hd (fg_nodes g) < int (length (nodes m))" if "g \<in> set groups" for g
  proof -
    have "hd (fg_nodes g) \<in> set (concat (map fg_nodes groups))" using that g(3) list.set_sel(1) by fastforce
    then show ?thesis unfolding g(2) by simp
  qed
  with g show ?thesis by (auto simp: groups_valid_def)
qed

lemma schedule_node_bounds:
  "block_m (schedule_node n) = 128" "block_n (schedule_node n) \<in> {128, 256}"
  "warps (schedule_node n) = 8" "block_k (schedule_node n) = 32"
  by (simp_all add: schedule_node_def default_schedule_def Let_def)

lemma launch_step_untuned:
  assumes ns: "nodes_ok ns" and g: "fg_nodes g \<noteq> []" "0 \<le> hd (fg_nodes g)" "hd (fg_nodes g) < int (length ns)"
  shows "\<exists>r'. launch_step ops None ns g r = Inr r'
    \<and> (\<exists>l. launches r' = launches r @ [l] \<and> lp_node l = hd (fg_nodes g) \<and> lp_kernel l = fg_kernel g
          \<and> lp_threads l = 256)"
proof -
  let ?i = "nat (hd (fg_nodes g))" and ?n = "ns ! nat (hd (fg_nodes g))"
  have i: "?i < length ns" using g by simp
  have at: "node_at ns (hd (fg_nodes g)) = Inr ?n"
    using node_at_Inr [OF g(2,3)] ns by (simp add: nodes_ok_def)
  have nid: "node_id ?n = hd (fg_nodes g)" using nodes_okD(1) [OF ns i] g(2) by simp
  have "check32 (block_m (schedule_node ?n) + block_n (schedule_node ?n))
      = Inr (block_m (schedule_node ?n) + block_n (schedule_node ?n))"
    using schedule_node_bounds(1,2) [of ?n] by (auto simp: check32_def)
  then show ?thesis
    using g(1) at nid schedule_node_bounds(3) [of ?n]
    by (simp add: launch_step_def tuned_schedule_def wmul_def u64_of_int_def Let_def)
qed

lemma launch_loop:
  assumes ns: "nodes_ok ns" and g: "groups_valid (length ns) groups"
  shows "\<exists>r'. fold_result (launch_step ops None ns) groups r = Inr r'
    \<and> map lp_node (launches r') = map lp_node (launches r) @ map (\<lambda>g. hd (fg_nodes g)) groups
    \<and> map lp_kernel (launches r') = map lp_kernel (launches r) @ map fg_kernel groups
    \<and> (\<forall>l \<in> set (launches r'). l \<in> set (launches r) \<or> lp_threads l = 256)"
  using g
proof (induction groups arbitrary: r)
  case (Cons g groups)
  then obtain r1 l where r1: "launch_step ops None ns g r = Inr r1" "launches r1 = launches r @ [l]"
    "lp_node l = hd (fg_nodes g)" "lp_kernel l = fg_kernel g" "lp_threads l = 256"
    using launch_step_untuned [OF ns, of g ops r] by (auto simp: groups_valid_def)
  have "groups_valid (length ns) groups" using Cons.prems by (simp add: groups_valid_def)
  from Cons.IH [OF this, of r1] r1 show ?case by auto
qed simp

section \<open>Property\<close>

text \<open>
  C10: compiling is safe and keeps the meaning. On a well-formed module and without a tuning
  database, \<open>run\<close> never throws. If the validator rejects the module, the report has its
  messages, no launch, and the module is untouched. If it accepts, the compiled module is
  well-formed; when every sum or product that was folded has operands of the shape of its result, and
  every folded cast changes no element, its outputs have the values they had, in the meaning stated
  apart from the passes (whether or not fusion and layout are on, for every arithmetic). Every launch
  has 256 threads; with fusion off there is exactly one launch per node, in order, and with fusion on
  one per group that \<open>fuse\<close> finds in the compiled module, at its first node.
\<close>

theorem pipeline_preserves_meaning:
  assumes ok: "module_ok m" and tun: "tuning p = None"
  shows "\<exists>report m' errors. run_pipeline ops p m = Inr (report, m') \<and> validate m = Inr (errors = [], errors)
    \<and> (errors \<noteq> [] \<longrightarrow> report = \<lparr>launches = [], diagnostics = errors\<rparr> \<and> m' = m)
    \<and> (errors = [] \<longrightarrow> module_ok m' \<and> length (nodes m') = length (nodes m)
         \<and> (folds_exact env (nodes m) (nodes m') \<longrightarrow> eval_outputs ops env m' = eval_outputs ops env m)
         \<and> (\<forall>l \<in> set (launches report). lp_threads l = 256)
         \<and> (\<not> fusion p \<longrightarrow> map lp_node (launches report) = map int [0..<length (nodes m)])
         \<and> (fusion p \<longrightarrow> (\<exists>groups. fuse m' = Inr groups
               \<and> map lp_node (launches report) = map (\<lambda>g. hd (fg_nodes g)) groups)))"
proof -
  have ns: "nodes_ok (nodes m)" using ok by (simp add: module_ok_def)
  then have ids: "\<forall>i < length (nodes m). node_id (nodes m ! i) = int i" "length (nodes m) < 2 ^ 31"
    by (simp_all add: nodes_ok_def)
  obtain errors where v: "validate m = Inr (errors = [], errors)" using validate_total [OF ids(2,1)] by blast
  show ?thesis
  proof (cases "errors = []")
    case False
    with v show ?thesis by (simp add: run_pipeline_def)
  next
    case True
    obtain m1 where m1: "constant_fold ops m = Inr m1" "module_ok m1" "outputs m1 = outputs m"
      "folds_exact env (nodes m) (nodes m1) \<longrightarrow> eval_nodes ops env (nodes m1) = eval_nodes ops env (nodes m)"
      "length (nodes m1) = length (nodes m)"
      using constant_fold_keeps [OF ok] by blast
    let ?m = "if layout_on p then infer_layout m1 else m1"
    have m2: "module_ok ?m" "length (nodes ?m) = length (nodes m)"
      using m1(2,5) infer_layout_ok [OF m1(2)] by (auto simp: infer_layout_def)
    have ev: "eval_outputs ops env ?m = eval_outputs ops env m" if "folds_exact env (nodes m) (nodes ?m)"
    proof -
      have "folds_exact env (nodes m) (nodes m1)"
        using that folds_exact_infer_layout [OF m1(5)] by (auto split: if_splits)
      then have "eval_nodes ops env (nodes ?m) = eval_nodes ops env (nodes m)"
        using m1(4) by (simp add: eval_infer_layout)
      moreover have "outputs ?m = outputs m" using m1(3) by (simp add: infer_layout_def)
      ultimately show ?thesis by (simp only: eval_outputs_def)
    qed
    have ns2: "nodes_ok (nodes ?m)" using m2(1) by (simp add: module_ok_def)
    obtain groups where g: "(if fusion p then fuse ?m else Inr (single_groups ?m)) = Inr groups"
      "groups_valid (length (nodes ?m)) groups"
      "\<not> fusion p \<longrightarrow> map (\<lambda>g. hd (fg_nodes g)) groups = map int [0..<length (nodes ?m)]"
    proof (cases "fusion p")
      case True
      then show thesis using that fuse_groups_valid [OF m2(1)] by auto
    next
      case False
      have "map (\<lambda>g. hd (fg_nodes g)) (single_groups ?m) = map int [0..<length (nodes ?m)]"
        using nodes_okD(1) [OF ns2] by (intro nth_equalityI) (simp_all add: single_groups_def)
      moreover have "groups_valid (length (nodes ?m)) (single_groups ?m)"
        using nodes_okD(1) [OF ns2] by (auto simp: groups_valid_def single_groups_def in_set_conv_nth)
      ultimately show thesis using that False by simp
    qed
    obtain r where r: "fold_result (launch_step ops None (nodes ?m)) groups \<lparr>launches = [], diagnostics = []\<rparr> = Inr r"
      "map lp_node (launches r) = map (\<lambda>g. hd (fg_nodes g)) groups" "\<forall>l \<in> set (launches r). lp_threads l = 256"
      using launch_loop [OF ns2 g(2), of ops "\<lparr>launches = [], diagnostics = []\<rparr>"] by auto
    have "run_pipeline ops p m = Inr (r, ?m)"
      using v True m1(1) g(1) r(1) tun by (simp add: run_pipeline_def canonicalize_def Let_def)
    moreover have "fuse ?m = Inr groups" if "fusion p" using g(1) that by (simp only: if_True)
    moreover have "\<not> fusion p \<longrightarrow> map lp_node (launches r) = map int [0..<length (nodes m)]"
      using g(3) r(2) m2(2) by simp
    ultimately show ?thesis
      using v True m2 ev r(2,3) by (intro exI [of _ r] exI [of _ ?m] exI [of _ errors]) blast
  qed
qed

theorem pipeline_preserves_meaning_witness:
  "\<exists>report m'. run_pipeline (real_ops id) (enable_fusion False pipeline_new) sample_module = Inr (report, m')
    \<and> validate sample_module = Inr (True, [])
    \<and> eval_outputs (real_ops id) (\<lambda>_ _ _ _ _. []) m' = [([1], [2])]
    \<and> map lp_node (launches report) = [0, 1, 2]"
proof -
  have tun: "tuning (enable_fusion False pipeline_new :: real pipeline) = None"
    by (simp add: pipeline_new_def enable_fusion_def)
  have off: "\<not> fusion (enable_fusion False pipeline_new :: real pipeline)" by (simp add: enable_fusion_def)
  have v: "validate sample_module = Inr (True, [])"
    by (simp add: Let_def validate_def validate_node_def shape_errors_def node_at_def u64_of_int_def
        valid_dims_def sample_module_def arity_errors_def input_errors_def)
  have out: "eval_outputs (real_ops id) (\<lambda>_ _ _ _ _. []) sample_module = [([1], [2])]"
    by (simp add: eval_outputs_def sample_value) (simp add: sample_module_def)
  have n: "map int [0..<length (nodes sample_module)] = [0, 1, 2]" by (simp add: sample_module_def upt_rec)
  from pipeline_preserves_meaning [OF sample_module_ok tun, of "real_ops id" "\<lambda>_ _ _ _ _. []"]
  obtain report m' where "run_pipeline (real_ops id) (enable_fusion False pipeline_new) sample_module = Inr (report, m')"
    "eval_outputs (real_ops id) (\<lambda>_ _ _ _ _. []) m' = eval_outputs (real_ops id) (\<lambda>_ _ _ _ _. []) sample_module"
    "map lp_node (launches report) = map int [0..<length (nodes sample_module)]"
    unfolding v using off sample_folds_exact by auto
  with v out n show ?thesis by simp
qed

end
