(* ===== verification/Telemetry.thy ===== *)
theory Telemetry
  imports Tensor_Store Ordered_Map
begin

text \<open>
  Traces and metrics (include/gpuforge/telemetry.hpp, src/telemetry.cpp). A reading of the clock
  (milliseconds since the recorder's epoch) and the thread's id are arguments of the operations
  that take them; printing a \<open>double\<close> is a parameter. Each method holds the mutex for its whole
  body, so concurrent use is a sequence of these operations.
\<close>

section \<open>Recording traces\<close>

record 'f trace_event =
  ev_name :: string
  ev_cat :: string
  start_ms :: 'f
  duration_ms :: 'f
  ev_tid :: nat

record 'f recorder =
  events :: "'f trace_event list"
  active :: "(string, nat list) omap"

definition recorder_new :: "'f recorder" where
  "recorder_new = \<lparr>events = [], active = []\<rparr>"

definition stack_of :: "'f recorder \<Rightarrow> string \<Rightarrow> nat list" where
  "stack_of r name = (case omap_get (active r) name of None \<Rightarrow> [] | Some s \<Rightarrow> s)"

definition trace_begin :: "'f fops \<Rightarrow> nat \<Rightarrow> string \<Rightarrow> string \<Rightarrow> 'f \<Rightarrow> 'f recorder \<Rightarrow> 'f recorder" where
  "trace_begin ops tid name cat now r =
     (let es = events r @ [\<lparr>ev_name = name, ev_cat = cat, start_ms = now,
                            duration_ms = f_dec ops 0 0, ev_tid = tid\<rparr>]
      in r\<lparr>events := es, active := omap_put name (stack_of r name @ [length es - 1]) (active r)\<rparr>)"

definition trace_end :: "'f fops \<Rightarrow> string \<Rightarrow> 'f \<Rightarrow> 'f recorder \<Rightarrow> 'f recorder result" where
  "trace_end ops name now r =
     (case omap_get (active r) name of
        None \<Rightarrow> Inr r
      | Some s \<Rightarrow>
          if s = [] then Inr r
          else let event_id = last s;
                   r1 = r\<lparr>active := omap_put name (butlast s) (active r)\<rparr>
               in if event_id \<ge> length (events r) then Inl UndefinedBehavior
                  else let e = events r ! event_id
                       in Inr (r1\<lparr>events := (events r)[event_id :=
                            e\<lparr>duration_ms := f_sub ops now (start_ms e)\<rparr>]\<rparr>))"

definition trace_instant :: "'f fops \<Rightarrow> nat \<Rightarrow> string \<Rightarrow> string \<Rightarrow> 'f \<Rightarrow> 'f recorder \<Rightarrow> 'f recorder" where
  "trace_instant ops tid name cat now r =
     r\<lparr>events := events r @ [\<lparr>ev_name = name, ev_cat = cat, start_ms = now,
                              duration_ms = f_dec ops 0 0, ev_tid = tid\<rparr>]\<rparr>"

definition trace_clear :: "'f recorder \<Rightarrow> 'f recorder" where
  "trace_clear r = r\<lparr>events := [], active := []\<rparr>"

definition total_ms :: "'f fops \<Rightarrow> 'f recorder \<Rightarrow> 'f" where
  "total_ms ops r =
     fold (\<lambda>e total. std_max ops total (f_add ops (start_ms e) (duration_ms e))) (events r) (f_dec ops 0 0)"

text \<open>A \<open>ScopedTrace\<close> is \<open>begin\<close> in its constructor and \<open>end\<close> in its destructor, around a block.\<close>

definition scoped_trace ::
  "'f fops \<Rightarrow> nat \<Rightarrow> string \<Rightarrow> string \<Rightarrow> 'f \<Rightarrow> ('f recorder \<Rightarrow> 'f recorder result) \<Rightarrow> 'f
    \<Rightarrow> 'f recorder \<Rightarrow> 'f recorder result" where
  "scoped_trace ops tid name cat t0 block t1 r =
     bind_result (block (trace_begin ops tid name cat t0 r)) (trace_end ops name t1)"

section \<open>JSON\<close>

definition backslash :: char where
  "backslash = CHR 0x5C"

definition dquote :: char where
  "dquote = CHR 0x22"

fun json_escape :: "string \<Rightarrow> string" where
  "json_escape [] = []"
| "json_escape (c # cs) =
     (if c = backslash \<or> c = dquote then backslash # c # json_escape cs else c # json_escape cs)"

definition quoted :: "string \<Rightarrow> string" where
  "quoted s = dquote # s @ [dquote]"

definition json_event :: "'f fops \<Rightarrow> ('f \<Rightarrow> string) \<Rightarrow> 'f trace_event \<Rightarrow> string" where
  "json_event ops print e =
     ''{'' @ quoted ''name'' @ '':'' @ quoted (json_escape (ev_name e)) @ '','' @ quoted ''cat'' @ '':''
       @ quoted (json_escape (ev_cat e)) @ '','' @ quoted ''ph'' @ '':'' @ quoted ''X'' @ '','' @ quoted ''ts'' @ '':''
       @ print (f_mul ops (start_ms e) (f_dec ops 1000 0)) @ '','' @ quoted ''dur'' @ '':''
       @ print (f_mul ops (duration_ms e) (f_dec ops 1000 0)) @ '','' @ quoted ''pid'' @ '':1,'' @ quoted ''tid'' @ '':''
       @ nat_to_string (ev_tid e) @ ''}''"

fun join_events :: "string list \<Rightarrow> string" where
  "join_events [] = []"
| "join_events [e] = e"
| "join_events (e # es) = e @ '','' @ join_events es"

definition chrome_json :: "'f fops \<Rightarrow> ('f \<Rightarrow> string) \<Rightarrow> 'f recorder \<Rightarrow> string" where
  "chrome_json ops print r =
     ''{'' @ quoted ''traceEvents'' @ '':['' @ join_events (map (json_event ops print) (events r)) @ '']}''"

section \<open>Metrics\<close>

record 'f metric_summary =
  m_count :: nat
  m_sum :: 'f
  m_min :: 'f
  m_max :: 'f

type_synonym 'f metrics = "(string, 'f metric_summary) omap"

definition empty_summary :: "'f fops \<Rightarrow> 'f metric_summary" where
  "empty_summary ops = \<lparr>m_count = 0, m_sum = f_dec ops 0 0, m_min = f_dec ops 1 30, m_max = f_dec ops 0 0\<rparr>"

definition summary_mean :: "'f fops \<Rightarrow> 'f metric_summary \<Rightarrow> 'f" where
  "summary_mean ops s =
     (if m_count s \<noteq> 0 then f_div ops (m_sum s) (f_of_nat ops (m_count s)) else f_dec ops 0 0)"

definition observe_value :: "'f fops \<Rightarrow> 'f \<Rightarrow> 'f metric_summary \<Rightarrow> 'f metric_summary" where
  "observe_value ops v s =
     \<lparr>m_count = wadd (m_count s) 1, m_sum = f_add ops (m_sum s) v,
      m_min = std_min ops (m_min s) v, m_max = std_max ops (m_max s) v\<rparr>"

definition summary :: "'f fops \<Rightarrow> 'f metrics \<Rightarrow> string \<Rightarrow> 'f metric_summary" where
  "summary ops m name = (case omap_get m name of None \<Rightarrow> empty_summary ops | Some s \<Rightarrow> s)"

definition observe :: "'f fops \<Rightarrow> string \<Rightarrow> 'f \<Rightarrow> 'f metrics \<Rightarrow> 'f metrics" where
  "observe ops name v m = omap_put name (observe_value ops v (summary ops m name)) m"

definition merge_summary :: "'f fops \<Rightarrow> 'f metric_summary \<Rightarrow> 'f metric_summary \<Rightarrow> 'f metric_summary" where
  "merge_summary ops incoming current =
     (if m_count incoming = 0 then current
      else \<lparr>m_count = wadd (m_count current) (m_count incoming),
            m_sum = f_add ops (m_sum current) (m_sum incoming),
            m_min = std_min ops (m_min current) (m_min incoming),
            m_max = std_max ops (m_max current) (m_max incoming)\<rparr>)"

text \<open>\<open>merge\<close> of an object with itself returns at once; \<open>other\<close> below is another object.\<close>

definition merge_metrics :: "'f fops \<Rightarrow> 'f metrics \<Rightarrow> 'f metrics \<Rightarrow> 'f metrics" where
  "merge_metrics ops other m =
     fold (\<lambda>(name, incoming) m. omap_put name (merge_summary ops incoming (summary ops m name)) m) other m"

definition report_metrics :: "'f fops \<Rightarrow> ('f \<Rightarrow> string) \<Rightarrow> 'f metrics \<Rightarrow> string" where
  "report_metrics ops print m =
     concat (map (\<lambda>(name, s). name @ '' count='' @ nat_to_string (m_count s) @ '' mean='' @ print (summary_mean ops s)
       @ '' min='' @ print (m_min s) @ '' max='' @ print (m_max s) @ [CHR 0x0A]) m)"

section \<open>Escaping\<close>

text \<open>The reader of a JSON string, restricted to the escapes the writer produces.\<close>

fun json_read :: "string \<Rightarrow> (string \<times> string) option" where
  "json_read [] = None"
| "json_read (c # cs) =
     (if c = dquote then Some ([], cs)
      else if c = backslash
      then (case cs of
              [] \<Rightarrow> None
            | d # ds \<Rightarrow> (case json_read ds of None \<Rightarrow> None | Some (s, rest) \<Rightarrow> Some (d # s, rest)))
      else (case json_read cs of None \<Rightarrow> None | Some (s, rest) \<Rightarrow> Some (c # s, rest)))"

text \<open>
  escaping loses nothing and cannot be broken out of: reading back an escaped name, up to
  the quote that ends it, gives the name and leaves exactly what follows, whatever quotes and
  backslashes the name has.
\<close>

theorem json_escape_roundtrip: "json_read (json_escape s @ dquote # rest) = Some (s, rest)"
  by (induction s) (auto simp: backslash_def dquote_def)

text \<open>Control characters are copied as they are, which JSON forbids inside a string.\<close>

lemma json_escape_control: "json_escape [CHR 0x0A] = [CHR 0x0A]"
  by (simp add: backslash_def dquote_def)

section \<open>Metrics add up\<close>

definition observe_all :: "'f fops \<Rightarrow> (string \<times> 'f) list \<Rightarrow> 'f metrics" where
  "observe_all ops xs = fold (\<lambda>(name, v). observe ops name v) xs []"

definition values_for :: "string \<Rightarrow> (string \<times> 'f) list \<Rightarrow> 'f list" where
  "values_for name xs = map snd (filter (\<lambda>x. fst x = name) xs)"

lemma summary_observe:
  assumes "omap_ok m"
  shows "omap_ok (observe ops n v m)"
    "summary ops (observe ops n v m) name = (if name = n then observe_value ops v (summary ops m n) else summary ops m name)"
  using om.update_ok [OF assms] om.lookup_update [OF assms] by (simp_all add: observe_def summary_def)

lemma observe_all_summary:
  "omap_ok (observe_all ops xs)
   \<and> summary ops (observe_all ops xs) name = fold (observe_value ops) (values_for name xs) (empty_summary ops)"
proof (induction xs rule: rev_induct)
  case Nil
  then show ?case by (simp add: observe_all_def summary_def values_for_def)
next
  case (snoc x xs)
  obtain n v where x: "x = (n, v)" by (cases x)
  have "observe_all ops (xs @ [x]) = observe ops n v (observe_all ops xs)" by (simp add: observe_all_def x)
  with snoc summary_observe [of "observe_all ops xs" ops n v] show ?case
    by (auto simp: x values_for_def)
qed

lemma summary_merge:
  assumes "omap_ok m" "omap_ok other"
  shows "omap_ok (merge_metrics ops other m)"
    "summary ops (merge_metrics ops other m) name =
       (case omap_get other name of None \<Rightarrow> summary ops m name
        | Some s \<Rightarrow> merge_summary ops s (summary ops m name))"
proof -
  have "omap_ok (merge_metrics ops xs m) \<and> summary ops (merge_metrics ops xs m) name =
       (case omap_get xs name of None \<Rightarrow> summary ops m name
        | Some s \<Rightarrow> merge_summary ops s (summary ops m name))" if "omap_ok xs" "omap_ok m" for xs m
    using that
  proof (induction xs arbitrary: m)
    case Nil
    then show ?case by (simp add: merge_metrics_def)
  next
    case (Cons x xs)
    obtain n s where x: "x = (n, s)" by (cases x)
    let ?m = "omap_put n (merge_summary ops s (summary ops m n)) m"
    have ok: "omap_ok ?m" "omap_ok xs" using Cons.prems by (simp_all add: om.update_ok x)
    have sum: "summary ops ?m name = (if name = n then merge_summary ops s (summary ops m n) else summary ops m name)"
      using Cons.prems(2) by (simp add: summary_def om.lookup_update)
    have fresh: "omap_get xs n = None"
      using Cons.prems(1) by (auto simp: x map_of_eq_None_iff)
    have "merge_metrics ops (x # xs) m = merge_metrics ops xs ?m" by (simp add: merge_metrics_def x)
    with Cons.IH [OF ok(2,1)] sum fresh show ?case by (cases "omap_get xs name") (auto simp: x)
  qed
  with assms show "omap_ok (merge_metrics ops other m)"
    "summary ops (merge_metrics ops other m) name =
       (case omap_get other name of None \<Rightarrow> summary ops m name
        | Some s \<Rightarrow> merge_summary ops s (summary ops m name))" by blast+
qed

lemma fold_observe_real:
  assumes "m_count s + length vs < 2 ^ 64"
  shows "fold (observe_value (real_ops er)) vs s =
    \<lparr>m_count = m_count s + length vs, m_sum = m_sum s + sum_list vs,
     m_min = fold min vs (m_min s), m_max = fold max vs (m_max s)\<rparr>"
  using assms
proof (induction vs arbitrary: s)
  case (Cons v vs)
  have "std_min (real_ops er) a b = min b a" "std_max (real_ops er) a b = max b a" for a b
    by (simp_all add: std_min_def std_max_def min_def max_def)
  with Cons show ?case by (simp add: observe_value_def wadd_exact add.assoc)
qed simp

lemma fold_min_shift: "fold min vs (min a (b :: real)) = min a (fold min vs b)"
proof (induction vs arbitrary: b)
  case (Cons x vs)
  have "fold min (x # vs) (min a b) = fold min vs (min a (min x b))" by (simp only: fold_simps min.left_commute)
  then show ?case using Cons by simp
qed simp

lemma fold_max_shift: "fold max vs (max a (b :: real)) = max a (fold max vs b)"
proof (induction vs arbitrary: b)
  case (Cons x vs)
  have "fold max (x # vs) (max a b) = fold max vs (max a (max x b))" by (simp only: fold_simps max.left_commute)
  then show ?case using Cons by simp
qed simp

lemma fold_min_le_init: "fold min vs (b :: real) \<le> b"
  using fold_min_shift [of vs b b] by (simp add: min_def split: if_splits)

lemma fold_max_ge_init: "(b :: real) \<le> fold max vs b"
  using fold_max_shift [of vs b b] by (simp add: max_def split: if_splits)

text \<open>
  metrics add up over exact arithmetic: the summary of a name has the count, the sum, the
  least and the greatest of the values observed under that name (started from \<open>1e30\<close> and 0),
  and merging two collectors gives every name the summary one collector would have had after
  both sequences of observations.
\<close>

theorem metrics_merge_concat:
  assumes len: "length xs + length ys < 2 ^ 64"
  shows "summary (real_ops er) (observe_all (real_ops er) xs) name =
      \<lparr>m_count = length (values_for name xs), m_sum = sum_list (values_for name xs),
       m_min = fold min (values_for name xs) (10 ^ 30), m_max = fold max (values_for name xs) 0\<rparr>
    \<and> summary (real_ops er) (merge_metrics (real_ops er) (observe_all (real_ops er) ys) (observe_all (real_ops er) xs)) name
      = summary (real_ops er) (observe_all (real_ops er) (xs @ ys)) name"
proof -
  let ?ops = "real_ops er"
  let ?S = "\<lambda>vs. \<lparr>m_count = length vs, m_sum = sum_list vs, m_min = fold min vs (10 ^ 30), m_max = fold max vs 0\<rparr>"
  have e: "empty_summary ?ops = \<lparr>m_count = 0, m_sum = 0, m_min = 10 ^ 30, m_max = 0\<rparr>"
    by (simp add: empty_summary_def real_ops_def)
  have le: "length (values_for name zs) \<le> length zs" for zs :: "(string \<times> real) list"
    by (simp add: values_for_def)
  have sum: "summary ?ops (observe_all ?ops zs) name = ?S (values_for name zs)" if "length zs < 2 ^ 64" for zs
    using observe_all_summary [of ?ops zs name]
      fold_observe_real [of "empty_summary ?ops" "values_for name zs" er] that le [of zs] by (simp add: e)
  have app: "values_for name (xs @ ys) = values_for name xs @ values_for name ys" by (simp add: values_for_def)
  let ?vx = "values_for name xs" and ?vy = "values_for name ys"
  have ok: "omap_ok (observe_all ?ops xs)" "omap_ok (observe_all ?ops ys)" using observe_all_summary by blast+
  have "std_min ?ops (fold min ?vx (10 ^ 30)) (fold min ?vy (10 ^ 30)) = fold min ?vy (fold min ?vx (10 ^ 30))"
    using fold_min_shift [of ?vy "fold min ?vx (10 ^ 30)" "10 ^ 30"] fold_min_le_init [of ?vx "10 ^ 30"]
    by (simp add: std_min_def min_def split: if_splits)
  moreover have "std_max ?ops (fold max ?vx 0) (fold max ?vy 0) = fold max ?vy (fold max ?vx 0)"
    using fold_max_shift [of ?vy "fold max ?vx 0" 0] fold_max_ge_init [of 0 ?vx]
    by (simp add: std_max_def max_def split: if_splits)
  ultimately have merged: "merge_summary ?ops (?S ?vy) (?S ?vx) = ?S (?vx @ ?vy)" if "?vy \<noteq> []"
    using that len le [of xs] le [of ys] by (simp add: merge_summary_def wadd_exact)
  have "merge_summary ?ops (?S ?vy) (?S ?vx) = ?S (?vx @ ?vy)" if "?vy = []"
    using that by (simp add: merge_summary_def)
  with merged have all: "merge_summary ?ops (?S ?vy) (?S ?vx) = ?S (?vx @ ?vy)" by blast
  have y: "(case omap_get (observe_all ?ops ys) name of None \<Rightarrow> empty_summary ?ops | Some s \<Rightarrow> s) = ?S ?vy"
    using sum [of ys] len by (simp add: summary_def)
  have "summary ?ops (merge_metrics ?ops (observe_all ?ops ys) (observe_all ?ops xs)) name
      = merge_summary ?ops (?S ?vy) (summary ?ops (observe_all ?ops xs) name)"
    using summary_merge(2) [OF ok, of ?ops name] y
    by (cases "omap_get (observe_all ?ops ys) name") (auto simp: e merge_summary_def)
  with all sum [of xs] sum [of "xs @ ys"] len app show ?thesis by simp
qed

theorem metrics_merge_concat_witness:
  "m_sum (summary (real_ops id) (merge_metrics (real_ops id) (observe_all (real_ops id) [(''a'', 2)])
     (observe_all (real_ops id) [(''a'', 1), (''b'', 5)])) ''a'')
   = m_sum (summary (real_ops id) (observe_all (real_ops id) [(''a'', 1), (''b'', 5), (''a'', 2)]) ''a'')"
proof -
  have "length [(''a'', 1 :: real), (''b'', 5)] + length [(''a'', 2 :: real)] < 2 ^ 64" by simp
  from metrics_merge_concat [OF this, of id "''a''"] show ?thesis by simp
qed

text \<open>The maximum starts from 0, so observations that are all negative report 0.\<close>

lemma metrics_negative_max:
  "m_max (summary (real_ops id) (observe_all (real_ops id) [(''t'', - 1), (''t'', - 2)]) ''t'') = 0"
  by (simp add: observe_all_def observe_def summary_def observe_value_def empty_summary_def std_max_def)

section \<open>Nesting of traces\<close>

datatype 'f trace_op =
    Begin string string 'f
  | End string 'f
  | Instant string string 'f

fun trace_step :: "'f fops \<Rightarrow> nat \<Rightarrow> 'f trace_op \<Rightarrow> 'f recorder \<Rightarrow> 'f recorder result" where
  "trace_step ops tid (Begin n c t) r = Inr (trace_begin ops tid n c t r)"
| "trace_step ops tid (End n t) r = trace_end ops n t r"
| "trace_step ops tid (Instant n c t) r = Inr (trace_instant ops tid n c t r)"

definition run_trace :: "'f fops \<Rightarrow> nat \<Rightarrow> 'f trace_op list \<Rightarrow> 'f recorder \<Rightarrow> 'f recorder result" where
  "run_trace ops tid = fold_result (trace_step ops tid)"

inductive balanced :: "'f trace_op list \<Rightarrow> bool" where
  balanced_Nil: "balanced []"
| balanced_Instant: "balanced [Instant n c t]"
| balanced_append: "balanced xs \<Longrightarrow> balanced ys \<Longrightarrow> balanced (xs @ ys)"
| balanced_block: "balanced xs \<Longrightarrow> balanced (Begin n c t # xs @ [End n u])"

definition same_stacks :: "'f recorder \<Rightarrow> 'f recorder \<Rightarrow> bool" where
  "same_stacks r r' \<longleftrightarrow>
     omap_ok (active r') \<and> (\<forall>n. stack_of r' n = stack_of r n)
     \<and> length (events r) \<le> length (events r') \<and> take (length (events r)) (events r') = events r"

lemma same_stacks_trans: "same_stacks r s \<Longrightarrow> same_stacks s t \<Longrightarrow> same_stacks r t"
  unfolding same_stacks_def by (metis le_trans min.absorb1 take_take)

lemma run_block:
  assumes ok: "omap_ok (active r)"
    and mid: "\<exists>s. run_trace ops tid xs (trace_begin ops tid n c t r) = Inr s \<and> same_stacks (trace_begin ops tid n c t r) s"
  shows "\<exists>s. run_trace ops tid (Begin n c t # xs @ [End n u]) r = Inr s \<and> same_stacks r s
    \<and> length (events r) < length (events s)
    \<and> events s ! length (events r) =
        \<lparr>ev_name = n, ev_cat = c, start_ms = t, duration_ms = f_sub ops u t, ev_tid = tid\<rparr>"
proof -
  let ?b = "trace_begin ops tid n c t r" and ?k = "length (events r)"
  obtain s where s: "run_trace ops tid xs ?b = Inr s" "same_stacks ?b s" using mid by blast
  have b: "events ?b = events r @ [\<lparr>ev_name = n, ev_cat = c, start_ms = t, duration_ms = f_dec ops 0 0, ev_tid = tid\<rparr>]"
    "stack_of ?b n' = (if n' = n then stack_of r n @ [?k] else stack_of r n')" for n'
    using om.lookup_update [OF ok] by (simp_all add: trace_begin_def Let_def stack_of_def)
  have st: "omap_ok (active s)" "stack_of s n = stack_of r n @ [?k]"
    "\<And>n'. n' \<noteq> n \<Longrightarrow> stack_of s n' = stack_of r n'"
    using s(2) by (simp_all add: same_stacks_def b)
  have pre: "Suc ?k \<le> length (events s)" "take (Suc ?k) (events s) = events ?b"
    using s(2) by (simp_all add: same_stacks_def b)
  have k: "?k < length (events s)" using pre(1) by simp
  have ev: "events s ! ?k = \<lparr>ev_name = n, ev_cat = c, start_ms = t, duration_ms = f_dec ops 0 0, ev_tid = tid\<rparr>"
    using pre(2) k b(1) by (metis lessI nth_append_length nth_take)
  have look: "omap_get (active s) n = Some (stack_of r n @ [?k])"
    using st(2) by (simp add: stack_of_def split: option.splits)
  let ?s = "s\<lparr>active := omap_put n (stack_of r n) (active s),
      events := (events s)[?k := \<lparr>ev_name = n, ev_cat = c, start_ms = t, duration_ms = f_sub ops u t, ev_tid = tid\<rparr>]\<rparr>"
  have "trace_end ops n u s = Inr ?s"
    using k ev by (simp add: trace_end_def look Let_def)
  then have "run_trace ops tid (Begin n c t # xs @ [End n u]) r = Inr ?s"
    using s(1) by (simp add: run_trace_def fold_result_append)
  moreover have "same_stacks r ?s"
  proof -
    have "take ?k (events s) = events r"
      using pre(2) b(1) by (metis append_eq_conv_conj le_add2 min.absorb1 plus_1_eq_Suc take_take)
    then show ?thesis
      using st k om.update_ok [OF st(1)] om.lookup_update [OF st(1)]
      by (auto simp: same_stacks_def stack_of_def)
  qed
  ultimately show ?thesis using k by (intro exI [of _ ?s]) simp
qed

lemma run_balanced:
  assumes "balanced xs" "omap_ok (active r)"
  shows "\<exists>s. run_trace ops tid xs r = Inr s \<and> same_stacks r s"
  using assms
proof (induction arbitrary: r)
  case balanced_Nil
  then show ?case by (simp add: run_trace_def same_stacks_def)
next
  case (balanced_Instant n c t)
  then show ?case by (simp add: run_trace_def same_stacks_def trace_instant_def stack_of_def)
next
  case (balanced_append xs ys)
  then obtain s where s: "run_trace ops tid xs r = Inr s" "same_stacks r s" by blast
  then have "omap_ok (active s)" by (simp add: same_stacks_def)
  then obtain s' where "run_trace ops tid ys s = Inr s'" "same_stacks s s'" using balanced_append.IH(2) by blast
  with s same_stacks_trans show ?case by (auto simp: run_trace_def fold_result_append)
next
  case (balanced_block xs n c t u)
  have "omap_ok (active (trace_begin ops tid n c t r))"
    using balanced_block.prems by (simp add: trace_begin_def Let_def om.update_ok)
  from run_block [OF balanced_block.prems balanced_block.IH [OF this]] show ?case by blast
qed

text \<open>
  scopes nest: if the calls between a \<open>begin\<close> and its \<open>end\<close> are balanced (as those of
  nested \<open>ScopedTrace\<close> objects are, the same name included), the \<open>end\<close> sets the duration of
  the event its \<open>begin\<close> recorded to the time between the two, and leaves every open scope and
  every earlier event as it was.
\<close>

theorem trace_scopes_nest:
  assumes ok: "omap_ok (active r)" and bal: "balanced xs"
  shows "\<exists>s. run_trace ops tid (Begin n c t # xs @ [End n u]) r = Inr s
    \<and> events s ! length (events r) =
        \<lparr>ev_name = n, ev_cat = c, start_ms = t, duration_ms = f_sub ops u t, ev_tid = tid\<rparr>
    \<and> (\<forall>m. stack_of s m = stack_of r m) \<and> take (length (events r)) (events s) = events r"
proof -
  have "omap_ok (active (trace_begin ops tid n c t r))" using ok by (simp add: trace_begin_def Let_def om.update_ok)
  from run_block [OF ok run_balanced [OF bal this]] show ?thesis by (auto simp: same_stacks_def)
qed

theorem trace_scopes_nest_witness:
  "\<exists>s. run_trace (real_ops id) 7 [Begin ''k'' ''x'' 1, Begin ''k'' ''y'' 2, End ''k'' 3, End ''k'' 9] recorder_new = Inr s
     \<and> duration_ms (events s ! 0) = 8"
proof -
  have bal: "balanced (Begin ''k'' ''y'' (2 :: real) # [] @ [End ''k'' 3])" by (intro balanced.intros)
  have ok: "omap_ok (active (recorder_new :: real recorder))" by (simp add: recorder_new_def)
  from trace_scopes_nest [OF ok bal, of "real_ops id" 7 "''k''" "''x''" 1 9]
  show ?thesis by (auto simp: recorder_new_def)
qed

end
