(* ===== verification/Executor.thy ===== *)
theory Executor
  imports Pipeline Telemetry
begin

text \<open>
  The executor (include/gpuforge/executor.hpp, src/executor.cpp): it walks a report's launches,
  traces each, and stops at the first one without threads. The clock's readings are an argument.
\<close>

datatype device = CPU | CUDA

record stream =
  stream_id :: int
  stream_device :: device

record 'f execution_result =
  ex_ok :: bool
  ex_elapsed_ms :: 'f
  ex_launches :: nat
  ex_error :: string

record executor =
  ex_device :: device
  next_stream :: int
  streams :: "(int, bool) omap"

definition executor_new :: "device \<Rightarrow> executor" where
  "executor_new d = \<lparr>ex_device = d, next_stream = 1, streams = []\<rparr>"

definition create_stream :: "executor \<Rightarrow> (stream \<times> executor) result" where
  "create_stream e =
     (let sid = next_stream e
      in bind_result (check32 (sid + 1)) (\<lambda>n.
           Inr (\<lparr>stream_id = sid, stream_device = ex_device e\<rparr>,
                e\<lparr>next_stream := n, streams := omap_put sid True (streams e)\<rparr>)))"

definition synchronize :: "stream \<Rightarrow> executor \<Rightarrow> executor" where
  "synchronize s e = (if stream_id s \<noteq> 0 then e\<lparr>streams := omap_put (stream_id s) True (streams e)\<rparr> else e)"

text \<open>The loop: each launch takes two readings of the recorder's clock, at its begin and its end.\<close>

fun execute_loop ::
  "'f fops \<Rightarrow> nat \<Rightarrow> (nat \<Rightarrow> 'f) \<Rightarrow> nat \<Rightarrow> 'f launch_plan list \<Rightarrow> 'f recorder
    \<Rightarrow> (bool \<times> string \<times> 'f recorder) result" where
  "execute_loop ops tid clock k [] r = Inr (True, [], r)"
| "execute_loop ops tid clock k (l # ls) r =
     bind_result (scoped_trace ops tid (lp_kernel l) ''kernel'' (clock k) Inr (clock (k + 1)) r)
       (\<lambda>r. if lp_threads l = 0 then Inr (False, ''invalid launch dimensions'', r)
             else execute_loop ops tid clock (k + 2) ls r)"

definition execute ::
  "'f fops \<Rightarrow> nat \<Rightarrow> (nat \<Rightarrow> 'f) \<Rightarrow> 'f \<Rightarrow> 'f compile_report \<Rightarrow> 'f recorder option
    \<Rightarrow> ('f execution_result \<times> 'f recorder) result" where
  "execute ops tid clock elapsed report recorder =
     bind_result
       (execute_loop ops tid clock 0 (launches report)
          (case recorder of Some r \<Rightarrow> r | None \<Rightarrow> recorder_new))
       (\<lambda>(ok, err, r). Inr (\<lparr>ex_ok = ok, ex_elapsed_ms = elapsed,
                              ex_launches = length (launches report), ex_error = err\<rparr>, r))"

section \<open>Facts\<close>

lemma scoped_trace_event:
  assumes ok: "omap_ok (active r)"
  shows "\<exists>s. scoped_trace ops tid n c t Inr u r = Inr s \<and> omap_ok (active s)
    \<and> events s = events r @ [\<lparr>ev_name = n, ev_cat = c, start_ms = t, duration_ms = f_sub ops u t, ev_tid = tid\<rparr>]"
proof -
  have "omap_ok (active (trace_begin ops tid n c t r))" using ok by (simp add: trace_begin_def Let_def om.update_ok)
  with ok show ?thesis
    by (simp add: scoped_trace_def trace_end_def trace_begin_def Let_def om.lookup_update om.update_ok nth_append)
qed

definition launched :: "'f launch_plan list \<Rightarrow> 'f launch_plan list" where
  "launched ls = takeWhile (\<lambda>l. lp_threads l \<noteq> 0) ls @ take 1 (dropWhile (\<lambda>l. lp_threads l \<noteq> 0) ls)"

lemma execute_loop_spec:
  assumes "omap_ok (active r)"
  shows "\<exists>r'. execute_loop ops tid clock k ls r
      = Inr (list_all (\<lambda>l. lp_threads l \<noteq> 0) ls,
             if list_all (\<lambda>l. lp_threads l \<noteq> 0) ls then [] else ''invalid launch dimensions'', r')
    \<and> omap_ok (active r')
    \<and> map ev_name (events r') = map ev_name (events r) @ map lp_kernel (launched ls)"
  using assms
proof (induction ls arbitrary: k r)
  case Nil
  then show ?case by (simp add: launched_def)
next
  case (Cons l ls)
  obtain s where s: "scoped_trace ops tid (lp_kernel l) ''kernel'' (clock k) Inr (clock (k + 1)) r = Inr s"
    "omap_ok (active s)" "map ev_name (events s) = map ev_name (events r) @ [lp_kernel l]"
    using scoped_trace_event [OF Cons.prems, of ops tid "lp_kernel l" "''kernel''" "clock k" "clock (k + 1)"] by auto
  show ?case
  proof (cases "lp_threads l = 0")
    case True
    with s show ?thesis by (simp add: launched_def)
  next
    case False
    have "launched (l # ls) = l # launched ls" using False by (simp add: launched_def)
    with False s Cons.IH [OF s(2), of "k + 2"] show ?thesis by auto
  qed
qed

text \<open>
  executing a report succeeds exactly when every launch has threads: it never throws, its
  verdict is true if and only if no launch has 0 threads (otherwise the error says so), it
  counts the launches of the report, and the trace gains one event per launch walked, named by
  its kernel, ending with the first launch without threads.
\<close>

theorem execute_verdict:
  assumes rec: "omap_ok (active r)"
  shows "\<exists>res r'. execute ops tid clock elapsed report (Some r) = Inr (res, r')
    \<and> (ex_ok res \<longleftrightarrow> (\<forall>l \<in> set (launches report). lp_threads l \<noteq> 0))
    \<and> ex_error res = (if ex_ok res then [] else ''invalid launch dimensions'')
    \<and> ex_launches res = length (launches report)
    \<and> map ev_name (events r') = map ev_name (events r) @ map lp_kernel (launched (launches report))"
proof -
  let ?ok = "list_all (\<lambda>l. lp_threads l \<noteq> 0) (launches report)"
  let ?err = "if ?ok then [] else ''invalid launch dimensions''"
  obtain r' where r': "execute_loop ops tid clock 0 (launches report) r = Inr (?ok, ?err, r')"
    "map ev_name (events r') = map ev_name (events r) @ map lp_kernel (launched (launches report))"
    using execute_loop_spec [OF rec] by blast
  let ?res = "\<lparr>ex_ok = ?ok, ex_elapsed_ms = elapsed, ex_launches = length (launches report), ex_error = ?err\<rparr>"
  have "execute ops tid clock elapsed report (Some r) = Inr (?res, r')"
    using r'(1) by (simp add: execute_def)
  with r'(2) show ?thesis by (intro exI [of _ ?res] exI [of _ r']) (simp add: list_all_iff)
qed

theorem execute_verdict_witness:
  "\<exists>res r'. execute (real_ops id) 1 real 5
     \<lparr>launches = [\<lparr>lp_node = 0, lp_kernel = ''k'', lp_schedule = default_schedule, lp_shared_bytes = 0,
                  lp_threads = 0, lp_estimated_ms = 0\<rparr>], diagnostics = []\<rparr> (Some recorder_new) = Inr (res, r')
     \<and> \<not> ex_ok res"
proof -
  have "omap_ok (active (recorder_new :: real recorder))" by (simp add: recorder_new_def)
  from execute_verdict [OF this, of "real_ops id" 1 real 5
      "\<lparr>launches = [\<lparr>lp_node = 0, lp_kernel = ''k'', lp_schedule = default_schedule, lp_shared_bytes = 0,
                  lp_threads = 0, lp_estimated_ms = 0\<rparr>], diagnostics = []\<rparr>"]
  show ?thesis by auto
qed

lemma create_stream_fresh:
  assumes ok: "omap_ok (streams e)" and below: "\<forall>i \<in> fst ` set (streams e). i < next_stream e"
    and small: "next_stream e + 1 < 2 ^ 31" "0 < next_stream e"
  shows "\<exists>s e'. create_stream e = Inr (s, e') \<and> stream_id s \<notin> fst ` set (streams e)
    \<and> omap_ok (streams e') \<and> (\<forall>i \<in> fst ` set (streams e'). i < next_stream e')"
proof -
  let ?s = "\<lparr>stream_id = next_stream e, stream_device = ex_device e\<rparr>"
  let ?e = "e\<lparr>next_stream := next_stream e + 1, streams := omap_put (next_stream e) True (streams e)\<rparr>"
  have "create_stream e = Inr (?s, ?e)" using small by (simp add: create_stream_def check32_def Let_def)
  moreover have "fst ` set (streams ?e) = insert (next_stream e) (fst ` set (streams e))"
    by (simp add: omap_put_keys)
  then have "\<forall>i \<in> fst ` set (streams ?e). i < next_stream ?e"
  proof (elim ssubst)
    have "i < next_stream e + 1" if "i \<in> fst ` set (streams e)" for i
      using below that by (meson less_add_one order.strict_trans)
    then show "\<forall>i \<in> insert (next_stream e) (fst ` set (streams e)). i < next_stream ?e" by simp
  qed
  moreover have "omap_ok (streams ?e)" using ok by (simp add: omap_put_ok)
  moreover have "stream_id ?s \<notin> fst ` set (streams e)" using below by fastforce
  ultimately show ?thesis by blast
qed

end
