(* ===== verification/Tuners.thy ===== *)
theory Tuners
  imports Tuning Compiler_IR
begin

text \<open>
  Measuring and tuning: \<open>Profiler\<close> and \<open>AutoTuner\<close> (include/gpuforge/runtime.hpp,
  src/runtime.cpp), \<open>BenchmarkSuite\<close> (include/gpuforge/benchmark.hpp, src/benchmark.cpp) and
  \<open>GemmAutoTuner\<close> (include/gpuforge/autotune.hpp, src/autotune.cpp). A measured function is a
  transformer of a state; the elapsed milliseconds of a timed loop are an argument, and the
  database file is the text that would be written.
\<close>

section \<open>Profiler\<close>

record 'f sample =
  s_ms :: 'f
  s_gflops :: 'f

definition measure_fn ::
  "'f fops \<Rightarrow> ('s \<Rightarrow> 's) \<Rightarrow> 'f \<Rightarrow> int \<Rightarrow> 'f \<Rightarrow> 's \<Rightarrow> 'f sample \<times> 's" where
  "measure_fn ops fn flops iters elapsed s =
     (let iters = max 1 iters;
          s = (fn ^^ 2) s;
          s = (fn ^^ nat iters) s;
          ms = f_div ops elapsed (f_dec ops iters 0)
      in (\<lparr>s_ms = ms,
           s_gflops = (if f_less ops (f_dec ops 0 0) ms
                       then f_div ops flops (f_mul ops ms (f_dec ops 1 6)) else f_dec ops 0 0)\<rparr>, s))"

section \<open>AutoTuner\<close>

type_synonym config_cache = "(nat \<times> nat \<times> nat, gemm_config) omap"

definition heuristic_config :: "nat \<times> nat \<times> nat \<Rightarrow> gemm_config" where
  "heuristic_config key =
     (case key of (m, n, k) \<Rightarrow>
        let work = wmul (wmul m n) k
        in \<lparr>gtile = (if work > push_bit 22 1 then 32 else 16),
            gwarps = (if wmul m n > 4096 then 8 else 4),
            use_tensor_core = (k mod 8 = 0)\<rparr>)"

definition choose_config :: "config_cache \<Rightarrow> nat \<Rightarrow> nat \<Rightarrow> nat \<Rightarrow> gemm_config \<times> config_cache" where
  "choose_config cache m n k =
     (let key = (m, n, k)
      in case omap_get cache key of
           Some c \<Rightarrow> (c, cache)
         | None \<Rightarrow> (let c = heuristic_config key in (c, omap_put key c cache)))"

fun choose_all :: "config_cache \<Rightarrow> (nat \<times> nat \<times> nat) list \<Rightarrow> gemm_config list \<times> config_cache" where
  "choose_all cache [] = ([], cache)"
| "choose_all cache ((m, n, k) # keys) =
     (let (c, cache) = choose_config cache m n k; (cs, cache) = choose_all cache keys in (c # cs, cache))"

lemma choose_memo: "choose_config cache m n k = om.memo heuristic_config cache (m, n, k)"
  by (simp add: choose_config_def om.memo_def Let_def split: option.splits)

text \<open>
  caching is invisible: any sequence of \<open>choose\<close> calls returns what the heuristic gives for
  each shape, whatever was asked before, and asking again returns the same configuration.
\<close>

theorem choose_is_pure: "fst (choose_all [] keys) = map heuristic_config keys"
proof -
  have "fst (choose_all cache keys) = map heuristic_config keys" if "om.caches heuristic_config cache" for cache
    using that
  proof (induction cache keys rule: choose_all.induct)
    case (2 cache m n k keys)
    from om.memo_correct [OF "2.prems", of "(m, n, k)"] "2.IH"
    show ?case by (simp add: choose_memo split: prod.splits) (metis fst_conv snd_conv)
  qed simp
  then show ?thesis using om.caches_empty by blast
qed

section \<open>Benchmarks\<close>

record ('s, 'f) benchmark_case =
  bc_name :: string
  bc_flops :: 'f
  bc_bytes :: 'f
  bc_fn :: "('s \<Rightarrow> 's) option"

record 'f benchmark_result =
  br_name :: string
  br_ms :: 'f
  br_gflops :: 'f
  br_gbps :: 'f
  br_iterations :: nat

definition add_case :: "('s, 'f) benchmark_case \<Rightarrow> ('s, 'f) benchmark_case list \<Rightarrow> ('s, 'f) benchmark_case list" where
  "add_case b cases = (if bc_fn b = None then cases else cases @ [b])"

definition run_case ::
  "'f fops \<Rightarrow> int \<Rightarrow> int \<Rightarrow> 'f \<Rightarrow> ('s, 'f) benchmark_case \<Rightarrow> 's \<Rightarrow> 'f benchmark_result \<times> 's" where
  "run_case ops warmup iterations elapsed b s =
     (let rounds = max 1 iterations;
          fn = (case bc_fn b of Some f \<Rightarrow> f | None \<Rightarrow> (\<lambda>s. s));
          s = (fn ^^ nat (max 0 warmup)) s;
          s = (fn ^^ nat rounds) s;
          ms = f_div ops elapsed (f_dec ops rounds 0);
          rate = (\<lambda>x. if f_less ops (f_dec ops 0 0) ms then f_div ops x (f_mul ops ms (f_dec ops 1 6))
                      else f_dec ops 0 0)
      in (\<lparr>br_name = bc_name b, br_ms = ms, br_gflops = rate (bc_flops b), br_gbps = rate (bc_bytes b),
           br_iterations = u64_of_int rounds\<rparr>, s))"

fun run_suite ::
  "'f fops \<Rightarrow> int \<Rightarrow> int \<Rightarrow> (nat \<Rightarrow> 'f) \<Rightarrow> ('s, 'f) benchmark_case list \<Rightarrow> nat \<Rightarrow> 's
    \<Rightarrow> 'f benchmark_result list \<times> 's" where
  "run_suite ops warmup iterations timer [] i s = ([], s)"
| "run_suite ops warmup iterations timer (b # bs) i s =
     (let (r, s) = run_case ops warmup iterations (timer i) b s;
          (rs, s) = run_suite ops warmup iterations timer bs (i + 1) s
      in (r # rs, s))"

definition markdown :: "('f \<Rightarrow> string) \<Rightarrow> 'f benchmark_result list \<Rightarrow> string" where
  "markdown print rs =
     ''| case | ms | GFLOP/s | GB/s | iterations |'' @ [newline] @ ''|---|---:|---:|---:|---:|'' @ [newline]
       @ concat (map (\<lambda>r. ''| '' @ br_name r @ '' | '' @ print (br_ms r) @ '' | '' @ print (br_gflops r)
           @ '' | '' @ print (br_gbps r) @ '' | '' @ nat_to_string (br_iterations r) @ '' |'' @ [newline]) rs)"

lemma run_suite_names: "map br_name (fst (run_suite ops w it timer bs i s)) = map bc_name bs"
  by (induction bs arbitrary: i s) (simp_all add: run_case_def Let_def split: prod.splits, metis fst_conv)

lemma run_suite_nth:
  "j < length bs \<Longrightarrow> br_ms (fst (run_suite ops w it timer bs i s) ! j)
    = f_div ops (timer (i + j)) (f_dec ops (max 1 it) 0)"
proof (induction bs arbitrary: i j s)
  case (Cons b bs)
  then show ?case
  proof (cases j)
    case 0
    then show ?thesis by (simp add: run_case_def Let_def split: prod.splits)
  next
    case (Suc l)
    with Cons.prems Cons.IH [of l "i + 1"] show ?thesis
      by (auto simp: Let_def split: prod.splits) (metis fst_conv)
  qed
qed simp

lemma run_suite_length: "length (fst (run_suite ops w it timer bs i s)) = length bs"
  using run_suite_names [of ops w it timer bs i s] by (metis length_map)

section \<open>GemmAutoTuner\<close>

record auto_tune_config =
  cfg_warmup :: int
  cfg_iterations :: int
  cfg_persist :: bool
  cfg_cache_file :: string

record 'f auto_tuner =
  at_cfg :: auto_tune_config
  at_db :: "'f tune_db"
  at_report :: string

definition default_tune_config :: auto_tune_config where
  "default_tune_config = \<lparr>cfg_warmup = 2, cfg_iterations = 10, cfg_persist = True, cfg_cache_file = []\<rparr>"

text \<open>The file at the cache path, if it can be opened, is an argument of the constructor.\<close>

definition auto_tuner_new ::
  "('f tune_result list \<Rightarrow> 'f tune_result list)
    \<Rightarrow> (string \<Rightarrow> ((nat \<times> nat \<times> nat) \<times> int \<times> int \<times> int \<times> 'f \<times> 'f) option)
    \<Rightarrow> string option \<Rightarrow> auto_tune_config \<Rightarrow> 'f auto_tuner" where
  "auto_tuner_new sort_entries extract file cfg =
     \<lparr>at_cfg = cfg,
      at_db = (if cfg_persist cfg \<and> cfg_cache_file cfg \<noteq> []
               then (case file of None \<Rightarrow> [] | Some text \<Rightarrow> load_text sort_entries extract text [])
               else []),
      at_report = []\<rparr>"

definition tune_cases :: "'f fops \<Rightarrow> nat \<Rightarrow> nat \<Rightarrow> gemm_config list \<Rightarrow> (unit, 'f) benchmark_case list" where
  "tune_cases ops numel_a columns configs =
     fold (\<lambda>c cases. add_case
        \<lparr>bc_name = ''tile'' @ int_to_string (gtile c) @ ''w'' @ int_to_string (gwarps c),
         bc_flops = f_mul ops (f_mul ops (f_dec ops 2 0) (f_of_nat ops numel_a)) (f_of_nat ops columns),
         bc_bytes = f_dec ops 0 0, bc_fn = Some (\<lambda>s. s)\<rparr> cases)
       configs []"

definition result_of :: "gemm_config \<times> 'f benchmark_result \<Rightarrow> 'f tune_result" where
  "result_of x = \<lparr>config = fst x, latency_ms = br_ms (snd x), throughput = br_gflops (snd x), valid = True\<rparr>"

definition keep_best ::
  "'f fops \<Rightarrow> ('f tune_result list \<Rightarrow> 'f tune_result list) \<Rightarrow> nat \<times> nat \<times> nat \<Rightarrow> 'f tune_result
    \<Rightarrow> 'f tune_result \<times> 'f tune_db \<Rightarrow> 'f tune_result \<times> 'f tune_db" where
  "keep_best ops sort_entries key r s =
     (case s of (b, db) \<Rightarrow>
        (if \<not> valid b \<or> f_less ops (latency_ms r) (latency_ms b) then r else b,
         record_result sort_entries key r db))"

definition tune_report :: "('f \<Rightarrow> string) \<Rightarrow> nat \<Rightarrow> 'f tune_result \<Rightarrow> string" where
  "tune_report print n b =
     ''tested='' @ nat_to_string n @ '' best_ms='' @ print (latency_ms b) @ '' best='' @ kernel_config (config b)"

text \<open>
  The benchmarked function multiplies the two tensors and drops the product, so all it can do
  to the caller is throw; the returned text is what \<open>save\<close> writes.
\<close>

definition autotune_run ::
  "'f fops \<Rightarrow> ('f tune_result list \<Rightarrow> 'f tune_result list) \<Rightarrow> ('f \<Rightarrow> string) \<Rightarrow> (nat \<Rightarrow> 'f)
    \<Rightarrow> 'f auto_tuner \<Rightarrow> 'f tval \<Rightarrow> 'f tval \<Rightarrow> ('f tune_result \<times> 'f auto_tuner \<times> string option) result"
where
  "autotune_run ops sort_entries print timer t a b =
     (if ndim a \<noteq> 2 \<or> ndim b \<noteq> 2 \<or> vshape a ! 1 \<noteq> vshape b ! 0
      then Inl (InvalidArgument ''autotune gemm shape'')
      else let key = (vshape a ! 0, vshape b ! 1, vshape a ! 1);
               cached = best ops (at_db t) key
           in if valid cached then Inr (cached, t, None)
              else let configs = gemm_space (vshape a ! 0) (vshape b ! 1) (vshape a ! 1)
              in if configs = [] then Inl (InvalidArgument ''autotune has no valid GEMM configurations'')
              else bind_result (numel (vshape a)) (\<lambda>n.
                   bind_result (fold_result (\<lambda>c _. bind_result (gemm ops a b c) (\<lambda>_. Inr ())) configs ()) (\<lambda>_.
                     let rows = fst (run_suite ops (cfg_warmup (at_cfg t)) (cfg_iterations (at_cfg t)) timer
                           (tune_cases ops n (vshape b ! 1) configs) 0 ());
                         (winner, db) = fold (keep_best ops sort_entries key) (map result_of (zip configs rows))
                           (no_result ops, at_db t)
                     in Inr (winner,
                             t\<lparr>at_db := db, at_report := tune_report print (length rows) winner\<rparr>,
                             if cfg_persist (at_cfg t) \<and> cfg_cache_file (at_cfg t) \<noteq> []
                             then Some (serialize print db) else None))))"

section \<open>Tuning finds the best\<close>

lemma tune_cases_length: "length (tune_cases ops n c configs) = length configs"
proof -
  have "length (fold (\<lambda>c cases. add_case (f c) cases) configs cases) = length cases + length configs"
    if "\<And>c. bc_fn (f c) \<noteq> None" for f and cases :: "(unit, 'a) benchmark_case list"
    using that by (induction configs arbitrary: cases) (simp_all add: add_case_def)
  then show ?thesis by (simp add: tune_cases_def)
qed

context float_order
begin

lemma keep_best_fold:
  assumes "\<forall>r \<in> set rs. valid r" "valid b"
  shows "valid (fst (fold (keep_best ops srt key) rs (b, db)))
    \<and> fst (fold (keep_best ops srt key) rs (b, db)) \<in> insert b (set rs)
    \<and> (\<forall>r \<in> insert b (set rs).
         \<not> f_less ops (latency_ms r) (latency_ms (fst (fold (keep_best ops srt key) rs (b, db)))))"
  using assms
proof (induction rs arbitrary: b db)
  case Nil
  then show ?case by (simp add: less_irrefl)
next
  case (Cons r rs)
  let ?b = "if f_less ops (latency_ms r) (latency_ms b) then r else b"
  let ?w = "fst (fold (keep_best ops srt key) rs (?b, record_result srt key r db))"
  have step: "fold (keep_best ops srt key) (r # rs) (b, db)
      = fold (keep_best ops srt key) rs (?b, record_result srt key r db)"
    using Cons.prems by (simp add: keep_best_def)
  have IH: "valid ?w \<and> ?w \<in> insert ?b (set rs) \<and> (\<forall>r \<in> insert ?b (set rs). \<not> f_less ops (latency_ms r) (latency_ms ?w))"
    by (rule Cons.IH) (use Cons.prems in auto)
  have "\<not> f_less ops (latency_ms r) (latency_ms ?b)" "\<not> f_less ops (latency_ms b) (latency_ms ?b)"
    using less_irrefl less_asym by auto
  moreover have "\<not> f_less ops (latency_ms ?b) (latency_ms ?w)" using IH by blast
  ultimately have "\<not> f_less ops (latency_ms r) (latency_ms ?w)" "\<not> f_less ops (latency_ms b) (latency_ms ?w)"
    using not_less_trans by blast+
  with IH show ?case unfolding step by auto
qed

end

lemma keep_best_db:
  "snd (fold (keep_best ops srt key) rs (b, db)) = fold (record_result srt key) rs db"
  by (induction rs arbitrary: b db) (simp_all add: keep_best_def)

lemma record_all_append:
  "record_all srt (hist @ map (Pair key) rs) = fold (record_result srt key) rs (record_all srt hist)"
  by (simp add: record_all_def fold_map comp_def)

lemma best_history:
  assumes srt: "latency_sort ops srt"
  shows "(if map snd (filter (\<lambda>x. fst x = key) hist) = [] then best ops (record_all srt hist) key = no_result ops
     else valid (best ops (record_all srt hist) key)
       \<and> best ops (record_all srt hist) key \<in> (\<lambda>r. r\<lparr>valid := True\<rparr>) ` set (map snd (filter (\<lambda>x. fst x = key) hist))
       \<and> (\<forall>r \<in> set (map snd (filter (\<lambda>x. fst x = key) hist)).
            \<not> f_less ops (latency_ms r) (latency_ms (best ops (record_all srt hist) key))))"
  using best_spec [OF srt, of key hist, unfolded Let_def, THEN conjunct2] .

text \<open>
  tuning answers with the best configuration and remembers it. For matrices that can be
  multiplied, in a database built by earlier records without a result for their shape, a run
  succeeds when a tile divides a dimension of the product; it returns a valid result that no
  measured configuration beats, the database then answers with a result of the same latency
  class, and a second run returns that result from the database without measuring.
\<close>

theorem autotune_finds_best:
  assumes srt: "latency_sort ops srt" and db: "at_db t = record_all srt hist"
    and a: "is_matrix a m k" and b: "is_matrix b k n" and fits: "m * n < 2 ^ 64"
    and miss: "\<not> valid (best ops (at_db t) (m, n, k))" and tile: "8 dvd m \<or> 8 dvd n"
  shows "\<exists>r t' saved. autotune_run ops srt print timer t a b = Inr (r, t', saved)
    \<and> valid r \<and> config r \<in> set (gemm_space m n k)
    \<and> (\<forall>j < length (gemm_space m n k).
         \<not> f_less ops (f_div ops (timer j) (f_dec ops (max 1 (cfg_iterations (at_cfg t))) 0)) (latency_ms r))
    \<and> (let b' = best ops (at_db t') (m, n, k)
       in valid b' \<and> \<not> f_less ops (latency_ms r) (latency_ms b') \<and> \<not> f_less ops (latency_ms b') (latency_ms r)
        \<and> autotune_run ops srt print timer t' a b = Inr (b', t', None))"
proof -
  let ?key = "(m, n, k)" and ?configs = "gemm_space m n k"
  let ?it = "cfg_iterations (at_cfg t)"
  let ?rows = "fst (run_suite ops (cfg_warmup (at_cfg t)) ?it timer (tune_cases ops (m * k) n ?configs) 0 ())"
  let ?rs = "map result_of (zip ?configs ?rows)"
  have ord: "float_order ops" using srt by (rule latency_sort.axioms(1))
  have "\<lparr>gtile = 8, gwarps = 2, use_tensor_core = False\<rparr> \<in> set ?configs"
    using tile by (simp add: gemm_space_spec)
  then have ne: "?configs \<noteq> []" by auto
  have lr: "length ?rows = length ?configs" by (simp add: run_suite_length tune_cases_length)
  have lat: "latency_ms (?rs ! j) = f_div ops (timer j) (f_dec ops (max 1 ?it) 0)" if "j < length ?configs" for j
    using that lr run_suite_nth [of j "tune_cases ops (m * k) n ?configs" ops "cfg_warmup (at_cfg t)" ?it timer 0 "()"]
    by (simp add: result_of_def tune_cases_length)
  have val: "\<forall>r \<in> set ?rs. valid r" by (auto simp: result_of_def)
  have cfg: "config r \<in> set ?configs" if "r \<in> set ?rs" for r
    using that by (auto simp: result_of_def dest: set_zip_leftD)
  define w where "w = fst (fold (keep_best ops srt ?key) ?rs (no_result ops, at_db t))"
  define db' where "db' = snd (fold (keep_best ops srt ?key) ?rs (no_result ops, at_db t))"
  have "length ?rs = length ?configs" using lr by simp
  with ne have "?rs \<noteq> []" by (metis length_0_conv)
  then obtain r0 rs0 where rs: "?rs = r0 # rs0" by (cases ?rs) auto
  have first: "fold (keep_best ops srt ?key) ?rs (no_result ops, at_db t)
      = fold (keep_best ops srt ?key) rs0 (r0, record_result srt ?key r0 (at_db t))"
    unfolding rs by (simp add: keep_best_def no_result_def)
  have w_eq: "w = fst (fold (keep_best ops srt ?key) rs0 (r0, record_result srt ?key r0 (at_db t)))"
    unfolding w_def by (simp only: first)
  have w: "valid w" "w \<in> set ?rs" "\<forall>r \<in> set ?rs. \<not> f_less ops (latency_ms r) (latency_ms w)"
    using float_order.keep_best_fold [OF ord, of rs0 r0 srt ?key "record_result srt ?key r0 (at_db t)"] val
    unfolding w_eq rs by auto
  have db': "db' = record_all srt (hist @ map (Pair ?key) ?rs)"
    unfolding db'_def keep_best_db record_all_append db ..
  have none: "map snd (filter (\<lambda>x. fst x = ?key) hist) = []"
    using best_history [OF srt, of ?key hist] miss unfolding db by (auto split: if_splits)
  have mine: "map snd (filter (\<lambda>x. fst x = ?key) (hist @ map (Pair ?key) ?rs)) = ?rs"
    using none by (simp add: filter_map comp_def)
  let ?b = "best ops db' ?key"
  have b': "valid ?b" "?b \<in> (\<lambda>r. r\<lparr>valid := True\<rparr>) ` set ?rs"
    "\<forall>r \<in> set ?rs. \<not> f_less ops (latency_ms r) (latency_ms ?b)"
    using best_history [OF srt, of ?key "hist @ map (Pair ?key) ?rs"] \<open>?rs \<noteq> []\<close>
    unfolding mine db' by (simp_all only: if_False simp_thms) blast+
  then obtain r1 where r1: "r1 \<in> set ?rs" "?b = r1\<lparr>valid := True\<rparr>" by blast
  have "latency_ms ?b = latency_ms r1" unfolding r1(2) by simp
  with bspec [OF w(3) r1(1)] have bw: "\<not> f_less ops (latency_ms ?b) (latency_ms w)" by simp
  have gemm: "bind_result (gemm ops a b c) (\<lambda>_. Inr ()) = Inr ()" if "c \<in> set ?configs" for c
  proof -
    have "gtile c < 2 ^ 31" using that by (auto simp: gemm_space_spec)
    from gemm_matrix [OF this a b, of ops] fits show ?thesis by simp
  qed
  have loop: "fold_result (\<lambda>c _. bind_result (gemm ops a b c) (\<lambda>_. Inr ())) xs () = Inr ()"
    if "set xs \<subseteq> set ?configs" for xs
    using that gemm by (induction xs) auto
  have shapes: "vshape a = [m, k]" "vshape b = [k, n]" "numel [m, k] = Inr (m * k)"
    using a b numel_matrix [of m k] by (simp_all add: is_matrix_def)
  let ?t = "t\<lparr>at_db := db', at_report := tune_report print (length ?rows) w\<rparr>"
  let ?saved = "if cfg_persist (at_cfg t) \<and> cfg_cache_file (at_cfg t) \<noteq> [] then Some (serialize print db') else None"
  have "fold (keep_best ops srt ?key) ?rs (no_result ops, at_db t) = (w, db')"
    by (simp add: w_def db'_def)
  then have run: "autotune_run ops srt print timer t a b = Inr (w, ?t, ?saved)"
    using shapes miss ne loop [OF order_refl] by (simp add: autotune_run_def ndim_def)
  have again: "autotune_run ops srt print timer ?t a b = Inr (?b, ?t, None)"
    using shapes b'(1) by (simp add: autotune_run_def ndim_def)
  have beat: "\<not> f_less ops (f_div ops (timer j) (f_dec ops (max 1 ?it) 0)) (latency_ms w)" if "j < length ?configs" for j
    using w(3) lat [OF that] nth_mem [of j ?rs] that lr by auto
  have wb: "\<not> f_less ops (latency_ms w) (latency_ms ?b)" by (rule bspec [OF b'(3) w(2)])
  show ?thesis
    using run again w(1) b'(1) bw wb cfg [OF w(2)] beat
    by (intro exI [of _ w] exI [of _ ?t] exI [of _ ?saved]) (simp add: Let_def)
qed

theorem autotune_finds_best_witness:
  "\<exists>r t' saved. autotune_run (real_ops id) (insertion_sort (real_ops id)) (\<lambda>_. []) real
     \<lparr>at_cfg = default_tune_config, at_db = [], at_report = []\<rparr>
     \<lparr>vshape = [8, 1], vdtype = DType_F32, vdata = [1, 2, 3, 4, 5, 6, 7, 8]\<rparr>
     \<lparr>vshape = [1, 1], vdtype = DType_F32, vdata = [2]\<rparr> = Inr (r, t', saved) \<and> valid r"
proof -
  let ?t = "\<lparr>at_cfg = default_tune_config, at_db = [], at_report = []\<rparr> :: real auto_tuner"
  let ?a = "\<lparr>vshape = [8, 1], vdtype = DType_F32, vdata = [1, 2, 3, 4, 5, 6, 7, 8 :: real]\<rparr>"
  let ?b = "\<lparr>vshape = [1, 1], vdtype = DType_F32, vdata = [2 :: real]\<rparr>"
  have srt: "latency_sort (real_ops id) (insertion_sort (real_ops id))" by (rule real_sort.latency_sort_axioms)
  have db: "at_db ?t = record_all (insertion_sort (real_ops id)) []" by (simp add: record_all_def)
  have a: "is_matrix ?a 8 1" "is_matrix ?b 1 1" by (simp_all add: is_matrix_def)
  have miss: "\<not> valid (best (real_ops id) (at_db ?t) (8, 1, 1))" by (simp add: best_def no_result_def)
  show ?thesis
    using autotune_finds_best [OF srt db a _ miss, of "\<lambda>_. []" real] by auto
qed

end
