(* ===== verification/Size_Class.thy ===== *)
theory Size_Class
  imports Prelude "HOL-Library.Word"
begin

unbundle bit_operations_syntax

text \<open>
  Size classes of the allocator (vendor_memorypool/v3/src/Common.h): the table of block sizes,
  built by a loop that doubles its step every eighth multiple, the two index maps built from it
  and the lookups \<open>getIndex\<close> and \<open>roundUp\<close>; then the policies of the thread cache and of the
  central cache that are functions of the block size (\<open>getBatchNum\<close>, \<open>maxCachedBlocks\<close>, the
  number of pages of a new span).
\<close>

section \<open>Constants and bit arithmetic\<close>

abbreviation k_alignment :: nat where "k_alignment \<equiv> 8"
abbreviation max_bytes :: nat where "max_bytes \<equiv> 262144"
abbreviation k_max_size_classes :: nat where "k_max_size_classes \<equiv> 64"

text \<open>\<open>n & ~m\<close> on \<open>size_t\<close>.\<close>

definition and_not :: "nat \<Rightarrow> nat \<Rightarrow> nat" where
  "and_not n m = unat ((of_nat n :: 64 word) AND NOT (of_nat m))"

text \<open>Rounding up with a mask: \<open>(n + a - 1) & ~(a - 1)\<close>, for a power of two \<open>a\<close>.\<close>

definition mask_up :: "nat \<Rightarrow> nat \<Rightarrow> nat" where
  "mask_up n a = and_not (wsub (wadd n a) 1) (a - 1)"

lemma word_and_not_mask: "(x :: 64 word) AND NOT (mask k) = x - take_bit k x"
proof -
  have "x - take_bit k x = x AND NOT (take_bit k x)"
    by (rule disjunctive_diff_eq_and_not) (rule bit_word_eqI,
      auto simp: bit_and_iff bit_not_iff bit_take_bit_iff)
  also have "\<dots> = x AND NOT (mask k)"
    by (rule bit_word_eqI) (auto simp: bit_and_iff bit_not_iff bit_take_bit_iff bit_mask_iff)
  finally show ?thesis by simp
qed

lemma and_not_mask:
  assumes "n < 2 ^ 64" and "k \<le> 64"
  shows "and_not n (2 ^ k - 1) = n - n mod 2 ^ k"
proof -
  have m: "(of_nat (2 ^ k - 1) :: 64 word) = mask k"
    by (simp add: mask_eq_exp_minus_1 of_nat_diff)
  have un: "unat (of_nat n :: 64 word) = n" using assms(1) by (simp add: unat_of_nat)
  have t: "unat (take_bit k (of_nat n :: 64 word)) = n mod 2 ^ k"
    by (simp only: unsigned_take_bit_eq un) (rule take_bit_eq_mod)
  have "take_bit k (of_nat n :: 64 word) \<le> of_nat n"
    by (simp add: word_le_nat_alt t un)
  then have "unat (of_nat n - take_bit k (of_nat n) :: 64 word) = n - n mod 2 ^ k"
    by (simp only: unat_sub t un)
  then show ?thesis by (simp only: and_not_def m word_and_not_mask)
qed

lemma mask_up_exact:
  assumes "n + 2 ^ k < 2 ^ 64"
  shows "mask_up n (2 ^ k) = (n + 2 ^ k - 1) div 2 ^ k * 2 ^ k"
proof -
  have k: "k \<le> 64"
    using assms power_increasing [of 64 k "2::nat"] by (cases "k \<le> 64") auto
  have "wsub (wadd n (2 ^ k)) 1 = n + 2 ^ k - 1"
    unfolding wadd_exact [OF assms] using assms by (intro wsub_exact) (simp_all add: Suc_le_eq)
  moreover have "n + 2 ^ k - 1 < 2 ^ 64" using assms by simp
  ultimately show ?thesis
    by (simp only: mask_up_def and_not_mask [OF _ k] minus_mod_eq_div_mult)
qed

section \<open>The table\<close>

text \<open>
  \<open>makeSizeClassTable\<close>: the loop runs while fewer than 64 sizes are stored; the table's unused
  entries stay zero and are never read.
\<close>

function size_table_loop :: "nat list \<Rightarrow> nat \<Rightarrow> nat \<Rightarrow> nat list" where
  "size_table_loop sizes align bytes =
     (if length sizes < k_max_size_classes then
        (let next_bytes = bytes + align in
         if next_bytes > max_bytes then sizes
         else size_table_loop (sizes @ [next_bytes]) (if next_bytes \<ge> align * 8 then align * 2 else align) next_bytes)
      else sizes)"
  by pat_completeness auto

termination by (relation "measure (\<lambda>(sizes, _). k_max_size_classes - length sizes)") auto

declare size_table_loop.simps [simp del]

definition size_table :: "nat list" where
  "size_table = size_table_loop [] k_alignment 0"

definition class_count :: nat where
  "class_count = length size_table"

text \<open>The table's sizes, evaluated once.\<close>

lemma size_table_eval:
  "size_table =
     [8, 16, 24, 32, 40, 48, 56, 64, 80, 96, 112, 128, 160, 192, 224, 256, 320, 384, 448, 512,
      640, 768, 896, 1024, 1280, 1536, 1792, 2048, 2560, 3072, 3584, 4096, 5120, 6144, 7168, 8192,
      10240, 12288, 14336, 16384, 20480, 24576, 28672, 32768, 40960, 49152, 57344, 65536,
      81920, 98304, 114688, 131072, 163840, 196608, 229376, 262144]"
  unfolding size_table_def by (simp add: size_table_loop.simps)

lemma class_count_eval [simp]: "class_count = 56"
  by (simp add: class_count_def size_table_eval)

text \<open>Sizes grow strictly, from 8 to 262144.\<close>

lemma size_table_less: "i < j \<Longrightarrow> j < 56 \<Longrightarrow> size_table ! i < size_table ! j"
proof -
  assume "i < j" "j < 56"
  moreover have "sorted_wrt (<) size_table" unfolding size_table_eval by simp
  ultimately show ?thesis using sorted_wrt_nth_less [of "(<)" size_table i j]
    by (simp flip: class_count_def)
qed

lemma size_table_mono: "i \<le> j \<Longrightarrow> j < 56 \<Longrightarrow> size_table ! i \<le> size_table ! j"
  using size_table_less [of i j] by (cases "i = j") (auto simp: less_imp_le)

lemma size_table_last: "size_table ! 55 = max_bytes"
  by (simp add: size_table_eval)

lemma size_table_all:
  assumes "\<forall>n \<in> set size_table. P n" and "i < 56"
  shows "P (size_table ! i)"
  using assms by (simp flip: class_count_def class_count_eval)

lemma size_table_bounds: "i < 56 \<Longrightarrow> 8 \<le> size_table ! i \<and> size_table ! i \<le> max_bytes"
  by (rule size_table_all) (simp_all add: size_table_eval)

lemma size_table_dvd: "i < 56 \<Longrightarrow> 8 dvd size_table ! i"
  by (rule size_table_all) (simp_all add: size_table_eval)

section \<open>The index maps\<close>

text \<open>
  \<open>makeSmallIndexMap\<close> and \<open>makeIndexMap\<close> walk the sizes once: the running index advances while
  the class is too small for the next entry.
\<close>

function advance :: "nat \<Rightarrow> nat \<Rightarrow> nat" where
  "advance index bytes =
     (if index + 1 < class_count \<and> size_table ! index < bytes then advance (index + 1) bytes
      else index)"
  by pat_completeness auto

termination by (relation "measure (\<lambda>(index, _). class_count - index)") auto

declare advance.simps [simp del]

fun index_map_loop :: "(nat \<Rightarrow> nat) \<Rightarrow> nat \<Rightarrow> nat list \<Rightarrow> nat list" where
  "index_map_loop bytes_of index [] = []"
| "index_map_loop bytes_of index (n # ns) =
     (let index' = advance index (bytes_of n) in
      index' mod 256 # index_map_loop bytes_of index' ns)"

definition small_bytes :: "nat \<Rightarrow> nat" where
  "small_bytes n = (if n = 0 then k_alignment else n)"

definition unit_bytes :: "nat \<Rightarrow> nat" where
  "unit_bytes u = (if u = 0 then k_alignment else u * k_alignment)"

definition small_index_map :: "nat list" where
  "small_index_map = index_map_loop small_bytes 0 [0..<257]"

definition index_map :: "nat list" where
  "index_map = index_map_loop unit_bytes 0 [0..<max_bytes div k_alignment + 1]"

definition get_size :: "nat \<Rightarrow> nat" where
  "get_size index = size_table ! index"

definition get_index :: "nat \<Rightarrow> nat" where
  "get_index bytes =
     (if bytes \<le> 256 then small_index_map ! bytes
      else if bytes > max_bytes then class_count
      else index_map ! (wsub (wadd bytes k_alignment) 1 div k_alignment))"

definition round_up :: "nat \<Rightarrow> nat" where
  "round_up bytes =
     (if bytes > max_bytes then mask_up bytes k_alignment else get_size (get_index bytes))"

text \<open>The class of a size, as a predicate: the least one that is large enough.\<close>

definition is_class :: "nat \<Rightarrow> nat \<Rightarrow> bool" where
  "is_class bytes i \<longleftrightarrow> i < 56 \<and> bytes \<le> size_table ! i \<and> (\<forall>j < i. size_table ! j < bytes)"

lemma is_class_unique: "is_class b i \<Longrightarrow> is_class b j \<Longrightarrow> i = j"
  by (metis is_class_def linorder_neqE_nat not_le)

lemma advance_is_class:
  assumes "index < 56" and "b \<le> max_bytes" and "\<forall>j < index. size_table ! j < b"
  shows "is_class b (advance index b)"
  using assms
proof (induction index b rule: advance.induct)
  case (1 index b)
  show ?case
  proof (cases "index + 1 < class_count \<and> size_table ! index < b")
    case True
    with "1.IH" "1.prems" show ?thesis
      by (subst advance.simps) (simp add: less_Suc_eq)
  next
    case False
    then have "b \<le> size_table ! index"
      using "1.prems" size_table_last by (cases "index = 55") auto
    with False "1.prems" show ?thesis by (subst advance.simps) (simp add: is_class_def)
  qed
qed

lemma index_map_loop_nth:
  assumes "index < 56" and "\<forall>j < index. size_table ! j < f k"
    and "\<forall>n < l. \<forall>m < l. n \<le> m \<longrightarrow> (\<forall>j < 56. size_table ! j < f n \<longrightarrow> size_table ! j < f m)"
    and "\<forall>n < l. f n \<le> max_bytes" and "i < l - k"
  shows "is_class (f (k + i)) (index_map_loop f index [k..<l] ! i)"
  using assms
proof (induction "l - k" arbitrary: index k i)
  case 0
  then show ?case by simp
next
  case (Suc d)
  have kl: "k < l" using Suc.hyps by simp
  let ?n = "advance index (f k)"
  have c: "is_class (f k) ?n"
    using advance_is_class Suc.prems kl by blast
  then have n: "?n < 56" by (simp add: is_class_def)
  have u: "[k..<l] = k # [Suc k..<l]" using kl by (rule upt_conv_Cons)
  show ?case
  proof (cases i)
    case 0
    with c n u show ?thesis by (simp add: Let_def)
  next
    case (Suc i')
    then have "Suc k + i' < l" using Suc.prems by simp
    moreover have "\<forall>j < ?n. size_table ! j < f (Suc k)"
    proof (intro allI impI)
      fix j assume j: "j < ?n"
      with c n have "size_table ! j < f k" "j < 56" by (simp_all add: is_class_def)
      moreover have "Suc k < l" using \<open>Suc k + i' < l\<close> by simp
      ultimately show "size_table ! j < f (Suc k)" using Suc.prems(3) kl by (meson le_Suc_eq order_refl)
    qed
    moreover have "d = l - Suc k" using Suc.hyps by simp
    ultimately have "is_class (f (Suc k + i')) (index_map_loop f ?n [Suc k..<l] ! i')"
      using Suc.hyps(1) [of "Suc k" ?n i'] n Suc.prems(3,4) by (metis less_diff_conv add.commute)
    with Suc u show ?thesis by (simp add: Let_def)
  qed
qed

lemma small_index_map_nth:
  assumes "n \<le> 256"
  shows "is_class (small_bytes n) (small_index_map ! n)"
proof -
  have "\<not> size_table ! j < small_bytes 0" if "j < 56" for j
    using size_table_bounds [OF that] by (simp add: small_bytes_def)
  then have "\<forall>n < 257. \<forall>m < 257. n \<le> m \<longrightarrow>
      (\<forall>j < 56. size_table ! j < small_bytes n \<longrightarrow> size_table ! j < small_bytes m)"
    by (metis le_zero_eq less_le_trans small_bytes_def)
  moreover have "\<forall>n < 257. small_bytes n \<le> max_bytes" by (auto simp: small_bytes_def)
  moreover have "n < 257 - 0" using assms by simp
  ultimately have "is_class (small_bytes (0 + n)) (index_map_loop small_bytes 0 [0..<257] ! n)"
    by (intro index_map_loop_nth) simp_all
  then show ?thesis by (simp only: small_index_map_def add_0)
qed

lemma index_map_nth:
  assumes "u \<le> max_bytes div 8"
  shows "is_class (unit_bytes u) (index_map ! u)"
proof -
  let ?l = "max_bytes div k_alignment + 1"
  have "unit_bytes n \<le> unit_bytes m" if "n \<le> m" for n m
    using that by (auto simp: unit_bytes_def)
  then have "\<forall>n < ?l. \<forall>m < ?l. n \<le> m \<longrightarrow>
      (\<forall>j < 56. size_table ! j < unit_bytes n \<longrightarrow> size_table ! j < unit_bytes m)"
    using less_le_trans by blast
  moreover have "\<forall>n < ?l. unit_bytes n \<le> max_bytes" by (auto simp: unit_bytes_def)
  moreover have "u < ?l - 0" using assms by simp
  ultimately have "is_class (unit_bytes (0 + u)) (index_map_loop unit_bytes 0 [0..<?l] ! u)"
    by (intro index_map_loop_nth) simp_all
  then show ?thesis by (simp only: index_map_def add_0)
qed

text \<open>Every size is a multiple of 8, so rounding the request up to one does not change its class.\<close>

lemma is_class_round8:
  assumes "is_class ((b + 7) div 8 * 8) i" and "0 < b"
  shows "is_class b i"
proof -
  have "b \<le> (b + 7) div 8 * 8" by simp
  moreover have "size_table ! j < b" if "j < i" for j
  proof -
    have j: "size_table ! j < (b + 7) div 8 * 8" "j < 56" using assms that by (auto simp: is_class_def)
    then obtain q where q: "size_table ! j = 8 * q" using size_table_dvd by blast
    with j(1) have "q < (b + 7) div 8" by simp
    then have "8 * q + 8 \<le> b + 7" by (simp add: less_eq_div_iff_mult_less_eq flip: Suc_le_eq)
    with q show ?thesis by linarith
  qed
  ultimately show ?thesis using assms by (auto simp: is_class_def)
qed

lemma get_index_class:
  assumes "0 < b" and "b \<le> max_bytes"
  shows "is_class b (get_index b)"
proof (cases "b \<le> 256")
  case True
  with small_index_map_nth [OF True] assms show ?thesis by (simp add: get_index_def small_bytes_def)
next
  case False
  have "wadd b k_alignment = b + 8" using assms(2) by (intro wadd_exact) simp
  moreover have "wsub (b + 8) 1 = b + 7" using assms(2) by (subst wsub_exact) simp_all
  ultimately have g: "get_index b = index_map ! ((b + 7) div 8)"
    using False assms by (simp add: get_index_def)
  have "(b + 7) div 8 \<le> max_bytes div 8" using assms by simp
  moreover have "(b + 7) div 8 \<noteq> 0" using False by simp
  ultimately have "is_class ((b + 7) div 8 * 8) (index_map ! ((b + 7) div 8))"
    using index_map_nth [of "(b + 7) div 8"] by (simp add: unit_bytes_def)
  then show ?thesis using assms(1) unfolding g by (rule is_class_round8)
qed

lemma get_index_zero: "get_index 0 = 0"
proof -
  have "is_class 8 0" by (simp add: is_class_def size_table_eval)
  moreover have "is_class 8 (small_index_map ! 0)"
    using small_index_map_nth [of 0] by (simp add: small_bytes_def)
  ultimately show ?thesis using is_class_unique by (simp add: get_index_def)
qed

lemma get_index_iff: "0 < b \<Longrightarrow> b \<le> max_bytes \<Longrightarrow> get_index b = i \<longleftrightarrow> is_class b i"
  using get_index_class is_class_unique by blast

lemma get_index_less: "b \<le> max_bytes \<Longrightarrow> get_index b < 56"
  using get_index_class [of b] get_index_zero by (cases "b = 0") (auto simp: is_class_def)

lemma get_index_large: "max_bytes < b \<Longrightarrow> get_index b = 56"
  by (simp add: get_index_def)

lemma get_index_size: "i < 56 \<Longrightarrow> get_index (size_table ! i) = i"
  using size_table_bounds [of i] size_table_less [of _ i]
  by (subst get_index_iff) (auto simp: is_class_def)

lemma round_up_ge: "b \<le> max_bytes \<Longrightarrow> b \<le> round_up b"
  using get_index_class [of b] by (cases "b = 0") (auto simp: round_up_def get_size_def is_class_def)

text \<open>Neighbouring sizes are at most 8 or a quarter of the smaller one apart.\<close>

lemma size_table_step:
  assumes "i < 55"
  shows "size_table ! Suc i - size_table ! i \<le> 8
    \<or> 4 * (size_table ! Suc i - size_table ! i) \<le> size_table ! i"
proof -
  have "\<forall>i \<in> set [0..<55]. size_table ! Suc i - size_table ! i \<le> 8
      \<or> 4 * (size_table ! Suc i - size_table ! i) \<le> size_table ! i"
    by (simp add: size_table_eval upt_rec)
  with assms show ?thesis by simp
qed

section \<open>Policies of the caches\<close>

definition max_cached_blocks :: "nat \<Rightarrow> nat" where
  "max_cached_blocks bytes =
     (let n = max 1 (256 * 1024 div max bytes k_alignment) in
      if bytes \<le> 32 then 4096
      else if bytes \<le> 64 then 2048
      else if bytes \<le> 256 then 1024
      else if bytes \<le> 1024 then 256
      else if bytes \<le> 4096 then 512
      else min n 128)"

definition get_batch_num :: "nat \<Rightarrow> nat" where
  "get_batch_num bytes =
     (let n = max 1 (64 * 1024 div max bytes k_alignment);
          m = (if bytes \<le> 32 then min n 512
               else if bytes \<le> 64 then min n 256
               else if bytes \<le> 256 then min n 128
               else if bytes \<le> 1024 then min n 32
               else min n 16)
      in max 1 m)"

definition target_bytes :: "nat \<Rightarrow> nat \<Rightarrow> nat" where
  "target_bytes page_size block_size =
     (let t = max page_size
                (if block_size \<le> 256 then 32 * 1024
                 else if block_size \<le> 1024 then 128 * 1024
                 else if block_size \<le> 4096 then 512 * 1024
                 else 2 * 1024 * 1024)
      in if block_size > t then (block_size + page_size - 1) div page_size * page_size else t)"

definition span_pages :: "nat \<Rightarrow> nat \<Rightarrow> nat" where
  "span_pages page_size block_size =
     (let n = target_bytes page_size block_size div page_size in if n = 0 then 1 else n)"

definition keep_num :: "nat \<Rightarrow> nat \<Rightarrow> nat" where
  "keep_num block_size batch_num = min (max (batch_num div 2) 1) (max_cached_blocks block_size)"

lemma get_batch_num_pos: "0 < get_batch_num b"
  unfolding get_batch_num_def Let_def by (rule less_le_trans [OF zero_less_one max.cobounded1])

lemma max_cached_blocks_pos: "0 < max_cached_blocks b"
  by (simp add: max_cached_blocks_def Let_def less_max_iff_disj)

lemma batch_below_cache: "get_batch_num b \<le> max_cached_blocks b"
proof -
  have "max 1 (64 * 1024 div max b 8) \<le> max 1 (256 * 1024 div max b (8::nat))"
    by (intro max.mono div_le_mono) simp_all
  then show ?thesis by (auto simp: get_batch_num_def max_cached_blocks_def Let_def)
qed

text \<open>A new span has room for at least one block.\<close>

lemma span_pages_fit:
  assumes "b \<le> max_bytes"
  shows "b \<le> span_pages (2 ^ k) b * 2 ^ k" and "0 < span_pages (2 ^ k) b"
proof -
  define m where "m = (if b \<le> 256 then 15 else if b \<le> 1024 then 17 else if b \<le> 4096 then 19
    else 21 :: nat)"
  have m: "(if b \<le> 256 then 32 * 1024 else if b \<le> 1024 then 128 * 1024
      else if b \<le> 4096 then 512 * 1024 else 2 * 1024 * 1024) = (2 ^ m :: nat)"
    by (simp add: m_def)
  have b: "b \<le> 2 ^ m" using assms by (simp add: m_def)
  have t: "target_bytes (2 ^ k) b = 2 ^ max k m"
  proof -
    have "max (2 ^ k) (2 ^ m) = (2 ^ max k m :: nat)" by (simp add: max_def)
    moreover have "b \<le> 2 ^ max k m"
      using b power_increasing [of m "max k m" "2 :: nat"] by linarith
    ultimately show ?thesis by (simp only: target_bytes_def Let_def m) simp
  qed
  have d: "2 ^ max k m div 2 ^ k = (2 ^ (max k m - k) :: nat)"
    by (simp add: power_diff)
  have "span_pages (2 ^ k) b = 2 ^ (max k m - k)"
    by (simp add: span_pages_def t d Let_def)
  moreover have "(2 :: nat) ^ (max k m - k) * 2 ^ k = 2 ^ max k m"
    by (simp flip: power_add)
  moreover have "(2 :: nat) ^ m \<le> 2 ^ max k m" by (simp add: power_increasing)
  ultimately show "b \<le> span_pages (2 ^ k) b * 2 ^ k" "0 < span_pages (2 ^ k) b"
    using b by (simp_all only: order_trans zero_less_power zero_less_numeral)
qed

text \<open>
  Alignment: the sizes between two multiples of a power of two that is at most \<open>kMaxBytes\<close> are
  followed by one that is itself a multiple, so a request that is a multiple of the alignment gets
  a block size that is.
\<close>

fun aligned_steps :: "nat \<Rightarrow> nat \<Rightarrow> nat list \<Rightarrow> bool" where
  "aligned_steps p prev [] = True"
| "aligned_steps p prev (x # xs) = ((x mod p = 0 \<or> x div p * p \<le> prev) \<and> aligned_steps p x xs)"

lemma aligned_steps_nth:
  "aligned_steps p prev xs \<Longrightarrow> i < length xs \<Longrightarrow>
   xs ! i mod p = 0 \<or> xs ! i div p * p \<le> (prev # xs) ! i"
proof (induction xs arbitrary: prev i)
  case Nil
  then show ?case by simp
next
  case (Cons x xs)
  then show ?case by (cases i) auto
qed

lemma size_table_aligned:
  assumes "a \<le> 18"
  shows "aligned_steps (2 ^ a) 0 size_table"
proof -
  let ?ps = "[1, 2, 4, 8, 16, 32, 64, 128, 256, 512, 1024, 2048, 4096, 8192, 16384, 32768, 65536,
    131072, 262144] :: nat list"
  have "\<forall>p \<in> set ?ps. aligned_steps p 0 size_table" by (simp add: size_table_eval)
  moreover have "\<forall>a \<in> set [0..<19]. 2 ^ a \<in> set ?ps" by (simp add: upt_rec)
  moreover have "a \<in> set [0..<19]" using assms by simp
  ultimately show ?thesis by blast
qed

lemma aligned_class:
  assumes "a \<le> 18" and "0 < b" and "b \<le> max_bytes" and "2 ^ a dvd b"
  shows "2 ^ a dvd round_up b"
proof -
  let ?i = "get_index b" and ?p = "2 ^ a :: nat"
  have c: "is_class b ?i" using assms by (intro get_index_class)
  then have i: "?i < 56" "b \<le> size_table ! ?i" by (simp_all add: is_class_def)
  obtain q where q: "b = q * ?p" using assms(4) by (metis dvd_def mult.commute)
  with i(2) have "q \<le> size_table ! ?i div ?p" by (simp add: less_eq_div_iff_mult_less_eq)
  then have m: "b \<le> size_table ! ?i div ?p * ?p" using q by simp
  have "(0 # size_table) ! ?i < b"
    using c assms(2) by (cases ?i) (auto simp: is_class_def)
  with m have "\<not> size_table ! ?i div ?p * ?p \<le> (0 # size_table) ! ?i" by linarith
  moreover have "?i < length size_table" using i(1) class_count_def by simp
  ultimately have "size_table ! ?i mod ?p = 0"
    using aligned_steps_nth [OF size_table_aligned [OF assms(1)]] by blast
  then show ?thesis using assms(3) by (simp add: round_up_def get_size_def mod_eq_0_iff_dvd)
qed

section \<open>Properties\<close>

text \<open>
  C35: every request up to \<open>kMaxBytes\<close> gets the best size class: \<open>roundUp\<close> is at least the request,
  no smaller size of the table is, a request of a rounded size gets the same class, and less
  than 8 bytes or a quarter of the request are wasted.
\<close>

theorem size_class_best_fit:
  assumes "0 < b" and "b \<le> max_bytes"
  shows "get_index b < class_count \<and> b \<le> round_up b
    \<and> (\<forall>i < class_count. b \<le> get_size i \<longrightarrow> round_up b \<le> get_size i)
    \<and> get_index (round_up b) = get_index b
    \<and> (round_up b - b < 8 \<or> 4 * (round_up b - b) < b)"
proof -
  let ?i = "get_index b"
  have c: "is_class b ?i" using assms by (rule get_index_class)
  then have i: "?i < 56" and ge: "b \<le> size_table ! ?i" by (simp_all add: is_class_def)
  have r: "round_up b = size_table ! ?i" using assms(2) by (simp add: round_up_def get_size_def)
  have least: "\<forall>i < 56. b \<le> size_table ! i \<longrightarrow> size_table ! ?i \<le> size_table ! i"
    using c size_table_mono by (meson is_class_def not_le)
  have "size_table ! ?i - b < 8 \<or> 4 * (size_table ! ?i - b) < b"
  proof (cases "?i")
    case 0
    with assms(1) show ?thesis by (simp add: size_table_eval)
  next
    case (Suc j)
    with c i have "size_table ! j < b" "j < 55" by (auto simp: is_class_def)
    with size_table_step [of j] Suc ge show ?thesis by auto
  qed
  moreover have "\<forall>i < class_count. b \<le> get_size i \<longrightarrow> round_up b \<le> get_size i"
    unfolding r get_size_def class_count_eval by (rule least)
  ultimately show ?thesis
    unfolding r class_count_eval get_index_size [OF i] using i ge by blast
qed

theorem size_class_best_fit_witness: "round_up 70 = 80 \<and> get_index 80 = get_index 70"
proof -
  have "\<forall>j \<in> set [0..<8]. size_table ! j < 70" by (simp add: size_table_eval upt_rec)
  then have "is_class 70 8" by (simp add: is_class_def size_table_eval)
  then have "get_index 70 = 8" by (simp add: get_index_iff)
  then have "round_up 70 = 80" by (simp add: round_up_def get_size_def size_table_eval)
  with size_class_best_fit [of 70] show ?thesis by simp
qed

end
