(* ===== verification/Page_Cache.thy ===== *)
theory Page_Cache
  imports Size_Class Ordered_Map
begin

text \<open>
  The page cache of the allocator (vendor_memorypool/v3/src/PageCache.h, PageCache.cpp) over the
  page-level part of the operating system (Platform.h): spans of pages, the map from a page to
  its span, the free spans by size with splitting and coalescing, and the regions obtained from
  the system. Addresses are numbers, a null pointer is \<open>None\<close>, and a \<open>Span*\<close> is the key of a span in
  an explicit store, in which \<open>new\<close> takes the next key and \<open>delete\<close> removes the entry. The
  intrusive list through \<open>Span::next\<close> is the list of its spans.

  The operating system is an argument: its state \<open>'o\<close> and what \<open>mmap\<close> and \<open>munmap\<close> do to it. Each
  method holds the cache's mutex for its whole body, so a call is one step.
\<close>

section \<open>The platform\<close>

record 'o platform =
  page_size :: nat
  granularity :: nat
  os_mmap :: "nat \<Rightarrow> 'o \<Rightarrow> nat option \<times> 'o"
  os_munmap :: "nat \<Rightarrow> nat \<Rightarrow> 'o \<Rightarrow> 'o"

text \<open>
  On POSIX the page size is what \<open>sysconf\<close> reports, with a fallback, and the granularity is the
  page size; on Windows both are read from the system.
\<close>

definition system_page_size :: "int \<Rightarrow> nat" where
  "system_page_size page = (if page > 0 then nat page else 4096)"

definition posix_platform ::
  "int \<Rightarrow> (nat \<Rightarrow> 'o \<Rightarrow> nat option \<times> 'o) \<Rightarrow> (nat \<Rightarrow> nat \<Rightarrow> 'o \<Rightarrow> 'o) \<Rightarrow> 'o platform"
where
  "posix_platform page mmap munmap =
     \<lparr>page_size = system_page_size page, granularity = system_page_size page,
      os_mmap = mmap, os_munmap = munmap\<rparr>"

definition alloc_pages :: "'o platform \<Rightarrow> nat \<Rightarrow> 'o \<Rightarrow> nat option \<times> 'o" where
  "alloc_pages pl bytes w = (if bytes = 0 then (None, w) else os_mmap pl bytes w)"

definition unmap_pages :: "'o platform \<Rightarrow> nat option \<Rightarrow> nat \<Rightarrow> 'o \<Rightarrow> 'o" where
  "unmap_pages pl ptr bytes w = (case ptr of None \<Rightarrow> w | Some p \<Rightarrow> os_munmap pl p bytes w)"

section \<open>State\<close>

record span =
  page_addr :: nat
  num_pages :: nat
  origin_addr :: nat
  origin_pages :: nat
  block_size :: nat
  block_count :: nat
  free_count :: nat
  size_class :: nat
  free_list :: "nat list"
  in_free_list :: bool
  is_large :: bool

definition new_span :: span where
  "new_span =
     \<lparr>page_addr = 0, num_pages = 0, origin_addr = 0, origin_pages = 0, block_size = 0,
      block_count = 0, free_count = 0, size_class = 0, free_list = [], in_free_list = False,
      is_large = False\<rparr>"

record 'o page_cache =
  spans :: "nat \<Rightarrow> span option"
  next_span :: nat
  free_spans :: "(nat, nat list) omap"
  page_map :: "nat \<Rightarrow> nat option"
  system_allocs :: "(nat \<times> nat) list"
  cached_free_pages :: nat
  os_state :: 'o

definition page_cache_new :: "'o \<Rightarrow> 'o page_cache" where
  "page_cache_new w =
     \<lparr>spans = Map.empty, next_span = 0, free_spans = [], page_map = Map.empty,
      system_allocs = [], cached_free_pages = 0, os_state = w\<rparr>"

text \<open>Reading and writing through a \<open>Span*\<close>; only pointers to existing spans are followed.\<close>

definition span_at :: "'o page_cache \<Rightarrow> nat \<Rightarrow> span" where
  "span_at pc i = (case spans pc i of Some s \<Rightarrow> s | None \<Rightarrow> new_span)"

definition update_span :: "nat \<Rightarrow> (span \<Rightarrow> span) \<Rightarrow> 'o page_cache \<Rightarrow> 'o page_cache" where
  "update_span i f pc = pc\<lparr>spans := (spans pc)(i := map_option f (spans pc i))\<rparr>"

definition add_span :: "span \<Rightarrow> 'o page_cache \<Rightarrow> nat \<times> 'o page_cache" where
  "add_span s pc =
     (next_span pc, pc\<lparr>spans := (spans pc)(next_span pc \<mapsto> s), next_span := next_span pc + 1\<rparr>)"

definition delete_span :: "nat \<Rightarrow> 'o page_cache \<Rightarrow> 'o page_cache" where
  "delete_span i pc = pc\<lparr>spans := (spans pc)(i := None)\<rparr>"

section \<open>The page map\<close>

definition page_id :: "'o platform \<Rightarrow> nat \<Rightarrow> nat" where
  "page_id pl ptr = ptr div page_size pl"

fun set_pages :: "nat \<Rightarrow> nat \<Rightarrow> nat option \<Rightarrow> (nat \<Rightarrow> nat option) \<Rightarrow> nat \<Rightarrow> nat option" where
  "set_pages p 0 v m = m"
| "set_pages p (Suc n) v m = set_pages (Suc p) n v (m(p := v))"

definition register_pages :: "'o platform \<Rightarrow> nat \<Rightarrow> 'o page_cache \<Rightarrow> 'o page_cache" where
  "register_pages pl i pc =
     pc\<lparr>page_map := set_pages (page_addr (span_at pc i) div page_size pl) (num_pages (span_at pc i))
          (Some i) (page_map pc)\<rparr>"

definition unregister_pages :: "'o platform \<Rightarrow> nat \<Rightarrow> 'o page_cache \<Rightarrow> 'o page_cache" where
  "unregister_pages pl i pc =
     pc\<lparr>page_map := set_pages (page_addr (span_at pc i) div page_size pl) (num_pages (span_at pc i))
          None (page_map pc)\<rparr>"

definition redirect_pages :: "'o platform \<Rightarrow> nat \<Rightarrow> nat \<Rightarrow> 'o page_cache \<Rightarrow> 'o page_cache" where
  "redirect_pages pl from to pc =
     pc\<lparr>page_map := set_pages (page_addr (span_at pc from) div page_size pl)
          (num_pages (span_at pc from)) (Some to) (page_map pc)\<rparr>"

definition find_span_locked :: "'o platform \<Rightarrow> nat \<Rightarrow> 'o page_cache \<Rightarrow> nat option" where
  "find_span_locked pl ptr pc = page_map pc (page_id pl ptr)"

definition find_span :: "'o platform \<Rightarrow> nat option \<Rightarrow> 'o page_cache \<Rightarrow> nat option" where
  "find_span pl ptr pc = (case ptr of None \<Rightarrow> None | Some p \<Rightarrow> find_span_locked pl p pc)"

definition reserved_bytes :: "'o page_cache \<Rightarrow> nat" where
  "reserved_bytes pc = sum_list (map snd (system_allocs pc))"

definition cached_page_bytes :: "'o platform \<Rightarrow> 'o page_cache \<Rightarrow> nat" where
  "cached_page_bytes pl pc = cached_free_pages pc * page_size pl"

section \<open>Regions of the operating system\<close>

definition system_alloc ::
  "'o platform \<Rightarrow> nat \<Rightarrow> 'o page_cache \<Rightarrow> (nat \<times> nat) option \<times> 'o page_cache"
where
  "system_alloc pl n pc =
     (if n > size_max div page_size pl then (None, pc)
      else if n * page_size pl > size_max - (granularity pl - 1) then (None, pc)
      else
        (let bytes = and_not (n * page_size pl + granularity pl - 1) (granularity pl - 1) in
         case alloc_pages pl bytes (os_state pc) of
           (None, w) \<Rightarrow> (None, pc\<lparr>os_state := w\<rparr>)
         | (Some ptr, w) \<Rightarrow>
             (Some (ptr, bytes div page_size pl),
              pc\<lparr>os_state := w, system_allocs := system_allocs pc @ [(ptr, bytes)]\<rparr>)))"

text \<open>\<open>find_if\<close> and \<open>erase\<close>: the first region at the address goes.\<close>

fun erase_alloc :: "nat \<Rightarrow> (nat \<times> nat) list \<Rightarrow> (nat \<times> nat) list" where
  "erase_alloc a [] = []"
| "erase_alloc a (x # xs) = (if fst x = a then xs else x # erase_alloc a xs)"

definition release_origin :: "'o platform \<Rightarrow> nat \<Rightarrow> 'o page_cache \<Rightarrow> 'o page_cache" where
  "release_origin pl i pc =
     (let pc1 = unregister_pages pl i pc;
          addr = origin_addr (span_at pc1 i);
          bytes = origin_pages (span_at pc1 i) * page_size pl;
          pc2 = pc1\<lparr>system_allocs := erase_alloc addr (system_allocs pc1)\<rparr>;
          pc3 = delete_span i pc2
      in pc3\<lparr>os_state := unmap_pages pl (Some addr) bytes (os_state pc3)\<rparr>)"

section \<open>The free spans\<close>

definition free_list_at :: "'o page_cache \<Rightarrow> nat \<Rightarrow> nat list" where
  "free_list_at pc n = (case omap_get (free_spans pc) n of None \<Rightarrow> [] | Some l \<Rightarrow> l)"

text \<open>
  \<open>auto& list = freeSpans_[n]; span->next = list; list = span; cachedFreePages_ += n\<close>, with the
  flag set before.
\<close>

definition push_free :: "nat \<Rightarrow> 'o page_cache \<Rightarrow> 'o page_cache" where
  "push_free i pc =
     (let n = num_pages (span_at pc i) in
      (update_span i (\<lambda>s. s\<lparr>in_free_list := True\<rparr>) pc)
        \<lparr>free_spans := omap_put n (i # free_list_at pc n) (free_spans pc),
         cached_free_pages := cached_free_pages pc + n\<rparr>)"

definition store_list :: "nat \<Rightarrow> nat list \<Rightarrow> (nat, nat list) omap \<Rightarrow> (nat, nat list) omap" where
  "store_list n l m = (if l = [] then omap_erase n m else omap_put n l m)"

text \<open>What taking a span off a free list does: \<open>l\<close> is what remains of the list of its size.\<close>

definition unlink_free :: "nat \<Rightarrow> nat \<Rightarrow> nat list \<Rightarrow> 'o page_cache \<Rightarrow> 'o page_cache" where
  "unlink_free i n l pc =
     (update_span i (\<lambda>s. s\<lparr>in_free_list := False\<rparr>) pc)
       \<lparr>free_spans := store_list n l (free_spans pc),
        cached_free_pages := cached_free_pages pc - num_pages (span_at pc i)\<rparr>"

text \<open>
  \<open>removeFromFreeList\<close>: the span is looked for in the list of its size, as the head first and then
  behind each element; the entry of a list that becomes empty is erased.
\<close>

definition remove_from_free_list :: "nat \<Rightarrow> 'o page_cache \<Rightarrow> bool \<times> 'o page_cache" where
  "remove_from_free_list i pc =
     (let n = num_pages (span_at pc i) in
      case omap_get (free_spans pc) n of
        None \<Rightarrow> (False, pc)
      | Some l \<Rightarrow>
          if i \<in> set l then (True, unlink_free i n (remove1 i l) pc) else (False, pc))"

section \<open>Allocation\<close>

text \<open>
  Taking the head of the list found by \<open>lower_bound\<close> (an entry is never an empty list), splitting
  off what is too much, or asking the system for a new region.
\<close>

definition split_span :: "'o platform \<Rightarrow> nat \<Rightarrow> nat \<Rightarrow> 'o page_cache \<Rightarrow> 'o page_cache" where
  "split_span pl i n pc =
     (let s = span_at pc i;
          rest = new_span\<lparr>page_addr := page_addr s + n * page_size pl,
                          num_pages := num_pages s - n,
                          origin_addr := origin_addr s, origin_pages := origin_pages s\<rparr>;
          (j, pc1) = add_span rest pc;
          pc2 = push_free j pc1;
          pc3 = register_pages pl j pc2;
          pc4 = update_span i (\<lambda>s. s\<lparr>num_pages := n\<rparr>) pc3
      in register_pages pl i pc4)"

definition fresh_span :: "'o platform \<Rightarrow> nat \<Rightarrow> 'o page_cache \<Rightarrow> nat option \<times> 'o page_cache" where
  "fresh_span pl n pc =
     (case system_alloc pl n pc of
        (None, pc1) \<Rightarrow> (None, pc1)
      | (Some (memory, pages), pc1) \<Rightarrow>
          (let (i, pc2) = add_span (new_span\<lparr>page_addr := memory, num_pages := pages,
                                              origin_addr := memory, origin_pages := pages\<rparr>) pc1
           in (Some i, register_pages pl i pc2)))"

definition allocate_span :: "'o platform \<Rightarrow> nat \<Rightarrow> 'o page_cache \<Rightarrow> nat option \<times> 'o page_cache" where
  "allocate_span pl pages pc =
     (let n = (if pages = 0 then 1 else pages) in
      case omap_lower_bound n (free_spans pc) of
        Some (m, l) \<Rightarrow>
          (let i = hd l; pc1 = unlink_free i m (tl l) pc in
           (Some i, if num_pages (span_at pc1 i) > n then split_span pl i n pc1 else pc1))
      | None \<Rightarrow> fresh_span pl n pc)"

section \<open>Deallocation\<close>

definition reset_span :: "span \<Rightarrow> span" where
  "reset_span s =
     s\<lparr>free_list := [], block_size := 0, block_count := 0, free_count := 0, size_class := 0,
       is_large := False\<rparr>"

definition merge_next :: "'o platform \<Rightarrow> nat \<Rightarrow> 'o page_cache \<Rightarrow> 'o page_cache" where
  "merge_next pl i pc =
     (let s = span_at pc i; next_addr = page_addr s + num_pages s * page_size pl in
      case find_span_locked pl next_addr pc of
        None \<Rightarrow> pc
      | Some j \<Rightarrow>
          (let t = span_at pc j in
           if j \<noteq> i \<and> in_free_list t \<and> page_addr t = next_addr \<and> origin_addr t = origin_addr s then
             (case remove_from_free_list j pc of
                (True, pc1) \<Rightarrow>
                  delete_span j (redirect_pages pl j i
                    (update_span i (\<lambda>s. s\<lparr>num_pages := num_pages s + num_pages t\<rparr>) pc1))
              | (False, pc1) \<Rightarrow> pc1)
           else pc))"

definition merge_prev :: "'o platform \<Rightarrow> nat \<Rightarrow> 'o page_cache \<Rightarrow> nat \<times> 'o page_cache" where
  "merge_prev pl i pc =
     (let s = span_at pc i in
      case (if page_addr s \<noteq> origin_addr s then find_span_locked pl (page_addr s - 1) pc else None) of
        None \<Rightarrow> (i, pc)
      | Some j \<Rightarrow>
          (let t = span_at pc j in
           if j \<noteq> i \<and> in_free_list t \<and> origin_addr t = origin_addr s
              \<and> page_addr t + num_pages t * page_size pl = page_addr s then
             (case remove_from_free_list j pc of
                (True, pc1) \<Rightarrow>
                  (j, delete_span i
                        (update_span j (\<lambda>t. t\<lparr>num_pages := num_pages t + num_pages s\<rparr>)
                          (redirect_pages pl i j pc1)))
              | (False, pc1) \<Rightarrow> (i, pc1))
           else (i, pc)))"

definition max_cached_bytes :: nat where
  "max_cached_bytes = 64 * 1024 * 1024"

definition keep_span :: "'o platform \<Rightarrow> nat \<Rightarrow> 'o page_cache \<Rightarrow> 'o page_cache" where
  "keep_span pl i pc =
     (let s = span_at pc i in
      if origin_addr s = page_addr s \<and> num_pages s = origin_pages s
         \<and> cached_free_pages pc + num_pages s > max_cached_bytes div page_size pl
      then release_origin pl i pc
      else push_free i pc)"

definition deallocate_span :: "'o platform \<Rightarrow> nat option \<Rightarrow> 'o page_cache \<Rightarrow> 'o page_cache" where
  "deallocate_span pl ptr pc =
     (case ptr of
        None \<Rightarrow> pc
      | Some i \<Rightarrow>
          (let s = span_at pc i;
               return_direct = is_large s \<and> page_addr s = origin_addr s \<and> num_pages s = origin_pages s;
               pc1 = update_span i reset_span pc
           in if return_direct then release_origin pl i pc1
              else (case merge_prev pl i (merge_next pl i pc1) of (k, pc2) \<Rightarrow> keep_span pl k pc2)))"

section \<open>Destruction\<close>

text \<open>
  The destructor: every span that a page maps to is deleted, the tables are cleared, and every
  region goes back to the system.
\<close>

fun free_regions :: "'o platform \<Rightarrow> (nat \<times> nat) list \<Rightarrow> 'o \<Rightarrow> 'o" where
  "free_regions pl [] w = w"
| "free_regions pl ((a, n) # xs) w = free_regions pl xs (unmap_pages pl (Some a) n w)"

definition page_cache_destroy :: "'o platform \<Rightarrow> 'o page_cache \<Rightarrow> 'o page_cache" where
  "page_cache_destroy pl pc =
     pc\<lparr>spans := (\<lambda>i. if i \<in> ran (page_map pc) then None else spans pc i),
        page_map := Map.empty, free_spans := [], system_allocs := [],
        os_state := free_regions pl (system_allocs pc) (os_state pc)\<rparr>"

end
