(* ===== verification/Page_Cache_Safety.thy ===== *)
theory Page_Cache_Safety
  imports Page_Cache
begin

text \<open>
  The invariant of the page cache and the contract of its two operations: spans never share a
  page, the page map knows exactly the pages of the spans, the free spans are in the list of
  their size and counted, every page obtained from the system belongs to a span. Each primitive
  change of the state (unlinking, carving, merging, adding and releasing a region) has one lemma.
\<close>

section \<open>What is asked of the platform\<close>

definition region :: "'o platform \<Rightarrow> nat \<Rightarrow> nat \<Rightarrow> nat set" where
  "region pl a n = {a div page_size pl ..< (a + n) div page_size pl}"

text \<open>
  \<open>mapped\<close> is the set of pages the process has mapped: \<open>mmap\<close> of whole pages returns pages that were
  not, at a page boundary and not at the null address, \<open>munmap\<close> of whole pages gives them back.
\<close>

definition platform_ok :: "'o platform \<Rightarrow> ('o \<Rightarrow> nat set) \<Rightarrow> bool" where
  "platform_ok pl mapped \<longleftrightarrow>
     (\<exists>k g. page_size pl = 2 ^ k \<and> granularity pl = 2 ^ g \<and> k \<le> g \<and> g \<le> 32)
     \<and> (\<forall>n w a w'. page_size pl dvd n \<longrightarrow> 0 < n \<longrightarrow> os_mmap pl n w = (Some a, w') \<longrightarrow>
          page_size pl dvd a \<and> 0 < a \<and> a + n \<le> 2 ^ 64
          \<and> region pl a n \<inter> mapped w = {} \<and> mapped w' = mapped w \<union> region pl a n)
     \<and> (\<forall>n w w'. os_mmap pl n w = (None, w') \<longrightarrow> mapped w' = mapped w)
     \<and> (\<forall>a n w. page_size pl dvd a \<longrightarrow> page_size pl dvd n
          \<longrightarrow> mapped (os_munmap pl a n w) = mapped w - region pl a n)"

lemma platform_ok_dest:
  assumes "platform_ok pl mapped"
  shows "\<exists>k g. page_size pl = 2 ^ k \<and> granularity pl = 2 ^ g \<and> k \<le> g \<and> g \<le> 32"
    and "page_size pl dvd n \<Longrightarrow> 0 < n \<Longrightarrow> os_mmap pl n w = (Some a, w') \<Longrightarrow>
      page_size pl dvd a \<and> 0 < a \<and> a + n \<le> 2 ^ 64
      \<and> region pl a n \<inter> mapped w = {} \<and> mapped w' = mapped w \<union> region pl a n"
    and "os_mmap pl n w = (None, w') \<Longrightarrow> mapped w' = mapped w"
    and "page_size pl dvd a \<Longrightarrow> page_size pl dvd n \<Longrightarrow> mapped (os_munmap pl a n w) = mapped w - region pl a n"
proof -
  note p = assms [unfolded platform_ok_def]
  show "\<exists>k g. page_size pl = 2 ^ k \<and> granularity pl = 2 ^ g \<and> k \<le> g \<and> g \<le> 32" by (rule conjunct1 [OF p])
  note p = conjunct2 [OF p]
  show "page_size pl dvd n \<Longrightarrow> 0 < n \<Longrightarrow> os_mmap pl n w = (Some a, w') \<Longrightarrow>
      page_size pl dvd a \<and> 0 < a \<and> a + n \<le> 2 ^ 64
      \<and> region pl a n \<inter> mapped w = {} \<and> mapped w' = mapped w \<union> region pl a n"
    using conjunct1 [OF p] by blast
  note p = conjunct2 [OF p]
  show "os_mmap pl n w = (None, w') \<Longrightarrow> mapped w' = mapped w" using conjunct1 [OF p] by blast
  show "page_size pl dvd a \<Longrightarrow> page_size pl dvd n \<Longrightarrow> mapped (os_munmap pl a n w) = mapped w - region pl a n"
    using conjunct2 [OF p] by blast
qed

section \<open>The invariant\<close>

definition pages_of :: "'o platform \<Rightarrow> span \<Rightarrow> nat set" where
  "pages_of pl s = {page_addr s div page_size pl ..< page_addr s div page_size pl + num_pages s}"

definition ids_ok :: "'o page_cache \<Rightarrow> bool" where
  "ids_ok pc \<longleftrightarrow> (\<forall>i. spans pc i \<noteq> None \<longrightarrow> i < next_span pc)"

definition shape_ok :: "'o platform \<Rightarrow> (nat \<times> nat) set \<Rightarrow> span \<Rightarrow> bool" where
  "shape_ok pl A s \<longleftrightarrow>
     page_size pl dvd page_addr s \<and> page_size pl dvd origin_addr s \<and> 0 < num_pages s
     \<and> origin_addr s \<le> page_addr s
     \<and> page_addr s + num_pages s * page_size pl \<le> origin_addr s + origin_pages s * page_size pl
     \<and> (origin_addr s, origin_pages s * page_size pl) \<in> A"

definition shapes_ok :: "'o platform \<Rightarrow> 'o page_cache \<Rightarrow> bool" where
  "shapes_ok pl pc \<longleftrightarrow> (\<forall>i s. spans pc i = Some s \<longrightarrow> shape_ok pl (set (system_allocs pc)) s)"

definition map_ok :: "'o platform \<Rightarrow> 'o page_cache \<Rightarrow> bool" where
  "map_ok pl pc \<longleftrightarrow>
     (\<forall>p i. page_map pc p = Some i \<longleftrightarrow> (\<exists>s. spans pc i = Some s \<and> p \<in> pages_of pl s))"

definition free_ids :: "'o page_cache \<Rightarrow> nat set" where
  "free_ids pc = {i. \<exists>s. spans pc i = Some s \<and> in_free_list s}"

definition free_ok :: "'o page_cache \<Rightarrow> bool" where
  "free_ok pc \<longleftrightarrow>
     omap_ok (free_spans pc)
     \<and> (\<forall>n. distinct (free_list_at pc n) \<and> omap_get (free_spans pc) n \<noteq> Some [])
     \<and> (\<forall>n i. i \<in> set (free_list_at pc n)
          \<longleftrightarrow> (\<exists>s. spans pc i = Some s \<and> in_free_list s \<and> num_pages s = n))
     \<and> cached_free_pages pc = (\<Sum>i \<in> free_ids pc. num_pages (span_at pc i))"

definition allocs_ok :: "'o platform \<Rightarrow> ('o \<Rightarrow> nat set) \<Rightarrow> 'o page_cache \<Rightarrow> bool" where
  "allocs_ok pl mapped pc \<longleftrightarrow>
     distinct (map fst (system_allocs pc))
     \<and> (\<forall>(a, n) \<in> set (system_allocs pc). page_size pl dvd a \<and> page_size pl dvd n \<and> 0 < a \<and> 0 < n
          \<and> a + n \<le> 2 ^ 64 \<and> region pl a n \<subseteq> mapped (os_state pc))
     \<and> (\<forall>(a, n) \<in> set (system_allocs pc). \<forall>(b, m) \<in> set (system_allocs pc).
          a \<noteq> b \<longrightarrow> region pl a n \<inter> region pl b m = {})
     \<and> (\<forall>p. page_map pc p \<noteq> None \<longleftrightarrow> (\<exists>(a, n) \<in> set (system_allocs pc). p \<in> region pl a n))"

definition pc_ok :: "'o platform \<Rightarrow> ('o \<Rightarrow> nat set) \<Rightarrow> 'o page_cache \<Rightarrow> bool" where
  "pc_ok pl mapped pc \<longleftrightarrow>
     ids_ok pc \<and> shapes_ok pl pc \<and> map_ok pl pc \<and> free_ok pc \<and> allocs_ok pl mapped pc"

lemmas pc_ok_defs = pc_ok_def ids_ok_def shapes_ok_def map_ok_def free_ok_def allocs_ok_def

text \<open>The spans in use: what the caches above see.\<close>

definition used :: "'o page_cache \<Rightarrow> nat \<Rightarrow> span option" where
  "used pc i = (case spans pc i of None \<Rightarrow> None | Some s \<Rightarrow> if in_free_list s then None else Some s)"

section \<open>Reading\<close>

lemma span_at_Some [simp]: "spans pc i = Some s \<Longrightarrow> span_at pc i = s"
  by (simp add: span_at_def)

lemma used_Some: "used pc i = Some s \<longleftrightarrow> spans pc i = Some s \<and> \<not> in_free_list s"
  by (auto simp: used_def split: option.splits)

lemma set_pages_apply: "set_pages p n v m q = (if p \<le> q \<and> q < p + n then v else m q)"
  by (induction n arbitrary: p m) auto

lemma set_pages_range:
  "set_pages (page_addr s div page_size pl) (num_pages s) v m =
     (\<lambda>q. if q \<in> pages_of pl s then v else m q)"
  by (simp add: set_pages_apply pages_of_def fun_eq_iff)

lemma pc_ok_disjoint:
  assumes "pc_ok pl mapped pc" "spans pc i = Some s" "spans pc j = Some t" "i \<noteq> j"
  shows "pages_of pl s \<inter> pages_of pl t = {}"
proof -
  have "page_map pc p = Some i" "page_map pc p = Some j"
    if "p \<in> pages_of pl s" "p \<in> pages_of pl t" for p
    using assms that by (auto simp: pc_ok_def map_ok_def)
  with assms(4) show ?thesis by fastforce
qed

lemma pc_ok_finite: "pc_ok pl mapped pc \<Longrightarrow> finite (free_ids pc)"
  by (rule finite_subset [of _ "{..<next_span pc}"]) (auto simp: pc_ok_defs free_ids_def)

lemma free_list_at_iff:
  "pc_ok pl mapped pc \<Longrightarrow>
   i \<in> set (free_list_at pc n) \<longleftrightarrow> (\<exists>s. spans pc i = Some s \<and> in_free_list s \<and> num_pages s = n)"
  by (simp add: pc_ok_defs)

lemma shape_page_div:
  assumes "shape_ok pl A s" and "0 < page_size pl"
  shows "page_addr s = page_addr s div page_size pl * page_size pl"
    and "(page_addr s + num_pages s * page_size pl) div page_size pl
      = page_addr s div page_size pl + num_pages s"
  using assms by (auto simp: shape_ok_def)

section \<open>Taking a span off its list and putting it on one\<close>

lemma free_list_at_store:
  "omap_ok (free_spans pc) \<Longrightarrow> free_spans pc' = store_list n l (free_spans pc) \<Longrightarrow>
   free_list_at pc' m = (if m = n then l else free_list_at pc m)"
  by (auto simp: free_list_at_def store_list_def omap_get_put omap_get_erase)

lemma store_list_ok:
  assumes "omap_ok m" and "\<forall>k. omap_get m k \<noteq> Some []"
  shows "omap_ok (store_list n l m) \<and> (\<forall>k. omap_get (store_list n l m) k \<noteq> Some [])"
  using assms by (auto simp: store_list_def omap_put_ok omap_erase_ok omap_get_put omap_get_erase)

lemma unlink_fields:
  assumes "spans pc i = Some s"
  shows "spans (unlink_free i n l pc) = (spans pc)(i \<mapsto> s\<lparr>in_free_list := False\<rparr>)"
    and "next_span (unlink_free i n l pc) = next_span pc"
    and "free_spans (unlink_free i n l pc) = store_list n l (free_spans pc)"
    and "page_map (unlink_free i n l pc) = page_map pc"
    and "system_allocs (unlink_free i n l pc) = system_allocs pc"
    and "cached_free_pages (unlink_free i n l pc) = cached_free_pages pc - num_pages s"
    and "os_state (unlink_free i n l pc) = os_state pc"
  using assms by (simp_all add: unlink_free_def update_span_def)

lemma pages_of_flag [simp]:
  "pages_of pl (s\<lparr>in_free_list := b\<rparr>) = pages_of pl s"
  "shape_ok pl A (s\<lparr>in_free_list := b\<rparr>) = shape_ok pl A s"
  by (simp_all add: pages_of_def shape_ok_def)

text \<open>What the flag of one span does to the map of pages.\<close>

lemma flag_update_ok:
  assumes ok: "pc_ok pl mapped pc" and i: "spans pc i = Some s"
    and f: "\<And>s. pages_of pl (f s) = pages_of pl s" "\<And>s A. shape_ok pl A (f s) = shape_ok pl A s"
    and eq: "spans pc' = (spans pc)(i \<mapsto> f s)" "next_span pc' = next_span pc"
      "page_map pc' = page_map pc" "system_allocs pc' = system_allocs pc" "os_state pc' = os_state pc"
    and free: "free_ok pc'"
  shows "pc_ok pl mapped pc'"
proof -
  from ok have parts: "ids_ok pc" "shapes_ok pl pc" "map_ok pl pc" "allocs_ok pl mapped pc"
    by (simp_all add: pc_ok_def)
  have "ids_ok pc'" using parts(1) i by (auto simp: ids_ok_def eq)
  moreover have "shapes_ok pl pc'" using parts(2) i by (simp add: shapes_ok_def eq f)
  moreover have "map_ok pl pc'"
    unfolding map_ok_def
  proof (intro allI)
    fix p j
    have "page_map pc p = Some j \<longleftrightarrow> (\<exists>s. spans pc j = Some s \<and> p \<in> pages_of pl s)"
      using parts(3) by (simp add: map_ok_def)
    then show "page_map pc' p = Some j \<longleftrightarrow> (\<exists>s. spans pc' j = Some s \<and> p \<in> pages_of pl s)"
      using i by (cases "j = i") (simp_all add: eq f)
  qed
  moreover have "allocs_ok pl mapped pc'" using parts(4) unfolding allocs_ok_def eq .
  ultimately show ?thesis using free by (simp add: pc_ok_def)
qed

lemma unlink_ok:
  assumes ok: "pc_ok pl mapped pc" and i: "spans pc i = Some s" "in_free_list s" "num_pages s = n"
    and l: "distinct l" "set l = set (free_list_at pc n) - {i}"
  shows "pc_ok pl mapped (unlink_free i n l pc)"
    and "used (unlink_free i n l pc) = (used pc)(i \<mapsto> s\<lparr>in_free_list := False\<rparr>)"
proof -
  let ?pc = "unlink_free i n l pc"
  note u = unlink_fields [OF i(1), of n l]
  have fr: "free_ok pc" using ok by (simp add: pc_ok_def)
  have at: "free_list_at ?pc m = (if m = n then l else free_list_at pc m)" for m
    using fr by (intro free_list_at_store) (simp_all add: free_ok_def u)
  have ids: "free_ids ?pc = free_ids pc - {i}" by (auto simp: free_ids_def u)
  have mem: "i \<in> free_ids pc" using i by (simp add: free_ids_def)
  have "free_ok ?pc"
    unfolding free_ok_def
  proof (intro conjI allI)
    show "omap_ok (free_spans ?pc)" "omap_get (free_spans ?pc) m \<noteq> Some []" for m
      using store_list_ok fr by (auto simp: u free_ok_def)
    show "distinct (free_list_at ?pc m)" for m using fr l(1) by (simp add: at free_ok_def)
    show "j \<in> set (free_list_at ?pc m)
        \<longleftrightarrow> (\<exists>s. spans ?pc j = Some s \<and> in_free_list s \<and> num_pages s = m)" for m j
      using i l(2) free_list_at_iff [OF ok, of j m] by (auto simp: at u)
    have "(\<Sum>j \<in> free_ids ?pc. num_pages (span_at ?pc j))
        = (\<Sum>j \<in> free_ids pc - {i}. num_pages (span_at pc j))"
      unfolding ids by (rule sum.cong) (simp_all add: span_at_def u)
    also have "\<dots> = cached_free_pages pc - num_pages s"
      using fr mem i(1) pc_ok_finite [OF ok] by (simp add: sum_diff1_nat free_ok_def)
    finally show "cached_free_pages ?pc = (\<Sum>j \<in> free_ids ?pc. num_pages (span_at ?pc j))"
      by (simp add: u)
  qed
  then show "pc_ok pl mapped ?pc"
    by (rule flag_update_ok [OF ok i(1), of "\<lambda>s. s\<lparr>in_free_list := False\<rparr>", rotated -1]) (simp_all add: u)
  show "used ?pc = (used pc)(i \<mapsto> s\<lparr>in_free_list := False\<rparr>)"
    by (rule ext) (simp add: used_def u)
qed

lemma push_fields:
  assumes "spans pc i = Some s"
  shows "spans (push_free i pc) = (spans pc)(i \<mapsto> s\<lparr>in_free_list := True\<rparr>)"
    and "next_span (push_free i pc) = next_span pc"
    and "free_spans (push_free i pc)
      = omap_put (num_pages s) (i # free_list_at pc (num_pages s)) (free_spans pc)"
    and "page_map (push_free i pc) = page_map pc"
    and "system_allocs (push_free i pc) = system_allocs pc"
    and "cached_free_pages (push_free i pc) = cached_free_pages pc + num_pages s"
    and "os_state (push_free i pc) = os_state pc"
  using assms by (simp_all add: push_free_def update_span_def Let_def)

lemma push_ok:
  assumes ok: "pc_ok pl mapped pc" and i: "used pc i = Some s"
  shows "pc_ok pl mapped (push_free i pc)"
    and "used (push_free i pc) = (used pc)(i := None)"
proof -
  let ?pc = "push_free i pc"
  have s: "spans pc i = Some s" "\<not> in_free_list s" using i by (simp_all add: used_Some)
  note u = push_fields [OF s(1)]
  have fr: "free_ok pc" using ok by (simp add: pc_ok_def)
  have at: "free_list_at ?pc m = (if m = num_pages s then i # free_list_at pc m else free_list_at pc m)" for m
    by (simp add: free_list_at_def u omap_get_put)
  have ids: "free_ids ?pc = insert i (free_ids pc)" by (auto simp: free_ids_def u)
  have mem: "i \<notin> free_ids pc" using s by (simp add: free_ids_def)
  have "free_ok ?pc"
    unfolding free_ok_def
  proof (intro conjI allI)
    show "omap_ok (free_spans ?pc)" "omap_get (free_spans ?pc) m \<noteq> Some []" for m
      using fr by (auto simp: u free_ok_def omap_put_ok omap_get_put)
    show "distinct (free_list_at ?pc m)" for m
      using fr s free_list_at_iff [OF ok, of i m] by (auto simp: at free_ok_def)
    show "j \<in> set (free_list_at ?pc m)
        \<longleftrightarrow> (\<exists>s. spans ?pc j = Some s \<and> in_free_list s \<and> num_pages s = m)" for m j
      using s free_list_at_iff [OF ok, of j m] by (auto simp: at u)
    have "(\<Sum>j \<in> free_ids ?pc. num_pages (span_at ?pc j))
        = num_pages s + (\<Sum>j \<in> free_ids pc. num_pages (span_at ?pc j))"
      using mem pc_ok_finite [OF ok] by (simp add: ids u)
    also have "(\<Sum>j \<in> free_ids pc. num_pages (span_at ?pc j))
        = (\<Sum>j \<in> free_ids pc. num_pages (span_at pc j))"
      using mem by (intro sum.cong) (auto simp: span_at_def u)
    finally show "cached_free_pages ?pc = (\<Sum>j \<in> free_ids ?pc. num_pages (span_at ?pc j))"
      using fr by (simp add: u free_ok_def)
  qed
  then show "pc_ok pl mapped ?pc"
    by (rule flag_update_ok [OF ok s(1), of "\<lambda>s. s\<lparr>in_free_list := True\<rparr>", rotated -1]) (simp_all add: u)
  show "used ?pc = (used pc)(i := None)"
    by (rule ext) (simp add: used_def u)
qed

section \<open>Carving, merging, adding and releasing\<close>

text \<open>The free spans as a map: what \<open>free_ok\<close> depends on besides the lists and the counter.\<close>

definition free_part :: "'o page_cache \<Rightarrow> nat \<Rightarrow> span option" where
  "free_part pc i = (case spans pc i of None \<Rightarrow> None | Some s \<Rightarrow> if in_free_list s then Some s else None)"

lemma free_part_Some: "free_part pc i = Some s \<longleftrightarrow> spans pc i = Some s \<and> in_free_list s"
  by (auto simp: free_part_def split: option.splits)

lemma free_ok_cong:
  assumes "free_part pc' = free_part pc" "free_spans pc' = free_spans pc"
    "cached_free_pages pc' = cached_free_pages pc"
  shows "free_ok pc' = free_ok pc"
proof -
  have iff: "(spans pc' i = Some s \<and> in_free_list s) \<longleftrightarrow> (spans pc i = Some s \<and> in_free_list s)" for i s
    using assms(1) free_part_Some by metis
  have "free_ids pc' = free_ids pc" by (simp add: free_ids_def iff)
  moreover have "span_at pc' i = span_at pc i" if "i \<in> free_ids pc" for i
  proof -
    from that obtain s where "spans pc i = Some s \<and> in_free_list s" by (auto simp: free_ids_def)
    moreover from this iff have "spans pc' i = Some s" by blast
    ultimately show ?thesis by simp
  qed
  ultimately have sums: "(\<Sum>i \<in> free_ids pc'. num_pages (span_at pc' i))
      = (\<Sum>i \<in> free_ids pc. num_pages (span_at pc i))" by simp
  have lists: "free_list_at pc' n = free_list_at pc n" for n by (simp add: free_list_at_def assms)
  have ex: "(\<exists>s. spans pc' i = Some s \<and> in_free_list s \<and> num_pages s = n)
      \<longleftrightarrow> (\<exists>s. spans pc i = Some s \<and> in_free_list s \<and> num_pages s = n)" for i n
    using iff by blast
  show ?thesis by (simp add: free_ok_def assms lists sums ex)
qed

lemma carve_ok:
  assumes ok: "pc_ok pl mapped pc" and i: "used pc i = Some s" and n: "0 < n" "n < num_pages s"
    and ps: "0 < page_size pl"
    and rest: "rest = new_span\<lparr>page_addr := page_addr s + n * page_size pl,
      num_pages := num_pages s - n, origin_addr := origin_addr s, origin_pages := origin_pages s\<rparr>"
    and eq: "spans pc' = (spans pc)(next_span pc \<mapsto> rest, i \<mapsto> s\<lparr>num_pages := n\<rparr>)"
      "next_span pc' = next_span pc + 1" "free_spans pc' = free_spans pc"
      "page_map pc' = (\<lambda>p. if p \<in> pages_of pl rest then Some (next_span pc) else page_map pc p)"
      "system_allocs pc' = system_allocs pc" "cached_free_pages pc' = cached_free_pages pc"
      "os_state pc' = os_state pc"
  shows "pc_ok pl mapped pc'"
    and "used pc' = (used pc)(i \<mapsto> s\<lparr>num_pages := n\<rparr>, next_span pc \<mapsto> rest)"
proof -
  let ?j = "next_span pc" and ?s = "s\<lparr>num_pages := n\<rparr>"
  have s: "spans pc i = Some s" "\<not> in_free_list s" using i by (simp_all add: used_Some)
  from ok have parts: "ids_ok pc" "shapes_ok pl pc" "map_ok pl pc" "free_ok pc" "allocs_ok pl mapped pc"
    by (simp_all add: pc_ok_def)
  have new: "spans pc ?j = None" using parts(1) unfolding ids_ok_def by (meson less_irrefl not_None_eq)
  with s have ij: "i \<noteq> ?j" by auto
  have sh: "shape_ok pl (set (system_allocs pc)) s" using parts(2) s by (simp add: shapes_ok_def)
  note d = shape_page_div [OF sh ps]
  have len: "n * page_size pl + (num_pages s - n) * page_size pl = num_pages s * page_size pl"
    using n by (simp flip: distrib_right)
  have rest_pages: "pages_of pl rest
      = {page_addr s div page_size pl + n ..< page_addr s div page_size pl + num_pages s}"
    using n ps d(1) by (simp add: pages_of_def rest) (simp add: add.commute div_mult_self1)
  have s_pages: "pages_of pl ?s = {page_addr s div page_size pl ..< page_addr s div page_size pl + n}"
    by (simp add: pages_of_def)
  have part: "pages_of pl s = pages_of pl ?s \<union> pages_of pl rest" "pages_of pl ?s \<inter> pages_of pl rest = {}"
    unfolding rest_pages s_pages unfolding pages_of_def using n by auto
  have "ids_ok pc'" using parts(1) s(1) by (auto simp: ids_ok_def eq less_Suc_eq)
  moreover have "shapes_ok pl pc'"
  proof -
    have "n * page_size pl \<le> num_pages s * page_size pl" using n by (intro mult_le_mono1) simp
    then have "page_addr s + n * page_size pl \<le> origin_addr s + origin_pages s * page_size pl"
      using sh unfolding shape_ok_def by linarith
    then have "shape_ok pl (set (system_allocs pc)) ?s"
      using sh n(1) by (simp add: shape_ok_def)
    moreover have "shape_ok pl (set (system_allocs pc)) rest"
      using sh n len by (simp add: shape_ok_def rest)
    ultimately show ?thesis using parts(2) by (simp add: shapes_ok_def eq)
  qed
  moreover have "map_ok pl pc'"
    unfolding map_ok_def
  proof (intro allI)
    fix p k
    have old: "page_map pc p = Some k \<longleftrightarrow> (\<exists>s. spans pc k = Some s \<and> p \<in> pages_of pl s)"
      using parts(3) by (simp add: map_ok_def)
    have dis: "p \<notin> pages_of pl t" if "spans pc k = Some t" "k \<noteq> i" "p \<in> pages_of pl s" for t
      using pc_ok_disjoint [OF ok that(1) s(1) that(2)] that(3) by blast
    consider "k = ?j" | "k = i" | "k \<noteq> ?j" "k \<noteq> i" by blast
    then show "page_map pc' p = Some k \<longleftrightarrow> (\<exists>s. spans pc' k = Some s \<and> p \<in> pages_of pl s)"
    proof cases
      case 1
      with ij new old show ?thesis by (auto simp: eq)
    next
      case 2
      with ij s(1) old part show ?thesis by (auto simp: eq)
    next
      case 3
      with old dis part(1) show ?thesis by (auto simp: eq)
    qed
  qed
  moreover have "free_part pc' = free_part pc"
    using new s by (auto simp: free_part_def eq rest new_span_def fun_eq_iff)
  then have "free_ok pc'" using parts(4) free_ok_cong eq by metis
  moreover have "allocs_ok pl mapped pc'"
  proof -
    have "page_map pc p \<noteq> None" if "p \<in> pages_of pl rest" for p
      using that part(1) s(1) parts(3) by (auto simp: map_ok_def)
    then have "(page_map pc' p \<noteq> None) = (page_map pc p \<noteq> None)" for p by (auto simp: eq)
    then show ?thesis using parts(5) unfolding allocs_ok_def eq(5,7) by presburger
  qed
  ultimately show "pc_ok pl mapped pc'" by (simp add: pc_ok_def)
  show "used pc' = (used pc)(i \<mapsto> ?s, ?j \<mapsto> rest)"
    using s new ij by (auto simp: used_def eq rest new_span_def fun_eq_iff)
qed

lemma merge_ok:
  assumes ok: "pc_ok pl mapped pc" and i: "used pc i = Some s" and j: "used pc j = Some t"
    and ij: "i \<noteq> j" and ps: "0 < page_size pl"
    and adj: "page_addr t = page_addr s + num_pages s * page_size pl" "origin_addr t = origin_addr s"
    and eq: "spans pc' = (spans pc)(i \<mapsto> s\<lparr>num_pages := num_pages s + num_pages t\<rparr>, j := None)"
      "next_span pc' = next_span pc" "free_spans pc' = free_spans pc"
      "page_map pc' = (\<lambda>p. if p \<in> pages_of pl t then Some i else page_map pc p)"
      "system_allocs pc' = system_allocs pc" "cached_free_pages pc' = cached_free_pages pc"
      "os_state pc' = os_state pc"
  shows "pc_ok pl mapped pc'"
    and "used pc' = (used pc)(i \<mapsto> s\<lparr>num_pages := num_pages s + num_pages t\<rparr>, j := None)"
proof -
  let ?s = "s\<lparr>num_pages := num_pages s + num_pages t\<rparr>"
  have s: "spans pc i = Some s" "\<not> in_free_list s" and t: "spans pc j = Some t" "\<not> in_free_list t"
    using i j by (simp_all add: used_Some)
  from ok have parts: "ids_ok pc" "shapes_ok pl pc" "map_ok pl pc" "free_ok pc" "allocs_ok pl mapped pc"
    by (simp_all add: pc_ok_def)
  have sh: "shape_ok pl (set (system_allocs pc)) s" "shape_ok pl (set (system_allocs pc)) t"
    using parts(2) s t by (simp_all add: shapes_ok_def)
  have fst: "distinct (map fst (system_allocs pc))" using parts(5) by (simp add: allocs_ok_def)
  have same: "origin_pages t * page_size pl = origin_pages s * page_size pl"
    using sh fst adj(2) by (auto simp: shape_ok_def dest: eq_key_imp_eq_value)
  have t_div: "page_addr t div page_size pl = page_addr s div page_size pl + num_pages s"
    using shape_page_div(2) [OF sh(1) ps] adj(1) by simp
  have part: "pages_of pl ?s = pages_of pl s \<union> pages_of pl t" "pages_of pl s \<inter> pages_of pl t = {}"
    by (auto simp: pages_of_def t_div)
  have "ids_ok pc'" using parts(1) s(1) by (auto simp: ids_ok_def eq)
  moreover have "shape_ok pl (set (system_allocs pc)) ?s"
    using sh adj same by (simp add: shape_ok_def distrib_right)
  then have "shapes_ok pl pc'" using parts(2) by (simp add: shapes_ok_def eq)
  moreover have "map_ok pl pc'"
    unfolding map_ok_def
  proof (intro allI)
    fix p k
    have old: "page_map pc p = Some k \<longleftrightarrow> (\<exists>s. spans pc k = Some s \<and> p \<in> pages_of pl s)"
      using parts(3) by (simp add: map_ok_def)
    have dis: "p \<notin> pages_of pl r" if "spans pc k = Some r" "k \<noteq> j" "p \<in> pages_of pl t" for r
      using pc_ok_disjoint [OF ok that(1) t(1) that(2)] that(3) by blast
    consider "k = j" | "k = i" | "k \<noteq> j" "k \<noteq> i" by blast
    then show "page_map pc' p = Some k \<longleftrightarrow> (\<exists>s. spans pc' k = Some s \<and> p \<in> pages_of pl s)"
    proof cases
      case 1
      with ij t(1) old show ?thesis by (auto simp: eq)
    next
      case 2
      with ij s(1) old part show ?thesis by (auto simp: eq)
    next
      case 3
      with old dis show ?thesis by (auto simp: eq)
    qed
  qed
  moreover have "free_part pc' = free_part pc"
    using s t by (auto simp: free_part_def eq fun_eq_iff)
  then have "free_ok pc'" using parts(4) free_ok_cong eq by metis
  moreover have "allocs_ok pl mapped pc'"
  proof -
    have "page_map pc p \<noteq> None" if "p \<in> pages_of pl t" for p
      using that t(1) parts(3) by (auto simp: map_ok_def)
    then have "(page_map pc' p \<noteq> None) = (page_map pc p \<noteq> None)" for p by (auto simp: eq)
    then show ?thesis using parts(5) unfolding allocs_ok_def eq(5,7) by presburger
  qed
  ultimately show "pc_ok pl mapped pc'" by (simp add: pc_ok_def)
  show "used pc' = (used pc)(i \<mapsto> ?s, j := None)"
    using s ij by (auto simp: used_def eq fun_eq_iff)
qed

lemma region_mult:
  assumes "page_size pl dvd a" "0 < page_size pl"
  shows "region pl a (n * page_size pl) = {a div page_size pl ..< a div page_size pl + n}"
  using assms by (auto simp: region_def)

lemma region_nonempty:
  assumes "page_size pl dvd a" "page_size pl dvd n" "0 < n" "0 < page_size pl"
  shows "a div page_size pl \<in> region pl a n"
proof -
  from assms(2) obtain m where "n = m * page_size pl" by (metis dvd_def mult.commute)
  with assms region_mult [OF assms(1,4)] show ?thesis by auto
qed

lemma pages_in_region:
  assumes "shape_ok pl A s" "0 < page_size pl"
  shows "pages_of pl s \<subseteq> region pl (origin_addr s) (origin_pages s * page_size pl)"
proof -
  have "origin_addr s div page_size pl \<le> page_addr s div page_size pl"
    using assms(1) by (intro div_le_mono) (simp add: shape_ok_def)
  moreover have "page_addr s div page_size pl + num_pages s
      \<le> (origin_addr s + origin_pages s * page_size pl) div page_size pl"
    unfolding shape_page_div(2) [OF assms, symmetric]
    using assms(1) by (intro div_le_mono) (simp add: shape_ok_def)
  ultimately show ?thesis by (auto simp: pages_of_def region_def)
qed

lemma erase_alloc_set:
  "distinct (map fst xs) \<Longrightarrow> set (erase_alloc a xs) = {x \<in> set xs. fst x \<noteq> a}"
  by (induction a xs rule: erase_alloc.induct) (auto, force)

lemma erase_alloc_distinct: "distinct (map fst xs) \<Longrightarrow> distinct (map fst (erase_alloc a xs))"
proof (induction a xs rule: erase_alloc.induct)
  case (2 a x xs)
  moreover have "set (map fst (erase_alloc a xs)) \<subseteq> set (map fst xs)"
    using erase_alloc_set [of xs a] 2(2) by auto
  ultimately show ?case by auto
qed simp

lemma origin_ok:
  assumes ok: "pc_ok pl mapped pc" and ps: "0 < page_size pl"
    and a: "page_size pl dvd a" "0 < a" "a + n * page_size pl \<le> 2 ^ 64" "0 < n"
    and os: "region pl a (n * page_size pl) \<inter> mapped (os_state pc) = {}"
      "mapped (os_state pc') = mapped (os_state pc) \<union> region pl a (n * page_size pl)"
    and new: "s = new_span\<lparr>page_addr := a, num_pages := n, origin_addr := a, origin_pages := n\<rparr>"
    and eq: "spans pc' = (spans pc)(next_span pc \<mapsto> s)"
      "next_span pc' = next_span pc + 1" "free_spans pc' = free_spans pc"
      "page_map pc' = (\<lambda>p. if p \<in> pages_of pl s then Some (next_span pc) else page_map pc p)"
      "system_allocs pc' = system_allocs pc @ [(a, n * page_size pl)]"
      "cached_free_pages pc' = cached_free_pages pc"
  shows "pc_ok pl mapped pc'" and "used pc' = (used pc)(next_span pc \<mapsto> s)"
proof -
  let ?j = "next_span pc" and ?R = "region pl a (n * page_size pl)"
  from ok have parts: "ids_ok pc" "shapes_ok pl pc" "map_ok pl pc" "free_ok pc" "allocs_ok pl mapped pc"
    by (simp_all add: pc_ok_def)
  have none: "spans pc ?j = None" using parts(1) unfolding ids_ok_def by (meson less_irrefl not_None_eq)
  have pages: "pages_of pl s = ?R"
    using region_mult [OF a(1) ps] by (simp add: pages_of_def new new_span_def)
  have old_regions: "region pl b m \<subseteq> mapped (os_state pc)" "page_size pl dvd b" "page_size pl dvd m" "0 < m"
    if "(b, m) \<in> set (system_allocs pc)" for b m
    using parts(5) that by (auto simp: allocs_ok_def)
  have fresh: "b \<noteq> a" if "(b, m) \<in> set (system_allocs pc)" for b m
  proof
    assume "b = a"
    with region_nonempty [OF old_regions(2,3,4) ps] old_regions(1) that
    have "a div page_size pl \<in> mapped (os_state pc)" by blast
    moreover have "a div page_size pl \<in> ?R" using a ps by (intro region_nonempty) simp_all
    ultimately show False using os(1) by blast
  qed
  have unmapped: "page_map pc p = None" if "p \<in> ?R" for p
    using parts(5) os(1) old_regions(1) that unfolding allocs_ok_def by fastforce
  have "ids_ok pc'" using parts(1) by (auto simp: ids_ok_def eq less_Suc_eq)
  moreover have "shapes_ok pl pc'"
    using parts(2) a by (auto simp: shapes_ok_def shape_ok_def eq new new_span_def)
  moreover have "map_ok pl pc'"
    unfolding map_ok_def
  proof (intro allI)
    fix p k
    have old: "page_map pc p = Some k \<longleftrightarrow> (\<exists>s. spans pc k = Some s \<and> p \<in> pages_of pl s)"
      using parts(3) by (simp add: map_ok_def)
    show "page_map pc' p = Some k \<longleftrightarrow> (\<exists>s. spans pc' k = Some s \<and> p \<in> pages_of pl s)"
    proof (cases "k = ?j")
      case True
      with none old show ?thesis by (auto simp: eq)
    next
      case False
      with old unmapped [of p] show ?thesis by (auto simp: eq pages)
    qed
  qed
  moreover have "free_part pc' = free_part pc"
    using none by (auto simp: free_part_def eq new new_span_def fun_eq_iff)
  then have "free_ok pc'" using parts(4) free_ok_cong eq by metis
  moreover have "allocs_ok pl mapped pc'"
    unfolding allocs_ok_def
  proof (intro conjI)
    show "distinct (map fst (system_allocs pc'))"
    proof -
      have "a \<notin> set (map fst (system_allocs pc))"
      proof
        assume "a \<in> set (map fst (system_allocs pc))"
        then obtain m where "(a, m) \<in> set (system_allocs pc)" by auto
        with fresh show False by blast
      qed
      then show ?thesis using parts(5) by (simp add: allocs_ok_def eq)
    qed
    show "\<forall>(b, m) \<in> set (system_allocs pc'). page_size pl dvd b \<and> page_size pl dvd m \<and> 0 < b \<and> 0 < m
        \<and> b + m \<le> 2 ^ 64 \<and> region pl b m \<subseteq> mapped (os_state pc')"
      using parts(5) a ps unfolding allocs_ok_def eq(5) os(2) by auto
    show "\<forall>(b, m) \<in> set (system_allocs pc'). \<forall>(c, l) \<in> set (system_allocs pc').
        b \<noteq> c \<longrightarrow> region pl b m \<inter> region pl c l = {}"
    proof -
      have app: "region pl b m \<inter> ?R = {}" if "(b, m) \<in> set (system_allocs pc)" for b m
        using old_regions(1) [OF that] os(1) by blast
      have dis: "region pl b m \<inter> region pl c l = {}"
        if "(b, m) \<in> set (system_allocs pc)" "(c, l) \<in> set (system_allocs pc)" "b \<noteq> c" for b m c l
        using parts(5) that unfolding allocs_ok_def by blast
      have "region pl b m \<inter> region pl c l = {}"
        if "(b, m) \<in> set (system_allocs pc')" "(c, l) \<in> set (system_allocs pc')" "b \<noteq> c" for b m c l
        using that dis [of b m c l] app [of b m] app [of c l] by (auto simp: eq Int_commute)
      then show ?thesis by blast
    qed
    show "\<forall>p. page_map pc' p \<noteq> None \<longleftrightarrow> (\<exists>(b, m) \<in> set (system_allocs pc'). p \<in> region pl b m)"
      using parts(5) unfolding allocs_ok_def eq(4,5) by (auto simp: pages)
  qed
  ultimately show "pc_ok pl mapped pc'" by (simp add: pc_ok_def)
  show "used pc' = (used pc)(?j \<mapsto> s)"
    by (simp add: used_def eq new new_span_def fun_eq_iff)
qed

lemma release_ok:
  assumes ok: "pc_ok pl mapped pc" and ps: "0 < page_size pl" and i: "used pc i = Some s"
    and whole: "page_addr s = origin_addr s" "num_pages s = origin_pages s"
    and os: "mapped (os_state pc') = mapped (os_state pc)
      - region pl (origin_addr s) (origin_pages s * page_size pl)"
    and eq: "spans pc' = (spans pc)(i := None)"
      "next_span pc' = next_span pc" "free_spans pc' = free_spans pc"
      "page_map pc' = (\<lambda>p. if p \<in> pages_of pl s then None else page_map pc p)"
      "system_allocs pc' = erase_alloc (origin_addr s) (system_allocs pc)"
      "cached_free_pages pc' = cached_free_pages pc"
  shows "pc_ok pl mapped pc'" and "used pc' = (used pc)(i := None)"
proof -
  let ?a = "origin_addr s"
  let ?R = "region pl ?a (origin_pages s * page_size pl)"
  have s: "spans pc i = Some s" "\<not> in_free_list s" using i by (simp_all add: used_Some)
  from ok have parts: "ids_ok pc" "shapes_ok pl pc" "map_ok pl pc" "free_ok pc" "allocs_ok pl mapped pc"
    by (simp_all add: pc_ok_def)
  have sh: "shape_ok pl (set (system_allocs pc)) s" using parts(2) s by (simp add: shapes_ok_def)
  have pages: "pages_of pl s = ?R"
    using region_mult [of pl ?a "origin_pages s"] sh ps whole by (simp add: pages_of_def shape_ok_def)
  have dist: "distinct (map fst (system_allocs pc))" using parts(5) by (simp add: allocs_ok_def)
  note er = erase_alloc_set [OF dist, of ?a]
  have member: "(?a, origin_pages s * page_size pl) \<in> set (system_allocs pc)"
    using sh by (simp add: shape_ok_def)
  have other: "origin_addr t \<noteq> ?a" if "spans pc k = Some t" "k \<noteq> i" for k t
  proof
    assume o: "origin_addr t = ?a"
    have t: "shape_ok pl (set (system_allocs pc)) t" using parts(2) that by (simp add: shapes_ok_def)
    then have "origin_pages t * page_size pl = origin_pages s * page_size pl"
      using member dist o by (auto simp: shape_ok_def dest: eq_key_imp_eq_value)
    with pages_in_region [OF t ps] o have "pages_of pl t \<subseteq> pages_of pl s" by (simp add: pages)
    moreover have "pages_of pl t \<noteq> {}" using t by (simp add: pages_of_def shape_ok_def)
    ultimately show False using pc_ok_disjoint [OF ok that(1) s(1) that(2)] by blast
  qed
  have "ids_ok pc'" using parts(1) by (simp add: ids_ok_def eq)
  moreover have "shapes_ok pl pc'"
    unfolding shapes_ok_def
  proof (intro allI impI)
    fix k t assume "spans pc' k = Some t"
    then have k: "k \<noteq> i" "spans pc k = Some t" by (simp_all add: eq split: if_splits)
    with parts(2) other [OF k(2,1)] show "shape_ok pl (set (system_allocs pc')) t"
      by (auto simp: shapes_ok_def shape_ok_def eq er)
  qed
  moreover have "map_ok pl pc'"
    unfolding map_ok_def
  proof (intro allI)
    fix p k
    have old: "page_map pc p = Some k \<longleftrightarrow> (\<exists>s. spans pc k = Some s \<and> p \<in> pages_of pl s)"
      using parts(3) by (simp add: map_ok_def)
    have "p \<notin> pages_of pl r" if "spans pc k = Some r" "k \<noteq> i" "p \<in> pages_of pl s" for r
      using pc_ok_disjoint [OF ok that(1) s(1) that(2)] that(3) by blast
    with old s show "page_map pc' p = Some k \<longleftrightarrow> (\<exists>s. spans pc' k = Some s \<and> p \<in> pages_of pl s)"
      by (cases "k = i") (auto simp: eq)
  qed
  moreover have "free_part pc' = free_part pc"
    using s by (auto simp: free_part_def eq fun_eq_iff)
  then have "free_ok pc'" using parts(4) free_ok_cong eq by metis
  moreover have "allocs_ok pl mapped pc'"
  proof -
    have apart: "region pl b m \<inter> ?R = {}" if "(b, m) \<in> set (system_allocs pc)" "b \<noteq> ?a" for b m
      using parts(5) member that unfolding allocs_ok_def by fastforce
    have only: "p \<in> ?R" if "(?a, m) \<in> set (system_allocs pc)" "p \<in> region pl ?a m" for p m
      using that member dist by (auto dest: eq_key_imp_eq_value)
    show ?thesis
      unfolding allocs_ok_def
    proof (intro conjI)
      show "distinct (map fst (system_allocs pc'))" using dist by (simp add: eq erase_alloc_distinct)
      show "\<forall>(b, m) \<in> set (system_allocs pc'). page_size pl dvd b \<and> page_size pl dvd m \<and> 0 < b \<and> 0 < m
          \<and> b + m \<le> 2 ^ 64 \<and> region pl b m \<subseteq> mapped (os_state pc')"
      proof -
        have "page_size pl dvd b \<and> page_size pl dvd m \<and> 0 < b \<and> 0 < m
            \<and> b + m \<le> 2 ^ 64 \<and> region pl b m \<subseteq> mapped (os_state pc) - ?R"
          if "(b, m) \<in> set (system_allocs pc)" "b \<noteq> ?a" for b m
          using parts(5) that(1) apart [OF that] unfolding allocs_ok_def by blast
        then show ?thesis unfolding eq(5) er os by auto
      qed
      show "\<forall>(b, m) \<in> set (system_allocs pc'). \<forall>(c, l) \<in> set (system_allocs pc').
          b \<noteq> c \<longrightarrow> region pl b m \<inter> region pl c l = {}"
        using parts(5) unfolding allocs_ok_def eq(5) er by blast
      show "\<forall>p. page_map pc' p \<noteq> None \<longleftrightarrow> (\<exists>(b, m) \<in> set (system_allocs pc'). p \<in> region pl b m)"
      proof
        fix p
        have "page_map pc p \<noteq> None \<longleftrightarrow> (\<exists>(b, m) \<in> set (system_allocs pc). p \<in> region pl b m)"
          using parts(5) by (simp add: allocs_ok_def)
        moreover have "(\<exists>(b, m) \<in> set (system_allocs pc'). p \<in> region pl b m)
            \<longleftrightarrow> p \<notin> ?R \<and> (\<exists>(b, m) \<in> set (system_allocs pc). p \<in> region pl b m)"
        proof (cases "p \<in> ?R")
          case True
          with apart have "p \<notin> region pl b m" if "(b, m) \<in> set (system_allocs pc)" "b \<noteq> ?a" for b m
            using that by blast
          with True show ?thesis unfolding eq(5) er by auto
        next
          case False
          with only have "b \<noteq> ?a" if "(b, m) \<in> set (system_allocs pc)" "p \<in> region pl b m" for b m
            using that by blast
          with False show ?thesis unfolding eq(5) er by auto
        qed
        ultimately show "page_map pc' p \<noteq> None \<longleftrightarrow> (\<exists>(b, m) \<in> set (system_allocs pc'). p \<in> region pl b m)"
          by (simp add: eq(4) pages)
      qed
    qed
  qed
  ultimately show "pc_ok pl mapped pc'" by (simp add: pc_ok_def)
  show "used pc' = (used pc)(i := None)" by (simp add: used_def eq fun_eq_iff)
qed

end
