(* ===== verification/Page_Cache_Contract.thy ===== *)
theory Page_Cache_Contract
  imports Page_Cache_Safety
begin

text \<open>
  The contract of the page cache: \<open>allocateSpan\<close> hands out a span that was not in use, large
  enough, \<open>deallocateSpan\<close> takes a used one back, all others in use are left alone and the
  invariant is kept, whatever is split, merged or returned to the system.
\<close>

section \<open>The operations\<close>

text \<open>Updates that leave the extent of a span and its place alone.\<close>

definition keeps_extent :: "(span \<Rightarrow> span) \<Rightarrow> bool" where
  "keeps_extent f \<longleftrightarrow>
     (\<forall>s. page_addr (f s) = page_addr s \<and> num_pages (f s) = num_pages s
        \<and> origin_addr (f s) = origin_addr s \<and> origin_pages (f s) = origin_pages s
        \<and> in_free_list (f s) = in_free_list s)"

lemma update_fields [simp]:
  "next_span (update_span i f pc) = next_span pc" "free_spans (update_span i f pc) = free_spans pc"
  "page_map (update_span i f pc) = page_map pc"
  "system_allocs (update_span i f pc) = system_allocs pc"
  "cached_free_pages (update_span i f pc) = cached_free_pages pc"
  "os_state (update_span i f pc) = os_state pc"
  by (simp_all add: update_span_def)

lemma update_ok:
  assumes ok: "pc_ok pl mapped pc" and i: "used pc i = Some s" and f: "keeps_extent f"
  shows "pc_ok pl mapped (update_span i f pc)"
    and "used (update_span i f pc) = (used pc)(i \<mapsto> f s)"
proof -
  have s: "spans pc i = Some s" "\<not> in_free_list s" using i by (simp_all add: used_Some)
  then have u: "spans (update_span i f pc) = (spans pc)(i \<mapsto> f s)" by (simp add: update_span_def)
  have keep: "pages_of pl (f t) = pages_of pl t" "shape_ok pl A (f t) = shape_ok pl A t" for t A
    using f by (simp_all add: keeps_extent_def pages_of_def shape_ok_def)
  have "free_part (update_span i f pc) = free_part pc"
    using s f by (auto simp: free_part_def u keeps_extent_def fun_eq_iff)
  then have "free_ok (update_span i f pc) = free_ok pc"
    by (rule free_ok_cong) simp_all
  then have "free_ok (update_span i f pc)" using ok by (simp add: pc_ok_def)
  then show "pc_ok pl mapped (update_span i f pc)"
    by (rule flag_update_ok [OF ok s(1), of f, rotated -1]) (simp_all add: keep u)
  show "used (update_span i f pc) = (used pc)(i \<mapsto> f s)"
    using s f by (auto simp: used_def u keeps_extent_def fun_eq_iff)
qed

lemma platform_pos: "platform_ok pl mapped \<Longrightarrow> 0 < page_size pl"
  using platform_ok_dest(1) by fastforce

lemma register_simps:
  "spans (register_pages pl i pc) = spans pc" "next_span (register_pages pl i pc) = next_span pc"
  "free_spans (register_pages pl i pc) = free_spans pc"
  "system_allocs (register_pages pl i pc) = system_allocs pc"
  "cached_free_pages (register_pages pl i pc) = cached_free_pages pc"
  "os_state (register_pages pl i pc) = os_state pc"
  "spans pc i = Some s \<Longrightarrow> page_map (register_pages pl i pc)
     = (\<lambda>p. if p \<in> pages_of pl s then Some i else page_map pc p)"
  by (simp_all add: register_pages_def set_pages_range)

lemma split_ok:
  assumes ok: "pc_ok pl mapped pc" and i: "used pc i = Some s" and n: "0 < n" "n < num_pages s"
    and ps: "0 < page_size pl"
  shows "pc_ok pl mapped (split_span pl i n pc)"
    and "used (split_span pl i n pc) = (used pc)(i \<mapsto> s\<lparr>num_pages := n\<rparr>)"
proof -
  let ?j = "next_span pc" and ?s = "s\<lparr>num_pages := n\<rparr>"
  let ?rest = "new_span\<lparr>page_addr := page_addr s + n * page_size pl, num_pages := num_pages s - n,
    origin_addr := origin_addr s, origin_pages := origin_pages s\<rparr>"
  define pc1 where "pc1 = pc\<lparr>spans := (spans pc)(?j \<mapsto> ?rest, i \<mapsto> ?s), next_span := ?j + 1,
    page_map := (\<lambda>p. if p \<in> pages_of pl ?rest then Some ?j else page_map pc p)\<rparr>"
  have s: "spans pc i = Some s" "\<not> in_free_list s" using i by (simp_all add: used_Some)
  have none: "spans pc ?j = None"
    using ok unfolding pc_ok_def ids_ok_def by (meson less_irrefl not_None_eq)
  with s have ij: "i \<noteq> ?j" by auto
  have c: "pc_ok pl mapped pc1" "used pc1 = (used pc)(i \<mapsto> ?s, ?j \<mapsto> ?rest)"
    using carve_ok [OF ok i n ps refl, of pc1] by (simp_all add: pc1_def)
  have own: "page_map pc p = Some i" if "p \<in> pages_of pl ?s" for p
    using ok s n that by (auto simp: pc_ok_def map_ok_def pages_of_def)
  have apart: "p \<notin> pages_of pl ?rest" if "p \<in> pages_of pl ?s" for p
  proof -
    have "spans pc1 i = Some ?s" "spans pc1 ?j = Some ?rest" using ij by (simp_all add: pc1_def)
    from pc_ok_disjoint [OF c(1) this ij] that show ?thesis by blast
  qed
  have "split_span pl i n pc = push_free ?j pc1"
  proof -
    have map_eq: "set_pages (page_addr s div page_size pl) n (Some i)
        (set_pages ((page_addr s + n * page_size pl) div page_size pl) (num_pages s - n) (Some ?j)
          (page_map pc)) = page_map pc1"
      using own apart by (auto simp: set_pages_apply pages_of_def pc1_def fun_eq_iff)
    note defs = split_span_def Let_def add_span_def push_free_def update_span_def register_pages_def
      span_at_def free_list_at_def new_span_def
    have "page_map (split_span pl i n pc) = page_map (push_free ?j pc1)"
      using ij s map_eq by (simp add: defs)
    moreover have "spans (split_span pl i n pc) = spans (push_free ?j pc1)"
      using ij s by (simp add: defs pc1_def fun_upd_twist)
    moreover have "free_spans (split_span pl i n pc) = free_spans (push_free ?j pc1)"
      "cached_free_pages (split_span pl i n pc) = cached_free_pages (push_free ?j pc1)"
      "next_span (split_span pl i n pc) = next_span (push_free ?j pc1)"
      "system_allocs (split_span pl i n pc) = system_allocs (push_free ?j pc1)"
      "os_state (split_span pl i n pc) = os_state (push_free ?j pc1)"
      using ij s by (simp_all add: defs pc1_def)
    ultimately show ?thesis by (intro page_cache.equality) simp_all
  qed
  moreover have "used pc1 ?j = Some ?rest" by (simp add: c)
  from push_ok [OF c(1) this] c(2) none
  have "pc_ok pl mapped (push_free ?j pc1)" "used (push_free ?j pc1) = (used pc)(i \<mapsto> ?s)"
    using ij by (auto simp: fun_eq_iff used_def)
  ultimately show "pc_ok pl mapped (split_span pl i n pc)"
    "used (split_span pl i n pc) = (used pc)(i \<mapsto> ?s)" by simp_all
qed

lemma system_alloc_ok:
  assumes pl: "platform_ok pl mapped" and n: "0 < n"
    and eq: "system_alloc pl n pc = (Some (a, m), pc1)"
  obtains w where "pc1 = pc\<lparr>os_state := w, system_allocs := system_allocs pc @ [(a, m * page_size pl)]\<rparr>"
    and "page_size pl dvd a" "0 < a" "a + m * page_size pl \<le> 2 ^ 64" "n \<le> m"
    and "region pl a (m * page_size pl) \<inter> mapped (os_state pc) = {}"
    and "mapped w = mapped (os_state pc) \<union> region pl a (m * page_size pl)"
proof -
  obtain k g where kg: "page_size pl = 2 ^ k" "granularity pl = 2 ^ g" "k \<le> g" "g \<le> 32"
    using platform_ok_dest(1) [OF pl] by blast
  let ?x = "n * page_size pl + granularity pl - 1"
  let ?b = "and_not ?x (granularity pl - 1)"
  have small: "n * page_size pl \<le> size_max - (granularity pl - 1)"
    using eq by (simp add: system_alloc_def split: if_splits)
  have "(2 :: nat) ^ g \<le> 2 ^ 32" using kg(4) by (rule power_increasing) simp
  then have "granularity pl - 1 \<le> size_max" unfolding kg(2) size_max_def by simp
  with small have "n * page_size pl + (granularity pl - 1) \<le> size_max" by linarith
  moreover have "0 < granularity pl" by (simp add: kg)
  ultimately have "?x < 2 ^ 64" unfolding size_max_def by simp
  then have b: "?b = ?x - ?x mod 2 ^ g" unfolding kg(2) using kg(4) by (intro and_not_mask) auto
  have "?x mod 2 ^ g < 2 ^ g" by simp
  moreover have "?x = n * page_size pl + (2 ^ g - 1)" by (simp add: kg(2))
  ultimately have ge: "n * page_size pl \<le> ?b" unfolding b by linarith
  have "2 ^ g dvd ?b" unfolding b by (rule dvd_minus_mod)
  moreover have "(2 :: nat) ^ k dvd 2 ^ g" using kg(3) by (rule le_imp_power_dvd)
  ultimately have db: "page_size pl dvd ?b" unfolding kg(1) by (rule dvd_trans [rotated])
  then have bm: "?b = ?b div page_size pl * page_size pl" by simp
  have pos: "0 < ?b" using ge n platform_pos [OF pl] by (meson less_le_trans mult_pos_pos)
  obtain w where w: "os_mmap pl ?b (os_state pc) = (Some a, w)"
    and m: "m = ?b div page_size pl"
    and pc1: "pc1 = pc\<lparr>os_state := w, system_allocs := system_allocs pc @ [(a, ?b)]\<rparr>"
    using eq pos by (auto simp: system_alloc_def alloc_pages_def Let_def split: if_splits option.splits prod.splits)
  have mb: "m * page_size pl = ?b" using bm m by simp
  have "n * page_size pl \<le> m * page_size pl" unfolding mb by (rule ge)
  then have "n \<le> m" using platform_pos [OF pl] by simp
  moreover have "page_size pl dvd a \<and> 0 < a \<and> a + ?b \<le> 2 ^ 64
      \<and> region pl a ?b \<inter> mapped (os_state pc) = {} \<and> mapped w = mapped (os_state pc) \<union> region pl a ?b"
    by (rule platform_ok_dest(2) [OF pl db pos w])
  ultimately show thesis using that [of w] pc1 unfolding mb by blast
qed

lemma system_alloc_None:
  assumes "platform_ok pl mapped" and "system_alloc pl n pc = (None, pc1)"
  obtains w where "pc1 = pc\<lparr>os_state := w\<rparr>" and "mapped w = mapped (os_state pc)"
proof -
  let ?b = "and_not (n * page_size pl + granularity pl - 1) (granularity pl - 1)"
  obtain q v where a: "alloc_pages pl ?b (os_state pc) = (q, v)" by fastforce
  have "pc1 = pc \<or> (q = None \<and> pc1 = pc\<lparr>os_state := v\<rparr>)"
    using assms(2) a
    by (simp add: system_alloc_def Let_def split: if_splits option.splits del: One_nat_def)
  with a consider "pc1 = pc" | w where "alloc_pages pl ?b (os_state pc) = (None, w)" "pc1 = pc\<lparr>os_state := w\<rparr>"
    by blast
  then show thesis
  proof cases
    case 1
    then show thesis using that [of "os_state pc"] by simp
  next
    case (2 w)
    then have "mapped w = mapped (os_state pc)"
      using platform_ok_dest(3) [OF assms(1)] by (auto simp: alloc_pages_def split: if_splits)
    with 2 that show thesis by blast
  qed
qed

lemma os_update_ok:
  assumes "pc_ok pl mapped pc" and "mapped w = mapped (os_state pc)"
  shows "pc_ok pl mapped (pc\<lparr>os_state := w\<rparr>)" and "used (pc\<lparr>os_state := w\<rparr>) = used pc"
proof -
  have "free_ok (pc\<lparr>os_state := w\<rparr>) = free_ok pc"
    by (rule free_ok_cong) (simp_all add: free_part_def fun_eq_iff)
  moreover have "ids_ok (pc\<lparr>os_state := w\<rparr>) = ids_ok pc" by (simp add: ids_ok_def)
  moreover have "shapes_ok pl (pc\<lparr>os_state := w\<rparr>) = shapes_ok pl pc" by (simp add: shapes_ok_def)
  moreover have "map_ok pl (pc\<lparr>os_state := w\<rparr>) = map_ok pl pc" by (simp add: map_ok_def)
  moreover have "allocs_ok pl mapped (pc\<lparr>os_state := w\<rparr>) = allocs_ok pl mapped pc"
    using assms(2) by (simp add: allocs_ok_def)
  ultimately show "pc_ok pl mapped (pc\<lparr>os_state := w\<rparr>)" using assms(1) by (simp add: pc_ok_def)
  show "used (pc\<lparr>os_state := w\<rparr>) = used pc" by (simp add: used_def fun_eq_iff)
qed

lemma fresh_ok:
  assumes ok: "pc_ok pl mapped pc" and pl: "platform_ok pl mapped" and n: "0 < n"
    and eq: "fresh_span pl n pc = (r, pc')"
  shows "pc_ok pl mapped pc'"
    and "case r of None \<Rightarrow> used pc' = used pc
      | Some i \<Rightarrow> used pc i = None \<and> (\<exists>s. used pc' = (used pc)(i \<mapsto> s) \<and> n \<le> num_pages s)"
proof -
  have "pc_ok pl mapped pc' \<and> (case r of None \<Rightarrow> used pc' = used pc
      | Some i \<Rightarrow> used pc i = None \<and> (\<exists>s. used pc' = (used pc)(i \<mapsto> s) \<and> n \<le> num_pages s))"
  proof (cases "system_alloc pl n pc")
    case (Pair q pc1)
    show ?thesis
    proof (cases q)
      case None
      with Pair eq have "r = None" "pc' = pc1" by (simp_all add: fresh_span_def)
      moreover obtain w where "pc1 = pc\<lparr>os_state := w\<rparr>" "mapped w = mapped (os_state pc)"
        using system_alloc_None [OF pl] Pair None by metis
      ultimately show ?thesis using os_update_ok [OF ok] by simp
    next
      case (Some am)
      then obtain a m where am: "q = Some (a, m)" by (cases am) simp
      from system_alloc_ok [OF pl n] Pair am obtain w where
        w: "pc1 = pc\<lparr>os_state := w, system_allocs := system_allocs pc @ [(a, m * page_size pl)]\<rparr>"
          "page_size pl dvd a" "0 < a" "a + m * page_size pl \<le> 2 ^ 64" "n \<le> m"
          "region pl a (m * page_size pl) \<inter> mapped (os_state pc) = {}"
          "mapped w = mapped (os_state pc) \<union> region pl a (m * page_size pl)" by metis
      let ?s = "new_span\<lparr>page_addr := a, num_pages := m, origin_addr := a, origin_pages := m\<rparr>"
      have none: "used pc (next_span pc) = None"
        using ok unfolding pc_ok_def ids_ok_def used_def by (metis less_irrefl option.simps(4))
      have r: "r = Some (next_span pc)"
        and pc': "pc' = register_pages pl (next_span pc) (pc1\<lparr>spans := (spans pc)(next_span pc \<mapsto> ?s),
          next_span := next_span pc + 1\<rparr>)"
        using eq Pair am by (simp_all add: fresh_span_def add_span_def w(1))
      have "0 < m" using n w(5) by simp
      have f: "spans pc' = (spans pc)(next_span pc \<mapsto> ?s)" "next_span pc' = next_span pc + 1"
        "free_spans pc' = free_spans pc"
        "page_map pc' = (\<lambda>p. if p \<in> pages_of pl ?s then Some (next_span pc) else page_map pc p)"
        "system_allocs pc' = system_allocs pc @ [(a, m * page_size pl)]"
        "cached_free_pages pc' = cached_free_pages pc" "os_state pc' = w"
        by (simp_all add: pc' register_simps w(1) cong: if_cong)
      have os: "mapped (os_state pc') = mapped (os_state pc) \<union> region pl a (m * page_size pl)"
        by (simp add: f(7) w(7))
      have "pc_ok pl mapped pc'" "used pc' = (used pc)(next_span pc \<mapsto> ?s)"
        using origin_ok [OF ok platform_pos [OF pl] w(2,3,4) \<open>0 < m\<close> w(6) os refl f(1-6)] by simp_all
      with none w(5) show ?thesis by (auto simp: r)
    qed
  qed
  then show "pc_ok pl mapped pc'" "case r of None \<Rightarrow> used pc' = used pc
      | Some i \<Rightarrow> used pc i = None \<and> (\<exists>s. used pc' = (used pc)(i \<mapsto> s) \<and> n \<le> num_pages s)"
    by simp_all
qed

lemma allocate_span_ok:
  assumes ok: "pc_ok pl mapped pc" and pl: "platform_ok pl mapped"
    and eq: "allocate_span pl n pc = (r, pc')"
  shows "pc_ok pl mapped pc'"
    and "case r of None \<Rightarrow> used pc' = used pc
      | Some i \<Rightarrow> used pc i = None
          \<and> (\<exists>s. used pc' = (used pc)(i \<mapsto> s) \<and> (if n = 0 then 1 else n) \<le> num_pages s)"
proof -
  let ?n = "if n = 0 then 1 else n"
  define k where "k = ?n"
  have n: "0 < k" by (simp add: k_def)
  have "pc_ok pl mapped pc' \<and> (case r of None \<Rightarrow> used pc' = used pc
      | Some i \<Rightarrow> used pc i = None \<and> (\<exists>s. used pc' = (used pc)(i \<mapsto> s) \<and> k \<le> num_pages s))"
  proof (cases "omap_lower_bound k (free_spans pc)")
    case None
    with eq have f: "fresh_span pl k pc = (r, pc')" by (simp add: allocate_span_def Let_def k_def)
    from fresh_ok [OF ok pl n f] show ?thesis by blast
  next
    case (Some ml)
    then obtain m l where ml: "omap_lower_bound k (free_spans pc) = Some (m, l)" by (cases ml) simp
    have fr: "free_ok pc" using ok by (simp add: pc_ok_def)
    then have get: "k \<le> m" "omap_get (free_spans pc) m = Some l"
      using omap_lower_bound_Some [OF _ ml] by (auto simp: free_ok_def)
    then have at: "free_list_at pc m = l" by (simp add: free_list_at_def)
    have l: "l \<noteq> []" "distinct l" using fr get(2) at unfolding free_ok_def by metis+
    define i where "i = hd l"
    have "i \<in> set (free_list_at pc m)" using l by (simp add: at i_def)
    then obtain s where s: "spans pc i = Some s" "in_free_list s" "num_pages s = m"
      using free_list_at_iff [OF ok] by blast
    let ?pc1 = "unlink_free i m (tl l) pc" and ?s = "s\<lparr>in_free_list := False\<rparr>"
    have "set (tl l) = set (free_list_at pc m) - {i}" "distinct (tl l)"
      using l by (cases l; auto simp: at i_def)+
    note u = unlink_ok [OF ok s this(2,1)]
    have none: "used pc i = None" using s by (simp add: used_def)
    have used1: "used ?pc1 i = Some ?s" by (simp add: u)
    then have at1: "span_at ?pc1 i = ?s" by (simp add: used_Some)
    have r: "r = Some i" "pc' = (if num_pages ?s > k then split_span pl i k ?pc1 else ?pc1)"
      using eq by (auto simp: allocate_span_def ml at1 [unfolded i_def] Let_def i_def simp flip: k_def)
    show ?thesis
    proof (cases "k < m")
      case True
      then have "k < num_pages ?s" using s by simp
      from split_ok [OF u(1) used1 n this platform_pos [OF pl]] r none True s u(2)
      show ?thesis by auto
    next
      case False
      with r none get(1) s u show ?thesis by auto
    qed
  qed
  then show "pc_ok pl mapped pc'" "case r of None \<Rightarrow> used pc' = used pc
      | Some i \<Rightarrow> used pc i = None \<and> (\<exists>s. used pc' = (used pc)(i \<mapsto> s) \<and> ?n \<le> num_pages s)"
    unfolding k_def by blast+
qed

text \<open>Coalescing: the neighbour leaves its free list and is absorbed.\<close>

lemma remove_ok:
  assumes ok: "pc_ok pl mapped pc" and j: "spans pc j = Some t" "in_free_list t"
  obtains pc1 where "remove_from_free_list j pc = (True, pc1)" and "pc_ok pl mapped pc1"
    and "used pc1 = (used pc)(j \<mapsto> t\<lparr>in_free_list := False\<rparr>)"
    and "spans pc1 = (spans pc)(j \<mapsto> t\<lparr>in_free_list := False\<rparr>)" and "page_map pc1 = page_map pc"
proof -
  let ?l = "free_list_at pc (num_pages t)"
  have mem: "j \<in> set ?l" using free_list_at_iff [OF ok] j by blast
  then have get: "omap_get (free_spans pc) (num_pages t) = Some ?l"
    by (cases "omap_get (free_spans pc) (num_pages t)") (simp_all add: free_list_at_def)
  have dist: "distinct ?l" using ok by (simp add: pc_ok_def free_ok_def)
  let ?pc1 = "unlink_free j (num_pages t) (remove1 j ?l) pc"
  have "remove_from_free_list j pc = (True, ?pc1)"
    using j(1) mem by (simp add: remove_from_free_list_def get Let_def)
  moreover have "distinct (remove1 j ?l)" "set (remove1 j ?l) = set ?l - {j}"
    using dist by (simp_all add: distinct_remove1)
  note u = unlink_ok [OF ok j refl this]
  ultimately show thesis
    using that u unlink_fields [OF j(1), of "num_pages t" "remove1 j ?l"] by blast
qed

lemma merge_next_ok:
  assumes ok: "pc_ok pl mapped pc" and i: "used pc i = Some s" and ps: "0 < page_size pl"
  shows "pc_ok pl mapped (merge_next pl i pc)"
    and "\<exists>s'. used (merge_next pl i pc) = (used pc)(i \<mapsto> s')"
proof -
  let ?next = "page_addr s + num_pages s * page_size pl"
  have s: "spans pc i = Some s" "\<not> in_free_list s" using i by (simp_all add: used_Some)
  have "pc_ok pl mapped (merge_next pl i pc) \<and> (\<exists>s'. used (merge_next pl i pc) = (used pc)(i \<mapsto> s'))"
  proof (cases "\<exists>j. find_span_locked pl ?next pc = Some j \<and> j \<noteq> i \<and> in_free_list (span_at pc j)
      \<and> page_addr (span_at pc j) = ?next \<and> origin_addr (span_at pc j) = origin_addr s")
    case False
    then have "merge_next pl i pc = pc" using s by (auto simp: merge_next_def Let_def split: option.splits)
    with ok i show ?thesis by (auto intro!: exI [of _ s] simp: fun_upd_idem)
  next
    case True
    then obtain j where j: "find_span_locked pl ?next pc = Some j" "j \<noteq> i" "in_free_list (span_at pc j)"
      "page_addr (span_at pc j) = ?next" "origin_addr (span_at pc j) = origin_addr s" by blast
    obtain t where t: "spans pc j = Some t"
      using j(1) ok by (auto simp: find_span_locked_def pc_ok_def map_ok_def)
    with j have tj: "in_free_list t" "page_addr t = ?next" "origin_addr t = origin_addr s" by simp_all
    obtain pc1 where r: "remove_from_free_list j pc = (True, pc1)" "pc_ok pl mapped pc1"
      "used pc1 = (used pc)(j \<mapsto> t\<lparr>in_free_list := False\<rparr>)"
      "spans pc1 = (spans pc)(j \<mapsto> t\<lparr>in_free_list := False\<rparr>)" "page_map pc1 = page_map pc"
      using remove_ok [OF ok t tj(1)] by metis
    let ?t = "t\<lparr>in_free_list := False\<rparr>"
    let ?pc2 = "delete_span j (redirect_pages pl j i
      (update_span i (\<lambda>s. s\<lparr>num_pages := num_pages s + num_pages t\<rparr>) pc1))"
    have eq: "merge_next pl i pc = ?pc2"
      using s t j r(1) by (simp add: merge_next_def Let_def)
    have i1: "spans pc1 i = Some s" "used pc1 i = Some s" "used pc1 j = Some ?t"
      using s i j(2) by (simp_all add: r)
    have f: "spans ?pc2 = (spans pc1)(i \<mapsto> s\<lparr>num_pages := num_pages s + num_pages ?t\<rparr>, j := None)"
      "next_span ?pc2 = next_span pc1" "free_spans ?pc2 = free_spans pc1"
      "page_map ?pc2 = (\<lambda>p. if p \<in> pages_of pl ?t then Some i else page_map pc1 p)"
      "system_allocs ?pc2 = system_allocs pc1" "cached_free_pages ?pc2 = cached_free_pages pc1"
      "os_state ?pc2 = os_state pc1"
      using i1(1) j(2)
      by (simp_all add: delete_span_def redirect_pages_def update_span_def span_at_def r(4)
          set_pages_apply pages_of_def fun_eq_iff)
    have "i \<noteq> j" "page_addr ?t = ?next" "origin_addr ?t = origin_addr s" using j(2) tj by simp_all
    note m = merge_ok [OF r(2) i1(2,3) this(1) ps this(2,3) f]
    have "used pc j = None" using t tj(1) by (simp add: used_def)
    then have "used ?pc2 = (used pc)(i \<mapsto> s\<lparr>num_pages := num_pages s + num_pages ?t\<rparr>)"
      unfolding m(2) r(3) using j(2) by (auto simp: fun_eq_iff)
    with m(1) show ?thesis unfolding eq by blast
  qed
  then show "pc_ok pl mapped (merge_next pl i pc)"
    "\<exists>s'. used (merge_next pl i pc) = (used pc)(i \<mapsto> s')" by blast+
qed

lemma merge_prev_ok:
  assumes ok: "pc_ok pl mapped pc" and i: "used pc i = Some s" and ps: "0 < page_size pl"
    and eq: "merge_prev pl i pc = (k, pc')"
  shows "pc_ok pl mapped pc'"
    and "\<exists>s'. used pc' = (used pc)(i := None, k \<mapsto> s') \<and> (k = i \<or> used pc k = None)"
proof -
  have s: "spans pc i = Some s" "\<not> in_free_list s" using i by (simp_all add: used_Some)
  have "pc_ok pl mapped pc' \<and> (\<exists>s'. used pc' = (used pc)(i := None, k \<mapsto> s') \<and> (k = i \<or> used pc k = None))"
  proof (cases "\<exists>j. page_addr s \<noteq> origin_addr s \<and> find_span_locked pl (page_addr s - 1) pc = Some j
      \<and> j \<noteq> i \<and> in_free_list (span_at pc j) \<and> origin_addr (span_at pc j) = origin_addr s
      \<and> page_addr (span_at pc j) + num_pages (span_at pc j) * page_size pl = page_addr s")
    case False
    then have "merge_prev pl i pc = (i, pc)"
      using s by (auto simp: merge_prev_def Let_def split: option.splits)
    with eq ok i show ?thesis by (auto intro!: exI [of _ s] simp: fun_upd_idem)
  next
    case True
    then obtain j where j: "page_addr s \<noteq> origin_addr s" "find_span_locked pl (page_addr s - 1) pc = Some j"
      "j \<noteq> i" "in_free_list (span_at pc j)" "origin_addr (span_at pc j) = origin_addr s"
      "page_addr (span_at pc j) + num_pages (span_at pc j) * page_size pl = page_addr s" by blast
    obtain t where t: "spans pc j = Some t"
      using j(2) ok by (auto simp: find_span_locked_def pc_ok_def map_ok_def)
    with j have tj: "in_free_list t" "page_addr t + num_pages t * page_size pl = page_addr s"
      "origin_addr t = origin_addr s" by simp_all
    let ?t = "t\<lparr>in_free_list := False\<rparr>"
    obtain pc1 where r: "remove_from_free_list j pc = (True, pc1)" "pc_ok pl mapped pc1"
      "used pc1 = (used pc)(j \<mapsto> ?t)" "spans pc1 = (spans pc)(j \<mapsto> ?t)" "page_map pc1 = page_map pc"
      using remove_ok [OF ok t tj(1)] by metis
    let ?pc2 = "delete_span i (update_span j (\<lambda>t. t\<lparr>num_pages := num_pages t + num_pages s\<rparr>)
      (redirect_pages pl i j pc1))"
    have kp: "k = j" "pc' = ?pc2"
      using eq s t j r(1) by (auto simp: merge_prev_def Let_def)
    have i1: "spans pc1 i = Some s" "used pc1 i = Some s" "used pc1 j = Some ?t"
      using s i j(3) by (simp_all add: r)
    have f: "spans ?pc2 = (spans pc1)(j \<mapsto> ?t\<lparr>num_pages := num_pages ?t + num_pages s\<rparr>, i := None)"
      "next_span ?pc2 = next_span pc1" "free_spans ?pc2 = free_spans pc1"
      "page_map ?pc2 = (\<lambda>p. if p \<in> pages_of pl s then Some j else page_map pc1 p)"
      "system_allocs ?pc2 = system_allocs pc1" "cached_free_pages ?pc2 = cached_free_pages pc1"
      "os_state ?pc2 = os_state pc1"
      using i1(1) j(3)
      by (simp_all add: delete_span_def redirect_pages_def update_span_def span_at_def r(4)
          set_pages_apply pages_of_def fun_eq_iff)
    have "page_addr s = page_addr ?t + num_pages ?t * page_size pl" "origin_addr s = origin_addr ?t"
      using tj by simp_all
    note m = merge_ok [OF r(2) i1(3,2) j(3) ps this f]
    have "used pc j = None" using t tj(1) by (simp add: used_def)
    moreover have "used ?pc2 = (used pc)(i := None, j \<mapsto> ?t\<lparr>num_pages := num_pages ?t + num_pages s\<rparr>)"
      unfolding m(2) r(3) using j(3) by (auto simp: fun_eq_iff)
    ultimately show ?thesis unfolding kp using m(1) by blast
  qed
  then show "pc_ok pl mapped pc'"
    "\<exists>s'. used pc' = (used pc)(i := None, k \<mapsto> s') \<and> (k = i \<or> used pc k = None)" by blast+
qed

lemma release_origin_ok:
  assumes ok: "pc_ok pl mapped pc" and pl: "platform_ok pl mapped" and i: "used pc i = Some s"
    and whole: "page_addr s = origin_addr s" "num_pages s = origin_pages s"
  shows "pc_ok pl mapped (release_origin pl i pc)"
    and "used (release_origin pl i pc) = (used pc)(i := None)"
proof -
  have s: "spans pc i = Some s" using i by (simp add: used_Some)
  have f: "spans (release_origin pl i pc) = (spans pc)(i := None)"
    "next_span (release_origin pl i pc) = next_span pc"
    "free_spans (release_origin pl i pc) = free_spans pc"
    "page_map (release_origin pl i pc) = (\<lambda>p. if p \<in> pages_of pl s then None else page_map pc p)"
    "system_allocs (release_origin pl i pc) = erase_alloc (origin_addr s) (system_allocs pc)"
    "cached_free_pages (release_origin pl i pc) = cached_free_pages pc"
    using s by (simp_all add: release_origin_def Let_def unregister_pages_def delete_span_def
        set_pages_range span_at_def)
  have "os_state (release_origin pl i pc)
      = os_munmap pl (origin_addr s) (origin_pages s * page_size pl) (os_state pc)"
    using s by (simp add: release_origin_def Let_def unregister_pages_def delete_span_def
        span_at_def unmap_pages_def)
  then have "mapped (os_state (release_origin pl i pc)) = mapped (os_state pc)
      - region pl (origin_addr s) (origin_pages s * page_size pl)"
    using platform_ok_dest(4) [OF pl] ok s by (auto simp: pc_ok_def shapes_ok_def shape_ok_def)
  from release_ok [OF ok platform_pos [OF pl] i whole this f]
  show "pc_ok pl mapped (release_origin pl i pc)"
    "used (release_origin pl i pc) = (used pc)(i := None)" by simp_all
qed

lemma keep_span_ok:
  assumes ok: "pc_ok pl mapped pc" and pl: "platform_ok pl mapped" and i: "used pc i = Some s"
  shows "pc_ok pl mapped (keep_span pl i pc)" and "used (keep_span pl i pc) = (used pc)(i := None)"
proof -
  have s: "spans pc i = Some s" using i by (simp add: used_Some)
  show "pc_ok pl mapped (keep_span pl i pc)" "used (keep_span pl i pc) = (used pc)(i := None)"
    using push_ok [OF ok i] release_origin_ok [OF ok pl i] s
    by (simp_all add: keep_span_def Let_def)
qed

lemma deallocate_span_ok:
  assumes ok: "pc_ok pl mapped pc" and pl: "platform_ok pl mapped" and i: "used pc i = Some s"
  shows "pc_ok pl mapped (deallocate_span pl (Some i) pc)"
    and "used (deallocate_span pl (Some i) pc) = (used pc)(i := None)"
proof -
  let ?pc1 = "update_span i reset_span pc"
  have k: "keeps_extent reset_span" by (simp add: keeps_extent_def reset_span_def)
  note u = update_ok [OF ok i k]
  have s: "span_at pc i = s" using i by (simp add: used_Some)
  have i1: "used ?pc1 i = Some (reset_span s)" by (simp add: u)
  have "pc_ok pl mapped (deallocate_span pl (Some i) pc)
      \<and> used (deallocate_span pl (Some i) pc) = (used pc)(i := None)"
  proof (cases "is_large s \<and> page_addr s = origin_addr s \<and> num_pages s = origin_pages s")
    case True
    then have "deallocate_span pl (Some i) pc = release_origin pl i ?pc1"
      by (simp add: deallocate_span_def s Let_def)
    moreover have "page_addr (reset_span s) = origin_addr (reset_span s)"
      "num_pages (reset_span s) = origin_pages (reset_span s)"
      using True by (simp_all add: reset_span_def)
    ultimately show ?thesis using release_origin_ok [OF u(1) pl i1] by (simp add: u)
  next
    case False
    obtain j pc2 where p: "merge_prev pl i (merge_next pl i ?pc1) = (j, pc2)" by fastforce
    with False have d: "deallocate_span pl (Some i) pc = keep_span pl j pc2"
      by (auto simp: deallocate_span_def s Let_def)
    note n = merge_next_ok [OF u(1) i1 platform_pos [OF pl]]
    obtain s1 where s1: "used (merge_next pl i ?pc1) = (used pc)(i \<mapsto> s1)" using n(2) by (auto simp: u)
    then have "used (merge_next pl i ?pc1) i = Some s1" by simp
    note m = merge_prev_ok [OF n(1) this platform_pos [OF pl] p]
    obtain s2 where s2: "used pc2 = (used pc)(i := None, j \<mapsto> s2)" "j = i \<or> used pc j = None"
      using m(2) by (auto simp: s1 split: if_splits)
    then have "used pc2 j = Some s2" by simp
    note q = keep_span_ok [OF m(1) pl this]
    have "(used pc)(i := None, j := None) = (used pc)(i := None)" using s2(2) by (auto simp: fun_eq_iff)
    with q show ?thesis by (simp add: d s2(1))
  qed
  then show "pc_ok pl mapped (deallocate_span pl (Some i) pc)"
    "used (deallocate_span pl (Some i) pc) = (used pc)(i := None)" by simp_all
qed

end
