(* ===== verification/Central_Cache.thy ===== *)
theory Central_Cache
  imports Page_Cache_Contract
begin

text \<open>
  The central cache of the allocator (vendor_memorypool/v3/src/CentralCache.h, CentralCache.cpp):
  per size class the list of spans that have a free block, spans cut into blocks on demand,
  batches of blocks handed to the thread caches and taken back. A chain of blocks linked through
  their first words is the list of their addresses. \<open>fetchRange\<close> and \<open>returnRange\<close> hold the lock of
  their class for the whole body, so a call is one step.
\<close>

section \<open>State\<close>

record 'o central_cache =
  page_cache_of :: "'o page_cache"
  partial_spans :: "nat \<Rightarrow> nat list"

definition central_cache_new :: "'o \<Rightarrow> 'o central_cache" where
  "central_cache_new w = \<lparr>page_cache_of = page_cache_new w, partial_spans = (\<lambda>_. [])\<rparr>"

abbreviation cc_used :: "'o central_cache \<Rightarrow> nat \<Rightarrow> span option" where
  "cc_used cc \<equiv> used (page_cache_of cc)"

section \<open>Operations\<close>

text \<open>Cutting a span into blocks: the link loop leaves a chain of all of them in order.\<close>

definition block_list :: "span \<Rightarrow> nat list" where
  "block_list s = map (\<lambda>k. page_addr s + k * block_size s) [0..<block_count s]"

definition carve_blocks :: "nat \<Rightarrow> nat \<Rightarrow> nat \<Rightarrow> span \<Rightarrow> span" where
  "carve_blocks index bytes n s =
     s\<lparr>block_size := bytes, block_count := n, free_count := n,
       free_list := map (\<lambda>k. page_addr s + k * bytes) [0..<n], size_class := index,
       is_large := False\<rparr>"

definition create_span :: "'o platform \<Rightarrow> nat \<Rightarrow> 'o page_cache \<Rightarrow> nat option \<times> 'o page_cache" where
  "create_span pl index pc =
     (let bytes = get_size index in
      case allocate_span pl (span_pages (page_size pl) bytes) pc of
        (None, pc1) \<Rightarrow> (None, pc1)
      | (Some i, pc1) \<Rightarrow>
          (let n = num_pages (span_at pc1 i) * page_size pl div bytes in
           if n = 0 then (None, deallocate_span pl (Some i) pc1)
           else (Some i, update_span i (carve_blocks index bytes n) pc1)))"

definition unlink_partial :: "nat \<Rightarrow> nat \<Rightarrow> 'o central_cache \<Rightarrow> 'o central_cache" where
  "unlink_partial index i cc =
     cc\<lparr>partial_spans := (partial_spans cc)(index := remove1 i (partial_spans cc index))\<rparr>"

text \<open>
  One round of the loop of \<open>fetchRange\<close>: the head of the partial list, or a new span; its first
  free block (a span in the list has one), and the span leaves the list with its last block.
\<close>

definition first_partial :: "'o platform \<Rightarrow> nat \<Rightarrow> 'o central_cache \<Rightarrow> nat option \<times> 'o central_cache" where
  "first_partial pl index cc =
     (case partial_spans cc index of
        i # _ \<Rightarrow> (Some i, cc)
      | [] \<Rightarrow>
          (case create_span pl index (page_cache_of cc) of
             (None, pc) \<Rightarrow> (None, cc\<lparr>page_cache_of := pc\<rparr>)
           | (Some i, pc) \<Rightarrow>
               (Some i, cc\<lparr>page_cache_of := pc,
                           partial_spans := (partial_spans cc)(index := [i])\<rparr>)))"

definition take_block :: "nat \<Rightarrow> nat \<Rightarrow> 'o central_cache \<Rightarrow> nat \<times> 'o central_cache" where
  "take_block index i cc =
     (let s = span_at (page_cache_of cc) i; obj = hd (free_list s);
          pc = update_span i (\<lambda>s. s\<lparr>free_list := tl (free_list s), free_count := free_count s - 1\<rparr>)
                 (page_cache_of cc)
      in (obj,
          cc\<lparr>page_cache_of := pc,
             partial_spans :=
               (if free_count (span_at pc i) = 0
                then (partial_spans cc)(index := tl (partial_spans cc index))
                else partial_spans cc)\<rparr>))"

fun fetch_loop :: "'o platform \<Rightarrow> nat \<Rightarrow> nat \<Rightarrow> 'o central_cache \<Rightarrow> nat list \<times> 'o central_cache" where
  "fetch_loop pl index 0 cc = ([], cc)"
| "fetch_loop pl index (Suc n) cc =
     (case first_partial pl index cc of
        (None, cc1) \<Rightarrow> ([], cc1)
      | (Some i, cc1) \<Rightarrow>
          (case take_block index i cc1 of
             (obj, cc2) \<Rightarrow>
               (case fetch_loop pl index n cc2 of (objs, cc3) \<Rightarrow> (obj # objs, cc3))))"

definition fetch_range :: "'o platform \<Rightarrow> nat \<Rightarrow> nat \<Rightarrow> 'o central_cache \<Rightarrow> nat list \<times> 'o central_cache" where
  "fetch_range pl index batch cc =
     (if index \<ge> class_count \<or> batch = 0 then ([], cc) else fetch_loop pl index batch cc)"

text \<open>
  One round of the loop of \<open>returnRange\<close>: a block of another class or of no span is skipped; a
  span whose blocks are all back goes back to the page cache.
\<close>

definition return_block :: "'o platform \<Rightarrow> nat \<Rightarrow> nat \<Rightarrow> 'o central_cache \<Rightarrow> 'o central_cache" where
  "return_block pl index x cc =
     (case find_span_locked pl x (page_cache_of cc) of
        None \<Rightarrow> cc
      | Some i \<Rightarrow>
          (let s = span_at (page_cache_of cc) i in
           if size_class s \<noteq> index then cc
           else
             (let was_empty = free_count s = 0;
                  pc = update_span i (\<lambda>s. s\<lparr>free_list := x # free_list s, free_count := free_count s + 1\<rparr>)
                         (page_cache_of cc);
                  cc1 = cc\<lparr>page_cache_of := pc\<rparr>;
                  t = span_at pc i
              in if free_count t = block_count t then
                   (let cc2 = unlink_partial index i cc1 in
                    cc2\<lparr>page_cache_of := deallocate_span pl (Some i) (page_cache_of cc2)\<rparr>)
                 else if was_empty then
                   cc1\<lparr>partial_spans := (partial_spans cc1)(index := i # partial_spans cc1 index)\<rparr>
                 else cc1)))"

fun return_loop :: "'o platform \<Rightarrow> nat \<Rightarrow> nat list \<Rightarrow> 'o central_cache \<Rightarrow> 'o central_cache" where
  "return_loop pl index [] cc = cc"
| "return_loop pl index (x # xs) cc = return_loop pl index xs (return_block pl index x cc)"

definition return_range :: "'o platform \<Rightarrow> nat list \<Rightarrow> nat \<Rightarrow> 'o central_cache \<Rightarrow> 'o central_cache" where
  "return_range pl chain index cc =
     (if chain = [] \<or> index \<ge> class_count then cc else return_loop pl index chain cc)"

section \<open>The invariant\<close>

text \<open>
  Every block of a small span has one owner: \<open>out\<close> is the set of blocks handed out, and the free
  list of a span holds exactly its other blocks. A span is in the list of its class exactly when
  it has a free block.
\<close>

definition blocks_of :: "span \<Rightarrow> nat set" where
  "blocks_of s = set (block_list s)"

definition small_ok :: "'o platform \<Rightarrow> nat set \<Rightarrow> span \<Rightarrow> bool" where
  "small_ok pl out s \<longleftrightarrow>
     size_class s < class_count \<and> block_size s = get_size (size_class s) \<and> 0 < block_count s
     \<and> block_count s * block_size s \<le> num_pages s * page_size pl
     \<and> distinct (free_list s) \<and> free_count s = length (free_list s)
     \<and> set (free_list s) = blocks_of s - out"

definition spans_ok ::
  "'o platform \<Rightarrow> (nat \<Rightarrow> span option) \<Rightarrow> (nat \<Rightarrow> nat list) \<Rightarrow> nat set \<Rightarrow> bool"
where
  "spans_ok pl u P out \<longleftrightarrow>
     (\<forall>i s. u i = Some s \<longrightarrow> \<not> is_large s \<longrightarrow> small_ok pl out s)
     \<and> (\<forall>c. distinct (P c))
     \<and> (\<forall>c i. i \<in> set (P c)
          \<longleftrightarrow> (\<exists>s. u i = Some s \<and> \<not> is_large s \<and> size_class s = c \<and> free_list s \<noteq> []))
     \<and> (\<forall>x \<in> out. \<exists>i s. u i = Some s \<and> \<not> is_large s \<and> x \<in> blocks_of s)"

definition central_ok :: "'o platform \<Rightarrow> ('o \<Rightarrow> nat set) \<Rightarrow> nat set \<Rightarrow> 'o central_cache \<Rightarrow> bool" where
  "central_ok pl mapped out cc \<longleftrightarrow>
     pc_ok pl mapped (page_cache_of cc) \<and> spans_ok pl (cc_used cc) (partial_spans cc) out"

text \<open>Blocks of different small spans do not meet, because their pages do not.\<close>

definition apart :: "(nat \<Rightarrow> span option) \<Rightarrow> bool" where
  "apart u \<longleftrightarrow>
     (\<forall>i j s t. u i = Some s \<longrightarrow> u j = Some t \<longrightarrow> \<not> is_large s \<longrightarrow> \<not> is_large t \<longrightarrow> i \<noteq> j
        \<longrightarrow> blocks_of s \<inter> blocks_of t = {})"

section \<open>Changes of one span\<close>

lemma block_size_pos: "small_ok pl out s \<Longrightarrow> 0 < block_size s"
  using size_table_bounds by (fastforce simp: small_ok_def get_size_def)

lemma distinct_block_list: "0 < block_size s \<Longrightarrow> distinct (block_list s)"
  by (simp add: block_list_def distinct_map inj_on_def)

lemma card_blocks: "0 < block_size s \<Longrightarrow> card (blocks_of s) = block_count s"
  using distinct_card [OF distinct_block_list] by (simp add: blocks_of_def) (simp add: block_list_def)

lemma blocks_of_update [simp]:
  "blocks_of (s\<lparr>free_list := l, free_count := n\<rparr>) = blocks_of s"
  "blocks_of (s\<lparr>free_list := l\<rparr>) = blocks_of s"
  "blocks_of (s\<lparr>free_count := n\<rparr>) = blocks_of s"
  by (simp_all add: blocks_of_def block_list_def)

lemma small_ok_cong: "small_ok pl out s \<Longrightarrow> blocks_of s - out' = blocks_of s - out \<Longrightarrow> small_ok pl out' s"
  by (auto simp: small_ok_def)

lemma small_ok_lists:
  assumes "small_ok pl out s" "distinct l" "n = length l" "set l = blocks_of s - out'"
  shows "small_ok pl out' (s\<lparr>free_list := l, free_count := n\<rparr>)"
  using assms unfolding small_ok_def by (elim conjE) simp

lemma spans_ok_small: "spans_ok pl u P out \<Longrightarrow> u i = Some s \<Longrightarrow> \<not> is_large s \<Longrightarrow> small_ok pl out s"
  by (simp add: spans_ok_def)

lemma spans_ok_distinct: "spans_ok pl u P out \<Longrightarrow> distinct (P c)"
  by (simp add: spans_ok_def)

lemma spans_ok_mem:
  "spans_ok pl u P out \<Longrightarrow> i \<in> set (P c)
     \<longleftrightarrow> (\<exists>s. u i = Some s \<and> \<not> is_large s \<and> size_class s = c \<and> free_list s \<noteq> [])"
  by (simp add: spans_ok_def)

lemma spans_ok_out:
  assumes "spans_ok pl u P out" and "x \<in> out"
  obtains i s where "u i = Some s" and "\<not> is_large s" and "x \<in> blocks_of s"
  using assms unfolding spans_ok_def by blast

lemma spans_okI:
  assumes "\<And>i s. u i = Some s \<Longrightarrow> \<not> is_large s \<Longrightarrow> small_ok pl out s"
    and "\<And>c. distinct (P c)"
    and "\<And>c i. i \<in> set (P c)
          \<longleftrightarrow> (\<exists>s. u i = Some s \<and> \<not> is_large s \<and> size_class s = c \<and> free_list s \<noteq> [])"
    and "\<And>x. x \<in> out \<Longrightarrow> \<exists>i s. u i = Some s \<and> \<not> is_large s \<and> x \<in> blocks_of s"
  shows "spans_ok pl u P out"
  using assms unfolding spans_ok_def by blast

lemma spans_ok_add:
  assumes ok: "spans_ok pl u P out" and i: "u i = None"
    and s: "\<not> is_large s" "small_ok pl out s" "size_class s = c" "free_list s \<noteq> []"
    and P: "P c = []"
  shows "spans_ok pl (u(i \<mapsto> s)) (P(c := [i])) out"
proof (rule spans_okI)
  show "small_ok pl out t" if "(u(i \<mapsto> s)) j = Some t" "\<not> is_large t" for j t
    using that s(2) spans_ok_small [OF ok] by (cases "j = i") auto
  show "distinct ((P(c := [i])) d)" for d using spans_ok_distinct [OF ok] by simp
  show "j \<in> set ((P(c := [i])) d) \<longleftrightarrow>
      (\<exists>t. (u(i \<mapsto> s)) j = Some t \<and> \<not> is_large t \<and> size_class t = d \<and> free_list t \<noteq> [])" for j d
    using s spans_ok_mem [OF ok, of j d] P i by (cases "j = i"; cases "d = c") auto
  show "\<exists>j t. (u(i \<mapsto> s)) j = Some t \<and> \<not> is_large t \<and> x \<in> blocks_of t" if x: "x \<in> out" for x
  proof -
    obtain j t where "u j = Some t" "\<not> is_large t" "x \<in> blocks_of t"
      using spans_ok_out [OF ok x] .
    with i show ?thesis by (intro exI [of _ j] exI [of _ t]) auto
  qed
qed

lemma spans_ok_take:
  assumes ok: "spans_ok pl u P out" and ap: "apart u"
    and s: "u i = Some s" "\<not> is_large s" "size_class s = c" "free_list s = x # l"
    and P: "P c = i # r"
  shows "spans_ok pl (u(i \<mapsto> s\<lparr>free_list := l, free_count := free_count s - 1\<rparr>))
      (if free_count s - 1 = 0 then P(c := r) else P) (insert x out)"
    and "x \<in> blocks_of s" and "x \<notin> out"
proof -
  let ?s = "s\<lparr>free_list := l, free_count := free_count s - 1\<rparr>"
  let ?P = "if free_count s - 1 = 0 then P(c := r) else P"
  have sm: "small_ok pl out s" using ok s by (simp add: spans_ok_def)
  then have fl: "set (x # l) = blocks_of s - out" "distinct (x # l)" "free_count s = Suc (length l)"
    using s(4) by (auto simp: small_ok_def)
  then show x: "x \<in> blocks_of s" "x \<notin> out" by auto
  have "set l = blocks_of s - insert x out" using fl by auto
  then have sm': "small_ok pl (insert x out) ?s"
    using fl by (intro small_ok_lists [OF sm]) simp_all
  have other: "small_ok pl (insert x out) t" if "u j = Some t" "\<not> is_large t" "j \<noteq> i" for j t
  proof -
    have "x \<notin> blocks_of t" using ap that s x(1) unfolding apart_def by blast
    then have "blocks_of t - insert x out = blocks_of t - out" by blast
    with spans_ok_small [OF ok that(1,2)] show ?thesis by (rule small_ok_cong)
  qed
  have len: "free_count s - 1 = 0 \<longleftrightarrow> l = []" using fl by simp
  have r: "i \<notin> set r" "distinct r" using spans_ok_distinct [OF ok, of c] P by simp_all
  show "spans_ok pl (u(i \<mapsto> ?s)) ?P (insert x out)"
  proof (rule spans_okI)
    show "small_ok pl (insert x out) t" if "(u(i \<mapsto> ?s)) j = Some t" "\<not> is_large t" for j t
      using that sm' other by (cases "j = i") auto
    show "distinct (?P d)" for d using spans_ok_distinct [OF ok, of d] r by auto
    show "j \<in> set (?P d) \<longleftrightarrow>
        (\<exists>t. (u(i \<mapsto> ?s)) j = Some t \<and> \<not> is_large t \<and> size_class t = d \<and> free_list t \<noteq> [])" for j d
    proof (cases "j = i")
      case True
      have "i \<in> set (P d) \<longleftrightarrow> d = c" using s spans_ok_mem [OF ok, of i d] by auto
      with len P r have "i \<in> set (?P d) \<longleftrightarrow> d = c \<and> l \<noteq> []" by auto
      with True s show ?thesis by auto
    next
      case False
      then have "j \<in> set (?P d) \<longleftrightarrow> j \<in> set (P d)" using P by auto
      with False spans_ok_mem [OF ok, of j d] show ?thesis by simp
    qed
    show "\<exists>j t. (u(i \<mapsto> ?s)) j = Some t \<and> \<not> is_large t \<and> y \<in> blocks_of t" if y: "y \<in> insert x out" for y
    proof (cases "y = x")
      case True
      with s x show ?thesis by (intro exI [of _ i] exI [of _ ?s]) simp
    next
      case False
      with y have "y \<in> out" by simp
      then obtain j t where "u j = Some t" "\<not> is_large t" "y \<in> blocks_of t"
        using spans_ok_out [OF ok] by metis
      then show ?thesis using s by (cases "j = i") auto
    qed
  qed
qed

lemma spans_ok_put:
  assumes ok: "spans_ok pl u P out" and ap: "apart u"
    and s: "u i = Some s" "\<not> is_large s" "size_class s = c" and x: "x \<in> out" "x \<in> blocks_of s"
  shows "spans_ok pl (u(i \<mapsto> s\<lparr>free_list := x # free_list s, free_count := free_count s + 1\<rparr>))
      (if free_count s = 0 then P(c := i # P c) else P) (out - {x})"
proof -
  let ?s = "s\<lparr>free_list := x # free_list s, free_count := free_count s + 1\<rparr>"
  let ?P = "if free_count s = 0 then P(c := i # P c) else P"
  have sm: "small_ok pl out s" by (rule spans_ok_small [OF ok s(1,2)])
  then have fl: "set (free_list s) = blocks_of s - out" "distinct (free_list s)"
    "free_count s = length (free_list s)" by (simp_all add: small_ok_def)
  then have sm': "small_ok pl (out - {x}) ?s"
    using x by (intro small_ok_lists [OF sm]) auto
  have other: "small_ok pl (out - {x}) t" if "u j = Some t" "\<not> is_large t" "j \<noteq> i" for j t
  proof -
    have "x \<notin> blocks_of t" using ap that s x(2) unfolding apart_def by blast
    then have "blocks_of t - (out - {x}) = blocks_of t - out" by blast
    with spans_ok_small [OF ok that(1,2)] show ?thesis by (rule small_ok_cong)
  qed
  have mem: "i \<in> set (P d) \<longleftrightarrow> d = c \<and> free_count s \<noteq> 0" for d
    using s fl(3) spans_ok_mem [OF ok, of i d] by auto
  show ?thesis
  proof (rule spans_okI)
    show "small_ok pl (out - {x}) t" if "(u(i \<mapsto> ?s)) j = Some t" "\<not> is_large t" for j t
      using that sm' other by (cases "j = i") auto
    show "distinct (?P d)" for d using spans_ok_distinct [OF ok] mem by simp
    show "j \<in> set (?P d) \<longleftrightarrow>
        (\<exists>t. (u(i \<mapsto> ?s)) j = Some t \<and> \<not> is_large t \<and> size_class t = d \<and> free_list t \<noteq> [])" for j d
    proof (cases "j = i")
      case True
      have "i \<in> set (?P d) \<longleftrightarrow> d = c" using mem by auto
      with True s show ?thesis by auto
    next
      case False
      then have "j \<in> set (?P d) \<longleftrightarrow> j \<in> set (P d)" by auto
      with False spans_ok_mem [OF ok, of j d] show ?thesis by simp
    qed
    show "\<exists>j t. (u(i \<mapsto> ?s)) j = Some t \<and> \<not> is_large t \<and> y \<in> blocks_of t" if y: "y \<in> out - {x}" for y
    proof -
      from y have "y \<in> out" by simp
      then obtain j t where "u j = Some t" "\<not> is_large t" "y \<in> blocks_of t"
        using spans_ok_out [OF ok] by metis
      then show ?thesis using s by (cases "j = i") auto
    qed
  qed
qed

lemma spans_ok_remove:
  assumes ok: "spans_ok pl u P out" and ap: "apart u"
    and s: "u i = Some s" "\<not> is_large s" "size_class s = c" and x: "x \<in> out" "x \<in> blocks_of s"
    and full: "free_count s + 1 = block_count s"
  shows "spans_ok pl (u(i := None)) (P(c := remove1 i (P c))) (out - {x})"
    and "blocks_of s \<inter> (out - {x}) = {}"
proof -
  have sm: "small_ok pl out s" by (rule spans_ok_small [OF ok s(1,2)])
  then have fl: "set (free_list s) = blocks_of s - out" "distinct (free_list s)"
    "free_count s = length (free_list s)" by (simp_all add: small_ok_def)
  have "distinct (x # free_list s)" using fl x by auto
  then have "card (set (x # free_list s)) = length (x # free_list s)" by (rule distinct_card)
  then have "card (set (x # free_list s)) = card (blocks_of s)"
    using fl(3) full card_blocks [OF block_size_pos [OF sm]] by simp
  moreover have "set (x # free_list s) \<subseteq> blocks_of s" using fl x by auto
  moreover have "finite (blocks_of s)" by (simp add: blocks_of_def)
  ultimately have all: "blocks_of s = insert x (set (free_list s))"
    by (metis card_subset_eq list.simps(15))
  then show none: "blocks_of s \<inter> (out - {x}) = {}" using fl by auto
  have other: "small_ok pl (out - {x}) t" if "u j = Some t" "\<not> is_large t" "j \<noteq> i" for j t
  proof -
    have "x \<notin> blocks_of t" using ap that s x(2) unfolding apart_def by blast
    then have "blocks_of t - (out - {x}) = blocks_of t - out" by blast
    with spans_ok_small [OF ok that(1,2)] show ?thesis by (rule small_ok_cong)
  qed
  have mem: "i \<in> set (P d) \<Longrightarrow> d = c" for d
    using s spans_ok_mem [OF ok, of i d] by auto
  show "spans_ok pl (u(i := None)) (P(c := remove1 i (P c))) (out - {x})"
  proof (rule spans_okI)
    show "small_ok pl (out - {x}) t" if "(u(i := None)) j = Some t" "\<not> is_large t" for j t
      using that other by (cases "j = i") auto
    show "distinct ((P(c := remove1 i (P c))) d)" for d
      using spans_ok_distinct [OF ok] by (simp add: distinct_remove1)
    show "j \<in> set ((P(c := remove1 i (P c))) d) \<longleftrightarrow>
        (\<exists>t. (u(i := None)) j = Some t \<and> \<not> is_large t \<and> size_class t = d \<and> free_list t \<noteq> [])" for j d
    proof (cases "j = i")
      case True
      then show ?thesis using mem [of d] spans_ok_distinct [OF ok, of c] by auto
    next
      case False
      then have "j \<in> set ((P(c := remove1 i (P c))) d) \<longleftrightarrow> j \<in> set (P d)" by auto
      with False spans_ok_mem [OF ok, of j d] show ?thesis by simp
    qed
    show "\<exists>j t. (u(i := None)) j = Some t \<and> \<not> is_large t \<and> y \<in> blocks_of t" if y: "y \<in> out - {x}" for y
    proof -
      from y have "y \<in> out" by simp
      then obtain j t where t: "u j = Some t" "\<not> is_large t" "y \<in> blocks_of t"
        using spans_ok_out [OF ok] by metis
      with none y s have "j \<noteq> i" by auto
      with t show ?thesis by auto
    qed
  qed
qed

section \<open>Blocks and pages\<close>

lemma block_pages:
  assumes "small_ok pl out s" "shape_ok pl A s" "0 < page_size pl" "x \<in> blocks_of s"
  shows "x div page_size pl \<in> pages_of pl s"
    and "page_addr s \<le> x" and "x + block_size s \<le> page_addr s + num_pages s * page_size pl"
proof -
  have "\<exists>k < block_count s. x = page_addr s + k * block_size s"
    using assms(4) by (auto simp: blocks_of_def block_list_def)
  then obtain k where k: "x = page_addr s + k * block_size s" "k < block_count s" by blast
  then have "Suc k * block_size s \<le> block_count s * block_size s" by (intro mult_le_mono1) simp
  also have "\<dots> \<le> num_pages s * page_size pl" using assms(1) unfolding small_ok_def by (elim conjE)
  finally have le: "k * block_size s + block_size s \<le> num_pages s * page_size pl" by simp
  show "page_addr s \<le> x" using k by simp
  show hi: "x + block_size s \<le> page_addr s + num_pages s * page_size pl" using k le by simp
  have lo: "page_addr s div page_size pl \<le> x div page_size pl" using k by (intro div_le_mono) simp
  have "x < page_addr s + num_pages s * page_size pl"
    using hi block_size_pos [OF assms(1)] by linarith
  also have "\<dots> = (page_addr s div page_size pl + num_pages s) * page_size pl"
    using shape_page_div(1) [OF assms(2,3)] by (simp add: distrib_right)
  finally have "x div page_size pl < page_addr s div page_size pl + num_pages s"
    by (rule less_mult_imp_div_less)
  with lo show "x div page_size pl \<in> pages_of pl s" by (simp add: pages_of_def)
qed

lemma used_shape:
  "pc_ok pl mapped pc \<Longrightarrow> used pc i = Some s \<Longrightarrow> shape_ok pl (set (system_allocs pc)) s"
  unfolding pc_ok_def shapes_ok_def used_Some by blast

lemma span_at_used: "used pc i = Some s \<Longrightarrow> span_at pc i = s"
  by (simp add: used_Some)

lemma find_used:
  assumes "pc_ok pl mapped pc" "used pc i = Some s" "x div page_size pl \<in> pages_of pl s"
  shows "find_span_locked pl x pc = Some i"
  using assms by (auto simp: find_span_locked_def page_id_def pc_ok_def map_ok_def used_Some)

lemma used_pages_disjoint:
  assumes "pc_ok pl mapped pc" "used pc i = Some s" "used pc j = Some t" "i \<noteq> j"
  shows "pages_of pl s \<inter> pages_of pl t = {}"
  using pc_ok_disjoint [OF assms(1) _ _ assms(4)] assms(2,3) by (simp add: used_Some)

lemma central_apart:
  assumes "pc_ok pl mapped pc" "0 < page_size pl"
    and "\<And>i s. used pc i = Some s \<Longrightarrow> \<not> is_large s \<Longrightarrow> \<exists>out. small_ok pl out s"
  shows "apart (used pc)"
  unfolding apart_def
proof (intro allI impI)
  fix i j s t
  assume h: "used pc i = Some s" "used pc j = Some t" "\<not> is_large s" "\<not> is_large t" "i \<noteq> j"
  obtain o1 o2 where sm: "small_ok pl o1 s" "small_ok pl o2 t" using assms(3) h by meson
  note sh = used_shape [OF assms(1) h(1)] used_shape [OF assms(1) h(2)]
  show "blocks_of s \<inter> blocks_of t = {}"
    using block_pages(1) [OF sm(1) sh(1) assms(2)] block_pages(1) [OF sm(2) sh(2) assms(2)]
      used_pages_disjoint [OF assms(1) h(1,2,5)] by blast
qed

lemma central_ok_apart:
  assumes "central_ok pl mapped out cc" "0 < page_size pl"
  shows "apart (cc_used cc)"
  using assms spans_ok_small unfolding central_ok_def by (blast intro: central_apart)

section \<open>What a call leaves alone\<close>

text \<open>
  \<open>frame\<close>: large spans stay exactly as they are, and a small span that holds a block still handed
  out keeps its place, class and blocks.
\<close>

definition same_kind :: "span \<Rightarrow> span \<Rightarrow> bool" where
  "same_kind s t \<longleftrightarrow>
     page_addr t = page_addr s \<and> num_pages t = num_pages s \<and> is_large t = is_large s
     \<and> size_class t = size_class s \<and> block_size t = block_size s \<and> block_count t = block_count s"

definition frame :: "nat set \<Rightarrow> (nat \<Rightarrow> span option) \<Rightarrow> (nat \<Rightarrow> span option) \<Rightarrow> bool" where
  "frame keep u v \<longleftrightarrow>
     (\<forall>i s. is_large s \<longrightarrow> (v i = Some s \<longleftrightarrow> u i = Some s))
     \<and> (\<forall>i s. u i = Some s \<longrightarrow> \<not> is_large s \<longrightarrow> blocks_of s \<inter> keep \<noteq> {}
          \<longrightarrow> (\<exists>t. v i = Some t \<and> same_kind s t))"

lemma same_kind_refl [simp]: "same_kind s s"
  by (simp add: same_kind_def)

lemma same_kind_lists [simp]: "same_kind s (s\<lparr>free_list := l, free_count := n\<rparr>)"
  by (simp add: same_kind_def)

lemma same_kind_blocks: "same_kind s t \<Longrightarrow> blocks_of t = blocks_of s"
  by (simp add: same_kind_def blocks_of_def block_list_def)

lemma same_kind_trans: "same_kind s t \<Longrightarrow> same_kind t r \<Longrightarrow> same_kind s r"
  by (simp add: same_kind_def)

lemma frame_refl [simp]: "frame keep u u"
  unfolding frame_def using same_kind_refl by blast

lemma frame_trans:
  assumes "frame K u v" "frame L v w" "L \<subseteq> K"
  shows "frame L u w"
  unfolding frame_def
proof (intro conjI allI impI)
  show "w i = Some s \<longleftrightarrow> u i = Some s" if "is_large s" for i s
    using assms(1,2) that unfolding frame_def by blast
  show "\<exists>t. w i = Some t \<and> same_kind s t"
    if h: "u i = Some s" "\<not> is_large s" "blocks_of s \<inter> L \<noteq> {}" for i s
  proof -
    have "blocks_of s \<inter> K \<noteq> {}" using h(3) assms(3) by blast
    then obtain t where t: "v i = Some t" "same_kind s t" using assms(1) h unfolding frame_def by blast
    then have "\<not> is_large t" "blocks_of t \<inter> L \<noteq> {}"
      using h same_kind_blocks [OF t(2)] by (simp_all add: same_kind_def)
    with t(1) assms(2) obtain r where "w i = Some r" "same_kind t r" unfolding frame_def by blast
    with t(2) same_kind_trans show ?thesis by blast
  qed
qed

lemma frame_mono: "frame K u v \<Longrightarrow> L \<subseteq> K \<Longrightarrow> frame L u v"
  unfolding frame_def by blast

lemma frame_change:
  assumes "u i = Some s" "\<not> is_large s" "same_kind s t"
  shows "frame K u (u(i \<mapsto> t))"
  unfolding frame_def
proof (intro conjI allI impI)
  have "\<not> is_large t" using assms(2,3) by (simp add: same_kind_def)
  then show "(u(i \<mapsto> t)) j = Some r \<longleftrightarrow> u j = Some r" if "is_large r" for j r
    using that assms(1,2) by (cases "j = i") auto
  show "\<exists>q. (u(i \<mapsto> t)) j = Some q \<and> same_kind r q" if "u j = Some r" for j r
    using that assms(1,3) by (cases "j = i") auto
qed

lemma frame_add:
  assumes "u i = None" "\<not> is_large t"
  shows "frame K u (u(i \<mapsto> t))"
  unfolding frame_def using assms by auto

lemma frame_remove:
  assumes "u i = Some s" "\<not> is_large s" "blocks_of s \<inter> K = {}"
  shows "frame K u (u(i := None))"
  unfolding frame_def using assms by auto

section \<open>The contract\<close>

lemma keeps_extent_simps [simp]:
  "keeps_extent (\<lambda>s. s\<lparr>free_list := f s, free_count := g s\<rparr>)"
  "keeps_extent (carve_blocks index bytes n)"
  by (simp_all add: keeps_extent_def carve_blocks_def)

lemma create_span_ok:
  assumes ok: "central_ok pl mapped out cc" and pl: "platform_ok pl mapped" and c: "index < class_count"
    and eq: "create_span pl index (page_cache_of cc) = (r, pc)"
  shows "pc_ok pl mapped pc"
    and "case r of None \<Rightarrow> used pc = cc_used cc
      | Some i \<Rightarrow> cc_used cc i = None
          \<and> (\<exists>s. used pc = (cc_used cc)(i \<mapsto> s) \<and> \<not> is_large s \<and> size_class s = index
                \<and> small_ok pl out s \<and> free_list s \<noteq> [])"
proof -
  let ?pc = "page_cache_of cc" and ?bytes = "get_size index"
  have pc: "pc_ok pl mapped ?pc" and sp: "spans_ok pl (used ?pc) (partial_spans cc) out"
    using ok by (simp_all add: central_ok_def)
  have pos: "0 < ?bytes" using c size_table_bounds [of index] by (simp add: get_size_def)
  have "pc_ok pl mapped pc \<and> (case r of None \<Rightarrow> used pc = used ?pc
      | Some i \<Rightarrow> used ?pc i = None
          \<and> (\<exists>s. used pc = (used ?pc)(i \<mapsto> s) \<and> \<not> is_large s \<and> size_class s = index
                \<and> small_ok pl out s \<and> free_list s \<noteq> []))"
  proof (cases "allocate_span pl (span_pages (page_size pl) ?bytes) ?pc")
    case (Pair q pc1)
    note a = allocate_span_ok [OF pc pl Pair]
    show ?thesis
    proof (cases q)
      case None
      with Pair eq a show ?thesis by (simp add: create_span_def Let_def)
    next
      case (Some i)
      with a(2) obtain s where s: "used ?pc i = None" "used pc1 = (used ?pc)(i \<mapsto> s)" by auto
      then have at: "used pc1 i = Some s" by simp
      note at = at span_at_used [OF at]
      let ?n = "num_pages s * page_size pl div ?bytes" and ?s = "carve_blocks index ?bytes
        (num_pages s * page_size pl div ?bytes) s"
      show ?thesis
      proof (cases "?n = 0")
        case True
        then have "r = None" "pc = deallocate_span pl (Some i) pc1"
          using Pair eq Some at by (simp_all add: create_span_def Let_def)
        with deallocate_span_ok [OF a(1) pl at(1)] s show ?thesis by (simp add: fun_upd_idem)
      next
        case False
        then have r: "r = Some i" "pc = update_span i (carve_blocks index ?bytes ?n) pc1"
          using Pair eq Some at by (simp_all add: create_span_def Let_def)
        note u = update_ok [OF a(1) at(1) keeps_extent_simps(2) [of index ?bytes ?n]]
        have blocks: "blocks_of ?s = set (free_list ?s)"
          by (simp add: blocks_of_def block_list_def carve_blocks_def)
        have used': "used pc i = Some ?s" by (simp add: r(2) u)
        have dist: "distinct (free_list ?s)"
          using distinct_block_list [of ?s] pos by (simp add: block_list_def carve_blocks_def)
        have sm0: "small_ok pl {} ?s"
          using c False dist unfolding small_ok_def blocks
          by (simp add: carve_blocks_def div_times_less_eq_dividend)
        have "blocks_of ?s \<inter> out = {}"
        proof (rule ccontr)
          assume "blocks_of ?s \<inter> out \<noteq> {}"
          then obtain x where x: "x \<in> blocks_of ?s" "x \<in> out" by blast
          obtain j t where t: "used ?pc j = Some t" "\<not> is_large t" "x \<in> blocks_of t"
            using spans_ok_out [OF sp x(2)] .
          with s have ji: "j \<noteq> i" by auto
          then have "used pc j = Some t" using t by (simp add: r(2) u s(2))
          note d = used_pages_disjoint [OF u(1) [folded r(2)] this used' ji]
          have "x div page_size pl \<in> pages_of pl ?s"
            using block_pages(1) [OF sm0 used_shape [OF u(1) [folded r(2)] used'] platform_pos [OF pl] x(1)] .
          moreover have "x div page_size pl \<in> pages_of pl t"
            using block_pages(1) [OF spans_ok_small [OF sp t(1,2)] used_shape [OF pc t(1)] platform_pos [OF pl] t(3)] .
          ultimately show False using d by blast
        qed
        then have "small_ok pl out ?s" by (intro small_ok_cong [OF sm0]) blast
        moreover have "\<not> is_large ?s" "size_class ?s = index" "free_list ?s \<noteq> []"
          using False by (simp_all add: carve_blocks_def)
        ultimately show ?thesis using s u r by (auto simp: s(2))
      qed
    qed
  qed
  then show "pc_ok pl mapped pc" "case r of None \<Rightarrow> used pc = cc_used cc
      | Some i \<Rightarrow> cc_used cc i = None
          \<and> (\<exists>s. used pc = (cc_used cc)(i \<mapsto> s) \<and> \<not> is_large s \<and> size_class s = index
                \<and> small_ok pl out s \<and> free_list s \<noteq> [])" by simp_all
qed

lemma first_partial_ok:
  assumes ok: "central_ok pl mapped out cc" and pl: "platform_ok pl mapped" and c: "index < class_count"
    and eq: "first_partial pl index cc = (r, cc')"
  shows "central_ok pl mapped out cc'" and "frame out (cc_used cc) (cc_used cc')"
    and "r = Some i \<Longrightarrow> \<exists>rest. partial_spans cc' index = i # rest"
proof -
  have sp: "spans_ok pl (cc_used cc) (partial_spans cc) out" using ok by (simp add: central_ok_def)
  have "central_ok pl mapped out cc' \<and> frame out (cc_used cc) (cc_used cc')
    \<and> (\<forall>i. r = Some i \<longrightarrow> (\<exists>rest. partial_spans cc' index = i # rest))"
  proof (cases "partial_spans cc index")
    case (Cons j rest)
    then have "r = Some j" "cc' = cc" using eq by (simp_all add: first_partial_def)
    with ok Cons show ?thesis by simp
  next
    case Nil
    show ?thesis
    proof (cases "create_span pl index (page_cache_of cc)")
      case (Pair q pc)
      note n = create_span_ok [OF ok pl c Pair]
      show ?thesis
      proof (cases q)
        case None
        then have "r = None" "cc' = cc\<lparr>page_cache_of := pc\<rparr>"
          using Nil Pair eq by (simp_all add: first_partial_def)
        with None n sp show ?thesis by (simp add: central_ok_def)
      next
        case (Some j)
        with n(2) obtain s where s: "cc_used cc j = None" "used pc = (cc_used cc)(j \<mapsto> s)"
          "\<not> is_large s" "size_class s = index" "small_ok pl out s" "free_list s \<noteq> []" by auto
        have e: "r = Some j" "cc' = cc\<lparr>page_cache_of := pc,
            partial_spans := (partial_spans cc)(index := [j])\<rparr>"
          using Nil Pair eq Some by (simp_all add: first_partial_def)
        have "central_ok pl mapped out cc'"
          using n(1) spans_ok_add [OF sp s(1,3,5,4,6) Nil] by (simp add: central_ok_def e s(2))
        with frame_add [where u = "cc_used cc", OF s(1,3)] show ?thesis by (simp add: e s(2))
      qed
    qed
  qed
  then show "central_ok pl mapped out cc'" "frame out (cc_used cc) (cc_used cc')"
    "r = Some i \<Longrightarrow> \<exists>rest. partial_spans cc' index = i # rest" by auto
qed

lemma take_block_ok:
  assumes ok: "central_ok pl mapped out cc" and ps: "0 < page_size pl"
    and i: "partial_spans cc index = i # rest" and eq: "take_block index i cc = (x, cc')"
  shows "central_ok pl mapped (insert x out) cc'" and "frame out (cc_used cc) (cc_used cc')"
    and "x \<notin> out" and "\<exists>s. cc_used cc' i = Some s \<and> \<not> is_large s \<and> size_class s = index \<and> x \<in> blocks_of s"
proof -
  have pc: "pc_ok pl mapped (page_cache_of cc)"
    and sp: "spans_ok pl (cc_used cc) (partial_spans cc) out" using ok by (simp_all add: central_ok_def)
  obtain s where s: "cc_used cc i = Some s" "\<not> is_large s" "size_class s = index" "free_list s \<noteq> []"
    using spans_ok_mem [OF sp, of i index] i by auto
  then obtain y l where yl: "free_list s = y # l" by (cases "free_list s") auto
  let ?f = "\<lambda>s. s\<lparr>free_list := tl (free_list s), free_count := free_count s - 1\<rparr>"
  let ?s = "s\<lparr>free_list := l, free_count := free_count s - 1\<rparr>"
  have f: "?f s = ?s" by (simp add: yl)
  have k: "keeps_extent ?f" by (rule keeps_extent_simps)
  note u = update_ok [OF pc s(1) k]
  have at: "span_at (page_cache_of cc) i = s" using s(1) by (simp add: used_Some)
  define pc' where "pc' = update_span i ?f (page_cache_of cc)"
  have used': "used pc' = (cc_used cc)(i \<mapsto> ?s)" unfolding pc'_def u(2) f by (rule refl)
  then have at': "span_at pc' i = ?s"
    by (intro span_at_used) simp
  have e: "x = y" "cc' = cc\<lparr>page_cache_of := pc',
      partial_spans := (if free_count s - 1 = 0 then (partial_spans cc)(index := rest) else partial_spans cc)\<rparr>"
    using eq by (auto simp: take_block_def at at' yl Let_def i simp del: One_nat_def simp flip: pc'_def)
  note t = spans_ok_take [OF sp central_ok_apart [OF ok ps] s(1-3) yl i]
  show "central_ok pl mapped (insert x out) cc'"
    using u(1) [folded pc'_def] t(1) by (simp add: central_ok_def e used' del: One_nat_def)
  show "frame out (cc_used cc) (cc_used cc')"
    using frame_change [where u = "cc_used cc", OF s(1,2) same_kind_lists] by (simp add: e used' del: One_nat_def)
  show "x \<notin> out" using t(3) by (simp add: e)
  show "\<exists>s. cc_used cc' i = Some s \<and> \<not> is_large s \<and> size_class s = index \<and> x \<in> blocks_of s"
    using t(2) s by (simp add: e used')
qed

text \<open>Where a block handed out lives.\<close>

definition in_class :: "(nat \<Rightarrow> span option) \<Rightarrow> nat \<Rightarrow> nat \<Rightarrow> bool" where
  "in_class u index x \<longleftrightarrow>
     (\<exists>i s. u i = Some s \<and> \<not> is_large s \<and> size_class s = index \<and> x \<in> blocks_of s)"

lemma in_class_frame:
  assumes "frame K u v" "in_class u index x" "x \<in> K"
  shows "in_class v index x"
proof -
  obtain i s where s: "u i = Some s" "\<not> is_large s" "size_class s = index" "x \<in> blocks_of s"
    using assms(2) unfolding in_class_def by blast
  with assms(1,3) obtain t where t: "v i = Some t" "same_kind s t" unfolding frame_def by blast
  with s same_kind_blocks [OF t(2)] show ?thesis unfolding in_class_def by (auto simp: same_kind_def)
qed

lemma fetch_loop_ok:
  assumes pl: "platform_ok pl mapped" and c: "index < class_count"
    and "central_ok pl mapped out cc" and "fetch_loop pl index n cc = (xs, cc')"
  shows "central_ok pl mapped (out \<union> set xs) cc' \<and> frame out (cc_used cc) (cc_used cc')
    \<and> distinct xs \<and> set xs \<inter> out = {} \<and> length xs \<le> n
    \<and> (\<forall>x \<in> set xs. in_class (cc_used cc') index x)"
  using assms(3,4)
proof (induction n arbitrary: out cc xs cc')
  case 0
  then show ?case by simp
next
  case (Suc n)
  obtain r cc1 where f: "first_partial pl index cc = (r, cc1)" by fastforce
  note fp = first_partial_ok [OF Suc.prems(1) pl c f]
  show ?case
  proof (cases r)
    case None
    with Suc.prems f fp show ?thesis by simp
  next
    case (Some i)
    obtain x cc2 where t: "take_block index i cc1 = (x, cc2)" by fastforce
    obtain ys cc3 where l: "fetch_loop pl index n cc2 = (ys, cc3)" by fastforce
    have e: "xs = x # ys" "cc' = cc3" using Suc.prems(2) f Some t l by simp_all
    obtain rest where "partial_spans cc1 index = i # rest" using fp(3) Some by blast
    note tb = take_block_ok [OF fp(1) platform_pos [OF pl] this t]
    note ih = Suc.IH [OF tb(1) l]
    have "in_class (cc_used cc2) index x" using tb(4) unfolding in_class_def by blast
    moreover have "frame (insert x out) (cc_used cc2) (cc_used cc3)" using ih by blast
    ultimately have "in_class (cc_used cc3) index x" using in_class_frame by blast
    moreover have "frame out (cc_used cc2) (cc_used cc3)" using ih frame_mono by blast
    then have "frame out (cc_used cc) (cc_used cc3)"
      using frame_trans [OF frame_trans [OF fp(2) tb(2) subset_refl] _ subset_refl] by blast
    ultimately show ?thesis using ih tb(3) unfolding e by auto
  qed
qed

lemma fetch_range_ok:
  assumes "platform_ok pl mapped" and "central_ok pl mapped out cc"
    and "fetch_range pl index n cc = (xs, cc')"
  shows "central_ok pl mapped (out \<union> set xs) cc' \<and> frame out (cc_used cc) (cc_used cc')
    \<and> distinct xs \<and> set xs \<inter> out = {} \<and> length xs \<le> n
    \<and> (\<forall>x \<in> set xs. in_class (cc_used cc') index x)"
proof (cases "index \<ge> class_count \<or> n = 0")
  case True
  then have "xs = []" "cc' = cc" using assms(3) by (auto simp: fetch_range_def)
  with assms(2) show ?thesis by simp
next
  case False
  then have "index < class_count" "fetch_loop pl index n cc = (xs, cc')"
    using assms(3) by (simp_all add: fetch_range_def)
  from fetch_loop_ok [OF assms(1) this(1) assms(2) this(2)] show ?thesis .
qed

lemma return_block_ok:
  assumes ok: "central_ok pl mapped out cc" and pl: "platform_ok pl mapped"
    and x: "x \<in> out" and c: "in_class (cc_used cc) index x"
  shows "central_ok pl mapped (out - {x}) (return_block pl index x cc)"
    and "frame (out - {x}) (cc_used cc) (cc_used (return_block pl index x cc))"
proof -
  let ?pc = "page_cache_of cc"
  have pc: "pc_ok pl mapped ?pc"
    and sp: "spans_ok pl (cc_used cc) (partial_spans cc) out" using ok by (simp_all add: central_ok_def)
  obtain i s where s: "cc_used cc i = Some s" "\<not> is_large s" "size_class s = index" "x \<in> blocks_of s"
    using c unfolding in_class_def by blast
  have sm: "small_ok pl out s" by (rule spans_ok_small [OF sp s(1,2)])
  have find: "find_span_locked pl x ?pc = Some i"
    using block_pages(1) [OF sm used_shape [OF pc s(1)] platform_pos [OF pl] s(4)]
    by (rule find_used [OF pc s(1)])
  let ?f = "\<lambda>s. s\<lparr>free_list := x # free_list s, free_count := free_count s + 1\<rparr>"
  let ?s = "s\<lparr>free_list := x # free_list s, free_count := free_count s + 1\<rparr>"
  have k: "keeps_extent ?f" by (rule keeps_extent_simps)
  define pc' where "pc' = update_span i ?f ?pc"
  have u: "pc_ok pl mapped pc'" "used pc' = (cc_used cc)(i \<mapsto> ?s)"
    unfolding pc'_def by (rule update_ok [OF pc s(1) k])+
  then have at': "used pc' i = Some ?s" by simp
  note at = span_at_used [OF s(1)] span_at_used [OF at']
  have r: "return_block pl index x cc =
      (if free_count s + 1 = block_count s
       then cc\<lparr>page_cache_of := deallocate_span pl (Some i) pc',
               partial_spans := (partial_spans cc)(index := remove1 i (partial_spans cc index))\<rparr>
       else cc\<lparr>page_cache_of := pc',
               partial_spans := (if free_count s = 0
                 then (partial_spans cc)(index := i # partial_spans cc index) else partial_spans cc)\<rparr>)"
    unfolding return_block_def find option.case Let_def pc'_def [symmetric] at
    using s(3) by (simp add: unlink_partial_def)
  note ap = central_ok_apart [OF ok platform_pos [OF pl]]
  have "central_ok pl mapped (out - {x}) (return_block pl index x cc)
      \<and> frame (out - {x}) (cc_used cc) (cc_used (return_block pl index x cc))"
  proof (cases "free_count s + 1 = block_count s")
    case True
    note q = spans_ok_remove [OF sp ap s(1-3) x s(4) True]
    note d = deallocate_span_ok [OF u(1) pl at']
    have "used (deallocate_span pl (Some i) pc') = (cc_used cc)(i := None)" by (simp add: d u(2))
    with True d(1) q(1) frame_remove [where u = "cc_used cc", OF s(1,2) q(2)] show ?thesis
      by (simp add: r central_ok_def)
  next
    case False
    with u spans_ok_put [OF sp ap s(1-3) x s(4)]
      frame_change [where u = "cc_used cc", OF s(1,2) same_kind_lists] show ?thesis
      by (simp add: r central_ok_def del: One_nat_def)
  qed
  then show "central_ok pl mapped (out - {x}) (return_block pl index x cc)"
    "frame (out - {x}) (cc_used cc) (cc_used (return_block pl index x cc))" by simp_all
qed

lemma return_loop_ok:
  assumes pl: "platform_ok pl mapped" and "central_ok pl mapped out cc" and "set xs \<subseteq> out"
    and "distinct xs" and "\<forall>x \<in> set xs. in_class (cc_used cc) index x"
  shows "central_ok pl mapped (out - set xs) (return_loop pl index xs cc)
    \<and> frame (out - set xs) (cc_used cc) (cc_used (return_loop pl index xs cc))"
  using assms(2-)
proof (induction xs arbitrary: out cc)
  case Nil
  then show ?case by simp
next
  case (Cons x xs)
  have x: "x \<in> out" "in_class (cc_used cc) index x" using Cons.prems by simp_all
  note b = return_block_ok [OF Cons.prems(1) pl x]
  have "\<forall>y \<in> set xs. in_class (cc_used (return_block pl index x cc)) index y"
    using Cons.prems in_class_frame [OF b(2)] by auto
  moreover have "set xs \<subseteq> out - {x}" using Cons.prems by auto
  ultimately have ih: "central_ok pl mapped (out - {x} - set xs) (return_loop pl index xs (return_block pl index x cc))
      \<and> frame (out - {x} - set xs) (cc_used (return_block pl index x cc))
          (cc_used (return_loop pl index xs (return_block pl index x cc)))"
    using Cons.IH [OF b(1)] Cons.prems(3) by simp
  moreover have "out - {x} - set xs = out - set (x # xs)" by auto
  moreover have "frame (out - set (x # xs)) (cc_used cc)
      (cc_used (return_loop pl index xs (return_block pl index x cc)))"
    using frame_trans [OF b(2)] ih by (metis Diff_subset calculation(2))
  ultimately show ?case by simp
qed

lemma return_range_ok:
  assumes "platform_ok pl mapped" and "central_ok pl mapped out cc" and "set xs \<subseteq> out"
    and "distinct xs" and "\<forall>x \<in> set xs. in_class (cc_used cc) index x" and "index < class_count"
  shows "central_ok pl mapped (out - set xs) (return_range pl xs index cc)
    \<and> frame (out - set xs) (cc_used cc) (cc_used (return_range pl xs index cc))"
  using return_loop_ok [OF assms(1-5)] assms(2,6) by (cases xs) (simp_all add: return_range_def)

end
