(* ===== verification/Thread_Cache.thy ===== *)
theory Thread_Cache
  imports Central_Cache
begin

text \<open>
  The thread caches of the allocator (vendor_memorypool/v3/src/ThreadCache.h, ThreadCache.cpp):
  per thread and size class a list of free blocks with its length, filled in batches from the
  central cache and cut in half when it grows too long; requests above \<open>kMaxBytes\<close> are spans of
  their own. The state has all threads' caches; a call belongs to one thread and is one step. The
  debug guards are compiled out, as the build files have them; the counters are the global
  statistics of MemoryPool.cpp, which the thread cache also reports to.
\<close>

section \<open>State\<close>

record thread_cache =
  tc_list :: "nat \<Rightarrow> nat list"
  tc_size :: "nat \<Rightarrow> nat"

record counters =
  alloc_count :: nat
  freed_count :: nat
  small_alloc_count :: nat
  large_alloc_count :: nat
  sized_free_count :: nat
  unsized_free_count :: nat
  central_refill_count :: nat
  central_flush_count :: nat

record 'o kama =
  central :: "'o central_cache"
  threads :: "nat \<Rightarrow> thread_cache"
  counts :: counters

definition thread_cache_new :: thread_cache where
  "thread_cache_new = \<lparr>tc_list = (\<lambda>_. []), tc_size = (\<lambda>_. 0)\<rparr>"

definition counters_new :: counters where
  "counters_new =
     \<lparr>alloc_count = 0, freed_count = 0, small_alloc_count = 0, large_alloc_count = 0,
      sized_free_count = 0, unsized_free_count = 0, central_refill_count = 0,
      central_flush_count = 0\<rparr>"

definition kama_new :: "'o \<Rightarrow> 'o kama" where
  "kama_new w =
     \<lparr>central = central_cache_new w, threads = (\<lambda>_. thread_cache_new), counts = counters_new\<rparr>"

definition record_central_refill :: "nat \<Rightarrow> 'o kama \<Rightarrow> 'o kama" where
  "record_central_refill n st =
     st\<lparr>counts := (counts st)\<lparr>central_refill_count := wadd (central_refill_count (counts st)) n\<rparr>\<rparr>"

definition record_central_flush :: "nat \<Rightarrow> 'o kama \<Rightarrow> 'o kama" where
  "record_central_flush n st =
     st\<lparr>counts := (counts st)\<lparr>central_flush_count := wadd (central_flush_count (counts st)) n\<rparr>\<rparr>"

definition set_class :: "nat \<Rightarrow> nat \<Rightarrow> nat list \<Rightarrow> nat \<Rightarrow> 'o kama \<Rightarrow> 'o kama" where
  "set_class t c l n st =
     st\<lparr>threads := (threads st)
          (t := \<lparr>tc_list = (tc_list (threads st t))(c := l),
                 tc_size = (tc_size (threads st t))(c := n)\<rparr>)\<rparr>"

section \<open>Exchange with the central cache\<close>

definition fetch_from_central :: "'o platform \<Rightarrow> nat \<Rightarrow> nat \<Rightarrow> 'o kama \<Rightarrow> nat option \<times> 'o kama" where
  "fetch_from_central pl t c st =
     (let batch = get_batch_num (get_size c) in
      case fetch_range pl c batch (central st) of
        ([], cc) \<Rightarrow> (None, st\<lparr>central := cc\<rparr>)
      | (x # l, cc) \<Rightarrow>
          (let st1 = set_class t c l (tc_size (threads st t) c + length l) (st\<lparr>central := cc\<rparr>)
           in (Some x, record_central_refill (length (x # l)) st1)))"

text \<open>
  \<open>returnToCentralCache\<close>: the first \<open>keepNum\<close> blocks stay; a list shorter than that (which the
  counter rules out) is left as it is.
\<close>

definition return_to_central :: "'o platform \<Rightarrow> nat \<Rightarrow> nat \<Rightarrow> 'o kama \<Rightarrow> 'o kama" where
  "return_to_central pl t c st =
     (let batch = tc_size (threads st t) c; l = tc_list (threads st t) c in
      if batch \<le> 1 then st
      else
        (let keep = keep_num (get_size c) batch in
         if keep \<ge> batch then st
         else if length l < keep then st
         else
           (let rest = drop keep l; st1 = set_class t c (take keep l) keep st in
            if rest = [] then st1
            else
              (let st2 = record_central_flush (batch - keep) st1
               in st2\<lparr>central := return_range pl rest c (central st2)\<rparr>))))"

fun flush_loop :: "'o platform \<Rightarrow> nat \<Rightarrow> nat list \<Rightarrow> 'o kama \<Rightarrow> 'o kama" where
  "flush_loop pl t [] st = st"
| "flush_loop pl t (c # cs) st =
     flush_loop pl t cs
       (if tc_list (threads st t) c \<noteq> [] \<and> tc_size (threads st t) c > 0 then
          set_class t c [] 0
            (st\<lparr>central := return_range pl (tc_list (threads st t) c) c (central st)\<rparr>)
        else st)"

definition flush_all :: "'o platform \<Rightarrow> nat \<Rightarrow> 'o kama \<Rightarrow> 'o kama" where
  "flush_all pl t st = flush_loop pl t [0..<class_count] st"

section \<open>Allocation\<close>

definition mark_large :: "nat \<Rightarrow> span \<Rightarrow> span" where
  "mark_large bytes s =
     s\<lparr>is_large := True, block_size := bytes, block_count := 1, free_count := 0,
       size_class := size_max\<rparr>"

definition allocate_large :: "'o platform \<Rightarrow> nat \<Rightarrow> 'o kama \<Rightarrow> nat option \<times> 'o kama" where
  "allocate_large pl bytes st =
     (let ps = page_size pl; cc = central st in
      if bytes > size_max - (ps - 1) then (None, st)
      else
        (case allocate_span pl ((bytes + ps - 1) div ps) (page_cache_of cc) of
           (None, pc) \<Rightarrow> (None, st\<lparr>central := cc\<lparr>page_cache_of := pc\<rparr>\<rparr>)
         | (Some i, pc) \<Rightarrow>
             (let pc1 = update_span i (mark_large bytes) pc
              in (Some (page_addr (span_at pc1 i)), st\<lparr>central := cc\<lparr>page_cache_of := pc1\<rparr>\<rparr>))))"

definition tc_allocate :: "'o platform \<Rightarrow> nat \<Rightarrow> nat \<Rightarrow> 'o kama \<Rightarrow> nat option \<times> 'o kama" where
  "tc_allocate pl t bytes st =
     (let n = (if bytes = 0 then k_alignment else bytes) in
      if n > max_bytes then allocate_large pl n st
      else
        (let c = get_index n in
         case tc_list (threads st t) c of
           x # l \<Rightarrow> (Some x, set_class t c l (tc_size (threads st t) c - 1) st)
         | [] \<Rightarrow> fetch_from_central pl t c st))"

definition word_and :: "nat \<Rightarrow> nat \<Rightarrow> nat" where
  "word_and n m = unat ((of_nat n :: 64 word) AND of_nat m)"

definition tc_allocate_aligned ::
  "'o platform \<Rightarrow> nat \<Rightarrow> nat \<Rightarrow> nat \<Rightarrow> 'o kama \<Rightarrow> nat option \<times> 'o kama"
where
  "tc_allocate_aligned pl t bytes alignment st =
     (if alignment = 0 \<or> word_and alignment (alignment - 1) \<noteq> 0 then (None, st)
      else if alignment \<le> k_alignment then tc_allocate pl t bytes st
      else if bytes > size_max - (alignment - 1) then (None, st)
      else tc_allocate pl t (and_not (bytes + alignment - 1) (alignment - 1)) st)"

section \<open>Deallocation\<close>

definition should_return :: "nat \<Rightarrow> nat \<Rightarrow> 'o kama \<Rightarrow> bool" where
  "should_return t c st \<longleftrightarrow> tc_size (threads st t) c > max_cached_blocks (get_size c)"

definition push_block :: "'o platform \<Rightarrow> nat \<Rightarrow> nat \<Rightarrow> nat \<Rightarrow> 'o kama \<Rightarrow> 'o kama" where
  "push_block pl t c p st =
     (let st1 = set_class t c (p # tc_list (threads st t) c) (tc_size (threads st t) c + 1) st
      in if should_return t c st1 then return_to_central pl t c st1 else st1)"

definition tc_deallocate :: "'o platform \<Rightarrow> nat \<Rightarrow> nat option \<Rightarrow> 'o kama \<Rightarrow> bool \<times> 'o kama" where
  "tc_deallocate pl t ptr st =
     (let cc = central st in
      case ptr of
        None \<Rightarrow> (False, st)
      | Some p \<Rightarrow>
          (case find_span pl (Some p) (page_cache_of cc) of
             None \<Rightarrow> (False, st)
           | Some i \<Rightarrow>
               (let s = span_at (page_cache_of cc) i in
                if is_large s then
                  (True, st\<lparr>central := cc\<lparr>page_cache_of := deallocate_span pl (Some i) (page_cache_of cc)\<rparr>\<rparr>)
                else if size_class s \<ge> class_count then (False, st)
                else (True, push_block pl t (size_class s) p st))))"

definition tc_deallocate_sized ::
  "'o platform \<Rightarrow> nat \<Rightarrow> nat option \<Rightarrow> nat \<Rightarrow> 'o kama \<Rightarrow> bool \<times> 'o kama"
where
  "tc_deallocate_sized pl t ptr bytes st =
     (case ptr of
        None \<Rightarrow> (False, st)
      | Some p \<Rightarrow>
          (let n = (if bytes = 0 then k_alignment else bytes) in
           if n > max_bytes then tc_deallocate pl t ptr st
           else
             (let c = get_index (round_up n) in
              if c \<ge> class_count then tc_deallocate pl t ptr st
              else (True, push_block pl t c p st))))"

section \<open>The invariant\<close>

text \<open>
  \<open>live\<close> is the set of addresses the callers hold. Every small block outside the spans' free lists
  is live or in exactly one list of one thread, of the block's own class; a large span is held
  through its first address.
\<close>

abbreviation st_used :: "'o kama \<Rightarrow> nat \<Rightarrow> span option" where
  "st_used st \<equiv> cc_used (central st)"

definition larges :: "(nat \<Rightarrow> span option) \<Rightarrow> nat set" where
  "larges u = {page_addr s | i s. u i = Some s \<and> is_large s}"

definition cached :: "(nat \<Rightarrow> thread_cache) \<Rightarrow> nat set" where
  "cached T = {x. \<exists>t c. x \<in> set (tc_list (T t) c)}"

definition lists_ok :: "(nat \<Rightarrow> span option) \<Rightarrow> (nat \<Rightarrow> thread_cache) \<Rightarrow> bool" where
  "lists_ok u T \<longleftrightarrow>
     (\<forall>t c. distinct (tc_list (T t) c) \<and> tc_size (T t) c = length (tc_list (T t) c))
     \<and> (\<forall>t c x. x \<in> set (tc_list (T t) c) \<longrightarrow> in_class u c x)
     \<and> (\<forall>t c t' c' x. x \<in> set (tc_list (T t) c) \<longrightarrow> x \<in> set (tc_list (T t') c') \<longrightarrow> t = t' \<and> c = c')"

definition kama_ok :: "'o platform \<Rightarrow> ('o \<Rightarrow> nat set) \<Rightarrow> nat set \<Rightarrow> 'o kama \<Rightarrow> bool" where
  "kama_ok pl mapped live st \<longleftrightarrow>
     central_ok pl mapped ((live - larges (st_used st)) \<union> cached (threads st)) (central st)
     \<and> lists_ok (st_used st) (threads st)
     \<and> larges (st_used st) \<subseteq> live \<and> cached (threads st) \<inter> live = {}"

end
