(* ===== verification/Thread_Cache_Safety.thy ===== *)
theory Thread_Cache_Safety
  imports Thread_Cache
begin

text \<open>
  The contract of the allocator's front end: whatever the threads do, an allocation returns memory
  that no caller holds, large enough, and no call disturbs the memory held by others. The proofs
  rest on the contracts of the central cache and of the page cache.
\<close>

section \<open>The lists of the threads\<close>

lemma set_class_fields [simp]:
  "central (set_class t c l n st) = central st" "counts (set_class t c l n st) = counts st"
  "tc_list (threads (set_class t c l n st) t') c' =
     (if t' = t \<and> c' = c then l else tc_list (threads st t') c')"
  "tc_size (threads (set_class t c l n st) t') c' =
     (if t' = t \<and> c' = c then n else tc_size (threads st t') c')"
  by (simp_all add: set_class_def)

lemma record_fields [simp]:
  "central (record_central_refill n st) = central st" "threads (record_central_refill n st) = threads st"
  "central (record_central_flush n st) = central st" "threads (record_central_flush n st) = threads st"
  by (simp_all add: record_central_refill_def record_central_flush_def)

lemma lists_ok_dest:
  assumes "lists_ok u T"
  shows "distinct (tc_list (T t) c)" and "tc_size (T t) c = length (tc_list (T t) c)"
    and "x \<in> set (tc_list (T t) c) \<Longrightarrow> in_class u c x"
    and "x \<in> set (tc_list (T t) c) \<Longrightarrow> x \<in> set (tc_list (T t') c') \<Longrightarrow> t = t' \<and> c = c'"
  using assms unfolding lists_ok_def by blast+

lemma lists_ok_set:
  assumes ok: "lists_ok u (threads st)" and l: "distinct l" "n = length l"
    and cl: "\<forall>x \<in> set l. in_class u c x"
    and other: "\<forall>x \<in> set l. \<forall>t' c'. x \<in> set (tc_list (threads st t') c') \<longrightarrow> t' = t \<and> c' = c"
  shows "lists_ok u (threads (set_class t c l n st))"
    and "cached (threads (set_class t c l n st))
      = (cached (threads st) - set (tc_list (threads st t) c)) \<union> set l"
proof -
  show "lists_ok u (threads (set_class t c l n st))"
    unfolding lists_ok_def
  proof (intro conjI allI impI)
    fix t' c' t2 c2 x
    assume "x \<in> set (tc_list (threads (set_class t c l n st) t') c')"
      "x \<in> set (tc_list (threads (set_class t c l n st) t2) c2)"
    then show "t' = t2" "c' = c2"
      using other lists_ok_dest(4) [OF ok, of x] by (auto split: if_splits)
  qed (use l cl lists_ok_dest [OF ok] in \<open>auto split: if_splits\<close>)
  show "cached (threads (set_class t c l n st))
      = (cached (threads st) - set (tc_list (threads st t) c)) \<union> set l"
  proof (intro equalityI subsetI)
    fix x assume "x \<in> cached (threads (set_class t c l n st))"
    then obtain t' c' where "x \<in> set (tc_list (threads (set_class t c l n st) t') c')"
      by (auto simp: cached_def)
    then show "x \<in> (cached (threads st) - set (tc_list (threads st t) c)) \<union> set l"
      using lists_ok_dest(4) [OF ok, of x t' c' t c] by (auto simp: cached_def split: if_splits)
  next
    fix x assume "x \<in> (cached (threads st) - set (tc_list (threads st t) c)) \<union> set l"
    then consider "x \<in> set l" | t' c' where "x \<in> set (tc_list (threads st t') c')" "\<not> (t' = t \<and> c' = c)"
      by (auto simp: cached_def)
    then show "x \<in> cached (threads (set_class t c l n st))"
    proof cases
      case 1
      then have "x \<in> set (tc_list (threads (set_class t c l n st) t) c)" by simp
      then show ?thesis unfolding cached_def by blast
    next
      case (2 t' c')
      then have "x \<in> set (tc_list (threads (set_class t c l n st) t') c')" by auto
      then show ?thesis unfolding cached_def by blast
    qed
  qed
qed

text \<open>A shorter list in place of a list.\<close>

lemma lists_ok_shrink:
  assumes ok: "lists_ok u (threads st)" and l: "distinct l" "set l \<subseteq> set (tc_list (threads st t) c)"
  shows "lists_ok u (threads (set_class t c l (length l) st))"
    and "cached (threads (set_class t c l (length l) st))
      = cached (threads st) - (set (tc_list (threads st t) c) - set l)"
proof -
  have cl: "\<forall>x \<in> set l. in_class u c x" using lists_ok_dest(3) [OF ok] l(2) by blast
  have other: "\<forall>x \<in> set l. \<forall>t' c'. x \<in> set (tc_list (threads st t') c') \<longrightarrow> t' = t \<and> c' = c"
    using lists_ok_dest(4) [OF ok] l(2) by blast
  note s = lists_ok_set [OF ok l(1) refl cl other]
  show "lists_ok u (threads (set_class t c l (length l) st))" by (rule s(1))
  have "set l \<subseteq> cached (threads st)" using l(2) by (auto simp: cached_def)
  with s(2) l(2) show "cached (threads (set_class t c l (length l) st))
      = cached (threads st) - (set (tc_list (threads st t) c) - set l)" by blast
qed

lemma lists_ok_frame:
  assumes "lists_ok u T" "frame K u v" "cached T \<subseteq> K"
  shows "lists_ok v T"
proof -
  have "in_class v c x" if "x \<in> set (tc_list (T t) c)" for t c x
  proof -
    have "x \<in> K" using that assms(3) by (auto simp: cached_def)
    with lists_ok_dest(3) [OF assms(1) that] assms(2) show ?thesis by (blast intro: in_class_frame)
  qed
  with assms(1) show ?thesis unfolding lists_ok_def by blast
qed

lemma larges_frame: "frame K u v \<Longrightarrow> larges v = larges u"
  unfolding larges_def frame_def by blast

lemma kama_ok_parts:
  assumes "kama_ok pl mapped live st"
  shows "central_ok pl mapped ((live - larges (st_used st)) \<union> cached (threads st)) (central st)"
    and "lists_ok (st_used st) (threads st)" and "larges (st_used st) \<subseteq> live"
    and "cached (threads st) \<inter> live = {}"
  using assms by (simp_all add: kama_ok_def)

lemma cached_mem: "x \<in> set (tc_list (T t) c) \<Longrightarrow> x \<in> cached T"
  by (auto simp: cached_def)

text \<open>Moving a block between a caller and a list leaves the blocks outside the spans the same.\<close>

lemma kama_ok_cong:
  "central a = central b \<Longrightarrow> threads a = threads b \<Longrightarrow> kama_ok pl mapped live a = kama_ok pl mapped live b"
  by (simp add: kama_ok_def)

lemma pop_ok:
  assumes ok: "kama_ok pl mapped live st" and l: "tc_list (threads st t) c = x # l"
  shows "x \<notin> live" and "in_class (st_used st) c x"
    and "kama_ok pl mapped (insert x live) (set_class t c l (tc_size (threads st t) c - 1) st)"
proof -
  note p = kama_ok_parts [OF ok]
  have mem: "x \<in> set (tc_list (threads st t) c)" using l by simp
  then have xc: "x \<in> cached (threads st)" by (rule cached_mem)
  then show xl: "x \<notin> live" using p(4) by blast
  show "in_class (st_used st) c x" using lists_ok_dest(3) [OF p(2) mem] .
  have d: "distinct l" "x \<notin> set l" "tc_size (threads st t) c - 1 = length l"
    using lists_ok_dest(1,2) [OF p(2), of t c] l by simp_all
  have sub: "set l \<subseteq> set (tc_list (threads st t) c)" using l by auto
  note s = lists_ok_shrink [OF p(2) d(1) sub]
  have c': "cached (threads (set_class t c l (length l) st)) = cached (threads st) - {x}"
    using s(2) d(2) l by auto
  have "x \<notin> larges (st_used st)" using xl p(3) by blast
  then have "(insert x live - larges (st_used st)) \<union> (cached (threads st) - {x})
      = (live - larges (st_used st)) \<union> cached (threads st)"
    using xc by auto
  with p s(1) show "kama_ok pl mapped (insert x live) (set_class t c l (tc_size (threads st t) c - 1) st)"
    unfolding kama_ok_def d(3) c' set_class_fields by auto
qed

lemma push_ok_kama:
  assumes ok: "kama_ok pl mapped live st" and x: "x \<in> live" and cl: "in_class (st_used st) c x"
    and small: "x \<notin> larges (st_used st)"
  shows "kama_ok pl mapped (live - {x})
    (set_class t c (x # tc_list (threads st t) c) (tc_size (threads st t) c + 1) st)"
proof -
  note p = kama_ok_parts [OF ok]
  let ?l = "tc_list (threads st t) c"
  let ?st = "set_class t c (x # ?l) (tc_size (threads st t) c + 1) st"
  have xc: "x \<notin> cached (threads st)" using p(4) x by blast
  then have xl: "x \<notin> set (tc_list (threads st t') c')" for t' c' using cached_mem by metis
  have d: "distinct (x # ?l)" "tc_size (threads st t) c + 1 = length (x # ?l)"
    using lists_ok_dest(1,2) [OF p(2), of t c] xl by simp_all
  have c1: "\<forall>y \<in> set (x # ?l). in_class (st_used st) c y"
    using cl lists_ok_dest(3) [OF p(2)] by auto
  have c2: "\<forall>y \<in> set (x # ?l). \<forall>t' c'. y \<in> set (tc_list (threads st t') c') \<longrightarrow> t' = t \<and> c' = c"
    using xl lists_ok_dest(4) [OF p(2)] by auto
  note s = lists_ok_set [OF p(2) d c1 c2]
  have c': "cached (threads ?st) = insert x (cached (threads st))"
    unfolding s(2) using cached_mem by fastforce
  have "(live - {x} - larges (st_used st)) \<union> insert x (cached (threads st))
      = (live - larges (st_used st)) \<union> cached (threads st)"
    using x small by auto
  with p s(1) small show "kama_ok pl mapped (live - {x}) ?st"
    unfolding kama_ok_def c' set_class_fields by auto
qed

lemma kama_ok_record [simp]:
  "kama_ok pl mapped live (record_central_refill n st) = kama_ok pl mapped live st"
  "kama_ok pl mapped live (record_central_flush n st) = kama_ok pl mapped live st"
  by (simp_all add: kama_ok_def)

text \<open>A block of a small span is not the address of a large one: their pages differ.\<close>

lemma in_class_not_large:
  assumes "central_ok pl mapped out cc" "0 < page_size pl" "in_class (cc_used cc) c x"
  shows "x \<notin> larges (cc_used cc)"
proof
  assume "x \<in> larges (cc_used cc)"
  then obtain j r where r: "cc_used cc j = Some r" "is_large r" "x = page_addr r"
    by (auto simp: larges_def)
  obtain i s where s: "cc_used cc i = Some s" "\<not> is_large s" "x \<in> blocks_of s"
    using assms(3) by (auto simp: in_class_def)
  have pc: "pc_ok pl mapped (page_cache_of cc)" and sp: "spans_ok pl (cc_used cc) (partial_spans cc) out"
    using assms(1) by (simp_all add: central_ok_def)
  have "i \<noteq> j" using r s by auto
  with used_pages_disjoint [OF pc s(1) r(1)] have "pages_of pl s \<inter> pages_of pl r = {}" .
  moreover have "x div page_size pl \<in> pages_of pl s"
    by (rule block_pages(1) [OF spans_ok_small [OF sp s(1,2)] used_shape [OF pc s(1)] assms(2) s(3)])
  moreover have "x div page_size pl \<in> pages_of pl r"
    using used_shape [OF pc r(1)] by (simp add: r(3) pages_of_def shape_ok_def)
  ultimately show False by blast
qed

section \<open>Exchange with the central cache\<close>

lemma fetch_from_central_ok:
  assumes ok: "kama_ok pl mapped live st" and pl: "platform_ok pl mapped"
    and empty: "tc_list (threads st t) c = []" and eq: "fetch_from_central pl t c st = (r, st')"
  shows "frame ((live - larges (st_used st)) \<union> cached (threads st)) (st_used st) (st_used st')"
    and "r = None \<Longrightarrow> kama_ok pl mapped live st'"
    and "r = Some x \<Longrightarrow> x \<notin> live \<and> in_class (st_used st') c x \<and> kama_ok pl mapped (insert x live) st'"
proof -
  note p = kama_ok_parts [OF ok]
  define out where "out = (live - larges (st_used st)) \<union> cached (threads st)"
  obtain xs cc where f: "fetch_range pl c (get_batch_num (get_size c)) (central st) = (xs, cc)" by fastforce
  have fr: "central_ok pl mapped (out \<union> set xs) cc" "frame out (st_used st) (cc_used cc)"
    "distinct xs" "set xs \<inter> out = {}" "\<forall>x \<in> set xs. in_class (cc_used cc) c x"
    using fetch_range_ok [OF pl p(1) f] unfolding out_def by blast+
  have lg: "larges (cc_used cc) = larges (st_used st)" by (rule larges_frame [OF fr(2)])
  have lo: "lists_ok (cc_used cc) (threads st)"
    by (rule lists_ok_frame [OF p(2) fr(2)]) (simp add: out_def)
  have used': "st_used st' = cc_used cc"
    using eq f by (auto simp: fetch_from_central_def Let_def split: list.splits)
  show "frame ((live - larges (st_used st)) \<union> cached (threads st)) (st_used st) (st_used st')"
    using fr(2) by (simp add: used' out_def)
  show "kama_ok pl mapped live st'" if "r = None"
  proof -
    have "xs = []" "st' = st\<lparr>central := cc\<rparr>"
      using eq f that by (auto simp: fetch_from_central_def Let_def split: list.splits)
    then show ?thesis using p fr(1) lo lg by (simp add: kama_ok_def out_def)
  qed
  show "x \<notin> live \<and> in_class (st_used st') c x \<and> kama_ok pl mapped (insert x live) st'" if rx: "r = Some x"
  proof -
    obtain l where xs: "xs = x # l"
      using eq f rx by (cases xs) (auto simp: fetch_from_central_def Let_def)
    let ?st = "set_class t c l (length l) (st\<lparr>central := cc\<rparr>)"
    have st': "st' = record_central_refill (length (x # l)) ?st"
      using eq f lists_ok_dest(2) [OF p(2), of t c] empty
      by (simp add: fetch_from_central_def Let_def xs)
    have new: "y \<notin> live" "y \<notin> cached (threads st)" if "y \<in> set xs" for y
    proof -
      have "y \<notin> larges (st_used st)"
        using in_class_not_large [OF fr(1) platform_pos [OF pl]] fr(5) that lg by blast
      then show "y \<notin> live" "y \<notin> cached (threads st)" using fr(4) that by (auto simp: out_def)
    qed
    have lo': "lists_ok (cc_used cc) (threads (st\<lparr>central := cc\<rparr>))" using lo by simp
    have c1: "\<forall>y \<in> set l. in_class (cc_used cc) c y" using fr(5) xs by simp
    have c2: "\<forall>y \<in> set l. \<forall>t' c'. y \<in> set (tc_list (threads (st\<lparr>central := cc\<rparr>) t') c') \<longrightarrow> t' = t \<and> c' = c"
      using new(2) cached_mem unfolding xs by fastforce
    have d: "distinct l" "x \<notin> set l" using fr(3) xs by simp_all
    note s = lists_ok_set [OF lo' d(1) refl c1 c2]
    have c': "cached (threads ?st) = cached (threads st) \<union> set l" using s(2) empty by simp
    have xl: "x \<notin> live" "x \<notin> larges (st_used st)" using new(1) p(3) xs by auto
    have "out \<union> set xs = (insert x live - larges (st_used st)) \<union> (cached (threads st) \<union> set l)"
      using xl by (auto simp: xs out_def)
    moreover have "(cached (threads st) \<union> set l) \<inter> insert x live = {}"
      using p(4) new d(2) unfolding xs by auto
    ultimately have "kama_ok pl mapped (insert x live) ?st"
      using s(1) fr(1) p(3) unfolding kama_ok_def c' set_class_fields by (auto simp: lg)
    with xl(1) fr(5) show ?thesis unfolding st' kama_ok_record by (simp add: xs)
  qed
qed

text \<open>The tail of a list goes back to the central cache.\<close>

lemma give_back_ok:
  assumes ok: "kama_ok pl mapped live st" and pl: "platform_ok pl mapped" and c: "c < class_count"
    and l: "tc_list (threads st t) c = l @ r"
    and eq: "central st' = return_range pl r c (central st)"
      "threads st' = threads (set_class t c l (length l) st)"
  shows "kama_ok pl mapped live st'"
    and "frame (live - larges (st_used st)) (st_used st) (st_used st')"
proof -
  note p = kama_ok_parts [OF ok]
  define out where "out = (live - larges (st_used st)) \<union> cached (threads st)"
  have d: "distinct l" "distinct r" "set l \<inter> set r = {}" "set l \<subseteq> set (tc_list (threads st t) c)"
    using lists_ok_dest(1) [OF p(2), of t c] l by simp_all
  note s = lists_ok_shrink [OF p(2) d(1,4)]
  have r: "set r \<subseteq> cached (threads st)" using l cached_mem [of _ "threads st" t c] by auto
  then have "set r \<subseteq> out" by (auto simp: out_def)
  moreover have "\<forall>x \<in> set r. in_class (st_used st) c x"
    using lists_ok_dest(3) [OF p(2), of _ t c] l by simp
  ultimately have rr: "central_ok pl mapped (out - set r) (central st')"
    "frame (out - set r) (st_used st) (st_used st')"
    using return_range_ok [OF pl p(1) [folded out_def] _ d(2) _ c] by (auto simp: eq(1))
  have c': "cached (threads (set_class t c l (length l) st)) = cached (threads st) - set r"
    using s(2) l d(3) by auto
  have lv: "set r \<inter> live = {}" using r p(4) by blast
  then have o: "out - set r = (live - larges (st_used st)) \<union> (cached (threads st) - set r)"
    by (auto simp: out_def)
  have "lists_ok (st_used st') (threads (set_class t c l (length l) st))"
    by (rule lists_ok_frame [OF s(1) rr(2)]) (auto simp: c' o)
  then show "kama_ok pl mapped live st'"
    using rr(1) p(3,4) unfolding kama_ok_def larges_frame [OF rr(2)] eq(2) c' o by auto
  show "frame (live - larges (st_used st)) (st_used st) (st_used st')"
    by (rule frame_mono [OF rr(2)]) (simp add: o)
qed

lemma return_to_central_ok:
  assumes ok: "kama_ok pl mapped live st" and pl: "platform_ok pl mapped" and c: "c < class_count"
  shows "kama_ok pl mapped live (return_to_central pl t c st)"
    and "frame (live - larges (st_used st)) (st_used st) (st_used (return_to_central pl t c st))"
proof -
  let ?l = "tc_list (threads st t) c" and ?st = "return_to_central pl t c st"
  define k where "k = keep_num (get_size c) (length ?l)"
  have n: "tc_size (threads st t) c = length ?l" using lists_ok_dest(2) kama_ok_parts(2) [OF ok] .
  have "kama_ok pl mapped live ?st \<and> frame (live - larges (st_used st)) (st_used st) (st_used ?st)"
  proof (cases "length ?l \<le> 1 \<or> length ?l \<le> k")
    case True
    then have "?st = st" by (auto simp: return_to_central_def Let_def n k_def)
    with ok show ?thesis by simp
  next
    case False
    then have d: "drop k ?l \<noteq> []" "\<not> length ?l < k" "length (take k ?l) = k" by auto
    have st: "?st = (let st2 = record_central_flush (length ?l - k) (set_class t c (take k ?l) k st)
        in st2\<lparr>central := return_range pl (drop k ?l) c (central st2)\<rparr>)"
      using False d unfolding return_to_central_def Let_def n k_def [symmetric] by simp
    have "central ?st = return_range pl (drop k ?l) c (central st)"
      "threads ?st = threads (set_class t c (take k ?l) (length (take k ?l)) st)"
      unfolding st Let_def d(3) by simp_all
    from give_back_ok [OF ok pl c _ this] show ?thesis by simp
  qed
  then show "kama_ok pl mapped live ?st"
    "frame (live - larges (st_used st)) (st_used st) (st_used ?st)" by simp_all
qed

lemma push_block_ok:
  assumes ok: "kama_ok pl mapped live st" and pl: "platform_ok pl mapped"
    and x: "x \<in> live" and cl: "in_class (st_used st) c x" and c: "c < class_count"
  shows "kama_ok pl mapped (live - {x}) (push_block pl t c x st)"
    and "frame (live - {x} - larges (st_used st)) (st_used st) (st_used (push_block pl t c x st))"
proof -
  let ?st = "set_class t c (x # tc_list (threads st t) c) (tc_size (threads st t) c + 1) st"
  have "x \<notin> larges (st_used st)"
    by (rule in_class_not_large [OF kama_ok_parts(1) [OF ok] platform_pos [OF pl] cl])
  note q = push_ok_kama [OF ok x cl this, of t]
  note r = return_to_central_ok [OF q pl c, of t]
  show "kama_ok pl mapped (live - {x}) (push_block pl t c x st)"
    using q r(1) by (simp add: push_block_def Let_def)
  show "frame (live - {x} - larges (st_used st)) (st_used st) (st_used (push_block pl t c x st))"
    using r(2) by (simp add: push_block_def Let_def)
qed

lemma flush_loop_ok:
  assumes pl: "platform_ok pl mapped" and "kama_ok pl mapped live st" and "\<forall>c \<in> set cs. c < class_count"
  shows "kama_ok pl mapped live (flush_loop pl t cs st)
    \<and> frame (live - larges (st_used st)) (st_used st) (st_used (flush_loop pl t cs st))"
  using assms(2,3)
proof (induction cs arbitrary: st)
  case (Cons c cs)
  define st1 where "st1 = (if tc_list (threads st t) c \<noteq> [] \<and> tc_size (threads st t) c > 0 then
    set_class t c [] 0 (st\<lparr>central := return_range pl (tc_list (threads st t) c) c (central st)\<rparr>) else st)"
  have one: "kama_ok pl mapped live st1 \<and> frame (live - larges (st_used st)) (st_used st) (st_used st1)"
  proof (cases "tc_list (threads st t) c \<noteq> [] \<and> tc_size (threads st t) c > 0")
    case True
    then have "st1 = set_class t c [] 0
        (st\<lparr>central := return_range pl (tc_list (threads st t) c) c (central st)\<rparr>)"
      unfolding st1_def by (rule if_P)
    then have "central st1 = return_range pl (tc_list (threads st t) c) c (central st)"
      "threads st1 = threads (set_class t c [] (length []) st)" by (simp_all add: set_class_def)
    from give_back_ok [OF Cons.prems(1) pl _ _ this] Cons.prems(2) show ?thesis by simp
  next
    case False
    then have "st1 = st" unfolding st1_def by (rule if_not_P)
    with Cons.prems(1) show ?thesis by simp
  qed
  then have lg: "larges (st_used st1) = larges (st_used st)" using larges_frame by blast
  have rest: "kama_ok pl mapped live (flush_loop pl t cs st1)
      \<and> frame (live - larges (st_used st)) (st_used st1) (st_used (flush_loop pl t cs st1))"
    using Cons.IH [of st1] one Cons.prems(2) unfolding lg by simp
  with one have "frame (live - larges (st_used st)) (st_used st) (st_used (flush_loop pl t cs st1))"
    using frame_trans by blast
  with rest show ?case unfolding flush_loop.simps st1_def [symmetric] by blast
qed simp

lemma flush_all_ok:
  assumes "platform_ok pl mapped" "kama_ok pl mapped live st"
  shows "kama_ok pl mapped live (flush_all pl t st)"
    and "frame (live - larges (st_used st)) (st_used st) (st_used (flush_all pl t st))"
  using flush_loop_ok [OF assms, of "[0..<class_count]" t] by (simp_all add: flush_all_def)

end
