(* ===== verification/Block_Extents.thy ===== *)
theory Block_Extents
  imports Thread_Cache_Safety
begin

text \<open>
  What the callers of the allocator see of a block: its extent. An address handed out for \<open>n\<close> bytes
  lies in a block of the class of \<open>n\<close>, or is the start of a large span with enough pages; extents of
  different addresses do not meet, and the calls on other blocks leave an extent alone.
\<close>

definition norm_bytes :: "nat \<Rightarrow> nat" where
  "norm_bytes n = (if n = 0 then k_alignment else n)"

definition fits :: "'o platform \<Rightarrow> (nat \<Rightarrow> span option) \<Rightarrow> nat \<Rightarrow> nat \<Rightarrow> bool" where
  "fits pl u p n \<longleftrightarrow>
     (if n > max_bytes then
        \<exists>i s. u i = Some s \<and> is_large s \<and> page_addr s = p \<and> n \<le> num_pages s * page_size pl
      else in_class u (get_index n) p)"

section \<open>Large spans\<close>

definition same_small :: "(nat \<Rightarrow> span option) \<Rightarrow> (nat \<Rightarrow> span option) \<Rightarrow> bool" where
  "same_small u v \<longleftrightarrow> (\<forall>i s. \<not> is_large s \<longrightarrow> (v i = Some s \<longleftrightarrow> u i = Some s))"

lemma same_small_add: "u i = None \<Longrightarrow> is_large s \<Longrightarrow> same_small u (u(i \<mapsto> s))"
  by (auto simp: same_small_def)

lemma same_small_remove: "u i = Some s \<Longrightarrow> is_large s \<Longrightarrow> same_small u (u(i := None))"
  by (auto simp: same_small_def)

lemma in_class_same: "same_small u v \<Longrightarrow> in_class v c x = in_class u c x"
  unfolding in_class_def same_small_def by blast

lemma spans_ok_same: "same_small u v \<Longrightarrow> spans_ok pl v P out = spans_ok pl u P out"
  unfolding spans_ok_def same_small_def by (intro arg_cong2 [of _ _ _ _ "(\<and>)"]) blast+

lemma lists_ok_same: "same_small u v \<Longrightarrow> lists_ok v T = lists_ok u T"
  by (simp add: lists_ok_def in_class_same)

lemma large_unique:
  assumes pc: "pc_ok pl mapped pc" and "used pc i = Some s" "used pc j = Some t"
    and "page_addr s = page_addr t"
  shows "i = j"
proof (rule ccontr)
  assume "i \<noteq> j"
  from used_pages_disjoint [OF assms(1-3) this] have "pages_of pl s \<inter> pages_of pl t = {}" .
  moreover have "page_addr s div page_size pl \<in> pages_of pl s \<inter> pages_of pl t"
    using used_shape [OF pc assms(2)] used_shape [OF pc assms(3)] assms(4)
    by (simp add: pages_of_def shape_ok_def)
  ultimately show False by blast
qed

lemma larges_add: "u i = None \<Longrightarrow> is_large s \<Longrightarrow> larges (u(i \<mapsto> s)) = insert (page_addr s) (larges u)"
  unfolding larges_def by (auto split: if_splits) (metis option.distinct(1))+

lemma larges_remove:
  assumes pc: "pc_ok pl mapped pc" and i: "used pc i = Some s"
  shows "larges ((used pc)(i := None)) = larges (used pc) - {page_addr s}"
proof (intro equalityI subsetI)
  fix x assume "x \<in> larges ((used pc)(i := None))"
  then obtain j t where "j \<noteq> i" "used pc j = Some t" "is_large t" "x = page_addr t"
    by (auto simp: larges_def split: if_splits)
  moreover from this have "page_addr t \<noteq> page_addr s" using large_unique [OF pc _ i, of j t] by blast
  ultimately show "x \<in> larges (used pc) - {page_addr s}"
    unfolding larges_def by auto
next
  fix x assume "x \<in> larges (used pc) - {page_addr s}"
  then obtain j t where "used pc j = Some t" "is_large t" "x = page_addr t" "x \<noteq> page_addr s"
    by (auto simp: larges_def)
  with i have "((used pc)(i := None)) j = Some t" by auto
  with \<open>is_large t\<close> \<open>x = page_addr t\<close> show "x \<in> larges ((used pc)(i := None))"
    unfolding larges_def by blast
qed

lemma mark_large_keeps: "keeps_extent (mark_large n)"
  by (simp add: keeps_extent_def mark_large_def)

lemma allocate_large_ok:
  assumes ok: "kama_ok pl mapped live st" and pl: "platform_ok pl mapped"
    and eq: "allocate_large pl n st = (r, st')"
  shows "r = None \<Longrightarrow> kama_ok pl mapped live st' \<and> st_used st' = st_used st"
    and "r = Some p \<Longrightarrow> p \<notin> live \<and> kama_ok pl mapped (insert p live) st'
      \<and> (\<exists>i s. st_used st i = None \<and> st_used st' = (st_used st)(i \<mapsto> s) \<and> is_large s
            \<and> page_addr s = p \<and> n \<le> num_pages s * page_size pl)"
proof -
  note q = kama_ok_parts [OF ok]
  let ?ps = "page_size pl"
  have ps: "0 < ?ps" by (rule platform_pos [OF pl])
  have pc: "pc_ok pl mapped (page_cache_of (central st))"
    and sp: "spans_ok pl (st_used st) (partial_spans (central st))
      ((live - larges (st_used st)) \<union> cached (threads st))"
    using q(1) by (simp_all add: central_ok_def)
  obtain z pc1 where z: "allocate_span pl ((n + ?ps - 1) div ?ps) (page_cache_of (central st)) = (z, pc1)"
    by fastforce
  note al = allocate_span_ok [OF pc pl z]
  show "kama_ok pl mapped live st' \<and> st_used st' = st_used st" if "r = None"
  proof (cases "n > size_max - (?ps - 1)")
    case True
    with eq ok show ?thesis by (simp add: allocate_large_def)
  next
    case False
    with eq z that have "z = None" "st' = st\<lparr>central := (central st)\<lparr>page_cache_of := pc1\<rparr>\<rparr>"
      by (auto simp: allocate_large_def Let_def split: option.splits)
    with al q sp show ?thesis by (simp add: kama_ok_def central_ok_def)
  qed
  show "p \<notin> live \<and> kama_ok pl mapped (insert p live) st'
      \<and> (\<exists>i s. st_used st i = None \<and> st_used st' = (st_used st)(i \<mapsto> s) \<and> is_large s
            \<and> page_addr s = p \<and> n \<le> num_pages s * ?ps)" if rp: "r = Some p"
  proof -
    obtain i where i: "z = Some i"
      using eq z rp by (auto simp: allocate_large_def Let_def split: if_splits option.splits)
    define pc2 where "pc2 = update_span i (mark_large n) pc1"
    have st': "p = page_addr (span_at pc2 i)" "st' = st\<lparr>central := (central st)\<lparr>page_cache_of := pc2\<rparr>\<rparr>"
      using eq z rp i by (auto simp: allocate_large_def Let_def pc2_def split: if_splits)
    obtain s where s: "st_used st i = None" "used pc1 = (st_used st)(i \<mapsto> s)"
      "(if (n + ?ps - 1) div ?ps = 0 then 1 else (n + ?ps - 1) div ?ps) \<le> num_pages s"
      using al(2) i by auto
    let ?s = "mark_large n s"
    have u: "pc_ok pl mapped pc2" "used pc2 = (st_used st)(i \<mapsto> ?s)"
      using update_ok [OF al(1) _ mark_large_keeps, of i s n] by (simp_all add: pc2_def s(2))
    have lg: "is_large ?s" "page_addr ?s = page_addr s" "num_pages ?s = num_pages s"
      by (simp_all add: mark_large_def)
    have p: "p = page_addr s" using span_at_used [of pc2 i ?s] by (simp add: st'(1) u(2) lg)
    have "(n + ?ps - 1) div ?ps \<le> num_pages s" using s(3) by (simp split: if_splits)
    then have "n + ?ps - 1 < Suc (num_pages s) * ?ps"
      using ps by (simp flip: less_Suc_eq_le add: div_less_iff_less_mult)
    then have big: "n \<le> num_pages s * ?ps" using ps by simp
    note ss = same_small_add [where u = "st_used st", OF s(1) lg(1), folded u(2)]
    let ?out = "(live - larges (st_used st)) \<union> cached (threads st)"
    have c': "central_ok pl mapped ?out (central st')"
      using u(1) spans_ok_same [OF ss, of pl] sp by (simp add: central_ok_def st'(2))
    have lg': "larges (used pc2) = insert p (larges (st_used st))"
      using larges_add [where u = "st_used st", OF s(1) lg(1)] by (simp add: u(2) lg(2) p)
    have "p \<notin> larges (st_used st)"
    proof
      assume "p \<in> larges (st_used st)"
      then obtain j t where t: "st_used st j = Some t" "page_addr t = p" by (auto simp: larges_def)
      then have "used pc2 j = Some t" "j \<noteq> i" using s(1) by (auto simp: u(2))
      with large_unique [OF u(1), of j t i ?s] t(2) show False by (simp add: u(2) lg p)
    qed
    moreover have "p \<notin> ?out"
    proof
      assume x: "p \<in> ?out"
      then obtain j t where "st_used st' j = Some t" "\<not> is_large t" "p \<in> blocks_of t"
        using spans_ok_out [of pl "st_used st'" _ ?out p] c' by (auto simp: central_ok_def)
      then have "in_class (st_used st') (size_class t) p" unfolding in_class_def by blast
      from in_class_not_large [OF c' ps this] lg' show False by (simp add: st'(2))
    qed
    ultimately have pl': "p \<notin> live" "p \<notin> cached (threads st)" by auto
    then have "(insert p live - insert p (larges (st_used st))) \<union> cached (threads st) = ?out" by auto
    then have "kama_ok pl mapped (insert p live) st'"
      using c' q(2-4) pl' lists_ok_same [OF ss] by (auto simp: kama_ok_def st'(2) lg')
    moreover have "st_used st i = None \<and> st_used st' = (st_used st)(i \<mapsto> ?s) \<and> is_large ?s
        \<and> page_addr ?s = p \<and> n \<le> num_pages ?s * ?ps"
      using s(1) u(2) lg p big by (simp add: st'(2))
    ultimately show ?thesis using pl'(1) by blast
  qed
qed

section \<open>Extents\<close>

definition keeps :: "'o platform \<Rightarrow> nat set \<Rightarrow> (nat \<Rightarrow> span option) \<Rightarrow> (nat \<Rightarrow> span option) \<Rightarrow> bool" where
  "keeps pl live u v \<longleftrightarrow> (\<forall>q \<in> live. \<forall>m. fits pl u q m \<longrightarrow> fits pl v q m)"

lemma keeps_refl [simp]: "keeps pl live u u"
  by (simp add: keeps_def)

lemma keeps_frame:
  assumes ok: "central_ok pl mapped out cc" and ps: "0 < page_size pl"
    and f: "frame (live - larges (cc_used cc)) (cc_used cc) v"
  shows "keeps pl live (cc_used cc) v"
  unfolding keeps_def
proof (intro ballI allI impI)
  fix q m assume q: "q \<in> live" and h: "fits pl (cc_used cc) q m"
  show "fits pl v q m"
  proof (cases "m > max_bytes")
    case True
    with h f show ?thesis unfolding fits_def frame_def by (simp only: if_True) blast
  next
    case False
    with h have c: "in_class (cc_used cc) (get_index m) q" by (simp add: fits_def)
    from in_class_not_large [OF ok ps this] q have "q \<in> live - larges (cc_used cc)" by blast
    from in_class_frame [OF f c this] False show ?thesis by (simp add: fits_def)
  qed
qed

lemma keeps_add:
  assumes "u i = None" "is_large s"
  shows "keeps pl live u (u(i \<mapsto> s))"
  unfolding keeps_def
proof (intro ballI allI impI)
  fix q m assume q: "q \<in> live" and h: "fits pl u q m"
  show "fits pl (u(i \<mapsto> s)) q m"
  proof (cases "m > max_bytes")
    case True
    with h obtain j t where t: "u j = Some t" "is_large t" "page_addr t = q" "m \<le> num_pages t * page_size pl"
      by (auto simp: fits_def)
    with assms(1) have "(u(i \<mapsto> s)) j = Some t" by auto
    with t(2-) True show ?thesis by (auto simp: fits_def simp del: fun_upd_apply)
  next
    case False
    with h in_class_same [OF same_small_add [where u = u, OF assms]] show ?thesis by (simp add: fits_def)
  qed
qed

lemma keeps_remove:
  assumes "u i = Some s" "is_large s" "page_addr s \<notin> live"
  shows "keeps pl live u (u(i := None))"
  unfolding keeps_def
proof (intro ballI allI impI)
  fix q m assume q: "q \<in> live" and h: "fits pl u q m"
  show "fits pl (u(i := None)) q m"
  proof (cases "m > max_bytes")
    case True
    with h obtain j t where t: "u j = Some t" "is_large t" "page_addr t = q" "m \<le> num_pages t * page_size pl"
      by (auto simp: fits_def)
    with assms(1,3) q have "(u(i := None)) j = Some t" by auto
    with t(2-) True show ?thesis by (auto simp: fits_def simp del: fun_upd_apply)
  next
    case False
    with h in_class_same [OF same_small_remove [where u = u, OF assms(1,2)]] show ?thesis by (simp add: fits_def)
  qed
qed

text \<open>The span of an address.\<close>

lemma find_in_class:
  assumes ok: "central_ok pl mapped out cc" and ps: "0 < page_size pl"
    and s: "cc_used cc i = Some s" "\<not> is_large s" "x \<in> blocks_of s"
  shows "find_span pl (Some x) (page_cache_of cc) = Some i" and "size_class s < class_count"
proof -
  have pc: "pc_ok pl mapped (page_cache_of cc)" and sm: "small_ok pl out s"
    using ok spans_ok_small [of pl "cc_used cc" _ out i s] s by (auto simp: central_ok_def)
  from find_used [OF pc s(1) block_pages(1) [OF sm used_shape [OF pc s(1)] ps s(3)]]
  show "find_span pl (Some x) (page_cache_of cc) = Some i" by (simp add: find_span_def)
  show "size_class s < class_count" using sm unfolding small_ok_def by (elim conjE)
qed

lemma find_large:
  assumes ok: "central_ok pl mapped out cc" and s: "cc_used cc i = Some s"
  shows "find_span pl (Some (page_addr s)) (page_cache_of cc) = Some i"
proof -
  have pc: "pc_ok pl mapped (page_cache_of cc)" using ok by (simp add: central_ok_def)
  have "page_addr s div page_size pl \<in> pages_of pl s"
    using used_shape [OF pc s] by (simp add: pages_of_def shape_ok_def)
  from find_used [OF pc s this] show ?thesis by (simp add: find_span_def)
qed

section \<open>The contract of a thread cache\<close>

lemma tc_allocate_ok:
  assumes ok: "kama_ok pl mapped live st" and pl: "platform_ok pl mapped"
    and eq: "tc_allocate pl t n st = (r, st')"
  shows "r = None \<Longrightarrow> kama_ok pl mapped live st'"
    and "r = Some p \<Longrightarrow> p \<notin> live \<and> kama_ok pl mapped (insert p live) st'
      \<and> fits pl (st_used st') p (norm_bytes n)"
    and "keeps pl live (st_used st) (st_used st')"
proof -
  let ?n = "norm_bytes n"
  note ps = platform_pos [OF pl] and p1 = kama_ok_parts [OF ok]
  have "(r = None \<longrightarrow> kama_ok pl mapped live st')
    \<and> (\<forall>p. r = Some p \<longrightarrow> p \<notin> live \<and> kama_ok pl mapped (insert p live) st' \<and> fits pl (st_used st') p ?n)
    \<and> keeps pl live (st_used st) (st_used st')"
  proof (cases "?n > max_bytes")
    case True
    then have "allocate_large pl ?n st = (r, st')"
      using eq by (simp add: tc_allocate_def norm_bytes_def Let_def split: if_splits)
    note a = allocate_large_ok [OF ok pl this]
    show ?thesis
    proof (cases r)
      case None
      with a(1) show ?thesis by simp
    next
      case (Some p)
      with a(2) obtain i s where s: "st_used st i = None" "st_used st' = (st_used st)(i \<mapsto> s)"
        "is_large s" "page_addr s = p" "?n \<le> num_pages s * page_size pl" by blast
      then have "fits pl (st_used st') p ?n" using True by (auto simp: fits_def)
      with a(2) [OF Some] Some keeps_add [where u = "st_used st", OF s(1,3)] show ?thesis by (simp add: s(2))
    qed
  next
    case False
    let ?c = "get_index ?n"
    show ?thesis
    proof (cases "tc_list (threads st t) ?c")
      case Nil
      then have "fetch_from_central pl t ?c st = (r, st')"
        using eq False by (simp add: tc_allocate_def norm_bytes_def Let_def split: if_splits)
      note f = fetch_from_central_ok [OF ok pl Nil this]
      have "keeps pl live (st_used st) (st_used st')"
        by (rule keeps_frame [OF p1(1) ps]) (rule frame_mono [OF f(1)], simp)
      with f(2,3) False show ?thesis by (auto simp: fits_def)
    next
      case (Cons x l)
      then have e: "r = Some x" "st' = set_class t ?c l (tc_size (threads st t) ?c - 1) st"
        using eq False by (auto simp: tc_allocate_def norm_bytes_def Let_def split: if_splits)
      from pop_ok [OF ok Cons] False show ?thesis by (simp add: e fits_def)
    qed
  qed
  then show "r = None \<Longrightarrow> kama_ok pl mapped live st'"
    "r = Some p \<Longrightarrow> p \<notin> live \<and> kama_ok pl mapped (insert p live) st' \<and> fits pl (st_used st') p ?n"
    "keeps pl live (st_used st) (st_used st')" by blast+
qed

lemma push_block_keeps:
  assumes ok: "kama_ok pl mapped live st" and pl: "platform_ok pl mapped"
    and x: "x \<in> live" and cl: "in_class (st_used st) c x" and c: "c < class_count"
  shows "keeps pl (live - {x}) (st_used st) (st_used (push_block pl t c x st))"
  using push_block_ok(2) [OF ok pl x cl c, of t]
  by (rule keeps_frame [OF kama_ok_parts(1) [OF ok] platform_pos [OF pl]])

lemma tc_deallocate_ok:
  assumes ok: "kama_ok pl mapped live st" and pl: "platform_ok pl mapped" and p: "p \<in> live"
    and eq: "tc_deallocate pl t (Some p) st = (b, st')"
  shows "b" and "kama_ok pl mapped (live - {p}) st'" and "keeps pl (live - {p}) (st_used st) (st_used st')"
proof -
  note q = kama_ok_parts [OF ok] and ps = platform_pos [OF pl]
  let ?cc = "central st"
  have pc: "pc_ok pl mapped (page_cache_of ?cc)"
    and sp: "spans_ok pl (st_used st) (partial_spans ?cc) ((live - larges (st_used st)) \<union> cached (threads st))"
    using q(1) by (simp_all add: central_ok_def)
  have "b \<and> kama_ok pl mapped (live - {p}) st' \<and> keeps pl (live - {p}) (st_used st) (st_used st')"
  proof (cases "p \<in> larges (st_used st)")
    case True
    then obtain i s where s: "st_used st i = Some s" "is_large s" "page_addr s = p"
      by (auto simp: larges_def)
    have at: "span_at (page_cache_of ?cc) i = s" by (rule span_at_used [OF s(1)])
    define pc2 where "pc2 = deallocate_span pl (Some i) (page_cache_of ?cc)"
    have e: "b" "st' = st\<lparr>central := ?cc\<lparr>page_cache_of := pc2\<rparr>\<rparr>"
      using eq find_large [OF q(1) s(1)] s at by (simp_all add: tc_deallocate_def pc2_def Let_def)
    have d: "pc_ok pl mapped pc2" "used pc2 = (st_used st)(i := None)"
      using deallocate_span_ok [OF pc pl s(1)] by (simp_all add: pc2_def)
    note ss = same_small_remove [where u = "st_used st", OF s(1,2), folded d(2)]
    have lg: "larges (used pc2) = larges (st_used st) - {p}"
      using larges_remove [OF pc s(1)] by (simp add: d(2) s(3))
    have "(live - {p} - (larges (st_used st) - {p})) = live - larges (st_used st)" using True by auto
    then have "kama_ok pl mapped (live - {p}) st'"
      using d(1) spans_ok_same [OF ss, of pl] sp q(2-4) lists_ok_same [OF ss]
      by (auto simp: kama_ok_def central_ok_def e(2) lg)
    moreover have "keeps pl (live - {p}) (st_used st) (st_used st')"
      using keeps_remove [where u = "st_used st" and live = "live - {p}" and pl = pl, OF s(1,2)] s(3)
      by (simp add: e(2) d(2))
    ultimately show ?thesis using e(1) by blast
  next
    case False
    with p have "p \<in> (live - larges (st_used st)) \<union> cached (threads st)" by blast
    then obtain i s where s: "st_used st i = Some s" "\<not> is_large s" "p \<in> blocks_of s"
      by (rule spans_ok_out [OF sp])
    note f = find_in_class [OF q(1) ps s]
    have at: "span_at (page_cache_of ?cc) i = s" by (rule span_at_used [OF s(1)])
    have e: "b" "st' = push_block pl t (size_class s) p st"
      using eq f s(2) at by (simp_all add: tc_deallocate_def Let_def)
    have cl: "in_class (st_used st) (size_class s) p" using s unfolding in_class_def by blast
    from push_block_ok(1) [OF ok pl p cl f(2), of t] push_block_keeps [OF ok pl p cl f(2), of t] e(1)
    show ?thesis unfolding e(2) by blast
  qed
  then show "b" "kama_ok pl mapped (live - {p}) st'" "keeps pl (live - {p}) (st_used st) (st_used st')"
    by blast+
qed

lemma tc_deallocate_sized_ok:
  assumes ok: "kama_ok pl mapped live st" and pl: "platform_ok pl mapped" and p: "p \<in> live"
    and n: "fits pl (st_used st) p (norm_bytes n)"
    and eq: "tc_deallocate_sized pl t (Some p) n st = (b, st')"
  shows "b" and "kama_ok pl mapped (live - {p}) st'" and "keeps pl (live - {p}) (st_used st) (st_used st')"
proof -
  let ?n = "norm_bytes n"
  have "b \<and> kama_ok pl mapped (live - {p}) st' \<and> keeps pl (live - {p}) (st_used st) (st_used st')"
  proof (cases "?n > max_bytes")
    case True
    then have "tc_deallocate pl t (Some p) st = (b, st')"
      using eq by (simp add: tc_deallocate_sized_def norm_bytes_def Let_def split: if_splits)
    from tc_deallocate_ok [OF ok pl p this] show ?thesis by blast
  next
    case False
    let ?c = "get_index ?n"
    have c: "?c < class_count" using False get_index_less [of ?n] by simp
    have ru: "get_index (round_up ?n) = ?c"
      using False c get_index_size [of ?c] by (simp add: round_up_def get_size_def)
    have e: "b" "st' = push_block pl t ?c p st"
      using eq False ru c by (simp_all add: tc_deallocate_sized_def norm_bytes_def Let_def split: if_splits)
    have cl: "in_class (st_used st) ?c p" using n False by (simp add: fits_def)
    from push_block_ok(1) [OF ok pl p cl c, of t] push_block_keeps [OF ok pl p cl c, of t] e(1)
    show ?thesis unfolding e(2) by blast
  qed
  then show "b" "kama_ok pl mapped (live - {p}) st'" "keeps pl (live - {p}) (st_used st) (st_used st')"
    by blast+
qed

lemma flush_all_keeps:
  assumes "platform_ok pl mapped" "kama_ok pl mapped live st"
  shows "keeps pl live (st_used st) (st_used (flush_all pl t st))"
  using flush_all_ok(2) [OF assms] by (rule keeps_frame [OF kama_ok_parts(1) [OF assms(2)] platform_pos [OF assms(1)]])

end
