(* ===== verification/Extent_Facts.thy ===== *)
theory Extent_Facts
  imports Block_Extents
begin

text \<open>
  Where the extents of the addresses in use lie: inside the pages of their span, hence in memory
  the system has mapped, apart from each other, and aligned as far as their class and the page
  size allow.
\<close>

lemma platform_pow: "platform_ok pl mapped \<Longrightarrow> \<exists>k. page_size pl = 2 ^ k"
  using platform_ok_dest(1) by blast

lemma class_holds: "0 < n \<Longrightarrow> n \<le> max_bytes \<Longrightarrow> n \<le> get_size (get_index n)"
  using get_index_class [of n] by (simp add: is_class_def get_size_def)

lemma fits_span:
  assumes ok: "central_ok pl mapped out cc" and ps: "0 < page_size pl"
    and f: "fits pl (cc_used cc) p n" and n: "0 < n"
  obtains i s where "cc_used cc i = Some s" "page_addr s \<le> p"
    "p + n \<le> page_addr s + num_pages s * page_size pl"
    "if is_large s then p = page_addr s else p \<in> blocks_of s \<and> n \<le> block_size s"
proof (cases "n > max_bytes")
  case True
  with f that show thesis by (auto simp: fits_def)
next
  case False
  with f obtain i s where s: "cc_used cc i = Some s" "\<not> is_large s" "size_class s = get_index n"
    "p \<in> blocks_of s" by (auto simp: fits_def in_class_def)
  have pc: "pc_ok pl mapped (page_cache_of cc)" and sm: "small_ok pl out s"
    using ok spans_ok_small [of pl "cc_used cc" _ out i s] s by (auto simp: central_ok_def)
  have "block_size s = get_size (get_index n)"
    using sm s(3) unfolding small_ok_def by (elim conjE) simp
  with class_holds [OF n] False have "n \<le> block_size s" by simp
  with block_pages(2,3) [OF sm used_shape [OF pc s(1)] ps s(4)] s show thesis
    by (intro that [of i s]) simp_all
qed

lemma used_bytes_disjoint:
  assumes pc: "pc_ok pl mapped pc" and s: "used pc i = Some s" and t: "used pc j = Some t" and ij: "i \<noteq> j"
    and y: "page_addr s \<le> y" "y < page_addr s + num_pages s * page_size pl"
      "page_addr t \<le> y" "y < page_addr t + num_pages t * page_size pl"
    and ps: "0 < page_size pl"
  shows False
proof -
  have "y div page_size pl \<in> pages_of pl r"
    if "used pc k = Some r" "page_addr r \<le> y" "y < page_addr r + num_pages r * page_size pl" for k r
  proof -
    have d: "page_addr r = page_addr r div page_size pl * page_size pl"
      by (rule shape_page_div(1) [OF used_shape [OF pc that(1)] ps])
    have "page_addr r div page_size pl \<le> y div page_size pl" using that(2) by (rule div_le_mono)
    moreover have "y < (page_addr r div page_size pl + num_pages r) * page_size pl"
      using that(3) d by (simp add: add_mult_distrib)
    then have "y div page_size pl < page_addr r div page_size pl + num_pages r"
      using ps by (simp add: div_less_iff_less_mult)
    ultimately show ?thesis by (simp add: pages_of_def)
  qed
  from this [OF s y(1,2)] this [OF t y(3,4)] used_pages_disjoint [OF pc s t ij] show False by blast
qed

lemma block_gap:
  assumes "p \<in> blocks_of s" "q \<in> blocks_of s" "p < q"
  shows "p + block_size s \<le> q"
proof -
  obtain k m where km: "p = page_addr s + k * block_size s" "q = page_addr s + m * block_size s"
    using assms(1,2) by (auto simp: blocks_of_def block_list_def)
  with assms(3) have "k < m" using mult_le_mono1 [of m k "block_size s"] by (meson add_le_cancel_left not_le)
  then have "Suc k * block_size s \<le> m * block_size s" by (intro mult_le_mono1) simp
  then show ?thesis by (simp add: km)
qed

lemma fits_disjoint:
  assumes ok: "central_ok pl mapped out cc" and ps: "0 < page_size pl"
    and f: "fits pl (cc_used cc) p n" "fits pl (cc_used cc) q m" and pos: "0 < n" "0 < m" and pq: "p \<noteq> q"
  shows "{p ..< p + n} \<inter> {q ..< q + m} = {}"
proof (rule ccontr)
  assume "{p ..< p + n} \<inter> {q ..< q + m} \<noteq> {}"
  then obtain y where "y \<in> {p ..< p + n} \<inter> {q ..< q + m}" by blast
  then have y: "p \<le> y" "y < p + n" "q \<le> y" "y < q + m" by simp_all
  obtain i s where s: "cc_used cc i = Some s" "page_addr s \<le> p"
    "p + n \<le> page_addr s + num_pages s * page_size pl"
    "if is_large s then p = page_addr s else p \<in> blocks_of s \<and> n \<le> block_size s"
    by (rule fits_span [OF ok ps f(1) pos(1)])
  obtain j t where t: "cc_used cc j = Some t" "page_addr t \<le> q"
    "q + m \<le> page_addr t + num_pages t * page_size pl"
    "if is_large t then q = page_addr t else q \<in> blocks_of t \<and> m \<le> block_size t"
    by (rule fits_span [OF ok ps f(2) pos(2)])
  have pc: "pc_ok pl mapped (page_cache_of cc)" using ok by (simp add: central_ok_def)
  show False
  proof (cases "i = j")
    case True
    with s t pq have "p \<in> blocks_of s" "q \<in> blocks_of s" "n \<le> block_size s" "m \<le> block_size s"
      by (auto split: if_splits)
    with block_gap [of p s q] block_gap [of q s p] y pq show False by (cases "p < q") auto
  next
    case False
    show False
      by (rule used_bytes_disjoint [OF pc s(1) t(1) False _ _ _ _ ps, of y]) (use s t y in auto)
  qed
qed

text \<open>An extent is mapped memory, not at the null address.\<close>

lemma fits_mapped:
  assumes ok: "central_ok pl mapped out cc" and ps: "0 < page_size pl"
    and f: "fits pl (cc_used cc) p n" and n: "0 < n"
  shows "0 < p" and "p + n \<le> 2 ^ 64"
    and "y \<in> {p ..< p + n} \<Longrightarrow> y div page_size pl \<in> mapped (os_state (page_cache_of cc))"
proof -
  obtain i s where s: "cc_used cc i = Some s" "page_addr s \<le> p"
    "p + n \<le> page_addr s + num_pages s * page_size pl"
    by (rule fits_span [OF ok ps f n])
  have pc: "pc_ok pl mapped (page_cache_of cc)" using ok by (simp add: central_ok_def)
  note sh = used_shape [OF pc s(1)]
  let ?b = "origin_pages s * page_size pl"
  have mem: "(origin_addr s, ?b) \<in> set (system_allocs (page_cache_of cc))"
    and le: "origin_addr s \<le> page_addr s" "page_addr s + num_pages s * page_size pl \<le> origin_addr s + ?b"
    using sh by (simp_all add: shape_ok_def)
  from pc mem have o: "0 < origin_addr s" "origin_addr s + ?b \<le> 2 ^ 64"
    "region pl (origin_addr s) ?b \<subseteq> mapped (os_state (page_cache_of cc))"
    unfolding pc_ok_def allocs_ok_def by auto
  show "0 < p" "p + n \<le> 2 ^ 64" using o le s by linarith+
  show "y div page_size pl \<in> mapped (os_state (page_cache_of cc))" if "y \<in> {p ..< p + n}"
  proof -
    have d: "page_size pl dvd origin_addr s" using sh by (simp add: shape_ok_def)
    have "origin_addr s div page_size pl \<le> y div page_size pl" using that s le by (intro div_le_mono) auto
    moreover have "y < (origin_addr s div page_size pl + origin_pages s) * page_size pl"
      using that s le d by (auto simp: add_mult_distrib)
    then have "y div page_size pl < origin_addr s div page_size pl + origin_pages s"
      using ps by (simp add: div_less_iff_less_mult)
    ultimately show ?thesis using o(3) region_mult [OF d ps, of "origin_pages s"] by auto
  qed
qed

section \<open>Alignment\<close>

lemma fits_aligned:
  assumes ok: "central_ok pl mapped out cc" and f: "fits pl (cc_used cc) p n" and n: "0 < n"
    and a: "a \<le> 18" "a \<le> 3 \<or> 2 ^ a dvd n" "2 ^ a dvd page_size pl"
  shows "2 ^ a dvd p"
proof -
  have pc: "pc_ok pl mapped (page_cache_of cc)" using ok by (simp add: central_ok_def)
  have page: "2 ^ a dvd page_addr s" if "cc_used cc i = Some s" for i s
  proof -
    have "page_size pl dvd page_addr s" using used_shape [OF pc that] by (simp add: shape_ok_def)
    with a(3) show ?thesis by (rule dvd_trans)
  qed
  show ?thesis
  proof (cases "n > max_bytes")
    case True
    with f page show ?thesis by (auto simp: fits_def)
  next
    case False
    with f obtain i s where s: "cc_used cc i = Some s" "\<not> is_large s" "size_class s = get_index n"
      "p \<in> blocks_of s" by (auto simp: fits_def in_class_def)
    have "small_ok pl out s" using ok spans_ok_small [of pl "cc_used cc" _ out i s] s
      by (auto simp: central_ok_def)
    then have "block_size s = round_up n"
      using s(3) False unfolding small_ok_def by (elim conjE) (simp add: round_up_def)
    moreover have "2 ^ a dvd round_up n"
    proof (cases "a \<le> 3")
      case True
      then have "(2 :: nat) ^ a dvd 2 ^ 3" by (rule le_imp_power_dvd)
      also have "2 ^ 3 dvd round_up n"
        using size_table_dvd [OF get_index_less] False by (simp add: round_up_def get_size_def)
      finally show ?thesis .
    next
      case False
      with aligned_class [OF a(1) n] a(2) \<open>\<not> n > max_bytes\<close> show ?thesis by simp
    qed
    ultimately have "2 ^ a dvd block_size s" by simp
    moreover obtain k where "p = page_addr s + k * block_size s"
      using s(4) by (auto simp: blocks_of_def block_list_def)
    ultimately show ?thesis using page [OF s(1)] by simp
  qed
qed

text \<open>\<open>n & (n - 1)\<close> is zero exactly for the powers of two (and zero).\<close>

lemma and_pred_nat: "0 < n \<Longrightarrow> and n (n - 1) = 0 \<longleftrightarrow> (\<exists>k. n = 2 ^ k)" for n :: nat
proof (induction n rule: less_induct)
  case (less n)
  show ?case
  proof (cases "even n")
    case True
    with less.prems obtain m where m: "n = 2 * m" "0 < m" by auto
    then obtain j where j: "m = Suc j" by (cases m) auto
    have "and n (n - 1) = 2 * and m (m - 1)"
      using and_rec [of "2 * m" "2 * j + 1"] by (simp add: m(1) j)
    then have "and n (n - 1) = 0 \<longleftrightarrow> (\<exists>k. m = 2 ^ k)"
      using less.IH [of m] m by simp
    also have "\<dots> \<longleftrightarrow> (\<exists>k. n = 2 ^ k)"
    proof
      assume "\<exists>k. m = 2 ^ k"
      then obtain k where "n = 2 ^ Suc k" using m(1) by auto
      then show "\<exists>k. n = 2 ^ k" ..
    next
      assume "\<exists>k. n = 2 ^ k"
      then obtain k where k: "n = 2 ^ k" ..
      with True have "k \<noteq> 0" by (cases k) auto
      then obtain j where "k = Suc j" by (cases k) auto
      with k m(1) show "\<exists>k. m = 2 ^ k" by auto
    qed
    finally show ?thesis .
  next
    case False
    then have odd: "odd n" by simp
    then obtain m where m: "n = 2 * m + 1" by (elim oddE)
    then have "and n (n - 1) = 2 * m" by (subst and_rec) simp
    then have "and n (n - 1) = 0 \<longleftrightarrow> n = 1" using m by auto
    also have "\<dots> \<longleftrightarrow> (\<exists>k. n = 2 ^ k)"
    proof
      assume "\<exists>k. n = 2 ^ k"
      then obtain k where k: "n = 2 ^ k" ..
      with odd show "n = 1" by (cases k) auto
    qed (auto intro: exI [of _ 0])
    finally show ?thesis .
  qed
qed

lemma word_and_pred:
  assumes "0 < n" "n < 2 ^ 64"
  shows "word_and n (n - 1) = 0 \<longleftrightarrow> (\<exists>k. n = 2 ^ k)"
proof -
  have u: "unat (of_nat m :: 64 word) = m" if "m < 2 ^ 64" for m
    using that by (simp add: unat_of_nat)
  have "word_and n (n - 1) = and n (n - 1)"
    unfolding word_and_def unsigned_and_eq using assms by (subst (1 2) u) auto
  with and_pred_nat [OF assms(1)] show ?thesis by simp
qed

end
