(* ===== verification/Kama_Pool.thy ===== *)
theory Kama_Pool
  imports Extent_Facts
begin

text \<open>
  The front end of the allocator (vendor_memorypool/v3/src/MemoryPool.cpp, kama_c_api.cpp and
  include/kama/Allocator.h): the calls of a program on any of its threads, the statistics, and the
  system that all the calls make, with the addresses the program holds. What holds in every
  reachable state is the contract the users of the allocator rest on.
\<close>

section \<open>Calls\<close>

definition record_allocation :: "nat \<Rightarrow> 'o kama \<Rightarrow> 'o kama" where
  "record_allocation n st =
     st\<lparr>counts := (counts st)
          \<lparr>alloc_count := wadd (alloc_count (counts st)) 1,
           large_alloc_count := (if n > max_bytes then wadd (large_alloc_count (counts st)) 1
                                 else large_alloc_count (counts st)),
           small_alloc_count := (if n > max_bytes then small_alloc_count (counts st)
                                 else wadd (small_alloc_count (counts st)) 1)\<rparr>\<rparr>"

definition record_free :: "bool \<Rightarrow> 'o kama \<Rightarrow> 'o kama" where
  "record_free sized st =
     st\<lparr>counts := (counts st)
          \<lparr>freed_count := wadd (freed_count (counts st)) 1,
           sized_free_count := (if sized then wadd (sized_free_count (counts st)) 1
                                else sized_free_count (counts st)),
           unsized_free_count := (if sized then unsized_free_count (counts st)
                                  else wadd (unsized_free_count (counts st)) 1)\<rparr>\<rparr>"

definition kama_allocate :: "'o platform \<Rightarrow> nat \<Rightarrow> nat \<Rightarrow> 'o kama \<Rightarrow> nat option \<times> 'o kama" where
  "kama_allocate pl t n st =
     (case tc_allocate pl t n st of
        (None, st1) \<Rightarrow> (None, st1)
      | (Some p, st1) \<Rightarrow> (Some p, record_allocation n st1))"

definition kama_allocate_aligned ::
  "'o platform \<Rightarrow> nat \<Rightarrow> nat \<Rightarrow> nat \<Rightarrow> 'o kama \<Rightarrow> nat option \<times> 'o kama"
where
  "kama_allocate_aligned pl t n alignment st =
     (case tc_allocate_aligned pl t n alignment st of
        (None, st1) \<Rightarrow> (None, st1)
      | (Some p, st1) \<Rightarrow> (Some p, record_allocation n st1))"

definition kama_deallocate :: "'o platform \<Rightarrow> nat \<Rightarrow> nat option \<Rightarrow> 'o kama \<Rightarrow> 'o kama" where
  "kama_deallocate pl t ptr st =
     (if ptr = None then st
      else (case tc_deallocate pl t ptr st of
              (True, st1) \<Rightarrow> record_free False st1
            | (False, st1) \<Rightarrow> st1))"

definition kama_deallocate_sized :: "'o platform \<Rightarrow> nat \<Rightarrow> nat option \<Rightarrow> nat \<Rightarrow> 'o kama \<Rightarrow> 'o kama" where
  "kama_deallocate_sized pl t ptr n st =
     (if ptr = None then st
      else (case tc_deallocate_sized pl t ptr n st of
              (True, st1) \<Rightarrow> record_free True st1
            | (False, st1) \<Rightarrow> st1))"

record memory_pool_stats =
  stat_counts :: counters
  live_allocs :: nat
  stat_reserved_bytes :: nat
  stat_cached_page_bytes :: nat

definition kama_stats :: "'o platform \<Rightarrow> 'o kama \<Rightarrow> memory_pool_stats" where
  "kama_stats pl st =
     (let a = alloc_count (counts st); f = freed_count (counts st); pc = page_cache_of (central st) in
      \<lparr>stat_counts = counts st, live_allocs = (if a > f then a - f else 0),
       stat_reserved_bytes = reserved_bytes pc, stat_cached_page_bytes = cached_page_bytes pl pc\<rparr>)"

text \<open>The C functions are the same calls.\<close>

definition kama_alloc :: "'o platform \<Rightarrow> nat \<Rightarrow> nat \<Rightarrow> 'o kama \<Rightarrow> nat option \<times> 'o kama" where
  "kama_alloc pl t n st = kama_allocate pl t n st"

definition kama_alloc_aligned ::
  "'o platform \<Rightarrow> nat \<Rightarrow> nat \<Rightarrow> nat \<Rightarrow> 'o kama \<Rightarrow> nat option \<times> 'o kama"
where
  "kama_alloc_aligned pl t n alignment st = kama_allocate_aligned pl t n alignment st"

definition kama_free :: "'o platform \<Rightarrow> nat \<Rightarrow> nat option \<Rightarrow> 'o kama \<Rightarrow> 'o kama" where
  "kama_free pl t ptr st = kama_deallocate pl t ptr st"

definition kama_free_sized :: "'o platform \<Rightarrow> nat \<Rightarrow> nat option \<Rightarrow> nat \<Rightarrow> 'o kama \<Rightarrow> 'o kama" where
  "kama_free_sized pl t ptr n st = kama_deallocate_sized pl t ptr n st"

text \<open>
  The allocator of containers, for elements of \<open>size\<close> bytes at \<open>alignment\<close>: an array that is too
  long throws \<open>bad_array_new_length\<close>, which is a \<open>bad_alloc\<close>.
\<close>

definition allocator_allocate ::
  "'o platform \<Rightarrow> nat \<Rightarrow> nat \<Rightarrow> nat \<Rightarrow> nat \<Rightarrow> 'o kama \<Rightarrow> nat option result \<times> 'o kama"
where
  "allocator_allocate pl t bytes alignment n st =
     (if n = 0 then (Inr None, st)
      else if n > size_max div bytes then (Inl BadAlloc, st)
      else
        (case kama_allocate_aligned pl t (n * bytes) alignment st of
           (None, st1) \<Rightarrow> (Inl BadAlloc, st1)
         | (Some p, st1) \<Rightarrow> (Inr (Some p), st1)))"

definition allocator_deallocate ::
  "'o platform \<Rightarrow> nat \<Rightarrow> nat \<Rightarrow> nat \<Rightarrow> nat option \<Rightarrow> nat \<Rightarrow> 'o kama \<Rightarrow> 'o kama"
where
  "allocator_deallocate pl t bytes alignment ptr n st =
     (if alignment \<le> k_alignment then kama_deallocate_sized pl t ptr (wmul n bytes) st
      else kama_deallocate pl t ptr st)"

section \<open>Contracts of the calls\<close>

lemma record_call_fields [simp]:
  "central (record_allocation n st) = central st" "threads (record_allocation n st) = threads st"
  "central (record_free b st) = central st" "threads (record_free b st) = threads st"
  by (simp_all add: record_allocation_def record_free_def)

lemma record_call_ok [simp]:
  "kama_ok pl mapped live (record_allocation n st) = kama_ok pl mapped live st"
  "kama_ok pl mapped live (record_free b st) = kama_ok pl mapped live st"
  by (simp_all add: kama_ok_def)

text \<open>What \<open>allocateAligned\<close> asks of \<open>allocate\<close>.\<close>

definition aligned_bytes :: "nat \<Rightarrow> nat \<Rightarrow> nat" where
  "aligned_bytes n alignment =
     (if alignment \<le> k_alignment then n else and_not (n + alignment - 1) (alignment - 1))"

lemma tc_allocate_aligned_cases:
  assumes "tc_allocate_aligned pl t n a st = (r, st')"
  shows "(r = None \<and> st' = st) \<or> tc_allocate pl t (aligned_bytes n a) st = (r, st')"
  using assms unfolding tc_allocate_aligned_def aligned_bytes_def
  by (simp split: if_splits)

definition kama_valid :: "'o platform \<Rightarrow> ('o \<Rightarrow> nat set) \<Rightarrow> 'o kama \<times> (nat \<rightharpoonup> nat) \<Rightarrow> bool" where
  "kama_valid pl mapped s \<longleftrightarrow>
     kama_ok pl mapped (dom (snd s)) (fst s)
     \<and> (\<forall>p n. snd s p = Some n \<longrightarrow> fits pl (st_used (fst s)) p (norm_bytes n))"

lemma kama_valid_add:
  assumes v: "kama_valid pl mapped (st, h)" and p: "p \<notin> dom h" "kama_ok pl mapped (insert p (dom h)) st'"
    "fits pl (st_used st') p (norm_bytes n)" and k: "keeps pl (dom h) (st_used st) (st_used st')"
  shows "kama_valid pl mapped (st', h(p \<mapsto> n))"
  using assms unfolding kama_valid_def keeps_def by (auto split: if_splits) (metis domI)

lemma kama_valid_same:
  assumes v: "kama_valid pl mapped (st, h)" and "kama_ok pl mapped (dom h) st'"
    and k: "keeps pl (dom h) (st_used st) (st_used st')"
  shows "kama_valid pl mapped (st', h)"
  using assms unfolding kama_valid_def keeps_def by auto

lemma kama_valid_remove:
  assumes v: "kama_valid pl mapped (st, h)" and "kama_ok pl mapped (dom h - {p}) st'"
    and k: "keeps pl (dom h - {p}) (st_used st) (st_used st')"
  shows "kama_valid pl mapped (st', h(p := None))"
  using assms unfolding kama_valid_def keeps_def by auto

lemma tc_allocate_valid:
  assumes v: "kama_valid pl mapped (st, h)" and pl: "platform_ok pl mapped"
    and eq: "tc_allocate pl t n st = (r, st')"
  shows "r = None \<Longrightarrow> kama_valid pl mapped (st', h)"
    and "r = Some p \<Longrightarrow> p \<notin> dom h \<and> kama_valid pl mapped (st', h(p \<mapsto> n))"
proof -
  have ok: "kama_ok pl mapped (dom h) st" using v by (simp add: kama_valid_def)
  note a = tc_allocate_ok [OF ok pl eq]
  show "kama_valid pl mapped (st', h)" if "r = None"
    by (rule kama_valid_same [OF v a(1) a(3)]) (rule that)
  show "p \<notin> dom h \<and> kama_valid pl mapped (st', h(p \<mapsto> n))" if "r = Some p"
    using a(2) [OF that] kama_valid_add [OF v _ _ _ a(3)] by blast
qed

lemma kama_valid_record [simp]:
  "kama_valid pl mapped (record_allocation n st, h) = kama_valid pl mapped (st, h)"
  "kama_valid pl mapped (record_free b st, h) = kama_valid pl mapped (st, h)"
  by (simp_all add: kama_valid_def)

lemma kama_allocate_valid:
  assumes v: "kama_valid pl mapped (st, h)" and pl: "platform_ok pl mapped"
    and eq: "kama_allocate pl t n st = (r, st')"
  shows "r = None \<Longrightarrow> kama_valid pl mapped (st', h)"
    and "r = Some p \<Longrightarrow> p \<notin> dom h \<and> kama_valid pl mapped (st', h(p \<mapsto> n))"
proof -
  obtain q st1 where t: "tc_allocate pl t n st = (q, st1)" by fastforce
  have "r = q" "st' = (if q = None then st1 else record_allocation n st1)"
    using eq t by (auto simp: kama_allocate_def split: option.splits)
  with tc_allocate_valid [OF v pl t] show "r = None \<Longrightarrow> kama_valid pl mapped (st', h)"
    "r = Some p \<Longrightarrow> p \<notin> dom h \<and> kama_valid pl mapped (st', h(p \<mapsto> n))" by simp_all
qed

lemma kama_allocate_aligned_valid:
  assumes v: "kama_valid pl mapped (st, h)" and pl: "platform_ok pl mapped"
    and eq: "kama_allocate_aligned pl t n a st = (r, st')"
  shows "r = None \<Longrightarrow> kama_valid pl mapped (st', h)"
    and "r = Some p \<Longrightarrow> p \<notin> dom h \<and> kama_valid pl mapped (st', h(p \<mapsto> aligned_bytes n a))"
proof -
  obtain q st1 where t: "tc_allocate_aligned pl t n a st = (q, st1)" by fastforce
  have e: "r = q" "st' = (if q = None then st1 else record_allocation n st1)"
    using eq t by (auto simp: kama_allocate_aligned_def split: option.splits)
  from tc_allocate_aligned_cases [OF t]
  have "(r = None \<longrightarrow> kama_valid pl mapped (st', h))
      \<and> (r = Some p \<longrightarrow> p \<notin> dom h \<and> kama_valid pl mapped (st', h(p \<mapsto> aligned_bytes n a)))"
  proof
    assume "q = None \<and> st1 = st"
    with v e show ?thesis by simp
  next
    assume "tc_allocate pl t (aligned_bytes n a) st = (q, st1)"
    from tc_allocate_valid [OF v pl this] e show ?thesis by simp
  qed
  then show "r = None \<Longrightarrow> kama_valid pl mapped (st', h)"
    "r = Some p \<Longrightarrow> p \<notin> dom h \<and> kama_valid pl mapped (st', h(p \<mapsto> aligned_bytes n a))" by simp_all
qed

lemma kama_deallocate_valid:
  assumes v: "kama_valid pl mapped (st, h)" and pl: "platform_ok pl mapped" and p: "p \<in> dom h"
  shows "kama_valid pl mapped (kama_deallocate pl t (Some p) st, h(p := None))"
proof -
  have ok: "kama_ok pl mapped (dom h) st" using v by (simp add: kama_valid_def)
  obtain b st1 where d: "tc_deallocate pl t (Some p) st = (b, st1)" by fastforce
  note t = tc_deallocate_ok [OF ok pl p d]
  have "kama_deallocate pl t (Some p) st = record_free False st1"
    using t(1) by (simp add: kama_deallocate_def d)
  with kama_valid_remove [OF v t(2,3)] show ?thesis by simp
qed

lemma kama_deallocate_sized_valid:
  assumes v: "kama_valid pl mapped (st, h)" and pl: "platform_ok pl mapped" and p: "h p = Some n"
  shows "kama_valid pl mapped (kama_deallocate_sized pl t (Some p) n st, h(p := None))"
proof -
  have ok: "kama_ok pl mapped (dom h) st" and f: "fits pl (st_used st) p (norm_bytes n)"
    using v p by (simp_all add: kama_valid_def)
  obtain b st1 where d: "tc_deallocate_sized pl t (Some p) n st = (b, st1)" by fastforce
  note t = tc_deallocate_sized_ok [OF ok pl domI [of h, OF p] f d]
  have "kama_deallocate_sized pl t (Some p) n st = record_free True st1"
    using t(1) by (simp add: kama_deallocate_sized_def d)
  with kama_valid_remove [OF v t(2,3)] show ?thesis by simp
qed

lemma flush_all_valid:
  assumes "kama_valid pl mapped (st, h)" and "platform_ok pl mapped"
  shows "kama_valid pl mapped (flush_all pl t st, h)"
proof -
  have ok: "kama_ok pl mapped (dom h) st" using assms(1) by (simp add: kama_valid_def)
  show ?thesis
    by (rule kama_valid_same [OF assms(1) flush_all_ok(1) [OF assms(2) ok] flush_all_keeps [OF assms(2) ok]])
qed

end
