(* ===== verification/Kama_System.thy ===== *)
theory Kama_System
  imports Kama_Pool
begin

text \<open>
  The allocator as a system: a state is the allocator's and the addresses the program holds, with
  the bytes each was asked for; a step is one call on some thread, or the end of a thread, which
  flushes its cache. A program frees only what it holds, and tells a sized free the size it
  asked for. The statements about every reachable state rest on the contracts of the calls.
\<close>

section \<open>Steps\<close>

inductive kama_step ::
  "'o platform \<Rightarrow> 'o kama \<times> (nat \<rightharpoonup> nat) \<Rightarrow> 'o kama \<times> (nat \<rightharpoonup> nat) \<Rightarrow> bool" for pl
where
  step_alloc: "kama_allocate pl t n st = (Some p, st') \<Longrightarrow> kama_step pl (st, h) (st', h(p \<mapsto> n))"
| step_alloc_fail: "kama_allocate pl t n st = (None, st') \<Longrightarrow> kama_step pl (st, h) (st', h)"
| step_aligned: "kama_allocate_aligned pl t n a st = (Some p, st')
    \<Longrightarrow> kama_step pl (st, h) (st', h(p \<mapsto> aligned_bytes n a))"
| step_aligned_fail: "kama_allocate_aligned pl t n a st = (None, st') \<Longrightarrow> kama_step pl (st, h) (st', h)"
| step_free: "p \<in> dom h \<Longrightarrow> kama_step pl (st, h) (kama_deallocate pl t (Some p) st, h(p := None))"
| step_free_sized: "h p = Some n
    \<Longrightarrow> kama_step pl (st, h) (kama_deallocate_sized pl t (Some p) n st, h(p := None))"
| step_free_null: "kama_step pl (st, h) (kama_deallocate pl t None st, h)"
| step_flush: "kama_step pl (st, h) (flush_all pl t st, h)"

inductive_cases kama_stepE: "kama_step pl (st, h) (st', h')"

definition kama_start :: "'o kama \<times> (nat \<rightharpoonup> nat) \<Rightarrow> bool" where
  "kama_start s \<longleftrightarrow> (\<exists>w. s = (kama_new w, Map.empty))"

definition kama_invar :: "'o platform \<Rightarrow> ('o \<Rightarrow> nat set) \<Rightarrow> 'o kama \<times> (nat \<rightharpoonup> nat) \<Rightarrow> bool" where
  "kama_invar pl mapped s \<longleftrightarrow> platform_ok pl mapped \<longrightarrow> kama_valid pl mapped s"

lemma page_cache_new_ok: "pc_ok pl mapped (page_cache_new w)"
  by (simp add: page_cache_new_def pc_ok_defs free_list_at_def omap_ok_def free_ids_def)

lemma kama_new_valid: "kama_valid pl mapped (kama_new w, Map.empty)"
proof -
  have u: "st_used (kama_new w) = Map.empty"
    by (simp add: kama_new_def central_cache_new_def page_cache_new_def used_def fun_eq_iff)
  have c: "cached (threads (kama_new w)) = {}"
    by (simp add: kama_new_def cached_def thread_cache_new_def)
  have "lists_ok Map.empty (threads (kama_new w))"
    by (simp add: lists_ok_def kama_new_def thread_cache_new_def)
  moreover have "central_ok pl mapped {} (central (kama_new w))"
    unfolding central_ok_def spans_ok_def
    by (simp add: kama_new_def central_cache_new_def page_cache_new_ok)
      (simp add: page_cache_new_def used_def)
  ultimately have "kama_ok pl mapped {} (kama_new w)"
    unfolding kama_ok_def u c by (simp add: larges_def)
  then show ?thesis by (simp add: kama_valid_def)
qed

lemma kama_step_valid:
  assumes "kama_step pl s s'" and "kama_valid pl mapped s" and pl: "platform_ok pl mapped"
  shows "kama_valid pl mapped s'"
  using assms(1,2)
proof (induction rule: kama_step.induct)
  case (step_alloc t n st p st' h)
  from kama_allocate_valid(2) [OF step_alloc.prems pl step_alloc.hyps refl] show ?case by simp
next
  case (step_alloc_fail t n st st' h)
  from kama_allocate_valid(1) [OF step_alloc_fail.prems pl step_alloc_fail.hyps refl] show ?case .
next
  case (step_aligned t n a st p st' h)
  from kama_allocate_aligned_valid(2) [OF step_aligned.prems pl step_aligned.hyps refl] show ?case by simp
next
  case (step_aligned_fail t n a st st' h)
  from kama_allocate_aligned_valid(1) [OF step_aligned_fail.prems pl step_aligned_fail.hyps refl] show ?case .
next
  case (step_free p h st t)
  from kama_deallocate_valid [OF step_free.prems pl step_free.hyps] show ?case .
next
  case (step_free_sized h p n st t)
  from kama_deallocate_sized_valid [OF step_free_sized.prems pl step_free_sized.hyps] show ?case .
next
  case (step_free_null st h t)
  then show ?case by (simp add: kama_deallocate_def)
next
  case (step_flush st h t)
  from flush_all_valid [OF step_flush.prems pl] show ?case .
qed

interpretation kama: invariant_system kama_start "kama_step pl" "kama_invar pl mapped"
  for pl :: "'o platform" and mapped
  by unfold_locales (auto simp: kama_start_def kama_invar_def kama_new_valid intro: kama_step_valid)

lemma reachable_valid:
  assumes "platform_ok pl mapped" "kama_start s" "(kama_step pl)\<^sup>*\<^sup>* s s'"
  shows "kama_valid pl mapped s'"
  using kama.reachable_invar [OF assms(2,3), of mapped] assms(1) by (simp add: kama_invar_def)

lemma norm_bytes_pos: "0 < norm_bytes n" "n \<le> norm_bytes n"
  by (simp_all add: norm_bytes_def)

section \<open>A platform\<close>

text \<open>
  A system with pages of 4096 bytes that hands out its pages in order: the state is the next page
  and the set of pages mapped.
\<close>

definition bump_mmap :: "nat \<Rightarrow> nat \<times> nat set \<Rightarrow> nat option \<times> (nat \<times> nat set)" where
  "bump_mmap n w =
     (case w of (k, S) \<Rightarrow>
        if 0 < k \<and> k * 4096 + n \<le> 2 ^ 64 \<and> S \<inter> {k ..< k + n div 4096} = {}
        then (Some (k * 4096), (k + n div 4096, S \<union> {k ..< k + n div 4096}))
        else (None, w))"

definition bump_munmap :: "nat \<Rightarrow> nat \<Rightarrow> nat \<times> nat set \<Rightarrow> nat \<times> nat set" where
  "bump_munmap a n w = (fst w, snd w - {a div 4096 ..< (a + n) div 4096})"

definition bump_platform :: "(nat \<times> nat set) platform" where
  "bump_platform =
     \<lparr>page_size = 4096, granularity = 4096, os_mmap = bump_mmap, os_munmap = bump_munmap\<rparr>"

lemma bump_platform_ok: "platform_ok bump_platform snd"
proof -
  have "\<exists>k g. (4096 :: nat) = 2 ^ k \<and> (4096 :: nat) = 2 ^ g \<and> k \<le> g \<and> g \<le> 32"
    by (intro exI [of _ 12]) simp
  moreover have "a = 4096 * k \<and> 0 < k \<and> a + n \<le> 2 ^ 64 \<and> S \<inter> {k ..< k + n div 4096} = {}
      \<and> w' = (k + n div 4096, S \<union> {k ..< k + n div 4096})"
    if "bump_mmap n (k, S) = (Some a, w')" for n k S a w'
    using that by (auto simp: bump_mmap_def split: if_splits)
  then have "(4096 :: nat) dvd a \<and> 0 < a \<and> a + n \<le> 2 ^ 64
      \<and> {a div 4096 ..< (a + n) div 4096} \<inter> snd w = {}
      \<and> snd w' = snd w \<union> {a div 4096 ..< (a + n) div 4096}"
    if "bump_mmap n w = (Some a, w')" for n w a w'
    using that by (cases w) (fastforce simp: Int_commute)
  moreover have "w' = w" if "bump_mmap n w = (None, w')" for n w w'
    using that by (auto simp: bump_mmap_def split: if_splits prod.splits)
  ultimately show ?thesis
    unfolding platform_ok_def region_def bump_platform_def platform.simps bump_munmap_def snd_conv
    by blast
qed

section \<open>The contract in reachable states\<close>

lemma valid_parts:
  assumes "kama_valid pl mapped (st, h)"
  shows "\<exists>out. central_ok pl mapped out (central st)" "kama_ok pl mapped (dom h) st"
    and "h p = Some n \<Longrightarrow> fits pl (st_used st) p (norm_bytes n)"
  using assms by (auto simp: kama_valid_def kama_ok_def)

lemma valid_disjoint:
  assumes v: "kama_valid pl mapped (st, h)" and pl: "platform_ok pl mapped"
    and "h p = Some n" "h q = Some m" "p \<noteq> q"
  shows "{p ..< p + norm_bytes n} \<inter> {q ..< q + norm_bytes m} = {}"
proof -
  obtain out where "central_ok pl mapped out (central st)" using valid_parts(1) [OF v] ..
  from fits_disjoint [OF this platform_pos [OF pl] valid_parts(3) [OF v assms(3)]
      valid_parts(3) [OF v assms(4)] norm_bytes_pos(1) norm_bytes_pos(1) assms(5)]
  show ?thesis .
qed

lemma valid_mapped:
  assumes v: "kama_valid pl mapped (st, h)" and pl: "platform_ok pl mapped" and "h p = Some n"
  shows "0 < p" and "p + norm_bytes n \<le> 2 ^ 64"
    and "y \<in> {p ..< p + norm_bytes n}
      \<Longrightarrow> y div page_size pl \<in> mapped (os_state (page_cache_of (central st)))"
proof -
  obtain out where "central_ok pl mapped out (central st)" using valid_parts(1) [OF v] ..
  note m = fits_mapped [OF this platform_pos [OF pl] valid_parts(3) [OF v assms(3)] norm_bytes_pos(1)]
  show "0 < p" "p + norm_bytes n \<le> 2 ^ 64" "y \<in> {p ..< p + norm_bytes n}
      \<Longrightarrow> y div page_size pl \<in> mapped (os_state (page_cache_of (central st)))" by (rule m)+
qed

lemma valid_aligned:
  assumes v: "kama_valid pl mapped (st, h)" and pl: "platform_ok pl mapped"
    and r: "kama_allocate_aligned pl t n (2 ^ a) st = (Some p, st')"
    and a: "a \<le> 18" "2 ^ a \<le> page_size pl" and n: "0 < n"
  shows "2 ^ a dvd p"
proof -
  let ?h = "h(p \<mapsto> aligned_bytes n (2 ^ a))"
  have v': "kama_valid pl mapped (st', ?h)"
    using kama_allocate_aligned_valid(2) [OF v pl r refl] by blast
  obtain out where c: "central_ok pl mapped out (central st')" using valid_parts(1) [OF v'] ..
  have f: "fits pl (st_used st') p (norm_bytes (aligned_bytes n (2 ^ a)))"
    using valid_parts(3) [OF v', of p] by simp
  obtain k where k: "page_size pl = 2 ^ k" using platform_pow [OF pl] ..
  with a(2) have "a \<le> k" by simp
  then have dp: "2 ^ a dvd page_size pl" unfolding k by (rule le_imp_power_dvd)
  show ?thesis
  proof (cases "a \<le> 3")
    case True
    then show ?thesis using fits_aligned [OF c f norm_bytes_pos(1) a(1) _ dp] by simp
  next
    case False
    then have "(2 :: nat) ^ 3 < 2 ^ a" by (intro power_strict_increasing) simp_all
    then have big: "\<not> (2 :: nat) ^ a \<le> 8" by simp
    have g: "n \<le> size_max - (2 ^ a - 1)"
      using r big unfolding kama_allocate_aligned_def tc_allocate_aligned_def by (auto split: if_splits)
    have "(2 :: nat) ^ a \<le> 2 ^ 18" using a(1) by (rule power_increasing) simp
    then have "2 ^ a - 1 \<le> size_max" unfolding size_max_def by simp
    with g have "n + (2 ^ a - 1) \<le> size_max" by linarith
    then have x: "n + 2 ^ a - 1 < 2 ^ 64" unfolding size_max_def by simp
    define b where "b = aligned_bytes n (2 ^ a)"
    define z where "z = n + 2 ^ a - 1"
    have bz: "b = z - z mod 2 ^ a"
      using big and_not_mask [OF x, of a] a(1) by (simp add: b_def aligned_bytes_def z_def)
    have "z mod 2 ^ a < 2 ^ a" by simp
    moreover have "2 ^ a \<le> z" using n by (simp add: z_def)
    ultimately have b: "0 < b" unfolding bz by linarith
    have db: "2 ^ a dvd b" unfolding bz by (rule dvd_minus_mod)
    have "norm_bytes b = b" using b by (simp add: norm_bytes_def)
    with f have "fits pl (st_used st') p b" by (simp add: b_def)
    from fits_aligned [OF c this b a(1) disjI2 [OF db] dp] show ?thesis .
  qed
qed

section \<open>A run\<close>

text \<open>Two large requests on a fresh allocator, on different threads.\<close>

lemma bump_large:
  assumes "free_spans (page_cache_of (central st)) = []"
    and "os_state (page_cache_of (central st)) = (k, S)" "0 < k" "k < 1000" "S \<inter> {k ..< k + 74} = {}"
  obtains st' where "tc_allocate bump_platform t 303104 st = (Some (k * 4096), st')"
    and "free_spans (page_cache_of (central st')) = []"
    and "os_state (page_cache_of (central st')) = (k + 74, S \<union> {k ..< k + 74})"
    and "counts st' = counts st"
proof -
  have m: "and_not 307199 4095 = (303104 :: nat)"
    using and_not_mask [of 307199 12] by simp
  have "page_size bump_platform = 4096" "granularity bump_platform = 4096"
    "os_mmap bump_platform = bump_mmap" by (simp_all add: bump_platform_def)
  note b = this
  have "\<exists>st'. tc_allocate bump_platform t 303104 st = (Some (k * 4096), st')
      \<and> free_spans (page_cache_of (central st')) = []
      \<and> os_state (page_cache_of (central st')) = (k + 74, S \<union> {k ..< k + 74})
      \<and> counts st' = counts st"
    using assms
    by (simp add: tc_allocate_def allocate_large_def b Let_def allocate_span_def
        fresh_span_def system_alloc_def size_max_def m alloc_pages_def bump_mmap_def
        add_span_def register_pages_def update_span_def span_at_def mark_large_def)
  with that show thesis by blast
qed

definition bump_start :: "(nat \<times> nat set) kama \<times> (nat \<rightharpoonup> nat)" where
  "bump_start = (kama_new (1, {}), Map.empty)"

lemma bump_start: "kama_start bump_start"
  unfolding kama_start_def bump_start_def by blast

lemma bump_run:
  obtains st where "(kama_step bump_platform)\<^sup>*\<^sup>* bump_start (st, [4096 \<mapsto> 303104])"
    and "free_spans (page_cache_of (central st)) = []"
    and "os_state (page_cache_of (central st)) = (75, {1 ..< 75})"
    and "freed_count (counts st) = 0"
proof -
  have "free_spans (page_cache_of (central (kama_new (1, {})))) = []"
    "os_state (page_cache_of (central (kama_new (1, {})))) = (1, {})"
    by (simp_all add: kama_new_def central_cache_new_def page_cache_new_def)
  from bump_large [OF this, of 0] obtain st where
    "tc_allocate bump_platform 0 303104 (kama_new (1, {})) = (Some 4096, st)"
    and st: "free_spans (page_cache_of (central st)) = []"
      "os_state (page_cache_of (central st)) = (75, {1 ..< 75})"
      "counts st = counts (kama_new (1, {}) :: (nat \<times> nat set) kama)" by auto
  then have "kama_allocate bump_platform 0 303104 (kama_new (1, {}))
      = (Some 4096, record_allocation 303104 st)" by (simp add: kama_allocate_def)
  then have "kama_step bump_platform bump_start (record_allocation 303104 st, [4096 \<mapsto> 303104])"
    unfolding bump_start_def by (rule step_alloc)
  then show thesis using st
    by (intro that [of "record_allocation 303104 st"])
      (auto simp: record_allocation_def kama_new_def counters_new_def)
qed

text \<open>
  C11: in every state the program's calls lead to, on any threads and in any order, an allocation
  returns an address the program does not hold, and its bytes meet no bytes held; an allocation
  of 0 bytes counts as one of 8.
\<close>

theorem allocation_is_fresh:
  assumes "platform_ok pl mapped" and "kama_start s" and "(kama_step pl)\<^sup>*\<^sup>* s (st, h)"
    and "kama_allocate pl t n st = (Some p, st')"
  shows "p \<notin> dom h \<and> (\<forall>q m. h q = Some m \<longrightarrow>
    {p ..< p + norm_bytes n} \<inter> {q ..< q + norm_bytes m} = {})"
proof -
  have v: "kama_valid pl mapped (st, h)" by (rule reachable_valid [OF assms(1-3)])
  from kama_allocate_valid(2) [OF v assms(1,4) refl]
  have p: "p \<notin> dom h" and v': "kama_valid pl mapped (st', h(p \<mapsto> n))" by simp_all
  have "{p ..< p + norm_bytes n} \<inter> {q ..< q + norm_bytes m} = {}" if "h q = Some m" for q m
    by (rule valid_disjoint [OF v' assms(1)]) (use p that in auto)
  with p show ?thesis by blast
qed

theorem allocation_is_fresh_witness:
  "\<exists>st st'. (kama_step bump_platform)\<^sup>*\<^sup>* bump_start (st, [4096 \<mapsto> 303104])
     \<and> kama_allocate bump_platform 1 303104 st = (Some 307200, st')
     \<and> 307200 \<notin> dom [4096 :: nat \<mapsto> 303104 :: nat]"
proof -
  obtain st where st: "(kama_step bump_platform)\<^sup>*\<^sup>* bump_start (st, [4096 \<mapsto> 303104])"
    "free_spans (page_cache_of (central st)) = []"
    "os_state (page_cache_of (central st)) = (75, {1 ..< 75})" by (rule bump_run)
  from bump_large [OF st(2,3), of 1] obtain st' where
    "tc_allocate bump_platform 1 303104 st = (Some 307200, st')" by auto
  then have "kama_allocate bump_platform 1 303104 st = (Some 307200, record_allocation 303104 st')"
    by (simp add: kama_allocate_def)
  with conjunct1 [OF allocation_is_fresh [OF bump_platform_ok bump_start st(1) this]] st(1)
  show ?thesis by blast
qed

text \<open>
  C13: in every reachable state, the bytes of every address the program holds lie in memory the
  system has mapped, off the null address and below \<open>2 ^ 64\<close>, and the bytes of two addresses
  never meet.
\<close>

theorem held_memory_is_mapped:
  assumes "platform_ok pl mapped" and "kama_start s" and "(kama_step pl)\<^sup>*\<^sup>* s (st, h)"
    and "h p = Some n"
  shows "0 < p \<and> p + norm_bytes n \<le> 2 ^ 64
    \<and> (\<forall>y \<in> {p ..< p + norm_bytes n}. y div page_size pl \<in> mapped (os_state (page_cache_of (central st))))
    \<and> (\<forall>q m. h q = Some m \<longrightarrow> q \<noteq> p \<longrightarrow> {p ..< p + norm_bytes n} \<inter> {q ..< q + norm_bytes m} = {})"
proof -
  have v: "kama_valid pl mapped (st, h)" by (rule reachable_valid [OF assms(1-3)])
  note m = valid_mapped [OF v assms(1,4)]
  have "{p ..< p + norm_bytes n} \<inter> {q ..< q + norm_bytes m} = {}" if "h q = Some m" "q \<noteq> p" for q m
    by (rule valid_disjoint [OF v assms(1,4) that(1)]) (use that in simp)
  with m show ?thesis by blast
qed

theorem held_memory_is_mapped_witness:
  "\<exists>st. (kama_step bump_platform)\<^sup>*\<^sup>* bump_start (st, [4096 \<mapsto> 303104])
     \<and> (\<forall>y \<in> {4096 ..< 4096 + norm_bytes 303104}. y div 4096 \<in> snd (os_state (page_cache_of (central st))))"
proof -
  obtain st where st: "(kama_step bump_platform)\<^sup>*\<^sup>* bump_start (st, [4096 \<mapsto> 303104])" by (rule bump_run)
  have "page_size bump_platform = 4096" by (simp add: bump_platform_def)
  moreover have "[4096 \<mapsto> 303104] 4096 = Some (303104 :: nat)" by simp
  ultimately show ?thesis using held_memory_is_mapped [OF bump_platform_ok bump_start st] st by metis
qed

text \<open>
  C28: an aligned allocation of at least one byte at a power of two up to the page size (and up
  to 256 KB) returns a multiple of that alignment.
\<close>

theorem aligned_allocation:
  assumes "platform_ok pl mapped" and "kama_start s" and "(kama_step pl)\<^sup>*\<^sup>* s (st, h)"
    and "kama_allocate_aligned pl t n (2 ^ a) st = (Some p, st')"
    and "a \<le> 18" and "2 ^ a \<le> page_size pl" and "0 < n"
  shows "2 ^ a dvd p"
  by (rule valid_aligned [OF reachable_valid [OF assms(1-3)] assms(1,4-7)])

theorem aligned_allocation_witness:
  "\<exists>st'. kama_allocate_aligned bump_platform 0 300000 (2 ^ 12) (kama_new (1, {})) = (Some 4096, st')
     \<and> (2 :: nat) ^ 12 dvd 4096"
proof -
  have "free_spans (page_cache_of (central (kama_new (1, {})))) = []"
    "os_state (page_cache_of (central (kama_new (1, {})))) = (1, {})"
    by (simp_all add: kama_new_def central_cache_new_def page_cache_new_def)
  from bump_large [OF this, of 0] obtain st where
    t: "tc_allocate bump_platform 0 303104 (kama_new (1, {})) = (Some 4096, st)" by auto
  have p: "word_and (2 ^ 12) (2 ^ 12 - 1) = 0"
    by (rule iffD2 [OF word_and_pred], simp, simp, rule exI, rule refl)
  have "and_not (300000 + 2 ^ 12 - 1) (2 ^ 12 - 1) = 303104"
    using and_not_mask [of "300000 + 2 ^ 12 - 1" 12] by simp
  with p t have a: "kama_allocate_aligned bump_platform 0 300000 (2 ^ 12) (kama_new (1, {}))
      = (Some 4096, record_allocation 300000 st)"
    by (simp add: kama_allocate_aligned_def tc_allocate_aligned_def size_max_def)
  have "(2 :: nat) ^ 12 dvd 4096"
    by (rule aligned_allocation [OF bump_platform_ok bump_start, of "kama_new (1, {})" Map.empty, OF _ a])
      (simp_all add: bump_start_def bump_platform_def)
  with a show ?thesis by blast
qed

text \<open>
  \<open>allocateAligned\<close> refuses an alignment that is zero or no power of two, and then changes
  nothing.
\<close>

theorem bad_alignment_refused:
  assumes "a < 2 ^ 64" and "\<forall>k. a \<noteq> 2 ^ k"
  shows "kama_allocate_aligned pl t n a st = (None, st)"
proof -
  have "a = 0 \<or> word_and a (a - 1) \<noteq> 0"
    using word_and_pred [of a] assms by (cases "a = 0") auto
  then show ?thesis by (auto simp: kama_allocate_aligned_def tc_allocate_aligned_def)
qed

theorem bad_alignment_refused_witness:
  "kama_allocate_aligned bump_platform 0 100 3 (kama_new (1, {})) = (None, kama_new (1, {}))"
proof (rule bad_alignment_refused)
  have "(3 :: nat) \<noteq> 2 ^ k" for k by (cases k) (simp, simp, presburger)
  then show "\<forall>k. (3 :: nat) \<noteq> 2 ^ k" ..
qed simp

text \<open>
  In every reachable state the free of an address the program holds is accepted, with or
  without the size it was asked for.
\<close>

theorem held_address_is_freed:
  assumes "platform_ok pl mapped" and "kama_start s" and "(kama_step pl)\<^sup>*\<^sup>* s (st, h)"
    and "h p = Some n"
  shows "fst (tc_deallocate pl t (Some p) st) \<and> fst (tc_deallocate_sized pl t (Some p) n st)"
proof -
  have v: "kama_valid pl mapped (st, h)" by (rule reachable_valid [OF assms(1-3)])
  note d = valid_parts(2) [OF v] assms(1) domI [of h, OF assms(4)]
  from tc_deallocate_ok(1) [OF d] tc_deallocate_sized_ok(1) [OF d valid_parts(3) [OF v assms(4)]]
  show ?thesis by (metis prod.collapse)
qed

theorem held_address_is_freed_witness:
  "\<exists>st. (kama_step bump_platform)\<^sup>*\<^sup>* bump_start (st, [4096 \<mapsto> 303104])
     \<and> fst (tc_deallocate bump_platform 1 (Some 4096) st)"
proof -
  obtain st where st: "(kama_step bump_platform)\<^sup>*\<^sup>* bump_start (st, [4096 \<mapsto> 303104])" by (rule bump_run)
  have "[4096 \<mapsto> 303104] 4096 = Some (303104 :: nat)" by simp
  from held_address_is_freed [OF bump_platform_ok bump_start st this] st show ?thesis by blast
qed

end
