(* ===== verification/Kama_Accounts.thy ===== *)
theory Kama_Accounts
  imports Kama_System
begin

text \<open>
  What the allocator's statistics mean: the bytes reserved are the pages of all spans, the bytes
  cached those of the free ones, and the counters of calls tell how many addresses are held.
\<close>

section \<open>Pages\<close>

lemma region_card:
  assumes "page_size pl dvd a" "page_size pl dvd n" "0 < page_size pl"
  shows "page_size pl * card (region pl a n) = n" and "finite (region pl a n)"
proof -
  obtain m where "n = m * page_size pl" using assms(2) by (metis dvd_def mult.commute)
  with region_mult [OF assms(1,3), of m] show "page_size pl * card (region pl a n) = n" by simp
  show "finite (region pl a n)" by (simp add: region_def)
qed

lemma spans_finite: "pc_ok pl mapped pc \<Longrightarrow> finite (dom (spans pc))"
  by (rule finite_subset [of _ "{..<next_span pc}"]) (auto simp: pc_ok_defs)

lemma mapped_pages_spans:
  assumes ok: "pc_ok pl mapped pc"
  shows "card {p. page_map pc p \<noteq> None} = (\<Sum>i \<in> dom (spans pc). num_pages (span_at pc i))"
proof -
  have "{p. page_map pc p \<noteq> None} = (\<Union>i \<in> dom (spans pc). pages_of pl (span_at pc i))"
    using ok unfolding pc_ok_def map_ok_def by (auto simp: span_at_def split: option.splits) blast+
  moreover have "card (\<Union>i \<in> dom (spans pc). pages_of pl (span_at pc i))
      = (\<Sum>i \<in> dom (spans pc). card (pages_of pl (span_at pc i)))"
  proof (rule card_UN_disjoint [OF spans_finite [OF ok]])
    show "\<forall>i \<in> dom (spans pc). \<forall>j \<in> dom (spans pc). i \<noteq> j \<longrightarrow>
        pages_of pl (span_at pc i) \<inter> pages_of pl (span_at pc j) = {}"
    proof (intro ballI impI)
      fix i j assume "i \<in> dom (spans pc)" "j \<in> dom (spans pc)" and ij: "i \<noteq> j"
      then obtain s t where st: "spans pc i = Some s" "spans pc j = Some t" by blast
      with pc_ok_disjoint [OF ok st ij]
      show "pages_of pl (span_at pc i) \<inter> pages_of pl (span_at pc j) = {}" by simp
    qed
  qed (simp add: pages_of_def)
  ultimately show ?thesis by (simp add: pages_of_def)
qed

lemma mapped_pages_allocs:
  assumes ok: "pc_ok pl mapped pc" and ps: "0 < page_size pl"
  shows "page_size pl * card {p. page_map pc p \<noteq> None} = reserved_bytes pc"
proof -
  let ?A = "set (system_allocs pc)"
  have al: "allocs_ok pl mapped pc" using ok by (simp add: pc_ok_def)
  then have d: "page_size pl dvd a" "page_size pl dvd n" if "(a, n) \<in> ?A" for a n
    using that unfolding allocs_ok_def by auto
  have inj: "distinct (map fst (system_allocs pc))" using al by (simp add: allocs_ok_def)
  have "{p. page_map pc p \<noteq> None} = (\<Union>x \<in> ?A. region pl (fst x) (snd x))"
    using al unfolding allocs_ok_def by auto
  moreover have "card (\<Union>x \<in> ?A. region pl (fst x) (snd x)) = (\<Sum>x \<in> ?A. card (region pl (fst x) (snd x)))"
  proof (rule card_UN_disjoint)
    show "\<forall>x \<in> ?A. \<forall>y \<in> ?A. x \<noteq> y \<longrightarrow> region pl (fst x) (snd x) \<inter> region pl (fst y) (snd y) = {}"
    proof (intro ballI impI)
      fix x y assume xy: "x \<in> ?A" "y \<in> ?A" "x \<noteq> y"
      then have "fst x \<noteq> fst y" using inj by (auto simp: distinct_map dest: inj_onD)
      with al xy show "region pl (fst x) (snd x) \<inter> region pl (fst y) (snd y) = {}"
        unfolding allocs_ok_def by (metis (mono_tags, lifting) case_prodD prod.collapse)
    qed
  qed (simp_all add: region_def)
  moreover have "page_size pl * (\<Sum>x \<in> ?A. card (region pl (fst x) (snd x))) = (\<Sum>x \<in> ?A. snd x)"
    unfolding sum_distrib_left
  proof (rule sum.cong [OF refl])
    fix x assume "x \<in> ?A"
    then show "page_size pl * card (region pl (fst x) (snd x)) = snd x"
      using region_card(1) [OF d(1) [of "fst x" "snd x"] d(2) [of "fst x" "snd x"] ps] by simp
  qed
  moreover have "(\<Sum>x \<in> ?A. snd x) = reserved_bytes pc"
    using inj unfolding reserved_bytes_def by (metis distinct_map sum_list_distinct_conv_sum_set)
  ultimately show ?thesis by simp
qed

lemma page_accounts:
  assumes ok: "pc_ok pl mapped pc" and ps: "0 < page_size pl"
  shows "reserved_bytes pc = page_size pl * (\<Sum>i \<in> dom (spans pc). num_pages (span_at pc i))"
    and "cached_page_bytes pl pc = page_size pl * (\<Sum>i \<in> free_ids pc. num_pages (span_at pc i))"
    and "cached_page_bytes pl pc \<le> reserved_bytes pc"
proof -
  show r: "reserved_bytes pc = page_size pl * (\<Sum>i \<in> dom (spans pc). num_pages (span_at pc i))"
    using mapped_pages_spans [OF ok] mapped_pages_allocs [OF ok ps] by simp
  have "cached_free_pages pc = (\<Sum>i \<in> free_ids pc. num_pages (span_at pc i))"
    using ok unfolding pc_ok_def free_ok_def by blast
  then show c: "cached_page_bytes pl pc = page_size pl * (\<Sum>i \<in> free_ids pc. num_pages (span_at pc i))"
    by (simp add: cached_page_bytes_def mult.commute)
  have "(\<Sum>i \<in> free_ids pc. num_pages (span_at pc i)) \<le> (\<Sum>i \<in> dom (spans pc). num_pages (span_at pc i))"
    by (rule sum_mono2 [OF spans_finite [OF ok]]) (auto simp: free_ids_def)
  then show "cached_page_bytes pl pc \<le> reserved_bytes pc" unfolding r c by (rule mult_le_mono2)
qed

text \<open>
  C38: in every reachable state the statistics account for every page: the bytes reserved from the
  system are the pages of all spans, so no page is lost and none is counted twice, the cached bytes
  are the pages of the free spans, and so never exceed the reserved ones.
\<close>

theorem statistics_account_for_pages:
  assumes "platform_ok pl mapped" and "kama_start s" and "(kama_step pl)\<^sup>*\<^sup>* s (st, h)"
  shows "stat_reserved_bytes (kama_stats pl st)
      = page_size pl * (\<Sum>i \<in> dom (spans (page_cache_of (central st))).
          num_pages (span_at (page_cache_of (central st)) i))
    \<and> stat_cached_page_bytes (kama_stats pl st)
      = page_size pl * (\<Sum>i \<in> free_ids (page_cache_of (central st)).
          num_pages (span_at (page_cache_of (central st)) i))
    \<and> stat_cached_page_bytes (kama_stats pl st) \<le> stat_reserved_bytes (kama_stats pl st)"
proof -
  have "kama_valid pl mapped (st, h)" by (rule reachable_valid [OF assms])
  then have "pc_ok pl mapped (page_cache_of (central st))"
    by (simp add: kama_valid_def kama_ok_def central_ok_def)
  from page_accounts [OF this platform_pos [OF assms(1)]] show ?thesis
    by (simp add: kama_stats_def Let_def)
qed

theorem statistics_account_for_pages_witness:
  "\<exists>st. (kama_step bump_platform)\<^sup>*\<^sup>* bump_start (st, [4096 \<mapsto> 303104])
     \<and> stat_cached_page_bytes (kama_stats bump_platform st) \<le> stat_reserved_bytes (kama_stats bump_platform st)"
proof -
  obtain st where st: "(kama_step bump_platform)\<^sup>*\<^sup>* bump_start (st, [4096 \<mapsto> 303104])" by (rule bump_run)
  from statistics_account_for_pages [OF bump_platform_ok bump_start this] st show ?thesis by blast
qed

section \<open>Teardown\<close>

lemma free_regions_mapped:
  assumes "platform_ok pl mapped" and "\<forall>(a, n) \<in> set xs. page_size pl dvd a \<and> page_size pl dvd n"
  shows "mapped (free_regions pl xs w) = mapped w - (\<Union>(a, n) \<in> set xs. region pl a n)"
  using assms(2)
proof (induction xs arbitrary: w)
  case (Cons x xs)
  have "mapped (os_munmap pl (fst x) (snd x) v) = mapped v - region pl (fst x) (snd x)" for v
    using platform_ok_dest(4) [OF assms(1)] Cons.prems by (auto split: prod.splits)
  with Cons show ?case by (cases x) (auto simp: unmap_pages_def)
qed simp

text \<open>
  The destructor of the page cache, in any reachable state, deletes every span and unmaps
  exactly the regions obtained from the system: none of their pages stays mapped, and no other
  mapping of the process is touched.
\<close>

theorem destroy_releases_everything:
  assumes "platform_ok pl mapped" and "kama_start s" and "(kama_step pl)\<^sup>*\<^sup>* s (st, h)"
    and "pc = page_cache_of (central st)"
  shows "spans (page_cache_destroy pl pc) = Map.empty
    \<and> mapped (os_state (page_cache_destroy pl pc))
      = mapped (os_state pc) - {p. page_map pc p \<noteq> None}"
proof -
  have "kama_valid pl mapped (st, h)" by (rule reachable_valid [OF assms(1-3)])
  then have ok: "pc_ok pl mapped pc"
    by (simp add: kama_valid_def kama_ok_def central_ok_def assms(4))
  have "i \<in> ran (page_map pc)" if "spans pc i = Some r" for i r
  proof -
    have "shape_ok pl (set (system_allocs pc)) r" using ok that by (auto simp: pc_ok_def shapes_ok_def)
    then have "page_addr r div page_size pl \<in> pages_of pl r" by (simp add: shape_ok_def pages_of_def)
    with ok that have "page_map pc (page_addr r div page_size pl) = Some i"
      unfolding pc_ok_def map_ok_def by blast
    then show ?thesis by (rule ranI)
  qed
  then have "spans (page_cache_destroy pl pc) = Map.empty"
    by (fastforce simp: page_cache_destroy_def fun_eq_iff)
  moreover have "{p. page_map pc p \<noteq> None} = (\<Union>(a, n) \<in> set (system_allocs pc). region pl a n)"
    using ok unfolding pc_ok_def allocs_ok_def by auto
  moreover have "\<forall>(a, n) \<in> set (system_allocs pc). page_size pl dvd a \<and> page_size pl dvd n"
    using ok unfolding pc_ok_def allocs_ok_def by fast
  ultimately show ?thesis using free_regions_mapped [OF assms(1)] by (simp add: page_cache_destroy_def)
qed

theorem destroy_releases_everything_witness:
  "\<exists>st. (kama_step bump_platform)\<^sup>*\<^sup>* bump_start (st, [4096 \<mapsto> 303104])
     \<and> spans (page_cache_destroy bump_platform (page_cache_of (central st))) = Map.empty"
proof -
  obtain st where st: "(kama_step bump_platform)\<^sup>*\<^sup>* bump_start (st, [4096 \<mapsto> 303104])" by (rule bump_run)
  from destroy_releases_everything [OF bump_platform_ok bump_start this refl] st show ?thesis by blast
qed

section \<open>Calls\<close>

text \<open>The counters of the calls; the caches below leave them alone.\<close>

definition call_counts :: "'o kama \<Rightarrow> nat \<times> nat \<times> nat \<times> nat \<times> nat \<times> nat" where
  "call_counts st =
     (alloc_count (counts st), freed_count (counts st), small_alloc_count (counts st),
      large_alloc_count (counts st), sized_free_count (counts st), unsized_free_count (counts st))"

lemma call_counts_simps [simp]:
  "call_counts (set_class t c l n st) = call_counts st"
  "call_counts (st\<lparr>central := cc\<rparr>) = call_counts st"
  "call_counts (record_central_refill n st) = call_counts st"
  "call_counts (record_central_flush n st) = call_counts st"
  by (simp_all add: call_counts_def record_central_refill_def record_central_flush_def set_class_def)

lemma call_counts_caches [simp]:
  "call_counts (snd (fetch_from_central pl t c st)) = call_counts st"
  "call_counts (return_to_central pl t c st) = call_counts st"
  "call_counts (push_block pl t c p st) = call_counts st"
  "call_counts (snd (allocate_large pl n st)) = call_counts st"
  by (auto simp: fetch_from_central_def return_to_central_def push_block_def allocate_large_def Let_def
      split: prod.splits list.splits option.splits)

lemma call_counts_flush [simp]: "call_counts (flush_all pl t st) = call_counts st"
proof -
  have "call_counts (flush_loop pl t cs st) = call_counts st" for cs
    by (induction cs arbitrary: st) simp_all
  then show ?thesis by (simp add: flush_all_def)
qed

lemma call_counts_tc [simp]:
  "call_counts (snd (tc_allocate pl t n st)) = call_counts st"
  "call_counts (snd (tc_deallocate pl t q st)) = call_counts st"
  "call_counts (snd (tc_deallocate_sized pl t q n st)) = call_counts st"
  "call_counts (snd (tc_allocate_aligned pl t n a st)) = call_counts st"
proof -
  show a: "call_counts (snd (tc_allocate pl t n st)) = call_counts st" for n
    by (simp add: tc_allocate_def Let_def split: list.split)
  show d: "call_counts (snd (tc_deallocate pl t q st)) = call_counts st" for q
    by (simp add: tc_deallocate_def Let_def split: option.split)
  show "call_counts (snd (tc_deallocate_sized pl t q n st)) = call_counts st"
    using d by (simp add: tc_deallocate_sized_def Let_def split: option.split)
  show "call_counts (snd (tc_allocate_aligned pl t n a st)) = call_counts st"
    using a by (simp add: tc_allocate_aligned_def)
qed


text \<open>The number of addresses held, against the counters.\<close>

fun tally :: "nat \<Rightarrow> nat \<times> nat \<times> nat \<times> nat \<times> nat \<times> nat \<Rightarrow> bool" where
  "tally k (a, f, s, l, z, u) \<longleftrightarrow>
     a = (f + k) mod 2 ^ 64 \<and> a = (s + l) mod 2 ^ 64 \<and> f = (z + u) mod 2 ^ 64"

lemma wadd_sum:
  "a = (f + k) mod 2 ^ 64 \<Longrightarrow> wadd a 1 = (f + Suc k) mod 2 ^ 64"
  "a = (f + Suc k) mod 2 ^ 64 \<Longrightarrow> a = (wadd f 1 + k) mod 2 ^ 64"
  "a = (f + k) mod 2 ^ 64 \<Longrightarrow> wadd a 1 = (wadd f 1 + k) mod 2 ^ 64"
  "a = (f + k) mod 2 ^ 64 \<Longrightarrow> wadd a 1 = (f + wadd k 1) mod 2 ^ 64"
  by (simp_all add: wadd_def mod_simps)

lemma tally_alloc:
  assumes "tally k (call_counts st)"
  shows "tally (Suc k) (call_counts (record_allocation n st))"
proof -
  obtain a f s l z u where c: "call_counts st = (a, f, s, l, z, u)" by (cases "call_counts st")
  have "tally k (a, f, s, l, z, u)" using assms unfolding c .
  then have t: "a = (f + k) mod 2 ^ 64" "a = (s + l) mod 2 ^ 64" "f = (z + u) mod 2 ^ 64"
    unfolding tally.simps by blast+
  have r: "call_counts (record_allocation n st)
      = (wadd a 1, f, if n > max_bytes then s else wadd s 1, if n > max_bytes then wadd l 1 else l, z, u)"
    using c by (simp add: call_counts_def record_allocation_def)
  have "wadd a 1 = ((if n > max_bytes then s else wadd s 1)
      + (if n > max_bytes then wadd l 1 else l)) mod 2 ^ 64"
    by (cases "n > max_bytes") (simp only: if_True if_False, rule wadd_sum(3,4) [OF t(2)])+
  with wadd_sum(1) [OF t(1)] t(3) show ?thesis unfolding r tally.simps by blast
qed

lemma tally_free:
  assumes "tally (Suc k) (call_counts st)"
  shows "tally k (call_counts (record_free b st))"
proof -
  obtain a f s l z u where c: "call_counts st = (a, f, s, l, z, u)" by (cases "call_counts st")
  have "tally (Suc k) (a, f, s, l, z, u)" using assms unfolding c .
  then have t: "a = (f + Suc k) mod 2 ^ 64" "a = (s + l) mod 2 ^ 64" "f = (z + u) mod 2 ^ 64"
    unfolding tally.simps by blast+
  have r: "call_counts (record_free b st)
      = (a, wadd f 1, s, l, if b then wadd z 1 else z, if b then u else wadd u 1)"
    using c by (simp add: call_counts_def record_free_def)
  have "wadd f 1 = ((if b then wadd z 1 else z) + (if b then u else wadd u 1)) mod 2 ^ 64"
    by (cases b) (simp only: if_True if_False, rule wadd_sum(3,4) [OF t(3)])+
  with wadd_sum(2) [OF t(1)] t(2) show ?thesis unfolding r tally.simps by blast
qed

definition counted :: "'o kama \<times> (nat \<rightharpoonup> nat) \<Rightarrow> bool" where
  "counted s \<longleftrightarrow> finite (dom (snd s)) \<and> tally (card (dom (snd s))) (call_counts (fst s))"

lemma counted_alloc:
  assumes "counted (st, h)" and "call_counts st' = call_counts st" and "p \<notin> dom h"
  shows "counted (record_allocation n st', h(p \<mapsto> m))"
  using assms tally_alloc [of "card (dom h)" st' n] by (simp add: counted_def)

lemma counted_free:
  assumes "counted (st, h)" and "call_counts st' = call_counts st" and "p \<in> dom h"
  shows "counted (record_free b st', h(p := None))"
proof -
  have fin: "finite (dom h)" using assms(1) by (simp add: counted_def)
  define k where "k = card (dom h - {p})"
  have e: "card (dom h) = Suc k" unfolding k_def using fin assms(3) by (rule card.remove)
  have "tally (Suc k) (call_counts st')"
    using assms(1) unfolding counted_def fst_conv snd_conv e assms(2) by blast
  from tally_free [OF this] fin show ?thesis by (simp add: counted_def k_def)
qed

lemma counted_same: "counted (st, h) \<Longrightarrow> call_counts st' = call_counts st \<Longrightarrow> counted (st', h)"
  by (simp add: counted_def)

lemma kama_allocate_tc:
  assumes "kama_allocate pl t n st = (r, st')"
  obtains st1 where "call_counts st1 = call_counts st"
    and "st' = (if r = None then st1 else record_allocation n st1)"
proof -
  obtain q st1 where t: "tc_allocate pl t n st = (q, st1)" by fastforce
  then have "call_counts st1 = call_counts st" using call_counts_tc(1) [of pl t n st] by simp
  with assms t that show thesis by (auto simp: kama_allocate_def split: option.splits)
qed

lemma kama_allocate_aligned_tc:
  assumes "kama_allocate_aligned pl t n a st = (r, st')"
  obtains st1 where "call_counts st1 = call_counts st"
    and "st' = (if r = None then st1 else record_allocation n st1)"
proof -
  obtain q st1 where t: "tc_allocate_aligned pl t n a st = (q, st1)" by fastforce
  then have "call_counts st1 = call_counts st" using call_counts_tc(4) [of pl t n a st] by simp
  with assms t that show thesis by (auto simp: kama_allocate_aligned_def split: option.splits)
qed

lemma counted_step:
  assumes "kama_step pl s s'" and "counted s" and "kama_valid pl mapped s" and pl: "platform_ok pl mapped"
  shows "counted s'"
  using assms(1-3)
proof (induction rule: kama_step.induct)
  case (step_alloc t n st p st' h)
  obtain st1 where c: "call_counts st1 = call_counts st" "st' = record_allocation n st1"
    using kama_allocate_tc [OF step_alloc.hyps] by auto
  from kama_allocate_valid(2) [OF step_alloc.prems(2) pl step_alloc.hyps refl] have "p \<notin> dom h" ..
  from counted_alloc [OF step_alloc.prems(1) c(1) this] show ?case by (simp only: c(2))
next
  case (step_alloc_fail t n st st' h)
  obtain st1 where "call_counts st1 = call_counts st" "st' = st1"
    using kama_allocate_tc [OF step_alloc_fail.hyps] by auto
  with counted_same [OF step_alloc_fail.prems(1)] show ?case by blast
next
  case (step_aligned t n a st p st' h)
  obtain st1 where c: "call_counts st1 = call_counts st" "st' = record_allocation n st1"
    using kama_allocate_aligned_tc [OF step_aligned.hyps] by auto
  from kama_allocate_aligned_valid(2) [OF step_aligned.prems(2) pl step_aligned.hyps refl]
  have "p \<notin> dom h" ..
  from counted_alloc [OF step_aligned.prems(1) c(1) this] show ?case by (simp only: c(2))
next
  case (step_aligned_fail t n a st st' h)
  obtain st1 where "call_counts st1 = call_counts st" "st' = st1"
    using kama_allocate_aligned_tc [OF step_aligned_fail.hyps] by auto
  with counted_same [OF step_aligned_fail.prems(1)] show ?case by blast
next
  case (step_free p h st t)
  have ok: "kama_ok pl mapped (dom h) st" using step_free.prems(2) by (simp add: kama_valid_def)
  obtain st1 where d: "tc_deallocate pl t (Some p) st = (True, st1)"
    using tc_deallocate_ok(1) [OF ok pl step_free.hyps] by (metis (full_types) prod.collapse)
  from counted_free [OF step_free.prems(1) _ step_free.hyps, of st1 False] call_counts_tc(2) [of pl t "Some p" st]
  show ?case by (simp add: d kama_deallocate_def)
next
  case (step_free_sized h p n st t)
  have ok: "kama_ok pl mapped (dom h) st" and f: "fits pl (st_used st) p (norm_bytes n)"
    using step_free_sized.prems(2) step_free_sized.hyps by (simp_all add: kama_valid_def)
  have p: "p \<in> dom h" using step_free_sized.hyps by blast
  obtain st1 where d: "tc_deallocate_sized pl t (Some p) n st = (True, st1)"
    using tc_deallocate_sized_ok(1) [OF ok pl p f] by (metis (full_types) prod.collapse)
  from counted_free [OF step_free_sized.prems(1) _ p, of st1 True] call_counts_tc(3) [of pl t "Some p" n st]
  show ?case by (simp add: d kama_deallocate_sized_def)
next
  case (step_free_null st h t)
  then show ?case by (simp add: kama_deallocate_def)
next
  case (step_flush st h t)
  from counted_same [OF step_flush.prems(1) call_counts_flush] show ?case .
qed

definition account_invar :: "'o platform \<Rightarrow> ('o \<Rightarrow> nat set) \<Rightarrow> 'o kama \<times> (nat \<rightharpoonup> nat) \<Rightarrow> bool" where
  "account_invar pl mapped s \<longleftrightarrow> kama_invar pl mapped s \<and> (platform_ok pl mapped \<longrightarrow> counted s)"

interpretation accounts: invariant_system kama_start "kama_step pl" "account_invar pl mapped"
  for pl :: "'o platform" and mapped
proof
  show "account_invar pl mapped s" if "kama_start s" for s
    using that kama.start_invar [OF that]
    by (auto simp: account_invar_def kama_start_def counted_def call_counts_def kama_new_def counters_new_def)
  show "account_invar pl mapped s'" if "account_invar pl mapped s" "kama_step pl s s'" for s s'
    using that kama.step_invar [OF _ that(2), of mapped] counted_step [OF that(2)]
    by (auto simp: account_invar_def kama_invar_def)
qed

text \<open>
  in every reachable state the live allocations the statistics report are the addresses the
  program holds, as long as the counters of calls have not wrapped around; small and large
  allocations add up to all allocations, sized and unsized frees to all frees.
\<close>

theorem statistics_count_calls:
  assumes "platform_ok pl mapped" and "kama_start s" and "(kama_step pl)\<^sup>*\<^sup>* s (st, h)"
    and "freed_count (counts st) + card (dom h) < 2 ^ 64"
  shows "finite (dom h) \<and> live_allocs (kama_stats pl st) = card (dom h)
    \<and> alloc_count (counts st) = wadd (small_alloc_count (counts st)) (large_alloc_count (counts st))
    \<and> freed_count (counts st) = wadd (sized_free_count (counts st)) (unsized_free_count (counts st))"
proof -
  have "counted (st, h)"
    using accounts.reachable_invar [OF assms(2,3), of mapped] assms(1) by (simp add: account_invar_def)
  then have c: "finite (dom h)" "tally (card (dom h)) (call_counts st)" by (simp_all add: counted_def)
  then have "alloc_count (counts st) = freed_count (counts st) + card (dom h)"
    using assms(4) unfolding call_counts_def tally.simps by (elim conjE) (simp only: mod_less)
  moreover from this have "live_allocs (kama_stats pl st) = card (dom h)"
    by (simp add: kama_stats_def Let_def)
  ultimately show ?thesis
    using c unfolding call_counts_def tally.simps wadd_def by blast
qed

theorem statistics_count_calls_witness:
  "\<exists>st. (kama_step bump_platform)\<^sup>*\<^sup>* bump_start (st, [4096 \<mapsto> 303104])
     \<and> live_allocs (kama_stats bump_platform st) = 1"
proof -
  obtain st where st: "(kama_step bump_platform)\<^sup>*\<^sup>* bump_start (st, [4096 \<mapsto> 303104])"
    "freed_count (counts st) = 0" by (rule bump_run)
  have "card (dom [4096 :: nat \<mapsto> 303104 :: nat]) = 1" by simp
  with statistics_count_calls [OF bump_platform_ok bump_start st(1)] st show ?thesis by auto
qed

end
