(* ===== verification/Memory_Pool.thy ===== *)
theory Memory_Pool
  imports Kama_Accounts Tensor_Store
begin

text \<open>
  The capacity-bounded pool (\<open>MemoryPool\<close> of include/gpuforge/memory.hpp and src/memory.cpp):
  a budget in bytes over an allocator, with a table of the blocks it handed out. What the pool
  needs of the allocator's three entry points is the locale \<open>fresh_blocks\<close>; the allocator of
  Kama\_Pool provides it. The methods hold the pool's mutex, so a call is one step.
\<close>

section \<open>State and operations\<close>

record 'b allocator =
  a_allocate :: "nat \<Rightarrow> 'b \<Rightarrow> nat option \<times> 'b"
  a_allocate_aligned :: "nat \<Rightarrow> nat \<Rightarrow> 'b \<Rightarrow> nat option \<times> 'b"
  a_deallocate :: "nat \<Rightarrow> 'b \<Rightarrow> 'b"

record memory_pool =
  capacity :: nat
  used_bytes :: nat
  allocations :: "nat \<rightharpoonup> nat"

definition memory_pool_new :: "nat \<Rightarrow> memory_pool" where
  "memory_pool_new n = \<lparr>capacity = n, used_bytes = 0, allocations = Map.empty\<rparr>"

text \<open>
  \<open>emplace\<close> leaves an existing entry alone. The outcome is \<open>Inr None\<close> for the null pointer of
  an empty request, \<open>Inl BadAlloc\<close> for the exception.
\<close>

definition pool_available :: "memory_pool \<Rightarrow> nat" where
  "pool_available mp = capacity mp - min (capacity mp) (used_bytes mp)"

definition pool_allocate ::
  "'b allocator \<Rightarrow> nat \<Rightarrow> nat \<Rightarrow> memory_pool \<times> 'b \<Rightarrow> nat option result \<times> (memory_pool \<times> 'b)"
where
  "pool_allocate al n a s =
     (case s of (mp, b) \<Rightarrow>
        if n = 0 then (Inr None, s)
        else if pool_available mp < n then (Inl BadAlloc, s)
        else
          (case (if 8 < a then a_allocate_aligned al n a b else a_allocate al n b) of
             (None, b') \<Rightarrow> (Inl BadAlloc, (mp, b'))
           | (Some p, b') \<Rightarrow>
               (Inr (Some p),
                (mp\<lparr>allocations := (case allocations mp p of
                                     None \<Rightarrow> (allocations mp)(p \<mapsto> n)
                                   | Some m \<Rightarrow> allocations mp),
                    used_bytes := wadd (used_bytes mp) n\<rparr>, b'))))"

definition pool_release :: "'b allocator \<Rightarrow> nat option \<Rightarrow> memory_pool \<times> 'b \<Rightarrow> memory_pool \<times> 'b" where
  "pool_release al ptr s =
     (case ptr of
        None \<Rightarrow> s
      | Some p \<Rightarrow>
          (case s of (mp, b) \<Rightarrow>
             (case allocations mp p of
                None \<Rightarrow> s
              | Some n \<Rightarrow>
                  (mp\<lparr>used_bytes := wsub (used_bytes mp) n,
                      allocations := (allocations mp)(p := None)\<rparr>,
                   a_deallocate al p b))))"

definition pool_used :: "memory_pool \<Rightarrow> nat" where
  "pool_used mp = used_bytes mp"

definition fragmentation :: "'f fops \<Rightarrow> 'o platform \<Rightarrow> 'o kama \<Rightarrow> 'f" where
  "fragmentation ops pl st =
     (let s = kama_stats pl st in
      if stat_reserved_bytes s \<noteq> 0
      then f_sub ops (f_dec ops 1 0)
             (f_div ops (f_of_nat ops (stat_cached_page_bytes s)) (f_of_nat ops (stat_reserved_bytes s)))
      else f_zero ops)"

text \<open>The entry points of the allocator the code calls, on thread \<open>t\<close>.\<close>

definition kama_backend :: "'o platform \<Rightarrow> nat \<Rightarrow> 'o kama allocator" where
  "kama_backend pl t =
     \<lparr>a_allocate = kama_allocate pl t, a_allocate_aligned = kama_allocate_aligned pl t,
      a_deallocate = (\<lambda>p. kama_deallocate pl t (Some p))\<rparr>"

text \<open>Sequences of calls on the threads of a program, each thread with its own entry points.\<close>

datatype pool_call = Allocate nat nat | Release "nat option"

fun pool_step :: "'b allocator \<Rightarrow> pool_call \<Rightarrow> memory_pool \<times> 'b \<Rightarrow> memory_pool \<times> 'b" where
  "pool_step al (Allocate n a) s = snd (pool_allocate al n a s)"
| "pool_step al (Release p) s = pool_release al p s"

fun pool_run ::
  "(nat \<Rightarrow> 'b allocator) \<Rightarrow> (nat \<times> pool_call) list \<Rightarrow> memory_pool \<times> 'b \<Rightarrow> memory_pool \<times> 'b"
where
  "pool_run al [] s = s"
| "pool_run al ((t, c) # cs) s = pool_run al cs (pool_step (al t) c s)"

text \<open>A \<open>size_t\<close> argument is below \<open>2 ^ 64\<close>.\<close>

fun call_ok :: "pool_call \<Rightarrow> bool" where
  "call_ok (Allocate n a) \<longleftrightarrow> a < 2 ^ 64"
| "call_ok (Release p) \<longleftrightarrow> True"

section \<open>The accounting invariant\<close>

definition live_bytes :: "memory_pool \<Rightarrow> nat" where
  "live_bytes mp = (\<Sum>p \<in> dom (allocations mp). the (allocations mp p))"

definition accounts_ok :: "memory_pool \<Rightarrow> bool" where
  "accounts_ok mp \<longleftrightarrow>
     finite (dom (allocations mp)) \<and> used_bytes mp = live_bytes mp
     \<and> used_bytes mp \<le> capacity mp \<and> capacity mp < 2 ^ 64"

lemma accounts_new: "n < 2 ^ 64 \<Longrightarrow> accounts_ok (memory_pool_new n)"
  by (simp add: accounts_ok_def memory_pool_new_def live_bytes_def)

lemma live_bytes_add:
  fixes f :: "nat \<rightharpoonup> nat"
  assumes "finite (dom f)" "f p = None"
  shows "(\<Sum>q \<in> dom (f(p \<mapsto> n)). the ((f(p \<mapsto> n)) q)) = n + (\<Sum>q \<in> dom f. the (f q))"
proof -
  have "p \<notin> dom f" using assms(2) by blast
  then have "(\<Sum>q \<in> dom f. the ((f(p \<mapsto> n)) q)) = (\<Sum>q \<in> dom f. the (f q))"
    by (intro sum.cong) auto
  with assms \<open>p \<notin> dom f\<close> show ?thesis by simp
qed

lemma live_bytes_remove:
  fixes f :: "nat \<rightharpoonup> nat"
  assumes "finite (dom f)" "f p = Some n"
  shows "(\<Sum>q \<in> dom (f(p := None)). the ((f(p := None)) q)) + n = (\<Sum>q \<in> dom f. the (f q))"
proof -
  have "p \<in> dom f" using assms(2) by blast
  moreover have "(\<Sum>q \<in> dom f - {p}. the ((f(p := None)) q)) = (\<Sum>q \<in> dom f - {p}. the (f q))"
    by (intro sum.cong) auto
  ultimately show ?thesis
    using assms sum.remove [of "dom f" p "\<lambda>q. the (f q)"] by simp
qed

lemma accounts_add:
  assumes "accounts_ok mp" "allocations mp p = None" "n \<le> pool_available mp"
  shows "accounts_ok (mp\<lparr>allocations := (allocations mp)(p \<mapsto> n), used_bytes := wadd (used_bytes mp) n\<rparr>)"
    and "wadd (used_bytes mp) n = used_bytes mp + n"
proof -
  have u: "used_bytes mp \<le> capacity mp" "capacity mp < 2 ^ 64"
    using assms(1) by (simp_all add: accounts_ok_def)
  then have le: "used_bytes mp + n \<le> capacity mp" using assms(3) by (simp add: pool_available_def)
  with u(2) show w: "wadd (used_bytes mp) n = used_bytes mp + n" by (intro wadd_exact) simp
  show "accounts_ok (mp\<lparr>allocations := (allocations mp)(p \<mapsto> n), used_bytes := wadd (used_bytes mp) n\<rparr>)"
    using assms(1,2) le live_bytes_add [where f = "allocations mp" and p = p and n = n] unfolding w
    by (simp add: accounts_ok_def live_bytes_def)
qed

lemma accounts_remove:
  assumes "accounts_ok mp" "allocations mp p = Some n"
  shows "accounts_ok (mp\<lparr>used_bytes := wsub (used_bytes mp) n, allocations := (allocations mp)(p := None)\<rparr>)"
    and "wsub (used_bytes mp) n = used_bytes mp - n" and "n \<le> used_bytes mp"
proof -
  have l: "live_bytes (mp\<lparr>allocations := (allocations mp)(p := None)\<rparr>) + n = used_bytes mp"
    using live_bytes_remove [where f = "allocations mp", OF _ assms(2)] assms(1) by (simp add: accounts_ok_def live_bytes_def)
  then show n: "n \<le> used_bytes mp" by simp
  then show w: "wsub (used_bytes mp) n = used_bytes mp - n"
    using assms(1) by (intro wsub_exact) (simp_all add: accounts_ok_def)
  show "accounts_ok (mp\<lparr>used_bytes := wsub (used_bytes mp) n, allocations := (allocations mp)(p := None)\<rparr>)"
    unfolding accounts_ok_def w
  proof (intro conjI)
    show "finite (dom (allocations (mp\<lparr>used_bytes := used_bytes mp - n,
        allocations := (allocations mp)(p := None)\<rparr>)))"
      using assms(1) by (simp add: accounts_ok_def)
    show "used_bytes (mp\<lparr>used_bytes := used_bytes mp - n, allocations := (allocations mp)(p := None)\<rparr>)
        = live_bytes (mp\<lparr>used_bytes := used_bytes mp - n, allocations := (allocations mp)(p := None)\<rparr>)"
      using l by (simp add: live_bytes_def del: dom_fun_upd fun_upd_apply)
    show "used_bytes (mp\<lparr>used_bytes := used_bytes mp - n, allocations := (allocations mp)(p := None)\<rparr>)
        \<le> capacity (mp\<lparr>used_bytes := used_bytes mp - n, allocations := (allocations mp)(p := None)\<rparr>)"
      using assms(1) unfolding accounts_ok_def by (elim conjE) simp
  qed (use assms(1) in \<open>simp add: accounts_ok_def\<close>)
qed

section \<open>The allocator below\<close>

text \<open>
  What the pool needs of an allocator whose state admits the held blocks \<open>h\<close> (\<open>inv b h\<close>, from an
  address to the bytes behind it): blocks are apart, a block returned was not held and is large
  enough, a failed request changes no block, and \<open>deallocate\<close> takes one block away.
\<close>

locale fresh_blocks =
  fixes al :: "'b allocator" and inv :: "'b \<Rightarrow> (nat \<rightharpoonup> nat) \<Rightarrow> bool"
  assumes apart: "inv b h \<Longrightarrow> h p = Some n \<Longrightarrow> h q = Some m \<Longrightarrow> p \<noteq> q \<Longrightarrow> {p ..< p + n} \<inter> {q ..< q + m} = {}"
    and allocate_some: "inv b h \<Longrightarrow> a_allocate al n b = (Some p, b')
      \<Longrightarrow> p \<notin> dom h \<and> (\<exists>m \<ge> n. inv b' (h(p \<mapsto> m)))"
    and allocate_none: "inv b h \<Longrightarrow> a_allocate al n b = (None, b') \<Longrightarrow> inv b' h"
    and aligned_some: "inv b h \<Longrightarrow> a < 2 ^ 64 \<Longrightarrow> a_allocate_aligned al n a b = (Some p, b')
      \<Longrightarrow> p \<notin> dom h \<and> (\<exists>m \<ge> n. inv b' (h(p \<mapsto> m)))"
    and aligned_none: "inv b h \<Longrightarrow> a_allocate_aligned al n a b = (None, b') \<Longrightarrow> inv b' h"
    and deallocate_held: "inv b h \<Longrightarrow> p \<in> dom h \<Longrightarrow> inv (a_deallocate al p b) (h(p := None))"
begin

definition pool_ok :: "memory_pool \<times> 'b \<Rightarrow> bool" where
  "pool_ok s \<longleftrightarrow> accounts_ok (fst s)
     \<and> (\<exists>h. inv (snd s) h \<and> (\<forall>p n. allocations (fst s) p = Some n \<longrightarrow> (\<exists>m \<ge> n. h p = Some m)))"

lemma backend_some:
  assumes "inv b h" "a < 2 ^ 64"
    and "(if 8 < a then a_allocate_aligned al n a b else a_allocate al n b) = (Some p, b')"
  shows "p \<notin> dom h \<and> (\<exists>m \<ge> n. inv b' (h(p \<mapsto> m)))"
proof (cases "8 < a")
  case True
  with assms(3) have "a_allocate_aligned al n a b = (Some p, b')" by simp
  from aligned_some [OF assms(1,2) this] show ?thesis .
next
  case False
  with assms(3) have "a_allocate al n b = (Some p, b')" by simp
  from allocate_some [OF assms(1) this] show ?thesis .
qed

lemma backend_none:
  assumes "inv b h"
    and "(if 8 < a then a_allocate_aligned al n a b else a_allocate al n b) = (None, b')"
  shows "inv b' h"
proof (cases "8 < a")
  case True
  with assms(2) have "a_allocate_aligned al n a b = (None, b')" by simp
  from aligned_none [OF assms(1) this] show ?thesis .
next
  case False
  with assms(2) have "a_allocate al n b = (None, b')" by simp
  from allocate_none [OF assms(1) this] show ?thesis .
qed

text \<open>The outcomes of \<open>allocate\<close>.\<close>

lemma pool_allocate_ok:
  assumes ok: "pool_ok (mp, b)" and a: "a < 2 ^ 64" and eq: "pool_allocate al n a (mp, b) = (r, (mp', b'))"
  shows "pool_ok (mp', b')"
    and "r = Inr (Some p) \<Longrightarrow> allocations mp p = None \<and> allocations mp' = (allocations mp)(p \<mapsto> n)
      \<and> used_bytes mp' = used_bytes mp + n"
    and "r = Inr None \<or> r = Inl e \<Longrightarrow> mp' = mp"
proof -
  obtain h where h: "inv b h" "\<forall>p n. allocations mp p = Some n \<longrightarrow> (\<exists>m \<ge> n. h p = Some m)"
    and ac: "accounts_ok mp" using ok by (auto simp: pool_ok_def)
  obtain q b1 where call: "(if 8 < a then a_allocate_aligned al n a b else a_allocate al n b) = (q, b1)"
    by fastforce
  have "pool_ok (mp', b')
    \<and> (\<forall>p. r = Inr (Some p) \<longrightarrow> allocations mp p = None \<and> allocations mp' = (allocations mp)(p \<mapsto> n)
          \<and> used_bytes mp' = used_bytes mp + n)
    \<and> (r = Inr None \<or> r = Inl e \<longrightarrow> mp' = mp)"
  proof (cases "n = 0 \<or> pool_available mp < n")
    case True
    then have "mp' = mp" "b' = b" "\<forall>p. r \<noteq> Inr (Some p)"
      using eq by (auto simp: pool_allocate_def split: if_splits)
    with ok show ?thesis by simp
  next
    case False
    then have run: "pool_allocate al n a (mp, b) = (case (q, b1) of
        (None, b') \<Rightarrow> (Inl BadAlloc, (mp, b'))
      | (Some p, b') \<Rightarrow> (Inr (Some p),
          (mp\<lparr>allocations := (case allocations mp p of
                 None \<Rightarrow> (allocations mp)(p \<mapsto> n) | Some m \<Rightarrow> allocations mp),
              used_bytes := wadd (used_bytes mp) n\<rparr>, b')))"
      by (simp only: pool_allocate_def prod.case call [symmetric]) simp
    show ?thesis
    proof (cases q)
      case None
      then have "mp' = mp" "b' = b1" "r = Inl BadAlloc" using run eq by simp_all
      moreover have "inv b1 h" using backend_none [OF h(1) call [unfolded None]] .
      ultimately show ?thesis using h(2) ac by (auto simp: pool_ok_def)
    next
      case (Some p)
      from backend_some [OF h(1) a call [unfolded Some]] obtain m where
        m: "p \<notin> dom h" "n \<le> m" "inv b1 (h(p \<mapsto> m))" by blast
      then have none: "allocations mp p = None" using h(2) by (cases "allocations mp p") auto
      note add = accounts_add [OF ac none, of n]
      have e: "mp' = mp\<lparr>allocations := (allocations mp)(p \<mapsto> n), used_bytes := wadd (used_bytes mp) n\<rparr>"
        "b' = b1" "r = Inr (Some p)" using run eq Some none by simp_all
      have "\<forall>q k. allocations mp' q = Some k \<longrightarrow> (\<exists>j \<ge> k. (h(p \<mapsto> m)) q = Some j)"
        using h(2) m(2) by (auto simp: e(1))
      moreover have "accounts_ok mp'" unfolding e(1) by (rule add(1)) (use False in simp)
      ultimately have "pool_ok (mp', b')"
        using m(3) unfolding pool_ok_def e(2) fst_conv snd_conv by blast
      then show ?thesis using add(2) none False by (simp add: e)
    qed
  qed
  then show "pool_ok (mp', b')"
    "r = Inr (Some p) \<Longrightarrow> allocations mp p = None \<and> allocations mp' = (allocations mp)(p \<mapsto> n)
      \<and> used_bytes mp' = used_bytes mp + n"
    "r = Inr None \<or> r = Inl e \<Longrightarrow> mp' = mp" by blast+
qed

lemma pool_release_ok:
  assumes ok: "pool_ok s"
  shows "pool_ok (pool_release al ptr s)"
proof (cases "\<exists>p n. ptr = Some p \<and> allocations (fst s) p = Some n")
  case False
  then have "pool_release al ptr s = s"
    by (auto simp: pool_release_def split: option.splits prod.splits)
  with ok show ?thesis by simp
next
  case True
  then obtain p n where p: "ptr = Some p" "allocations (fst s) p = Some n" by blast
  obtain mp b where s: "s = (mp, b)" by fastforce
  obtain h where h: "inv b h" "\<forall>p n. allocations mp p = Some n \<longrightarrow> (\<exists>m \<ge> n. h p = Some m)"
    and ac: "accounts_ok mp" using ok by (auto simp: pool_ok_def s)
  have "p \<in> dom h" using h(2) p(2) s by auto
  with h(1) have "inv (a_deallocate al p b) (h(p := None))" by (rule deallocate_held)
  moreover have "\<forall>q k. ((allocations mp)(p := None)) q = Some k \<longrightarrow> (\<exists>m \<ge> k. (h(p := None)) q = Some m)"
    using h(2) by auto
  moreover have "pool_release al ptr s = (mp\<lparr>used_bytes := wsub (used_bytes mp) n,
      allocations := (allocations mp)(p := None)\<rparr>, a_deallocate al p b)"
    using p s by (simp add: pool_release_def)
  ultimately show ?thesis
    using accounts_remove(1) [OF ac, of p n] p s unfolding pool_ok_def
    by (intro conjI exI [of _ "h(p := None)"]) simp_all
qed

lemma pool_step_ok:
  assumes "pool_ok s" "call_ok c"
  shows "pool_ok (pool_step al c s)"
proof (cases c)
  case (Allocate n a)
  obtain mp b where s: "s = (mp, b)" by fastforce
  obtain r mp' b' where e: "pool_allocate al n a (mp, b) = (r, (mp', b'))" by (metis prod.collapse)
  from pool_allocate_ok(1) [OF assms(1) [unfolded s] _ e] assms(2) Allocate e s show ?thesis by simp
next
  case (Release p)
  with pool_release_ok [OF assms(1)] show ?thesis by simp
qed

text \<open>The table of the pool holds blocks that do not meet.\<close>

lemma pool_apart:
  assumes "pool_ok (mp, b)" "allocations mp p = Some n" "allocations mp q = Some m" "p \<noteq> q"
  shows "{p ..< p + n} \<inter> {q ..< q + m} = {}"
proof -
  obtain h k j where h: "inv b h" "h p = Some k" "n \<le> k" "h q = Some j" "m \<le> j"
    using assms(1-3) unfolding pool_ok_def by (metis fst_conv snd_conv)
  from apart [OF h(1,2,4) assms(4)] h(3,5) show ?thesis by fastforce
qed

end

section \<open>The pool over the allocator\<close>

lemma aligned_bytes_ge:
  assumes "kama_allocate_aligned pl t n a st = (Some p, st')" and "a < 2 ^ 64"
  shows "n \<le> aligned_bytes n a"
proof (cases "a \<le> 8")
  case True
  then show ?thesis by (simp add: aligned_bytes_def)
next
  case False
  then have "0 < a" by simp
  have g: "word_and a (a - 1) = 0" "n \<le> size_max - (a - 1)"
    using assms(1) False unfolding kama_allocate_aligned_def tc_allocate_aligned_def
    by (auto split: if_splits)
  then obtain k where k: "a = 2 ^ k" using word_and_pred [OF \<open>0 < a\<close> assms(2)] by blast
  with assms(2) have "k \<le> 64" using power_strict_increasing_iff [of "2 :: nat" k 64] by simp
  have "a - 1 \<le> size_max" using assms(2) unfolding size_max_def by simp
  with g(2) have "n + (a - 1) \<le> size_max" by linarith
  then have "n + a - 1 < 2 ^ 64" using \<open>0 < a\<close> unfolding size_max_def by simp
  from and_not_mask [OF this \<open>k \<le> 64\<close>]
  have "aligned_bytes n a = n + a - 1 - (n + a - 1) mod a"
    using False by (simp add: aligned_bytes_def k)
  moreover have "(n + a - 1) mod a < a" using \<open>0 < a\<close> by simp
  ultimately show ?thesis using \<open>0 < a\<close> by linarith
qed

definition kama_blocks :: "'o platform \<Rightarrow> ('o \<Rightarrow> nat set) \<Rightarrow> 'o kama \<Rightarrow> (nat \<rightharpoonup> nat) \<Rightarrow> bool" where
  "kama_blocks pl mapped st h \<longleftrightarrow> platform_ok pl mapped \<and> kama_valid pl mapped (st, h)"

interpretation kb: fresh_blocks "kama_backend pl t" "kama_blocks pl mapped"
  for pl :: "'o platform" and t mapped
proof
  fix st st' :: "'o kama" and h :: "nat \<rightharpoonup> nat" and n m p q a
  assume b: "kama_blocks pl mapped st h"
  then have pl: "platform_ok pl mapped" and v: "kama_valid pl mapped (st, h)"
    by (simp_all add: kama_blocks_def)
  show "{p ..< p + n} \<inter> {q ..< q + m} = {}" if "h p = Some n" "h q = Some m" "p \<noteq> q"
  proof -
    have "{p ..< p + n} \<subseteq> {p ..< p + norm_bytes n}" "{q ..< q + m} \<subseteq> {q ..< q + norm_bytes m}"
      using norm_bytes_pos(2) by auto
    with valid_disjoint [OF v pl that] show ?thesis by blast
  qed
  show "p \<notin> dom h \<and> (\<exists>m \<ge> n. kama_blocks pl mapped st' (h(p \<mapsto> m)))"
    if "a_allocate (kama_backend pl t) n st = (Some p, st')"
    using that kama_allocate_valid(2) [OF v pl, of t n "Some p" st' p] pl
    by (auto simp: kama_backend_def kama_blocks_def)
  show "kama_blocks pl mapped st' h" if "a_allocate (kama_backend pl t) n st = (None, st')"
    using that kama_allocate_valid(1) [OF v pl, of t n None st'] pl
    by (simp add: kama_backend_def kama_blocks_def)
  show "p \<notin> dom h \<and> (\<exists>m \<ge> n. kama_blocks pl mapped st' (h(p \<mapsto> m)))"
    if "a < 2 ^ 64" "a_allocate_aligned (kama_backend pl t) n a st = (Some p, st')"
    using that kama_allocate_aligned_valid(2) [OF v pl, of t n a "Some p" st' p]
      aligned_bytes_ge [of pl t n a st p st'] pl
    by (auto simp: kama_backend_def kama_blocks_def)
  show "kama_blocks pl mapped st' h" if "a_allocate_aligned (kama_backend pl t) n a st = (None, st')"
    using that kama_allocate_aligned_valid(1) [OF v pl, of t n a None st'] pl
    by (simp add: kama_backend_def kama_blocks_def)
  show "kama_blocks pl mapped (a_deallocate (kama_backend pl t) p st) (h(p := None))" if "p \<in> dom h"
    using kama_deallocate_valid [OF v pl that] pl by (simp add: kama_backend_def kama_blocks_def)
qed

lemma pool_run_ok:
  assumes "kb.pool_ok pl mapped s" "\<forall>c \<in> set cs. call_ok (snd c)"
  shows "kb.pool_ok pl mapped (pool_run (kama_backend pl) cs s)"
  using assms
proof (induction "kama_backend pl" cs s rule: pool_run.induct)
  case (2 t c cs s)
  then show ?case using kb.pool_step_ok [of pl mapped s c t] by simp
qed simp

lemma pool_start_ok:
  assumes "platform_ok pl mapped" "n < 2 ^ 64"
  shows "kb.pool_ok pl mapped (memory_pool_new n, kama_new w)"
proof -
  have "kama_blocks pl mapped (kama_new w) Map.empty"
    using assms(1) kama_new_valid by (simp add: kama_blocks_def)
  then show ?thesis
    using accounts_new [OF assms(2)] unfolding kb.pool_ok_def by (auto simp: memory_pool_new_def)
qed

text \<open>
  C17: after any calls of \<open>allocate\<close> and \<open>release\<close> on any threads, the bytes the pool reports are
  the sum of the requests it has not taken back, they never exceed the capacity, and the blocks of
  two of them never share a byte.
\<close>

theorem pool_accounts_for_blocks:
  assumes "platform_ok pl mapped" and "n < 2 ^ 64" and "\<forall>c \<in> set cs. call_ok (snd c)"
    and "pool_run (kama_backend pl) cs (memory_pool_new n, kama_new w) = (mp, st)"
  shows "finite (dom (allocations mp)) \<and> pool_used mp \<le> capacity mp
    \<and> pool_used mp = (\<Sum>p \<in> dom (allocations mp). the (allocations mp p))
    \<and> (\<forall>p q k m. allocations mp p = Some k \<longrightarrow> allocations mp q = Some m \<longrightarrow> p \<noteq> q
         \<longrightarrow> {p ..< p + k} \<inter> {q ..< q + m} = {})"
proof -
  have ok: "kb.pool_ok pl mapped (mp, st)"
    using pool_run_ok [OF pool_start_ok [OF assms(1,2)] assms(3), of w] by (simp add: assms(4))
  have "accounts_ok mp" using ok by (simp add: kb.pool_ok_def)
  then have "finite (dom (allocations mp))" "pool_used mp \<le> capacity mp"
    "pool_used mp = (\<Sum>p \<in> dom (allocations mp). the (allocations mp p))"
    unfolding accounts_ok_def pool_used_def live_bytes_def by blast+
  with kb.pool_apart [OF ok] show ?thesis by blast
qed

text \<open>
  a call of \<open>allocate\<close> that throws throws \<open>bad_alloc\<close>, does so exactly when the request does
  not fit the budget or the allocator has no memory, and leaves the pool as it was; an empty
  request is the null pointer.
\<close>

theorem pool_allocate_errors:
  assumes "used_bytes mp \<le> capacity mp"
  shows "((\<exists>e s. pool_allocate al n a (mp, b) = (Inl e, s))
      \<longleftrightarrow> 0 < n \<and> (capacity mp < used_bytes mp + n
        \<or> fst (if 8 < a then a_allocate_aligned al n a b else a_allocate al n b) = None))
    \<and> (\<forall>e s. pool_allocate al n a (mp, b) = (Inl e, s) \<longrightarrow> e = BadAlloc \<and> fst s = mp)
    \<and> pool_allocate al 0 a (mp, b) = (Inr None, (mp, b))"
proof (intro conjI allI impI)
  have av: "pool_available mp < n \<longleftrightarrow> capacity mp < used_bytes mp + n"
    using assms by (auto simp: pool_available_def)
  obtain q b1 where call: "(if 8 < a then a_allocate_aligned al n a b else a_allocate al n b) = (q, b1)"
    by fastforce
  show "(\<exists>e s. pool_allocate al n a (mp, b) = (Inl e, s))
      \<longleftrightarrow> 0 < n \<and> (capacity mp < used_bytes mp + n
        \<or> fst (if 8 < a then a_allocate_aligned al n a b else a_allocate al n b) = None)"
    unfolding pool_allocate_def prod.case call av by (cases q) simp_all
  show "e = BadAlloc" "fst s = mp" if "pool_allocate al n a (mp, b) = (Inl e, s)" for e s
    using that unfolding pool_allocate_def prod.case call
    by (cases q, auto split: if_splits)+
qed (simp add: pool_allocate_def)

lemma pool_bump_run:
  obtains st where "pool_run (kama_backend bump_platform) [(0, Allocate 303104 8)]
      (memory_pool_new 400000, kama_new (1, {}))
    = (\<lparr>capacity = 400000, used_bytes = 303104, allocations = [4096 \<mapsto> 303104]\<rparr>, st)"
proof -
  have "free_spans (page_cache_of (central (kama_new (1, {})))) = []"
    "os_state (page_cache_of (central (kama_new (1, {})))) = (1, {})"
    by (simp_all add: kama_new_def central_cache_new_def page_cache_new_def)
  from bump_large [OF this, of 0] obtain st where
    t: "tc_allocate bump_platform 0 303104 (kama_new (1, {})) = (Some 4096, st)" by auto
  then have "kama_allocate bump_platform 0 303104 (kama_new (1, {}))
      = (Some 4096, record_allocation 303104 st)" by (simp add: kama_allocate_def)
  then show thesis
    by (intro that [of "record_allocation 303104 st"])
      (simp add: pool_allocate_def memory_pool_new_def pool_available_def kama_backend_def wadd_def)
qed

theorem pool_accounts_for_blocks_witness:
  "\<exists>mp st. pool_run (kama_backend bump_platform) [(0, Allocate 303104 8)]
      (memory_pool_new 400000, kama_new (1, {})) = (mp, st)
    \<and> allocations mp = [4096 \<mapsto> 303104] \<and> pool_used mp \<le> capacity mp"
proof -
  obtain st where st: "pool_run (kama_backend bump_platform) [(0, Allocate 303104 8)]
      (memory_pool_new 400000, kama_new (1, {}))
    = (\<lparr>capacity = 400000, used_bytes = 303104, allocations = [4096 \<mapsto> 303104]\<rparr>, st)"
    by (rule pool_bump_run)
  have "\<forall>c \<in> set [(0 :: nat, Allocate 303104 8)]. call_ok (snd c)" "(400000 :: nat) < 2 ^ 64" by simp_all
  from pool_accounts_for_blocks [OF bump_platform_ok this(2,1) st] st show ?thesis by auto
qed

theorem pool_allocate_errors_witness:
  "\<exists>e s. pool_allocate (kama_backend bump_platform 0) 303104 8
     (\<lparr>capacity = 400000, used_bytes = 303104, allocations = [4096 \<mapsto> 303104]\<rparr>, kama_new (1, {})) = (Inl e, s)"
  using pool_allocate_errors [of "\<lparr>capacity = 400000, used_bytes = 303104, allocations = [4096 \<mapsto> 303104]\<rparr>"
      "kama_backend bump_platform 0" 303104 8 "kama_new (1, {})"]
  by simp

end
