(* ===== verification/Cache_Bounds.thy ===== *)
theory Cache_Bounds
  imports Kama_System
begin

text \<open>
  The thread caches stay within the limits ThreadCache.cpp sets: no list of free blocks is ever
  longer than \<open>maxCachedBlocks\<close> of its class, whatever is allocated and freed.
\<close>

definition bounded :: "'o kama \<Rightarrow> bool" where
  "bounded st \<longleftrightarrow> (\<forall>t c. tc_size (threads st t) c \<le> max_cached_blocks (get_size c))"

lemma bounded_set:
  "bounded st \<Longrightarrow> n \<le> max_cached_blocks (get_size c) \<Longrightarrow> bounded (set_class t c l n st)"
  by (simp add: bounded_def)

lemma bounded_cong: "threads st' = threads st \<Longrightarrow> bounded st' = bounded st"
  by (simp add: bounded_def)

lemma bounded_fields [simp]:
  "bounded (record_central_refill n st) = bounded st" "bounded (record_central_flush n st) = bounded st"
  "bounded (record_allocation n st) = bounded st" "bounded (record_free b st) = bounded st"
  "bounded (st\<lparr>central := cc\<rparr>) = bounded st"
  by (simp_all add: bounded_def)

lemma fetch_bounded:
  assumes ok: "kama_ok pl mapped live st" and pl: "platform_ok pl mapped" and b: "bounded st"
    and empty: "tc_list (threads st t) c = []"
  shows "bounded (snd (fetch_from_central pl t c st))"
proof -
  obtain xs cc where f: "fetch_range pl c (get_batch_num (get_size c)) (central st) = (xs, cc)" by fastforce
  have n: "tc_size (threads st t) c = 0" using lists_ok_dest(2) [OF kama_ok_parts(2) [OF ok], of t c] empty by simp
  have "length xs \<le> get_batch_num (get_size c)"
    using fetch_range_ok [OF pl kama_ok_parts(1) [OF ok] f] by blast
  then have len: "length xs \<le> max_cached_blocks (get_size c)"
    using batch_below_cache [of "get_size c"] by (rule order_trans)
  show ?thesis
  proof (cases xs)
    case Nil
    with b f show ?thesis by (simp add: fetch_from_central_def Let_def)
  next
    case (Cons x l)
    with f have "snd (fetch_from_central pl t c st) =
        record_central_refill (length (x # l)) (set_class t c l (length l) (st\<lparr>central := cc\<rparr>))"
      by (simp add: fetch_from_central_def Let_def n)
    moreover have "length l \<le> max_cached_blocks (get_size c)" using len Cons by simp
    ultimately show ?thesis using bounded_set [of "st\<lparr>central := cc\<rparr>"] b by simp
  qed
qed

text \<open>A list that has grown too long by one block is cut.\<close>

lemma push_bounded:
  assumes ok: "kama_ok pl mapped live st" and b: "bounded st"
  shows "bounded (push_block pl t c p st)"
proof -
  let ?m = "max_cached_blocks (get_size c)" and ?n = "tc_size (threads st t) c + 1"
  let ?l = "p # tc_list (threads st t) c"
  let ?st = "set_class t c ?l ?n st"
  have len: "length ?l = ?n" using lists_ok_dest(2) [OF kama_ok_parts(2) [OF ok], of t c] by simp
  show ?thesis
  proof (cases "?n > ?m")
    case False
    then have "push_block pl t c p st = ?st" by (simp add: push_block_def should_return_def Let_def)
    with bounded_set [OF b] False show ?thesis by simp
  next
    case True
    define k where "k = keep_num (get_size c) ?n"
    have m: "0 < ?m" by (rule max_cached_blocks_pos)
    have k: "k \<le> ?m" "k < ?n" using True m by (simp_all add: k_def keep_num_def)
    have pb: "push_block pl t c p st = return_to_central pl t c ?st"
      using True by (simp add: push_block_def should_return_def Let_def)
    have big: "\<not> ?n \<le> 1" "\<not> k \<ge> ?n" "\<not> length ?l < k" using True m k len by linarith+
    have sz: "tc_size (threads ?st t) c = ?n" "tc_list (threads ?st t) c = ?l" by simp_all
    have "threads (return_to_central pl t c ?st) = threads (set_class t c (take k ?l) k ?st)"
      unfolding return_to_central_def Let_def sz k_def [symmetric]
      using big by (simp del: One_nat_def)
    moreover have "tc_size (threads (set_class t c (take k ?l) k ?st) t') c' \<le> max_cached_blocks (get_size c')"
      for t' c' using b k(1) by (simp add: bounded_def)
    ultimately show ?thesis unfolding pb bounded_def by simp
  qed
qed

lemma flush_bounded:
  assumes "bounded st"
  shows "bounded (flush_all pl t st)"
proof -
  have "bounded (flush_loop pl t cs st)" for cs
    using assms
  proof (induction cs arbitrary: st)
    case (Cons c cs)
    have "bounded (set_class t c [] 0 (st\<lparr>central := cc\<rparr>))" for cc
      by (rule bounded_set) (simp_all add: Cons.prems)
    with Cons.IH Cons.prems show ?case by simp
  qed simp
  then show ?thesis by (simp add: flush_all_def)
qed

lemma tc_allocate_bounded:
  assumes ok: "kama_ok pl mapped live st" and pl: "platform_ok pl mapped" and b: "bounded st"
  shows "bounded (snd (tc_allocate pl t n st))"
proof -
  let ?c = "get_index (norm_bytes n)"
  have large: "bounded (snd (allocate_large pl k st))" for k
    using b by (simp add: allocate_large_def Let_def split: prod.split option.split)
  have "tc_size (threads st t) ?c - 1 \<le> max_cached_blocks (get_size ?c)"
    using b unfolding bounded_def by (meson diff_le_self order_trans)
  then have "bounded (set_class t ?c l (tc_size (threads st t) ?c - 1) st)" for l
    using b by (intro bounded_set)
  with large fetch_bounded [OF ok pl b, of t ?c] show ?thesis
    by (auto simp: tc_allocate_def Let_def norm_bytes_def split: list.split)
qed

lemma tc_deallocate_bounded:
  assumes ok: "kama_ok pl mapped live st" and b: "bounded st"
  shows "bounded (snd (tc_deallocate pl t q st))" and "bounded (snd (tc_deallocate_sized pl t q n st))"
proof -
  show d: "bounded (snd (tc_deallocate pl t q st))"
    using b push_bounded [OF ok b] by (simp add: tc_deallocate_def Let_def split: option.split)
  have "bounded (snd (tc_deallocate pl t (Some p) st))" for p
    using b push_bounded [OF ok b] by (simp add: tc_deallocate_def Let_def split: option.split)
  then show "bounded (snd (tc_deallocate_sized pl t q n st))"
    using b push_bounded [OF ok b] by (simp add: tc_deallocate_sized_def Let_def split: option.split)
qed

lemma tc_aligned_bounded:
  assumes "kama_ok pl mapped live st" "platform_ok pl mapped" "bounded st"
  shows "bounded (snd (tc_allocate_aligned pl t n a st))"
  using assms(3) tc_allocate_bounded [OF assms] by (simp add: tc_allocate_aligned_def)

text \<open>The front end only counts.\<close>

lemma kama_calls_bounded:
  "bounded (snd (kama_allocate pl t n st)) = bounded (snd (tc_allocate pl t n st))"
  "bounded (snd (kama_allocate_aligned pl t n a st)) = bounded (snd (tc_allocate_aligned pl t n a st))"
  "bounded (kama_deallocate pl t (Some p) st) = bounded (snd (tc_deallocate pl t (Some p) st))"
  "bounded (kama_deallocate_sized pl t (Some p) n st) = bounded (snd (tc_deallocate_sized pl t (Some p) n st))"
  by (simp_all add: kama_allocate_def kama_allocate_aligned_def kama_deallocate_def
      kama_deallocate_sized_def split: prod.split option.split bool.split)

lemma bounded_step:
  assumes "kama_step pl s s'" and "bounded (fst s)" and v: "kama_valid pl mapped s" and pl: "platform_ok pl mapped"
  shows "bounded (fst s')"
  using assms(1-3)
proof (induction rule: kama_step.induct)
  case (step_alloc t n st p st' h)
  with tc_allocate_bounded [OF valid_parts(2) [OF step_alloc.prems(2)] pl, of t n]
    kama_calls_bounded(1) [of pl t n st] show ?case by simp
next
  case (step_alloc_fail t n st st' h)
  with tc_allocate_bounded [OF valid_parts(2) [OF step_alloc_fail.prems(2)] pl, of t n]
    kama_calls_bounded(1) [of pl t n st] show ?case by simp
next
  case (step_aligned t n a st p st' h)
  with tc_aligned_bounded [OF valid_parts(2) [OF step_aligned.prems(2)] pl, of t n a]
    kama_calls_bounded(2) [of pl t n a st] show ?case by simp
next
  case (step_aligned_fail t n a st st' h)
  with tc_aligned_bounded [OF valid_parts(2) [OF step_aligned_fail.prems(2)] pl, of t n a]
    kama_calls_bounded(2) [of pl t n a st] show ?case by simp
next
  case (step_free p h st t)
  then show ?case
    using tc_deallocate_bounded(1) [OF valid_parts(2) [OF step_free.prems(2)]]
    by (simp add: kama_calls_bounded)
next
  case (step_free_sized h p n st t)
  then show ?case
    using tc_deallocate_bounded(2) [OF valid_parts(2) [OF step_free_sized.prems(2)]]
    by (simp add: kama_calls_bounded)
next
  case (step_free_null st h t)
  then show ?case by (simp add: kama_deallocate_def)
next
  case (step_flush st h t)
  then show ?case by (simp add: flush_bounded)
qed

definition bounds_invar :: "'o platform \<Rightarrow> ('o \<Rightarrow> nat set) \<Rightarrow> 'o kama \<times> (nat \<rightharpoonup> nat) \<Rightarrow> bool" where
  "bounds_invar pl mapped s \<longleftrightarrow> kama_invar pl mapped s \<and> (platform_ok pl mapped \<longrightarrow> bounded (fst s))"

interpretation bounds: invariant_system kama_start "kama_step pl" "bounds_invar pl mapped"
  for pl :: "'o platform" and mapped
proof
  show "bounds_invar pl mapped s" if "kama_start s" for s
    using that kama.start_invar [OF that]
    by (auto simp: bounds_invar_def kama_start_def bounded_def kama_new_def thread_cache_new_def)
  show "bounds_invar pl mapped s'" if "bounds_invar pl mapped s" "kama_step pl s s'" for s s'
    using that kama.step_invar [OF _ that(2), of mapped] bounded_step [OF that(2)]
    by (auto simp: bounds_invar_def kama_invar_def)
qed

text \<open>The limit of a class in bytes.\<close>

lemma max_cached_bytes:
  assumes "b \<le> max_bytes"
  shows "max_cached_blocks b * b \<le> 2 ^ 21"
proof -
  have "max 1 (262144 div max b 8) * b \<le> 2 ^ 21"
  proof (cases "262144 div max b 8 \<le> 1")
    case True
    with assms show ?thesis by (simp add: max_def)
  next
    case False
    have "262144 div max b 8 * b \<le> 262144 div max b 8 * max b 8" by (intro mult_le_mono) auto
    also have "\<dots> \<le> 262144" by simp
    finally show ?thesis using False by (simp add: max_def)
  qed
  then have large: "min (max 1 (262144 div max b 8)) 128 * b \<le> 2 ^ 21"
    by (rule order_trans [OF mult_le_mono1 [OF min.cobounded1]])
  show ?thesis
  proof (cases "b \<le> 4096")
    case True
    then show ?thesis by (simp add: max_cached_blocks_def Let_def)
  next
    case False
    then have "max_cached_blocks b = min (max 1 (262144 div max b 8)) 128" by (simp add: max_cached_blocks_def Let_def)
    with large show ?thesis by (simp only:)
  qed
qed

text \<open>
  C15: a thread keeps only so much. In every state that calls on any threads lead to, every list of a
  thread cache has the length its counter says, and no more blocks than the limit of its class: 4096
  blocks of up to 32 bytes, 2048 of up to 64, 1024 of up to 256, 256 of up to 1024, 512 of up to 4096,
  and of larger ones what 256 KB hold, at most 128. No list ever keeps more than 2 MB.
\<close>

theorem thread_caches_stay_bounded:
  assumes "platform_ok pl mapped" and "kama_start s" and "(kama_step pl)\<^sup>*\<^sup>* s (st, h)"
  shows "length (tc_list (threads st t) c) = tc_size (threads st t) c
    \<and> tc_size (threads st t) c \<le> max_cached_blocks (get_size c)
    \<and> (c < class_count \<longrightarrow> tc_size (threads st t) c * get_size c \<le> 2 ^ 21)"
proof -
  have i: "bounds_invar pl mapped (st, h)" by (rule bounds.reachable_invar [OF assms(2,3)])
  then have "bounded st" "kama_valid pl mapped (st, h)"
    using assms(1) by (simp_all add: bounds_invar_def kama_invar_def)
  moreover from this(2) have "lists_ok (st_used st) (threads st)"
    using kama_ok_parts(2) valid_parts(2) by blast
  ultimately have b: "length (tc_list (threads st t) c) = tc_size (threads st t) c"
    "tc_size (threads st t) c \<le> max_cached_blocks (get_size c)"
    using lists_ok_dest(2) [of "st_used st" "threads st" t c] unfolding bounded_def by metis+
  moreover have "tc_size (threads st t) c * get_size c \<le> 2 ^ 21" if "c < class_count"
  proof -
    have "get_size c \<le> max_bytes" using size_table_bounds that by (simp add: get_size_def)
    from mult_le_mono1 [OF b(2), of "get_size c"] max_cached_bytes [OF this] show ?thesis by (rule order_trans)
  qed
  ultimately show ?thesis by blast
qed

theorem thread_caches_stay_bounded_witness:
  "\<exists>st. (kama_step bump_platform)\<^sup>*\<^sup>* bump_start (st, [4096 \<mapsto> 303104])
     \<and> tc_size (threads st 0) 0 \<le> 4096"
proof -
  obtain st where st: "(kama_step bump_platform)\<^sup>*\<^sup>* bump_start (st, [4096 \<mapsto> 303104])" by (rule bump_run)
  have "max_cached_blocks (get_size 0) = 4096"
    by (simp add: max_cached_blocks_def get_size_def size_table_eval)
  with thread_caches_stay_bounded [OF bump_platform_ok bump_start st, of 0 0] st show ?thesis by auto
qed

end
