(* ===== verification/Cuda_Gemm.thy ===== *)
theory Cuda_Gemm
  imports Kernels
begin

text \<open>
  The tiled matrix product on the GPU (\<open>gemm_tiled\<close> of cuda/kernels.cu). A launch is a grid of
  blocks of 32 by 32 threads; the threads of a block share two tiles and meet at barriers. The
  model is a transition system: one step is one statement of one thread of one block, or the
  release of a block whose threads have all arrived at the same barrier, so every interleaving
  the device can choose is a run. An access outside a buffer and signed overflow are errors of
  the step.
\<close>

section \<open>Device memory\<close>

definition gemm_tile :: nat where
  "gemm_tile = 32"

definition device_read :: "'f list \<Rightarrow> int \<Rightarrow> 'f result" where
  "device_read buffer i =
     (if 0 \<le> i \<and> nat i < length buffer then Inr (buffer ! nat i) else Inl UndefinedBehavior)"

definition device_write :: "'f list \<Rightarrow> int \<Rightarrow> 'f \<Rightarrow> 'f list result" where
  "device_write buffer i x =
     (if 0 \<le> i \<and> nat i < length buffer then Inr (buffer[nat i := x]) else Inl UndefinedBehavior)"

definition cell_index :: "int \<Rightarrow> int \<Rightarrow> int \<Rightarrow> int result" where
  "cell_index i n j = bind_result (check32 (i * n)) (\<lambda>p. check32 (p + j))"

section \<open>Threads, blocks and the grid\<close>

text \<open>The statements of the kernel; \<open>Loaded\<close> and \<open>Multiplied\<close> are the two barriers.\<close>

datatype gemm_pc =
    Enter | Loop_Test | Load_Lhs | Load_Rhs | Loaded | Multiply | Multiplied | Advance | Store | Done

record 'f gemm_thread =
  gt_pc :: gemm_pc
  gt_row :: int
  gt_column :: int
  gt_block :: int
  gt_k :: nat
  gt_acc :: 'f

record 'f gemm_block =
  lhs_tile :: "nat \<Rightarrow> nat \<Rightarrow> 'f"
  rhs_tile :: "nat \<Rightarrow> nat \<Rightarrow> 'f"
  gb_threads :: "nat \<times> nat \<Rightarrow> 'f gemm_thread"

record 'f gemm_grid =
  grid_blocks :: "nat \<times> nat \<Rightarrow> 'f gemm_block"
  grid_output :: "'f list"

record 'f gemm_args =
  ga_lhs :: "'f list"
  ga_rhs :: "'f list"
  ga_rows :: int
  ga_columns :: int
  ga_inner :: int

text \<open>
  Blocks and threads are named by \<open>(x, y)\<close>, as \<open>blockIdx\<close> and \<open>threadIdx\<close>. The products of
  \<open>blockIdx\<close> are unsigned and converted to \<open>int\<close>; everything else is signed.
\<close>

definition tile_threads :: "(nat \<times> nat) list" where
  "tile_threads = List.product [0..<gemm_tile] [0..<gemm_tile]"

definition gemm_blocks :: "nat \<times> nat \<Rightarrow> (nat \<times> nat) list" where
  "gemm_blocks g = List.product [0..<fst g] [0..<snd g]"

definition gemm_enter :: "'f fops \<Rightarrow> nat \<times> nat \<Rightarrow> nat \<times> nat \<Rightarrow> 'f gemm_thread \<Rightarrow> 'f gemm_thread" where
  "gemm_enter ops blk t th =
     th\<lparr>gt_pc := Loop_Test,
        gt_row := i32 (int ((snd blk * gemm_tile + snd t) mod 2 ^ 32)),
        gt_column := i32 (int ((fst blk * gemm_tile + fst t) mod 2 ^ 32)),
        gt_block := 0, gt_acc := f_zero ops\<rparr>"

definition lhs_element :: "'f fops \<Rightarrow> 'f gemm_args \<Rightarrow> int \<Rightarrow> int \<Rightarrow> int \<Rightarrow> 'f result" where
  "lhs_element ops args row block tx =
     (if row < ga_rows args
      then bind_result (check32 (block + tx)) (\<lambda>j.
             if j < ga_inner args
             then bind_result (cell_index row (ga_inner args) block)
                    (\<lambda>i. bind_result (check32 (i + tx)) (device_read (ga_lhs args)))
             else Inr (f_zero ops))
      else Inr (f_zero ops))"

definition rhs_element :: "'f fops \<Rightarrow> 'f gemm_args \<Rightarrow> int \<Rightarrow> int \<Rightarrow> int \<Rightarrow> 'f result" where
  "rhs_element ops args column block ty =
     bind_result (check32 (block + ty)) (\<lambda>i.
       if i < ga_inner args \<and> column < ga_columns args
       then bind_result (cell_index i (ga_columns args) column) (device_read (ga_rhs args))
       else Inr (f_zero ops))"

definition gemm_store :: "'f gemm_args \<Rightarrow> 'f gemm_thread \<Rightarrow> 'f list \<Rightarrow> 'f list result" where
  "gemm_store args th out =
     (if gt_row th < ga_rows args \<and> gt_column th < ga_columns args
      then bind_result (cell_index (gt_row th) (ga_columns args) (gt_column th))
             (\<lambda>i. device_write out i (gt_acc th))
      else Inr out)"

definition set_thread :: "nat \<times> nat \<Rightarrow> 'f gemm_thread \<Rightarrow> 'f gemm_block \<Rightarrow> 'f gemm_block" where
  "set_thread t th b = b\<lparr>gb_threads := (gb_threads b)(t := th)\<rparr>"

definition write_tile :: "(nat \<Rightarrow> nat \<Rightarrow> 'f) \<Rightarrow> nat \<times> nat \<Rightarrow> 'f \<Rightarrow> nat \<Rightarrow> nat \<Rightarrow> 'f" where
  "write_tile tile t x = tile(snd t := (tile (snd t))(fst t := x))"

definition gemm_running :: "'f gemm_thread \<Rightarrow> bool" where
  "gemm_running th \<longleftrightarrow> gt_pc th \<notin> {Loaded, Multiplied, Done}"

definition gemm_thread_step ::
  "'f fops \<Rightarrow> 'f gemm_args \<Rightarrow> nat \<times> nat \<Rightarrow> nat \<times> nat \<Rightarrow> 'f gemm_block \<Rightarrow> 'f list
    \<Rightarrow> ('f gemm_block \<times> 'f list) result" where
  "gemm_thread_step ops args blk t b out =
     (let th = gb_threads b t; tx = int (fst t); ty = int (snd t) in
      case gt_pc th of
        Enter \<Rightarrow> Inr (set_thread t (gemm_enter ops blk t th) b, out)
      | Loop_Test \<Rightarrow>
          Inr (set_thread t (th\<lparr>gt_pc := if gt_block th < ga_inner args then Load_Lhs else Store\<rparr>) b, out)
      | Load_Lhs \<Rightarrow>
          bind_result (lhs_element ops args (gt_row th) (gt_block th) tx)
            (\<lambda>x. Inr (set_thread t (th\<lparr>gt_pc := Load_Rhs\<rparr>) (b\<lparr>lhs_tile := write_tile (lhs_tile b) t x\<rparr>), out))
      | Load_Rhs \<Rightarrow>
          bind_result (rhs_element ops args (gt_column th) (gt_block th) ty)
            (\<lambda>x. Inr (set_thread t (th\<lparr>gt_pc := Loaded\<rparr>) (b\<lparr>rhs_tile := write_tile (rhs_tile b) t x\<rparr>), out))
      | Multiply \<Rightarrow>
          Inr (set_thread t
                (if gt_k th < gemm_tile
                 then th\<lparr>gt_acc := f_add ops (gt_acc th)
                            (f_mul ops (lhs_tile b (snd t) (gt_k th)) (rhs_tile b (gt_k th) (fst t))),
                         gt_k := Suc (gt_k th)\<rparr>
                 else th\<lparr>gt_pc := Multiplied\<rparr>) b, out)
      | Advance \<Rightarrow>
          bind_result (check32 (gt_block th + int gemm_tile))
            (\<lambda>k. Inr (set_thread t (th\<lparr>gt_pc := Loop_Test, gt_block := k\<rparr>) b, out))
      | Store \<Rightarrow>
          bind_result (gemm_store args th out)
            (\<lambda>out'. Inr (set_thread t (th\<lparr>gt_pc := Done\<rparr>) b, out'))
      | _ \<Rightarrow> Inr (b, out))"

text \<open>\<open>__syncthreads\<close>: the block goes on when all its threads have arrived.\<close>

definition all_at :: "gemm_pc \<Rightarrow> 'f gemm_block \<Rightarrow> bool" where
  "all_at pc b = list_all (\<lambda>t. gt_pc (gb_threads b t) = pc) tile_threads"

definition gemm_barrier :: "'f gemm_block \<Rightarrow> 'f gemm_block option" where
  "gemm_barrier b =
     (if all_at Loaded b
      then Some (b\<lparr>gb_threads := \<lambda>t. (gb_threads b t)\<lparr>gt_pc := Multiply, gt_k := 0\<rparr>\<rparr>)
      else if all_at Multiplied b
      then Some (b\<lparr>gb_threads := \<lambda>t. (gb_threads b t)\<lparr>gt_pc := Advance\<rparr>\<rparr>)
      else None)"

inductive gemm_step ::
  "'f fops \<Rightarrow> 'f gemm_args \<Rightarrow> nat \<times> nat \<Rightarrow> 'f gemm_grid \<Rightarrow> 'f gemm_grid \<Rightarrow> bool"
  for ops args g
where
  thread: "blk \<in> set (gemm_blocks g) \<Longrightarrow> t \<in> set tile_threads \<Longrightarrow>
    gemm_running (gb_threads (grid_blocks s blk) t) \<Longrightarrow>
    gemm_thread_step ops args blk t (grid_blocks s blk) (grid_output s) = Inr (b, out) \<Longrightarrow>
    gemm_step ops args g s (s\<lparr>grid_blocks := (grid_blocks s)(blk := b), grid_output := out\<rparr>)"
| barrier: "blk \<in> set (gemm_blocks g) \<Longrightarrow> gemm_barrier (grid_blocks s blk) = Some b \<Longrightarrow>
    gemm_step ops args g s (s\<lparr>grid_blocks := (grid_blocks s)(blk := b)\<rparr>)"

text \<open>A statement of a running thread that is undefined in the state.\<close>

definition gemm_fault :: "'f fops \<Rightarrow> 'f gemm_args \<Rightarrow> nat \<times> nat \<Rightarrow> 'f gemm_grid \<Rightarrow> bool" where
  "gemm_fault ops args g s =
     list_ex (\<lambda>blk. list_ex (\<lambda>t. gemm_running (gb_threads (grid_blocks s blk) t) \<and>
        isl (gemm_thread_step ops args blk t (grid_blocks s blk) (grid_output s)))
       tile_threads) (gemm_blocks g)"

definition gemm_finished :: "nat \<times> nat \<Rightarrow> 'f gemm_grid \<Rightarrow> bool" where
  "gemm_finished g s = list_all (\<lambda>blk. all_at Done (grid_blocks s blk)) (gemm_blocks g)"

text \<open>
  The launch: every thread at the kernel's entry. Shared memory and registers are not
  initialised, the output buffer holds whatever it held.
\<close>

definition gemm_start :: "nat \<times> nat \<Rightarrow> 'f gemm_grid \<Rightarrow> bool" where
  "gemm_start g s = list_all (\<lambda>blk. all_at Enter (grid_blocks s blk)) (gemm_blocks g)"

section \<open>What the threads compute\<close>

text \<open>
  Operands of the shapes the host passes: \<open>rows\<close> by \<open>inner\<close> and \<open>inner\<close> by \<open>columns\<close>, with
  every index below the range of \<open>int\<close>.
\<close>

definition gemm_operands ::
  "'f gemm_args \<Rightarrow> nat \<times> nat \<Rightarrow> nat \<Rightarrow> nat \<Rightarrow> nat \<Rightarrow> bool" where
  "gemm_operands args g rows columns inner \<longleftrightarrow>
     ga_rows args = int rows \<and> ga_columns args = int columns \<and> ga_inner args = int inner
     \<and> length (ga_lhs args) = rows * inner \<and> length (ga_rhs args) = inner * columns
     \<and> rows + 64 \<le> 2 ^ 31 \<and> columns + 64 \<le> 2 ^ 31 \<and> inner + 64 \<le> 2 ^ 31
     \<and> rows * inner + 64 \<le> 2 ^ 31 \<and> inner * columns + 64 \<le> 2 ^ 31 \<and> rows * columns < 2 ^ 31
     \<and> g = ((columns + 31) div 32, (rows + 31) div 32)"

definition padded_lhs :: "'f fops \<Rightarrow> 'f list \<Rightarrow> nat \<Rightarrow> nat \<Rightarrow> nat \<Rightarrow> nat \<Rightarrow> 'f" where
  "padded_lhs ops xs rows inner i k = (if i < rows \<and> k < inner then xs ! (i * inner + k) else f_zero ops)"

definition padded_rhs :: "'f fops \<Rightarrow> 'f list \<Rightarrow> nat \<Rightarrow> nat \<Rightarrow> nat \<Rightarrow> nat \<Rightarrow> 'f" where
  "padded_rhs ops ys inner columns k j = (if k < inner \<and> j < columns then ys ! (k * columns + j) else f_zero ops)"

definition padded_dot ::
  "'f fops \<Rightarrow> 'f list \<Rightarrow> 'f list \<Rightarrow> nat \<Rightarrow> nat \<Rightarrow> nat \<Rightarrow> nat \<Rightarrow> nat \<Rightarrow> nat \<Rightarrow> 'f" where
  "padded_dot ops xs ys rows columns inner i j n =
     fold (\<lambda>k a. f_add ops a (f_mul ops (padded_lhs ops xs rows inner i k) (padded_rhs ops ys inner columns k j)))
       [0..<n] (f_zero ops)"

lemma padded_dot_0 [simp]: "padded_dot ops xs ys rows columns inner i j 0 = f_zero ops"
  by (simp add: padded_dot_def)

lemma padded_dot_Suc:
  "padded_dot ops xs ys rows columns inner i j (Suc n)
   = f_add ops (padded_dot ops xs ys rows columns inner i j n)
       (f_mul ops (padded_lhs ops xs rows inner i n) (padded_rhs ops ys inner columns n j))"
  by (simp add: padded_dot_def)

text \<open>
  Adding the products of the padding does not change an accumulator: \<open>Q\<close> are the values an
  accumulator can have (over IEEE numbers, all but the negative zero).
\<close>

locale padding_neutral =
  fixes ops :: "'f fops" and Q :: "'f \<Rightarrow> bool"
  assumes zero: "Q (f_zero ops)"
    and add: "Q a \<Longrightarrow> Q (f_add ops a (f_mul ops x y))"
    and neutral: "Q a \<Longrightarrow> f_add ops a (f_mul ops (f_zero ops) (f_zero ops)) = a"
begin

lemma padded_dot_Q: "Q (padded_dot ops xs ys rows columns inner i j n)"
  by (induction n) (simp_all add: zero add padded_dot_Suc)

lemma padded_dot_inner:
  assumes "i < rows" "j < columns" "inner \<le> n"
  shows "padded_dot ops xs ys rows columns inner i j n = dot_ref ops xs ys inner columns i j"
  using assms(3)
proof (induction rule: dec_induct)
  case base
  show ?case unfolding padded_dot_def dot_ref_def
    by (rule fold_cong) (simp_all add: padded_lhs_def padded_rhs_def assms)
next
  case (step n)
  then have "padded_lhs ops xs rows inner i n = f_zero ops" "padded_rhs ops ys inner columns n j = f_zero ops"
    by (simp_all add: padded_lhs_def padded_rhs_def)
  with step show ?case by (simp add: padded_dot_Suc padded_dot_Q neutral flip: step.IH)
qed

end

interpretation real_padding: padding_neutral "real_ops er" "\<lambda>_. True"
  by unfold_locales simp_all

section \<open>The invariant\<close>

text \<open>
  All threads of a block are in the same half of the same iteration: half \<open>False\<close> of iteration
  \<open>n\<close> loads the tiles, half \<open>True\<close> multiplies them.
\<close>

definition thread_ok ::
  "(nat \<Rightarrow> 'f) \<Rightarrow> nat \<Rightarrow> nat \<Rightarrow> bool \<Rightarrow> int \<Rightarrow> int \<Rightarrow> bool \<Rightarrow> bool \<Rightarrow> 'f gemm_thread \<Rightarrow> bool" where
  "thread_ok dot N n h row column lhs_in rhs_in th \<longleftrightarrow>
     (let here = (gt_row th = row \<and> gt_column th = column);
          loop = (here \<and> n < N \<and> gt_block th = int (32 * n)) in
      case gt_pc th of
        Enter \<Rightarrow> n = 0 \<and> \<not> h
      | Loop_Test \<Rightarrow> \<not> h \<and> here \<and> n \<le> N \<and> gt_block th = int (32 * n) \<and> gt_acc th = dot (32 * n)
      | Load_Lhs \<Rightarrow> \<not> h \<and> loop \<and> gt_acc th = dot (32 * n)
      | Load_Rhs \<Rightarrow> \<not> h \<and> loop \<and> gt_acc th = dot (32 * n) \<and> lhs_in
      | Loaded \<Rightarrow> \<not> h \<and> loop \<and> gt_acc th = dot (32 * n) \<and> lhs_in \<and> rhs_in
      | Multiply \<Rightarrow> h \<and> loop \<and> gt_k th \<le> 32 \<and> gt_acc th = dot (32 * n + gt_k th)
      | Multiplied \<Rightarrow> h \<and> loop \<and> gt_acc th = dot (32 * n + 32)
      | Advance \<Rightarrow> \<not> h \<and> here \<and> n \<noteq> 0 \<and> n \<le> N \<and> gt_block th = int (32 * (n - 1)) \<and> gt_acc th = dot (32 * n)
      | Store \<Rightarrow> \<not> h \<and> here \<and> n = N \<and> gt_acc th = dot (32 * N)
      | Done \<Rightarrow> \<not> h \<and> n = N)"

definition gemm_block_ok ::
  "'f fops \<Rightarrow> 'f list \<Rightarrow> 'f list \<Rightarrow> nat \<Rightarrow> nat \<Rightarrow> nat \<Rightarrow> nat \<Rightarrow> bool \<Rightarrow> nat \<times> nat \<Rightarrow> 'f gemm_block \<Rightarrow> bool" where
  "gemm_block_ok ops xs ys rows columns inner n h blk b \<longleftrightarrow>
     (\<forall>tx < 32. \<forall>ty < 32.
        let row = 32 * snd blk + ty; column = 32 * fst blk + tx;
            l = lhs_tile b ty tx = padded_lhs ops xs rows inner row (32 * n + tx);
            r = rhs_tile b ty tx = padded_rhs ops ys inner columns (32 * n + ty) column
        in thread_ok (padded_dot ops xs ys rows columns inner row column) ((inner + 31) div 32) n h
             (int row) (int column) l r (gb_threads b (tx, ty)) \<and> (h \<longrightarrow> l \<and> r))"

definition gemm_output_ok ::
  "'f fops \<Rightarrow> 'f list \<Rightarrow> 'f list \<Rightarrow> nat \<Rightarrow> nat \<Rightarrow> nat \<Rightarrow> 'f gemm_grid \<Rightarrow> bool" where
  "gemm_output_ok ops xs ys rows columns inner s \<longleftrightarrow>
     length (grid_output s) = rows * columns \<and>
     (\<forall>i < rows. \<forall>j < columns.
        gt_pc (gb_threads (grid_blocks s (j div 32, i div 32)) (j mod 32, i mod 32)) = Done \<longrightarrow>
        grid_output s ! (i * columns + j)
          = padded_dot ops xs ys rows columns inner i j (32 * ((inner + 31) div 32)))"

definition gemm_invar ::
  "'f fops \<Rightarrow> 'f gemm_args \<Rightarrow> nat \<times> nat \<Rightarrow> nat \<Rightarrow> nat \<Rightarrow> nat \<Rightarrow> 'f gemm_grid \<Rightarrow> bool" where
  "gemm_invar ops args g rows columns inner s \<longleftrightarrow>
     gemm_output_ok ops (ga_lhs args) (ga_rhs args) rows columns inner s \<and>
     (\<forall>blk \<in> set (gemm_blocks g). \<exists>n h.
        gemm_block_ok ops (ga_lhs args) (ga_rhs args) rows columns inner n h blk (grid_blocks s blk))"

lemma tile_threads_iff: "t \<in> set tile_threads \<longleftrightarrow> fst t < 32 \<and> snd t < 32"
  by (cases t) (auto simp: tile_threads_def gemm_tile_def)

lemma gemm_blocks_iff: "blk \<in> set (gemm_blocks g) \<longleftrightarrow> fst blk < fst g \<and> snd blk < snd g"
  by (cases blk) (auto simp: gemm_blocks_def)

section \<open>Every statement keeps the invariant\<close>

lemma check32_nat: "n < 2 ^ 31 \<Longrightarrow> check32 (int n) = Inr (int n)"
  by (simp add: check32_def)

lemma cell_index_exact:
  assumes "i < m" "j < n" "m * n \<le> 2 ^ 31"
  shows "cell_index (int i) (int n) (int j) = Inr (int (i * n + j))"
proof -
  have "i * n + j < 2 ^ 31" using less_le_trans [OF row_major_less [OF assms(1,2)] assms(3)] .
  then have "check32 (int (i * n)) = Inr (int (i * n))" "check32 (int (i * n + j)) = Inr (int (i * n + j))"
    by (simp_all only: check32_nat add_lessD1)
  then show ?thesis by (simp add: cell_index_def)
qed

lemma device_read_exact: "i < length xs \<Longrightarrow> device_read xs (int i) = Inr (xs ! i)"
  by (simp add: device_read_def)

lemma lhs_element_exact:
  assumes "gemm_operands args g rows columns inner" "block < inner" "tx < 32"
  shows "lhs_element ops args (int i) (int block) (int tx)
    = Inr (padded_lhs ops (ga_lhs args) rows inner i (block + tx))"
proof -
  have j: "check32 (int block + int tx) = Inr (int (block + tx))"
    using assms by (auto simp: gemm_operands_def intro!: check32_exact)
  show ?thesis
  proof (cases "i < rows \<and> block + tx < inner")
    case True
    then have "i * inner + (block + tx) < rows * inner" by (intro row_major_less) simp_all
    with True cell_index_exact [of i rows block inner] assms j show ?thesis
      by (auto simp: lhs_element_def gemm_operands_def padded_lhs_def add.assoc
          check32_exact device_read_exact simp flip: of_nat_add of_nat_mult)
  qed (use assms j in \<open>auto simp: lhs_element_def gemm_operands_def padded_lhs_def\<close>)
qed

lemma rhs_element_exact:
  assumes "gemm_operands args g rows columns inner" "block < inner" "ty < 32"
  shows "rhs_element ops args (int j) (int block) (int ty)
    = Inr (padded_rhs ops (ga_rhs args) inner columns (block + ty) j)"
proof -
  have i: "check32 (int block + int ty) = Inr (int (block + ty))"
    using assms by (auto simp: gemm_operands_def intro!: check32_exact)
  show ?thesis
  proof (cases "block + ty < inner \<and> j < columns")
    case True
    then have "(block + ty) * columns + j < inner * columns" by (intro row_major_less) simp_all
    then have "device_read (ga_rhs args) (int ((block + ty) * columns + j))
        = Inr (ga_rhs args ! ((block + ty) * columns + j))"
      using assms by (intro device_read_exact) (simp add: gemm_operands_def)
    with True cell_index_exact [of "block + ty" inner j columns] assms i show ?thesis
      by (auto simp: rhs_element_def gemm_operands_def padded_rhs_def)
  qed (use assms i in \<open>auto simp: rhs_element_def gemm_operands_def padded_rhs_def\<close>)
qed

definition gemm_rank :: "nat \<Rightarrow> 'f gemm_thread \<Rightarrow> nat" where
  "gemm_rank N th =
     (let left = 40 * (N - nat (gt_block th) div 32) in
      case gt_pc th of
        Enter \<Rightarrow> 40 * N + 4 | Loop_Test \<Rightarrow> left + 3 | Load_Lhs \<Rightarrow> left + 2 | Load_Rhs \<Rightarrow> left + 1
      | Loaded \<Rightarrow> left | Multiply \<Rightarrow> left - 1 - gt_k th | Multiplied \<Rightarrow> left - 34
      | Advance \<Rightarrow> left - 35 | Store \<Rightarrow> 1 | Done \<Rightarrow> 0)"

lemma gemm_block_okD:
  assumes "gemm_block_ok ops xs ys rows columns inner n h blk b" "tx < 32" "ty < 32"
  shows "thread_ok (padded_dot ops xs ys rows columns inner (32 * snd blk + ty) (32 * fst blk + tx))
      ((inner + 31) div 32) n h (int (32 * snd blk + ty)) (int (32 * fst blk + tx))
      (lhs_tile b ty tx = padded_lhs ops xs rows inner (32 * snd blk + ty) (32 * n + tx))
      (rhs_tile b ty tx = padded_rhs ops ys inner columns (32 * n + ty) (32 * fst blk + tx))
      (gb_threads b (tx, ty))"
    and "h \<Longrightarrow> lhs_tile b ty tx = padded_lhs ops xs rows inner (32 * snd blk + ty) (32 * n + tx)"
    and "h \<Longrightarrow> rhs_tile b ty tx = padded_rhs ops ys inner columns (32 * n + ty) (32 * fst blk + tx)"
  using assms by (simp_all add: gemm_block_ok_def Let_def)

lemma gemm_block_ok_update:
  assumes ok: "gemm_block_ok ops xs ys rows columns inner n h blk b"
    and th: "gb_threads b' = (gb_threads b)((tx, ty) := th)"
    and l: "\<And>i j. \<not> (i = ty \<and> j = tx \<and> \<not> h) \<Longrightarrow> lhs_tile b' i j = lhs_tile b i j"
    and r: "\<And>i j. \<not> (i = ty \<and> j = tx \<and> \<not> h) \<Longrightarrow> rhs_tile b' i j = rhs_tile b i j"
    and new: "thread_ok (padded_dot ops xs ys rows columns inner (32 * snd blk + ty) (32 * fst blk + tx))
      ((inner + 31) div 32) n h (int (32 * snd blk + ty)) (int (32 * fst blk + tx))
      (lhs_tile b' ty tx = padded_lhs ops xs rows inner (32 * snd blk + ty) (32 * n + tx))
      (rhs_tile b' ty tx = padded_rhs ops ys inner columns (32 * n + ty) (32 * fst blk + tx)) th"
  shows "gemm_block_ok ops xs ys rows columns inner n h blk b'"
  unfolding gemm_block_ok_def Let_def
proof (intro allI impI)
  fix tx' ty' :: nat assume "tx' < 32" "ty' < 32"
  note old = gemm_block_okD [OF ok this]
  show "thread_ok (padded_dot ops xs ys rows columns inner (32 * snd blk + ty') (32 * fst blk + tx'))
      ((inner + 31) div 32) n h (int (32 * snd blk + ty')) (int (32 * fst blk + tx'))
      (lhs_tile b' ty' tx' = padded_lhs ops xs rows inner (32 * snd blk + ty') (32 * n + tx'))
      (rhs_tile b' ty' tx' = padded_rhs ops ys inner columns (32 * n + ty') (32 * fst blk + tx'))
      (gb_threads b' (tx', ty'))
    \<and> (h \<longrightarrow> lhs_tile b' ty' tx' = padded_lhs ops xs rows inner (32 * snd blk + ty') (32 * n + tx')
        \<and> rhs_tile b' ty' tx' = padded_rhs ops ys inner columns (32 * n + ty') (32 * fst blk + tx'))"
  proof (cases "tx' = tx \<and> ty' = ty")
    case True
    with new old(2,3) l [of ty tx] r [of ty tx] show ?thesis by (auto simp: th)
  next
    case False
    with old l [of ty' tx'] r [of ty' tx'] show ?thesis by (auto simp: th)
  qed
qed

lemma grid_bound:
  fixes n b t :: nat
  assumes "b < (n + 31) div 32" "t < 32"
  shows "32 * b + t < n + 31"
proof -
  have "32 * (b + 1) \<le> n + 31" using assms(1) by (simp add: less_eq_div_iff_mult_less_eq Suc_le_eq flip: Suc_eq_plus1)
  with assms(2) show ?thesis by simp
qed

lemma thread_index_exact:
  fixes b t :: nat
  assumes "32 * b + t < 2 ^ 31"
  shows "i32 (int ((b * gemm_tile + t) mod 2 ^ 32)) = int (32 * b + t)"
proof -
  have "(b * gemm_tile + t) mod 2 ^ 32 = 32 * b + t"
    using assms by (simp add: gemm_tile_def mult.commute)
  with assms show ?thesis by (simp only: i32_nat_exact)
qed

text \<open>What one statement of a running thread does.\<close>

definition gemm_step_post ::
  "'f fops \<Rightarrow> 'f gemm_args \<Rightarrow> nat \<Rightarrow> nat \<Rightarrow> nat \<Rightarrow> nat \<Rightarrow> bool \<Rightarrow> nat \<times> nat \<Rightarrow> nat \<times> nat \<Rightarrow> 'f gemm_block
    \<Rightarrow> 'f list \<Rightarrow> 'f gemm_block \<Rightarrow> 'f list \<Rightarrow> bool" where
  "gemm_step_post ops args rows columns inner n h blk t b out b' out' \<longleftrightarrow>
     (let N = (inner + 31) div 32; row = 32 * snd blk + snd t; column = 32 * fst blk + fst t;
          pc = gt_pc (gb_threads b t) in
      gemm_block_ok ops (ga_lhs args) (ga_rhs args) rows columns inner n h blk b' \<and>
      (\<forall>t'. t' \<noteq> t \<longrightarrow> gb_threads b' t' = gb_threads b t') \<and>
      gemm_rank N (gb_threads b' t) < gemm_rank N (gb_threads b t) \<and>
      (gt_pc (gb_threads b' t) = Done \<longleftrightarrow> pc = Store) \<and>
      out' = (if pc = Store \<and> row < rows \<and> column < columns
              then out[row * columns + column
                     := padded_dot ops (ga_lhs args) (ga_rhs args) rows columns inner row column (32 * N)]
              else out))"

lemma gemm_step_postI:
  assumes ok: "gemm_block_ok ops (ga_lhs args) (ga_rhs args) rows columns inner n h (bx, by) b"
    and th: "gb_threads b' = (gb_threads b)((tx, ty) := th)"
    and l: "\<And>i j. \<not> (i = ty \<and> j = tx \<and> \<not> h) \<Longrightarrow> lhs_tile b' i j = lhs_tile b i j"
    and r: "\<And>i j. \<not> (i = ty \<and> j = tx \<and> \<not> h) \<Longrightarrow> rhs_tile b' i j = rhs_tile b i j"
    and new: "thread_ok (padded_dot ops (ga_lhs args) (ga_rhs args) rows columns inner (32 * by + ty) (32 * bx + tx))
      ((inner + 31) div 32) n h (int (32 * by + ty)) (int (32 * bx + tx))
      (lhs_tile b' ty tx = padded_lhs ops (ga_lhs args) rows inner (32 * by + ty) (32 * n + tx))
      (rhs_tile b' ty tx = padded_rhs ops (ga_rhs args) inner columns (32 * n + ty) (32 * bx + tx)) th"
    and rank: "gemm_rank ((inner + 31) div 32) th < gemm_rank ((inner + 31) div 32) (gb_threads b (tx, ty))"
    and fin: "gt_pc th = Done \<longleftrightarrow> gt_pc (gb_threads b (tx, ty)) = Store"
    and out: "out' = (if gt_pc (gb_threads b (tx, ty)) = Store \<and> 32 * by + ty < rows \<and> 32 * bx + tx < columns
      then out[(32 * by + ty) * columns + (32 * bx + tx)
        := padded_dot ops (ga_lhs args) (ga_rhs args) rows columns inner (32 * by + ty) (32 * bx + tx)
             (32 * ((inner + 31) div 32))] else out)"
  shows "gemm_step_post ops args rows columns inner n h (bx, by) (tx, ty) b out b' out'"
  using gemm_block_ok_update [OF ok th l r] new rank fin out th
  unfolding gemm_step_post_def by (simp add: Let_def)

lemma gemm_thread_step_ok:
  assumes ops: "gemm_operands args g rows columns inner"
    and blk: "blk \<in> set (gemm_blocks g)" and t: "t \<in> set tile_threads"
    and ok: "gemm_block_ok ops (ga_lhs args) (ga_rhs args) rows columns inner n h blk b"
    and run: "gemm_running (gb_threads b t)" and out: "length out = rows * columns"
  shows "\<exists>b' out'. gemm_thread_step ops args blk t b out = Inr (b', out')
    \<and> gemm_step_post ops args rows columns inner n h blk t b out b' out'"
proof -
  obtain bx "by" tx ty where eq: "blk = (bx, by)" "t = (tx, ty)" by (metis surj_pair)
  let ?th = "gb_threads b (tx, ty)" and ?N = "(inner + 31) div 32"
  let ?row = "32 * by + ty" and ?col = "32 * bx + tx"
  let ?dot = "padded_dot ops (ga_lhs args) (ga_rhs args) rows columns inner ?row ?col"
  have tt: "tx < 32" "ty < 32" using t by (simp_all add: tile_threads_iff eq)
  have g: "bx < (columns + 31) div 32" "by < (rows + 31) div 32"
    using blk ops by (simp_all add: gemm_blocks_iff gemm_operands_def eq)
  have small: "?row < 2 ^ 31" "?col < 2 ^ 31"
    using grid_bound [OF g(1) tt(1)] grid_bound [OF g(2) tt(2)] ops by (simp_all add: gemm_operands_def)
  note old = gemm_block_okD [OF ok tt, unfolded eq fst_conv snd_conv]
  note post = gemm_step_postI [OF ok [unfolded eq]]
  have N: "32 * m < inner \<longleftrightarrow> m < ?N" for m by linarith
  have inner: "inner < 2 ^ 31 - 32" using ops by (simp add: gemm_operands_def)
  have "\<exists>b' out'. gemm_thread_step ops args (bx, by) (tx, ty) b out = Inr (b', out')
    \<and> gemm_step_post ops args rows columns inner n h (bx, by) (tx, ty) b out b' out'"
  proof (cases "gt_pc ?th")
    case Enter
    let ?b = "set_thread (tx, ty) (gemm_enter ops (bx, by) (tx, ty) ?th) b"
    have "gemm_step_post ops args rows columns inner n h (bx, by) (tx, ty) b out ?b out"
      by (rule post [where th = "gemm_enter ops (bx, by) (tx, ty) ?th"])
        (use Enter old(1) small [THEN thread_index_exact] in \<open>simp_all add: set_thread_def gemm_enter_def thread_ok_def
          gemm_rank_def Let_def del: of_nat_add of_nat_mult\<close>)
    with Enter show ?thesis by (simp add: gemm_thread_step_def eq Let_def)
  next
    case Loop_Test
    let ?th' = "?th\<lparr>gt_pc := if gt_block ?th < ga_inner args then Load_Lhs else Store\<rparr>"
    have "gt_block ?th < ga_inner args \<longleftrightarrow> n < ?N"
      using Loop_Test old(1) ops N [of n] by (auto simp: thread_ok_def gemm_operands_def)
    then have "gemm_step_post ops args rows columns inner n h (bx, by) (tx, ty) b out
        (set_thread (tx, ty) ?th' b) out"
      by (intro post [where th = ?th'])
        (use Loop_Test old(1) in \<open>auto simp add: set_thread_def thread_ok_def gemm_rank_def Let_def\<close>)
    with Loop_Test show ?thesis by (simp add: gemm_thread_step_def eq Let_def)
  next
    case Load_Lhs
    let ?th' = "?th\<lparr>gt_pc := Load_Rhs\<rparr>"
    let ?x = "padded_lhs ops (ga_lhs args) rows inner ?row (32 * n + tx)"
    let ?b = "set_thread (tx, ty) ?th' (b\<lparr>lhs_tile := write_tile (lhs_tile b) (tx, ty) ?x\<rparr>)"
    have x: "lhs_element ops args (gt_row ?th) (gt_block ?th) (int tx) = Inr ?x"
      using Load_Lhs old(1) lhs_element_exact [OF ops, of "32 * n" tx ops ?row] N [of n] tt
      by (simp add: thread_ok_def Let_def)
    have "gemm_step_post ops args rows columns inner n h (bx, by) (tx, ty) b out ?b out"
      by (rule post [where th = ?th'])
        (use Load_Lhs old(1) in \<open>auto simp: set_thread_def thread_ok_def gemm_rank_def write_tile_def Let_def\<close>)
    with Load_Lhs x show ?thesis by (simp add: gemm_thread_step_def eq Let_def)
  next
    case Load_Rhs
    let ?th' = "?th\<lparr>gt_pc := Loaded\<rparr>"
    let ?x = "padded_rhs ops (ga_rhs args) inner columns (32 * n + ty) ?col"
    let ?b = "set_thread (tx, ty) ?th' (b\<lparr>rhs_tile := write_tile (rhs_tile b) (tx, ty) ?x\<rparr>)"
    have x: "rhs_element ops args (gt_column ?th) (gt_block ?th) (int ty) = Inr ?x"
      using Load_Rhs old(1) rhs_element_exact [OF ops, of "32 * n" ty ops ?col] N [of n] tt
      by (simp add: thread_ok_def Let_def)
    have "gemm_step_post ops args rows columns inner n h (bx, by) (tx, ty) b out ?b out"
      by (rule post [where th = ?th'])
        (use Load_Rhs old(1) in \<open>auto simp: set_thread_def thread_ok_def gemm_rank_def write_tile_def Let_def\<close>)
    with Load_Rhs x show ?thesis by (simp add: gemm_thread_step_def eq Let_def)
  next
    case Multiply
    let ?next = "?th\<lparr>gt_acc := f_add ops (gt_acc ?th)
        (f_mul ops (lhs_tile b ty (gt_k ?th)) (rhs_tile b (gt_k ?th) tx)), gt_k := Suc (gt_k ?th)\<rparr>"
    let ?th' = "if gt_k ?th < gemm_tile then ?next else ?th\<lparr>gt_pc := Multiplied\<rparr>"
    have h: h "gt_k ?th \<le> 32" "n < ?N" using Multiply old(1) by (simp_all add: thread_ok_def Let_def)
    obtain m where left: "?N - nat (32 * int n) div 32 = Suc m"
      using h(3) Suc_diff_Suc [of n ?N] by (intro that [of "?N - Suc n"]) (simp add: nat_mult_distrib)
    have k: "lhs_tile b ty (gt_k ?th) = padded_lhs ops (ga_lhs args) rows inner ?row (32 * n + gt_k ?th)"
      "rhs_tile b (gt_k ?th) tx = padded_rhs ops (ga_rhs args) inner columns (32 * n + gt_k ?th) ?col"
      if "gt_k ?th < 32"
      using gemm_block_okD(2) [OF ok that tt(2) h(1)] gemm_block_okD(3) [OF ok tt(1) that h(1)] by (simp_all add: eq)
    have "gemm_step_post ops args rows columns inner n h (bx, by) (tx, ty) b out
        (set_thread (tx, ty) ?th' b) out"
      by (rule post [where th = ?th'])
        (use Multiply old(1) h k left in \<open>auto simp: set_thread_def thread_ok_def gemm_rank_def gemm_tile_def
          padded_dot_Suc Let_def\<close>)
    with Multiply show ?thesis by (auto simp: gemm_thread_step_def eq Let_def)
  next
    case Advance
    let ?th' = "?th\<lparr>gt_pc := Loop_Test, gt_block := int (32 * n)\<rparr>"
    have n: "n \<noteq> 0" "n \<le> ?N" "gt_block ?th = int (32 * (n - 1))"
      using Advance old(1) by (simp_all add: thread_ok_def Let_def)
    obtain m where m: "n = Suc m" using n(1) by (cases n) simp_all
    have "nat (32 * int n - 32) div 32 = m" "nat (32 * int n) div 32 = Suc m" by (simp_all add: m nat_mult_distrib)
    with n(2) m have left: "?N - nat (32 * int n - 32) div 32 = Suc (?N - nat (32 * int n) div 32)" by simp
    from n have "gt_block ?th + int gemm_tile = int (32 * n)" by (simp add: gemm_tile_def of_nat_diff)
    moreover have "32 * n < 2 ^ 31" using n(2) inner by linarith
    ultimately have x: "check32 (gt_block ?th + int gemm_tile) = Inr (int (32 * n))"
      by (simp only: check32_nat)
    have "gemm_step_post ops args rows columns inner n h (bx, by) (tx, ty) b out
        (set_thread (tx, ty) ?th' b) out"
      by (rule post [where th = ?th'])
        (use Advance old(1) n left in \<open>auto simp: set_thread_def thread_ok_def gemm_rank_def Let_def\<close>)
    with Advance x show ?thesis by (simp add: gemm_thread_step_def eq Let_def)
  next
    case Store
    let ?th' = "?th\<lparr>gt_pc := Done\<rparr>"
    let ?out = "if ?row < rows \<and> ?col < columns then out[?row * columns + ?col := ?dot (32 * ?N)] else out"
    have st: "gt_row ?th = int ?row" "gt_column ?th = int ?col" "gt_acc ?th = ?dot (32 * ?N)"
      using Store old(1) by (simp_all add: thread_ok_def Let_def)
    have x: "gemm_store args ?th out = Inr ?out"
    proof (cases "?row < rows \<and> ?col < columns")
      case True
      have "rows * columns \<le> 2 ^ 31" using ops by (simp add: gemm_operands_def)
      with True row_major_less [of ?row rows ?col columns] cell_index_exact [of ?row rows ?col columns]
      show ?thesis using ops out
        by (simp add: gemm_store_def st gemm_operands_def device_write_def del: of_nat_add of_nat_mult)
    qed (use ops in \<open>auto simp: gemm_store_def st gemm_operands_def simp del: of_nat_add of_nat_mult\<close>)
    have "gemm_step_post ops args rows columns inner n h (bx, by) (tx, ty) b out
        (set_thread (tx, ty) ?th' b) ?out"
      by (rule post [where th = ?th'])
        (use Store old(1) in \<open>auto simp: set_thread_def thread_ok_def gemm_rank_def Let_def\<close>)
    with Store x show ?thesis by (simp add: gemm_thread_step_def eq Let_def)
  qed (use run in \<open>simp_all add: gemm_running_def eq\<close>)
  then show ?thesis by (simp only: eq)
qed

section \<open>Barriers\<close>

lemma all_at_iff: "all_at pc b \<longleftrightarrow> (\<forall>tx < 32. \<forall>ty < 32. gt_pc (gb_threads b (tx, ty)) = pc)"
proof -
  have "all_at pc b \<longleftrightarrow> (\<forall>t \<in> set tile_threads. gt_pc (gb_threads b t) = pc)"
    by (simp add: all_at_def list_all_iff)
  also have "\<dots> \<longleftrightarrow> (\<forall>tx < 32. \<forall>ty < 32. gt_pc (gb_threads b (tx, ty)) = pc)"
    by (auto simp: tile_threads_iff)
  finally show ?thesis .
qed

lemma gemm_barrier_ok:
  assumes ok: "gemm_block_ok ops xs ys rows columns inner n h blk b" and bar: "gemm_barrier b = Some b'"
  shows "(\<exists>n h. gemm_block_ok ops xs ys rows columns inner n h blk b')
    \<and> (\<forall>t \<in> set tile_threads. gt_pc (gb_threads b' t) \<noteq> Done
        \<and> gemm_rank ((inner + 31) div 32) (gb_threads b' t) < gemm_rank ((inner + 31) div 32) (gb_threads b t))"
proof (cases "all_at Loaded b")
  case True
  note pc = True [unfolded all_at_iff, rule_format]
  have b': "b' = b\<lparr>gb_threads := \<lambda>t. (gb_threads b t)\<lparr>gt_pc := Multiply, gt_k := 0\<rparr>\<rparr>"
    using bar True by (simp add: gemm_barrier_def)
  have old: "thread_ok (padded_dot ops xs ys rows columns inner (32 * snd blk + ty) (32 * fst blk + tx))
      ((inner + 31) div 32) n h (int (32 * snd blk + ty)) (int (32 * fst blk + tx))
      (lhs_tile b ty tx = padded_lhs ops xs rows inner (32 * snd blk + ty) (32 * n + tx))
      (rhs_tile b ty tx = padded_rhs ops ys inner columns (32 * n + ty) (32 * fst blk + tx))
      (gb_threads b (tx, ty))" "gt_pc (gb_threads b (tx, ty)) = Loaded" if "tx < 32" "ty < 32" for tx ty
    using gemm_block_okD(1) [OF ok that] pc [OF that] .
  have "gemm_block_ok ops xs ys rows columns inner n True blk b'"
    using old by (simp add: gemm_block_ok_def thread_ok_def b' Let_def)
  moreover have "gemm_rank ((inner + 31) div 32) (gb_threads b' (tx, ty))
      < gemm_rank ((inner + 31) div 32) (gb_threads b (tx, ty))" if "tx < 32" "ty < 32" for tx ty
    using old [OF that] by (simp add: thread_ok_def gemm_rank_def b' Let_def nat_mult_distrib)
  ultimately show ?thesis by (auto simp: tile_threads_iff b')
next
  case False
  with bar have m: "all_at Multiplied b" by (auto simp: gemm_barrier_def split: if_splits)
  note pc = m [unfolded all_at_iff, rule_format]
  have b': "b' = b\<lparr>gb_threads := \<lambda>t. (gb_threads b t)\<lparr>gt_pc := Advance\<rparr>\<rparr>"
    using bar False by (auto simp: gemm_barrier_def split: if_splits)
  have old: "thread_ok (padded_dot ops xs ys rows columns inner (32 * snd blk + ty) (32 * fst blk + tx))
      ((inner + 31) div 32) n h (int (32 * snd blk + ty)) (int (32 * fst blk + tx))
      (lhs_tile b ty tx = padded_lhs ops xs rows inner (32 * snd blk + ty) (32 * n + tx))
      (rhs_tile b ty tx = padded_rhs ops ys inner columns (32 * n + ty) (32 * fst blk + tx))
      (gb_threads b (tx, ty))" "gt_pc (gb_threads b (tx, ty)) = Multiplied" if "tx < 32" "ty < 32" for tx ty
    using gemm_block_okD(1) [OF ok that] pc [OF that] .
  have "gemm_block_ok ops xs ys rows columns inner (Suc n) False blk b'"
    using old by (simp add: gemm_block_ok_def thread_ok_def b' Let_def Suc_leI add.commute)
  moreover have "gemm_rank ((inner + 31) div 32) (gb_threads b' (tx, ty))
      < gemm_rank ((inner + 31) div 32) (gb_threads b (tx, ty))" if tt: "tx < 32" "ty < 32" for tx ty
  proof -
    obtain m where "(inner + 31) div 32 - n = Suc m"
      using old [OF tt] by (intro that [of "(inner + 31) div 32 - Suc n"]) (simp add: thread_ok_def Let_def Suc_diff_Suc)
    with old [OF tt] show ?thesis by (simp add: thread_ok_def gemm_rank_def b' Let_def nat_mult_distrib)
  qed
  ultimately show ?thesis by (auto simp: tile_threads_iff b')
qed

section \<open>Runs\<close>

definition gemm_work :: "nat \<Rightarrow> nat \<times> nat \<Rightarrow> 'f gemm_grid \<Rightarrow> nat" where
  "gemm_work inner g s =
     (\<Sum>blk \<in> set (gemm_blocks g). \<Sum>t \<in> set tile_threads.
        gemm_rank ((inner + 31) div 32) (gb_threads (grid_blocks s blk) t))"

lemma gemm_work_less:
  assumes blk: "blk \<in> set (gemm_blocks g)"
    and other: "\<And>c. c \<noteq> blk \<Longrightarrow> grid_blocks s' c = grid_blocks s c"
    and le: "\<And>t. t \<in> set tile_threads \<Longrightarrow>
      gemm_rank ((inner + 31) div 32) (gb_threads (grid_blocks s' blk) t)
      \<le> gemm_rank ((inner + 31) div 32) (gb_threads (grid_blocks s blk) t)"
    and t: "t \<in> set tile_threads"
      "gemm_rank ((inner + 31) div 32) (gb_threads (grid_blocks s' blk) t)
       < gemm_rank ((inner + 31) div 32) (gb_threads (grid_blocks s blk) t)"
  shows "gemm_work inner g s' < gemm_work inner g s"
  unfolding gemm_work_def
proof (rule sum_strict_mono_ex1)
  let ?f = "\<lambda>s c. \<Sum>t \<in> set tile_threads. gemm_rank ((inner + 31) div 32) (gb_threads (grid_blocks s c) t)"
  have lt: "?f s' blk < ?f s blk"
    by (rule sum_strict_mono_ex1) (use le t in auto)
  show "\<exists>c \<in> set (gemm_blocks g). ?f s' c < ?f s c" using blk lt by blast
  show "\<forall>c \<in> set (gemm_blocks g). ?f s' c \<le> ?f s c"
    using lt other by (metis less_imp_le order_refl)
qed simp

lemma gemm_output_step:
  assumes ok: "gemm_output_ok ops (ga_lhs args) (ga_rhs args) rows columns inner s"
    and t: "t \<in> set tile_threads"
    and post: "gemm_step_post ops args rows columns inner n h blk t (grid_blocks s blk) (grid_output s) b out"
  shows "gemm_output_ok ops (ga_lhs args) (ga_rhs args) rows columns inner
    (s\<lparr>grid_blocks := (grid_blocks s)(blk := b), grid_output := out\<rparr>)"
proof -
  let ?N = "(inner + 31) div 32" and ?row = "32 * snd blk + snd t" and ?col = "32 * fst blk + fst t"
  let ?dot = "padded_dot ops (ga_lhs args) (ga_rhs args) rows columns inner"
  let ?pc = "gt_pc (gb_threads (grid_blocks s blk) t)"
  have tt: "fst t < 32" "snd t < 32" using t by (simp_all add: tile_threads_iff)
  have len: "length (grid_output s) = rows * columns" using ok by (simp add: gemm_output_ok_def)
  have p: "\<forall>t'. t' \<noteq> t \<longrightarrow> gb_threads b t' = gb_threads (grid_blocks s blk) t'"
    "gt_pc (gb_threads b t) = Done \<longleftrightarrow> ?pc = Store"
    "out = (if ?pc = Store \<and> ?row < rows \<and> ?col < columns
       then (grid_output s)[?row * columns + ?col := ?dot ?row ?col (32 * ?N)] else grid_output s)"
    using post by (simp_all add: gemm_step_post_def Let_def del: split_paired_All)
  have "out ! (i * columns + j) = ?dot i j (32 * ?N)"
    if ij: "i < rows" "j < columns"
      and d: "gt_pc (gb_threads (((grid_blocks s)(blk := b)) (j div 32, i div 32)) (j mod 32, i mod 32)) = Done"
    for i j
  proof (cases "(j div 32, i div 32) = blk \<and> (j mod 32, i mod 32) = t")
    case True
    with d p(2) have "?pc = Store" by auto
    moreover from True have "?row = i" "?col = j" by auto
    ultimately show ?thesis using p(3) ij row_major_less [OF ij] len by simp
  next
    case False
    with d p(1) have "gt_pc (gb_threads (grid_blocks s (j div 32, i div 32)) (j mod 32, i mod 32)) = Done"
      by (auto split: if_splits)
    with ok ij have old: "grid_output s ! (i * columns + j) = ?dot i j (32 * ?N)"
      by (simp add: gemm_output_ok_def)
    have "\<not> (?row = i \<and> ?col = j)"
    proof
      assume "?row = i \<and> ?col = j"
      then have "i div 32 = snd blk" "i mod 32 = snd t" "j div 32 = fst blk" "j mod 32 = fst t"
        using tt by auto
      with False show False by simp
    qed
    with row_major_inj [of j columns ?col i ?row] ij have "?col < columns \<Longrightarrow> i * columns + j \<noteq> ?row * columns + ?col"
      by auto
    with old show ?thesis by (auto simp: p(3))
  qed
  moreover have "length out = rows * columns" by (simp add: p(3) len)
  ultimately show ?thesis by (simp add: gemm_output_ok_def)
qed

lemma gemm_step_invar:
  assumes ops: "gemm_operands args g rows columns inner"
    and inv: "gemm_invar ops args g rows columns inner s" and step: "gemm_step ops args g s s'"
  shows "gemm_invar ops args g rows columns inner s' \<and> gemm_work inner g s' < gemm_work inner g s"
  using step
proof cases
  case (thread blk t b out)
  obtain n h where ok: "gemm_block_ok ops (ga_lhs args) (ga_rhs args) rows columns inner n h blk (grid_blocks s blk)"
    using inv thread(2) by (auto simp: gemm_invar_def)
  have len: "length (grid_output s) = rows * columns" using inv by (simp add: gemm_invar_def gemm_output_ok_def)
  have post: "gemm_step_post ops args rows columns inner n h blk t (grid_blocks s blk) (grid_output s) b out"
    using gemm_thread_step_ok [OF ops thread(2,3) ok thread(4) len] thread(5) by auto
  then have new: "gemm_block_ok ops (ga_lhs args) (ga_rhs args) rows columns inner n h blk b"
    "\<And>t'. t' \<noteq> t \<Longrightarrow> gb_threads b t' = gb_threads (grid_blocks s blk) t'"
    "gemm_rank ((inner + 31) div 32) (gb_threads b t)
      < gemm_rank ((inner + 31) div 32) (gb_threads (grid_blocks s blk) t)"
    by (simp_all add: gemm_step_post_def Let_def del: split_paired_All)
  have "gemm_output_ok ops (ga_lhs args) (ga_rhs args) rows columns inner s'"
    using gemm_output_step [OF _ thread(3) post] inv by (simp add: thread(1) gemm_invar_def)
  then have "gemm_invar ops args g rows columns inner s'"
    using inv new(1) by (auto simp: gemm_invar_def thread(1))
  moreover have "gemm_work inner g s' < gemm_work inner g s"
  proof (rule gemm_work_less [OF thread(2) _ _ thread(3)])
    fix t' show "gemm_rank ((inner + 31) div 32) (gb_threads (grid_blocks s' blk) t')
      \<le> gemm_rank ((inner + 31) div 32) (gb_threads (grid_blocks s blk) t')"
      using new(2,3) by (cases "t' = t") (simp_all add: thread(1))
  qed (use new(3) in \<open>simp_all add: thread(1)\<close>)
  ultimately show ?thesis ..
next
  case (barrier blk b)
  obtain n h where ok: "gemm_block_ok ops (ga_lhs args) (ga_rhs args) rows columns inner n h blk (grid_blocks s blk)"
    using inv barrier(2) by (auto simp: gemm_invar_def)
  note bar = gemm_barrier_ok [OF ok barrier(3)]
  have zero: "(0, 0) \<in> set tile_threads" by (simp add: tile_threads_iff)
  have "gemm_output_ok ops (ga_lhs args) (ga_rhs args) rows columns inner s'"
    using inv bar by (auto simp: gemm_invar_def gemm_output_ok_def barrier(1) tile_threads_iff)
  then have "gemm_invar ops args g rows columns inner s'"
    using inv bar by (auto simp: gemm_invar_def barrier(1))
  moreover have "gemm_work inner g s' < gemm_work inner g s"
    by (rule gemm_work_less [OF barrier(2) _ _ zero]) (use bar zero in \<open>auto simp: barrier(1) less_imp_le\<close>)
  ultimately show ?thesis ..
qed

lemma gemm_start_invar:
  assumes "gemm_start g s" "length (grid_output s) = rows * columns" "gemm_operands args g rows columns inner"
  shows "gemm_invar ops args g rows columns inner s"
proof -
  have enter: "gt_pc (gb_threads (grid_blocks s blk) (tx, ty)) = Enter"
    if "blk \<in> set (gemm_blocks g)" "tx < 32" "ty < 32" for blk tx ty
    using assms(1) that by (auto simp: gemm_start_def list_all_iff all_at_iff)
  have "gemm_block_ok ops (ga_lhs args) (ga_rhs args) rows columns inner 0 False blk (grid_blocks s blk)"
    if "blk \<in> set (gemm_blocks g)" for blk
    using enter [OF that] by (simp add: gemm_block_ok_def thread_ok_def Let_def)
  moreover have "(j div 32, i div 32) \<in> set (gemm_blocks g)" if "i < rows" "j < columns" for i j
    using that assms(3) by (auto simp: gemm_blocks_iff gemm_operands_def)
  ultimately show ?thesis
    using enter assms(2) by (fastforce simp: gemm_invar_def gemm_output_ok_def)
qed

text \<open>The runs of a launch, over all schedules, are a system with an invariant.\<close>

interpretation gemm_runs: invariant_system
  "\<lambda>s. gemm_start g s \<and> length (grid_output s) = rows * columns \<and> gemm_operands args g rows columns inner"
  "\<lambda>s s'. gemm_operands args g rows columns inner \<and> gemm_step ops args g s s'"
  "gemm_invar ops args g rows columns inner"
  by unfold_locales (use gemm_start_invar gemm_step_invar in blast)+

lemma gemm_run_invar:
  assumes "gemm_operands args g rows columns inner" "gemm_start g s" "length (grid_output s) = rows * columns"
    and "(gemm_step ops args g)\<^sup>*\<^sup>* s s'"
  shows "gemm_invar ops args g rows columns inner s'"
  using gemm_runs.reachable_invar [of g s rows columns args inner ops s'] assms by simp

lemma gemm_run_length:
  assumes ops: "gemm_operands args g rows columns inner"
    and "((gemm_step ops args g) ^^ m) s s'" "gemm_invar ops args g rows columns inner s"
  shows "gemm_invar ops args g rows columns inner s' \<and> m + gemm_work inner g s' \<le> gemm_work inner g s"
  using assms(2)
proof (induction m arbitrary: s')
  case 0
  then show ?case using assms(3) by simp
next
  case (Suc m)
  then obtain t where "((gemm_step ops args g) ^^ m) s t" "gemm_step ops args g t s'" by auto
  with Suc.IH [of t] gemm_step_invar [OF ops, of ops t s'] show ?case by fastforce
qed

lemma gemm_no_fault:
  assumes ops: "gemm_operands args g rows columns inner" and inv: "gemm_invar ops args g rows columns inner s"
  shows "\<not> gemm_fault ops args g s"
proof
  assume "gemm_fault ops args g s"
  then obtain blk t where bt: "blk \<in> set (gemm_blocks g)" "t \<in> set tile_threads"
      "gemm_running (gb_threads (grid_blocks s blk) t)"
      "isl (gemm_thread_step ops args blk t (grid_blocks s blk) (grid_output s))"
    by (auto simp: gemm_fault_def list_ex_iff simp del: split_paired_Ex)
  from inv bt(1) obtain n h where
    "gemm_block_ok ops (ga_lhs args) (ga_rhs args) rows columns inner n h blk (grid_blocks s blk)"
    "length (grid_output s) = rows * columns"
    by (auto simp: gemm_invar_def gemm_output_ok_def)
  from gemm_thread_step_ok [OF ops bt(1,2) this(1) bt(3) this(2)] bt(4) show False by auto
qed

text \<open>A launch that has not finished can go on: no thread waits at a barrier for ever.\<close>

lemma gemm_progress:
  assumes ops: "gemm_operands args g rows columns inner" and inv: "gemm_invar ops args g rows columns inner s"
    and "\<not> gemm_finished g s"
  shows "\<exists>s'. gemm_step ops args g s s'"
proof -
  from assms(3) obtain blk tx ty where blk: "blk \<in> set (gemm_blocks g)" and t: "tx < 32" "ty < 32"
    and pc: "gt_pc (gb_threads (grid_blocks s blk) (tx, ty)) \<noteq> Done"
    by (auto simp: gemm_finished_def list_all_iff all_at_iff simp del: split_paired_All split_paired_Ex)
  let ?b = "grid_blocks s blk"
  from inv blk obtain n h where ok:
    "gemm_block_ok ops (ga_lhs args) (ga_rhs args) rows columns inner n h blk ?b"
    and len: "length (grid_output s) = rows * columns"
    by (auto simp: gemm_invar_def gemm_output_ok_def)
  show ?thesis
  proof (cases "\<exists>t \<in> set tile_threads. gemm_running (gb_threads ?b t)")
    case True
    then obtain t where t: "t \<in> set tile_threads" "gemm_running (gb_threads ?b t)" by blast
    from gemm_thread_step_ok [OF ops blk t(1) ok t(2) len] obtain b out where
      "gemm_thread_step ops args blk t ?b (grid_output s) = Inr (b, out)" by blast
    from gemm_step.thread [OF blk t this] show ?thesis by blast
  next
    case False
    then have stop: "gt_pc (gb_threads ?b (i, j)) \<in> {Loaded, Multiplied, Done}" if "i < 32" "j < 32" for i j
      using that by (auto simp: gemm_running_def tile_threads_iff)
    have at: "gt_pc (gb_threads ?b (i, j)) = (if h then Multiplied else if n = (inner + 31) div 32 then Done else Loaded)"
      if "i < 32" "j < 32" for i j
      using gemm_block_okD(1) [OF ok that] stop [OF that] by (auto simp: thread_ok_def Let_def)
    with at [OF t] pc have "all_at Loaded ?b \<or> all_at Multiplied ?b"
      by (auto simp: all_at_iff split: if_splits)
    then obtain b where "gemm_barrier ?b = Some b"
      by (cases "gemm_barrier ?b") (auto simp: gemm_barrier_def split: if_splits)
    from gemm_step.barrier [OF blk this] show ?thesis by blast
  qed
qed

lemma gemm_finished_output:
  assumes pad: "padding_neutral ops Q" and ops: "gemm_operands args g rows columns inner"
    and inv: "gemm_invar ops args g rows columns inner s" and fin: "gemm_finished g s"
  shows "grid_output s = gemm_ref ops (ga_lhs args) (ga_rhs args) rows inner columns"
proof (rule nth_equalityI)
  have out: "gemm_output_ok ops (ga_lhs args) (ga_rhs args) rows columns inner s"
    using inv by (simp add: gemm_invar_def)
  then show "length (grid_output s) = length (gemm_ref ops (ga_lhs args) (ga_rhs args) rows inner columns)"
    by (simp add: gemm_output_ok_def)
  fix k assume "k < length (grid_output s)"
  with out have k: "k < rows * columns" by (simp add: gemm_output_ok_def)
  let ?i = "k div columns" and ?j = "k mod columns"
  note ij = div_mod_row_major [OF k]
  have "(?j div 32, ?i div 32) \<in> set (gemm_blocks g)"
    using ij ops by (auto simp: gemm_blocks_iff gemm_operands_def)
  with fin have "gt_pc (gb_threads (grid_blocks s (?j div 32, ?i div 32)) (?j mod 32, ?i mod 32)) = Done"
    by (auto simp: gemm_finished_def list_all_iff all_at_iff simp del: split_paired_All)
  with out ij have "grid_output s ! k = padded_dot ops (ga_lhs args) (ga_rhs args) rows columns inner ?i ?j
      (32 * ((inner + 31) div 32))"
    unfolding gemm_output_ok_def by metis
  also have "\<dots> = dot_ref ops (ga_lhs args) (ga_rhs args) inner columns ?i ?j"
    by (rule padding_neutral.padded_dot_inner [OF pad ij(1,2)]) simp
  finally show "grid_output s ! k = gemm_ref ops (ga_lhs args) (ga_rhs args) rows inner columns ! k"
    using k by (simp add: gemm_ref_def)
qed

lemma gemm_can_finish:
  assumes ops: "gemm_operands args g rows columns inner" and inv: "gemm_invar ops args g rows columns inner s"
  shows "\<exists>s'. (gemm_step ops args g)\<^sup>*\<^sup>* s s' \<and> gemm_finished g s'"
  using inv
proof (induction "gemm_work inner g s" arbitrary: s rule: less_induct)
  case less
  show ?case
  proof (cases "gemm_finished g s")
    case False
    from gemm_progress [OF ops less.prems False] obtain t where t: "gemm_step ops args g s t" ..
    from gemm_step_invar [OF ops less.prems t] less.hyps [of t] obtain s' where
      "(gemm_step ops args g)\<^sup>*\<^sup>* t s'" "gemm_finished g s'" by blast
    with t show ?thesis by (blast intro: converse_rtranclp_into_rtranclp)
  qed blast
qed

lemma gemm_start_work:
  assumes "gemm_start g s"
  shows "gemm_work inner g s = fst g * snd g * 1024 * (40 * ((inner + 31) div 32) + 4)"
proof -
  have "gemm_work inner g s = (\<Sum>blk \<in> set (gemm_blocks g). \<Sum>t \<in> set tile_threads. 40 * ((inner + 31) div 32) + 4)"
    unfolding gemm_work_def using assms
    by (intro sum.cong refl)
      (auto simp: gemm_start_def list_all_iff all_at_def gemm_rank_def Let_def simp del: split_paired_All)
  also have "\<dots> = card (set (gemm_blocks g)) * (card (set tile_threads) * (40 * ((inner + 31) div 32) + 4))"
    by simp
  also have "card (set (gemm_blocks g)) = fst g * snd g"
    by (simp add: gemm_blocks_def card_cartesian_product)
  also have "card (set tile_threads) = 1024"
    by (simp add: tile_threads_def gemm_tile_def card_cartesian_product)
  finally show ?thesis by (simp only: mult.assoc)
qed

text \<open>
  C5: the tiled product on the GPU is the textbook one, whatever the device does. In every state
  that any interleaving of the threads and blocks of a launch can reach, no statement is about to
  access memory outside a buffer or to overflow; the launch can go on (no thread waits at a
  barrier for ever) or has finished, and then the output buffer holds, whatever the shared memory,
  the registers and the buffer held before, the matrix the CPU kernel computes, bit for bit. The
  operands have sides and sizes that leave an \<open>int\<close> room for a tile (\<open>gemm_operands\<close>), and the
  hypothesis on the arithmetic says that adding a product of two zeros of the padding does not
  change an accumulator.
\<close>

theorem gemm_tiled_exact:
  assumes pad: "padding_neutral ops Q" and ops: "gemm_operands args g rows columns inner"
    and start: "gemm_start g s" "length (grid_output s) = rows * columns"
    and run: "(gemm_step ops args g)\<^sup>*\<^sup>* s s'"
  shows "\<not> gemm_fault ops args g s' \<and>
    ((\<exists>t. gemm_step ops args g s' t) \<or>
     gemm_finished g s' \<and> grid_output s' = gemm_ref ops (ga_lhs args) (ga_rhs args) rows inner columns)"
proof -
  have inv: "gemm_invar ops args g rows columns inner s'" by (rule gemm_run_invar [OF ops start run])
  with gemm_no_fault [OF ops inv] gemm_progress [OF ops inv] gemm_finished_output [OF pad ops inv]
  show ?thesis by blast
qed

text \<open>A launch with one thread block on matrices of one cell, from cleared shared memory.\<close>

definition unit_args :: "real gemm_args" where
  "unit_args = \<lparr>ga_lhs = [2], ga_rhs = [3], ga_rows = 1, ga_columns = 1, ga_inner = 1\<rparr>"

definition unit_launch :: "real gemm_grid" where
  "unit_launch =
     \<lparr>grid_blocks = \<lambda>_. \<lparr>lhs_tile = \<lambda>_ _. 0, rhs_tile = \<lambda>_ _. 0,
        gb_threads = \<lambda>_. \<lparr>gt_pc = Enter, gt_row = 0, gt_column = 0, gt_block = 0, gt_k = 0, gt_acc = 0\<rparr>\<rparr>,
      grid_output = [0]\<rparr>"

lemma unit_launch_ok:
  "gemm_operands unit_args (1, 1) 1 1 1" "gemm_start (1, 1) unit_launch" "length (grid_output unit_launch) = 1 * 1"
  by (simp_all add: gemm_operands_def unit_args_def gemm_start_def unit_launch_def list_all_iff all_at_def)

theorem gemm_tiled_exact_witness:
  "\<exists>s'. (gemm_step (real_ops id) unit_args (1, 1))\<^sup>*\<^sup>* unit_launch s'
     \<and> \<not> gemm_fault (real_ops id) unit_args (1, 1) s' \<and> gemm_finished (1, 1) s' \<and> grid_output s' = [6]"
proof -
  note ok = unit_launch_ok
  obtain s' where s': "(gemm_step (real_ops id) unit_args (1, 1))\<^sup>*\<^sup>* unit_launch s'" "gemm_finished (1, 1) s'"
    using gemm_can_finish [OF ok(1) gemm_start_invar [OF ok(2,3,1)], of "real_ops id"] by blast
  note exact = gemm_tiled_exact [OF real_padding.padding_neutral_axioms ok s'(1)]
  have inv: "gemm_invar (real_ops id) unit_args (1, 1) 1 1 1 s'" by (rule gemm_run_invar [OF ok s'(1)])
  have "grid_output s' = gemm_ref (real_ops id) (ga_lhs unit_args) (ga_rhs unit_args) 1 1 1"
    by (rule gemm_finished_output [OF real_padding.padding_neutral_axioms ok(1) inv s'(2)])
  with exact s' show ?thesis by (auto simp: gemm_ref_def dot_ref_def unit_args_def)
qed

text \<open>
  C6: every launch of the tiled product ends. Whatever the schedule, a run of the launch has at most
  \<open>40 * N + 4\<close> steps for each thread of the grid, taken together, where \<open>N\<close> is the number of tiles along
  the inner dimension, and from the start the launch can finish.
\<close>

theorem gemm_tiled_terminates:
  assumes ops: "gemm_operands args g rows columns inner"
    and start: "gemm_start g s" "length (grid_output s) = rows * columns"
  shows "(\<forall>m s'. ((gemm_step ops args g) ^^ m) s s' \<longrightarrow>
        m \<le> fst g * snd g * 1024 * (40 * ((inner + 31) div 32) + 4))
    \<and> (\<exists>s'. (gemm_step ops args g)\<^sup>*\<^sup>* s s' \<and> gemm_finished g s')"
proof -
  have inv: "gemm_invar ops args g rows columns inner s" by (rule gemm_start_invar [OF start ops])
  have "m \<le> fst g * snd g * 1024 * (40 * ((inner + 31) div 32) + 4)"
    if "((gemm_step ops args g) ^^ m) s s'" for m s'
    using gemm_run_length [OF ops that inv] gemm_start_work [OF start(1), of inner] by simp
  with gemm_can_finish [OF ops inv] show ?thesis by blast
qed

theorem gemm_tiled_terminates_witness:
  "(\<nexists>s'. ((gemm_step (real_ops id) unit_args (1, 1)) ^^ 45057) unit_launch s')
   \<and> (\<exists>s'. (gemm_step (real_ops id) unit_args (1, 1))\<^sup>*\<^sup>* unit_launch s' \<and> gemm_finished (1, 1) s')"
proof -
  note ends = gemm_tiled_terminates [OF unit_launch_ok, of "real_ops id"]
  have "\<not> (45057::nat) \<le> fst (1, 1) * snd (1, 1) * 1024 * (40 * ((1 + 31) div 32) + 4)" by simp
  with conjunct1 [OF ends] have "\<nexists>s'. ((gemm_step (real_ops id) unit_args (1, 1)) ^^ 45057) unit_launch s'" by blast
  with conjunct2 [OF ends] show ?thesis by blast
qed

end
