(* ===== verification/Cuda_Attention.thy ===== *)
theory Cuda_Attention
  imports Cuda_Gemm
begin

text \<open>
  Fused attention on the GPU (\<open>qkv_attention\<close> of cuda/kernels.cu): one thread per query, no shared
  memory. A thread reads only buffers that no thread writes, so when it reads does not matter: it
  is the list of its writes to the output buffer, and a launch is any interleaving of these
  lists, one write per step. The device's
  \<open>fmaxf\<close> and \<open>expf\<close> are arguments of their own: \<open>fmaxf\<close> ignores a NaN where \<open>std::max\<close> does not, and
  \<open>expf\<close> need not round as the host's \<open>std::exp\<close> does.
\<close>

section \<open>Launches of threads that only write\<close>

inductive write_step ::
  "(int \<times> 'f) list list \<times> 'f list \<Rightarrow> (int \<times> 'f) list list \<times> 'f list \<Rightarrow> bool"
where
  "t < length ws \<Longrightarrow> ws ! t = (i, x) # rest \<Longrightarrow> device_write out i x = Inr out' \<Longrightarrow>
    write_step (ws, out) (ws[t := rest], out')"

definition writes_done :: "(int \<times> 'f) list list \<Rightarrow> bool" where
  "writes_done ws = list_all (\<lambda>w. w = []) ws"

text \<open>
  The pending writes all write what \<open>final\<close> says, and every cell has its final value or a
  pending write: then the interleaving does not matter.
\<close>

definition writes_ok :: "(nat \<Rightarrow> 'f) \<Rightarrow> nat \<Rightarrow> (int \<times> 'f) list list \<times> 'f list \<Rightarrow> bool" where
  "writes_ok final n s \<longleftrightarrow>
     (case s of (ws, out) \<Rightarrow>
        length out = n
        \<and> (\<forall>w \<in> set ws. \<forall>(i, x) \<in> set w. 0 \<le> i \<and> i < int n \<and> x = final (nat i))
        \<and> (\<forall>k < n. out ! k = final k \<or> (\<exists>w \<in> set ws. int k \<in> fst ` set w)))"

lemma set_update_tail:
  assumes "t < length ws" "ws ! t = p # rest" "w \<in> set (ws[t := rest])"
  shows "\<exists>v \<in> set ws. set w \<subseteq> set v"
proof -
  from set_update_subset_insert [of ws t rest] assms(3) consider "w = rest" | "w \<in> set ws" by auto
  then show ?thesis
  proof cases
    case 1
    with assms nth_mem [OF assms(1)] show ?thesis by (intro bexI [of _ "ws ! t"]) auto
  qed auto
qed

lemma write_step_ok:
  assumes "writes_ok final n s" "write_step s s'"
  shows "writes_ok final n s'"
  using assms(2,1)
proof cases
  case (1 t ws i x rest out out')
  have wt: "(i, x) # rest \<in> set ws" using 1(3,4) nth_mem by metis
  have old: "length out = n" "\<forall>w \<in> set ws. \<forall>(i, x) \<in> set w. 0 \<le> i \<and> i < int n \<and> x = final (nat i)"
    "\<forall>k < n. out ! k = final k \<or> (\<exists>w \<in> set ws. int k \<in> fst ` set w)"
    using assms(1) by (simp_all add: writes_ok_def 1(1))
  from old(2) wt have ix: "0 \<le> i" "i < int n" "x = final (nat i)" by fastforce+
  with 1(5) old(1) have out': "out' = out[nat i := final (nat i)]" by (auto simp: device_write_def split: if_splits)
  have "\<forall>(i, x) \<in> set w. 0 \<le> i \<and> i < int n \<and> x = final (nat i)" if "w \<in> set (ws[t := rest])" for w
    using set_update_tail [OF 1(3,4) that] old(2) by fastforce
  moreover have "out' ! k = final k \<or> (\<exists>w \<in> set (ws[t := rest]). int k \<in> fst ` set w)" if k: "k < n" for k
  proof (cases "k = nat i")
    case True
    with k old(1) show ?thesis by (simp add: out')
  next
    case False
    from old(3) k consider "out ! k = final k" | w where "w \<in> set ws" "int k \<in> fst ` set w" by blast
    then show ?thesis
    proof cases
      case 1
      with False show ?thesis by (simp add: out')
    next
      case (2 w)
      then obtain u where u: "u < length ws" "w = ws ! u" by (metis in_set_conv_nth)
      show ?thesis
      proof (cases "u = t")
        case True
        with 2(2) u(2) False 1(4) have "int k \<in> fst ` set rest" by auto
        moreover have "rest \<in> set (ws[t := rest])" using 1(3) by (simp add: set_update_memI)
        ultimately show ?thesis by blast
      next
        case False
        with u have "w \<in> set (ws[t := rest])" by (metis length_list_update nth_list_update_neq nth_mem)
        with 2(2) show ?thesis by blast
      qed
    qed
  qed
  ultimately show ?thesis using old(1) by (simp add: writes_ok_def 1(2) out')
qed

interpretation write_runs: invariant_system "writes_ok final n" write_step "writes_ok final n"
  by unfold_locales (use write_step_ok in blast)+

lemma writes_ok_progress:
  assumes "writes_ok final n (ws, out)"
  shows "(\<exists>s. write_step (ws, out) s) \<or> writes_done ws \<and> out = map final [0..<n]"
proof (cases "writes_done ws")
  case True
  then have "w = []" if "w \<in> set ws" for w using that by (simp add: writes_done_def list_all_iff)
  then have "\<not> (\<exists>w \<in> set ws. int k \<in> fst ` set w)" for k by fastforce
  with assms have "out ! k = final k" if "k < n" for k
    using that by (auto simp: writes_ok_def)
  moreover have "length out = n" using assms by (simp add: writes_ok_def)
  ultimately have "out = map final [0..<n]" by (intro nth_equalityI) simp_all
  with True show ?thesis by blast
next
  case False
  then obtain t where "t < length ws" "ws ! t \<noteq> []" by (auto simp: writes_done_def list_all_iff in_set_conv_nth)
  then obtain i x rest where t: "t < length ws" "ws ! t = (i, x) # rest" by (metis neq_Nil_conv surj_pair)
  then have "(i, x) # rest \<in> set ws" by (metis nth_mem)
  with assms have "0 \<le> i" "i < int (length out)" by (fastforce simp: writes_ok_def)+
  then have "device_write out i x = Inr (out[nat i := x])" by (auto simp: device_write_def)
  from write_step.intros [OF t this] show ?thesis by blast
qed

lemma writes_exact:
  assumes "writes_ok final n (ws, out)" "write_step\<^sup>*\<^sup>* (ws, out) (ws', out')"
  shows "(\<exists>s. write_step (ws', out') s) \<or> writes_done ws' \<and> out' = map final [0..<n]"
  using writes_ok_progress [OF write_runs.steps_invar [OF assms(2,1)]] .

section \<open>The kernel\<close>

record 'f attention_args =
  aa_query :: "'f list"
  aa_key :: "'f list"
  aa_value :: "'f list"
  aa_queries :: int
  aa_keys :: int
  aa_depth :: int
  aa_value_dim :: int
  aa_scale :: 'f
  aa_causal :: bool

definition local_scores :: nat where
  "local_scores = 256"

definition upto_int :: "int \<Rightarrow> int list" where
  "upto_int n = map int [0..<nat n]"

definition query_key_score :: "'f fops \<Rightarrow> 'f attention_args \<Rightarrow> int \<Rightarrow> int \<Rightarrow> 'f result" where
  "query_key_score ops args row key =
     bind_result
       (fold_result
          (\<lambda>d score.
             bind_result (cell_index row (aa_depth args) d) (\<lambda>i.
             bind_result (device_read (aa_query args) i) (\<lambda>x.
             bind_result (cell_index key (aa_depth args) d) (\<lambda>j.
             bind_result (device_read (aa_key args) j) (\<lambda>y.
             Inr (f_add ops score (f_mul ops x y)))))))
          (upto_int (aa_depth args)) (f_zero ops))
       (\<lambda>score. Inr (if aa_causal args \<and> key > row then f_dec ops (- 1) 9
                     else f_mul ops score (aa_scale args)))"

definition score_pass ::
  "'f fops \<Rightarrow> ('f \<Rightarrow> 'f \<Rightarrow> 'f) \<Rightarrow> 'f attention_args \<Rightarrow> int \<Rightarrow> int \<Rightarrow> 'f list \<times> 'f \<Rightarrow> ('f list \<times> 'f) result" where
  "score_pass ops fmaxf args row key = (\<lambda>(scores, maximum).
     bind_result (query_key_score ops args row key) (\<lambda>s.
     bind_result (device_write scores key s) (\<lambda>scores.
     Inr (scores, fmaxf maximum s))))"

definition exp_pass ::
  "'f fops \<Rightarrow> ('f \<Rightarrow> 'f) \<Rightarrow> 'f \<Rightarrow> int \<Rightarrow> 'f list \<times> 'f \<Rightarrow> ('f list \<times> 'f) result" where
  "exp_pass ops expf maximum key = (\<lambda>(scores, denominator).
     bind_result (device_read scores key) (\<lambda>s.
     let e = expf (f_sub ops s maximum) in
     bind_result (device_write scores key e) (\<lambda>scores.
     Inr (scores, f_add ops denominator e))))"

definition weighted_value ::
  "'f fops \<Rightarrow> 'f attention_args \<Rightarrow> 'f list \<Rightarrow> 'f \<Rightarrow> int \<Rightarrow> int \<Rightarrow> 'f \<Rightarrow> 'f result" where
  "weighted_value ops args scores denominator d key acc =
     bind_result (device_read scores key) (\<lambda>s.
     bind_result (cell_index key (aa_value_dim args) d) (\<lambda>i.
     bind_result (device_read (aa_value args) i) (\<lambda>v.
     Inr (f_add ops acc (f_mul ops (f_div ops s denominator) v)))))"

definition value_pass ::
  "'f fops \<Rightarrow> 'f attention_args \<Rightarrow> int \<Rightarrow> 'f list \<Rightarrow> 'f \<Rightarrow> int \<Rightarrow> (int \<times> 'f) list \<Rightarrow> (int \<times> 'f) list result" where
  "value_pass ops args row scores denominator d ws =
     bind_result (fold_result (weighted_value ops args scores denominator d) (upto_int (aa_keys args)) (f_zero ops))
       (\<lambda>r. bind_result (cell_index row (aa_value_dim args) d) (\<lambda>i. Inr (ws @ [(i, r)])))"

definition attention_thread ::
  "'f fops \<Rightarrow> ('f \<Rightarrow> 'f \<Rightarrow> 'f) \<Rightarrow> ('f \<Rightarrow> 'f) \<Rightarrow> 'f attention_args \<Rightarrow> (nat \<Rightarrow> 'f list) \<Rightarrow> nat \<Rightarrow> (int \<times> 'f) list result" where
  "attention_thread ops fmaxf expf args junk gid =
     (let row = i32 (int (gid mod 2 ^ 32)) in
      if row \<ge> aa_queries args then Inr []
      else bind_result
             (fold_result (score_pass ops fmaxf args row) (upto_int (aa_keys args))
                (junk gid, f_dec ops (- 1) 30))
             (\<lambda>(scores, maximum).
           bind_result
             (fold_result (exp_pass ops expf maximum) (upto_int (aa_keys args)) (scores, f_zero ops))
             (\<lambda>(scores, denominator).
           fold_result (value_pass ops args row scores denominator) (upto_int (aa_value_dim args)) [])))"

text \<open>A launch of \<open>n\<close> threads: the writes of each, or the first undefined access.\<close>

definition attention_launch ::
  "'f fops \<Rightarrow> ('f \<Rightarrow> 'f \<Rightarrow> 'f) \<Rightarrow> ('f \<Rightarrow> 'f) \<Rightarrow> 'f attention_args \<Rightarrow> (nat \<Rightarrow> 'f list) \<Rightarrow> nat \<Rightarrow> (int \<times> 'f) list list result" where
  "attention_launch ops fmaxf expf args junk n =
     fold_result (\<lambda>gid ws. bind_result (attention_thread ops fmaxf expf args junk gid) (\<lambda>w. Inr (ws @ [w])))
       [0..<n] []"

section \<open>A thread computes its row of the reference\<close>

definition attention_operands ::
  "'f attention_args \<Rightarrow> nat \<Rightarrow> nat \<Rightarrow> nat \<Rightarrow> nat \<Rightarrow> bool" where
  "attention_operands args queries keys depth columns \<longleftrightarrow>
     aa_queries args = int queries \<and> aa_keys args = int keys \<and> aa_depth args = int depth
     \<and> aa_value_dim args = int columns
     \<and> length (aa_query args) = queries * depth \<and> length (aa_key args) = keys * depth
     \<and> length (aa_value args) = keys * columns \<and> keys \<le> 256 \<and> queries + 128 \<le> 2 ^ 31
     \<and> queries * depth \<le> 2 ^ 31 \<and> keys * depth \<le> 2 ^ 31 \<and> keys * columns \<le> 2 ^ 31
     \<and> queries * columns \<le> 2 ^ 31"

abbreviation score_rows :: "'f fops \<Rightarrow> 'f attention_args \<Rightarrow> nat \<Rightarrow> nat \<Rightarrow> nat \<Rightarrow> 'f list" where
  "score_rows ops args queries keys depth \<equiv>
     scores_ref ops (aa_query args) (aa_key args) depth queries keys (aa_causal args) (aa_scale args)"

lemma fold_result_collect:
  assumes "\<And>x ws. x \<in> set xs \<Longrightarrow> f x ws = Inr (ws @ [h x])"
  shows "fold_result f xs ws = Inr (ws @ map h xs)"
  using assms by (induction xs arbitrary: ws) simp_all

lemma row_write_0_nth: "k < length vs \<Longrightarrow> length vs \<le> length out \<Longrightarrow> row_write 0 vs out ! k = vs ! k"
  by (simp add: row_write_nth)

lemma query_key_score_exact:
  assumes ops: "attention_operands args queries keys depth columns" and r: "row < queries" and k: "key < keys"
  shows "query_key_score ops args (int row) (int key)
    = Inr (score_rows ops args queries keys depth ! (row * keys + key))"
proof -
  have a: "queries * depth \<le> 2 ^ 31" "keys * depth \<le> 2 ^ 31" "length (aa_query args) = queries * depth"
    "length (aa_key args) = keys * depth" "aa_depth args = int depth"
    using ops by (simp_all add: attention_operands_def)
  have "fold_result
      (\<lambda>d score.
         bind_result (cell_index (int row) (aa_depth args) d) (\<lambda>i.
         bind_result (device_read (aa_query args) i) (\<lambda>x.
         bind_result (cell_index (int key) (aa_depth args) d) (\<lambda>j.
         bind_result (device_read (aa_key args) j) (\<lambda>y.
         Inr (f_add ops score (f_mul ops x y)))))))
      (upto_int (aa_depth args)) (f_zero ops)
    = Inr (fold (\<lambda>d score. f_add ops score (f_mul ops (aa_query args ! (row * depth + d)) (aa_key args ! (key * depth + d))))
        [0..<depth] (f_zero ops))"
    unfolding upto_int_def fold_result_map
    using cell_index_exact [OF r _ a(1)] cell_index_exact [OF k _ a(2)] row_major_less [OF r] row_major_less [OF k]
    by (subst fold_result_total) (simp_all add: a device_read_exact del: of_nat_add of_nat_mult)
  moreover have "row * keys + key < queries * keys" using row_major_less [OF r k] .
  ultimately show ?thesis using k by (simp add: query_key_score_def scores_ref_def Let_def)
qed

lemma score_pass_fold:
  assumes ops: "attention_operands args queries keys depth columns" and r: "row < queries"
    and junk: "length junk = 256" and n: "n \<le> keys"
    and S: "S = (\<lambda>k. score_rows ops args queries keys depth ! (row * keys + k))"
  shows "fold_result (score_pass ops fmaxf args (int row)) (map int [0..<n]) (junk, m)
    = Inr (row_write 0 (map S [0..<n]) junk, fold (\<lambda>x m. fmaxf m x) (map S [0..<n]) m)"
  using n
proof (induction n)
  case (Suc n)
  have k: "keys \<le> 256" using ops by (simp add: attention_operands_def)
  have "query_key_score ops args (int row) (int n) = Inr (S n)"
    unfolding S using query_key_score_exact [OF ops r] Suc.prems by simp
  moreover have "(row_write 0 (map S [0..<n]) junk)[n := S n] = row_write 0 (map S [0..<n] @ [S n]) junk"
    using row_write_snoc [of 0 "map S [0..<n]" junk] Suc.prems k junk by simp
  ultimately show ?case
    using Suc k junk by (simp add: fold_result_append score_pass_def device_write_def)
qed simp

lemma exp_pass_fold:
  assumes sc: "length scores = 256" and S: "\<And>k. k < keys \<Longrightarrow> scores ! k = S k" and n: "n \<le> keys" "keys \<le> 256"
    and E: "E = (\<lambda>k. f_exp ops (f_sub ops (S k) m))"
  shows "fold_result (exp_pass ops (f_exp ops) m) (map int [0..<n]) (scores, z)
    = Inr (row_write 0 (map E [0..<n]) scores, fold (\<lambda>e s. f_add ops s e) (map E [0..<n]) z)"
  using n(1)
proof (induction n)
  case (Suc n)
  have "row_write 0 (map E [0..<n]) scores ! n = S n"
    using Suc.prems n(2) sc S [of n] by (simp add: row_write_nth)
  moreover have "(row_write 0 (map E [0..<n]) scores)[n := E n] = row_write 0 (map E [0..<n] @ [E n]) scores"
    using row_write_snoc [of 0 "map E [0..<n]" scores] Suc.prems n(2) sc by simp
  ultimately show ?case
    using Suc n(2) sc
    by (simp add: fold_result_append exp_pass_def device_read_def device_write_def Let_def E)
qed simp

lemma value_pass_fold:
  assumes ops: "attention_operands args queries keys depth columns" and r: "row < queries"
    and sc: "length scores = 256" "\<And>k. k < keys \<Longrightarrow> scores ! k = E k"
  shows "fold_result (value_pass ops args (int row) scores den) (upto_int (aa_value_dim args)) []
    = Inr (map (\<lambda>d. (int (row * columns + d),
        fold (\<lambda>k acc. f_add ops acc (f_mul ops (f_div ops (E k) den) (aa_value args ! (k * columns + d))))
          [0..<keys] (f_zero ops))) [0..<columns])"
proof -
  have a: "keys * columns \<le> 2 ^ 31" "queries * columns \<le> 2 ^ 31" "length (aa_value args) = keys * columns"
    "aa_value_dim args = int columns" "aa_keys args = int keys" "keys \<le> 256"
    using ops by (simp_all add: attention_operands_def)
  let ?r = "\<lambda>d. fold (\<lambda>k acc. f_add ops acc (f_mul ops (f_div ops (E k) den) (aa_value args ! (k * columns + d))))
      [0..<keys] (f_zero ops)"
  have one: "fold_result (weighted_value ops args scores den (int d)) (upto_int (aa_keys args)) (f_zero ops)
      = Inr (?r d)" if d: "d < columns" for d
    unfolding upto_int_def fold_result_map
    using cell_index_exact [OF _ d a(1)] row_major_less [OF _ d] sc
    by (subst fold_result_total)
      (simp_all add: weighted_value_def a device_read_def device_read_exact less_le_trans [OF _ a(6)]
        del: of_nat_add of_nat_mult)
  have "fold_result (\<lambda>d. value_pass ops args (int row) scores den (int d)) [0..<columns] []
      = Inr ([] @ map (\<lambda>d. (int (row * columns + d), ?r d)) [0..<columns])"
    by (rule fold_result_collect)
      (use one cell_index_exact [OF r _ a(2)] in \<open>simp add: value_pass_def a(4) del: of_nat_add of_nat_mult\<close>)
  then show ?thesis by (simp add: upto_int_def fold_result_map a(4))
qed

text \<open>
  Scores on which \<open>fmaxf\<close> and \<open>std::max\<close> agree and which the start values \<open>-1e30\<close> of the GPU and
  minus infinity of the CPU lie below: then both find the same maximum.
\<close>

definition ordered_scores :: "'f fops \<Rightarrow> ('f \<Rightarrow> 'f \<Rightarrow> 'f) \<Rightarrow> 'f list \<Rightarrow> bool" where
  "ordered_scores ops fmaxf ss \<longleftrightarrow>
     (\<forall>a \<in> insert (f_dec ops (- 1) 30) (set ss). \<forall>b \<in> set ss. fmaxf a b = std_max ops a b)
     \<and> (\<forall>x \<in> set ss. f_less ops (f_dec ops (- 1) 30) x \<and> f_less ops (f_neg_inf ops) x)"

lemma fold_max_cong:
  assumes "\<And>a b. a \<in> insert m (set ss) \<Longrightarrow> b \<in> set ss \<Longrightarrow> g a b = std_max ops a b"
  shows "fold (\<lambda>x m. g m x) ss m = fold (\<lambda>x m. std_max ops m x) ss m"
  using assms
proof (induction ss arbitrary: m)
  case (Cons s ss)
  have "g m s = std_max ops m s" using Cons.prems by simp
  moreover have "std_max ops m s \<in> {m, s}" by (simp add: std_max_def)
  ultimately show ?case using Cons.IH [of "std_max ops m s"] Cons.prems by auto
qed simp

lemma ordered_scores_max:
  assumes "ordered_scores ops fmaxf ss" "ss \<noteq> []"
  shows "fold (\<lambda>x m. fmaxf m x) ss (f_dec ops (- 1) 30) = fold (\<lambda>x m. std_max ops m x) ss (f_neg_inf ops)"
proof -
  obtain s ss' where ss: "ss = s # ss'" using assms(2) by (cases ss) simp_all
  have "fold (\<lambda>x m. fmaxf m x) ss (f_dec ops (- 1) 30) = fold (\<lambda>x m. std_max ops m x) ss (f_dec ops (- 1) 30)"
    by (rule fold_max_cong) (use assms(1) in \<open>auto simp: ordered_scores_def\<close>)
  with assms(1) show ?thesis by (simp add: ss ordered_scores_def std_max_def)
qed

abbreviation attention_ref ::
  "'f fops \<Rightarrow> 'f attention_args \<Rightarrow> nat \<Rightarrow> nat \<Rightarrow> nat \<Rightarrow> nat \<Rightarrow> 'f list" where
  "attention_ref ops args queries keys depth columns \<equiv>
     gemm_ref ops (softmax_ref ops (score_rows ops args queries keys depth) queries keys)
       (aa_value args) queries keys columns"

lemma attention_ref_nth:
  assumes r: "row < queries" and d: "d < columns"
    and ss: "ss = row_of (scores_ref ops q k depth queries keys masked scale) keys row"
  shows "gemm_ref ops (softmax_ref ops (scores_ref ops q k depth queries keys masked scale) queries keys)
      v queries keys columns ! (row * columns + d)
    = fold (\<lambda>j acc. f_add ops acc (f_mul ops (softmax_vec ops ss ! j) (v ! (j * columns + d)))) [0..<keys] (f_zero ops)"
proof -
  have "gemm_ref ops (softmax_ref ops (scores_ref ops q k depth queries keys masked scale) queries keys)
      v queries keys columns ! (row * columns + d)
    = dot_ref ops (softmax_ref ops (scores_ref ops q k depth queries keys masked scale) queries keys) v keys columns row d"
    using row_major_less [OF r d] d by (simp add: gemm_ref_def)
  also have "\<dots> = fold (\<lambda>j acc. f_add ops acc (f_mul ops (softmax_vec ops ss ! j) (v ! (j * columns + d)))) [0..<keys] (f_zero ops)"
    unfolding dot_ref_def ss by (rule fold_cong) (simp_all add: softmax_ref_nth [OF r])
  finally show ?thesis .
qed

lemma attention_thread_exact:
  assumes ops: "attention_operands args queries keys depth columns" and junk: "length (junk gid) = 256"
    and gid: "gid < 2 ^ 31"
    and ord: "gid < queries \<Longrightarrow> ordered_scores ops fmaxf (row_of (score_rows ops args queries keys depth) keys gid)"
  shows "attention_thread ops fmaxf (f_exp ops) args junk gid
    = Inr (if gid < queries
           then map (\<lambda>d. (int (gid * columns + d),
                  attention_ref ops args queries keys depth columns ! (gid * columns + d))) [0..<columns]
           else [])"
proof -
  have "gid mod 2 ^ 32 = gid" using gid by simp
  then have row: "i32 (int (gid mod 2 ^ 32)) = int gid" using i32_nat_exact [OF gid] by (simp only:)
  have q: "aa_queries args = int queries" "aa_keys args = int keys" "keys \<le> 256"
    using ops by (simp_all add: attention_operands_def)
  show ?thesis
  proof (cases "gid < queries")
    case False
    with row q show ?thesis by (simp add: attention_thread_def)
  next
    case True
    let ?ss = "row_of (score_rows ops args queries keys depth) keys gid"
    let ?S = "\<lambda>k. score_rows ops args queries keys depth ! (gid * keys + k)"
    let ?m = "fold (\<lambda>x m. fmaxf m x) ?ss (f_dec ops (- 1) 30)"
    let ?E = "\<lambda>k. f_exp ops (f_sub ops (?S k) ?m)"
    let ?den = "fold (\<lambda>e s. f_add ops s e) (map ?E [0..<keys]) (f_zero ops)"
    let ?s1 = "row_write 0 (map ?S [0..<keys]) (junk gid)"
    let ?s2 = "row_write 0 (map ?E [0..<keys]) ?s1"
    let ?w = "\<lambda>d. fold (\<lambda>k acc. f_add ops acc (f_mul ops (f_div ops (?E k) ?den) (aa_value args ! (k * columns + d))))
        [0..<keys] (f_zero ops)"
    have ss: "?ss = map ?S [0..<keys]" by (simp add: row_of_def)
    have len: "length ?s1 = 256" "length ?s2 = 256" using q(3) junk by simp_all
    have 1: "fold_result (score_pass ops fmaxf args (int gid)) (upto_int (aa_keys args)) (junk gid, f_dec ops (- 1) 30)
        = Inr (?s1, ?m)"
      using score_pass_fold [OF ops True junk order_refl refl] by (simp add: upto_int_def q(2) ss)
    have 2: "fold_result (exp_pass ops (f_exp ops) ?m) (upto_int (aa_keys args)) (?s1, f_zero ops) = Inr (?s2, ?den)"
      using exp_pass_fold [OF len(1) _ order_refl q(3) refl, of ?S ops ?m "f_zero ops"] q(3) junk
      by (simp add: upto_int_def q(2) row_write_0_nth)
    have 3: "fold_result (value_pass ops args (int gid) ?s2 ?den) (upto_int (aa_value_dim args)) []
        = Inr (map (\<lambda>d. (int (gid * columns + d), ?w d)) [0..<columns])"
      by (rule value_pass_fold [OF ops True len(2)]) (use q(3) len(1) in \<open>simp add: row_write_0_nth\<close>)
    have vec: "softmax_vec ops ?ss ! k = f_div ops (?E k) ?den" if "k < keys" for k
    proof -
      have "?m = fold (\<lambda>x m. std_max ops m x) ?ss (f_neg_inf ops)"
        using ordered_scores_max [OF ord [OF True]] that by (simp add: ss)
      with that show ?thesis by (simp add: softmax_vec_def ss Let_def comp_def)
    qed
    have "?w d = attention_ref ops args queries keys depth columns ! (gid * columns + d)" if "d < columns" for d
      unfolding attention_ref_nth [OF True that refl] by (rule fold_cong) (simp_all add: vec)
    with 1 2 3 True row show ?thesis
      by (simp add: attention_thread_def q(1) Let_def del: of_nat_add of_nat_mult)
  qed
qed

lemma attention_launch_own_exp:
  assumes ops: "attention_operands args queries keys depth columns"
    and junk: "\<forall>gid. length (junk gid) = local_scores"
    and ord: "\<forall>row < queries. ordered_scores ops fmaxf (row_of (score_rows ops args queries keys depth) keys row)"
    and out: "length out = queries * columns"
  shows "\<exists>ws. attention_launch ops fmaxf (f_exp ops) args junk ((queries + 127) div 128 * 128) = Inr ws \<and>
    (\<forall>ws' out'. write_step\<^sup>*\<^sup>* (ws, out) (ws', out') \<longrightarrow>
       (\<exists>s. write_step (ws', out') s) \<or>
       writes_done ws' \<and>
       out' = gemm_ref ops
         (softmax_ref ops
            (scores_ref ops (aa_query args) (aa_key args) depth queries keys (aa_causal args) (aa_scale args))
            queries keys)
         (aa_value args) queries keys columns)"
proof -
  let ?n = "(queries + 127) div 128 * 128"
  let ?ref = "attention_ref ops args queries keys depth columns"
  let ?w = "\<lambda>gid. if gid < queries
      then map (\<lambda>d. (int (gid * columns + d), ?ref ! (gid * columns + d))) [0..<columns] else []"
  let ?ws = "map ?w [0..<?n]"
  have q: "queries + 128 \<le> 2 ^ 31" using ops by (simp add: attention_operands_def)
  have n: "gid < 2 ^ 31" if "gid < ?n" for gid using that q by (simp add: div_times_less_eq_dividend le_less_trans)
  have qn: "queries \<le> ?n" by linarith
  have "attention_thread ops fmaxf (f_exp ops) args junk gid = Inr (?w gid)" if "gid < ?n" for gid
    by (rule attention_thread_exact [OF ops _ n [OF that]]) (use junk ord in \<open>simp_all add: local_scores_def\<close>)
  then have launch: "attention_launch ops fmaxf (f_exp ops) args junk ?n = Inr ?ws"
    unfolding attention_launch_def by (subst fold_result_collect [where h = ?w]) simp_all
  have "writes_ok ((!) ?ref) (queries * columns) (?ws, out)"
  proof -
    have "\<exists>w \<in> set ?ws. int k \<in> fst ` set w" if k: "k < queries * columns" for k
    proof -
      note d = div_mod_row_major [OF k]
      have w: "?w (k div columns) \<in> set ?ws"
        unfolding set_map using d(1) qn by (intro image_eqI [of _ ?w "k div columns"]) simp_all
      have "(int k, ?ref ! k) \<in> set (?w (k div columns))"
        using d by (auto intro!: image_eqI [of _ _ "k mod columns"] simp del: of_nat_add of_nat_mult)
      from imageI [OF this, of fst, unfolded fst_conv] w show ?thesis by (rule bexI)
    qed
    moreover have "int (gid * columns + d) < int (queries * columns)" if "gid < queries" "d < columns" for gid d
      using row_major_less [OF that] by (simp only: of_nat_less_iff)
    ultimately show ?thesis using out by (auto simp: writes_ok_def nat_add_distrib nat_mult_distrib)
  qed
  from writes_exact [OF this] have "\<forall>ws' out'. write_step\<^sup>*\<^sup>* (?ws, out) (ws', out') \<longrightarrow>
      (\<exists>s. write_step (ws', out') s) \<or> writes_done ws' \<and> out' = map ((!) ?ref) [0..<queries * columns]"
    by blast
  moreover have "map ((!) ?ref) [0..<queries * columns] = ?ref" by (intro nth_equalityI) simp_all
  ultimately show ?thesis using launch by (intro exI [of _ ?ws]) simp
qed

text \<open>
  The device's \<open>expf\<close> is the only operation of the kernel that the host has another of; \<open>with_exp\<close> is
  the host's arithmetic with it. Scores and their maximum do not depend on it.
\<close>

definition with_exp :: "'f fops \<Rightarrow> ('f \<Rightarrow> 'f) \<Rightarrow> 'f fops" where
  "with_exp ops expf = ops\<lparr>f_exp := expf\<rparr>"

lemma with_exp_own [simp]: "with_exp ops (f_exp ops) = ops"
  by (simp add: with_exp_def)

lemma with_exp_simps [simp]:
  "f_add (with_exp ops e) = f_add ops" "f_sub (with_exp ops e) = f_sub ops" "f_mul (with_exp ops e) = f_mul ops"
  "f_div (with_exp ops e) = f_div ops" "f_less (with_exp ops e) = f_less ops" "f_eq (with_exp ops e) = f_eq ops"
  "f_sqrt (with_exp ops e) = f_sqrt ops" "f_exp (with_exp ops e) = e" "f_neg_inf (with_exp ops e) = f_neg_inf ops"
  "f_of_nat (with_exp ops e) = f_of_nat ops" "f_dec (with_exp ops e) = f_dec ops"
  by (simp_all add: with_exp_def)

lemma score_rows_with_exp [simp]: "scores_ref (with_exp ops e) = scores_ref ops"
  by (intro ext) (simp add: scores_ref_def Let_def)

lemma ordered_scores_with_exp [simp]: "ordered_scores (with_exp ops e) fmaxf ss = ordered_scores ops fmaxf ss"
  by (simp add: ordered_scores_def std_max_def)

lemma passes_with_exp:
  shows "query_key_score (with_exp ops e) = query_key_score ops"
    and "score_pass (with_exp ops e) = score_pass ops" "exp_pass (with_exp ops e) = exp_pass ops"
    and "weighted_value (with_exp ops e) = weighted_value ops"
    and "value_pass (with_exp ops e) = value_pass ops"
proof -
  show 1: "query_key_score (with_exp ops e) = query_key_score ops"
    and 2: "weighted_value (with_exp ops e) = weighted_value ops" "exp_pass (with_exp ops e) = exp_pass ops"
    unfolding query_key_score_def weighted_value_def exp_pass_def with_exp_simps by (rule refl)+
  show "score_pass (with_exp ops e) = score_pass ops" "value_pass (with_exp ops e) = value_pass ops"
    unfolding score_pass_def value_pass_def 1 2 with_exp_simps by (rule refl)+
qed

lemma attention_launch_with_exp:
  "attention_launch (with_exp ops e) fmaxf (f_exp (with_exp ops e)) args junk n = attention_launch ops fmaxf e args junk n"
  unfolding attention_launch_def attention_thread_def passes_with_exp with_exp_simps ..

text \<open>
  Fused attention on the GPU is the attention of the CPU computed with the device's \<open>expf\<close>. For up to
  256 keys, whatever the local arrays and the output buffer hold before, no thread of the launch
  accesses memory outside a buffer or overflows, and in every interleaving of the threads' writes the
  launch can go on or has finished, and then the output is the matrix \<open>attention_exact\<close> gives for the
  CPU: softmax of the scaled, masked scores times V.
\<close>

lemma attention_launch_exact:
  assumes ops: "attention_operands args queries keys depth columns"
    and junk: "\<forall>gid. length (junk gid) = local_scores"
    and ord: "\<forall>row < queries. ordered_scores ops fmaxf (row_of (score_rows ops args queries keys depth) keys row)"
    and out: "length out = queries * columns"
  shows "\<exists>ws. attention_launch ops fmaxf expf args junk ((queries + 127) div 128 * 128) = Inr ws \<and>
    (\<forall>ws' out'. write_step\<^sup>*\<^sup>* (ws, out) (ws', out') \<longrightarrow>
       (\<exists>s. write_step (ws', out') s) \<or>
       writes_done ws' \<and> out' = attention_ref (with_exp ops expf) args queries keys depth columns)"
  using attention_launch_own_exp [of args queries keys depth columns junk "with_exp ops expf" fmaxf out, OF ops junk _ out] ord
  unfolding attention_launch_with_exp by simp

definition unit_attention :: "real attention_args" where
  "unit_attention = \<lparr>aa_query = [2], aa_key = [3], aa_value = [7], aa_queries = 1, aa_keys = 1, aa_depth = 1,
     aa_value_dim = 1, aa_scale = 1, aa_causal = False\<rparr>"

lemma unit_attention_exact:
  "\<exists>ws. attention_launch (real_ops id) max exp unit_attention (\<lambda>_. replicate 256 0) 128 = Inr ws \<and>
     (\<forall>ws' out'. write_step\<^sup>*\<^sup>* (ws, [0]) (ws', out') \<longrightarrow>
        (\<exists>s. write_step (ws', out') s) \<or> writes_done ws' \<and> out' = [7])"
proof -
  have ref: "attention_ref (real_ops id) unit_attention 1 1 1 1 = [7]"
    by (simp add: gemm_ref_def dot_ref_def softmax_ref_def softmax_vec_def row_of_def scores_ref_def unit_attention_def)
  have ops: "attention_operands unit_attention 1 1 1 1"
    by (simp add: attention_operands_def unit_attention_def)
  have junk: "\<forall>gid. length ((\<lambda>_. replicate 256 0) gid) = local_scores" by (simp add: local_scores_def)
  have ord: "\<forall>row < 1. ordered_scores (real_ops id) max
      (row_of (score_rows (real_ops id) unit_attention 1 1 1) 1 row)"
    by (simp add: row_of_def scores_ref_def unit_attention_def ordered_scores_def real_ops_def std_max_def max_def)
  have out: "length [0 :: real] = 1 * 1" by simp
  show ?thesis using attention_launch_exact [OF ops junk ord out, of exp]
    with_exp_own [of "real_ops id"] ref by simp
qed

end
