(* ===== verification/Cuda_Wmma.thy ===== *)
theory Cuda_Wmma
  imports Cuda_Attention
begin

text \<open>
  The matrix product on tensor cores (\<open>wmma_gemm\<close> of cuda/kernels.cu): one warp per 16 by 16
  tile of the result. \<open>mma_sync\<close>, the hardware's product of two fragments added to a third, and
  the half precision numbers are arguments; loads and stores of fragments are row-major accesses
  with a leading dimension. A warp is the list of its writes, as in \<open>Cuda_Attention\<close>.
\<close>

section \<open>The kernel\<close>

record 'h wmma_args =
  wa_lhs :: "'h list"
  wa_rhs :: "'h list"
  wa_rows :: int
  wa_columns :: int
  wa_inner :: int

definition wmma_load :: "'h list \<Rightarrow> int \<Rightarrow> int \<Rightarrow> 'h list result" where
  "wmma_load buffer base ldm =
     fold_result
       (\<lambda>e xs. bind_result (device_read buffer (base + int (e div 16) * ldm + int (e mod 16)))
          (\<lambda>x. Inr (xs @ [x])))
       [0..<256] []"

definition wmma_step ::
  "('h list \<Rightarrow> 'h list \<Rightarrow> 'f list \<Rightarrow> 'f list) \<Rightarrow> 'h wmma_args \<Rightarrow> nat \<times> nat \<Rightarrow> int \<Rightarrow> 'f list \<Rightarrow> 'f list result" where
  "wmma_step mma args blk k accumulator =
     bind_result (check32 (int (snd blk) * 16)) (\<lambda>row.
     bind_result (check32 (row * wa_inner args)) (\<lambda>p.
     bind_result (wmma_load (wa_lhs args) (p + k) (wa_inner args)) (\<lambda>a.
     bind_result (check32 (k * wa_columns args)) (\<lambda>q.
     bind_result (check32 (int (fst blk) * 16)) (\<lambda>column.
     bind_result (wmma_load (wa_rhs args) (q + column) (wa_columns args)) (\<lambda>b.
     Inr (mma a b accumulator)))))))"

definition wmma_block ::
  "'f fops \<Rightarrow> ('h list \<Rightarrow> 'h list \<Rightarrow> 'f list \<Rightarrow> 'f list) \<Rightarrow> 'h wmma_args \<Rightarrow> nat \<times> nat \<Rightarrow> (int \<times> 'f) list result" where
  "wmma_block ops mma args blk =
     bind_result
       (fold_result (wmma_step mma args blk) (map int (blocks 16 (nat (wa_inner args)) 0))
          (replicate 256 (f_zero ops)))
       (\<lambda>accumulator.
     bind_result (check32 (int (snd blk) * 16)) (\<lambda>row.
     bind_result (check32 (row * wa_columns args)) (\<lambda>p.
     bind_result (check32 (int (fst blk) * 16)) (\<lambda>column.
     Inr (map (\<lambda>e. (p + column + int (e div 16) * wa_columns args + int (e mod 16), accumulator ! e))
            [0..<256])))))"

definition wmma_launch ::
  "'f fops \<Rightarrow> ('h list \<Rightarrow> 'h list \<Rightarrow> 'f list \<Rightarrow> 'f list) \<Rightarrow> 'h wmma_args \<Rightarrow> nat \<times> nat \<Rightarrow> (int \<times> 'f) list list result" where
  "wmma_launch ops mma args g =
     fold_result (\<lambda>blk ws. bind_result (wmma_block ops mma args blk) (\<lambda>w. Inr (ws @ [w]))) (gemm_blocks g) []"

section \<open>A warp computes its tile\<close>

text \<open>
  The documented meaning of \<open>mma_sync\<close>, in exact arithmetic: \<open>real_of_half\<close> is the number a half
  stands for.
\<close>

definition mma_exact :: "('h \<Rightarrow> real) \<Rightarrow> ('h list \<Rightarrow> 'h list \<Rightarrow> real list \<Rightarrow> real list) \<Rightarrow> bool" where
  "mma_exact real_of_half mma \<longleftrightarrow>
     (\<forall>a b c. length a = 256 \<longrightarrow> length b = 256 \<longrightarrow> length c = 256 \<longrightarrow>
        mma a b c = map (\<lambda>e. c ! e + (\<Sum>m < 16. real_of_half (a ! (16 * (e div 16) + m))
            * real_of_half (b ! (16 * m + e mod 16)))) [0..<256])"

definition wmma_operands :: "'h wmma_args \<Rightarrow> nat \<Rightarrow> nat \<Rightarrow> nat \<Rightarrow> bool" where
  "wmma_operands args R C K \<longleftrightarrow>
     wa_rows args = int (16 * R) \<and> wa_columns args = int (16 * C) \<and> wa_inner args = int (16 * K)
     \<and> length (wa_lhs args) = 16 * R * (16 * K) \<and> length (wa_rhs args) = 16 * K * (16 * C)
     \<and> 16 * R < 2 ^ 31 \<and> 16 * C < 2 ^ 31
     \<and> 16 * R * (16 * K) < 2 ^ 31 \<and> 16 * K * (16 * C) < 2 ^ 31 \<and> 16 * R * (16 * C) < 2 ^ 31"

lemma tile_less:
  fixes b n e :: nat
  assumes "b < n" "e < 16"
  shows "16 * b + e < 16 * n"
  using assms by linarith

lemma check32_mult:
  fixes b n m :: nat
  assumes "b < n" "16 * n * m < 2 ^ 31"
  shows "check32 (int (16 * b) * int m) = Inr (int (16 * b * m))"
proof -
  have "16 * b * m \<le> 16 * n * m" using assms(1) by (intro mult_le_mono1) simp
  from check32_nat [OF le_less_trans [OF this assms(2)]] show ?thesis by simp
qed

lemma wmma_load_exact:
  assumes len: "length buffer = rows * ldm" and r: "16 * br + 15 < rows" and c: "16 * bc + 15 < ldm"
  shows "wmma_load buffer (int (16 * br * ldm + 16 * bc)) (int ldm)
    = Inr (map (\<lambda>e. buffer ! ((16 * br + e div 16) * ldm + (16 * bc + e mod 16))) [0..<256])"
proof -
  have "device_read buffer (int (16 * br * ldm + 16 * bc) + int (e div 16) * int ldm + int (e mod 16))
      = Inr (buffer ! ((16 * br + e div 16) * ldm + (16 * bc + e mod 16)))" if e: "e < 256" for e
  proof -
    have i: "16 * br + e div 16 < rows" using r e by linarith
    have j: "16 * bc + e mod 16 < ldm" using c by (simp add: le_less_trans)
    have "int (16 * br * ldm + 16 * bc) + int (e div 16) * int ldm + int (e mod 16)
        = int ((16 * br + e div 16) * ldm + (16 * bc + e mod 16))"
      by (simp add: algebra_simps)
    moreover have "(16 * br + e div 16) * ldm + (16 * bc + e mod 16) < length buffer"
      using row_major_less [OF i j] len by simp
    ultimately show ?thesis by (simp only: device_read_exact)
  qed
  then show ?thesis
    unfolding wmma_load_def
    by (subst fold_result_collect [where h = "\<lambda>e. buffer ! ((16 * br + e div 16) * ldm + (16 * bc + e mod 16))"]) simp_all
qed

lemma blocks_16: "blocks 16 (16 * K) (16 * a) = map ((*) 16) [a..<K]"
proof (induction "K - a" arbitrary: a)
  case 0
  then show ?case by (subst blocks.simps) simp
next
  case (Suc n)
  from Suc(1) [of "Suc a"] Suc(2) have "blocks 16 (16 * K) (16 * Suc a) = map ((*) 16) [Suc a..<K]" by simp
  with Suc(2) show ?case by (subst blocks.simps) (simp add: upt_conv_Cons add.commute)
qed

definition half_dot :: "('h \<Rightarrow> real) \<Rightarrow> 'h wmma_args \<Rightarrow> nat \<Rightarrow> nat \<Rightarrow> nat \<Rightarrow> nat \<Rightarrow> nat \<Rightarrow> real" where
  "half_dot hv args inner columns i j n =
     (\<Sum>m < n. hv (wa_lhs args ! (i * inner + m)) * hv (wa_rhs args ! (m * columns + j)))"

lemma half_dot_add:
  "half_dot hv args inner columns i j (n + k) = half_dot hv args inner columns i j n
     + (\<Sum>m < k. hv (wa_lhs args ! (i * inner + (n + m))) * hv (wa_rhs args ! ((n + m) * columns + j)))"
  by (induction k) (simp_all add: half_dot_def)

lemma wmma_step_exact:
  assumes mma: "mma_exact hv mma" and ops: "wmma_operands args R C K"
    and blk: "fst blk < C" "snd blk < R" and n: "n < K"
  shows "wmma_step mma args blk (int (16 * n))
      (map (\<lambda>e. half_dot hv args (16 * K) (16 * C) (16 * snd blk + e div 16) (16 * fst blk + e mod 16) (16 * n)) [0..<256])
    = Inr (map (\<lambda>e. half_dot hv args (16 * K) (16 * C) (16 * snd blk + e div 16) (16 * fst blk + e mod 16) (16 * Suc n)) [0..<256])"
proof -
  let ?row = "\<lambda>e. 16 * snd blk + e div 16" and ?col = "\<lambda>e. 16 * fst blk + e mod 16"
  let ?acc = "\<lambda>n. map (\<lambda>e. half_dot hv args (16 * K) (16 * C) (?row e) (?col e) n) [0..<256]"
  let ?a = "map (\<lambda>e. wa_lhs args ! (?row e * (16 * K) + (16 * n + e mod 16))) [0..<256]"
  let ?b = "map (\<lambda>e. wa_rhs args ! ((16 * n + e div 16) * (16 * C) + ?col e)) [0..<256]"
  have o: "wa_inner args = int (16 * K)" "wa_columns args = int (16 * C)"
    "length (wa_lhs args) = 16 * R * (16 * K)" "length (wa_rhs args) = 16 * K * (16 * C)"
    "16 * R < 2 ^ 31" "16 * C < 2 ^ 31" "16 * R * (16 * K) < 2 ^ 31" "16 * K * (16 * C) < 2 ^ 31"
    using ops by (simp_all add: wmma_operands_def)
  have c1: "check32 (int (snd blk) * 16) = Inr (int (16 * snd blk))" "check32 (int (fst blk) * 16) = Inr (int (16 * fst blk))"
    using blk o(5,6) by (simp_all add: check32_def)
  have c2: "check32 (int (16 * snd blk) * wa_inner args) = Inr (int (16 * snd blk * (16 * K)))"
    "check32 (int (16 * n) * wa_columns args) = Inr (int (16 * n * (16 * C)))"
    unfolding o using check32_mult [OF blk(2) o(7)] check32_mult [OF n o(8)] by blast+
  have l1: "wmma_load (wa_lhs args) (int (16 * snd blk * (16 * K)) + int (16 * n)) (wa_inner args) = Inr ?a"
    using wmma_load_exact [OF o(3), of "snd blk" n] blk n unfolding o(1) of_nat_add [symmetric] by linarith
  have l2: "wmma_load (wa_rhs args) (int (16 * n * (16 * C)) + int (16 * fst blk)) (wa_columns args) = Inr ?b"
    using wmma_load_exact [OF o(4), of n "fst blk"] blk n unfolding o(2) of_nat_add [symmetric] by linarith
  have "mma ?a ?b (?acc (16 * n)) = ?acc (16 * Suc n)"
  proof -
    have "mma ?a ?b (?acc (16 * n)) = map (\<lambda>e. ?acc (16 * n) ! e + (\<Sum>m < 16. hv (?a ! (16 * (e div 16) + m))
        * hv (?b ! (16 * m + e mod 16)))) [0..<256]"
      using mma by (simp add: mma_exact_def)
    also have "\<dots> = ?acc (16 * Suc n)"
    proof (intro map_cong refl)
      fix e assume "e \<in> set [0..<256 :: nat]"
      then have e: "e < 256" by simp
      have sums: "(\<Sum>m < 16. hv (?a ! (16 * (e div 16) + m)) * hv (?b ! (16 * m + e mod 16)))
          = (\<Sum>m < 16. hv (wa_lhs args ! (?row e * (16 * K) + (16 * n + m)))
              * hv (wa_rhs args ! ((16 * n + m) * (16 * C) + ?col e)))"
      proof (intro sum.cong refl)
        fix m assume "m \<in> {..<16 :: nat}"
        then have m: "m < 16" by simp
        have "e div 16 < 16" "e mod 16 < 16" using e by simp_all
        with m have "16 * (e div 16) + m < 256" "16 * m + e mod 16 < 256" by simp_all
        with m show "hv (?a ! (16 * (e div 16) + m)) * hv (?b ! (16 * m + e mod 16))
            = hv (wa_lhs args ! (?row e * (16 * K) + (16 * n + m))) * hv (wa_rhs args ! ((16 * n + m) * (16 * C) + ?col e))"
          by simp
      qed
      have acc: "?acc (16 * n) ! e = half_dot hv args (16 * K) (16 * C) (?row e) (?col e) (16 * n)" "16 * Suc n = 16 * n + 16"
        using e by simp_all
      show "?acc (16 * n) ! e + (\<Sum>m < 16. hv (?a ! (16 * (e div 16) + m)) * hv (?b ! (16 * m + e mod 16)))
          = half_dot hv args (16 * K) (16 * C) (?row e) (?col e) (16 * Suc n)"
        by (simp only: acc half_dot_add sums)
    qed
    finally show ?thesis .
  qed
  with c1 c2 l1 l2 show ?thesis by (simp add: wmma_step_def del: of_nat_mult of_nat_add)
qed

lemma wmma_block_exact:
  assumes mma: "mma_exact hv mma" and ops: "wmma_operands args R C K" and blk: "fst blk < C" "snd blk < R"
  shows "wmma_block (real_ops er) mma args blk
    = Inr (map (\<lambda>e. (int ((16 * snd blk + e div 16) * (16 * C) + (16 * fst blk + e mod 16)),
          half_dot hv args (16 * K) (16 * C) (16 * snd blk + e div 16) (16 * fst blk + e mod 16) (16 * K))) [0..<256])"
proof -
  let ?acc = "\<lambda>n. map (\<lambda>e. half_dot hv args (16 * K) (16 * C) (16 * snd blk + e div 16) (16 * fst blk + e mod 16) (16 * n)) [0..<256]"
  have o: "wa_inner args = int (16 * K)" "wa_columns args = int (16 * C)" "16 * R < 2 ^ 31" "16 * C < 2 ^ 31"
    "16 * R * (16 * C) < 2 ^ 31"
    using ops by (simp_all add: wmma_operands_def)
  have c1: "check32 (int (snd blk) * 16) = Inr (int (16 * snd blk))" "check32 (int (fst blk) * 16) = Inr (int (16 * fst blk))"
    using blk o(3,4) by (simp_all add: check32_def)
  have c2: "check32 (int (16 * snd blk) * wa_columns args) = Inr (int (16 * snd blk * (16 * C)))"
    unfolding o using check32_mult [OF blk(2) o(5)] .
  have "fold_result (\<lambda>n. wmma_step mma args blk (int (16 * n))) [0..<k] (?acc 0) = Inr (?acc k)" if "k \<le> K" for k
    using that
  proof (induction k)
    case (Suc k)
    with wmma_step_exact [OF mma ops blk, of k] show ?case by (simp add: fold_result_append del: mult_Suc_right)
  qed simp
  moreover have "?acc 0 = replicate 256 0" by (simp add: half_dot_def map_replicate_const)
  moreover have "map int (blocks 16 (nat (wa_inner args)) 0) = map (\<lambda>n. int (16 * n)) [0..<K]"
    using blocks_16 [of K 0] by (simp add: o(1) nat_mult_distrib)
  ultimately have acc: "fold_result (wmma_step mma args blk) (map int (blocks 16 (nat (wa_inner args)) 0)) (replicate 256 0)
      = Inr (?acc K)"
    by (simp only: fold_result_map order_refl)
  have "int (16 * snd blk * (16 * C)) + int (16 * fst blk) + int (e div 16) * wa_columns args + int (e mod 16)
      = int ((16 * snd blk + e div 16) * (16 * C) + (16 * fst blk + e mod 16))" for e
    by (simp add: o(2) algebra_simps)
  with acc c1 c2 show ?thesis by (simp add: wmma_block_def del: of_nat_mult of_nat_add)
qed

lemma half_dot_gemm:
  assumes "i < rows" "j < columns" "length (wa_lhs args) = rows * inner" "length (wa_rhs args) = inner * columns"
  shows "gemm_ref (real_ops er) (map hv (wa_lhs args)) (map hv (wa_rhs args)) rows inner columns ! (i * columns + j)
    = half_dot hv args inner columns i j inner"
proof -
  have fold_sum: "fold (\<lambda>m a. a + f m) [0..<n] 0 = (\<Sum>m < n. f m)" for f :: "nat \<Rightarrow> real" and n
    by (induction n) simp_all
  have "gemm_ref (real_ops er) (map hv (wa_lhs args)) (map hv (wa_rhs args)) rows inner columns ! (i * columns + j)
      = (\<Sum>m < inner. map hv (wa_lhs args) ! (i * inner + m) * map hv (wa_rhs args) ! (m * columns + j))"
    using row_major_less [OF assms(1,2)] assms(2) by (simp add: gemm_ref_def dot_ref_def fold_sum)
  also have "\<dots> = half_dot hv args inner columns i j inner"
    unfolding half_dot_def using row_major_less [OF assms(1)] row_major_less [OF _ assms(2)] assms(3,4)
    by (intro sum.cong refl) simp
  finally show ?thesis .
qed

lemma wmma_launch_exact:
  assumes mma: "mma_exact hv mma" and ops: "wmma_operands args R C K"
    and out: "length out = 16 * R * (16 * C)"
  shows "\<exists>ws. wmma_launch (real_ops er) mma args (C, R) = Inr ws \<and>
    (\<forall>ws' out'. write_step\<^sup>*\<^sup>* (ws, out) (ws', out') \<longrightarrow>
       (\<exists>s. write_step (ws', out') s) \<or>
       writes_done ws' \<and>
       out' = gemm_ref (real_ops er) (map hv (wa_lhs args)) (map hv (wa_rhs args)) (16 * R) (16 * K) (16 * C))"
proof -
  let ?ref = "gemm_ref (real_ops er) (map hv (wa_lhs args)) (map hv (wa_rhs args)) (16 * R) (16 * K) (16 * C)"
  let ?row = "\<lambda>blk e. 16 * snd blk + e div 16" and ?col = "\<lambda>blk e. 16 * fst blk + e mod 16"
  let ?w = "\<lambda>blk. map (\<lambda>e. (int (?row blk e * (16 * C) + ?col blk e), ?ref ! (?row blk e * (16 * C) + ?col blk e))) [0..<256 :: nat]"
  let ?ws = "map ?w (gemm_blocks (C, R))"
  have len: "length (wa_lhs args) = 16 * R * (16 * K)" "length (wa_rhs args) = 16 * K * (16 * C)"
    using ops by (simp_all add: wmma_operands_def)
  have in_tile: "?row blk e < 16 * R" "?col blk e < 16 * C" if "blk \<in> set (gemm_blocks (C, R))" "e < 256" for blk e
    using that by (auto simp: gemm_blocks_iff intro!: tile_less)
  have "wmma_block (real_ops er) mma args blk = Inr (?w blk)" if "blk \<in> set (gemm_blocks (C, R))" for blk
    using wmma_block_exact [OF mma ops, of blk er] that half_dot_gemm [OF in_tile [OF that] len, where er = er and hv = hv]
    by (simp add: gemm_blocks_iff del: of_nat_mult of_nat_add)
  then have launch: "wmma_launch (real_ops er) mma args (C, R) = Inr ?ws"
    unfolding wmma_launch_def by (subst fold_result_collect [where h = ?w]) simp_all
  have "writes_ok ((!) ?ref) (16 * R * (16 * C)) (?ws, out)"
  proof -
    have "\<exists>w \<in> set ?ws. int k \<in> fst ` set w" if k: "k < 16 * R * (16 * C)" for k
    proof -
      note d = div_mod_row_major [OF k]
      let ?i = "k div (16 * C)" and ?j = "k mod (16 * C)"
      let ?blk = "(?j div 16, ?i div 16)" and ?e = "16 * (?i mod 16) + ?j mod 16"
      have "?blk \<in> set (gemm_blocks (C, R))" using d by (simp add: gemm_blocks_iff less_mult_imp_div_less mult.commute)
      then have w: "?w ?blk \<in> set ?ws" unfolding set_map by (rule imageI)
      have e: "?e div 16 = ?i mod 16" "?e mod 16 = ?j mod 16" "?e < 256"
        by simp_all
      then have "?row ?blk ?e * (16 * C) + ?col ?blk ?e = k" using d(3) by simp
      then have "(int k, ?ref ! k) \<in> set (?w ?blk)"
        unfolding set_map using e(3) by (intro image_eqI [of _ _ ?e]) simp_all
      from imageI [OF this, of fst] have "int k \<in> fst ` set (?w ?blk)" by (simp only: fst_conv)
      with w show ?thesis by (rule rev_bexI)
    qed
    moreover have "int (?row blk e * (16 * C) + ?col blk e) < int (16 * R * (16 * C))"
      if "blk \<in> set (gemm_blocks (C, R))" "e < 256" for blk e
      using row_major_less [OF in_tile [OF that]] by (simp only: of_nat_less_iff)
    ultimately show ?thesis using out by (auto simp: writes_ok_def simp del: of_nat_mult of_nat_add)
  qed
  from writes_exact [OF this] have "\<forall>ws' out'. write_step\<^sup>*\<^sup>* (?ws, out) (ws', out') \<longrightarrow>
      (\<exists>s. write_step (ws', out') s) \<or> writes_done ws' \<and> out' = map ((!) ?ref) [0..<16 * R * (16 * C)]"
    by blast
  moreover have "map ((!) ?ref) [0..<16 * R * (16 * C)] = ?ref" by (intro nth_equalityI) simp_all
  ultimately show ?thesis using launch by (intro exI [of _ ?ws]) simp
qed

text \<open>
  the tensor core product is exact up to the rounding of its inputs. When the hardware's
  fragment product is exact, a launch on matrices whose sides are multiples of 16 never
  accesses memory outside a buffer, and in every interleaving of the warps' writes it can go on
  or has finished with the product of the matrices of half precision numbers in the output
  buffer.
\<close>

theorem wmma_gemm_exact:
  assumes mma: "mma_exact hv mma" and ops: "wmma_operands args R C K"
    and out: "length out = 16 * R * (16 * C)"
  shows "\<exists>ws. wmma_launch (real_ops er) mma args (C, R) = Inr ws \<and>
    (\<forall>ws' out'. write_step\<^sup>*\<^sup>* (ws, out) (ws', out') \<longrightarrow>
       (\<exists>s. write_step (ws', out') s) \<or>
       writes_done ws' \<and>
       out' = gemm_ref (real_ops er) (map hv (wa_lhs args)) (map hv (wa_rhs args)) (16 * R) (16 * K) (16 * C))"
  by (rule wmma_launch_exact [OF mma ops out])

definition unit_wmma :: "real wmma_args" where
  "unit_wmma = \<lparr>wa_lhs = replicate 256 1, wa_rhs = replicate 256 1, wa_rows = 16, wa_columns = 16, wa_inner = 16\<rparr>"

definition plain_mma :: "real list \<Rightarrow> real list \<Rightarrow> real list \<Rightarrow> real list" where
  "plain_mma a b c =
     map (\<lambda>e. c ! e + (\<Sum>m < 16. a ! (16 * (e div 16) + m) * b ! (16 * m + e mod 16))) [0..<256]"

theorem wmma_gemm_exact_witness:
  "\<exists>ws. wmma_launch (real_ops id) plain_mma unit_wmma (1, 1) = Inr ws \<and>
     (\<forall>ws' out'. write_step\<^sup>*\<^sup>* (ws, replicate 256 0) (ws', out') \<longrightarrow>
        (\<exists>s. write_step (ws', out') s) \<or> writes_done ws' \<and> out' ! 0 = 16)"
proof -
  have mma: "mma_exact (\<lambda>x. x) plain_mma" by (simp add: mma_exact_def plain_mma_def)
  have ops: "wmma_operands unit_wmma 1 1 1" by (simp add: wmma_operands_def unit_wmma_def)
  have out: "length (replicate 256 (0 :: real)) = 16 * 1 * (16 * 1)" by simp
  have "half_dot (\<lambda>x. x) unit_wmma 16 16 0 0 16 = (\<Sum>m < 16 :: nat. 1)"
    unfolding half_dot_def by (intro sum.cong refl) (simp add: unit_wmma_def)
  with half_dot_gemm [of 0 16 0 16 unit_wmma 16 id "\<lambda>x. x"]
  have cell: "gemm_ref (real_ops id) (replicate 256 1) (replicate 256 1) 16 16 16 ! 0 = 16"
    by (simp add: unit_wmma_def)
  from wmma_gemm_exact [OF mma ops out, of id] show ?thesis
    by (simp only: unit_wmma_def wmma_args.simps list.map_ident mult_1_right) (metis cell)
qed

end
