(* ===== verification/Cuda_Host.thy ===== *)
theory Cuda_Host
  imports Cuda_Wmma
begin

text \<open>
  The host side of the CUDA kernels (the functions of cuda/kernels.cu behind gpuforge/kernels.hpp
  in a CUDA build): allocation of device buffers, copies, launches, and errors as exceptions.
  The runtime library is an argument: which of its calls fail, which grids it refuses to launch,
  what fresh memory holds. What a kernel leaves in its output buffer is an argument too; the
  properties ask that it be the outcome of a run of the kernel's model.
\<close>

section \<open>The runtime\<close>

datatype ('f, 'h) buffer = FloatBuffer "'f list" | HalfBuffer "'h list"

record ('f, 'h) device =
  d_calls :: nat
  d_memory :: "nat \<Rightarrow> ('f, 'h) buffer option"

record ('f, 'h) runtime =
  call_error :: "nat \<Rightarrow> string option"
  launch_error :: "nat \<times> nat \<Rightarrow> string option"
  fresh_floats :: "nat \<Rightarrow> nat \<Rightarrow> 'f list"
  fresh_halves :: "nat \<Rightarrow> nat \<Rightarrow> 'h list"
  device_count :: "int option"

type_synonym ('f, 'h, 'a) cuda = "('f, 'h) device \<Rightarrow> 'a result \<times> ('f, 'h) device"

definition cuda_lift :: "'a result \<Rightarrow> ('f, 'h, 'a) cuda" where
  "cuda_lift r s = (r, s)"

definition cuda_bind :: "('f, 'h, 'a) cuda \<Rightarrow> ('a \<Rightarrow> ('f, 'h, 'b) cuda) \<Rightarrow> ('f, 'h, 'b) cuda" where
  "cuda_bind m f s = (case m s of (Inl e, t) \<Rightarrow> (Inl e, t) | (Inr x, t) \<Rightarrow> f x t)"

text \<open>A runtime call that fails throws; the calls of a session are numbered.\<close>

definition check_cuda :: "('f, 'h) runtime \<Rightarrow> ('f, 'h, unit) cuda" where
  "check_cuda rt s =
     (case call_error rt (d_calls s) of
        None \<Rightarrow> (Inr (), s\<lparr>d_calls := Suc (d_calls s)\<rparr>)
      | Some e \<Rightarrow> (Inl (RuntimeError e), s\<lparr>d_calls := Suc (d_calls s)\<rparr>))"

text \<open>
  \<open>DeviceBuffer\<close>: allocated by the constructor, freed when the scope is left, whether by a return
  or by an exception. The pointer is the number of the call that allocated it. \<open>elements n w\<close> are
  the elements of \<open>w\<close> bytes in the bytes asked for, whose count may wrap. The destructor does not look
  at what \<open>cudaFree\<close> returns: here a \<open>cudaFree\<close> of a pointer that \<open>cudaMalloc\<close> gave frees it (only a device
  that has already failed refuses it).
\<close>

definition elements :: "nat \<Rightarrow> nat \<Rightarrow> nat" where
  "elements n w = wmul n w div w"

definition with_buffer ::
  "('f, 'h) runtime \<Rightarrow> (nat \<Rightarrow> ('f, 'h) buffer) \<Rightarrow> (nat \<Rightarrow> ('f, 'h, 'a) cuda) \<Rightarrow> ('f, 'h, 'a) cuda" where
  "with_buffer rt fresh body s =
     (let p = d_calls s in
      case check_cuda rt s of
        (Inl e, t) \<Rightarrow> (Inl e, t)
      | (Inr _, t) \<Rightarrow>
          (case body p (t\<lparr>d_memory := (d_memory t)(p := Some (fresh p))\<rparr>) of
             (r, u) \<Rightarrow> (r, u\<lparr>d_memory := (d_memory u)(p := None)\<rparr>)))"

definition with_floats ::
  "('f, 'h) runtime \<Rightarrow> nat \<Rightarrow> (nat \<Rightarrow> ('f, 'h, 'a) cuda) \<Rightarrow> ('f, 'h, 'a) cuda" where
  "with_floats rt n = with_buffer rt (\<lambda>p. FloatBuffer (fresh_floats rt p (elements n 4)))"

definition with_halves ::
  "('f, 'h) runtime \<Rightarrow> nat \<Rightarrow> (nat \<Rightarrow> ('f, 'h, 'a) cuda) \<Rightarrow> ('f, 'h, 'a) cuda" where
  "with_halves rt n = with_buffer rt (\<lambda>p. HalfBuffer (fresh_halves rt p (elements n 2)))"

definition floats_at :: "('f, 'h) device \<Rightarrow> nat \<Rightarrow> 'f list" where
  "floats_at s p = (case d_memory s p of Some (FloatBuffer b) \<Rightarrow> b | _ \<Rightarrow> [])"

definition halves_at :: "('f, 'h) device \<Rightarrow> nat \<Rightarrow> 'h list" where
  "halves_at s p = (case d_memory s p of Some (HalfBuffer b) \<Rightarrow> b | _ \<Rightarrow> [])"

definition set_buffer :: "nat \<Rightarrow> ('f, 'h) buffer \<Rightarrow> ('f, 'h) device \<Rightarrow> ('f, 'h) device" where
  "set_buffer p b s = s\<lparr>d_memory := (d_memory s)(p := Some b)\<rparr>"

text \<open>\<open>cudaMemcpy\<close> in both directions.\<close>

definition copy_floats :: "('f, 'h) runtime \<Rightarrow> nat \<Rightarrow> 'f list \<Rightarrow> ('f, 'h, unit) cuda" where
  "copy_floats rt p xs =
     cuda_bind (check_cuda rt)
       (\<lambda>_ s. if length xs \<le> length (floats_at s p)
              then (Inr (), set_buffer p (FloatBuffer (xs @ drop (length xs) (floats_at s p))) s)
              else (Inl UndefinedBehavior, s))"

definition copy_halves :: "('f, 'h) runtime \<Rightarrow> nat \<Rightarrow> 'h list \<Rightarrow> ('f, 'h, unit) cuda" where
  "copy_halves rt p xs =
     cuda_bind (check_cuda rt)
       (\<lambda>_ s. if length xs \<le> length (halves_at s p)
              then (Inr (), set_buffer p (HalfBuffer (xs @ drop (length xs) (halves_at s p))) s)
              else (Inl UndefinedBehavior, s))"

definition copy_back :: "('f, 'h) runtime \<Rightarrow> nat \<Rightarrow> nat \<Rightarrow> ('f, 'h, 'f list) cuda" where
  "copy_back rt p n =
     cuda_bind (check_cuda rt)
       (\<lambda>_ s. if n \<le> length (floats_at s p) then (Inr (take n (floats_at s p)), s)
              else (Inl UndefinedBehavior, s))"

text \<open>
  A launch, \<open>cudaGetLastError\<close> and \<open>cudaDeviceSynchronize\<close>: a grid the runtime refuses is
  reported by the first of the two.
\<close>

definition launch ::
  "('f, 'h) runtime \<Rightarrow> nat \<times> nat \<Rightarrow> nat \<Rightarrow> (('f, 'h) device \<Rightarrow> 'f list) \<Rightarrow> ('f, 'h, unit) cuda" where
  "launch rt g p outcome s =
     (case launch_error rt g of
        Some e \<Rightarrow> (Inl (RuntimeError e), s\<lparr>d_calls := Suc (d_calls s)\<rparr>)
      | None \<Rightarrow> cuda_bind (check_cuda rt) (\<lambda>_. check_cuda rt) (set_buffer p (FloatBuffer (outcome s)) s))"

definition device_available :: "('f, 'h) runtime \<Rightarrow> bool" where
  "device_available rt = (case device_count rt of None \<Rightarrow> False | Some n \<Rightarrow> n > 0)"

section \<open>The three entry points\<close>

definition check_matrix_shapes :: "'f tval \<Rightarrow> 'f tval \<Rightarrow> string \<Rightarrow> unit result" where
  "check_matrix_shapes lhs rhs operation =
     (if ndim lhs \<noteq> 2 \<or> ndim rhs \<noteq> 2 \<or> vshape lhs ! 1 \<noteq> vshape rhs ! 0
      then Inl (InvalidArgument (operation @ '' shape'')) else Inr ())"

definition int_dim :: "'f tval \<Rightarrow> nat \<Rightarrow> int" where
  "int_dim t k = i32 (int (vshape t ! k))"

definition grid_dim :: "int \<Rightarrow> int \<Rightarrow> nat result" where
  "grid_dim n tile =
     bind_result (check32 (n + tile)) (\<lambda>a. bind_result (check32 (a - 1))
       (\<lambda>b. Inr (nat (c_div b tile mod 2 ^ 32))))"

definition device_gemm ::
  "'f fops \<Rightarrow> ('f, 'h) runtime \<Rightarrow> ('f gemm_args \<Rightarrow> nat \<times> nat \<Rightarrow> 'f list \<Rightarrow> 'f list)
    \<Rightarrow> 'f tval \<Rightarrow> 'f tval \<Rightarrow> ('f, 'h, 'f tval) cuda" where
  "device_gemm ops rt outcome lhs rhs =
     cuda_bind (cuda_lift (check_matrix_shapes lhs rhs ''gemm_cuda'')) (\<lambda>_.
     let rows = int_dim lhs 0; inner = int_dim lhs 1; columns = int_dim rhs 1 in
     cuda_bind (cuda_lift (tval_new ops [u64_of_int rows, u64_of_int columns] DType_F32)) (\<lambda>output.
     cuda_bind (cuda_lift (numel (vshape lhs))) (\<lambda>nl.
     cuda_bind (cuda_lift (numel (vshape rhs))) (\<lambda>nr.
     let no = length (vdata output) in
     with_floats rt nl (\<lambda>pl. with_floats rt nr (\<lambda>pr. with_floats rt no (\<lambda>po.
     cuda_bind (copy_floats rt pl (take (elements nl 4) (vdata lhs))) (\<lambda>_.
     cuda_bind (copy_floats rt pr (take (elements nr 4) (vdata rhs))) (\<lambda>_.
     cuda_bind (cuda_lift (grid_dim columns 32)) (\<lambda>gx.
     cuda_bind (cuda_lift (grid_dim rows 32)) (\<lambda>gy.
     cuda_bind (launch rt (gx, gy) po
       (\<lambda>s. outcome \<lparr>ga_lhs = floats_at s pl, ga_rhs = floats_at s pr, ga_rows = rows,
                     ga_columns = columns, ga_inner = inner\<rparr> (gx, gy) (floats_at s po))) (\<lambda>_.
     cuda_bind (copy_back rt po (elements no 4)) (\<lambda>d.
     cuda_lift (Inr (output\<lparr>vdata := d\<rparr>)))))))))))))))"

definition device_attention ::
  "'f fops \<Rightarrow> ('f, 'h) runtime \<Rightarrow> ('f attention_args \<Rightarrow> nat \<Rightarrow> 'f list \<Rightarrow> 'f list)
    \<Rightarrow> 'f tval \<Rightarrow> 'f tval \<Rightarrow> 'f tval \<Rightarrow> 'f attention_config \<Rightarrow> ('f, 'h, 'f tval) cuda" where
  "device_attention ops rt outcome query key value config =
     (if ndim query \<noteq> 2 \<or> ndim key \<noteq> 2 \<or> ndim value \<noteq> 2
         \<or> vshape query ! 1 \<noteq> vshape key ! 1 \<or> vshape key ! 0 \<noteq> vshape value ! 0
         \<or> vshape key ! 0 > 256
      then cuda_lift (Inl (InvalidArgument ''attention_cuda shape''))
      else
        let queries = int_dim query 0; keys = int_dim key 0; depth = int_dim query 1;
            value_dim = int_dim value 1 in
        cuda_bind (cuda_lift (tval_new ops [u64_of_int queries, u64_of_int value_dim] DType_F32)) (\<lambda>output.
        cuda_bind (cuda_lift (numel (vshape query))) (\<lambda>nq.
        cuda_bind (cuda_lift (numel (vshape key))) (\<lambda>nk.
        cuda_bind (cuda_lift (numel (vshape value))) (\<lambda>nv.
        let no = length (vdata output) in
        with_floats rt nq (\<lambda>pq. with_floats rt nk (\<lambda>pk. with_floats rt nv (\<lambda>pv. with_floats rt no (\<lambda>po.
        cuda_bind (copy_floats rt pq (take (elements nq 4) (vdata query))) (\<lambda>_.
        cuda_bind (copy_floats rt pk (take (elements nk 4) (vdata key))) (\<lambda>_.
        cuda_bind (copy_floats rt pv (take (elements nv 4) (vdata value))) (\<lambda>_.
        let scale = (if f_eq ops (ascale config) (f_zero ops)
                     then f_div ops (f_dec ops 1 0) (f_sqrt ops (f_of_nat ops (nat depth)))
                     else ascale config) in
        cuda_bind (cuda_lift (grid_dim queries 128)) (\<lambda>g.
        cuda_bind (launch rt (g, 1) po
          (\<lambda>s. outcome \<lparr>aa_query = floats_at s pq, aa_key = floats_at s pk, aa_value = floats_at s pv,
                        aa_queries = queries, aa_keys = keys, aa_depth = depth, aa_value_dim = value_dim,
                        aa_scale = scale, aa_causal = causal config\<rparr> (g * 128) (floats_at s po))) (\<lambda>_.
        cuda_bind (copy_back rt po (elements no 4)) (\<lambda>d.
        cuda_lift (Inr (output\<lparr>vdata := d\<rparr>)))))))))))))))))"

definition device_tensorcore ::
  "'f fops \<Rightarrow> ('f, 'h) runtime \<Rightarrow> ('f \<Rightarrow> 'h) \<Rightarrow> ('h wmma_args \<Rightarrow> nat \<times> nat \<Rightarrow> 'f list \<Rightarrow> 'f list)
    \<Rightarrow> 'f tval \<Rightarrow> 'f tval \<Rightarrow> ('f, 'h, 'f tval) cuda" where
  "device_tensorcore ops rt to_half outcome lhs rhs =
     cuda_bind (cuda_lift (check_matrix_shapes lhs rhs ''tensorcore'')) (\<lambda>_.
     if vshape lhs ! 0 mod 16 \<noteq> 0 \<or> vshape rhs ! 1 mod 16 \<noteq> 0 \<or> vshape lhs ! 1 mod 16 \<noteq> 0
     then cuda_lift (Inl (InvalidArgument ''tensorcore requires multiples of 16''))
     else
       let rows = int_dim lhs 0; inner = int_dim lhs 1; columns = int_dim rhs 1 in
       cuda_bind (cuda_lift (tval_new ops [u64_of_int rows, u64_of_int columns] DType_F32)) (\<lambda>output.
       let host_lhs = map to_half (vdata lhs); host_rhs = map to_half (vdata rhs);
           no = length (vdata output) in
       with_halves rt (length host_lhs) (\<lambda>pl. with_halves rt (length host_rhs) (\<lambda>pr.
       with_floats rt no (\<lambda>po.
       cuda_bind (copy_halves rt pl (take (elements (length host_lhs) 2) host_lhs)) (\<lambda>_.
       cuda_bind (copy_halves rt pr (take (elements (length host_rhs) 2) host_rhs)) (\<lambda>_.
       let g = (nat (c_div columns 16 mod 2 ^ 32), nat (c_div rows 16 mod 2 ^ 32)) in
       cuda_bind (launch rt g po
         (\<lambda>s. outcome \<lparr>wa_lhs = halves_at s pl, wa_rhs = halves_at s pr, wa_rows = rows,
                       wa_columns = columns, wa_inner = inner\<rparr> g (floats_at s po))) (\<lambda>_.
       cuda_bind (copy_back rt po (elements no 4)) (\<lambda>d.
       cuda_lift (Inr (output\<lparr>vdata := d\<rparr>)))))))))))"

section \<open>Device memory is freed on every path\<close>

named_theorems touches_intros
  \<open>which device buffers a computation may change\<close>

definition fresh_device :: "('f, 'h) device \<Rightarrow> bool" where
  "fresh_device s \<longleftrightarrow> (\<forall>p. d_calls s \<le> p \<longrightarrow> d_memory s p = None)"

text \<open>
  A computation that changes only the buffers in \<open>P\<close>: whatever it allocates, it frees, however
  it ends.
\<close>

definition touches :: "nat set \<Rightarrow> ('f, 'h, 'a) cuda \<Rightarrow> bool" where
  "touches P m \<longleftrightarrow>
     (\<forall>s. fresh_device s \<longrightarrow> (\<forall>p \<in> P. p < d_calls s) \<longrightarrow>
        fresh_device (snd (m s)) \<and> d_calls s \<le> d_calls (snd (m s)) \<and>
        (\<forall>p. p \<notin> P \<longrightarrow> d_memory (snd (m s)) p = d_memory s p))"

lemma touchesD:
  assumes "touches P m" "fresh_device s" "\<forall>p \<in> P. p < d_calls s"
  shows "fresh_device (snd (m s))" "d_calls s \<le> d_calls (snd (m s))"
    "p \<notin> P \<Longrightarrow> d_memory (snd (m s)) p = d_memory s p"
  using assms by (simp_all add: touches_def)

lemma touches_lift [touches_intros]: "touches P (cuda_lift r)"
  by (simp add: touches_def cuda_lift_def)

lemma check_cuda_snd: "snd (check_cuda rt s) = s\<lparr>d_calls := Suc (d_calls s)\<rparr>"
  by (simp add: check_cuda_def split: option.splits)

lemma touches_check [touches_intros]: "touches P (check_cuda rt)"
  by (simp add: touches_def check_cuda_snd fresh_device_def)

lemma touches_bind [touches_intros]:
  assumes m: "touches P m" and f: "\<And>x. touches P (f x)"
  shows "touches P (cuda_bind m f)"
  unfolding touches_def
proof (intro allI impI)
  fix s :: "('a, 'b) device" assume s: "fresh_device s" "\<forall>p \<in> P. p < d_calls s"
  note t = touchesD [OF m s]
  have "\<forall>p \<in> P. p < d_calls (snd (m s))" using s(2) t(2) by (meson less_le_trans)
  note st = t(1) this
  show "fresh_device (snd (cuda_bind m f s)) \<and> d_calls s \<le> d_calls (snd (cuda_bind m f s))
    \<and> (\<forall>p. p \<notin> P \<longrightarrow> d_memory (snd (cuda_bind m f s)) p = d_memory s p)"
  proof (cases "m s")
    case (Pair r t')
    show ?thesis
    proof (cases r)
      case (Inl e)
      with Pair t show ?thesis by (simp add: cuda_bind_def)
    next
      case (Inr x)
      with Pair t touchesD [OF f [of x] st] show ?thesis by (simp add: cuda_bind_def le_trans)
    qed
  qed
qed

lemma touches_set_buffer:
  "p \<in> P \<Longrightarrow> touches P (\<lambda>s. (r s, set_buffer p (b s) s))"
  by (auto simp: touches_def set_buffer_def fresh_device_def)

lemma touches_if [touches_intros]:
  "touches P m \<Longrightarrow> touches P n \<Longrightarrow> touches P (\<lambda>s. if c s then m s else n s)"
  by (auto simp: touches_def)

lemma touches_copy_floats [touches_intros]: "p \<in> P \<Longrightarrow> touches P (copy_floats rt p xs)"
  unfolding copy_floats_def
  by (intro touches_intros touches_set_buffer touches_lift [unfolded cuda_lift_def])

lemma touches_copy_halves [touches_intros]: "p \<in> P \<Longrightarrow> touches P (copy_halves rt p xs)"
  unfolding copy_halves_def
  by (intro touches_intros touches_set_buffer touches_lift [unfolded cuda_lift_def])

lemma touches_copy_back [touches_intros]: "touches P (copy_back rt p n)"
  unfolding copy_back_def
  by (rule touches_bind [OF touches_check]) (simp add: touches_def)

lemma touches_launch [touches_intros]:
  assumes "p \<in> P"
  shows "touches P (launch rt g p outcome)"
proof (cases "launch_error rt g")
  case (Some e)
  then show ?thesis by (auto simp: launch_def touches_def fresh_device_def)
next
  case None
  have "touches P (cuda_bind (\<lambda>s. (Inr (), set_buffer p (FloatBuffer (outcome s)) s))
      (\<lambda>_. cuda_bind (check_cuda rt) (\<lambda>_. check_cuda rt)))"
    by (intro touches_intros touches_set_buffer assms)
  also have "cuda_bind (\<lambda>s. (Inr (), set_buffer p (FloatBuffer (outcome s)) s))
      (\<lambda>_. cuda_bind (check_cuda rt) (\<lambda>_. check_cuda rt)) = launch rt g p outcome"
    using None by (intro ext) (simp add: launch_def cuda_bind_def)
  finally show ?thesis .
qed

lemma touches_with_buffer [touches_intros]:
  assumes body: "\<And>p. touches (insert p P) (body p)"
  shows "touches P (with_buffer rt fresh body)"
  unfolding touches_def
proof (intro allI impI)
  fix s :: "('a, 'b) device" assume s: "fresh_device s" "\<forall>p \<in> P. p < d_calls s"
  let ?p = "d_calls s"
  let ?t = "s\<lparr>d_calls := Suc ?p, d_memory := (d_memory s)(?p := Some (fresh ?p))\<rparr>"
  have "fresh_device ?t" "\<forall>q \<in> insert ?p P. q < d_calls ?t"
    using s by (auto simp: fresh_device_def)
  note u = touchesD [OF body [of ?p] this]
  show "fresh_device (snd (with_buffer rt fresh body s)) \<and> d_calls s \<le> d_calls (snd (with_buffer rt fresh body s))
    \<and> (\<forall>q. q \<notin> P \<longrightarrow> d_memory (snd (with_buffer rt fresh body s)) q = d_memory s q)"
  proof (cases "call_error rt ?p")
    case None
    then have "snd (with_buffer rt fresh body s)
        = (snd (body ?p ?t))\<lparr>d_memory := (d_memory (snd (body ?p ?t)))(?p := None)\<rparr>"
      by (cases "body ?p ?t") (simp add: with_buffer_def check_cuda_def Let_def)
    with u s show ?thesis by (auto simp: fresh_device_def)
  next
    case (Some e)
    with s show ?thesis by (auto simp: with_buffer_def check_cuda_def fresh_device_def)
  qed
qed

lemma touches_device_gemm: "touches P (device_gemm ops rt outcome lhs rhs)"
  unfolding device_gemm_def with_floats_def Let_def by (intro touches_intros) simp_all

lemma touches_device_attention: "touches P (device_attention ops rt outcome query key value config)"
  unfolding device_attention_def with_floats_def Let_def
  by (cases "ndim query \<noteq> 2 \<or> ndim key \<noteq> 2 \<or> ndim value \<noteq> 2
         \<or> vshape query ! 1 \<noteq> vshape key ! 1 \<or> vshape key ! 0 \<noteq> vshape value ! 0
         \<or> vshape key ! 0 > 256")
    (simp_all only: if_True if_False, (intro touches_intros; simp)+)

lemma touches_device_tensorcore: "touches P (device_tensorcore ops rt to_half outcome lhs rhs)"
  unfolding device_tensorcore_def with_floats_def with_halves_def Let_def
  by (cases "vshape lhs ! 0 mod 16 \<noteq> 0 \<or> vshape rhs ! 1 mod 16 \<noteq> 0 \<or> vshape lhs ! 1 mod 16 \<noteq> 0")
    (simp_all only: if_True if_False, (intro touches_intros; simp)+)

text \<open>
  C18: the CUDA entry points free all device memory they allocate, on every path. Whichever checked calls
  of the runtime fail (\<open>cudaFree\<close>, whose result the code drops, is taken to free), whatever the kernels do and whatever the arguments, after a call of
  \<open>gemm_cuda\<close>, \<open>attention_cuda\<close> or \<open>gemm_tensorcore\<close> the device memory is what it was before.
\<close>

theorem device_memory_released:
  assumes "fresh_device s"
  shows "d_memory (snd (device_gemm ops rt gemm_run lhs rhs s)) = d_memory s
    \<and> d_memory (snd (device_attention ops rt attention_run query key value config s)) = d_memory s
    \<and> d_memory (snd (device_tensorcore ops rt to_half wmma_run lhs rhs s)) = d_memory s"
  using touchesD(3) [OF touches_device_gemm assms, of "{}"]
    touchesD(3) [OF touches_device_attention assms, of "{}"]
    touchesD(3) [OF touches_device_tensorcore assms, of "{}"]
  by (simp add: fun_eq_iff)

theorem device_memory_released_witness:
  "let s = \<lparr>d_calls = 0, d_memory = Map.empty\<rparr>;
       rt = \<lparr>call_error = (\<lambda>n. if n = 2 then Some ''out of memory'' else None), launch_error = (\<lambda>_. None),
             fresh_floats = (\<lambda>_ n. replicate n 0), fresh_halves = (\<lambda>_ n. replicate n 0), device_count = Some 1\<rparr>;
       m = \<lparr>vshape = [1, 1], vdtype = DType_F32, vdata = [1 :: real]\<rparr>
   in fst (device_gemm (real_ops id) (rt :: (real, real) runtime) (\<lambda>_ _ b. b) m m s) = Inl (RuntimeError ''out of memory'')
      \<and> d_memory (snd (device_gemm (real_ops id) rt (\<lambda>_ _ b. b) m m s)) = Map.empty"
proof -
  let ?s = "\<lparr>d_calls = 0, d_memory = Map.empty\<rparr> :: (real, real) device"
  have fresh: "fresh_device ?s" by (simp add: fresh_device_def)
  show ?thesis
    using device_memory_released [OF fresh, THEN conjunct1]
    by (simp add: device_gemm_def cuda_bind_def cuda_lift_def check_matrix_shapes_def ndim_def
        numel_def tval_new_def wmul_def int_dim_def i32_def u64_of_int_def Let_def with_floats_def
        with_buffer_def check_cuda_def elements_def size_max_def)
qed

section \<open>A run without errors\<close>

text \<open>
  Outcomes of launches: what the output buffer can hold when a run of the kernel's model has
  finished.
\<close>

definition gemm_outcome ::
  "'f fops \<Rightarrow> 'f gemm_args \<Rightarrow> nat \<times> nat \<Rightarrow> 'f list \<Rightarrow> 'f list \<Rightarrow> bool" where
  "gemm_outcome ops args g out out' \<longleftrightarrow>
     (\<exists>s s'. gemm_start g s \<and> grid_output s = out \<and> (gemm_step ops args g)\<^sup>*\<^sup>* s s'
        \<and> gemm_finished g s' \<and> grid_output s' = out')"

definition attention_outcome ::
  "'f fops \<Rightarrow> ('f \<Rightarrow> 'f \<Rightarrow> 'f) \<Rightarrow> ('f \<Rightarrow> 'f) \<Rightarrow> 'f attention_args \<Rightarrow> nat \<Rightarrow> 'f list \<Rightarrow> 'f list \<Rightarrow> bool" where
  "attention_outcome ops fmaxf expf args n out out' \<longleftrightarrow>
     (\<exists>junk ws ws'. (\<forall>gid. length (junk gid) = local_scores)
        \<and> attention_launch ops fmaxf expf args junk n = Inr ws
        \<and> write_step\<^sup>*\<^sup>* (ws, out) (ws', out') \<and> writes_done ws')"

definition wmma_outcome ::
  "'f fops \<Rightarrow> ('h list \<Rightarrow> 'h list \<Rightarrow> 'f list \<Rightarrow> 'f list) \<Rightarrow> 'h wmma_args \<Rightarrow> nat \<times> nat \<Rightarrow> 'f list \<Rightarrow> 'f list \<Rightarrow> bool" where
  "wmma_outcome ops mma args g out out' \<longleftrightarrow>
     (\<exists>ws ws'. wmma_launch ops mma args g = Inr ws \<and> write_step\<^sup>*\<^sup>* (ws, out) (ws', out') \<and> writes_done ws')"

definition gemm_faithful ::
  "'f fops \<Rightarrow> ('f gemm_args \<Rightarrow> nat \<times> nat \<Rightarrow> 'f list \<Rightarrow> 'f list) \<Rightarrow> bool" where
  "gemm_faithful ops outcome \<longleftrightarrow>
     (\<forall>args g rows columns inner out. gemm_operands args g rows columns inner \<longrightarrow> length out = rows * columns \<longrightarrow>
        gemm_outcome ops args g out (outcome args g out))"

definition attention_faithful ::
  "'f fops \<Rightarrow> ('f \<Rightarrow> 'f \<Rightarrow> 'f) \<Rightarrow> ('f \<Rightarrow> 'f) \<Rightarrow> ('f attention_args \<Rightarrow> nat \<Rightarrow> 'f list \<Rightarrow> 'f list) \<Rightarrow> bool" where
  "attention_faithful ops fmaxf expf outcome \<longleftrightarrow>
     (\<forall>args queries keys depth columns out. attention_operands args queries keys depth columns \<longrightarrow>
        (\<forall>row < queries. ordered_scores ops fmaxf (row_of (score_rows ops args queries keys depth) keys row)) \<longrightarrow>
        length out = queries * columns \<longrightarrow>
        attention_outcome ops fmaxf expf args ((queries + 127) div 128 * 128) out
          (outcome args ((queries + 127) div 128 * 128) out))"

definition wmma_faithful ::
  "'f fops \<Rightarrow> ('h list \<Rightarrow> 'h list \<Rightarrow> 'f list \<Rightarrow> 'f list) \<Rightarrow> ('h wmma_args \<Rightarrow> nat \<times> nat \<Rightarrow> 'f list \<Rightarrow> 'f list) \<Rightarrow> bool"
where
  "wmma_faithful ops mma outcome \<longleftrightarrow>
     (\<forall>args R C K out. wmma_operands args R C K \<longrightarrow> length out = 16 * R * (16 * C) \<longrightarrow>
        wmma_outcome ops mma args (C, R) out (outcome args (C, R) out))"

lemma gemm_outcome_ref:
  assumes "padding_neutral ops Q" "gemm_operands args g rows columns inner" "length out = rows * columns"
    and "gemm_outcome ops args g out out'"
  shows "out' = gemm_ref ops (ga_lhs args) (ga_rhs args) rows inner columns"
  using assms gemm_finished_output [OF assms(1,2) gemm_run_invar [OF assms(2)]]
  by (auto simp: gemm_outcome_def)

lemma writes_done_stuck: "writes_done ws \<Longrightarrow> \<not> write_step (ws, out) s"
  by (auto simp: writes_done_def list_all_iff elim!: write_step.cases) (metis list.distinct(1) nth_mem)

lemma attention_outcome_ref:
  assumes ops: "attention_operands args queries keys depth columns"
    and ord: "\<forall>row < queries. ordered_scores ops fmaxf (row_of (score_rows ops args queries keys depth) keys row)"
    and out: "length out = queries * columns"
    and run: "attention_outcome ops fmaxf expf args ((queries + 127) div 128 * 128) out out'"
  shows "out' = attention_ref (with_exp ops expf) args queries keys depth columns"
proof -
  from run obtain junk ws ws' where r: "\<forall>gid. length (junk gid) = local_scores"
    "attention_launch ops fmaxf expf args junk ((queries + 127) div 128 * 128) = Inr ws"
    "write_step\<^sup>*\<^sup>* (ws, out) (ws', out')" "writes_done ws'"
    by (auto simp: attention_outcome_def)
  from attention_launch_exact [OF ops r(1) ord out] r(2,3) writes_done_stuck [OF r(4)] show ?thesis
    by (metis sum.inject(2))
qed

lemma wmma_outcome_ref:
  assumes mma: "mma_exact hv mma" and ops: "wmma_operands args R C K"
    and out: "length out = 16 * R * (16 * C)" and run: "wmma_outcome (real_ops er) mma args (C, R) out out'"
  shows "out' = gemm_ref (real_ops er) (map hv (wa_lhs args)) (map hv (wa_rhs args)) (16 * R) (16 * K) (16 * C)"
proof -
  from run obtain ws ws' where r: "wmma_launch (real_ops er) mma args (C, R) = Inr ws"
    "write_step\<^sup>*\<^sup>* (ws, out) (ws', out')" "writes_done ws'"
    by (auto simp: wmma_outcome_def)
  from wmma_launch_exact [OF mma ops out, of er] r(1,2) writes_done_stuck [OF r(3)] show ?thesis
    by (metis sum.inject(2))
qed

text \<open>
  A runtime whose calls succeed, which launches the grids the programming guide allows and whose
  allocations have the size asked for.
\<close>

definition runtime_ok :: "('f, 'h) runtime \<Rightarrow> bool" where
  "runtime_ok rt \<longleftrightarrow>
     (\<forall>n. call_error rt n = None)
     \<and> (\<forall>x y. 0 < x \<longrightarrow> x < 2 ^ 31 \<longrightarrow> 0 < y \<longrightarrow> y < 2 ^ 16 \<longrightarrow> launch_error rt (x, y) = None)
     \<and> (\<forall>p n. length (fresh_floats rt p n) = n \<and> length (fresh_halves rt p n) = n)"

lemma check_cuda_ok: "runtime_ok rt \<Longrightarrow> check_cuda rt s = (Inr (), s\<lparr>d_calls := Suc (d_calls s)\<rparr>)"
  by (simp add: check_cuda_def runtime_ok_def)

lemma cuda_bind_lift [simp]: "cuda_bind (cuda_lift (Inr x)) f = f x"
  by (simp add: cuda_bind_def cuda_lift_def fun_eq_iff)

lemma with_buffer_ok:
  "runtime_ok rt \<Longrightarrow> fst (with_buffer rt fresh body s)
     = fst (body (d_calls s) (s\<lparr>d_calls := Suc (d_calls s), d_memory := (d_memory s)(d_calls s \<mapsto> fresh (d_calls s))\<rparr>))"
  by (simp add: with_buffer_def check_cuda_ok Let_def split: prod.splits)

lemma copy_floats_ok:
  "runtime_ok rt \<Longrightarrow> length xs = length (floats_at s p) \<Longrightarrow>
   copy_floats rt p xs s = (Inr (), set_buffer p (FloatBuffer xs) (s\<lparr>d_calls := Suc (d_calls s)\<rparr>))"
  by (simp add: copy_floats_def cuda_bind_def check_cuda_ok floats_at_def)

lemma copy_halves_ok:
  "runtime_ok rt \<Longrightarrow> length xs = length (halves_at s p) \<Longrightarrow>
   copy_halves rt p xs s = (Inr (), set_buffer p (HalfBuffer xs) (s\<lparr>d_calls := Suc (d_calls s)\<rparr>))"
  by (simp add: copy_halves_def cuda_bind_def check_cuda_ok halves_at_def)

lemma copy_back_ok:
  "runtime_ok rt \<Longrightarrow> n = length (floats_at s p) \<Longrightarrow>
   copy_back rt p n s = (Inr (floats_at s p), s\<lparr>d_calls := Suc (d_calls s)\<rparr>)"
  by (simp add: copy_back_def cuda_bind_def check_cuda_ok floats_at_def)

lemma launch_ok:
  "runtime_ok rt \<Longrightarrow> 0 < x \<Longrightarrow> x < 2 ^ 31 \<Longrightarrow> 0 < y \<Longrightarrow> y < 2 ^ 16 \<Longrightarrow>
   launch rt (x, y) p outcome s
     = (Inr (), (set_buffer p (FloatBuffer (outcome s)) s)\<lparr>d_calls := Suc (Suc (d_calls s))\<rparr>)"
  by (simp add: launch_def cuda_bind_def check_cuda_ok runtime_ok_def set_buffer_def)

lemma elements_exact: "n < 2 ^ 31 \<Longrightarrow> w = 4 \<or> w = 2 \<Longrightarrow> elements n w = n"
  by (auto simp: elements_def wmul_exact)

lemma grid_dim_exact:
  assumes "n + t < 2 ^ 31" "0 < t"
  shows "grid_dim (int n) (int t) = Inr ((n + t - 1) div t)"
proof -
  have "check32 (int n + int t) = Inr (int (n + t))" "check32 (int (n + t) - 1) = Inr (int (n + t - 1))"
    using assms check32_nat [of "n + t"] check32_nat [of "n + t - 1"] by (simp_all add: of_nat_diff)
  moreover have "c_div (int (n + t - 1)) (int t) = int ((n + t - 1) div t)"
    using assms by (simp only: c_div_nonneg of_nat_0_le_iff of_nat_0_less_iff zdiv_int)
  moreover have "(n + t - 1) div t < 2 ^ 32"
    using assms by (intro le_less_trans [OF div_le_dividend]) simp
  ultimately show ?thesis by (simp add: grid_dim_def nat_mod_distrib flip: of_nat_mod)
qed

lemma int_dim_exact: "vshape t ! k < 2 ^ 31 \<Longrightarrow> int_dim t k = int (vshape t ! k)"
  by (simp only: int_dim_def i32_nat_exact)

lemma u64_of_int_nat: "n < 2 ^ 64 \<Longrightarrow> u64_of_int (int n) = n"
  by (simp add: u64_of_int_def)

text \<open>
  C4: on a machine whose CUDA calls succeed, the CUDA build's matrix product is the CPU build's:
  for non-empty operands whose indices fit into \<open>int\<close>, up to the runtime's limit on the grid,
  \<open>gemm_cuda\<close> returns the tensor \<open>gemm\<close> returns, bit for bit, whatever schedule the device
  chooses and whatever its memory held.
\<close>

theorem device_gemm_is_gemm:
  assumes pad: "padding_neutral ops Q" and rt: "runtime_ok rt" and tile: "gtile config < 2 ^ 31"
    and run: "gemm_faithful ops outcome"
    and lhs: "is_matrix lhs rows inner" and rhs: "is_matrix rhs inner columns"
    and pos: "0 < rows" "0 < columns" and grid: "rows \<le> 32 * 65535" "columns + 64 \<le> 2 ^ 31" "inner + 64 \<le> 2 ^ 31"
    and small: "rows * inner + 64 \<le> 2 ^ 31" "inner * columns + 64 \<le> 2 ^ 31" "rows * columns < 2 ^ 31"
  shows "fst (device_gemm ops rt outcome lhs rhs s) = gemm ops lhs rhs config"
proof -
  let ?args = "\<lparr>ga_lhs = vdata lhs, ga_rhs = vdata rhs, ga_rows = int rows, ga_columns = int columns, ga_inner = int inner\<rparr>"
  let ?g = "((columns + 31) div 32, (rows + 31) div 32)"
  have sh: "vshape lhs = [rows, inner]" "vshape rhs = [inner, columns]" "length (vdata lhs) = rows * inner"
    "length (vdata rhs) = inner * columns"
    using lhs rhs by (simp_all add: is_matrix_def)
  have ops: "gemm_operands ?args ?g rows columns inner"
    using sh grid small by (simp add: gemm_operands_def)
  have gpos: "0 < fst ?g" "fst ?g < 2 ^ 31" "0 < snd ?g" "snd ?g < 2 ^ 16"
    using pos grid by (auto simp: div_greater_zero_iff)
  have ref: "outcome ?args ?g out = gemm_ref ops (vdata lhs) (vdata rhs) rows inner columns"
    if "length out = rows * columns" for out
    using gemm_outcome_ref [OF pad ops that run [unfolded gemm_faithful_def, rule_format, OF ops that]] by simp
  have dims: "int_dim lhs 0 = int rows" "int_dim lhs (Suc 0) = int inner" "int_dim rhs (Suc 0) = int columns"
    using grid sh by (simp_all add: int_dim_exact)
  have num: "numel [rows, inner] = Inr (rows * inner)" "numel [inner, columns] = Inr (inner * columns)"
    "tval_new ops [rows, columns] DType_F32
      = Inr \<lparr>vshape = [rows, columns], vdtype = DType_F32, vdata = replicate (rows * columns) (f_zero ops)\<rparr>"
    using grid small by (simp_all add: numel_matrix tval_new_matrix)
  have el: "elements (rows * inner) 4 = rows * inner" "elements (inner * columns) 4 = inner * columns"
    "elements (rows * columns) 4 = rows * columns"
    using small by (simp_all add: elements_exact)
  have gd: "grid_dim (int columns) 32 = Inr ((columns + 31) div 32)" "grid_dim (int rows) 32 = Inr ((rows + 31) div 32)"
    using grid_dim_exact [of columns 32] grid_dim_exact [of rows 32] grid by simp_all
  have fresh: "length (fresh_floats rt p n) = n" for p n using rt by (simp add: runtime_ok_def)
  have "fst (device_gemm ops rt outcome lhs rhs s)
      = Inr \<lparr>vshape = [rows, columns], vdtype = DType_F32, vdata = gemm_ref ops (vdata lhs) (vdata rhs) rows inner columns\<rparr>"
    using grid gpos
    by (simp add: device_gemm_def check_matrix_shapes_def ndim_def sh dims num el gd Let_def u64_of_int_nat
        with_floats_def with_buffer_ok [OF rt] cuda_bind_def copy_floats_ok [OF rt] copy_back_ok [OF rt]
        launch_ok [OF rt] floats_at_def set_buffer_def fresh ref cuda_lift_def)
  also have "\<dots> = gemm ops lhs rhs config"
    using gemm_matrix [OF tile lhs rhs, of ops] small by simp
  finally show ?thesis .
qed

text \<open>The reference is an outcome of every launch, so faithful outcomes exist.\<close>

lemma gemm_ref_faithful:
  fixes ops :: "'f fops"
  assumes "padding_neutral ops Q"
  shows "gemm_faithful ops (\<lambda>args g out. gemm_ref ops (ga_lhs args) (ga_rhs args)
    (nat (ga_rows args)) (nat (ga_inner args)) (nat (ga_columns args)))"
  unfolding gemm_faithful_def
proof (intro allI impI)
  fix args :: "'f gemm_args" and g rows columns inner and out :: "'f list"
  assume ops: "gemm_operands args g rows columns inner" and out: "length out = rows * columns"
  let ?th = "\<lparr>gt_pc = Enter, gt_row = 0, gt_column = 0, gt_block = 0, gt_k = 0, gt_acc = f_zero ops\<rparr>"
  let ?s = "\<lparr>grid_blocks = \<lambda>_. \<lparr>lhs_tile = \<lambda>_ _. f_zero ops, rhs_tile = \<lambda>_ _. f_zero ops, gb_threads = \<lambda>_. ?th\<rparr>,
    grid_output = out\<rparr>"
  have start: "gemm_start g ?s" "length (grid_output ?s) = rows * columns"
    using out by (simp_all add: gemm_start_def list_all_iff all_at_def)
  note inv = gemm_start_invar [OF start ops]
  obtain s' where s': "(gemm_step ops args g)\<^sup>*\<^sup>* ?s s'" "gemm_finished g s'"
    using gemm_can_finish [OF ops inv] by blast
  have "grid_output s' = gemm_ref ops (ga_lhs args) (ga_rhs args) rows inner columns"
    by (rule gemm_finished_output [OF assms ops gemm_run_invar [OF ops start s'(1)] s'(2)])
  with ops s' start show "gemm_outcome ops args g out
      (gemm_ref ops (ga_lhs args) (ga_rhs args) (nat (ga_rows args)) (nat (ga_inner args)) (nat (ga_columns args)))"
    unfolding gemm_outcome_def by (intro exI [of _ ?s] exI [of _ s']) (simp add: gemm_operands_def)
qed

definition quiet_runtime :: "(real, 'h) runtime" where
  "quiet_runtime = \<lparr>call_error = (\<lambda>_. None), launch_error = (\<lambda>_. None), fresh_floats = (\<lambda>_ n. replicate n 0),
     fresh_halves = (\<lambda>_ n. replicate n undefined), device_count = Some 1\<rparr>"

lemma quiet_runtime_ok: "runtime_ok quiet_runtime"
  by (simp add: runtime_ok_def quiet_runtime_def)

theorem device_gemm_is_gemm_witness:
  "fst (device_gemm (real_ops id) quiet_runtime (\<lambda>args g out. gemm_ref (real_ops id) (ga_lhs args) (ga_rhs args)
       (nat (ga_rows args)) (nat (ga_inner args)) (nat (ga_columns args)))
     \<lparr>vshape = [1, 1], vdtype = DType_F32, vdata = [2]\<rparr>
     \<lparr>vshape = [1, 1], vdtype = DType_F32, vdata = [3]\<rparr> \<lparr>d_calls = 0, d_memory = Map.empty\<rparr>)
   = Inr \<lparr>vshape = [1, 1], vdtype = DType_F32, vdata = [6]\<rparr>"
proof -
  let ?m = "\<lambda>x. \<lparr>vshape = [1, 1], vdtype = DType_F32, vdata = [x :: real]\<rparr>"
  have m: "is_matrix (?m x) 1 1" for x by (simp add: is_matrix_def)
  have tile: "gtile default_gemm_config < 2 ^ 31" by (simp add: default_gemm_config_def)
  have "gemm (real_ops id) (?m 2) (?m 3) default_gemm_config = Inr (?m 6)"
    using gemm_matrix [OF tile m m, of "real_ops id" 2 3] by (simp add: gemm_ref_def dot_ref_def)
  moreover have "fst (device_gemm (real_ops id) quiet_runtime (\<lambda>args g out. gemm_ref (real_ops id) (ga_lhs args) (ga_rhs args)
       (nat (ga_rows args)) (nat (ga_inner args)) (nat (ga_columns args))) (?m 2) (?m 3) \<lparr>d_calls = 0, d_memory = Map.empty\<rparr>)
      = gemm (real_ops id) (?m 2) (?m 3) default_gemm_config"
    by (rule device_gemm_is_gemm [OF real_padding.padding_neutral_axioms quiet_runtime_ok tile
        gemm_ref_faithful [OF real_padding.padding_neutral_axioms] m m]) simp_all
  ultimately show ?thesis by simp
qed

text \<open>The scale both builds compute from the configuration.\<close>

definition config_scale :: "'f fops \<Rightarrow> 'f attention_config \<Rightarrow> nat \<Rightarrow> 'f" where
  "config_scale ops config depth =
     (if f_eq ops (ascale config) (f_zero ops)
      then f_div ops (f_dec ops 1 0) (f_sqrt ops (f_of_nat ops depth)) else ascale config)"

text \<open>The sizes the host computes for the attention launch do not wrap.\<close>

lemma attention_sizes:
  assumes dims: "queries + 128 < 2 ^ 31" "depth < 2 ^ 31" "columns < 2 ^ 31" and keys: "keys \<le> 256"
    and small: "queries * depth < 2 ^ 31" "keys * depth < 2 ^ 31" "keys * columns < 2 ^ 31" "queries * columns < 2 ^ 31"
  shows "queries * keys < 2 ^ 64" "queries * columns < 2 ^ 64"
    and "numel [queries, depth] = Inr (queries * depth)" "numel [keys, depth] = Inr (keys * depth)"
      "numel [keys, columns] = Inr (keys * columns)"
    and "tval_new ops [queries, columns] DType_F32
      = Inr \<lparr>vshape = [queries, columns], vdtype = DType_F32, vdata = replicate (queries * columns) (f_zero ops)\<rparr>"
    and "elements (queries * depth) 4 = queries * depth" "elements (keys * depth) 4 = keys * depth"
      "elements (keys * columns) 4 = keys * columns" "elements (queries * columns) 4 = queries * columns"
proof -
  have "queries * keys \<le> queries * 256" using keys by simp
  also have "\<dots> < 2 ^ 64" using dims(1) by simp
  finally show "queries * keys < 2 ^ 64" .
  show "queries * columns < 2 ^ 64" using small(4) by simp
  show "numel [queries, depth] = Inr (queries * depth)" "numel [keys, depth] = Inr (keys * depth)"
    "numel [keys, columns] = Inr (keys * columns)"
    "tval_new ops [queries, columns] DType_F32
      = Inr \<lparr>vshape = [queries, columns], vdtype = DType_F32, vdata = replicate (queries * columns) (f_zero ops)\<rparr>"
    using dims small keys by (simp_all add: numel_matrix tval_new_matrix)
  show "elements (queries * depth) 4 = queries * depth" "elements (keys * depth) 4 = keys * depth"
    "elements (keys * columns) 4 = keys * columns" "elements (queries * columns) 4 = queries * columns"
    using small by (simp_all add: elements_exact)
qed

text \<open>
  C21: on a machine whose CUDA calls succeed, the CUDA build's attention is the attention of the CPU
  build computed with the device's \<open>expf\<close> in place of the host's \<open>std::exp\<close>, whatever function \<open>expf\<close> is:
  for up to 256 keys and scores on which \<open>fmaxf\<close> agrees with \<open>std::max\<close> and that lie above \<open>-1e30\<close>,
  \<open>attention_cuda\<close> returns that tensor, in every interleaving of the device's threads and whatever its
  memory held. The two builds so differ by what the two exponentials differ, and by nothing else.
\<close>

theorem device_attention_is_attention:
  assumes rt: "runtime_ok rt" and run: "attention_faithful ops fmaxf expf outcome"
    and q: "is_matrix query queries depth" and k: "is_matrix key keys depth" and v: "is_matrix value keys columns"
    and pos: "0 < queries" "0 < keys" "keys \<le> 256"
    and dims: "queries + 128 < 2 ^ 31" "depth < 2 ^ 31" "columns < 2 ^ 31"
    and small: "queries * depth < 2 ^ 31" "keys * depth < 2 ^ 31" "keys * columns < 2 ^ 31" "queries * columns < 2 ^ 31"
    and ord: "\<forall>row < queries. ordered_scores ops fmaxf
      (row_of (scores_ref ops (vdata query) (vdata key) depth queries keys (causal config) (config_scale ops config depth)) keys row)"
  shows "fst (device_attention ops rt outcome query key value config s) = attention (with_exp ops expf) query key value config"
proof -
  let ?args = "\<lparr>aa_query = vdata query, aa_key = vdata key, aa_value = vdata value, aa_queries = int queries,
    aa_keys = int keys, aa_depth = int depth, aa_value_dim = int columns, aa_scale = config_scale ops config depth,
    aa_causal = causal config\<rparr>"
  let ?n = "(queries + 127) div 128"
  have sh: "vshape query = [queries, depth]" "vshape key = [keys, depth]" "vshape value = [keys, columns]"
    "length (vdata query) = queries * depth" "length (vdata key) = keys * depth" "length (vdata value) = keys * columns"
    using q k v by (simp_all add: is_matrix_def)
  have ops: "attention_operands ?args queries keys depth columns"
    using sh dims small pos(3) by (simp add: attention_operands_def)
  have ord': "\<forall>row < queries. ordered_scores ops fmaxf (row_of (score_rows ops ?args queries keys depth) keys row)"
    using ord by simp
  have ref: "outcome ?args (?n * 128) out = attention_ref (with_exp ops expf) ?args queries keys depth columns"
    if "length out = queries * columns" for out
    using attention_outcome_ref [OF ops ord' that run [unfolded attention_faithful_def, rule_format, OF ops _ that]] ord'
    by simp
  note sz = attention_sizes [OF dims pos(3) small]
  have n: "0 < ?n" "?n < 2 ^ 31" using pos(1) dims(1) by (auto simp: div_greater_zero_iff)
  have qd: "int_dim query 0 = int queries" "int_dim query (Suc 0) = int depth" "int_dim key 0 = int keys"
    "int_dim value (Suc 0) = int columns"
    using dims pos(3) sh by (simp_all add: int_dim_exact)
  have gd: "grid_dim (int queries) 128 = Inr ?n" using grid_dim_exact [of queries 128] dims(1) by simp
  have fresh: "length (fresh_floats rt p n) = n" for p n using rt by (simp add: runtime_ok_def)
  have "fst (device_attention ops rt outcome query key value config s)
      = Inr \<lparr>vshape = [queries, columns], vdtype = DType_F32, vdata = attention_ref (with_exp ops expf) ?args queries keys depth columns\<rparr>"
    using n dims pos(3)
    by (simp add: device_attention_def ndim_def sh qd sz gd Let_def u64_of_int_nat config_scale_def [symmetric]
        with_floats_def with_buffer_ok [OF rt] cuda_bind_def copy_floats_ok [OF rt] copy_back_ok [OF rt]
        launch_ok [OF rt] floats_at_def set_buffer_def fresh ref cuda_lift_def)
  also have "\<dots> = attention (with_exp ops expf) query key value config"
    using attention_matrix [OF q k v pos(2) sz(1,2), of "with_exp ops expf" config, folded config_scale_def]
    by (simp add: config_scale_def)
  finally show ?thesis .
qed

lemma write_step_less: "write_step s s' \<Longrightarrow> sum_list (map length (fst s')) < sum_list (map length (fst s))"
proof (induction rule: write_step.induct)
  case (1 t ws i x rest out out')
  then show ?case using sum_list_map_list_update [of t ws length rest] by simp
qed

lemma write_runs_end: "\<exists>s'. write_step\<^sup>*\<^sup>* s s' \<and> \<not> (\<exists>t. write_step s' t)"
proof (induction "sum_list (map length (fst s))" arbitrary: s rule: less_induct)
  case less
  show ?case
  proof (cases "\<exists>t. write_step s t")
    case True
    then obtain t where t: "write_step s t" ..
    from less [OF write_step_less [OF t]] obtain s' where "write_step\<^sup>*\<^sup>* t s'" "\<not> (\<exists>t. write_step s' t)" by blast
    with t show ?thesis by (meson converse_rtranclp_into_rtranclp)
  qed blast
qed

lemma attention_ref_faithful:
  fixes ops :: "'f fops"
  shows "attention_faithful ops fmaxf expf (\<lambda>args n out. attention_ref (with_exp ops expf) args
    (nat (aa_queries args)) (nat (aa_keys args)) (nat (aa_depth args)) (nat (aa_value_dim args)))"
  unfolding attention_faithful_def
proof (intro allI impI)
  fix args :: "'f attention_args" and queries keys depth columns and out :: "'f list"
  assume ops: "attention_operands args queries keys depth columns"
    and ord: "\<forall>row < queries. ordered_scores ops fmaxf (row_of (score_rows ops args queries keys depth) keys row)"
    and out: "length out = queries * columns"
  let ?junk = "\<lambda>_ :: nat. replicate 256 (f_zero ops)"
  have junk: "\<forall>gid. length (?junk gid) = local_scores" by (simp add: local_scores_def)
  obtain ws where ws: "attention_launch ops fmaxf expf args ?junk ((queries + 127) div 128 * 128) = Inr ws"
    "\<And>ws' out'. write_step\<^sup>*\<^sup>* (ws, out) (ws', out') \<Longrightarrow> \<not> (\<exists>s. write_step (ws', out') s) \<Longrightarrow>
      writes_done ws' \<and> out' = attention_ref (with_exp ops expf) args queries keys depth columns"
    using attention_launch_exact [OF ops junk ord out] by blast
  obtain ws' out' where end_run: "write_step\<^sup>*\<^sup>* (ws, out) (ws', out')" "\<not> (\<exists>s. write_step (ws', out') s)"
    using write_runs_end [of "(ws, out)"] by (metis surj_pair)
  from ws(2) [OF end_run] ws(1) end_run(1) junk ops
  show "attention_outcome ops fmaxf expf args ((queries + 127) div 128 * 128) out
      (attention_ref (with_exp ops expf) args (nat (aa_queries args)) (nat (aa_keys args)) (nat (aa_depth args)) (nat (aa_value_dim args)))"
    unfolding attention_outcome_def
    by (intro exI [of _ ?junk] exI [of _ ws] exI [of _ ws']) (simp add: attention_operands_def)
qed

text \<open>A device whose exponential is no exponential at all; with one key it cancels.\<close>

theorem device_attention_is_attention_witness:
  "fst (device_attention (real_ops id) quiet_runtime
     (\<lambda>args n out. attention_ref (with_exp (real_ops id) (\<lambda>x. 2 + x)) args
        (nat (aa_queries args)) (nat (aa_keys args)) (nat (aa_depth args)) (nat (aa_value_dim args)))
     \<lparr>vshape = [1, 1], vdtype = DType_F32, vdata = [2]\<rparr>
     \<lparr>vshape = [1, 1], vdtype = DType_F32, vdata = [3]\<rparr>
     \<lparr>vshape = [1, 1], vdtype = DType_F32, vdata = [7]\<rparr>
     \<lparr>atile = 64, ascale = 1, causal = False\<rparr> \<lparr>d_calls = 0, d_memory = Map.empty\<rparr>)
   = Inr \<lparr>vshape = [1, 1], vdtype = DType_F32, vdata = [7]\<rparr>"
proof -
  let ?m = "\<lambda>x. \<lparr>vshape = [1, 1], vdtype = DType_F32, vdata = [x :: real]\<rparr>"
  let ?c = "\<lparr>atile = 64, ascale = 1 :: real, causal = False\<rparr>"
  let ?s = "\<lparr>d_calls = 0, d_memory = Map.empty\<rparr>" and ?d = "with_exp (real_ops id) (\<lambda>x. 2 + x)"
  have m: "is_matrix (?m x) 1 1" for x by (simp add: is_matrix_def)
  have ord: "\<forall>row < 1. ordered_scores (real_ops id) max (row_of (scores_ref (real_ops id) (vdata (?m 2)) (vdata (?m 3))
      1 1 1 (causal ?c) (config_scale (real_ops id) ?c 1)) 1 row)"
    by (simp add: row_of_def scores_ref_def ordered_scores_def config_scale_def real_ops_def std_max_def max_def)
  have b: "0 < (1 :: nat)" "1 * 1 < (2 :: nat) ^ 64" by simp_all
  have "std_max ?d (f_neg_inf (real_ops id)) 6 = 6" by (simp add: std_max_def real_ops_def)
  then have "attention ?d (?m 2) (?m 3) (?m 7) ?c = Inr (?m 7)"
    unfolding attention_matrix [OF m m m b b(2)]
    by (simp add: gemm_ref_def dot_ref_def softmax_ref_def softmax_vec_def row_of_def scores_ref_def)
  moreover have "fst (device_attention (real_ops id) quiet_runtime
     (\<lambda>args n out. attention_ref ?d args
        (nat (aa_queries args)) (nat (aa_keys args)) (nat (aa_depth args)) (nat (aa_value_dim args)))
     (?m 2) (?m 3) (?m 7) ?c ?s) = attention ?d (?m 2) (?m 3) (?m 7) ?c"
    by (rule device_attention_is_attention [OF quiet_runtime_ok attention_ref_faithful m m m _ _ _ _ _ _ _ _ _ _ ord])
      simp_all
  ultimately show ?thesis by simp
qed

lemma grid_of_sixteens: "n < 2 ^ 31 \<Longrightarrow> nat (c_div (int n) 16 mod 4294967296) = n div 16"
proof -
  assume "n < 2 ^ 31"
  then have "n div 16 < 2 ^ 32" by simp
  moreover have "c_div (int n) 16 = int (n div 16)" by (simp add: c_div_nonneg zdiv_int)
  ultimately show ?thesis by (simp flip: of_nat_mod)
qed

text \<open>What the tensor-core kernel leaves in the output buffer.\<close>

lemma tensorcore_outcome:
  assumes mma: "mma_exact real_of_half mma" and run: "wmma_faithful (real_ops er) mma outcome"
    and lhs: "length a = rows * inner" and rhs: "length b = inner * columns"
    and sides: "rows mod 16 = 0" "inner mod 16 = 0" "columns mod 16 = 0"
    and grid: "rows < 2 ^ 20" "columns < 2 ^ 31" "inner < 2 ^ 31"
    and small: "rows * inner < 2 ^ 31" "inner * columns < 2 ^ 31" "rows * columns < 2 ^ 31"
    and out: "length out = rows * columns"
  shows "outcome \<lparr>wa_lhs = map to_half a, wa_rhs = map to_half b, wa_rows = int rows,
      wa_columns = int columns, wa_inner = int inner\<rparr> (columns div 16, rows div 16) out
    = gemm_ref (real_ops er) (map (real_of_half \<circ> to_half) a) (map (real_of_half \<circ> to_half) b) rows inner columns"
proof -
  let ?args = "\<lparr>wa_lhs = map to_half a, wa_rhs = map to_half b, wa_rows = int rows,
    wa_columns = int columns, wa_inner = int inner\<rparr>"
  have div: "16 * (rows div 16) = rows" "16 * (inner div 16) = inner" "16 * (columns div 16) = columns"
    using sides by auto
  have ops: "wmma_operands ?args (rows div 16) (columns div 16) (inner div 16)"
    unfolding wmma_operands_def div using lhs rhs grid small by simp
  have l: "length out = 16 * (rows div 16) * (16 * (columns div 16))" by (simp only: div out)
  show ?thesis
    using wmma_outcome_ref [OF mma ops l run [unfolded wmma_faithful_def, rule_format, OF ops l], unfolded div] by simp
qed

text \<open>
  C36: on a machine whose CUDA calls succeed and whose tensor cores multiply fragments exactly,
  \<open>gemm_tensorcore\<close> returns the exact product of the operands rounded to half precision, that is,
  what the CPU kernel returns over exact arithmetic for the rounded operands, whatever schedule
  the device chooses.
\<close>

theorem device_tensorcore_exact:
  assumes mma: "mma_exact real_of_half mma" and rt: "runtime_ok rt"
    and run: "wmma_faithful (real_ops er) mma outcome" and tile: "gtile config < 2 ^ 31"
    and lhs: "is_matrix lhs rows inner" and rhs: "is_matrix rhs inner columns"
    and sides: "rows mod 16 = 0" "inner mod 16 = 0" "columns mod 16 = 0" "0 < rows" "0 < columns"
    and grid: "rows < 2 ^ 20" "columns < 2 ^ 31" "inner < 2 ^ 31"
    and small: "rows * inner < 2 ^ 31" "inner * columns < 2 ^ 31" "rows * columns < 2 ^ 31"
  shows "fst (device_tensorcore (real_ops er) rt to_half outcome lhs rhs s)
    = gemm (real_ops er) (lhs\<lparr>vdata := map (real_of_half \<circ> to_half) (vdata lhs)\<rparr>)
        (rhs\<lparr>vdata := map (real_of_half \<circ> to_half) (vdata rhs)\<rparr>) config"
proof -
  let ?rounded = "\<lambda>t. t\<lparr>vdata := map (real_of_half \<circ> to_half) (vdata t)\<rparr>"
  let ?d = "gemm_ref (real_ops er) (map (real_of_half \<circ> to_half) (vdata lhs)) (map (real_of_half \<circ> to_half) (vdata rhs))
    rows inner columns"
  have sh: "vshape lhs = [rows, inner]" "vshape rhs = [inner, columns]"
    "length (vdata lhs) = rows * inner" "length (vdata rhs) = inner * columns"
    using lhs rhs by (simp_all add: is_matrix_def)
  note ref = tensorcore_outcome [OF mma run sh(3,4) sides(1-3) grid small]
  have dims: "int_dim lhs 0 = int rows" "int_dim lhs (Suc 0) = int inner" "int_dim rhs (Suc 0) = int columns"
    using grid sh by (simp_all add: int_dim_exact)
  have num: "tval_new (real_ops er) [rows, columns] DType_F32
      = Inr \<lparr>vshape = [rows, columns], vdtype = DType_F32, vdata = replicate (rows * columns) (f_zero (real_ops er))\<rparr>"
    using grid small by (simp add: tval_new_matrix)
  have el: "elements (rows * inner) 2 = rows * inner" "elements (inner * columns) 2 = inner * columns"
    "elements (rows * columns) 4 = rows * columns"
    using small by (simp_all add: elements_exact)
  have fresh: "length (fresh_floats rt p n) = n" "length (fresh_halves rt p n) = n" for p n
    using rt by (simp_all add: runtime_ok_def)
  have gl: "0 < columns div 16" "columns div 16 < 2 ^ 31" "0 < rows div 16" "rows div 16 < 2 ^ 16"
    using grid sides by (auto simp: div_greater_zero_iff)
  have gds: "nat (c_div (int columns) 16 mod 4294967296) = columns div 16" "nat (c_div (int rows) 16 mod 4294967296) = rows div 16"
    using grid_of_sixteens [of columns] grid_of_sixteens [of rows] grid by simp_all
  have "fst (device_tensorcore (real_ops er) rt to_half outcome lhs rhs s)
      = Inr \<lparr>vshape = [rows, columns], vdtype = DType_F32, vdata = ?d\<rparr>"
    using grid gl sides
    by (simp add: device_tensorcore_def check_matrix_shapes_def ndim_def sh dims num el gds Let_def u64_of_int_nat
        with_floats_def with_halves_def with_buffer_ok [OF rt] cuda_bind_def copy_halves_ok [OF rt] copy_back_ok [OF rt]
        launch_ok [OF rt] floats_at_def halves_at_def set_buffer_def fresh ref cuda_lift_def)
  also have "\<dots> = gemm (real_ops er) (?rounded lhs) (?rounded rhs) config"
    using gemm_matrix [OF tile, of "?rounded lhs" rows inner "?rounded rhs" columns "real_ops er"] lhs rhs small(3)
    by (simp add: is_matrix_def)
  finally show ?thesis .
qed

lemma wmma_ref_faithful:
  fixes hv :: "'h \<Rightarrow> real"
  assumes mma: "mma_exact hv mma"
  shows "wmma_faithful (real_ops er) mma (\<lambda>args g out. gemm_ref (real_ops er) (map hv (wa_lhs args)) (map hv (wa_rhs args))
    (nat (wa_rows args)) (nat (wa_inner args)) (nat (wa_columns args)))"
  unfolding wmma_faithful_def
proof (intro allI impI)
  fix args :: "'h wmma_args" and R C K and out :: "real list"
  assume ops: "wmma_operands args R C K" and out: "length out = 16 * R * (16 * C)"
  obtain ws where ws: "wmma_launch (real_ops er) mma args (C, R) = Inr ws"
    "\<And>ws' out'. write_step\<^sup>*\<^sup>* (ws, out) (ws', out') \<Longrightarrow> \<not> (\<exists>s. write_step (ws', out') s) \<Longrightarrow>
      writes_done ws' \<and>
      out' = gemm_ref (real_ops er) (map hv (wa_lhs args)) (map hv (wa_rhs args)) (16 * R) (16 * K) (16 * C)"
    using wmma_launch_exact [OF mma ops out, of er] by blast
  obtain ws' out' where end_run: "write_step\<^sup>*\<^sup>* (ws, out) (ws', out')" "\<not> (\<exists>s. write_step (ws', out') s)"
    using write_runs_end [of "(ws, out)"] by (metis surj_pair)
  have "nat (wa_rows args) = 16 * R" "nat (wa_inner args) = 16 * K" "nat (wa_columns args) = 16 * C"
    using ops by (simp_all only: wmma_operands_def nat_int)
  with ws(2) [OF end_run] ws(1) end_run(1)
  show "wmma_outcome (real_ops er) mma args (C, R) out (gemm_ref (real_ops er) (map hv (wa_lhs args)) (map hv (wa_rhs args))
      (nat (wa_rows args)) (nat (wa_inner args)) (nat (wa_columns args)))"
    unfolding wmma_outcome_def by (intro exI [of _ ws] exI [of _ ws']) simp
qed

theorem device_tensorcore_exact_witness:
  "let m = \<lparr>vshape = [16, 16], vdtype = DType_F32, vdata = replicate 256 (1 :: real)\<rparr> in
   fst (device_tensorcore (real_ops id) quiet_runtime (\<lambda>x. x)
     (\<lambda>args g out. gemm_ref (real_ops id) (map (\<lambda>x. x) (wa_lhs args)) (map (\<lambda>x. x) (wa_rhs args))
        (nat (wa_rows args)) (nat (wa_inner args)) (nat (wa_columns args)))
     m m \<lparr>d_calls = 0, d_memory = Map.empty\<rparr>) = gemm (real_ops id) m m default_gemm_config"
proof -
  let ?m = "\<lparr>vshape = [16, 16], vdtype = DType_F32, vdata = replicate 256 (1 :: real)\<rparr>"
  have m: "is_matrix ?m 16 16" by (simp add: is_matrix_def)
  have tile: "gtile default_gemm_config < 2 ^ 31" by (simp add: default_gemm_config_def)
  have mma: "mma_exact (\<lambda>x. x) plain_mma" by (simp add: mma_exact_def plain_mma_def)
  have "fst (device_tensorcore (real_ops id) quiet_runtime (\<lambda>x. x)
     (\<lambda>args g out. gemm_ref (real_ops id) (map (\<lambda>x. x) (wa_lhs args)) (map (\<lambda>x. x) (wa_rhs args))
        (nat (wa_rows args)) (nat (wa_inner args)) (nat (wa_columns args)))
     ?m ?m \<lparr>d_calls = 0, d_memory = Map.empty\<rparr>)
    = gemm (real_ops id) (?m\<lparr>vdata := map ((\<lambda>x. x) \<circ> (\<lambda>x. x)) (vdata ?m)\<rparr>)
        (?m\<lparr>vdata := map ((\<lambda>x. x) \<circ> (\<lambda>x. x)) (vdata ?m)\<rparr>) default_gemm_config"
    by (rule device_tensorcore_exact [OF mma quiet_runtime_ok wmma_ref_faithful [OF mma] tile m m]) simp_all
  then show ?thesis by (simp add: comp_def)
qed

text \<open>
  An empty matrix gives a grid of size zero, which the runtime refuses: the CUDA build throws
  where the CPU build returns the empty tensor.
\<close>

lemma device_gemm_empty:
  assumes rt: "\<And>n. call_error rt n = None" "\<And>g. fst g = 0 \<Longrightarrow> launch_error rt g = Some e"
    "\<And>p n. length (fresh_floats rt p n) = n"
    and a: "a = \<lparr>vshape = [1, 1], vdtype = DType_F32, vdata = [x]\<rparr>"
    and b: "b = \<lparr>vshape = [1, 0], vdtype = DType_F32, vdata = []\<rparr>"
  shows "fst (device_gemm ops rt outcome a b s) = Inl (RuntimeError e)
    \<and> gemm ops a b default_gemm_config = Inr \<lparr>vshape = [1, 0], vdtype = DType_F32, vdata = []\<rparr>"
proof
  have "is_matrix a 1 1" "is_matrix b 1 0" by (simp_all add: a b is_matrix_def)
  from gemm_matrix [OF _ this, of default_gemm_config ops]
  show "gemm ops a b default_gemm_config = Inr \<lparr>vshape = [1, 0], vdtype = DType_F32, vdata = []\<rparr>"
    by (simp add: default_gemm_config_def gemm_ref_def)
  show "fst (device_gemm ops rt outcome a b s) = Inl (RuntimeError e)"
    using rt(2) [of "(0, _)"] rt(3)
    by (simp add: a b device_gemm_def check_matrix_shapes_def ndim_def int_dim_def i32_def u64_of_int_def
        numel_def tval_new_def wmul_def size_max_def Let_def with_floats_def with_buffer_def check_cuda_def rt(1)
        cuda_bind_def cuda_lift_def copy_floats_def floats_at_def set_buffer_def elements_def grid_dim_def check32_def
        c_div_def launch_def split: prod.splits)
qed

end
