(* ===== verification/Kama2_Pages.thy ===== *)
theory Kama2_Pages
  imports Size_Class Ordered_Map
begin

text \<open>
  The second version of the vendored allocator (vendor_memorypool/v2), from below: the class index
  found by binary search (include/Common.h; the table itself is the one of the third version) and
  the page cache (include/PageCache.h, src/PageCache.cpp). A span is named by its address, the
  list of the free spans of a size is the list of their addresses, and what \<open>mmap\<close> returned is an
  argument of the call.
\<close>

section \<open>Binary search\<close>

function lower_search :: "nat list \<Rightarrow> nat \<Rightarrow> nat \<Rightarrow> nat \<Rightarrow> nat" where
  "lower_search sizes bytes lo hi =
     (if lo < hi
      then let mid = (lo + hi) div 2 in
           if sizes ! mid < bytes then lower_search sizes bytes (mid + 1) hi
           else lower_search sizes bytes lo mid
      else lo)"
  by pat_completeness auto
termination by (relation "measure (\<lambda>(sizes, bytes, lo, hi). hi - lo)") auto

declare lower_search.simps [simp del]

definition v2_get_index :: "nat \<Rightarrow> nat" where
  "v2_get_index bytes =
     (if bytes \<le> 256 then small_index_map ! bytes
      else lower_search size_table (max bytes k_alignment) 0 class_count)"

definition v2_round_up :: "nat \<Rightarrow> nat" where
  "v2_round_up bytes =
     (if bytes > max_bytes then mask_up bytes k_alignment else get_size (v2_get_index bytes))"

text \<open>The search finds the first entry of an ascending table that is large enough.\<close>

lemma lower_search_first:
  assumes "lo \<le> hi" "hi \<le> n" "\<And>i j. i \<le> j \<Longrightarrow> j < n \<Longrightarrow> sizes ! i \<le> sizes ! j"
    and "\<And>i. i < lo \<Longrightarrow> sizes ! i < bytes" "\<And>i. hi \<le> i \<Longrightarrow> i < n \<Longrightarrow> bytes \<le> sizes ! i"
  shows "lower_search sizes bytes lo hi \<le> n
    \<and> (\<forall>i < lower_search sizes bytes lo hi. sizes ! i < bytes)
    \<and> (\<forall>i < n. lower_search sizes bytes lo hi \<le> i \<longrightarrow> bytes \<le> sizes ! i)"
  using assms
proof (induction sizes bytes lo hi rule: lower_search.induct)
  case (1 sizes bytes lo hi)
  show ?case
  proof (cases "lo < hi")
    case True
    let ?m = "(lo + hi) div 2"
    have m: "lo \<le> ?m" "?m < hi" using True by auto
    show ?thesis
    proof (cases "sizes ! ?m < bytes")
      case less: True
      have "sizes ! i < bytes" if "i < ?m + 1" for i
        using that less m "1.prems"(2) "1.prems"(3) [of i ?m] by simp
      then have "lower_search sizes bytes (?m + 1) hi \<le> n
        \<and> (\<forall>i < lower_search sizes bytes (?m + 1) hi. sizes ! i < bytes)
        \<and> (\<forall>i < n. lower_search sizes bytes (?m + 1) hi \<le> i \<longrightarrow> bytes \<le> sizes ! i)"
        using "1.prems" m by (intro "1.IH"(1) [OF True refl less]) auto
      then show ?thesis by (subst (1 2 3) lower_search.simps) (simp add: True less Let_def)
    next
      case False
      have "bytes \<le> sizes ! i" if "?m \<le> i" "i < n" for i
        using that False "1.prems"(3) [of ?m i] by simp
      then have "lower_search sizes bytes lo ?m \<le> n
        \<and> (\<forall>i < lower_search sizes bytes lo ?m. sizes ! i < bytes)
        \<and> (\<forall>i < n. lower_search sizes bytes lo ?m \<le> i \<longrightarrow> bytes \<le> sizes ! i)"
        using "1.prems" m by (intro "1.IH"(2) [OF True refl False]) auto
      then show ?thesis by (subst (1 2 3) lower_search.simps) (simp add: True False Let_def)
    qed
  next
    case False
    then have e: "lower_search sizes bytes lo hi = lo" "lo = hi"
      using "1.prems"(1) by (subst lower_search.simps, simp_all)
    show ?thesis unfolding e(1) using "1.prems"(2,4,5) e(2) by blast
  qed
qed

text \<open>It agrees with the table of the third version on every size.\<close>

lemma v2_search_index: "v2_get_index bytes = get_index bytes"
proof (cases "bytes \<le> 256")
  case True
  then show ?thesis by (simp add: v2_get_index_def get_index_def)
next
  case False
  let ?r = "lower_search size_table bytes 0 56"
  have r: "?r \<le> 56" "\<forall>i < ?r. size_table ! i < bytes" "\<forall>i < 56. ?r \<le> i \<longrightarrow> bytes \<le> size_table ! i"
    using lower_search_first [of 0 56 56 size_table bytes] size_table_mono by auto
  have v: "v2_get_index bytes = ?r" using False by (simp add: v2_get_index_def max_def)
  show ?thesis
  proof (cases "bytes \<le> max_bytes")
    case True
    then have "bytes \<le> size_table ! 55" by (simp add: size_table_last)
    have "?r \<noteq> 56"
    proof
      assume "?r = 56"
      with r(2) have "size_table ! 55 < bytes" by simp
      with \<open>bytes \<le> size_table ! 55\<close> show False by simp
    qed
    with r(1) have "?r < 56" by simp
    with r True False have "is_class bytes ?r" by (auto simp: is_class_def)
    with True False v show ?thesis by (metis get_index_iff gr0I not_le zero_le)
  next
    case large: False
    have "?r = 56"
    proof (rule ccontr)
      assume "?r \<noteq> 56"
      with r(1) have "?r < 56" by simp
      with r(3) have "bytes \<le> size_table ! ?r" by simp
      with size_table_bounds [OF \<open>?r < 56\<close>] large show False by simp
    qed
    with v large show ?thesis by (simp add: get_index_large)
  qed
qed

text \<open>
  the binary search of the second version and the table lookup of the third agree on every
  size, those above the largest class included.
\<close>

theorem v2_get_index_eq: "v2_get_index bytes = get_index bytes"
  by (rule v2_search_index)

section \<open>The page cache\<close>

definition v2_page :: nat where
  "v2_page = 4096"

record v2_pages =
  span_map :: "(nat, nat) omap"
  span_lists :: "(nat, nat list) omap"
  system_maps :: "(nat \<times> nat) list"

definition v2_pages_new :: v2_pages where
  "v2_pages_new = \<lparr>span_map = [], span_lists = [], system_maps = []\<rparr>"

definition pages_of :: "v2_pages \<Rightarrow> nat \<Rightarrow> nat" where
  "pages_of pc a = (case omap_get (span_map pc) a of None \<Rightarrow> 0 | Some n \<Rightarrow> n)"

definition list_of :: "v2_pages \<Rightarrow> nat \<Rightarrow> nat list" where
  "list_of pc n = (case omap_get (span_lists pc) n of None \<Rightarrow> [] | Some l \<Rightarrow> l)"

definition put_list :: "nat \<Rightarrow> nat list \<Rightarrow> v2_pages \<Rightarrow> v2_pages" where
  "put_list n l pc =
     pc\<lparr>span_lists := (if l = [] then omap_erase n (span_lists pc) else omap_put n l (span_lists pc))\<rparr>"

definition v2_system_alloc :: "nat option \<Rightarrow> nat \<Rightarrow> v2_pages \<Rightarrow> nat option \<times> v2_pages" where
  "v2_system_alloc memory n pc =
     (case memory of
        None \<Rightarrow> (None, pc)
      | Some p \<Rightarrow> (Some p, pc\<lparr>system_maps := system_maps pc @ [(p, wmul n v2_page)]\<rparr>))"

definition v2_allocate_span :: "nat option \<Rightarrow> nat \<Rightarrow> v2_pages \<Rightarrow> nat option \<times> v2_pages" where
  "v2_allocate_span memory n pc =
     (case omap_lower_bound n (span_lists pc) of
        Some (m, l) \<Rightarrow>
          (let a = hd l; k = pages_of pc a; pc1 = put_list m (tl l) pc in
           if k > n
           then (let b = a + n * v2_page; r = k - n; pc2 = put_list r (b # list_of pc1 r) pc1 in
                 (Some a, pc2\<lparr>span_map := omap_put a n (omap_put b r (span_map pc2))\<rparr>))
           else (Some a, pc1\<lparr>span_map := omap_put a k (span_map pc1)\<rparr>))
      | None \<Rightarrow>
          (case v2_system_alloc memory n pc of
             (None, pc1) \<Rightarrow> (None, pc1)
           | (Some p, pc1) \<Rightarrow> (Some p, pc1\<lparr>span_map := omap_put p n (span_map pc1)\<rparr>)))"

text \<open>\<open>removeFromFreeList\<close>: the span is looked for in the list of its size.\<close>

definition v2_remove :: "nat \<Rightarrow> v2_pages \<Rightarrow> bool \<times> v2_pages" where
  "v2_remove a pc =
     (case omap_get (span_lists pc) (pages_of pc a) of
        None \<Rightarrow> (False, pc)
      | Some l \<Rightarrow>
          if a \<in> set l then (True, put_list (pages_of pc a) (remove1 a l) pc) else (False, pc))"

text \<open>The entry of a map before a key.\<close>

fun omap_before :: "'k :: linorder \<Rightarrow> ('k, 'v) omap \<Rightarrow> ('k \<times> 'v) option" where
  "omap_before k [] = None"
| "omap_before k (x # m) =
     (if k \<le> fst x then None else case omap_before k m of None \<Rightarrow> Some x | Some y \<Rightarrow> Some y)"

definition v2_merge_next :: "nat \<Rightarrow> v2_pages \<Rightarrow> v2_pages" where
  "v2_merge_next a pc =
     (let b = a + pages_of pc a * v2_page in
      case omap_get (span_map pc) b of
        None \<Rightarrow> pc
      | Some k \<Rightarrow>
          (case v2_remove b pc of
             (True, pc1) \<Rightarrow> pc1\<lparr>span_map := omap_erase b (omap_put a (pages_of pc a + k) (span_map pc1))\<rparr>
           | (False, pc1) \<Rightarrow> pc1))"

definition v2_merge_prev :: "nat \<Rightarrow> v2_pages \<Rightarrow> nat \<times> v2_pages" where
  "v2_merge_prev a pc =
     (case omap_before a (span_map pc) of
        None \<Rightarrow> (a, pc)
      | Some (b, k) \<Rightarrow>
          if b + k * v2_page = a
          then (case v2_remove b pc of
                  (True, pc1) \<Rightarrow>
                    (b, pc1\<lparr>span_map := omap_erase a (omap_put b (k + pages_of pc a) (span_map pc1))\<rparr>)
                | (False, pc1) \<Rightarrow> (a, pc1))
          else (a, pc))"

definition v2_push :: "nat \<Rightarrow> v2_pages \<Rightarrow> v2_pages" where
  "v2_push a pc = put_list (pages_of pc a) (a # list_of pc (pages_of pc a)) pc"

definition v2_deallocate_span :: "nat \<Rightarrow> nat \<Rightarrow> v2_pages \<Rightarrow> v2_pages" where
  "v2_deallocate_span a n pc =
     (case omap_get (span_map pc) a of
        None \<Rightarrow> pc
      | Some _ \<Rightarrow>
          (case v2_merge_prev a (v2_merge_next a (pc\<lparr>span_map := omap_put a n (span_map pc)\<rparr>)) of
             (b, pc1) \<Rightarrow> v2_push b pc1))"

text \<open>The destructor: the spans are deleted and the regions go back to the system.\<close>

definition v2_pages_destroy :: "v2_pages \<Rightarrow> (nat \<times> nat) list \<times> v2_pages" where
  "v2_pages_destroy pc = (system_maps pc, v2_pages_new)"

section \<open>Spans as sets of addresses\<close>

definition span_area :: "(nat \<Rightarrow> nat option) \<Rightarrow> nat set" where
  "span_area S = (\<Union>a \<in> dom S. {a..<a + the (S a) * v2_page})"

definition map_area :: "(nat \<times> nat) list \<Rightarrow> nat set" where
  "map_area ms = (\<Union>(a, k) \<in> set ms. {a..<a + k})"

text \<open>Spans are not empty, share no byte and cover exactly the area \<open>A\<close>.\<close>

definition v2_spans_ok :: "(nat \<Rightarrow> nat option) \<Rightarrow> nat set \<Rightarrow> bool" where
  "v2_spans_ok S A \<longleftrightarrow>
     (\<forall>a n. S a = Some n \<longrightarrow> 0 < n \<and> 0 < a)
     \<and> (\<forall>a n b m. S a = Some n \<longrightarrow> S b = Some m \<longrightarrow> a \<noteq> b \<longrightarrow>
          a + n * v2_page \<le> b \<or> b + m * v2_page \<le> a)
     \<and> span_area S = A"

lemma v2_page_pos [simp]: "0 < v2_page" "v2_page \<noteq> 0"
  by (simp_all add: v2_page_def)

lemma span_area_upd: "span_area (S(a \<mapsto> n)) = {a..<a + n * v2_page} \<union> span_area (S(a := None))"
  by (auto simp: span_area_def split: if_splits)

lemma span_area_split: "S a = Some n \<Longrightarrow> span_area S = {a..<a + n * v2_page} \<union> span_area (S(a := None))"
  by (metis fun_upd_triv span_area_upd)

lemma v2_spans_okD:
  assumes "v2_spans_ok S A" "S a = Some n"
  shows "0 < n" "0 < a" "S b = Some m \<Longrightarrow> a \<noteq> b \<Longrightarrow> a + n * v2_page \<le> b \<or> b + m * v2_page \<le> a"
  using assms by (simp_all add: v2_spans_ok_def)

lemma v2_spans_okI:
  assumes "\<And>a n. S a = Some n \<Longrightarrow> 0 < n \<and> 0 < a"
    and "\<And>a n b m. S a = Some n \<Longrightarrow> S b = Some m \<Longrightarrow> a \<noteq> b \<Longrightarrow> a + n * v2_page \<le> b \<or> b + m * v2_page \<le> a"
    and "span_area S = A"
  shows "v2_spans_ok S A"
  using assms unfolding v2_spans_ok_def by blast

lemma spans_split:
  assumes ok: "v2_spans_ok S A" and a: "S a = Some (n + r)" and pos: "0 < n" "0 < r"
  shows "S (a + n * v2_page) = None \<and> v2_spans_ok (S(a \<mapsto> n, a + n * v2_page \<mapsto> r)) A"
proof
  let ?b = "a + n * v2_page" and ?e = "a + (n + r) * v2_page"
  have len: "?e = ?b + r * v2_page" by (simp add: add_mult_distrib)
  have lt: "a < ?b" "?b < ?e" using pos by (simp_all add: len)
  show b: "S ?b = None"
  proof (rule ccontr)
    assume "S ?b \<noteq> None"
    then obtain m where "S ?b = Some m" by auto
    with v2_spans_okD(1) [OF ok this] v2_spans_okD(3) [OF ok a this] lt show False by simp
  qed
  have apart: "c + m * v2_page \<le> a \<or> ?e \<le> c" if "S c = Some m" "c \<noteq> a" for c m
    using v2_spans_okD(3) [OF ok a that(1)] that(2) by auto
  have "S(a \<mapsto> n, ?b := None) = (S(?b := None))(a \<mapsto> n)" using lt by (simp add: fun_upd_twist)
  also have "S(?b := None) = S" using b by (simp add: fun_upd_idem)
  finally have eq: "S(a \<mapsto> n, ?b := None) = S(a \<mapsto> n)" .
  have "span_area (S(a \<mapsto> n, ?b \<mapsto> r)) = {?b..<?e} \<union> ({a..<?b} \<union> span_area (S(a := None)))"
    by (simp only: span_area_upd eq len)
  also have "\<dots> = {a..<?e} \<union> span_area (S(a := None))" using lt by (auto simp: add_mult_distrib)
  also have "\<dots> = span_area S" using span_area_split [of S, OF a] by simp
  finally have area: "span_area (S(a \<mapsto> n, ?b \<mapsto> r)) = A" using ok by (simp only: v2_spans_ok_def)
  have "0 < a" using v2_spans_okD(2) [OF ok a] .
  with pos lt have "0 < m \<and> 0 < c" if "(S(a \<mapsto> n, ?b \<mapsto> r)) c = Some m" for c m
    using that v2_spans_okD(1,2) [OF ok, of c m] by (auto split: if_splits)
  moreover have "c + m * v2_page \<le> d \<or> d + l * v2_page \<le> c"
    if "(S(a \<mapsto> n, ?b \<mapsto> r)) c = Some m" "(S(a \<mapsto> n, ?b \<mapsto> r)) d = Some l" "c \<noteq> d" for c m d l
    using that apart [of c m] apart [of d l] lt len v2_spans_okD(3) [OF ok, of c m d l] by (auto split: if_splits)
  ultimately show "v2_spans_ok (S(a \<mapsto> n, ?b \<mapsto> r)) A" using area by (intro v2_spans_okI) blast+
qed

lemma spans_merge:
  assumes ok: "v2_spans_ok S A" and a: "S a = Some n" and b: "S (a + n * v2_page) = Some k"
  shows "v2_spans_ok (S(a \<mapsto> n + k, a + n * v2_page := None)) A"
proof -
  let ?b = "a + n * v2_page" and ?e = "a + (n + k) * v2_page"
  have len: "?e = ?b + k * v2_page" by (simp add: add_mult_distrib)
  have pos: "0 < n" "0 < a" "0 < k" using v2_spans_okD(1,2) [OF ok a] v2_spans_okD(1) [OF ok b] by simp_all
  then have lt: "a < ?b" "?b < ?e" by (simp_all add: len)
  have apart: "c + m * v2_page \<le> a \<or> ?e \<le> c" if "S c = Some m" "c \<noteq> a" "c \<noteq> ?b" for c m
    using v2_spans_okD(3) [OF ok a that(1)] v2_spans_okD(3) [OF ok b that(1)] that(2,3) v2_spans_okD(1) [OF ok that(1)] lt len
    by auto
  have "span_area (S(a \<mapsto> n + k, ?b := None)) = {a..<?e} \<union> span_area (S(?b := None, a := None))"
    using lt by (subst fun_upd_twist) (simp_all add: span_area_upd)
  also have "{a..<?e} = {a..<?b} \<union> {?b..<?e}" using lt by (auto simp: add_mult_distrib)
  also have "{a..<?b} \<union> {?b..<?e} \<union> span_area (S(?b := None, a := None)) = span_area S"
    using span_area_split [of S, OF a] span_area_split [of "S(a := None)" ?b k] b lt
    by (auto simp: len fun_upd_twist)
  finally have area: "span_area (S(a \<mapsto> n + k, ?b := None)) = A" using ok by (simp only: v2_spans_ok_def)
  have "0 < m \<and> 0 < c" if "(S(a \<mapsto> n + k, ?b := None)) c = Some m" for c m
    using that pos v2_spans_okD(1,2) [OF ok, of c m] by (auto split: if_splits)
  moreover have "c + m * v2_page \<le> d \<or> d + l * v2_page \<le> c"
    if "(S(a \<mapsto> n + k, ?b := None)) c = Some m" "(S(a \<mapsto> n + k, ?b := None)) d = Some l" "c \<noteq> d" for c m d l
    using that apart [of c m] apart [of d l] v2_spans_okD(3) [OF ok, of c m d l] by (auto split: if_splits)
  ultimately show ?thesis using area by (intro v2_spans_okI) blast+
qed

lemma spans_new:
  assumes ok: "v2_spans_ok S A" and p: "0 < p" "0 < n" "{p..<p + n * v2_page} \<inter> A = {}"
  shows "S p = None \<and> v2_spans_ok (S(p \<mapsto> n)) ({p..<p + n * v2_page} \<union> A)"
proof
  have A: "span_area S = A" using ok by (simp add: v2_spans_ok_def)
  have apart: "c + m * v2_page \<le> p \<or> p + n * v2_page \<le> c" if "S c = Some m" for c m
  proof (rule ccontr)
    assume "\<not> (c + m * v2_page \<le> p \<or> p + n * v2_page \<le> c)"
    then have "max c p \<in> {p..<p + n * v2_page}" "max c p \<in> {c..<c + m * v2_page}"
      using p v2_spans_okD(1) [OF ok that] by auto
    moreover have "{c..<c + m * v2_page} \<subseteq> A" using that by (force simp: A [symmetric] span_area_def)
    ultimately show False using p(3) by blast
  qed
  show S: "S p = None"
  proof (rule ccontr)
    assume "S p \<noteq> None"
    then obtain m where "S p = Some m" by auto
    with apart [OF this] v2_spans_okD(1) [OF ok this] p(2) show False by simp
  qed
  then show "v2_spans_ok (S(p \<mapsto> n)) ({p..<p + n * v2_page} \<union> A)"
    using ok apart p by (auto simp: v2_spans_ok_def span_area_upd fun_upd_idem)
qed

section \<open>The invariant\<close>

text \<open>
  \<open>F\<close> are the spans that are in use, that is, on no list: each other span is once on the list of its
  size, and no two of those lie next to each other.
\<close>

definition v2_inv :: "nat set \<Rightarrow> v2_pages \<Rightarrow> bool" where
  "v2_inv F pc \<longleftrightarrow>
     omap_ok (span_map pc) \<and> omap_ok (span_lists pc)
     \<and> (\<forall>n l. omap_get (span_lists pc) n = Some l \<longrightarrow> l \<noteq> [])
     \<and> v2_spans_ok (omap_get (span_map pc)) (map_area (system_maps pc))
     \<and> (\<forall>n. distinct (list_of pc n) \<and>
          set (list_of pc n) = {a. omap_get (span_map pc) a = Some n \<and> a \<notin> F})
     \<and> (\<forall>a n m. omap_get (span_map pc) a = Some n \<longrightarrow> a \<notin> F \<longrightarrow>
          omap_get (span_map pc) (a + n * v2_page) = Some m \<longrightarrow> a + n * v2_page \<in> F)"

lemma v2_inv_new: "v2_inv {} v2_pages_new"
  by (simp add: v2_inv_def v2_pages_new_def v2_spans_ok_def span_area_def map_area_def list_of_def)

lemma v2_invD:
  assumes "v2_inv F pc"
  shows "omap_ok (span_map pc)" "omap_ok (span_lists pc)"
    "v2_spans_ok (omap_get (span_map pc)) (map_area (system_maps pc))"
    "distinct (list_of pc n)"
    "a \<in> set (list_of pc n) \<longleftrightarrow> omap_get (span_map pc) a = Some n \<and> a \<notin> F"
    "omap_get (span_lists pc) n = Some l \<Longrightarrow> l \<noteq> []"
    "omap_get (span_map pc) a = Some n \<Longrightarrow> a \<notin> F \<Longrightarrow>
       omap_get (span_map pc) (a + n * v2_page) = Some m \<Longrightarrow> a + n * v2_page \<in> F"
  using assms unfolding v2_inv_def by blast+

lemma v2_invI:
  assumes "omap_ok (span_map pc)" "omap_ok (span_lists pc)"
    and "\<And>n l. omap_get (span_lists pc) n = Some l \<Longrightarrow> l \<noteq> []"
    and "v2_spans_ok (omap_get (span_map pc)) (map_area (system_maps pc))"
    and "\<And>n. distinct (list_of pc n)"
    and "\<And>n a. a \<in> set (list_of pc n) \<longleftrightarrow> omap_get (span_map pc) a = Some n \<and> a \<notin> F"
    and "\<And>a n m. omap_get (span_map pc) a = Some n \<Longrightarrow> a \<notin> F \<Longrightarrow>
       omap_get (span_map pc) (a + n * v2_page) = Some m \<Longrightarrow> a + n * v2_page \<in> F"
  shows "v2_inv F pc"
  using assms unfolding v2_inv_def by blast

lemma pages_of_Some: "omap_get (span_map pc) a = Some n \<Longrightarrow> pages_of pc a = n"
  by (simp add: pages_of_def)

lemma put_list_fields [simp]:
  "span_map (put_list n l pc) = span_map pc" "system_maps (put_list n l pc) = system_maps pc"
  "pages_of (put_list n l pc) a = pages_of pc a"
  "span_lists (span_map_update f pc) = span_lists pc" "system_maps (span_map_update f pc) = system_maps pc"
  "list_of (span_map_update f pc) n = list_of pc n"
  by (simp_all add: put_list_def pages_of_def list_of_def)

lemma put_list_ok:
  assumes "omap_ok (span_lists pc)" "\<And>n l. omap_get (span_lists pc) n = Some l \<Longrightarrow> l \<noteq> []"
  shows "omap_ok (span_lists (put_list n l pc))"
    "omap_get (span_lists (put_list n l pc)) m = Some k \<Longrightarrow> k \<noteq> []"
    "list_of (put_list n l pc) m = (if m = n then l else list_of pc m)"
  using assms
  by (auto simp: put_list_def list_of_def omap_put_ok omap_erase_ok omap_get_put omap_get_erase
      split: if_splits)

text \<open>Taking a span off its list.\<close>

lemma v2_remove_used:
  assumes inv: "v2_inv F pc" and b: "omap_get (span_map pc) b = Some k" "b \<in> F"
  shows "v2_remove b pc = (False, pc)"
  using v2_invD(5) [OF inv, of b k] b
  by (auto simp: v2_remove_def pages_of_Some list_of_def split: option.splits)

lemma v2_remove_free:
  assumes inv: "v2_inv F pc" and b: "omap_get (span_map pc) b = Some k" "b \<notin> F"
  shows "v2_remove b pc = (True, put_list k (remove1 b (list_of pc k)) pc)"
    "v2_inv (insert b F) (put_list k (remove1 b (list_of pc k)) pc)"
proof -
  note D = v2_invD [OF inv]
  have "b \<in> set (list_of pc k)" using D(5) b by simp
  moreover from this obtain l where "omap_get (span_lists pc) k = Some l"
    by (cases "omap_get (span_lists pc) k") (auto simp: list_of_def)
  ultimately show "v2_remove b pc = (True, put_list k (remove1 b (list_of pc k)) pc)"
    using b by (simp add: v2_remove_def pages_of_Some list_of_def)
  note P = put_list_ok [OF D(2,6)]
  show "v2_inv (insert b F) (put_list k (remove1 b (list_of pc k)) pc)"
    using D(1,3,4,5) D(7) P b by (intro v2_invI) auto
qed

text \<open>Merging with the span that follows, when that one is free.\<close>

lemma v2_merge_next_ok:
  assumes inv: "v2_inv F pc" and a: "omap_get (span_map pc) a = Some n" "a \<in> F"
    and r: "pc' = v2_merge_next a pc"
  shows "v2_inv F pc'" "system_maps pc' = system_maps pc"
    "\<exists>n'. omap_get (span_map pc') a = Some n' \<and>
       (\<forall>m. omap_get (span_map pc') (a + n' * v2_page) = Some m \<longrightarrow> a + n' * v2_page \<in> F)"
    "c \<in> F \<Longrightarrow> c \<noteq> a \<Longrightarrow> omap_get (span_map pc') c = omap_get (span_map pc) c"
proof -
  note D = v2_invD [OF inv]
  let ?S = "omap_get (span_map pc)" and ?b = "a + n * v2_page"
  have pos: "0 < n" using v2_spans_okD(1) [OF D(3) a(1)] .
  have "v2_inv F pc' \<and> system_maps pc' = system_maps pc
    \<and> (\<exists>n'. omap_get (span_map pc') a = Some n' \<and>
        (\<forall>m. omap_get (span_map pc') (a + n' * v2_page) = Some m \<longrightarrow> a + n' * v2_page \<in> F))
    \<and> (\<forall>c \<in> F. c \<noteq> a \<longrightarrow> omap_get (span_map pc') c = ?S c)"
  proof (cases "?S ?b")
    case None
    then have "pc' = pc" using a by (simp add: r v2_merge_next_def pages_of_Some)
    with inv a None show ?thesis by auto
  next
    case (Some k)
    show ?thesis
    proof (cases "?b \<in> F")
      case True
      then have "pc' = pc"
        using a v2_remove_used [OF inv Some] Some by (simp add: r v2_merge_next_def pages_of_Some)
      with inv a True show ?thesis by auto
    next
      case False
      define pc1 where "pc1 = put_list k (remove1 ?b (list_of pc k)) pc"
      have "v2_remove ?b pc = (True, pc1)" "v2_inv (insert ?b F) pc1"
        using v2_remove_free [OF inv Some False] by (simp_all add: pc1_def)
      note R = this and E = v2_invD [OF this(2)]
      have f: "span_map pc1 = span_map pc" "system_maps pc1 = system_maps pc" by (simp_all add: pc1_def)
      have pc': "pc' = pc1\<lparr>span_map := omap_erase ?b (omap_put a (n + k) (span_map pc))\<rparr>"
        using a Some R f by (simp add: r v2_merge_next_def pages_of_Some pc1_def Let_def)
      then have S': "omap_get (span_map pc') = ?S(a \<mapsto> n + k, ?b := None)"
        using D(1) by (simp add: omap_get_erase omap_get_put omap_put_ok)
      have m': "system_maps pc' = system_maps pc" by (simp add: pc' f)
      have l': "list_of pc' m = list_of pc1 m" for m by (simp add: pc')
      have end_free: "?b + k * v2_page \<in> F" if "?S (?b + k * v2_page) = Some m" for m
        using D(7) [OF Some False that] .
      have "v2_inv F pc'"
      proof (rule v2_invI)
        show "omap_ok (span_map pc')" using D(1) by (simp add: pc' omap_erase_ok omap_put_ok)
        show "v2_spans_ok (omap_get (span_map pc')) (map_area (system_maps pc'))"
          unfolding S' m' using spans_merge [OF D(3) a(1) Some] .
      next
        fix m c show "c \<in> set (list_of pc' m) \<longleftrightarrow> omap_get (span_map pc') c = Some m \<and> c \<notin> F"
          unfolding S' l' using E(5) a False by (auto simp: f)
      next
        fix c m l
        assume "omap_get (span_map pc') c = Some m" "c \<notin> F" "omap_get (span_map pc') (c + m * v2_page) = Some l"
        then show "c + m * v2_page \<in> F"
          using D(7) [of c m] a by (auto simp: S' split: if_splits)
      qed (use E in \<open>simp_all add: pc'\<close>)
      moreover have "omap_get (span_map pc') a = Some (n + k)" using pos by (simp add: S')
      moreover have "a + (n + k) * v2_page \<in> F" if "omap_get (span_map pc') (a + (n + k) * v2_page) = Some m" for m
        using that end_free [of m] pos by (auto simp: S' add_mult_distrib add.assoc split: if_splits)
      moreover have "omap_get (span_map pc') c = ?S c" if "c \<in> F" "c \<noteq> a" for c
        using that False by (auto simp: S')
      ultimately show ?thesis using m' by blast
    qed
  qed
  then show "v2_inv F pc'" "system_maps pc' = system_maps pc"
    "\<exists>n'. omap_get (span_map pc') a = Some n' \<and>
       (\<forall>m. omap_get (span_map pc') (a + n' * v2_page) = Some m \<longrightarrow> a + n' * v2_page \<in> F)"
    "c \<in> F \<Longrightarrow> c \<noteq> a \<Longrightarrow> omap_get (span_map pc') c = omap_get (span_map pc) c"
    by blast+
qed

text \<open>Merging with the span before, when that one is free.\<close>

lemma omap_before_Some: "omap_before k m = Some (b, v) \<Longrightarrow> (b, v) \<in> set m \<and> b < k"
  by (induction k m rule: omap_before.induct) (auto split: if_splits option.splits)

lemma omap_before_greatest:
  "omap_ok m \<Longrightarrow> c \<in> fst ` set m \<Longrightarrow> c < k \<Longrightarrow> \<exists>b v. omap_before k m = Some (b, v) \<and> c \<le> b"
proof (induction k m rule: omap_before.induct)
  case (2 k x m)
  then show ?case
  proof (cases "c \<in> fst ` set m")
    case True
    have lt: "\<not> k \<le> fst x" using 2(2,4) True by (cases x) force
    with 2 True obtain b v where "omap_before k m = Some (b, v)" "c \<le> b" by (cases x) auto
    with lt show ?thesis by auto
  next
    case False
    with 2 have "c = fst x" by auto
    moreover have "fst x < b" if "omap_before k m = Some (b, v)" for b v
      using omap_before_Some [OF that] 2(2) by (cases x) force
    ultimately show ?thesis using 2 by (cases x) (auto split: option.splits intro: less_imp_le)
  qed
qed simp

lemma omap_before_adjacent:
  assumes ok: "omap_ok (span_map pc)" "v2_spans_ok (omap_get (span_map pc)) A"
    and c: "omap_get (span_map pc) c = Some m" "c + m * v2_page = a" and a: "omap_get (span_map pc) a = Some n"
  shows "omap_before a (span_map pc) = Some (c, m)"
proof -
  have "0 < m" using v2_spans_okD(1) [OF ok(2) c(1)] .
  with c(2) have "c < a" by auto
  moreover have "c \<in> fst ` set (span_map pc)" using omap_get_in_set [OF c(1)] by force
  ultimately obtain b v where b: "omap_before a (span_map pc) = Some (b, v)" "c \<le> b"
    using omap_before_greatest [OF ok(1), of c a] by blast
  note B = omap_before_Some [OF b(1)]
  then have S: "omap_get (span_map pc) b = Some v"
    using ok(1) by (auto simp: omap_ok_def strict_sorted_iff intro!: map_of_is_SomeI)
  have "b = c"
  proof (rule ccontr)
    assume "b \<noteq> c"
    then show False using v2_spans_okD(3) [OF ok(2) c(1) S] v2_spans_okD(1) [OF ok(2) S] b(2) B c(2) by auto
  qed
  with S b c show ?thesis by simp
qed

lemma v2_merge_prev_ok:
  assumes inv: "v2_inv F pc" and a: "omap_get (span_map pc) a = Some n" "a \<in> F"
    and nu: "\<forall>m. omap_get (span_map pc) (a + n * v2_page) = Some m \<longrightarrow> a + n * v2_page \<in> F"
    and r: "(b, pc') = v2_merge_prev a pc"
  shows "v2_inv (insert b (F - {a})) pc'" "system_maps pc' = system_maps pc" "b = a \<or> b \<notin> F"
    "\<exists>n'. omap_get (span_map pc') b = Some n' \<and>
       (\<forall>m. omap_get (span_map pc') (b + n' * v2_page) = Some m \<longrightarrow> b + n' * v2_page \<in> F - {a})"
    "\<forall>c m. omap_get (span_map pc') c = Some m \<longrightarrow> c + m * v2_page = b \<longrightarrow> c \<in> F - {a}"
    "\<forall>c \<in> F. c \<noteq> a \<longrightarrow> omap_get (span_map pc') c = omap_get (span_map pc) c"
proof -
  note D = v2_invD [OF inv] and next_used = nu [rule_format]
  let ?S = "omap_get (span_map pc)"
  have pos: "0 < n" using v2_spans_okD(1) [OF D(3) a(1)] .
  let ?goal = "v2_inv (insert b (F - {a})) pc' \<and> system_maps pc' = system_maps pc \<and> (b = a \<or> b \<notin> F)
    \<and> (\<exists>n'. omap_get (span_map pc') b = Some n' \<and>
        (\<forall>m. omap_get (span_map pc') (b + n' * v2_page) = Some m \<longrightarrow> b + n' * v2_page \<in> F - {a}))
    \<and> (\<forall>c m. omap_get (span_map pc') c = Some m \<longrightarrow> c + m * v2_page = b \<longrightarrow> c \<in> F - {a})
    \<and> (\<forall>c \<in> F. c \<noteq> a \<longrightarrow> omap_get (span_map pc') c = ?S c)"
  have ?goal
  proof (cases "\<exists>c k. ?S c = Some k \<and> c + k * v2_page = a \<and> c \<notin> F")
    case True
    then obtain c k where c: "?S c = Some k" "c + k * v2_page = a" "c \<notin> F" by blast
    have kpos: "0 < k" using v2_spans_okD(1) [OF D(3) c(1)] .
    have ca: "c \<noteq> a" using c(3) a(2) by blast
    define pc1 where "pc1 = put_list k (remove1 c (list_of pc k)) pc"
    have R: "v2_remove c pc = (True, pc1)" "v2_inv (insert c F) pc1"
      using v2_remove_free [OF inv c(1,3)] by (simp_all add: pc1_def)
    note E = v2_invD [OF R(2)]
    have f: "span_map pc1 = span_map pc" "system_maps pc1 = system_maps pc" by (simp_all add: pc1_def)
    have "v2_merge_prev a pc
      = (c, pc1\<lparr>span_map := omap_erase a (omap_put c (k + n) (span_map pc))\<rparr>)"
      using a c R f by (simp add: v2_merge_prev_def pages_of_Some omap_before_adjacent [OF D(1,3) c(1,2) a(1)])
    then have b: "b = c" and pc': "pc' = pc1\<lparr>span_map := omap_erase a (omap_put c (k + n) (span_map pc))\<rparr>"
      using r by simp_all
    have S': "omap_get (span_map pc') = ?S(c \<mapsto> k + n, a := None)"
      using D(1) by (simp add: pc' omap_get_erase omap_get_put omap_put_ok)
    have m': "system_maps pc' = system_maps pc" by (simp add: pc' f)
    have l': "list_of pc' m = list_of pc1 m" for m by (simp add: pc')
    have "v2_inv (insert c (F - {a})) pc'"
    proof (rule v2_invI)
      show "omap_ok (span_map pc')" using D(1) by (simp add: pc' omap_erase_ok omap_put_ok)
      show "v2_spans_ok (omap_get (span_map pc')) (map_area (system_maps pc'))"
        unfolding S' m' using spans_merge [OF D(3) c(1)] a(1) c(2) by simp
    next
      fix m d show "d \<in> set (list_of pc' m) \<longleftrightarrow> omap_get (span_map pc') d = Some m \<and> d \<notin> insert c (F - {a})"
        unfolding S' l' using E(5) a by (auto simp: f)
    next
      fix d m l
      assume *: "omap_get (span_map pc') d = Some m" "d \<notin> insert c (F - {a})"
        "omap_get (span_map pc') (d + m * v2_page) = Some l"
      then have "?S d = Some m" "d \<notin> F" by (auto simp: S' split: if_splits)
      with D(7) [of d m] * show "d + m * v2_page \<in> insert c (F - {a})"
        using c by (auto simp: S' split: if_splits)
    qed (use E in \<open>simp_all add: pc'\<close>)
    moreover have "d \<in> F - {a}" if "omap_get (span_map pc') d = Some m" "d + m * v2_page = c" for d m
    proof (rule ccontr)
      assume "d \<notin> F - {a}"
      with that ca have "?S d = Some m" "d \<notin> F" using pos kpos by (auto simp: S' split: if_splits)
      with D(7) [of d m k] that c show False by simp
    qed
    moreover have "c + (k + n) * v2_page \<in> F - {a}"
      if "omap_get (span_map pc') (c + (k + n) * v2_page) = Some m" for m
      using that next_used [of m] c(2) pos by (auto simp: S' add_mult_distrib add.assoc split: if_splits)
    moreover have "omap_get (span_map pc') c = Some (k + n)" using ca by (simp add: S')
    moreover have "omap_get (span_map pc') d = ?S d" if "d \<in> F" "d \<noteq> a" for d
      using that c(3) by (auto simp: S')
    ultimately show ?thesis unfolding b using c(3) m' by blast
  next
    case False
    have "v2_merge_prev a pc = (a, pc)"
    proof (cases "omap_before a (span_map pc)")
      case (Some x)
      obtain c k where x: "x = (c, k)" by fastforce
      note B = omap_before_Some [of a "span_map pc" c k]
      have S: "?S c = Some k"
        using D(1) B Some x by (auto simp: omap_ok_def strict_sorted_iff intro!: map_of_is_SomeI)
      then have "c \<in> F" if "c + k * v2_page = a" using False that by blast
      with Some x v2_remove_used [OF inv S] show ?thesis by (simp add: v2_merge_prev_def)
    qed (simp add: v2_merge_prev_def)
    with r have e: "b = a" "pc' = pc" by simp_all
    have "insert a (F - {a}) = F" using a by blast
    moreover have "a + n * v2_page \<noteq> a" "c + m * v2_page = a \<Longrightarrow> ?S c = Some m \<Longrightarrow> c \<noteq> a" for c m
      using pos v2_spans_okD(1) [OF D(3), of c m] by auto
    ultimately show ?thesis using inv a next_used False unfolding e by auto
  qed
  then show "v2_inv (insert b (F - {a})) pc'" "system_maps pc' = system_maps pc" "b = a \<or> b \<notin> F"
    "\<exists>n'. omap_get (span_map pc') b = Some n' \<and>
       (\<forall>m. omap_get (span_map pc') (b + n' * v2_page) = Some m \<longrightarrow> b + n' * v2_page \<in> F - {a})"
    "\<forall>c m. omap_get (span_map pc') c = Some m \<longrightarrow> c + m * v2_page = b \<longrightarrow> c \<in> F - {a}"
    "\<forall>c \<in> F. c \<noteq> a \<longrightarrow> omap_get (span_map pc') c = omap_get (span_map pc) c"
    by blast+
qed

text \<open>A span whose neighbours are in use goes on the list of its size.\<close>

lemma v2_push_ok:
  assumes inv: "v2_inv (insert a F) pc" and a: "omap_get (span_map pc) a = Some n" "a \<notin> F"
    and nu: "\<forall>m. omap_get (span_map pc) (a + n * v2_page) = Some m \<longrightarrow> a + n * v2_page \<in> F"
    and pu: "\<forall>c m. omap_get (span_map pc) c = Some m \<longrightarrow> c + m * v2_page = a \<longrightarrow> c \<in> F"
  shows "v2_inv F (v2_push a pc)" "system_maps (v2_push a pc) = system_maps pc"
    "span_map (v2_push a pc) = span_map pc"
proof -
  note D = v2_invD [OF inv] and next_used = nu [rule_format] and prev_used = pu [rule_format]
  note P = put_list_ok [OF D(2,6)]
  have f: "v2_push a pc = put_list n (a # list_of pc n) pc"
    using a by (simp add: v2_push_def pages_of_Some)
  show "v2_inv F (v2_push a pc)"
  proof (rule v2_invI)
    fix m show "distinct (list_of (v2_push a pc) m)" using D(4,5) by (simp add: f P)
  next
    fix m c show "c \<in> set (list_of (v2_push a pc) m) \<longleftrightarrow> omap_get (span_map (v2_push a pc)) c = Some m \<and> c \<notin> F"
      using D(5) a by (auto simp: f P)
  next
    fix c m l
    assume *: "omap_get (span_map (v2_push a pc)) c = Some m" "c \<notin> F"
      "omap_get (span_map (v2_push a pc)) (c + m * v2_page) = Some l"
    show "c + m * v2_page \<in> F"
    proof (cases "c = a")
      case True
      with * a next_used show ?thesis by (simp add: f)
    next
      case False
      with * D(7) [of c m l] prev_used [of c m] show ?thesis by (auto simp: f)
    qed
  qed (use D P in \<open>simp_all add: f\<close>)
qed (use a in \<open>simp_all add: v2_push_def pages_of_Some\<close>)

lemma v2_deallocate_ok:
  assumes inv: "v2_inv F pc" and a: "omap_get (span_map pc) a = Some n" "a \<in> F"
    and r: "pc' = v2_deallocate_span a n pc"
  shows "v2_inv (F - {a}) pc'" "system_maps pc' = system_maps pc"
    "\<forall>c \<in> F - {a}. omap_get (span_map pc') c = omap_get (span_map pc) c"
proof -
  note D = v2_invD [OF inv]
  define pc0 where "pc0 = pc\<lparr>span_map := omap_put a n (span_map pc)\<rparr>"
  have S0: "omap_get (span_map pc0) = omap_get (span_map pc)"
    using a by (simp add: pc0_def omap_get_put fun_upd_idem)
  have "system_maps pc0 = system_maps pc" "list_of pc0 m = list_of pc m" "span_lists pc0 = span_lists pc" for m
    by (simp_all add: pc0_def)
  note f0 = this
  have inv0: "v2_inv F pc0"
    by (rule v2_invI) (use D in \<open>simp_all add: S0 f0\<close>, simp add: pc0_def omap_put_ok)
  define pc1 where "pc1 = v2_merge_next a pc0"
  note N = v2_merge_next_ok [OF inv0 _ a(2) pc1_def, of n, unfolded S0, OF a(1)]
  obtain k where k: "omap_get (span_map pc1) a = Some k"
    "\<forall>m. omap_get (span_map pc1) (a + k * v2_page) = Some m \<longrightarrow> a + k * v2_page \<in> F"
    using N(3) by blast
  obtain b pc2 where b: "(b, pc2) = v2_merge_prev a pc1" by (metis surj_pair)
  note P = v2_merge_prev_ok [OF N(1) k(1) a(2) k(2) b]
  obtain l where l: "omap_get (span_map pc2) b = Some l"
    "\<forall>m. omap_get (span_map pc2) (b + l * v2_page) = Some m \<longrightarrow> b + l * v2_page \<in> F - {a}"
    using P(4) by blast
  have "b \<notin> F - {a}" using P(3) by blast
  note Q = v2_push_ok [OF P(1) l(1) this l(2) P(5)]
  have "pc' = v2_push b pc2"
    using a b [symmetric] by (simp add: r v2_deallocate_span_def pc1_def pc0_def)
  then show "v2_inv (F - {a}) pc'" "system_maps pc' = system_maps pc"
    "\<forall>c \<in> F - {a}. omap_get (span_map pc') c = omap_get (span_map pc) c"
    using Q P(2,6) N(2,4) f0(1) by (simp_all add: S0)
qed

text \<open>An allocation cuts the head of the first list that is long enough, or maps a new region.\<close>

lemma v2_allocate_ok:
  assumes inv: "v2_inv F pc" "F \<subseteq> dom (omap_get (span_map pc))" and n: "0 < n" "n * v2_page < 2 ^ 64"
    and memory: "\<And>p. memory = Some p \<Longrightarrow> 0 < p \<and> {p..<p + n * v2_page} \<inter> map_area (system_maps pc) = {}"
    and r: "v2_allocate_span memory n pc = (Some a, pc')"
  shows "a \<notin> F" "v2_inv (insert a F) pc'" "omap_get (span_map pc') a = Some n"
    "\<forall>c \<in> F. omap_get (span_map pc') c = omap_get (span_map pc) c"
proof -
  note D = v2_invD [OF inv(1)]
  let ?S = "omap_get (span_map pc)"
  have "a \<notin> F \<and> v2_inv (insert a F) pc' \<and> omap_get (span_map pc') a = Some n
    \<and> (\<forall>c \<in> F. omap_get (span_map pc') c = ?S c)"
  proof (cases "omap_lower_bound n (span_lists pc)")
    case None
    then obtain p where p: "memory = Some p" "a = p"
      and pc': "pc' = pc\<lparr>system_maps := system_maps pc @ [(p, wmul n v2_page)], span_map := omap_put p n (span_map pc)\<rparr>"
      using r by (auto simp: v2_allocate_span_def v2_system_alloc_def split: option.splits)
    have w: "wmul n v2_page = n * v2_page" using n(2) by (simp add: wmul_exact)
    note new = spans_new [OF D(3), of p n, OF conjunct1 [OF memory [OF p(1)]] n(1) conjunct2 [OF memory [OF p(1)]]]
    have S': "omap_get (span_map pc') = ?S(p \<mapsto> n)" by (simp add: pc' omap_get_put)
    have pF: "p \<notin> F" using new inv(2) by auto
    have m': "map_area (system_maps pc') = {p..<p + n * v2_page} \<union> map_area (system_maps pc)"
      by (auto simp: pc' w map_area_def)
    have l': "list_of pc' k = list_of pc k" for k by (simp add: pc' list_of_def)
    have "v2_inv (insert p F) pc'"
    proof (rule v2_invI)
      show "omap_ok (span_map pc')" using D(1) by (simp add: pc' omap_put_ok)
      show "v2_spans_ok (omap_get (span_map pc')) (map_area (system_maps pc'))"
        unfolding S' m' using new by blast
    next
      fix k c show "c \<in> set (list_of pc' k) \<longleftrightarrow> omap_get (span_map pc') c = Some k \<and> c \<notin> insert p F"
        unfolding S' l' using D(5) new by auto
    next
      fix c k j
      assume "omap_get (span_map pc') c = Some k" "c \<notin> insert p F" "omap_get (span_map pc') (c + k * v2_page) = Some j"
      then show "c + k * v2_page \<in> insert p F" using D(7) [of c k] by (auto simp: S' split: if_splits)
    qed (use D in \<open>simp_all add: pc' list_of_def\<close>)
    moreover have "omap_get (span_map pc') c = ?S c" if "c \<in> F" for c using that pF by (auto simp: S')
    ultimately show ?thesis using p pF by (auto simp: S')
  next
    case (Some x)
    obtain m l where x: "x = (m, l)" by fastforce
    with omap_lower_bound_Some [OF D(2)] Some have m: "n \<le> m" "omap_get (span_lists pc) m = Some l" by blast+
    from D(6) [OF this(2)] obtain h t where l: "l = h # t" by (cases l) auto
    have lo: "list_of pc m = h # t" using m l by (simp add: list_of_def)
    then have h: "?S h = Some m" "h \<notin> F" using D(5) [of h m] by simp_all
    have pm: "pages_of pc h = m" using h by (simp add: pages_of_Some)
    define pc1 where "pc1 = put_list m t pc"
    note P = put_list_ok [where n = m and l = t, OF D(2,6), folded pc1_def]
    have f: "span_map pc1 = span_map pc" "system_maps pc1 = system_maps pc" by (simp_all add: pc1_def)
    have "pc1 = put_list m (remove1 h (list_of pc m)) pc" by (simp add: pc1_def lo)
    with v2_remove_free(2) [OF inv(1) h] have inv1: "v2_inv (insert h F) pc1" by simp
    show ?thesis
    proof (cases "n < m")
      case False
      then have "a = h" "pc' = pc1\<lparr>span_map := omap_put h m (span_map pc)\<rparr>" "m = n"
        using r Some x l pm m f by (auto simp: v2_allocate_span_def Let_def pc1_def)
      moreover have "v2_inv (insert h F) (pc1\<lparr>span_map := omap_put h m (span_map pc)\<rparr>)"
        by (rule v2_invI) (use v2_invD [OF inv1] h in
          \<open>simp_all add: f omap_put_ok omap_get_put fun_upd_idem\<close>)
      ultimately show ?thesis using h by (simp add: omap_get_put fun_upd_idem)
    next
      case True
      let ?b = "h + n * v2_page" and ?r = "m - n"
      have hm: "?S h = Some (n + ?r)" "0 < ?r" using h True by simp_all
      note cut = spans_split [OF D(3) hm(1) n(1) hm(2)]
      have b: "?S ?b = None" "?b \<notin> F" "h \<noteq> ?b" using cut inv(2) n by auto
      define pc2 where "pc2 = put_list ?r (?b # list_of pc1 ?r) pc1"
      note E = v2_invD [OF inv1]
      note Q = put_list_ok [where n = ?r and l = "?b # list_of pc1 ?r", OF E(2,6), folded pc2_def]
      have res: "a = h" "pc' = pc2\<lparr>span_map := omap_put h n (omap_put ?b ?r (span_map pc))\<rparr>"
        using r Some x l pm True f by (auto simp: v2_allocate_span_def Let_def pc1_def pc2_def)
      have S': "omap_get (span_map pc') = ?S(h \<mapsto> n, ?b \<mapsto> ?r)"
        using b(3) by (simp add: res omap_get_put fun_upd_twist)
      have m': "system_maps pc' = system_maps pc" by (simp add: res pc2_def f)
      have l': "list_of pc' k = (if k = ?r then ?b # list_of pc1 ?r else list_of pc1 k)" for k
        by (simp add: res Q)
      have "v2_inv (insert h F) pc'"
      proof (rule v2_invI)
        show "omap_ok (span_map pc')" using D(1) by (simp add: res omap_put_ok)
        show "v2_spans_ok (omap_get (span_map pc')) (map_area (system_maps pc'))"
          unfolding S' m' using cut by blast
      next
        fix k show "distinct (list_of pc' k)" unfolding l' using E(4,5) b by (auto simp: f)
      next
        fix k c show "c \<in> set (list_of pc' k) \<longleftrightarrow> omap_get (span_map pc') c = Some k \<and> c \<notin> insert h F"
          unfolding S' l' using E(5) b by (auto simp: f)
      next
        fix c k j
        assume *: "omap_get (span_map pc') c = Some k" "c \<notin> insert h F" "omap_get (span_map pc') (c + k * v2_page) = Some j"
        show "c + k * v2_page \<in> insert h F"
        proof (cases "c = ?b")
          case True
          have "h + (n + ?r) * v2_page = ?b + ?r * v2_page" by (simp add: add_mult_distrib)
          with True * hm(2) D(7) [OF hm(1) h(2)] show ?thesis by (auto simp: S' add.assoc split: if_splits)
        next
          case False
          with * have c: "?S c = Some k" "c \<notin> F" "c \<noteq> h" by (auto simp: S')
          have "h + m * v2_page \<le> c \<or> c + k * v2_page \<le> h"
            using v2_spans_okD(3) [OF D(3) h(1) c(1)] c(3) by simp
          moreover have "n * v2_page < m * v2_page" "0 < n * v2_page" "0 < k * v2_page"
            using \<open>n < m\<close> n(1) v2_spans_okD(1) [OF D(3) c(1)] by simp_all
          ultimately have "c + k * v2_page \<noteq> ?b" by linarith
          with * c D(7) [OF c(1,2)] show ?thesis by (auto simp: S' split: if_splits)
        qed
      qed (use E Q in \<open>simp_all add: res\<close>)
      moreover have "omap_get (span_map pc') c = ?S c" if "c \<in> F" for c using that h b by (auto simp: S')
      ultimately show ?thesis using h b res(1) by (auto simp: S')
    qed
  qed
  then show "a \<notin> F" "v2_inv (insert a F) pc'" "omap_get (span_map pc') a = Some n"
    "\<forall>c \<in> F. omap_get (span_map pc') c = omap_get (span_map pc) c"
    by blast+
qed

lemma v2_allocate_fails:
  "v2_allocate_span memory n pc = (None, pc') \<Longrightarrow> memory = None \<and> pc' = pc"
  by (auto simp: v2_allocate_span_def v2_system_alloc_def Let_def split: option.splits if_splits prod.splits)

section \<open>Clients\<close>

text \<open>
  The state carries, beside the cache, the spans its clients hold. A client frees a span it holds
  with the size it asked for, and the system hands out memory that is not in use.
\<close>

inductive v2_page_step :: "v2_pages \<times> (nat \<Rightarrow> nat option) \<Rightarrow> v2_pages \<times> (nat \<Rightarrow> nat option) \<Rightarrow> bool" where
  page_alloc: "0 < n \<Longrightarrow> n * v2_page < 2 ^ 64 \<Longrightarrow>
    (\<forall>p. memory = Some p \<longrightarrow> 0 < p \<and> {p..<p + n * v2_page} \<inter> map_area (system_maps pc) = {}) \<Longrightarrow>
    v2_allocate_span memory n pc = (r, pc') \<Longrightarrow>
    v2_page_step (pc, U) (pc', case r of None \<Rightarrow> U | Some a \<Rightarrow> U(a \<mapsto> n))"
| page_free: "U a = Some n \<Longrightarrow> v2_page_step (pc, U) (v2_deallocate_span a n pc, U(a := None))"

definition v2_ok :: "v2_pages \<times> (nat \<Rightarrow> nat option) \<Rightarrow> bool" where
  "v2_ok s \<longleftrightarrow> v2_inv (dom (snd s)) (fst s) \<and> snd s \<subseteq>\<^sub>m omap_get (span_map (fst s))"

lemma v2_page_step_ok: "v2_page_step s t \<Longrightarrow> v2_ok s \<Longrightarrow> v2_ok t"
proof (induction rule: v2_page_step.induct)
  case (page_alloc n memory pc r pc' U)
  then have inv: "v2_inv (dom U) pc" "U \<subseteq>\<^sub>m omap_get (span_map pc)" by (simp_all add: v2_ok_def)
  show ?case
  proof (cases r)
    case None
    with page_alloc v2_allocate_fails [of memory n pc pc'] show ?thesis by simp
  next
    case (Some a)
    have "dom U \<subseteq> dom (omap_get (span_map pc))" using inv(2) by (force simp: map_le_def)
    note A = v2_allocate_ok [OF inv(1) this page_alloc(1,2) page_alloc(3) [rule_format] page_alloc(4) [unfolded Some]]
    have "U(a \<mapsto> n) \<subseteq>\<^sub>m omap_get (span_map pc')" using A inv(2) by (auto simp: map_le_def)
    then show ?thesis using A Some by (simp add: v2_ok_def)
  qed
next
  case (page_free U a n pc)
  then have inv: "v2_inv (dom U) pc" "U \<subseteq>\<^sub>m omap_get (span_map pc)" by (simp_all add: v2_ok_def)
  then have S: "omap_get (span_map pc) a = Some n" "a \<in> dom U"
    using page_free(1) by (auto simp: map_le_def dom_def)
  note Fr = v2_deallocate_ok [OF inv(1) S refl]
  have "U(a := None) \<subseteq>\<^sub>m omap_get (span_map (v2_deallocate_span a n pc))"
    using Fr(3) inv(2) by (auto simp: map_le_def)
  moreover have "dom (U(a := None)) = dom U - {a}" by auto
  ultimately show ?case using Fr(1) by (simp add: v2_ok_def)
qed

interpretation v2_page_runs: invariant_system "\<lambda>s. s = (v2_pages_new, Map.empty)" v2_page_step v2_ok
  by unfold_locales (simp_all add: v2_ok_def v2_inv_new v2_page_step_ok [unfolded v2_ok_def])

lemma v2_spans_safe_parts:
  assumes "v2_page_step\<^sup>*\<^sup>* (v2_pages_new, Map.empty) (pc, U)"
  shows "U a = Some n \<Longrightarrow> U b = Some m \<Longrightarrow> a \<noteq> b \<Longrightarrow> a + n * v2_page \<le> b \<or> b + m * v2_page \<le> a"
    and "U a = Some n \<Longrightarrow> {a..<a + n * v2_page} \<subseteq> map_area (system_maps pc)"
    and "a \<in> set (list_of pc n) \<Longrightarrow> U a = None \<and> a + n * v2_page \<notin> set (list_of pc m)"
proof -
  have "v2_ok (pc, U)" using v2_page_runs.reachable_invar [OF refl assms] .
  then have inv: "v2_inv (dom U) pc" and le: "U \<subseteq>\<^sub>m omap_get (span_map pc)" by (simp_all add: v2_ok_def)
  have S: "omap_get (span_map pc) a = Some n" if "U a = Some n" for a n
    using le that by (force simp: map_le_def dom_def)
  note D = v2_invD [OF inv]
  show "U a = Some n \<Longrightarrow> U b = Some m \<Longrightarrow> a \<noteq> b \<Longrightarrow> a + n * v2_page \<le> b \<or> b + m * v2_page \<le> a"
    using v2_spans_okD(3) [OF D(3) S S] by blast
  show "U a = Some n \<Longrightarrow> {a..<a + n * v2_page} \<subseteq> map_area (system_maps pc)"
    using D(3) S [of a n] span_area_split [of "omap_get (span_map pc)" a n] by (auto simp: v2_spans_ok_def)
  show "a \<in> set (list_of pc n) \<Longrightarrow> U a = None \<and> a + n * v2_page \<notin> set (list_of pc m)"
    using D(5) D(7) [of a n m] by (auto simp: dom_def)
qed

text \<open>
  whatever the clients of the page cache of the second version allocate and free, no two spans
  they hold overlap, each lies in memory the system gave, no list holds a span in use, and no two
  free spans lie side by side: freeing always merges.
\<close>

theorem v2_spans_safe:
  assumes "v2_page_step\<^sup>*\<^sup>* (v2_pages_new, Map.empty) (pc, U)"
  shows "(\<forall>a n b m. U a = Some n \<longrightarrow> U b = Some m \<longrightarrow> a \<noteq> b \<longrightarrow>
            a + n * v2_page \<le> b \<or> b + m * v2_page \<le> a)
    \<and> (\<forall>a n. U a = Some n \<longrightarrow> {a..<a + n * v2_page} \<subseteq> map_area (system_maps pc))
    \<and> (\<forall>a n m. a \<in> set (list_of pc n) \<longrightarrow> U a = None \<and> a + n * v2_page \<notin> set (list_of pc m))"
  using v2_spans_safe_parts [OF assms] by blast

lemma v2_page_alloc_some:
  assumes "v2_allocate_span memory n pc = (Some a, pc')" "0 < n" "n * v2_page < 2 ^ 64"
    and "\<forall>p. memory = Some p \<longrightarrow> 0 < p \<and> {p..<p + n * v2_page} \<inter> map_area (system_maps pc) = {}"
  shows "v2_page_step (pc, U) (pc', U(a \<mapsto> n))"
  using page_alloc [OF assms(2,3,4,1), of U] by simp

lemma v2_spans_safe_witness:
  "v2_page_step\<^sup>*\<^sup>* (v2_pages_new, Map.empty)
     (\<lparr>span_map = [(65536, 1), (69632, 2), (77824, 5)], span_lists = [(1, [65536]), (5, [77824])],
       system_maps = [(65536, 32768)]\<rparr>, [69632 \<mapsto> 2])
   \<and> {69632..<69632 + 2 * v2_page} \<subseteq> map_area [(65536, 32768)]"
proof -
  let ?p = "\<lambda>m l. \<lparr>span_map = m, span_lists = l, system_maps = [(65536, 32768)]\<rparr>"
  let ?p1 = "?p [(65536, 8)] []" and ?p2 = "?p [(65536, 8)] [(8, [65536])]"
    and ?p3 = "?p [(65536, 1), (69632, 7)] [(7, [69632])]"
    and ?p4 = "?p [(65536, 1), (69632, 2), (77824, 5)] [(5, [77824])]"
    and ?p5 = "?p [(65536, 1), (69632, 2), (77824, 5)] [(1, [65536]), (5, [77824])]"
  note evals = v2_allocate_span_def v2_system_alloc_def v2_deallocate_span_def v2_merge_next_def
    v2_merge_prev_def v2_remove_def v2_push_def put_list_def list_of_def pages_of_def v2_page_def
    Let_def wmul_def
  have "v2_page_step (v2_pages_new, Map.empty) (?p1, Map.empty(65536 \<mapsto> 8))"
    by (rule v2_page_alloc_some [of "Some 65536"]) (simp_all add: evals v2_pages_new_def map_area_def)
  moreover have "v2_page_step (?p1, Map.empty(65536 \<mapsto> 8)) (?p2, Map.empty)"
    using page_free [of "Map.empty(65536 \<mapsto> 8)" 65536 8 ?p1] by (simp add: evals)
  moreover have "v2_page_step (?p2, Map.empty) (?p3, Map.empty(65536 \<mapsto> 1))"
    by (rule v2_page_alloc_some [of None]) (simp_all add: evals)
  moreover have "v2_page_step (?p3, Map.empty(65536 \<mapsto> 1)) (?p4, Map.empty(65536 \<mapsto> 1, 69632 \<mapsto> 2))"
    by (rule v2_page_alloc_some [of None]) (simp_all add: evals)
  moreover have "v2_page_step (?p4, Map.empty(65536 \<mapsto> 1, 69632 \<mapsto> 2)) (?p5, [69632 \<mapsto> 2])"
    using page_free [of "Map.empty(65536 \<mapsto> 1, 69632 \<mapsto> 2)" 65536 1 ?p4] by (simp add: evals fun_upd_twist)
  ultimately have run: "v2_page_step\<^sup>*\<^sup>* (v2_pages_new, Map.empty) (?p5, [69632 \<mapsto> 2])"
    by (meson converse_rtranclp_into_rtranclp rtranclp.rtrancl_refl)
  then show ?thesis using v2_spans_safe [OF run] by simp
qed

end
