(* ===== verification/Kama2_Central.thy ===== *)
theory Kama2_Central
  imports Kama2_Pages
begin

text \<open>
  The central cache of the allocator's second version (vendor_memorypool/v2/src/CentralCache.cpp).
  A free block is a word of memory that holds the address of the next one, so the lists are words
  of a memory \<open>nat \<Rightarrow> nat\<close>; 0 is the null pointer. Each call runs under the spin lock of its class,
  as one operation. What \<open>mmap\<close> returned, the readings of the steady clock in milliseconds and the
  order in which the unordered map of a delayed return is walked are arguments.
\<close>

section \<open>State\<close>

record v2_tracker =
  t_addr :: nat
  t_pages :: nat
  t_blocks :: nat
  t_free :: nat

record v2_central =
  cc_pages :: v2_pages
  cc_heads :: "nat list"
  cc_words :: "nat \<Rightarrow> nat"
  cc_trackers :: "v2_tracker list"
  cc_delays :: "nat list"
  cc_last :: "int list"

definition v2_central_new :: "v2_pages \<Rightarrow> (nat \<Rightarrow> nat) \<Rightarrow> int \<Rightarrow> v2_central" where
  "v2_central_new pc words now =
     \<lparr>cc_pages = pc, cc_heads = replicate class_count 0, cc_words = words, cc_trackers = [],
      cc_delays = replicate class_count 0, cc_last = replicate class_count now\<rparr>"

abbreviation max_delay_count :: nat where "max_delay_count \<equiv> 48"
abbreviation delay_interval :: int where "delay_interval \<equiv> 1000"

section \<open>Fetching a block\<close>

definition v2_span_pages :: "nat \<Rightarrow> nat" where
  "v2_span_pages bytes = (if bytes \<le> 8 * v2_page then 8 else (bytes + v2_page - 1) div v2_page)"

definition v2_fetch_pages :: "nat option \<Rightarrow> nat \<Rightarrow> v2_pages \<Rightarrow> nat option \<times> v2_pages" where
  "v2_fetch_pages memory bytes pc = v2_allocate_span memory (v2_span_pages bytes) pc"

definition v2_covers :: "v2_tracker \<Rightarrow> nat \<Rightarrow> bool" where
  "v2_covers t b \<longleftrightarrow> t_addr t \<le> b \<and> b < t_addr t + t_pages t * v2_page"

definition v2_get_tracker :: "v2_tracker list \<Rightarrow> nat \<Rightarrow> nat option" where
  "v2_get_tracker ts b = find (\<lambda>i. v2_covers (ts ! i) b) [0..<length ts]"

text \<open>The blocks of a new span are chained in order.\<close>

definition v2_cut :: "(nat \<Rightarrow> nat) \<Rightarrow> nat \<Rightarrow> nat \<Rightarrow> nat \<Rightarrow> nat \<Rightarrow> nat" where
  "v2_cut words start bytes n =
     (fold (\<lambda>i m. m(start + (i - 1) * bytes := start + i * bytes)) [1..<n] words)
       (start + (n - 1) * bytes := 0)"

definition v2_fetch_range :: "nat option \<Rightarrow> nat \<Rightarrow> v2_central \<Rightarrow> nat \<times> v2_central" where
  "v2_fetch_range memory index s =
     (if index \<ge> class_count then (0, s)
      else let result = cc_heads s ! index in
        if result = 0
        then let bytes = get_size index in
          (case v2_fetch_pages memory bytes (cc_pages s) of
             (None, pc) \<Rightarrow> (0, s\<lparr>cc_pages := pc\<rparr>)
           | (Some start, pc) \<Rightarrow>
               (let n = v2_span_pages bytes; blocks = n * v2_page div bytes; s1 = s\<lparr>cc_pages := pc\<rparr> in
                if blocks > 1
                then (let m = v2_cut (cc_words s) start bytes blocks in
                  (start, s1\<lparr>cc_words := m(start := 0), cc_heads := (cc_heads s)[index := m start],
                     cc_trackers := cc_trackers s @
                       [\<lparr>t_addr = start, t_pages = n, t_blocks = blocks, t_free = blocks - 1\<rparr>]\<rparr>))
                else (start, s1)))
        else (result, s\<lparr>cc_words := (cc_words s)(result := 0),
               cc_heads := (cc_heads s)[index := cc_words s result],
               cc_trackers := (case v2_get_tracker (cc_trackers s) result of
                   None \<Rightarrow> cc_trackers s
                 | Some t \<Rightarrow> (cc_trackers s)[t := (cc_trackers s ! t)\<lparr>t_free := wsub (t_free (cc_trackers s ! t)) 1\<rparr>])\<rparr>))"

section \<open>Giving blocks back\<close>

function chain_end :: "(nat \<Rightarrow> nat) \<Rightarrow> nat \<Rightarrow> nat \<Rightarrow> nat \<Rightarrow> nat" where
  "chain_end m b k limit = (if m b \<noteq> 0 \<and> k < limit then chain_end m (m b) (k + 1) limit else b)"
  by pat_completeness auto
termination by (relation "measure (\<lambda>(m, b, k, limit). limit - k)") auto

declare chain_end.simps [simp del]

text \<open>The loops that follow a list to its null pointer.\<close>

partial_function (option) v2_walk :: "(nat \<Rightarrow> nat) \<Rightarrow> nat \<Rightarrow> nat list option" where
  "v2_walk m b = (if b = 0 then Some [] else Option.bind (v2_walk m (m b)) (\<lambda>bs. Some (b # bs)))"

partial_function (option) v2_unlink ::
    "nat \<Rightarrow> nat \<Rightarrow> nat \<Rightarrow> nat \<Rightarrow> nat \<Rightarrow> (nat \<Rightarrow> nat) \<Rightarrow> (nat \<times> (nat \<Rightarrow> nat)) option" where
  "v2_unlink lo hi new_head prev cur m =
     (if cur = 0 then Some (new_head, m)
      else if lo \<le> cur \<and> cur < hi
      then (if prev \<noteq> 0 then v2_unlink lo hi new_head prev (m cur) (m(prev := m cur))
            else v2_unlink lo hi (m cur) prev (m cur) m)
      else v2_unlink lo hi new_head cur (m cur) m)"

declare v2_walk.simps [code] v2_unlink.simps [code]

definition v2_update_span :: "nat \<Rightarrow> nat \<Rightarrow> nat \<Rightarrow> v2_central \<Rightarrow> v2_central option" where
  "v2_update_span i new_blocks index s =
     (let t = cc_trackers s ! i; new_free = wadd (t_free t) new_blocks;
          s1 = s\<lparr>cc_trackers := (cc_trackers s)[i := t\<lparr>t_free := new_free\<rparr>]\<rparr> in
      if new_free = t_blocks t
      then Option.bind
             (v2_unlink (t_addr t) (t_addr t + t_pages t * v2_page) 0 0 (cc_heads s ! index) (cc_words s))
             (\<lambda>(new_head, m). Some (s1\<lparr>cc_words := m, cc_heads := (cc_heads s)[index := new_head],
                cc_pages := v2_deallocate_span (t_addr t) (t_pages t) (cc_pages s)\<rparr>))
      else Some s1)"

definition v2_hits :: "v2_tracker list \<Rightarrow> nat list \<Rightarrow> nat list" where
  "v2_hits ts bs = List.map_filter (v2_get_tracker ts) bs"

fun v2_updates :: "nat list \<Rightarrow> nat \<Rightarrow> nat list \<Rightarrow> v2_central \<Rightarrow> v2_central option" where
  "v2_updates hits index [] s = Some s"
| "v2_updates hits index (i # is) s =
     Option.bind (v2_update_span i (count_list hits i) index s) (v2_updates hits index is)"

definition v2_delayed_return :: "nat list \<Rightarrow> int \<Rightarrow> nat \<Rightarrow> v2_central \<Rightarrow> v2_central option" where
  "v2_delayed_return order later index s =
     Option.bind (v2_walk (cc_words s) (cc_heads s ! index))
       (\<lambda>bs. v2_updates (v2_hits (cc_trackers s) bs) index order
          (s\<lparr>cc_delays := (cc_delays s)[index := 0], cc_last := (cc_last s)[index := later]\<rparr>))"

definition v2_should_return :: "nat \<Rightarrow> nat \<Rightarrow> int \<Rightarrow> v2_central \<Rightarrow> bool" where
  "v2_should_return index n now s \<longleftrightarrow>
     n \<ge> max_delay_count \<or> now - cc_last s ! index \<ge> delay_interval"

definition v2_splice :: "nat \<Rightarrow> nat \<Rightarrow> nat \<Rightarrow> v2_central \<Rightarrow> v2_central" where
  "v2_splice start bytes index s =
     (let last = chain_end (cc_words s) start 1 (bytes div get_size index) in
      s\<lparr>cc_words := (cc_words s)(last := cc_heads s ! index), cc_heads := (cc_heads s)[index := start],
        cc_delays := (cc_delays s)[index := wadd (cc_delays s ! index) 1]\<rparr>)"

definition v2_return_range ::
    "nat list \<Rightarrow> int \<Rightarrow> int \<Rightarrow> nat \<Rightarrow> nat \<Rightarrow> nat \<Rightarrow> v2_central \<Rightarrow> v2_central option" where
  "v2_return_range order now later start bytes index s =
     (if start = 0 \<or> index \<ge> class_count then Some s
      else let s1 = v2_splice start bytes index s in
        if v2_should_return index (cc_delays s1 ! index) now s1
        then v2_delayed_return order later index s1
        else Some s1)"

section \<open>The loops on linked lists\<close>

lemma v2_walk_linked: "linked m b bs \<Longrightarrow> v2_walk m b = Some bs"
proof (induction bs arbitrary: b)
  case Nil
  then show ?case by (subst v2_walk.simps) simp
next
  case (Cons x bs)
  then show ?case by (subst v2_walk.simps) simp
qed

lemma linked_splice:
  "linked m a xs \<Longrightarrow> xs \<noteq> [] \<Longrightarrow> linked m b ys \<Longrightarrow> set xs \<inter> set ys = {} \<Longrightarrow>
     linked (m(last xs := b)) a (xs @ ys)"
proof (induction xs arbitrary: a)
  case (Cons x xs)
  show ?case
  proof (cases "xs = []")
    case True
    from Cons.prems have "linked (m(x := b)) a ([x] @ ys)" unfolding True by simp
    then show ?thesis by (simp only: True last_ConsL)
  next
    case False
    have "last xs \<noteq> x" using linked_distinct [OF Cons.prems(1)] False last_in_set [OF False] by auto
    with Cons False show ?thesis by auto
  qed
qed simp

lemma chain_end_last:
  "linked m b xs \<Longrightarrow> xs \<noteq> [] \<Longrightarrow> k + length xs \<le> limit + 1 \<Longrightarrow> chain_end m b k limit = last xs"
proof (induction xs arbitrary: b k)
  case (Cons x xs)
  show ?case
  proof (cases "xs = []")
    case True
    with Cons.prems show ?thesis by (subst chain_end.simps) simp
  next
    case False
    then have "m x \<noteq> 0" "m x = hd xs" using Cons.prems(1) by (cases xs, auto)+
    with Cons False show ?thesis by (subst chain_end.simps) (cases xs, auto)
  qed
qed simp

text \<open>
  The unlink loop. Behind a block that stays, the blocks of the span disappear; in front of the
  first one that stays, the new head follows, and only then.
\<close>

lemma v2_unlink_behind:
  "linked m (m p) xs \<Longrightarrow> p \<noteq> 0 \<Longrightarrow> p \<notin> set xs \<Longrightarrow>
     \<exists>m'. v2_unlink lo hi nh p (m p) m = Some (nh, m')
       \<and> linked m' (m' p) (filter (\<lambda>c. \<not> (lo \<le> c \<and> c < hi)) xs)
       \<and> (\<forall>q. q \<notin> insert p (set xs) \<longrightarrow> m' q = m q)"
proof (induction xs arbitrary: m p)
  case Nil
  then show ?case by (subst v2_unlink.simps) simp
next
  case (Cons x xs)
  then have x: "m p = x" "x \<noteq> 0" "linked m (m x) xs" "x \<noteq> p" "p \<notin> set xs" by auto
  show ?case
  proof (cases "lo \<le> x \<and> x < hi")
    case True
    have "linked (m(p := m x)) ((m(p := m x)) p) xs" using x by simp
    from Cons.IH [OF this Cons.prems(2) x(5)] obtain m' where m':
      "v2_unlink lo hi nh p (m x) (m(p := m x)) = Some (nh, m')"
      "linked m' (m' p) (filter (\<lambda>c. \<not> (lo \<le> c \<and> c < hi)) xs)"
      "\<forall>q. q \<notin> insert p (set xs) \<longrightarrow> m' q = (m(p := m x)) q"
      unfolding fun_upd_same by blast
    have "v2_unlink lo hi nh p (m p) m = Some (nh, m')"
      by (subst v2_unlink.simps) (use True x Cons.prems(2) m'(1) in simp)
    with m'(2,3) True show ?thesis by auto
  next
    case False
    have "x \<notin> set xs" using linked_distinct [OF Cons.prems(1)] by simp
    from Cons.IH [OF x(3,2) this] obtain m' where m':
      "v2_unlink lo hi nh x (m x) m = Some (nh, m')"
      "linked m' (m' x) (filter (\<lambda>c. \<not> (lo \<le> c \<and> c < hi)) xs)" "\<forall>q. q \<notin> insert x (set xs) \<longrightarrow> m' q = m q"
      by blast
    then have "m' p = x" using x by auto
    with m' False x show ?thesis by (subst v2_unlink.simps) auto
  qed
qed

lemma v2_unlink_front:
  "linked m c xs \<Longrightarrow>
     \<exists>h m'. v2_unlink lo hi nh 0 c m = Some (h, m')
       \<and> (if xs \<noteq> [] \<and> lo \<le> hd xs \<and> hd xs < hi
          then linked m' h (filter (\<lambda>c. \<not> (lo \<le> c \<and> c < hi)) xs)
          else h = nh \<and> linked m' c (filter (\<lambda>c. \<not> (lo \<le> c \<and> c < hi)) xs))
       \<and> (\<forall>q. q \<notin> set xs \<longrightarrow> m' q = m q)"
proof (induction xs arbitrary: c nh)
  case Nil
  then show ?case by (subst v2_unlink.simps) simp
next
  case (Cons x xs)
  then have x: "c = x" "x \<noteq> 0" "linked m (m x) xs" by auto
  show ?case
  proof (cases "lo \<le> x \<and> x < hi")
    case True
    from Cons.IH [OF x(3), of "m x"] obtain h m' where
      h: "v2_unlink lo hi (m x) 0 (m x) m = Some (h, m')"
        "linked m' h (filter (\<lambda>c. \<not> (lo \<le> c \<and> c < hi)) xs)" "\<forall>q. q \<notin> set xs \<longrightarrow> m' q = m q"
      by (auto split: if_splits)
    with True x show ?thesis by (subst v2_unlink.simps) auto
  next
    case False
    have "x \<notin> set xs" using linked_distinct [OF Cons.prems] by simp
    from v2_unlink_behind [OF x(3,2) this, of lo hi nh] obtain m' where m':
      "v2_unlink lo hi nh x (m x) m = Some (nh, m')"
      "linked m' (m' x) (filter (\<lambda>c. \<not> (lo \<le> c \<and> c < hi)) xs)" "\<forall>q. q \<notin> insert x (set xs) \<longrightarrow> m' q = m q"
      by blast
    with False x show ?thesis by (subst v2_unlink.simps) auto
  qed
qed

lemma v2_unlink_list:
  assumes "linked m c xs"
  obtains h m' where "v2_unlink lo hi 0 0 c m = Some (h, m')"
    "linked m' h (if xs \<noteq> [] \<and> lo \<le> hd xs \<and> hd xs < hi then filter (\<lambda>c. \<not> (lo \<le> c \<and> c < hi)) xs else [])"
    "\<And>q. q \<notin> set xs \<Longrightarrow> m' q = m q"
proof -
  from v2_unlink_front [OF assms, of lo hi 0] obtain h m' where
    A: "v2_unlink lo hi 0 0 c m = Some (h, m')" "\<forall>q. q \<notin> set xs \<longrightarrow> m' q = m q"
    and B: "if xs \<noteq> [] \<and> lo \<le> hd xs \<and> hd xs < hi
          then linked m' h (filter (\<lambda>c. \<not> (lo \<le> c \<and> c < hi)) xs)
          else h = 0 \<and> linked m' c (filter (\<lambda>c. \<not> (lo \<le> c \<and> c < hi)) xs)" by blast
  from B have "linked m' h (if xs \<noteq> [] \<and> lo \<le> hd xs \<and> hd xs < hi
      then filter (\<lambda>c. \<not> (lo \<le> c \<and> c < hi)) xs else [])"
    by (cases "xs \<noteq> [] \<and> lo \<le> hd xs \<and> hd xs < hi") (simp_all only: if_True if_False linked.simps simp_thms)
  with A that show thesis by blast
qed

text \<open>The blocks of a span.\<close>

definition v2_blocks :: "nat \<Rightarrow> nat \<Rightarrow> nat \<Rightarrow> nat list" where
  "v2_blocks start bytes n = map (\<lambda>i. start + i * bytes) [0..<n]"

lemma linked_row:
  assumes "\<And>i. k \<le> i \<Longrightarrow> i < n \<Longrightarrow> m (start + i * bytes) = (if i + 1 = n then 0 else start + (i + 1) * bytes)"
    and "0 < start" "k < n"
  shows "linked m (start + k * bytes) (map (\<lambda>i. start + i * bytes) [k..<n])"
  using assms
proof (induction "n - k" arbitrary: k)
  case (Suc d)
  show ?case
  proof (cases "k + 1 = n")
    case True
    with Suc.prems show ?thesis by (simp add: upt_conv_Cons)
  next
    case False
    with Suc.prems(3) have "k + 1 < n" by simp
    have "linked m (start + (k + 1) * bytes) (map (\<lambda>i. start + i * bytes) [k + 1..<n])"
      by (rule Suc.hyps(1)) (use Suc.hyps(2) Suc.prems \<open>k + 1 < n\<close> in auto)
    with Suc.prems(1) [of k] Suc.prems(2,3) False show ?thesis by (simp add: upt_conv_Cons)
  qed
qed simp

lemma v2_chain_fold:
  assumes "0 < bytes"
  shows "fold (\<lambda>i m. m(start + (i - 1) * bytes := start + i * bytes)) [1..<Suc n] m =
     (\<lambda>q. if q \<in> (\<lambda>i. start + i * bytes) ` {..<n} then q + bytes else m q)"
proof (induction n)
  case (Suc n)
  let ?f = "\<lambda>i m. m(start + (i - 1) * bytes := start + i * bytes)" and ?g = "\<lambda>i. start + i * bytes"
  have "[1..<Suc (Suc n)] = [1..<Suc n] @ [Suc n]" by simp
  then have "fold ?f [1..<Suc (Suc n)] m = ?f (Suc n) (fold ?f [1..<Suc n] m)" by (simp only: fold_append fold.simps comp_def id_def)
  also have "\<dots> = (\<lambda>q. if q \<in> ?g ` {..<n} then q + bytes else m q)(?g n := ?g n + bytes)"
    unfolding Suc.IH by (simp add: algebra_simps)
  also have "\<dots> = (\<lambda>q. if q \<in> insert (?g n) (?g ` {..<n}) then q + bytes else m q)"
    by (simp only: fun_eq_iff fun_upd_apply insert_iff) simp
  also have "insert (?g n) (?g ` {..<n}) = ?g ` {..<Suc n}" by (simp add: lessThan_Suc)
  finally show ?case .
qed simp

lemma v2_cut_linked:
  assumes "0 < start" "0 < bytes" "0 < n"
  shows "linked (v2_cut m start bytes n) start (v2_blocks start bytes n)"
    "q \<notin> set (v2_blocks start bytes n) \<Longrightarrow> v2_cut m start bytes n q = m q"
proof -
  have f: "v2_cut m start bytes n = (\<lambda>q. if q \<in> (\<lambda>i. start + i * bytes) ` {..<n - 1} then q + bytes else m q)
      (start + (n - 1) * bytes := 0)"
    unfolding v2_cut_def using v2_chain_fold [OF assms(2), of start "n - 1" m] assms(3) by simp
  have "linked (v2_cut m start bytes n) (start + 0 * bytes) (map (\<lambda>i. start + i * bytes) [0..<n])"
  proof (rule linked_row)
    fix i assume "i < n"
    show "v2_cut m start bytes n (start + i * bytes) = (if i + 1 = n then 0 else start + (i + 1) * bytes)"
    proof (cases "i + 1 = n")
      case True
      then have "i = n - 1" by simp
      with True show ?thesis unfolding f by (simp only: fun_upd_same if_True simp_thms)
    next
      case False
      with \<open>i < n\<close> have "i \<in> {..<n - 1}" "start + i * bytes \<noteq> start + (n - 1) * bytes" using assms(2) by auto
      then show ?thesis unfolding f using False by (simp add: fun_upd_other)
    qed
  qed (use assms in simp_all)
  then show "linked (v2_cut m start bytes n) start (v2_blocks start bytes n)" by (simp add: v2_blocks_def)
  show "v2_cut m start bytes n q = m q" if "q \<notin> set (v2_blocks start bytes n)"
    using that assms(3) by (auto simp: f v2_blocks_def image_iff)
qed

section \<open>The lists as lists\<close>

text \<open>
  What the words mean: the head of each class starts a list, and no block is on two of them. The
  operations act on these lists.
\<close>

definition v2_lists :: "v2_central \<Rightarrow> (nat \<Rightarrow> nat list) \<Rightarrow> bool" where
  "v2_lists s L \<longleftrightarrow>
     length (cc_heads s) = class_count \<and> length (cc_delays s) = class_count
     \<and> (\<forall>i < class_count. linked (cc_words s) (cc_heads s ! i) (L i))
     \<and> (\<forall>i < class_count. \<forall>j < class_count. i \<noteq> j \<longrightarrow> set (L i) \<inter> set (L j) = {})"

lemma v2_listsD:
  assumes "v2_lists s L"
  shows "length (cc_heads s) = 56" "length (cc_delays s) = 56"
    "i < 56 \<Longrightarrow> linked (cc_words s) (cc_heads s ! i) (L i)"
    "i < 56 \<Longrightarrow> j < 56 \<Longrightarrow> i \<noteq> j \<Longrightarrow> set (L i) \<inter> set (L j) = {}"
  using assms by (simp_all add: v2_lists_def)

text \<open>A new list for one class, made of blocks no other list has, with the other words left alone.\<close>

lemma v2_lists_update:
  assumes "v2_lists s L" "i < 56" "linked (cc_words t) h xs" "cc_heads t = (cc_heads s)[i := h]"
    and "length (cc_delays t) = 56"
    and "\<And>j q. j < 56 \<Longrightarrow> j \<noteq> i \<Longrightarrow> q \<in> set (L j) \<Longrightarrow> cc_words t q = cc_words s q"
    and "\<And>j. j < 56 \<Longrightarrow> j \<noteq> i \<Longrightarrow> set (L j) \<inter> set xs = {}"
  shows "v2_lists t (L(i := xs))"
proof -
  note D = v2_listsD [OF assms(1)]
  have "linked (cc_words t) (cc_heads t ! j) ((L(i := xs)) j)" if "j < 56" for j
  proof (cases "j = i")
    case True
    then show ?thesis using assms(2,3,4) D(1) by simp
  next
    case False
    have "linked (cc_words t) (cc_heads s ! j) (L j) = linked (cc_words s) (cc_heads s ! j) (L j)"
      by (rule linked_cong) (rule assms(6) [OF that False])
    with False D(3) [OF that] show ?thesis by (simp add: assms(4))
  qed
  moreover have "set ((L(i := xs)) j) \<inter> set ((L(i := xs)) k) = {}" if "j < 56" "k < 56" "j \<noteq> k" for j k
    using that D(4) [OF that] assms(7) [of j] assms(7) [of k] by (auto simp: disjoint_iff)
  ultimately show ?thesis using D(1) assms(4,5) by (simp add: v2_lists_def)
qed

text \<open>A fetch takes the first block of a list; the word of the block is then the null pointer.\<close>

lemma v2_fetch_listed:
  assumes ok: "v2_lists s L" and i: "i < class_count" "L i = x # xs"
  shows "\<exists>s'. v2_fetch_range memory i s = (x, s') \<and> v2_lists s' (L(i := xs)) \<and> cc_words s' = (cc_words s)(x := 0)
    \<and> cc_pages s' = cc_pages s"
proof -
  note D = v2_listsD [OF ok] and i' = i(1) [unfolded class_count_eval]
  have x: "cc_heads s ! i = x" "x \<noteq> 0" "linked (cc_words s) (cc_words s x) xs" using D(3) [OF i'] i(2) by auto
  have "distinct (x # xs)" using linked_distinct D(3) [OF i'] i(2) by metis
  then have l: "linked ((cc_words s)(x := 0)) (cc_words s x) xs" using x(3) by simp
  obtain s' where s': "v2_fetch_range memory i s = (x, s')" "cc_words s' = (cc_words s)(x := 0)"
    "cc_heads s' = (cc_heads s)[i := cc_words s x]" "cc_delays s' = cc_delays s" "cc_pages s' = cc_pages s"
    using x i' by (simp add: v2_fetch_range_def Let_def)
  have "v2_lists s' (L(i := xs))"
  proof (rule v2_lists_update [OF ok i' _ s'(3)])
    show "cc_words s' q = cc_words s q" if "j < 56" "j \<noteq> i" "q \<in> set (L j)" for j q
      using D(4) [OF that(1) i' that(2)] i(2) that(3) by (auto simp: s')
    show "set (L j) \<inter> set xs = {}" if "j < 56" "j \<noteq> i" for j
      using D(4) [OF that(1) i' that(2)] i(2) by auto
  qed (use l D(2) s' in simp_all)
  with s' show ?thesis by simp
qed

text \<open>When the list is empty a span is cut: the first block goes out and the others are listed.\<close>

lemma v2_fetch_span:
  assumes ok: "v2_lists s L" and i: "i < class_count" "L i = []"
    and span: "v2_fetch_pages memory (get_size i) (cc_pages s) = (Some start, pc)" "0 < start"
    and n: "n = v2_span_pages (get_size i) * v2_page div get_size i" "1 < n"
    and fresh: "\<And>j. j < class_count \<Longrightarrow> set (L j) \<inter> set (v2_blocks start (get_size i) n) = {}"
  shows "\<exists>s'. v2_fetch_range memory i s = (start, s') \<and> v2_lists s' (L(i := tl (v2_blocks start (get_size i) n)))
    \<and> cc_words s' start = 0 \<and> cc_pages s' = pc
    \<and> (\<forall>q. q \<notin> set (v2_blocks start (get_size i) n) \<longrightarrow> cc_words s' q = cc_words s q)"
proof -
  note D = v2_listsD [OF ok] and i' = i(1) [unfolded class_count_eval]
  let ?bs = "v2_blocks start (get_size i) n" and ?m = "v2_cut (cc_words s) start (get_size i) n"
  have pos: "0 < get_size i" using size_table_bounds [OF i'] by (simp add: get_size_def)
  note C = v2_cut_linked [where m = "cc_words s" and n = n, OF span(2) pos]
  have bs: "?bs = start # tl ?bs" using n(2) by (simp add: v2_blocks_def upt_conv_Cons)
  have "linked ?m start (start # tl ?bs)" using C(1) n(2) bs by simp
  then have l: "linked ?m (?m start) (tl ?bs)" and "start \<notin> set (tl ?bs)"
    using linked_distinct [of ?m start "start # tl ?bs"] by auto
  then have l0: "linked (?m(start := 0)) (?m start) (tl ?bs)" by simp
  have h0: "cc_heads s ! i = 0" using D(3) [OF i'] i(2) by simp
  obtain s' where s': "v2_fetch_range memory i s = (start, s')" "cc_words s' = ?m(start := 0)"
    "cc_heads s' = (cc_heads s)[i := ?m start]" "cc_delays s' = cc_delays s" "cc_pages s' = pc"
    using h0 i' span n by (simp add: v2_fetch_range_def Let_def)
  have "v2_lists s' (L(i := tl ?bs))"
  proof (rule v2_lists_update [OF ok i' _ s'(3)])
    fix j q assume j: "j < 56" "j \<noteq> i" "q \<in> set (L j)"
    then have "q \<notin> set ?bs" using fresh [of j] by auto
    then show "cc_words s' q = cc_words s q" using C(2) [of q] n(2) bs by (metis fun_upd_other list.set_intros(1) s'(2) less_trans zero_less_one)
  next
    fix j assume "j < 56" "j \<noteq> i"
    then show "set (L j) \<inter> set (tl ?bs) = {}" using fresh [of j] bs by (metis class_count_eval disjoint_iff list.set_intros(2))
  qed (use l0 D(2) s' in simp_all)
  moreover have "cc_words s' q = cc_words s q" if "q \<notin> set ?bs" for q
    using that C(2) [of q] n(2) bs by (metis fun_upd_other list.set_intros(1) s'(2) less_trans zero_less_one)
  ultimately show ?thesis using s' by simp
qed

section \<open>Returning blocks\<close>

text \<open>A chain that is given back goes in front of the list.\<close>

lemma v2_splice_lists:
  assumes ok: "v2_lists s L" and i: "i < class_count"
    and chain: "linked (cc_words s) start xs" "xs \<noteq> []" "length xs \<le> bytes div get_size i"
    and apart: "\<And>j. j < class_count \<Longrightarrow> set (L j) \<inter> set xs = {}"
  shows "v2_lists (v2_splice start bytes i s) (L(i := xs @ L i))"
proof -
  note D = v2_listsD [OF ok] and i' = i [unfolded class_count_eval]
  let ?t = "v2_splice start bytes i s"
  have "chain_end (cc_words s) start 1 (bytes div get_size i) = last xs"
    by (rule chain_end_last) (use chain in simp_all)
  then have t: "cc_words ?t = (cc_words s)(last xs := cc_heads s ! i)" "cc_heads ?t = (cc_heads s)[i := start]"
    "length (cc_delays ?t) = 56" using D(2) by (simp_all add: v2_splice_def Let_def)
  have disj: "set xs \<inter> set (L i) = {}" using apart [OF i] by auto
  show ?thesis
  proof (rule v2_lists_update [OF ok i' _ t(2,3)])
    show "linked (cc_words ?t) start (xs @ L i)"
      unfolding t by (rule linked_splice [OF chain(1,2) D(3) [OF i'] disj])
  next
    fix j q assume "j < 56" "j \<noteq> i" "q \<in> set (L j)"
    then show "cc_words ?t q = cc_words s q"
      using apart [of j] last_in_set [OF chain(2)] by (auto simp: t)
  next
    fix j assume "j < 56" "j \<noteq> i"
    then show "set (L j) \<inter> set (xs @ L i) = {}" using apart [of j] D(4) [OF _ i'] by auto
  qed
qed

text \<open>
  What a delayed return leaves of the list for one span: everything when the span is not complete;
  otherwise the blocks of the others, but only when the first block of the list belongs to the span.
\<close>

definition span_kept :: "v2_tracker \<Rightarrow> nat list \<Rightarrow> nat list" where
  "span_kept t xs = (if xs \<noteq> [] \<and> v2_covers t (hd xs) then filter (\<lambda>b. \<not> v2_covers t b) xs else [])"

lemma v2_update_span_lists:
  assumes ok: "v2_lists s L" and i: "i < class_count"
  shows "\<exists>s'. v2_update_span k n i s = Some s' \<and>
     v2_lists s' (L(i := (if wadd (t_free (cc_trackers s ! k)) n = t_blocks (cc_trackers s ! k)
       then span_kept (cc_trackers s ! k) (L i) else L i)))
     \<and> (\<forall>q. q \<notin> set (L i) \<longrightarrow> cc_words s' q = cc_words s q)"
proof (cases "wadd (t_free (cc_trackers s ! k)) n = t_blocks (cc_trackers s ! k)")
  case False
  then show ?thesis using ok by (simp add: v2_update_span_def Let_def v2_lists_def)
next
  case True
  note D = v2_listsD [OF ok] and i' = i [unfolded class_count_eval]
  let ?t = "cc_trackers s ! k"
  obtain h m where u: "v2_unlink (t_addr ?t) (t_addr ?t + t_pages ?t * v2_page) 0 0 (cc_heads s ! i) (cc_words s) = Some (h, m)"
    "linked m h (span_kept ?t (L i))" "\<And>q. q \<notin> set (L i) \<Longrightarrow> m q = cc_words s q"
    by (rule v2_unlink_list [OF D(3) [OF i'], of "t_addr ?t" "t_addr ?t + t_pages ?t * v2_page",
          folded span_kept_def [of ?t, unfolded v2_covers_def]]) blast
  obtain s' where s': "v2_update_span k n i s = Some s'" "cc_words s' = m" "cc_heads s' = (cc_heads s)[i := h]"
    "cc_delays s' = cc_delays s"
    using True u(1) by (simp add: v2_update_span_def Let_def)
  have sub: "set (span_kept ?t (L i)) \<subseteq> set (L i)" by (auto simp: span_kept_def)
  have "v2_lists s' (L(i := span_kept ?t (L i)))"
  proof (rule v2_lists_update [OF ok i' _ s'(3)])
    fix j q assume "j < 56" "j \<noteq> i" "q \<in> set (L j)"
    then show "cc_words s' q = cc_words s q" using u(3) [of q] D(4) [OF _ i'] by (auto simp: s')
  next
    fix j assume "j < 56" "j \<noteq> i"
    then show "set (L j) \<inter> set (span_kept ?t (L i)) = {}" using D(4) [OF _ i'] sub by blast
  qed (use u D(2) s' in simp_all)
  with s' True u(3) show ?thesis by auto
qed

lemma v2_updates_lists:
  "v2_lists s L \<Longrightarrow> i < class_count \<Longrightarrow>
     \<exists>s' xs. v2_updates hits i is s = Some s' \<and> v2_lists s' (L(i := xs)) \<and> set xs \<subseteq> set (L i)
       \<and> (\<forall>q. q \<notin> set (L i) \<longrightarrow> cc_words s' q = cc_words s q)"
proof (induction "is" arbitrary: s L)
  case Nil
  then have "v2_lists s (L(i := L i))" by (simp only: fun_upd_triv)
  then show ?case unfolding v2_updates.simps by blast
next
  case (Cons k ks)
  let ?t = "cc_trackers s ! k" and ?n = "count_list hits k"
  let ?ys = "if wadd (t_free ?t) ?n = t_blocks ?t then span_kept ?t (L i) else L i"
  from v2_update_span_lists [OF Cons.prems, of k ?n] obtain s1 where
    s1: "v2_update_span k ?n i s = Some s1" "v2_lists s1 (L(i := ?ys))"
      "\<forall>q. q \<notin> set (L i) \<longrightarrow> cc_words s1 q = cc_words s q" by blast
  have sub: "set ?ys \<subseteq> set (L i)" by (auto simp: span_kept_def)
  from Cons.IH [OF s1(2) Cons.prems(2)] obtain s' xs where
    "v2_updates hits i ks s1 = Some s'" "v2_lists s' (L(i := xs))" "set xs \<subseteq> set ?ys"
    "\<forall>q. q \<notin> set ?ys \<longrightarrow> cc_words s' q = cc_words s1 q"
    unfolding fun_upd_same fun_upd_upd by blast
  moreover from this(3) sub have "set xs \<subseteq> set (L i)" by (rule subset_trans)
  moreover have "\<forall>q. q \<notin> set (L i) \<longrightarrow> cc_words s' q = cc_words s q"
    using s1(3) calculation(4) sub by (metis subsetD)
  ultimately show ?case unfolding v2_updates.simps s1(1) Option.bind.simps by blast
qed

lemma v2_delayed_return_lists:
  assumes "v2_lists s L" "i < class_count"
  shows "\<exists>s' xs. v2_delayed_return order later i s = Some s' \<and> v2_lists s' (L(i := xs)) \<and> set xs \<subseteq> set (L i)
       \<and> (\<forall>q. q \<notin> set (L i) \<longrightarrow> cc_words s' q = cc_words s q)"
proof -
  let ?s = "s\<lparr>cc_delays := (cc_delays s)[i := 0], cc_last := (cc_last s)[i := later]\<rparr>"
  have "v2_walk (cc_words s) (cc_heads s ! i) = Some (L i)"
    using v2_walk_linked v2_listsD(3) [OF assms(1)] assms(2) by simp
  moreover have "v2_lists ?s L" using assms(1) by (simp add: v2_lists_def)
  ultimately show ?thesis
    using v2_updates_lists [of ?s L i "v2_hits (cc_trackers s) (L i)" order] assms(2)
    by (auto simp: v2_delayed_return_def)
qed

lemma v2_return_lists:
  assumes "v2_lists s L" "i < class_count"
    and "linked (cc_words s) start xs" "xs \<noteq> []" "length xs \<le> bytes div get_size i"
    and "\<And>j. j < class_count \<Longrightarrow> set (L j) \<inter> set xs = {}"
  shows "\<exists>s' ys. v2_return_range order now later start bytes i s = Some s' \<and> v2_lists s' (L(i := ys))
      \<and> set ys \<subseteq> set (xs @ L i)
      \<and> (\<not> v2_should_return i (wadd (cc_delays s ! i) 1) now s \<longrightarrow> ys = xs @ L i)
      \<and> (\<forall>q. q \<notin> set (xs @ L i) \<longrightarrow> cc_words s' q = cc_words s q)"
proof -
  let ?t = "v2_splice start bytes i s"
  have start: "start \<noteq> 0" using assms(3,4) by (cases xs) auto
  have t: "v2_lists ?t (L(i := xs @ L i))" by (rule v2_splice_lists [OF assms])
  have "cc_delays ?t ! i = wadd (cc_delays s ! i) 1" "cc_last ?t = cc_last s"
    using v2_listsD(2) [OF assms(1)] assms(2) by (simp_all add: v2_splice_def Let_def)
  note dl = this
  have "chain_end (cc_words s) start 1 (bytes div get_size i) = last xs"
    by (rule chain_end_last) (use assms(3-5) in simp_all)
  then have w: "cc_words ?t q = cc_words s q" if "q \<notin> set (xs @ L i)" for q
    using that last_in_set [OF assms(4)] by (auto simp: v2_splice_def Let_def)
  from dl have sr: "v2_should_return i (cc_delays ?t ! i) now ?t = v2_should_return i (wadd (cc_delays s ! i) 1) now s"
    by (simp add: v2_should_return_def)
  show ?thesis
  proof (cases "v2_should_return i (wadd (cc_delays s ! i) 1) now s")
    case True
    from v2_delayed_return_lists [OF t assms(2), of order later] obtain s' ys where
      "v2_delayed_return order later i ?t = Some s'" "v2_lists s' (L(i := ys))" "set ys \<subseteq> set (xs @ L i)"
      "\<forall>q. q \<notin> set (xs @ L i) \<longrightarrow> cc_words s' q = cc_words ?t q" unfolding fun_upd_same fun_upd_upd by blast
    with True start sr assms(2) w show ?thesis
      by (auto simp: v2_return_range_def Let_def intro!: exI [of _ ys])
  next
    case False
    with start sr assms(2) t w show ?thesis by (auto simp: v2_return_range_def Let_def)
  qed
qed

text \<open>
  C34: the central cache of the second version, whose lists are words of the free blocks themselves,
  does on the lists what it means to. A fetch hands out the first block and takes it off the list.
  A return, of a chain that is no longer than its count, always comes back: the chain is in front of
  the list, and a delayed return can only take blocks off the list of its class.
\<close>

theorem v2_central_lists:
  assumes "v2_lists s L" "i < class_count"
  shows "(\<forall>x xs. L i = x # xs \<longrightarrow>
      (\<exists>s'. v2_fetch_range memory i s = (x, s') \<and> v2_lists s' (L(i := xs)) \<and> cc_words s' x = 0))
    \<and> (\<forall>start xs bytes. linked (cc_words s) start xs \<and> xs \<noteq> [] \<and> length xs \<le> bytes div get_size i
          \<and> (\<forall>j < class_count. set (L j) \<inter> set xs = {}) \<longrightarrow>
        (\<exists>s' ys. v2_return_range order now later start bytes i s = Some s' \<and> v2_lists s' (L(i := ys))
          \<and> set ys \<subseteq> set (xs @ L i)
          \<and> (\<not> v2_should_return i (wadd (cc_delays s ! i) 1) now s \<longrightarrow> ys = xs @ L i)))"
proof (intro conjI allI impI)
  fix x xs assume "L i = x # xs"
  from v2_fetch_listed [OF assms this] show "\<exists>s'. v2_fetch_range memory i s = (x, s')
    \<and> v2_lists s' (L(i := xs)) \<and> cc_words s' x = 0" by (metis fun_upd_same)
next
  fix start xs bytes
  assume "linked (cc_words s) start xs \<and> xs \<noteq> [] \<and> length xs \<le> bytes div get_size i
    \<and> (\<forall>j < class_count. set (L j) \<inter> set xs = {})"
  then show "\<exists>s' ys. v2_return_range order now later start bytes i s = Some s' \<and> v2_lists s' (L(i := ys))
      \<and> set ys \<subseteq> set (xs @ L i)
      \<and> (\<not> v2_should_return i (wadd (cc_delays s ! i) 1) now s \<longrightarrow> ys = xs @ L i)"
    using v2_return_lists [OF assms, of start xs bytes order now later] by fast
qed

lemma v2_central_lists_witness:
  "let s = v2_central_new v2_pages_new (\<lambda>_. 0) 0 in
     \<exists>s' ys. v2_return_range [] 10 10 4096 8 0 s = Some s' \<and> v2_lists s' ((\<lambda>_. [])(0 := ys)) \<and> ys = [4096]"
proof -
  let ?s = "v2_central_new v2_pages_new (\<lambda>_. 0) 0"
  have "v2_lists ?s (\<lambda>_. [])" by (simp add: v2_lists_def v2_central_new_def)
  from conjunct2 [OF v2_central_lists [OF this, of 0 None "[]" 10 10, simplified class_count_eval, OF zero_less_numeral],
      THEN spec, THEN spec, THEN spec, of 4096 "[4096]" 8] have
    "linked (cc_words ?s) 4096 [4096] \<and> [4096::nat] \<noteq> [] \<and> length [4096::nat] \<le> 8 div get_size 0
        \<and> (\<forall>j < class_count. set [] \<inter> set [4096::nat] = {}) \<longrightarrow>
      (\<exists>s' ys. v2_return_range [] 10 10 4096 8 0 ?s = Some s' \<and> v2_lists s' ((\<lambda>_. [])(0 := ys))
        \<and> set ys \<subseteq> set ([4096] @ [])
        \<and> (\<not> v2_should_return 0 (wadd (cc_delays ?s ! 0) 1) 10 ?s \<longrightarrow> ys = [4096] @ []))" by (simp only: class_count_eval)
  then show ?thesis
    by (auto simp: v2_central_new_def get_size_def size_table_eval v2_should_return_def wadd_def Let_def)
qed

section \<open>Defects of the delayed return\<close>

text \<open>
  When the first free block of the class is not in the span that is complete, its whole list is lost.
\<close>

lemma v2_list_lost:
  assumes "v2_lists s L" "i < class_count" "L i = x # xs" "\<not> v2_covers (cc_trackers s ! k) x"
    and "wadd (t_free (cc_trackers s ! k)) n = t_blocks (cc_trackers s ! k)"
  shows "\<exists>s'. v2_update_span k n i s = Some s' \<and> v2_lists s' (L(i := []))"
proof -
  have "span_kept (cc_trackers s ! k) (L i) = []" using assms(3,4) by (simp add: span_kept_def)
  with v2_update_span_lists [OF assms(1,2), of k n] assms(5) show ?thesis by auto
qed

text \<open>
  A block is handed out twice. Class 39 has blocks of 16384 bytes, two to a span. Both blocks of the
  span at 1048576 and the first of the span at 2097152 are in use when the first of them to come back
  triggers a delayed return. It adds the listed block of the second span to a count that already holds it,
  finds the span complete and frees it, and the next fetch hands its first block out again.
\<close>

lemma v2_delayed_return_frees_used_span:
  "let s0 = v2_central_new v2_pages_new (\<lambda>_. 0) 0;
       (a, s1) = v2_fetch_range (Some 1048576) 39 s0;
       (b, s2) = v2_fetch_range None 39 s1;
       (c, s3) = v2_fetch_range (Some 2097152) 39 s2 in
   (a, b, c) = (1048576, 1064960, 2097152)
   \<and> (case v2_return_range [0, 1] 1000 1000 b 16384 39 s3 of
        None \<Rightarrow> False
      | Some s4 \<Rightarrow> fst (v2_fetch_range None 39 s4) = c)"
proof -
  note evals = v2_central_new_def v2_fetch_range_def v2_fetch_pages_def v2_span_pages_def v2_allocate_span_def
    v2_system_alloc_def v2_cut_def v2_get_tracker_def v2_covers_def v2_pages_new_def get_size_def size_table_eval
    v2_page_def wmul_def wsub_def wadd_def Let_def
  note more = v2_return_range_def v2_splice_def chain_end.simps v2_should_return_def v2_delayed_return_def
    v2_walk.simps v2_hits_def map_filter_simps v2_update_span_def v2_unlink.simps v2_deallocate_span_def v2_merge_next_def
    v2_merge_prev_def v2_remove_def v2_push_def put_list_def list_of_def pages_of_def
  show ?thesis by (simp add: evals more upt_rec)
qed

end
