(* ===== verification/Kama2_Threads.thy ===== *)
theory Kama2_Threads
  imports Kama2_Central
begin

text \<open>
  The thread caches of the allocator's second version (vendor_memorypool/v2/src/ThreadCache.cpp),
  which keep lists through the same words as the central cache. A call works on the state of its
  thread and on the central cache; \<open>None\<close> is a loop that does not return. What \<open>malloc\<close> returned and
  the arguments of the central cache's calls are arguments.
\<close>

section \<open>Operations\<close>

record v2_thread =
  tl_heads :: "nat list"
  tl_counts :: "nat list"

definition v2_thread_new :: v2_thread where
  "v2_thread_new = \<lparr>tl_heads = replicate class_count 0, tl_counts = replicate class_count 0\<rparr>"

definition v2_fetch_central ::
    "nat option \<Rightarrow> nat \<Rightarrow> v2_thread \<times> v2_central \<Rightarrow> (nat \<times> v2_thread \<times> v2_central) option" where
  "v2_fetch_central memory i = (\<lambda>(t, s).
     (case v2_fetch_range memory i s of (start, s1) \<Rightarrow>
        if start = 0 then Some (0, t, s1)
        else let next_block = cc_words s1 start in
          Option.bind (v2_walk (cc_words s1) next_block)
            (\<lambda>bs. Some (start, t\<lparr>tl_heads := (tl_heads t)[i := next_block],
               tl_counts := (tl_counts t)[i := wadd (tl_counts t ! i) (length bs)]\<rparr>, s1))))"

definition v2_allocate ::
    "nat \<Rightarrow> nat option \<Rightarrow> nat \<Rightarrow> v2_thread \<times> v2_central \<Rightarrow> (nat \<times> v2_thread \<times> v2_central) option" where
  "v2_allocate malloc memory bytes = (\<lambda>(t, s).
     (let n = (if bytes = 0 then k_alignment else bytes) in
      if n > max_bytes then Some (malloc, t, s)
      else let i = v2_get_index n; ptr = tl_heads t ! i in
        if ptr \<noteq> 0
        then Some (ptr, t\<lparr>tl_counts := (tl_counts t)[i := wsub (tl_counts t ! i) 1],
               tl_heads := (tl_heads t)[i := cc_words s ptr]\<rparr>, s)
        else v2_fetch_central memory i (t, s)))"

definition v2_threshold :: "nat \<Rightarrow> nat" where
  "v2_threshold i = min (max 8 (32 * 1024 div get_size i)) 256"

definition v2_keeps_too_many :: "nat \<Rightarrow> v2_thread \<Rightarrow> bool" where
  "v2_keeps_too_many i t \<longleftrightarrow> tl_counts t ! i > v2_threshold i"

text \<open>The loop that looks for the last block to keep, after \<open>j\<close> of its \<open>keep - 1\<close> rounds.\<close>

function v2_split :: "(nat \<Rightarrow> nat) \<Rightarrow> nat \<Rightarrow> nat \<Rightarrow> nat \<Rightarrow> nat \<Rightarrow> nat \<Rightarrow> nat \<times> nat" where
  "v2_split m b j keep batch n =
     (if j < keep - 1
      then (if m b = 0 then (0, batch - (j + 1)) else v2_split m (m b) (j + 1) keep batch n)
      else (b, n))"
  by pat_completeness auto
termination by (relation "measure (\<lambda>(m, b, j, keep, batch, n). keep - j)") auto

declare v2_split.simps [simp del]

definition v2_return_central ::
    "nat list \<Rightarrow> int \<Rightarrow> int \<Rightarrow> nat \<Rightarrow> nat \<Rightarrow> v2_thread \<times> v2_central \<Rightarrow> (v2_thread \<times> v2_central) option" where
  "v2_return_central order now later start bytes = (\<lambda>(t, s).
     (let i = v2_get_index bytes; aligned = v2_round_up bytes; batch = tl_counts t ! i in
      if batch \<le> 1 then Some (t, s)
      else let keep = max (batch div 4) 1 in
        (case v2_split (cc_words s) start 0 keep batch (batch - keep) of (b, n) \<Rightarrow>
           if b = 0 then Some (t, s)
           else let next_block = cc_words s b; s1 = s\<lparr>cc_words := (cc_words s)(b := 0)\<rparr>;
                    t1 = t\<lparr>tl_heads := (tl_heads t)[i := start], tl_counts := (tl_counts t)[i := keep]\<rparr> in
             if n > 0 \<and> next_block \<noteq> 0
             then Option.bind (v2_return_range order now later next_block (wmul n aligned) i s1)
                    (\<lambda>s2. Some (t1, s2))
             else Some (t1, s1))))"

definition v2_deallocate ::
    "nat list \<Rightarrow> int \<Rightarrow> int \<Rightarrow> nat \<Rightarrow> nat \<Rightarrow> v2_thread \<times> v2_central \<Rightarrow> (v2_thread \<times> v2_central) option" where
  "v2_deallocate order now later ptr bytes = (\<lambda>(t, s).
     (if bytes > max_bytes then Some (t, s)
      else let i = v2_get_index bytes;
          s1 = s\<lparr>cc_words := (cc_words s)(ptr := tl_heads t ! i)\<rparr>;
          t1 = t\<lparr>tl_heads := (tl_heads t)[i := ptr], tl_counts := (tl_counts t)[i := wadd (tl_counts t ! i) 1]\<rparr> in
        if v2_keeps_too_many i t1
        then v2_return_central order now later (tl_heads t1 ! i) bytes (t1, s1)
        else Some (t1, s1)))"

text \<open>The destructor of a thread's cache.\<close>

fun v2_give_up ::
    "(nat \<Rightarrow> nat list) \<Rightarrow> (nat \<Rightarrow> int) \<Rightarrow> (nat \<Rightarrow> int) \<Rightarrow> nat list \<Rightarrow> v2_thread \<times> v2_central
     \<Rightarrow> (v2_thread \<times> v2_central) option" where
  "v2_give_up orders now later [] ts = Some ts"
| "v2_give_up orders now later (i # is) (t, s) =
     (if tl_heads t ! i \<noteq> 0 \<and> tl_counts t ! i > 0
      then Option.bind
             (v2_return_range (orders i) (now i) (later i) (tl_heads t ! i)
                (wmul (tl_counts t ! i) (get_size i)) i s)
             (\<lambda>s1. v2_give_up orders now later is
                (t\<lparr>tl_heads := (tl_heads t)[i := 0], tl_counts := (tl_counts t)[i := 0]\<rparr>, s1))
      else v2_give_up orders now later is (t, s))"

definition v2_thread_exit ::
    "(nat \<Rightarrow> nat list) \<Rightarrow> (nat \<Rightarrow> int) \<Rightarrow> (nat \<Rightarrow> int) \<Rightarrow> v2_thread \<times> v2_central
     \<Rightarrow> (v2_thread \<times> v2_central) option" where
  "v2_thread_exit orders now later = v2_give_up orders now later [0..<class_count]"

section \<open>The lists of a thread\<close>

text \<open>
  The lists \<open>T\<close> of a thread in the memory \<open>m\<close>: each count is the length of its list, and no list is
  longer than the threshold of its class.
\<close>

definition v2_local :: "(nat \<Rightarrow> nat) \<Rightarrow> v2_thread \<Rightarrow> (nat \<Rightarrow> nat list) \<Rightarrow> bool" where
  "v2_local m t T \<longleftrightarrow>
     length (tl_heads t) = class_count \<and> length (tl_counts t) = class_count
     \<and> (\<forall>i < class_count. linked m (tl_heads t ! i) (T i) \<and> tl_counts t ! i = length (T i)
          \<and> length (T i) \<le> v2_threshold i)
     \<and> (\<forall>i < class_count. \<forall>j < class_count. i \<noteq> j \<longrightarrow> set (T i) \<inter> set (T j) = {})"

definition v2_thread_ok ::
    "v2_thread \<times> v2_central \<Rightarrow> (nat \<Rightarrow> nat list) \<Rightarrow> (nat \<Rightarrow> nat list) \<Rightarrow> bool" where
  "v2_thread_ok = (\<lambda>(t, s) T L. v2_lists s L \<and> v2_local (cc_words s) t T
     \<and> (\<forall>i < class_count. \<forall>j < class_count. set (T i) \<inter> set (L j) = {}))"

lemma v2_thread_okD:
  assumes "v2_thread_ok (t, s) T L"
  shows "v2_lists s L" "v2_local (cc_words s) t T" "i < 56 \<Longrightarrow> j < 56 \<Longrightarrow> set (T i) \<inter> set (L j) = {}"
  using assms by (simp_all add: v2_thread_ok_def)

lemma v2_thread_okI:
  assumes "v2_lists s L" "v2_local (cc_words s) t T" "\<And>j k. j < 56 \<Longrightarrow> k < 56 \<Longrightarrow> set (T j) \<inter> set (L k) = {}"
  shows "v2_thread_ok (t, s) T L"
  using assms by (simp add: v2_thread_ok_def)

lemma v2_localD:
  assumes "v2_local m t T"
  shows "length (tl_heads t) = 56" "length (tl_counts t) = 56"
    "i < 56 \<Longrightarrow> linked m (tl_heads t ! i) (T i)" "i < 56 \<Longrightarrow> tl_counts t ! i = length (T i)"
    "i < 56 \<Longrightarrow> length (T i) \<le> v2_threshold i"
    "i < 56 \<Longrightarrow> j < 56 \<Longrightarrow> i \<noteq> j \<Longrightarrow> set (T i) \<inter> set (T j) = {}"
  using assms by (simp_all add: v2_local_def)

lemma v2_local_update:
  assumes ok: "v2_local m t T" "i < 56" and xs: "linked m' h xs" "length xs \<le> v2_threshold i"
    and t': "tl_heads t' = (tl_heads t)[i := h]" "tl_counts t' = (tl_counts t)[i := length xs]"
    and frame: "\<And>j q. j < 56 \<Longrightarrow> j \<noteq> i \<Longrightarrow> q \<in> set (T j) \<Longrightarrow> m' q = m q"
    and disj: "\<And>j. j < 56 \<Longrightarrow> j \<noteq> i \<Longrightarrow> set (T j) \<inter> set xs = {}"
  shows "v2_local m' t' (T(i := xs))"
proof -
  note D = v2_localD [OF ok(1)]
  have "linked m' (tl_heads t' ! j) ((T(i := xs)) j) \<and> tl_counts t' ! j = length ((T(i := xs)) j)
      \<and> length ((T(i := xs)) j) \<le> v2_threshold j" if "j < 56" for j
  proof (cases "j = i")
    case True
    then show ?thesis using ok(2) xs t' D(1,2) by simp
  next
    case False
    have "linked m' (tl_heads t ! j) (T j) = linked m (tl_heads t ! j) (T j)"
      by (rule linked_cong) (rule frame [OF that False])
    with False D(3,4,5) [OF that] show ?thesis by (simp add: t')
  qed
  moreover have "set ((T(i := xs)) j) \<inter> set ((T(i := xs)) k) = {}" if "j < 56" "k < 56" "j \<noteq> k" for j k
    using that D(6) [OF that] disj [of j] disj [of k] by (auto simp: disjoint_iff)
  ultimately show ?thesis using D(1,2) t' unfolding v2_local_def class_count_eval by simp
qed

lemma v2_local_cong:
  assumes "v2_local m t T" "\<And>j q. j < 56 \<Longrightarrow> q \<in> set (T j) \<Longrightarrow> m' q = m q"
  shows "v2_local m' t T"
proof -
  have "linked m' (tl_heads t ! j) (T j)" if "j < 56" for j
    using linked_cong [of "T j" m' m "tl_heads t ! j"] assms(2) [OF that] v2_localD(3) [OF assms(1) that] by simp
  with assms(1) show ?thesis unfolding v2_local_def class_count_eval by blast
qed

lemma v2_lists_cong:
  assumes "v2_lists s L" "cc_heads s' = cc_heads s" "cc_delays s' = cc_delays s"
    and "\<And>j q. j < 56 \<Longrightarrow> q \<in> set (L j) \<Longrightarrow> cc_words s' q = cc_words s q"
  shows "v2_lists s' L"
proof -
  have "linked (cc_words s') (cc_heads s ! j) (L j)" if "j < 56" for j
    using linked_cong [of "L j" "cc_words s'" "cc_words s" "cc_heads s ! j"] assms(4) [OF that]
      v2_listsD(3) [OF assms(1) that] by simp
  with assms(1) show ?thesis unfolding v2_lists_def class_count_eval assms(2,3) by blast
qed

lemma linked_cut:
  assumes "linked m a (xs @ ys)" "xs \<noteq> []"
  shows "linked (m(last xs := 0)) a xs" "linked m (m (last xs)) ys"
  using assms linked_distinct [OF assms(1)]
proof (induction xs arbitrary: a)
  case (Cons x xs)
  { case 1 then show ?case using Cons.IH(1) [of "m x"] by (cases "xs = []") auto }
  { case 2 then show ?case using Cons.IH(2) [of "m x"] by (cases "xs = []") auto }
qed simp_all

lemma v2_split_nth:
  "linked m b xs \<Longrightarrow> j < keep \<Longrightarrow> keep - j \<le> length xs \<Longrightarrow>
     v2_split m b j keep batch n = (xs ! (keep - 1 - j), n)"
proof (induction xs arbitrary: b j)
  case (Cons x xs)
  show ?case
  proof (cases "j < keep - 1")
    case True
    with Cons.prems have ne: "xs \<noteq> []" by auto
    then have "m x \<noteq> 0" using Cons.prems(1) by (cases xs) auto
    moreover have "v2_split m (m x) (j + 1) keep batch n = (xs ! (keep - 1 - (j + 1)), n)"
      using Cons.prems True by (intro Cons.IH) auto
    moreover have "keep - 1 - j = Suc (keep - 1 - (j + 1))" using True by simp
    ultimately show ?thesis using Cons.prems(1) True by (subst v2_split.simps) simp
  next
    case False
    with Cons.prems have "keep - 1 - j = 0" by simp
    with False Cons.prems(1) show ?thesis by (subst v2_split.simps) simp
  qed
qed simp

section \<open>Allocation\<close>

lemma v2_index_less: "bytes \<le> max_bytes \<Longrightarrow> v2_get_index bytes < 56"
  by (simp add: v2_search_index get_index_less)

lemma v2_threshold_bounds: "8 \<le> v2_threshold i" "v2_threshold i \<le> 256"
  by (simp_all add: v2_threshold_def)

text \<open>The effective size of a request and its class.\<close>

definition v2_bytes :: "nat \<Rightarrow> nat" where
  "v2_bytes bytes = (if bytes = 0 then k_alignment else bytes)"

lemma v2_allocate_local:
  assumes ok: "v2_thread_ok (t, s) T L" and b: "v2_bytes bytes \<le> max_bytes" "i = v2_get_index (v2_bytes bytes)"
    and l: "T i = x # xs"
  shows "\<exists>t'. v2_allocate malloc memory bytes (t, s) = Some (x, t', s) \<and> v2_thread_ok (t', s) (T(i := xs)) L"
proof -
  have i: "i < 56" using b by (simp add: v2_index_less)
  note D = v2_thread_okD [OF ok]
  note E = v2_localD [OF D(2)]
  have x: "tl_heads t ! i = x" "x \<noteq> 0" "linked (cc_words s) (cc_words s x) xs" using E(3) [OF i] l by auto
  let ?t = "t\<lparr>tl_counts := (tl_counts t)[i := wsub (tl_counts t ! i) 1], tl_heads := (tl_heads t)[i := cc_words s x]\<rparr>"
  have n: "wsub (tl_counts t ! i) 1 = length xs"
    using E(4,5) [OF i] l v2_threshold_bounds(2) [of i] by (simp add: wsub_exact)
  have "v2_local (cc_words s) ?t (T(i := xs))"
    using E(6) [OF _ i] E(5) [OF i] l x(3) n
    by (intro v2_local_update [OF D(2) i, where h = "cc_words s x"]) auto
  then have "v2_thread_ok (?t, s) (T(i := xs)) L"
    using D(1) D(3) l i unfolding v2_thread_ok_def by (auto simp: disjoint_iff)
  moreover have "v2_allocate malloc memory bytes (t, s) = Some (x, ?t, s)"
    using b x by (simp add: v2_allocate_def v2_bytes_def Let_def split: if_splits)
  ultimately show ?thesis by blast
qed

text \<open>With an empty list the central cache is asked, and it severs the one block it hands out.\<close>

lemma v2_allocate_central:
  assumes ok: "v2_thread_ok (t, s) T L" and b: "v2_bytes bytes \<le> max_bytes" "i = v2_get_index (v2_bytes bytes)"
    and empty: "T i = []"
    and f: "v2_fetch_range memory i s = (x, s')" "x \<noteq> 0" "v2_lists s' L'" "cc_words s' x = 0"
    and frame: "\<And>j q. j < 56 \<Longrightarrow> q \<in> set (T j) \<Longrightarrow> cc_words s' q = cc_words s q"
    and disj: "\<And>j k. j < 56 \<Longrightarrow> k < 56 \<Longrightarrow> set (T j) \<inter> set (L' k) = {}"
  shows "\<exists>t'. v2_allocate malloc memory bytes (t, s) = Some (x, t', s') \<and> v2_thread_ok (t', s') T L'"
proof -
  have i: "i < 56" using b by (simp add: v2_index_less)
  note D = v2_thread_okD [OF ok]
  note E = v2_localD [OF D(2)]
  have h: "tl_heads t ! i = 0" "tl_counts t ! i = 0" using E(3,4) [OF i] empty by simp_all
  have w: "v2_walk (cc_words s') 0 = Some []" by (rule v2_walk_linked) simp
  let ?t = "t\<lparr>tl_heads := (tl_heads t)[i := 0], tl_counts := (tl_counts t)[i := 0]\<rparr>"
  have "(tl_heads t)[i := 0] = tl_heads t" "(tl_counts t)[i := 0] = tl_counts t"
    using h list_update_id [of "tl_heads t" i] list_update_id [of "tl_counts t" i] by simp_all
  then have "?t = t" by simp
  moreover have "v2_allocate malloc memory bytes (t, s) = v2_fetch_central memory i (t, s)"
    using b(1) h(1) unfolding v2_allocate_def prod.case Let_def v2_bytes_def [symmetric] b(2) [symmetric] by simp
  moreover have "v2_fetch_central memory i (t, s) = Some (x, ?t, s')"
    by (simp add: v2_fetch_central_def f(1,2,4) w h(2) wadd_def)
  moreover have "v2_thread_ok (t, s') T L'"
    using f(3) v2_local_cong [OF D(2) frame] disj by (simp add: v2_thread_ok_def)
  ultimately show ?thesis by metis
qed

section \<open>Deallocation\<close>

lemma v2_push_local:
  assumes ok: "v2_thread_ok (t, s) T L" and i: "i < 56" and p: "ptr \<noteq> 0"
    and unlisted: "\<forall>j < 56. ptr \<notin> set (T j) \<and> ptr \<notin> set (L j)"
    and s1: "s1 = s\<lparr>cc_words := (cc_words s)(ptr := tl_heads t ! i)\<rparr>"
  shows "v2_lists s1 L" "linked (cc_words s1) ptr (ptr # T i)" "wadd (tl_counts t ! i) 1 = length (ptr # T i)"
    "j < 56 \<Longrightarrow> q \<in> set (T j) \<Longrightarrow> cc_words s1 q = cc_words s q"
proof -
  note D = v2_thread_okD [OF ok]
  note E = v2_localD [OF D(2)] and new = unlisted [rule_format]
  show "v2_lists s1 L" using new by (intro v2_lists_cong [OF D(1)]) (auto simp: s1)
  show "linked (cc_words s1) ptr (ptr # T i)" using E(3) [OF i] new [OF i] p by (simp add: s1)
  show "wadd (tl_counts t ! i) 1 = length (ptr # T i)"
    using E(4,5) [OF i] v2_threshold_bounds(2) [of i] by (simp add: wadd_exact)
  show "j < 56 \<Longrightarrow> q \<in> set (T j) \<Longrightarrow> cc_words s1 q = cc_words s q" using new [of j] by (auto simp: s1)
qed

text \<open>Above the threshold a quarter of the list is kept and the rest goes to the central cache.\<close>

definition v2_kept :: "nat \<Rightarrow> nat" where
  "v2_kept n = max (n div 4) 1"

text \<open>Whether a return of blocks of class \<open>i\<close> at the time \<open>now\<close> triggers a delayed return.\<close>

definition v2_delays :: "nat \<Rightarrow> int \<Rightarrow> v2_central \<Rightarrow> bool" where
  "v2_delays i now s \<longleftrightarrow> v2_should_return i (wadd (cc_delays s ! i) 1) now s"

lemma v2_return_central_splits:
  assumes "v2_get_index bytes = i" "v2_round_up bytes = c" "tl_counts t ! i = n" "1 < n"
    and "v2_split (cc_words s) start 0 (v2_kept n) n (n - v2_kept n) = (b, r)" "b \<noteq> 0" "0 < r" "cc_words s b \<noteq> 0"
    and "v2_return_range order now later (cc_words s b) (wmul r c) i (s\<lparr>cc_words := (cc_words s)(b := 0)\<rparr>) = Some s'"
  shows "v2_return_central order now later start bytes (t, s) =
    Some (t\<lparr>tl_heads := (tl_heads t)[i := start], tl_counts := (tl_counts t)[i := v2_kept n]\<rparr>, s')"
  using assms unfolding v2_return_central_def v2_kept_def by (simp add: Let_def)

lemma v2_deallocate_lists:
  assumes ok: "v2_thread_ok (t, s) T L" and b: "bytes \<le> max_bytes" "i = v2_get_index bytes" and p: "ptr \<noteq> 0"
    and unlisted: "\<forall>j < 56. ptr \<notin> set (T j) \<and> ptr \<notin> set (L j)"
  shows "\<exists>t' s' ys. v2_deallocate order now later ptr bytes (t, s) = Some (t', s') \<and>
     (if length (ptr # T i) \<le> v2_threshold i
      then ys = L i \<and> v2_thread_ok (t', s') (T(i := ptr # T i)) L
      else v2_thread_ok (t', s') (T(i := take (v2_kept (length (ptr # T i))) (ptr # T i))) (L(i := ys))
        \<and> set ys \<subseteq> set (drop (v2_kept (length (ptr # T i))) (ptr # T i) @ L i)
        \<and> (\<not> v2_delays i now s \<longrightarrow> ys = drop (v2_kept (length (ptr # T i))) (ptr # T i) @ L i))"
proof -
  have i: "i < 56" using b by (simp add: v2_index_less)
  note D = v2_thread_okD [OF ok]
  note E = v2_localD [OF D(2)] and new = unlisted [rule_format]
  let ?xs = "ptr # T i"
  define s1 where "s1 = s\<lparr>cc_words := (cc_words s)(ptr := tl_heads t ! i)\<rparr>"
  define t1 where "t1 = t\<lparr>tl_heads := (tl_heads t)[i := ptr],
      tl_counts := (tl_counts t)[i := wadd (tl_counts t ! i) 1]\<rparr>"
  note P = v2_push_local [OF ok i p unlisted s1_def]
  have t1: "tl_heads t1 ! i = ptr" "tl_counts t1 ! i = length ?xs" "tl_heads t1 = (tl_heads t)[i := ptr]"
    "tl_counts t1 = (tl_counts t)[i := length ?xs]"
    using P(3) E(1,2) i by (simp_all add: t1_def)
  have apart: "set (T j) \<inter> set ?xs = {}" if "j < 56" "j \<noteq> i" for j using E(6) [OF that(1) i that(2)] new [OF that(1)] by auto
  have apart': "set (L j) \<inter> set ?xs = {}" if "j < 56" for j using D(3) [OF i that] new [OF that] by auto
  have run: "v2_deallocate order now later ptr bytes (t, s) =
      (if v2_threshold i < length ?xs then v2_return_central order now later ptr bytes (t1, s1) else Some (t1, s1))"
    using b t1 by (simp add: v2_deallocate_def Let_def s1_def t1_def v2_keeps_too_many_def)
  show ?thesis
  proof (cases "length ?xs \<le> v2_threshold i")
    case True
    have "v2_local (cc_words s1) t1 (T(i := ?xs))"
      by (rule v2_local_update [OF D(2) i P(2) True t1(3,4) P(4) apart])
    moreover have "set ((T(i := ?xs)) j) \<inter> set (L l) = {}" if "j < 56" "l < 56" for j l
      using D(3) [OF that] apart' [OF that(2)] by (cases "j = i") (simp_all add: Int_commute)
    ultimately have "v2_thread_ok (t1, s1) (T(i := ?xs)) L" by (intro v2_thread_okI P(1))
    with True run show ?thesis by simp
  next
    case False
    let ?k = "v2_kept (length ?xs)"
    define Y Z where "Y = take ?k ?xs" and "Z = drop ?k ?xs"
    note YZ = this
    have len: "9 \<le> length ?xs" "length ?xs \<le> 257"
      using False E(5) [OF i] v2_threshold_bounds [of i] by simp_all
    have "0 < v2_kept n" "9 \<le> n \<Longrightarrow> v2_kept n < n" for n by (auto simp: v2_kept_def max_def)
    with len(1) have k: "0 < ?k" "?k < length ?xs" by blast+
    then have ne: "Y \<noteq> []" "Z \<noteq> []" and lY: "length Y = ?k" and lZ: "length Z = length ?xs - ?k"
      by (auto simp: YZ)
    have app: "Y @ Z = ?xs" by (simp only: YZ append_take_drop_id)
    have b: "last Y = ?xs ! (?k - 1)" 
      unfolding last_conv_nth [OF ne(1)] lY unfolding YZ(1) by (rule nth_take) (use k in linarith)
    have split: "v2_split (cc_words s1) ptr 0 ?k (length ?xs) (length ?xs - ?k) = (last Y, length ?xs - ?k)"
      using v2_split_nth [OF P(2), of 0 ?k] k b by simp
    have all: "linked (cc_words s1) ptr (Y @ Z)" using P(2) by (simp only: app)
    note cut = linked_cut [OF all ne(1)]
    have dist: "set Y \<inter> set Z = {}" using linked_distinct [OF all] by simp
    define s2 where "s2 = s1\<lparr>cc_words := (cc_words s1)(last Y := 0)\<rparr>"
    have sub: "set Y \<subseteq> set ?xs" "set Z \<subseteq> set ?xs" unfolding YZ by (rule set_take_subset, rule set_drop_subset)
    have "last Y \<notin> set Z" "last Y \<in> set ?xs" using dist last_in_set [OF ne(1)] sub(1) by auto
    note bs = this
    have bnz: "last Y \<noteq> 0" using linked_nonzero [OF P(2)] bs(2) by metis
    have chain: "linked (cc_words s2) (cc_words s1 (last Y)) Z" using cut(2) bs(1) by (simp add: s2_def)
    have head: "linked (cc_words s2) ptr Y" using cut(1) by (simp add: s2_def)
    have lists2: "v2_lists s2 L"
      by (rule v2_lists_cong [OF P(1)]) (use bs(2) apart' in \<open>auto simp: s2_def disjoint_iff\<close>)
    have pos: "0 < get_size i" "get_size i \<le> max_bytes" using size_table_bounds [OF i] by (simp_all add: get_size_def)
    have "(length ?xs - ?k) * get_size i \<le> 257 * max_bytes" using len pos by (intro mult_le_mono) auto
    then have w: "wmul (length ?xs - ?k) (get_size i) = (length ?xs - ?k) * get_size i"
      by (intro wmul_exact) simp
    have enough: "length Z \<le> wmul (length ?xs - ?k) (get_size i) div get_size i"
      using pos(1) unfolding w lZ by simp
    have ic: "i < class_count" using i by simp
    have zapart: "set (L j) \<inter> set Z = {}" if "j < class_count" for j
      using apart' [of j] sub(2) that by auto
    from v2_return_lists [OF lists2 ic chain ne(2) enough zapart, of order now later] obtain s' ys where
      r: "v2_return_range order now later (cc_words s1 (last Y)) (wmul (length ?xs - ?k) (get_size i)) i s2 = Some s'"
        "v2_lists s' (L(i := ys))" "set ys \<subseteq> set (Z @ L i)"
        "\<forall>q. q \<notin> set (Z @ L i) \<longrightarrow> cc_words s' q = cc_words s2 q"
        "\<not> v2_should_return i (wadd (cc_delays s2 ! i) 1) now s2 \<longrightarrow> ys = Z @ L i" by blast
    have "v2_should_return i (wadd (cc_delays s2 ! i) 1) now s2 = v2_delays i now s"
      by (simp add: v2_delays_def v2_should_return_def s2_def s1_def)
    with r(5) have exact: "\<not> v2_delays i now s \<longrightarrow> ys = Z @ L i" by blast
    define t2 where "t2 = t1\<lparr>tl_heads := (tl_heads t1)[i := ptr], tl_counts := (tl_counts t1)[i := ?k]\<rparr>"
    have nz: "cc_words s1 (last Y) \<noteq> 0" using chain ne(2) by (cases Z) auto
    have "v2_round_up bytes = get_size i" using b assms(2,3) by (simp add: v2_round_up_def)
    note ru = this
    have rest: "0 < length ?xs - ?k" using k by linarith
    have "v2_return_central order now later ptr bytes (t1, s1) = Some (t2, s')"
      unfolding t2_def
      by (rule v2_return_central_splits [OF assms(3) [symmetric] ru t1(2) _ split bnz rest nz r(1) [unfolded s2_def]])
        (use len in linarith)
    then have res: "v2_deallocate order now later ptr bytes (t, s) = Some (t2, s')" unfolding run using False by (simp only: not_le if_True)
    have ydisj: "set Y \<inter> set (Z @ L i) = {}" using dist apart' [OF i] sub(1) by auto
    have "linked (cc_words s') ptr Y"
      using linked_cong [of Y "cc_words s'" "cc_words s2" ptr] head r(4) ydisj by (auto simp: disjoint_iff)
    moreover have "length Y \<le> v2_threshold i"
      unfolding lY using k(2) E(5) [OF i] by simp
    moreover have "tl_heads t2 = (tl_heads t)[i := ptr]" "tl_counts t2 = (tl_counts t)[i := length Y]"
      unfolding lY by (simp_all add: t2_def t1)
    moreover have "cc_words s' q = cc_words s q" if "j < 56" "j \<noteq> i" "q \<in> set (T j)" for j q
    proof -
      have "q \<notin> set ?xs" "q \<notin> set (L i)" using apart [OF that(1,2)] D(3) [OF that(1) i] that(3) by auto
      then have "q \<notin> set (Z @ L i)" "q \<noteq> last Y" using sub bs(2) by auto
      then show ?thesis using r(4) P(4) [OF that(1,3)] by (simp add: s2_def)
    qed
    moreover have "set (T j) \<inter> set Y = {}" if "j < 56" "j \<noteq> i" for j using apart [OF that] sub(1) by auto
    ultimately have "v2_local (cc_words s') t2 (T(i := Y))" by (intro v2_local_update [OF D(2) i])
    moreover have "set ((T(i := Y)) j) \<inter> set ((L(i := ys)) l) = {}" if "j < 56" "l < 56" for j l
    proof -
      have "set Y \<inter> set (L l) = {}" using apart' [OF that(2)] sub(1) by blast
      moreover have "set Y \<inter> set ys = {}" using r(3) ydisj by blast
      moreover have "set (T j) \<inter> set ys = {}" if "j \<noteq> i"
        using apart [OF \<open>j < 56\<close> that] D(3) [OF \<open>j < 56\<close> i] sub(2) r(3) unfolding set_append by blast
      moreover note D(3) [OF that]
      ultimately show ?thesis by (cases "j = i"; cases "l = i") simp_all
    qed
    ultimately have "v2_thread_ok (t2, s') (T(i := Y)) (L(i := ys))"
      using r(2) unfolding v2_thread_ok_def by simp
    then have "v2_thread_ok (t2, s') (T(i := take ?k ?xs)) (L(i := ys))" unfolding YZ .
    moreover have "set ys \<subseteq> set (drop ?k ?xs @ L i)" "\<not> v2_delays i now s \<longrightarrow> ys = drop ?k ?xs @ L i"
      using r(3) exact unfolding YZ .
    ultimately show ?thesis using res False by (intro exI [of _ t2] exI [of _ s'] exI [of _ ys]) simp
  qed
qed

section \<open>The end of a thread\<close>

lemma v2_thread_ok_cong:
  "v2_thread_ok ts T L \<Longrightarrow> (\<And>i. i < 56 \<Longrightarrow> T' i = T i) \<Longrightarrow> v2_thread_ok ts T' L"
  by (cases ts) (simp add: v2_thread_ok_def v2_local_def)

text \<open>One class: its list goes to the central cache.\<close>

lemma v2_give_up_class:
  assumes ok: "v2_thread_ok (t, s) T L" and i: "i < 56" and ne: "T i \<noteq> []"
  shows "tl_heads t ! i \<noteq> 0 \<and> tl_counts t ! i > 0 \<and>
    (\<exists>s' ys. v2_return_range order now later (tl_heads t ! i) (wmul (tl_counts t ! i) (get_size i)) i s = Some s'
      \<and> v2_thread_ok (t\<lparr>tl_heads := (tl_heads t)[i := 0], tl_counts := (tl_counts t)[i := 0]\<rparr>, s') (T(i := [])) (L(i := ys))
      \<and> set ys \<subseteq> set (T i @ L i) \<and> (\<not> v2_delays i now s \<longrightarrow> ys = T i @ L i))"
proof -
  note D = v2_thread_okD [OF ok]
  note E = v2_localD [OF D(2)]
  let ?t = "t\<lparr>tl_heads := (tl_heads t)[i := 0], tl_counts := (tl_counts t)[i := 0]\<rparr>"
  have nz: "tl_heads t ! i \<noteq> 0" "tl_counts t ! i > 0" using E(3,4) [OF i] ne by (cases "T i", auto)+
  have pos: "0 < get_size i" "get_size i \<le> max_bytes" using size_table_bounds [OF i] by (simp_all add: get_size_def)
  have "length (T i) * get_size i \<le> 256 * max_bytes"
    using E(5) [OF i] v2_threshold_bounds(2) [of i] pos by (intro mult_le_mono) auto
  then have "wmul (tl_counts t ! i) (get_size i) = length (T i) * get_size i"
    unfolding E(4) [OF i] by (intro wmul_exact) simp
  then have enough: "length (T i) \<le> wmul (tl_counts t ! i) (get_size i) div get_size i" using pos(1) by simp
  have apart: "set (L j) \<inter> set (T i) = {}" if "j < class_count" for j using D(3) [OF i] that by (simp add: Int_commute)
  have ic: "i < class_count" using i by simp
  from v2_return_lists [OF D(1) ic E(3) [OF i] ne enough apart, of order now later] obtain s' ys where
    r: "v2_return_range order now later (tl_heads t ! i) (wmul (tl_counts t ! i) (get_size i)) i s = Some s'"
      "v2_lists s' (L(i := ys))" "set ys \<subseteq> set (T i @ L i)"
      "\<forall>q. q \<notin> set (T i @ L i) \<longrightarrow> cc_words s' q = cc_words s q"
      "\<not> v2_delays i now s \<longrightarrow> ys = T i @ L i" unfolding v2_delays_def by blast
  have "v2_local (cc_words s') ?t (T(i := []))"
  proof (rule v2_local_update [OF D(2) i, where h = 0])
    fix j q assume j: "j < 56" "j \<noteq> i" "q \<in> set (T j)"
    then have "q \<notin> set (T i @ L i)" using E(6) [OF j(1) i j(2)] D(3) [OF j(1) i] by auto
    then show "cc_words s' q = cc_words s q" using r(4) by blast
  qed simp_all
  moreover have "set ((T(i := [])) j) \<inter> set ((L(i := ys)) k) = {}" if "j < 56" "k < 56" for j k
  proof -
    have "set (T j) \<inter> set ys = {}" if "j \<noteq> i"
      using E(6) [OF \<open>j < 56\<close> i that] D(3) [OF \<open>j < 56\<close> i] r(3) unfolding set_append by blast
    with D(3) [OF that] show ?thesis by (cases "j = i"; cases "k = i") simp_all
  qed
  ultimately have "v2_thread_ok (?t, s') (T(i := [])) (L(i := ys))" by (intro v2_thread_okI r(2))
  with nz r show ?thesis by blast
qed

lemma v2_updates_frame:
  "v2_updates hits i ks s = Some s' \<Longrightarrow> cc_delays s' = cc_delays s \<and> cc_last s' = cc_last s"
proof (induction ks arbitrary: s)
  case (Cons k ks)
  then obtain s1 where s1: "v2_update_span k (count_list hits k) i s = Some s1" "v2_updates hits i ks s1 = Some s'"
    by (auto simp: bind_eq_Some_conv)
  from s1(1) have "cc_delays s1 = cc_delays s \<and> cc_last s1 = cc_last s"
    by (auto simp: v2_update_span_def Let_def bind_eq_Some_conv split: if_splits)
  with Cons.IH [OF s1(2)] show ?case by simp
qed simp

lemma v2_return_frame:
  assumes "v2_return_range order now later start bytes i s = Some s'" "j \<noteq> i"
  shows "v2_delays j nw s' = v2_delays j nw s"
proof -
  have "cc_delays s' ! j = cc_delays s ! j \<and> cc_last s' ! j = cc_last s ! j"
    using assms
    by (auto simp: v2_return_range_def v2_splice_def v2_delayed_return_def Let_def bind_eq_Some_conv
        split: if_splits dest!: v2_updates_frame)
  then show ?thesis by (simp add: v2_delays_def v2_should_return_def)
qed

lemma v2_give_up_lists:
  "v2_thread_ok (t, s) T L \<Longrightarrow> set is \<subseteq> {..<56} \<Longrightarrow> distinct is \<Longrightarrow>
     \<exists>t' s' L'. v2_give_up orders now later is (t, s) = Some (t', s')
       \<and> v2_thread_ok (t', s') (\<lambda>i. if i \<in> set is then [] else T i) L'
       \<and> (\<forall>i. i \<notin> set is \<longrightarrow> L' i = L i)
       \<and> (\<forall>i \<in> set is. set (L' i) \<subseteq> set (T i @ L i)
            \<and> (T i = [] \<or> \<not> v2_delays i (now i) s \<longrightarrow> L' i = T i @ L i))"
proof (induction "is" arbitrary: t s T L)
  case (Cons i ks)
  then have i: "i < 56" "i \<notin> set ks" and ks: "set ks \<subseteq> {..<56}" "distinct ks" by auto
  note D = v2_thread_okD [OF Cons.prems(1)]
  note E = v2_localD [OF D(2)]
  show ?case
  proof (cases "T i = []")
    case True
    then have "tl_heads t ! i = 0" using E(3) [OF i(1)] by simp
    then have run: "v2_give_up orders now later (i # ks) (t, s) = v2_give_up orders now later ks (t, s)" by simp
    from Cons.IH [OF Cons.prems(1) ks] obtain t' s' L' where
      r: "v2_give_up orders now later ks (t, s) = Some (t', s')"
        "v2_thread_ok (t', s') (\<lambda>j. if j \<in> set ks then [] else T j) L'"
        "\<forall>j. j \<notin> set ks \<longrightarrow> L' j = L j"
        "\<forall>j \<in> set ks. set (L' j) \<subseteq> set (T j @ L j) \<and> (T j = [] \<or> \<not> v2_delays j (now j) s \<longrightarrow> L' j = T j @ L j)" by blast
    have "v2_thread_ok (t', s') (\<lambda>j. if j \<in> set (i # ks) then [] else T j) L'"
      by (rule v2_thread_ok_cong [OF r(2)]) (use True in auto)
    with r(1,3,4) True i(2) show ?thesis unfolding run by (intro exI [of _ t'] exI [of _ s'] exI [of _ L']) auto
  next
    case False
    let ?t = "t\<lparr>tl_heads := (tl_heads t)[i := 0], tl_counts := (tl_counts t)[i := 0]\<rparr>"
    from v2_give_up_class [OF Cons.prems(1) i(1) False, of "orders i" "now i" "later i"] obtain s1 ys where
      g: "tl_heads t ! i \<noteq> 0 \<and> tl_counts t ! i > 0"
        "v2_return_range (orders i) (now i) (later i) (tl_heads t ! i) (wmul (tl_counts t ! i) (get_size i)) i s = Some s1"
        "v2_thread_ok (?t, s1) (T(i := [])) (L(i := ys))" "set ys \<subseteq> set (T i @ L i)"
        "\<not> v2_delays i (now i) s \<longrightarrow> ys = T i @ L i" by blast
    have run: "v2_give_up orders now later (i # ks) (t, s) = v2_give_up orders now later ks (?t, s1)"
      using g(1,2) by simp
    from Cons.IH [OF g(3) ks] obtain t' s' L' where
      r: "v2_give_up orders now later ks (?t, s1) = Some (t', s')"
        "v2_thread_ok (t', s') (\<lambda>j. if j \<in> set ks then [] else (T(i := [])) j) L'"
        "\<forall>j. j \<notin> set ks \<longrightarrow> L' j = (L(i := ys)) j"
        "\<forall>j \<in> set ks. set (L' j) \<subseteq> set ((T(i := [])) j @ (L(i := ys)) j)
           \<and> ((T(i := [])) j = [] \<or> \<not> v2_delays j (now j) s1 \<longrightarrow> L' j = (T(i := [])) j @ (L(i := ys)) j)" by blast
    have "v2_thread_ok (t', s') (\<lambda>j. if j \<in> set (i # ks) then [] else T j) L'"
      by (rule v2_thread_ok_cong [OF r(2)]) auto
    moreover have "L' i = ys" using r(3) i(2) by simp
    moreover have "set (L' j) \<subseteq> set (T j @ L j) \<and> (T j = [] \<or> \<not> v2_delays j (now j) s \<longrightarrow> L' j = T j @ L j)"
      if "j \<in> set ks" for j
    proof -
      have "j \<noteq> i" using that i(2) by blast
      with r(4) [rule_format, OF that] v2_return_frame [OF g(2) this, of "now j"] show ?thesis by simp
    qed
    ultimately show ?thesis
      using r(1,3) g(4,5) False unfolding run by (intro exI [of _ t'] exI [of _ s'] exI [of _ L']) auto
  qed
qed auto

text \<open>
  When a thread ends its lists are empty, and each is in front of the list of the central cache; only
  a delayed return takes blocks off that.
\<close>

lemma v2_thread_exit_lists:
  assumes "v2_thread_ok (t, s) T L"
  shows "\<exists>t' s' L'. v2_thread_exit orders now later (t, s) = Some (t', s') \<and> v2_thread_ok (t', s') (\<lambda>_. []) L'
    \<and> (\<forall>i < 56. set (L' i) \<subseteq> set (T i @ L i)
         \<and> (T i = [] \<or> \<not> v2_delays i (now i) s \<longrightarrow> L' i = T i @ L i))"
proof -
  have "set [0..<class_count] \<subseteq> {..<56}" "distinct [0..<class_count]" by auto
  from v2_give_up_lists [OF assms this, of orders now later] obtain t' s' L' where
    r: "v2_give_up orders now later [0..<class_count] (t, s) = Some (t', s')"
      "v2_thread_ok (t', s') (\<lambda>i. if i \<in> set [0..<class_count] then [] else T i) L'"
      "\<forall>i \<in> set [0..<class_count]. set (L' i) \<subseteq> set (T i @ L i)
         \<and> (T i = [] \<or> \<not> v2_delays i (now i) s \<longrightarrow> L' i = T i @ L i)" by blast
  have "v2_thread_ok (t', s') (\<lambda>_. []) L'" by (rule v2_thread_ok_cong [OF r(2)]) simp
  moreover have "\<forall>i < 56. set (L' i) \<subseteq> set (T i @ L i) \<and> (T i = [] \<or> \<not> v2_delays i (now i) s \<longrightarrow> L' i = T i @ L i)"
    using r(3) by simp
  ultimately show ?thesis using r(1) unfolding v2_thread_exit_def by blast
qed

section \<open>A thread's calls\<close>

text \<open>The two ways out when both lists of a class are empty.\<close>

lemma v2_allocate_no_pages:
  assumes ok: "v2_thread_ok (t, s) T L" and b: "v2_bytes bytes \<le> max_bytes" "i = v2_get_index (v2_bytes bytes)"
    and empty: "T i = []" "L i = []" and pages: "v2_fetch_pages memory (get_size i) (cc_pages s) = (None, pc)"
  shows "v2_allocate malloc memory bytes (t, s) = Some (0, t, s\<lparr>cc_pages := pc\<rparr>)
    \<and> v2_thread_ok (t, s\<lparr>cc_pages := pc\<rparr>) T L"
proof -
  have i: "i < 56" using b by (simp add: v2_index_less)
  note D = v2_thread_okD [OF ok]
  have h: "tl_heads t ! i = 0" "cc_heads s ! i = 0"
    using v2_localD(3) [OF D(2) i] v2_listsD(3) [OF D(1) i] empty by simp_all
  have "v2_allocate malloc memory bytes (t, s) = v2_fetch_central memory i (t, s)"
    using b(1) h(1) unfolding v2_allocate_def prod.case Let_def v2_bytes_def [symmetric] b(2) [symmetric] by simp
  also have "\<dots> = Some (0, t, s\<lparr>cc_pages := pc\<rparr>)"
    using i h(2) pages by (simp add: v2_fetch_central_def v2_fetch_range_def Let_def)
  finally show ?thesis using ok by (simp add: v2_thread_ok_def v2_lists_def)
qed

lemma v2_allocate_span_cut:
  assumes ok: "v2_thread_ok (t, s) T L" and b: "v2_bytes bytes \<le> max_bytes" "i = v2_get_index (v2_bytes bytes)"
    and empty: "T i = []" "L i = []"
    and pages: "v2_fetch_pages memory (get_size i) (cc_pages s) = (Some start, pc)" "0 < start"
    and n: "n = v2_span_pages (get_size i) * v2_page div get_size i" "1 < n"
    and fresh: "\<forall>j < 56. set (v2_blocks start (get_size i) n) \<inter> (set (T j) \<union> set (L j)) = {}"
  shows "\<exists>t' s'. v2_allocate malloc memory bytes (t, s) = Some (start, t', s')
    \<and> v2_thread_ok (t', s') T (L(i := tl (v2_blocks start (get_size i) n)))"
proof -
  have i: "i < 56" using b by (simp add: v2_index_less)
  let ?bs = "v2_blocks start (get_size i) n"
  note D = v2_thread_okD [OF ok]
  have ic: "i < class_count" using i by simp
  have apart: "set (L j) \<inter> set ?bs = {}" "set (T j) \<inter> set ?bs = {}" if "j < 56" for j
    using fresh that by blast+
  from v2_fetch_span [OF D(1) ic empty(2) pages n, unfolded class_count_eval, OF apart(1)] obtain s' where
    s': "v2_fetch_range memory i s = (start, s')" "v2_lists s' (L(i := tl ?bs))" "cc_words s' start = 0"
      "\<forall>q. q \<notin> set ?bs \<longrightarrow> cc_words s' q = cc_words s q" by blast
  have frame: "cc_words s' q = cc_words s q" if "j < 56" "q \<in> set (T j)" for j q
    using s'(4) apart(2) [OF that(1)] that(2) by blast
  have "set (tl ?bs) \<subseteq> set ?bs" by (cases ?bs) auto
  then have disj: "set (T j) \<inter> set ((L(i := tl ?bs)) k) = {}" if "j < 56" "k < 56" for j k
    using D(3) [OF that] apart(2) [OF that(1)] by (cases "k = i") auto
  have "start \<noteq> 0" using pages(2) by simp
  have "\<exists>t'. v2_allocate malloc memory bytes (t, s) = Some (start, t', s') \<and> v2_thread_ok (t', s') T (L(i := tl ?bs))"
    by (rule v2_allocate_central [OF ok b empty(1) s'(1) \<open>start \<noteq> 0\<close> s'(2,3)]) (use frame disj in simp_all)
  then show ?thesis by blast
qed

text \<open>
  C33: the calls of a thread of the second version act on the lists that the words of the free blocks
  make up. An allocation takes the first block of the thread's list, or else of the central list; when
  both are empty and the page cache has no memory it returns null and both stay as they are, and
  when the page cache gives a span that is cut into more than one block, outside all lists, it returns
  the first of them and the central list holds the others (a span of a single block is not cut; the
  lemma \<open>v2_single_block_garbage\<close> shows what then happens). A deallocation puts the block in
  front, and when the list is longer than the threshold of its class it keeps a quarter and gives the
  others back, in front of the central list. At its end a thread gives every list back, in front of the
  central list of its class. Only a delayed return that a give-back triggers, which the counts and
  times of the class decide, takes blocks off the list it was put on. Every one of these calls returns.
\<close>

theorem v2_thread_lists:
  assumes ok: "v2_thread_ok (t, s) T L" and b: "0 < bytes" "bytes \<le> max_bytes" "i = v2_get_index bytes"
    and n: "n = v2_span_pages (get_size i) * v2_page div get_size i"
  shows "(\<forall>x xs. T i = x # xs \<longrightarrow>
      (\<exists>t'. v2_allocate malloc memory bytes (t, s) = Some (x, t', s) \<and> v2_thread_ok (t', s) (T(i := xs)) L))
    \<and> (\<forall>x xs. T i = [] \<longrightarrow> L i = x # xs \<longrightarrow>
      (\<exists>t' s'. v2_allocate malloc memory bytes (t, s) = Some (x, t', s') \<and> v2_thread_ok (t', s') T (L(i := xs))))
    \<and> (\<forall>pc. T i = [] \<longrightarrow> L i = [] \<longrightarrow> v2_fetch_pages memory (get_size i) (cc_pages s) = (None, pc) \<longrightarrow>
      v2_allocate malloc memory bytes (t, s) = Some (0, t, s\<lparr>cc_pages := pc\<rparr>) \<and> v2_thread_ok (t, s\<lparr>cc_pages := pc\<rparr>) T L)
    \<and> (\<forall>start pc. T i = [] \<longrightarrow> L i = [] \<longrightarrow> v2_fetch_pages memory (get_size i) (cc_pages s) = (Some start, pc) \<longrightarrow>
      0 < start \<longrightarrow> 1 < n \<longrightarrow> (\<forall>j < 56. set (v2_blocks start (get_size i) n) \<inter> (set (T j) \<union> set (L j)) = {}) \<longrightarrow>
      (\<exists>t' s'. v2_allocate malloc memory bytes (t, s) = Some (start, t', s')
        \<and> v2_thread_ok (t', s') T (L(i := tl (v2_blocks start (get_size i) n)))))
    \<and> (\<forall>ptr. ptr \<noteq> 0 \<longrightarrow> (\<forall>j < 56. ptr \<notin> set (T j) \<and> ptr \<notin> set (L j)) \<longrightarrow>
      (\<exists>t' s' ys. v2_deallocate order now later ptr bytes (t, s) = Some (t', s') \<and>
        (if length (ptr # T i) \<le> v2_threshold i
         then ys = L i \<and> v2_thread_ok (t', s') (T(i := ptr # T i)) L
         else v2_thread_ok (t', s') (T(i := take (v2_kept (length (ptr # T i))) (ptr # T i))) (L(i := ys))
           \<and> set ys \<subseteq> set (drop (v2_kept (length (ptr # T i))) (ptr # T i) @ L i)
           \<and> (\<not> v2_delays i now s \<longrightarrow> ys = drop (v2_kept (length (ptr # T i))) (ptr # T i) @ L i))))
    \<and> (\<exists>t' s' L'. v2_thread_exit orders nows laters (t, s) = Some (t', s') \<and> v2_thread_ok (t', s') (\<lambda>_. []) L'
      \<and> (\<forall>i < 56. set (L' i) \<subseteq> set (T i @ L i)
           \<and> (T i = [] \<or> \<not> v2_delays i (nows i) s \<longrightarrow> L' i = T i @ L i)))"
proof (intro conjI allI impI)
  note D = v2_thread_okD [OF ok]
  have e: "v2_bytes bytes = bytes" using b(1) by (simp add: v2_bytes_def)
  have i: "i < 56" using b by (simp add: v2_index_less)
  have be: "v2_bytes bytes \<le> max_bytes" "i = v2_get_index (v2_bytes bytes)" using b(2,3) by (simp_all add: e)
  {
    fix x xs assume "T i = x # xs"
    from v2_allocate_local [OF ok be this, of malloc memory] show "\<exists>t'. v2_allocate malloc memory bytes (t, s) = Some (x, t', s)
      \<and> v2_thread_ok (t', s) (T(i := xs)) L" .
  next
    fix x xs assume l: "T i = []" "L i = x # xs"
    have ic: "i < class_count" using i by simp
    from v2_fetch_listed [OF D(1) ic l(2), of memory] obtain s' where s':
      "v2_fetch_range memory i s = (x, s')" "v2_lists s' (L(i := xs))" "cc_words s' = (cc_words s)(x := 0)" by blast
    have x: "x \<noteq> 0" "x \<in> set (L i)" using v2_listsD(3) [OF D(1) i] l(2) by auto
    have frame: "cc_words s' q = cc_words s q" if "j < 56" "q \<in> set (T j)" for j q
      using D(3) [OF that(1) i] x(2) that(2) by (auto simp: s'(3))
    have disj: "set (T j) \<inter> set ((L(i := xs)) k) = {}" if "j < 56" "k < 56" for j k
      using D(3) [OF that] l(2) by (cases "k = i") simp_all
    have "cc_words s' x = 0" by (simp add: s'(3))
    have "\<exists>t'. v2_allocate malloc memory bytes (t, s) = Some (x, t', s') \<and> v2_thread_ok (t', s') T (L(i := xs))"
      by (rule v2_allocate_central [OF ok be l(1) s'(1) x(1) s'(2) \<open>cc_words s' x = 0\<close>]) (use frame disj in simp_all)
    then show "\<exists>t' s'. v2_allocate malloc memory bytes (t, s) = Some (x, t', s') \<and> v2_thread_ok (t', s') T (L(i := xs))"
      by blast
  next
    fix pc assume "T i = []" "L i = []" "v2_fetch_pages memory (get_size i) (cc_pages s) = (None, pc)"
    from v2_allocate_no_pages [OF ok be this, of malloc]
    show "v2_allocate malloc memory bytes (t, s) = Some (0, t, s\<lparr>cc_pages := pc\<rparr>)" "v2_thread_ok (t, s\<lparr>cc_pages := pc\<rparr>) T L"
      by blast+
  next
    fix start pc assume "T i = []" "L i = []" "v2_fetch_pages memory (get_size i) (cc_pages s) = (Some start, pc)"
      "0 < start" "1 < n" "\<forall>j < 56. set (v2_blocks start (get_size i) n) \<inter> (set (T j) \<union> set (L j)) = {}"
    from v2_allocate_span_cut [OF ok be this(1-4) n this(5,6), of malloc]
    show "\<exists>t' s'. v2_allocate malloc memory bytes (t, s) = Some (start, t', s')
        \<and> v2_thread_ok (t', s') T (L(i := tl (v2_blocks start (get_size i) n)))" .
  next
    fix ptr assume "ptr \<noteq> 0" "\<forall>j < 56. ptr \<notin> set (T j) \<and> ptr \<notin> set (L j)"
    from v2_deallocate_lists [OF ok b(2,3) this, of order now later]
    show "\<exists>t' s' ys. v2_deallocate order now later ptr bytes (t, s) = Some (t', s') \<and>
        (if length (ptr # T i) \<le> v2_threshold i
         then ys = L i \<and> v2_thread_ok (t', s') (T(i := ptr # T i)) L
         else v2_thread_ok (t', s') (T(i := take (v2_kept (length (ptr # T i))) (ptr # T i))) (L(i := ys))
           \<and> set ys \<subseteq> set (drop (v2_kept (length (ptr # T i))) (ptr # T i) @ L i)
           \<and> (\<not> v2_delays i now s \<longrightarrow> ys = drop (v2_kept (length (ptr # T i))) (ptr # T i) @ L i))" .
  next
    from v2_thread_exit_lists [OF ok, of orders nows laters]
    show "\<exists>t' s' L'. v2_thread_exit orders nows laters (t, s) = Some (t', s') \<and> v2_thread_ok (t', s') (\<lambda>_. []) L'
      \<and> (\<forall>i < 56. set (L' i) \<subseteq> set (T i @ L i)
           \<and> (T i = [] \<or> \<not> v2_delays i (nows i) s \<longrightarrow> L' i = T i @ L i))" .
  }
qed

text \<open>A thread that holds the block 4096 of the class of 8 bytes ends: the central cache has it then.\<close>

lemma v2_thread_lists_witness:
  "\<exists>t s t' s' L'. v2_deallocate [] 0 0 4096 8 (v2_thread_new, v2_central_new v2_pages_new (\<lambda>_. 0) 0) = Some (t, s)
     \<and> v2_thread_ok (t, s) ((\<lambda>_. [])(0 := [4096])) (\<lambda>_. [])
     \<and> v2_thread_exit (\<lambda>_. []) (\<lambda>_. 0) (\<lambda>_. 0) (t, s) = Some (t', s') \<and> v2_thread_ok (t', s') (\<lambda>_. []) L' \<and> L' 0 = [4096]"
proof -
  let ?s = "v2_central_new v2_pages_new (\<lambda>_. 0) 0"
  have ok: "v2_thread_ok (v2_thread_new, ?s) (\<lambda>_. []) (\<lambda>_. [])"
    by (simp add: v2_thread_ok_def v2_lists_def v2_local_def v2_central_new_def v2_thread_new_def)
  have "is_class 8 0" by (simp add: is_class_def size_table_eval)
  then have i: "0 = v2_get_index 8" by (simp add: v2_search_index get_index_iff)
  have b: "0 < (8 :: nat)" "(8 :: nat) \<le> max_bytes" by simp_all
  have thr: "1 \<le> v2_threshold 0" using v2_threshold_bounds(1) [of 0] by simp
  obtain t s where d: "v2_deallocate [] 0 0 4096 8 (v2_thread_new, ?s) = Some (t, s)"
    "v2_thread_ok (t, s) ((\<lambda>_. [])(0 := [4096])) (\<lambda>_. [])"
  proof -
    note v2_thread_lists [OF ok b i refl, of 0 None "[]" 0 0 "\<lambda>_. []" "\<lambda>_. 0" "\<lambda>_. 0"]
    note this [THEN conjunct2, THEN conjunct2, THEN conjunct2, THEN conjunct2, THEN conjunct1, rule_format, of 4096]
    then show thesis using thr that by auto
  qed
  have "v2_threshold 0 = 256" by (simp add: v2_threshold_def get_size_def size_table_eval)
  then have "cc_delays s = cc_delays ?s" "cc_last s = cc_last ?s"
    using d(1) i by (auto simp: v2_deallocate_def v2_keeps_too_many_def v2_thread_new_def Let_def wadd_def)
  then have "\<not> v2_delays 0 0 s"
    by (simp add: v2_delays_def v2_should_return_def v2_central_new_def wadd_def)
  moreover note v2_thread_lists [OF d(2) b i refl, of 0 None "[]" 0 0 "\<lambda>_. []" "\<lambda>_. 0" "\<lambda>_. 0",
      THEN conjunct2, THEN conjunct2, THEN conjunct2, THEN conjunct2, THEN conjunct2]
  ultimately obtain t' s' L' where "v2_thread_exit (\<lambda>_. []) (\<lambda>_. 0) (\<lambda>_. 0) (t, s) = Some (t', s')"
    "v2_thread_ok (t', s') (\<lambda>_. []) L'" "L' 0 = [4096]" by auto
  with d show ?thesis by blast
qed

text \<open>
  A defect: a span that holds a single block is not cut, so the first word of its memory, whatever it
  held before, is taken for the next free block, and handed out.
\<close>

lemma v2_single_block_garbage:
  "let s0 = v2_central_new v2_pages_new ((\<lambda>_. 0)(1048576 := 4242)) 0 in
   case v2_allocate 0 (Some 1048576) 20480 (v2_thread_new, s0) of
     None \<Rightarrow> False
   | Some (a, t1, s1) \<Rightarrow> a = 1048576 \<and>
       (case v2_allocate 0 None 20480 (t1, s1) of None \<Rightarrow> False | Some (b, _) \<Rightarrow> b = 4242)"
proof -
  have "\<forall>j < 40. size_table ! j < 20480" by (simp add: size_table_eval nth_Cons split: nat.split)
  then have "is_class 20480 40" by (simp add: is_class_def size_table_eval)
  then have i: "v2_get_index 20480 = 40" by (simp add: v2_search_index get_index_iff)
  show ?thesis
    by (simp add: i v2_allocate_def v2_fetch_central_def v2_central_new_def v2_fetch_range_def v2_fetch_pages_def
        v2_span_pages_def v2_allocate_span_def v2_system_alloc_def v2_pages_new_def get_size_def size_table_eval v2_page_def
        v2_walk.simps v2_thread_new_def wmul_def wsub_def wadd_def Let_def)
qed

end
