(* ===== verification/Tune_File.thy ===== *)
theory Tune_File
  imports Tuners "HOL-Library.Monad_Syntax"
begin

text \<open>
  The tuning file (\<open>TuneDatabase::save\<close> and \<open>load\<close> of gpuforge/tuning, their callers in
  gpuforge/autotune): formatted extraction from a stream, character by character, and files as a
  map from paths to contents. How much of a write reaches the disk and the conversion of text to
  floating point are arguments.
\<close>

section \<open>Extraction\<close>

definition is_space :: "char \<Rightarrow> bool" where
  "is_space c \<longleftrightarrow> c \<in> {CHR '' '', CHR 0x09, CHR 0x0A, CHR 0x0B, CHR 0x0C, CHR 0x0D}"

definition is_digit :: "char \<Rightarrow> bool" where
  "is_digit c \<longleftrightarrow> 48 \<le> (of_char c :: nat) \<and> (of_char c :: nat) \<le> 57"

definition digits_value :: "string \<Rightarrow> nat" where
  "digits_value ds = foldl (\<lambda>n c. 10 * n + (of_char c - 48)) 0 ds"

definition skip_space :: "string \<Rightarrow> string" where
  "skip_space = dropWhile is_space"

text \<open>
  A failed extraction is \<open>None\<close>: all later ones then fail too. A number is an optional sign and the
  longest row of digits; an unsigned one is negated modulo \<open>2 ^ 64\<close> after a minus, as \<open>strtoull\<close> does.
\<close>

definition scan_number :: "string \<Rightarrow> (bool \<times> nat \<times> string) option" where
  "scan_number s =
     (let s = skip_space s;
          negative = (s \<noteq> [] \<and> hd s = CHR ''-'');
          s = (if s \<noteq> [] \<and> (hd s = CHR ''-'' \<or> hd s = CHR ''+'') then tl s else s);
          ds = takeWhile is_digit s
      in if ds = [] then None else Some (negative, digits_value ds, dropWhile is_digit s))"

definition scan_size :: "string \<Rightarrow> (nat \<times> string) option" where
  "scan_size s = do {
     (negative, v, rest) \<leftarrow> scan_number s;
     if v > size_max then None else Some (if negative then wsub 0 v else v, rest)
   }"

definition scan_int :: "string \<Rightarrow> (int \<times> string) option" where
  "scan_int s = do {
     (negative, v, rest) \<leftarrow> scan_number s;
     let i = (if negative then - int v else int v);
     if i < - (2 ^ 31) \<or> 2 ^ 31 \<le> i then None else Some (i, rest)
   }"

definition scan_char :: "string \<Rightarrow> (char \<times> string) option" where
  "scan_char s = (case skip_space s of [] \<Rightarrow> None | c # cs \<Rightarrow> Some (c, cs))"

text \<open>The fields of a line. What stands between them is one character, any character.\<close>

definition extract_line ::
  "(string \<Rightarrow> ('f \<times> string) option) \<Rightarrow> string \<Rightarrow> ((nat \<times> nat \<times> nat) \<times> int \<times> int \<times> int \<times> 'f \<times> 'f) option"
where
  "extract_line scan_float line = do {
     (m, s) \<leftarrow> scan_size line;
     (_, s) \<leftarrow> scan_char s;
     (n, s) \<leftarrow> scan_size s;
     (_, s) \<leftarrow> scan_char s;
     (k, s) \<leftarrow> scan_size s;
     (_, s) \<leftarrow> scan_char s;
     (tile, s) \<leftarrow> scan_int s;
     (_, s) \<leftarrow> scan_char s;
     (warps, s) \<leftarrow> scan_int s;
     (_, s) \<leftarrow> scan_char s;
     (tensor_core, s) \<leftarrow> scan_int s;
     (_, s) \<leftarrow> scan_char s;
     (latency, s) \<leftarrow> scan_float (skip_space s);
     (_, s) \<leftarrow> scan_char s;
     (rate, _) \<leftarrow> scan_float (skip_space s);
     Some ((m, n, k), tile, warps, tensor_core, latency, rate)
   }"

section \<open>Files\<close>

type_synonym files = "string \<Rightarrow> string option"

text \<open>
  How a write ends: whether the file opens, whether the stream is good after the insertion, and how
  many bytes arrive by the time it is closed. Opening truncates; the stream buffers, so a
  good stream does not mean that the bytes arrived.
\<close>

record disk =
  opens :: bool
  inserts :: bool
  arrives :: nat

definition save_db :: "('f \<Rightarrow> string) \<Rightarrow> disk \<Rightarrow> string \<Rightarrow> 'f tune_db \<Rightarrow> files \<Rightarrow> bool \<times> files" where
  "save_db print d path db fs =
     (if opens d then (inserts d, fs(path \<mapsto> take (arrives d) (serialize print db))) else (False, fs))"

definition load_db ::
  "('f tune_result list \<Rightarrow> 'f tune_result list) \<Rightarrow> (string \<Rightarrow> ('f \<times> string) option) \<Rightarrow> string
    \<Rightarrow> files \<Rightarrow> 'f tune_db \<Rightarrow> bool \<times> 'f tune_db" where
  "load_db sort_entries scan_float path fs db =
     (case fs path of
        None \<Rightarrow> (False, db)
      | Some content \<Rightarrow> (True, load_text sort_entries (extract_line scan_float) content db))"

text \<open>The tuner with its file: the constructor loads, a run that measured saves.\<close>

definition open_tuner ::
  "('f tune_result list \<Rightarrow> 'f tune_result list) \<Rightarrow> (string \<Rightarrow> ('f \<times> string) option) \<Rightarrow> files
    \<Rightarrow> auto_tune_config \<Rightarrow> 'f auto_tuner" where
  "open_tuner sort_entries scan_float fs cfg =
     auto_tuner_new sort_entries (extract_line scan_float) (fs (cfg_cache_file cfg)) cfg"

definition run_tuner ::
  "'f fops \<Rightarrow> ('f tune_result list \<Rightarrow> 'f tune_result list) \<Rightarrow> ('f \<Rightarrow> string) \<Rightarrow> (nat \<Rightarrow> 'f) \<Rightarrow> disk
    \<Rightarrow> 'f auto_tuner \<Rightarrow> 'f tval \<Rightarrow> 'f tval \<Rightarrow> files \<Rightarrow> ('f tune_result \<times> 'f auto_tuner) result \<times> files" where
  "run_tuner ops sort_entries print timer d t a b fs =
     (case autotune_run ops sort_entries print timer t a b of
        Inl e \<Rightarrow> (Inl e, fs)
      | Inr (r, t', None) \<Rightarrow> (Inr (r, t'), fs)
      | Inr (r, t', Some _) \<Rightarrow> (Inr (r, t'), snd (save_db print d (cfg_cache_file (at_cfg t')) (at_db t') fs)))"

section \<open>Reading what was printed\<close>

lemma is_digit_char: "d < 10 \<Longrightarrow> is_digit (digit_char d)"
  by (simp add: is_digit_def digit_char_def)

lemma digit_value: "d < 10 \<Longrightarrow> (of_char (digit_char d) :: nat) = 48 + d"
  by (simp add: digit_char_def)

lemma nat_to_string_digits: "\<forall>c \<in> set (nat_to_string n). is_digit c"
proof (induction n rule: nat_to_string.induct)
  case (1 n)
  then show ?case
    by (cases "n < 10") (auto simp: nat_to_string_small nat_to_string_big is_digit_char)
qed

lemma digits_value_print: "digits_value (nat_to_string n) = n"
proof (induction n rule: nat_to_string.induct)
  case (1 n)
  show ?case
  proof (cases "n < 10")
    case True
    then show ?thesis by (simp add: nat_to_string_small digits_value_def digit_value)
  next
    case False
    with 1 show ?thesis by (simp add: nat_to_string_big digits_value_def digit_value)
  qed
qed

lemma digit_not_space: "is_digit c \<Longrightarrow> \<not> is_space c \<and> c \<noteq> CHR ''-'' \<and> c \<noteq> CHR ''+''"
  by (auto simp: is_digit_def is_space_def)

definition ends_number :: "string \<Rightarrow> bool" where
  "ends_number rest \<longleftrightarrow> rest = [] \<or> \<not> is_digit (hd rest)"

lemma digits_split:
  assumes "\<forall>c \<in> set ds. is_digit c" "ends_number rest"
  shows "takeWhile is_digit (ds @ rest) = ds" "dropWhile is_digit (ds @ rest) = rest"
proof -
  have "takeWhile is_digit rest = []" "dropWhile is_digit rest = rest"
    using assms(2) by (cases rest; simp add: ends_number_def)+
  with assms(1) show "takeWhile is_digit (ds @ rest) = ds" "dropWhile is_digit (ds @ rest) = rest"
    by (simp_all add: takeWhile_append2 dropWhile_append2)
qed

lemma scan_number_nat:
  assumes "ends_number rest"
  shows "scan_number (nat_to_string n @ rest) = Some (False, n, rest)"
proof -
  obtain c cs where s: "nat_to_string n = c # cs" by (cases "nat_to_string n") auto
  then have c: "is_digit c" using nat_to_string_digits [of n] by simp
  note d = digit_not_space [OF c]
  note split = digits_split [OF nat_to_string_digits assms, of n]
  have "skip_space (nat_to_string n @ rest) = nat_to_string n @ rest" using d by (simp add: skip_space_def s)
  with d split show ?thesis by (simp add: scan_number_def s digits_value_print [of n, unfolded s] Let_def)
qed

lemma scan_number_neg:
  assumes "ends_number rest"
  shows "scan_number (CHR ''-'' # nat_to_string n @ rest) = Some (True, n, rest)"
  using digits_split [OF nat_to_string_digits assms, of n]
  by (simp add: scan_number_def skip_space_def is_space_def digits_value_print)

lemma scan_size_print: "n \<le> size_max \<Longrightarrow> ends_number rest \<Longrightarrow> scan_size (nat_to_string n @ rest) = Some (n, rest)"
  by (simp add: scan_size_def scan_number_nat)

lemma scan_int_print:
  "- (2 ^ 31) \<le> i \<Longrightarrow> i < 2 ^ 31 \<Longrightarrow> ends_number rest \<Longrightarrow> scan_int (int_to_string i @ rest) = Some (i, rest)"
  by (cases "i < 0") (simp_all add: scan_int_def int_to_string_def scan_number_nat scan_number_neg)

lemma scan_comma: "scan_char (CHR '','' # s) = Some (CHR '','', s)"
  by (simp add: scan_char_def skip_space_def is_space_def)

lemma ends_comma: "ends_number (CHR '','' # s)"
  by (simp add: ends_number_def is_digit_def)

section \<open>Saving and loading\<close>

text \<open>
  What is asked of the printing and the reading of a number that is stored: its text is read, when a
  comma or the end follows, as a number of its own (\<open>rd\<close>: a stream prints six significant digits, so
  this is the number rounded to them), and it has no white space. The second definition asks that
  the text gives the number itself back.
\<close>

definition float_reads :: "('f \<Rightarrow> string) \<Rightarrow> (string \<Rightarrow> ('f \<times> string) option) \<Rightarrow> ('f \<Rightarrow> 'f) \<Rightarrow> 'f \<Rightarrow> bool" where
  "float_reads print scan rd x \<longleftrightarrow>
     scan (print x) = Some (rd x, []) \<and> (\<forall>s. scan (print x @ CHR '','' # s) = Some (rd x, CHR '','' # s))
     \<and> (\<forall>c \<in> set (print x). \<not> is_space c)"

definition float_text :: "('f \<Rightarrow> string) \<Rightarrow> (string \<Rightarrow> ('f \<times> string) option) \<Rightarrow> 'f \<Rightarrow> bool" where
  "float_text print scan x \<longleftrightarrow>
     scan (print x) = Some (x, []) \<and> (\<forall>s. scan (print x @ CHR '','' # s) = Some (x, CHR '','' # s))
     \<and> (\<forall>c \<in> set (print x). \<not> is_space c)"

definition result_text :: "('f \<Rightarrow> string) \<Rightarrow> (string \<Rightarrow> ('f \<times> string) option) \<Rightarrow> 'f tune_result \<Rightarrow> bool" where
  "result_text print scan r \<longleftrightarrow>
     valid r \<and> - (2 ^ 31) \<le> gtile (config r) \<and> gtile (config r) < 2 ^ 31
     \<and> - (2 ^ 31) \<le> gwarps (config r) \<and> gwarps (config r) < 2 ^ 31
     \<and> float_text print scan (latency_ms r) \<and> float_text print scan (throughput r)"

definition result_reads :: "('f \<Rightarrow> string) \<Rightarrow> (string \<Rightarrow> ('f \<times> string) option) \<Rightarrow> ('f \<Rightarrow> 'f) \<Rightarrow> 'f tune_result \<Rightarrow> bool" where
  "result_reads print scan rd r \<longleftrightarrow>
     valid r \<and> - (2 ^ 31) \<le> gtile (config r) \<and> gtile (config r) < 2 ^ 31
     \<and> - (2 ^ 31) \<le> gwarps (config r) \<and> gwarps (config r) < 2 ^ 31
     \<and> float_reads print scan rd (latency_ms r) \<and> float_reads print scan rd (throughput r)"

definition read_result :: "('f \<Rightarrow> 'f) \<Rightarrow> 'f tune_result \<Rightarrow> 'f tune_result" where
  "read_result rd r = r\<lparr>latency_ms := rd (latency_ms r), throughput := rd (throughput r)\<rparr>"

lemma read_result_simps [simp]:
  "config (read_result rd r) = config r" "latency_ms (read_result rd r) = rd (latency_ms r)"
  "throughput (read_result rd r) = rd (throughput r)" "valid (read_result rd r) = valid r"
  "read_result (\<lambda>x. x) r = r" "(read_result rd r)\<lparr>valid := b\<rparr> = read_result rd (r\<lparr>valid := b\<rparr>)"
  by (simp_all add: read_result_def)

definition key_text :: "nat \<times> nat \<times> nat \<Rightarrow> bool" where
  "key_text key \<longleftrightarrow> (case key of (m, n, k) \<Rightarrow> m \<le> size_max \<and> n \<le> size_max \<and> k \<le> size_max)"

definition line_of :: "('f \<Rightarrow> string) \<Rightarrow> nat \<times> nat \<times> nat \<Rightarrow> 'f tune_result \<Rightarrow> string" where
  "line_of print key r =
     (case key of (m, n, k) \<Rightarrow>
        nat_to_string m @ CHR '','' # nat_to_string n @ CHR '','' # nat_to_string k @ CHR '',''
          # int_to_string (gtile (config r)) @ CHR '','' # int_to_string (gwarps (config r)) @ CHR '',''
          # (if use_tensor_core (config r) then ''1'' else ''0'') @ CHR '','' # print (latency_ms r) @ CHR '',''
          # print (throughput r))"

lemma serialize_line: "serialize_result print key r = line_of print key r @ [CHR 0x0A]"
  by (simp add: line_of_def serialize_result_def split: prod.split)

lemma skip_space_none: "(\<forall>c \<in> set s. \<not> is_space c) \<Longrightarrow> skip_space (s @ CHR '','' # t) = s @ CHR '','' # t \<and> skip_space s = s"
  by (cases s) (simp_all add: skip_space_def is_space_def)

lemma scan_flag: "scan_int ((if b then ''1'' else ''0'') @ CHR '','' # s) = Some (if b then 1 else 0, CHR '','' # s)"
proof -
  have "int_to_string 1 = ''1''" "int_to_string 0 = ''0''"
    by (simp_all add: int_to_string_def nat_to_string_small digit_char_def char_of_def bit_0)
  then show ?thesis
    using scan_int_print [of 1 "CHR '','' # s"] scan_int_print [of 0 "CHR '','' # s"] ends_comma [of s] by simp
qed

lemma extract_serialized:
  assumes "key_text key" "result_reads print scan rd r"
  shows "extract_line scan (line_of print key r) =
    Some (key, gtile (config r), gwarps (config r), if use_tensor_core (config r) then 1 else 0, rd (latency_ms r), rd (throughput r))"
proof -
  obtain m n k where key: "key = (m, n, k)" by (cases key)
  let ?lat = "print (latency_ms r)" and ?thr = "print (throughput r)"
  have line: "line_of print key r = nat_to_string m @ CHR '','' # nat_to_string n @ CHR '','' # nat_to_string k @ CHR '',''
    # int_to_string (gtile (config r)) @ CHR '','' # int_to_string (gwarps (config r)) @ CHR '',''
    # (if use_tensor_core (config r) then ''1'' else ''0'') @ CHR '','' # ?lat @ CHR '','' # ?thr"
    by (simp add: line_of_def key)
  note R = assms(2) [unfolded result_reads_def float_reads_def]
  have f: "skip_space (?lat @ CHR '','' # ?thr) = ?lat @ CHR '','' # ?thr" "skip_space ?thr = ?thr"
    using R skip_space_none by blast+
  show ?thesis
    unfolding line using assms(1) R
    by (simp add: extract_line_def key key_text_def scan_size_print scan_int_print scan_flag scan_comma ends_comma f)
qed

lemma getlines_line: "CHR 0x0A \<notin> set l \<Longrightarrow> getlines acc (l @ CHR 0x0A # s) = (acc @ l) # getlines [] s"
  by (induction l arbitrary: acc) auto

lemma getlines_lines:
  "\<forall>l \<in> set ls. CHR 0x0A \<notin> set l \<Longrightarrow> getlines [] (concat (map (\<lambda>l. l @ [CHR 0x0A]) ls)) = ls"
  by (induction ls) (simp_all add: getlines_line)

text \<open>The lines of a database, and what loading them amounts to.\<close>

definition entries_of :: "'f tune_db \<Rightarrow> ((nat \<times> nat \<times> nat) \<times> 'f tune_result) list" where
  "entries_of db = concat (map (\<lambda>(key, rs). map (Pair key) rs) db)"

lemma serialize_lines:
  "serialize print db = concat (map (\<lambda>l. l @ [CHR 0x0A]) (map (\<lambda>(key, r). line_of print key r) (entries_of db)))"
  by (induction db) (auto simp: serialize_def entries_of_def comp_def serialize_line [abs_def])

definition db_text :: "('f \<Rightarrow> string) \<Rightarrow> (string \<Rightarrow> ('f \<times> string) option) \<Rightarrow> 'f tune_db \<Rightarrow> bool" where
  "db_text print scan db \<longleftrightarrow> (\<forall>(key, r) \<in> set (entries_of db). key_text key \<and> result_text print scan r)"

definition db_reads ::
  "('f \<Rightarrow> string) \<Rightarrow> (string \<Rightarrow> ('f \<times> string) option) \<Rightarrow> ('f \<Rightarrow> 'f) \<Rightarrow> 'f tune_db \<Rightarrow> bool" where
  "db_reads print scan rd db \<longleftrightarrow> (\<forall>(key, r) \<in> set (entries_of db). key_text key \<and> result_reads print scan rd r)"

lemma db_text_reads: "db_text print scan db \<longleftrightarrow> db_reads print scan (\<lambda>x. x) db"
  by (simp add: db_text_def db_reads_def result_text_def result_reads_def float_text_def float_reads_def)

abbreviation read_entries ::
  "('f \<Rightarrow> 'f) \<Rightarrow> ((nat \<times> nat \<times> nat) \<times> 'f tune_result) list \<Rightarrow> ((nat \<times> nat \<times> nat) \<times> 'f tune_result) list" where
  "read_entries rd \<equiv> map (\<lambda>(key, r). (key, read_result rd r))"

lemma line_no_newline:
  assumes "key_text key" "result_reads print scan rd r"
  shows "CHR 0x0A \<notin> set (line_of print key r)"
proof -
  have d: "CHR 0x0A \<notin> set (nat_to_string n)" for n
    using nat_to_string_digits [of n] by (auto simp: is_digit_def)
  then have i: "CHR 0x0A \<notin> set (int_to_string j)" for j by (simp add: int_to_string_def)
  have "is_space (CHR 0x0A)" by (simp add: is_space_def)
  with assms(2) have f: "CHR 0x0A \<notin> set (print (latency_ms r))" "CHR 0x0A \<notin> set (print (throughput r))"
    by (auto simp: result_reads_def float_reads_def)
  show ?thesis by (cases key) (simp add: line_of_def d i f)
qed

lemma load_serialized:
  assumes "db_reads print scan rd db"
  shows "load_text srt (extract_line scan) (serialize print db) db0 =
    fold (\<lambda>(key, r). record_result srt key r) (read_entries rd (entries_of db)) db0"
proof -
  let ?ls = "map (\<lambda>(key, r). line_of print key r) (entries_of db)"
  have "\<forall>l \<in> set ?ls. CHR 0x0A \<notin> set l"
    using assms line_no_newline by (fastforce simp: db_reads_def)
  then have lines: "getlines [] (serialize print db) = ?ls" unfolding serialize_lines by (rule getlines_lines)
  let ?f = "\<lambda>line db. case extract_line scan line of
             None \<Rightarrow> db
           | Some (key, tile, warps, tc, lat, thr) \<Rightarrow>
               record_result srt key
                 \<lparr>config = \<lparr>gtile = tile, gwarps = warps, use_tensor_core = tc \<noteq> 0\<rparr>,
                  latency_ms = lat, throughput = thr, valid = False\<rparr> db"
  have rebuilt: "use_tensor_core (config r) = tc \<Longrightarrow> \<lparr>config = \<lparr>gtile = gtile (config r), gwarps = gwarps (config r),
      use_tensor_core = tc\<rparr>, latency_ms = rd (latency_ms r), throughput = rd (throughput r), valid = True\<rparr>
      = read_result rd (r\<lparr>valid := True\<rparr>)"
    for r :: "'a tune_result" and tc
    by (cases r; cases "config r") (simp add: read_result_def)
  have step: "?f (line_of print key r) d = record_result srt key (read_result rd r) d" if "key_text key" "result_reads print scan rd r" for key r d
    by (auto simp: extract_serialized [OF that] record_result_def rebuilt)
  have "fold ?f (map (\<lambda>(key, r). line_of print key r) es) d = fold (\<lambda>(key, r). record_result srt key r) (read_entries rd es) d"
    if "\<forall>(key, r) \<in> set es. key_text key \<and> result_reads print scan rd r" for es d
    using that by (induction es arbitrary: d) (auto simp: step)
  with assms lines show ?thesis by (simp add: load_text_def db_reads_def)
qed

section \<open>What a loaded database holds\<close>

abbreviation latency_order :: "'f fops \<Rightarrow> 'f tune_result list \<Rightarrow> bool" where
  "latency_order ops \<equiv> sorted_wrt (\<lambda>a b. \<not> f_less ops (latency_ms b) (latency_ms a))"

definition results_for :: "nat \<times> nat \<times> nat \<Rightarrow> ((nat \<times> nat \<times> nat) \<times> 'f tune_result) list \<Rightarrow> 'f tune_result list" where
  "results_for key hist = map snd (filter (\<lambda>x. fst x = key) hist)"

lemma record_all_sorted:
  assumes "latency_sort ops srt"
  shows "latency_order ops (candidates (record_all srt hist) key)"
proof (induction hist rule: rev_induct)
  case Nil
  then show ?case by (simp add: record_all_def candidates_def)
next
  case (snoc x hist)
  obtain k r where x: "x = (k, r)" by (cases x)
  have ok: "omap_ok (record_all srt hist)" using record_all_history [OF assms] by blast
  have "record_all srt (hist @ [x]) = record_result srt k r (record_all srt hist)" by (simp add: record_all_def x)
  with snoc show ?case
    by (simp add: candidates_def record_result_entries(2) [OF ok] latency_sort.sort_sorted [OF assms] sorted_wrt_take)
qed

lemma record_all_mset:
  assumes "latency_sort ops srt"
  shows "length (results_for key hist) \<le> 32 \<Longrightarrow>
    mset (candidates (record_all srt hist) key) = mset (map (valid_update (\<lambda>_. True)) (results_for key hist))"
proof (induction hist rule: rev_induct)
  case Nil
  then show ?case by (simp add: record_all_def candidates_def results_for_def)
next
  case (snoc x hist)
  obtain k r where x: "x = (k, r)" by (cases x)
  let ?db = "record_all srt hist" and ?old = "candidates (record_all srt hist) key"
  have ok: "omap_ok ?db" using record_all_history [OF assms] by blast
  have db: "record_all srt (hist @ [x]) = record_result srt k r ?db" by (simp add: record_all_def x)
  show ?case
  proof (cases "k = key")
    case True
    with snoc.prems have len: "length (results_for key hist) < 32" by (simp add: results_for_def x)
    with snoc.IH have m: "mset ?old = mset (map (valid_update (\<lambda>_. True)) (results_for key hist))" by simp
    then have "length ?old < 32" using len by (metis length_map size_mset)
    then have "length (srt (?old @ [r\<lparr>valid := True\<rparr>])) \<le> 32" by (simp add: latency_sort.sort_length [OF assms])
    then have "candidates (record_result srt k r ?db) key = srt (?old @ [r\<lparr>valid := True\<rparr>])"
      using True by (simp add: candidates_def record_result_entries(2) [OF ok])
    with m True show ?thesis unfolding db by (simp add: latency_sort.sort_mset [OF assms] results_for_def x)
  next
    case False
    with snoc show ?thesis unfolding db by (simp add: candidates_def record_result_entries(2) [OF ok] results_for_def x)
  qed
qed

lemma entries_of_key:
  assumes "omap_ok db"
  shows "results_for key (entries_of db) = candidates db key"
  using assms
proof (induction db)
  case Nil
  then show ?case by (simp add: results_for_def entries_of_def candidates_def)
next
  case (Cons e db)
  obtain k rs where e: "e = (k, rs)" by (cases e)
  have split: "entries_of (e # db) = map (Pair k) rs @ entries_of db" by (simp add: entries_of_def e)
  have IH: "results_for key (entries_of db) = candidates db key" using Cons by (simp add: e)
  show ?case
  proof (cases "k = key")
    case True
    with Cons.prems have "omap_get db key = None" by (force simp: e map_of_eq_None_iff)
    with IH have "results_for key (entries_of db) = []" by (simp add: candidates_def)
    then have "results_for key (entries_of (e # db)) = rs"
      using True unfolding split by (simp add: results_for_def filter_map comp_def)
    with True show ?thesis by (simp add: e candidates_def)
  next
    case False
    with IH show ?thesis unfolding split by (simp add: results_for_def e candidates_def filter_map comp_def)
  qed
qed

lemma read_entries_key: "results_for key (read_entries rd es) = map (read_result rd) (results_for key es)"
  by (induction es) (auto simp: results_for_def)

lemma candidates_valid:
  assumes "omap_ok db" "db_reads print scan rd db" "r \<in> set (candidates db key)"
  shows "valid r"
proof -
  have "(key, r) \<in> set (entries_of db)"
    using assms(3) unfolding entries_of_key [OF assms(1), symmetric] by (auto simp: results_for_def)
  with assms(2) show ?thesis by (auto simp: db_reads_def result_reads_def)
qed

lemma entries_valid:
  assumes "omap_ok db" "db_reads print scan rd db"
  shows "map (valid_update (\<lambda>_. True)) (candidates db key) = candidates db key"
proof (rule map_idI)
  fix r assume "r \<in> set (candidates db key)"
  from candidates_valid [OF assms this] show "r\<lparr>valid := True\<rparr> = r" by (cases r) simp
qed

text \<open>
  A database of at most 32 results for each shape, saved on a disk that takes it all and loaded into
  an empty database: its results as their texts read, sorted anew.
\<close>

lemma load_saved:
  assumes srt: "latency_sort ops srt" and db: "omap_ok db" "db_reads print scan rd db"
    and few: "\<And>key. length (candidates db key) \<le> 32"
    and disk: "opens d" "length (serialize print db) \<le> arrives d"
  shows "load_db srt scan path (snd (save_db print d path db fs)) [] = (True, record_all srt (read_entries rd (entries_of db)))"
    "mset (candidates (record_all srt (read_entries rd (entries_of db))) key) = mset (map (read_result rd) (candidates db key))"
    "latency_order ops (candidates (record_all srt (read_entries rd (entries_of db))) key)"
proof -
  show "load_db srt scan path (snd (save_db print d path db fs)) [] = (True, record_all srt (read_entries rd (entries_of db)))"
    using disk by (simp add: load_db_def save_db_def load_serialized [OF db(2)] record_all_def)
  let ?es = "read_entries rd (entries_of db)"
  have es: "results_for key ?es = map (read_result rd) (candidates db key)"
    unfolding read_entries_key entries_of_key [OF db(1)] ..
  have "map (valid_update (\<lambda>_. True)) (map (read_result rd) (candidates db key))
      = map (read_result rd) (map (valid_update (\<lambda>_. True)) (candidates db key))" by simp
  then have valid: "map (valid_update (\<lambda>_. True)) (results_for key ?es) = map (read_result rd) (candidates db key)"
    unfolding es entries_valid [OF db] .
  have "length (results_for key ?es) \<le> 32" using few [of key] by (simp add: es)
  from record_all_mset [OF srt this] show "mset (candidates (record_all srt ?es) key) = mset (map (read_result rd) (candidates db key))"
    unfolding valid .
  show "latency_order ops (candidates (record_all srt ?es) key)" by (rule record_all_sorted [OF srt])
qed

text \<open>
  C40: what the tuning database saves it loads again. On a disk that takes the whole file, for numbers
  that their text gives back, the loaded database has for every shape the same results, sorted by
  latency, whatever order \<open>std::sort\<close> gives to equal ones.
\<close>

theorem tune_file_roundtrip:
  assumes srt: "latency_sort ops srt" and db: "omap_ok db" "db_text print scan db"
    and few: "\<forall>key. length (candidates db key) \<le> 32"
    and disk: "opens d" "inserts d" "length (serialize print db) \<le> arrives d"
  shows "fst (save_db print d path db fs)
    \<and> (case load_db srt scan path (snd (save_db print d path db fs)) [] of (ok, db') \<Rightarrow>
         ok \<and> (\<forall>key. mset (candidates db' key) = mset (candidates db key) \<and> latency_order ops (candidates db' key)))"
proof -
  have same: "read_result (\<lambda>x. x) = id" by (simp add: fun_eq_iff)
  note L = load_saved [OF srt db(1) db(2) [unfolded db_text_reads] few [rule_format] disk(1,3), unfolded same, simplified]
  have "fst (save_db print d path db fs)" using disk by (simp add: save_db_def)
  then show ?thesis unfolding L(1) using L(2,3) by simp
qed

text \<open>Whole numbers as floating point text, for the examples.\<close>

definition print_whole :: "real \<Rightarrow> string" where
  "print_whole x = int_to_string \<lfloor>x\<rfloor>"

definition scan_whole :: "string \<Rightarrow> (real \<times> string) option" where
  "scan_whole s = do { (i, rest) \<leftarrow> scan_int s; Some (real_of_int i, rest) }"

lemma whole_reads:
  assumes "\<bar>\<lfloor>x\<rfloor>\<bar> < 2 ^ 31"
  shows "float_reads print_whole scan_whole (\<lambda>x. real_of_int \<lfloor>x\<rfloor>) x"
proof -
  define i where "i = \<lfloor>x\<rfloor>"
  with assms have i: "\<bar>i\<bar> < 2 ^ 31" by simp
  have "\<not> is_space c" if "c \<in> set (int_to_string i)" for c
    using that nat_to_string_digits digit_not_space by (auto simp: int_to_string_def is_space_def split: if_splits)
  moreover have "scan_int (int_to_string i @ CHR '','' # s) = Some (i, CHR '','' # s)" for s
    using i by (intro scan_int_print ends_comma) auto
  moreover have "scan_int (int_to_string i) = Some (i, [])"
    using i scan_int_print [of i "[]"] by (auto simp: ends_number_def)
  ultimately show ?thesis by (simp add: float_reads_def print_whole_def scan_whole_def i_def)
qed

lemma whole_text: "\<bar>i\<bar> < 2 ^ 31 \<Longrightarrow> float_text print_whole scan_whole (real_of_int i)"
  using whole_reads [of "real_of_int i"] by (simp add: float_reads_def float_text_def)

definition sample_db :: "real tune_db" where
  "sample_db = [((8, 1, 1), [\<lparr>config = \<lparr>gtile = 8, gwarps = 2, use_tensor_core = False\<rparr>,
     latency_ms = real_of_int 3, throughput = real_of_int (- 5), valid = True\<rparr>])]"

lemma sample_db_text: "omap_ok sample_db" "db_text print_whole scan_whole sample_db"
  "length (candidates sample_db key) \<le> 32"
  by (simp_all add: sample_db_def db_text_def entries_of_def key_text_def result_text_def whole_text size_max_def candidates_def
      del: of_int_numeral of_int_neg_numeral of_int_minus)

theorem tune_file_roundtrip_witness:
  "case load_db (insertion_sort (real_ops id)) scan_whole ''cache''
      (snd (save_db print_whole \<lparr>opens = True, inserts = True, arrives = 100\<rparr> ''cache'' sample_db Map.empty)) [] of
     (ok, db) \<Rightarrow> ok \<and> map latency_ms (candidates db (8, 1, 1)) = [3]"
proof -
  have "length (serialize print_whole sample_db) \<le> 100"
    by (simp add: serialize_def serialize_result_def sample_db_def print_whole_def int_to_string_def nat_to_string.simps)
  then have len: "length (serialize print_whole sample_db) \<le> arrives \<lparr>opens = True, inserts = True, arrives = 100\<rparr>" by simp
  have few: "\<forall>key. length (candidates sample_db key) \<le> 32" using sample_db_text(3) by blast
  have srt: "latency_sort (real_ops id) (insertion_sort (real_ops id))" by (rule real_sort.latency_sort_axioms)
  obtain ok db where e: "load_db (insertion_sort (real_ops id)) scan_whole ''cache''
      (snd (save_db print_whole \<lparr>opens = True, inserts = True, arrives = 100\<rparr> ''cache'' sample_db Map.empty)) [] = (ok, db)"
    by fastforce
  from tune_file_roundtrip [OF srt sample_db_text(1,2) few _ _ len, of "''cache''" Map.empty]
  have "ok" "mset (candidates db (8, 1, 1)) = mset (candidates sample_db (8, 1, 1))" unfolding e by simp_all
  moreover have "mset (candidates sample_db (8, 1, 1)) = {#hd (snd (hd sample_db))#}"
    by (simp add: sample_db_def candidates_def)
  ultimately have "candidates db (8, 1, 1) = [hd (snd (hd sample_db))]" by (simp only: mset_single_iff)
  with e \<open>ok\<close> show ?thesis by (simp add: sample_db_def)
qed

section \<open>A tuner remembers across its lives\<close>

lemma autotune_run_saves:
  assumes "autotune_run ops srt print timer t a b = Inr (r, t', saved)" "at_db t = record_all srt hist"
    and "\<not> valid (best ops (at_db t) (vshape a ! 0, vshape b ! 1, vshape a ! 1))"
  shows "at_cfg t' = at_cfg t" "\<exists>hist'. at_db t' = record_all srt hist'"
    "saved = (if cfg_persist (at_cfg t) \<and> cfg_cache_file (at_cfg t) \<noteq> [] then Some (serialize print (at_db t')) else None)"
proof -
  let ?key = "(vshape a ! 0, vshape b ! 1, vshape a ! 1)"
  have "snd (fold (keep_best ops srt ?key) rs (x, at_db t)) = record_all srt (hist @ map (Pair ?key) rs)" for rs x
    unfolding keep_best_db record_all_append assms(2) ..
  then have db: "\<exists>hist'. db = record_all srt hist'" if "fold (keep_best ops srt ?key) rs (x, at_db t) = (w, db)" for rs x w db
    using that by (metis snd_conv)
  show "at_cfg t' = at_cfg t" "\<exists>hist'. at_db t' = record_all srt hist'"
    "saved = (if cfg_persist (at_cfg t) \<and> cfg_cache_file (at_cfg t) \<noteq> [] then Some (serialize print (at_db t')) else None)"
    using assms(1,3) db by (auto simp: autotune_run_def Let_def split: if_splits prod.splits dest!: bind_result_Inr_iff [THEN iffD1])
qed

lemma best_candidates: "best ops db key = (if candidates db key = [] then no_result ops else hd (candidates db key))"
  by (auto simp: best_def candidates_def split: option.splits)

context float_order
begin

lemma latency_order_hd:
  "latency_order ops es \<Longrightarrow> r \<in> set es \<Longrightarrow> \<not> f_less ops (latency_ms r) (latency_ms (hd es))"
  by (cases es) (auto simp: less_irrefl)

text \<open>
  Two sorted lists, one of what a file gives for the results of the other: the first of the one is as fast as
  the file says of the first of the other.
\<close>

lemma latency_read_hds:
  assumes "latency_order ops es2" "latency_order ops es" "set es2 = read_result rd ` set es" "es \<noteq> []"
    and mono: "\<And>x y. \<not> f_less ops x y \<Longrightarrow> \<not> f_less ops (rd x) (rd y)"
  shows "\<not> f_less ops (latency_ms (hd es2)) (rd (latency_ms (hd es)))"
    and "\<not> f_less ops (rd (latency_ms (hd es))) (latency_ms (hd es2))"
proof -
  have "es2 \<noteq> []" using assms(3,4) by auto
  then have "hd es2 \<in> read_result rd ` set es" using hd_in_set assms(3) by blast
  then obtain r where r: "r \<in> set es" "hd es2 = read_result rd r" by blast
  show "\<not> f_less ops (latency_ms (hd es2)) (rd (latency_ms (hd es)))"
    using mono [OF latency_order_hd [OF assms(2) r(1)]] r(2) by simp
  have "read_result rd (hd es) \<in> set es2" using assms(3,4) by simp
  from latency_order_hd [OF assms(1) this] show "\<not> f_less ops (rd (latency_ms (hd es))) (latency_ms (hd es2))" by simp
qed

end

text \<open>
  C22: a tuner's answers outlive it, up to the digits the file keeps. Let every number the run stored
  be read from its text as \<open>rd\<close> of it, a rounding that never turns the order of two numbers around. After a run
  that measured, with a cache file and a disk that takes it, a new tuner opened on the files answers
  the same multiplication from the file, whatever the clock would say: with one of the results the
  first tuner kept, as the file gives it, valid, and exactly as fast as the first tuner's
  answer when that is rounded too.
\<close>

theorem tuner_remembers:
  assumes srt: "latency_sort ops srt" and db: "at_db t = record_all srt hist"
    and a: "is_matrix a m k" and b: "is_matrix b k n" and fits: "m * n < 2 ^ 64"
    and miss: "\<not> valid (best ops (at_db t) (m, n, k))" and tile: "8 dvd m \<or> 8 dvd n"
    and cfg: "cfg_persist (at_cfg t)" "cfg_cache_file (at_cfg t) \<noteq> []"
    and run: "run_tuner ops srt print timer d t a b fs = (Inr (r, t'), fs')"
    and disk: "opens d" "length (serialize print (at_db t')) \<le> arrives d"
    and reads: "db_reads print scan rd (at_db t')"
    and mono: "\<And>x y. \<not> f_less ops x y \<Longrightarrow> \<not> f_less ops (rd x) (rd y)"
  shows "let t2 = open_tuner srt scan fs' (at_cfg t); r2 = best ops (at_db t2) (m, n, k) in
     valid r2 \<and> r2 \<in> read_result rd ` set (candidates (at_db t') (m, n, k))
     \<and> \<not> f_less ops (latency_ms r2) (rd (latency_ms r)) \<and> \<not> f_less ops (rd (latency_ms r)) (latency_ms r2)
     \<and> run_tuner ops srt print timer' d' t2 a b fs' = (Inr (r2, t2), fs')"
proof -
  let ?key = "(m, n, k)"
  have ord: "float_order ops" using srt by (rule latency_sort.axioms(1))
  have shapes: "(vshape a ! 0, vshape b ! 1, vshape a ! 1) = ?key" "ndim a = 2" "ndim b = 2" "vshape a ! 1 = vshape b ! 0"
    using a b by (simp_all add: is_matrix_def ndim_def)
  obtain w t1 saved where W: "autotune_run ops srt print timer t a b = Inr (w, t1, saved)"
    "valid (best ops (at_db t1) ?key)" "\<not> f_less ops (latency_ms w) (latency_ms (best ops (at_db t1) ?key))"
    "\<not> f_less ops (latency_ms (best ops (at_db t1) ?key)) (latency_ms w)"
    using autotune_finds_best [OF srt db a b fits miss tile, of print timer] by (auto simp: Let_def)
  note S = autotune_run_saves [OF W(1) db miss [folded shapes(1)]]
  have saved: "saved = Some (serialize print (at_db t1))" using S(3) cfg by simp
  have eq: "w = r" "t1 = t'" "fs' = snd (save_db print d (cfg_cache_file (at_cfg t')) (at_db t') fs)"
    using run W(1) saved by (auto simp: run_tuner_def)
  obtain hist' where hist': "at_db t' = record_all srt hist'" using S(2) unfolding eq by blast
  have ok: "omap_ok (at_db t')" "length (candidates (at_db t') key) \<le> 32" for key
    using record_all_history [OF srt] best_spec [OF srt, of key hist'] unfolding hist' by (auto simp: Let_def)
  let ?db2 = "record_all srt (read_entries rd (entries_of (at_db t')))"
  note L = load_saved [OF srt ok(1) reads ok(2) disk]
  define t2 where "t2 = open_tuner srt scan fs' (at_cfg t)"
  have fs': "fs' (cfg_cache_file (at_cfg t)) = Some (serialize print (at_db t'))"
    unfolding eq(3) using S(1) disk by (simp add: eq save_db_def)
  have t2: "at_db t2 = ?db2"
    using cfg fs' load_serialized [OF reads, of srt "[]"]
    by (simp add: t2_def open_tuner_def auto_tuner_new_def record_all_def)
  let ?c = "candidates (at_db t') ?key" and ?c2 = "candidates ?db2 ?key"
  have ne: "?c \<noteq> []" using W(2) by (auto simp: eq best_candidates no_result_def)
  have sets: "set ?c2 = read_result rd ` set ?c" 
    using mset_eq_setD [OF L(2)] by (simp only: set_map)
  have ne2: "?c2 \<noteq> []" using ne sets by (simp only: set_empty [symmetric] image_is_empty not_False_eq_True)
  have hds: "best ops (at_db t2) ?key = hd ?c2" "best ops (at_db t') ?key = hd ?c"
    using ne ne2 by (simp_all add: best_candidates t2)
  have "latency_order ops ?c" unfolding hist' by (rule record_all_sorted [OF srt])
  note H = float_order.latency_read_hds [OF ord L(3) this sets ne mono]
  have from_file: "hd ?c2 \<in> read_result rd ` set ?c" using hd_in_set [OF ne2] unfolding sets .
  moreover have "valid (hd ?c2)" using from_file candidates_valid [OF ok(1) reads] by auto
  moreover have "\<not> f_less ops (latency_ms (hd ?c2)) (rd (latency_ms r))" "\<not> f_less ops (rd (latency_ms r)) (latency_ms (hd ?c2))"
    using H mono [OF W(3)] mono [OF W(4)] float_order.not_less_trans [OF ord] unfolding eq hds(2) by blast+
  moreover have "run_tuner ops srt print timer' d' t2 a b fs' = (Inr (hd ?c2, t2), fs')"
    using shapes hds(1) \<open>valid (hd ?c2)\<close> by (simp add: run_tuner_def autotune_run_def Let_def)
  ultimately show ?thesis unfolding t2_def [symmetric] Let_def hds(1) by blast
qed

text \<open>
  For the example, a file that keeps whole milliseconds and a run of an 8 x 1 by 1 x 1 multiplication
  whose three candidates take 3.5, 2.5 and 1.5 ms.
\<close>

lemma sample_gemm:
  assumes "gtile c < 2 ^ 31"
  shows "\<exists>x. gemm ops \<lparr>vshape = [8, 1], vdtype = DType_F32, vdata = replicate 8 x1\<rparr>
    \<lparr>vshape = [1, 1], vdtype = DType_F32, vdata = [x2]\<rparr> c = Inr x"
proof -
  have "is_matrix \<lparr>vshape = [8, 1], vdtype = DType_F32, vdata = replicate 8 x1\<rparr> 8 1"
    "is_matrix \<lparr>vshape = [1, 1], vdtype = DType_F32, vdata = [x2]\<rparr> 1 1" by (simp_all add: is_matrix_def)
  from gemm_matrix [OF assms this, of ops] show ?thesis by auto
qed

definition timed_result :: "int \<Rightarrow> real \<Rightarrow> real tune_result" where
  "timed_result w x = \<lparr>config = \<lparr>gtile = 8, gwarps = w, use_tensor_core = False\<rparr>, latency_ms = x,
     throughput = 16 / (x * 10 ^ 6), valid = True\<rparr>"

definition sample_timer :: "nat \<Rightarrow> real" where
  "sample_timer i = 7 / 2 - real i"

abbreviation sample_results :: "real tune_result list" where
  "sample_results \<equiv> [timed_result 8 (3 / 2), timed_result 4 (5 / 2), timed_result 2 (7 / 2)]"

lemma sample_reads: "r \<in> set sample_results \<Longrightarrow> result_reads print_whole scan_whole (\<lambda>x. real_of_int \<lfloor>x\<rfloor>) r"
  by (auto simp: result_reads_def timed_result_def intro!: whole_reads)

lemma sample_run:
  "\<exists>rep saved. autotune_run (real_ops id) (insertion_sort (real_ops id)) print_whole sample_timer
     \<lparr>at_cfg = \<lparr>cfg_warmup = 0, cfg_iterations = 1, cfg_persist = True, cfg_cache_file = ''cache''\<rparr>,
       at_db = [], at_report = []\<rparr>
     \<lparr>vshape = [8, 1], vdtype = DType_F32, vdata = replicate 8 (1 :: real)\<rparr>
     \<lparr>vshape = [1, 1], vdtype = DType_F32, vdata = [2 :: real]\<rparr>
   = Inr (timed_result 8 (3 / 2),
     \<lparr>at_cfg = \<lparr>cfg_warmup = 0, cfg_iterations = 1, cfg_persist = True, cfg_cache_file = ''cache''\<rparr>,
       at_db = [((8, 1, 1), sample_results)], at_report = rep\<rparr>, saved)"
proof -
  let ?cs = "[\<lparr>gtile = 8, gwarps = 2, use_tensor_core = False\<rparr>, \<lparr>gtile = 8, gwarps = 4, use_tensor_core = False\<rparr>,
    \<lparr>gtile = 8, gwarps = 8, use_tensor_core = False\<rparr>]"
  let ?a = "\<lparr>vshape = [8, 1], vdtype = DType_F32, vdata = replicate 8 (1 :: real)\<rparr>"
  let ?b = "\<lparr>vshape = [1, 1], vdtype = DType_F32, vdata = [2 :: real]\<rparr>"
  have cs: "gemm_space 8 1 1 = ?cs" by (simp add: gemm_space_def)
  have loop: "fold_result (\<lambda>c _. bind_result (gemm (real_ops id) ?a ?b c) (\<lambda>_. Inr ())) ?cs () = Inr ()"
  proof -
    have "bind_result (gemm (real_ops id) ?a ?b c) (\<lambda>_. Inr ()) = Inr ()" if "gtile c < 2 ^ 31" for c
      using sample_gemm [OF that, of "real_ops id" 1 2] by auto
    then show ?thesis by simp
  qed
  have n: "numel [8, 1] = Inr 8" by (simp add: numel_def wmul_def size_max_def)
  have dec: "f_dec (real_ops id) 1 6 = 10 ^ 6" by (simp add: real_ops_def)
  have rs: "map result_of (zip ?cs (fst (run_suite (real_ops id) 0 1 sample_timer (tune_cases (real_ops id) 8 1 ?cs) 0 ())))
      = [timed_result 2 (7 / 2), timed_result 4 (5 / 2), timed_result 8 (3 / 2)]"
    by (simp add: tune_cases_def add_case_def run_case_def Let_def timed_result_def result_of_def sample_timer_def dec)
  have fold: "fold (keep_best (real_ops id) (insertion_sort (real_ops id)) (8, 1, 1))
      [timed_result 2 (7 / 2), timed_result 4 (5 / 2), timed_result 8 (3 / 2)] (no_result (real_ops id), [])
    = (timed_result 8 (3 / 2), [((8, 1, 1), sample_results)])"
    by (simp add: keep_best_def no_result_def timed_result_def record_result_def insertion_sort_def)
  have none: "\<not> valid (no_result (real_ops id))" by (simp add: no_result_def)
  show ?thesis
    using none by (simp add: autotune_run_def ndim_def best_def cs [simplified] Let_def loop [simplified] n [simplified]
        rs [simplified] fold [simplified])
qed

theorem tuner_remembers_witness:
  "let cfg = \<lparr>cfg_warmup = 0, cfg_iterations = 1, cfg_persist = True, cfg_cache_file = ''cache''\<rparr>;
       a = \<lparr>vshape = [8, 1], vdtype = DType_F32, vdata = replicate 8 (1 :: real)\<rparr>;
       b = \<lparr>vshape = [1, 1], vdtype = DType_F32, vdata = [2 :: real]\<rparr>;
       srt = insertion_sort (real_ops id); d = \<lparr>opens = True, inserts = True, arrives = 100\<rparr>;
       t = open_tuner srt scan_whole Map.empty cfg;
       (res, fs) = run_tuner (real_ops id) srt print_whole sample_timer d t a b Map.empty;
       t2 = open_tuner srt scan_whole fs cfg;
       r2 = best (real_ops id) (at_db t2) (8, 1, 1)
   in map_sum id fst res = Inr (timed_result 8 (3 / 2)) \<and> valid r2 \<and> latency_ms r2 = 1
      \<and> run_tuner (real_ops id) srt print_whole (\<lambda>_. 7) d t2 a b fs = (Inr (r2, t2), fs)"
proof -
  let ?cfg = "\<lparr>cfg_warmup = 0, cfg_iterations = 1, cfg_persist = True, cfg_cache_file = ''cache''\<rparr>"
  let ?a = "\<lparr>vshape = [8, 1], vdtype = DType_F32, vdata = replicate 8 (1 :: real)\<rparr>"
  let ?b = "\<lparr>vshape = [1, 1], vdtype = DType_F32, vdata = [2 :: real]\<rparr>"
  let ?srt = "insertion_sort (real_ops id)" and ?d = "\<lparr>opens = True, inserts = True, arrives = 100\<rparr>"
  let ?w = "timed_result 8 (3 / 2)"
  define t where "t = (\<lparr>at_cfg = ?cfg, at_db = [], at_report = []\<rparr> :: real auto_tuner)"
  have srt: "latency_sort (real_ops id) ?srt" by (rule real_sort.latency_sort_axioms)
  have t: "open_tuner ?srt scan_whole Map.empty ?cfg = t" "at_cfg t = ?cfg"
    by (simp_all add: open_tuner_def auto_tuner_new_def t_def)
  have m: "is_matrix ?a 8 1" "is_matrix ?b 1 1" by (simp_all add: is_matrix_def)
  have miss: "\<not> valid (best (real_ops id) (at_db t) (8, 1, 1))" by (simp add: t_def best_def no_result_def)
  have db: "at_db t = record_all ?srt []" by (simp add: t_def record_all_def)
  obtain t' saved where at: "autotune_run (real_ops id) ?srt print_whole sample_timer t ?a ?b = Inr (?w, t', saved)"
    and t': "at_db t' = [((8, 1, 1), sample_results)]"
    using sample_run unfolding t_def [symmetric] by force
  have len: "length (serialize print_whole (at_db t')) \<le> arrives ?d"
    by (simp add: t' serialize_def serialize_result_def timed_result_def print_whole_def int_to_string_def nat_to_string.simps)
  have reads: "db_reads print_whole scan_whole (\<lambda>x. real_of_int \<lfloor>x\<rfloor>) (at_db t')"
    using sample_reads by (auto simp: t' db_reads_def entries_of_def key_text_def size_max_def)
  obtain fs' where run: "run_tuner (real_ops id) ?srt print_whole sample_timer ?d t ?a ?b Map.empty = (Inr (?w, t'), fs')"
    using at by (cases saved) (simp_all add: run_tuner_def)
  have mono: "\<not> f_less (real_ops id) x y \<Longrightarrow> \<not> f_less (real_ops id) (real_of_int \<lfloor>x\<rfloor>) (real_of_int \<lfloor>y\<rfloor>)" for x y
    by (simp add: floor_mono not_less)
  have one: "\<lfloor>latency_ms ?w\<rfloor> = 1" by (simp add: timed_result_def)
  let ?t2 = "open_tuner ?srt scan_whole fs' (at_cfg t)"
  let ?r2 = "best (real_ops id) (at_db ?t2) (8, 1, 1)"
  have "valid ?r2 \<and> \<not> latency_ms ?r2 < 1 \<and> \<not> 1 < latency_ms ?r2
      \<and> run_tuner (real_ops id) ?srt print_whole (\<lambda>_. 7) ?d ?t2 ?a ?b fs' = (Inr (?r2, ?t2), fs')"
    using tuner_remembers [OF srt db m _ miss _ _ _ run _ len reads mono, of "\<lambda>_. 7" ?d] one
    by (simp add: t(2) Let_def)
  then show ?thesis using run by (simp add: t Let_def)
qed

text \<open>A full disk goes unnoticed: the stream is good, and the file is empty.\<close>

lemma save_reports_buffered:
  "save_db print \<lparr>opens = True, inserts = True, arrives = 0\<rparr> path db fs = (True, fs(path \<mapsto> []))"
  by (simp add: save_db_def)

text \<open>A line with a negative size is not refused: it becomes a huge one.\<close>

lemma negative_size_accepted:
  "scan_size ''-1,1,1'' = Some (size_max, '',1,1'')"
  by (simp add: scan_size_def scan_number_def skip_space_def is_space_def is_digit_def digits_value_def size_max_def wsub_def)

end
