(* ===== verification/Span_Lifetimes.thy ===== *)
theory Span_Lifetimes
  imports Kama_System
begin

text \<open>
  How long a span lives, for what is kept beside the spans: a call of a thread cache
  (vendor_memorypool/v3/src/ThreadCache.cpp, CentralCache.cpp) either puts spans to use or takes spans
  out of use, and the spans it leaves in use keep their place, class and blocks.
\<close>

section \<open>Spans across a call\<close>

text \<open>\<open>covers v u\<close>: every span in use in \<open>u\<close> is in use in \<open>v\<close> with the same place, class and blocks.\<close>

definition covers :: "(nat \<Rightarrow> span option) \<Rightarrow> (nat \<Rightarrow> span option) \<Rightarrow> bool" where
  "covers v u \<longleftrightarrow> (\<forall>i s. u i = Some s \<longrightarrow> (\<exists>t. v i = Some t \<and> same_kind s t))"

lemma covers_refl [simp]: "covers u u"
  unfolding covers_def using same_kind_refl by blast

lemma covers_trans: "covers w v \<Longrightarrow> covers v u \<Longrightarrow> covers w u"
  unfolding covers_def by (meson same_kind_trans)

lemma same_kind_sym: "same_kind s t \<Longrightarrow> same_kind t s"
  by (simp add: same_kind_def)

lemma covers_change:
  assumes "u i = Some s" "same_kind s t"
  shows "covers (u(i \<mapsto> t)) u" "covers u (u(i \<mapsto> t))"
  using assms same_kind_refl by (auto simp: covers_def intro: same_kind_sym)

lemma covers_add: "u i = None \<Longrightarrow> covers (u(i \<mapsto> t)) u"
  using same_kind_refl by (auto simp: covers_def)

lemma covers_remove: "covers u (u(i := None))"
  using same_kind_refl by (auto simp: covers_def)

text \<open>A batch taken from the central cache only puts spans to use, a batch given back only frees them.\<close>

lemma first_partial_covers:
  assumes ok: "central_ok pl mapped out cc" and pl: "platform_ok pl mapped" and c: "index < class_count"
    and eq: "first_partial pl index cc = (r, cc')"
  shows "covers (cc_used cc') (cc_used cc)"
proof (cases "partial_spans cc index")
  case Nil
  obtain q pc where n: "create_span pl index (page_cache_of cc) = (q, pc)" by fastforce
  have "cc_used cc' = used pc" using Nil n eq by (auto simp: first_partial_def split: option.splits)
  with create_span_ok(2) [OF ok pl c n] covers_add show ?thesis by (auto split: option.splits)
next
  case (Cons i rest)
  with eq show ?thesis by (simp add: first_partial_def)
qed

lemma take_block_covers:
  assumes ok: "central_ok pl mapped out cc" and i: "partial_spans cc index = i # rest"
    and eq: "take_block index i cc = (x, cc')"
  shows "covers (cc_used cc') (cc_used cc)"
proof -
  have pc: "pc_ok pl mapped (page_cache_of cc)"
    and sp: "spans_ok pl (cc_used cc) (partial_spans cc) out" using ok by (simp_all add: central_ok_def)
  obtain s where s: "cc_used cc i = Some s" using spans_ok_mem [OF sp, of i index] i by auto
  let ?f = "\<lambda>s. s\<lparr>free_list := tl (free_list s), free_count := free_count s - 1\<rparr>"
  have "cc_used cc' = used (update_span i ?f (page_cache_of cc))"
    using eq by (auto simp: take_block_def Let_def)
  then show ?thesis
    using update_ok(2) [OF pc s keeps_extent_simps(1), of "\<lambda>s. free_count s - 1" "\<lambda>s. tl (free_list s)"]
      covers_change(1) [of "cc_used cc", OF s] by simp
qed

lemma fetch_loop_covers:
  assumes pl: "platform_ok pl mapped" and c: "index < class_count"
    and "central_ok pl mapped out cc" and "fetch_loop pl index n cc = (xs, cc')"
  shows "covers (cc_used cc') (cc_used cc)"
  using assms(3,4)
proof (induction n arbitrary: out cc xs cc')
  case (Suc n)
  obtain r cc1 where f: "first_partial pl index cc = (r, cc1)" by fastforce
  note fp = first_partial_ok [OF Suc.prems(1) pl c f] first_partial_covers [OF Suc.prems(1) pl c f]
  show ?case
  proof (cases r)
    case (Some i)
    obtain x cc2 where t: "take_block index i cc1 = (x, cc2)" by fastforce
    obtain ys cc3 where l: "fetch_loop pl index n cc2 = (ys, cc3)" by fastforce
    have e: "cc' = cc3" using Suc.prems(2) f Some t l by simp
    obtain rest where rest: "partial_spans cc1 index = i # rest" using fp(3) Some by blast
    note tb = take_block_ok(1) [OF fp(1) platform_pos [OF pl] rest t] take_block_covers [OF fp(1) rest t]
    from Suc.IH [OF tb(1) l] tb(2) fp(4) show ?thesis unfolding e by (blast intro: covers_trans)
  qed (use Suc.prems f fp in simp)
qed simp

lemma return_block_covers:
  assumes ok: "central_ok pl mapped out cc" and pl: "platform_ok pl mapped"
    and x: "x \<in> out" and c: "in_class (cc_used cc) index x"
  shows "covers (cc_used cc) (cc_used (return_block pl index x cc))"
proof -
  have pc: "pc_ok pl mapped (page_cache_of cc)" using ok by (simp add: central_ok_def)
  obtain i s where s: "cc_used cc i = Some s" "\<not> is_large s" "size_class s = index" "x \<in> blocks_of s"
    using c unfolding in_class_def by blast
  have find: "find_span_locked pl x (page_cache_of cc) = Some i"
    using find_in_class(1) [OF ok platform_pos [OF pl] s(1,2,4)] by (simp add: find_span_def)
  let ?f = "\<lambda>s. s\<lparr>free_list := x # free_list s, free_count := free_count s + 1\<rparr>"
  define pc' where "pc' = update_span i ?f (page_cache_of cc)"
  have u: "pc_ok pl mapped pc'" "used pc' = (cc_used cc)(i \<mapsto> ?f s)"
    unfolding pc'_def by (rule update_ok [OF pc s(1) keeps_extent_simps(1)])+
  then have at': "used pc' i = Some (?f s)" by simp
  have "cc_used (return_block pl index x cc) = used pc'
      \<or> cc_used (return_block pl index x cc) = used (deallocate_span pl (Some i) pc')"
    unfolding return_block_def find option.case Let_def pc'_def [symmetric] span_at_used [OF s(1)]
    using s(3) by (simp add: unlink_partial_def)
  moreover have "covers (cc_used cc) (used pc')"
    unfolding u(2) by (rule covers_change(2) [of "cc_used cc", OF s(1) same_kind_lists])
  moreover have "covers (used pc') (used (deallocate_span pl (Some i) pc'))"
    unfolding deallocate_span_ok(2) [OF u(1) pl at'] by (rule covers_remove)
  ultimately show ?thesis using covers_trans by fastforce
qed

lemma return_loop_covers:
  assumes pl: "platform_ok pl mapped" and "central_ok pl mapped out cc" and "set xs \<subseteq> out"
    and "distinct xs" and "\<forall>x \<in> set xs. in_class (cc_used cc) index x"
  shows "covers (cc_used cc) (cc_used (return_loop pl index xs cc))"
  using assms(2-)
proof (induction xs arbitrary: out cc)
  case (Cons x xs)
  have x: "x \<in> out" "in_class (cc_used cc) index x" using Cons.prems by simp_all
  note b = return_block_ok [OF Cons.prems(1) pl x] return_block_covers [OF Cons.prems(1) pl x]
  have "\<forall>y \<in> set xs. in_class (cc_used (return_block pl index x cc)) index y"
    using Cons.prems in_class_frame [OF b(2)] by auto
  moreover have "set xs \<subseteq> out - {x}" using Cons.prems by auto
  ultimately show ?case using Cons.IH [OF b(1)] Cons.prems(3) b(3) covers_trans by fastforce
qed simp

lemma fetch_range_covers:
  assumes "platform_ok pl mapped" and "central_ok pl mapped out cc" and "fetch_range pl index n cc = (xs, cc')"
  shows "covers (cc_used cc') (cc_used cc)"
  using assms fetch_loop_covers [of pl mapped index out cc n xs cc']
  by (auto simp: fetch_range_def split: if_splits)

lemma return_range_covers:
  assumes "platform_ok pl mapped" and "central_ok pl mapped out cc" and "set xs \<subseteq> out"
    and "distinct xs" and "\<forall>x \<in> set xs. in_class (cc_used cc) index x"
  shows "covers (cc_used cc) (cc_used (return_range pl xs index cc))"
  using return_loop_covers [OF assms] by (simp add: return_range_def)

section \<open>Calls of a thread cache\<close>

lemma fetch_from_central_covers:
  assumes ok: "kama_ok pl mapped live st" and pl: "platform_ok pl mapped"
    and eq: "fetch_from_central pl t c st = (r, st')"
  shows "covers (st_used st') (st_used st)"
proof -
  obtain xs cc where f: "fetch_range pl c (get_batch_num (get_size c)) (central st) = (xs, cc)" by fastforce
  have "st_used st' = cc_used cc"
    using eq f by (auto simp: fetch_from_central_def Let_def split: list.splits)
  with fetch_range_covers [OF pl kama_ok_parts(1) [OF ok] f] show ?thesis by simp
qed

lemma tc_allocate_covers:
  assumes ok: "kama_ok pl mapped live st" and pl: "platform_ok pl mapped"
    and eq: "tc_allocate pl t n st = (r, st')"
  shows "covers (st_used st') (st_used st)"
proof (cases "norm_bytes n > max_bytes")
  case True
  then have "allocate_large pl (norm_bytes n) st = (r, st')"
    using eq by (simp add: tc_allocate_def norm_bytes_def Let_def split: if_splits)
  from allocate_large_ok [OF ok pl this] covers_add show ?thesis by (cases r) auto
next
  case False
  let ?c = "get_index (norm_bytes n)"
  show ?thesis
  proof (cases "tc_list (threads st t) ?c")
    case Nil
    then have "fetch_from_central pl t ?c st = (r, st')"
      using eq False by (simp add: tc_allocate_def norm_bytes_def Let_def split: if_splits)
    from fetch_from_central_covers [OF ok pl this] show ?thesis .
  next
    case (Cons x l)
    then have "st' = set_class t ?c l (tc_size (threads st t) ?c - 1) st"
      using eq False by (auto simp: tc_allocate_def norm_bytes_def Let_def split: if_splits)
    then show ?thesis by simp
  qed
qed

lemma return_to_central_covers:
  assumes ok: "kama_ok pl mapped live st" and pl: "platform_ok pl mapped"
  shows "covers (st_used st) (st_used (return_to_central pl t c st))"
proof -
  let ?l = "tc_list (threads st t) c"
  note p = kama_ok_parts [OF ok]
  have r: "covers (st_used st) (cc_used (return_range pl (drop k ?l) c (central st)))" for k
  proof (rule return_range_covers [OF pl p(1)])
    show "set (drop k ?l) \<subseteq> (live - larges (st_used st)) \<union> cached (threads st)"
      using cached_mem [of _ "threads st" t c] by (auto dest: in_set_dropD)
    show "distinct (drop k ?l)" using lists_ok_dest(1) [OF p(2)] by simp
    show "\<forall>x \<in> set (drop k ?l). in_class (st_used st) c x"
      using lists_ok_dest(3) [OF p(2)] by (auto dest: in_set_dropD)
  qed
  show ?thesis by (simp add: return_to_central_def Let_def r)
qed

lemma push_block_covers:
  assumes ok: "kama_ok pl mapped live st" and pl: "platform_ok pl mapped"
    and x: "x \<in> live" and cl: "in_class (st_used st) c x"
  shows "covers (st_used st) (st_used (push_block pl t c x st))"
proof -
  have "x \<notin> larges (st_used st)"
    by (rule in_class_not_large [OF kama_ok_parts(1) [OF ok] platform_pos [OF pl] cl])
  from return_to_central_covers [OF push_ok_kama [OF ok x cl this] pl] show ?thesis
    by (simp add: push_block_def Let_def)
qed

lemma flush_loop_covers:
  assumes pl: "platform_ok pl mapped" and "kama_ok pl mapped live st" and "\<forall>c \<in> set cs. c < class_count"
  shows "covers (st_used st) (st_used (flush_loop pl t cs st))"
  using assms(2,3)
proof (induction cs arbitrary: st)
  case (Cons c cs)
  note p = kama_ok_parts [OF Cons.prems(1)]
  define st1 where "st1 = flush_loop pl t [c] st"
  have "kama_ok pl mapped live st1"
    using flush_loop_ok [OF pl Cons.prems(1), of "[c]" t] Cons.prems(2) by (simp add: st1_def)
  from Cons.IH [OF this] Cons.prems(2) have "covers (st_used st1) (st_used (flush_loop pl t cs st1))" by simp
  moreover have "covers (st_used st) (cc_used (return_range pl (tc_list (threads st t) c) c (central st)))"
    by (rule return_range_covers [OF pl p(1)])
      (use lists_ok_dest [OF p(2)] cached_mem [of _ "threads st" t c] in auto)
  then have "covers (st_used st) (st_used st1)" by (simp add: st1_def)
  moreover have "flush_loop pl t (c # cs) st = flush_loop pl t cs st1" by (simp add: st1_def)
  ultimately show ?case using covers_trans by metis
qed simp

text \<open>Where an address a caller holds lies: in the span its page maps to.\<close>

lemma live_span:
  assumes ok: "kama_ok pl mapped live st" and pl: "platform_ok pl mapped" and p: "p \<in> live"
  obtains i s where "find_span pl (Some p) (page_cache_of (central st)) = Some i" "st_used st i = Some s"
    "if is_large s then p = page_addr s else p \<in> blocks_of s"
proof (cases "p \<in> larges (st_used st)")
  case True
  then obtain i s where s: "st_used st i = Some s" "is_large s" "p = page_addr s" by (auto simp: larges_def)
  from that [OF find_large [OF kama_ok_parts(1) [OF ok] s(1), folded s(3)] s(1)] s show thesis by simp
next
  case False
  note c = kama_ok_parts(1) [OF ok]
  from False p have "p \<in> (live - larges (st_used st)) \<union> cached (threads st)" by blast
  with c obtain i s where s: "st_used st i = Some s" "\<not> is_large s" "p \<in> blocks_of s"
    unfolding central_ok_def by (metis spans_ok_out)
  from that [OF find_in_class(1) [OF c platform_pos [OF pl] s] s(1)] s show thesis by simp
qed

text \<open>The blocks of a span put to use by an allocation are not held by anyone.\<close>

lemma live_blocks_stay:
  assumes ok: "kama_ok pl mapped live st" "kama_ok pl mapped live' st'" and pl: "platform_ok pl mapped"
    and c: "covers (st_used st') (st_used st)" and i: "st_used st i = None" "st_used st' i = Some s" "\<not> is_large s"
  shows "blocks_of s \<inter> live = {}"
proof -
  have False if x: "x \<in> blocks_of s" "x \<in> live" for x
  proof -
    obtain j r where r: "st_used st j = Some r" "if is_large r then x = page_addr r else x \<in> blocks_of r"
      using live_span [OF ok(1) pl x(2)] .
    with c obtain q where q: "st_used st' j = Some q" "same_kind r q" unfolding covers_def by blast
    have ij: "i \<noteq> j" using r i by auto
    show False
    proof (cases "is_large q")
      case True
      with r q have "x = page_addr q" by (simp add: same_kind_def)
      with q(1) True have "x \<in> larges (st_used st')" unfolding larges_def by blast
      moreover have "in_class (st_used st') (size_class s) x" using i x(1) unfolding in_class_def by blast
      ultimately show False
        using in_class_not_large [OF kama_ok_parts(1) [OF ok(2)] platform_pos [OF pl]] by blast
    next
      case False
      with r q have "x \<in> blocks_of q" using same_kind_blocks [OF q(2)] by (simp add: same_kind_def)
      moreover have "apart (st_used st')"
        by (rule central_ok_apart [OF kama_ok_parts(1) [OF ok(2)] platform_pos [OF pl]])
      ultimately show False using x(1) i(2,3) q(1) False ij unfolding apart_def by blast
    qed
  qed
  then show ?thesis by blast
qed

lemma used_end:
  assumes "pc_ok pl mapped pc" "used pc i = Some s"
  shows "page_addr s + num_pages s * page_size pl \<le> 2 ^ 64"
proof -
  have "(origin_addr s, origin_pages s * page_size pl) \<in> set (system_allocs pc)"
    "page_addr s + num_pages s * page_size pl \<le> origin_addr s + origin_pages s * page_size pl"
    using used_shape [OF assms] by (simp_all add: shape_ok_def)
  moreover have "\<forall>(a, n) \<in> set (system_allocs pc). a + n \<le> 2 ^ 64"
    using assms(1) unfolding pc_ok_def allocs_ok_def by fast
  ultimately show ?thesis by force
qed

end
