(* ===== verification/Debug_Guards.thy ===== *)
theory Debug_Guards
  imports Span_Lifetimes
begin

text \<open>
  The debug guards of the allocator (vendor_memorypool/v3/src/ThreadCache.cpp, the calls under
  \<open>kDebugGuardsEnabled\<close>): each span keeps a mark per block, set while a caller holds it, or one flag
  for a large span. A free is checked against the marks first. The guarded thread cache is the plain
  one beside the marks of every span; what holds of it holds whatever addresses the program frees.
\<close>

section \<open>Marks\<close>

record debug_marks =
  alloc_map :: "bool list"
  large_allocated :: bool

record 'o guarded =
  plain :: "'o kama"
  marks :: "nat \<Rightarrow> debug_marks"

definition no_marks :: debug_marks where
  "no_marks = \<lparr>alloc_map = [], large_allocated = False\<rparr>"

definition guarded_new :: "'o \<Rightarrow> 'o guarded" where
  "guarded_new w = \<lparr>plain = kama_new w, marks = (\<lambda>_. no_marks)\<rparr>"

text \<open>
  What the caches below do with the marks in a call, from the spans in use before it and after it. A
  span put to use gets one clear mark for each block (\<open>createSpan\<close>) or the flag of a large span
  (\<open>allocate\<close>); a span taken out of use loses its marks (\<open>deallocateSpan\<close>).
\<close>

definition block_marks :: "nat \<Rightarrow> debug_marks" where
  "block_marks n = \<lparr>alloc_map = replicate n False, large_allocated = False\<rparr>"

definition large_marks :: debug_marks where
  "large_marks = \<lparr>alloc_map = [], large_allocated = True\<rparr>"

definition fresh_marks :: "span \<Rightarrow> debug_marks" where
  "fresh_marks s = (if is_large s then large_marks else block_marks (block_count s))"

definition settle ::
  "(nat \<Rightarrow> span option) \<Rightarrow> (nat \<Rightarrow> span option) \<Rightarrow> (nat \<Rightarrow> debug_marks) \<Rightarrow> nat \<Rightarrow> debug_marks" where
  "settle before after m i =
     (case after i of
        None \<Rightarrow> if before i = None then m i else no_marks
      | Some s \<Rightarrow> if before i = None then fresh_marks s else m i)"

definition debug_block_index :: "span \<Rightarrow> nat \<Rightarrow> nat" where
  "debug_block_index s p =
     (if p < page_addr s then size_max
      else if block_size s = 0 \<or> (p - page_addr s) mod block_size s \<noteq> 0 then size_max
      else (p - page_addr s) div block_size s)"

definition mark_block :: "nat \<Rightarrow> nat \<Rightarrow> bool \<Rightarrow> (nat \<Rightarrow> debug_marks) \<Rightarrow> nat \<Rightarrow> debug_marks" where
  "mark_block i k b m = m(i := (m i)\<lparr>alloc_map := (alloc_map (m i))[k := b]\<rparr>)"

definition debug_mark_allocated ::
  "'o page_cache \<Rightarrow> nat option \<Rightarrow> nat \<Rightarrow> (nat \<Rightarrow> debug_marks) \<Rightarrow> bool \<times> (nat \<Rightarrow> debug_marks)" where
  "debug_mark_allocated pc sp p m =
     (case sp of
        None \<Rightarrow> (True, m)
      | Some i \<Rightarrow>
          if is_large (span_at pc i) then (True, m)
          else (let k = debug_block_index (span_at pc i) p in
                if k \<ge> length (alloc_map (m i)) then (False, m)
                else if alloc_map (m i) ! k then (False, m)
                else (True, mark_block i k True m)))"

definition debug_validate_freed ::
  "'o page_cache \<Rightarrow> nat option \<Rightarrow> nat \<Rightarrow> nat \<Rightarrow> (nat \<Rightarrow> debug_marks) \<Rightarrow> bool \<times> (nat \<Rightarrow> debug_marks)" where
  "debug_validate_freed pc sp p expected m =
     (case sp of
        None \<Rightarrow> (False, m)
      | Some i \<Rightarrow>
          (let s = span_at pc i in
           if is_large s then
             (if p \<noteq> page_addr s \<or> \<not> large_allocated (m i) then (False, m)
              else (True, m(i := (m i)\<lparr>large_allocated := False\<rparr>)))
           else if expected \<noteq> size_max \<and> size_class s \<noteq> expected then (False, m)
           else (let k = debug_block_index s p in
                 if k \<ge> length (alloc_map (m i)) then (False, m)
                 else if \<not> alloc_map (m i) ! k then (False, m)
                 else (True, mark_block i k False m))))"

section \<open>The guarded calls\<close>

definition with_marks :: "'o guarded \<Rightarrow> (nat \<Rightarrow> debug_marks) \<Rightarrow> 'o kama \<Rightarrow> 'o guarded" where
  "with_marks g m st' = \<lparr>plain = st', marks = settle (st_used (plain g)) (st_used st') m\<rparr>"

definition guarded_allocate :: "'o platform \<Rightarrow> nat \<Rightarrow> nat \<Rightarrow> 'o guarded \<Rightarrow> nat option \<times> 'o guarded" where
  "guarded_allocate pl t n g =
     (case tc_allocate pl t n (plain g) of
        (None, st') \<Rightarrow> (None, with_marks g (marks g) st')
      | (Some p, st') \<Rightarrow>
          (let g' = with_marks g (marks g) st'; pc = page_cache_of (central st') in
           if n > max_bytes then (Some p, g')
           else (case debug_mark_allocated pc (find_span pl (Some p) pc) p (marks g') of
                   (True, m) \<Rightarrow> (Some p, g'\<lparr>marks := m\<rparr>)
                 | (False, m) \<Rightarrow> (None, g'\<lparr>marks := m\<rparr>))))"

definition guarded_allocate_aligned ::
  "'o platform \<Rightarrow> nat \<Rightarrow> nat \<Rightarrow> nat \<Rightarrow> 'o guarded \<Rightarrow> nat option \<times> 'o guarded" where
  "guarded_allocate_aligned pl t bytes alignment g =
     (if alignment = 0 \<or> word_and alignment (alignment - 1) \<noteq> 0 then (None, g)
      else if alignment \<le> k_alignment then guarded_allocate pl t bytes g
      else if bytes > size_max - (alignment - 1) then (None, g)
      else guarded_allocate pl t (and_not (bytes + alignment - 1) (alignment - 1)) g)"

definition guarded_flush :: "'o platform \<Rightarrow> nat \<Rightarrow> 'o guarded \<Rightarrow> 'o guarded" where
  "guarded_flush pl t g = with_marks g (marks g) (flush_all pl t (plain g))"

text \<open>After the check, \<open>deallocate\<close> goes on as it does without the guards.\<close>

definition guarded_deallocate :: "'o platform \<Rightarrow> nat \<Rightarrow> nat option \<Rightarrow> 'o guarded \<Rightarrow> bool \<times> 'o guarded" where
  "guarded_deallocate pl t ptr g =
     (case ptr of
        None \<Rightarrow> (False, g)
      | Some p \<Rightarrow>
          (let pc = page_cache_of (central (plain g)) in
           case find_span pl (Some p) pc of
             None \<Rightarrow> (False, g)
           | Some i \<Rightarrow>
               (let s = span_at pc i in
                case debug_validate_freed pc (Some i) p (if is_large s then size_max else size_class s) (marks g) of
                  (False, m) \<Rightarrow> (False, g\<lparr>marks := m\<rparr>)
                | (True, m) \<Rightarrow>
                    (case tc_deallocate pl t ptr (plain g) of (b, st') \<Rightarrow> (b, with_marks g m st')))))"

definition guarded_deallocate_sized ::
  "'o platform \<Rightarrow> nat \<Rightarrow> nat option \<Rightarrow> nat \<Rightarrow> 'o guarded \<Rightarrow> bool \<times> 'o guarded" where
  "guarded_deallocate_sized pl t ptr bytes g =
     (case ptr of
        None \<Rightarrow> (False, g)
      | Some p \<Rightarrow>
          (let n = (if bytes = 0 then k_alignment else bytes);
               cc = central (plain g); pc = page_cache_of cc; sp = find_span pl (Some p) pc in
           if n > max_bytes then
             (case debug_validate_freed pc sp p size_max (marks g) of
                (False, m) \<Rightarrow> (False, g\<lparr>marks := m\<rparr>)
              | (True, m) \<Rightarrow>
                  if sp \<noteq> None \<and> is_large (span_at pc (the sp))
                  then (True, with_marks g m
                          ((plain g)\<lparr>central := cc\<lparr>page_cache_of := deallocate_span pl sp pc\<rparr>\<rparr>))
                  else guarded_deallocate pl t ptr (g\<lparr>marks := m\<rparr>))
           else
             (let c = get_index (round_up n) in
              if c \<ge> class_count then guarded_deallocate pl t ptr g
              else (case debug_validate_freed pc sp p c (marks g) of
                      (False, m) \<Rightarrow> (False, g\<lparr>marks := m\<rparr>)
                    | (True, m) \<Rightarrow> (True, with_marks g m (push_block pl t c p (plain g)))))))"

section \<open>What the marks say\<close>

definition span_marks :: "span \<Rightarrow> nat set \<Rightarrow> debug_marks \<Rightarrow> bool" where
  "span_marks s live d \<longleftrightarrow>
     (if is_large s then large_allocated d
      else length (alloc_map d) = block_count s
        \<and> (\<forall>k < block_count s. alloc_map d ! k \<longleftrightarrow> page_addr s + k * block_size s \<in> live))"

definition marks_ok :: "(nat \<Rightarrow> span option) \<Rightarrow> nat set \<Rightarrow> (nat \<Rightarrow> debug_marks) \<Rightarrow> bool" where
  "marks_ok u live m \<longleftrightarrow>
     (\<forall>i. u i = None \<longrightarrow> m i = no_marks) \<and> (\<forall>i s. u i = Some s \<longrightarrow> span_marks s live (m i))"

definition guard_ok :: "'o platform \<Rightarrow> ('o \<Rightarrow> nat set) \<Rightarrow> nat set \<Rightarrow> 'o guarded \<Rightarrow> bool" where
  "guard_ok pl mapped live g \<longleftrightarrow> kama_ok pl mapped live (plain g) \<and> marks_ok (st_used (plain g)) live (marks g)"

lemma span_marks_kind: "same_kind s t \<Longrightarrow> span_marks t live d = span_marks s live d"
  by (simp add: span_marks_def same_kind_def)

lemma block_mem: "x \<in> blocks_of s \<longleftrightarrow> (\<exists>k < block_count s. x = page_addr s + k * block_size s)"
  by (auto simp: blocks_of_def block_list_def)

lemma block_in: "k < block_count s \<Longrightarrow> page_addr s + k * block_size s \<in> blocks_of s"
  unfolding block_mem by blast

lemma span_marks_other:
  assumes "span_marks s live d" "is_large s \<or> blocks_of s \<inter> live = blocks_of s \<inter> live'"
  shows "span_marks s live' d"
proof (cases "is_large s")
  case False
  have "page_addr s + k * block_size s \<in> live \<longleftrightarrow> page_addr s + k * block_size s \<in> live'" if "k < block_count s" for k
    using that assms(2) False block_mem by blast
  with assms(1) False show ?thesis by (simp add: span_marks_def)
qed (use assms in \<open>simp add: span_marks_def\<close>)

lemma span_marks_fresh: "is_large s \<or> blocks_of s \<inter> live = {} \<Longrightarrow> span_marks s live (fresh_marks s)"
  using block_in [of _ s] by (auto simp: span_marks_def fresh_marks_def block_marks_def large_marks_def disjoint_iff)

lemma span_marks_set:
  assumes "span_marks s live d" "\<not> is_large s" "0 < block_size s" "p = page_addr s + k * block_size s"
  shows "span_marks s (if b then insert p live else live - {p}) (d\<lparr>alloc_map := (alloc_map d)[k := b]\<rparr>)"
proof -
  have "(alloc_map d)[k := b] ! j = (page_addr s + j * block_size s \<in> (if b then insert p live else live - {p}))"
    if "j < block_count s" for j
    using that assms by (cases "j = k") (auto simp: span_marks_def)
  with assms(1,2) show ?thesis by (simp add: span_marks_def)
qed

text \<open>Settling after a call that puts spans to use, and after one that takes spans out of use.\<close>

lemma settle_grow:
  assumes m: "marks_ok u live m" and c: "covers v u"
    and new: "\<forall>i s. u i = None \<longrightarrow> v i = Some s \<longrightarrow> is_large s \<or> blocks_of s \<inter> live = {}"
  shows "marks_ok v live (settle u v m)"
  unfolding marks_ok_def
proof (intro conjI allI impI)
  show "settle u v m i = no_marks" if "v i = None" for i
    using that m by (auto simp: settle_def marks_ok_def)
  show "span_marks s live (settle u v m i)" if s: "v i = Some s" for i s
  proof (cases "u i")
    case None
    with s new span_marks_fresh show ?thesis by (simp add: settle_def)
  next
    case (Some r)
    with c s have "same_kind r s" unfolding covers_def by fastforce
    with m Some s show ?thesis by (simp add: settle_def marks_ok_def span_marks_kind)
  qed
qed

lemma settle_shrink:
  assumes c: "covers u v" and none: "\<forall>i. u i = None \<longrightarrow> m i = no_marks"
    and m: "\<forall>i s. u i = Some s \<longrightarrow> v i \<noteq> None \<longrightarrow> span_marks s live (m i)"
  shows "marks_ok v live (settle u v m)"
  unfolding marks_ok_def
proof (intro conjI allI impI)
  show "settle u v m i = no_marks" if "v i = None" for i
    using that none by (auto simp: settle_def)
  show "span_marks s live (settle u v m i)" if s: "v i = Some s" for i s
  proof -
    obtain r where r: "u i = Some r" "same_kind s r" using c s unfolding covers_def by blast
    have "span_marks r live (m i)" using m r(1) s by simp
    with r s show ?thesis by (simp add: settle_def span_marks_kind)
  qed
qed

text \<open>The index of an address counts a mark exactly when the address is a block of the span.\<close>

lemma block_index:
  assumes "small_ok pl out s" "pc_ok pl mapped pc" "used pc i = Some s"
  shows "debug_block_index s p < block_count s \<longleftrightarrow> p \<in> blocks_of s"
    and "p \<in> blocks_of s \<Longrightarrow> p = page_addr s + debug_block_index s p * block_size s"
proof -
  have pos: "0 < block_size s" by (rule block_size_pos [OF assms(1)])
  have "block_count s * block_size s \<le> num_pages s * page_size pl"
    using assms(1) unfolding small_ok_def by (elim conjE)
  with used_end [OF assms(2,3)] have "block_count s * block_size s \<le> 2 ^ 64" by linarith
  moreover have "8 \<le> block_size s"
    using assms(1) size_table_bounds [of "size_class s"] by (simp add: small_ok_def get_size_def)
  then have "block_count s * 8 \<le> block_count s * block_size s" by (rule mult_le_mono2)
  ultimately have "block_count s * 8 \<le> 2 ^ 64" by (rule order_trans [rotated])
  then have big: "block_count s \<le> size_max" by (simp add: size_max_def)
  show at: "p = page_addr s + debug_block_index s p * block_size s" if "p \<in> blocks_of s"
    using that pos by (auto simp: debug_block_index_def block_mem)
  show "debug_block_index s p < block_count s \<longleftrightarrow> p \<in> blocks_of s"
  proof
    assume l: "debug_block_index s p < block_count s"
    with big have "debug_block_index s p \<noteq> size_max" by linarith
    then have "page_addr s \<le> p" "(p - page_addr s) mod block_size s = 0"
      "debug_block_index s p = (p - page_addr s) div block_size s"
      by (auto simp: debug_block_index_def split: if_splits)
    then have "p = page_addr s + debug_block_index s p * block_size s" by (simp add: minus_mod_eq_div_mult [symmetric])
    with l show "p \<in> blocks_of s" unfolding block_mem by blast
  next
    assume "p \<in> blocks_of s"
    then show "debug_block_index s p < block_count s"
      using pos by (auto simp: debug_block_index_def block_mem)
  qed
qed

lemma mark_block_ok:
  assumes m: "marks_ok u live m" and s: "u i = Some s" "\<not> is_large s" "0 < block_size s"
    and p: "p = page_addr s + k * block_size s" "p \<in> blocks_of s" and ap: "apart u"
  shows "marks_ok u (if b then insert p live else live - {p}) (mark_block i k b m)"
  unfolding marks_ok_def
proof (intro conjI allI impI)
  show "mark_block i k b m j = no_marks" if "u j = None" for j
    using that m s(1) by (auto simp: marks_ok_def mark_block_def)
  show "span_marks r (if b then insert p live else live - {p}) (mark_block i k b m j)" if r: "u j = Some r" for j r
  proof (cases "j = i")
    case True
    with r s have "r = s" by simp
    with True m s span_marks_set [OF _ s(2,3) p(1), of live "m i" b] show ?thesis by (simp add: marks_ok_def mark_block_def)
  next
    case False
    have "p \<notin> blocks_of r" if "\<not> is_large r" using ap s r False that p(2) unfolding apart_def by blast
    then have "is_large r \<or> blocks_of r \<inter> live = blocks_of r \<inter> (if b then insert p live else live - {p})" by auto
    moreover have "span_marks r live (m j)" using m r by (simp add: marks_ok_def)
    ultimately have "span_marks r (if b then insert p live else live - {p}) (m j)" by (rule span_marks_other [rotated])
    with False show ?thesis by (simp add: mark_block_def)
  qed
qed

section \<open>The guarded calls keep their promises\<close>

lemma guard_parts:
  assumes "guard_ok pl mapped live g"
  shows "kama_ok pl mapped live (plain g)" "marks_ok (st_used (plain g)) live (marks g)"
    "pc_ok pl mapped (page_cache_of (central (plain g)))"
  using assms by (simp_all add: guard_ok_def kama_ok_def central_ok_def)

lemma used_small:
  assumes "kama_ok pl mapped live st" "st_used st i = Some s" "\<not> is_large s"
  shows "\<exists>out. small_ok pl out s"
proof -
  have "\<exists>P out. spans_ok pl (st_used st) P out" using assms(1) unfolding kama_ok_def central_ok_def by blast
  with assms(2,3) spans_ok_small show ?thesis by metis
qed

text \<open>An allocation never fails because of the guards.\<close>

lemma guarded_allocate_ok:
  assumes ok: "guard_ok pl mapped live g" and pl: "platform_ok pl mapped"
    and eq: "guarded_allocate pl t n g = (r, g')"
  shows "tc_allocate pl t n (plain g) = (r, plain g')"
    and "r = None \<Longrightarrow> guard_ok pl mapped live g'"
    and "r = Some p \<Longrightarrow> guard_ok pl mapped (insert p live) g'"
proof -
  note k = guard_parts [OF ok]
  obtain q st where a: "tc_allocate pl t n (plain g) = (q, st)" by fastforce
  note ta = tc_allocate_ok [OF k(1) pl a] and c = tc_allocate_covers [OF k(1) pl a]
  obtain live' where k': "kama_ok pl mapped live' st" using ta(1,2) by (cases q) blast+
  have "\<forall>i s. st_used (plain g) i = None \<longrightarrow> st_used st i = Some s \<longrightarrow> is_large s \<or> blocks_of s \<inter> live = {}"
    using live_blocks_stay [OF k(1) k' pl c] by blast
  note m = settle_grow [OF k(2) c this]
  have "tc_allocate pl t n (plain g) = (r, plain g') \<and> (r = None \<longrightarrow> guard_ok pl mapped live g')
    \<and> (\<forall>p. r = Some p \<longrightarrow> guard_ok pl mapped (insert p live) g')"
  proof (cases q)
    case None
    with a eq m ta(1) show ?thesis by (auto simp: guarded_allocate_def with_marks_def guard_ok_def)
  next
    case (Some p)
    note p = ta(2) [OF Some]
    have ko: "kama_ok pl mapped (insert p live) st" using p by blast
    show ?thesis
    proof (cases "n > max_bytes")
      case True
      then have f: "\<exists>i s. st_used st i = Some s \<and> is_large s \<and> page_addr s = p"
        using p by (auto simp: fits_def norm_bytes_def split: if_splits)
      have "is_large s \<or> p \<notin> blocks_of s" if "st_used st i = Some s" for i s
        using in_class_not_large [OF kama_ok_parts(1) [OF ko] platform_pos [OF pl], of "size_class s" p] that f
        by (auto simp: in_class_def larges_def)
      then have "marks_ok (st_used st) (insert p live) (settle (st_used (plain g)) (st_used st) (marks g))"
        using m span_marks_other [of _ live _ "insert p live"] by (fastforce simp: marks_ok_def)
      with True a eq Some ko show ?thesis by (auto simp: guarded_allocate_def with_marks_def guard_ok_def Let_def)
    next
      case False
      then have "in_class (st_used st) (get_index (norm_bytes n)) p"
        using p by (auto simp: fits_def norm_bytes_def split: if_splits)
      then obtain i s where s: "st_used st i = Some s" "\<not> is_large s" "p \<in> blocks_of s" unfolding in_class_def by blast
      note co = kama_ok_parts(1) [OF ko]
      have pc: "pc_ok pl mapped (page_cache_of (central st))" using co by (simp add: central_ok_def)
      obtain out where sm: "small_ok pl out s" using used_small [OF ko s(1,2)] by blast
      note bi = block_index [OF sm pc s(1), of p]
      have f: "find_span pl (Some p) (page_cache_of (central st)) = Some i" "span_at (page_cache_of (central st)) i = s"
        using find_in_class(1) [OF co platform_pos [OF pl] s] span_at_used [OF s(1)] by simp_all
      define m1 where "m1 = settle (st_used (plain g)) (st_used st) (marks g)"
      let ?k = "debug_block_index s p"
      have kb: "?k < block_count s" "p = page_addr s + ?k * block_size s" using bi s(3) by simp_all
      have "span_marks s live (m1 i)" using m s(1) by (simp add: marks_ok_def m1_def)
      then have d: "?k < length (alloc_map (m1 i))" "\<not> alloc_map (m1 i) ! ?k"
        using s(2) kb p by (simp_all add: span_marks_def)
      then have e: "debug_mark_allocated (page_cache_of (central st)) (Some i) p m1 = (True, mark_block i ?k True m1)"
        using s(2) f(2) by (simp add: debug_mark_allocated_def Let_def)
      have "marks_ok (st_used st) (insert p live) (mark_block i ?k True m1)"
        using mark_block_ok [where u = "st_used st" and b = True, OF m [folded m1_def] s(1,2) block_size_pos [OF sm] kb(2) s(3)
            central_ok_apart [OF co platform_pos [OF pl]]] by simp
      moreover have "r = Some p" "g' = \<lparr>plain = st, marks = mark_block i ?k True m1\<rparr>"
        using eq False by (simp_all add: guarded_allocate_def a Some f(1) e with_marks_def Let_def flip: m1_def)
      ultimately show ?thesis using a Some ko by (simp add: guard_ok_def)
    qed
  qed
  then show "tc_allocate pl t n (plain g) = (r, plain g')" "r = None \<Longrightarrow> guard_ok pl mapped live g'"
    "r = Some p \<Longrightarrow> guard_ok pl mapped (insert p live) g'" by blast+
qed

text \<open>A free passes the check exactly when a caller holds the address, and the class is the right one.\<close>

lemma validate_live:
  assumes ok: "guard_ok pl mapped live g" and pl: "platform_ok pl mapped"
    and f: "find_span pl (Some p) (page_cache_of (central (plain g))) = Some i"
    and s: "st_used (plain g) i = Some s" and p: "p \<in> live"
  shows "debug_validate_freed (page_cache_of (central (plain g))) (Some i) p e (marks g) =
    (if is_large s then (True, (marks g)(i := (marks g i)\<lparr>large_allocated := False\<rparr>))
     else if e \<noteq> size_max \<and> size_class s \<noteq> e then (False, marks g)
     else (True, mark_block i (debug_block_index s p) False (marks g)))"
    and "if is_large s then p = page_addr s else p \<in> blocks_of s"
proof -
  note k = guard_parts [OF ok]
  show h: "if is_large s then p = page_addr s else p \<in> blocks_of s"
    using live_span [OF k(1) pl p] f s by (metis option.inject)
  have sm: "span_marks s live (marks g i)" using k(2) s by (simp add: marks_ok_def)
  have at: "span_at (page_cache_of (central (plain g))) i = s" by (rule span_at_used [OF s])
  show "debug_validate_freed (page_cache_of (central (plain g))) (Some i) p e (marks g) =
    (if is_large s then (True, (marks g)(i := (marks g i)\<lparr>large_allocated := False\<rparr>))
     else if e \<noteq> size_max \<and> size_class s \<noteq> e then (False, marks g)
     else (True, mark_block i (debug_block_index s p) False (marks g)))"
  proof (cases "is_large s")
    case True
    with h sm at show ?thesis by (simp add: debug_validate_freed_def span_marks_def)
  next
    case False
    obtain out where "small_ok pl out s" using used_small [OF k(1) s False] by blast
    note bi = block_index [OF this k(3) s, of p]
    with False h have "debug_block_index s p < block_count s"
      "p = page_addr s + debug_block_index s p * block_size s" by simp_all
    with False sm p have "\<not> debug_block_index s p \<ge> length (alloc_map (marks g i))"
      "alloc_map (marks g i) ! debug_block_index s p" by (simp_all add: span_marks_def)
    with False at show ?thesis by (simp add: debug_validate_freed_def Let_def)
  qed
qed

lemma validate_not_live:
  assumes ok: "guard_ok pl mapped live g" and pl: "platform_ok pl mapped" and p: "p \<notin> live"
  shows "debug_validate_freed (page_cache_of (central (plain g))) sp p e (marks g) = (False, marks g)"
proof (cases sp)
  case None
  then show ?thesis by (simp add: debug_validate_freed_def)
next
  case (Some i)
  note k = guard_parts [OF ok]
  let ?pc = "page_cache_of (central (plain g))"
  show ?thesis
  proof (cases "st_used (plain g) i")
    case None
    then have "marks g i = no_marks" using k(2) by (simp add: marks_ok_def)
    with Some show ?thesis by (simp add: debug_validate_freed_def Let_def no_marks_def)
  next
    case u: (Some s)
    have at: "span_at ?pc i = s" by (rule span_at_used [OF u])
    have sm: "span_marks s live (marks g i)" using k(2) u by (simp add: marks_ok_def)
    show ?thesis
    proof (cases "is_large s")
      case True
      with u have "page_addr s \<in> live" using kama_ok_parts(3) [OF k(1)] by (auto simp: larges_def)
      with p True at Some show ?thesis by (auto simp: debug_validate_freed_def)
    next
      case False
      obtain out where "small_ok pl out s" using used_small [OF k(1) u False] by blast
      note bi = block_index [OF this k(3) u, of p]
      have "\<not> alloc_map (marks g i) ! debug_block_index s p"
        if "debug_block_index s p < length (alloc_map (marks g i))"
        using that bi sm False p by (simp add: span_marks_def)
      with False at Some show ?thesis by (simp add: debug_validate_freed_def Let_def)
    qed
  qed
qed

text \<open>Freeing a block, and freeing a large span, with its marks.\<close>

lemma free_block_ok:
  assumes ok: "guard_ok pl mapped live g" and pl: "platform_ok pl mapped" and p: "p \<in> live"
    and s: "st_used (plain g) i = Some s" "\<not> is_large s" "p \<in> blocks_of s"
  shows "guard_ok pl mapped (live - {p})
    (with_marks g (mark_block i (debug_block_index s p) False (marks g)) (push_block pl t (size_class s) p (plain g)))"
proof -
  note k = guard_parts [OF ok]
  obtain out where sm: "small_ok pl out s" using used_small [OF k(1) s(1,2)] by blast
  have c: "in_class (st_used (plain g)) (size_class s) p" using s unfolding in_class_def by blast
  have cl: "size_class s < class_count" using sm unfolding small_ok_def by (elim conjE)
  have "marks_ok (st_used (plain g)) (live - {p}) (mark_block i (debug_block_index s p) False (marks g))"
    using mark_block_ok [where u = "st_used (plain g)" and b = False, OF k(2) s(1,2) block_size_pos [OF sm]
        block_index(2) [OF sm k(3) s(1,3)] s(3) central_ok_apart [OF kama_ok_parts(1) [OF k(1)] platform_pos [OF pl]]]
    by simp
  then have "marks_ok (st_used (push_block pl t (size_class s) p (plain g))) (live - {p})
      (settle (st_used (plain g)) (st_used (push_block pl t (size_class s) p (plain g)))
        (mark_block i (debug_block_index s p) False (marks g)))"
    by (intro settle_shrink push_block_covers [OF k(1) pl p c]) (auto simp: marks_ok_def)
  with push_block_ok(1) [OF k(1) pl p c cl] show ?thesis by (simp add: guard_ok_def with_marks_def)
qed

lemma free_large_ok:
  assumes ok: "guard_ok pl mapped live g" and pl: "platform_ok pl mapped" and p: "p \<in> live"
    and s: "st_used (plain g) i = Some s" "is_large s" "p = page_addr s"
    and st: "tc_deallocate pl t (Some p) (plain g) = (b, st')"
  shows "b" and "st' = (plain g)\<lparr>central := (central (plain g))
      \<lparr>page_cache_of := deallocate_span pl (Some i) (page_cache_of (central (plain g)))\<rparr>\<rparr>"
    and "guard_ok pl mapped (live - {p}) (with_marks g ((marks g)(i := d)) st')"
proof -
  note k = guard_parts [OF ok]
  note f = find_large [OF kama_ok_parts(1) [OF k(1)] s(1), folded s(3)]
  show b: "b" by (rule tc_deallocate_ok(1) [OF k(1) pl p st])
  show e: "st' = (plain g)\<lparr>central := (central (plain g))
      \<lparr>page_cache_of := deallocate_span pl (Some i) (page_cache_of (central (plain g)))\<rparr>\<rparr>"
    using st f s(2) span_at_used [OF s(1)] by (simp add: tc_deallocate_def Let_def)
  have u: "st_used st' = (st_used (plain g))(i := None)"
    using deallocate_span_ok(2) [OF k(3) pl s(1)] by (simp add: e)
  have "is_large r \<or> p \<notin> blocks_of r" if "st_used (plain g) j = Some r" for j r
    using in_class_not_large [OF kama_ok_parts(1) [OF k(1)] platform_pos [OF pl], of "size_class r" p] that s
    unfolding in_class_def larges_def by blast
  then have o: "is_large r \<or> blocks_of r \<inter> live = blocks_of r \<inter> (live - {p})"
    if "st_used (plain g) j = Some r" for j r using that by blast
  have "span_marks r (live - {p}) (marks g j)" if "st_used (plain g) j = Some r" for j r
    by (rule span_marks_other [OF _ o [OF that]]) (use that k(2) in \<open>simp add: marks_ok_def\<close>)
  then have "marks_ok (st_used st') (live - {p}) (settle (st_used (plain g)) (st_used st') ((marks g)(i := d)))"
    unfolding u using s(1) k(2) by (intro settle_shrink covers_remove) (auto simp: marks_ok_def)
  with tc_deallocate_ok(2) [OF k(1) pl p st] show "guard_ok pl mapped (live - {p}) (with_marks g ((marks g)(i := d)) st')"
    by (simp add: guard_ok_def with_marks_def)
qed

lemma guarded_deallocate_ok:
  assumes ok: "guard_ok pl mapped live g" and pl: "platform_ok pl mapped"
    and eq: "guarded_deallocate pl t (Some p) g = (b, g')"
  shows "b \<longleftrightarrow> p \<in> live" and "p \<notin> live \<Longrightarrow> g' = g"
    and "p \<in> live \<Longrightarrow> tc_deallocate pl t (Some p) (plain g) = (True, plain g') \<and> guard_ok pl mapped (live - {p}) g'"
proof -
  note k = guard_parts [OF ok]
  have "(b \<longleftrightarrow> p \<in> live) \<and> (p \<notin> live \<longrightarrow> g' = g)
    \<and> (p \<in> live \<longrightarrow> tc_deallocate pl t (Some p) (plain g) = (True, plain g') \<and> guard_ok pl mapped (live - {p}) g')"
  proof (cases "p \<in> live")
    case False
    with eq validate_not_live [OF ok pl False] show ?thesis
      by (auto simp: guarded_deallocate_def Let_def split: option.splits)
  next
    case True
    obtain i s where f: "find_span pl (Some p) (page_cache_of (central (plain g))) = Some i"
      and s: "st_used (plain g) i = Some s" and h: "if is_large s then p = page_addr s else p \<in> blocks_of s"
      by (rule live_span [OF k(1) pl True])
    note v = validate_live(1) [OF ok pl f s True] and at = span_at_used [OF s]
    obtain c st' where d: "tc_deallocate pl t (Some p) (plain g) = (c, st')" by fastforce
    note c = tc_deallocate_ok(1) [OF k(1) pl True d]
    show ?thesis
    proof (cases "is_large s")
      case large: True
      with h have pa: "p = page_addr s" by simp
      note fl = free_large_ok(3) [OF ok pl True s large pa d]
      have "b = True" "g' = with_marks g ((marks g)(i := (marks g i)\<lparr>large_allocated := False\<rparr>)) st'"
        using eq f at v large d c by (simp_all add: guarded_deallocate_def Let_def)
      with fl True d c show ?thesis by (simp add: with_marks_def)
    next
      case small: False
      with h have pb: "p \<in> blocks_of s" by simp
      have st': "st' = push_block pl t (size_class s) p (plain g)"
        using d f at small c by (simp add: tc_deallocate_def Let_def split: if_splits)
      have "b = True" "g' = with_marks g (mark_block i (debug_block_index s p) False (marks g)) st'"
        using eq f at v small d c by (simp_all add: guarded_deallocate_def Let_def)
      with free_block_ok [OF ok pl True s small pb, of t] True d c st' show ?thesis by (simp add: with_marks_def)
    qed
  qed
  then show "b \<longleftrightarrow> p \<in> live" "p \<notin> live \<Longrightarrow> g' = g"
    "p \<in> live \<Longrightarrow> tc_deallocate pl t (Some p) (plain g) = (True, plain g') \<and> guard_ok pl mapped (live - {p}) g'"
    by blast+
qed

lemma guarded_deallocate_sized_refused:
  assumes ok: "guard_ok pl mapped live g" and pl: "platform_ok pl mapped" and p: "p \<notin> live"
  shows "guarded_deallocate_sized pl t (Some p) n g = (False, g)"
proof -
  have d: "guarded_deallocate pl t (Some p) g = (False, g)"
    using guarded_deallocate_ok(1,2) [OF ok pl] p by (metis prod.exhaust)
  show ?thesis
    by (simp add: guarded_deallocate_sized_def Let_def validate_not_live [OF ok pl p] d)
qed

text \<open>
  A sized free of a held address by the size it was asked for does what it does without guards; one
  by a size of another class is refused, unless the span is large.
\<close>

lemma guarded_deallocate_sized_ok:
  assumes ok: "guard_ok pl mapped live g" and pl: "platform_ok pl mapped" and p: "p \<in> live"
    and n: "fits pl (st_used (plain g)) p (norm_bytes n)" and eq: "guarded_deallocate_sized pl t (Some p) n g = (b, g')"
  shows "b" "tc_deallocate_sized pl t (Some p) n (plain g) = (True, plain g')" "guard_ok pl mapped (live - {p}) g'"
proof -
  note k = guard_parts [OF ok]
  let ?n = "norm_bytes n"
  obtain i s where f: "find_span pl (Some p) (page_cache_of (central (plain g))) = Some i"
    and s: "st_used (plain g) i = Some s" and h: "if is_large s then p = page_addr s else p \<in> blocks_of s"
    by (rule live_span [OF k(1) pl p])
  note v = validate_live(1) [OF ok pl f s p] and at = span_at_used [OF s]
  have "b \<and> tc_deallocate_sized pl t (Some p) n (plain g) = (True, plain g') \<and> guard_ok pl mapped (live - {p}) g'"
  proof (cases "?n > max_bytes")
    case True
    with n obtain j r where r: "st_used (plain g) j = Some r" "is_large r" "page_addr r = p" by (auto simp: fits_def)
    with find_large [OF kama_ok_parts(1) [OF k(1)] r(1)] f s have large: "is_large s" "p = page_addr s" by auto
    obtain c st' where d: "tc_deallocate pl t (Some p) (plain g) = (c, st')" by fastforce
    note fl = free_large_ok [OF ok pl p s large d]
    have "tc_deallocate_sized pl t (Some p) n (plain g) = (c, st')"
      using d True by (simp add: tc_deallocate_sized_def norm_bytes_def Let_def split: if_splits)
    moreover have "b = True" "g' = with_marks g ((marks g)(i := (marks g i)\<lparr>large_allocated := False\<rparr>)) st'"
      using eq True f at v large fl(2) by (simp_all add: guarded_deallocate_sized_def norm_bytes_def Let_def split: if_splits)
    ultimately show ?thesis using fl(1,3) by (simp add: with_marks_def)
  next
    case False
    let ?c = "get_index ?n"
    have cl: "in_class (st_used (plain g)) ?c p" using n False by (simp add: fits_def)
    have small: "\<not> is_large s"
      using in_class_not_large [OF kama_ok_parts(1) [OF k(1)] platform_pos [OF pl] cl] s h by (auto simp: larges_def)
    with h have pb: "p \<in> blocks_of s" by simp
    obtain j r where r: "st_used (plain g) j = Some r" "\<not> is_large r" "p \<in> blocks_of r" "size_class r = ?c"
      using cl unfolding in_class_def by blast
    with find_in_class(1) [OF kama_ok_parts(1) [OF k(1)] platform_pos [OF pl] r(1-3)] f s have sc: "size_class s = ?c" by simp
    have c: "?c < class_count" using False get_index_less [of ?n] by simp
    have ru: "get_index (round_up ?n) = ?c"
      using False c get_index_size [of ?c] by (simp add: round_up_def get_size_def)
    have "tc_deallocate_sized pl t (Some p) n (plain g) = (True, push_block pl t ?c p (plain g))"
      using False ru c by (simp add: tc_deallocate_sized_def norm_bytes_def Let_def split: if_splits)
    moreover have "b = True" "g' = with_marks g (mark_block i (debug_block_index s p) False (marks g)) (push_block pl t ?c p (plain g))"
      using eq False f ru c v small sc by (simp_all add: guarded_deallocate_sized_def norm_bytes_def Let_def split: if_splits)
    ultimately show ?thesis using free_block_ok [OF ok pl p s small pb, of t] by (simp add: sc with_marks_def)
  qed
  then show "b" "tc_deallocate_sized pl t (Some p) n (plain g) = (True, plain g')" "guard_ok pl mapped (live - {p}) g'"
    by blast+
qed

lemma wrong_class_refused:
  assumes ok: "guard_ok pl mapped live g" and pl: "platform_ok pl mapped" and p: "p \<in> live"
    and s: "st_used (plain g) i = Some s" "\<not> is_large s" "p \<in> blocks_of s"
    and n: "norm_bytes n \<le> max_bytes" "get_index (norm_bytes n) \<noteq> size_class s"
  shows "guarded_deallocate_sized pl t (Some p) n g = (False, g)"
proof -
  note k = guard_parts [OF ok]
  note f = find_in_class(1) [OF kama_ok_parts(1) [OF k(1)] platform_pos [OF pl] s]
  let ?c = "get_index (norm_bytes n)"
  have c: "?c < class_count" using n(1) get_index_less [of "norm_bytes n"] by simp
  then have "?c \<noteq> size_max" by (simp add: size_max_def)
  with n(2) have v: "debug_validate_freed (page_cache_of (central (plain g))) (Some i) p ?c (marks g) = (False, marks g)"
    unfolding validate_live(1) [OF ok pl f s(1) p] using s(2) by simp
  have ru: "get_index (round_up (norm_bytes n)) = ?c"
    using n(1) c get_index_size [of ?c] by (simp add: round_up_def get_size_def)
  show ?thesis
    using n(1) f ru c v by (simp add: guarded_deallocate_sized_def norm_bytes_def Let_def split: if_splits)
qed

text \<open>
  Two sizes the guards get wrong. A block freed by a size above the largest class loses its mark
  although the free is refused, so the free that would be right is refused too: the block is lost.
  A large span freed by a small size passes the check and its address becomes a block of that class.
\<close>

lemma oversized_free_loses_block:
  assumes ok: "guard_ok pl mapped live g" and pl: "platform_ok pl mapped" and p: "p \<in> live"
    and s: "st_used (plain g) i = Some s" "\<not> is_large s" "p \<in> blocks_of s" and n: "n > max_bytes"
  shows "guarded_deallocate_sized pl t (Some p) n g
    = (False, g\<lparr>marks := mark_block i (debug_block_index s p) False (marks g)\<rparr>)"
proof -
  note k = guard_parts [OF ok]
  note f = find_in_class(1) [OF kama_ok_parts(1) [OF k(1)] platform_pos [OF pl] s]
  note v = validate_live(1) [OF ok pl f s(1) p] and at = span_at_used [OF s(1)]
  obtain out where sm: "small_ok pl out s" using used_small [OF k(1) s(1,2)] by blast
  have "debug_block_index s p < block_count s" using block_index(1) [OF sm k(3) s(1)] s(3) by simp
  moreover have "length (alloc_map (marks g i)) = block_count s"
    using k(2) s(1,2) by (simp add: marks_ok_def span_marks_def)
  ultimately have l: "debug_block_index s p < length (alloc_map (marks g i))" by simp
  define m where "m = mark_block i (debug_block_index s p) False (marks g)"
  have "debug_validate_freed (page_cache_of (central (plain g))) (Some i) p e m = (False, m)" for e
    using at s(2) l by (simp add: debug_validate_freed_def Let_def m_def mark_block_def)
  then have "guarded_deallocate pl t (Some p) (g\<lparr>marks := m\<rparr>) = (False, g\<lparr>marks := m\<rparr>)"
    using f at by (simp add: guarded_deallocate_def Let_def)
  then show ?thesis
    using n f v s(2) at by (simp add: guarded_deallocate_sized_def Let_def flip: m_def)
qed

lemma undersized_free_of_large:
  assumes ok: "guard_ok pl mapped live g" and pl: "platform_ok pl mapped"
    and s: "st_used (plain g) i = Some s" "is_large s" "p = page_addr s" and n: "0 < n" "n \<le> max_bytes"
  shows "\<exists>g'. guarded_deallocate_sized pl t (Some p) n g = (True, g')
    \<and> plain g' = push_block pl t (get_index (round_up n)) p (plain g)"
proof -
  note k = guard_parts [OF ok]
  have p: "p \<in> live" using s kama_ok_parts(3) [OF k(1)] by (auto simp: larges_def)
  note f = find_large [OF kama_ok_parts(1) [OF k(1)] s(1), folded s(3)]
  note v = validate_live(1) [OF ok pl f s(1) p]
  have c: "get_index n < class_count" using n get_index_less [of n] by simp
  then have "get_index (round_up n) < class_count"
    using n get_index_size [of "get_index n"] by (simp add: round_up_def get_size_def)
  with f v s(2) n show ?thesis by (simp add: guarded_deallocate_sized_def Let_def with_marks_def)
qed

section \<open>Programs that free anything\<close>

text \<open>
  The system of the guarded calls. A program may free any address any number of times, held or
  not, by itself or with a size. The size given for a held address may be wrong, but lies on the same
  side of the largest class (\<open>MAX_BYTES\<close>) as the size asked for: past it the two lemmas above apply,
  and the guards fail.
\<close>

definition same_side :: "nat \<Rightarrow> nat \<Rightarrow> bool" where
  "same_side n k \<longleftrightarrow> (norm_bytes n > max_bytes \<longleftrightarrow> norm_bytes k > max_bytes)"

lemma wrong_size_cases:
  assumes ok: "guard_ok pl mapped live g" and pl: "platform_ok pl mapped" and p: "p \<in> live"
    and k: "fits pl (st_used (plain g)) p (norm_bytes k)" and side: "same_side n k"
  shows "guarded_deallocate_sized pl t (Some p) n g = guarded_deallocate_sized pl t (Some p) k g
    \<or> guarded_deallocate_sized pl t (Some p) n g = (False, g)"
    and "norm_bytes n \<le> max_bytes \<Longrightarrow> get_index (norm_bytes n) \<noteq> get_index (norm_bytes k)
      \<Longrightarrow> guarded_deallocate_sized pl t (Some p) n g = (False, g)"
proof -
  have *: "guarded_deallocate_sized pl t (Some p) n g = (False, g)"
    if "norm_bytes n \<le> max_bytes" "get_index (norm_bytes n) \<noteq> get_index (norm_bytes k)"
  proof -
    have "in_class (st_used (plain g)) (get_index (norm_bytes k)) p" using k side that(1) by (simp add: fits_def same_side_def)
    then obtain i s where "st_used (plain g) i = Some s" "\<not> is_large s" "p \<in> blocks_of s" "size_class s = get_index (norm_bytes k)"
      unfolding in_class_def by blast
    with that show ?thesis by (intro wrong_class_refused [OF ok pl p]) auto
  qed
  then show "norm_bytes n \<le> max_bytes \<Longrightarrow> get_index (norm_bytes n) \<noteq> get_index (norm_bytes k)
      \<Longrightarrow> guarded_deallocate_sized pl t (Some p) n g = (False, g)" .
  have "guarded_deallocate_sized pl t (Some p) n g = guarded_deallocate_sized pl t (Some p) k g"
    if "norm_bytes n > max_bytes \<or> get_index (norm_bytes n) = get_index (norm_bytes k)"
  proof (cases "norm_bytes n > max_bytes")
    case True
    with side have "norm_bytes k > max_bytes" by (simp add: same_side_def)
    with True show ?thesis by (simp add: guarded_deallocate_sized_def norm_bytes_def Let_def)
  next
    case False
    with side that have "norm_bytes k \<le> max_bytes" "norm_bytes n \<le> max_bytes" "get_index (norm_bytes n) = get_index (norm_bytes k)"
      by (simp_all add: same_side_def)
    then show ?thesis by (simp add: guarded_deallocate_sized_def norm_bytes_def round_up_def Let_def)
  qed
  with * show "guarded_deallocate_sized pl t (Some p) n g = guarded_deallocate_sized pl t (Some p) k g
    \<or> guarded_deallocate_sized pl t (Some p) n g = (False, g)" by (meson not_le)
qed

inductive guarded_step ::
  "'o platform \<Rightarrow> 'o guarded \<times> (nat \<rightharpoonup> nat) \<Rightarrow> 'o guarded \<times> (nat \<rightharpoonup> nat) \<Rightarrow> bool" for pl
where
  guarded_alloc: "guarded_allocate pl t n g = (Some p, g') \<Longrightarrow> guarded_step pl (g, h) (g', h(p \<mapsto> n))"
| guarded_alloc_fail: "guarded_allocate pl t n g = (None, g') \<Longrightarrow> guarded_step pl (g, h) (g', h)"
| guarded_aligned: "guarded_allocate_aligned pl t n a g = (Some p, g')
    \<Longrightarrow> guarded_step pl (g, h) (g', h(p \<mapsto> aligned_bytes n a))"
| guarded_aligned_fail: "guarded_allocate_aligned pl t n a g = (None, g') \<Longrightarrow> guarded_step pl (g, h) (g', h)"
| guarded_free: "guarded_deallocate pl t (Some p) g = (b, g')
    \<Longrightarrow> guarded_step pl (g, h) (g', if b then h(p := None) else h)"
| guarded_free_sized: "(\<And>k. h p = Some k \<Longrightarrow> same_side n k) \<Longrightarrow> guarded_deallocate_sized pl t (Some p) n g = (b, g')
    \<Longrightarrow> guarded_step pl (g, h) (g', if b then h(p := None) else h)"
| guarded_end: "guarded_step pl (g, h) (guarded_flush pl t g, h)"

definition guarded_start :: "'o guarded \<times> (nat \<rightharpoonup> nat) \<Rightarrow> bool" where
  "guarded_start s \<longleftrightarrow> (\<exists>w. s = (guarded_new w, Map.empty))"

definition guarded_valid :: "'o platform \<Rightarrow> ('o \<Rightarrow> nat set) \<Rightarrow> 'o guarded \<times> (nat \<rightharpoonup> nat) \<Rightarrow> bool" where
  "guarded_valid pl mapped s \<longleftrightarrow> guard_ok pl mapped (dom (snd s)) (fst s) \<and> kama_valid pl mapped (plain (fst s), snd s)"

lemma guarded_new_valid: "guarded_valid pl mapped (guarded_new w, Map.empty)"
proof -
  have "st_used (kama_new w) = Map.empty"
    by (simp add: kama_new_def central_cache_new_def page_cache_new_def used_def fun_eq_iff)
  with kama_new_valid show ?thesis
    by (simp add: guarded_valid_def guard_ok_def guarded_new_def kama_valid_def marks_ok_def)
qed

lemma guarded_allocate_valid:
  assumes v: "guarded_valid pl mapped (g, h)" and pl: "platform_ok pl mapped"
    and eq: "guarded_allocate pl t n g = (r, g')"
  shows "guarded_valid pl mapped (g', case r of None \<Rightarrow> h | Some p \<Rightarrow> h(p \<mapsto> n))"
proof -
  have ok: "guard_ok pl mapped (dom h) g" "kama_valid pl mapped (plain g, h)"
    using v by (simp_all add: guarded_valid_def)
  note a = guarded_allocate_ok [OF ok(1) pl eq]
  note t = tc_allocate_valid [OF ok(2) pl a(1)]
  from a(2,3) t show ?thesis by (cases r) (auto simp: guarded_valid_def)
qed

lemma guarded_aligned_cases:
  assumes "guarded_allocate_aligned pl t n a g = (r, g')"
  shows "(r = None \<and> g' = g) \<or> guarded_allocate pl t (aligned_bytes n a) g = (r, g')"
  using assms unfolding guarded_allocate_aligned_def aligned_bytes_def by (simp split: if_splits)

lemma guarded_flush_ok:
  assumes ok: "guard_ok pl mapped live g" and pl: "platform_ok pl mapped"
  shows "guard_ok pl mapped live (guarded_flush pl t g)"
proof -
  note k = guard_parts [OF ok]
  have "covers (st_used (plain g)) (st_used (flush_all pl t (plain g)))"
    unfolding flush_all_def by (rule flush_loop_covers [OF pl k(1)]) simp
  then have "marks_ok (st_used (flush_all pl t (plain g))) live
      (settle (st_used (plain g)) (st_used (flush_all pl t (plain g))) (marks g))"
    by (rule settle_shrink) (use k(2) in \<open>simp_all add: marks_ok_def\<close>)
  with flush_all_ok(1) [OF pl k(1)] show ?thesis
    by (simp add: guard_ok_def guarded_flush_def with_marks_def)
qed

lemma guarded_free_valid:
  assumes v: "guarded_valid pl mapped (g, h)" and pl: "platform_ok pl mapped"
    and refused: "p \<notin> dom h \<Longrightarrow> \<not> b \<and> g' = g" and freed: "p \<in> dom h \<Longrightarrow> b \<and> guard_ok pl mapped (dom h - {p}) g'"
    and plain: "p \<in> dom h \<Longrightarrow> kama_valid pl mapped (plain g', h(p := None))"
  shows "guarded_valid pl mapped (g', if b then h(p := None) else h)"
  using assms by (cases "p \<in> dom h") (auto simp: guarded_valid_def)

lemma guarded_step_valid:
  assumes "guarded_step pl s s'" and "guarded_valid pl mapped s" and pl: "platform_ok pl mapped"
  shows "guarded_valid pl mapped s'"
  using assms(1,2)
proof (induction rule: guarded_step.induct)
  case (guarded_alloc t n g p g' h)
  from guarded_allocate_valid [OF guarded_alloc.prems pl guarded_alloc.hyps] show ?case by simp
next
  case (guarded_alloc_fail t n g g' h)
  from guarded_allocate_valid [OF guarded_alloc_fail.prems pl guarded_alloc_fail.hyps] show ?case by simp
next
  case (guarded_aligned t n a g p g' h)
  from guarded_aligned_cases [OF guarded_aligned.hyps] guarded_allocate_valid [OF guarded_aligned.prems pl]
  show ?case by fastforce
next
  case (guarded_aligned_fail t n a g g' h)
  from guarded_aligned_cases [OF guarded_aligned_fail.hyps] guarded_allocate_valid [OF guarded_aligned_fail.prems pl]
    guarded_aligned_fail.prems show ?case by fastforce
next
  case (guarded_free t p g b g' h)
  have ok: "guard_ok pl mapped (dom h) g" "kama_valid pl mapped (plain g, h)"
    using guarded_free.prems by (simp_all add: guarded_valid_def)
  note d = guarded_deallocate_ok [OF ok(1) pl guarded_free.hyps]
  show ?case
  proof (rule guarded_free_valid [OF guarded_free.prems pl])
    assume p: "p \<in> dom h"
    then obtain n where n: "h p = Some n" by blast
    note t = tc_deallocate_ok [OF valid_parts(2) [OF ok(2)] pl p, of t True "plain g'"]
    from kama_valid_remove [OF ok(2)] t(2,3) d(3) [OF p] show "kama_valid pl mapped (plain g', h(p := None))" by blast
  qed (use d in auto)
next
  case (guarded_free_sized h p n t g b g')
  have ok: "guard_ok pl mapped (dom h) g" "kama_valid pl mapped (plain g, h)"
    using guarded_free_sized.prems by (simp_all add: guarded_valid_def)
  show ?case
  proof (cases "(b, g') = (False, g) \<or> h p = None")
    case True
    with guarded_deallocate_sized_refused [OF ok(1) pl, of p t n] guarded_free_sized show ?thesis by auto
  next
    case False
    then obtain k where k: "h p = Some k" by blast
    have fit: "fits pl (st_used (plain g)) p (norm_bytes k)" by (rule valid_parts(3) [OF ok(2) k])
    have p: "p \<in> dom h" using k by blast
    have eq: "guarded_deallocate_sized pl t (Some p) k g = (b, g')"
      using wrong_size_cases(1) [OF ok(1) pl p fit guarded_free_sized.hyps(1) [OF k], of t] False k
      unfolding guarded_free_sized.hyps(2) by auto
    note d = guarded_deallocate_sized_ok [OF ok(1) pl p fit eq]
    note t = tc_deallocate_sized_ok [OF valid_parts(2) [OF ok(2)] pl p fit, of t True "plain g'"]
    from kama_valid_remove [OF ok(2)] t(2,3) d(2) have "kama_valid pl mapped (plain g', h(p := None))" by blast
    with d(1,3) show ?thesis by (simp add: guarded_valid_def)
  qed
next
  case (guarded_end g h t)
  then show ?case
    using guarded_flush_ok [OF _ pl] flush_all_valid [OF _ pl]
    by (simp add: guarded_valid_def guarded_flush_def with_marks_def)
qed

interpretation guarded: invariant_system guarded_start "guarded_step pl"
  "\<lambda>s. platform_ok pl mapped \<longrightarrow> guarded_valid pl mapped s" for pl :: "'o platform" and mapped
  by unfold_locales (auto simp: guarded_start_def guarded_new_valid intro: guarded_step_valid)

lemma reachable_guarded:
  assumes "platform_ok pl mapped" "guarded_start s" "(guarded_step pl)\<^sup>*\<^sup>* s (g, h)"
  shows "guard_ok pl mapped (dom h) g" "kama_valid pl mapped (plain g, h)"
  using guarded.reachable_invar [OF assms(2,3), of mapped] assms(1) by (simp_all add: guarded_valid_def)

text \<open>A run: a large request, and its free.\<close>

definition guarded_bump :: "(nat \<times> nat set) guarded \<times> (nat \<rightharpoonup> nat)" where
  "guarded_bump = (guarded_new (1, {}), Map.empty)"

lemma guarded_bump: "guarded_start guarded_bump"
  unfolding guarded_start_def guarded_bump_def by blast

lemma guarded_bump_run:
  obtains g where "(guarded_step bump_platform)\<^sup>*\<^sup>* guarded_bump (g, [4096 \<mapsto> 303104])"
proof -
  have "free_spans (page_cache_of (central (kama_new (1, {})))) = []"
    "os_state (page_cache_of (central (kama_new (1, {})))) = (1, {})"
    by (simp_all add: kama_new_def central_cache_new_def page_cache_new_def)
  from bump_large [OF this, of 0] obtain st where
    "tc_allocate bump_platform 0 303104 (kama_new (1, {})) = (Some 4096, st)" by auto
  then have "guarded_allocate bump_platform 0 303104 (guarded_new (1, {}))
      = (Some 4096, with_marks (guarded_new (1, {})) (\<lambda>_. no_marks) st)"
    by (simp add: guarded_allocate_def guarded_new_def)
  then have "guarded_step bump_platform guarded_bump
      (with_marks (guarded_new (1, {})) (\<lambda>_. no_marks) st, [4096 \<mapsto> 303104])"
    unfolding guarded_bump_def by (rule guarded_alloc)
  then show thesis by (intro that) (rule r_into_rtranclp)
qed

text \<open>
  C12: what the debug guards refuse. In every state that calls of a program lead to, on any threads,
  with double frees, frees of foreign addresses and sized frees by another class among them: a free
  of an address the program does not hold, by itself or with any size, is refused and changes nothing; so is a
  free of a small block by the size of another class; and the bytes of two held addresses never
  meet. One kind of call is left out of the programs, for the guards fail on it: a sized free of a
  held address whose size is above \<open>MAX_BYTES\<close> for a small block, or up to it for a large one.
\<close>

theorem guards_refuse_bad_frees:
  assumes "platform_ok pl mapped" and "guarded_start s" and "(guarded_step pl)\<^sup>*\<^sup>* s (g, h)"
  shows "(p \<notin> dom h \<longrightarrow> guarded_deallocate pl t (Some p) g = (False, g)
      \<and> guarded_deallocate_sized pl t (Some p) n g = (False, g))
    \<and> (\<forall>k. h p = Some k \<longrightarrow> norm_bytes k \<le> max_bytes \<longrightarrow> norm_bytes n \<le> max_bytes
        \<longrightarrow> get_index (norm_bytes n) \<noteq> get_index (norm_bytes k)
        \<longrightarrow> guarded_deallocate_sized pl t (Some p) n g = (False, g))
    \<and> (\<forall>q r k m. h q = Some k \<longrightarrow> h r = Some m \<longrightarrow> q \<noteq> r \<longrightarrow> {q ..< q + norm_bytes k} \<inter> {r ..< r + norm_bytes m} = {})"
proof -
  note v = reachable_guarded [OF assms]
  have "guarded_deallocate pl t (Some p) g = (False, g)" if "p \<notin> dom h"
    using guarded_deallocate_ok(1,2) [OF v(1) assms(1)] that by (metis prod.exhaust)
  moreover have "guarded_deallocate_sized pl t (Some p) n g = (False, g)"
    if k: "h p = Some k" and n: "norm_bytes k \<le> max_bytes" "norm_bytes n \<le> max_bytes" "get_index (norm_bytes n) \<noteq> get_index (norm_bytes k)" for k
  proof -
    have "p \<in> dom h" "same_side n k" using k n(1,2) by (auto simp: same_side_def)
    from wrong_size_cases(2) [OF v(1) assms(1) this(1) valid_parts(3) [OF v(2) k] this(2) n(2,3)] show ?thesis .
  qed
  ultimately show ?thesis
    using guarded_deallocate_sized_refused [OF v(1) assms(1)] valid_disjoint [OF v(2) assms(1)] by blast
qed

theorem guards_refuse_bad_frees_witness:
  "\<exists>g1 g2. guarded_deallocate bump_platform 0 (Some 4096) g1 = (True, g2)
     \<and> (guarded_step bump_platform)\<^sup>*\<^sup>* guarded_bump (g2, [4096 \<mapsto> 303104](4096 := None))
     \<and> guarded_deallocate bump_platform 1 (Some 4096) g2 = (False, g2)"
proof -
  obtain g1 where g1: "(guarded_step bump_platform)\<^sup>*\<^sup>* guarded_bump (g1, [4096 \<mapsto> 303104])"
    by (rule guarded_bump_run)
  obtain b g2 where d: "guarded_deallocate bump_platform 0 (Some 4096) g1 = (b, g2)" by fastforce
  have "b" using guarded_deallocate_ok(1) [OF reachable_guarded(1) [OF bump_platform_ok guarded_bump g1] bump_platform_ok d] by simp
  moreover have "guarded_step bump_platform (g1, [4096 \<mapsto> 303104]) (g2, [4096 \<mapsto> 303104](4096 := None))"
    using guarded_free [OF d, of "[4096 \<mapsto> 303104]"] \<open>b\<close> by simp
  with g1 have run: "(guarded_step bump_platform)\<^sup>*\<^sup>* guarded_bump (g2, [4096 \<mapsto> 303104](4096 := None))" by simp
  have "(4096 :: nat) \<notin> dom ([4096 \<mapsto> 303104 :: nat](4096 := None))" by simp
  with guards_refuse_bad_frees [OF bump_platform_ok guarded_bump run, of 4096 1]
  have "guarded_deallocate bump_platform 1 (Some 4096) g2 = (False, g2)" by blast
  moreover have "guarded_deallocate bump_platform 0 (Some 4096) g1 = (True, g2)" using d \<open>b\<close> by simp
  ultimately show ?thesis using run by blast
qed

text \<open>
  C27: the guards change nothing else. In the states the calls above lead to, an allocation gives what the allocator
  gives without guards, and a free of a held address, by itself or with its size, is accepted and
  leaves the allocator as the unguarded free does.
\<close>

theorem guards_are_transparent:
  assumes "platform_ok pl mapped" and "guarded_start s" and "(guarded_step pl)\<^sup>*\<^sup>* s (g, h)" and "h p = Some n"
  shows "map_prod id plain (guarded_allocate pl t k g) = tc_allocate pl t k (plain g)
    \<and> map_prod id plain (guarded_deallocate pl t (Some p) g) = tc_deallocate pl t (Some p) (plain g)
    \<and> map_prod id plain (guarded_deallocate_sized pl t (Some p) n g) = tc_deallocate_sized pl t (Some p) n (plain g)
    \<and> fst (guarded_deallocate pl t (Some p) g) \<and> fst (guarded_deallocate_sized pl t (Some p) n g)"
proof -
  note v = reachable_guarded [OF assms(1-3)]
  have p: "p \<in> dom h" using assms(4) by blast
  obtain r g1 b g2 c g3 where e: "guarded_allocate pl t k g = (r, g1)" "guarded_deallocate pl t (Some p) g = (b, g2)"
    "guarded_deallocate_sized pl t (Some p) n g = (c, g3)" by (metis prod.exhaust)
  show ?thesis
    using guarded_allocate_ok(1) [OF v(1) assms(1) e(1)] guarded_deallocate_ok(1,3) [OF v(1) assms(1) e(2)] p
      guarded_deallocate_sized_ok(1,2) [OF v(1) assms(1) p valid_parts(3) [OF v(2) assms(4)] e(3)] by (simp add: e)
qed

theorem guards_are_transparent_witness:
  "\<exists>g. (guarded_step bump_platform)\<^sup>*\<^sup>* guarded_bump (g, [4096 \<mapsto> 303104])
     \<and> map_prod id plain (guarded_deallocate bump_platform 1 (Some 4096) g)
       = tc_deallocate bump_platform 1 (Some 4096) (plain g)"
proof -
  obtain g where g: "(guarded_step bump_platform)\<^sup>*\<^sup>* guarded_bump (g, [4096 \<mapsto> 303104])" by (rule guarded_bump_run)
  have "[4096 \<mapsto> 303104] 4096 = Some (303104 :: nat)" by simp
  from guards_are_transparent [OF bump_platform_ok guarded_bump g this] g show ?thesis by blast
qed

end
