(* ===== verification/Spin_Lock.thy ===== *)
theory Spin_Lock
  imports Prelude
begin

text \<open>
  The spin lock of the central caches (\<open>SpinLock\<close> in vendor_memorypool/v3/src/Common.h and
  v2/include/Common.h): a guard whose constructor spins on an atomic flag and whose destructor clears
  it. Threads run critical sections, lists of actions on what the lock protects, between the two; a
  step is one access of the flag, one pause or yield, or one action. Memory is sequentially consistent:
  the flag is set with acquire and cleared with release.
\<close>

section \<open>The guard\<close>

type_synonym 's actions = "('s \<Rightarrow> 's) list"

text \<open>
  Where a thread is: before \<open>test_and_set\<close>, at the pause and at the yield of the loop, with its
  counter, or inside its section with the actions left. Counting past the largest \<open>int\<close> is undefined.
\<close>

datatype 's spin_pc =
    Idle
  | Testing "'s actions" int
  | Pausing "'s actions" int
  | Yielding "'s actions" int
  | Inside "'s actions" "'s actions"
  | Overflowed

definition v3_spin_limit :: int where
  "v3_spin_limit = 1024"

definition v2_spin_limit :: int where
  "v2_spin_limit = 64"

definition spin_paused :: "int \<Rightarrow> 's actions \<Rightarrow> int \<Rightarrow> 's spin_pc" where
  "spin_paused limit b spins =
     (if spins + 1 \<ge> 2 ^ 31 then Overflowed
      else if spins + 1 \<ge> limit then Yielding b (spins + 1)
      else Testing b (spins + 1))"

text \<open>The next step of a thread, on the flag and on what it protects.\<close>

fun spin_exec :: "int \<Rightarrow> bool \<Rightarrow> 's \<Rightarrow> 's spin_pc \<Rightarrow> (bool \<times> 's \<times> 's spin_pc) option" where
  "spin_exec limit flag sh (Testing b spins) = Some (True, sh, if flag then Pausing b spins else Inside b b)"
| "spin_exec limit flag sh (Pausing b spins) = Some (flag, sh, spin_paused limit b spins)"
| "spin_exec limit flag sh (Yielding b spins) = Some (flag, sh, Testing b spins)"
| "spin_exec limit flag sh (Inside b (a # rest)) = Some (flag, a sh, Inside b rest)"
| "spin_exec limit flag sh (Inside b []) = Some (False, sh, Idle)"
| "spin_exec limit flag sh Idle = None"
| "spin_exec limit flag sh Overflowed = None"

definition v3_spin_exec :: "bool \<Rightarrow> 's \<Rightarrow> 's spin_pc \<Rightarrow> (bool \<times> 's \<times> 's spin_pc) option" where
  "v3_spin_exec = spin_exec v3_spin_limit"

definition v2_spin_exec :: "bool \<Rightarrow> 's \<Rightarrow> 's spin_pc \<Rightarrow> (bool \<times> 's \<times> 's spin_pc) option" where
  "v2_spin_exec = spin_exec v2_spin_limit"

section \<open>Threads\<close>

record 's spin_state =
  sp_flag :: bool
  sp_shared :: 's
  sp_pcs :: "nat \<Rightarrow> 's spin_pc"

definition spin_new :: "'s \<Rightarrow> 's spin_state" where
  "spin_new s = \<lparr>sp_flag = False, sp_shared = s, sp_pcs = (\<lambda>_. Idle)\<rparr>"

definition spin_move :: "int \<Rightarrow> nat \<Rightarrow> 's spin_state \<Rightarrow> 's spin_state option" where
  "spin_move limit i st =
     (case spin_exec limit (sp_flag st) (sp_shared st) (sp_pcs st i) of
        None \<Rightarrow> None
      | Some (f, sh, pc) \<Rightarrow> Some \<lparr>sp_flag = f, sp_shared = sh, sp_pcs = (sp_pcs st)(i := pc)\<rparr>)"

text \<open>The sections completed so far, in order, are kept beside the state.\<close>

definition completed :: "'s spin_pc \<Rightarrow> 's actions list" where
  "completed pc = (case pc of Inside b [] \<Rightarrow> [b] | _ \<Rightarrow> [])"

inductive spin_step ::
  "int \<Rightarrow> 's spin_state \<times> 's actions list \<Rightarrow> 's spin_state \<times> 's actions list \<Rightarrow> bool" for limit
where
  spin_enter: "sp_pcs st i = Idle \<Longrightarrow> spin_step limit (st, d) (st\<lparr>sp_pcs := (sp_pcs st)(i := Testing b 0)\<rparr>, d)"
| spin_go: "spin_move limit i st = Some st' \<Longrightarrow> spin_step limit (st, d) (st', d @ completed (sp_pcs st i))"

inductive_cases spin_stepE: "spin_step limit (st, d) (st', d')"

definition run_actions :: "'s actions \<Rightarrow> 's \<Rightarrow> 's" where
  "run_actions b s = fold (\<lambda>a. a) b s"

definition serial :: "'s \<Rightarrow> 's actions list \<Rightarrow> 's" where
  "serial s d = fold run_actions d s"

lemma run_actions_append: "run_actions (b @ [a]) s = a (run_actions b s)"
  by (simp add: run_actions_def)

lemma serial_snoc: "serial s (d @ [b]) = run_actions b (serial s d)"
  by (simp add: serial_def)

section \<open>One section at a time\<close>

text \<open>
  The flag is set exactly while some thread is inside, and what it protects is what the completed
  sections leave one after the other, changed by the actions the thread inside has done.
\<close>

definition spin_ok :: "'s \<Rightarrow> 's spin_state \<times> 's actions list \<Rightarrow> bool" where
  "spin_ok s0 x \<longleftrightarrow>
     (case x of (st, d) \<Rightarrow>
        (if sp_flag st
         then \<exists>i p r. sp_pcs st i = Inside (p @ r) r \<and> sp_shared st = run_actions p (serial s0 d)
            \<and> (\<forall>j b q. sp_pcs st j = Inside b q \<longrightarrow> j = i)
         else sp_shared st = serial s0 d \<and> (\<forall>j b q. sp_pcs st j \<noteq> Inside b q)))"

lemma spin_ok_new: "spin_ok s (spin_new s, [])"
  by (simp add: spin_ok_def spin_new_def serial_def)

lemma spin_ok_heldI:
  assumes "sp_flag st" "sp_pcs st i = Inside (p @ r) r" "sp_shared st = run_actions p (serial s0 d)"
    and "\<And>j b q. sp_pcs st j = Inside b q \<Longrightarrow> j = i"
  shows "spin_ok s0 (st, d)"
  unfolding spin_ok_def prod.case if_P [OF assms(1)] using assms(2-) by blast

text \<open>A step that leaves flag and contents alone, and no thread enters or leaves by it.\<close>

lemma spin_ok_wait:
  assumes "spin_ok s0 (st, d)" "\<forall>b r. sp_pcs st i \<noteq> Inside b r" "\<forall>b r. pc \<noteq> Inside b r"
  shows "spin_ok s0 (\<lparr>sp_flag = sp_flag st, sp_shared = sp_shared st, sp_pcs = (sp_pcs st)(i := pc)\<rparr>, d)"
proof (cases "sp_flag st")
  case True
  with assms(1) obtain j p r where j: "sp_pcs st j = Inside (p @ r) r" "sp_shared st = run_actions p (serial s0 d)"
    "\<forall>k b q. sp_pcs st k = Inside b q \<longrightarrow> k = j" by (auto simp: spin_ok_def)
  with assms(2) have "j \<noteq> i" by metis
  with j True assms(3) show ?thesis by (intro spin_ok_heldI [of _ j p r]) (auto split: if_splits)
next
  case False
  with assms show ?thesis by (simp add: spin_ok_def)
qed

lemma spin_ok_inside:
  assumes ok: "spin_ok s0 (st, d)" and i: "sp_pcs st i = Inside b r"
  obtains p where "b = p @ r" "sp_flag st" "sp_shared st = run_actions p (serial s0 d)"
    "\<forall>j c q. sp_pcs st j = Inside c q \<longrightarrow> j = i"
proof -
  have f: "sp_flag st" using ok i by (auto simp: spin_ok_def split: if_splits)
  with ok obtain k p q where k: "sp_pcs st k = Inside (p @ q) q" "sp_shared st = run_actions p (serial s0 d)"
    "\<forall>j b q. sp_pcs st j = Inside b q \<longrightarrow> j = k" by (auto simp: spin_ok_def)
  with i have ik: "k = i" by blast
  with k(1) i have "b = p @ r" by simp
  from that [OF this f k(2)] k(3) show thesis unfolding ik by blast
qed

lemma spin_move_ok:
  assumes ok: "spin_ok s0 (st, d)" and m: "spin_move limit i st = Some st'"
  shows "spin_ok s0 (st', d @ completed (sp_pcs st i))"
proof (cases "sp_pcs st i")
  case (Testing b n)
  show ?thesis
  proof (cases "sp_flag st")
    case True
    with Testing m have "st' = \<lparr>sp_flag = sp_flag st, sp_shared = sp_shared st, sp_pcs = (sp_pcs st)(i := Pausing b n)\<rparr>"
      by (simp add: spin_move_def)
    with spin_ok_wait [OF ok, of i "Pausing b n"] Testing show ?thesis by (simp add: completed_def)
  next
    case False
    with Testing m have e: "st' = \<lparr>sp_flag = True, sp_shared = sp_shared st, sp_pcs = (sp_pcs st)(i := Inside b b)\<rparr>"
      by (simp add: spin_move_def)
    from False ok have "sp_shared st = serial s0 d" "\<forall>j b q. sp_pcs st j \<noteq> Inside b q" by (simp_all add: spin_ok_def)
    with Testing show ?thesis
      unfolding e by (intro spin_ok_heldI [of _ i "[]" b]) (auto simp: completed_def run_actions_def split: if_splits)
  qed
next
  case (Pausing b n)
  with m have "st' = \<lparr>sp_flag = sp_flag st, sp_shared = sp_shared st, sp_pcs = (sp_pcs st)(i := spin_paused limit b n)\<rparr>"
    by (simp add: spin_move_def)
  with spin_ok_wait [OF ok, of i "spin_paused limit b n"] Pausing show ?thesis
    by (simp add: completed_def spin_paused_def)
next
  case (Yielding b n)
  with m have "st' = \<lparr>sp_flag = sp_flag st, sp_shared = sp_shared st, sp_pcs = (sp_pcs st)(i := Testing b n)\<rparr>"
    by (simp add: spin_move_def)
  with spin_ok_wait [OF ok, of i "Testing b n"] Yielding show ?thesis by (simp add: completed_def)
next
  case (Inside b r)
  obtain p where p: "b = p @ r" "sp_flag st" "sp_shared st = run_actions p (serial s0 d)"
    "\<forall>j c q. sp_pcs st j = Inside c q \<longrightarrow> j = i" by (rule spin_ok_inside [OF ok Inside])
  show ?thesis
  proof (cases r)
    case Nil
    with m Inside have e: "st' = \<lparr>sp_flag = False, sp_shared = sp_shared st, sp_pcs = (sp_pcs st)(i := Idle)\<rparr>"
      by (simp add: spin_move_def)
    have "d @ completed (sp_pcs st i) = d @ [p]" using Inside Nil p(1) by (simp add: completed_def)
    with p(3,4) show ?thesis unfolding e spin_ok_def by (auto simp: serial_snoc)
  next
    case (Cons a q)
    with m Inside p(2) have e: "st' = \<lparr>sp_flag = True, sp_shared = a (sp_shared st), sp_pcs = (sp_pcs st)(i := Inside b q)\<rparr>"
      by (simp add: spin_move_def)
    have "completed (sp_pcs st i) = []" using Inside Cons by (simp add: completed_def)
    moreover have "b = (p @ [a]) @ q" using p(1) Cons by simp
    moreover have "a (sp_shared st) = run_actions (p @ [a]) (serial s0 d)" using p(3) by (simp add: run_actions_append)
    ultimately show ?thesis
      unfolding e using p(4) by (intro spin_ok_heldI [of _ i "p @ [a]" q]) (auto split: if_splits)
  qed
qed (use m in \<open>simp_all add: spin_move_def\<close>)

interpretation spin: invariant_system "\<lambda>x. x = (spin_new s0, [])" "spin_step limit" "spin_ok s0" for s0 :: 's and limit
proof unfold_locales
  fix x y :: "'s spin_state \<times> 's actions list"
  assume ok: "spin_ok s0 x" and step: "spin_step limit x y"
  from step show "spin_ok s0 y"
  proof cases
    case (spin_enter st i d b)
    have y: "y = (\<lparr>sp_flag = sp_flag st, sp_shared = sp_shared st, sp_pcs = (sp_pcs st)(i := Testing b 0)\<rparr>, d)"
      using spin_enter by simp
    show ?thesis unfolding y by (rule spin_ok_wait) (use ok spin_enter in simp_all)
  next
    case (spin_go i st st' d)
    from spin_move_ok [OF ok [unfolded spin_go] spin_go(3)] spin_go show ?thesis by simp
  qed
qed (simp add: spin_ok_new)

section \<open>The lock is passed on\<close>

fun spin_moves :: "int \<Rightarrow> nat \<Rightarrow> nat \<Rightarrow> 's spin_state \<Rightarrow> 's spin_state option" where
  "spin_moves limit i 0 st = Some st"
| "spin_moves limit i (Suc k) st =
     (case spin_move limit i st of None \<Rightarrow> None | Some st' \<Rightarrow> spin_moves limit i k st')"

lemma holder_releases:
  "sp_pcs st j = Inside b r \<Longrightarrow> sp_flag st \<Longrightarrow>
    spin_moves limit j (length r + 1) st
      = Some \<lparr>sp_flag = False, sp_shared = run_actions r (sp_shared st), sp_pcs = (sp_pcs st)(j := Idle)\<rparr>"
proof (induction r arbitrary: st)
  case (Cons a r)
  let ?st = "\<lparr>sp_flag = True, sp_shared = a (sp_shared st), sp_pcs = (sp_pcs st)(j := Inside b r)\<rparr>"
  have "spin_move limit j st = Some ?st" using Cons.prems by (simp add: spin_move_def)
  with Cons.IH [of ?st] show ?case by (simp add: run_actions_def fun_eq_iff)
qed (simp add: spin_move_def run_actions_def)

text \<open>A thread that spins, and its section.\<close>

definition waits_for :: "'s spin_pc \<Rightarrow> 's actions \<Rightarrow> bool" where
  "waits_for pc c \<longleftrightarrow> (\<exists>n. n + 1 < 2 ^ 31 \<and> (pc = Testing c n \<or> pc = Pausing c n \<or> pc = Yielding c n))"

lemma free_lock_taken:
  assumes "waits_for (sp_pcs st i) c" "\<not> sp_flag st"
  shows "\<exists>k \<le> 3. spin_moves limit i k st
    = Some \<lparr>sp_flag = True, sp_shared = sp_shared st, sp_pcs = (sp_pcs st)(i := Inside c c)\<rparr>"
proof -
  let ?win = "Some \<lparr>sp_flag = True, sp_shared = sp_shared st, sp_pcs = (sp_pcs st)(i := Inside c c)\<rparr>"
  let ?at = "\<lambda>pc. \<lparr>sp_flag = sp_flag st, sp_shared = sp_shared st, sp_pcs = (sp_pcs st)(i := pc)\<rparr>"
  have t: "spin_move limit i (?at (Testing c n)) = ?win" for n using assms(2) by (simp add: spin_move_def)
  have y: "spin_move limit i (?at (Yielding c n)) = Some (?at (Testing c n))" for n by (simp add: spin_move_def)
  obtain n where n: "n + 1 < 2 ^ 31" "sp_pcs st i = Testing c n \<or> sp_pcs st i = Pausing c n \<or> sp_pcs st i = Yielding c n"
    using assms(1) unfolding waits_for_def by blast
  consider "sp_pcs st i = Testing c n" | "sp_pcs st i = Pausing c n" | "sp_pcs st i = Yielding c n" using n(2) by blast
  then show ?thesis
  proof cases
    case 1
    then have "spin_moves limit i 1 st = ?win" using assms(2) by (simp add: spin_move_def)
    then show ?thesis by (intro exI [of _ 1]) simp
  next
    case 2
    then have e: "spin_move limit i st = Some (if n + 1 \<ge> limit then ?at (Yielding c (n + 1)) else ?at (Testing c (n + 1)))"
      using n(1) by (simp add: spin_move_def spin_paused_def)
    have "spin_moves limit i (if n + 1 \<ge> limit then 3 else 2) st = ?win"
      using e t y by (simp add: numeral_eq_Suc)
    then show ?thesis by (intro exI [of _ "if n + 1 \<ge> limit then 3 else 2"]) simp
  next
    case 3
    then have "spin_move limit i st = Some (?at (Testing c n))" by (simp add: spin_move_def)
    with t have "spin_moves limit i 2 st = ?win" by (simp add: numeral_eq_Suc)
    then show ?thesis by (intro exI [of _ 2]) simp
  qed
qed

text \<open>Two threads, for the examples: one adds and doubles, one waits to add ten.\<close>

definition sample_section :: "nat actions" where
  "sample_section = [\<lambda>s. s + 1, \<lambda>s. s * 2]"

definition sample_held :: "nat spin_state" where
  "sample_held = \<lparr>sp_flag = True, sp_shared = 5,
     sp_pcs = (\<lambda>_. Idle)(0 := Inside sample_section sample_section, 1 := Testing [\<lambda>s. s + 10] 0)\<rparr>"

lemma spin_moves_steps:
  assumes "spin_moves limit i k st = Some st'"
  obtains d' where "(spin_step limit)\<^sup>*\<^sup>* (st, d) (st', d @ d')"
proof -
  have "\<exists>d'. (spin_step limit)\<^sup>*\<^sup>* (st, d) (st', d @ d')"
    using assms
  proof (induction k arbitrary: st d)
    case (Suc k)
    then obtain st1 where m: "spin_move limit i st = Some st1" "spin_moves limit i k st1 = Some st'"
      by (auto split: option.splits)
    from Suc.IH [OF m(2), of "d @ completed (sp_pcs st i)"] obtain d' where
      "(spin_step limit)\<^sup>*\<^sup>* (st1, d @ completed (sp_pcs st i)) (st', d @ (completed (sp_pcs st i) @ d'))" by auto
    with spin_go [OF m(1), of d] show ?case by (blast intro: converse_rtranclp_into_rtranclp)
  qed (auto intro: exI [of _ "[]"])
  with that show thesis by blast
qed

lemma sample_held: "(spin_step 1024)\<^sup>*\<^sup>* (spin_new 5, []) (sample_held, [])"
proof -
  let ?b = sample_section and ?c = "[\<lambda>s :: nat. s + 10]"
  let ?st1 = "spin_new (5 :: nat)\<lparr>sp_pcs := (sp_pcs (spin_new 5))(0 := Testing ?b 0)\<rparr>"
  let ?st2 = "\<lparr>sp_flag = True, sp_shared = 5, sp_pcs = (\<lambda>_. Idle)(0 := Inside ?b ?b)\<rparr>"
  have "spin_step 1024 (spin_new 5, []) (?st1, [])" by (rule spin_enter) (simp add: spin_new_def)
  moreover have "spin_move 1024 0 ?st1 = Some ?st2" by (simp add: spin_move_def spin_new_def)
  from spin_go [OF this, of "[]"] have "spin_step 1024 (?st1, []) (?st2, [])" by (simp add: completed_def)
  moreover have "spin_step 1024 (?st2, []) (?st2\<lparr>sp_pcs := (sp_pcs ?st2)(1 := Testing ?c 0)\<rparr>, [])"
    by (rule spin_enter) simp
  ultimately show ?thesis by (simp add: sample_held_def)
qed

text \<open>
  C29: at most one thread is inside the lock, and the lock serialises: in every interleaving of any
  threads' accesses and actions, with the flag clear the protected state is what the completed
  sections leave when run whole, one after the other, in the order they ended; and with a thread
  inside, that state changed by the first actions of its section.
\<close>

theorem spin_lock_serialises:
  assumes "(spin_step limit)\<^sup>*\<^sup>* (spin_new s0, []) (st, d)"
  shows "(\<forall>i j b c p q. sp_pcs st i = Inside b p \<longrightarrow> sp_pcs st j = Inside c q \<longrightarrow> i = j)
    \<and> (\<not> sp_flag st \<longrightarrow> sp_shared st = serial s0 d)
    \<and> (\<forall>i b r. sp_pcs st i = Inside b r \<longrightarrow> (\<exists>p. b = p @ r \<and> sp_shared st = run_actions p (serial s0 d)))"
proof -
  have ok: "spin_ok s0 (st, d)" using spin.reachable_invar [OF refl assms] .
  have "\<exists>p. b = p @ r \<and> sp_shared st = run_actions p (serial s0 d)" if "sp_pcs st i = Inside b r" for i b r
    by (rule spin_ok_inside [OF ok that]) blast
  moreover have "i = j" if "sp_pcs st i = Inside b p" "sp_pcs st j = Inside c q" for i j b c p q
    using spin_ok_inside [OF ok that(2)] that(1) by blast
  moreover have "\<not> sp_flag st \<longrightarrow> sp_shared st = serial s0 d" using ok by (simp add: spin_ok_def)
  ultimately show ?thesis by blast
qed

theorem spin_lock_serialises_witness:
  "\<exists>st d. (spin_step 1024)\<^sup>*\<^sup>* (spin_new (5 :: nat), []) (st, d) \<and> sp_shared st = 12 \<and> serial 5 d = 12"
proof -
  let ?st = "\<lparr>sp_flag = False, sp_shared = 12, sp_pcs = (sp_pcs sample_held)(0 := Idle)\<rparr>"
  have at: "sp_pcs sample_held 0 = Inside sample_section sample_section" "sp_flag sample_held"
    "length sample_section + 1 = 3" "run_actions sample_section (sp_shared sample_held) = 12"
    by (simp_all add: sample_held_def sample_section_def run_actions_def)
  have "spin_moves 1024 0 3 sample_held = Some ?st" using holder_releases [OF at(1,2)] unfolding at(3,4) .
  from spin_moves_steps [OF this] obtain d where "(spin_step 1024)\<^sup>*\<^sup>* (sample_held, []) (?st, [] @ d)" by blast
  with sample_held have run: "(spin_step 1024)\<^sup>*\<^sup>* (spin_new 5, []) (?st, [] @ d)" by (rule rtranclp_trans)
  have "sp_shared ?st = serial 5 ([] @ d)" using spin_lock_serialises [OF run] by simp
  then have "serial 5 ([] @ d) = 12" by simp
  moreover have "sp_shared ?st = 12" by simp
  ultimately show ?thesis using run by blast
qed

section \<open>The lock under any schedule\<close>

text \<open>
  A schedule is a list of events: a thread that is idle calls the constructor with a section, or a
  thread does its next step.
\<close>

fun spin_event :: "int \<Rightarrow> nat \<times> 's actions option \<Rightarrow> 's spin_state \<Rightarrow> 's spin_state option" where
  "spin_event limit (i, Some b) st =
     (case sp_pcs st i of Idle \<Rightarrow> Some (st\<lparr>sp_pcs := (sp_pcs st)(i := Testing b 0)\<rparr>) | _ \<Rightarrow> None)"
| "spin_event limit (i, None) st = spin_move limit i st"

fun spin_play :: "int \<Rightarrow> (nat \<times> 's actions option) list \<Rightarrow> 's spin_state \<Rightarrow> 's spin_state option" where
  "spin_play limit [] st = Some st"
| "spin_play limit (e # es) st = Option.bind (spin_event limit e st) (spin_play limit es)"

definition own_moves :: "nat \<Rightarrow> (nat \<times> 's actions option) list \<Rightarrow> nat" where
  "own_moves i es = length (filter (\<lambda>e. fst e = i \<and> snd e = None) es)"

lemma own_moves_simps [simp]:
  "own_moves i [] = 0" "own_moves i (e # es) = (if fst e = i \<and> snd e = None then 1 else 0) + own_moves i es"
  by (simp_all add: own_moves_def)

lemma spin_event_cases:
  assumes "spin_event limit e st = Some st'"
  obtains (enter) i b where "e = (i, Some b)" "sp_pcs st i = Idle" "st' = st\<lparr>sp_pcs := (sp_pcs st)(i := Testing b 0)\<rparr>"
  | (move) i where "e = (i, None)" "spin_move limit i st = Some st'"
proof (cases e)
  case (Pair i o')
  then show thesis using assms enter move by (cases o') (auto split: spin_pc.splits)
qed

lemma spin_event_other: "spin_event limit e st = Some st' \<Longrightarrow> fst e \<noteq> i \<Longrightarrow> sp_pcs st' i = sp_pcs st i"
  by (erule spin_event_cases) (auto simp: spin_move_def split: option.splits)

text \<open>An event by which no section ends keeps the list of completed ones.\<close>

lemma spin_event_ok:
  assumes ok: "spin_ok s0 (st, d)" and e: "spin_event limit e st = Some st'" and no: "completed (sp_pcs st (fst e)) = []"
  shows "spin_ok s0 (st', d)"
  using e
proof (cases rule: spin_event_cases)
  case (enter i b)
  have st': "st' = \<lparr>sp_flag = sp_flag st, sp_shared = sp_shared st, sp_pcs = (sp_pcs st)(i := Testing b 0)\<rparr>"
    using enter(3) by simp
  show ?thesis unfolding st' by (rule spin_ok_wait [OF ok]) (simp_all add: enter(2))
next
  case (move i)
  with spin_move_ok [OF ok move(2)] no show ?thesis by simp
qed

text \<open>The thread inside is delayed by nobody: only its own steps count.\<close>

lemma play_held:
  "spin_ok s0 (st, d) \<Longrightarrow> sp_pcs st j = Inside b r \<Longrightarrow> spin_play limit es st = Some st' \<Longrightarrow>
    (if own_moves j es \<le> length r then sp_pcs st' j = Inside b (drop (own_moves j es) r) \<and> spin_ok s0 (st', d)
     else \<exists>es1 es2 st1. es = es1 @ es2 \<and> own_moves j es1 = length r + 1 \<and> spin_play limit es1 st = Some st1
       \<and> \<not> sp_flag st1 \<and> spin_ok s0 (st1, d @ [b]))"
proof (induction es arbitrary: st r)
  case (Cons e es)
  obtain st1 where e: "spin_event limit e st = Some st1" "spin_play limit es st1 = Some st'"
    using Cons.prems(3) by (auto simp: bind_eq_Some_conv)
  note inside = spin_ok_inside [OF Cons.prems(1,2)]
  show ?case
  proof (cases "e = (j, None)")
    case own: True
    then have m: "spin_move limit j st = Some st1" using e(1) by simp
    note ok = spin_move_ok [OF Cons.prems(1) m]
    show ?thesis
    proof (cases r)
      case Nil
      then have "\<not> sp_flag st1" using m Cons.prems(2) by (auto simp: spin_move_def)
      moreover have "spin_ok s0 (st1, d @ [b])" using ok Cons.prems(2) Nil by (simp add: completed_def)
      ultimately have "\<exists>es1 es2 st2. e # es = es1 @ es2 \<and> own_moves j es1 = length r + 1 \<and> spin_play limit es1 st = Some st2
          \<and> \<not> sp_flag st2 \<and> spin_ok s0 (st2, d @ [b])"
        using own Nil m by (intro exI [of _ "[e]"] exI [of _ es] exI [of _ st1]) simp
      with own Nil show ?thesis by simp
    next
      case (Cons a q)
      then have pc: "sp_pcs st1 j = Inside b q" using m Cons.prems(2) by (auto simp: spin_move_def)
      have "spin_ok s0 (st1, d)" using ok Cons.prems(2) Cons by (simp add: completed_def)
      note IH = Cons.IH [OF this pc e(2)]
      show ?thesis
      proof (cases "own_moves j es \<le> length q")
        case True
        with IH own Cons show ?thesis by simp
      next
        case False
        with IH obtain es1 es2 st2 where "es = es1 @ es2" "own_moves j es1 = length q + 1"
          "spin_play limit es1 st1 = Some st2" "\<not> sp_flag st2" "spin_ok s0 (st2, d @ [b])" by auto
        then have "\<exists>es1 es2 st2. e # es = es1 @ es2 \<and> own_moves j es1 = length r + 1 \<and> spin_play limit es1 st = Some st2
            \<and> \<not> sp_flag st2 \<and> spin_ok s0 (st2, d @ [b])"
          using own Cons e(1) by (intro exI [of _ "e # es1"] exI [of _ es2] exI [of _ st2]) simp
        with False own Cons show ?thesis by simp
      qed
    qed
  next
    case other: False
    have j: "fst e \<noteq> j"
    proof
      assume "fst e = j"
      with other e(1) Cons.prems(2) show False by (cases e; cases "snd e") (auto split: spin_pc.splits)
    qed
    have "completed (sp_pcs st (fst e)) = []"
      using inside j by (auto simp: completed_def split: spin_pc.splits)
    note ok = spin_event_ok [OF Cons.prems(1) e(1) this]
    have pc: "sp_pcs st1 j = Inside b r" using spin_event_other [OF e(1) j] Cons.prems(2) by simp
    note IH = Cons.IH [OF ok pc e(2)]
    show ?thesis
    proof (cases "own_moves j es \<le> length r")
      case True
      with IH j show ?thesis by simp
    next
      case False
      with IH obtain es1 es2 st2 where "es = es1 @ es2" "own_moves j es1 = length r + 1"
        "spin_play limit es1 st1 = Some st2" "\<not> sp_flag st2" "spin_ok s0 (st2, d @ [b])" by auto
      then have "\<exists>es1 es2 st2. e # es = es1 @ es2 \<and> own_moves j es1 = length r + 1 \<and> spin_play limit es1 st = Some st2
          \<and> \<not> sp_flag st2 \<and> spin_ok s0 (st2, d @ [b])"
        using j e(1) by (intro exI [of _ "e # es1"] exI [of _ es2] exI [of _ st2]) simp
      with False j show ?thesis by simp
    qed
  qed
qed simp

text \<open>The steps a waiting thread needs to test the flag.\<close>

fun wait_rank :: "'s spin_pc \<Rightarrow> nat" where
  "wait_rank (Pausing b n) = 3"
| "wait_rank (Yielding b n) = 2"
| "wait_rank _ = 1"

definition can_enter :: "'s spin_pc \<Rightarrow> bool" where
  "can_enter pc \<longleftrightarrow> (case pc of Testing _ _ \<Rightarrow> True | Yielding _ _ \<Rightarrow> True | Pausing _ n \<Rightarrow> n + 1 < 2 ^ 31 | _ \<Rightarrow> False)"

lemma play_waiting:
  "spin_ok s0 (st, d) \<Longrightarrow> \<not> sp_flag st \<Longrightarrow> can_enter (sp_pcs st i) \<Longrightarrow> spin_play limit es st = Some st' \<Longrightarrow>
    wait_rank (sp_pcs st i) \<le> own_moves i es \<Longrightarrow>
    \<exists>es1 es2 st1 j b. es = es1 @ es2 \<and> spin_play limit es1 st = Some st1 \<and> sp_pcs st1 j = Inside b b \<and> spin_ok s0 (st1, d)"
proof (induction es arbitrary: st)
  case Nil
  then show ?case by (cases "sp_pcs st i") auto
next
  case (Cons e es)
  obtain st1 where e: "spin_event limit e st = Some st1" "spin_play limit es st1 = Some st'"
    using Cons.prems(4) by (auto simp: bind_eq_Some_conv)
  have out: "sp_pcs st j \<noteq> Inside b q" for j b q using Cons.prems(1,2) by (simp add: spin_ok_def)
  then have "completed (sp_pcs st (fst e)) = []" by (auto simp: completed_def split: spin_pc.splits)
  note ok = spin_event_ok [OF Cons.prems(1) e(1) this]
  show ?case
  proof (cases "sp_flag st1")
    case True
    from e(1) obtain j b where "sp_pcs st1 j = Inside b b"
    proof (cases rule: spin_event_cases)
      case (enter i b)
      with True Cons.prems(2) show thesis by simp
    next
      case (move k)
      with True Cons.prems(2) out [of k] that [of k] show thesis by (cases "sp_pcs st k") (auto simp: spin_move_def)
    qed
    with ok e(1) show ?thesis
      by (intro exI [of _ "[e]"] exI [of _ es] exI [of _ st1] exI [of _ j] exI [of _ b]) simp
  next
    case False
    have "can_enter (sp_pcs st1 i) \<and> wait_rank (sp_pcs st1 i) \<le> own_moves i es"
    proof (cases "fst e = i")
      case True
      from e(1) show ?thesis
      proof (cases rule: spin_event_cases)
        case (enter k b)
        with True Cons.prems(3) show ?thesis by (auto simp: can_enter_def)
      next
        case (move k)
        with True Cons.prems(2,3,5) False show ?thesis
          by (cases "sp_pcs st i") (auto simp: can_enter_def spin_move_def spin_paused_def split: if_splits)
      qed
    next
      case other: False
      with spin_event_other [OF e(1) other] Cons.prems(3,5) show ?thesis by simp
    qed
    then obtain es1 es2 st2 j b where "es = es1 @ es2" "spin_play limit es1 st1 = Some st2"
      "sp_pcs st2 j = Inside b b" "spin_ok s0 (st2, d)" using Cons.IH [OF ok False _ e(2)] by blast
    with e(1) show ?thesis
      by (intro exI [of _ "e # es1"] exI [of _ es2] exI [of _ st2] exI [of _ j] exI [of _ b]) simp
  qed
qed

text \<open>When no other thread moves: the thread inside leaves, and then a waiting one gets in within three steps.\<close>

lemma lock_handed_over:
  assumes "(spin_step limit)\<^sup>*\<^sup>* (spin_new s0, []) (st, d)" and "sp_pcs st j = Inside b r" and "waits_for (sp_pcs st i) c"
  shows "\<exists>st1 st2 k. spin_moves limit j (length r + 1) st = Some st1 \<and> k \<le> 3 \<and> spin_moves limit i k st1 = Some st2
    \<and> sp_pcs st2 i = Inside c c \<and> sp_shared st2 = serial s0 (d @ [b])"
proof -
  have ok: "spin_ok s0 (st, d)" using spin.reachable_invar [OF refl assms(1)] .
  obtain p where p: "b = p @ r" "sp_flag st" "sp_shared st = run_actions p (serial s0 d)"
    by (rule spin_ok_inside [OF ok assms(2)])
  let ?st1 = "\<lparr>sp_flag = False, sp_shared = run_actions r (sp_shared st), sp_pcs = (sp_pcs st)(j := Idle)\<rparr>"
  have m: "spin_moves limit j (length r + 1) st = Some ?st1" by (rule holder_releases [OF assms(2) p(2)])
  have sh: "sp_shared ?st1 = serial s0 (d @ [b])" using p by (simp add: serial_snoc run_actions_def)
  have "i \<noteq> j" using assms(2,3) by (auto simp: waits_for_def)
  with assms(3) have "waits_for (sp_pcs ?st1 i) c" by simp
  from free_lock_taken [OF this, of limit] obtain k where k: "k \<le> 3" "spin_moves limit i k ?st1
      = Some \<lparr>sp_flag = True, sp_shared = sp_shared ?st1, sp_pcs = (sp_pcs ?st1)(i := Inside c c)\<rparr>" by auto
  show ?thesis by (intro exI conjI) (rule m, rule k(1), rule k(2), simp, use sh in simp)
qed

text \<open>
  C37: the lock is always passed on, under any schedule of any threads. In a reachable state with a
  thread inside, the others only wait: whatever they do, the thread inside does its next action by each
  of its own steps, and the step after the last one leaves the lock free, its section done. In a
  reachable state with the lock free and a thread that spins and is not at the end of its counter:
  by the time that thread has done three more steps of its own, some thread has entered, on what
  all sections so far leave. Which thread enters is not said: the lock is not fair, so this is progress
  of the lock and not of each thread.
\<close>

theorem spin_lock_passed_on:
  assumes run: "(spin_step limit)\<^sup>*\<^sup>* (spin_new s0, []) (st, d)"
  shows "(\<forall>j b r es st'. sp_pcs st j = Inside b r \<longrightarrow> spin_play limit es st = Some st' \<longrightarrow>
      (if own_moves j es \<le> length r then sp_pcs st' j = Inside b (drop (own_moves j es) r) \<and> spin_move limit j st' \<noteq> None
       else \<exists>es1 es2 st1. es = es1 @ es2 \<and> own_moves j es1 = length r + 1 \<and> spin_play limit es1 st = Some st1
         \<and> \<not> sp_flag st1 \<and> sp_shared st1 = serial s0 (d @ [b])))
    \<and> (\<forall>i c es st'. \<not> sp_flag st \<longrightarrow> waits_for (sp_pcs st i) c \<longrightarrow> spin_play limit es st = Some st' \<longrightarrow> 3 \<le> own_moves i es \<longrightarrow>
      (\<exists>es1 es2 st1 j b. es = es1 @ es2 \<and> spin_play limit es1 st = Some st1 \<and> sp_pcs st1 j = Inside b b
         \<and> sp_shared st1 = serial s0 d))"
proof (intro conjI allI impI)
  have ok: "spin_ok s0 (st, d)" using spin.reachable_invar [OF refl run] .
  {
    fix j b r es st' assume h: "sp_pcs st j = Inside b r" "spin_play limit es st = Some st'"
    have "spin_move limit j st' \<noteq> None" if "sp_pcs st' j = Inside b q" for q
      using that by (cases q) (simp_all add: spin_move_def)
    moreover have "sp_shared st1 = serial s0 e" if "spin_ok s0 (st1, e)" "\<not> sp_flag st1" for st1 e
      using that by (simp add: spin_ok_def)
    moreover note play_held [OF ok h]
    ultimately show "if own_moves j es \<le> length r then sp_pcs st' j = Inside b (drop (own_moves j es) r) \<and> spin_move limit j st' \<noteq> None
       else \<exists>es1 es2 st1. es = es1 @ es2 \<and> own_moves j es1 = length r + 1 \<and> spin_play limit es1 st = Some st1
         \<and> \<not> sp_flag st1 \<and> sp_shared st1 = serial s0 (d @ [b])"
      by (auto split: if_splits)
  next
    fix i c es st' assume h: "\<not> sp_flag st" "waits_for (sp_pcs st i) c" "spin_play limit es st = Some st'" "3 \<le> own_moves i es"
    have "wait_rank pc \<le> 3" for pc :: "'a spin_pc" by (cases pc) simp_all
    then have "wait_rank (sp_pcs st i) \<le> own_moves i es" using h(4) by (rule order_trans)
    moreover have "can_enter (sp_pcs st i)" using h(2) by (auto simp: waits_for_def can_enter_def)
    ultimately obtain es1 es2 st1 j b where
      w: "es = es1 @ es2" "spin_play limit es1 st = Some st1" "sp_pcs st1 j = Inside b b" "spin_ok s0 (st1, d)"
      using play_waiting [OF ok h(1) _ h(3)] by blast
    from spin_ok_inside [OF w(4,3)] have "sp_shared st1 = serial s0 d" by (auto simp: run_actions_def)
    with w show "\<exists>es1 es2 st1 j b. es = es1 @ es2 \<and> spin_play limit es1 st = Some st1 \<and> sp_pcs st1 j = Inside b b
         \<and> sp_shared st1 = serial s0 d" by blast
  }
qed

text \<open>Thread 1 and a third thread, that comes and spins too, move between the steps of thread 0.\<close>

theorem spin_lock_passed_on_witness:
  "\<exists>st1. spin_play 1024 [(1, None), (0, None), (2, Some []), (2, None), (0, None), (1, None), (0, None)] sample_held = Some st1
    \<and> \<not> sp_flag st1 \<and> sp_shared st1 = 12"
proof -
  let ?es = "[(1, None), (0, None), (2, Some []), (2, None), (0, None), (1, None), (0, None)] :: (nat \<times> nat actions option) list"
  have pc: "sp_pcs sample_held 0 = Inside sample_section sample_section" by (simp add: sample_held_def)
  obtain st' where st': "spin_play 1024 ?es sample_held = Some st'"
    by (simp add: sample_held_def sample_section_def spin_move_def spin_paused_def)
  have own: "own_moves 0 ?es = 3" "length sample_section = 2" by (simp_all add: sample_section_def)
  from spin_lock_passed_on [OF sample_held, THEN conjunct1, rule_format, OF pc st'] own
  obtain es1 es2 st1 where w: "?es = es1 @ es2" "own_moves 0 es1 = 3" "spin_play 1024 es1 sample_held = Some st1"
    "\<not> sp_flag st1" "sp_shared st1 = serial 5 ([] @ [sample_section])" by auto
  have "own_moves 0 ?es = own_moves 0 es1 + own_moves 0 es2" unfolding w(1) by (simp add: own_moves_def)
  with w(2) own(1) have "own_moves 0 es2 = 0" by linarith
  moreover have "last ?es = (0, None)" by simp
  ultimately have "es2 = []" unfolding w(1)
    by (cases es2 rule: rev_cases) (auto simp: own_moves_def)
  with w show ?thesis by (simp add: serial_def run_actions_def sample_section_def)
qed

text \<open>
  The counter is an \<open>int\<close> that is never reset: a thread that waits through \<open>2 ^ 31\<close> rounds of the loop
  increments it beyond the largest value.
\<close>

lemma spin_round:
  assumes "sp_flag st" "sp_pcs st i = Testing b n"
  shows "\<exists>k. spin_moves limit i k st = Some (st\<lparr>sp_pcs := (sp_pcs st)
    (i := if n + 1 \<ge> 2 ^ 31 then Overflowed else Testing b (n + 1))\<rparr>)"
proof -
  have "spin_moves limit i (if n + 1 < 2 ^ 31 \<and> n + 1 \<ge> limit then 3 else 2) st = Some (st\<lparr>sp_pcs := (sp_pcs st)
    (i := if n + 1 \<ge> 2 ^ 31 then Overflowed else Testing b (n + 1))\<rparr>)"
    using assms by (simp add: numeral_eq_Suc spin_move_def spin_paused_def)
  then show ?thesis by blast
qed

lemma spin_moves_add:
  "spin_moves limit i k st = Some st1 \<Longrightarrow> spin_moves limit i m st1 = x \<Longrightarrow> spin_moves limit i (k + m) st = x"
  by (induction k arbitrary: st) (auto split: option.splits)

lemma spin_counter_overflows:
  assumes "sp_flag st" "sp_pcs st i = Testing b n" "n + int m = 2 ^ 31 - 1"
  shows "\<exists>k. spin_moves limit i k st = Some (st\<lparr>sp_pcs := (sp_pcs st)(i := Overflowed)\<rparr>)"
  using assms
proof (induction m arbitrary: n st)
  case 0
  then have "n + 1 \<ge> 2 ^ 31" by simp
  from spin_round [OF 0(1,2), unfolded if_P [OF this]] show ?case .
next
  case (Suc m)
  let ?st = "st\<lparr>sp_pcs := (sp_pcs st)(i := Testing b (n + 1))\<rparr>"
  have "\<not> n + 1 \<ge> 2 ^ 31" using Suc.prems(3) by simp
  from spin_round [OF Suc.prems(1,2), unfolded if_not_P [OF this]] obtain k where k: "spin_moves limit i k st = Some ?st" by blast
  have "\<exists>l. spin_moves limit i l ?st = Some (?st\<lparr>sp_pcs := (sp_pcs ?st)(i := Overflowed)\<rparr>)"
  proof (rule Suc.IH)
    show "n + 1 + int m = 2 ^ 31 - 1" using Suc.prems(3) unfolding of_nat_Suc by linarith
  qed (use Suc.prems in simp_all)
  then obtain l where "spin_moves limit i l ?st = Some (st\<lparr>sp_pcs := (sp_pcs st)(i := Overflowed)\<rparr>)" by auto
  with k spin_moves_add show ?case by blast
qed

end
