(* ===== verification/Lock_Free_Pool.thy ===== *)
theory Lock_Free_Pool
  imports Prelude
begin

text \<open>
  The first version of the vendored allocator (vendor_memorypool/v1): per slot size a pool that
  carves slots out of blocks under a mutex and keeps freed slots on a lock-free stack, whose head
  carries a version tag against the ABA problem. The pool is modelled as the interleaving of the
  memory accesses of its threads, under sequential consistency: one step is one load, store or
  compare-and-swap (which may fail spuriously), or one critical section of the mutex. The link of
  a free slot lies in the memory of the slot, which a caller that holds the slot overwrites at
  will.
\<close>

section \<open>The pool\<close>

record v1_pool =
  vp_head :: "nat \<times> nat"
  vp_next :: "nat \<Rightarrow> nat"
  first_block :: nat
  cur_slot :: nat
  last_slot :: nat
  slot_bytes :: nat
  block_bytes :: nat

definition v1_new :: "nat \<Rightarrow> v1_pool" where
  "v1_new block =
     \<lparr>vp_head = (0, 0), vp_next = \<lambda>_. 0, first_block = 0, cur_slot = 0, last_slot = 0,
      slot_bytes = 0, block_bytes = block\<rparr>"

definition v1_init :: "nat \<Rightarrow> v1_pool \<Rightarrow> v1_pool" where
  "v1_init bytes pl =
     pl\<lparr>slot_bytes := bytes, first_block := 0, cur_slot := 0, last_slot := 0, vp_head := (0, 0)\<rparr>"

text \<open>
  \<open>compare_exchange_weak\<close> on the tagged head: \<open>None\<close> when it fails, spuriously or because the head
  is not the expected one.
\<close>

definition v1_cas :: "bool \<Rightarrow> v1_pool \<Rightarrow> nat \<times> nat \<Rightarrow> nat \<times> nat \<Rightarrow> v1_pool option" where
  "v1_cas spurious pl old new =
     (if \<not> spurious \<and> vp_head pl = old then Some (pl\<lparr>vp_head := new\<rparr>) else None)"

text \<open>Where a thread is, with its local variables: the pointer and tag it loaded, the link it read.\<close>

datatype v1_pc =
    Ready
  | Pop_Load
  | Pop_Read "nat \<times> nat"
  | Pop_Cas "nat \<times> nat" nat
  | Carve
  | Push_Load nat
  | Push_Store nat "nat \<times> nat"
  | Push_Cas nat "nat \<times> nat"

definition pop_test :: "nat \<times> nat \<Rightarrow> v1_pc" where
  "pop_test old = (if fst old = 0 then Carve else Pop_Read old)"

definition next_tag :: "nat \<times> nat \<Rightarrow> nat" where
  "next_tag old = (snd old + 1) mod 2 ^ 64"

text \<open>
  The next memory access of a thread inside \<open>popFreeList\<close> or \<open>pushFreeList\<close>: the pool and the
  place it leads to, and the slot a completed pop returns.
\<close>

fun v1_exec :: "bool \<Rightarrow> v1_pool \<Rightarrow> v1_pc \<Rightarrow> (v1_pool \<times> v1_pc \<times> nat option) option" where
  "v1_exec spurious pl Pop_Load = Some (pl, pop_test (vp_head pl), None)"
| "v1_exec spurious pl (Pop_Read old) = Some (pl, Pop_Cas old (vp_next pl (fst old)), None)"
| "v1_exec spurious pl (Pop_Cas old link) =
     (case v1_cas spurious pl old (link, next_tag old) of
        Some pl' \<Rightarrow> Some (pl', Ready, Some (fst old))
      | None \<Rightarrow> Some (pl, pop_test (vp_head pl), None))"
| "v1_exec spurious pl (Push_Load slot) = Some (pl, Push_Store slot (vp_head pl), None)"
| "v1_exec spurious pl (Push_Store slot old) =
     Some (pl\<lparr>vp_next := (vp_next pl)(slot := fst old)\<rparr>, Push_Cas slot old, None)"
| "v1_exec spurious pl (Push_Cas slot old) =
     (case v1_cas spurious pl old (slot, next_tag old) of
        Some pl' \<Rightarrow> Some (pl', Ready, None)
      | None \<Rightarrow> Some (pl, Push_Store slot (vp_head pl), None))"
| "v1_exec spurious pl pc = None"

section \<open>Carving slots\<close>

definition pad_pointer :: "nat \<Rightarrow> nat \<Rightarrow> nat result" where
  "pad_pointer p align = (if align = 0 then Inl UndefinedBehavior else Inr (align - p mod align))"

text \<open>\<open>operator new\<close> returned the address given, or threw.\<close>

definition allocate_new_block :: "nat option \<Rightarrow> v1_pool \<Rightarrow> v1_pool result" where
  "allocate_new_block new_block pl =
     (case new_block of
        None \<Rightarrow> Inl BadAlloc
      | Some b \<Rightarrow>
          bind_result (pad_pointer (b + 8) (slot_bytes pl)) (\<lambda>padding.
            Inr (pl\<lparr>vp_next := (vp_next pl)(b := first_block pl), first_block := b,
                    cur_slot := b + 8 + padding, last_slot := b + block_bytes pl - slot_bytes pl + 1\<rparr>)))"

definition v1_carve :: "nat option \<Rightarrow> v1_pool \<Rightarrow> (nat \<times> v1_pool) result" where
  "v1_carve new_block pl =
     bind_result (if last_slot pl \<le> cur_slot pl then allocate_new_block new_block pl else Inr pl)
       (\<lambda>pl. Inr (cur_slot pl, pl\<lparr>cur_slot := cur_slot pl + slot_bytes pl div 8 * 8\<rparr>))"

text \<open>The destructor walks the blocks; its result lists the blocks it deletes.\<close>

partial_function (option) v1_destroy :: "(nat \<Rightarrow> nat) \<Rightarrow> nat \<Rightarrow> nat list option" where
  "v1_destroy link cur =
     (if cur = 0 then Some []
      else Option.bind (v1_destroy link (link cur)) (\<lambda>rest. Some (cur # rest)))"

declare v1_destroy.simps [code]

section \<open>Threads\<close>

record v1_state =
  v1_shared :: v1_pool
  v1_pcs :: "nat \<Rightarrow> v1_pc"
  v1_held :: "nat set"

text \<open>What a caller can see of a step: a slot handed out, a slot given back.\<close>

datatype v1_event = Silent | Took nat | Gave nat

text \<open>
  What \<open>operator new\<close> promises: storage of the size asked for, apart from the blocks that live.
\<close>

definition new_block_ok :: "nat list \<Rightarrow> nat \<Rightarrow> nat \<Rightarrow> bool" where
  "new_block_ok blocks bytes b \<longleftrightarrow>
     b \<noteq> 0 \<and> (\<forall>c \<in> set blocks. b + bytes \<le> c \<or> c + bytes \<le> b)"

inductive v1_step :: "v1_state \<Rightarrow> v1_event \<Rightarrow> v1_state \<Rightarrow> bool" where
  call_allocate: "v1_pcs s i = Ready \<Longrightarrow>
    v1_step s Silent (s\<lparr>v1_pcs := (v1_pcs s)(i := Pop_Load)\<rparr>)"
| call_deallocate: "v1_pcs s i = Ready \<Longrightarrow> p \<in> v1_held s \<Longrightarrow>
    v1_step s (Gave p) (s\<lparr>v1_pcs := (v1_pcs s)(i := Push_Load p), v1_held := v1_held s - {p}\<rparr>)"
| access: "v1_exec spurious (v1_shared s) (v1_pcs s i) = Some (pl, pc, None) \<Longrightarrow>
    v1_step s Silent (s\<lparr>v1_shared := pl, v1_pcs := (v1_pcs s)(i := pc)\<rparr>)"
| popped: "v1_exec spurious (v1_shared s) (v1_pcs s i) = Some (pl, pc, Some p) \<Longrightarrow>
    v1_step s (Took p)
      (s\<lparr>v1_shared := pl, v1_pcs := (v1_pcs s)(i := pc), v1_held := insert p (v1_held s)\<rparr>)"
| carved: "v1_pcs s i = Carve \<Longrightarrow>
    linked (vp_next (v1_shared s)) (first_block (v1_shared s)) bs \<Longrightarrow>
    new_block_ok bs (block_bytes (v1_shared s)) b \<Longrightarrow>
    v1_carve (Some b) (v1_shared s) = Inr (p, pl) \<Longrightarrow>
    v1_step s (Took p)
      (s\<lparr>v1_shared := pl, v1_pcs := (v1_pcs s)(i := Ready), v1_held := insert p (v1_held s)\<rparr>)"
| out_of_memory: "v1_pcs s i = Carve \<Longrightarrow> v1_carve None (v1_shared s) = Inl BadAlloc \<Longrightarrow>
    v1_step s Silent (s\<lparr>v1_pcs := (v1_pcs s)(i := Ready)\<rparr>)"
| caller_writes: "p \<in> v1_held s \<Longrightarrow>
    v1_step s Silent (s\<lparr>v1_shared := (v1_shared s)\<lparr>vp_next := (vp_next (v1_shared s))(p := v)\<rparr>\<rparr>)"

inductive v1_run :: "v1_state \<Rightarrow> v1_event list \<Rightarrow> v1_state \<Rightarrow> bool" where
  v1_run_Nil: "v1_run s [] s"
| v1_run_snoc: "v1_run s es t \<Longrightarrow> v1_step t e u \<Longrightarrow> v1_run s (es @ [e]) u"

definition v1_start :: "nat \<Rightarrow> nat \<Rightarrow> v1_state" where
  "v1_start slot block =
     \<lparr>v1_shared = v1_init slot (v1_new block), v1_pcs = \<lambda>_. Ready, v1_held = {}\<rparr>"

section \<open>Buckets\<close>

definition pool_num :: nat where "pool_num = 64"
definition slot_base :: nat where "slot_base = 8"
definition max_slot :: nat where "max_slot = 512"

definition bucket_pools :: "v1_pool list" where
  "bucket_pools = map (\<lambda>i. v1_init ((i + 1) * slot_base) (v1_new 4096)) [0..<pool_num]"

datatype bucket_route = Null_Pointer | Operator_New | Pool_At nat

definition use_memory :: "nat \<Rightarrow> bucket_route" where
  "use_memory bytes =
     (if bytes = 0 then Null_Pointer else if bytes > max_slot then Operator_New
      else Pool_At (wsub (wadd bytes 7 div slot_base) 1))"

definition free_memory :: "nat \<Rightarrow> nat \<Rightarrow> bucket_route" where
  "free_memory p bytes =
     (if p = 0 then Null_Pointer else if bytes > max_slot then Operator_New
      else Pool_At (wsub (wadd bytes 7 div slot_base) 1))"

section \<open>The invariant\<close>

fun pending :: "v1_pc \<Rightarrow> nat set" where
  "pending (Push_Load p) = {p}"
| "pending (Push_Store p old) = {p}"
| "pending (Push_Cas p old) = {p}"
| "pending pc = {}"

text \<open>
  A snapshot of the head is no newer than the head, and if the tags agree, so do the pointers.
\<close>

definition snapshot :: "v1_pool \<Rightarrow> nat \<times> nat \<Rightarrow> bool" where
  "snapshot pl old \<longleftrightarrow> snd old \<le> snd (vp_head pl) \<and> (snd old = snd (vp_head pl) \<longrightarrow> old = vp_head pl)"

fun pc_ok :: "v1_pool \<Rightarrow> v1_pc \<Rightarrow> bool" where
  "pc_ok pl (Pop_Read old) \<longleftrightarrow> snapshot pl old \<and> fst old \<noteq> 0"
| "pc_ok pl (Pop_Cas old link) \<longleftrightarrow>
     snapshot pl old \<and> fst old \<noteq> 0 \<and> (old = vp_head pl \<longrightarrow> link = vp_next pl (fst old))"
| "pc_ok pl (Push_Store p old) \<longleftrightarrow> snapshot pl old"
| "pc_ok pl (Push_Cas p old) \<longleftrightarrow> snapshot pl old \<and> vp_next pl p = fst old"
| "pc_ok pl pc \<longleftrightarrow> True"

definition slot_in :: "v1_pool \<Rightarrow> nat list \<Rightarrow> nat \<Rightarrow> bool" where
  "slot_in pl blocks p \<longleftrightarrow>
     p mod slot_bytes pl = 0 \<and>
     (\<exists>b \<in> set blocks. b + 8 \<le> p \<and> p + slot_bytes pl \<le> b + block_bytes pl
        \<and> (b = first_block pl \<longrightarrow> p + slot_bytes pl \<le> cur_slot pl))"

definition blocks_ok :: "v1_pool \<Rightarrow> nat list \<Rightarrow> bool" where
  "blocks_ok pl blocks \<longleftrightarrow>
     0 < slot_bytes pl \<and> 8 dvd slot_bytes pl \<and> 8 + 2 * slot_bytes pl \<le> block_bytes pl
     \<and> linked (vp_next pl) (first_block pl) blocks
     \<and> (\<forall>b \<in> set blocks. \<forall>c \<in> set blocks. b = c \<or> b + block_bytes pl \<le> c \<or> c + block_bytes pl \<le> b)
     \<and> (if first_block pl = 0 then cur_slot pl = 0 \<and> last_slot pl = 0
        else cur_slot pl mod slot_bytes pl = 0 \<and> first_block pl + 8 \<le> cur_slot pl
          \<and> last_slot pl = first_block pl + block_bytes pl - slot_bytes pl + 1)"

definition v1_ok :: "nat \<Rightarrow> nat list \<Rightarrow> nat list \<Rightarrow> v1_state \<Rightarrow> bool" where
  "v1_ok n free blocks s \<longleftrightarrow>
     (let pl = v1_shared s in
      blocks_ok pl blocks \<and> snd (vp_head pl) \<le> n
      \<and> linked (vp_next pl) (fst (vp_head pl)) free \<and> distinct free \<and> set free \<inter> v1_held s = {}
      \<and> (\<forall>i. pc_ok pl (v1_pcs s i) \<and> pending (v1_pcs s i) \<inter> (set free \<union> v1_held s) = {})
      \<and> (\<forall>i j. i \<noteq> j \<longrightarrow> pending (v1_pcs s i) \<inter> pending (v1_pcs s j) = {})
      \<and> (\<forall>p \<in> set free \<union> v1_held s \<union> (\<Union>i. pending (v1_pcs s i)). slot_in pl blocks p))"

text \<open>A slot is apart from the first words of all blocks.\<close>

lemma slot_not_block:
  assumes "blocks_ok pl blocks" "slot_in pl blocks p"
  shows "p \<notin> set blocks"
proof
  assume p: "p \<in> set blocks"
  from assms(2) obtain b where b: "b \<in> set blocks" "b + 8 \<le> p" "p + slot_bytes pl \<le> b + block_bytes pl"
    by (auto simp: slot_in_def)
  have "0 < slot_bytes pl" using assms(1) by (simp add: blocks_ok_def)
  with assms(1) p b(1) have "b = p \<or> b + block_bytes pl \<le> p \<or> p + block_bytes pl \<le> b"
    unfolding blocks_ok_def by blast
  with b \<open>0 < slot_bytes pl\<close> show False by linarith
qed

lemma slots_apart:
  assumes "blocks_ok pl blocks" "slot_in pl blocks p" "slot_in pl blocks q" "p \<noteq> q"
  shows "p + slot_bytes pl \<le> q \<or> q + slot_bytes pl \<le> p"
proof -
  let ?n = "slot_bytes pl"
  have m: "p mod ?n = 0" "q mod ?n = 0" using assms(2,3) by (simp_all add: slot_in_def)
  then have "?n dvd p" "?n dvd q" by auto
  then obtain a b where ab: "p = ?n * a" "q = ?n * b" by (elim dvdE)
  with assms(4) have "a \<noteq> b" by auto
  then have "Suc a \<le> b \<or> Suc b \<le> a" by linarith
  then have "?n * Suc a \<le> ?n * b \<or> ?n * Suc b \<le> ?n * a" by (meson mult_le_mono2)
  with ab show ?thesis by (simp add: add.commute)
qed

section \<open>Every step keeps the invariant and is a step of the abstract stack\<close>

text \<open>
  The abstract pool: a stack of free slots, the slots on their way back to it and those held by
  callers. A slot handed out is the top of the stack or new.
\<close>

inductive stack_spec ::
  "nat list \<times> nat set \<times> nat set \<Rightarrow> v1_event \<Rightarrow> nat list \<times> nat set \<times> nat set \<Rightarrow> bool"
where
  spec_give: "p \<in> H \<Longrightarrow> stack_spec (F, R, H) (Gave p) (F, insert p R, H - {p})"
| spec_push: "p \<in> R \<Longrightarrow> stack_spec (F, R, H) Silent (p # F, R - {p}, H)"
| spec_pop: "stack_spec (p # F, R, H) (Took p) (F, R, insert p H)"
| spec_new: "p \<notin> set F \<union> R \<union> H \<Longrightarrow> stack_spec (F, R, H) (Took p) (F, R, insert p H)"
| spec_idle: "stack_spec x Silent x"

definition v1_abs :: "nat list \<Rightarrow> v1_state \<Rightarrow> nat list \<times> nat set \<times> nat set" where
  "v1_abs free s = (free, \<Union>i. pending (v1_pcs s i), v1_held s)"

lemma pc_ok_write:
  assumes "pc_ok pl pc" "p \<notin> pending pc" "p \<noteq> fst (vp_head pl)"
  shows "pc_ok (pl\<lparr>vp_next := (vp_next pl)(p := v)\<rparr>) pc"
  using assms by (cases pc) (auto simp: snapshot_def)

lemma pc_ok_head:
  assumes "pc_ok pl pc" "snd new = Suc (snd (vp_head pl))"
  shows "pc_ok (pl\<lparr>vp_head := new\<rparr>) pc"
  using assms by (cases pc) (auto simp: snapshot_def)

lemma pc_ok_pop_test [simp]: "pc_ok pl (pop_test (vp_head pl))" "pending (pop_test old) = {}"
  by (simp_all add: pop_test_def snapshot_def)

lemma v1_okD:
  assumes "v1_ok n free blocks s"
  shows "blocks_ok (v1_shared s) blocks" "snd (vp_head (v1_shared s)) \<le> n"
    "linked (vp_next (v1_shared s)) (fst (vp_head (v1_shared s))) free" "distinct free"
    "set free \<inter> v1_held s = {}" "\<And>i. pc_ok (v1_shared s) (v1_pcs s i)"
    "\<And>i. pending (v1_pcs s i) \<inter> (set free \<union> v1_held s) = {}"
    "\<And>i j. i \<noteq> j \<Longrightarrow> pending (v1_pcs s i) \<inter> pending (v1_pcs s j) = {}"
    "\<And>p. p \<in> set free \<union> v1_held s \<union> (\<Union>i. pending (v1_pcs s i)) \<Longrightarrow> slot_in (v1_shared s) blocks p"
  using assms unfolding v1_ok_def Let_def by blast+

lemma pending_update:
  "(\<Union>j. pending ((u(i := pc)) j)) = pending pc \<union> (\<Union>j \<in> - {i}. pending (u j))"
  "(\<Union>j. pending (u j)) = pending (u i) \<union> (\<Union>j \<in> - {i}. pending (u j))"
  by (auto split: if_splits)

text \<open>A step of thread \<open>i\<close>: what is left to show for the state after it.\<close>

lemma v1_ok_step:
  assumes ok: "v1_ok n free blocks s"
    and pl: "blocks_ok pl blocks'" "snd (vp_head pl) \<le> Suc n"
      "linked (vp_next pl) (fst (vp_head pl)) free'" "distinct free'"
    and pc: "pc_ok pl pc" "\<And>j. j \<noteq> i \<Longrightarrow> pc_ok pl (v1_pcs s j)"
    and apart: "set free' \<inter> H = {}" "pending pc \<inter> (set free' \<union> H) = {}"
      "\<And>j. j \<noteq> i \<Longrightarrow> pending (v1_pcs s j) \<inter> (set free' \<union> H \<union> pending pc) = {}"
    and slots: "\<And>p. p \<in> set free' \<union> H \<union> pending pc \<Longrightarrow> slot_in pl blocks' p"
      "\<And>j p. j \<noteq> i \<Longrightarrow> p \<in> pending (v1_pcs s j) \<Longrightarrow> slot_in pl blocks' p"
  shows "v1_ok (Suc n) free' blocks' (s\<lparr>v1_shared := pl, v1_pcs := (v1_pcs s)(i := pc), v1_held := H\<rparr>)"
proof -
  let ?pcs = "(v1_pcs s)(i := pc)"
  have A1: "pc_ok pl (?pcs j)" for j using pc by simp
  have A2: "pending (?pcs j) \<inter> (set free' \<union> H) = {}" for j
    using apart(2) apart(3) [of j] by (cases "j = i") auto
  have B: "pending (?pcs j) \<inter> pending (?pcs k) = {}" if "j \<noteq> k" for j k
    using that apart(3) [of j] apart(3) [of k] v1_okD(8) [OF ok that] by (cases "j = i"; cases "k = i") auto
  have C: "slot_in pl blocks' p" if "p \<in> set free' \<union> H \<union> (\<Union>j. pending (?pcs j))" for p
    using that slots unfolding pending_update(1) by blast
  let ?t = "s\<lparr>v1_shared := pl, v1_pcs := ?pcs, v1_held := H\<rparr>"
  have sel: "v1_shared ?t = pl" "v1_pcs ?t = ?pcs" "v1_held ?t = H" by simp_all
  show ?thesis
    unfolding v1_ok_def Let_def sel
    by (intro conjI ballI allI impI) (rule pl apart(1) A1 A2 B C; assumption)+
qed

lemma v1_ok_local:
  assumes ok: "v1_ok n free blocks s" and pc: "pc_ok (v1_shared s) pc" "pending pc = pending (v1_pcs s i)"
  shows "v1_ok (Suc n) free blocks (s\<lparr>v1_pcs := (v1_pcs s)(i := pc)\<rparr>)
    \<and> v1_abs free (s\<lparr>v1_pcs := (v1_pcs s)(i := pc)\<rparr>) = v1_abs free s"
proof -
  note d = v1_okD [OF ok]
  have p: "pending (((v1_pcs s)(i := pc)) j) = pending (v1_pcs s j)" for j using pc(2) by simp
  have "pc_ok (v1_shared s) (((v1_pcs s)(i := pc)) j)" for j using pc(1) d(6) by simp
  with d p show ?thesis by (simp add: v1_ok_def v1_abs_def Let_def le_Suc_eq)
qed

lemma head_in_free:
  assumes "v1_ok n free blocks s" "fst (vp_head (v1_shared s)) \<noteq> 0"
  shows "fst (vp_head (v1_shared s)) \<in> set free"
  using linked_head [OF v1_okD(3) [OF assms(1)] assms(2)] by auto

lemma slots_nonzero:
  assumes "v1_ok n free blocks s" "p \<in> set free \<union> v1_held s \<union> (\<Union>i. pending (v1_pcs s i))"
  shows "p \<noteq> 0"
  using v1_okD(9) [OF assms] by (auto simp: slot_in_def)

lemma blocks_ok_write:
  "blocks_ok pl blocks \<Longrightarrow> slot_in pl blocks p \<Longrightarrow> blocks_ok (pl\<lparr>vp_next := (vp_next pl)(p := v)\<rparr>) blocks"
  using slot_not_block [of pl blocks p] by (simp add: blocks_ok_def)

lemma slot_in_cong [simp]:
  "slot_in (pl\<lparr>vp_next := f\<rparr>) blocks p = slot_in pl blocks p"
  "slot_in (pl\<lparr>vp_head := h\<rparr>) blocks p = slot_in pl blocks p"
  "blocks_ok (pl\<lparr>vp_head := h\<rparr>) blocks = blocks_ok pl blocks"
  by (simp_all add: slot_in_def blocks_ok_def)

lemma v1_ok_write:
  assumes ok: "v1_ok n free blocks s" and p: "p \<notin> set free" "slot_in (v1_shared s) blocks p"
    and other: "\<And>j. p \<notin> pending (v1_pcs s j)"
  shows "v1_ok n free blocks (s\<lparr>v1_shared := (v1_shared s)\<lparr>vp_next := (vp_next (v1_shared s))(p := v)\<rparr>\<rparr>)"
proof -
  note d = v1_okD [OF ok]
  have "p \<noteq> 0" using p(2) by (auto simp: slot_in_def)
  then have h: "p \<noteq> fst (vp_head (v1_shared s))" using head_in_free [OF ok] p(1) by auto
  from d p blocks_ok_write [OF d(1) p(2)] pc_ok_write [OF d(6) other h]
  show ?thesis by (simp add: v1_ok_def Let_def)
qed

lemma v1_ok_store:
  assumes ok: "v1_ok n free blocks s" and pc: "v1_pcs s i = Push_Store p old"
  defines "t \<equiv> s\<lparr>v1_shared := (v1_shared s)\<lparr>vp_next := (vp_next (v1_shared s))(p := fst old)\<rparr>,
    v1_pcs := (v1_pcs s)(i := Push_Cas p old)\<rparr>"
  shows "v1_ok (Suc n) free blocks t \<and> v1_abs free t = v1_abs free s"
proof -
  note d = v1_okD [OF ok]
  let ?pl = "(v1_shared s)\<lparr>vp_next := (vp_next (v1_shared s))(p := fst old)\<rparr>"
  have p: "p \<in> pending (v1_pcs s i)" by (simp add: pc)
  then have free: "p \<notin> set free" "slot_in (v1_shared s) blocks p" "p \<noteq> 0"
    using d(7) [of i] d(9) [of p] slots_nonzero [OF ok, of p] by blast+
  then have h: "p \<noteq> fst (vp_head (v1_shared s))" using head_in_free [OF ok] by auto
  have pcs: "pc_ok ?pl (((v1_pcs s)(i := Push_Cas p old)) j)" for j
  proof (cases "j = i")
    case True
    then show ?thesis using d(6) [of i] by (simp add: pc snapshot_def)
  next
    case False
    with p d(8) [of j i] have "p \<notin> pending (v1_pcs s j)" by auto
    with False pc_ok_write [OF d(6) _ h] show ?thesis by simp
  qed
  have pend: "pending (((v1_pcs s)(i := Push_Cas p old)) j) = pending (v1_pcs s j)" for j by (simp add: pc)
  from d free pcs pend blocks_ok_write [OF d(1) free(2)]
  show ?thesis by (simp add: t_def v1_ok_def v1_abs_def Let_def le_Suc_eq)
qed

lemma v1_ok_push:
  assumes ok: "v1_ok n free blocks s" and pc: "v1_pcs s i = Push_Cas p (vp_head (v1_shared s))"
  defines "t \<equiv> s\<lparr>v1_shared := (v1_shared s)\<lparr>vp_head := (p, Suc (snd (vp_head (v1_shared s))))\<rparr>, v1_pcs := (v1_pcs s)(i := Ready)\<rparr>"
  shows "v1_ok (Suc n) (p # free) blocks t \<and> stack_spec (v1_abs free s) Silent (v1_abs (p # free) t)"
proof -
  note d = v1_okD [OF ok]
  let ?pl = "(v1_shared s)\<lparr>vp_head := (p, Suc (snd (vp_head (v1_shared s))))\<rparr>"
  have p: "p \<in> pending (v1_pcs s i)" by (simp add: pc)
  then have new: "p \<notin> set free" "p \<notin> v1_held s" "p \<noteq> 0"
    using d(7) [of i] slots_nonzero [OF ok, of p] by blast+
  have link: "vp_next (v1_shared s) p = fst (vp_head (v1_shared s))" using d(6) [of i] by (simp add: pc)
  have other: "p \<notin> pending (v1_pcs s j)" if "j \<noteq> i" for j using p d(8) [OF that] by auto
  have "v1_ok (Suc n) (p # free) blocks
      (s\<lparr>v1_shared := ?pl, v1_pcs := (v1_pcs s)(i := Ready), v1_held := v1_held s\<rparr>)"
  proof (rule v1_ok_step [OF ok])
    fix j assume j: "j \<noteq> i"
    show "pending (v1_pcs s j) \<inter> (set (p # free) \<union> v1_held s \<union> pending Ready) = {}"
      using d(7) [of j] other [OF j] by auto
  qed (use d(1-5) d(9) new link p pc_ok_head [OF d(6)] in auto)
  moreover have "(\<Union>j. pending (((v1_pcs s)(i := Ready)) j)) = (\<Union>j. pending (v1_pcs s j)) - {p}"
    unfolding pending_update(1) pending_update(2) [of "v1_pcs s" i] using other by (auto simp: pc)
  moreover have "p \<in> (\<Union>j. pending (v1_pcs s j))" using p by blast
  note spec_push [OF this, of free "v1_held s"]
  ultimately have "v1_ok (Suc n) (p # free) blocks t" "stack_spec (v1_abs free s) Silent (v1_abs (p # free) t)"
    by (simp_all add: v1_abs_def t_def)
  then show ?thesis ..
qed

lemma v1_ok_pop:
  assumes ok: "v1_ok n free blocks s" and pc: "v1_pcs s i = Pop_Cas (vp_head (v1_shared s)) link"
  defines "p \<equiv> fst (vp_head (v1_shared s))"
  defines "t \<equiv> s\<lparr>v1_shared := (v1_shared s)\<lparr>vp_head := (link, Suc (snd (vp_head (v1_shared s))))\<rparr>,
    v1_pcs := (v1_pcs s)(i := Ready), v1_held := insert p (v1_held s)\<rparr>"
  shows "v1_ok (Suc n) (tl free) blocks t \<and> stack_spec (v1_abs free s) (Took p) (v1_abs (tl free) t)"
proof -
  note d = v1_okD [OF ok]
  let ?pl = "(v1_shared s)\<lparr>vp_head := (link, Suc (snd (vp_head (v1_shared s))))\<rparr>"
  have ne: "p \<noteq> 0" and link: "link = vp_next (v1_shared s) p" using d(6) [of i] by (simp_all add: pc p_def)
  obtain F where F: "free = p # F" "linked (vp_next (v1_shared s)) link F"
    using linked_head [OF d(3)] ne link by (auto simp: p_def)
  have "v1_ok (Suc n) F blocks t"
    unfolding t_def
  proof (rule v1_ok_step [OF ok])
    fix j assume j: "j \<noteq> i"
    show "pending (v1_pcs s j) \<inter> (set F \<union> insert p (v1_held s) \<union> pending Ready) = {}"
      using d(7) [of j] F(1) by auto
  qed (use d(1-5) d(9) F pc_ok_head [OF d(6)] in auto)
  moreover have "(\<Union>j. pending (((v1_pcs s)(i := Ready)) j)) = (\<Union>j. pending (v1_pcs s j))"
    unfolding pending_update(1) pending_update(2) [of "v1_pcs s" i] by (simp add: pc)
  then have "stack_spec (v1_abs (p # F) s) (Took p) (v1_abs F t)"
    unfolding v1_abs_def t_def by (simp add: spec_pop)
  ultimately show ?thesis by (simp add: F(1))
qed

lemma v1_ok_give:
  assumes ok: "v1_ok n free blocks s" and pc: "v1_pcs s i = Ready" and p: "p \<in> v1_held s"
  defines "t \<equiv> s\<lparr>v1_pcs := (v1_pcs s)(i := Push_Load p), v1_held := v1_held s - {p}\<rparr>"
  shows "v1_ok (Suc n) free blocks t \<and> stack_spec (v1_abs free s) (Gave p) (v1_abs free t)"
proof -
  note d = v1_okD [OF ok]
  have "v1_ok (Suc n) free blocks
      (s\<lparr>v1_shared := v1_shared s, v1_pcs := (v1_pcs s)(i := Push_Load p), v1_held := v1_held s - {p}\<rparr>)"
  proof (rule v1_ok_step [OF ok])
    fix j assume j: "j \<noteq> i"
    show "pending (v1_pcs s j) \<inter> (set free \<union> (v1_held s - {p}) \<union> pending (Push_Load p)) = {}"
      using d(7) [of j] p by auto
  qed (use d(1-6) d(9) p in auto)
  moreover have "(\<Union>j. pending (((v1_pcs s)(i := Push_Load p)) j)) = insert p (\<Union>j. pending (v1_pcs s j))"
    unfolding pending_update(1) pending_update(2) [of "v1_pcs s" i] by (simp add: pc)
  then have "stack_spec (v1_abs free s) (Gave p) (v1_abs free t)"
    unfolding v1_abs_def t_def using p by (simp add: spec_give)
  ultimately show ?thesis by (simp add: t_def)
qed

text \<open>A slot carved from a block, fresh or not, is new.\<close>

definition carve_post :: "v1_pool \<Rightarrow> nat list \<Rightarrow> nat \<Rightarrow> v1_pool \<Rightarrow> nat list \<Rightarrow> bool" where
  "carve_post pl blocks p pl' blocks' \<longleftrightarrow>
     blocks_ok pl' blocks' \<and> slot_in pl' blocks' p \<and> \<not> slot_in pl blocks p
     \<and> (\<forall>q. slot_in pl blocks q \<longrightarrow> slot_in pl' blocks' q \<and> vp_next pl' q = vp_next pl q)
     \<and> vp_head pl' = vp_head pl"

lemma carve_current:
  assumes ok: "blocks_ok pl blocks" and cur: "cur_slot pl < last_slot pl"
  shows "carve_post pl blocks (cur_slot pl) (pl\<lparr>cur_slot := cur_slot pl + slot_bytes pl\<rparr>) blocks"
proof -
  let ?b = "first_block pl" and ?n = "slot_bytes pl" and ?B = "block_bytes pl"
  have n: "0 < ?n" "8 + 2 * ?n \<le> ?B" "linked (vp_next pl) ?b blocks"
    "if ?b = 0 then cur_slot pl = 0 \<and> last_slot pl = 0
     else cur_slot pl mod ?n = 0 \<and> ?b + 8 \<le> cur_slot pl \<and> last_slot pl = ?b + ?B - ?n + 1"
    using ok by (simp_all add: blocks_ok_def)
  then have b: "?b \<noteq> 0" using cur by (auto split: if_splits)
  with n cur have c: "cur_slot pl mod ?n = 0" "?b + 8 \<le> cur_slot pl" "cur_slot pl + ?n \<le> ?b + ?B"
    by auto
  have first: "?b \<in> set blocks" by (rule linked_mem [OF n(3) b])
  have old: "\<not> slot_in pl blocks (cur_slot pl)"
  proof
    assume "slot_in pl blocks (cur_slot pl)"
    then obtain c where cb: "c \<in> set blocks" "c + 8 \<le> cur_slot pl" "cur_slot pl + ?n \<le> c + ?B"
        "c = ?b \<Longrightarrow> cur_slot pl + ?n \<le> cur_slot pl"
      by (auto simp: slot_in_def)
    have "c \<noteq> ?b" using cb(4) n(1) by auto
    then have "c + ?B \<le> ?b \<or> ?b + ?B \<le> c" using ok cb(1) first unfolding blocks_ok_def by blast
    with cb(2,3) c n(1) show False by linarith
  qed
  have "blocks_ok (pl\<lparr>cur_slot := cur_slot pl + ?n\<rparr>) blocks" using ok b c by (simp add: blocks_ok_def)
  moreover have "slot_in (pl\<lparr>cur_slot := cur_slot pl + ?n\<rparr>) blocks (cur_slot pl)"
    using c first by (auto simp: slot_in_def)
  moreover have "slot_in (pl\<lparr>cur_slot := cur_slot pl + ?n\<rparr>) blocks q" if "slot_in pl blocks q" for q
    using that by (fastforce simp: slot_in_def)
  ultimately show ?thesis using old by (simp add: carve_post_def)
qed

lemma carve_new:
  assumes ok: "blocks_ok pl blocks" and new: "new_block_ok blocks (block_bytes pl) b"
    and pad: "pad = slot_bytes pl - (b + 8) mod slot_bytes pl"
  defines "pl' \<equiv> pl\<lparr>vp_next := (vp_next pl)(b := first_block pl), first_block := b,
    last_slot := b + block_bytes pl - slot_bytes pl + 1, cur_slot := b + 8 + pad + slot_bytes pl\<rparr>"
  shows "carve_post pl blocks (b + 8 + pad) pl' (b # blocks)"
proof -
  let ?n = "slot_bytes pl" and ?B = "block_bytes pl" and ?p = "b + 8 + pad"
  have n: "0 < ?n" "8 + 2 * ?n \<le> ?B" "linked (vp_next pl) (first_block pl) blocks"
    using ok by (simp_all add: blocks_ok_def)
  have b: "b \<noteq> 0" "\<And>c. c \<in> set blocks \<Longrightarrow> b + ?B \<le> c \<or> c + ?B \<le> b"
    using new by (auto simp: new_block_ok_def)
  have fresh: "b \<notin> set blocks" using b(2) [of b] n by auto
  have "(b + 8) mod ?n < ?n" using n(1) by simp
  moreover from this have "pad + (b + 8) mod ?n = ?n" using pad by simp
  with mult_div_mod_eq [of ?n "b + 8"] have "?p = ?n * ((b + 8) div ?n) + ?n" by linarith
  then have "?p = ?n * Suc ((b + 8) div ?n)" by simp
  then have "?p mod ?n = 0" by (simp only: mod_mult_self1_is_0)
  ultimately have p: "?p mod ?n = 0" "?p + ?n \<le> b + ?B" "pad \<le> ?n"
    using n(2) pad by simp_all
  have old: "\<not> slot_in pl blocks ?p"
  proof
    assume "slot_in pl blocks ?p"
    then obtain c where c: "c \<in> set blocks" "c + 8 \<le> ?p" "?p + ?n \<le> c + ?B" by (auto simp: slot_in_def)
    with b(2) [OF c(1)] p(2) n(1) show False by linarith
  qed
  have "blocks_ok pl' (b # blocks)"
    using ok b fresh p by (auto simp: blocks_ok_def pl'_def)
  moreover have "slot_in pl' (b # blocks) ?p" using p by (auto simp: slot_in_def pl'_def)
  moreover have "slot_in pl' (b # blocks) q" "q \<noteq> b" if q: "slot_in pl blocks q" for q
  proof -
    from q obtain c where c: "c \<in> set blocks" "c + 8 \<le> q" "q + ?n \<le> c + ?B" "q mod ?n = 0" by (auto simp: slot_in_def)
    with b(2) [OF c(1)] n(1) show "q \<noteq> b" by linarith
    from c fresh show "slot_in pl' (b # blocks) q" by (auto simp: slot_in_def pl'_def)
  qed
  ultimately show ?thesis using old by (simp add: carve_post_def pl'_def)
qed

lemma v1_carve_ok:
  assumes ok: "blocks_ok pl blocks" and new: "new_block_ok blocks (block_bytes pl) b"
    and carve: "v1_carve (Some b) pl = Inr (p, pl')"
  shows "\<exists>blocks'. carve_post pl blocks p pl' blocks'"
proof -
  have n: "0 < slot_bytes pl" "slot_bytes pl div 8 * 8 = slot_bytes pl"
    using ok by (simp_all add: blocks_ok_def)
  show ?thesis
  proof (cases "last_slot pl \<le> cur_slot pl")
    case True
    with carve n carve_new [OF ok new refl] show ?thesis
      by (auto simp: v1_carve_def allocate_new_block_def pad_pointer_def)
  next
    case False
    with carve n carve_current [OF ok] show ?thesis by (auto simp: v1_carve_def)
  qed
qed

lemma pc_ok_carved:
  assumes "pc_ok pl pc" "\<And>q. q \<in> pending pc \<Longrightarrow> vp_next pl' q = vp_next pl q"
    and "fst (vp_head pl) \<noteq> 0 \<Longrightarrow> vp_next pl' (fst (vp_head pl)) = vp_next pl (fst (vp_head pl))"
    and "vp_head pl' = vp_head pl"
  shows "pc_ok pl' pc"
  using assms by (cases pc) (auto simp: snapshot_def)

lemma v1_ok_carved:
  assumes ok: "v1_ok n free blocks s" and pc: "v1_pcs s i = Carve"
    and carve: "carve_post (v1_shared s) blocks p pl blocks'"
  defines "t \<equiv> s\<lparr>v1_shared := pl, v1_pcs := (v1_pcs s)(i := Ready), v1_held := insert p (v1_held s)\<rparr>"
  shows "v1_ok (Suc n) free blocks' t \<and> stack_spec (v1_abs free s) (Took p) (v1_abs free t)"
proof -
  note d = v1_okD [OF ok]
  let ?used = "set free \<union> v1_held s \<union> (\<Union>i. pending (v1_pcs s i))"
  have c: "blocks_ok pl blocks'" "slot_in pl blocks' p" "\<not> slot_in (v1_shared s) blocks p"
    "vp_head pl = vp_head (v1_shared s)"
    "\<And>q. q \<in> ?used \<Longrightarrow> slot_in pl blocks' q" "\<And>q. q \<in> ?used \<Longrightarrow> vp_next pl q = vp_next (v1_shared s) q"
    using carve d(9) by (auto simp: carve_post_def)
  have new: "p \<notin> ?used" using c(3) d(9) by blast
  have link: "linked (vp_next pl) (fst (vp_head pl)) free"
    using d(3) linked_cong [of free "vp_next pl" "vp_next (v1_shared s)"] c(4,6) by auto
  have pcs: "pc_ok pl (v1_pcs s j)" for j
    by (rule pc_ok_carved [OF d(6)]) (use c(4,6) head_in_free [OF ok] in blast)+
  have "v1_ok (Suc n) free blocks' t"
    unfolding t_def
  proof (rule v1_ok_step [OF ok])
    fix j assume j: "j \<noteq> i"
    show "pending (v1_pcs s j) \<inter> (set free \<union> insert p (v1_held s) \<union> pending Ready) = {}"
      using d(7) [of j] new by auto
  qed (use d(2,4,5) c new link pcs in auto)
  moreover have "(\<Union>j. pending (((v1_pcs s)(i := Ready)) j)) = (\<Union>j. pending (v1_pcs s j))"
    unfolding pending_update(1) pending_update(2) [of "v1_pcs s" i] by (simp add: pc)
  then have "stack_spec (v1_abs free s) (Took p) (v1_abs free t)"
    unfolding v1_abs_def t_def using new by (simp add: spec_new)
  ultimately show ?thesis ..
qed

lemma spec_idle_eq: "v1_abs free t = v1_abs free s \<Longrightarrow> stack_spec (v1_abs free s) Silent (v1_abs free t)"
  by (simp add: spec_idle)

lemma v1_access_ok:
  assumes ok: "v1_ok n free blocks s" and n: "Suc n < 2 ^ 64"
    and exec: "v1_exec spurious (v1_shared s) (v1_pcs s i) = Some (pl, pc, None)"
  defines "t \<equiv> s\<lparr>v1_shared := pl, v1_pcs := (v1_pcs s)(i := pc)\<rparr>"
  shows "\<exists>free'. v1_ok (Suc n) free' blocks t \<and> stack_spec (v1_abs free s) Silent (v1_abs free' t)"
proof -
  note d = v1_okD [OF ok]
  have local: ?thesis if "pl = v1_shared s" "pc_ok pl pc" "pending pc = pending (v1_pcs s i)"
  proof -
    have "t = s\<lparr>v1_pcs := (v1_pcs s)(i := pc)\<rparr>" using that(1) by (simp add: t_def)
    with v1_ok_local [OF ok, of pc i] that show ?thesis by (metis spec_idle_eq)
  qed
  have snap: "snapshot (v1_shared s) (vp_head (v1_shared s))" by (simp add: snapshot_def)
  have tag: "next_tag (vp_head (v1_shared s)) = Suc (snd (vp_head (v1_shared s)))"
    using d(2) n by (simp add: next_tag_def)
  show ?thesis
  proof (cases "v1_pcs s i")
    case (Pop_Read old)
    with exec d(6) [of i] show ?thesis by (intro local) auto
  next
    case (Pop_Cas old link)
    with exec show ?thesis by (intro local) (auto split: option.splits)
  next
    case (Push_Store p old)
    with exec v1_ok_store [OF ok Push_Store] show ?thesis
      by (intro exI [of _ free]) (auto simp: t_def intro: spec_idle_eq)
  next
    case (Push_Cas p old)
    show ?thesis
    proof (cases "v1_cas spurious (v1_shared s) old (p, next_tag old)")
      case None
      with exec Push_Cas snap show ?thesis by (intro local) auto
    next
      case (Some pl')
      then have "old = vp_head (v1_shared s)" by (auto simp: v1_cas_def split: if_splits)
      with Some Push_Cas exec v1_ok_push [OF ok, of i p] tag show ?thesis
        by (auto simp: t_def v1_cas_def split: if_splits)
    qed
  qed (use exec snap in \<open>auto intro!: local\<close>)
qed

lemma v1_popped_ok:
  assumes ok: "v1_ok n free blocks s" and n: "Suc n < 2 ^ 64"
    and exec: "v1_exec spurious (v1_shared s) (v1_pcs s i) = Some (pl, pc, Some p)"
  defines "t \<equiv> s\<lparr>v1_shared := pl, v1_pcs := (v1_pcs s)(i := pc), v1_held := insert p (v1_held s)\<rparr>"
  shows "\<exists>free'. v1_ok (Suc n) free' blocks t \<and> stack_spec (v1_abs free s) (Took p) (v1_abs free' t)"
proof (cases "v1_pcs s i")
  case (Pop_Cas old link)
  have tag: "next_tag (vp_head (v1_shared s)) = Suc (snd (vp_head (v1_shared s)))"
    using v1_okD(2) [OF ok] n by (simp add: next_tag_def)
  from Pop_Cas exec have old: "old = vp_head (v1_shared s)" "p = fst old" "pc = Ready"
    "pl = (v1_shared s)\<lparr>vp_head := (link, next_tag old)\<rparr>"
    by (auto simp: v1_cas_def split: option.splits if_splits)
  with v1_ok_pop [OF ok, of i link] Pop_Cas tag show ?thesis by (auto simp: t_def)
qed (use exec in \<open>auto split: option.splits\<close>)

lemma v1_step_ok:
  assumes ok: "v1_ok n free blocks s" and n: "Suc n < 2 ^ 64" and step: "v1_step s e t"
  shows "\<exists>free' blocks'. v1_ok (Suc n) free' blocks' t \<and> stack_spec (v1_abs free s) e (v1_abs free' t)"
  using step
proof cases
  case (call_allocate i)
  with v1_ok_local [OF ok, of Pop_Load i] show ?thesis by (metis pc_ok.simps(6) pending.simps(4,5) spec_idle_eq)
next
  case (call_deallocate i p)
  with v1_ok_give [OF ok, of i p] show ?thesis by blast
next
  case (access spurious i pl pc)
  with v1_access_ok [OF ok n, of spurious i pl pc] show ?thesis by blast
next
  case (popped spurious i pl pc p)
  with v1_popped_ok [OF ok n, of spurious i pl pc p] show ?thesis by blast
next
  case (carved i bs b p pl)
  have "linked (vp_next (v1_shared s)) (first_block (v1_shared s)) blocks"
    using v1_okD(1) [OF ok] by (simp add: blocks_ok_def)
  with carved have "new_block_ok blocks (block_bytes (v1_shared s)) b" using linked_unique by blast
  from v1_carve_ok [OF v1_okD(1) [OF ok] this carved(6)] obtain blocks' where
    "carve_post (v1_shared s) blocks p pl blocks'" by blast
  from v1_ok_carved [OF ok carved(3) this] carved show ?thesis by blast
next
  case (out_of_memory i)
  with v1_ok_local [OF ok, of Ready i] show ?thesis by (metis pc_ok.simps(5) pending.simps(4,8) spec_idle_eq)
next
  case (caller_writes p v)
  note d = v1_okD [OF ok]
  have "v1_ok n free blocks t"
    unfolding caller_writes(2)
    by (rule v1_ok_write [OF ok]) (use caller_writes(3) d(5) d(7) d(9) in blast)+
  moreover from this have "v1_ok (Suc n) free blocks t"
    using v1_ok_local [of n free blocks t "v1_pcs t i" i for i] v1_okD(6) by fastforce
  moreover have "v1_abs free t = v1_abs free s" by (simp add: v1_abs_def caller_writes(2))
  ultimately show ?thesis using caller_writes(1) spec_idle_eq [of free t s] by blast
qed

section \<open>Runs\<close>

definition v1_sizes_ok :: "nat \<Rightarrow> nat \<Rightarrow> bool" where
  "v1_sizes_ok slot block \<longleftrightarrow> 0 < slot \<and> 8 dvd slot \<and> 8 + 2 * slot \<le> block"

inductive stack_run ::
  "nat list \<times> nat set \<times> nat set \<Rightarrow> v1_event list \<Rightarrow> nat list \<times> nat set \<times> nat set \<Rightarrow> bool"
where
  stack_run_Nil: "stack_run x [] x"
| stack_run_snoc: "stack_run x es y \<Longrightarrow> stack_spec y e z \<Longrightarrow> stack_run x (es @ [e]) z"

lemma v1_start_ok: "v1_sizes_ok slot block \<Longrightarrow> v1_ok 0 [] [] (v1_start slot block)"
  by (simp add: v1_sizes_ok_def v1_start_def v1_ok_def blocks_ok_def v1_init_def v1_new_def)

lemma v1_step_sizes:
  assumes "v1_step s e t"
  shows "slot_bytes (v1_shared t) = slot_bytes (v1_shared s) \<and> block_bytes (v1_shared t) = block_bytes (v1_shared s)"
  using assms
proof cases
  case (access spurious i pl pc)
  from access(3) have "slot_bytes pl = slot_bytes (v1_shared s) \<and> block_bytes pl = block_bytes (v1_shared s)"
    by (cases "v1_pcs s i") (auto simp: v1_cas_def split: option.splits if_splits)
  with access show ?thesis by simp
next
  case (popped spurious i pl pc p)
  from popped(3) have "slot_bytes pl = slot_bytes (v1_shared s) \<and> block_bytes pl = block_bytes (v1_shared s)"
    by (cases "v1_pcs s i") (auto simp: v1_cas_def split: option.splits if_splits)
  with popped show ?thesis by simp
next
  case (carved i bs b p pl)
  from carved(6) have "slot_bytes pl = slot_bytes (v1_shared s) \<and> block_bytes pl = block_bytes (v1_shared s)"
    by (auto simp: v1_carve_def allocate_new_block_def pad_pointer_def result_simps split: if_splits)
  with carved show ?thesis by simp
qed simp_all

lemma v1_run_ok:
  assumes sizes: "v1_sizes_ok slot block" and run: "v1_run (v1_start slot block) es s" and n: "length es < 2 ^ 64"
  shows "(\<exists>free blocks. v1_ok (length es) free blocks s \<and> stack_run ([], {}, {}) es (v1_abs free s))
    \<and> slot_bytes (v1_shared s) = slot \<and> block_bytes (v1_shared s) = block"
  using run n
proof (induction "v1_start slot block" es s rule: v1_run.induct)
  case v1_run_Nil
  have "v1_abs [] (v1_start slot block) = ([], {}, {})" by (simp add: v1_abs_def v1_start_def)
  with v1_start_ok [OF sizes] stack_run_Nil [of "([], {}, {})"] show ?case
    by (auto simp: v1_start_def v1_init_def v1_new_def intro!: exI [of _ "[]"])
next
  case (v1_run_snoc es s e t)
  then obtain free blocks where ok: "v1_ok (length es) free blocks s" "stack_run ([], {}, {}) es (v1_abs free s)"
    "slot_bytes (v1_shared s) = slot" "block_bytes (v1_shared s) = block" by auto
  have "Suc (length es) < 2 ^ 64" using v1_run_snoc.prems by simp
  from v1_step_ok [OF ok(1) this v1_run_snoc.hyps(3)] obtain free' blocks' where
    "v1_ok (Suc (length es)) free' blocks' t" "stack_spec (v1_abs free s) e (v1_abs free' t)" by blast
  moreover from stack_run_snoc [OF ok(2) this(2)] have "stack_run ([], {}, {}) (es @ [e]) (v1_abs free' t)" .
  ultimately show ?case using ok(3,4) v1_step_sizes [OF v1_run_snoc.hyps(3)]
    by (simp only: length_append_singleton) blast
qed

text \<open>A thread that asks for a slot of an empty pool and carves it from a block at 4096.\<close>

definition first_carve :: "v1_state" where
  "first_carve = (v1_start 8 4096)\<lparr>v1_pcs := (\<lambda>_. Ready)(0 := Carve)\<rparr>"

definition first_taken :: "v1_state" where
  "first_taken = first_carve\<lparr>v1_shared := (v1_shared first_carve)\<lparr>vp_next := (\<lambda>_. 0)(4096 := 0),
     first_block := 4096, last_slot := 8185, cur_slot := 4120\<rparr>, v1_pcs := (\<lambda>_. Ready)(0 := Ready),
     v1_held := {4112}\<rparr>"

lemma first_carve_run: "v1_run (v1_start 8 4096) [Silent, Silent] first_carve"
proof -
  let ?s = "(v1_start 8 4096)\<lparr>v1_pcs := (\<lambda>_. Ready)(0 := Pop_Load)\<rparr>"
  have "v1_step (v1_start 8 4096) Silent ?s"
    using call_allocate [of "v1_start 8 4096" 0] by (simp add: v1_start_def)
  moreover have "v1_step ?s Silent first_carve"
    using access [of False ?s 0 "v1_shared ?s" Carve]
    by (simp add: v1_start_def first_carve_def v1_init_def v1_new_def pop_test_def)
  ultimately show ?thesis
    using v1_run_snoc [OF v1_run_snoc [OF v1_run_Nil]] by fastforce
qed

lemma first_taken_step: "v1_step first_carve (Took 4112) first_taken"
proof -
  have "v1_carve (Some 4096) (v1_shared first_carve) = Inr (4112, v1_shared first_taken)"
    by (simp add: first_carve_def first_taken_def v1_start_def v1_init_def v1_new_def v1_carve_def
        allocate_new_block_def pad_pointer_def)
  from carved [OF _ _ _ this, of 0 "[]"] show ?thesis
    by (simp add: first_carve_def first_taken_def v1_start_def v1_init_def v1_new_def new_block_ok_def)
qed

lemma first_sizes: "v1_sizes_ok 8 4096"
  by (simp add: v1_sizes_ok_def)

text \<open>
  C25: the lock-free pool behaves as a stack. Every run of any number of threads, with every
  interleaving of their loads, stores and compare-and-swaps, with spurious failures and with
  callers overwriting the memory of the slots they hold, is a run of the abstract pool: a slot
  handed out is the top of the stack of free slots or a new one, a slot given back lands on the
  stack once, and the list linked from the head is that stack. The runs are shorter than
  \<open>2 ^ 64\<close> steps, after which the tag could repeat.
\<close>

theorem v1_refines_stack:
  assumes "v1_sizes_ok slot block" "v1_run (v1_start slot block) es s" "length es < 2 ^ 64"
  shows "\<exists>free. linked (vp_next (v1_shared s)) (fst (vp_head (v1_shared s))) free \<and>
    stack_run ([], {}, {}) es (free, \<Union>i. pending (v1_pcs s i), v1_held s)"
proof -
  obtain free blocks where ok: "v1_ok (length es) free blocks s" "stack_run ([], {}, {}) es (v1_abs free s)"
    using v1_run_ok [OF assms] by blast
  from v1_okD(3) [OF ok(1)] ok(2) [unfolded v1_abs_def] show ?thesis by blast
qed

theorem v1_refines_stack_witness:
  "\<exists>free. linked (vp_next (v1_shared first_taken)) (fst (vp_head (v1_shared first_taken))) free \<and>
    stack_run ([], {}, {}) [Silent, Silent, Took 4112] (free, \<Union>i. pending (v1_pcs first_taken i), v1_held first_taken)"
  using v1_refines_stack [OF first_sizes, of "[Silent, Silent, Took 4112]" first_taken]
    v1_run_snoc [OF first_carve_run first_taken_step] by simp

text \<open>
  C30: a slot is held by one caller at a time. Whatever the threads have done, a slot handed out is
  held by nobody, is a multiple of the slot size, lies inside a block obtained from the system
  behind the block's link, and shares no byte with any slot held.
\<close>

theorem v1_slot_exclusive:
  assumes sizes: "v1_sizes_ok slot block" and run: "v1_run (v1_start slot block) es s"
    and n: "Suc (length es) < 2 ^ 64" and step: "v1_step s (Took p) t"
  shows "p \<notin> v1_held s \<and> p mod slot = 0 \<and> (\<forall>q \<in> v1_held s. p + slot \<le> q \<or> q + slot \<le> p)
    \<and> (\<exists>blocks. linked (vp_next (v1_shared t)) (first_block (v1_shared t)) blocks \<and>
         (\<exists>b \<in> set blocks. b + 8 \<le> p \<and> p + slot \<le> b + block))"
proof -
  obtain free blocks where ok: "v1_ok (length es) free blocks s"
    "slot_bytes (v1_shared s) = slot" "block_bytes (v1_shared s) = block"
    using v1_run_ok [OF sizes run] n by auto
  from v1_step_ok [OF ok(1) n step] obtain free' blocks' where
    ok': "v1_ok (Suc (length es)) free' blocks' t" and spec: "stack_spec (v1_abs free s) (Took p) (v1_abs free' t)"
    by blast
  note d = v1_okD [OF ok'] and sz = v1_step_sizes [OF step]
  from spec v1_okD(5) [OF ok(1)] have new: "p \<notin> v1_held s" "v1_held t = insert p (v1_held s)"
    by (auto simp: v1_abs_def elim!: stack_spec.cases)
  then have slots: "slot_in (v1_shared t) blocks' q" if "q \<in> insert p (v1_held s)" for q
    using d(9) that by auto
  have "p + slot \<le> q \<or> q + slot \<le> p" if "q \<in> v1_held s" for q
    using slots_apart [OF d(1) slots slots, of p q] that new ok(2) sz by auto
  moreover have "p mod slot = 0" "\<exists>b \<in> set blocks'. b + 8 \<le> p \<and> p + slot \<le> b + block"
    using slots [of p] ok(2,3) sz by (auto simp: slot_in_def)
  moreover have "linked (vp_next (v1_shared t)) (first_block (v1_shared t)) blocks'"
    using d(1) by (simp add: blocks_ok_def)
  ultimately show ?thesis using new(1) by blast
qed

theorem v1_slot_exclusive_witness:
  "\<exists>blocks. linked (vp_next (v1_shared first_taken)) (first_block (v1_shared first_taken)) blocks
     \<and> (\<exists>b \<in> set blocks. b + 8 \<le> 4112 \<and> 4112 + 8 \<le> b + 4096)"
  using v1_slot_exclusive [OF first_sizes first_carve_run _ first_taken_step] by simp

text \<open>The destructor deletes every block of the pool, each once.\<close>

lemma v1_destroy_linked: "linked link a blocks \<Longrightarrow> v1_destroy link a = Some blocks"
  by (induction blocks arbitrary: a) (simp_all add: v1_destroy.simps)

lemma v1_destroy_all:
  assumes "v1_sizes_ok slot block" "v1_run (v1_start slot block) es s" "length es < 2 ^ 64"
  shows "\<exists>blocks. v1_destroy (vp_next (v1_shared s)) (first_block (v1_shared s)) = Some blocks \<and> distinct blocks
    \<and> (\<forall>p \<in> v1_held s. \<exists>b \<in> set blocks. b + 8 \<le> p \<and> p + slot \<le> b + block)"
proof -
  obtain free blocks where ok: "v1_ok (length es) free blocks s"
    "slot_bytes (v1_shared s) = slot" "block_bytes (v1_shared s) = block"
    using v1_run_ok [OF assms] by auto
  have l: "linked (vp_next (v1_shared s)) (first_block (v1_shared s)) blocks"
    using v1_okD(1) [OF ok(1)] by (simp add: blocks_ok_def)
  have "\<exists>b \<in> set blocks. b + 8 \<le> p \<and> p + slot \<le> b + block" if "p \<in> v1_held s" for p
    using v1_okD(9) [OF ok(1), of p] that ok(2,3) by (auto simp: slot_in_def)
  with v1_destroy_linked [OF l] linked_distinct [OF l] show ?thesis by blast
qed

text \<open>
  Every size the buckets serve goes to the pool with the smallest slots it fits in, and is
  returned to the same pool.
\<close>

lemma use_memory_best_fit:
  assumes "0 < bytes" "bytes \<le> 512" "p \<noteq> 0"
  shows "\<exists>i < length bucket_pools. use_memory bytes = Pool_At i \<and> free_memory p bytes = Pool_At i
    \<and> bytes \<le> slot_bytes (bucket_pools ! i) \<and> slot_bytes (bucket_pools ! i) < bytes + 8
    \<and> v1_sizes_ok (slot_bytes (bucket_pools ! i)) (block_bytes (bucket_pools ! i))"
proof -
  let ?i = "(bytes + 7) div 8 - 1"
  obtain i where i: "(bytes + 7) div 8 = Suc i" using assms(1) by (cases "(bytes + 7) div 8") auto
  with div_mult_mod_eq [of "bytes + 7" 8] have "bytes + 7 = Suc i * 8 + (bytes + 7) mod 8" by simp
  moreover have "(bytes + 7) mod 8 < 8" by simp
  ultimately have "8 * Suc i \<le> bytes + 7" "bytes + 7 < 8 * Suc i + 8" by simp_all
  with i assms have r: "8 * ?i < bytes" "bytes \<le> 8 * (?i + 1)" "?i < 64" by simp_all
  have "wsub (wadd bytes 7 div 8) 1 = ?i"
    using assms by (simp add: wadd_exact wsub_exact)
  with r assms show ?thesis
    by (intro exI [of _ ?i]) (simp add: use_memory_def free_memory_def max_slot_def slot_base_def bucket_pools_def
        pool_num_def v1_init_def v1_new_def v1_sizes_ok_def)
qed

end
