(* ===== verification/Kama_Objects.thy ===== *)
theory Kama_Objects
  imports Kama_System Lock_Free_Pool
begin

text \<open>
  Objects in pool memory: \<open>newElement\<close> and \<open>deleteElement\<close> of the allocator
  (vendor_memorypool/v3/include/kama/MemoryPool.h) and of its first version
  (v1/include/MemoryPool.h). A constructor is any function that may use the allocator and the
  program's state and returns or throws; a destructor does not throw. A type is its size and
  alignment.
\<close>

section \<open>The calls\<close>

type_synonym ('o, 'w) constructor = "nat \<Rightarrow> 'o kama \<times> 'w \<Rightarrow> unit result \<times> 'o kama \<times> 'w"
type_synonym ('o, 'w) destructor = "nat \<Rightarrow> 'o kama \<times> 'w \<Rightarrow> 'o kama \<times> 'w"

definition new_element ::
  "'o platform \<Rightarrow> nat \<Rightarrow> nat \<Rightarrow> nat \<Rightarrow> ('o, 'w) constructor \<Rightarrow> 'o kama \<Rightarrow> 'w \<Rightarrow> nat option result \<times> 'o kama \<times> 'w"
where
  "new_element pl t bytes align ctor st w =
     (case (if align \<le> k_alignment then kama_allocate pl t bytes st else kama_allocate_aligned pl t bytes align st) of
        (None, st1) \<Rightarrow> (Inr None, st1, w)
      | (Some p, st1) \<Rightarrow>
          (case ctor p (st1, w) of
             (Inr _, st2, w2) \<Rightarrow> (Inr (Some p), st2, w2)
           | (Inl e, st2, w2) \<Rightarrow> (Inl e, kama_deallocate pl t (Some p) st2, w2)))"

definition delete_element ::
  "'o platform \<Rightarrow> nat \<Rightarrow> ('o, 'w) destructor \<Rightarrow> nat option \<Rightarrow> 'o kama \<Rightarrow> 'w \<Rightarrow> 'o kama \<times> 'w" where
  "delete_element pl t dtor ptr st w =
     (case ptr of
        None \<Rightarrow> (st, w)
      | Some p \<Rightarrow> (case dtor p (st, w) of (st1, w1) \<Rightarrow> (kama_deallocate pl t (Some p) st1, w1)))"

text \<open>
  The first version: the memory comes from the bucket of the size, a pool or \<open>operator new\<close>, and an
  exception of the constructor passes through.
\<close>

definition v1_use ::
  "(nat \<Rightarrow> 's \<Rightarrow> nat result \<times> 's) \<Rightarrow> (nat \<Rightarrow> 's \<Rightarrow> nat result \<times> 's) \<Rightarrow> nat \<Rightarrow> 's \<Rightarrow> nat result \<times> 's" where
  "v1_use pool os_new bytes s =
     (case use_memory bytes of
        Null_Pointer \<Rightarrow> (Inr 0, s)
      | Operator_New \<Rightarrow> os_new bytes s
      | Pool_At i \<Rightarrow> pool i s)"

definition v1_free ::
  "(nat \<Rightarrow> nat \<Rightarrow> 's \<Rightarrow> 's) \<Rightarrow> (nat \<Rightarrow> 's \<Rightarrow> 's) \<Rightarrow> nat \<Rightarrow> nat \<Rightarrow> 's \<Rightarrow> 's" where
  "v1_free pool os_delete p bytes s =
     (case free_memory p bytes of
        Null_Pointer \<Rightarrow> s
      | Operator_New \<Rightarrow> os_delete p s
      | Pool_At i \<Rightarrow> pool i p s)"

definition v1_new_element ::
  "(nat \<Rightarrow> 's \<Rightarrow> nat result \<times> 's) \<Rightarrow> nat \<Rightarrow> (nat \<Rightarrow> 's \<Rightarrow> unit result \<times> 's) \<Rightarrow> 's \<Rightarrow> nat result \<times> 's" where
  "v1_new_element use_mem bytes ctor s =
     (case use_mem bytes s of
        (Inl e, s1) \<Rightarrow> (Inl e, s1)
      | (Inr p, s1) \<Rightarrow>
          if p = 0 then (Inr p, s1)
          else (case ctor p s1 of (Inl e, s2) \<Rightarrow> (Inl e, s2) | (Inr _, s2) \<Rightarrow> (Inr p, s2)))"

definition v1_delete_element ::
  "(nat \<Rightarrow> nat \<Rightarrow> 's \<Rightarrow> 's) \<Rightarrow> nat \<Rightarrow> (nat \<Rightarrow> 's \<Rightarrow> 's) \<Rightarrow> nat \<Rightarrow> 's \<Rightarrow> 's" where
  "v1_delete_element free_mem bytes dtor p s = (if p = 0 then s else free_mem p bytes (dtor p s))"

section \<open>Well-behaved types\<close>

text \<open>
  What a type's constructor and destructor do with the allocator: \<open>own p h\<close> is what is held once an
  object is built at \<open>p\<close> with \<open>h\<close> held before. A constructor that throws has given back what it took.
\<close>

definition constructs ::
  "'o platform \<Rightarrow> (nat \<Rightarrow> (nat \<rightharpoonup> nat) \<Rightarrow> nat \<rightharpoonup> nat) \<Rightarrow> ('o, 'w) constructor \<Rightarrow> bool" where
  "constructs pl own ctor \<longleftrightarrow>
     (\<forall>p h st w r st' w'. ctor p (st, w) = (r, st', w')
        \<longrightarrow> (kama_step pl)\<^sup>*\<^sup>* (st, h) (st', case r of Inl _ \<Rightarrow> h | Inr _ \<Rightarrow> own p h))"

definition destroys ::
  "'o platform \<Rightarrow> (nat \<Rightarrow> (nat \<rightharpoonup> nat) \<Rightarrow> nat \<rightharpoonup> nat) \<Rightarrow> ('o, 'w) destructor \<Rightarrow> bool" where
  "destroys pl own dtor \<longleftrightarrow>
     (\<forall>p h st w st' w'. dtor p (st, w) = (st', w') \<longrightarrow> (kama_step pl)\<^sup>*\<^sup>* (st, own p h) (st', h))"

text \<open>The memory an element gets, as a step of the allocator.\<close>

lemma element_memory:
  assumes "(if 2 ^ a \<le> k_alignment then kama_allocate pl t n st else kama_allocate_aligned pl t n (2 ^ a) st) = (r, st')"
  shows "kama_step pl (st, h) (st', case r of None \<Rightarrow> h | Some p \<Rightarrow> h(p \<mapsto> aligned_bytes n (2 ^ a)))"
proof (cases "2 ^ a \<le> k_alignment")
  case True
  then have "aligned_bytes n (2 ^ a) = n" by (simp add: aligned_bytes_def)
  with True assms show ?thesis by (auto split: option.splits intro: step_alloc step_alloc_fail)
next
  case False
  with assms show ?thesis by (auto split: option.splits intro: step_aligned step_aligned_fail)
qed

lemma element_place:
  assumes v: "kama_valid pl mapped (st, h)" and pl: "platform_ok pl mapped"
    and r: "(if 2 ^ a \<le> k_alignment then kama_allocate pl t n st else kama_allocate_aligned pl t n (2 ^ a) st) = (Some p, st')"
    and a: "a \<le> 18" "2 ^ a \<le> page_size pl" and n: "0 < n"
  shows "p \<notin> dom h" "2 ^ a dvd p"
proof -
  show "p \<notin> dom h"
    using r kama_allocate_valid(2) [OF v pl _ refl] kama_allocate_aligned_valid(2) [OF v pl _ refl] by (metis (full_types))
  show "2 ^ a dvd p"
  proof (cases "2 ^ a \<le> k_alignment")
    case False
    with r have "kama_allocate_aligned pl t n (2 ^ a) st = (Some p, st')" by simp
    from valid_aligned [OF v pl this a n] show ?thesis .
  next
    case True
    with r have al: "kama_allocate pl t n st = (Some p, st')" by simp
    from kama_allocate_valid(2) [OF v pl al refl] have v': "kama_valid pl mapped (st', h(p \<mapsto> n))" by blast
    obtain out where c: "central_ok pl mapped out (central st')" using valid_parts(1) [OF v'] ..
    have f: "fits pl (st_used st') p (norm_bytes n)" using valid_parts(3) [OF v', of p] by simp
    have "(2 :: nat) ^ a \<le> 2 ^ 3" using True by simp
    then have "a \<le> 3" by (rule power_le_imp_le_exp [rotated]) simp
    moreover have "2 ^ a dvd page_size pl"
      using platform_pow [OF pl] a(2) by (metis le_imp_power_dvd power_le_imp_le_exp one_less_numeral_iff semiring_norm(76))
    ultimately show ?thesis by (intro fits_aligned [OF c f norm_bytes_pos(1) a(1)]) simp_all
  qed
qed

section \<open>Lifetimes\<close>

lemma delete_element_returns:
  assumes "(kama_step pl)\<^sup>*\<^sup>* s (st, own p (h(p \<mapsto> m)))" "p \<notin> dom h" "destroys pl own dtor"
  shows "(kama_step pl)\<^sup>*\<^sup>* s (fst (delete_element pl t dtor (Some p) st w), h)"
proof -
  obtain st1 w1 where d: "dtor p (st, w) = (st1, w1)" by fastforce
  with assms(3) have "(kama_step pl)\<^sup>*\<^sup>* (st, own p (h(p \<mapsto> m))) (st1, h(p \<mapsto> m))" unfolding destroys_def by blast
  moreover have "kama_step pl (st1, h(p \<mapsto> m)) (kama_deallocate pl t (Some p) st1, (h(p \<mapsto> m))(p := None))"
    by (rule step_free) simp
  moreover have "(h(p \<mapsto> m))(p := None) = h" using assms(2) by (auto simp: fun_eq_iff)
  moreover have "fst (delete_element pl t dtor (Some p) st w) = kama_deallocate pl t (Some p) st1"
    by (simp add: delete_element_def d)
  ultimately show ?thesis using assms(1) by (metis rtranclp.rtrancl_into_rtrancl rtranclp_trans)
qed

text \<open>
  C31: an element never leaks. In every reachable state of the allocator, making an element of a
  well-behaved type throws or gives null with exactly the memory held that was held before, or it
  gives an address not held before, a multiple of the alignment, and deleting the element, on any
  thread, leads back to the memory held before.
\<close>

theorem new_element_never_leaks:
  assumes pl: "platform_ok pl mapped" and start: "kama_start s" and reach: "(kama_step pl)\<^sup>*\<^sup>* s (st, h)"
    and type: "0 < n" "a \<le> 18" "2 ^ a \<le> page_size pl" "constructs pl own ctor" "destroys pl own dtor"
    and new: "new_element pl t n (2 ^ a) ctor st w = (r, st', w')"
  shows "case r of
      Inl e \<Rightarrow> (kama_step pl)\<^sup>*\<^sup>* s (st', h)
    | Inr None \<Rightarrow> (kama_step pl)\<^sup>*\<^sup>* s (st', h)
    | Inr (Some p) \<Rightarrow> p \<notin> dom h \<and> 2 ^ a dvd p \<and> (kama_step pl)\<^sup>*\<^sup>* s (st', own p (h(p \<mapsto> aligned_bytes n (2 ^ a))))
        \<and> (kama_step pl)\<^sup>*\<^sup>* s (fst (delete_element pl u dtor (Some p) st' w''), h)"
proof -
  let ?m = "aligned_bytes n (2 ^ a)"
  obtain q st1 where q: "(if 2 ^ a \<le> k_alignment then kama_allocate pl t n st
      else kama_allocate_aligned pl t n (2 ^ a) st) = (q, st1)" by fastforce
  have mem: "(kama_step pl)\<^sup>*\<^sup>* s (st1, case q of None \<Rightarrow> h | Some p \<Rightarrow> h(p \<mapsto> ?m))"
    using reach element_memory [OF q] by (rule rtranclp.rtrancl_into_rtrancl)
  show ?thesis
  proof (cases q)
    case None
    with new q mem show ?thesis by (auto simp: new_element_def)
  next
    case (Some p)
    note place = element_place [OF reachable_valid [OF pl start reach] pl q [unfolded Some] type(2,3,1)]
    have m: "(kama_step pl)\<^sup>*\<^sup>* s (st1, h(p \<mapsto> ?m))" using mem Some by simp
    obtain x st2 w2 where c: "ctor p (st1, w) = (x, st2, w2)" by (metis prod.exhaust)
    from type(4) c have run: "(kama_step pl)\<^sup>*\<^sup>* s (st2, case x of Inl _ \<Rightarrow> h(p \<mapsto> ?m) | Inr _ \<Rightarrow> own p (h(p \<mapsto> ?m)))"
      unfolding constructs_def using m by (meson rtranclp_trans)
    show ?thesis
    proof (cases x)
      case (Inl e)
      with new q Some c have e: "r = Inl e" "st' = kama_deallocate pl t (Some p) st2" by (auto simp: new_element_def)
      have "kama_step pl (st2, h(p \<mapsto> ?m)) (st', (h(p \<mapsto> ?m))(p := None))" unfolding e by (rule step_free) simp
      moreover have "(h(p \<mapsto> ?m))(p := None) = h" using place(1) by (auto simp: fun_eq_iff)
      ultimately show ?thesis using run Inl by (simp add: e(1))
    next
      case (Inr z)
      with new q Some c have e: "r = Inr (Some p)" "st' = st2" by (auto simp: new_element_def)
      have "(kama_step pl)\<^sup>*\<^sup>* s (st', own p (h(p \<mapsto> ?m)))" using run Inr by (simp add: e(2))
      with delete_element_returns [OF this place(1) type(5)] place show ?thesis by (simp add: e(1))
    qed
  qed
qed

text \<open>A type whose constructor throws when told to, and which holds no memory of its own.\<close>

definition throwing_ctor :: "('o, bool) constructor" where
  "throwing_ctor p x = (if snd x then Inl (RuntimeError ''constructor'') else Inr (), x)"

lemma throwing_type:
  "constructs pl (\<lambda>_ h. h) throwing_ctor" "destroys pl (\<lambda>_ h. h) (\<lambda>_ x. x)"
  by (auto simp: constructs_def destroys_def throwing_ctor_def split: sum.splits)

theorem new_element_never_leaks_witness:
  "\<exists>st'. new_element bump_platform 0 303104 (2 ^ 12) throwing_ctor (kama_new (1, {})) True
      = (Inl (RuntimeError ''constructor''), st', True)
    \<and> (kama_step bump_platform)\<^sup>*\<^sup>* bump_start (st', Map.empty)"
proof -
  have "free_spans (page_cache_of (central (kama_new (1, {})))) = []"
    "os_state (page_cache_of (central (kama_new (1, {})))) = (1, {})"
    by (simp_all add: kama_new_def central_cache_new_def page_cache_new_def)
  from bump_large [OF this, of 0] obtain st where
    t: "tc_allocate bump_platform 0 303104 (kama_new (1, {})) = (Some 4096, st)" by auto
  have p: "word_and (2 ^ 12) (2 ^ 12 - 1) = 0"
    by (rule iffD2 [OF word_and_pred], simp, simp, rule exI, rule refl)
  have "and_not (303104 + 2 ^ 12 - 1) (2 ^ 12 - 1) = 303104"
    using and_not_mask [of "303104 + 2 ^ 12 - 1" 12] by simp
  with p t have al: "kama_allocate_aligned bump_platform 0 303104 (2 ^ 12) (kama_new (1, {}))
      = (Some 4096, record_allocation 303104 st)"
    by (simp add: kama_allocate_aligned_def tc_allocate_aligned_def size_max_def)
  define st' where "st' = kama_deallocate bump_platform 0 (Some 4096) (record_allocation 303104 st)"
  have new: "new_element bump_platform 0 303104 (2 ^ 12) throwing_ctor (kama_new (1, {})) True
      = (Inl (RuntimeError ''constructor''), st', True)"
    using al by (simp add: new_element_def throwing_ctor_def st'_def)
  have "(kama_step bump_platform)\<^sup>*\<^sup>* bump_start (kama_new (1, {}), Map.empty)" by (simp add: bump_start_def)
  note n = new_element_never_leaks [OF bump_platform_ok bump_start this _ _ _ throwing_type new]
  have "(kama_step bump_platform)\<^sup>*\<^sup>* bump_start (st', Map.empty)"
    using n by (simp add: bump_platform_def)
  with new show ?thesis by blast
qed

text \<open>
  The first version has no handler: a constructor that throws leaves its slot taken. Here the state is
  the set of slots taken from one pool.
\<close>

lemma v1_throw_leaks:
  assumes "use_mem bytes s = (Inr p, s1)" "p \<noteq> 0" "ctor p s1 = (Inl e, s2)"
  shows "v1_new_element use_mem bytes ctor s = (Inl e, s2)"
  using assms by (simp add: v1_new_element_def)

lemma v1_throw_leaks_example:
  "v1_new_element (v1_use (\<lambda>i s. (Inr (8 * (card s + 1)), insert (8 * (card s + 1)) s)) (\<lambda>n s. (Inl BadAlloc, s))) 24
     (\<lambda>p s. (Inl (RuntimeError ''constructor''), s)) {} = (Inl (RuntimeError ''constructor''), {8})"
  by (simp add: v1_new_element_def v1_use_def use_memory_def slot_base_def max_slot_def)

text \<open>Without an exception the element's memory is given back to the bucket it came from.\<close>

lemma v1_same_bucket:
  assumes "0 < bytes" "p \<noteq> 0"
  shows "free_memory p bytes = use_memory bytes"
  using assms by (simp add: free_memory_def use_memory_def)

end
