(* ===== verification/System_Pages.thy ===== *)
theory System_Pages
  imports Kama_System Kama2_Pages
begin

text \<open>
  The pages of the operating system on POSIX, under both versions of the allocator
  (vendor_memorypool/v3/src/Platform.h and v2/include/Platform.h): \<open>sysconf\<close>, \<open>mmap\<close> and \<open>munmap\<close> are
  arguments with their documented behaviour on whole pages; a failed \<open>mmap\<close> is the address with all
  bits set. The branch for Windows is not modelled.
\<close>

section \<open>System calls\<close>

record 'o posix =
  sysconf_page :: int
  sys_mmap :: "nat \<Rightarrow> 'o \<Rightarrow> nat \<times> 'o"
  sys_munmap :: "nat \<Rightarrow> nat \<Rightarrow> 'o \<Rightarrow> 'o"

definition map_failed :: nat where
  "map_failed = size_max"

definition posix_mmap :: "'o posix \<Rightarrow> nat \<Rightarrow> 'o \<Rightarrow> nat option \<times> 'o" where
  "posix_mmap os bytes w =
     (case sys_mmap os bytes w of (p, w') \<Rightarrow> (if p = map_failed \<or> p = 0 then None else Some p, w'))"

definition posix_of :: "'o posix \<Rightarrow> 'o platform" where
  "posix_of os = posix_platform (sysconf_page os) (posix_mmap os) (sys_munmap os)"

section \<open>The second version\<close>

definition v2_alloc_pages :: "'o posix \<Rightarrow> nat \<Rightarrow> 'o \<Rightarrow> nat option \<times> 'o" where
  "v2_alloc_pages os bytes w =
     (if bytes = 0 then (None, w)
      else case sys_mmap os bytes w of (p, w') \<Rightarrow> (if p = map_failed \<or> p = 0 then None else Some p, w'))"

definition v2_free_pages :: "'o posix \<Rightarrow> nat option \<Rightarrow> nat \<Rightarrow> 'o \<Rightarrow> 'o" where
  "v2_free_pages os ptr bytes w = (case ptr of None \<Rightarrow> w | Some p \<Rightarrow> sys_munmap os p bytes w)"

text \<open>\<open>allocateSpan\<close> with the system it asks, and the destructor.\<close>

definition v2_allocate_span_on :: "'o posix \<Rightarrow> nat \<Rightarrow> v2_pages \<times> 'o \<Rightarrow> nat option \<times> v2_pages \<times> 'o" where
  "v2_allocate_span_on os n s =
     (case s of (pc, w) \<Rightarrow>
        if omap_lower_bound n (span_lists pc) = None
        then (case v2_alloc_pages os (wmul n v2_page) w of (memory, w') \<Rightarrow>
                case v2_allocate_span memory n pc of (r, pc') \<Rightarrow> (r, pc', w'))
        else (case v2_allocate_span None n pc of (r, pc') \<Rightarrow> (r, pc', w)))"

fun v2_free_maps :: "'o posix \<Rightarrow> (nat \<times> nat) list \<Rightarrow> 'o \<Rightarrow> 'o" where
  "v2_free_maps os [] w = w"
| "v2_free_maps os ((p, n) # ms) w = v2_free_maps os ms (v2_free_pages os (Some p) n w)"

definition v2_destroy_on :: "'o posix \<Rightarrow> v2_pages \<times> 'o \<Rightarrow> v2_pages \<times> 'o" where
  "v2_destroy_on os s =
     (case s of (pc, w) \<Rightarrow> case v2_pages_destroy pc of (maps, pc') \<Rightarrow> (pc', v2_free_maps os maps w))"

section \<open>What the system documents\<close>

definition pages :: "nat \<Rightarrow> nat \<Rightarrow> nat \<Rightarrow> nat set" where
  "pages ps a n = {a div ps ..< (a + n) div ps}"

definition posix_ok :: "'o posix \<Rightarrow> ('o \<Rightarrow> nat set) \<Rightarrow> bool" where
  "posix_ok os mapped \<longleftrightarrow>
     (let ps = system_page_size (sysconf_page os) in
      (\<exists>k \<le> 32. ps = 2 ^ k)
      \<and> (\<forall>n w p w'. sys_mmap os n w = (p, w') \<longrightarrow>
           (if p = map_failed \<or> p = 0 then mapped w' = mapped w
            else ps dvd n \<longrightarrow> 0 < n \<longrightarrow> ps dvd p \<and> p + n \<le> 2 ^ 64
              \<and> pages ps p n \<inter> mapped w = {} \<and> mapped w' = mapped w \<union> pages ps p n))
      \<and> (\<forall>p n w. ps dvd p \<longrightarrow> ps dvd n \<longrightarrow> mapped (sys_munmap os p n w) = mapped w - pages ps p n))"

lemma posix_ok_mmap:
  assumes "posix_ok os mapped" "sys_mmap os n w = (p, w')"
  shows "p = map_failed \<or> p = 0 \<Longrightarrow> mapped w' = mapped w"
    and "\<not> (p = map_failed \<or> p = 0) \<Longrightarrow> system_page_size (sysconf_page os) dvd n \<Longrightarrow> 0 < n \<Longrightarrow>
      system_page_size (sysconf_page os) dvd p \<and> p + n \<le> 2 ^ 64
      \<and> pages (system_page_size (sysconf_page os)) p n \<inter> mapped w = {}
      \<and> mapped w' = mapped w \<union> pages (system_page_size (sysconf_page os)) p n"
proof -
  from assms have "if p = map_failed \<or> p = 0 then mapped w' = mapped w
      else system_page_size (sysconf_page os) dvd n \<longrightarrow> 0 < n \<longrightarrow>
        system_page_size (sysconf_page os) dvd p \<and> p + n \<le> 2 ^ 64
        \<and> pages (system_page_size (sysconf_page os)) p n \<inter> mapped w = {}
        \<and> mapped w' = mapped w \<union> pages (system_page_size (sysconf_page os)) p n"
    unfolding posix_ok_def Let_def by blast
  then show "p = map_failed \<or> p = 0 \<Longrightarrow> mapped w' = mapped w"
    "\<not> (p = map_failed \<or> p = 0) \<Longrightarrow> system_page_size (sysconf_page os) dvd n \<Longrightarrow> 0 < n \<Longrightarrow>
      system_page_size (sysconf_page os) dvd p \<and> p + n \<le> 2 ^ 64
      \<and> pages (system_page_size (sysconf_page os)) p n \<inter> mapped w = {}
      \<and> mapped w' = mapped w \<union> pages (system_page_size (sysconf_page os)) p n"
    by (simp_all only: if_True if_False simp_thms)
qed

lemma posix_ok_munmap:
  assumes "posix_ok os mapped" "system_page_size (sysconf_page os) dvd p" "system_page_size (sysconf_page os) dvd n"
  shows "mapped (sys_munmap os p n w) = mapped w - pages (system_page_size (sysconf_page os)) p n"
  using assms unfolding posix_ok_def Let_def by blast

section \<open>Both versions on such a system\<close>

text \<open>
  POSIX is a platform as the allocator needs it. When \<open>sysconf\<close>, \<open>mmap\<close> and \<open>munmap\<close> behave as
  documented on whole pages, the functions of Platform.h over them keep the contract that every
  property of the allocator assumes of its platform.
\<close>

theorem posix_is_platform:
  assumes "posix_ok os mapped"
  shows "platform_ok (posix_of os) mapped"
proof -
  let ?ps = "system_page_size (sysconf_page os)" and ?pl = "posix_of os"
  have f: "page_size ?pl = ?ps" "granularity ?pl = ?ps" "os_mmap ?pl = posix_mmap os" "os_munmap ?pl = sys_munmap os"
    "region ?pl = pages ?ps"
    by (simp_all add: posix_of_def posix_platform_def region_def pages_def fun_eq_iff)
  have "\<exists>k g. ?ps = 2 ^ k \<and> ?ps = 2 ^ g \<and> k \<le> g \<and> g \<le> 32"
    using assms unfolding posix_ok_def Let_def by blast
  moreover have "?ps dvd a \<and> 0 < a \<and> a + n \<le> 2 ^ 64 \<and> pages ?ps a n \<inter> mapped w = {} \<and> mapped w' = mapped w \<union> pages ?ps a n"
    if "?ps dvd n" "0 < n" "posix_mmap os n w = (Some a, w')" for n w a w'
    using that posix_ok_mmap(2) [OF assms, of n w a w'] by (auto simp: posix_mmap_def split: prod.splits if_splits)
  moreover have "mapped w' = mapped w" if "posix_mmap os n w = (None, w')" for n w w'
    using that posix_ok_mmap(1) [OF assms, of n w] by (auto simp: posix_mmap_def split: prod.splits if_splits)
  ultimately show ?thesis
    unfolding platform_ok_def f using posix_ok_munmap [OF assms] by blast
qed

text \<open>A process whose pages are handed out in order.\<close>

definition bump_posix :: "(nat \<times> nat set) posix" where
  "bump_posix =
     \<lparr>sysconf_page = 4096,
      sys_mmap = (\<lambda>n w. case bump_mmap n w of (None, w') \<Rightarrow> (map_failed, w') | (Some a, w') \<Rightarrow> (a, w')),
      sys_munmap = bump_munmap\<rparr>"

lemma bump_posix_ok: "posix_ok bump_posix snd"
proof -
  have ps: "system_page_size (sysconf_page bump_posix) = 4096" by (simp add: bump_posix_def system_page_size_def)
  have m: "if p = map_failed \<or> p = 0 then snd w' = snd w
      else 4096 dvd n \<longrightarrow> 0 < n \<longrightarrow> 4096 dvd p \<and> p + n \<le> 2 ^ 64
        \<and> pages 4096 p n \<inter> snd w = {} \<and> snd w' = snd w \<union> pages 4096 p n"
    if e: "sys_mmap bump_posix n w = (p, w')" for n w p w'
  proof -
    obtain r v where Pair: "bump_mmap n w = (r, v)" by (rule prod.exhaust)
    show ?thesis
    proof (cases r)
      case None
      with Pair e have "p = map_failed" "v = w'" by (simp_all add: bump_posix_def)
      moreover from Pair None have "v = w" by (auto simp: bump_mmap_def split: if_splits prod.splits)
      ultimately show ?thesis by simp
    next
      case (Some a)
      with Pair e have b: "bump_mmap n w = (Some p, w')" by (simp add: bump_posix_def)
      obtain k S where w: "w = (k, S)" by (cases w)
      from b have c: "p = k * 4096" "0 < k" "k * 4096 + n \<le> 2 ^ 64" "S \<inter> {k ..< k + n div 4096} = {}"
        "w' = (k + n div 4096, S \<union> {k ..< k + n div 4096})"
        by (auto simp: bump_mmap_def w split: if_splits)
      have "(4096 :: nat) dvd p" by (simp add: c)
      moreover have "\<not> (4096 :: nat) dvd map_failed" by (simp add: map_failed_def size_max_def)
      ultimately have "p \<noteq> map_failed" by metis
      then show ?thesis using c by (auto simp: w pages_def)
    qed
  qed
  have u: "snd (sys_munmap bump_posix p n w) = snd w - pages 4096 p n" for p n w
    by (simp add: bump_posix_def bump_munmap_def pages_def)
  have "\<exists>k \<le> 32. (4096 :: nat) = 2 ^ k" by (intro exI [of _ 12]) simp
  with m u show ?thesis unfolding posix_ok_def ps Let_def by blast
qed

theorem posix_is_platform_witness: "platform_ok (posix_of bump_posix) snd"
  by (rule posix_is_platform [OF bump_posix_ok])

section \<open>The second version on the system\<close>

definition page_numbers :: "(nat \<times> nat) list \<Rightarrow> nat set" where
  "page_numbers ms = (\<Union>(a, k) \<in> set ms. pages v2_page a k)"

lemma in_pages:
  assumes "v2_page dvd p" "v2_page dvd k" "p \<le> x" "x < p + k"
  shows "x div v2_page \<in> pages v2_page p k"
proof -
  have "p div v2_page \<le> x div v2_page" using assms(3) by (rule div_le_mono)
  moreover have "(p + k) div v2_page * v2_page = p + k" by (rule dvd_div_mult_self [OF dvd_add [OF assms(1,2)]])
  with assms(4) have "x < (p + k) div v2_page * v2_page" by simp
  then have "x div v2_page < (p + k) div v2_page" by (rule less_mult_imp_div_less)
  ultimately show ?thesis by (simp add: pages_def)
qed

definition maps_ok :: "(nat \<times> nat) list \<Rightarrow> nat set \<Rightarrow> bool" where
  "maps_ok ms mapped \<longleftrightarrow> (\<forall>(a, k) \<in> set ms. v2_page dvd a \<and> v2_page dvd k) \<and> page_numbers ms \<subseteq> mapped"

lemma maps_area:
  assumes "maps_ok ms mapped" "x \<in> map_area ms"
  shows "x div v2_page \<in> mapped"
proof -
  obtain a k where "(a, k) \<in> set ms" "a \<le> x" "x < a + k" using assms(2) by (auto simp: map_area_def)
  with assms(1) in_pages [of a k x] show ?thesis by (fastforce simp: maps_ok_def page_numbers_def)
qed

text \<open>What \<open>allocateSpan\<close> adds to the regions.\<close>

lemma v2_allocate_span_maps:
  assumes "v2_allocate_span memory n pc = (r, pc')"
  shows "system_maps pc' = system_maps pc @ (if omap_lower_bound n (span_lists pc) = None
    then (case memory of None \<Rightarrow> [] | Some p \<Rightarrow> [(p, wmul n v2_page)]) else [])"
  using assms
  by (auto simp: v2_allocate_span_def v2_system_alloc_def put_list_def Let_def split: option.splits if_splits prod.splits)

inductive v2_os_step ::
  "'o posix \<Rightarrow> (v2_pages \<times> 'o) \<times> (nat \<rightharpoonup> nat) \<Rightarrow> (v2_pages \<times> 'o) \<times> (nat \<rightharpoonup> nat) \<Rightarrow> bool" for os
where
  os_alloc: "0 < n \<Longrightarrow> n * v2_page < 2 ^ 64 \<Longrightarrow> v2_allocate_span_on os n s = (r, s') \<Longrightarrow>
    v2_os_step os (s, U) (s', case r of None \<Rightarrow> U | Some a \<Rightarrow> U(a \<mapsto> n))"
| os_free: "U a = Some n \<Longrightarrow> v2_os_step os ((pc, w), U) ((v2_deallocate_span a n pc, w), U(a := None))"

text \<open>Each step is one of the page cache with memory the system had not mapped.\<close>

lemma v2_os_alloc_ok:
  assumes os: "posix_ok os mapped" "system_page_size (sysconf_page os) = v2_page"
    and n: "0 < n" "n * v2_page < 2 ^ 64" and a: "v2_allocate_span_on os n (pc, w) = (r, pc', w')"
    and m: "maps_ok (system_maps pc) (mapped w)"
  shows "v2_page_step (pc, U) (pc', case r of None \<Rightarrow> U | Some a \<Rightarrow> U(a \<mapsto> n))"
    and "maps_ok (system_maps pc') (mapped w')"
proof -
  have w: "wmul n v2_page = n * v2_page" using n(2) by (simp add: wmul_exact)
  have "v2_page_step (pc, U) (pc', case r of None \<Rightarrow> U | Some a \<Rightarrow> U(a \<mapsto> n)) \<and> maps_ok (system_maps pc') (mapped w')"
  proof (cases "omap_lower_bound n (span_lists pc)")
    case (Some x)
    with a have e: "v2_allocate_span None n pc = (r, pc')" "w' = w"
      by (auto simp: v2_allocate_span_on_def split: prod.splits)
    with page_alloc [OF n _ e(1), of U] v2_allocate_span_maps [OF e(1)] m Some show ?thesis by simp
  next
    case None
    obtain p w1 where p: "sys_mmap os (n * v2_page) w = (p, w1)" by fastforce
    let ?mem = "if p = map_failed \<or> p = 0 then None else Some p"
    have "n * v2_page \<noteq> 0" using n by (simp add: v2_page_def)
    with None a p have e: "v2_allocate_span ?mem n pc = (r, pc')" "w' = w1"
      by (auto simp: v2_allocate_span_on_def v2_alloc_pages_def w split: prod.splits)
    show ?thesis
    proof (cases "p = map_failed \<or> p = 0")
      case True
      with e posix_ok_mmap(1) [OF os(1) p] have "mapped w' = mapped w" by simp
      with True page_alloc [OF n _ e(1), of U] v2_allocate_span_maps [OF e(1)] m None show ?thesis by simp
    next
      case False
      have "v2_page dvd n * v2_page" by simp
      from posix_ok_mmap(2) [OF os(1) p False, unfolded os(2), OF this] n
      have q: "v2_page dvd p" "pages v2_page p (n * v2_page) \<inter> mapped w = {}"
        "mapped w1 = mapped w \<union> pages v2_page p (n * v2_page)" by (auto simp: v2_page_def)
      have "{p..<p + n * v2_page} \<inter> map_area (system_maps pc) = {}"
        using in_pages [OF q(1) \<open>v2_page dvd n * v2_page\<close>] maps_area [OF m] q(2) by fastforce
      moreover have "0 < p" using False by simp
      ultimately have "\<forall>x. ?mem = Some x \<longrightarrow> 0 < x \<and> {x..<x + n * v2_page} \<inter> map_area (system_maps pc) = {}" by simp
      note s = page_alloc [OF n this e(1), of U]
      have "system_maps pc' = system_maps pc @ [(p, n * v2_page)]"
        using v2_allocate_span_maps [OF e(1)] None False by (simp add: w)
      with m q have "maps_ok (system_maps pc') (mapped w1)" by (auto simp: maps_ok_def page_numbers_def)
      with s e(2) show ?thesis by simp
    qed
  qed
  then show "v2_page_step (pc, U) (pc', case r of None \<Rightarrow> U | Some a \<Rightarrow> U(a \<mapsto> n))"
    "maps_ok (system_maps pc') (mapped w')" by blast+
qed

definition v2_os_ok :: "('o \<Rightarrow> nat set) \<Rightarrow> (v2_pages \<times> 'o) \<times> (nat \<rightharpoonup> nat) \<Rightarrow> bool" where
  "v2_os_ok mapped x \<longleftrightarrow>
     (case x of ((pc, w), U) \<Rightarrow> v2_page_step\<^sup>*\<^sup>* (v2_pages_new, Map.empty) (pc, U) \<and> maps_ok (system_maps pc) (mapped w))"

lemma v2_os_step_ok:
  assumes "v2_os_step os x y" "v2_os_ok mapped x" "posix_ok os mapped" "system_page_size (sysconf_page os) = v2_page"
  shows "v2_os_ok mapped y"
  using assms(1,2)
proof (induction rule: v2_os_step.induct)
  case (os_alloc n s r s' U)
  obtain pc w pc' w' where s: "s = (pc, w)" "s' = (pc', w')" by (metis prod.exhaust)
  have run: "v2_page_step\<^sup>*\<^sup>* (v2_pages_new, Map.empty) (pc, U)" and m: "maps_ok (system_maps pc) (mapped w)"
    using os_alloc.prems by (simp_all add: v2_os_ok_def s)
  note a = v2_os_alloc_ok [OF assms(3,4) os_alloc.hyps(1,2) os_alloc.hyps(3) [unfolded s] m]
  from rtranclp.rtrancl_into_rtrancl [OF run a(1)] a(2) show ?case by (simp add: v2_os_ok_def s)
next
  case (os_free U a n pc w)
  then have run: "v2_page_step\<^sup>*\<^sup>* (v2_pages_new, Map.empty) (pc, U)" and m: "maps_ok (system_maps pc) (mapped w)"
    by (simp_all add: v2_os_ok_def)
  have "v2_ok (pc, U)" using v2_page_runs.reachable_invar [OF refl run] .
  then have inv: "v2_inv (dom U) pc" "omap_get (span_map pc) a = Some n" "a \<in> dom U"
    using os_free.hyps by (force simp: v2_ok_def map_le_def dom_def)+
  have "system_maps (v2_deallocate_span a n pc) = system_maps pc"
    using v2_deallocate_ok(2) [OF inv] by simp
  with rtranclp.rtrancl_into_rtrancl [OF run page_free [of U a n pc, OF os_free.hyps]] m show ?case by (simp add: v2_os_ok_def)
qed

interpretation v2_os: invariant_system "\<lambda>x. \<exists>w. x = ((v2_pages_new, w), Map.empty)" "v2_os_step os"
  "\<lambda>x. posix_ok os mapped \<longrightarrow> system_page_size (sysconf_page os) = v2_page \<longrightarrow> v2_os_ok mapped x"
  for os :: "'o posix" and mapped
proof unfold_locales
  fix x :: "(v2_pages \<times> 'o) \<times> (nat \<rightharpoonup> nat)"
  assume "\<exists>w. x = ((v2_pages_new, w), Map.empty)"
  then show "posix_ok os mapped \<longrightarrow> system_page_size (sysconf_page os) = v2_page \<longrightarrow> v2_os_ok mapped x"
    by (auto simp: v2_os_ok_def maps_ok_def page_numbers_def v2_pages_new_def)
qed (blast intro: v2_os_step_ok)

lemma v2_free_maps_mapped:
  assumes "posix_ok os mapped" "system_page_size (sysconf_page os) = v2_page"
    and "\<forall>(a, k) \<in> set ms. v2_page dvd a \<and> v2_page dvd k"
  shows "mapped (v2_free_maps os ms w) = mapped w - page_numbers ms"
  using assms(3)
proof (induction ms arbitrary: w)
  case (Cons x ms)
  obtain a k where x: "x = (a, k)" by (cases x)
  have "mapped (sys_munmap os a k w) = mapped w - pages v2_page a k"
    using posix_ok_munmap [OF assms(1)] Cons.prems by (simp add: assms(2) x)
  with Cons show ?case by (auto simp: x v2_free_pages_def page_numbers_def)
qed (simp add: page_numbers_def)

text \<open>
  C32: on a POSIX system with pages of 4096 bytes, in every state the clients of the second version's
  page cache reach, the bytes of every span they hold are mapped memory, two spans never meet, and
  the destructor unmaps exactly the pages the cache had obtained.
\<close>

theorem v2_spans_are_mapped:
  assumes "posix_ok os mapped" "system_page_size (sysconf_page os) = v2_page"
    and "(v2_os_step os)\<^sup>*\<^sup>* ((v2_pages_new, w0), Map.empty) ((pc, w), U)"
  shows "(\<forall>a n. U a = Some n \<longrightarrow> (\<forall>x \<in> {a..<a + n * v2_page}. x div v2_page \<in> mapped w))
    \<and> (\<forall>a n b m. U a = Some n \<longrightarrow> U b = Some m \<longrightarrow> a \<noteq> b \<longrightarrow> a + n * v2_page \<le> b \<or> b + m * v2_page \<le> a)
    \<and> mapped (snd (v2_destroy_on os (pc, w))) = mapped w - page_numbers (system_maps pc)"
proof -
  have "v2_os_ok mapped ((pc, w), U)" using v2_os.reachable_invar [OF _ assms(3), of mapped] assms(1,2) by blast
  then have run: "v2_page_step\<^sup>*\<^sup>* (v2_pages_new, Map.empty) (pc, U)" and m: "maps_ok (system_maps pc) (mapped w)"
    by (simp_all add: v2_os_ok_def)
  note S = v2_spans_safe_parts [OF run]
  have "x div v2_page \<in> mapped w" if "U a = Some n" "x \<in> {a..<a + n * v2_page}" for a n x
    using maps_area [OF m] S(2) [OF that(1)] that(2) by blast
  moreover have "mapped (snd (v2_destroy_on os (pc, w))) = mapped w - page_numbers (system_maps pc)"
    using v2_free_maps_mapped [OF assms(1,2)] m by (simp add: v2_destroy_on_def v2_pages_destroy_def maps_ok_def)
  ultimately show ?thesis using S(1) by blast
qed

theorem v2_spans_are_mapped_witness:
  "\<exists>pc w. (v2_os_step bump_posix)\<^sup>*\<^sup>* ((v2_pages_new, 1, {}), Map.empty) ((pc, w), [4096 \<mapsto> 8])
    \<and> 8191 div v2_page \<in> snd w"
proof -
  let ?pc = "\<lparr>span_map = [(4096, 8)], span_lists = [], system_maps = [(4096, 32768)]\<rparr>"
  let ?w = "(9, {1..<9}) :: nat \<times> nat set"
  have ps: "system_page_size (sysconf_page bump_posix) = v2_page"
    by (simp add: bump_posix_def system_page_size_def v2_page_def)
  have "v2_allocate_span_on bump_posix 8 (v2_pages_new, 1, {}) = (Some 4096, ?pc, ?w)"
    by (simp add: v2_allocate_span_on_def v2_alloc_pages_def v2_allocate_span_def v2_system_alloc_def bump_posix_def
        bump_mmap_def v2_pages_new_def v2_page_def wmul_def map_failed_def size_max_def)
  from os_alloc [OF _ _ this, of Map.empty]
  have "v2_os_step bump_posix ((v2_pages_new, 1, {}), Map.empty) ((?pc, ?w), [4096 \<mapsto> 8])" by (simp add: v2_page_def)
  then have run: "(v2_os_step bump_posix)\<^sup>*\<^sup>* ((v2_pages_new, 1, {}), Map.empty) ((?pc, ?w), [4096 \<mapsto> 8])" by blast
  have "8191 \<in> {4096 ..< 4096 + 8 * v2_page}" "[4096 \<mapsto> 8 :: nat] 4096 = Some 8" by (simp_all add: v2_page_def)
  with conjunct1 [OF v2_spans_are_mapped [OF bump_posix_ok ps run]] have "8191 div v2_page \<in> snd ?w" by blast
  with run show ?thesis by blast
qed

end
