(* ===== verification/Kama_Rounds.thy ===== *)
theory Kama_Rounds
  imports Kama_System
begin

text \<open>
  The allocator's calls cut into rounds (vendor_memorypool/v3/src/ThreadCache.cpp, CentralCache.cpp).
  Kama_System takes a call as one step; here a step is one round of the loop of \<open>fetchRange\<close> or
  \<open>returnRange\<close>, one call of the page cache, or a change of a thread's own lists, and rounds of
  several threads interleave. A thread inside a loop holds the lock of its class; a round touches the
  shard of that class, spans only it can reach, and the page cache through calls under the page
  cache's mutex. The blocks a thread has in its hands, taken from the central cache or on their way
  back, belong to nobody else: an invariant of every reachable state.
\<close>

section \<open>Tasks\<close>

text \<open>
  What a thread is doing: fetching for a request of \<open>n\<close> bytes, with the rounds left and the blocks
  taken; waiting for the lock of a class to give blocks back; giving them back.
\<close>

datatype task =
    Idle
  | Fetching nat nat "nat list"
  | Waiting nat "nat list"
  | Giving nat "nat list"

abbreviation class_of :: "nat \<Rightarrow> nat" where
  "class_of n \<equiv> get_index (norm_bytes n)"

fun locked :: "task \<Rightarrow> nat option" where
  "locked (Fetching n k xs) = Some (class_of n)"
| "locked (Giving c xs) = Some c"
| "locked _ = None"

fun in_flight :: "task \<Rightarrow> nat list" where
  "in_flight Idle = []"
| "in_flight (Fetching n k xs) = xs"
| "in_flight (Waiting c xs) = xs"
| "in_flight (Giving c xs) = xs"

fun task_class :: "task \<Rightarrow> nat" where
  "task_class Idle = 0"
| "task_class (Fetching n k xs) = class_of n"
| "task_class (Waiting c xs) = c"
| "task_class (Giving c xs) = c"

definition lock_free :: "(nat \<Rightarrow> task) \<Rightarrow> nat \<Rightarrow> bool" where
  "lock_free tk c \<longleftrightarrow> (\<forall>t. locked (tk t) \<noteq> Some c)"

section \<open>Rounds\<close>

definition fetch_one :: "'o platform \<Rightarrow> nat \<Rightarrow> 'o kama \<Rightarrow> nat option \<times> 'o kama" where
  "fetch_one pl c st =
     (case first_partial pl c (central st) of
        (None, cc) \<Rightarrow> (None, st\<lparr>central := cc\<rparr>)
      | (Some i, cc) \<Rightarrow> (case take_block c i cc of (x, cc) \<Rightarrow> (Some x, st\<lparr>central := cc\<rparr>)))"

definition give_one :: "'o platform \<Rightarrow> nat \<Rightarrow> nat \<Rightarrow> 'o kama \<Rightarrow> 'o kama" where
  "give_one pl c x st = st\<lparr>central := return_block pl c x (central st)\<rparr>"

text \<open>What \<open>returnToCentralCache\<close> does to the thread's list; the result is what it will give back.\<close>

definition cut_list :: "nat \<Rightarrow> nat \<Rightarrow> 'o kama \<Rightarrow> 'o kama \<times> nat list" where
  "cut_list t c st =
     (let batch = tc_size (threads st t) c; l = tc_list (threads st t) c; keep = keep_num (get_size c) batch in
      if batch \<le> 1 \<or> keep \<ge> batch \<or> length l < keep then (st, [])
      else if drop keep l = [] then (set_class t c (take keep l) keep st, [])
      else (record_central_flush (batch - keep) (set_class t c (take keep l) keep st), drop keep l))"

definition push_cut :: "nat \<Rightarrow> nat \<Rightarrow> nat \<Rightarrow> 'o kama \<Rightarrow> 'o kama \<times> nat list" where
  "push_cut t c p st =
     (let st1 = set_class t c (p # tc_list (threads st t) c) (tc_size (threads st t) c + 1) st
      in if should_return t c st1 then cut_list t c st1 else (st1, []))"

definition give_task :: "nat \<Rightarrow> nat list \<Rightarrow> task" where
  "give_task c rest = (if rest = [] then Idle else Waiting c rest)"

text \<open>The two frees, up to the point where they need a lock of the central cache.\<close>

definition push_task :: "nat \<Rightarrow> nat \<Rightarrow> nat \<Rightarrow> 'o kama \<Rightarrow> bool \<times> 'o kama \<times> task" where
  "push_task t c p st = (case push_cut t c p st of (st', rest) \<Rightarrow> (True, st', give_task c rest))"

definition free_begin :: "'o platform \<Rightarrow> nat \<Rightarrow> nat \<Rightarrow> 'o kama \<Rightarrow> bool \<times> 'o kama \<times> task" where
  "free_begin pl t p st =
     (let cc = central st in
      case find_span pl (Some p) (page_cache_of cc) of
        None \<Rightarrow> (False, st, Idle)
      | Some i \<Rightarrow>
          (let s = span_at (page_cache_of cc) i in
           if is_large s then
             (True, st\<lparr>central := cc\<lparr>page_cache_of := deallocate_span pl (Some i) (page_cache_of cc)\<rparr>\<rparr>, Idle)
           else if size_class s \<ge> class_count then (False, st, Idle)
           else push_task t (size_class s) p st))"

definition free_sized_begin ::
  "'o platform \<Rightarrow> nat \<Rightarrow> nat \<Rightarrow> nat \<Rightarrow> 'o kama \<Rightarrow> bool \<times> 'o kama \<times> task"
where
  "free_sized_begin pl t p bytes st =
     (let n = norm_bytes bytes in
      if n > max_bytes then free_begin pl t p st
      else
        (let c = get_index (round_up n) in
         if c \<ge> class_count then free_begin pl t p st else push_task t c p st))"

text \<open>A state: the allocator, what each thread is doing, the addresses the program holds.\<close>

type_synonym 'o rounds = "'o kama \<times> (nat \<Rightarrow> task) \<times> (nat \<rightharpoonup> nat)"

inductive round_step :: "'o platform \<Rightarrow> 'o rounds \<Rightarrow> 'o rounds \<Rightarrow> bool" for pl
where
  take_cached: "tk t = Idle \<Longrightarrow> norm_bytes n \<le> max_bytes \<Longrightarrow> tc_list (threads st t) (class_of n) = x # l \<Longrightarrow>
    round_step pl (st, tk, h) (set_class t (class_of n) l (tc_size (threads st t) (class_of n) - 1) st, tk, h(x \<mapsto> n))"
| fetch_begin: "tk t = Idle \<Longrightarrow> norm_bytes n \<le> max_bytes \<Longrightarrow> tc_list (threads st t) (class_of n) = [] \<Longrightarrow>
    lock_free tk (class_of n) \<Longrightarrow>
    round_step pl (st, tk, h) (st, tk(t := Fetching n (get_batch_num (get_size (class_of n))) []), h)"
| fetch_round: "tk t = Fetching n (Suc k) got \<Longrightarrow> fetch_one pl (class_of n) st = (Some x, st') \<Longrightarrow>
    round_step pl (st, tk, h) (st', tk(t := Fetching n k (got @ [x])), h)"
| fetch_short: "tk t = Fetching n (Suc k) got \<Longrightarrow> fetch_one pl (class_of n) st = (None, st') \<Longrightarrow>
    round_step pl (st, tk, h) (st', tk(t := Fetching n 0 got), h)"
| fetch_end: "tk t = Fetching n 0 (x # l) \<Longrightarrow>
    round_step pl (st, tk, h)
      (record_central_refill (length (x # l))
         (set_class t (class_of n) l (tc_size (threads st t) (class_of n) + length l) st), tk(t := Idle), h(x \<mapsto> n))"
| fetch_fail: "tk t = Fetching n 0 [] \<Longrightarrow> round_step pl (st, tk, h) (st, tk(t := Idle), h)"
| large_alloc: "tk t = Idle \<Longrightarrow> norm_bytes n > max_bytes \<Longrightarrow> allocate_large pl (norm_bytes n) st = (r, st') \<Longrightarrow>
    round_step pl (st, tk, h) (st', tk, case r of None \<Rightarrow> h | Some p \<Rightarrow> h(p \<mapsto> n))"
| free_block: "tk t = Idle \<Longrightarrow> p \<in> dom h \<Longrightarrow> free_begin pl t p st = (b, st', k) \<Longrightarrow>
    round_step pl (st, tk, h) (st', tk(t := k), if b then h(p := None) else h)"
| free_sized: "tk t = Idle \<Longrightarrow> h p = Some n \<Longrightarrow> free_sized_begin pl t p n st = (b, st', k) \<Longrightarrow>
    round_step pl (st, tk, h) (st', tk(t := k), if b then h(p := None) else h)"
| flush_class: "tk t = Idle \<Longrightarrow> c < class_count \<Longrightarrow> tc_list (threads st t) c \<noteq> [] \<Longrightarrow> tc_size (threads st t) c > 0 \<Longrightarrow>
    round_step pl (st, tk, h) (set_class t c [] 0 st, tk(t := Waiting c (tc_list (threads st t) c)), h)"
| give_begin: "tk t = Waiting c xs \<Longrightarrow> lock_free tk c \<Longrightarrow> round_step pl (st, tk, h) (st, tk(t := Giving c xs), h)"
| give_round: "tk t = Giving c (x # xs) \<Longrightarrow>
    round_step pl (st, tk, h) (give_one pl c x st, tk(t := Giving c xs), h)"
| give_end: "tk t = Giving c [] \<Longrightarrow> round_step pl (st, tk, h) (st, tk(t := Idle), h)"

inductive_cases round_stepE: "round_step pl (st, tk, h) (st', tk', h')"

definition rounds_start :: "'o rounds \<Rightarrow> bool" where
  "rounds_start s \<longleftrightarrow> (\<exists>w. s = (kama_new w, \<lambda>_. Idle, Map.empty))"

section \<open>The rounds and the blocks held\<close>

text \<open>
  A block in a thread's hands counts as held, with the size of its class: then every round keeps
  the invariant of the allocator. \<open>relist\<close> moves blocks between a list and the held ones.
\<close>

lemma kama_valid_parts:
  assumes "kama_valid pl mapped (st, H)"
  shows "kama_ok pl mapped (dom H) st" and "H p = Some n \<Longrightarrow> fits pl (st_used st) p (norm_bytes n)"
  using assms by (simp_all add: kama_valid_def)

lemma class_size:
  assumes "c < class_count"
  shows "get_index (get_size c) = c" "get_size c \<le> max_bytes" "norm_bytes (get_size c) = get_size c"
proof -
  show "get_index (get_size c) = c" using get_index_size assms by (simp add: get_size_def)
  have b: "0 < get_size c" "get_size c \<le> max_bytes"
    using size_table_bounds [of c] assms by (auto simp: get_size_def)
  show "get_size c \<le> max_bytes" by (rule b)
  show "norm_bytes (get_size c) = get_size c" using b by (simp add: norm_bytes_def)
qed

lemma class_of_size [simp]: "c < class_count \<Longrightarrow> class_of (get_size c) = c"
  by (simp add: class_size)

lemma fits_class: "c < class_count \<Longrightarrow> fits pl u x (norm_bytes (get_size c)) \<longleftrightarrow> in_class u c x"
  by (simp add: class_size fits_def not_less [THEN iffD2])

lemma held_class:
  assumes "kama_valid pl mapped (st, H)" and "H x = Some n" "norm_bytes n \<le> max_bytes"
  shows "in_class (st_used st) (class_of n) x"
  using kama_valid_parts(2) [OF assms(1,2)] assms(3) by (simp add: fits_def)

lemma fetch_one_valid:
  assumes v: "kama_valid pl mapped (st, H)" and pl: "platform_ok pl mapped" and c: "c < class_count"
    and eq: "fetch_one pl c st = (r, st')"
  shows "threads st' = threads st"
    and "r = None \<Longrightarrow> kama_valid pl mapped (st', H)"
    and "r = Some x \<Longrightarrow> x \<notin> dom H \<and> kama_valid pl mapped (st', H(x \<mapsto> get_size c))"
proof -
  note ok = kama_valid_parts(1) [OF v]
  note p = kama_ok_parts [OF ok]
  define out where "out = (dom H - larges (st_used st)) \<union> cached (threads st)"
  obtain i cc where f: "first_partial pl c (central st) = (i, cc)" by fastforce
  note fp = first_partial_ok [OF p(1) [folded out_def] pl c f]
  show "threads st' = threads st"
    using eq f by (auto simp: fetch_one_def split: option.splits prod.splits)
  show "kama_valid pl mapped (st', H)" if "r = None"
  proof -
    have st': "st' = st\<lparr>central := cc\<rparr>"
      using eq f that by (auto simp: fetch_one_def split: option.splits prod.splits)
    have "lists_ok (cc_used cc) (threads st)"
      by (rule lists_ok_frame [OF p(2) fp(2)]) (simp add: out_def)
    then have "kama_ok pl mapped (dom H) st'"
      using p fp(1) by (simp add: kama_ok_def st' larges_frame [OF fp(2)] out_def)
    moreover have "keeps pl (dom H) (st_used st) (st_used st')"
      by (rule keeps_frame [OF p(1) platform_pos [OF pl]])
        (rule frame_mono [of out], simp_all add: st' fp(2), simp add: out_def)
    ultimately show ?thesis by (rule kama_valid_same [OF v])
  qed
  show "x \<notin> dom H \<and> kama_valid pl mapped (st', H(x \<mapsto> get_size c))" if rx: "r = Some x"
  proof -
    obtain j cc2 where j: "i = Some j" "take_block c j cc = (x, cc2)" "st' = st\<lparr>central := cc2\<rparr>"
      using eq f rx by (auto simp: fetch_one_def split: option.splits prod.splits)
    obtain rest where "partial_spans cc c = j # rest" using fp(3) [OF j(1)] by blast
    note tb = take_block_ok [OF fp(1) platform_pos [OF pl] this j(2)]
    have fr: "frame out (st_used st) (cc_used cc2)" by (rule frame_trans [OF fp(2) tb(2) subset_refl])
    have cl: "in_class (cc_used cc2) c x" using tb(4) unfolding in_class_def by blast
    note lg = larges_frame [OF fr]
    have xl: "x \<notin> larges (st_used st)"
      using in_class_not_large [OF tb(1) platform_pos [OF pl] cl] by (simp add: lg)
    with tb(3) have x: "x \<notin> dom H" "x \<notin> cached (threads st)" by (simp_all add: out_def)
    have "lists_ok (cc_used cc2) (threads st)"
      by (rule lists_ok_frame [OF p(2) fr]) (simp add: out_def)
    moreover have "insert x out = (insert x (dom H) - larges (st_used st)) \<union> cached (threads st)"
      using xl by (auto simp: out_def)
    ultimately have "kama_ok pl mapped (insert x (dom H)) st'"
      using p(3,4) tb(1) x by (auto simp: kama_ok_def j(3) lg)
    moreover have "fits pl (st_used st') x (norm_bytes (get_size c))"
      unfolding fits_class [OF c] by (simp add: j(3) cl)
    moreover have "keeps pl (dom H) (st_used st) (st_used st')"
      by (rule keeps_frame [OF p(1) platform_pos [OF pl]])
        (rule frame_mono [of out], simp_all add: j(3) fr, simp add: out_def)
    ultimately show ?thesis using x(1) kama_valid_add [OF v x(1)] by blast
  qed
qed

lemma give_one_valid:
  assumes v: "kama_valid pl mapped (st, H)" and pl: "platform_ok pl mapped" and c: "c < class_count"
    and x: "H x = Some (get_size c)"
  shows "threads (give_one pl c x st) = threads st"
    and "kama_valid pl mapped (give_one pl c x st, H(x := None))"
proof -
  note ok = kama_valid_parts(1) [OF v]
  note p = kama_ok_parts [OF ok]
  define out where "out = (dom H - larges (st_used st)) \<union> cached (threads st)"
  let ?st = "give_one pl c x st"
  have cl: "in_class (st_used st) c x"
    using kama_valid_parts(2) [OF v x] fits_class [OF c] by blast
  have xl: "x \<notin> larges (st_used st)" by (rule in_class_not_large [OF p(1) platform_pos [OF pl] cl])
  with x have xo: "x \<in> out" by (auto simp: out_def)
  have xc: "x \<notin> cached (threads st)" using p(4) x by blast
  note b = return_block_ok [OF p(1) [folded out_def] pl xo cl]
  show "threads ?st = threads st" by (simp add: give_one_def)
  have o: "out - {x} = (dom H - {x} - larges (st_used st)) \<union> cached (threads st)"
    using xc by (auto simp: out_def)
  have "lists_ok (st_used ?st) (threads st)"
    unfolding give_one_def by (rule lists_ok_frame [OF p(2), of "out - {x}"]) (simp add: b(2), simp add: o)
  then have "kama_ok pl mapped (dom H - {x}) ?st"
    using p(3,4) b(1) xl by (auto simp: kama_ok_def give_one_def larges_frame [OF b(2)] o)
  moreover have "keeps pl (dom H - {x}) (st_used st) (st_used ?st)"
    by (rule keeps_frame [OF p(1) platform_pos [OF pl]])
      (rule frame_mono [of "out - {x}"], simp_all add: give_one_def b(2), simp add: o)
  ultimately show "kama_valid pl mapped (?st, H(x := None))" by (rule kama_valid_remove [OF v])
qed

text \<open>A list replaced: its new blocks were in it or held, and those it lost are held.\<close>

definition relisted :: "nat \<Rightarrow> nat set \<Rightarrow> nat set \<Rightarrow> (nat \<rightharpoonup> nat) \<Rightarrow> nat \<rightharpoonup> nat" where
  "relisted c old new H x =
     (if x \<in> new then None else if x \<in> old then Some (get_size c) else H x)"

lemma relisted_none [simp]: "relisted c {} {} H = H"
  by (simp add: relisted_def fun_eq_iff)

lemma relisted_push: "(\<And>x. x \<in> old \<Longrightarrow> x \<notin> dom H) \<Longrightarrow> relisted c old (insert p old) H = H(p := None)"
  by (rule ext) (fastforce simp: relisted_def domIff)

lemma relist_valid:
  assumes v: "kama_valid pl mapped (st, H)" and pl: "platform_ok pl mapped" and c: "c < class_count"
    and d: "distinct l" "n = length l"
    and new: "\<And>x. x \<in> set l \<Longrightarrow> x \<in> set (tc_list (threads st t) c) \<or> x \<in> dom H \<and> in_class (st_used st) c x"
  shows "kama_valid pl mapped (set_class t c l n st, relisted c (set (tc_list (threads st t) c)) (set l) H)"
proof -
  note ok = kama_valid_parts(1) [OF v]
  note p = kama_ok_parts [OF ok]
  let ?old = "set (tc_list (threads st t) c)" and ?st = "set_class t c l n st"
  let ?H = "relisted c ?old (set l) H"
  have old: "x \<in> cached (threads st) \<and> x \<notin> dom H \<and> in_class (st_used st) c x" if "x \<in> ?old" for x
    using cached_mem [of x "threads st" t c, OF that] lists_ok_dest(3) [OF p(2) that] p(4) by blast
  have cl: "\<forall>x \<in> set l. in_class (st_used st) c x" using new old by blast
  have other: "\<forall>x \<in> set l. \<forall>t' c'. x \<in> set (tc_list (threads st t') c') \<longrightarrow> t' = t \<and> c' = c"
  proof (intro ballI allI impI)
    fix x t' c' assume x: "x \<in> set l" "x \<in> set (tc_list (threads st t') c')"
    from cached_mem [of x "threads st" t' c', OF x(2)] p(4) have "x \<notin> dom H" by blast
    with new [OF x(1)] have "x \<in> ?old" by blast
    with lists_ok_dest(4) [OF p(2) x(2)] show "t' = t \<and> c' = c" by blast
  qed
  note s = lists_ok_set [OF p(2) d cl other]
  have small: "x \<notin> larges (st_used st)" if "in_class (st_used st) c x" for x
    by (rule in_class_not_large [OF p(1) platform_pos [OF pl] that])
  have dm: "dom ?H = (dom H - set l) \<union> (?old - set l)"
    by (auto simp: relisted_def dom_def split: if_splits)
  have cd: "cached (threads ?st) = (cached (threads st) - ?old) \<union> set l" by (rule s(2))
  have out: "(dom ?H - larges (st_used st)) \<union> cached (threads ?st)
      = (dom H - larges (st_used st)) \<union> cached (threads st)"
    unfolding dm cd using old new small cl by blast
  have "larges (st_used st) \<subseteq> dom ?H" unfolding dm using p(3) small cl by blast
  moreover have "cached (threads ?st) \<inter> dom ?H = {}" unfolding dm cd using p(4) by blast
  ultimately have ok': "kama_ok pl mapped (dom ?H) ?st"
    using p(1) s(1) unfolding kama_ok_def out set_class_fields by blast
  have "fits pl (st_used ?st) x (norm_bytes m)" if "?H x = Some m" for x m
  proof (cases "x \<in> ?old")
    case True
    with that have "m = get_size c" by (auto simp: relisted_def split: if_splits)
    with old [OF True] show ?thesis unfolding \<open>m = get_size c\<close> by (subst fits_class [OF c]) simp
  next
    case False
    with that have "H x = Some m" by (auto simp: relisted_def split: if_splits)
    from kama_valid_parts(2) [OF v this] show ?thesis by simp
  qed
  with ok' show ?thesis by (simp add: kama_valid_def)
qed

lemma kama_valid_cong:
  "central a = central b \<Longrightarrow> threads a = threads b \<Longrightarrow> kama_valid pl mapped (a, H) = kama_valid pl mapped (b, H)"
  using kama_ok_cong [of a b pl mapped "dom H"] by (simp add: kama_valid_def)

lemma valid_list:
  assumes "kama_valid pl mapped (st, H)"
  shows "distinct (tc_list (threads st t) c)" and "tc_size (threads st t) c = length (tc_list (threads st t) c)"
    and "x \<in> set (tc_list (threads st t) c) \<Longrightarrow> x \<notin> dom H"
proof -
  note p = kama_ok_parts [OF kama_valid_parts(1) [OF assms]]
  show "distinct (tc_list (threads st t) c)" "tc_size (threads st t) c = length (tc_list (threads st t) c)"
    by (rule lists_ok_dest [OF p(2)])+
  show "x \<notin> dom H" if "x \<in> set (tc_list (threads st t) c)"
    using cached_mem [of x "threads st" t c, OF that] p(4) by blast
qed

text \<open>\<open>returnToCentralCache\<close> and the push before it.\<close>

lemma cut_list_valid:
  assumes v: "kama_valid pl mapped (st, H)" and pl: "platform_ok pl mapped" and c: "c < class_count"
    and eq: "cut_list t c st = (st', rest)"
  shows "kama_valid pl mapped (st', relisted c (set rest) {} H)" and "distinct rest"
    and "set rest \<inter> dom H = {}"
    and "\<forall>t' c'. (t', c') \<noteq> (t, c) \<longrightarrow> tc_list (threads st' t') c' = tc_list (threads st t') c'"
proof -
  let ?l = "tc_list (threads st t) c"
  define k where "k = keep_num (get_size c) (length ?l)"
  note ld = valid_list(1,2) [OF v, of t c] valid_list(3) [OF v, of _ t c]
  consider "st' = st" "rest = []"
    | "threads st' = threads (set_class t c (take k ?l) k st)" "central st' = central st"
      "rest = drop k ?l" "k \<le> length ?l"
    using eq unfolding cut_list_def Let_def ld(2) k_def [symmetric] by (auto split: if_splits)
  then have "kama_valid pl mapped (st', relisted c (set rest) {} H) \<and> distinct rest
      \<and> set rest \<inter> dom H = {}
      \<and> (\<forall>t' c'. (t', c') \<noteq> (t, c) \<longrightarrow> tc_list (threads st' t') c' = tc_list (threads st t') c')"
  proof cases
    case 1
    with v show ?thesis by simp
  next
    case 2
    have tk: "distinct (take k ?l)" "k = length (take k ?l)" using ld(1) 2(4) by simp_all
    have "kama_valid pl mapped (set_class t c (take k ?l) k st, relisted c (set ?l) (set (take k ?l)) H)"
      by (rule relist_valid [OF v pl c tk]) (blast dest: in_set_takeD)
    moreover have "relisted c (set ?l) (set (take k ?l)) H = relisted c (set rest) {} H"
    proof
      fix x
      have "set ?l = set (take k ?l) \<union> set (drop k ?l)" by (metis append_take_drop_id set_append)
      moreover have "set (take k ?l) \<inter> set (drop k ?l) = {}"
        using ld(1) by (metis append_take_drop_id distinct_append)
      moreover have "x \<in> set ?l \<Longrightarrow> H x = None" using ld(3) by blast
      ultimately show "relisted c (set ?l) (set (take k ?l)) H x = relisted c (set rest) {} H x"
        by (auto simp: relisted_def 2(3))
    qed
    ultimately have "kama_valid pl mapped (st', relisted c (set rest) {} H)"
      using kama_valid_cong [of st' "set_class t c (take k ?l) k st"] 2(1,2) by simp
    moreover have "set rest \<subseteq> set ?l" by (simp add: 2(3) set_drop_subset)
    ultimately show ?thesis using ld 2 by auto
  qed
  then show "kama_valid pl mapped (st', relisted c (set rest) {} H)" "distinct rest"
    "set rest \<inter> dom H = {}"
    "\<forall>t' c'. (t', c') \<noteq> (t, c) \<longrightarrow> tc_list (threads st' t') c' = tc_list (threads st t') c'" by blast+
qed

lemma push_cut_valid:
  assumes v: "kama_valid pl mapped (st, H)" and pl: "platform_ok pl mapped" and c: "c < class_count"
    and x: "p \<in> dom H" "in_class (st_used st) c p" and eq: "push_cut t c p st = (st', rest)"
  shows "kama_valid pl mapped (st', relisted c (set rest) {} (H(p := None)))" and "distinct rest"
    and "set rest \<inter> (dom H - {p}) = {}"
    and "\<forall>t' c'. (t', c') \<noteq> (t, c) \<longrightarrow> tc_list (threads st' t') c' = tc_list (threads st t') c'"
proof -
  let ?l = "tc_list (threads st t) c"
  let ?st = "set_class t c (p # ?l) (tc_size (threads st t) c + 1) st"
  note ld = valid_list(1,2) [OF v, of t c] valid_list(3) [OF v, of _ t c]
  have d: "distinct (p # ?l)" "tc_size (threads st t) c + 1 = length (p # ?l)"
    using ld x(1) by auto
  have "kama_valid pl mapped (?st, relisted c (set ?l) (set (p # ?l)) H)"
    by (rule relist_valid [OF v pl c d]) (use x in auto)
  moreover have "relisted c (set ?l) (set (p # ?l)) H = H(p := None)"
    unfolding list.set by (rule relisted_push) (rule ld(3))
  ultimately have v1: "kama_valid pl mapped (?st, H(p := None))" by simp
  have "kama_valid pl mapped (st', relisted c (set rest) {} (H(p := None))) \<and> distinct rest
      \<and> set rest \<inter> (dom H - {p}) = {}
      \<and> (\<forall>t' c'. (t', c') \<noteq> (t, c) \<longrightarrow> tc_list (threads st' t') c' = tc_list (threads st t') c')"
  proof (cases "should_return t c ?st")
    case True
    with eq have "cut_list t c ?st = (st', rest)" by (simp add: push_cut_def Let_def)
    note cut = cut_list_valid [OF v1 pl c this]
    then show ?thesis by auto
  next
    case False
    then have "st' = ?st" "rest = []" using eq by (simp_all add: push_cut_def Let_def)
    with v1 show ?thesis by auto
  qed
  then show "kama_valid pl mapped (st', relisted c (set rest) {} (H(p := None)))" "distinct rest"
    "set rest \<inter> (dom H - {p}) = {}"
    "\<forall>t' c'. (t', c') \<noteq> (t, c) \<longrightarrow> tc_list (threads st' t') c' = tc_list (threads st t') c'" by blast+
qed

end
