(* ===== verification/Round_Safety.thy ===== *)
theory Round_Safety
  imports Kama_Rounds
begin

text \<open>
  What holds in every interleaving of the allocator's rounds. Every block is held by the program,
  in the hands of one thread, in one list of one thread, or free in its span; a lock has one
  holder; the rounds of one thread leave the blocks of the others alone.
\<close>

section \<open>The invariant\<close>

definition owns :: "(nat \<Rightarrow> task) \<Rightarrow> (nat \<rightharpoonup> nat) \<Rightarrow> (nat \<rightharpoonup> nat) \<Rightarrow> bool" where
  "owns tk h H \<longleftrightarrow>
     (\<forall>p m. H p = Some m \<longleftrightarrow>
        h p = Some m \<or> (\<exists>t. p \<in> set (in_flight (tk t)) \<and> m = get_size (task_class (tk t))))"

definition flights_apart :: "(nat \<Rightarrow> task) \<Rightarrow> (nat \<rightharpoonup> nat) \<Rightarrow> bool" where
  "flights_apart tk h \<longleftrightarrow>
     (\<forall>t. distinct (in_flight (tk t))) \<and> (\<forall>t p. p \<in> set (in_flight (tk t)) \<longrightarrow> h p = None)
     \<and> (\<forall>t t' p. p \<in> set (in_flight (tk t)) \<longrightarrow> p \<in> set (in_flight (tk t')) \<longrightarrow> t = t')"

fun task_ok :: "thread_cache \<Rightarrow> task \<Rightarrow> bool" where
  "task_ok T Idle = True"
| "task_ok T (Fetching n k xs) = (norm_bytes n \<le> max_bytes \<and> tc_list T (class_of n) = [])"
| "task_ok T (Waiting c xs) = (c < class_count)"
| "task_ok T (Giving c xs) = (c < class_count)"

definition locks_ok :: "(nat \<Rightarrow> task) \<Rightarrow> bool" where
  "locks_ok tk \<longleftrightarrow> (\<forall>t t' c. locked (tk t) = Some c \<longrightarrow> locked (tk t') = Some c \<longrightarrow> t = t')"

definition rounds_ok :: "'o platform \<Rightarrow> ('o \<Rightarrow> nat set) \<Rightarrow> 'o rounds \<Rightarrow> bool" where
  "rounds_ok pl mapped s \<longleftrightarrow>
     (case s of (st, tk, h) \<Rightarrow>
        (\<exists>H. kama_valid pl mapped (st, H) \<and> owns tk h H) \<and> flights_apart tk h
        \<and> (\<forall>t. task_ok (threads st t) (tk t)) \<and> locks_ok tk)"

lemma rounds_okE:
  assumes "rounds_ok pl mapped (st, tk, h)"
  obtains H where "kama_valid pl mapped (st, H)" "owns tk h H" "flights_apart tk h"
    "\<And>t. task_ok (threads st t) (tk t)" "locks_ok tk"
  using assms unfolding rounds_ok_def by blast

lemma rounds_okI:
  assumes "kama_valid pl mapped (st, H)" "owns tk h H \<and> flights_apart tk h"
    "\<And>t. task_ok (threads st t) (tk t)" "locks_ok tk"
  shows "rounds_ok pl mapped (st, tk, h)"
  using assms unfolding rounds_ok_def by blast

lemma owns_dest:
  assumes "owns tk h H"
  shows "h p = Some m \<Longrightarrow> H p = Some m"
    and "p \<in> set (in_flight (tk t)) \<Longrightarrow> H p = Some (get_size (task_class (tk t)))"
  using assms unfolding owns_def by blast+

lemma flight_dest:
  assumes "flights_apart tk h"
  shows "distinct (in_flight (tk t))" and "p \<in> set (in_flight (tk t)) \<Longrightarrow> h p = None"
  using assms unfolding flights_apart_def by blast+

text \<open>
  One thread changes its task, and the program's addresses change with it: on a set \<open>C\<close> of blocks
  that no other thread has in its hands; the rest stays.
\<close>

lemma owns_step:
  assumes ow: "owns tk h H" and fl: "flights_apart tk h"
    and rest: "\<And>p. p \<notin> C \<Longrightarrow> H' p = H p \<and> h' p = h p
      \<and> (p \<in> set (in_flight k) \<longleftrightarrow> p \<in> set (in_flight (tk t)))"
    and cls: "\<And>p. p \<notin> C \<Longrightarrow> p \<in> set (in_flight k) \<Longrightarrow> task_class k = task_class (tk t)"
    and old: "\<And>p. p \<in> C \<Longrightarrow> p \<in> set (in_flight (tk t)) \<or> p \<in> dom h \<or> p \<notin> dom H"
    and new: "\<And>p. p \<in> C \<Longrightarrow> p \<in> set (in_flight k) \<Longrightarrow> h' p = None \<and> H' p = Some (get_size (task_class k))"
    and no: "\<And>p. p \<in> C \<Longrightarrow> p \<notin> set (in_flight k) \<Longrightarrow> H' p = h' p"
    and d: "distinct (in_flight k)"
  shows "owns (tk(t := k)) h' H' \<and> flights_apart (tk(t := k)) h'"
proof -
  have alone: "p \<notin> set (in_flight (tk t'))" if "p \<in> C" "t' \<noteq> t" for p t'
    using old [OF that(1)] that(2) fl owns_dest(2) [OF ow, of p t'] unfolding flights_apart_def by fastforce
  have mine: "H' p = Some m \<longleftrightarrow> h' p = Some m
      \<or> (\<exists>t'. p \<in> set (in_flight ((tk(t := k)) t')) \<and> m = get_size (task_class ((tk(t := k)) t')))" for p m
  proof (cases "p \<in> C")
    case True
    have "(\<exists>t'. p \<in> set (in_flight ((tk(t := k)) t')) \<and> m = get_size (task_class ((tk(t := k)) t')))
        \<longleftrightarrow> p \<in> set (in_flight k) \<and> m = get_size (task_class k)"
      using alone [OF True] by (metis fun_upd_apply)
    moreover have "H' p = Some m \<longleftrightarrow> h' p = Some m \<or> p \<in> set (in_flight k) \<and> m = get_size (task_class k)"
      using new [OF True] no [OF True] by (cases "p \<in> set (in_flight k)") auto
    ultimately show ?thesis by blast
  next
    case False
    have "(\<exists>t'. p \<in> set (in_flight ((tk(t := k)) t')) \<and> m = get_size (task_class ((tk(t := k)) t')))
        \<longleftrightarrow> (\<exists>t'. p \<in> set (in_flight (tk t')) \<and> m = get_size (task_class (tk t')))"
      using rest [OF False] cls [OF False] by (metis fun_upd_apply)
    with rest [OF False] ow show ?thesis unfolding owns_def by simp
  qed
  have gone: "h' p = None" if "p \<in> set (in_flight ((tk(t := k)) t'))" for p t'
  proof (cases "p \<in> C")
    case True
    with that alone [OF True] have "p \<in> set (in_flight k)" by (auto split: if_splits)
    with new [OF True] show ?thesis by blast
  next
    case False
    with that rest [OF False] have "p \<in> set (in_flight (tk t'))" by (auto split: if_splits)
    with rest [OF False] fl show ?thesis unfolding flights_apart_def by metis
  qed
  have uniq: "t1 = t2"
    if "p \<in> set (in_flight ((tk(t := k)) t1))" "p \<in> set (in_flight ((tk(t := k)) t2))" for p t1 t2
  proof (cases "p \<in> C")
    case True
    with that alone [OF True] show ?thesis by (auto split: if_splits)
  next
    case False
    with that rest [OF False] have "p \<in> set (in_flight (tk t1))" "p \<in> set (in_flight (tk t2))"
      by (auto split: if_splits)
    with fl show ?thesis unfolding flights_apart_def by metis
  qed
  have "distinct (in_flight ((tk(t := k)) t'))" for t'
    using d fl by (simp add: flights_apart_def)
  then show ?thesis
    unfolding owns_def flights_apart_def using mine gone uniq by (intro conjI allI impI)
qed

lemma locks_ok_step:
  assumes "locks_ok tk" and "locked k = locked (tk t) \<or> (\<forall>c. locked k = Some c \<longrightarrow> lock_free tk c)"
  shows "locks_ok (tk(t := k))"
  unfolding locks_ok_def
proof (intro allI impI)
  fix t1 t2 c assume h: "locked ((tk(t := k)) t1) = Some c" "locked ((tk(t := k)) t2) = Some c"
  show "t1 = t2"
    using assms(2)
  proof
    assume "locked k = locked (tk t)"
    then have "locked (tk t1) = Some c" "locked (tk t2) = Some c" using h by (auto split: if_splits)
    with assms(1) show ?thesis unfolding locks_ok_def by blast
  next
    assume "\<forall>c. locked k = Some c \<longrightarrow> lock_free tk c"
    with h assms(1) show ?thesis unfolding locks_ok_def lock_free_def by (auto split: if_splits)
  qed
qed

section \<open>Every round keeps it\<close>

lemma tasks_ok_step:
  assumes "\<And>t. task_ok (threads st t) (tk t)" and "task_ok (threads st' t) k"
    and "\<And>t'. t' \<noteq> t \<Longrightarrow> tc_list (threads st' t') = tc_list (threads st t')"
  shows "task_ok (threads st' u) ((tk(t := k)) u)"
proof (cases "u = t")
  case False
  have "task_ok (threads st' u) (tk u) = task_ok (threads st u) (tk u)"
    using assms(3) [OF False] by (cases "tk u") simp_all
  with assms(1) False show ?thesis by simp
qed (use assms(2) in simp)

text \<open>A step from one state to the next, from the parts.\<close>

lemma rounds_ok_step:
  assumes v: "kama_valid pl mapped (st', H')" and ow: "owns tk h H" and fl: "flights_apart tk h"
    and ta: "\<And>t. task_ok (threads st t) (tk t)" and lo: "locks_ok tk"
    and own: "owns (tk(t := k)) h' H' \<and> flights_apart (tk(t := k)) h'"
    and task: "task_ok (threads st' t) k"
    and th: "\<And>t'. t' \<noteq> t \<Longrightarrow> tc_list (threads st' t') = tc_list (threads st t')"
    and lock: "locked k = locked (tk t) \<or> (\<forall>c. locked k = Some c \<longrightarrow> lock_free tk c)"
  shows "rounds_ok pl mapped (st', tk(t := k), h')"
proof (rule rounds_okI [OF v own _ locks_ok_step [OF lo lock]])
  show "task_ok (threads st' u) ((tk(t := k)) u)" for u
    by (rule tasks_ok_step [OF ta task th])
qed

lemma class_of_less: "norm_bytes n \<le> max_bytes \<Longrightarrow> class_of n < class_count"
  using get_index_less by simp

lemma push_task_ok:
  assumes ok: "rounds_ok pl mapped (st, tk, h)" and pl: "platform_ok pl mapped" and idle: "tk t = Idle"
    and p: "p \<in> dom h" and c: "c < class_count" and cl: "in_class (st_used st) c p"
    and eq: "push_task t c p st = (b, st', k)"
  shows "rounds_ok pl mapped (st', tk(t := k), if b then h(p := None) else h)"
proof -
  obtain H where H: "kama_valid pl mapped (st, H)" "owns tk h H" "flights_apart tk h"
    "\<And>t. task_ok (threads st t) (tk t)" "locks_ok tk" using ok by (rule rounds_okE) blast
  obtain rest where e: "push_cut t c p st = (st', rest)" "b" "k = give_task c rest"
    using eq by (auto simp: push_task_def split: prod.splits)
  have pH: "p \<in> dom H" using p owns_dest(1) [OF H(2), of p] by blast
  note q = push_cut_valid [OF H(1) pl c pH cl e(1)]
  have fk: "in_flight k = rest" "rest \<noteq> [] \<Longrightarrow> task_class k = c" "locked k = None"
    "task_ok (threads st' t) k" using c by (simp_all add: e(3) give_task_def)
  have own: "owns (tk(t := k)) (h(p := None)) (relisted c (set rest) {} (H(p := None)))
      \<and> flights_apart (tk(t := k)) (h(p := None))"
  proof (rule owns_step [OF H(2,3), where C = "insert p (set rest)"])
    show "y \<in> set (in_flight (tk t)) \<or> y \<in> dom h \<or> y \<notin> dom H" if "y \<in> insert p (set rest)" for y
      using that p q(3) by blast
    show "(h(p := None)) y = None \<and> relisted c (set rest) {} (H(p := None)) y = Some (get_size (task_class k))"
      if "y \<in> set (in_flight k)" for y
    proof -
      have y: "y \<in> set rest" using that fk(1) by simp
      then have "task_class k = c" using fk(2) by force
      moreover have "y \<notin> dom H - {p}" using y q(3) by blast
      moreover from this have "y \<noteq> p \<Longrightarrow> h y = None" using owns_dest(1) [OF H(2), of y] by fastforce
      ultimately show ?thesis using y by (auto simp: relisted_def)
    qed
  qed (use idle fk q(2) in \<open>auto simp: relisted_def\<close>)
  have "rounds_ok pl mapped (st', tk(t := k), h(p := None))"
    by (rule rounds_ok_step [OF q(1) H(2-5) own fk(4)]) (use q(4) fk(3) in \<open>auto simp: fun_eq_iff\<close>)
  with e(2) show ?thesis by simp
qed

lemma held_cases:
  assumes v: "kama_valid pl mapped (st, H)" and pl: "platform_ok pl mapped" and p: "p \<in> dom H"
  obtains i s where "st_used st i = Some s" "find_span pl (Some p) (page_cache_of (central st)) = Some i"
    "is_large s"
  | i s where "st_used st i = Some s" "find_span pl (Some p) (page_cache_of (central st)) = Some i"
    "\<not> is_large s" "size_class s < class_count" "in_class (st_used st) (size_class s) p"
proof -
  note q = kama_ok_parts [OF kama_valid_parts(1) [OF v]]
  have sp: "spans_ok pl (st_used st) (partial_spans (central st))
      ((dom H - larges (st_used st)) \<union> cached (threads st))"
    using q(1) by (simp add: central_ok_def)
  show thesis
  proof (cases "p \<in> larges (st_used st)")
    case True
    then obtain i s where "st_used st i = Some s" "is_large s" "page_addr s = p" by (auto simp: larges_def)
    with find_large [OF q(1), of i s] that(1) show thesis by blast
  next
    case False
    with p have "p \<in> (dom H - larges (st_used st)) \<union> cached (threads st)" by blast
    then obtain i s where s: "st_used st i = Some s" "\<not> is_large s" "p \<in> blocks_of s"
      by (rule spans_ok_out [OF sp])
    have "in_class (st_used st) (size_class s) p" using s unfolding in_class_def by blast
    with find_in_class [OF q(1) platform_pos [OF pl] s] s that(2) show thesis by blast
  qed
qed

text \<open>The two frees.\<close>

lemma free_begin_ok:
  assumes ok: "rounds_ok pl mapped (st, tk, h)" and pl: "platform_ok pl mapped" and idle: "tk t = Idle"
    and p: "p \<in> dom h" and eq: "free_begin pl t p st = (b, st', k)"
  shows "b" and "rounds_ok pl mapped (st', tk(t := k), if b then h(p := None) else h)"
proof -
  obtain H where H: "kama_valid pl mapped (st, H)" "owns tk h H" "flights_apart tk h"
    "\<And>t. task_ok (threads st t) (tk t)" "locks_ok tk" using ok by (rule rounds_okE) blast
  have pH: "p \<in> dom H" using p owns_dest(1) [OF H(2), of p] by blast
  have "b \<and> rounds_ok pl mapped (st', tk(t := k), if b then h(p := None) else h)"
  proof (rule held_cases [OF H(1) pl pH])
    fix i s assume s: "st_used st i = Some s" "is_large s"
      "find_span pl (Some p) (page_cache_of (central st)) = Some i"
    note at = span_at_used [OF s(1)]
    have e: "b" "k = Idle" "tc_deallocate pl t (Some p) st = (True, st')" "threads st' = threads st"
      using eq s by (auto simp: free_begin_def tc_deallocate_def Let_def at)
    note d = tc_deallocate_ok [OF kama_valid_parts(1) [OF H(1)] pl pH e(3)]
    have v: "kama_valid pl mapped (st', H(p := None))" by (rule kama_valid_remove [OF H(1) d(2,3)])
    have "owns (tk(t := Idle)) (h(p := None)) (H(p := None)) \<and> flights_apart (tk(t := Idle)) (h(p := None))"
      by (rule owns_step [OF H(2,3), where C = "{p}"]) (use idle p in auto)
    then have "rounds_ok pl mapped (st', tk(t := Idle), h(p := None))"
      by (rule rounds_ok_step [OF v H(2-5)]) (simp_all add: e idle)
    with e show ?thesis by simp
  next
    fix i s assume s: "st_used st i = Some s" "find_span pl (Some p) (page_cache_of (central st)) = Some i"
      "\<not> is_large s" "size_class s < class_count" "in_class (st_used st) (size_class s) p"
    note at = span_at_used [OF s(1)]
    have e: "push_task t (size_class s) p st = (b, st', k)"
      using eq s by (simp add: free_begin_def Let_def at)
    moreover from this have "b" by (auto simp: push_task_def split: prod.splits)
    ultimately show ?thesis using push_task_ok [OF ok pl idle p s(4,5)] by blast
  qed
  then show "b" "rounds_ok pl mapped (st', tk(t := k), if b then h(p := None) else h)" by blast+
qed

lemma free_sized_begin_ok:
  assumes ok: "rounds_ok pl mapped (st, tk, h)" and pl: "platform_ok pl mapped" and idle: "tk t = Idle"
    and p: "h p = Some n" and eq: "free_sized_begin pl t p n st = (b, st', k)"
  shows "b" and "rounds_ok pl mapped (st', tk(t := k), if b then h(p := None) else h)"
proof -
  have pd: "p \<in> dom h" using p by blast
  have "b \<and> rounds_ok pl mapped (st', tk(t := k), if b then h(p := None) else h)"
  proof (cases "norm_bytes n > max_bytes")
    case True
    with eq have "free_begin pl t p st = (b, st', k)" by (simp add: free_sized_begin_def)
    from free_begin_ok [OF ok pl idle pd this] show ?thesis by blast
  next
    case False
    then have n: "norm_bytes n \<le> max_bytes" by simp
    note c = class_of_less [OF n]
    have ru: "get_index (round_up (norm_bytes n)) = class_of n"
      using n c get_index_size [of "class_of n"] by (simp add: round_up_def get_size_def)
    have e: "push_task t (class_of n) p st = (b, st', k)"
      using eq n c by (simp add: free_sized_begin_def ru Let_def)
    then have "b" by (auto simp: push_task_def split: prod.splits)
    obtain H where "kama_valid pl mapped (st, H)" "owns tk h H" using ok by (rule rounds_okE) blast
    then have "in_class (st_used st) (class_of n) p"
      using held_class [of pl mapped st H p n] owns_dest(1) [of tk h H p n] p n by blast
    from push_task_ok [OF ok pl idle pd c this e] \<open>b\<close> show ?thesis by blast
  qed
  then show "b" "rounds_ok pl mapped (st', tk(t := k), if b then h(p := None) else h)" by blast+
qed

text \<open>The other steps. First those that move no block.\<close>

lemma still_step:
  assumes ok: "rounds_ok pl mapped (st, tk, h)" and same: "in_flight k = in_flight (tk t)"
    and cls: "in_flight k = [] \<or> task_class k = task_class (tk t)" and task: "task_ok (threads st t) k"
    and lock: "locked k = locked (tk t) \<or> (\<forall>c. locked k = Some c \<longrightarrow> lock_free tk c)"
  shows "rounds_ok pl mapped (st, tk(t := k), h)"
proof -
  obtain H where H: "kama_valid pl mapped (st, H)" "owns tk h H" "flights_apart tk h"
    "\<And>t. task_ok (threads st t) (tk t)" "locks_ok tk" using ok by (rule rounds_okE) blast
  have "owns (tk(t := k)) h H \<and> flights_apart (tk(t := k)) h"
    by (rule owns_step [OF H(2,3), where C = "{}"]) (use same cls H(3) in \<open>auto simp: flights_apart_def\<close>)
  from rounds_ok_step [OF H(1-5) this task _ lock] show ?thesis by simp
qed

text \<open>The program receives an address.\<close>

lemma receive_step:
  assumes ok: "rounds_ok pl mapped (st, tk, h)" and idle: "tk t = Idle"
    and new: "\<And>H. kama_valid pl mapped (st, H) \<Longrightarrow> p \<notin> dom H \<and> kama_valid pl mapped (st', H(p \<mapsto> n))"
    and th: "\<And>t'. t' \<noteq> t \<Longrightarrow> tc_list (threads st' t') = tc_list (threads st t')"
  shows "rounds_ok pl mapped (st', tk, h(p \<mapsto> n))"
proof -
  obtain H where H: "kama_valid pl mapped (st, H)" "owns tk h H" "flights_apart tk h"
    "\<And>t. task_ok (threads st t) (tk t)" "locks_ok tk" using ok by (rule rounds_okE) blast
  note n = new [OF H(1)]
  have "owns (tk(t := Idle)) (h(p \<mapsto> n)) (H(p \<mapsto> n)) \<and> flights_apart (tk(t := Idle)) (h(p \<mapsto> n))"
    by (rule owns_step [OF H(2,3), where C = "{p}"]) (use idle n in auto)
  from rounds_ok_step [OF conjunct2 [OF n] H(2-5) this _ th] idle
  show ?thesis by (simp add: fun_upd_idem)
qed

lemma tc_allocate_step:
  assumes ok: "rounds_ok pl mapped (st, tk, h)" and pl: "platform_ok pl mapped" and idle: "tk t = Idle"
    and eq: "tc_allocate pl t n st = (r, st')"
    and th: "\<And>t'. t' \<noteq> t \<Longrightarrow> tc_list (threads st' t') = tc_list (threads st t')"
  shows "rounds_ok pl mapped (st', tk, case r of None \<Rightarrow> h | Some p \<Rightarrow> h(p \<mapsto> n))"
proof (cases r)
  case None
  obtain H where H: "kama_valid pl mapped (st, H)" "owns tk h H" "flights_apart tk h"
    "\<And>t. task_ok (threads st t) (tk t)" "locks_ok tk" using ok by (rule rounds_okE) blast
  have "owns (tk(t := Idle)) h H \<and> flights_apart (tk(t := Idle)) h"
    by (rule owns_step [OF H(2,3), where C = "{}"]) (use idle H(3) in \<open>auto simp: flights_apart_def\<close>)
  from rounds_ok_step [OF tc_allocate_valid(1) [OF H(1) pl eq None] H(2-5) this _ th] idle
  show ?thesis by (simp add: None fun_upd_idem)
next
  case (Some p)
  have "rounds_ok pl mapped (st', tk, h(p \<mapsto> n))"
    by (rule receive_step [OF ok idle _ th]) (rule tc_allocate_valid(2) [OF _ pl eq Some])
  then show ?thesis by (simp add: Some)
qed

lemma fetch_round_ok:
  assumes ok: "rounds_ok pl mapped (st, tk, h)" and pl: "platform_ok pl mapped"
    and task: "tk t = Fetching n m got" and eq: "fetch_one pl (class_of n) st = (r, st')"
  shows "r = None \<Longrightarrow> rounds_ok pl mapped (st', tk(t := Fetching n k got), h)"
    and "r = Some x \<Longrightarrow> rounds_ok pl mapped (st', tk(t := Fetching n k (got @ [x])), h)"
proof -
  obtain H where H: "kama_valid pl mapped (st, H)" "owns tk h H" "flights_apart tk h"
    "\<And>t. task_ok (threads st t) (tk t)" "locks_ok tk" using ok by (rule rounds_okE) blast
  have t: "norm_bytes n \<le> max_bytes" "tc_list (threads st t) (class_of n) = []"
    using H(4) [of t] task by simp_all
  note f = fetch_one_valid [OF H(1) pl class_of_less [OF t(1)] eq]
  have d: "distinct got" using flight_dest(1) [OF H(3), of t] task by simp
  show "rounds_ok pl mapped (st', tk(t := Fetching n k got), h)" if "r = None"
  proof -
    have "owns (tk(t := Fetching n k got)) h H \<and> flights_apart (tk(t := Fetching n k got)) h"
      by (rule owns_step [OF H(2,3), where C = "{}"]) (use task d in auto)
    from rounds_ok_step [OF f(2) [OF that] H(2-5) this] t task show ?thesis by (simp add: f(1))
  qed
  show "rounds_ok pl mapped (st', tk(t := Fetching n k (got @ [x])), h)" if "r = Some x"
  proof -
    note v = f(3) [OF that]
    have x: "h x = None" "x \<notin> set got"
      using v owns_dest(1) [OF H(2), of x] owns_dest(2) [OF H(2), of x t] task by auto
    have "owns (tk(t := Fetching n k (got @ [x]))) h (H(x \<mapsto> get_size (class_of n)))
        \<and> flights_apart (tk(t := Fetching n k (got @ [x]))) h"
      by (rule owns_step [OF H(2,3), where C = "{x}"]) (use task d x v in auto)
    from rounds_ok_step [OF conjunct2 [OF v] H(2-5) this] t task show ?thesis by (simp add: f(1))
  qed
qed

lemma fetch_end_ok:
  assumes ok: "rounds_ok pl mapped (st, tk, h)" and pl: "platform_ok pl mapped"
    and task: "tk t = Fetching n 0 (x # l)"
    and eq: "st' = record_central_refill (length (x # l))
      (set_class t (class_of n) l (tc_size (threads st t) (class_of n) + length l) st)"
  shows "rounds_ok pl mapped (st', tk(t := Idle), h(x \<mapsto> n))"
proof -
  obtain H where H: "kama_valid pl mapped (st, H)" "owns tk h H" "flights_apart tk h"
    "\<And>t. task_ok (threads st t) (tk t)" "locks_ok tk" using ok by (rule rounds_okE) blast
  let ?c = "class_of n"
  have t: "norm_bytes n \<le> max_bytes" "tc_list (threads st t) ?c = []"
    using H(4) [of t] task by simp_all
  note c = class_of_less [OF t(1)]
  have d: "distinct (x # l)" using flight_dest(1) [OF H(3), of t] task by simp
  have mine: "H y = Some (get_size ?c)" "h y = None" if "y \<in> set (x # l)" for y
    using owns_dest(2) [OF H(2), of y t] flight_dest(2) [OF H(3), of y t] that task by simp_all
  have cl: "in_class (st_used st) ?c y" if "y \<in> set (x # l)" for y
    using kama_valid_parts(2) [OF H(1) mine(1) [OF that]] fits_class [OF c] by blast
  have n0: "tc_size (threads st t) ?c + length l = length l"
    using valid_list(2) [OF H(1), of t ?c] t(2) by simp
  let ?s = "set_class t ?c l (tc_size (threads st t) ?c + length l) st"
  have "kama_valid pl mapped (?s, relisted ?c {} (set l) H)"
    using relist_valid [OF H(1) pl c _ n0, of t] d mine(1) cl t(2) by fastforce
  then have v0: "kama_valid pl mapped (st', relisted ?c {} (set l) H)"
    using kama_valid_cong [of st' ?s] by (simp add: eq)
  have used: "st_used st' = st_used st" by (simp add: eq)
  have "x \<in> dom H" using mine(1) [of x] by (simp add: domIff)
  moreover have "x \<notin> set l" using d by simp
  ultimately have "insert x (dom (relisted ?c {} (set l) H)) = dom (relisted ?c {} (set l) H)"
    by (auto simp: relisted_def dom_def)
  moreover have "fits pl (st_used st) x (norm_bytes n)" using cl [of x] t(1) by (simp add: fits_def)
  ultimately have v: "kama_valid pl mapped (st', (relisted ?c {} (set l) H)(x \<mapsto> n))"
    using v0 unfolding kama_valid_def fst_conv snd_conv dom_fun_upd used by auto
  have "owns (tk(t := Idle)) (h(x \<mapsto> n)) ((relisted ?c {} (set l) H)(x \<mapsto> n))
      \<and> flights_apart (tk(t := Idle)) (h(x \<mapsto> n))"
  proof (rule owns_step [OF H(2,3), where C = "set (x # l)"])
    show "((relisted ?c {} (set l) H)(x \<mapsto> n)) y = (h(x \<mapsto> n)) y" if "y \<in> set (x # l)" for y
      using mine(2) [OF that] that by (cases "y = x") (simp_all add: relisted_def)
  qed (simp_all add: task relisted_def)
  from rounds_ok_step [OF v H(2-5) this] show ?thesis by (simp add: eq fun_eq_iff)
qed

lemma give_round_ok:
  assumes ok: "rounds_ok pl mapped (st, tk, h)" and pl: "platform_ok pl mapped"
    and task: "tk t = Giving c (x # xs)"
  shows "rounds_ok pl mapped (give_one pl c x st, tk(t := Giving c xs), h)"
proof -
  obtain H where H: "kama_valid pl mapped (st, H)" "owns tk h H" "flights_apart tk h"
    "\<And>t. task_ok (threads st t) (tk t)" "locks_ok tk" using ok by (rule rounds_okE) blast
  have c: "c < class_count" using H(4) [of t] task by simp
  have d: "distinct (x # xs)" using flight_dest(1) [OF H(3), of t] task by simp
  have x: "H x = Some (get_size c)" "h x = None"
    using owns_dest(2) [OF H(2), of x t] flight_dest(2) [OF H(3), of x t] task by simp_all
  note g = give_one_valid [OF H(1) pl c x(1)]
  have "owns (tk(t := Giving c xs)) h (H(x := None)) \<and> flights_apart (tk(t := Giving c xs)) h"
    by (rule owns_step [OF H(2,3), where C = "{x}"]) (use task d x in auto)
  from rounds_ok_step [OF g(2) H(2-5) this] c task show ?thesis by (simp add: g(1))
qed

lemma flush_class_ok:
  assumes ok: "rounds_ok pl mapped (st, tk, h)" and pl: "platform_ok pl mapped" and idle: "tk t = Idle"
    and c: "c < class_count"
  shows "rounds_ok pl mapped (set_class t c [] 0 st, tk(t := Waiting c (tc_list (threads st t) c)), h)"
proof -
  obtain H where H: "kama_valid pl mapped (st, H)" "owns tk h H" "flights_apart tk h"
    "\<And>t. task_ok (threads st t) (tk t)" "locks_ok tk" using ok by (rule rounds_okE) blast
  let ?l = "tc_list (threads st t) c" and ?H = "relisted c (set (tc_list (threads st t) c)) {} H"
  have v: "kama_valid pl mapped (set_class t c [] 0 st, ?H)"
    using relist_valid [OF H(1) pl c, of "[]" 0 t] by simp
  note l = valid_list(1) [OF H(1), of t c] valid_list(3) [OF H(1), of _ t c]
  have h: "h x = None" if "x \<in> set ?l" for x using l(2) [OF that] owns_dest(1) [OF H(2), of x] by fastforce
  have "owns (tk(t := Waiting c ?l)) h ?H \<and> flights_apart (tk(t := Waiting c ?l)) h"
  proof (rule owns_step [OF H(2,3), where C = "set ?l"])
    show "y \<in> set (in_flight (tk t)) \<or> y \<in> dom h \<or> y \<notin> dom H" if "y \<in> set ?l" for y
      using l(2) [OF that] by blast
    show "h y = None \<and> ?H y = Some (get_size (task_class (Waiting c ?l)))" if "y \<in> set ?l" for y
      using h [OF that] that by (simp add: relisted_def)
  qed (simp_all add: idle relisted_def l(1))
  from rounds_ok_step [OF v H(2-5) this] c idle show ?thesis by (simp add: fun_eq_iff)
qed

lemma round_step_ok:
  assumes "round_step pl s s'" and "rounds_ok pl mapped s" and pl: "platform_ok pl mapped"
  shows "rounds_ok pl mapped s'"
  using assms(1,2)
proof (induction rule: round_step.induct)
  case (take_cached tk t n st x l h)
  have "tc_allocate pl t n st
      = (Some x, set_class t (class_of n) l (tc_size (threads st t) (class_of n) - 1) st)"
    using take_cached.hyps(2,3) by (simp add: tc_allocate_def Let_def norm_bytes_def split: if_splits)
  from tc_allocate_step [OF take_cached.prems pl take_cached.hyps(1) this]
  show ?case by (simp add: fun_eq_iff)
next
  case (fetch_begin tk t n st h)
  show ?case by (rule still_step [OF fetch_begin.prems]) (use fetch_begin.hyps in simp_all)
next
  case (fetch_round tk t n k got st x st' h)
  from fetch_round_ok(2) [OF fetch_round.prems pl fetch_round.hyps refl] show ?case .
next
  case (fetch_short tk t n k got st st' h)
  from fetch_round_ok(1) [OF fetch_short.prems pl fetch_short.hyps refl] show ?case .
next
  case (fetch_end tk t n x l st h)
  from fetch_end_ok [OF fetch_end.prems pl fetch_end.hyps refl] show ?case .
next
  case (fetch_fail tk t n st h)
  show ?case by (rule still_step [OF fetch_fail.prems]) (use fetch_fail.hyps in simp_all)
next
  case (large_alloc tk t n st r st' h)
  have "tc_allocate pl t n st = (r, st')"
    using large_alloc.hyps(2,3) by (simp add: tc_allocate_def Let_def norm_bytes_def split: if_splits)
  moreover have "threads st' = threads st"
    using large_alloc.hyps(3)
    by (auto simp: allocate_large_def Let_def split: if_splits option.splits prod.splits)
  ultimately show ?case using tc_allocate_step [OF large_alloc.prems pl large_alloc.hyps(1)] by simp
next
  case (free_block tk t p h st b st' k)
  from free_begin_ok(2) [OF free_block.prems pl free_block.hyps] show ?case .
next
  case (free_sized tk t h p n st b st' k)
  from free_sized_begin_ok(2) [OF free_sized.prems pl free_sized.hyps] show ?case .
next
  case (flush_class tk t c st h)
  from flush_class_ok [OF flush_class.prems pl flush_class.hyps(1,2)] show ?case .
next
  case (give_begin tk t c xs st h)
  from give_begin.prems give_begin.hyps(1) have "c < class_count"
    by (elim rounds_okE) (metis task_ok.simps(3))
  then show ?case by (intro still_step [OF give_begin.prems]) (use give_begin.hyps in simp_all)
next
  case (give_round tk t c x xs st h)
  from give_round_ok [OF give_round.prems pl give_round.hyps] show ?case .
next
  case (give_end tk t c st h)
  show ?case by (rule still_step [OF give_end.prems]) (use give_end.hyps in simp_all)
qed

section \<open>Every interleaving\<close>

definition rounds_invar :: "'o platform \<Rightarrow> ('o \<Rightarrow> nat set) \<Rightarrow> 'o rounds \<Rightarrow> bool" where
  "rounds_invar pl mapped s \<longleftrightarrow> platform_ok pl mapped \<longrightarrow> rounds_ok pl mapped s"

lemma rounds_start_ok: "rounds_start s \<Longrightarrow> rounds_ok pl mapped s"
  unfolding rounds_start_def rounds_ok_def
  by (auto simp: owns_def flights_apart_def locks_ok_def intro!: exI [of _ Map.empty] kama_new_valid)

interpretation rounds: invariant_system rounds_start "round_step pl" "rounds_invar pl mapped"
  for pl :: "'o platform" and mapped
  by unfold_locales (auto simp: rounds_invar_def rounds_start_ok intro: round_step_ok)

lemma reachable_rounds:
  assumes "platform_ok pl mapped" "rounds_start s" "(round_step pl)\<^sup>*\<^sup>* s s'"
  shows "rounds_ok pl mapped s'"
  using rounds.reachable_invar [OF assms(2,3), of mapped] assms(1) by (simp add: rounds_invar_def)

text \<open>
  C14: whatever the order in which the threads' rounds interleave, the bytes of an address the
  program holds lie in mapped memory and meet the bytes of no other address held; no thread has
  the address in its lists or in its hands; and two threads never hold the lock of one class.
\<close>

theorem interleaved_rounds_safe:
  assumes "platform_ok pl mapped" and "rounds_start s" and "(round_step pl)\<^sup>*\<^sup>* s (st, tk, h)"
    and "h p = Some n"
  shows "0 < p \<and> p + norm_bytes n \<le> 2 ^ 64
    \<and> (\<forall>y \<in> {p ..< p + norm_bytes n}. y div page_size pl \<in> mapped (os_state (page_cache_of (central st))))
    \<and> (\<forall>q m. h q = Some m \<longrightarrow> q \<noteq> p \<longrightarrow> {p ..< p + norm_bytes n} \<inter> {q ..< q + norm_bytes m} = {})
    \<and> (\<forall>t c. p \<notin> set (tc_list (threads st t) c) \<and> p \<notin> set (in_flight (tk t)))
    \<and> (\<forall>t t' c. locked (tk t) = Some c \<longrightarrow> locked (tk t') = Some c \<longrightarrow> t = t')"
proof -
  from reachable_rounds [OF assms(1-3)] obtain H where
    H: "kama_valid pl mapped (st, H)" "owns tk h H" "flights_apart tk h" "locks_ok tk" by (rule rounds_okE)
  note hp = owns_dest(1) [OF H(2) assms(4)]
  note m = valid_mapped [OF H(1) assms(1) hp]
  have "{p ..< p + norm_bytes n} \<inter> {q ..< q + norm_bytes m} = {}" if "h q = Some m" "q \<noteq> p" for q m
    by (rule valid_disjoint [OF H(1) assms(1) hp owns_dest(1) [OF H(2) that(1)]]) (use that in simp)
  moreover have "p \<notin> set (tc_list (threads st t) c)" for t c
    using valid_list(3) [OF H(1), of p t c] hp by blast
  moreover have "p \<notin> set (in_flight (tk t))" for t using flight_dest(2) [OF H(3), of p t] assms(4) by auto
  ultimately show ?thesis using m H(4) unfolding locks_ok_def by blast
qed

text \<open>Thread 0 is in the loop of \<open>fetchRange\<close> when thread 1 is given a large block.\<close>

definition fetching_run :: "nat \<Rightarrow> task" where
  "fetching_run = (\<lambda>_. Idle)(0 := Fetching 8 (get_batch_num (get_size (class_of 8))) [])"

lemma rounds_run:
  obtains st where "(round_step bump_platform)\<^sup>*\<^sup>* (kama_new (1, {}), \<lambda>_. Idle, Map.empty)
      (st, fetching_run, [4096 \<mapsto> 303104])"
proof -
  let ?w = "kama_new (1, {}) :: (nat \<times> nat set) kama"
  have "free_spans (page_cache_of (central ?w)) = []" "os_state (page_cache_of (central ?w)) = (1, {})"
    by (simp_all add: kama_new_def central_cache_new_def page_cache_new_def)
  from bump_large [OF this, of 1] obtain st where "tc_allocate bump_platform 1 303104 ?w = (Some 4096, st)"
    by auto
  then have a: "allocate_large bump_platform (norm_bytes 303104) ?w = (Some 4096, st)"
    by (simp add: tc_allocate_def norm_bytes_def)
  have "norm_bytes 8 \<le> max_bytes" by (simp add: norm_bytes_def)
  then have s1: "round_step bump_platform (?w, \<lambda>_. Idle, Map.empty) (?w, fetching_run, Map.empty)"
    unfolding fetching_run_def
    by (intro fetch_begin) (simp_all add: kama_new_def thread_cache_new_def lock_free_def)
  have s2: "round_step bump_platform (?w, fetching_run, Map.empty)
      (st, fetching_run, case Some 4096 of None \<Rightarrow> Map.empty | Some p \<Rightarrow> [p \<mapsto> 303104])"
    by (rule large_alloc [where t = 1, OF _ _ a]) (simp_all add: fetching_run_def norm_bytes_def)
  from rtranclp.rtrancl_into_rtrancl [OF r_into_rtranclp [of "round_step bump_platform", OF s1] s2]
  show thesis unfolding option.case by (rule that)
qed

theorem interleaved_rounds_safe_witness:
  "\<exists>st. (round_step bump_platform)\<^sup>*\<^sup>* (kama_new (1, {}), \<lambda>_. Idle, Map.empty)
      (st, fetching_run, [4096 \<mapsto> 303104])
    \<and> locked (fetching_run 0) = Some (class_of 8) \<and> 4096 + norm_bytes 303104 \<le> 2 ^ 64"
proof -
  obtain st where st: "(round_step bump_platform)\<^sup>*\<^sup>* (kama_new (1, {}), \<lambda>_. Idle, Map.empty)
      (st, fetching_run, [4096 \<mapsto> 303104])" by (rule rounds_run)
  have "rounds_start (kama_new (1, {}) :: (nat \<times> nat set) kama, \<lambda>_. Idle, Map.empty)"
    unfolding rounds_start_def by blast
  from interleaved_rounds_safe [OF bump_platform_ok this st, of 4096 303104]
  have "4096 + norm_bytes 303104 \<le> 2 ^ 64" by simp
  moreover have "locked (fetching_run 0) = Some (class_of 8)" by (simp add: fetching_run_def)
  ultimately show ?thesis using st by blast
qed

end
