(* ===== verification/Round_Runs.thy ===== *)
theory Round_Runs
  imports Round_Safety
begin

text \<open>
  The rounds and the calls. A call whose rounds no other thread interrupts has the result it has as
  one step, so the interleavings include the histories of Kama_System; and no interleaving is a
  dead end: the threads inside a call can always finish it, lock holders first.
\<close>

section \<open>Uninterrupted loops\<close>

lemma run1: "round_step pl s s' \<Longrightarrow> (round_step pl)\<^sup>*\<^sup>* s s'"
  by (rule r_into_rtranclp)

lemma fetch_run:
  assumes "tk t = Fetching n k got" and "fetch_loop pl (class_of n) k (central st) = (xs, cc)"
  shows "(round_step pl)\<^sup>*\<^sup>* (st, tk, h) (st\<lparr>central := cc\<rparr>, tk(t := Fetching n 0 (got @ xs)), h)"
  using assms
proof (induction k arbitrary: st tk got xs cc)
  case 0
  then have "xs = []" "cc = central st" "tk(t := Fetching n 0 got) = tk" by auto
  then show ?case by simp
next
  case (Suc k)
  let ?c = "class_of n"
  obtain i cc1 where f: "first_partial pl ?c (central st) = (i, cc1)" by fastforce
  show ?case
  proof (cases i)
    case None
    then have "fetch_one pl ?c st = (None, st\<lparr>central := cc1\<rparr>)" "xs = []" "cc = cc1"
      using f Suc.prems(2) by (simp_all add: fetch_one_def)
    with run1 [OF round_step.fetch_short [of tk t n k got pl st _ h, OF Suc.prems(1)]]
    show ?thesis by (simp del: fun_upd_apply)
  next
    case (Some j)
    obtain x cc2 where b: "take_block ?c j cc1 = (x, cc2)" by fastforce
    obtain ys cc3 where l: "fetch_loop pl ?c k cc2 = (ys, cc3)" by fastforce
    have e: "fetch_one pl ?c st = (Some x, st\<lparr>central := cc2\<rparr>)" "xs = x # ys" "cc = cc3"
      using f b l Some Suc.prems(2) by (simp_all add: fetch_one_def)
    note s = round_step.fetch_round [of tk t n k got pl st x _ h, OF Suc.prems(1) e(1)]
    have "(round_step pl)\<^sup>*\<^sup>* (st\<lparr>central := cc2\<rparr>, tk(t := Fetching n k (got @ [x])), h)
        (st\<lparr>central := cc\<rparr>, tk(t := Fetching n 0 (got @ xs)), h)"
      using Suc.IH [of "tk(t := Fetching n k (got @ [x]))" "got @ [x]" "st\<lparr>central := cc2\<rparr>" ys cc3] l
      by (simp add: e fun_upd_same del: fun_upd_apply)
    with s show ?thesis by (rule converse_rtranclp_into_rtranclp)
  qed
qed

lemma give_run:
  assumes "tk t = Giving c xs"
  shows "(round_step pl)\<^sup>*\<^sup>* (st, tk, h) (st\<lparr>central := return_loop pl c xs (central st)\<rparr>, tk(t := Idle), h)"
  using assms
proof (induction xs arbitrary: st tk)
  case Nil
  from run1 [OF round_step.give_end [of tk t c pl st h, OF Nil]] show ?case by (simp del: fun_upd_apply)
next
  case (Cons x xs)
  note s = round_step.give_round [of tk t c x xs pl st h, OF Cons.prems]
  have "(round_step pl)\<^sup>*\<^sup>* (give_one pl c x st, tk(t := Giving c xs), h)
      (st\<lparr>central := return_loop pl c (x # xs) (central st)\<rparr>, tk(t := Idle), h)"
    using Cons.IH [of "tk(t := Giving c xs)" "give_one pl c x st"]
    by (simp add: give_one_def fun_upd_same del: fun_upd_apply)
  with s show ?case by (rule converse_rtranclp_into_rtranclp)
qed

text \<open>A thread that waits for a free lock.\<close>

lemma wait_run:
  assumes t: "tk t = Waiting c xs" and "lock_free tk c" and c: "c < class_count" "xs \<noteq> []"
  shows "(round_step pl)\<^sup>*\<^sup>* (st, tk, h) (st\<lparr>central := return_range pl xs c (central st)\<rparr>, tk(t := Idle), h)"
proof -
  note s = round_step.give_begin [of tk t c xs pl st h, OF t assms(2)]
  have "(round_step pl)\<^sup>*\<^sup>* (st, tk(t := Giving c xs), h)
      (st\<lparr>central := return_range pl xs c (central st)\<rparr>, tk(t := Idle), h)"
    using give_run [of "tk(t := Giving c xs)" t c xs pl st h] c by (simp add: return_range_def)
  with s show ?thesis by (rule converse_rtranclp_into_rtranclp)
qed

section \<open>Uninterrupted calls\<close>

lemma set_class_central: "(set_class t c l n st)\<lparr>central := cc\<rparr> = set_class t c l n (st\<lparr>central := cc\<rparr>)"
  by (cases st) (simp add: set_class_def)

lemma lock_free_upd: "lock_free tk c \<Longrightarrow> locked k \<noteq> Some c \<Longrightarrow> lock_free (tk(t := k)) c"
  by (simp add: lock_free_def)

lemma allocate_run:
  assumes idle: "tk t = Idle" and lock: "lock_free tk (class_of n)" and eq: "tc_allocate pl t n st = (r, st')"
  shows "(round_step pl)\<^sup>*\<^sup>* (st, tk, h) (st', tk, case r of None \<Rightarrow> h | Some p \<Rightarrow> h(p \<mapsto> n))"
proof (cases "norm_bytes n > max_bytes")
  case True
  then have "allocate_large pl (norm_bytes n) st = (r, st')"
    using eq by (simp add: tc_allocate_def norm_bytes_def Let_def split: if_splits)
  from run1 [OF round_step.large_alloc [of tk t n pl st r st' h, OF idle True this]] show ?thesis .
next
  case False
  let ?c = "class_of n"
  have n: "norm_bytes n \<le> max_bytes" using False by simp
  show ?thesis
  proof (cases "tc_list (threads st t) ?c")
    case (Cons x l)
    then have "r = Some x" "st' = set_class t ?c l (tc_size (threads st t) ?c - 1) st"
      using eq False by (auto simp: tc_allocate_def norm_bytes_def Let_def split: if_splits)
    with run1 [OF round_step.take_cached [of tk t n st x l pl h, OF idle n Cons]] show ?thesis by simp
  next
    case Nil
    let ?b = "get_batch_num (get_size ?c)"
    have f: "fetch_from_central pl t ?c st = (r, st')"
      using eq False Nil by (simp add: tc_allocate_def norm_bytes_def Let_def split: if_splits)
    obtain xs cc where l: "fetch_loop pl ?c ?b (central st) = (xs, cc)" by fastforce
    have r: "fetch_range pl ?c ?b (central st) = (xs, cc)"
      using l class_of_less [OF n] by (cases "?b = 0") (auto simp: fetch_range_def)
    let ?tk = "tk(t := Fetching n ?b [])"
    have s1: "(round_step pl)\<^sup>*\<^sup>* (st, tk, h) (st, ?tk, h)"
      by (rule run1 [OF round_step.fetch_begin [of tk t n st pl h, OF idle n Nil lock]])
    have s2: "(round_step pl)\<^sup>*\<^sup>* (st, ?tk, h) (st\<lparr>central := cc\<rparr>, tk(t := Fetching n 0 xs), h)"
      using fetch_run [of ?tk t n ?b "[]" pl st xs cc h] l by simp
    have s3: "(round_step pl)\<^sup>*\<^sup>* (st\<lparr>central := cc\<rparr>, tk(t := Fetching n 0 xs), h)
        (st', tk, case r of None \<Rightarrow> h | Some p \<Rightarrow> h(p \<mapsto> n))"
    proof (cases xs)
      case Nil
      with f r have "r = None" "st' = st\<lparr>central := cc\<rparr>" by (simp_all add: fetch_from_central_def)
      with run1 [OF round_step.fetch_fail [of "tk(t := Fetching n 0 xs)" t n pl "st\<lparr>central := cc\<rparr>" h]] idle Nil
      show ?thesis by (simp add: fun_upd_idem)
    next
      case (Cons x l)
      with f r have "r = Some x" "st' = record_central_refill (length (x # l))
          (set_class t ?c l (tc_size (threads st t) ?c + length l) (st\<lparr>central := cc\<rparr>))"
        by (simp_all add: fetch_from_central_def Let_def)
      with run1 [OF round_step.fetch_end [of "tk(t := Fetching n 0 xs)" t n x l pl "st\<lparr>central := cc\<rparr>" h]] idle Cons
      show ?thesis by (simp add: fun_upd_idem)
    qed
    from rtranclp_trans [OF rtranclp_trans [OF s1 s2] s3] show ?thesis .
  qed
qed

lemma return_to_central_cut:
  assumes "cut_list t c st = (st1, rest)" and "c < class_count"
  shows "return_to_central pl t c st
    = (if rest = [] then st1 else st1\<lparr>central := return_range pl rest c (central st1)\<rparr>)"
  using assms by (auto simp: cut_list_def return_to_central_def Let_def split: if_splits)

lemma push_run:
  assumes idle: "tk t = Idle" and lock: "lock_free tk c" and c: "c < class_count"
    and eq: "push_task t c p st = (b, st1, k)"
  shows "b" and "(round_step pl)\<^sup>*\<^sup>* (st1, tk(t := k), h) (push_block pl t c p st, tk, h)"
proof -
  obtain rest where e: "push_cut t c p st = (st1, rest)" "b" "k = give_task c rest"
    using eq by (auto simp: push_task_def split: prod.splits)
  show "b" by (rule e)
  have p: "push_block pl t c p st
      = (if rest = [] then st1 else st1\<lparr>central := return_range pl rest c (central st1)\<rparr>)"
    using e(1) return_to_central_cut [of t c _ st1 rest, OF _ c]
    unfolding push_cut_def push_block_def Let_def by (simp split: if_splits)
  show "(round_step pl)\<^sup>*\<^sup>* (st1, tk(t := k), h) (push_block pl t c p st, tk, h)"
  proof (cases "rest = []")
    case True
    with idle p show ?thesis by (simp add: e(3) give_task_def fun_upd_idem)
  next
    case False
    have "lock_free (tk(t := Waiting c rest)) c" by (rule lock_free_upd [OF lock]) simp
    from wait_run [OF _ this c False, of t pl st1 h] idle False p
    show ?thesis by (simp add: e(3) give_task_def fun_upd_idem)
  qed
qed

lemma free_begin_run:
  assumes idle: "tk t = Idle" and lock: "\<And>c. lock_free tk c"
    and eq: "free_begin pl t p st = (b, st1, k)" and call: "tc_deallocate pl t (Some p) st = (b', st')"
  shows "b' = b" and "(round_step pl)\<^sup>*\<^sup>* (st1, tk(t := k), h) (st', tk, h)"
proof -
  have "b' = b \<and> (round_step pl)\<^sup>*\<^sup>* (st1, tk(t := k), h) (st', tk, h)"
  proof (cases "find_span pl (Some p) (page_cache_of (central st))")
    case None
    with eq call idle show ?thesis by (auto simp: free_begin_def tc_deallocate_def fun_upd_idem)
  next
    case (Some i)
    let ?s = "span_at (page_cache_of (central st)) i"
    show ?thesis
    proof (cases "\<not> is_large ?s \<and> size_class ?s < class_count")
      case True
      then have e: "push_task t (size_class ?s) p st = (b, st1, k)" "size_class ?s < class_count"
        "b'" "st' = push_block pl t (size_class ?s) p st"
        using eq call Some by (simp_all add: free_begin_def tc_deallocate_def Let_def)
      from push_run [OF idle lock e(2,1)] e(3,4) show ?thesis by simp
    next
      case False
      with eq call idle Some show ?thesis
        by (auto simp: free_begin_def tc_deallocate_def Let_def fun_upd_idem split: if_splits)
    qed
  qed
  then show "b' = b" "(round_step pl)\<^sup>*\<^sup>* (st1, tk(t := k), h) (st', tk, h)" by blast+
qed

lemma free_run:
  assumes idle: "tk t = Idle" and lock: "\<And>c. lock_free tk c" and p: "p \<in> dom h"
    and call: "tc_deallocate pl t (Some p) st = (b, st')"
  shows "(round_step pl)\<^sup>*\<^sup>* (st, tk, h) (st', tk, if b then h(p := None) else h)"
proof -
  obtain b0 st1 k where f: "free_begin pl t p st = (b0, st1, k)" by (metis prod_cases3)
  note r = free_begin_run [OF idle lock f call]
  from run1 [OF round_step.free_block [of tk t p h pl st b0 st1 k, OF idle p f]] r(2)
  show ?thesis unfolding r(1) by (rule rtranclp_trans)
qed

lemma free_sized_run:
  assumes idle: "tk t = Idle" and lock: "\<And>c. lock_free tk c" and p: "h p = Some n"
    and call: "tc_deallocate_sized pl t (Some p) n st = (b, st')"
  shows "(round_step pl)\<^sup>*\<^sup>* (st, tk, h) (st', tk, if b then h(p := None) else h)"
proof -
  obtain b0 st1 k where f: "free_sized_begin pl t p n st = (b0, st1, k)" by (metis prod_cases3)
  let ?c = "get_index (round_up (norm_bytes n))"
  have r: "b = b0 \<and> (round_step pl)\<^sup>*\<^sup>* (st1, tk(t := k), h') (st', tk, h')" for h'
  proof (cases "norm_bytes n \<le> max_bytes \<and> ?c < class_count")
    case True
    then have e: "push_task t ?c p st = (b0, st1, k)" "?c < class_count" "b" "st' = push_block pl t ?c p st"
      using f call by (auto simp: free_sized_begin_def tc_deallocate_sized_def norm_bytes_def Let_def split: if_splits)
    from push_run [OF idle lock e(2,1)] e(3,4) show ?thesis by simp
  next
    case False
    then have "free_begin pl t p st = (b0, st1, k)" "tc_deallocate pl t (Some p) st = (b, st')"
      using f call by (auto simp: free_sized_begin_def tc_deallocate_sized_def norm_bytes_def Let_def split: if_splits)
    from free_begin_run [OF idle lock this] show ?thesis by blast
  qed
  from run1 [OF round_step.free_sized [of tk t h p n pl st b0 st1 k, OF idle p f]] conjunct2 [OF r]
  show ?thesis unfolding conjunct1 [OF r] by (rule rtranclp_trans)
qed

lemma flush_run:
  assumes idle: "tk t = Idle" and lock: "\<And>c. lock_free tk c" and "\<forall>c \<in> set cs. c < class_count"
  shows "(round_step pl)\<^sup>*\<^sup>* (st, tk, h) (flush_loop pl t cs st, tk, h)"
  using assms(3)
proof (induction cs arbitrary: st)
  case (Cons c cs)
  let ?l = "tc_list (threads st t) c"
  show ?case
  proof (cases "?l \<noteq> [] \<and> tc_size (threads st t) c > 0")
    case True
    let ?st = "set_class t c [] 0 (st\<lparr>central := return_range pl ?l c (central st)\<rparr>)"
    have c: "c < class_count" using Cons.prems by simp
    have s: "round_step pl (st, tk, h) (set_class t c [] 0 st, tk(t := Waiting c ?l), h)"
      using True c idle by (intro round_step.flush_class) simp_all
    have "lock_free (tk(t := Waiting c ?l)) c" by (rule lock_free_upd [OF lock]) simp
    from wait_run [OF _ this c, of t ?l pl "set_class t c [] 0 st" h] True idle
    have "(round_step pl)\<^sup>*\<^sup>* (set_class t c [] 0 st, tk(t := Waiting c ?l), h) (?st, tk, h)"
      by (simp add: fun_upd_idem set_class_central)
    with s have s1: "(round_step pl)\<^sup>*\<^sup>* (st, tk, h) (?st, tk, h)" by (rule converse_rtranclp_into_rtranclp)
    have "(round_step pl)\<^sup>*\<^sup>* (?st, tk, h) (flush_loop pl t cs ?st, tk, h)"
      by (rule Cons.IH) (use Cons.prems in simp)
    moreover have "flush_loop pl t (c # cs) st = flush_loop pl t cs ?st"
      by (simp only: flush_loop.simps if_P [OF True])
    ultimately show ?thesis using rtranclp_trans [OF s1] by simp
  next
    case False
    then have "flush_loop pl t (c # cs) st = flush_loop pl t cs st" by auto
    with Cons.IH [of st] Cons.prems show ?thesis by simp
  qed
qed simp

text \<open>
  How the two systems of the allocator meet: a call that no other thread interrupts does by its
  rounds what it does as one step of the other system. Both are made of the same operations.
\<close>

lemma calls_are_runs:
  assumes "tk t = Idle" and "\<forall>c. lock_free tk c"
  shows "((round_step pl)\<^sup>*\<^sup>* (st, tk, h) (case tc_allocate pl t n st of
        (None, st') \<Rightarrow> (st', tk, h) | (Some p, st') \<Rightarrow> (st', tk, h(p \<mapsto> n))))
    \<and> (p \<in> dom h \<longrightarrow> (round_step pl)\<^sup>*\<^sup>* (st, tk, h) (case tc_deallocate pl t (Some p) st of
        (freed, st') \<Rightarrow> (st', tk, if freed then h(p := None) else h)))
    \<and> (h p = Some m \<longrightarrow> (round_step pl)\<^sup>*\<^sup>* (st, tk, h) (case tc_deallocate_sized pl t (Some p) m st of
        (freed, st') \<Rightarrow> (st', tk, if freed then h(p := None) else h)))
    \<and> (round_step pl)\<^sup>*\<^sup>* (st, tk, h) (flush_all pl t st, tk, h)"
proof -
  have lock: "lock_free tk c" for c using assms(2) by blast
  obtain r st1 where a: "tc_allocate pl t n st = (r, st1)" by fastforce
  obtain b2 st2 where b: "tc_deallocate pl t (Some p) st = (b2, st2)" by fastforce
  obtain b3 st3 where c: "tc_deallocate_sized pl t (Some p) m st = (b3, st3)" by fastforce
  show ?thesis
    using allocate_run [OF assms(1) lock a, of h] free_run [OF assms(1) lock _ b, of h]
      free_sized_run [OF assms(1) lock _ c, of h] flush_run [OF assms(1) lock, of "[0..<class_count]" pl st h]
    unfolding a b c flush_all_def by (auto split: option.splits)
qed

section \<open>No dead end\<close>

definition busy :: "(nat \<Rightarrow> task) \<Rightarrow> nat set" where
  "busy tk = {t. tk t \<noteq> Idle}"

lemma busy_step: "round_step pl (st, tk, h) (st', tk', h') \<Longrightarrow> \<exists>t. busy tk' \<subseteq> insert t (busy tk)"
  by (erule round_stepE) (auto simp: busy_def)

lemma busy_finite:
  assumes "(round_step pl)\<^sup>*\<^sup>* s s'" and "finite (busy (fst (snd s)))"
  shows "finite (busy (fst (snd s')))"
  using assms
proof (induction rule: rtranclp_induct)
  case (step y z)
  obtain st tk h st' tk' h' where yz: "y = (st, tk, h)" "z = (st', tk', h')" by (metis prod_cases3)
  with busy_step step.hyps(2) obtain t where "busy tk' \<subseteq> insert t (busy tk)" by blast
  with step.IH [OF step.prems] show ?case unfolding yz by (auto intro: finite_subset)
qed

text \<open>A thread that holds a lock, or waits for one nobody holds, finishes by its own rounds.\<close>

lemma finish_fetch:
  assumes ok: "rounds_ok pl mapped (st, tk, h)" and pl: "platform_ok pl mapped"
    and t: "tk t = Fetching n k got"
  shows "\<exists>st' h'. (round_step pl)\<^sup>*\<^sup>* (st, tk, h) (st', tk(t := Idle), h') \<and> h \<subseteq>\<^sub>m h'"
proof -
  obtain xs cc where l: "fetch_loop pl (class_of n) k (central st) = (xs, cc)" by fastforce
  let ?st = "st\<lparr>central := cc\<rparr>" and ?tk = "tk(t := Fetching n 0 (got @ xs))"
  have r: "(round_step pl)\<^sup>*\<^sup>* (st, tk, h) (?st, ?tk, h)" by (rule fetch_run [where tk = tk, OF t l])
  have ok': "rounds_ok pl mapped (?st, ?tk, h)"
    using rounds.steps_invar [OF r, of mapped] ok pl by (simp add: rounds_invar_def)
  show ?thesis
  proof (cases "got @ xs")
    case Nil
    have "round_step pl (?st, ?tk, h) (?st, ?tk(t := Idle), h)"
      by (rule round_step.fetch_fail) (simp add: Nil)
    with r have "(round_step pl)\<^sup>*\<^sup>* (st, tk, h) (?st, ?tk(t := Idle), h)"
      by (rule rtranclp.rtrancl_into_rtrancl)
    then have "(round_step pl)\<^sup>*\<^sup>* (st, tk, h) (?st, tk(t := Idle), h)" by simp
    then show ?thesis using map_le_refl by blast
  next
    case (Cons x ys)
    then have "h x = None" using ok' flight_dest(2) [of ?tk h x t] by (auto elim: rounds_okE)
    then have "h \<subseteq>\<^sub>m h(x \<mapsto> n)" by (auto simp: map_le_def)
    moreover obtain st' where s: "round_step pl (?st, ?tk, h) (st', ?tk(t := Idle), h(x \<mapsto> n))"
      using round_step.fetch_end [of ?tk t n x ys pl ?st h] Cons by (metis fun_upd_same)
    from r s have "(round_step pl)\<^sup>*\<^sup>* (st, tk, h) (st', ?tk(t := Idle), h(x \<mapsto> n))"
      by (rule rtranclp.rtrancl_into_rtrancl)
    then have "(round_step pl)\<^sup>*\<^sup>* (st, tk, h) (st', tk(t := Idle), h(x \<mapsto> n))" by simp
    ultimately show ?thesis by blast
  qed
qed

lemma finish_one:
  assumes ok: "rounds_ok pl mapped (st, tk, h)" and pl: "platform_ok pl mapped" and busy: "busy tk \<noteq> {}"
  shows "\<exists>t st' h'. t \<in> busy tk \<and> (round_step pl)\<^sup>*\<^sup>* (st, tk, h) (st', tk(t := Idle), h') \<and> h \<subseteq>\<^sub>m h'"
proof -
  consider t n k got where "tk t = Fetching n k got" | t c xs where "tk t = Giving c xs"
    | t c xs where "tk t = Waiting c xs" "\<And>d. lock_free tk d"
  proof (cases "\<exists>t d. locked (tk t) = Some d")
    case True
    then obtain t d where "locked (tk t) = Some d" by blast
    with that(1,2) show thesis by (cases "tk t") auto
  next
    case False
    then have free: "lock_free tk d" for d by (auto simp: lock_free_def)
    from busy obtain t where "tk t \<noteq> Idle" by (auto simp: busy_def)
    moreover have "locked (tk t) = None" using False by (cases "locked (tk t)") auto
    ultimately show thesis using that(3) [OF _ free] by (cases "tk t") simp_all
  qed
  then show ?thesis
  proof cases
    case (1 t n k got)
    from finish_fetch [OF ok pl 1] 1 show ?thesis by (intro exI [of _ t]) (simp add: busy_def)
  next
    case (2 t c xs)
    from give_run [where tk = tk, OF 2, of pl st h] 2 map_le_refl [of h]
    show ?thesis unfolding busy_def by force
  next
    case (3 t c xs)
    let ?tk = "tk(t := Giving c xs)"
    have "round_step pl (st, tk, h) (st, ?tk, h)" by (rule round_step.give_begin [OF 3])
    moreover have "(round_step pl)\<^sup>*\<^sup>* (st, ?tk, h)
        (st\<lparr>central := return_loop pl c xs (central st)\<rparr>, tk(t := Idle), h)"
      using give_run [where tk = ?tk and t = t and c = c and xs = xs and pl = pl and st = st and h = h] by simp
    ultimately have "(round_step pl)\<^sup>*\<^sup>* (st, tk, h)
        (st\<lparr>central := return_loop pl c xs (central st)\<rparr>, tk(t := Idle), h)"
      by (rule converse_rtranclp_into_rtranclp)
    with 3 map_le_refl [of h] show ?thesis unfolding busy_def by force
  qed
qed

lemma finish_all:
  assumes "rounds_ok pl mapped (st, tk, h)" and pl: "platform_ok pl mapped" and "finite (busy tk)"
  shows "\<exists>st' h'. (round_step pl)\<^sup>*\<^sup>* (st, tk, h) (st', \<lambda>_. Idle, h') \<and> h \<subseteq>\<^sub>m h'"
  using assms(1,3)
proof (induction "card (busy tk)" arbitrary: st tk h rule: less_induct)
  case less
  show ?case
  proof (cases "busy tk = {}")
    case True
    then have "tk = (\<lambda>_. Idle)" by (auto simp: busy_def fun_eq_iff)
    then show ?thesis using map_le_refl by blast
  next
    case False
    from finish_one [OF less.prems(1) pl False] obtain t st1 h1 where
      t: "t \<in> busy tk" "(round_step pl)\<^sup>*\<^sup>* (st, tk, h) (st1, tk(t := Idle), h1)" "h \<subseteq>\<^sub>m h1" by blast
    have ok: "rounds_ok pl mapped (st1, tk(t := Idle), h1)"
      using rounds.steps_invar [OF t(2), of mapped] less.prems(1) pl by (simp add: rounds_invar_def)
    have b: "busy (tk(t := Idle)) = busy tk - {t}" by (auto simp: busy_def)
    have fin: "finite (busy (tk(t := Idle)))" using less.prems(2) by (simp add: b)
    have "card (busy (tk(t := Idle))) < card (busy tk)"
      unfolding b by (rule card_Diff1_less [OF less.prems(2) t(1)])
    from less.hyps [OF this ok fin] obtain st2 h2 where
      "(round_step pl)\<^sup>*\<^sup>* (st1, tk(t := Idle), h1) (st2, \<lambda>_. Idle, h2)" "h1 \<subseteq>\<^sub>m h2" by blast
    with t(2,3) show ?thesis by (blast intro: rtranclp_trans map_le_trans)
  qed
qed

text \<open>
  C16: no interleaving is a dead end: from every reachable state the threads can finish their calls,
  the lock holders first, and all are idle then; the program still holds every address it held.
\<close>

theorem calls_can_finish:
  assumes "platform_ok pl mapped" and "rounds_start s" and "(round_step pl)\<^sup>*\<^sup>* s (st, tk, h)"
  shows "\<exists>st' h'. (round_step pl)\<^sup>*\<^sup>* (st, tk, h) (st', \<lambda>_. Idle, h') \<and> h \<subseteq>\<^sub>m h'"
proof -
  have "busy (fst (snd s)) = {}" using assms(2) by (auto simp: rounds_start_def busy_def)
  then have "finite (busy tk)" using busy_finite [OF assms(3)] by simp
  from finish_all [OF reachable_rounds [OF assms] assms(1) this] show ?thesis .
qed

theorem calls_can_finish_witness:
  "\<exists>st st' h'. (round_step bump_platform)\<^sup>*\<^sup>* (st, fetching_run, [4096 \<mapsto> 303104]) (st', \<lambda>_. Idle, h')
    \<and> [4096 \<mapsto> 303104] \<subseteq>\<^sub>m h'"
proof -
  obtain st where st: "(round_step bump_platform)\<^sup>*\<^sup>* (kama_new (1, {}), \<lambda>_. Idle, Map.empty)
      (st, fetching_run, [4096 \<mapsto> 303104])" by (rule rounds_run)
  have "rounds_start (kama_new (1, {}) :: (nat \<times> nat set) kama, \<lambda>_. Idle, Map.empty)"
    unfolding rounds_start_def by blast
  from calls_can_finish [OF bump_platform_ok this st] show ?thesis by blast
qed

end
