(* ===== verification/Spec2Isabelle.thy ===== *)
theory Spec2Isabelle
  imports Paged_KV Scheduler Collective Graph_IR Precision KV_Cache Executor Tuners
    Memory_Pool Cache_Bounds Cuda_Host Kama2_Threads Tune_File Debug_Guards Spin_Lock Kama_Objects
    System_Pages Round_Runs
begin

text \<open>
  A model of gpuforge and of the memory allocator it vendors, with the theorems that make them
  correct. Paths are under src/; \<open>gpuforge/x\<close> stands for include/gpuforge/x.hpp with src/x.cpp.

  \<^bold>\<open>The program.\<close> gpuforge is a small inference stack. A compiler builds a module of operator
  nodes, checks its shapes, folds constants, removes dead nodes and fuses chains of nodes; the
  pipeline plans one kernel launch per fused group with tile plans, cost estimates and tuned
  schedules, and the executor walks the launches under a tracer. Next to it stand the kernels
  (CPU and CUDA), the serving side (a request scheduler, a paged and a per-layer KV cache, a
  planner for collectives), tools that measure and tune, and a capacity-bounded memory pool
  whose blocks come from the Kama allocator, a three-level thread cache, central cache and page
  cache design vendored in three versions, of which the library links the third.

  \<^bold>\<open>Theories and sources.\<close>
  \<^item> Prelude: machine integers, exceptions as the left side of a sum, loops that may throw,
    decimal printing, the locale of systems with an invariant.
  \<^item> Tensor_Store (gpuforge/tensor), Kernels (gpuforge/kernels), Precision (gpuforge/precision):
    tensors over an explicit store of shared buffers, the CPU kernels loop by loop, comparison.
  \<^item> Cuda_Gemm, Cuda_Attention, Cuda_Wmma, Cuda_Host (cuda/kernels.cu): the device kernels and the
    host functions that launch them. The tiled product is a transition system of all the threads of
    the grid, statement by statement, with its barriers; the threads of the other two kernels share
    only the output buffer, so a launch is any interleaving of their writes.
  \<^item> Paged_KV and Memory_Pool (gpuforge/memory), KV_Cache (gpuforge/kv_cache), Scheduler
    (gpuforge/scheduler), Collective (gpuforge/collective): the serving side.
  \<^item> Graph_IR (gpuforge/graph); Compiler_IR, Compiler_Passes, Dead_Code and Fusion
    (gpuforge/compiler); Shape_Inference (gpuforge/shape); Tile_Planner (gpuforge/planner);
    Pipeline (gpuforge/pipeline); Executor (gpuforge/executor): the compiler and its back end.
  \<^item> Tuning and Tune_File (gpuforge/tuning), Telemetry (gpuforge/telemetry), Tuners
    (gpuforge/runtime, benchmark, autotune): measuring, and the tuning file with what \<open>operator>>\<close>
    reads of its lines. Ordered_Map is \<open>std::map\<close>.
  \<^item> Size_Class, Page_Cache, Central_Cache, Thread_Cache, Kama_Pool: the allocator
    (vendor_memorypool/v3/src and v3/include/kama), layer by layer; Page_Cache_Safety,
    Page_Cache_Contract, Thread_Cache_Safety, Block_Extents, Extent_Facts and Cache_Bounds hold
    the invariant and the contract of each layer, Kama_System the transition system of a whole
    program that calls the allocator from several threads, Kama_Accounts its statistics. Kama_Rounds
    cuts the calls into the rounds of the loops of \<open>fetchRange\<close> and \<open>returnRange\<close>, which interleave;
    Round_Safety has what holds in every interleaving, Round_Runs shows that calls can finish and how
    rounds make up a call. Span_Lifetimes
    and Debug_Guards are the build with debug guards, Spin_Lock the lock of the central cache
    (Common.h), Kama_Objects \<open>newElement\<close> and \<open>deleteElement\<close>, System_Pages the POSIX half of
    Platform.h.
  \<^item> The versions of the allocator that are not linked: Lock_Free_Pool (vendor_memorypool/v1), a pool
    of slots with a lock-free list, modelled access by access; Kama2_Pages, Kama2_Central and
    Kama2_Threads (vendor_memorypool/v2), where a free list is words of the free blocks themselves.

  \<^bold>\<open>State and operations.\<close> A class is a record of its fields, a method a function from the
  record and the arguments to the new record and the result; a method that throws returns the
  exception as \<open>Inl\<close>. Objects behind pointers live in explicit stores: tensor buffers in a list,
  spans in a map from identifiers, free lists as lists of addresses. \<open>size_t\<close> and \<open>int\<close> are
  numbers with the wrap-around written out where the code can reach it; files are a map from
  paths to text. \<open>float\<close> arithmetic is a
  record of operations, so an equality between a kernel and its reference is one of bits, for any
  rounding; statements about values take the real instance. The clock, \<open>sysconf\<close>, \<open>mmap\<close> and
  \<open>munmap\<close>, how a write to the disk ends, the CUDA runtime, the device's \<open>fmaxf\<close>, \<open>expf\<close> and \<open>mma_sync\<close>, the unspecified order
  \<open>std::sort\<close> gives to equal keys, constructors and destructors of pool elements and the printing
  and reading of floats are arguments, with what is documented of them as named hypotheses.

  \<^bold>\<open>What the lemmas show.\<close> Kernels: equality with a reference definition. Compiler passes: what they
  keep and remove, and preservation of the meaning of a module, which is defined apart from the passes
  (\<open>eval_nodes\<close>: every node a shape and elements, sums and products broadcast as the validator
  allows). Constant folding looks at neither shapes nor types, so its meaning lemmas have as a condition
  that the operands of a folded sum or product have the shape of the result and that a folded cast
  changes no element (\<open>folds_exact\<close>); \<open>constant_fold_ignores_broadcast\<close> shows what happens otherwise.
  Caches and pools: an invariant that every operation
  keeps, refinement of an abstract specification (a map from sequences to bytes, a bounded set of
  blocks), round trips. The paged store is followed under clients that release by number only pages they
  acquired, and up to the last sequence number, for \<open>release_held_page_aliases\<close> and
  \<open>append_drops_sequences\<close> show that other calls break it. The allocator: in every state any number of threads can reach, memory
  handed out is mapped, aligned, large enough and disjoint from all other memory held, what is
  freed is found again, the statistics tell the truth, ending the process unmaps everything. Memory
  held stays so however the threads' rounds interleave; a call left alone does by its rounds what it
  does as one step, and no interleaving is a dead end. A thread's lists stay within their limits. With
  the debug guards memory stays so for programs that free any address, any number of times, with any
  size but one on the other side of \<open>MAX_BYTES\<close> than the size of a held address
  (\<open>oversized_free_loses_block\<close> and \<open>undersized_free_of_large\<close> show why), and the guards
  change nothing for the others. The spin lock lets one thread in at a time, its critical sections
  leave what they leave one after the other, and under any schedule it is passed on: progress of the
  lock, not of each thread, for it is not fair. An element whose constructor throws
  gives its memory back. A tuning file gives back the results that were saved, as their printed digits
  tell them, so a new tuner answers from it, as fast as the first up to these digits.
  Scheduler: fairness and limits. GPU: every interleaving of the tiled product ends, without an
  access out of bounds, in the reference product, and each host function returns what its CPU
  counterpart does (attention: what it does with the device's \<open>expf\<close> for its exponential) and frees its
  buffers on every path, exceptions included; \<open>cudaFree\<close> itself, whose result the code drops, is taken
  to free. The first allocator's
  lock-free list refines a stack and hands a slot to one thread at a time, tags and spurious
  failures included. The second allocator's loops over linked words end and act as list operations;
  its page cache keeps spans apart and merged, while the lemmas \<open>v2_delayed_return_frees_used_span\<close>,
  \<open>v2_list_lost\<close> and \<open>v2_single_block_garbage\<close> exhibit three defects of the layers above.
  Interfaces between layers are locales (\<open>invariant_system\<close>,
  \<open>float_order\<close>, \<open>fresh_blocks\<close> and those of the components), interpreted on the model itself.

  \<^bold>\<open>Bounds and fuel.\<close> Loops over containers are structural; other loops carry a measure, so no
  definition runs on fuel except where its own text block says so and a lemma shows it suffices. A
  loop that follows pointers is a partial function into an option, and the theorems that use it
  show that it returns.

  \<^bold>\<open>Not modelled.\<close> The examples and tests; the Windows branches of Platform.h, whose
  \<open>VirtualFree\<close> ignores the length. A round of the allocator's loops is one step, with its calls of
  the page cache, each under that cache's mutex, and its writes to spans only it can reach. The
  guarded calls and the counters of the statistics belong to calls taken as one step. The lock-free
  pool and the spin lock are sequentially consistent: the relaxed orders of the pool's accesses are
  not modelled. The calls of the second version are one step each, and its theorems on thread
  caches follow one thread. The block loops of the CPU kernels do not wrap, as the code's do on matrices
  without elements with a side near \<open>2 ^ 64\<close>. A compiler may
  contract a multiplication and an addition; the model does not.
\<close>

end
